(* ===== verification/Prelude.thy ===== *)
theory Prelude
  imports Main "HOL-Library.Word" "HOL-Library.List_Lexorder" "HOL-Library.Multiset"
begin

text \<open>
  The shared layer of the development: bytes and byte strings, the conversions of Go's
  \<open>encoding/binary\<close> and \<open>math/big\<close> between integers and byte strings, \<open>bytes.Compare\<close>,
  \<open>encoding/hex\<close>, and the generic list and option lemmas the component theories use.
  Everything here models the Go language or its standard library, so nothing of this theory
  is mapped to a file of the repository.

  Go results \<open>(T, error)\<close> are values of a sum type: \<^theory_text>\<open>Inl e\<close> is the error return,
  \<^theory_text>\<open>Inr v\<close> the ordinary one.
\<close>

unbundle bit_operations_syntax

section \<open>Names of the model's basic types\<close>

type_synonym byte = "8 word"
type_synonym bytes = "8 word list"
type_synonym u8 = "8 word"
type_synonym u16 = "16 word"
type_synonym u32 = "32 word"
type_synonym u64 = "64 word"

text \<open>
  \<open>codec\<close> collects the equations that evaluate encoders and decoders, \<open>inv_intro\<close> the
  lemmas that say an operation keeps its component's invariant.
\<close>

named_theorems codec
named_theorems inv_intro

section \<open>Strings and keys\<close>

definition str_bytes :: "string \<Rightarrow> bytes" where
  "str_bytes s = map (\<lambda>c. of_nat (of_char c)) s"

lemma str_bytes_Nil [simp]: "str_bytes [] = []"
  by (simp add: str_bytes_def)

lemma str_bytes_Cons [simp]: "str_bytes (c # s) = of_nat (of_char c) # str_bytes s"
  by (simp add: str_bytes_def)

lemma length_str_bytes [simp]: "length (str_bytes s) = length s"
  by (simp add: str_bytes_def)

text \<open>The decimal digits of a number, as \<open>%d\<close> prints them.\<close>

fun decimal :: "nat \<Rightarrow> bytes" where
  "decimal n = (if n < 10 then [of_nat (48 + n)] else decimal (n div 10) @ [of_nat (48 + n mod 10)])"

declare decimal.simps [simp del]

text \<open>\<open>strings.HasPrefix\<close>, the search of \<open>strings.Index\<close> and \<open>strings.SplitAfter\<close>.\<close>

definition has_prefix :: "bytes \<Rightarrow> bytes \<Rightarrow> bool" where
  "has_prefix pre key \<longleftrightarrow> take (length pre) key = pre"

fun find_sub :: "bytes \<Rightarrow> bytes \<Rightarrow> nat option" where
  "find_sub sep [] = (if has_prefix sep [] then Some 0 else None)"
| "find_sub sep (b # s) =
     (if has_prefix sep (b # s) then Some 0 else map_option Suc (find_sub sep s))"

function split_after :: "bytes \<Rightarrow> bytes \<Rightarrow> bytes list" where
  "split_after sep s =
     (case find_sub sep s of
        None \<Rightarrow> [s]
      | Some i \<Rightarrow>
          if sep = [] \<or> s = [] then [s]
          else take (i + length sep) s # split_after sep (drop (i + length sep) s))"
  by pat_completeness auto
termination
  by (relation "measure (\<lambda>(sep, s). length s)") (auto simp: min_def)

declare split_after.simps [simp del]

lemma has_prefix_append [simp]: "has_prefix pre (pre @ s)"
  by (simp add: has_prefix_def)

lemma find_sub_0: "has_prefix sep s \<Longrightarrow> find_sub sep s = Some 0"
  by (cases s) auto

text \<open>A separator with a byte the string does not have is not found.\<close>

lemma has_prefix_set: "b \<in> set sep \<Longrightarrow> has_prefix sep s \<Longrightarrow> b \<in> set s"
  unfolding has_prefix_def by (metis in_set_takeD)

lemma find_sub_None: "b \<in> set sep \<Longrightarrow> b \<notin> set s \<Longrightarrow> find_sub sep s = None"
proof (induction s)
  case Nil
  then show ?case using has_prefix_set [of b sep "[]"] by auto
next
  case (Cons c s)
  then have "\<not> has_prefix sep (c # s)" using has_prefix_set [of b sep "c # s"] by blast
  with Cons show ?case by simp
qed

lemma split_after_prefix:
  assumes "b \<in> set pre" "b \<notin> set s"
  shows "split_after pre (pre @ s) = [pre, s]"
proof -
  have ne: "pre \<noteq> []" using assms(1) by auto
  have "split_after pre s = [s]"
    by (subst split_after.simps) (simp add: find_sub_None [OF assms])
  then show ?thesis
    using ne by (subst split_after.simps) (simp add: find_sub_0)
qed

section \<open>Lists\<close>

text \<open>The index of the first element that satisfies a test: the shape of every search loop.\<close>

fun find_index :: "('a \<Rightarrow> bool) \<Rightarrow> 'a list \<Rightarrow> nat option" where
  "find_index p [] = None"
| "find_index p (x # xs) =
     (if p x then Some 0 else map_option Suc (find_index p xs))"

lemma find_index_None: "find_index p xs = None \<longleftrightarrow> (\<forall>x \<in> set xs. \<not> p x)"
  by (induction xs) auto

lemma find_index_SomeD:
  "find_index p xs = Some i \<Longrightarrow> i < length xs \<and> p (xs ! i) \<and> (\<forall>j < i. \<not> p (xs ! j))"
proof (induction xs arbitrary: i)
  case (Cons x xs)
  show ?case
  proof (cases "p x")
    case False
    with Cons.prems obtain k where "find_index p xs = Some k" "i = Suc k" by auto
    with Cons.IH [of k] False show ?thesis
      by (auto simp: nth_Cons split: nat.splits)
  qed (use Cons.prems in auto)
qed simp

text \<open>\<open>append(s[:i], s[i+1:]...)\<close>\<close>

definition remove_at :: "nat \<Rightarrow> 'a list \<Rightarrow> 'a list" where
  "remove_at i xs = take i xs @ drop (Suc i) xs"

lemma length_remove_at [simp]: "i < length xs \<Longrightarrow> length (remove_at i xs) = length xs - 1"
  by (simp add: remove_at_def)

lemma mset_nth_split: "i < length xs \<Longrightarrow> mset xs = add_mset (xs ! i) (mset (remove_at i xs))"
  by (simp add: remove_at_def) (metis id_take_nth_drop mset.simps(2) mset_append union_mset_add_mset_right)

section \<open>encoding/binary and math/big: integers and byte strings\<close>

text \<open>
  Big-endian encoding of a natural number in \<open>n\<close> bytes (the high part is cut off, as
  the fixed-width \<open>PutUint\<close> routines never see it) and its inverse, which is also
  \<open>big.Int.SetBytes\<close>. Little-endian encodings are the reversed strings.
\<close>

fun be_of_nat :: "nat \<Rightarrow> nat \<Rightarrow> bytes" where
  "be_of_nat 0 v = []"
| "be_of_nat (Suc n) v = be_of_nat n (v div 256) @ [of_nat v]"

definition be_to_nat :: "bytes \<Rightarrow> nat" where
  "be_to_nat bs = foldl (\<lambda>a b. 256 * a + unat b) 0 bs"

definition le_of_nat :: "nat \<Rightarrow> nat \<Rightarrow> bytes" where
  "le_of_nat n v = rev (be_of_nat n v)"

definition le_to_nat :: "bytes \<Rightarrow> nat" where
  "le_to_nat bs = be_to_nat (rev bs)"

text \<open>\<open>big.Int.Bytes\<close>: the shortest big-endian encoding, empty for zero.\<close>

fun nat_bytes :: "nat \<Rightarrow> bytes" where
  "nat_bytes v = (if v = 0 then [] else nat_bytes (v div 256) @ [of_nat v])"

declare nat_bytes.simps [simp del]

lemma be_to_nat_Nil [simp, codec]: "be_to_nat [] = 0"
  by (simp add: be_to_nat_def)

lemma be_to_nat_snoc [simp]: "be_to_nat (bs @ [b]) = 256 * be_to_nat bs + unat b"
  by (simp add: be_to_nat_def)

lemma length_be_of_nat [simp]: "length (be_of_nat n v) = n"
  by (induction n arbitrary: v) auto

lemma length_le_of_nat [simp]: "length (le_of_nat n v) = n"
  by (simp add: le_of_nat_def)

lemma unat_byte_of_nat: "unat (of_nat v :: byte) = v mod 256"
  by (simp add: unat_of_nat)

lemma be_to_of_nat: "be_to_nat (be_of_nat n v) = v mod 256 ^ n"
proof (induction n arbitrary: v)
  case (Suc n)
  have "v mod (256 * 256 ^ n) = 256 * (v div 256 mod 256 ^ n) + v mod 256"
    by (rule mod_mult2_eq)
  then show ?case using Suc by (simp add: unat_byte_of_nat)
qed simp

lemma be_to_of_nat_id [simp]: "v < 256 ^ n \<Longrightarrow> be_to_nat (be_of_nat n v) = v"
  by (simp add: be_to_of_nat)

lemma be_to_nat_bound: "be_to_nat bs < 256 ^ length bs"
proof (induction bs rule: rev_induct)
  case (snoc b bs)
  have "unat b < 256" using unsigned_less [of b] by simp
  with snoc show ?case by simp
qed simp

lemma be_of_to_nat [simp]: "n = length bs \<Longrightarrow> be_of_nat n (be_to_nat bs) = bs"
proof (induction bs arbitrary: n rule: rev_induct)
  case (snoc b bs)
  have b: "unat b < 256" using unsigned_less [of b] by simp
  have "(256 * be_to_nat bs + unat b) div 256 = be_to_nat bs" using b by simp
  moreover have "(of_nat (256 * be_to_nat bs + unat b) :: byte) = b"
    using b by (simp add: word_unat_eq_iff unat_of_nat del: of_nat_add of_nat_mult)
  ultimately show ?case using snoc by (simp del: of_nat_add of_nat_mult)
qed simp

lemma le_to_of_nat: "le_to_nat (le_of_nat n v) = v mod 256 ^ n"
  by (simp add: le_to_nat_def le_of_nat_def be_to_of_nat)

lemma le_of_to_nat [simp]: "n = length bs \<Longrightarrow> le_of_nat n (le_to_nat bs) = bs"
  by (simp add: le_to_nat_def le_of_nat_def)

lemma be_to_nat_append: "be_to_nat (xs @ ys) = be_to_nat xs * 256 ^ length ys + be_to_nat ys"
  by (induction ys rule: rev_induct) (simp_all add: algebra_simps flip: append_assoc)

lemma be_to_nat_Cons: "be_to_nat (b # bs) = unat b * 256 ^ length bs + be_to_nat bs"
  using be_to_nat_append [of "[b]" bs] be_to_nat_snoc [of "[]" b] by simp

lemma be_to_nat_replicate_0 [simp]: "be_to_nat (replicate n 0) = 0"
  by (induction n) (simp_all add: be_to_nat_Cons)

lemma be_to_nat_bytes [simp]: "be_to_nat (nat_bytes v) = v"
proof (induction v rule: nat_bytes.induct)
  case (1 v)
  then show ?case by (subst nat_bytes.simps) (simp add: unat_byte_of_nat)
qed

lemma length_nat_bytes: "v < 256 ^ n \<Longrightarrow> length (nat_bytes v) \<le> n"
proof (induction n arbitrary: v)
  case 0
  then show ?case by (simp add: nat_bytes.simps)
next
  case (Suc n)
  from Suc.prems have "v div 256 < 256 ^ n" by (simp add: div_less_iff_less_mult mult.commute)
  from Suc.IH [OF this] show ?case by (subst nat_bytes.simps) simp
qed

lemma be_of_nat_pad:
  assumes "v < 256 ^ n"
  shows "be_of_nat n v = replicate (n - length (nat_bytes v)) 0 @ nat_bytes v"
proof -
  let ?bs = "replicate (n - length (nat_bytes v)) 0 @ nat_bytes v"
  have "length ?bs = n" using length_nat_bytes [OF assms] by simp
  moreover have "be_to_nat ?bs = v" by (simp add: be_to_nat_append)
  ultimately show ?thesis using be_of_to_nat [of n ?bs] by simp
qed

section \<open>Counting up a word\<close>

lemma unat_inc_less:
  fixes a b :: "'a :: len word"
  assumes "a < b"
  shows "unat (a + 1) = Suc (unat a)"
proof -
  have "unat a < unat b" using assms by (simp add: word_less_nat_alt)
  moreover have "unat b < 2 ^ LENGTH('a)" by (rule unsigned_less)
  ultimately have "Suc (unat a) < 2 ^ LENGTH('a)" by linarith
  then show ?thesis by (simp add: unat_word_ariths)
qed

section \<open>Slices\<close>

text \<open>\<open>copy(dst[off:], src)\<close>: it writes as many elements as fit.\<close>

definition copy_at :: "'a list \<Rightarrow> nat \<Rightarrow> 'a list \<Rightarrow> 'a list" where
  "copy_at dst off src =
     take off dst @ take (length dst - off) src @ drop (off + length src) dst"

lemma length_copy_at [simp]: "off \<le> length dst \<Longrightarrow> length (copy_at dst off src) = length dst"
  by (simp add: copy_at_def)

lemma copy_at_full [simp]: "length xs = n \<Longrightarrow> copy_at (replicate n z) 0 xs = xs"
  by (simp add: copy_at_def)

lemma copy_at_append:
  "length xs = n \<Longrightarrow> copy_at (xs @ ys) n zs = xs @ take (length ys) zs @ drop (length zs) ys"
  by (simp add: copy_at_def)

lemma copy_at_into_zeros:
  "length xs = n \<Longrightarrow> length zs \<le> m \<Longrightarrow>
   copy_at (xs @ replicate m z) n zs = (xs @ zs) @ replicate (m - length zs) z"
  by (simp add: copy_at_append)

text \<open>\<open>buf[a:b]\<close>\<close>

definition slice :: "nat \<Rightarrow> nat \<Rightarrow> 'a list \<Rightarrow> 'a list" where
  "slice a b xs = take (b - a) (drop a xs)"

lemma length_slice [simp]: "b \<le> length xs \<Longrightarrow> length (slice a b xs) = b - a"
  by (simp add: slice_def)

section \<open>bytes.Compare and encoding/hex\<close>

fun bytes_compare :: "bytes \<Rightarrow> bytes \<Rightarrow> int" where
  "bytes_compare [] [] = 0"
| "bytes_compare [] (_ # _) = -1"
| "bytes_compare (_ # _) [] = 1"
| "bytes_compare (x # xs) (y # ys) =
     (if x < y then -1 else if y < x then 1 else bytes_compare xs ys)"

lemma bytes_compare_lex:
  "bytes_compare xs ys = (if xs < ys then -1 else if xs = ys then 0 else 1)"
  by (induction xs ys rule: bytes_compare.induct) auto

lemma bytes_compare_eq_0 [simp]: "bytes_compare xs ys = 0 \<longleftrightarrow> xs = ys"
  by (simp add: bytes_compare_lex)

lemma bytes_compare_eq_m1 [simp]: "bytes_compare xs ys = -1 \<longleftrightarrow> xs < ys"
  by (simp add: bytes_compare_lex)

lemma bytes_compare_eq_1 [simp]: "bytes_compare xs ys = 1 \<longleftrightarrow> ys < xs"
  by (auto simp: bytes_compare_lex)

text \<open>
  Fixed-length big-endian strings compare as the numbers they encode, which is what makes
  an ordered key-value store iterate in numeric order.
\<close>

lemma be_less_iff:
  "length xs = length ys \<Longrightarrow> xs < ys \<longleftrightarrow> be_to_nat xs < be_to_nat ys"
proof (induction xs ys rule: list_induct2)
  case (Cons x xs y ys)
  have bx: "be_to_nat xs < 256 ^ length ys" using be_to_nat_bound [of xs] Cons by simp
  have byy: "be_to_nat ys < 256 ^ length ys" by (rule be_to_nat_bound)
  show ?case
  proof (cases "unat x" "unat y" rule: linorder_cases)
    case less
    then have "Suc (unat x) * 256 ^ length ys \<le> unat y * 256 ^ length ys"
      by (intro mult_right_mono) auto
    with less bx Cons show ?thesis by (simp add: be_to_nat_Cons word_less_nat_alt)
  next
    case equal
    then have "x = y" by (simp add: word_unat_eq_iff)
    with Cons show ?thesis by (simp add: be_to_nat_Cons)
  next
    case greater
    then have "Suc (unat y) * 256 ^ length ys \<le> unat x * 256 ^ length ys"
      by (intro mult_right_mono) auto
    with greater byy Cons show ?thesis by (auto simp: be_to_nat_Cons word_less_nat_alt)
  qed
qed simp

definition hex_digit :: "nat \<Rightarrow> byte" where
  "hex_digit d = of_nat (if d < 10 then 48 + d else 87 + d)"

fun hex_value :: "byte \<Rightarrow> nat option" where
  "hex_value c =
     (if 48 \<le> c \<and> c \<le> 57 then Some (unat c - 48)
      else if 97 \<le> c \<and> c \<le> 102 then Some (unat c - 87)
      else if 65 \<le> c \<and> c \<le> 70 then Some (unat c - 55)
      else None)"

fun hex_encode :: "bytes \<Rightarrow> bytes" where
  "hex_encode [] = []"
| "hex_encode (b # bs) = hex_digit (unat b div 16) # hex_digit (unat b mod 16) # hex_encode bs"

text \<open>\<open>hex.DecodeString\<close>: \<^theory_text>\<open>None\<close> for an odd length or a character that is no hex digit.\<close>

fun hex_decode :: "bytes \<Rightarrow> bytes option" where
  "hex_decode [] = Some []"
| "hex_decode [_] = None"
| "hex_decode (a # b # cs) =
     (case (hex_value a, hex_value b, hex_decode cs) of
        (Some x, Some y, Some bs) \<Rightarrow> Some (of_nat (16 * x + y) # bs)
      | _ \<Rightarrow> None)"

lemma hex_value_digit: "d < 16 \<Longrightarrow> hex_value (hex_digit d) = Some d"
  by (auto simp: hex_digit_def word_le_nat_alt unat_of_nat)

lemma hex_decode_encode [simp]: "hex_decode (hex_encode bs) = Some bs"
proof (induction bs)
  case (Cons b bs)
  have "unat b < 256" using unsigned_less [of b] by simp
  then have "unat b div 16 < 16" by simp
  moreover have "(of_nat (16 * (unat b div 16) + unat b mod 16) :: byte) = b"
    by (simp only: mult_div_mod_eq of_nat_unat ucast_id)
  ultimately show ?case
    using Cons by (simp add: hex_value_digit del: hex_value.simps)
qed simp

text \<open>The digits are no underscores, which the key prefixes of the stores end in.\<close>

lemma hex_digit_no_underscore: "d < 16 \<Longrightarrow> hex_digit d \<noteq> 95"
  by (auto simp: hex_digit_def word_unat_eq_iff unat_of_nat)

lemma hex_encode_no_underscore: "95 \<notin> set (hex_encode bs)"
proof (induction bs)
  case (Cons b bs)
  have "unat b < 256" using unsigned_less [of b] by simp
  then have "unat b div 16 < 16" by simp
  with Cons hex_digit_no_underscore [of "unat b div 16"] hex_digit_no_underscore [of "unat b mod 16"]
  show ?case by auto
qed simp

lemma hex_encode_inj [simp]: "hex_encode xs = hex_encode ys \<longleftrightarrow> xs = ys"
  by (metis hex_decode_encode option.inject)

end
