(* ===== verification/Bit_Vector.thy ===== *)
theory Bit_Vector
  imports Prelude
begin

text \<open>
  \<open>pkg/bitvector\<close>: a byte slice read as a vector of bits. The specification is the function
  from indices to bits; \<open>Set\<close> updates it at one index.
\<close>

section \<open>Representation\<close>

record bitvector =
  bv_len :: int
  bv_b :: bytes

datatype bitvector_error = ErrInvalidLength | PanicNegativeMake

definition NewFromBytes :: "bytes \<Rightarrow> int \<Rightarrow> bitvector_error + bitvector" where
  "NewFromBytes b l =
     (if l \<le> 0 then Inl ErrInvalidLength
      else if int (length b) * 8 < l then Inl ErrInvalidLength
      else Inr \<lparr>bv_len = l, bv_b = b\<rparr>)"

text \<open>
  Go's division truncates towards zero and \<open>make\<close> panics on a negative length, which
  happens here for lengths of -16 and below.
\<close>

definition bv_New :: "int \<Rightarrow> bitvector_error + bitvector" where
  "bv_New l =
     (let n = (if l < 0 then - ((- l) div 8) else l div 8) + 1 in
      if n < 0 then Inl PanicNegativeMake
      else NewFromBytes (replicate (nat n) 0) l)"

definition bv_Get :: "bitvector \<Rightarrow> nat \<Rightarrow> bool" where
  "bv_Get bv i = (let bi = i div 8 in bv_b bv ! bi AND push_bit (i mod 8) 1 \<noteq> 0)"

definition bv_Set :: "nat \<Rightarrow> bitvector \<Rightarrow> bitvector" where
  "bv_Set i bv =
     (let bi = i div 8 in
      if \<not> bv_Get bv i
      then bv\<lparr>bv_b := (bv_b bv) [bi := bv_b bv ! bi XOR push_bit (i mod 8) 1]\<rparr>
      else bv)"

definition bv_Bytes :: "bitvector \<Rightarrow> bytes" where
  "bv_Bytes bv = bv_b bv"

section \<open>The vector as a function from indices to bits\<close>

definition bv_ok :: "bitvector \<Rightarrow> bool" where
  "bv_ok bv \<longleftrightarrow> 0 < bv_len bv \<and> bv_len bv \<le> 8 * int (length (bv_b bv))"

lemma bv_Get_bit: "bv_Get bv i = bit (bv_b bv ! (i div 8)) (i mod 8)"
  by (simp add: bv_Get_def Let_def bit_iff_and_push_bit_not_eq_0)

lemma bit_flip:
  "k < 8 \<Longrightarrow> j < 8 \<Longrightarrow> bit (w XOR 2 ^ k :: byte) j \<longleftrightarrow> bit w j \<noteq> (j = k)"
  by (auto simp: bit_xor_iff bit_exp_iff)

lemma NewFromBytes_ok [inv_intro]: "NewFromBytes b l = Inr bv \<Longrightarrow> bv_ok bv"
  by (auto simp: NewFromBytes_def bv_ok_def split: if_splits)

lemma bv_New_ok: "0 < l \<Longrightarrow> \<exists>bv. bv_New l = Inr bv \<and> bv_ok bv \<and> bv_len bv = l"
  by (auto simp: bv_New_def NewFromBytes_def Let_def bv_ok_def)

lemma bv_New_Get: "bv_New l = Inr bv \<Longrightarrow> i < nat l \<Longrightarrow> \<not> bv_Get bv i"
  by (auto simp: bv_New_def NewFromBytes_def Let_def bv_Get_bit split: if_splits)

lemma bv_Set_ok [inv_intro]: "bv_ok bv \<Longrightarrow> bv_ok (bv_Set i bv)"
  by (simp add: bv_Set_def Let_def bv_ok_def)

lemma bv_Set_len [simp]:
  "bv_len (bv_Set i bv) = bv_len bv" "length (bv_b (bv_Set i bv)) = length (bv_b bv)"
  by (simp_all add: bv_Set_def Let_def)

lemma bv_Set_unset:
  "\<not> bv_Get bv i \<Longrightarrow>
   bv_b (bv_Set i bv) = (bv_b bv) [i div 8 := bv_b bv ! (i div 8) XOR 2 ^ (i mod 8)]"
  by (simp add: bv_Set_def Let_def)

lemma bv_Get_Set:
  assumes "i < 8 * length (bv_b bv)"
  shows "bv_Get (bv_Set i bv) j \<longleftrightarrow> i = j \<or> bv_Get bv j"
proof (cases "bv_Get bv i")
  case True
  then show ?thesis by (auto simp: bv_Set_def)
next
  case False
  have i: "i div 8 < length (bv_b bv)" using assms by (simp add: div_less_iff_less_mult)
  show ?thesis
  proof (cases "i div 8 = j div 8")
    case True
    have m: "j mod 8 = i mod 8 \<longleftrightarrow> i = j" using True by (metis div_mult_mod_eq)
    have "bv_Get (bv_Set i bv) j \<longleftrightarrow> bv_Get bv j \<noteq> (j mod 8 = i mod 8)"
      using i True by (simp add: bv_Get_bit bv_Set_unset [OF False] bit_flip)
    with False show ?thesis unfolding m by blast
  next
    case neq: False
    then have "bv_Get (bv_Set i bv) j \<longleftrightarrow> bv_Get bv j"
      by (simp add: bv_Get_bit bv_Set_unset [OF False])
    with neq show ?thesis by auto
  qed
qed

text \<open>
  setting an index inside a vector that was built without an error makes exactly that
  bit true and leaves every other bit as it was.
\<close>

theorem bitvector_Set_Get:
  assumes "bv_ok bv" "int i < bv_len bv"
  shows "bv_Get (bv_Set i bv) j \<longleftrightarrow> i = j \<or> bv_Get bv j"
  using assms by (intro bv_Get_Set) (simp add: bv_ok_def)

theorem bitvector_Set_Get_witness:
  "bv_Get (bv_Set 9 \<lparr>bv_len = 12, bv_b = [1, 0]\<rparr>) 0"
  using bitvector_Set_Get [of "\<lparr>bv_len = 12, bv_b = [1, 0]\<rparr>" 9 0]
  by (simp add: bv_ok_def bv_Get_bit)

text \<open>The order of the bits: index 0 is the least significant bit of the first byte.\<close>

lemma bv_first_bit: "bv_Get \<lparr>bv_len = 8, bv_b = [1]\<rparr> 0 \<and> \<not> bv_Get \<lparr>bv_len = 8, bv_b = [0x80]\<rparr> 0"
  by code_simp

end
