(* ===== verification/Swarm.thy ===== *)
theory Swarm
  imports Prelude
begin

text \<open>
  \<open>pkg/swarm\<close>: addresses, chunks, the proximity order and the distance metric. The
  specification of the proximity order is the length of the common prefix of the bit
  strings; the locale \<open>proximity_space\<close> states what the protocols rely on (symmetry, the
  ultrametric law) and is interpreted on \<open>Proximity\<close> at the end.
\<close>

section \<open>Addresses (swarm.go)\<close>

datatype address = Address (addr_bytes: bytes)

definition ZeroAddress :: address where
  "ZeroAddress = Address []"

definition NewAddress :: "bytes \<Rightarrow> address" where
  "NewAddress b = Address b"

definition ParseHexAddress :: "bytes \<Rightarrow> address option" where
  "ParseHexAddress s =
     (case hex_decode s of None \<Rightarrow> None | Some b \<Rightarrow> Some (NewAddress b))"

definition addr_String :: "address \<Rightarrow> bytes" where
  "addr_String a = hex_encode (addr_bytes a)"

definition addr_Equal :: "address \<Rightarrow> address \<Rightarrow> bool" where
  "addr_Equal a b \<longleftrightarrow> addr_bytes a = addr_bytes b"

fun MemberOf :: "address \<Rightarrow> address list \<Rightarrow> bool" where
  "MemberOf a [] = False"
| "MemberOf a (v # vs) = (if addr_Equal v a then True else MemberOf a vs)"

definition IsZero :: "address \<Rightarrow> bool" where
  "IsZero a = addr_Equal a ZeroAddress"

definition Clone :: "address \<Rightarrow> address" where
  "Clone a = (let b = copy_at (replicate (length (addr_bytes a)) 0) 0 (addr_bytes a)
              in NewAddress b)"

lemma addr_Equal_eq [simp]: "addr_Equal a b \<longleftrightarrow> a = b"
  by (cases a; cases b) (simp add: addr_Equal_def)

lemma MemberOf_set [simp]: "MemberOf a as \<longleftrightarrow> a \<in> set as"
  by (induction as) auto

lemma addr_bytes_NewAddress [simp]: "addr_bytes (NewAddress b) = b"
  by (simp add: NewAddress_def)

lemma NewAddress_addr_bytes [simp]: "NewAddress (addr_bytes a) = a"
  by (simp add: NewAddress_def)

lemma ParseHexAddress_String [simp]: "ParseHexAddress (addr_String a) = Some a"
  by (simp add: ParseHexAddress_def addr_String_def)

lemma addr_String_inj [simp]: "addr_String a = addr_String b \<longleftrightarrow> a = b"
  by (metis ParseHexAddress_String option.inject)

lemma Clone_id [simp]: "Clone a = a"
  by (simp add: Clone_def copy_at_def)

text \<open>Addresses are ordered as \<open>bytes.Compare\<close> orders them.\<close>

instantiation address :: linorder
begin

definition less_eq_address :: "address \<Rightarrow> address \<Rightarrow> bool" where
  "a \<le> b \<longleftrightarrow> bytes_compare (addr_bytes a) (addr_bytes b) \<noteq> 1"

definition less_address :: "address \<Rightarrow> address \<Rightarrow> bool" where
  "a < b \<longleftrightarrow> bytes_compare (addr_bytes a) (addr_bytes b) = -1"

instance
  by standard (auto simp: less_eq_address_def less_address_def not_less address.expand)

end

section \<open>Chunks (swarm.go)\<close>

text \<open>
  The stamp is an interface in this package, so its type is a parameter of the record; nil
  is \<^theory_text>\<open>None\<close>.
\<close>

record 's chunk =
  ch_addr :: address
  ch_data :: bytes
  ch_tagID :: u32
  ch_stamp :: "'s option"
  ch_radius :: u8
  ch_depth :: u8
  ch_bucketDepth :: u8
  ch_immutable :: bool

definition NewChunk :: "address \<Rightarrow> bytes \<Rightarrow> 's chunk" where
  "NewChunk a d = \<lparr>ch_addr = a, ch_data = d, ch_tagID = 0, ch_stamp = None,
     ch_radius = 0, ch_depth = 0, ch_bucketDepth = 0, ch_immutable = False\<rparr>"

definition WithTagID :: "u32 \<Rightarrow> 's chunk \<Rightarrow> 's chunk" where
  "WithTagID t c = c\<lparr>ch_tagID := t\<rparr>"

definition WithStamp :: "'s \<Rightarrow> 's chunk \<Rightarrow> 's chunk" where
  "WithStamp s c = c\<lparr>ch_stamp := Some s\<rparr>"

definition WithBatch :: "u8 \<Rightarrow> u8 \<Rightarrow> u8 \<Rightarrow> bool \<Rightarrow> 's chunk \<Rightarrow> 's chunk" where
  "WithBatch radius depth bucketDepth immutable c =
     c\<lparr>ch_radius := radius, ch_depth := depth, ch_bucketDepth := bucketDepth,
       ch_immutable := immutable\<rparr>"

definition chunk_Equal :: "'s chunk \<Rightarrow> 's chunk \<Rightarrow> bool" where
  "chunk_Equal c d \<longleftrightarrow> addr_Equal (ch_addr c) (ch_addr d) \<and> ch_data c = ch_data d"

section \<open>Proximity (proximity.go)\<close>

definition MaxPO :: u8 where "MaxPO = 31"
definition ExtendedPO :: u8 where "ExtendedPO = MaxPO + 5"
definition MaxBins :: u8 where "MaxBins = MaxPO + 1"

text \<open>The inner loop over the bits of a byte, most significant first.\<close>

function prox_byte :: "byte \<Rightarrow> nat \<Rightarrow> nat option" where
  "prox_byte oxo j =
     (if j < 8
      then if drop_bit (7 - j) oxo AND 1 \<noteq> 0 then Some j else prox_byte oxo (Suc j)
      else None)"
  by pat_completeness auto
termination
  by (relation "measure (\<lambda>(oxo, j). 8 - j)") auto

declare prox_byte.simps [simp del]

text \<open>The outer loop over the bytes of the two prefixes, with its index.\<close>

fun prox_bytes :: "nat \<Rightarrow> bytes \<Rightarrow> bytes \<Rightarrow> nat option" where
  "prox_bytes i (x # xs) (y # ys) =
     (case prox_byte (x XOR y) 0 of
        Some j \<Rightarrow> Some (i * 8 + j)
      | None \<Rightarrow> prox_bytes (Suc i) xs ys)"
| "prox_bytes i _ _ = None"

text \<open>
  The number of bytes compared: \<open>max/8 + 1\<close>, cut to the lengths of the two strings,
  which the code truncates to \<open>uint8\<close>.
\<close>

definition prox_len :: "u8 \<Rightarrow> bytes \<Rightarrow> bytes \<Rightarrow> nat" where
  "prox_len maxpo one other =
     (let b = maxpo div 8 + 1;
          l = of_nat (length one); b = (if b > l then l else b);
          l = of_nat (length other); b = (if b > l then l else b)
      in unat b)"

definition Proximity :: "bytes \<Rightarrow> bytes \<Rightarrow> u8" where
  "Proximity one other =
     (let b = prox_len MaxPO one other in
      case prox_bytes 0 (take b one) (take b other) of
        Some r \<Rightarrow> of_nat r
      | None \<Rightarrow> MaxPO)"

definition ExtendedProximity :: "bytes \<Rightarrow> bytes \<Rightarrow> u8" where
  "ExtendedProximity one other =
     (let b = prox_len ExtendedPO one other in
      case prox_bytes 0 (take b one) (take b other) of
        Some r \<Rightarrow> of_nat r
      | None \<Rightarrow> ExtendedPO)"

subsection \<open>Specification: the common prefix of the bit strings\<close>

definition byte_bits :: "byte \<Rightarrow> bool list" where
  "byte_bits b = map (\<lambda>j. bit b (7 - j)) [0..<8]"

definition bits_of :: "bytes \<Rightarrow> bool list" where
  "bits_of bs = concat (map byte_bits bs)"

fun cpl :: "'a list \<Rightarrow> 'a list \<Rightarrow> nat" where
  "cpl (x # xs) (y # ys) = (if x = y then Suc (cpl xs ys) else 0)"
| "cpl _ _ = 0"

lemma cpl_sym: "cpl xs ys = cpl ys xs"
  by (induction xs ys rule: cpl.induct) auto

lemma cpl_ultra: "min (cpl xs ys) (cpl ys zs) \<le> cpl xs zs"
proof (induction xs ys arbitrary: zs rule: cpl.induct)
  case (1 x xs y ys)
  then show ?case by (cases zs) (auto simp: min_Suc_Suc simp del: min.absorb3 min.absorb4)
qed auto

lemma cpl_self [simp]: "cpl xs xs = length xs"
  by (induction xs) auto

lemma cpl_append_same [simp]: "cpl (zs @ xs) (zs @ ys) = length zs + cpl xs ys"
  by (induction zs) auto

lemma cpl_append_diff:
  "length as = length bs \<Longrightarrow> as \<noteq> bs \<Longrightarrow> cpl (as @ xs) (bs @ ys) = cpl as bs"
  by (induction as bs rule: list_induct2) auto

lemma cpl_less: "length as = length bs \<Longrightarrow> as \<noteq> bs \<Longrightarrow> cpl as bs < length as"
  by (induction as bs rule: list_induct2) auto

lemma cpl_eq_length: "length as = length bs \<Longrightarrow> cpl as bs = length as \<longleftrightarrow> as = bs"
  using cpl_less by fastforce

lemma cpl_take_le: "cpl (take n xs) (take n ys) = min n (cpl xs ys)"
proof (induction xs ys arbitrary: n rule: cpl.induct)
  case (1 x xs y ys)
  then show ?case by (cases n) auto
qed auto

lemma length_byte_bits [simp]: "length (byte_bits b) = 8"
  by (simp add: byte_bits_def)

lemma byte_bits_inj [simp]: "byte_bits a = byte_bits b \<longleftrightarrow> a = b"
proof
  assume eq: "byte_bits a = byte_bits b"
  show "a = b"
  proof (rule bit_word_eqI)
    fix n assume "n < LENGTH(8)"
    then have n: "7 - n < 8" "7 - (7 - n) = n" by auto
    from eq have "byte_bits a ! (7 - n) = byte_bits b ! (7 - n)" by simp
    with n show "bit a n \<longleftrightarrow> bit b n" by (simp add: byte_bits_def)
  qed
qed simp

lemma bits_of_simps [simp]:
  "bits_of [] = []" "bits_of (b # bs) = byte_bits b @ bits_of bs"
  by (simp_all add: bits_of_def)

lemma length_bits_of [simp]: "length (bits_of bs) = 8 * length bs"
  by (induction bs) auto

lemma bits_of_inj: "length xs = length ys \<Longrightarrow> bits_of xs = bits_of ys \<longleftrightarrow> xs = ys"
  by (induction xs ys rule: list_induct2) auto

lemma take_bits_of: "take (8 * n) (bits_of bs) = bits_of (take n bs)"
proof (induction bs arbitrary: n)
  case (Cons b bs)
  then show ?case by (cases n) (simp_all add: mult_Suc_right)
qed simp

subsection \<open>The loops compute it\<close>

lemma and_1_nonzero: "(drop_bit k w AND 1 \<noteq> 0) = bit (w :: byte) k"
  by (simp add: and_one_eq odd_iff_mod_2_eq_one bit_iff_odd_drop_bit flip: odd_iff_mod_2_eq_one)

lemma prox_byte_step:
  "j < 8 \<Longrightarrow> prox_byte w j = (if bit w (7 - j) then Some j else prox_byte w (Suc j))"
  by (subst prox_byte.simps) (simp add: and_1_nonzero)

lemma prox_byte_end: "8 \<le> j \<Longrightarrow> prox_byte w j = None"
  by (subst prox_byte.simps) simp

lemma prox_byte_cpl:
  "prox_byte (a XOR b) 0 = (if a = b then None else Some (cpl (byte_bits a) (byte_bits b)))"
proof -
  have u: "[0..<8] = [0, 1, 2, 3, 4, 5, 6, 7 :: nat]" by (simp add: upt_rec)
  have e: "a = b \<longleftrightarrow> byte_bits a = byte_bits b" by simp
  show ?thesis unfolding e
    by (simp add: byte_bits_def u prox_byte_step prox_byte_end bit_xor_iff eval_nat_numeral)
qed

lemma prox_bytes_cpl:
  "length xs = length ys \<Longrightarrow>
   prox_bytes i xs ys =
     (if xs = ys then None else Some (i * 8 + cpl (bits_of xs) (bits_of ys)))"
proof (induction xs ys arbitrary: i rule: list_induct2)
  case (Cons x xs y ys)
  show ?case
  proof (cases "x = y")
    case True
    with Cons show ?thesis using prox_byte_cpl [of x y] by simp
  next
    case False
    then show ?thesis by (simp add: prox_byte_cpl cpl_append_diff)
  qed
qed simp

lemma prox_len_short:
  "length one < 256 \<Longrightarrow> length other < 256 \<Longrightarrow> maxpo \<le> 39 \<Longrightarrow>
   prox_len maxpo one other = min (unat maxpo div 8 + 1) (min (length one) (length other))"
proof -
  assume l: "length one < 256" "length other < 256" and m: "maxpo \<le> 39"
  from m have m': "unat maxpo \<le> 39" by (simp add: word_le_nat_alt)
  then have b: "unat (maxpo div 8 + 1) = unat maxpo div 8 + 1"
    by (simp add: unat_word_ariths unat_div)
  have u: "unat (of_nat n :: u8) = n" if "n < 256" for n
    using that by (simp add: unat_of_nat)
  show ?thesis
    using l by (simp add: prox_len_def Let_def word_less_nat_alt u b)
qed

lemma Proximity_unfold:
  assumes "length one < 256" "length other < 256"
  defines "n \<equiv> min 4 (min (length one) (length other))"
  shows "unat (Proximity one other) =
    (if take n one = take n other then 31
     else cpl (bits_of (take n one)) (bits_of (take n other)))"
proof -
  have b: "prox_len MaxPO one other = n"
    using assms by (simp add: prox_len_short MaxPO_def)
  have l: "length (take n one) = length (take n other)" by (simp add: n_def)
  have le: "cpl (bits_of (take n one)) (bits_of (take n other)) < 256"
    if "take n one \<noteq> take n other"
  proof -
    have "cpl (bits_of (take n one)) (bits_of (take n other)) < length (bits_of (take n one))"
      using that l by (intro cpl_less) (simp_all add: bits_of_inj)
    also have "\<dots> \<le> 32" by (simp add: n_def)
    finally show ?thesis by simp
  qed
  show ?thesis
    using l le unfolding Proximity_def b Let_def
    by (simp add: prox_bytes_cpl MaxPO_def unat_of_nat)
qed

lemma Proximity_cpl:
  assumes "4 \<le> length one" "length one < 256" "4 \<le> length other" "length other < 256"
  shows "unat (Proximity one other) = min 31 (cpl (bits_of one) (bits_of other))"
proof -
  let ?a = "bits_of (take 4 one)" and ?b = "bits_of (take 4 other)"
  have ab: "?a = take 32 (bits_of one)" "?b = take 32 (bits_of other)"
    using take_bits_of [of 4 one] take_bits_of [of 4 other] by simp_all
  have l: "length ?a = length ?b" "length ?a = 32" using assms by simp_all
  have c: "cpl ?a ?b = min 32 (cpl (bits_of one) (bits_of other))"
    unfolding ab by (rule cpl_take_le)
  have eq: "take 4 one = take 4 other \<longleftrightarrow> ?a = ?b"
    using assms by (subst bits_of_inj) simp_all
  have p: "unat (Proximity one other) = (if ?a = ?b then 31 else cpl ?a ?b)"
    using assms by (simp add: Proximity_unfold min_def eq)
  show ?thesis
  proof (cases "?a = ?b")
    case True
    then have "cpl ?a ?b = 32" using l by simp
    with c True p show ?thesis by simp
  next
    case False
    then have "cpl ?a ?b < 32" using l cpl_less by metis
    with c False p show ?thesis by simp
  qed
qed

text \<open>
  C14: on addresses of at least four bytes (an overlay address has 32) the proximity order is
  the number of leading bits the two addresses share, cut at \<open>MaxPO\<close>, which is 31: an address
  has proximity 31 with itself and with every address that shares its first 31 bits, where the
  comment on the function has 256 for itself and 255 for the closest.
\<close>

theorem Proximity_common_prefix:
  assumes "4 \<le> length one" "length one < 256" "4 \<le> length other" "length other < 256"
  shows "unat (Proximity one other) = min 31 (cpl (bits_of one) (bits_of other))"
  using assms by (rule Proximity_cpl)

theorem Proximity_common_prefix_witness:
  "unat (Proximity [0x12, 0x34, 0x56, 0x78] [0x12, 0x34, 0x57, 0x78]) = 23"
proof -
  have "cpl (bits_of [0x12, 0x34, 0x56, 0x78]) (bits_of [0x12, 0x34, 0x57, 0x78]) = 23"
    by code_simp
  then show ?thesis
    using Proximity_common_prefix [of "[0x12, 0x34, 0x56, 0x78]" "[0x12, 0x34, 0x57, 0x78]"]
    by simp
qed

lemma Proximity_sym: "Proximity one other = Proximity other one"
proof -
  have l: "prox_len m one other = prox_len m other one" for m
    by (simp add: prox_len_def Let_def) (auto simp: not_less)
  have b: "prox_bytes i xs ys = prox_bytes i ys xs" for i xs ys
    by (induction i xs ys rule: prox_bytes.induct) (auto simp: xor.commute split: option.splits)
  show ?thesis by (simp add: Proximity_def l [of MaxPO] b Let_def)
qed

lemma Proximity_le_MaxPO:
  "length one < 256 \<Longrightarrow> length other < 256 \<Longrightarrow> unat (Proximity one other) \<le> 31"
proof -
  assume a: "length one < 256" "length other < 256"
  let ?n = "min 4 (min (length one) (length other))"
  have "cpl (bits_of (take ?n one)) (bits_of (take ?n other)) < 8 * ?n"
    if "take ?n one \<noteq> take ?n other"
    using that cpl_less [of "bits_of (take ?n one)" "bits_of (take ?n other)"]
    by (simp add: bits_of_inj)
  also have "8 * ?n \<le> 32" by simp
  finally show ?thesis using Proximity_unfold [OF a] by (auto split: if_splits)
qed

subsection \<open>The interface the protocols rely on\<close>

text \<open>
  A proximity order on a set of addresses: symmetric, maximal at the address itself, and
  ultrametric. Neighbourhoods (all addresses at least as close as a depth) are then
  equivalence classes: it does not matter which member a neighbourhood is taken around.
\<close>

locale proximity_space =
  fixes C :: "'a set" and po :: "'a \<Rightarrow> 'a \<Rightarrow> nat" and top :: nat
  assumes po_sym: "po x y = po y x"
    and po_self: "x \<in> C \<Longrightarrow> po x x = top"
    and po_bound: "x \<in> C \<Longrightarrow> y \<in> C \<Longrightarrow> po x y \<le> top"
    and po_ultra: "x \<in> C \<Longrightarrow> y \<in> C \<Longrightarrow> z \<in> C \<Longrightarrow> min (po x y) (po y z) \<le> po x z"
begin

lemma near_trans:
  "x \<in> C \<Longrightarrow> y \<in> C \<Longrightarrow> z \<in> C \<Longrightarrow> d \<le> po x y \<Longrightarrow> d \<le> po y z \<Longrightarrow> d \<le> po x z"
  using po_ultra [of x y z] by linarith

lemma same_neighbourhood:
  assumes "x \<in> C" "y \<in> C" "z \<in> C" "d \<le> po x y"
  shows "d \<le> po x z \<longleftrightarrow> d \<le> po y z"
  using near_trans [of x y z d] near_trans [of y x z d] assms po_sym [of x y] by auto

lemma isosceles:
  assumes "x \<in> C" "y \<in> C" "z \<in> C" "po x y < po y z"
  shows "po x z = po x y"
proof -
  have "po x y \<le> po x z" using po_ultra [of x y z] assms by simp
  moreover have "min (po x z) (po z y) \<le> po x y" using po_ultra [of x z y] assms by simp
  ultimately show ?thesis using assms(4) po_sym [of y z] by linarith
qed

end

definition overlay :: "address \<Rightarrow> bool" where
  "overlay a \<longleftrightarrow> 4 \<le> length (addr_bytes a) \<and> length (addr_bytes a) < 256"

definition addr_po :: "address \<Rightarrow> address \<Rightarrow> nat" where
  "addr_po a b = unat (Proximity (addr_bytes a) (addr_bytes b))"

lemma addr_po_cpl:
  "overlay a \<Longrightarrow> overlay b \<Longrightarrow>
   addr_po a b = min 31 (cpl (bits_of (addr_bytes a)) (bits_of (addr_bytes b)))"
  unfolding overlay_def addr_po_def by (rule Proximity_cpl) auto

interpretation prox: proximity_space "Collect overlay" addr_po 31
proof
  show "addr_po x y = addr_po y x" for x y
    unfolding addr_po_def by (simp add: Proximity_sym)
  show "addr_po x x = 31" if "x \<in> Collect overlay" for x
    using that by (simp add: addr_po_cpl overlay_def)
  show "addr_po x y \<le> 31" if "x \<in> Collect overlay" "y \<in> Collect overlay" for x y
    using that by (simp add: addr_po_cpl)
  show "min (addr_po x y) (addr_po y z) \<le> addr_po x z"
    if "x \<in> Collect overlay" "y \<in> Collect overlay" "z \<in> Collect overlay" for x y z
    using that cpl_ultra [of "bits_of (addr_bytes x)" "bits_of (addr_bytes y)"
        "bits_of (addr_bytes z)"]
    by (simp add: addr_po_cpl min_def split: if_splits)
qed

text \<open>
  proximity is an ultrametric on overlay addresses, so a neighbourhood of depth \<open>d\<close> does
  not depend on which of its members it is taken around: whoever is at least \<open>d\<close> close to one
  is at least \<open>d\<close> close to the other.
\<close>

theorem Proximity_neighbourhood:
  assumes "overlay x" "overlay y" "overlay z" "d \<le> addr_po x y"
  shows "d \<le> addr_po x z \<longleftrightarrow> d \<le> addr_po y z"
  using assms by (intro prox.same_neighbourhood) simp_all

theorem Proximity_neighbourhood_witness:
  "(20 \<le> addr_po (Address [0x12, 0x34, 0x56, 0x78]) (Address [0x12, 0x34, 0x5f, 0x00])) =
   (20 \<le> addr_po (Address [0x12, 0x34, 0x57, 0x78]) (Address [0x12, 0x34, 0x5f, 0x00]))"
proof (rule Proximity_neighbourhood)
  show "20 \<le> addr_po (Address [0x12, 0x34, 0x56, 0x78]) (Address [0x12, 0x34, 0x57, 0x78])"
    by code_simp
qed (simp_all add: overlay_def)

text \<open>
  \<open>ExtendedProximity\<close> compares five bytes but answers \<open>ExtendedPO\<close> for equal addresses, so
  there are distinct addresses it orders closer to each other than an address to itself.
\<close>

theorem ExtendedProximity_not_maximal:
  "\<exists>x y. length x = 32 \<and> length y = 32 \<and> x \<noteq> y \<and>
     ExtendedProximity x x < ExtendedProximity x y"
proof (intro exI conjI)
  let ?x = "replicate 32 0 :: bytes" and ?y = "(replicate 32 0) [4 := 1] :: bytes"
  show "ExtendedProximity ?x ?x < ExtendedProximity ?x ?y" by code_simp
  show "?x \<noteq> ?y" by code_simp
qed simp_all

section \<open>Distance (distance.go)\<close>

datatype swarm_error = ErrAddressLength

definition DistanceRaw :: "bytes \<Rightarrow> bytes \<Rightarrow> swarm_error + bytes" where
  "DistanceRaw x y =
     (if length x \<noteq> length y then Inl ErrAddressLength
      else Inr (map2 (XOR) x y))"

definition Distance :: "bytes \<Rightarrow> bytes \<Rightarrow> swarm_error + nat" where
  "Distance x y =
     (case DistanceRaw x y of
        Inl err \<Rightarrow> Inl err
      | Inr distanceBytes \<Rightarrow> Inr (be_to_nat distanceBytes))"

fun dist_cmp_loop :: "bytes \<Rightarrow> bytes \<Rightarrow> bytes \<Rightarrow> int" where
  "dist_cmp_loop (a # as) (x # xs) (y # ys) =
     (let dx = x XOR a; dy = y XOR a in
      if dx = dy then dist_cmp_loop as xs ys
      else if dx < dy then 1
      else -1)"
| "dist_cmp_loop _ _ _ = 0"

definition DistanceCmp :: "bytes \<Rightarrow> bytes \<Rightarrow> bytes \<Rightarrow> swarm_error + int" where
  "DistanceCmp a x y =
     (if length a \<noteq> length x \<or> length a \<noteq> length y then Inl ErrAddressLength
      else Inr (dist_cmp_loop a x y))"

text \<open>\<open>x.Closer(a, y)\<close>; the result beside an error is \<open>false\<close> in the code.\<close>

definition Closer :: "address \<Rightarrow> address \<Rightarrow> address \<Rightarrow> swarm_error + bool" where
  "Closer x a y = map_sum id (\<lambda>cmp. cmp = 1) (DistanceCmp (addr_bytes a) (addr_bytes x) (addr_bytes y))"

lemma dist_cmp_loop_lex:
  "length a = length x \<Longrightarrow> length a = length y \<Longrightarrow>
   dist_cmp_loop a x y = bytes_compare (map2 (XOR) y a) (map2 (XOR) x a)"
  by (induction a x y rule: dist_cmp_loop.induct) (auto simp: Let_def)

lemma bytes_compare_be:
  "length xs = length ys \<Longrightarrow>
   bytes_compare xs ys = sgn (int (be_to_nat xs) - int (be_to_nat ys))"
  using be_less_iff [of xs ys] be_less_iff [of ys xs]
  by (auto simp: bytes_compare_lex sgn_if)

lemma DistanceCmp_sgn:
  assumes "Distance x a = Inr dx" "Distance y a = Inr dy"
  shows "DistanceCmp a x y = Inr (sgn (int dy - int dx))"
  using assms
  by (auto simp: Distance_def DistanceRaw_def DistanceCmp_def dist_cmp_loop_lex bytes_compare_be
      split: if_splits)

text \<open>
  \<open>DistanceCmp\<close>, which stops at the first differing byte, is the comparison of the two
  distances as big integers: 1 when \<open>x\<close> is nearer to \<open>a\<close>, -1 when it is farther, 0 when both
  are equally far.
\<close>

theorem DistanceCmp_compares_distances:
  assumes "Distance x a = Inr dx" "Distance y a = Inr dy"
  shows "DistanceCmp a x y = Inr (if dx < dy then 1 else if dx = dy then 0 else -1)"
  using DistanceCmp_sgn [OF assms] by (simp add: sgn_if)

theorem DistanceCmp_compares_distances_witness:
  "DistanceCmp [0x10, 0x20] [0x10, 0x2f] [0x11, 0x20] = Inr 1"
proof -
  have "Distance [0x10, 0x2f] [0x10, 0x20] = Inr 15" "Distance [0x11, 0x20] [0x10, 0x20] = Inr 256"
    by code_simp+
  from DistanceCmp_compares_distances [OF this] show ?thesis by simp
qed

text \<open>Equally far means equal: no two addresses are at the same distance.\<close>

lemma map2_xor_inj:
  "length xs = length a \<Longrightarrow> length ys = length a \<Longrightarrow>
   map2 (XOR) xs (a :: bytes) = map2 (XOR) ys a \<longleftrightarrow> xs = ys"
proof (induction xs arbitrary: ys a)
  case (Cons x xs)
  have inj: "x XOR c = y XOR c \<longleftrightarrow> x = y" for y c :: byte
    by (metis xor.left_neutral xor.right_neutral xor_self_eq xor.assoc)
  from Cons show ?case by (cases ys; cases a) (auto simp: inj)
qed simp

lemma be_to_nat_inj: "length xs = length ys \<Longrightarrow> be_to_nat xs = be_to_nat ys \<longleftrightarrow> xs = ys"
  by (metis be_of_to_nat)

lemma Distance_eq_iff:
  "Distance x a = Inr d \<Longrightarrow> Distance y a = Inr d \<Longrightarrow> x = y"
  by (auto simp: Distance_def DistanceRaw_def be_to_nat_inj map2_xor_inj split: if_splits)

end
