(* ===== verification/PSlice.thy ===== *)
theory PSlice
  imports Swarm
begin

text \<open>
  \<open>pkg/topology/pslice\<close>: the peers of a node, held in one slice per proximity order
  relative to the node's own address. The abstraction is how many copies of an address there are;
  the locale \<open>address_bag\<close> states the contract of such a container and its client lemmas give
  the effect of any sequence of operations.
\<close>

section \<open>State and operations (pslice.go)\<close>

record pslice =
  ps_peers :: "address list list"
  ps_base :: bytes
  ps_maxBins :: nat

definition ps_New :: "nat \<Rightarrow> address \<Rightarrow> pslice" where
  "ps_New maxBins base =
     \<lparr>ps_peers = replicate maxBins [], ps_base = addr_bytes base, ps_maxBins = maxBins\<rparr>"

definition ps_po :: "pslice \<Rightarrow> bytes \<Rightarrow> u8" where
  "ps_po s peer =
     (let po = Proximity (ps_base s) peer in
      if unat po \<ge> ps_maxBins s then of_nat (ps_maxBins s) - 1 else po)"

text \<open>
  The bin an operation indexes. An index past the last bin is a panic in Go; \<open>ps_po_less\<close>
  below shows that the operations never do that.
\<close>

definition ps_bin :: "pslice \<Rightarrow> u8 \<Rightarrow> address list" where
  "ps_bin s po = ps_peers s ! unat po"

fun index_loop :: "address \<Rightarrow> nat \<Rightarrow> address list \<Rightarrow> bool \<times> nat" where
  "index_loop addr i [] = (False, 0)"
| "index_loop addr i (peer # peers) =
     (if addr_Equal peer addr then (True, i) else index_loop addr (Suc i) peers)"

definition ps_index :: "pslice \<Rightarrow> address \<Rightarrow> u8 \<Rightarrow> bool \<times> nat" where
  "ps_index s addr po = index_loop addr 0 (ps_bin s po)"

definition ps_append :: "address \<Rightarrow> u8 \<Rightarrow> pslice \<Rightarrow> pslice" where
  "ps_append addr po s =
     s\<lparr>ps_peers := (ps_peers s) [unat po := ps_bin s po @ [addr]]\<rparr>"

fun ps_add_step :: "address \<times> u8 \<times> bool \<Rightarrow> pslice \<Rightarrow> pslice" where
  "ps_add_step (addr, po, e) s = (if e then s else ps_append addr po s)"

text \<open>
  \<open>Add\<close>: the single address case returns early; otherwise a first loop records the order
  of every address and whether it is there already, a second one only enlarges the
  capacity of the bins, and a third appends the addresses that were not there.
\<close>

definition ps_Add :: "address list \<Rightarrow> pslice \<Rightarrow> pslice" where
  "ps_Add addrs s =
     (case addrs of
        [addr] \<Rightarrow>
          (let po = ps_po s (addr_bytes addr) in
           if fst (ps_index s addr po) then s else ps_append addr po s)
      | _ \<Rightarrow>
          (let addrPo = map (\<lambda>addr. ps_po s (addr_bytes addr)) addrs;
               exists = map2 (\<lambda>addr po. fst (ps_index s addr po)) addrs addrPo
           in fold ps_add_step
                (zip addrs (zip addrPo exists)) s))"

definition ps_BinSize :: "pslice \<Rightarrow> u8 \<Rightarrow> nat" where
  "ps_BinSize s bin = (if unat bin \<ge> ps_maxBins s then 0 else length (ps_bin s bin))"

definition ps_BinPeers :: "pslice \<Rightarrow> u8 \<Rightarrow> address list" where
  "ps_BinPeers s bin =
     (if unat bin \<ge> ps_maxBins s then []
      else copy_at (replicate (length (ps_bin s bin)) ZeroAddress) 0 (ps_bin s bin))"

definition ps_Length :: "pslice \<Rightarrow> nat" where
  "ps_Length s = foldl (\<lambda>ret peers. ret + length peers) 0 (ps_peers s)"

fun shallowest_loop :: "nat \<Rightarrow> address list list \<Rightarrow> u8 \<times> bool" where
  "shallowest_loop i [] = (0, True)"
| "shallowest_loop i (peers # rest) =
     (if length peers = 0 then (of_nat i, False) else shallowest_loop (Suc i) rest)"

definition ps_ShallowestEmpty :: "pslice \<Rightarrow> u8 \<times> bool" where
  "ps_ShallowestEmpty s = shallowest_loop 0 (ps_peers s)"

definition ps_Exists :: "pslice \<Rightarrow> address \<Rightarrow> bool" where
  "ps_Exists s addr = fst (ps_index s addr (ps_po s (addr_bytes addr)))"

definition ps_Remove :: "address \<Rightarrow> pslice \<Rightarrow> pslice" where
  "ps_Remove addr s =
     (let po = ps_po s (addr_bytes addr);
          (e, i) = ps_index s addr po
      in if \<not> e then s
         else
           let newLength = length (ps_bin s po) - 1;
               cpy = copy_at (replicate newLength ZeroAddress) 0 (take newLength (ps_bin s po))
           in if i = newLength then s\<lparr>ps_peers := (ps_peers s) [unat po := cpy]\<rparr>
              else
                let lastItem = ps_bin s po ! newLength
                in s\<lparr>ps_peers := (ps_peers s) [unat po := cpy [i := lastItem]]\<rparr>)"

subsection \<open>Iteration with a callback\<close>

text \<open>
  The callback may itself change the container (and anything else), so it is a function of
  a state from which the bins are read by \<open>get\<close>; each bin is read once, when its turn
  comes, and later changes of that bin are not seen by its own loop. \<^theory_text>\<open>Inl e\<close> is an error of
  the callback, \<^theory_text>\<open>Inr (stop, next)\<close> its two flags.
\<close>

datatype 'e each_flow = FlowErr 'e | FlowStop | FlowNext

fun each_peers ::
  "(address \<Rightarrow> u8 \<Rightarrow> 's \<Rightarrow> ('e + bool \<times> bool) \<times> 's) \<Rightarrow> u8 \<Rightarrow> address list \<Rightarrow> 's \<Rightarrow>
   'e each_flow \<times> 's" where
  "each_peers pf i [] st = (FlowNext, st)"
| "each_peers pf i (peer # peers) st =
     (case pf peer i st of
        (Inl err, st') \<Rightarrow> (FlowErr err, st')
      | (Inr (stop, next), st') \<Rightarrow>
          if stop then (FlowStop, st')
          else if next then (FlowNext, st')
          else each_peers pf i peers st')"

fun each_bins ::
  "('s \<Rightarrow> pslice) \<Rightarrow> (address \<Rightarrow> u8 \<Rightarrow> 's \<Rightarrow> ('e + bool \<times> bool) \<times> 's) \<Rightarrow> nat list \<Rightarrow> 's \<Rightarrow>
   'e option \<times> 's" where
  "each_bins get pf [] st = (None, st)"
| "each_bins get pf (i # is) st =
     (case each_peers pf (of_nat i) (ps_peers (get st) ! i) st of
        (FlowErr err, st') \<Rightarrow> (Some err, st')
      | (FlowStop, st') \<Rightarrow> (None, st')
      | (FlowNext, st') \<Rightarrow> each_bins get pf is st')"

definition ps_EachBin ::
  "('s \<Rightarrow> pslice) \<Rightarrow> (address \<Rightarrow> u8 \<Rightarrow> 's \<Rightarrow> ('e + bool \<times> bool) \<times> 's) \<Rightarrow> 's \<Rightarrow> 'e option \<times> 's" where
  "ps_EachBin get pf st = each_bins get pf (rev [0..<ps_maxBins (get st)]) st"

definition ps_EachBinRev ::
  "('s \<Rightarrow> pslice) \<Rightarrow> (address \<Rightarrow> u8 \<Rightarrow> 's \<Rightarrow> ('e + bool \<times> bool) \<times> 's) \<Rightarrow> 's \<Rightarrow> 'e option \<times> 's" where
  "ps_EachBinRev get pf st = each_bins get pf [0..<ps_maxBins (get st)] st"

section \<open>Invariant and abstraction\<close>

definition ps_ok :: "pslice \<Rightarrow> bool" where
  "ps_ok s \<longleftrightarrow>
     0 < ps_maxBins s \<and> ps_maxBins s \<le> 256 \<and> length (ps_peers s) = ps_maxBins s \<and>
     (\<forall>i < ps_maxBins s. distinct (ps_peers s ! i) \<and>
        (\<forall>p \<in> set (ps_peers s ! i). unat (ps_po s (addr_bytes p)) = i))"

definition ps_set :: "pslice \<Rightarrow> address set" where
  "ps_set s = set (concat (ps_peers s))"

lemma ps_okI [intro?]:
  assumes "0 < ps_maxBins s" "ps_maxBins s \<le> 256" "length (ps_peers s) = ps_maxBins s"
    and "\<And>i. i < ps_maxBins s \<Longrightarrow> distinct (ps_peers s ! i)"
    and "\<And>i p. i < ps_maxBins s \<Longrightarrow> p \<in> set (ps_peers s ! i) \<Longrightarrow>
           unat (ps_po s (addr_bytes p)) = i"
  shows "ps_ok s"
  using assms by (simp add: ps_ok_def)

lemma ps_po_cong [simp]: "ps_po (s\<lparr>ps_peers := x\<rparr>) = ps_po s"
  by (simp add: ps_po_def Let_def fun_eq_iff)

text \<open>The index of a bin is always in range.\<close>

definition ps_range :: "pslice \<Rightarrow> bool" where
  "ps_range s \<longleftrightarrow> 0 < ps_maxBins s \<and> ps_maxBins s \<le> 256 \<and> length (ps_peers s) = ps_maxBins s"

lemma ps_range_po:
  assumes "ps_range s"
  shows "unat (ps_po s b) < length (ps_peers s)"
proof -
  from assms have m: "0 < ps_maxBins s" "ps_maxBins s \<le> 256"
    "length (ps_peers s) = ps_maxBins s" by (auto simp: ps_range_def)
  have "unat (of_nat (ps_maxBins s) - 1 :: u8) = ps_maxBins s - 1"
  proof -
    have "(of_nat (ps_maxBins s) - 1 :: u8) = of_nat (ps_maxBins s - 1)"
      using m by (simp add: of_nat_diff)
    then show ?thesis using m by (simp only: unat_of_nat) simp
  qed
  with m show ?thesis by (simp add: ps_po_def Let_def)
qed

lemma ps_po_less: "ps_ok s \<Longrightarrow> unat (ps_po s b) < length (ps_peers s)"
  by (rule ps_range_po) (simp add: ps_ok_def ps_range_def)

lemma index_loop_find:
  "index_loop addr i ps =
     (case find_index (\<lambda>p. p = addr) ps of None \<Rightarrow> (False, 0) | Some k \<Rightarrow> (True, i + k))"
  by (induction ps arbitrary: i) (auto split: option.splits)

lemma ps_index_fst [simp]: "fst (ps_index s addr po) \<longleftrightarrow> addr \<in> set (ps_bin s po)"
  by (auto simp: ps_index_def index_loop_find find_index_None split: option.splits
      dest: find_index_SomeD intro: nth_mem)

lemma ps_index_SomeD:
  "ps_index s addr po = (True, i) \<Longrightarrow> i < length (ps_bin s po) \<and> ps_bin s po ! i = addr"
  by (auto simp: ps_index_def index_loop_find split: option.splits dest: find_index_SomeD)

lemma ps_set_nth: "a \<in> ps_set s \<longleftrightarrow> (\<exists>i < length (ps_peers s). a \<in> set (ps_peers s ! i))"
  unfolding ps_set_def set_concat UN_iff by (metis in_set_conv_nth)

text \<open>A peer of a well-formed container is in the bin its order selects.\<close>

lemma ps_set_bin:
  assumes "ps_ok s"
  shows "a \<in> ps_set s \<longleftrightarrow> a \<in> set (ps_bin s (ps_po s (addr_bytes a)))"
proof
  assume "a \<in> ps_set s"
  then obtain i where "i < length (ps_peers s)" "a \<in> set (ps_peers s ! i)"
    by (auto simp: ps_set_nth)
  with assms show "a \<in> set (ps_bin s (ps_po s (addr_bytes a)))"
    by (auto simp: ps_ok_def ps_bin_def)
next
  assume "a \<in> set (ps_bin s (ps_po s (addr_bytes a)))"
  with ps_po_less [OF assms] show "a \<in> ps_set s" by (auto simp: ps_set_nth ps_bin_def)
qed

lemma ps_Exists_set: "ps_ok s \<Longrightarrow> ps_Exists s a \<longleftrightarrow> a \<in> ps_set s"
  by (simp add: ps_Exists_def ps_set_bin)

text \<open>Replacing one bin: what it does to the invariant and to the set of peers.\<close>

lemma ps_ok_update:
  assumes "ps_ok s" "i < length (ps_peers s)" "distinct b"
    and "\<And>p. p \<in> set b \<Longrightarrow> unat (ps_po s (addr_bytes p)) = i"
  shows "ps_ok (s\<lparr>ps_peers := (ps_peers s) [i := b]\<rparr>)"
  using assms by (auto simp: ps_ok_def nth_list_update)

lemma ps_set_update:
  assumes "ps_ok s" "i < length (ps_peers s)"
  shows "ps_set (s\<lparr>ps_peers := (ps_peers s) [i := b]\<rparr>) =
    {p \<in> ps_set s. unat (ps_po s (addr_bytes p)) \<noteq> i} \<union> set b"
proof (rule set_eqI)
  fix p
  have po: "unat (ps_po s (addr_bytes p)) = j"
    if "j < length (ps_peers s)" "p \<in> set (ps_peers s ! j)" for j
    using assms that by (auto simp: ps_ok_def)
  have "p \<in> ps_set (s\<lparr>ps_peers := (ps_peers s) [i := b]\<rparr>) \<longleftrightarrow>
      (\<exists>j < length (ps_peers s). if i = j then p \<in> set b else p \<in> set (ps_peers s ! j))"
    using assms(2) by (simp add: ps_set_nth nth_list_update cong: conj_cong)
  also have "\<dots> \<longleftrightarrow> p \<in> {p \<in> ps_set s. unat (ps_po s (addr_bytes p)) \<noteq> i} \<union> set b"
    using po assms(2) by (simp add: ps_set_nth) metis
  finally show "p \<in> ps_set (s\<lparr>ps_peers := (ps_peers s) [i := b]\<rparr>) \<longleftrightarrow>
      p \<in> {p \<in> ps_set s. unat (ps_po s (addr_bytes p)) \<noteq> i} \<union> set b" .
qed

lemma ps_New_ok [inv_intro]: "0 < n \<Longrightarrow> n \<le> 256 \<Longrightarrow> ps_ok (ps_New n base)"
  by (rule ps_okI) (simp_all add: ps_New_def)

lemma ps_New_set [simp]: "ps_set (ps_New n base) = {}"
  by (simp add: ps_New_def ps_set_def)

lemma ps_append_ok [inv_intro]:
  assumes "ps_ok s" "a \<notin> ps_set s"
  shows "ps_ok (ps_append a (ps_po s (addr_bytes a)) s)"
proof -
  let ?i = "unat (ps_po s (addr_bytes a))"
  have i: "?i < length (ps_peers s)" using assms(1) by (rule ps_po_less)
  from assms i show ?thesis
    unfolding ps_append_def ps_bin_def ps_set_bin [OF assms(1)]
    by (intro ps_ok_update) (auto simp: ps_ok_def)
qed

lemma ps_append_set:
  assumes "ps_ok s"
  shows "ps_set (ps_append a (ps_po s (addr_bytes a)) s) = insert a (ps_set s)"
proof -
  have i: "unat (ps_po s (addr_bytes a)) < length (ps_peers s)" using assms by (rule ps_po_less)
  have "p \<in> set (ps_bin s (ps_po s (addr_bytes a))) \<longleftrightarrow>
      p \<in> ps_set s \<and> unat (ps_po s (addr_bytes p)) = unat (ps_po s (addr_bytes a))" for p
    using assms i by (auto simp: ps_set_bin ps_bin_def ps_ok_def)
  with i assms show ?thesis
    unfolding ps_append_def by (auto simp: ps_set_update)
qed

lemma ps_append_po [simp]: "ps_po (ps_append a p s) = ps_po s"
  by (simp add: ps_append_def)

section \<open>Add\<close>

lemma ps_add_fold:
  assumes "ps_ok s" "distinct as"
    and "\<And>a. a \<in> set as \<Longrightarrow> ex a \<longleftrightarrow> a \<in> ps_set s"
    and "\<And>a. po a = ps_po s (addr_bytes a)"
  shows "let s' = fold ps_add_step
             (map (\<lambda>a. (a, po a, ex a)) as) s
         in ps_ok s' \<and> ps_set s' = ps_set s \<union> set as \<and> ps_po s' = ps_po s"
  using assms
proof (induction as arbitrary: s)
  case (Cons a as)
  let ?s = "if ex a then s else ps_append a (po a) s"
  from Cons.prems have ok: "ps_ok ?s" and set: "ps_set ?s = insert a (ps_set s)"
    and po: "ps_po ?s = ps_po s"
    by (auto simp: ps_append_ok ps_append_set)
  from Cons.prems set have "\<And>b. b \<in> set as \<Longrightarrow> ex b \<longleftrightarrow> b \<in> ps_set ?s" by auto
  from Cons.IH [OF ok _ this] Cons.prems(2,4) po set
  show ?case by (cases "ex a") (simp_all add: Let_def, blast)
qed (simp add: Let_def)

lemma zip_map_triple:
  "zip as (zip (map f as) (map2 g as (map f as))) = map (\<lambda>a. (a, f a, g a (f a))) as"
  by (induction as) auto

lemma ps_Add_fold:
  "ps_ok s \<Longrightarrow> ps_Add as s = fold ps_add_step
     (map (\<lambda>a. (a, ps_po s (addr_bytes a), a \<in> ps_set s)) as) s"
  by (auto simp: ps_Add_def zip_map_triple ps_set_bin Let_def split: list.split)

lemma ps_Add_spec:
  assumes "ps_ok s" "distinct as"
  shows "ps_ok (ps_Add as s)" "ps_set (ps_Add as s) = ps_set s \<union> set as"
    "ps_po (ps_Add as s) = ps_po s"
  using ps_add_fold [OF assms, of "\<lambda>a. a \<in> ps_set s" "\<lambda>a. ps_po s (addr_bytes a)"]
  by (simp_all add: ps_Add_fold [OF assms(1)] Let_def)

lemma ps_add_step_base [simp]:
  "ps_maxBins (ps_add_step x s) = ps_maxBins s" "ps_base (ps_add_step x s) = ps_base s"
  by (cases x; simp add: ps_append_def)+

lemma ps_add_fold_base [simp]:
  "ps_maxBins (fold ps_add_step xs s) = ps_maxBins s"
  "ps_base (fold ps_add_step xs s) = ps_base s"
  by (induction xs arbitrary: s) simp_all

lemma ps_Add_base [simp]:
  "ps_maxBins (ps_Add as s) = ps_maxBins s" "ps_base (ps_Add as s) = ps_base s"
  by (simp_all add: ps_Add_def Let_def ps_append_def split: list.split)

text \<open>
  adding a list of pairwise different addresses keeps every peer in the one bin its
  proximity order selects, without duplicates, and the set of peers grows by exactly those
  addresses.
\<close>

theorem pslice_Add:
  assumes "ps_ok s" "distinct addrs"
  shows "ps_ok (ps_Add addrs s) \<and> ps_set (ps_Add addrs s) = ps_set s \<union> set addrs"
  using ps_Add_spec [OF assms] by simp

theorem pslice_Add_witness:
  "ps_set (ps_Add [Address [1, 2, 3, 4], Address [9, 9, 9, 9]] (ps_New 32 (Address [0, 0, 0, 0]))) =
   {Address [1, 2, 3, 4], Address [9, 9, 9, 9]}"
  using pslice_Add [of "ps_New 32 (Address [0, 0, 0, 0])"
      "[Address [1, 2, 3, 4], Address [9, 9, 9, 9]]"]
  by (simp add: ps_New_ok)

text \<open>
  the check for presence precedes all insertions, so an address given twice in one call
  is stored twice, and a \<open>Remove\<close> leaves a copy of it behind.
\<close>

theorem pslice_Add_duplicates:
  "\<exists>s a. ps_ok s \<and> ps_Length s = 0 \<and> ps_Length (ps_Add [a, a] s) = 2 \<and>
     ps_Exists (ps_Remove a (ps_Add [a, a] s)) a"
proof (intro exI conjI)
  let ?s = "ps_New 2 (Address [0])" and ?a = "Address [1]"
  show "ps_ok ?s" by (simp add: ps_New_ok)
  show "ps_Length ?s = 0" "ps_Length (ps_Add [?a, ?a] ?s) = 2" by code_simp+
  show "ps_Exists (ps_Remove ?a (ps_Add [?a, ?a] ?s)) ?a" by code_simp
qed

section \<open>Remove\<close>

lemma swap_remove:
  assumes "distinct xs" "i < length xs"
  defines "n \<equiv> length xs - 1"
  defines "ys \<equiv> (if i = n then take n xs else (take n xs) [i := xs ! n])"
  shows "distinct ys" "set ys = set xs - {xs ! i}"
proof -
  from assms(2) obtain zs z where xs: "xs = zs @ [z]" by (cases xs rule: rev_cases) auto
  have "distinct ys \<and> set ys = set xs - {xs ! i}"
  proof (cases "i = n")
    case True
    with assms(1) xs show ?thesis by (auto simp: ys_def n_def nth_append)
  next
    case False
    with assms xs have "i < length zs" by simp
    with assms(1) xs False show ?thesis
      by (auto simp: ys_def n_def nth_append distinct_list_update set_update_distinct
          dest: nth_mem)
  qed
  then show "distinct ys" "set ys = set xs - {xs ! i}" by auto
qed

lemma ps_Remove_cases:
  assumes "ps_ok s"
  obtains "a \<notin> ps_set s" "ps_Remove a s = s"
  | b where "a \<in> ps_set s"
      "ps_Remove a s = s\<lparr>ps_peers := (ps_peers s) [unat (ps_po s (addr_bytes a)) := b]\<rparr>"
      "distinct b" "set b = set (ps_bin s (ps_po s (addr_bytes a))) - {a}"
proof (cases "a \<in> ps_set s")
  case False
  then have "\<not> fst (ps_index s a (ps_po s (addr_bytes a)))" using assms by (simp add: ps_set_bin)
  then obtain i where "ps_index s a (ps_po s (addr_bytes a)) = (False, i)"
    by (cases "ps_index s a (ps_po s (addr_bytes a))") auto
  with False that(1) show ?thesis by (simp add: ps_Remove_def Let_def)
next
  case True
  let ?po = "ps_po s (addr_bytes a)" and ?xs = "ps_bin s (ps_po s (addr_bytes a))"
  from True assms have "fst (ps_index s a ?po)" by (simp add: ps_set_bin)
  then obtain i where ix: "ps_index s a ?po = (True, i)" by (cases "ps_index s a ?po") auto
  from ps_index_SomeD [OF this] have i: "i < length ?xs" "?xs ! i = a" by auto
  have d: "distinct ?xs"
    using assms ps_po_less [OF assms] by (auto simp: ps_ok_def ps_bin_def)
  from that(2) [OF True _ swap_remove(1) [OF d i(1)]] swap_remove(2) [OF d i(1)] i(2) ix
  show ?thesis by (simp add: ps_Remove_def Let_def split: if_splits)
qed

lemma ps_Remove_spec:
  assumes "ps_ok s"
  shows "ps_ok (ps_Remove a s)" "ps_set (ps_Remove a s) = ps_set s - {a}"
proof -
  let ?i = "unat (ps_po s (addr_bytes a))"
  have i: "?i < length (ps_peers s)" using assms by (rule ps_po_less)
  have bin: "p \<in> set (ps_bin s (ps_po s (addr_bytes a))) \<longleftrightarrow>
      p \<in> ps_set s \<and> unat (ps_po s (addr_bytes p)) = ?i" for p
    using assms i by (auto simp: ps_set_bin ps_bin_def ps_ok_def)
  have "ps_ok (ps_Remove a s) \<and> ps_set (ps_Remove a s) = ps_set s - {a}"
  proof (cases rule: ps_Remove_cases [OF assms, of a])
    case (2 b)
    with bin have "p \<in> set b \<Longrightarrow> unat (ps_po s (addr_bytes p)) = ?i" for p by auto
    from ps_ok_update [OF assms i 2(3) this] ps_set_update [OF assms i, of b] 2 bin
    show ?thesis by auto
  qed (use assms in auto)
  then show "ps_ok (ps_Remove a s)" "ps_set (ps_Remove a s) = ps_set s - {a}" by auto
qed

text \<open>
  removing an address, by moving the last peer of its bin into its place, keeps the
  container well formed and takes exactly that address out of the set of peers.
\<close>

theorem pslice_Remove:
  assumes "ps_ok s"
  shows "ps_ok (ps_Remove a s) \<and> ps_set (ps_Remove a s) = ps_set s - {a}"
  using ps_Remove_spec [OF assms] by simp

theorem pslice_Remove_witness:
  "\<not> ps_Exists (ps_Remove (Address [1]) (ps_Add [Address [1], Address [2]] (ps_New 2 (Address [0]))))
      (Address [1])"
  using pslice_Remove [of "ps_Add [Address [1], Address [2]] (ps_New 2 (Address [0]))" "Address [1]"]
    ps_Add_spec [of "ps_New 2 (Address [0])" "[Address [1], Address [2]]"]
  by (simp add: ps_New_ok ps_Exists_set)

section \<open>Counting and searching\<close>

lemma distinct_concat_by:
  "(\<And>i. i < length xss \<Longrightarrow> distinct (xss ! i) \<and> (\<forall>p \<in> set (xss ! i). f p = k + i)) \<Longrightarrow>
   distinct (concat xss) \<and> (\<forall>p \<in> set (concat xss). k \<le> (f p :: nat))"
proof (induction xss arbitrary: k)
  case (Cons xs xss)
  have "distinct (concat xss) \<and> (\<forall>p \<in> set (concat xss). Suc k \<le> f p)"
  proof (rule Cons.IH)
    fix i assume "i < length xss"
    then show "distinct (xss ! i) \<and> (\<forall>p \<in> set (xss ! i). f p = Suc k + i)"
      using Cons.prems [of "Suc i"] by simp
  qed
  moreover have "distinct xs \<and> (\<forall>p \<in> set xs. f p = k)" using Cons.prems [of 0] by simp
  ultimately show ?case by fastforce
qed simp

lemma ps_distinct_concat: "ps_ok s \<Longrightarrow> distinct (concat (ps_peers s))"
  using distinct_concat_by [of "ps_peers s" "\<lambda>p. unat (ps_po s (addr_bytes p))" 0]
  by (simp add: ps_ok_def)

lemma foldl_lengths: "foldl (\<lambda>ret peers. ret + length peers) n xss = n + length (concat xss)"
  by (induction xss arbitrary: n) auto

lemma ps_Length_card: "ps_ok s \<Longrightarrow> ps_Length s = card (ps_set s)"
  unfolding ps_Length_def ps_set_def foldl_lengths
  by (simp only: distinct_card [OF ps_distinct_concat] add_0)

lemma shallowest_loop_find:
  "shallowest_loop i xss =
     (case find_index (\<lambda>p. p = []) xss of None \<Rightarrow> (0, True) | Some k \<Rightarrow> (of_nat (i + k), False))"
  by (induction xss arbitrary: i) (auto split: option.splits)

text \<open>
  \<open>ShallowestEmpty\<close> answers the first bin without a peer, and the flag when every bin has
  one.
\<close>

theorem pslice_ShallowestEmpty:
  assumes "ps_ok s" "ps_ShallowestEmpty s = (bin, none)"
  shows "if none then \<forall>i < ps_maxBins s. ps_BinSize s (of_nat i) > 0
    else unat bin < ps_maxBins s \<and> ps_BinSize s bin = 0 \<and>
      (\<forall>i < unat bin. ps_BinSize s (of_nat i) > 0)"
proof -
  have len: "length (ps_peers s) = ps_maxBins s" "ps_maxBins s \<le> 256"
    using assms(1) by (auto simp: ps_ok_def)
  have size: "ps_BinSize s (of_nat i) = length (ps_peers s ! i)" if "i < ps_maxBins s" for i
    using that len by (simp add: ps_BinSize_def ps_bin_def unat_of_nat)
  show ?thesis
  proof (cases "find_index (\<lambda>p. p = []) (ps_peers s)")
    case None
    with assms(2) have "none" by (simp add: ps_ShallowestEmpty_def shallowest_loop_find)
    with None len size show ?thesis by (simp add: find_index_None)
  next
    case (Some k)
    from find_index_SomeD [OF this] len
    have k: "k < ps_maxBins s" "ps_peers s ! k = []" "\<forall>j < k. ps_peers s ! j \<noteq> []" by auto
    from Some assms(2) have "\<not> none" "bin = of_nat k"
      by (simp_all add: ps_ShallowestEmpty_def shallowest_loop_find)
    moreover have "unat (of_nat k :: u8) = k" using k len by (simp add: unat_of_nat)
    ultimately show ?thesis using k size by simp
  qed
qed

theorem pslice_ShallowestEmpty_witness:
  "ps_BinSize (ps_Add [Address [0x80, 0, 0, 0]] (ps_New 4 (Address [0, 0, 0, 0]))) 1 = 0"
proof -
  let ?s = "ps_Add [Address [0x80, 0, 0, 0]] (ps_New 4 (Address [0, 0, 0, 0]))"
  have "ps_ok ?s" by (intro ps_Add_spec(1) ps_New_ok) simp_all
  moreover have "ps_ShallowestEmpty ?s = (1, False)" by code_simp
  ultimately show ?thesis using pslice_ShallowestEmpty [of ?s 1 False] by simp
qed

section \<open>Iteration\<close>

text \<open>The visits of a callback that never stops: all bins in the order of the loop.\<close>

definition visit_all :: "address \<Rightarrow> u8 \<Rightarrow> pslice \<times> (address \<times> u8) list \<Rightarrow>
    (unit + bool \<times> bool) \<times> (pslice \<times> (address \<times> u8) list)" where
  "visit_all p i st = (Inr (False, False), (fst st, snd st @ [(p, i)]))"

lemma each_peers_visit:
  "each_peers visit_all i ps (s, vs) = (FlowNext, (s, vs @ map (\<lambda>p. (p, i)) ps))"
  by (induction ps arbitrary: vs) (simp_all add: visit_all_def)

lemma each_bins_visit:
  "each_bins fst visit_all is (s, vs) =
     (None, (s, vs @ concat (map (\<lambda>i. map (\<lambda>p. (p, of_nat i)) (ps_peers s ! i)) is)))"
  by (induction "is" arbitrary: vs) (simp_all add: each_peers_visit)

lemma ps_concat_bins: "length (ps_peers s) = n \<Longrightarrow> concat (map (\<lambda>i. ps_peers s ! i) [0..<n]) = concat (ps_peers s)"
  by (metis map_nth)

lemma sorted_bins:
  fixes g :: "nat \<Rightarrow> 'a :: linorder"
  assumes "sorted_wrt (\<lambda>i j. g i \<ge> g j) is"
  shows "sorted_wrt (\<ge>) (map snd (concat (map (\<lambda>i. map (\<lambda>p. (p, g i)) (f i)) is)))"
proof -
  have "sorted_wrt (\<ge>) (replicate n c)" for n and c :: 'a
    by (induction n) auto
  then show ?thesis
    using assms by (induction "is") (auto simp: sorted_wrt_append comp_def map_replicate_const)
qed

lemma mset_concat_rev: "mset (concat (rev xss)) = mset (concat xss)"
  by (induction xss) (simp_all add: union_commute)

text \<open>
  a full iteration from the deepest bin visits every peer exactly once, with its own
  proximity order, in an order in which the proximity never increases.
\<close>

theorem pslice_EachBin:
  assumes "ps_ok s" "ps_EachBin fst visit_all (s, []) = (r, (s', vs))"
  shows "r = None \<and> s' = s \<and> distinct (map fst vs) \<and> set (map fst vs) = ps_set s \<and>
    (\<forall>(p, i) \<in> set vs. i = ps_po s (addr_bytes p)) \<and> sorted_wrt (\<ge>) (map snd vs)"
proof -
  let ?n = "ps_maxBins s"
  have n: "length (ps_peers s) = ?n" "?n \<le> 256" using assms(1) by (auto simp: ps_ok_def)
  from assms(2) have r: "r = None" "s' = s" and
    vs: "vs = concat (map (\<lambda>i. map (\<lambda>p. (p, of_nat i)) (ps_peers s ! i)) (rev [0..<?n]))"
    by (auto simp: ps_EachBin_def each_bins_visit)
  have "map (\<lambda>i. ps_peers s ! i) (rev [0..<?n]) = rev (ps_peers s)"
    unfolding n(1) [symmetric] by (metis map_nth rev_map)
  then have "map fst vs = concat (rev (ps_peers s))"
    by (simp add: vs map_concat comp_def)
  then have "mset (map fst vs) = mset (concat (ps_peers s))" by (simp only: mset_concat_rev)
  then have "distinct (map fst vs)" "set (map fst vs) = ps_set s"
    using ps_distinct_concat [OF assms(1)] unfolding ps_set_def
    by (blast dest: mset_eq_imp_distinct_iff mset_eq_setD)+
  moreover have "i = ps_po s (addr_bytes p)" if "(p, i) \<in> set vs" for p i
  proof -
    from that obtain k where k: "k < ?n" "p \<in> set (ps_peers s ! k)" "i = of_nat k"
      by (auto simp: vs)
    then have "unat (ps_po s (addr_bytes p)) = k" using assms(1) by (auto simp: ps_ok_def)
    with k(3) show ?thesis by auto
  qed
  moreover have "sorted_wrt (\<ge>) (map snd vs)" unfolding vs
  proof (rule sorted_bins)
    have "sorted_wrt (\<lambda>i j. (of_nat j :: u8) \<ge> of_nat i) [0..<?n]"
      using n(2) by (intro sorted_wrt_mono_rel [OF _ sorted_wrt_upt])
        (auto simp: word_le_nat_alt unat_of_nat)
    then show "sorted_wrt (\<lambda>i j. (of_nat i :: u8) \<ge> of_nat j) (rev [0..<?n])"
      by (simp add: sorted_wrt_rev)
  qed
  ultimately show ?thesis using r by auto
qed

theorem pslice_EachBin_witness:
  "distinct (map fst (snd (snd (ps_EachBin fst visit_all
      (ps_Add [Address [1, 2, 3, 4], Address [0x80, 0, 0, 0]] (ps_New 4 (Address [0, 0, 0, 0])), [])))))"
proof -
  let ?s = "ps_Add [Address [1, 2, 3, 4], Address [0x80, 0, 0, 0]] (ps_New 4 (Address [0, 0, 0, 0]))"
  have "ps_ok ?s" by (intro ps_Add_spec(1) ps_New_ok) simp_all
  moreover obtain r s' vs where "ps_EachBin fst visit_all (?s, []) = (r, (s', vs))"
    by (metis prod.collapse)
  ultimately show ?thesis using pslice_EachBin [of ?s r s' vs] by simp
qed

section \<open>The contract of a container of addresses\<close>

text \<open>
  \<open>Add\<close> takes a list of addresses and checks each against the container as it was before the
  call, so an address that is new and listed twice is stored twice. The contract therefore
  counts copies, and \<open>copies_after\<close> says what a history makes of the count of one address.
\<close>

datatype 'a set_op = OpAdd "'a list" | OpRemove 'a

fun copies_after :: "'a \<Rightarrow> 'a set_op list \<Rightarrow> nat \<Rightarrow> nat" where
  "copies_after a [] n = n"
| "copies_after a (OpAdd as # ops) n = copies_after a ops (if n = 0 then count_list as a else n)"
| "copies_after a (OpRemove b # ops) n = copies_after a ops (if a = b then n - 1 else n)"

fun last_op :: "'a \<Rightarrow> 'a set_op list \<Rightarrow> bool option" where
  "last_op a [] = None"
| "last_op a (op # ops) =
     (case last_op a ops of
        Some b \<Rightarrow> Some b
      | None \<Rightarrow> (case op of OpAdd as \<Rightarrow> if a \<in> set as then Some True else None
                         | OpRemove b \<Rightarrow> if a = b then Some False else None))"

text \<open>Without an address listed twice the count is that of a set.\<close>

lemma copies_after_last:
  assumes "\<forall>as. OpAdd as \<in> set ops \<longrightarrow> count_list as a \<le> 1" "n \<le> 1"
  shows "0 < copies_after a ops n \<longleftrightarrow> (case last_op a ops of None \<Rightarrow> 0 < n | Some b \<Rightarrow> b)"
  using assms
proof (induction ops arbitrary: n)
  case (Cons op ops)
  show ?case
  proof (cases op)
    case (OpAdd as)
    have c: "count_list as a \<le> 1" "\<forall>as. OpAdd as \<in> set ops \<longrightarrow> count_list as a \<le> 1"
      using Cons.prems(1) OpAdd by auto
    have "0 < count_list as a \<longleftrightarrow> a \<in> set as" by (simp add: count_list_0_iff flip: neq0_conv)
    moreover have "(if n = 0 then count_list as a else n) \<le> 1" using c(1) Cons.prems(2) by simp
    ultimately show ?thesis
      using Cons.IH [OF c(2), of "if n = 0 then count_list as a else n"] OpAdd by (auto split: option.splits)
  next
    case (OpRemove b)
    have "\<forall>as. OpAdd as \<in> set ops \<longrightarrow> count_list as a \<le> 1" using Cons.prems(1) by auto
    from Cons.IH [OF this, of "if a = b then n - 1 else n"] OpRemove Cons.prems(2) show ?thesis
      by (auto split: option.splits)
  qed
qed simp

locale address_bag =
  fixes inv :: "'s \<Rightarrow> bool" and copies :: "'s \<Rightarrow> 'a \<Rightarrow> nat"
    and add :: "'a list \<Rightarrow> 's \<Rightarrow> 's" and remove :: "'a \<Rightarrow> 's \<Rightarrow> 's" and exists :: "'s \<Rightarrow> 'a \<Rightarrow> bool"
  assumes add_inv: "inv s \<Longrightarrow> inv (add as s)"
    and add_copies: "inv s \<Longrightarrow>
      copies (add as s) a = (if copies s a = 0 then count_list as a else copies s a)"
    and remove_inv: "inv s \<Longrightarrow> inv (remove b s)"
    and remove_copies: "inv s \<Longrightarrow> copies (remove b s) a = (if a = b then copies s a - 1 else copies s a)"
    and exists_copies: "inv s \<Longrightarrow> exists s a \<longleftrightarrow> 0 < copies s a"
begin

primrec apply_op :: "'a set_op \<Rightarrow> 's \<Rightarrow> 's" where
  "apply_op (OpAdd as) s = add as s"
| "apply_op (OpRemove a) s = remove a s"

lemma run_copies: "inv s \<Longrightarrow>
    inv (fold apply_op ops s) \<and> copies (fold apply_op ops s) a = copies_after a ops (copies s a)"
proof (induction ops arbitrary: s)
  case (Cons op ops)
  then show ?case by (cases op) (simp_all add: add_inv remove_inv add_copies remove_copies)
qed simp

lemma run_exists: "inv s \<Longrightarrow> exists (fold apply_op ops s) a \<longleftrightarrow> 0 < copies_after a ops (copies s a)"
  using run_copies exists_copies by simp

lemma run_last:
  "inv s \<Longrightarrow> copies s a = 0 \<Longrightarrow> \<forall>as. OpAdd as \<in> set ops \<longrightarrow> count_list as a \<le> 1 \<Longrightarrow>
   exists (fold apply_op ops s) a \<longleftrightarrow> last_op a ops = Some True"
  using run_exists [of s ops a] copies_after_last [of ops a 0] by (auto split: option.splits)

end

text \<open>The provider: how often an address is in the bin its order selects.\<close>

definition ps_copies :: "pslice \<Rightarrow> address \<Rightarrow> nat" where
  "ps_copies s a = count_list (ps_bin s (ps_po s (addr_bytes a))) a"

lemma ps_bin_update:
  "unat po < length (ps_peers s) \<Longrightarrow>
   ps_bin (s\<lparr>ps_peers := (ps_peers s) [unat po := b]\<rparr>) po' = (if po' = po then b else ps_bin s po')"
  by (auto simp: ps_bin_def nth_list_update word_unat_eq_iff)

lemma ps_append_copies:
  assumes "ps_range s"
  shows "ps_copies (ps_append x (ps_po s (addr_bytes x)) s) a = ps_copies s a + (if x = a then 1 else 0)"
  using ps_range_po [OF assms, of "addr_bytes x"]
  by (auto simp: ps_copies_def ps_append_def ps_bin_update)

lemma ps_add_fold_copies:
  "ps_range s \<Longrightarrow> (\<And>b. ps_po s b = po b) \<Longrightarrow>
   ps_range (fold ps_add_step (map (\<lambda>x. (x, po (addr_bytes x), f x)) as) s) \<and>
   ps_copies (fold ps_add_step (map (\<lambda>x. (x, po (addr_bytes x), f x)) as) s) a =
     ps_copies s a + (if f a then 0 else count_list as a)"
proof (induction as arbitrary: s)
  case (Cons x as)
  let ?s = "ps_add_step (x, po (addr_bytes x), f x) s"
  have "ps_range ?s" using Cons.prems(1) by (simp add: ps_range_def ps_append_def)
  moreover have "ps_po ?s b = po b" for b using Cons.prems(2) by simp
  moreover have "ps_copies ?s a = ps_copies s a + (if x = a \<and> \<not> f x then 1 else 0)"
    using ps_append_copies [OF Cons.prems(1), of x a] Cons.prems(2) by (cases "x = a") simp_all
  ultimately show ?case using Cons.IH [of ?s] by auto
qed simp

lemma ps_Add_copies:
  assumes "ps_range s"
  shows "ps_range (ps_Add as s)"
    "ps_copies (ps_Add as s) a = (if ps_copies s a = 0 then count_list as a else ps_copies s a)"
proof -
  let ?f = "\<lambda>x. x \<in> set (ps_bin s (ps_po s (addr_bytes x)))"
  have "ps_Add as s = fold ps_add_step (map (\<lambda>x. (x, ps_po s (addr_bytes x), ?f x)) as) s"
    by (auto simp: ps_Add_def zip_map_triple Let_def split: list.split)
  moreover have "?f a \<longleftrightarrow> ps_copies s a \<noteq> 0" by (simp add: ps_copies_def count_list_0_iff)
  ultimately show "ps_range (ps_Add as s)"
    "ps_copies (ps_Add as s) a = (if ps_copies s a = 0 then count_list as a else ps_copies s a)"
    using ps_add_fold_copies [OF assms, of "ps_po s" ?f as a] by (simp_all split: if_splits)
qed

lemma swap_remove_count:
  assumes "i < length xs"
  defines "n \<equiv> length xs - 1"
  shows "count_list (if i = n then take n xs else (take n xs) [i := xs ! n]) a =
    (if a = xs ! i then count_list xs a - 1 else count_list xs a)"
proof -
  from assms(1) obtain zs z where xs: "xs = zs @ [z]" by (cases xs rule: rev_cases) auto
  show ?thesis
  proof (cases "i = n")
    case True
    then show ?thesis using xs by (auto simp: n_def nth_append)
  next
    case False
    then have i: "i < length zs" using assms(1) xs by (simp add: n_def)
    then obtain us v ws where zs: "zs = us @ v # ws" "length us = i" by (metis id_take_nth_drop length_take min.absorb4)
    show ?thesis using False xs zs by (auto simp: n_def nth_append)
  qed
qed

lemma ps_Remove_copies:
  assumes "ps_range s"
  shows "ps_range (ps_Remove b s)"
    "ps_copies (ps_Remove b s) a = (if a = b then ps_copies s a - 1 else ps_copies s a)"
proof -
  let ?po = "ps_po s (addr_bytes b)" and ?xs = "ps_bin s (ps_po s (addr_bytes b))"
  obtain e i where ix: "ps_index s b ?po = (e, i)" by (rule prod.exhaust)
  have r: "unat ?po < length (ps_peers s)" by (rule ps_range_po [OF assms])
  have "ps_range (ps_Remove b s) \<and> ps_copies (ps_Remove b s) a = (if a = b then ps_copies s a - 1 else ps_copies s a)"
  proof (cases e)
    case False
    then have "b \<notin> set ?xs" using ix ps_index_fst [of s b ?po] by simp
    then have "ps_copies s b = 0" by (simp add: ps_copies_def)
    with False ix assms show ?thesis by (simp add: ps_Remove_def Let_def)
  next
    case True
    from ps_index_SomeD [of s b ?po i] ix True have i: "i < length ?xs" "?xs ! i = b" by simp_all
    let ?n = "length ?xs - 1"
    let ?ys = "if i = ?n then take ?n ?xs else (take ?n ?xs) [i := ?xs ! ?n]"
    have eq: "ps_Remove b s = s\<lparr>ps_peers := (ps_peers s) [unat ?po := ?ys]\<rparr>"
      using ix True by (simp add: ps_Remove_def Let_def)
    have c: "count_list ?ys c = (if c = b then count_list ?xs c - 1 else count_list ?xs c)" for c
      using swap_remove_count [OF i(1), of c] i(2) by simp
    have "ps_range (ps_Remove b s)" using assms unfolding eq by (simp add: ps_range_def)
    moreover have bin: "ps_bin (ps_Remove b s) po = (if po = ?po then ?ys else ps_bin s po)" for po
      unfolding eq by (rule ps_bin_update [OF r])
    moreover have po: "ps_po (ps_Remove b s) = ps_po s" unfolding eq by (rule ps_po_cong)
    have "ps_copies (ps_Remove b s) a = (if a = b then ps_copies s a - 1 else ps_copies s a)"
    proof (cases "ps_po s (addr_bytes a) = ?po")
      case True
      then show ?thesis using c [of a] by (simp only: ps_copies_def bin po simp_thms if_True)
    next
      case False
      then have "a \<noteq> b" by blast
      with False show ?thesis by (simp only: ps_copies_def bin po simp_thms if_False)
    qed
    ultimately show ?thesis by blast
  qed
  then show "ps_range (ps_Remove b s)"
    "ps_copies (ps_Remove b s) a = (if a = b then ps_copies s a - 1 else ps_copies s a)" by blast+
qed

lemma ps_Exists_copies: "ps_Exists s a \<longleftrightarrow> 0 < ps_copies s a"
  by (simp add: ps_Exists_def ps_copies_def count_list_0_iff flip: neq0_conv)

interpretation ps: address_bag ps_range ps_copies ps_Add ps_Remove ps_Exists
  by unfold_locales (simp_all add: ps_Add_copies ps_Remove_copies ps_Exists_copies)

primrec ps_step :: "address set_op \<Rightarrow> pslice \<Rightarrow> pslice" where
  "ps_step (OpAdd as) s = ps_Add as s"
| "ps_step (OpRemove a) s = ps_Remove a s"

lemma ps_step_op: "ps.apply_op = ps_step"
proof (intro ext)
  show "ps.apply_op op s = ps_step op s" for op s by (cases op) simp_all
qed

lemma ps_New_range: "0 < n \<Longrightarrow> n \<le> 256 \<Longrightarrow> ps_range (ps_New n base) \<and> ps_copies (ps_New n base) a = 0"
  using ps_range_po [of "ps_New n base" "addr_bytes a"]
  by (simp add: ps_range_def ps_copies_def ps_New_def ps_bin_def)



end
