(* ===== verification/Skip_Peers.thy ===== *)
theory Skip_Peers
  imports Swarm
begin

text \<open>
  \<open>pkg/skippeers\<close>: the peers a retrieval leaves out, for good (\<open>addresses\<close>) or until the
  overdraft list is reset (\<open>overdraftAddresses\<close>).
\<close>

section \<open>State and operations (skip_peers.go)\<close>

record skiplist =
  sl_overdraft :: "address list"
  sl_addresses :: "address list"

definition sl_empty :: skiplist where
  "sl_empty = \<lparr>sl_overdraft = [], sl_addresses = []\<rparr>"

definition sl_All :: "skiplist \<Rightarrow> address list" where
  "sl_All s = sl_addresses s @ sl_overdraft s"

definition sl_ResetOverdraft :: "skiplist \<Rightarrow> skiplist" where
  "sl_ResetOverdraft s = s\<lparr>sl_overdraft := []\<rparr>"

definition sl_Add :: "address \<Rightarrow> skiplist \<Rightarrow> skiplist" where
  "sl_Add a s =
     (if find_index (\<lambda>b. addr_Equal b a) (sl_addresses s) \<noteq> None then s
      else s\<lparr>sl_addresses := sl_addresses s @ [a]\<rparr>)"

definition sl_AddOverdraft :: "address \<Rightarrow> skiplist \<Rightarrow> skiplist" where
  "sl_AddOverdraft a s =
     (if find_index (\<lambda>b. addr_Equal b a) (sl_overdraft s) \<noteq> None then s
      else
        let s = (case find_index (\<lambda>b. addr_Equal b a) (sl_addresses s) of
                   Some i \<Rightarrow> s\<lparr>sl_addresses := remove_at i (sl_addresses s)\<rparr>
                 | None \<Rightarrow> s)
        in s\<lparr>sl_overdraft := sl_overdraft s @ [a]\<rparr>)"

definition sl_OverdraftListEmpty :: "skiplist \<Rightarrow> bool" where
  "sl_OverdraftListEmpty s \<longleftrightarrow> length (sl_overdraft s) = 0"

section \<open>Invariant and effect of the operations\<close>

definition sl_ok :: "skiplist \<Rightarrow> bool" where
  "sl_ok s \<longleftrightarrow> distinct (sl_addresses s) \<and> distinct (sl_overdraft s)"

lemma find_index_mem: "find_index (\<lambda>b. b = a) xs \<noteq> None \<longleftrightarrow> a \<in> set xs"
  by (auto simp: find_index_None)

lemma remove_at_found:
  assumes "distinct xs" "find_index (\<lambda>b. b = a) xs = Some i"
  shows "distinct (remove_at i xs)" "set (remove_at i xs) = set xs - {a}"
proof -
  from find_index_SomeD [OF assms(2)] have i: "i < length xs" "xs ! i = a" by auto
  from mset_nth_split [OF i(1)] i(2) have m: "mset xs = add_mset a (mset (remove_at i xs))" by simp
  from assms(1) have "distinct (a # remove_at i xs)"
    by (rule mset_eq_imp_distinct_iff [THEN iffD1, rotated]) (simp add: m)
  moreover have "set xs = insert a (set (remove_at i xs))"
    using arg_cong [OF m, of set_mset] by simp
  ultimately show "distinct (remove_at i xs)" "set (remove_at i xs) = set xs - {a}" by auto
qed

lemma sl_Add_addresses:
  "set (sl_addresses (sl_Add a s)) = insert a (set (sl_addresses s))"
  "sl_overdraft (sl_Add a s) = sl_overdraft s"
  "sl_ok s \<Longrightarrow> sl_ok (sl_Add a s)"
  using find_index_mem [of a "sl_addresses s"] by (auto simp: sl_Add_def sl_ok_def)

lemma sl_AddOverdraft_effect:
  assumes "sl_ok s"
  shows "sl_ok (sl_AddOverdraft a s)"
    "set (sl_overdraft (sl_AddOverdraft a s)) = insert a (set (sl_overdraft s))"
    "a \<notin> set (sl_overdraft s) \<Longrightarrow>
     set (sl_addresses (sl_AddOverdraft a s)) = set (sl_addresses s) - {a}"
  using assms find_index_mem [of a "sl_overdraft s"] find_index_mem [of a "sl_addresses s"]
    remove_at_found [of "sl_addresses s" a]
  by (auto simp: sl_AddOverdraft_def sl_ok_def Let_def split: option.split)

datatype sl_op = SlAdd address | SlAddOverdraft address | SlReset

fun sl_step :: "sl_op \<Rightarrow> skiplist \<Rightarrow> skiplist" where
  "sl_step (SlAdd a) s = sl_Add a s"
| "sl_step (SlAddOverdraft a) s = sl_AddOverdraft a s"
| "sl_step SlReset s = sl_ResetOverdraft s"

lemma sl_Reset_ok: "sl_ok s \<Longrightarrow> sl_ok (sl_ResetOverdraft s)"
  by (simp add: sl_ok_def sl_ResetOverdraft_def)

lemma sl_step_ok [inv_intro]: "sl_ok s \<Longrightarrow> sl_ok (sl_step op s)"
  by (cases op) (simp_all add: sl_Add_addresses sl_AddOverdraft_effect sl_Reset_ok)

lemma sl_run_ok: "sl_ok s \<Longrightarrow> sl_ok (fold sl_step ops s)"
  by (induction ops arbitrary: s) (auto simp: sl_step_ok)

text \<open>
  however a skip list was built, a peer added for good stays in \<open>All\<close> through a reset
  of the overdraft list, and a peer only in the overdraft list is released by it.
\<close>

theorem skiplist_reset:
  fixes ops :: "sl_op list" and a b :: address
  defines "s \<equiv> fold sl_step ops sl_empty"
  shows "a \<in> set (sl_All (sl_ResetOverdraft (sl_Add a s))) \<and>
    (b \<notin> set (sl_overdraft s) \<longrightarrow>
      b \<notin> set (sl_All (sl_ResetOverdraft (sl_AddOverdraft b s)))) \<and>
    sl_OverdraftListEmpty (sl_ResetOverdraft s) \<and> distinct (sl_addresses s)"
proof -
  have "sl_ok s" unfolding s_def by (rule sl_run_ok) (simp add: sl_ok_def sl_empty_def)
  then show ?thesis
    using sl_Add_addresses(1) [of a s] sl_AddOverdraft_effect(3) [of s b]
    by (auto simp: sl_All_def sl_ResetOverdraft_def sl_OverdraftListEmpty_def sl_ok_def)
qed

theorem skiplist_reset_witness:
  "Address [2] \<notin> set (sl_All (sl_ResetOverdraft (sl_AddOverdraft (Address [2])
      (fold sl_step [SlAdd (Address [2])] sl_empty))))"
  using skiplist_reset [of "Address [2]" "[SlAdd (Address [2])]" "Address [2]"]
  by (auto simp: sl_empty_def sl_Add_addresses)

end
