(* ===== verification/Intervals.thy ===== *)
theory Intervals
  imports Prelude
begin

text \<open>
  \<open>pkg/intervalstore\<close>: the ranges of a stream that have been synced. The abstraction is the
  set of covered positions; \<open>canonical\<close> lists are sorted and merged.
\<close>

section \<open>State and operations (intervals.go)\<close>

type_synonym range = "u64 \<times> u64"

record intervals =
  iv_start :: u64
  iv_ranges :: "range list"

definition NewIntervals :: "u64 \<Rightarrow> intervals" where
  "NewIntervals start = \<lparr>iv_start = start, iv_ranges = []\<rparr>"

abbreviation MaxUint64 :: u64 where "MaxUint64 \<equiv> - 1"

text \<open>
  The loop of \<open>add\<close>: it carries the range being extended, the two indices (\<^theory_text>\<open>None\<close> for -1)
  and the loop index, and returns them at the \<open>break\<close> or at the end. \<open>endCheck\<close> is fixed
  before the loop.
\<close>

record add_state =
  as_start :: u64
  as_end :: u64
  as_minJ :: "nat option"
  as_maxJ :: "nat option"

definition add_min :: "u64 \<Rightarrow> nat \<Rightarrow> range \<Rightarrow> add_state \<Rightarrow> add_state" where
  "add_min endCheck j r st =
     (if as_minJ st = None then
        if (as_start st \<le> fst r \<and> endCheck \<ge> fst r) \<or>
           (as_start st \<le> snd r + 1 \<and> endCheck \<ge> snd r)
        then st\<lparr>as_start := (if fst r < as_start st then fst r else as_start st),
                as_minJ := Some j\<rparr>
        else st
      else st)"

definition add_max :: "u64 \<Rightarrow> nat \<Rightarrow> range \<Rightarrow> add_state \<Rightarrow> add_state" where
  "add_max endCheck j r st =
     (if (as_start st \<le> snd r \<and> endCheck \<ge> snd r) \<or>
         (as_start st \<le> fst r \<and> endCheck \<ge> fst r)
      then st\<lparr>as_end := (if snd r > as_end st then snd r else as_end st),
              as_maxJ := Some j\<rparr>
      else st)"

fun add_loop :: "u64 \<Rightarrow> nat \<Rightarrow> range list \<Rightarrow> add_state \<Rightarrow> nat \<times> add_state" where
  "add_loop endCheck j [] st = (j, st)"
| "add_loop endCheck j (r # rs) st =
     (let st = add_max endCheck j r (add_min endCheck j r st) in
      if as_end st + 1 \<le> fst r then (j, st)
      else add_loop endCheck (Suc j) rs st)"

definition set_fst :: "nat \<Rightarrow> u64 \<Rightarrow> range list \<Rightarrow> range list" where
  "set_fst j v rs = rs [j := (v, snd (rs ! j))]"

definition set_snd :: "nat \<Rightarrow> u64 \<Rightarrow> range list \<Rightarrow> range list" where
  "set_snd j v rs = rs [j := (fst (rs ! j), v)]"

definition iv_add :: "u64 \<Rightarrow> u64 \<Rightarrow> intervals \<Rightarrow> intervals" where
  "iv_add start end i =
     (let start = (if start < iv_start i then iv_start i else start) in
      if end < iv_start i then i
      else
        let endCheck = (if end = MaxUint64 then end else end + 1);
            (j, st) = add_loop endCheck 0 (iv_ranges i)
              \<lparr>as_start = start, as_end = end, as_minJ = None, as_maxJ = None\<rparr>;
            rs = iv_ranges i
        in case (as_minJ st, as_maxJ st) of
             (None, None) \<Rightarrow> i\<lparr>iv_ranges := take j rs @ [(as_start st, as_end st)] @ drop j rs\<rparr>
           | (Some mn, None) \<Rightarrow> i\<lparr>iv_ranges := set_fst mn (as_start st) rs\<rparr>
           | (None, Some mx) \<Rightarrow> i\<lparr>iv_ranges := set_snd mx (as_end st) rs\<rparr>
           | (Some mn, Some mx) \<Rightarrow>
               (let rs = set_snd mx (as_end st) (set_fst mn (as_start st) rs) in
                if mn \<noteq> mx
                then let rs = set_fst mx (as_start st) rs
                     in i\<lparr>iv_ranges := take mn rs @ drop mx rs\<rparr>
                else i\<lparr>iv_ranges := rs\<rparr>))"

definition iv_Add :: "u64 \<Rightarrow> u64 \<Rightarrow> intervals \<Rightarrow> intervals" where
  "iv_Add start end i = iv_add start end i"

definition iv_Merge :: "intervals \<Rightarrow> intervals \<Rightarrow> intervals" where
  "iv_Merge m i = fold (\<lambda>r. iv_add (fst r) (snd r)) (iv_ranges m) i"

text \<open>
  \<open>Next\<close>: the result \<open>(start, end, empty)\<close>; the deferred function cuts it at the ceiling
  after the return values are set.
\<close>

definition next_range :: "intervals \<Rightarrow> u64 \<times> u64" where
  "next_range i =
     (case iv_ranges i of
        [] \<Rightarrow> (iv_start i, 0)
      | r0 # rest \<Rightarrow>
          if fst r0 \<noteq> iv_start i then (iv_start i, fst r0 - 1)
          else case rest of
                 [] \<Rightarrow> (snd r0 + 1, 0)
               | r1 # _ \<Rightarrow> (snd r0 + 1, fst r1 - 1))"

definition iv_Next :: "u64 \<Rightarrow> intervals \<Rightarrow> u64 \<times> u64 \<times> bool" where
  "iv_Next ceiling i =
     (let (start, end) = next_range i in
      if ceiling > 0 then
        let hitStart = (start > ceiling);
            start = (if hitStart then ceiling else start);
            hitEnd = (end = 0 \<or> end > ceiling);
            end = (if hitEnd then ceiling else end)
        in (start, end, hitStart \<and> hitEnd)
      else (start, end, False))"

definition iv_Last :: "intervals \<Rightarrow> u64" where
  "iv_Last i = (if length (iv_ranges i) = 0 then 0
                else snd (iv_ranges i ! (length (iv_ranges i) - 1)))"

section \<open>Canonical range lists\<close>

text \<open>
  Ranges are non-empty, end before the largest position, and leave at least one position
  free between them.
\<close>

fun canonical :: "range list \<Rightarrow> bool" where
  "canonical [] = True"
| "canonical [r] \<longleftrightarrow> fst r \<le> snd r \<and> snd r < MaxUint64"
| "canonical (r # r' # rs) \<longleftrightarrow>
     fst r \<le> snd r \<and> snd r < MaxUint64 \<and> snd r + 1 < fst r' \<and> canonical (r' # rs)"

definition iv_ok :: "intervals \<Rightarrow> bool" where
  "iv_ok i \<longleftrightarrow> canonical (iv_ranges i) \<and> (\<forall>r \<in> set (iv_ranges i). iv_start i \<le> fst r)"

definition covered :: "range list \<Rightarrow> u64 set" where
  "covered rs = (\<Union>r \<in> set rs. {fst r .. snd r})"

text \<open>The range lies strictly inside one that is there already.\<close>

definition inside :: "u64 \<Rightarrow> u64 \<Rightarrow> range list \<Rightarrow> bool" where
  "inside s e rs \<longleftrightarrow> (\<exists>r \<in> set rs. fst r < s \<and> e + 1 < snd r)"

text \<open>
  a range strictly inside a stored one is not recognised as covered: it is inserted
  behind it, the list is no longer sorted, and \<open>Next\<close> then answers a range that ends before
  it starts.
\<close>

theorem Intervals_add_inside:
  "iv_ok (iv_Add 0 10 (NewIntervals 0)) \<and>
   iv_ranges (iv_Add 3 5 (iv_Add 0 10 (NewIntervals 0))) = [(0, 10), (3, 5)] \<and>
   iv_Next 0 (iv_Add 3 5 (iv_Add 0 10 (NewIntervals 0))) = (11, 2, False)"
  by code_simp

text \<open>
  with the largest end, \<open>end+1\<close> wraps to zero, the loop stops at the first range and
  the new range is stored in front of it; \<open>Next\<close> then claims that covered positions are
  missing.
\<close>

theorem Intervals_add_wraps:
  "iv_ranges (iv_Add 10 MaxUint64 (iv_Add 0 5 (NewIntervals 0))) = [(10, MaxUint64), (0, 5)] \<and>
   iv_Next 0 (iv_Add 10 MaxUint64 (iv_Add 0 5 (NewIntervals 0))) = (0, 9, False)"
  by code_simp

lemma inc_unat: "x < MaxUint64 \<Longrightarrow> unat (x + 1) = Suc (unat x)"
proof -
  assume "x < MaxUint64"
  then have "unat x < 2 ^ 64 - 1" by (simp add: word_less_nat_alt unsigned_minus_1_eq_mask mask_eq_exp_minus_1)
  then show ?thesis by (simp add: unat_word_ariths)
qed

lemma canonical_iff:
  "canonical rs \<longleftrightarrow> (\<forall>r \<in> set rs. fst r \<le> snd r \<and> snd r < MaxUint64) \<and>
     sorted_wrt (\<lambda>r r'. snd r + 1 < fst r') rs"
proof (induction rs rule: canonical.induct)
  case (3 r r' rs)
  have "snd r + 1 < fst r''" if "snd r + 1 < fst r'" "fst r' \<le> snd r'" "snd r' < MaxUint64"
    "snd r' + 1 < fst r''" for r''
    using that by (auto simp: word_less_nat_alt word_le_nat_alt inc_unat)
  with 3 show ?case by auto
qed auto

section \<open>Adding a range\<close>

text \<open>Ranges to the left of the added one change nothing.\<close>

lemma loop_left:
  assumes "\<forall>r \<in> set A. fst r \<le> snd r \<and> snd r < MaxUint64 \<and> snd r + 1 < s"
    and "as_start st = s" "as_end st = e" "s \<le> e" "e < MaxUint64"
  shows "add_loop (e + 1) j (A @ rs) st = add_loop (e + 1) (j + length A) rs st"
  using assms(1)
proof (induction A arbitrary: j)
  case (Cons r A)
  then have r: "unat (fst r) \<le> unat (snd r)" "Suc (unat (snd r)) < unat s"
    by (auto simp: word_less_nat_alt word_le_nat_alt inc_unat)
  moreover have se: "unat s \<le> unat e" "unat (e + 1) = Suc (unat e)"
    using assms(4,5) by (auto simp: word_le_nat_alt inc_unat)
  moreover have r1: "unat (snd r + 1) = Suc (unat (snd r))" using Cons.prems by (auto simp: inc_unat)
  ultimately have "add_min (e + 1) j r st = st" "add_max (e + 1) j r st = st"
    using assms(2,3) by (auto simp: add_min_def add_max_def word_le_nat_alt)
  moreover have "\<not> e + 1 \<le> fst r" using r se by (auto simp: word_le_nat_alt)
  ultimately show ?case using Cons assms(3) by (simp add: Let_def)
qed simp

text \<open>Ranges that touch it, once the first of them is found, move the end.\<close>

lemma loop_touch:
  assumes "\<forall>r \<in> set B. s \<le> fst r \<and> fst r \<le> snd r \<and> snd r < MaxUint64 \<and> fst r \<le> ec"
    and "as_start st = s" "as_minJ st = Some m" "as_end st < MaxUint64"
  shows "add_loop ec j (B @ rs) st = add_loop ec (j + length B) rs
     (st\<lparr>as_end := fold (\<lambda>r e. max e (snd r)) B (as_end st),
         as_maxJ := (if B = [] then as_maxJ st else Some (j + length B - 1))\<rparr>)"
  using assms
proof (induction B arbitrary: j st)
  case (Cons r B)
  let ?st = "st\<lparr>as_end := max (as_end st) (snd r), as_maxJ := Some j\<rparr>"
  have m: "add_min ec j r st = st" using Cons.prems by (simp add: add_min_def)
  have x: "add_max ec j r st = ?st"
    using Cons.prems by (simp add: add_max_def max_def)
  have e: "as_end ?st < MaxUint64" using Cons.prems by (simp add: max_def)
  have "unat (fst r) \<le> unat (snd r)" "unat (snd r) \<le> unat (as_end ?st)"
    using Cons.prems by (auto simp: word_le_nat_alt [symmetric])
  then have "\<not> as_end ?st + 1 \<le> fst r" unfolding word_le_nat_alt inc_unat [OF e] by simp
  then have "add_loop ec j ((r # B) @ rs) st = add_loop ec (Suc j) (B @ rs) ?st"
    by (simp add: m x Let_def)
  also have "\<dots> = add_loop ec (Suc j + length B) rs
     (?st\<lparr>as_end := fold (\<lambda>r e. max e (snd r)) B (as_end ?st),
         as_maxJ := (if B = [] then as_maxJ ?st else Some (Suc j + length B - 1))\<rparr>)"
    using Cons.prems e by (intro Cons.IH) auto
  finally show ?case by simp
qed simp

text \<open>The first range to the right ends the loop.\<close>

lemma loop_right:
  assumes "case rs of [] \<Rightarrow> True | r # _ \<Rightarrow> ec < fst r \<and> fst r \<le> snd r \<and> as_end st + 1 \<le> fst r"
  shows "add_loop ec j rs st = (j, st)"
proof (cases rs)
  case (Cons r rs')
  with assms have r: "ec < fst r" "ec < snd r" "as_end st + 1 \<le> fst r" by auto
  then have "add_min ec j r st = st" "add_max ec j r st = st"
    by (auto simp: add_min_def add_max_def)
  with r Cons show ?thesis by (simp add: Let_def)
qed simp

lemma fold_max_ge: "e \<le> fold (\<lambda>r e. max e (snd r)) B (e :: u64)"
  by (induction B arbitrary: e) (auto intro: order_trans [OF max.cobounded1])

lemma fold_max_mem: "r \<in> set B \<Longrightarrow> snd r \<le> fold (\<lambda>r e. max e (snd r)) B (e :: u64)"
proof (induction B arbitrary: e)
  case (Cons q B)
  have "snd q \<le> fold (\<lambda>r e. max e (snd r)) B (max e (snd q))"
    by (rule order_trans [OF max.cobounded2 fold_max_ge])
  with Cons show ?case by auto
qed simp

lemma fold_max_cases:
  "fold (\<lambda>r e. max e (snd r)) B (e :: u64) = e \<or>
   (\<exists>r \<in> set B. fold (\<lambda>r e. max e (snd r)) B e = snd r)"
proof (induction B arbitrary: e)
  case (Cons r B)
  from Cons [of "max e (snd r)"] show ?case by (cases "e \<le> snd r") (auto simp: max_absorb1 max_absorb2)
qed simp

text \<open>
  A canonical list splits around the added range: left of it, touching it (overlapping or
  adjacent), right of it.
\<close>

lemma canonical_split:
  assumes "canonical rs" "s \<le> e" "e < MaxUint64"
  obtains A B C where "rs = A @ B @ C"
    "\<forall>r \<in> set A. snd r + 1 < s"
    "\<forall>r \<in> set B. s \<le> snd r + 1 \<and> fst r \<le> e + 1"
    "\<forall>r \<in> set C. e + 1 < fst r"
proof -
  define A where "A = takeWhile (\<lambda>r. snd r + 1 < s) rs"
  define R where "R = dropWhile (\<lambda>r. snd r + 1 < s) rs"
  define B where "B = takeWhile (\<lambda>r. fst r \<le> e + 1) R"
  define C where "C = dropWhile (\<lambda>r. fst r \<le> e + 1) R"
  have rs: "rs = A @ R" "R = B @ C" by (simp_all add: A_def R_def B_def C_def)
  from assms(1) have can: "\<forall>r \<in> set rs. fst r \<le> snd r \<and> snd r < MaxUint64"
    and srt: "sorted_wrt (\<lambda>r r'. snd r + 1 < fst r') rs" by (auto simp: canonical_iff)
  have le: "snd r + 1 \<le> snd r' + 1" if "snd r + 1 < fst r'" "fst r' \<le> snd r'" "snd r' < MaxUint64"
    for r r' :: range
    using that by (auto simp: word_le_nat_alt word_less_nat_alt inc_unat)
  have R: "\<forall>r \<in> set R. s \<le> snd r + 1"
  proof (cases R)
    case (Cons r R')
    then have "s \<le> snd r + 1" using hd_dropWhile [of "\<lambda>r. snd r + 1 < s" rs] by (auto simp: R_def not_less)
    moreover have "snd r + 1 \<le> snd r' + 1" if "r' \<in> set R'" for r'
      using srt can that Cons rs(1) by (intro le) (auto simp: sorted_wrt_append)
    ultimately show ?thesis using Cons by (auto intro: order_trans)
  qed simp
  have C: "\<forall>r \<in> set C. e + 1 < fst r"
  proof (cases C)
    case (Cons r C')
    then have c: "e + 1 < fst r" using hd_dropWhile [of "\<lambda>r. fst r \<le> e + 1" R] by (auto simp: C_def)
    have "fst r < fst r'" if "r' \<in> set C'" for r'
    proof -
      have "snd r + 1 < fst r'" "fst r \<le> snd r" "snd r < MaxUint64"
        using srt can that Cons rs by (auto simp: sorted_wrt_append)
      then show ?thesis by (auto simp: word_le_nat_alt word_less_nat_alt inc_unat)
    qed
    with c Cons show ?thesis by (auto intro: order_less_trans)
  qed simp
  show ?thesis
  proof (rule that [of A B C])
    show "\<forall>r \<in> set A. snd r + 1 < s" by (auto simp: A_def dest: set_takeWhileD)
    have "set B \<subseteq> set R" using rs(2) by simp
    moreover have "\<forall>r \<in> set B. fst r \<le> e + 1" by (auto simp: B_def dest: set_takeWhileD)
    ultimately show "\<forall>r \<in> set B. s \<le> snd r + 1 \<and> fst r \<le> e + 1" using R by blast
    show "rs = A @ B @ C" using rs by simp
    show "\<forall>r \<in> set C. e + 1 < fst r" by (rule C)
  qed
qed

lemma surgery:
  fixes S E :: u64 and rs :: "range list"
  assumes "mn \<le> mx" "mx < length rs"
  defines "rs1 \<equiv> set_snd mx E (set_fst mn S rs)"
  shows "(if mn \<noteq> mx then take mn (set_fst mx S rs1) @ drop mx (set_fst mx S rs1) else rs1) =
    take mn rs @ (S, E) # drop (Suc mx) rs"
proof (cases "mn = mx")
  case True
  with assms(2) have "rs1 = rs [mn := (S, E)]" by (simp add: rs1_def set_fst_def set_snd_def)
  with True assms(2) show ?thesis by (simp add: upd_conv_take_nth_drop)
next
  case False
  with assms have "set_fst mx S rs1 = (set_fst mn S rs) [mx := (S, E)]"
    by (simp add: rs1_def set_fst_def set_snd_def)
  moreover have "drop mx ((set_fst mn S rs) [mx := (S, E)]) = (S, E) # drop (Suc mx) rs"
    using assms(1,2) False
    by (simp add: set_fst_def drop_update_swap Cons_nth_drop_Suc [symmetric])
  ultimately show ?thesis using assms(1) False by (simp add: set_fst_def)
qed

lemma iv_add_split:
  assumes can: "canonical rs" and rs: "rs = A @ B @ C" "iv_ranges i = rs"
    and s: "s = max start (iv_start i)" "s \<le> e" "e < MaxUint64"
    and A: "\<forall>r \<in> set A. snd r + 1 < s"
    and B: "\<forall>r \<in> set B. s \<le> snd r + 1 \<and> fst r \<le> e + 1"
    and C: "\<forall>r \<in> set C. e + 1 < fst r"
    and inside: "\<not> inside s e rs"
  defines "E \<equiv> fold (\<lambda>r e. max e (snd r)) B e"
    and "S \<equiv> (case B of [] \<Rightarrow> s | b # _ \<Rightarrow> min s (fst b))"
  shows "iv_add start e i = i\<lparr>iv_ranges := A @ (S, E) # C\<rparr>"
proof -
  let ?st = "\<lparr>as_start = s, as_end = e, as_minJ = None, as_maxJ = None\<rparr>"
  from can have ok: "\<forall>r \<in> set rs. fst r \<le> snd r \<and> snd r < MaxUint64"
    and srt: "sorted_wrt (\<lambda>r r'. snd r + 1 < fst r') rs" by (auto simp: canonical_iff)
  have EC: "E + 1 \<le> fst c" "e + 1 < fst c" "fst c \<le> snd c" if "c \<in> set C" for c
    using fold_max_cases [of B e] that C srt ok rs(1)
    unfolding E_def by (auto simp: sorted_wrt_append less_imp_le)
  have left: "add_loop (e + 1) 0 rs ?st = add_loop (e + 1) (length A) (B @ C) ?st"
    unfolding rs(1) using loop_left [of A s ?st e 0 "B @ C"] ok rs(1) A s(2,3) by auto
  have guard: "\<not> e < iv_start i" "(if start < iv_start i then iv_start i else start) = s"
    "(if e = MaxUint64 then e else e + 1) = e + 1"
    using s by (auto simp: max_def split: if_splits)
  show ?thesis
  proof (cases B)
    case Nil
    have "add_loop (e + 1) (length A) C ?st = (length A, ?st)"
      using EC Nil by (intro loop_right) (auto simp: E_def split: list.split)
    with left Nil guard rs show ?thesis
      by (simp add: iv_add_def Let_def E_def S_def)
  next
    case (Cons b B')
    let ?j = "length A"
    let ?st1 = "\<lparr>as_start = S, as_end = max e (snd b), as_minJ = Some ?j, as_maxJ = Some ?j\<rparr>"
    let ?st2 = "\<lparr>as_start = S, as_end = E, as_minJ = Some ?j, as_maxJ = Some (?j + length B')\<rparr>"
    have b: "s \<le> snd b + 1" "fst b \<le> e + 1" "fst b \<le> snd b" "snd b < MaxUint64"
      "\<not> (fst b < s \<and> e + 1 < snd b)"
      using B Cons ok rs(1) inside by (auto simp: inside_def)
    have S: "S = min s (fst b)" by (simp add: S_def Cons)
    have e1: "max e (snd b) < MaxUint64" using b(4) s(3) by simp
    have first: "add_loop (e + 1) ?j (B @ C) ?st = add_loop (e + 1) (Suc ?j) (B' @ C) ?st1"
    proof -
      have "add_min (e + 1) ?j b ?st = ?st\<lparr>as_start := S, as_minJ := Some ?j\<rparr>"
        using b by (auto simp: add_min_def S min_def not_less not_le)
      moreover have "add_max (e + 1) ?j b (?st\<lparr>as_start := S, as_minJ := Some ?j\<rparr>) = ?st1"
        using b(2) by (auto simp: add_max_def S max_def)
      moreover have "\<not> max e (snd b) + 1 \<le> fst b"
      proof -
        have "unat (fst b) \<le> unat (snd b)" "unat (snd b) \<le> unat (max e (snd b))"
          using b(3) by (auto simp: word_le_nat_alt [symmetric])
        then show ?thesis unfolding word_le_nat_alt inc_unat [OF e1] by simp
      qed
      ultimately show ?thesis unfolding Cons by (simp add: Let_def)
    qed
    have "\<forall>r \<in> set B'. S \<le> fst r"
    proof
      fix r assume r: "r \<in> set B'"
      with srt rs(1) Cons have "snd b + 1 < fst r" by (auto simp: sorted_wrt_append)
      moreover have "S \<le> fst b" by (simp add: S)
      moreover have "unat (snd b + 1) = Suc (unat (snd b))" using b(4) by (rule inc_unat)
      ultimately show "S \<le> fst r" using b(3) by (simp add: word_less_nat_alt word_le_nat_alt)
    qed
    then have "add_loop (e + 1) (Suc ?j) (B' @ C) ?st1 = add_loop (e + 1) (Suc ?j + length B') C ?st2"
      using loop_touch [of B' S "e + 1" ?st1 ?j "Suc ?j" C] B ok rs(1) Cons e1
      by (auto simp: E_def)
    moreover have "add_loop (e + 1) (Suc ?j + length B') C ?st2 = (Suc ?j + length B', ?st2)"
      using EC by (intro loop_right) (auto split: list.split)
    ultimately have "add_loop (e + 1) 0 rs ?st = (Suc ?j + length B', ?st2)"
      using left first by simp
    with guard rs(2) surgery [where mn = ?j and mx = "?j + length B'" and rs = rs and E = E and S = S] rs(1) Cons show ?thesis
      by (simp add: iv_add_def Let_def split: if_splits)
  qed
qed

lemma iv_add_canonical:
  assumes "iv_ok i" "max start (iv_start i) \<le> e" "e < MaxUint64"
    and "\<not> inside (max start (iv_start i)) e (iv_ranges i)"
  shows "iv_ok (iv_add start e i) \<and>
    covered (iv_ranges (iv_add start e i)) =
      covered (iv_ranges i) \<union> {max start (iv_start i) .. e}"
proof -
  let ?s = "max start (iv_start i)"
  from assms(1) have can: "canonical (iv_ranges i)" by (simp add: iv_ok_def)
  from canonical_split [OF can assms(2,3)] obtain A B C where
    rs: "iv_ranges i = A @ B @ C" and A: "\<forall>r \<in> set A. snd r + 1 < ?s"
    and B: "\<forall>r \<in> set B. ?s \<le> snd r + 1 \<and> fst r \<le> e + 1"
    and C: "\<forall>r \<in> set C. e + 1 < fst r" by blast
  define E where "E = fold (\<lambda>r e. max e (snd r)) B e"
  define S where "S = (case B of [] \<Rightarrow> ?s | b # _ \<Rightarrow> min ?s (fst b))"
  have eq: "iv_add start e i = i\<lparr>iv_ranges := A @ (S, E) # C\<rparr>"
    unfolding E_def S_def
    by (rule iv_add_split [OF can rs refl refl assms(2,3) A B C assms(4)])
  from can have ok: "\<forall>r \<in> set A \<union> set B \<union> set C. fst r \<le> snd r \<and> snd r < MaxUint64"
    and srt: "sorted_wrt (\<lambda>r r'. snd r + 1 < fst r') (A @ B @ C)"
    by (auto simp: canonical_iff rs)
  have E: "e \<le> E" "\<And>r. r \<in> set B \<Longrightarrow> snd r \<le> E" "E = e \<or> (\<exists>r \<in> set B. E = snd r)"
    unfolding E_def by (simp_all add: fold_max_ge fold_max_mem fold_max_cases)
  have S: "S \<le> ?s" "S = ?s \<or> (\<exists>r \<in> set B. S = fst r)"
    by (auto simp: S_def split: list.split) (auto simp: min_def)
  have SB: "S \<le> fst r" if "r \<in> set B" for r
  proof (cases B)
    case (Cons b B')
    have "fst b \<le> fst r"
    proof (cases "r = b")
      case False
      with that Cons srt have "snd b + 1 < fst r" by (auto simp: sorted_wrt_append)
      moreover have "fst b \<le> snd b" "snd b < MaxUint64" using ok Cons by auto
      ultimately show ?thesis by (simp add: word_less_nat_alt word_le_nat_alt inc_unat)
    qed simp
    then show ?thesis by (auto simp: S_def Cons min_def)
  qed (use that in simp)
  have E1: "E < MaxUint64" using E(3) assms(3) ok by auto
  have "canonical (A @ (S, E) # C)"
  proof -
    have "S \<le> E" using S(1) assms(2) E(1) by (meson order_trans)
    moreover have "snd a + 1 < S" if "a \<in> set A" for a
      using S(2) A srt that by (auto simp: sorted_wrt_append)
    moreover have "E + 1 < fst c" if "c \<in> set C" for c
      using E(3) C srt that by (auto simp: sorted_wrt_append)
    ultimately show ?thesis
      using ok srt E1 by (auto simp: canonical_iff sorted_wrt_append)
  qed
  moreover have "iv_start i \<le> S" using S(2) assms(1) rs by (auto simp: iv_ok_def)
  ultimately have "iv_ok (iv_add start e i)" using assms(1) rs eq by (auto simp: iv_ok_def)
  moreover have "{S .. E} = covered B \<union> {?s .. e}"
  proof (rule set_eqI)
    fix x
    show "x \<in> {S .. E} \<longleftrightarrow> x \<in> covered B \<union> {?s .. e}"
    proof
      assume x: "x \<in> {S .. E}"
      consider "?s \<le> x" "x \<le> e" | "x < ?s" | "e < x" by (meson not_le)
      then show "x \<in> covered B \<union> {?s .. e}"
      proof cases
        case 2
        with x have "S < ?s" by auto
        with S(2) obtain b where b: "b \<in> set B" "S = fst b" by blast
        with B ok 2 have "unat x < unat ?s" "unat ?s \<le> Suc (unat (snd b))"
          by (auto simp: word_less_nat_alt word_le_nat_alt inc_unat)
        then have "x \<le> snd b" by (simp add: word_le_nat_alt)
        with b x show ?thesis by (auto simp: covered_def)
      next
        case 3
        with x E(3) obtain b where b: "b \<in> set B" "E = snd b" by auto
        with B assms(3) 3 have "unat e < unat x" "unat (fst b) \<le> Suc (unat e)"
          by (auto simp: word_less_nat_alt word_le_nat_alt inc_unat)
        then have "fst b \<le> x" by (simp add: word_le_nat_alt)
        with b x show ?thesis by (auto simp: covered_def)
      qed auto
    next
      assume "x \<in> covered B \<union> {?s .. e}"
      then show "x \<in> {S .. E}"
        using SB E(1,2) S(1) by (auto simp: covered_def intro: order_trans)
    qed
  qed
  ultimately show ?thesis unfolding eq by (auto simp: covered_def rs)
qed

text \<open>
  adding a range that does not lie strictly inside a stored one keeps the list canonical
  (sorted, merged, non-empty ranges) and covers exactly the old positions and those of the
  range, cut at the lower bound.
\<close>

theorem Intervals_Add:
  assumes "iv_ok i" "max start (iv_start i) \<le> end" "end < MaxUint64"
    and "\<not> inside (max start (iv_start i)) end (iv_ranges i)"
  shows "iv_ok (iv_Add start end i) \<and>
    covered (iv_ranges (iv_Add start end i)) =
      covered (iv_ranges i) \<union> {max start (iv_start i) .. end}"
  unfolding iv_Add_def by (rule iv_add_canonical [OF assms])

theorem Intervals_Add_witness:
  "covered (iv_ranges (iv_Add 4 12 \<lparr>iv_start = 2, iv_ranges = [(2, 5), (10, 20)]\<rparr>)) =
   {2..5} \<union> {10..20} \<union> {4..12}"
proof -
  let ?i = "\<lparr>iv_start = 2, iv_ranges = [(2, 5), (10, 20)]\<rparr>"
  have "iv_ok ?i" "\<not> inside (max 4 (iv_start ?i)) 12 (iv_ranges ?i)"
    by (simp_all add: iv_ok_def inside_def)
  from Intervals_Add [OF this(1) _ _ this(2)] show ?thesis by (simp add: covered_def)
qed

section \<open>The next missing range\<close>

lemma dec_le: "0 < y \<Longrightarrow> x \<le> y - 1 \<longleftrightarrow> x < (y :: u64)"
  by (cases "y = 0") (auto simp: word_le_nat_alt word_less_nat_alt unat_minus_one)

lemma inc_le: "x < MaxUint64 \<Longrightarrow> x + 1 \<le> y \<longleftrightarrow> x < y"
  by (auto simp: word_le_nat_alt word_less_nat_alt inc_unat)

lemma less_inc: "x < MaxUint64 \<Longrightarrow> y < x + 1 \<longleftrightarrow> y \<le> x"
  by (auto simp: word_le_nat_alt word_less_nat_alt inc_unat)

lemma canonical_tail: "canonical (r # rs) \<Longrightarrow> r' \<in> set rs \<Longrightarrow> snd r < fst r'"
  using inc_le by (auto simp: canonical_iff dest!: bspec intro: less_imp_le)

lemma canonical_head: "canonical (r # rs) \<Longrightarrow> r' \<in> set (r # rs) \<Longrightarrow> fst r \<le> fst r'"
  using canonical_tail [of r rs r'] by (auto simp: canonical_iff)

lemma next_range_gap:
  assumes "iv_ok i" "next_range i = (s, e)" "iv_start i \<le> x"
  shows "x < s \<Longrightarrow> x \<in> covered (iv_ranges i)"
    and "e \<noteq> 0 \<Longrightarrow> s \<le> e \<and> e + 1 \<in> covered (iv_ranges i)"
    and "e \<noteq> 0 \<Longrightarrow> s \<le> x \<Longrightarrow> x \<le> e \<Longrightarrow> x \<notin> covered (iv_ranges i)"
    and "e = 0 \<Longrightarrow> s \<noteq> 0 \<Longrightarrow> s \<le> x \<Longrightarrow> x \<notin> covered (iv_ranges i)"
proof -
  have "(x < s \<longrightarrow> x \<in> covered (iv_ranges i)) \<and>
      (e \<noteq> 0 \<longrightarrow> s \<le> e \<and> e + 1 \<in> covered (iv_ranges i) \<and>
        (s \<le> x \<and> x \<le> e \<longrightarrow> x \<notin> covered (iv_ranges i))) \<and>
      (e = 0 \<and> s \<noteq> 0 \<and> s \<le> x \<longrightarrow> x \<notin> covered (iv_ranges i))"
  proof (cases "iv_ranges i")
    case Nil
    then show ?thesis using assms by (auto simp: next_range_def covered_def)
  next
    case (Cons r0 rest)
    have can: "canonical (r0 # rest)" and st: "iv_start i \<le> fst r0"
      using assms(1) Cons by (auto simp: iv_ok_def)
    have r0: "fst r0 \<le> snd r0" "snd r0 < MaxUint64" using can by (auto simp: canonical_iff)
    show ?thesis
    proof (cases "fst r0 = iv_start i")
      case False
      with assms(2) Cons have se: "s = iv_start i" "e = fst r0 - 1" by (auto simp: next_range_def)
      have lt: "iv_start i < fst r0" using False st by auto
      then have pos: "0 < fst r0" by (meson le_less_trans word_zero_le)
      have "y < fst r0 \<Longrightarrow> y \<notin> covered (iv_ranges i)" for y
        using canonical_head [OF can] unfolding Cons covered_def by fastforce
      moreover have "fst r0 \<in> covered (iv_ranges i)" using r0 by (simp add: Cons covered_def)
      moreover have "s = 0" if "e = 0"
        using that lt dec_le [OF pos, of s] by (simp add: se)
      ultimately show ?thesis using assms(3) lt dec_le [OF pos] by (auto simp: se)
    next
      case True
      have low: "x \<in> covered (iv_ranges i)" if "x < snd r0 + 1"
        using that True assms(3) by (simp add: less_inc [OF r0(2)] Cons covered_def)
      show ?thesis
      proof (cases rest)
        case Nil
        with assms(2) Cons True have "s = snd r0 + 1" "e = 0" by (auto simp: next_range_def)
        then show ?thesis using low Nil r0 by (auto simp: Cons covered_def inc_le)
      next
        case (Cons r1 rest')
        with assms(2) \<open>iv_ranges i = r0 # rest\<close> True
        have se: "s = snd r0 + 1" "e = fst r1 - 1" by (auto simp: next_range_def)
        have gap: "snd r0 + 1 < fst r1" and can1: "canonical (r1 # rest')"
          using can Cons by auto
        then have pos: "0 < fst r1" by (meson le_less_trans word_zero_le)
        have r1: "fst r1 \<le> snd r1" using can1 by (auto simp: canonical_iff)
        have "y \<notin> covered (iv_ranges i)" if "snd r0 < y" "y < fst r1" for y
          using that canonical_head [OF can1] unfolding \<open>iv_ranges i = r0 # rest\<close> Cons covered_def
          by fastforce
        moreover have "fst r1 \<in> covered (iv_ranges i)"
          using r1 by (simp add: \<open>iv_ranges i = r0 # rest\<close> Cons covered_def)
        moreover have "s \<le> e" using gap dec_le [OF pos, of s] by (simp add: se)
        moreover have "s \<noteq> 0" using inc_unat [OF r0(2)] by (auto simp: se)
        moreover have "e + 1 = fst r1" by (simp add: se)
        moreover have "s \<le> x \<longleftrightarrow> snd r0 < x" "x \<le> e \<longleftrightarrow> x < fst r1"
          unfolding se by (rule inc_le [OF r0(2)], rule dec_le [OF pos])
        moreover have "x < s \<longrightarrow> x \<in> covered (iv_ranges i)" using low unfolding se by blast
        ultimately show ?thesis by (metis word_le_0_iff)
      qed
    qed
  qed
  then show "x < s \<Longrightarrow> x \<in> covered (iv_ranges i)"
    and "e \<noteq> 0 \<Longrightarrow> s \<le> e \<and> e + 1 \<in> covered (iv_ranges i)"
    and "e \<noteq> 0 \<Longrightarrow> s \<le> x \<Longrightarrow> x \<le> e \<Longrightarrow> x \<notin> covered (iv_ranges i)"
    and "e = 0 \<Longrightarrow> s \<noteq> 0 \<Longrightarrow> s \<le> x \<Longrightarrow> x \<notin> covered (iv_ranges i)"
    by blast+
qed

text \<open>
  on a canonical list \<open>Next\<close> without a ceiling answers the first gap above the lower bound:
  everything before it is covered, nothing in it is, and a non-zero end is followed by a
  covered position.
\<close>

theorem Intervals_Next:
  assumes "iv_ok i" "iv_Next 0 i = (s, e, emp)" "e \<noteq> 0"
  shows "\<not> emp \<and> s \<le> e \<and> e + 1 \<in> covered (iv_ranges i) \<and>
    (\<forall>x \<ge> iv_start i. (x < s \<longrightarrow> x \<in> covered (iv_ranges i)) \<and>
      (s \<le> x \<and> x \<le> e \<longrightarrow> x \<notin> covered (iv_ranges i)))"
proof -
  from assms(2) have n: "next_range i = (s, e)" "\<not> emp"
    by (auto simp: iv_Next_def split: prod.splits)
  show ?thesis
    using n(2) assms(3) next_range_gap [OF assms(1) n(1)] next_range_gap(2) [OF assms(1) n(1) order_refl]
    by blast
qed

theorem Intervals_Next_witness:
  "6 \<notin> covered [(2, 5), (10, 20)] \<and> 9 + 1 \<in> covered [(2, 5), (10, 20)]"
proof -
  let ?i = "\<lparr>iv_start = 2, iv_ranges = [(2, 5), (10, 20)]\<rparr>"
  have "iv_ok ?i" by (simp add: iv_ok_def)
  moreover have "iv_Next 0 ?i = (6, 9, False)" by code_simp
  ultimately show ?thesis
    using Intervals_Next [of ?i 6 9 False] by (auto dest: spec [of _ 6])
qed

end
