(* ===== verification/State_Store.thy ===== *)
theory State_Store
  imports Prelude
begin

text \<open>
  \<open>pkg/statestore\<close>: the key-value store behind \<open>storage.StateStorer\<close>. The in-memory store of
  \<open>statestore/mock\<close> is a Go map from key strings to encoded values; its content is kept
  here as an association list in the order of the keys, which is the order in which the
  store on disk iterates. The store on disk can also fail: whether an operation on a key
  does is given by the field \<open>kv_fail\<close>, on which nothing is assumed. Values are kept decoded, so
  the element type is a parameter.
\<close>

section \<open>The store\<close>

datatype kv_op = OpGet | OpPut | OpDelete | OpIterate

datatype store_error = ErrNotFound | ErrIO

record 'v kv =
  kv_data :: "(bytes \<times> 'v) list"
  kv_fail :: "kv_op \<Rightarrow> bytes \<Rightarrow> bool"

fun assoc_put :: "bytes \<Rightarrow> 'v \<Rightarrow> (bytes \<times> 'v) list \<Rightarrow> (bytes \<times> 'v) list" where
  "assoc_put k v [] = [(k, v)]"
| "assoc_put k v ((k', v') # kvs) =
     (if k < k' then (k, v) # (k', v') # kvs
      else if k = k' then (k, v) # kvs
      else (k', v') # assoc_put k v kvs)"

definition kv_Get :: "'v kv \<Rightarrow> bytes \<Rightarrow> store_error + 'v" where
  "kv_Get s key =
     (if kv_fail s OpGet key then Inl ErrIO
      else case map_of (kv_data s) key of
             None \<Rightarrow> Inl ErrNotFound
           | Some v \<Rightarrow> Inr v)"

definition kv_Put :: "bytes \<Rightarrow> 'v \<Rightarrow> 'v kv \<Rightarrow> store_error + 'v kv" where
  "kv_Put key v s =
     (if kv_fail s OpPut key then Inl ErrIO
      else Inr (s\<lparr>kv_data := assoc_put key v (kv_data s)\<rparr>))"

definition kv_Delete :: "bytes \<Rightarrow> 'v kv \<Rightarrow> store_error + 'v kv" where
  "kv_Delete key s =
     (if kv_fail s OpDelete key then Inl ErrIO
      else Inr (s\<lparr>kv_data := filter (\<lambda>(k, v). k \<noteq> key) (kv_data s)\<rparr>))"

text \<open>
  The entries an iteration presents to its callback, which runs over a snapshot and returns
  an error or its flag to stop, with the state it has changed.
\<close>

definition kv_entries :: "bytes \<Rightarrow> 'v kv \<Rightarrow> (bytes \<times> 'v) list" where
  "kv_entries pre s = filter (\<lambda>(k, v). has_prefix pre k) (kv_data s)"

fun iterate_loop ::
  "(bytes \<Rightarrow> 'v \<Rightarrow> 's \<Rightarrow> ('e + bool) \<times> 's) \<Rightarrow> (bytes \<times> 'v) list \<Rightarrow> 's \<Rightarrow> 'e option \<times> 's" where
  "iterate_loop f [] st = (None, st)"
| "iterate_loop f ((k, v) # kvs) st =
     (case f k v st of
        (Inl err, st') \<Rightarrow> (Some err, st')
      | (Inr stop, st') \<Rightarrow> if stop then (None, st') else iterate_loop f kvs st')"

definition kv_Iterate ::
  "'v kv \<Rightarrow> bytes \<Rightarrow> (bytes \<Rightarrow> 'v \<Rightarrow> 's \<Rightarrow> ('e + bool) \<times> 's) \<Rightarrow> 's \<Rightarrow>
   (store_error + 'e) option \<times> 's" where
  "kv_Iterate s pre f st =
     (if kv_fail s OpIterate pre then (Some (Inl ErrIO), st)
      else apfst (map_option Inr) (iterate_loop f (kv_entries pre s) st))"

section \<open>Laws\<close>

definition kv_ok :: "'v kv \<Rightarrow> bool" where
  "kv_ok s \<longleftrightarrow> sorted_wrt (<) (map fst (kv_data s))"

text \<open>The abstraction: the finite map the store holds.\<close>

definition kv_map :: "'v kv \<Rightarrow> bytes \<Rightarrow> 'v option" where
  "kv_map s = map_of (kv_data s)"

definition kv_reliable :: "'v kv \<Rightarrow> bool" where
  "kv_reliable s \<longleftrightarrow> (\<forall>op k. \<not> kv_fail s op k)"

lemma map_of_assoc_put [simp]:
  "map_of (assoc_put k v kvs) = (map_of kvs)(k \<mapsto> v)" if "sorted_wrt (<) (map fst kvs)"
  using that
proof (induction kvs)
  case (Cons kv kvs)
  then show ?case by (cases kv) (auto simp: fun_eq_iff)
qed simp

lemma keys_assoc_put: "fst ` set (assoc_put k v kvs) = insert k (fst ` set kvs)"
  by (induction k v kvs rule: assoc_put.induct) auto

lemma sorted_assoc_put:
  "sorted_wrt (<) (map fst kvs) \<Longrightarrow> sorted_wrt (<) (map fst (assoc_put k v kvs))"
proof (induction k v kvs rule: assoc_put.induct)
  case (2 k v k' v' kvs)
  have "\<forall>x \<in> fst ` set (assoc_put k v kvs). k' < x" if "\<not> k < k'" "k \<noteq> k'"
    using 2(2) that unfolding keys_assoc_put by auto
  with 2 show ?case by fastforce
qed simp

lemma map_of_filter_ne: "map_of (filter (\<lambda>(k, v). k \<noteq> key) kvs) = (map_of kvs)(key := None)"
  by (induction kvs) (auto simp: fun_eq_iff)

lemma kv_Put_ok [inv_intro]: "kv_ok s \<Longrightarrow> kv_Put k v s = Inr s' \<Longrightarrow> kv_ok s'"
  by (auto simp: kv_Put_def kv_ok_def sorted_assoc_put split: if_splits)

lemma kv_Delete_ok [inv_intro]: "kv_ok s \<Longrightarrow> kv_Delete k s = Inr s' \<Longrightarrow> kv_ok s'"
  by (auto simp: kv_Delete_def kv_ok_def sorted_wrt_map intro: sorted_wrt_filter split: if_splits)

lemma kv_Put_map: "kv_ok s \<Longrightarrow> kv_Put k v s = Inr s' \<Longrightarrow> kv_map s' = (kv_map s)(k \<mapsto> v)"
  by (auto simp: kv_Put_def kv_ok_def kv_map_def split: if_splits)

lemma kv_Delete_map: "kv_Delete k s = Inr s' \<Longrightarrow> kv_map s' = (kv_map s)(k := None)"
  by (auto simp: kv_Delete_def kv_map_def map_of_filter_ne split: if_splits)

lemma kv_fail_simps:
  "kv_Put k v s = Inr s' \<Longrightarrow> kv_fail s' = kv_fail s"
  "kv_Delete k s = Inr s' \<Longrightarrow> kv_fail s' = kv_fail s"
  by (auto simp: kv_Put_def kv_Delete_def split: if_splits)

lemma kv_Get_reliable:
  "kv_reliable s \<Longrightarrow> kv_Get s k = (case kv_map s k of None \<Rightarrow> Inl ErrNotFound | Some v \<Rightarrow> Inr v)"
  by (simp add: kv_Get_def kv_reliable_def kv_map_def)

lemma kv_Put_reliable: "kv_reliable s \<Longrightarrow> \<exists>s'. kv_Put k v s = Inr s' \<and> kv_reliable s'"
  by (simp add: kv_Put_def kv_reliable_def)

lemma kv_Delete_reliable: "kv_reliable s \<Longrightarrow> \<exists>s'. kv_Delete k s = Inr s' \<and> kv_reliable s'"
  by (simp add: kv_Delete_def kv_reliable_def)

lemma kv_entries_map:
  assumes "kv_ok s"
  shows "(k, v) \<in> set (kv_entries pre s) \<longleftrightarrow> has_prefix pre k \<and> kv_map s k = Some v"
proof -
  have "distinct (map fst (kv_data s))"
    using assms by (simp add: kv_ok_def strict_sorted_iff)
  then show ?thesis by (auto simp: kv_entries_def kv_map_def)
qed

lemma kv_entries_sorted: "kv_ok s \<Longrightarrow> sorted_wrt (<) (map fst (kv_entries pre s))"
  unfolding kv_ok_def kv_entries_def sorted_wrt_map by (rule sorted_wrt_filter)

section \<open>The contract of a state store\<close>

text \<open>
  What the components above rely on: a successful \<open>Put\<close> or \<open>Delete\<close> updates the map the
  store holds at one key, \<open>Get\<close> reads it, and a failing operation reports an error. The
  client lemmas give the effect of a batch of writes.
\<close>

locale state_store =
  fixes inv :: "'s \<Rightarrow> bool" and abs :: "'s \<Rightarrow> 'k \<Rightarrow> 'v option"
    and get :: "'s \<Rightarrow> 'k \<Rightarrow> 'e + 'v" and put :: "'k \<Rightarrow> 'v \<Rightarrow> 's \<Rightarrow> 'e + 's"
    and del :: "'k \<Rightarrow> 's \<Rightarrow> 'e + 's"
  assumes get_abs: "inv s \<Longrightarrow> get s k = Inr v \<Longrightarrow> abs s k = Some v"
    and put_inv: "inv s \<Longrightarrow> put k v s = Inr s' \<Longrightarrow> inv s'"
    and put_abs: "inv s \<Longrightarrow> put k v s = Inr s' \<Longrightarrow> abs s' = (abs s)(k \<mapsto> v)"
    and del_inv: "inv s \<Longrightarrow> del k s = Inr s' \<Longrightarrow> inv s'"
    and del_abs: "inv s \<Longrightarrow> del k s = Inr s' \<Longrightarrow> abs s' = (abs s)(k := None)"
begin

lemma get_after_put:
  "inv s \<Longrightarrow> put k v s = Inr s' \<Longrightarrow> get s' k' = Inr w \<Longrightarrow>
   (if k' = k then w = v else abs s k' = Some w)"
  using get_abs [of s' k' w] put_inv [of s k v s'] put_abs [of s k v s'] by auto

lemma get_after_del: "inv s \<Longrightarrow> del k s = Inr s' \<Longrightarrow> get s' k \<noteq> Inr w"
  using get_abs [of s' k w] del_inv [of s k s'] del_abs [of s k s'] by auto

fun put_all :: "('k \<times> 'v) list \<Rightarrow> 's \<Rightarrow> 'e + 's" where
  "put_all [] s = Inr s"
| "put_all ((k, v) # kvs) s =
     (case put k v s of Inl err \<Rightarrow> Inl err | Inr s' \<Rightarrow> put_all kvs s')"

lemma put_all_abs:
  "inv s \<Longrightarrow> put_all kvs s = Inr s' \<Longrightarrow> inv s' \<and> abs s' = abs s ++ map_of (rev kvs)"
proof (induction kvs s rule: put_all.induct)
  case (2 k v kvs s)
  then obtain s1 where p: "put k v s = Inr s1" "put_all kvs s1 = Inr s'"
    by (auto split: sum.splits)
  from 2 p put_inv [of s k v s1] put_abs [of s k v s1] show ?case
    by (auto simp: map_add_def fun_eq_iff map_of_append split: option.split)
qed simp

end

interpretation kvs: state_store kv_ok kv_map kv_Get kv_Put kv_Delete
proof
  show "kv_map s k = Some v" if "kv_Get s k = Inr v" for s k v
    using that by (auto simp: kv_Get_def kv_map_def split: if_splits option.splits)
qed (auto intro: kv_Put_ok kv_Delete_ok dest: kv_Put_map kv_Delete_map)

end
