(* ===== verification/Accounting.thy ===== *)
theory Accounting
  imports Swarm State_Store "HOL-Library.AList"
begin

text \<open>
  \<open>pkg/accounting\<close>: the balances a node keeps with each of its peers. Persistent balances
  (big integers) live in the state store under three key families; reservations, thresholds
  and flags live in one in-memory record per peer. Every operation holds the lock of its
  peer from beginning to end, so an operation is one function on the state.

  Calls that leave the package (refreshment and payment functions started as goroutines,
  block-listing, announcing a threshold) are appended to \<open>ac_calls\<close> in the order the code
  makes them; their errors are ignored by the code. Logging and metrics are left out. The
  readings of the clock an operation takes are the values of a function from the number of
  the reading, in milliseconds; big integers and timestamps are unbounded integers here.
\<close>

section \<open>Integers\<close>

text \<open>Division of \<open>int64\<close> values truncates; \<open>big.Int.Div\<close> with a positive divisor is \<^theory_text>\<open>div\<close>.\<close>

definition go_div :: "int \<Rightarrow> int \<Rightarrow> int" where
  "go_div a b = sgn a * sgn b * (\<bar>a\<bar> div \<bar>b\<bar>)"

definition to_int64 :: "int \<Rightarrow> int" where
  "to_int64 k = (k + 2 ^ 63) mod 2 ^ 64 - 2 ^ 63"

definition percentOf :: "int \<Rightarrow> int \<Rightarrow> int" where
  "percentOf percent v = v * percent div 100"

definition unix :: "int \<Rightarrow> int" where
  "unix ms = ms div 1000"

section \<open>State (accounting.go)\<close>

datatype acc_error =
    ErrOverdraft
  | ErrBlockPeer int
  | ErrPeerNoBalance
  | ErrInvalidValue
  | ErrStore
  | ErrFailToLock
  | ErrNotConnected
  | ErrSanity
  | ErrNoPeerInKey
  | ErrHexAddress

datatype acc_call =
    CallRefresh address int
  | CallPay address int
  | CallBlocklist address int
  | CallAnnounce address int

record acc_peer =
  ap_reserved :: int
  ap_shadow :: int
  ap_refreshReserved :: int
  ap_ghost :: int
  ap_paymentThreshold :: int
  ap_earlyPayment :: int
  ap_thresholdForPeer :: int
  ap_disconnectLimit :: int
  ap_refreshTimestamp :: int
  ap_refreshReceived :: int
  ap_paymentOngoing :: bool
  ap_refreshOngoing :: bool
  ap_lastFailure :: int
  ap_connected :: bool
  ap_fullNode :: bool
  ap_totalDebtRepay :: int
  ap_growAt :: int

record accounting =
  ac_peers :: "(address \<times> acc_peer) list"
  ac_store :: "int kv"
  ac_paymentThreshold :: int
  ac_paymentTolerance :: int
  ac_earlyPayment :: int
  ac_disconnectLimit :: int
  ac_hasPay :: bool
  ac_refreshRate :: int
  ac_lightRefreshRate :: int
  ac_minimumPayment :: int
  ac_growStep :: int
  ac_growChange :: int
  ac_lightPaymentThreshold :: int
  ac_lightDisconnectLimit :: int
  ac_lightGrowStep :: int
  ac_lightGrowChange :: int
  ac_wg :: int
  ac_calls :: "acc_call list"

definition linearCheckpointNumber :: int where "linearCheckpointNumber = 1800"
definition linearCheckpointStep :: int where "linearCheckpointStep = 100"
definition minimumPaymentDivisor :: int where "minimumPaymentDivisor = 5"
definition failedSettlementInterval :: int where "failedSettlementInterval = 10"

definition NewAccounting ::
  "int \<Rightarrow> int \<Rightarrow> int \<Rightarrow> int kv \<Rightarrow> int \<Rightarrow> int \<Rightarrow> accounting" where
  "NewAccounting PaymentThreshold PaymentTolerance EarlyPayment Store refreshRate lightFactor =
     (let lightPaymentThreshold = PaymentThreshold div lightFactor;
          lightRefreshRate = refreshRate div lightFactor
      in \<lparr>ac_peers = [], ac_store = Store,
          ac_paymentThreshold = PaymentThreshold,
          ac_paymentTolerance = PaymentTolerance,
          ac_earlyPayment = EarlyPayment,
          ac_disconnectLimit = percentOf (100 + PaymentTolerance) PaymentThreshold,
          ac_hasPay = False,
          ac_refreshRate = refreshRate,
          ac_lightRefreshRate = refreshRate div lightFactor,
          ac_minimumPayment = refreshRate div minimumPaymentDivisor,
          ac_growStep = refreshRate * linearCheckpointStep,
          ac_growChange = refreshRate * linearCheckpointNumber,
          ac_lightPaymentThreshold = lightPaymentThreshold,
          ac_lightDisconnectLimit = percentOf (100 + PaymentTolerance) lightPaymentThreshold,
          ac_lightGrowStep = lightRefreshRate * linearCheckpointStep,
          ac_lightGrowChange = lightRefreshRate * linearCheckpointNumber,
          ac_wg = 0, ac_calls = []\<rparr>)"

definition SetPayFunc :: "accounting \<Rightarrow> accounting" where
  "SetPayFunc a = a\<lparr>ac_hasPay := True\<rparr>"

definition new_peer :: "accounting \<Rightarrow> acc_peer" where
  "new_peer a =
     \<lparr>ap_reserved = 0, ap_shadow = 0, ap_refreshReserved = 0, ap_ghost = 0,
      ap_paymentThreshold = ac_paymentThreshold a,
      ap_earlyPayment = percentOf (100 - ac_earlyPayment a) (ac_paymentThreshold a),
      ap_thresholdForPeer = ac_paymentThreshold a,
      ap_disconnectLimit = ac_disconnectLimit a,
      ap_refreshTimestamp = 0, ap_refreshReceived = 0,
      ap_paymentOngoing = False, ap_refreshOngoing = False, ap_lastFailure = 0,
      ap_connected = False, ap_fullNode = False,
      ap_totalDebtRepay = 0, ap_growAt = ac_growStep a\<rparr>"

definition put_peer :: "address \<Rightarrow> acc_peer \<Rightarrow> accounting \<Rightarrow> accounting" where
  "put_peer peer p a = a\<lparr>ac_peers := AList.update peer p (ac_peers a)\<rparr>"

definition getAccountingPeer :: "address \<Rightarrow> accounting \<Rightarrow> acc_peer \<times> accounting" where
  "getAccountingPeer peer a =
     (case map_of (ac_peers a) peer of
        Some p \<Rightarrow> (p, a)
      | None \<Rightarrow> (new_peer a, put_peer peer (new_peer a) a))"

text \<open>
  An operation on the record of a peer: the record is read (or created), handed to the body
  with the rest of the state, and written back. The code mutates it through its pointer, so
  the changes of a body that returns an error stay too.
\<close>

definition locked ::
  "address \<Rightarrow> (acc_peer \<Rightarrow> accounting \<Rightarrow> 'r \<times> acc_peer \<times> accounting) \<Rightarrow> accounting \<Rightarrow> 'r \<times> accounting" where
  "locked peer f a =
     (let (p, a) = getAccountingPeer peer a; (r, p, a) = f p a in (r, put_peer peer p a))"

definition add_call :: "acc_call \<Rightarrow> accounting \<Rightarrow> accounting" where
  "add_call c a = a\<lparr>ac_calls := ac_calls a @ [c]\<rparr>"

section \<open>Balances in the store\<close>

definition balancesPrefix :: bytes where
  "balancesPrefix = str_bytes ''accounting_balance_''"
definition balancesSurplusPrefix :: bytes where
  "balancesSurplusPrefix = str_bytes ''accounting_surplusbalance_''"
definition balancesOriginatedPrefix :: bytes where
  "balancesOriginatedPrefix = str_bytes ''accounting_originatedbalance_''"

definition peerBalanceKey :: "address \<Rightarrow> bytes" where
  "peerBalanceKey peer = balancesPrefix @ addr_String peer"
definition peerSurplusBalanceKey :: "address \<Rightarrow> bytes" where
  "peerSurplusBalanceKey peer = balancesSurplusPrefix @ addr_String peer"
definition originatedBalanceKey :: "address \<Rightarrow> bytes" where
  "originatedBalanceKey peer = balancesOriginatedPrefix @ addr_String peer"

definition store_put :: "bytes \<Rightarrow> int \<Rightarrow> accounting \<Rightarrow> acc_error + accounting" where
  "store_put key v a =
     (case kv_Put key v (ac_store a) of
        Inl _ \<Rightarrow> Inl ErrStore
      | Inr s \<Rightarrow> Inr (a\<lparr>ac_store := s\<rparr>))"

definition load_balance :: "accounting \<Rightarrow> bytes \<Rightarrow> acc_error + int" where
  "load_balance a key =
     (case kv_Get (ac_store a) key of
        Inl ErrNotFound \<Rightarrow> Inl ErrPeerNoBalance
      | Inl ErrIO \<Rightarrow> Inl ErrStore
      | Inr balance \<Rightarrow> Inr balance)"

definition Balance :: "accounting \<Rightarrow> address \<Rightarrow> acc_error + int" where
  "Balance a peer = load_balance a (peerBalanceKey peer)"

definition OriginatedBalance :: "accounting \<Rightarrow> address \<Rightarrow> acc_error + int" where
  "OriginatedBalance a peer = load_balance a (originatedBalanceKey peer)"

definition SurplusBalance :: "accounting \<Rightarrow> address \<Rightarrow> acc_error + int" where
  "SurplusBalance a peer =
     (case kv_Get (ac_store a) (peerSurplusBalanceKey peer) of
        Inl ErrNotFound \<Rightarrow> Inr 0
      | Inl ErrIO \<Rightarrow> Inl ErrStore
      | Inr balance \<Rightarrow> if balance < 0 then Inl ErrInvalidValue else Inr balance)"

text \<open>
  The idiom \<open>if err != nil && !errors.Is(err, ErrPeerNoBalance)\<close>: the value beside that error
  is zero.
\<close>

definition or_zero :: "acc_error + int \<Rightarrow> acc_error + int" where
  "or_zero r = (case r of Inl ErrPeerNoBalance \<Rightarrow> Inr 0 | _ \<Rightarrow> r)"

definition CompensatedBalance :: "accounting \<Rightarrow> address \<Rightarrow> acc_error + int" where
  "CompensatedBalance a peer =
     (case SurplusBalance a peer of
        Inl err \<Rightarrow> Inl err
      | Inr surplus \<Rightarrow>
          (case or_zero (Balance a peer) of
             Inl err \<Rightarrow> Inl err
           | Inr balance \<Rightarrow>
               if surplus = 0 \<and> Balance a peer = Inl ErrPeerNoBalance
               then Inl ErrPeerNoBalance
               else Inr (balance - surplus)))"

definition getIncreasedExpectedDebt ::
  "accounting \<Rightarrow> address \<Rightarrow> acc_peer \<Rightarrow> int \<Rightarrow> acc_error + int \<times> int" where
  "getIncreasedExpectedDebt a peer p bigPrice =
     (let nextReserved = ap_reserved p + bigPrice in
      case or_zero (Balance a peer) of
        Inl err \<Rightarrow> Inl err
      | Inr currentBalance \<Rightarrow>
          (let currentDebt = - currentBalance;
               currentDebt = (if currentDebt < 0 then 0 else currentDebt);
               expectedDebt = currentDebt + nextReserved
           in case SurplusBalance a peer of
                Inl err \<Rightarrow> Inl err
              | Inr additionalDebt \<Rightarrow> Inr (expectedDebt + additionalDebt, currentBalance)))"

definition shadowBalance :: "accounting \<Rightarrow> address \<Rightarrow> acc_peer \<Rightarrow> acc_error + int" where
  "shadowBalance a peer p =
     (case kv_Get (ac_store a) (peerBalanceKey peer) of
        Inl ErrNotFound \<Rightarrow> Inr 0
      | Inl ErrIO \<Rightarrow> Inl ErrStore
      | Inr balance \<Rightarrow>
          if balance \<ge> 0 then Inr 0
          else
            let negativeBalance = - balance in
            case SurplusBalance a peer of
              Inl err \<Rightarrow> Inl err
            | Inr surplusBalance \<Rightarrow>
                (let debt = negativeBalance + surplusBalance in
                 if debt < ap_shadow p then Inr 0
                 else Inr (negativeBalance - ap_shadow p)))"

definition PeerDebt :: "address \<Rightarrow> accounting \<Rightarrow> (acc_error + int) \<times> accounting" where
  "PeerDebt peer = locked peer (\<lambda>p a.
     ((case kv_Get (ac_store a) (peerBalanceKey peer) of
         Inl ErrIO \<Rightarrow> Inl ErrStore
       | r \<Rightarrow> (let balance = (case r of Inr v \<Rightarrow> v | _ \<Rightarrow> 0);
                   peerDebt = balance + ap_shadow p
               in Inr (if peerDebt < 0 then 0 else peerDebt))), p, a))"

text \<open>
  \<open>peerLatentDebt\<close> looks the record up again; its callers hold the record already, which is
  the one the lookup finds.
\<close>

definition peerLatentDebt :: "accounting \<Rightarrow> address \<Rightarrow> acc_peer \<Rightarrow> acc_error + int" where
  "peerLatentDebt a peer p =
     (case kv_Get (ac_store a) (peerBalanceKey peer) of
        Inl ErrIO \<Rightarrow> Inl ErrStore
      | r \<Rightarrow> (let balance = (case r of Inr v \<Rightarrow> v | _ \<Rightarrow> 0);
                  balance = (if balance < 0 then 0 else balance);
                  peerDebt = balance + ap_shadow p;
                  latent = peerDebt + ap_ghost p
              in Inr (if latent < 0 then 0 else latent)))"

section \<open>Block-listing and thresholds\<close>

definition blocklistUntil :: "accounting \<Rightarrow> address \<Rightarrow> acc_peer \<Rightarrow> int \<Rightarrow> acc_error + int" where
  "blocklistUntil a peer p multiplier =
     (case peerLatentDebt a peer p of
        Inl err \<Rightarrow> Inl err
      | Inr debt \<Rightarrow>
          (let debt = (if debt < ac_refreshRate a then ac_refreshRate a else debt);
               additionalDebt = debt + ac_paymentThreshold a;
               multiplyDebt = additionalDebt * multiplier;
               k = multiplyDebt div ac_refreshRate a
           in Inr (to_int64 k)))"

text \<open>\<open>time.Duration(s) * time.Second\<close>, in nanoseconds.\<close>

definition seconds :: "int \<Rightarrow> int" where
  "seconds s = to_int64 (s * 1000000000)"

definition blocklist :: "address \<Rightarrow> acc_peer \<Rightarrow> int \<Rightarrow> accounting \<Rightarrow> accounting" where
  "blocklist peer p multiplier a =
     (case blocklistUntil a peer p multiplier of
        Inl _ \<Rightarrow> add_call (CallBlocklist peer (seconds 60)) a
      | Inr disconnectFor \<Rightarrow> add_call (CallBlocklist peer (seconds disconnectFor)) a)"

definition notifyPaymentThresholdUpgrade ::
  "address \<Rightarrow> acc_peer \<Rightarrow> accounting \<Rightarrow> acc_peer \<times> accounting" where
  "notifyPaymentThresholdUpgrade peer p a =
     (let thresholdGrowChange = (if \<not> ap_fullNode p then ac_lightGrowChange a else ac_growChange a);
          p = (if ap_growAt p \<ge> thresholdGrowChange
               then p\<lparr>ap_growAt := ap_growAt p * 2\<rparr>
               else if ap_fullNode p
               then p\<lparr>ap_growAt := ap_growAt p + ac_growStep a\<rparr>
               else p\<lparr>ap_growAt := ap_growAt p + ac_lightGrowStep a\<rparr>);
          refreshRate = (if \<not> ap_fullNode p then ac_lightRefreshRate a else ac_refreshRate a);
          p = p\<lparr>ap_thresholdForPeer := ap_thresholdForPeer p + refreshRate\<rparr>;
          p = p\<lparr>ap_disconnectLimit :=
                 percentOf (100 + ac_paymentTolerance a) (ap_thresholdForPeer p)\<rparr>
      in (p, add_call (CallAnnounce peer (ap_thresholdForPeer p)) a))"

section \<open>Settlement\<close>

text \<open>
  The monetary part of \<open>settle\<close>, entered when the payment function is set, no payment is
  under way and none has failed within \<open>failedSettlementInterval\<close>.
\<close>

definition settle_payment ::
  "(nat \<Rightarrow> int) \<Rightarrow> address \<Rightarrow> acc_peer \<Rightarrow> accounting \<Rightarrow> acc_error option \<times> acc_peer \<times> accounting" where
  "settle_payment clock peer p a =
     (case or_zero (OriginatedBalance a peer) of
        Inl err \<Rightarrow> (Some err, p, a)
      | Inr originatedBalance \<Rightarrow>
          let paymentAmount = - originatedBalance in
          if paymentAmount \<ge> ac_minimumPayment a then
            let timeElapsedInSeconds = go_div (clock 1 - ap_refreshTimestamp p) 1000;
                refreshDue = timeElapsedInSeconds * ac_refreshRate a
            in case or_zero (Balance a peer) of
                 Inl err \<Rightarrow> (Some err, p, a)
               | Inr currentBalance \<Rightarrow>
                   let debt = - currentBalance;
                       decreasedDebt = debt - refreshDue;
                       expectedDecreasedDebt = decreasedDebt - ap_shadow p;
                       paymentAmount =
                         (if paymentAmount > expectedDecreasedDebt then expectedDecreasedDebt
                          else paymentAmount)
                   in if paymentAmount \<ge> ac_minimumPayment a then
                        let p = p\<lparr>ap_paymentOngoing := True,
                                  ap_shadow := ap_shadow p + paymentAmount\<rparr>;
                            p = (if ap_refreshOngoing p
                                 then p\<lparr>ap_refreshReserved := ap_refreshReserved p + paymentAmount\<rparr>
                                 else p)
                        in (None, p, add_call (CallPay peer paymentAmount) (a\<lparr>ac_wg := ac_wg a + 1\<rparr>))
                      else (None, p, a)
          else (None, p, a))"

definition settle ::
  "(nat \<Rightarrow> int) \<Rightarrow> address \<Rightarrow> acc_peer \<Rightarrow> accounting \<Rightarrow> acc_error option \<times> acc_peer \<times> accounting" where
  "settle clock peer p a =
     (let now = clock 0;
          timeElapsedInMilliseconds = now - ap_refreshTimestamp p
      in case shadowBalance a peer p of
           Inl err \<Rightarrow> (Some err, p, a)
         | Inr paymentAmount \<Rightarrow>
             if paymentAmount \<ge> ac_refreshRate a then
               let (p, a) =
                     (if timeElapsedInMilliseconds > 999 \<and> \<not> ap_refreshOngoing p
                      then (p\<lparr>ap_refreshOngoing := True\<rparr>, add_call (CallRefresh peer paymentAmount) a)
                      else (p, a))
               in if ac_hasPay a \<and> \<not> ap_paymentOngoing p \<and>
                     unix now - ap_lastFailure p > failedSettlementInterval
                  then settle_payment clock peer p a
                  else (None, p, a)
             else (None, p, a))"

section \<open>Credit\<close>

record credit_action =
  ca_price :: int
  ca_peer :: address
  ca_originated :: bool
  ca_applied :: bool

text \<open>
  The argument \<open>got\<close> is the outcome of \<open>TryLock\<close>, which fails when the context is done first.
  The clock is read twice by \<open>settle\<close> and then a third time.
\<close>

definition prepare_credit ::
  "(nat \<Rightarrow> int) \<Rightarrow> bool \<Rightarrow> address \<Rightarrow> u64 \<Rightarrow> bool \<Rightarrow> acc_peer \<Rightarrow> accounting \<Rightarrow>
   (acc_error + credit_action) \<times> acc_peer \<times> accounting" where
  "prepare_credit clock got peer price originated p a =
    (if \<not> got then (Inl ErrFailToLock, p, a)
     else if \<not> ap_connected p then (Inl ErrNotConnected, p, a)
     else
       let bigPrice = int (unat price);
           threshold = ap_earlyPayment p
       in case getIncreasedExpectedDebt a peer p bigPrice of
            Inl err \<Rightarrow> (Inl err, p, a)
          | Inr (increasedExpectedDebt, currentBalance) \<Rightarrow>
              let increasedExpectedDebtReduced = increasedExpectedDebt - ap_shadow p;
                  (settled, p, a) =
                    (if increasedExpectedDebtReduced \<ge> threshold \<and> currentBalance < 0
                     then case settle clock peer p a of
                            (Some err, p, a) \<Rightarrow> (Inl err, p, a)
                          | (None, p, a) \<Rightarrow>
                              (map_sum id fst (getIncreasedExpectedDebt a peer p bigPrice), p, a)
                     else (Inr increasedExpectedDebt, p, a))
              in case settled of
                   Inl err \<Rightarrow> (Inl err, p, a)
                 | Inr increasedExpectedDebt \<Rightarrow>
                     let timeElapsedInSeconds = go_div (clock 2 - ap_refreshTimestamp p) 1000;
                         timeElapsedInSeconds =
                           (if timeElapsedInSeconds > 1 then 1 else timeElapsedInSeconds);
                         refreshDue = timeElapsedInSeconds * ac_refreshRate a;
                         overdraftLimit = ap_paymentThreshold p + refreshDue
                     in if increasedExpectedDebt > overdraftLimit then (Inl ErrOverdraft, p, a)
                        else (Inr \<lparr>ca_price = bigPrice, ca_peer = peer,
                                    ca_originated = originated, ca_applied = False\<rparr>,
                              p\<lparr>ap_reserved := ap_reserved p + bigPrice\<rparr>, a))"

definition PrepareCredit ::
  "(nat \<Rightarrow> int) \<Rightarrow> bool \<Rightarrow> address \<Rightarrow> u64 \<Rightarrow> bool \<Rightarrow> accounting \<Rightarrow>
   (acc_error + credit_action) \<times> accounting" where
  "PrepareCredit clock got peer price originated =
     locked peer (prepare_credit clock got peer price originated)"

text \<open>Both \<open>Apply\<close> and \<open>Cleanup\<close> release the reservation, but never below zero.\<close>

definition release_reserved :: "int \<Rightarrow> acc_peer \<Rightarrow> acc_peer" where
  "release_reserved price p =
     (if price > ap_reserved p then p\<lparr>ap_reserved := 0\<rparr>
      else p\<lparr>ap_reserved := ap_reserved p - price\<rparr>)"

definition settle_credited ::
  "(nat \<Rightarrow> int) \<Rightarrow> address \<Rightarrow> int \<Rightarrow> acc_peer \<Rightarrow> accounting \<Rightarrow> acc_peer \<times> accounting" where
  "settle_credited clock peer increasedExpectedDebt p a =
     (let increasedExpectedDebtReduced = increasedExpectedDebt - ap_shadow p in
      if increasedExpectedDebtReduced > ap_earlyPayment p
      then snd (settle clock peer p a)
      else (p, a))"

definition apply_credit ::
  "(nat \<Rightarrow> int) \<Rightarrow> credit_action \<Rightarrow> acc_peer \<Rightarrow> accounting \<Rightarrow>
   (acc_error option \<times> credit_action) \<times> acc_peer \<times> accounting" where
  "apply_credit clock c p a =
    (let peer = ca_peer c; price = ca_price c in
     case getIncreasedExpectedDebt a peer p price of
       Inl err \<Rightarrow> ((Some err, c), p, a)
     | Inr (increasedExpectedDebt, currentBalance) \<Rightarrow>
         let nextBalance = currentBalance - price in
         case store_put (peerBalanceKey peer) nextBalance a of
           Inl err \<Rightarrow> ((Some err, c), p, a)
         | Inr a \<Rightarrow>
             let p = release_reserved price p;
                 c = c\<lparr>ca_applied := True\<rparr>
             in if \<not> ca_originated c then
                  let (p, a) = settle_credited clock peer increasedExpectedDebt p a
                  in ((None, c), p, a)
                else
                  case or_zero (OriginatedBalance a peer) of
                    Inl err \<Rightarrow> ((Some err, c), p, a)
                  | Inr originBalance \<Rightarrow>
                      let nextOriginBalance = originBalance - price;
                          nextBalance = (if nextBalance > 0 then 0 else nextBalance);
                          nextOriginBalance =
                            (if nextOriginBalance < nextBalance then nextBalance
                             else nextOriginBalance)
                      in case store_put (originatedBalanceKey peer) nextOriginBalance a of
                           Inl err \<Rightarrow> ((Some err, c), p, a)
                         | Inr a \<Rightarrow>
                             let (p, a) = settle_credited clock peer increasedExpectedDebt p a
                             in ((None, c), p, a))"

definition creditAction_Apply ::
  "(nat \<Rightarrow> int) \<Rightarrow> credit_action \<Rightarrow> accounting \<Rightarrow> (acc_error option \<times> credit_action) \<times> accounting" where
  "creditAction_Apply clock c = locked (ca_peer c) (apply_credit clock c)"

definition cleanup_credit :: "credit_action \<Rightarrow> acc_peer \<Rightarrow> accounting \<Rightarrow> unit \<times> acc_peer \<times> accounting" where
  "cleanup_credit c p a = ((), release_reserved (ca_price c) p, a)"

definition creditAction_Cleanup :: "credit_action \<Rightarrow> accounting \<Rightarrow> accounting" where
  "creditAction_Cleanup c a =
     (if ca_applied c then a else snd (locked (ca_peer c) (cleanup_credit c) a))"

section \<open>Debit\<close>

record debit_action =
  da_price :: int
  da_peer :: address
  da_applied :: bool

definition prepare_debit ::
  "bool \<Rightarrow> address \<Rightarrow> u64 \<Rightarrow> acc_peer \<Rightarrow> accounting \<Rightarrow>
   (acc_error + debit_action) \<times> acc_peer \<times> accounting" where
  "prepare_debit got peer price p a =
    (if \<not> got then (Inl ErrFailToLock, p, a)
     else if \<not> ap_connected p then (Inl ErrNotConnected, p, a)
     else
       let bigPrice = int (unat price);
           p = p\<lparr>ap_shadow := ap_shadow p + bigPrice\<rparr>;
           p = (if ap_refreshOngoing p
                then p\<lparr>ap_refreshReserved := ap_refreshReserved p + bigPrice\<rparr> else p)
       in (Inr \<lparr>da_price = bigPrice, da_peer = peer, da_applied = False\<rparr>, p, a))"

definition PrepareDebit ::
  "bool \<Rightarrow> address \<Rightarrow> u64 \<Rightarrow> accounting \<Rightarrow> (acc_error + debit_action) \<times> accounting" where
  "PrepareDebit got peer price = locked peer (prepare_debit got peer price)"

definition decreaseOriginatedBalanceTo ::
  "address \<Rightarrow> int \<Rightarrow> accounting \<Rightarrow> acc_error option \<times> accounting" where
  "decreaseOriginatedBalanceTo peer limit a =
     (let toSet = limit in
      case or_zero (OriginatedBalance a peer) of
        Inl err \<Rightarrow> (Some err, a)
      | Inr originatedBalance \<Rightarrow>
          (let toSet = (if toSet > 0 then 0 else toSet) in
           if originatedBalance < toSet then
             case store_put (originatedBalanceKey peer) toSet a of
               Inl err \<Rightarrow> (Some err, a)
             | Inr a \<Rightarrow> (None, a)
           else (None, a)))"

definition decreaseOriginatedBalanceBy ::
  "address \<Rightarrow> int \<Rightarrow> accounting \<Rightarrow> acc_error option \<times> accounting" where
  "decreaseOriginatedBalanceBy peer amount a =
     (case or_zero (OriginatedBalance a peer) of
        Inl err \<Rightarrow> (Some err, a)
      | Inr originatedBalance \<Rightarrow>
          (let newOriginatedBalance = originatedBalance + amount in
           case store_put (originatedBalanceKey peer) newOriginatedBalance a of
             Inl err \<Rightarrow> (Some err, a)
           | Inr a \<Rightarrow> (None, a)))"

text \<open>
  The second half of \<open>increaseBalance\<close>, after the surplus has been drawn; a failure of
  \<open>decreaseOriginatedBalanceTo\<close> is only logged.
\<close>

definition debit_balance :: "address \<Rightarrow> int \<Rightarrow> accounting \<Rightarrow> (acc_error + int) \<times> accounting" where
  "debit_balance peer cost a =
     (case or_zero (Balance a peer) of
        Inl err \<Rightarrow> (Inl err, a)
      | Inr currentBalance \<Rightarrow>
          let nextBalance = currentBalance + cost in
          case store_put (peerBalanceKey peer) nextBalance a of
            Inl err \<Rightarrow> (Inl err, a)
          | Inr a \<Rightarrow> (Inr nextBalance, snd (decreaseOriginatedBalanceTo peer nextBalance a)))"

definition increaseBalance :: "address \<Rightarrow> int \<Rightarrow> accounting \<Rightarrow> (acc_error + int) \<times> accounting" where
  "increaseBalance peer price a =
     (let cost = price in
      case SurplusBalance a peer of
        Inl err \<Rightarrow> (Inl err, a)
      | Inr surplusBalance \<Rightarrow>
          if surplusBalance > 0 then
            let newSurplusBalance = surplusBalance - cost in
            if newSurplusBalance \<ge> 0 then
              case store_put (peerSurplusBalanceKey peer) newSurplusBalance a of
                Inl err \<Rightarrow> (Inl err, a)
              | Inr a \<Rightarrow> (Balance a peer, a)
            else
              let debitIncrease = price - surplusBalance in
              if debitIncrease \<le> 0 then (Inl ErrSanity, a)
              else
                case store_put (peerSurplusBalanceKey peer) 0 a of
                  Inl err \<Rightarrow> (Inl err, a)
                | Inr a \<Rightarrow> debit_balance peer debitIncrease a
          else debit_balance peer cost a)"

definition apply_debit ::
  "(nat \<Rightarrow> int) \<Rightarrow> debit_action \<Rightarrow> acc_peer \<Rightarrow> accounting \<Rightarrow>
   (acc_error option \<times> debit_action) \<times> acc_peer \<times> accounting" where
  "apply_debit clock d p a =
    (let cost = da_price d in
     case increaseBalance (da_peer d) cost a of
       (Inl err, a) \<Rightarrow> ((Some err, d), p, a)
     | (Inr nextBalance, a) \<Rightarrow>
         let d = d\<lparr>da_applied := True\<rparr>;
             p = p\<lparr>ap_shadow := ap_shadow p - da_price d\<rparr>;
             timeElapsedInSeconds = unix (clock 0) - ap_refreshReceived p;
             timeElapsedInSeconds = (if timeElapsedInSeconds > 1 then 1 else timeElapsedInSeconds);
             refreshRate = (if \<not> ap_fullNode p then ac_lightRefreshRate a else ac_refreshRate a);
             refreshDue = timeElapsedInSeconds * refreshRate;
             disconnectLimit = ap_disconnectLimit p + refreshDue
         in if nextBalance \<ge> disconnectLimit then
              let disconnectFor =
                    (case blocklistUntil a (da_peer d) p 1 of Inl _ \<Rightarrow> 10 | Inr k \<Rightarrow> k)
              in ((Some (ErrBlockPeer (seconds disconnectFor)), d), p, a)
            else ((None, d), p, a))"

definition debitAction_Apply ::
  "(nat \<Rightarrow> int) \<Rightarrow> debit_action \<Rightarrow> accounting \<Rightarrow> (acc_error option \<times> debit_action) \<times> accounting" where
  "debitAction_Apply clock d = locked (da_peer d) (apply_debit clock d)"

definition cleanup_debit :: "debit_action \<Rightarrow> acc_peer \<Rightarrow> accounting \<Rightarrow> unit \<times> acc_peer \<times> accounting" where
  "cleanup_debit d p a =
     (let p = p\<lparr>ap_shadow := ap_shadow p - da_price d\<rparr>;
          p = p\<lparr>ap_ghost := ap_ghost p + da_price d\<rparr>
      in ((), p, if ap_ghost p > ap_disconnectLimit p then blocklist (da_peer d) p 1 a else a))"

definition debitAction_Cleanup :: "debit_action \<Rightarrow> accounting \<Rightarrow> accounting" where
  "debitAction_Cleanup d a =
     (if da_applied d then a else snd (locked (da_peer d) (cleanup_debit d) a))"

section \<open>Notifications of settlements\<close>

text \<open>
  \<open>failed\<close> is whether \<open>receivedError\<close> is set; errors after the release of the shadow reserve
  are only logged.
\<close>

definition payment_sent ::
  "(nat \<Rightarrow> int) \<Rightarrow> address \<Rightarrow> int \<Rightarrow> bool \<Rightarrow> acc_peer \<Rightarrow> accounting \<Rightarrow> unit \<times> acc_peer \<times> accounting" where
  "payment_sent clock peer amount failed p a =
     (let p = p\<lparr>ap_paymentOngoing := False\<rparr>;
          p = p\<lparr>ap_shadow := ap_shadow p - amount\<rparr>
      in if failed then ((), p\<lparr>ap_lastFailure := unix (clock 0)\<rparr>, a)
         else
           case or_zero (Balance a peer) of
             Inl err \<Rightarrow> ((), p, a)
           | Inr currentBalance \<Rightarrow>
               let nextBalance = currentBalance + amount in
               case store_put (peerBalanceKey peer) nextBalance a of
                 Inl err \<Rightarrow> ((), p, a)
               | Inr a \<Rightarrow> ((), p, snd (decreaseOriginatedBalanceBy peer amount a)))"

definition NotifyPaymentSent ::
  "(nat \<Rightarrow> int) \<Rightarrow> address \<Rightarrow> int \<Rightarrow> bool \<Rightarrow> accounting \<Rightarrow> accounting" where
  "NotifyPaymentSent clock peer amount failed a =
     (let a = snd (locked peer (payment_sent clock peer amount failed) a)
      in a\<lparr>ac_wg := ac_wg a - 1\<rparr>)"

definition payment_threshold :: "int \<Rightarrow> acc_peer \<Rightarrow> accounting \<Rightarrow> unit \<times> acc_peer \<times> accounting" where
  "payment_threshold paymentThreshold p a =
     (let p = p\<lparr>ap_paymentThreshold := paymentThreshold\<rparr>;
          p = p\<lparr>ap_earlyPayment := percentOf (100 - ac_earlyPayment a) paymentThreshold\<rparr>
      in ((), p, a))"

definition NotifyPaymentThreshold :: "address \<Rightarrow> int \<Rightarrow> accounting \<Rightarrow> accounting" where
  "NotifyPaymentThreshold peer paymentThreshold a =
     snd (locked peer (payment_threshold paymentThreshold) a)"

text \<open>The common opening of the two \<open>Received\<close> notifications.\<close>

definition count_repay :: "address \<Rightarrow> int \<Rightarrow> acc_peer \<Rightarrow> accounting \<Rightarrow> acc_peer \<times> accounting" where
  "count_repay peer amount p a =
     (let p = p\<lparr>ap_totalDebtRepay := ap_totalDebtRepay p + amount\<rparr> in
      if ap_totalDebtRepay p > ap_growAt p then notifyPaymentThresholdUpgrade peer p a
      else (p, a))"

definition add_surplus :: "address \<Rightarrow> int \<Rightarrow> accounting \<Rightarrow> acc_error option \<times> accounting" where
  "add_surplus peer amount a =
     (case SurplusBalance a peer of
        Inl err \<Rightarrow> (Some err, a)
      | Inr surplus \<Rightarrow>
          (let increasedSurplus = surplus + amount in
           case store_put (peerSurplusBalanceKey peer) increasedSurplus a of
             Inl err \<Rightarrow> (Some err, a)
           | Inr a \<Rightarrow> (None, a)))"

definition payment_received ::
  "address \<Rightarrow> int \<Rightarrow> acc_peer \<Rightarrow> accounting \<Rightarrow> acc_error option \<times> acc_peer \<times> accounting" where
  "payment_received peer amount p a =
    (let (p, a) = count_repay peer amount p a in
     case or_zero (Balance a peer) of
       Inl err \<Rightarrow> (Some err, p, a)
     | Inr currentBalance \<Rightarrow>
         if currentBalance \<le> 0 then
           let (r, a) = add_surplus peer amount a in (r, p, a)
         else
           let newBalance = currentBalance - amount;
               nextBalance = (if newBalance < 0 then 0 else newBalance)
           in case store_put (peerBalanceKey peer) nextBalance a of
                Inl err \<Rightarrow> (Some err, p, a)
              | Inr a \<Rightarrow>
                  if newBalance < 0 then
                    let surplusGrowth = amount - currentBalance;
                        (r, a) = add_surplus peer surplusGrowth a
                    in (r, p, a)
                  else (None, p, a))"

definition NotifyPaymentReceived ::
  "address \<Rightarrow> int \<Rightarrow> accounting \<Rightarrow> acc_error option \<times> accounting" where
  "NotifyPaymentReceived peer amount = locked peer (payment_received peer amount)"

text \<open>
  \<open>NotifyRefreshmentSent\<close>; the error is given as \<^theory_text>\<open>None\<close> for nil, \<^theory_text>\<open>Some True\<close> when it is
  \<open>p2p.ErrPeerNotFound\<close> and \<^theory_text>\<open>Some False\<close> for any other.
\<close>

definition refreshment_sent ::
  "address \<Rightarrow> int \<Rightarrow> int \<Rightarrow> int \<Rightarrow> int \<Rightarrow> bool option \<Rightarrow> acc_peer \<Rightarrow> accounting \<Rightarrow>
   unit \<times> acc_peer \<times> accounting" where
  "refreshment_sent peer attemptedAmount amount timestamp allegedInterval receivedError p a =
     (let p = p\<lparr>ap_refreshOngoing := False\<rparr>;
          p = p\<lparr>ap_refreshTimestamp := timestamp\<rparr>
      in case receivedError of
           Some notFound \<Rightarrow> ((), p, if \<not> notFound then blocklist peer p 1 a else a)
         | None \<Rightarrow>
             let checkAllowance = attemptedAmount - ap_refreshReserved p;
                 p = p\<lparr>ap_refreshReserved := 0\<rparr>;
                 checkAllowance =
                   (if checkAllowance > attemptedAmount then attemptedAmount else checkAllowance);
                 expectedAllowance = allegedInterval * ac_refreshRate a;
                 expectedAllowance =
                   (if expectedAllowance > checkAllowance then checkAllowance else expectedAllowance)
             in if expectedAllowance > amount then ((), p, blocklist peer p 1 a)
                else
                  case or_zero (Balance a peer) of
                    Inl err \<Rightarrow> ((), p, a)
                  | Inr currentBalance \<Rightarrow>
                      let newBalance = currentBalance + amount in
                      case store_put (peerBalanceKey peer) newBalance a of
                        Inl err \<Rightarrow> ((), p, a)
                      | Inr a \<Rightarrow> ((), p, snd (decreaseOriginatedBalanceTo peer newBalance a)))"

definition NotifyRefreshmentSent ::
  "address \<Rightarrow> int \<Rightarrow> int \<Rightarrow> int \<Rightarrow> int \<Rightarrow> bool option \<Rightarrow> accounting \<Rightarrow> accounting" where
  "NotifyRefreshmentSent peer attemptedAmount amount timestamp allegedInterval receivedError a =
     snd (locked peer
       (refreshment_sent peer attemptedAmount amount timestamp allegedInterval receivedError) a)"

definition refreshment_received ::
  "address \<Rightarrow> int \<Rightarrow> int \<Rightarrow> acc_peer \<Rightarrow> accounting \<Rightarrow> acc_error option \<times> acc_peer \<times> accounting" where
  "refreshment_received peer amount timestamp p a =
    (let (p, a) = count_repay peer amount p a in
     case or_zero (Balance a peer) of
       Inl err \<Rightarrow> (Some err, p, a)
     | Inr currentBalance \<Rightarrow>
         let nextBalance = currentBalance - amount in
         case store_put (peerBalanceKey peer) nextBalance a of
           Inl err \<Rightarrow> (Some err, p, a)
         | Inr a \<Rightarrow> (None, p\<lparr>ap_refreshReceived := timestamp\<rparr>, a))"

definition NotifyRefreshmentReceived ::
  "address \<Rightarrow> int \<Rightarrow> int \<Rightarrow> accounting \<Rightarrow> acc_error option \<times> accounting" where
  "NotifyRefreshmentReceived peer amount timestamp =
     locked peer (refreshment_received peer amount timestamp)"

section \<open>Connecting and disconnecting\<close>

definition put_logged :: "bytes \<Rightarrow> int \<Rightarrow> accounting \<Rightarrow> accounting" where
  "put_logged key v a = (case store_put key v a of Inl _ \<Rightarrow> a | Inr a \<Rightarrow> a)"

definition connect_peer ::
  "address \<Rightarrow> bool \<Rightarrow> acc_peer \<Rightarrow> accounting \<Rightarrow> unit \<times> acc_peer \<times> accounting" where
  "connect_peer peer fullNode p a =
     (let paymentThreshold =
            (if \<not> fullNode then ac_lightPaymentThreshold a else ac_paymentThreshold a);
          thresholdGrowStep = (if \<not> fullNode then ac_lightGrowStep a else ac_growStep a);
          disconnectLimit =
            (if \<not> fullNode then ac_lightDisconnectLimit a else ac_disconnectLimit a);
          p = p\<lparr>ap_connected := True, ap_fullNode := fullNode, ap_shadow := 0, ap_ghost := 0,
                ap_reserved := 0, ap_refreshReserved := 0,
                ap_thresholdForPeer := paymentThreshold, ap_growAt := thresholdGrowStep,
                ap_disconnectLimit := disconnectLimit\<rparr>;
          a = put_logged (peerBalanceKey peer) 0 a;
          a = put_logged (peerSurplusBalanceKey peer) 0 a
      in ((), p, a))"

definition acc_Connect :: "address \<Rightarrow> bool \<Rightarrow> accounting \<Rightarrow> accounting" where
  "acc_Connect peer fullNode a = snd (locked peer (connect_peer peer fullNode) a)"

definition disconnect_peer ::
  "address \<Rightarrow> acc_peer \<Rightarrow> accounting \<Rightarrow> unit \<times> acc_peer \<times> accounting" where
  "disconnect_peer peer p a =
     (if ap_connected p then
        let disconnectFor = (case blocklistUntil a peer p 1 of Inl _ \<Rightarrow> 10 | Inr k \<Rightarrow> k)
        in ((), p\<lparr>ap_connected := False\<rparr>,
            add_call (CallBlocklist peer (seconds disconnectFor)) a)
      else ((), p, a))"

definition acc_Disconnect :: "address \<Rightarrow> accounting \<Rightarrow> accounting" where
  "acc_Disconnect peer a = snd (locked peer (disconnect_peer peer) a)"

section \<open>Views over all peers\<close>

definition balanceKeyPeer :: "bytes \<Rightarrow> acc_error + address" where
  "balanceKeyPeer key =
     (let split = split_after balancesPrefix key in
      if length split \<noteq> 2 then Inl ErrNoPeerInKey
      else case ParseHexAddress (split ! 1) of
             None \<Rightarrow> Inl ErrHexAddress
           | Some addr \<Rightarrow> Inr addr)"

definition surplusBalanceKeyPeer :: "bytes \<Rightarrow> acc_error + address" where
  "surplusBalanceKeyPeer key =
     (let split = split_after balancesSurplusPrefix key in
      if length split \<noteq> 2 then Inl ErrNoPeerInKey
      else case ParseHexAddress (split ! 1) of
             None \<Rightarrow> Inl ErrHexAddress
           | Some addr \<Rightarrow> Inr addr)"

text \<open>
  The callback the three views share: parse the peer out of the key and, unless the map has
  it already, read a value for it. Result maps are association lists.
\<close>

definition collect_value ::
  "(bytes \<Rightarrow> acc_error + address) \<Rightarrow> (address \<Rightarrow> acc_error + int) \<Rightarrow>
   bytes \<Rightarrow> int \<Rightarrow> (address \<times> int) list \<Rightarrow> (acc_error + bool) \<times> (address \<times> int) list" where
  "collect_value parse value key val s =
     (case parse key of
        Inl err \<Rightarrow> (Inl err, s)
      | Inr addr \<Rightarrow>
          if map_of s addr = None then
            case value addr of
              Inl err \<Rightarrow> (Inl err, s)
            | Inr v \<Rightarrow> (Inr False, AList.update addr v s)
          else (Inr False, s))"

definition Balances :: "accounting \<Rightarrow> acc_error + (address \<times> int) list" where
  "Balances a =
     (case kv_Iterate (ac_store a) balancesPrefix (collect_value balanceKeyPeer (Balance a)) [] of
        (Some (Inl _), _) \<Rightarrow> Inl ErrStore
      | (Some (Inr err), _) \<Rightarrow> Inl err
      | (None, s) \<Rightarrow> Inr s)"

definition CompensatedBalances :: "accounting \<Rightarrow> acc_error + (address \<times> int) list" where
  "CompensatedBalances a =
     (case kv_Iterate (ac_store a) balancesPrefix
             (collect_value balanceKeyPeer (CompensatedBalance a)) [] of
        (Some (Inl _), _) \<Rightarrow> Inl ErrStore
      | (Some (Inr err), _) \<Rightarrow> Inl err
      | (None, s) \<Rightarrow>
          (case kv_Iterate (ac_store a) balancesSurplusPrefix
                  (collect_value surplusBalanceKeyPeer (CompensatedBalance a)) s of
             (Some (Inl _), _) \<Rightarrow> Inl ErrStore
           | (Some (Inr err), _) \<Rightarrow> Inl err
           | (None, s) \<Rightarrow> Inr s))"

record peer_info =
  pi_Balance :: int
  pi_ConsumedBalance :: int
  pi_ThresholdReceived :: int
  pi_ThresholdGiven :: int
  pi_CurrentThresholdReceived :: int
  pi_CurrentThresholdGiven :: int
  pi_SurplusBalance :: int
  pi_ReservedBalance :: int
  pi_ShadowReservedBalance :: int
  pi_GhostBalance :: int

definition peer_info_of :: "accounting \<Rightarrow> int \<Rightarrow> address \<Rightarrow> acc_peer \<Rightarrow> acc_error + peer_info" where
  "peer_info_of a t peer p =
     (case or_zero (Balance a peer) of
        Inl err \<Rightarrow> Inl err
      | Inr balance \<Rightarrow>
          (case SurplusBalance a peer of
             Inl err \<Rightarrow> Inl err
           | Inr surplusBalance \<Rightarrow>
               (let timeElapsedInSeconds = min (unix t - ap_refreshReceived p) 1;
                    refreshRate = (if \<not> ap_fullNode p then ac_lightRefreshRate a else ac_refreshRate a);
                    currentThresholdGiven = ap_disconnectLimit p + timeElapsedInSeconds * refreshRate;
                    timeElapsedInSeconds = min (go_div (t - ap_refreshTimestamp p) 1000) 1;
                    currentThresholdReceived =
                      ap_paymentThreshold p + timeElapsedInSeconds * ac_refreshRate a
                in Inr \<lparr>pi_Balance = balance - surplusBalance,
                        pi_ConsumedBalance = balance,
                        pi_ThresholdReceived = ap_paymentThreshold p,
                        pi_ThresholdGiven = ap_thresholdForPeer p,
                        pi_CurrentThresholdReceived = currentThresholdReceived,
                        pi_CurrentThresholdGiven = currentThresholdGiven,
                        pi_SurplusBalance = surplusBalance,
                        pi_ReservedBalance = ap_reserved p,
                        pi_ShadowReservedBalance = ap_shadow p,
                        pi_GhostBalance = ap_ghost p\<rparr>)))"

fun peer_infos ::
  "accounting \<Rightarrow> (nat \<Rightarrow> int) \<Rightarrow> nat \<Rightarrow> (address \<times> acc_peer) list \<Rightarrow>
   acc_error + (address \<times> peer_info) list" where
  "peer_infos a clock i [] = Inr []"
| "peer_infos a clock i ((peer, p) # ps) =
     (case peer_info_of a (clock i) peer p of
        Inl err \<Rightarrow> Inl err
      | Inr info \<Rightarrow>
          (case peer_infos a clock (Suc i) ps of
             Inl err \<Rightarrow> Inl err
           | Inr infos \<Rightarrow> Inr ((peer, info) # infos)))"

definition PeerAccounting ::
  "(nat \<Rightarrow> int) \<Rightarrow> accounting \<Rightarrow> acc_error + (address \<times> peer_info) list" where
  "PeerAccounting clock a = peer_infos a clock 0 (ac_peers a)"

end
