(* ===== verification/Accounting_Ledger.thy ===== *)
theory Accounting_Ledger
  imports Accounting
begin

text \<open>
  What the accounting operations do to the persistent balances: the abstraction of the
  store is one ledger entry per peer, the balance less the surplus, and every operation adds
  a signed amount to it or resets it. The lemmas hold on a store that does not fail.
\<close>

section \<open>Keys\<close>

lemma prefix_neq:
  "balancesPrefix @ x \<noteq> balancesSurplusPrefix @ y"
  "balancesPrefix @ x \<noteq> balancesOriginatedPrefix @ y"
  "balancesSurplusPrefix @ x \<noteq> balancesOriginatedPrefix @ y"
  by (simp_all add: balancesPrefix_def balancesSurplusPrefix_def balancesOriginatedPrefix_def)

lemma key_eq [simp]:
  "peerBalanceKey p = peerBalanceKey q \<longleftrightarrow> p = q"
  "peerSurplusBalanceKey p = peerSurplusBalanceKey q \<longleftrightarrow> p = q"
  "originatedBalanceKey p = originatedBalanceKey q \<longleftrightarrow> p = q"
  by (simp_all add: peerBalanceKey_def peerSurplusBalanceKey_def originatedBalanceKey_def)

lemma key_neq [simp]:
  "peerBalanceKey p \<noteq> peerSurplusBalanceKey q" "peerSurplusBalanceKey q \<noteq> peerBalanceKey p"
  "peerBalanceKey p \<noteq> originatedBalanceKey q" "originatedBalanceKey q \<noteq> peerBalanceKey p"
  "peerSurplusBalanceKey p \<noteq> originatedBalanceKey q"
  "originatedBalanceKey q \<noteq> peerSurplusBalanceKey p"
  by (simp_all add: peerBalanceKey_def peerSurplusBalanceKey_def originatedBalanceKey_def
      prefix_neq prefix_neq [symmetric])

lemma underscore_in_prefix: "95 \<in> set balancesPrefix" "95 \<in> set balancesSurplusPrefix"
  by (simp_all add: balancesPrefix_def balancesSurplusPrefix_def)

lemma balanceKeyPeer_key: "balanceKeyPeer (peerBalanceKey peer) = Inr peer"
  by (simp add: balanceKeyPeer_def peerBalanceKey_def Let_def
      split_after_prefix [OF underscore_in_prefix(1)] addr_String_def hex_encode_no_underscore)
    (simp flip: addr_String_def)

lemma surplusBalanceKeyPeer_key: "surplusBalanceKeyPeer (peerSurplusBalanceKey peer) = Inr peer"
  by (simp add: surplusBalanceKeyPeer_def peerSurplusBalanceKey_def Let_def
      split_after_prefix [OF underscore_in_prefix(2)] addr_String_def hex_encode_no_underscore)
    (simp flip: addr_String_def)

text \<open>
  the peer embedded in a storage key is recovered from it, for both families of keys that
  are iterated over, and the families do not meet: no key of one is a key of another.
\<close>

theorem accounting_keys_roundtrip:
  "balanceKeyPeer (peerBalanceKey peer) = Inr peer \<and>
   surplusBalanceKeyPeer (peerSurplusBalanceKey peer) = Inr peer \<and>
   peerBalanceKey peer \<noteq> peerSurplusBalanceKey peer' \<and>
   peerBalanceKey peer \<noteq> originatedBalanceKey peer' \<and>
   peerSurplusBalanceKey peer \<noteq> originatedBalanceKey peer'"
  by (simp add: balanceKeyPeer_key surplusBalanceKeyPeer_key)

section \<open>The values the store holds\<close>

definition value_of :: "int kv \<Rightarrow> bytes \<Rightarrow> int" where
  "value_of s k = (case kv_map s k of None \<Rightarrow> 0 | Some v \<Rightarrow> v)"

definition bal :: "int kv \<Rightarrow> address \<Rightarrow> int" where
  "bal s peer = value_of s (peerBalanceKey peer)"
definition surp :: "int kv \<Rightarrow> address \<Rightarrow> int" where
  "surp s peer = value_of s (peerSurplusBalanceKey peer)"
definition orig :: "int kv \<Rightarrow> address \<Rightarrow> int" where
  "orig s peer = value_of s (originatedBalanceKey peer)"

text \<open>The store does not fail and holds no negative surplus.\<close>

definition store_ok :: "int kv \<Rightarrow> bool" where
  "store_ok s \<longleftrightarrow> kv_ok s \<and> kv_reliable s \<and> (\<forall>peer. 0 \<le> surp s peer)"

definition kv_write :: "bytes \<Rightarrow> int \<Rightarrow> int kv \<Rightarrow> int kv" where
  "kv_write k v s = s\<lparr>kv_data := assoc_put k v (kv_data s)\<rparr>"

lemma write_put: "kv_reliable s \<Longrightarrow> kv_Put k v s = Inr (kv_write k v s)"
  by (simp add: kv_Put_def kv_reliable_def kv_write_def)

lemma value_of_write: "kv_ok s \<Longrightarrow> value_of (kv_write k v s) k' = (if k' = k then v else value_of s k')"
  by (simp add: value_of_def kv_write_def kv_map_def kv_ok_def)

lemma store_put_ok: "store_ok (ac_store a) \<Longrightarrow>
    store_put k v a = Inr (a\<lparr>ac_store := kv_write k v (ac_store a)\<rparr>)"
  by (simp add: store_put_def store_ok_def write_put)

lemma put_logged_ok: "store_ok (ac_store a) \<Longrightarrow>
    put_logged k v a = a\<lparr>ac_store := kv_write k v (ac_store a)\<rparr>"
  by (simp add: put_logged_def store_put_ok)

lemma value_write [simp]:
  assumes "store_ok s"
  shows "bal (kv_write (peerBalanceKey p) v s) q = (if q = p then v else bal s q)"
    "bal (kv_write (peerSurplusBalanceKey p) v s) q = bal s q"
    "bal (kv_write (originatedBalanceKey p) v s) q = bal s q"
    "surp (kv_write (peerBalanceKey p) v s) q = surp s q"
    "surp (kv_write (peerSurplusBalanceKey p) v s) q = (if q = p then v else surp s q)"
    "surp (kv_write (originatedBalanceKey p) v s) q = surp s q"
    "orig (kv_write (peerBalanceKey p) v s) q = orig s q"
    "orig (kv_write (peerSurplusBalanceKey p) v s) q = orig s q"
    "orig (kv_write (originatedBalanceKey p) v s) q = (if q = p then v else orig s q)"
  using assms by (simp_all add: bal_def surp_def orig_def store_ok_def value_of_write)

lemma write_ok:
  assumes "store_ok s"
  shows "store_ok (kv_write (peerBalanceKey p) v s)"
    "store_ok (kv_write (originatedBalanceKey p) v s)"
    "0 \<le> v \<Longrightarrow> store_ok (kv_write (peerSurplusBalanceKey p) v s)"
proof -
  have "kv_ok (kv_write k v s)" "kv_reliable (kv_write k v s)" for k
    using assms by (auto simp: store_ok_def kv_write_def kv_ok_def kv_reliable_def sorted_assoc_put)
  then show "store_ok (kv_write (peerBalanceKey p) v s)"
    "store_ok (kv_write (originatedBalanceKey p) v s)"
    "0 \<le> v \<Longrightarrow> store_ok (kv_write (peerSurplusBalanceKey p) v s)"
    using assms by (auto simp: store_ok_def [of "kv_write _ _ _"]) (auto simp: store_ok_def)
qed

declare write_ok [inv_intro]

lemma kv_Get_ok: "store_ok s \<Longrightarrow>
    kv_Get s k = (case kv_map s k of None \<Rightarrow> Inl ErrNotFound | Some v \<Rightarrow> Inr v)"
  by (simp add: store_ok_def kv_Get_reliable)

lemma read_ok [simp]:
  assumes "store_ok (ac_store a)"
  shows "or_zero (Balance a peer) = Inr (bal (ac_store a) peer)"
    "or_zero (OriginatedBalance a peer) = Inr (orig (ac_store a) peer)"
    "SurplusBalance a peer = Inr (surp (ac_store a) peer)"
proof -
  have "0 \<le> surp (ac_store a) peer" using assms by (simp add: store_ok_def)
  then show "or_zero (Balance a peer) = Inr (bal (ac_store a) peer)"
    "or_zero (OriginatedBalance a peer) = Inr (orig (ac_store a) peer)"
    "SurplusBalance a peer = Inr (surp (ac_store a) peer)"
    using assms
    by (auto simp: Balance_def OriginatedBalance_def SurplusBalance_def load_balance_def or_zero_def
        bal_def orig_def surp_def value_of_def kv_Get_ok split: option.splits)
qed

lemma shadowBalance_ok:
  assumes "store_ok (ac_store a)"
  shows "shadowBalance a peer p =
    Inr (let b = bal (ac_store a) peer in
         if 0 \<le> b \<or> surp (ac_store a) peer - b < ap_shadow p then 0 else - b - ap_shadow p)"
proof -
  have "kv_Get (ac_store a) (peerBalanceKey peer) =
      (case kv_map (ac_store a) (peerBalanceKey peer) of None \<Rightarrow> Inl ErrNotFound | Some v \<Rightarrow> Inr v)"
    using assms by (rule kv_Get_ok)
  with assms show ?thesis
    by (auto simp: shadowBalance_def bal_def value_of_def Let_def split: option.split)
qed

text \<open>The in-memory parts of the state do not touch the store.\<close>

lemma store_simps [simp]:
  "ac_store (put_peer peer p a) = ac_store a" "ac_store (add_call c a) = ac_store a"
  "ac_store (blocklist peer p m a) = ac_store a"
  "ac_store (snd (notifyPaymentThresholdUpgrade peer p a)) = ac_store a"
  "ac_store (snd (count_repay peer amount p a)) = ac_store a"
  by (auto simp: put_peer_def add_call_def blocklist_def notifyPaymentThresholdUpgrade_def
      count_repay_def Let_def split: sum.split)

lemma settle_payment_store [simp]:
  "ac_store (snd (snd (settle_payment clock peer p a))) = ac_store a"
  by (simp add: settle_payment_def Let_def split: sum.split)

lemma settle_store [simp]: "ac_store (snd (snd (settle clock peer p a))) = ac_store a"
  by (simp add: settle_def Let_def split: sum.split)

lemma settle_credited_store [simp]:
  "ac_store (snd (settle_credited clock peer d p a)) = ac_store a"
  by (simp add: settle_credited_def Let_def)

lemma getAccountingPeer_store: "getAccountingPeer peer a = (p, a') \<Longrightarrow> ac_store a' = ac_store a"
  by (auto simp: getAccountingPeer_def split: option.splits)

text \<open>A property of the result and the store of an operation under the lock of a peer.\<close>

lemma locked_store:
  assumes "\<And>p a'. ac_store a' = ac_store a \<Longrightarrow>
    (case f p a' of (r, p', a'') \<Rightarrow> P r (ac_store a''))"
  shows "case locked peer f a of (r, a'') \<Rightarrow> P r (ac_store a'')"
proof (cases "getAccountingPeer peer a")
  case (Pair p a')
  from assms [OF getAccountingPeer_store [OF Pair], of p] Pair
  show ?thesis by (auto simp: locked_def split: prod.splits)
qed

section \<open>The effect of each operation\<close>

definition ledger :: "int kv \<Rightarrow> address \<Rightarrow> int" where
  "ledger s peer = bal s peer - surp s peer"

lemma read_surp_nonneg: "store_ok s \<Longrightarrow> 0 \<le> surp s peer"
  by (simp add: store_ok_def)

lemmas store_reads = store_put_ok put_logged_ok write_ok read_surp_nonneg

lemma getIncreasedExpectedDebt_ok:
  "store_ok (ac_store a) \<Longrightarrow> getIncreasedExpectedDebt a peer p price =
     Inr (max 0 (- bal (ac_store a) peer) + (ap_reserved p + price) + surp (ac_store a) peer,
          bal (ac_store a) peer)"
  by (simp add: getIncreasedExpectedDebt_def Let_def max_def)

lemma settle_credited_cases:
  "settle_credited clock peer d p a = (p', a') \<Longrightarrow> ac_store a' = ac_store a"
  by (metis settle_credited_store snd_conv)

lemma settle_cases: "settle clock peer p a = (r, p', a') \<Longrightarrow> ac_store a' = ac_store a"
  by (metis settle_store snd_conv)

lemma apply_credit_store:
  assumes "store_ok (ac_store a)" "apply_credit clock c p a = ((r, c'), p', a')"
  shows "r = None \<and> c' = c\<lparr>ca_applied := True\<rparr> \<and> ac_store a' =
      (let s = ac_store a; peer = ca_peer c; b = bal s peer - ca_price c;
           s' = kv_write (peerBalanceKey peer) b s
       in if ca_originated c
          then kv_write (originatedBalanceKey peer) (max (orig s peer - ca_price c) (min b 0)) s'
          else s')"
  using assms
  by (auto simp: apply_credit_def getIncreasedExpectedDebt_ok store_reads Let_def max_def min_def
      split: prod.splits if_splits dest!: settle_credited_cases)

text \<open>One entry of the ledger changes by an amount, the others stay.\<close>

definition adds :: "address \<Rightarrow> int \<Rightarrow> int kv \<Rightarrow> int kv \<Rightarrow> bool" where
  "adds peer d s s' \<longleftrightarrow>
     store_ok s' \<and> (\<forall>q. ledger s' q = ledger s q + (if q = peer then d else 0))"

lemma adds_refl: "store_ok s \<Longrightarrow> adds peer 0 s s"
  by (simp add: adds_def)

lemma apply_credit_adds:
  assumes "store_ok (ac_store a)" "apply_credit clock c p a = ((r, c'), p', a')"
  shows "adds (ca_peer c) (- ca_price c) (ac_store a) (ac_store a')"
  using apply_credit_store [OF assms] assms(1)
  by (auto simp: adds_def ledger_def Let_def store_reads split: if_splits)

lemma prepare_credit_store:
  "prepare_credit clock got peer price originated p a = (r, p', a') \<Longrightarrow> ac_store a' = ac_store a"
  by (auto simp: prepare_credit_def Let_def dest!: settle_cases
      split: if_splits sum.splits prod.splits option.splits)

lemma decreaseTo_store:
  assumes "store_ok (ac_store a)"
  shows "ac_store (snd (decreaseOriginatedBalanceTo peer limit a)) =
    (if orig (ac_store a) peer < min limit 0
     then kv_write (originatedBalanceKey peer) (min limit 0) (ac_store a) else ac_store a)"
  using assms by (auto simp: decreaseOriginatedBalanceTo_def store_reads Let_def min_def)

lemma decreaseBy_store:
  assumes "store_ok (ac_store a)"
  shows "ac_store (snd (decreaseOriginatedBalanceBy peer amount a)) =
    kv_write (originatedBalanceKey peer) (orig (ac_store a) peer + amount) (ac_store a)"
  using assms by (auto simp: decreaseOriginatedBalanceBy_def store_reads Let_def)

lemma debit_balance_adds:
  assumes "store_ok (ac_store a)" "debit_balance peer cost a = (r, a')"
  shows "adds peer cost (ac_store a) (ac_store a') \<and> r = Inr (bal (ac_store a') peer) \<and>
    bal (ac_store a') peer = bal (ac_store a) peer + cost"
  using assms decreaseTo_store [of "a\<lparr>ac_store := kv_write (peerBalanceKey peer)
      (bal (ac_store a) peer + cost) (ac_store a)\<rparr>" peer "bal (ac_store a) peer + cost"]
  by (auto simp: debit_balance_def Let_def store_reads adds_def ledger_def split: if_splits)

lemma adds_drop_surplus:
  assumes "store_ok s" "adds peer d (kv_write (peerSurplusBalanceKey peer) 0 s) s'"
  shows "adds peer (surp s peer + d) s s'"
  using assms by (auto simp: adds_def ledger_def)

lemma increaseBalance_adds:
  assumes "store_ok (ac_store a)" "increaseBalance peer price a = (r, a')"
  shows "adds peer price (ac_store a) (ac_store a') \<and>
    (\<forall>n. r = Inr n \<longrightarrow> n = bal (ac_store a') peer)"
proof (cases "surp (ac_store a) peer > 0")
  case False
  with assms debit_balance_adds [of a peer price] show ?thesis
    by (auto simp: increaseBalance_def Let_def)
next
  case True
  show ?thesis
  proof (cases "price \<le> surp (ac_store a) peer")
    case enough: True
    let ?a = "a\<lparr>ac_store := kv_write (peerSurplusBalanceKey peer)
        (surp (ac_store a) peer - price) (ac_store a)\<rparr>"
    have ok: "store_ok (ac_store ?a)" using assms(1) enough by (simp add: store_reads)
    have r: "r = Balance ?a peer" and a': "a' = ?a"
      using assms True enough by (auto simp: increaseBalance_def Let_def store_reads)
    have "n = bal (ac_store ?a) peer" if "r = Inr n" for n
      using read_ok(1) [OF ok, of peer] that r by (auto simp: or_zero_def split: sum.splits acc_error.splits)
    with ok show ?thesis unfolding a' using assms(1) by (auto simp: adds_def ledger_def)
  next
    case False
    let ?a = "a\<lparr>ac_store := kv_write (peerSurplusBalanceKey peer) 0 (ac_store a)\<rparr>"
    have ok: "store_ok (ac_store ?a)" using assms(1) by (simp add: store_reads)
    have "debit_balance peer (price - surp (ac_store a) peer) ?a = (r, a')"
      using assms True False by (auto simp: increaseBalance_def Let_def store_reads)
    from debit_balance_adds [OF ok this] adds_drop_surplus [OF assms(1), of peer "price - surp (ac_store a) peer"]
    show ?thesis by auto
  qed
qed

lemma apply_debit_adds:
  assumes "store_ok (ac_store a)" "apply_debit clock d p a = ((r, d'), p', a')"
  shows "adds (da_peer d) (da_price d) (ac_store a) (ac_store a')"
proof -
  obtain r1 a1 where i: "increaseBalance (da_peer d) (da_price d) a = (r1, a1)"
    by (metis prod.exhaust)
  with assms(2) have "a' = a1"
    by (auto simp: apply_debit_def Let_def split: sum.splits if_splits)
  with increaseBalance_adds [OF assms(1) i] show ?thesis by simp
qed

lemma payment_sent_adds:
  assumes "store_ok (ac_store a)" "payment_sent clock peer amount failed p a = (r, p', a')"
  shows "adds peer (if failed then 0 else amount) (ac_store a) (ac_store a')"
  using assms decreaseBy_store [of "a\<lparr>ac_store := kv_write (peerBalanceKey peer)
      (bal (ac_store a) peer + amount) (ac_store a)\<rparr>" peer amount]
  by (auto simp: payment_sent_def Let_def store_reads adds_def ledger_def split: if_splits)

lemma count_repay_cases: "count_repay peer amount p a = (p', a') \<Longrightarrow> ac_store a' = ac_store a"
  by (metis store_simps(5) snd_conv)

lemma add_surplus_store:
  assumes "store_ok (ac_store a)"
  shows "add_surplus peer amount a = (None, a\<lparr>ac_store := kv_write (peerSurplusBalanceKey peer)
    (surp (ac_store a) peer + amount) (ac_store a)\<rparr>)"
  using assms by (simp add: add_surplus_def Let_def store_reads)

lemma payment_received_store:
  assumes "store_ok (ac_store a)" "0 \<le> amount"
    and "payment_received peer amount p a = (r, p', a')"
  shows "adds peer (- amount) (ac_store a) (ac_store a') \<and> r = None \<and>
    bal (ac_store a') peer =
      (if bal (ac_store a) peer \<le> 0 then bal (ac_store a) peer
       else max 0 (bal (ac_store a) peer - amount))"
proof -
  obtain p1 a1 where c: "count_repay peer amount p a = (p1, a1)" by (metis prod.exhaust)
  from count_repay_cases [OF c] have s: "ac_store a1 = ac_store a" .
  from assms(3) c assms(1,2) s show ?thesis
    by (auto simp: payment_received_def Let_def store_reads add_surplus_store adds_def ledger_def
        max_def split: if_splits)
qed

definition refreshment_accepted :: "accounting \<Rightarrow> acc_peer \<Rightarrow> int \<Rightarrow> int \<Rightarrow> int \<Rightarrow> bool" where
  "refreshment_accepted a p attempted amount interval \<longleftrightarrow>
     min (interval * ac_refreshRate a) (min attempted (attempted - ap_refreshReserved p)) \<le> amount"

lemma refreshment_sent_store:
  assumes "store_ok (ac_store a)"
    and "refreshment_sent peer attempted amount ts interval err p a = (r, p', a')"
  shows "adds peer (if err = None \<and> refreshment_accepted a p attempted amount interval
      then amount else 0) (ac_store a) (ac_store a')"
proof -
  let ?s = "kv_write (peerBalanceKey peer) (bal (ac_store a) peer + amount) (ac_store a)"
  have d: "ac_store (snd (decreaseOriginatedBalanceTo peer v (a\<lparr>ac_store := ?s\<rparr>))) =
      (if orig ?s peer < min v 0 then kv_write (originatedBalanceKey peer) (min v 0) ?s else ?s)" for v
    using decreaseTo_store [of "a\<lparr>ac_store := ?s\<rparr>" peer v] assms(1) by (simp add: store_reads)
  show ?thesis
  proof (cases err)
    case (Some nf)
    with assms show ?thesis by (auto simp: refreshment_sent_def Let_def adds_refl split: if_splits)
  next
    case None
    have acc: "refreshment_accepted a p attempted amount interval \<longleftrightarrow>
        \<not> (if interval * ac_refreshRate a > (if attempted - ap_refreshReserved p > attempted
             then attempted else attempted - ap_refreshReserved p)
           then (if attempted - ap_refreshReserved p > attempted
             then attempted else attempted - ap_refreshReserved p)
           else interval * ac_refreshRate a) > amount"
      by (auto simp: refreshment_accepted_def min_def)
    show ?thesis
    proof (cases "refreshment_accepted a p attempted amount interval")
      case False
      with None assms acc have "ac_store a' = ac_store a"
        by (auto simp: refreshment_sent_def Let_def cong: if_cong)
      with None False assms(1) show ?thesis by (simp add: adds_refl)
    next
      case True
      with None assms acc have "a' = snd (decreaseOriginatedBalanceTo peer
          (bal (ac_store a) peer + amount) (a\<lparr>ac_store := ?s\<rparr>))"
        by (simp add: refreshment_sent_def Let_def store_reads cong: if_cong)
      with None True assms(1) d show ?thesis
        by (auto simp: adds_def ledger_def store_reads)
    qed
  qed
qed

lemma refreshment_received_store:
  assumes "store_ok (ac_store a)" "refreshment_received peer amount ts p a = (r, p', a')"
  shows "adds peer (- amount) (ac_store a) (ac_store a') \<and> r = None"
proof -
  obtain p1 a1 where c: "count_repay peer amount p a = (p1, a1)" by (metis prod.exhaust)
  from count_repay_cases [OF c] have s: "ac_store a1 = ac_store a" .
  from assms(2) c assms(1) s show ?thesis
    by (auto simp: refreshment_received_def Let_def store_reads adds_def ledger_def)
qed

lemma connect_peer_store:
  assumes "store_ok (ac_store a)" "connect_peer peer fullNode p a = (r, p', a')"
  shows "store_ok (ac_store a') \<and>
    (\<forall>q. ledger (ac_store a') q = (if q = peer then 0 else ledger (ac_store a) q)) \<and>
    (\<forall>q. orig (ac_store a') q = orig (ac_store a) q)"
  using assms by (auto simp: connect_peer_def Let_def store_reads ledger_def)

section \<open>Refinement of an abstract ledger\<close>

text \<open>The operations of the package as one type, and their execution.\<close>

datatype acc_op =
    OpPrepareCredit "nat \<Rightarrow> int" bool address u64 bool
  | OpApplyCredit "nat \<Rightarrow> int" credit_action
  | OpCleanupCredit credit_action
  | OpPrepareDebit bool address u64
  | OpApplyDebit "nat \<Rightarrow> int" debit_action
  | OpCleanupDebit debit_action
  | OpPaymentSent "nat \<Rightarrow> int" address int bool
  | OpPaymentThreshold address int
  | OpPaymentReceived address int
  | OpRefreshmentSent address int int int int "bool option"
  | OpRefreshmentReceived address int int
  | OpConnect address bool
  | OpDisconnect address

fun acc_exec :: "acc_op \<Rightarrow> accounting \<Rightarrow> accounting" where
  "acc_exec (OpPrepareCredit clock got peer price own) a = snd (PrepareCredit clock got peer price own a)"
| "acc_exec (OpApplyCredit clock c) a = snd (creditAction_Apply clock c a)"
| "acc_exec (OpCleanupCredit c) a = creditAction_Cleanup c a"
| "acc_exec (OpPrepareDebit got peer price) a = snd (PrepareDebit got peer price a)"
| "acc_exec (OpApplyDebit clock d) a = snd (debitAction_Apply clock d a)"
| "acc_exec (OpCleanupDebit d) a = debitAction_Cleanup d a"
| "acc_exec (OpPaymentSent clock peer amount failed) a = NotifyPaymentSent clock peer amount failed a"
| "acc_exec (OpPaymentThreshold peer th) a = NotifyPaymentThreshold peer th a"
| "acc_exec (OpPaymentReceived peer amount) a = snd (NotifyPaymentReceived peer amount a)"
| "acc_exec (OpRefreshmentSent peer attempted amount ts interval err) a =
     NotifyRefreshmentSent peer attempted amount ts interval err a"
| "acc_exec (OpRefreshmentReceived peer amount ts) a = snd (NotifyRefreshmentReceived peer amount ts a)"
| "acc_exec (OpConnect peer full) a = acc_Connect peer full a"
| "acc_exec (OpDisconnect peer) a = acc_Disconnect peer a"

text \<open>
  The abstract machine: a ledger of signed entries with two kinds of events. What we consume
  from a peer and what it pays us is negative, what it consumes and what we pay is positive.
\<close>

datatype ledger_event = Entry address int | Reset address

fun ledger_apply :: "ledger_event \<Rightarrow> (address \<Rightarrow> int) \<Rightarrow> (address \<Rightarrow> int)" where
  "ledger_apply (Entry peer d) l = l(peer := l peer + d)"
| "ledger_apply (Reset peer) l = l(peer := 0)"

fun event_of :: "acc_op \<Rightarrow> accounting \<Rightarrow> ledger_event" where
  "event_of (OpApplyCredit clock c) a = Entry (ca_peer c) (- ca_price c)"
| "event_of (OpApplyDebit clock d) a = Entry (da_peer d) (da_price d)"
| "event_of (OpPaymentSent clock peer amount failed) a = Entry peer (if failed then 0 else amount)"
| "event_of (OpPaymentReceived peer amount) a = Entry peer (- amount)"
| "event_of (OpRefreshmentSent peer attempted amount ts interval err) a =
     Entry peer
       (if err = None \<and>
           refreshment_accepted a (fst (getAccountingPeer peer a)) attempted amount interval
        then amount else 0)"
| "event_of (OpRefreshmentReceived peer amount ts) a = Entry peer (- amount)"
| "event_of (OpConnect peer full) a = Reset peer"
| "event_of (OpPrepareCredit clock got peer price own) a = Entry peer 0"
| "event_of (OpCleanupCredit c) a = Entry (ca_peer c) 0"
| "event_of (OpPrepareDebit got peer price) a = Entry peer 0"
| "event_of (OpCleanupDebit d) a = Entry (da_peer d) 0"
| "event_of (OpPaymentThreshold peer th) a = Entry peer 0"
| "event_of (OpDisconnect peer) a = Entry peer 0"

text \<open>Payments come as cheques, whose value is not negative.\<close>

fun op_ok :: "acc_op \<Rightarrow> bool" where
  "op_ok (OpPaymentReceived peer amount) \<longleftrightarrow> 0 \<le> amount"
| "op_ok _ \<longleftrightarrow> True"

lemma locked_res:
  obtains p a0 p' a1 where "getAccountingPeer peer a = (p, a0)" "ac_store a0 = ac_store a"
    "f p a0 = (fst (locked peer f a), p', a1)" "snd (locked peer f a) = put_peer peer p' a1"
proof -
  obtain p a0 where g: "getAccountingPeer peer a = (p, a0)" by (metis prod.exhaust)
  obtain r p' a1 where f: "f p a0 = (r, p', a1)" by (metis prod.exhaust)
  from g f getAccountingPeer_store [OF g] show ?thesis
    by (intro that [of p a0 p' a1]) (simp_all add: locked_def)
qed

lemma locked_adds:
  assumes "\<And>p a0 r p' a1. getAccountingPeer peer a = (p, a0) \<Longrightarrow> ac_store a0 = ac_store a \<Longrightarrow>
      f p a0 = (r, p', a1) \<Longrightarrow> adds peer d (ac_store a0) (ac_store a1)"
  shows "adds peer d (ac_store a) (ac_store (snd (locked peer f a)))"
proof (rule locked_res [where peer = peer and f = f and a = a])
  fix p a0 p' a1
  assume *: "getAccountingPeer peer a = (p, a0)" "ac_store a0 = ac_store a"
    "f p a0 = (fst (locked peer f a), p', a1)" "snd (locked peer f a) = put_peer peer p' a1"
  from assms [OF *(1-3)] *(2,4) show ?thesis by simp
qed

lemma locked_store_eq:
  assumes "\<And>p a0 r p' a1. f p a0 = (r, p', a1) \<Longrightarrow> ac_store a1 = ac_store a0"
  shows "ac_store (snd (locked peer f a)) = ac_store a"
proof (rule locked_res [where peer = peer and f = f and a = a])
  fix p a0 p' a1
  assume "ac_store a0 = ac_store a"
    "f p a0 = (fst (locked peer f a), p', a1)" "snd (locked peer f a) = put_peer peer p' a1"
  with assms show ?thesis by simp
qed

lemma bodies_store:
  "cleanup_credit c p a = (u, p', a') \<Longrightarrow> ac_store a' = ac_store a"
  "prepare_debit got peer price p a = (rd, p', a') \<Longrightarrow> ac_store a' = ac_store a"
  "cleanup_debit d p a = (u, p', a') \<Longrightarrow> ac_store a' = ac_store a"
  "payment_threshold th p a = (u, p', a') \<Longrightarrow> ac_store a' = ac_store a"
  "disconnect_peer peer p a = (u, p', a') \<Longrightarrow> ac_store a' = ac_store a"
  by (auto simp: cleanup_credit_def prepare_debit_def cleanup_debit_def payment_threshold_def
      disconnect_peer_def Let_def split: if_splits)

lemma idle_stores:
  "ac_store (snd (PrepareCredit clock got peer price own a)) = ac_store a"
  "ac_store (creditAction_Cleanup c a) = ac_store a"
  "ac_store (snd (PrepareDebit got peer price a)) = ac_store a"
  "ac_store (debitAction_Cleanup d a) = ac_store a"
  "ac_store (NotifyPaymentThreshold peer th a) = ac_store a"
  "ac_store (acc_Disconnect peer a) = ac_store a"
proof -
  show "ac_store (snd (PrepareCredit clock got peer price own a)) = ac_store a"
    unfolding PrepareCredit_def by (rule locked_store_eq) (rule prepare_credit_store)
  show "ac_store (creditAction_Cleanup c a) = ac_store a"
    using locked_store_eq [of "cleanup_credit c", OF bodies_store(1)]
    by (simp add: creditAction_Cleanup_def)
  show "ac_store (snd (PrepareDebit got peer price a)) = ac_store a"
    unfolding PrepareDebit_def by (rule locked_store_eq) (rule bodies_store(2))
  show "ac_store (debitAction_Cleanup d a) = ac_store a"
    using locked_store_eq [of "cleanup_debit d", OF bodies_store(3)]
    by (simp add: debitAction_Cleanup_def)
  show "ac_store (NotifyPaymentThreshold peer th a) = ac_store a"
    unfolding NotifyPaymentThreshold_def by (rule locked_store_eq) (rule bodies_store(4))
  show "ac_store (acc_Disconnect peer a) = ac_store a"
    unfolding acc_Disconnect_def by (rule locked_store_eq) (rule bodies_store(5))
qed

lemma refreshment_accepted_cong:
  "getAccountingPeer peer a = (p, a0) \<Longrightarrow>
   refreshment_accepted a0 p x y z = refreshment_accepted a (fst (getAccountingPeer peer a)) x y z"
  by (auto simp: refreshment_accepted_def getAccountingPeer_def put_peer_def split: option.splits)

lemma adds_event:
  "adds peer d s s' \<Longrightarrow> store_ok s' \<and> ledger s' = ledger_apply (Entry peer d) (ledger s)"
  by (auto simp: adds_def fun_eq_iff)

lemma acc_exec_step:
  assumes "store_ok (ac_store a)" "op_ok op"
  shows "store_ok (ac_store (acc_exec op a)) \<and>
    ledger (ac_store (acc_exec op a)) = ledger_apply (event_of op a) (ledger (ac_store a))"
proof (cases op)
  case (OpApplyCredit clock c)
  have "adds (ca_peer c) (- ca_price c) (ac_store a) (ac_store (snd (creditAction_Apply clock c a)))"
    unfolding creditAction_Apply_def
    by (rule locked_adds) (metis apply_credit_adds assms(1) prod.exhaust)
  from adds_event [OF this] OpApplyCredit show ?thesis by simp
next
  case (OpApplyDebit clock d)
  have "adds (da_peer d) (da_price d) (ac_store a) (ac_store (snd (debitAction_Apply clock d a)))"
    unfolding debitAction_Apply_def
    by (rule locked_adds) (metis apply_debit_adds assms(1) prod.exhaust)
  from adds_event [OF this] OpApplyDebit show ?thesis by simp
next
  case (OpPaymentSent clock peer amount failed)
  have "adds peer (if failed then 0 else amount) (ac_store a)
      (ac_store (snd (locked peer (payment_sent clock peer amount failed) a)))"
    by (rule locked_adds) (metis payment_sent_adds assms(1))
  from adds_event [OF this] OpPaymentSent show ?thesis by (simp add: NotifyPaymentSent_def Let_def)
next
  case (OpPaymentReceived peer amount)
  have "adds peer (- amount) (ac_store a) (ac_store (snd (NotifyPaymentReceived peer amount a)))"
    unfolding NotifyPaymentReceived_def
    by (rule locked_adds) (metis payment_received_store assms op_ok.simps(1) OpPaymentReceived)
  from adds_event [OF this] OpPaymentReceived show ?thesis by simp
next
  case (OpRefreshmentSent peer attempted amount ts interval err)
  have "adds peer (if err = None \<and> refreshment_accepted a (fst (getAccountingPeer peer a)) attempted amount interval
        then amount else 0) (ac_store a)
      (ac_store (NotifyRefreshmentSent peer attempted amount ts interval err a))"
    unfolding NotifyRefreshmentSent_def
  proof (rule locked_adds)
    fix p a0 r p' a1
    assume g: "getAccountingPeer peer a = (p, a0)" and s: "ac_store a0 = ac_store a"
      and f: "refreshment_sent peer attempted amount ts interval err p a0 = (r, p', a1)"
    have "store_ok (ac_store a0)" using assms(1) s by simp
    from refreshment_sent_store [OF this f]
    show "adds peer (if err = None \<and> refreshment_accepted a (fst (getAccountingPeer peer a))
        attempted amount interval then amount else 0) (ac_store a0) (ac_store a1)"
      by (simp only: refreshment_accepted_cong [OF g])
  qed
  from adds_event [OF this] OpRefreshmentSent show ?thesis by simp
next
  case (OpRefreshmentReceived peer amount ts)
  have "adds peer (- amount) (ac_store a) (ac_store (snd (NotifyRefreshmentReceived peer amount ts a)))"
    unfolding NotifyRefreshmentReceived_def
    by (rule locked_adds) (metis refreshment_received_store assms(1))
  from adds_event [OF this] OpRefreshmentReceived show ?thesis by simp
next
  case (OpConnect peer full)
  show ?thesis
  proof (rule locked_res [where peer = peer and f = "connect_peer peer full" and a = a])
    fix p a0 p' a1
    assume "ac_store a0 = ac_store a"
      "connect_peer peer full p a0 = (fst (locked peer (connect_peer peer full) a), p', a1)"
      "snd (locked peer (connect_peer peer full) a) = put_peer peer p' a1"
    with connect_peer_store [of a0 peer full p _ p' a1] assms(1) OpConnect
    show ?thesis by (auto simp: acc_Connect_def fun_eq_iff)
  qed
qed (simp_all add: idle_stores assms(1) fun_eq_iff)

fun acc_run :: "acc_op list \<Rightarrow> accounting \<Rightarrow> accounting" where
  "acc_run [] a = a"
| "acc_run (op # ops) a = acc_run ops (acc_exec op a)"

fun events_of :: "acc_op list \<Rightarrow> accounting \<Rightarrow> ledger_event list" where
  "events_of [] a = []"
| "events_of (op # ops) a = event_of op a # events_of ops (acc_exec op a)"

lemma acc_run_ledger:
  "store_ok (ac_store a) \<Longrightarrow> list_all op_ok ops \<Longrightarrow>
   store_ok (ac_store (acc_run ops a)) \<and>
   ledger (ac_store (acc_run ops a)) = fold ledger_apply (events_of ops a) (ledger (ac_store a))"
  by (induction ops arbitrary: a) (auto simp: acc_exec_step)

text \<open>The balance the package reports is the ledger entry.\<close>

lemma CompensatedBalance_ledger:
  "store_ok (ac_store a) \<Longrightarrow> CompensatedBalance a peer = Inr v \<Longrightarrow> v = ledger (ac_store a) peer"
  by (auto simp: CompensatedBalance_def ledger_def split: if_splits)

text \<open>
  C16: over a store that does not fail, any sequence of accounting operations on any peers
  refines the abstract ledger: each operation adds exactly its amount to the entry of its
  peer (nothing for reservations, failed payments and refused refreshments), a connection
  resets it, and the compensated balance that is reported is the sum of the entries.
\<close>

theorem accounting_refines_ledger:
  assumes "store_ok (ac_store a)" "list_all op_ok ops"
    and "CompensatedBalance (acc_run ops a) peer = Inr v"
  shows "v = fold ledger_apply (events_of ops a) (ledger (ac_store a)) peer"
  using acc_run_ledger [OF assms(1,2)] CompensatedBalance_ledger [OF _ assms(3)] by simp

end
