(* ===== verification/Accounting_Reserve.thy ===== *)
theory Accounting_Reserve
  imports Accounting_Ledger
begin

text \<open>
  The in-memory reservations of the accounting package as a state machine: prepared actions
  and payments under way are outstanding until they are applied, cleaned up or reported, in
  any order and interleaved over all peers, and peers connect and disconnect at any time. The
  invariant says how far the reserve and the shadow reserve of every peer are the sums of what
  is outstanding: exactly, as long as nothing was outstanding when the peer last connected.
\<close>

section \<open>What an operation does to the record of its peer\<close>

definition peer_rec :: "accounting \<Rightarrow> address \<Rightarrow> acc_peer" where
  "peer_rec a peer = (case map_of (ac_peers a) peer of Some p \<Rightarrow> p | None \<Rightarrow> new_peer a)"

fun pays_of :: "acc_call list \<Rightarrow> (address \<times> int) list" where
  "pays_of [] = []"
| "pays_of (CallPay peer amount # cs) = (peer, amount) # pays_of cs"
| "pays_of (_ # cs) = pays_of cs"

lemma pays_of_append [simp]: "pays_of (xs @ ys) = pays_of xs @ pays_of ys"
  by (induction xs rule: pays_of.induct) auto

text \<open>The parts of the state a body leaves alone, and the calls it adds.\<close>

definition frame :: "accounting \<Rightarrow> accounting \<Rightarrow> acc_call list \<Rightarrow> bool" where
  "frame a a' extra \<longleftrightarrow>
     ac_peers a' = ac_peers a \<and> new_peer a' = new_peer a \<and> ac_calls a' = ac_calls a @ extra"

lemma frame_refl [simp]: "frame a a []"
  by (simp add: frame_def)

lemma frame_trans: "frame a a' xs \<Longrightarrow> frame a' a'' ys \<Longrightarrow> frame a a'' (xs @ ys)"
  by (simp add: frame_def)

lemma frame_simps [simp]:
  "frame a (a\<lparr>ac_store := s\<rparr>) []" "frame a (a\<lparr>ac_wg := n\<rparr>) []" "frame a (add_call c a) [c]"
  by (simp_all add: frame_def new_peer_def add_call_def)

lemma store_put_frame: "store_put k v a = Inr a' \<Longrightarrow> frame a a' []"
  by (auto simp: store_put_def split: sum.splits)

lemma put_logged_frame: "frame a (put_logged k v a) []"
  by (auto simp: put_logged_def store_put_def split: sum.splits)

lemma store_parts_frame:
  "decreaseOriginatedBalanceTo peer limit a = (r, a') \<Longrightarrow> frame a a' []"
  "decreaseOriginatedBalanceBy peer limit a = (r, a') \<Longrightarrow> frame a a' []"
  "add_surplus peer amount a = (r, a') \<Longrightarrow> frame a a' []"
  by (auto simp: decreaseOriginatedBalanceTo_def decreaseOriginatedBalanceBy_def add_surplus_def Let_def
      split: sum.splits if_splits dest: store_put_frame)

lemma snd_frame:
  "frame a (snd (decreaseOriginatedBalanceTo peer limit a)) []"
  "frame a (snd (decreaseOriginatedBalanceBy peer limit a)) []"
  by (metis store_parts_frame(1) prod.collapse, metis store_parts_frame(2) prod.collapse)

lemma debit_balance_frame: "debit_balance peer cost a = (r, a') \<Longrightarrow> frame a a' []"
  by (auto simp: debit_balance_def Let_def split: sum.splits
      dest!: store_put_frame intro: frame_trans [of _ _ "[]" _ "[]", simplified] snd_frame)

lemma increaseBalance_frame: "increaseBalance peer price a = (r, a') \<Longrightarrow> frame a a' []"
  by (auto simp: increaseBalance_def Let_def split: sum.splits if_splits
      dest!: store_put_frame debit_balance_frame
      intro: frame_trans [of _ _ "[]" _ "[]", simplified])

lemma blocklist_frame: "\<exists>t. frame a (blocklist peer p m a) [CallBlocklist peer t]"
proof (cases "blocklistUntil a peer p m")
  case (Inl e)
  then show ?thesis by (auto simp: blocklist_def intro: exI [of _ "seconds 60"])
next
  case (Inr k)
  then show ?thesis by (auto simp: blocklist_def intro: exI [of _ "seconds k"])
qed

text \<open>
  A body may start one payment, if none is under way; otherwise it changes the reserve by
  \<open>dr\<close> and the shadow reserve by \<open>ds\<close>.
\<close>

definition reserves ::
  "address \<Rightarrow> int \<Rightarrow> int \<Rightarrow> acc_peer \<times> accounting \<Rightarrow> acc_peer \<times> accounting \<Rightarrow> bool" where
  "reserves peer dr ds st st' \<longleftrightarrow>
     (case (st, st') of ((p, a), (p', a')) \<Rightarrow>
        ap_reserved p' = ap_reserved p + dr \<and>
        (\<exists>extra. frame a a' extra \<and>
          (pays_of extra = [] \<and> ap_paymentOngoing p' = ap_paymentOngoing p \<and>
             ap_shadow p' = ap_shadow p + ds \<or>
           (\<exists>amount. pays_of extra = [(peer, amount)] \<and> \<not> ap_paymentOngoing p \<and>
             ap_paymentOngoing p' \<and> ap_shadow p' = ap_shadow p + ds + amount))))"

lemma reserves_frame:
  "frame a a' extra \<Longrightarrow> pays_of extra = [] \<Longrightarrow> ap_reserved p' = ap_reserved p + dr \<Longrightarrow>
   ap_paymentOngoing p' = ap_paymentOngoing p \<Longrightarrow> ap_shadow p' = ap_shadow p + ds \<Longrightarrow>
   reserves peer dr ds (p, a) (p', a')"
  unfolding reserves_def by auto

lemma reserves_refl: "reserves peer 0 0 (p, a) (p, a)"
  by (rule reserves_frame [OF frame_refl]) simp_all

lemma reserves_then:
  assumes "frame a a1 xs" "pays_of xs = []" "reserves peer dr' ds' (p1, a1) (p2, a2)"
    and "ap_reserved p1 = ap_reserved p + dr" "ap_shadow p1 = ap_shadow p + ds"
    and "ap_paymentOngoing p1 = ap_paymentOngoing p"
  shows "reserves peer (dr + dr') (ds + ds') (p, a) (p2, a2)"
proof -
  from assms(3) obtain ys where ys: "frame a1 a2 ys"
    "ap_reserved p2 = ap_reserved p1 + dr'"
    "pays_of ys = [] \<and> ap_paymentOngoing p2 = ap_paymentOngoing p1 \<and> ap_shadow p2 = ap_shadow p1 + ds' \<or>
     (\<exists>amount. pays_of ys = [(peer, amount)] \<and> \<not> ap_paymentOngoing p1 \<and> ap_paymentOngoing p2 \<and>
        ap_shadow p2 = ap_shadow p1 + ds' + amount)"
    by (auto simp: reserves_def)
  from frame_trans [OF assms(1) ys(1)] have "frame a a2 (xs @ ys)" .
  moreover have "pays_of (xs @ ys) = pays_of ys" using assms(2) by simp
  ultimately show ?thesis
    unfolding reserves_def using ys(2,3) assms(4-6) by (auto intro!: exI [of _ "xs @ ys"])
qed

lemma settle_payment_reserves:
  assumes "settle_payment clock peer p a = (r, p', a')" "\<not> ap_paymentOngoing p"
  shows "reserves peer 0 0 (p, a) (p', a')"
proof -
  have f: "frame a (add_call c (a\<lparr>ac_wg := n\<rparr>)) [c]" for c n
    using frame_trans [of a "a\<lparr>ac_wg := n\<rparr>" "[]" "add_call c (a\<lparr>ac_wg := n\<rparr>)" "[c]"] by simp
  show ?thesis
    using assms
    by (auto simp: settle_payment_def Let_def reserves_refl split: sum.splits if_splits)
      (auto simp: reserves_def intro!: exI [of _ "[CallPay _ _]"] f)
qed

lemma settle_reserves:
  assumes "settle clock peer p a = (r, p', a')"
  shows "reserves peer 0 0 (p, a) (p', a')"
proof -
  have pay: "reserves peer 0 0 (p1, a1) (p', a')"
    if "settle_payment clock peer p1 a1 = (r, p', a')" "\<not> ap_paymentOngoing p1" for p1 a1
    using settle_payment_reserves [OF that] .
  have refresh: "reserves peer 0 0 (p, a) (p2, a2)"
    if "reserves peer 0 0 (p\<lparr>ap_refreshOngoing := True\<rparr>, add_call (CallRefresh peer amt) a) (p2, a2)"
    for amt p2 a2
    using reserves_then [OF _ _ that, of a "[CallRefresh peer amt]" p 0 0] by simp
  have both: "reserves peer 0 0 (p, a) (p', a')"
    if "settle_payment clock peer (p\<lparr>ap_refreshOngoing := True\<rparr>) (add_call (CallRefresh peer amt) a) =
        (r, p', a')" "\<not> ap_paymentOngoing p" for amt
    using refresh [OF pay [OF that(1)]] that(2) by simp
  show ?thesis
    using assms
    by (auto simp: settle_def Let_def reserves_refl split: sum.splits if_splits
        intro: pay both refresh [OF reserves_refl])
qed


lemma settle_credited_reserves:
  "settle_credited clock peer d p a = (p', a') \<Longrightarrow> reserves peer 0 0 (p, a) (p', a')"
  by (auto simp: settle_credited_def Let_def reserves_refl split: if_splits)
    (metis settle_reserves prod.collapse)

section \<open>The bodies of the operations\<close>

lemma reserve_more:
  "reserves peer 0 0 st (q, a) \<Longrightarrow> reserves peer x 0 st (q\<lparr>ap_reserved := ap_reserved q + x\<rparr>, a)"
  by (auto simp: reserves_def split: prod.splits)

lemma prepare_credit_reserves:
  assumes "prepare_credit clock got peer price own p a = (r, p', a')"
  shows "reserves peer (case r of Inl _ \<Rightarrow> 0 | Inr c \<Rightarrow> ca_price c) 0 (p, a) (p', a')"
    and "r = Inr c \<Longrightarrow> ca_price c = int (unat price) \<and> ca_peer c = peer \<and> \<not> ca_applied c"
proof -
  show "reserves peer (case r of Inl _ \<Rightarrow> 0 | Inr c \<Rightarrow> ca_price c) 0 (p, a) (p', a')"
    using assms
    by (auto simp: prepare_credit_def Let_def reserves_refl settle_reserves
        reserve_more reserve_more [OF reserves_refl]
        split: if_splits sum.splits prod.splits option.splits)
  show "r = Inr c \<Longrightarrow> ca_price c = int (unat price) \<and> ca_peer c = peer \<and> \<not> ca_applied c"
    using assms
    by (auto simp: prepare_credit_def Let_def split: if_splits sum.splits prod.splits option.splits)
qed

lemma release_reserved_simps [simp]:
  "ap_shadow (release_reserved x p) = ap_shadow p"
  "ap_paymentOngoing (release_reserved x p) = ap_paymentOngoing p"
  by (auto simp: release_reserved_def)

text \<open>
  What a credit takes off the reserve: its price, unless the reserve is less, which happens
  after the peer has connected again.
\<close>

definition released :: "credit_action \<Rightarrow> acc_peer \<Rightarrow> int" where
  "released c p = (if ca_price c > ap_reserved p then ap_reserved p else ca_price c)"

lemma release_released: "ap_reserved (release_reserved (ca_price c) p) = ap_reserved p + - released c p"
  by (simp add: release_reserved_def released_def)

lemma apply_credit_reserves:
  assumes "apply_credit clock c p a = ((r, c'), p', a')" "\<not> ca_applied c"
  shows "reserves (ca_peer c) (if ca_applied c' then - released c p else 0) 0 (p, a) (p', a')"
proof -
  let ?p = "release_reserved (ca_price c) p"
  have rel: "reserves (ca_peer c) (- released c p) 0 (p, a) (p2, a2)"
    if "frame a a1 []" "reserves (ca_peer c) 0 0 (?p, a1) (p2, a2)" for a1 p2 a2
    using reserves_then [OF that(1) _ that(2), of p "- released c p" 0] by (simp add: release_released)
  have rel0: "reserves (ca_peer c) (- released c p) 0 (p, a) (?p, a1)" if "frame a a1 []" for a1
    using rel [OF that reserves_refl] .
  show ?thesis
    using assms
    by (auto simp: apply_credit_def Let_def reserves_refl
        split: if_splits sum.splits prod.splits dest!: store_put_frame settle_credited_reserves
        intro: rel rel0 frame_trans [of _ _ "[]" _ "[]", simplified])
qed

lemma cleanup_credit_reserves:
  assumes "cleanup_credit c p a = (r, p', a')"
  shows "reserves (ca_peer c) (- released c p) 0 (p, a) (p', a')"
  using assms by (auto simp: cleanup_credit_def release_released intro!: reserves_frame [of _ _ "[]"])

lemma prepare_debit_reserves:
  assumes "prepare_debit got peer price p a = (r, p', a')"
  shows "reserves peer 0 (case r of Inl _ \<Rightarrow> 0 | Inr d \<Rightarrow> da_price d) (p, a) (p', a')"
    and "r = Inr d \<Longrightarrow> da_price d = int (unat price) \<and> da_peer d = peer \<and> \<not> da_applied d"
  using assms by (auto simp: prepare_debit_def Let_def reserves_refl split: if_splits
      intro!: reserves_frame [of _ _ "[]"])

lemma apply_debit_reserves:
  assumes "apply_debit clock d p a = ((r, d'), p', a')" "\<not> da_applied d"
  shows "reserves (da_peer d) 0 (if da_applied d' then - da_price d else 0) (p, a) (p', a')"
  using assms
  by (auto simp: apply_debit_def Let_def split: if_splits sum.splits prod.splits
      dest!: increaseBalance_frame intro!: reserves_frame [of _ _ "[]"])

lemma cleanup_debit_reserves:
  assumes "cleanup_debit d p a = (r, p', a')"
  shows "reserves (da_peer d) 0 (- da_price d) (p, a) (p', a')"
proof -
  obtain t where t: "frame a (blocklist (da_peer d) (p\<lparr>ap_shadow := ap_shadow p - da_price d,
      ap_ghost := ap_ghost p + da_price d\<rparr>) 1 a) [CallBlocklist (da_peer d) t]"
    using blocklist_frame by blast
  show ?thesis
    using assms by (auto simp: cleanup_debit_def Let_def split: if_splits
        intro!: reserves_frame [of _ _ "[]"] reserves_frame [OF t])
qed

lemma upgrade_frame:
  assumes "notifyPaymentThresholdUpgrade peer p a = (p', a')"
  shows "frame a a' [CallAnnounce peer (ap_thresholdForPeer p')] \<and> ap_reserved p' = ap_reserved p \<and>
    ap_shadow p' = ap_shadow p \<and> ap_paymentOngoing p' = ap_paymentOngoing p"
  using assms by (auto simp: notifyPaymentThresholdUpgrade_def Let_def split: if_splits)

lemma count_repay_frame:
  assumes "count_repay peer amount p a = (p', a')"
  obtains extra where "frame a a' extra" "pays_of extra = []" "ap_reserved p' = ap_reserved p"
    "ap_shadow p' = ap_shadow p" "ap_paymentOngoing p' = ap_paymentOngoing p"
proof (cases "ap_totalDebtRepay p + amount > ap_growAt p")
  case True
  with assms upgrade_frame [of peer "p\<lparr>ap_totalDebtRepay := ap_totalDebtRepay p + amount\<rparr>" a p' a']
  show ?thesis by (intro that [of "[CallAnnounce peer (ap_thresholdForPeer p')]"])
      (auto simp: count_repay_def Let_def)
next
  case False
  with assms show ?thesis by (intro that [of "[]"]) (auto simp: count_repay_def Let_def)
qed

lemma received_reserves:
  "payment_received peer amount p a = (r, p', a') \<Longrightarrow> reserves peer 0 0 (p, a) (p', a')"
  "refreshment_received peer amount ts p a = (r', p', a') \<Longrightarrow> reserves peer 0 0 (p, a) (p', a')"
proof -
  obtain p1 a1 where c: "count_repay peer amount p a = (p1, a1)" by (metis prod.exhaust)
  obtain extra where extra: "frame a a1 extra" "pays_of extra = []" "ap_reserved p1 = ap_reserved p"
    "ap_shadow p1 = ap_shadow p" "ap_paymentOngoing p1 = ap_paymentOngoing p"
    by (rule count_repay_frame [OF c])
  have after: "reserves peer 0 0 (p, a) (p2, a2)" if "reserves peer 0 0 (p1, a1) (p2, a2)" for p2 a2
    using reserves_then [OF extra(1,2) that, of p 0 0] extra by simp
  have f: "reserves peer 0 0 (q, b) (q, b')" if "frame b b' []" for q b b'
    using that by (intro reserves_frame [of _ _ "[]"]) simp_all
  have f2: "reserves peer 0 0 (q, b) (q, b'')" if "frame b b' []" "frame b' b'' []" for q b b' b''
    using frame_trans [OF that] by (intro f) simp
  show "payment_received peer amount p a = (r, p', a') \<Longrightarrow> reserves peer 0 0 (p, a) (p', a')"
    by (rule after) (auto simp: payment_received_def c Let_def reserves_refl
        split: sum.splits if_splits prod.splits
        dest!: store_put_frame store_parts_frame(3) intro: f f2)
  have g: "reserves peer 0 0 (q, b) (q\<lparr>ap_refreshReceived := x\<rparr>, b')" if "frame b b' []" for q b b' x
    using that by (intro reserves_frame [of _ _ "[]"]) simp_all
  show "refreshment_received peer amount ts p a = (r', p', a') \<Longrightarrow> reserves peer 0 0 (p, a) (p', a')"
    by (rule after) (auto simp: refreshment_received_def c Let_def reserves_refl
        split: sum.splits dest!: store_put_frame intro: g)
qed

lemma refreshment_sent_reserves:
  assumes "refreshment_sent peer attempted amount ts interval err p a = (r, p', a')"
  shows "reserves peer 0 0 (p, a) (p', a')"
proof -
  have bl: "reserves peer 0 0 (p, b) (q, blocklist peer q' m b)"
    if "ap_reserved q = ap_reserved p" "ap_shadow q = ap_shadow p"
      "ap_paymentOngoing q = ap_paymentOngoing p" for q q' m b
    using blocklist_frame [of b peer q' m] that by (auto intro: reserves_frame)
  have f: "reserves peer 0 0 (p, b0) (q, b)"
    if "frame b0 b []" "ap_reserved q = ap_reserved p" "ap_shadow q = ap_shadow p"
      "ap_paymentOngoing q = ap_paymentOngoing p" for q b b0
    using that by (intro reserves_frame [of _ _ "[]"]) simp_all
  have f2: "reserves peer 0 0 (p, b0) (q, snd (decreaseOriginatedBalanceTo peer v b))"
    if "frame b0 b []" "ap_reserved q = ap_reserved p" "ap_shadow q = ap_shadow p"
      "ap_paymentOngoing q = ap_paymentOngoing p" for q b v b0
    using frame_trans [OF that(1) snd_frame(1), of peer v] that by (intro f) simp_all
  show ?thesis
    using assms
    by (auto simp: refreshment_sent_def Let_def split: option.splits sum.splits if_splits
        dest!: store_put_frame intro: bl f f2 f [OF frame_refl])
qed

lemma idle_reserves:
  "payment_threshold th p a = (u, p', a') \<Longrightarrow> reserves peer 0 0 (p, a) (p', a')"
  "disconnect_peer peer p a = (u, p', a') \<Longrightarrow> reserves peer 0 0 (p, a) (p', a')"
  by (auto simp: payment_threshold_def disconnect_peer_def Let_def reserves_refl split: if_splits
      intro!: reserves_frame [of _ _ "[]"] reserves_frame [OF frame_simps(3)])

lemma payment_sent_effect:
  assumes "payment_sent clock peer amount failed p a = (r, p', a')"
  shows "frame a a' [] \<and> ap_reserved p' = ap_reserved p \<and> \<not> ap_paymentOngoing p' \<and>
    ap_shadow p' = ap_shadow p - amount"
proof -
  have f: "frame a (snd (decreaseOriginatedBalanceBy peer amount b)) []" if "frame a b []" for b
    using frame_trans [OF that snd_frame(2), of peer amount] by simp
  show ?thesis
    using assms by (auto simp: payment_sent_def Let_def split: sum.splits if_splits
        dest!: store_put_frame intro: f)
qed

lemma connect_peer_effect:
  assumes "connect_peer peer full p a = (r, p', a')"
  shows "frame a a' [] \<and> ap_reserved p' = 0 \<and> ap_shadow p' = 0 \<and>
    ap_paymentOngoing p' = ap_paymentOngoing p"
proof -
  have "frame a (put_logged k v (put_logged k' v' a)) []" for k v k' v'
    using frame_trans [OF put_logged_frame put_logged_frame] by simp
  with assms show ?thesis by (auto simp: connect_peer_def Let_def)
qed

section \<open>Lifting to the state of all peers\<close>

lemma new_peer_put [simp]: "new_peer (put_peer peer p a) = new_peer a"
  by (simp add: put_peer_def new_peer_def)

lemma peer_rec_put: "peer_rec (put_peer peer p a) q = (if q = peer then p else peer_rec a q)"
proof -
  have "map_of (ac_peers (put_peer peer p a)) = (map_of (ac_peers a))(peer \<mapsto> p)"
    by (simp add: put_peer_def update_conv')
  then show ?thesis by (simp add: peer_rec_def split: option.split)
qed

lemma calls_put [simp]: "ac_calls (put_peer peer p a) = ac_calls a"
  by (simp add: put_peer_def)

lemma peer_rec_get: "getAccountingPeer peer a = (p, a0) \<Longrightarrow>
    p = peer_rec a peer \<and> ac_calls a0 = ac_calls a \<and> (\<forall>q. peer_rec a0 q = peer_rec a q) \<and>
    new_peer a0 = new_peer a"
  by (auto simp: getAccountingPeer_def peer_rec_put split: option.splits) (auto simp: peer_rec_def)

lemma frame_peer_rec: "frame a a' extra \<Longrightarrow> peer_rec a' = peer_rec a"
  by (auto simp: frame_def peer_rec_def fun_eq_iff split: option.split)

text \<open>The payments an operation has started.\<close>

definition new_pays :: "accounting \<Rightarrow> accounting \<Rightarrow> (address \<times> int) list" where
  "new_pays a a' = pays_of (drop (length (ac_calls a)) (ac_calls a'))"

lemma locked_effect:
  assumes "locked peer f a = (r, a')"
  obtains p' a0 a1 where "f (peer_rec a peer) a0 = (r, p', a1)" "ac_calls a0 = ac_calls a"
    "peer_rec a0 = peer_rec a" "a' = put_peer peer p' a1"
proof -
  obtain p a0 where g: "getAccountingPeer peer a = (p, a0)" by (metis prod.exhaust)
  obtain r1 p' a1 where f: "f p a0 = (r1, p', a1)" by (metis prod.exhaust)
  from g f assms peer_rec_get [OF g] that [of a0 p' a1] show ?thesis
    by (auto simp: locked_def fun_eq_iff)
qed

text \<open>
  The effect of an operation with reservations: the record of the peer, the records of the
  others, and at most one new payment, to that peer.
\<close>

definition op_reserves :: "address \<Rightarrow> int \<Rightarrow> int \<Rightarrow> accounting \<Rightarrow> accounting \<Rightarrow> bool" where
  "op_reserves peer dr ds a a' \<longleftrightarrow>
     (\<forall>q. q \<noteq> peer \<longrightarrow> peer_rec a' q = peer_rec a q) \<and>
     (let p = peer_rec a peer; p' = peer_rec a' peer in
      ap_reserved p' = ap_reserved p + dr \<and>
      (new_pays a a' = [] \<and> ap_paymentOngoing p' = ap_paymentOngoing p \<and>
         ap_shadow p' = ap_shadow p + ds \<or>
       (\<exists>amount. new_pays a a' = [(peer, amount)] \<and> \<not> ap_paymentOngoing p \<and>
         ap_paymentOngoing p' \<and> ap_shadow p' = ap_shadow p + ds + amount)))"

lemma locked_reserves:
  assumes "locked peer f a = (r, a')"
    and "\<And>a0 p' a1. f (peer_rec a peer) a0 = (r, p', a1) \<Longrightarrow>
           reserves peer dr ds (peer_rec a peer, a0) (p', a1)"
  shows "op_reserves peer dr ds a a'"
proof (rule locked_effect [OF assms(1)])
  fix p' a0 a1
  assume f: "f (peer_rec a peer) a0 = (r, p', a1)" and c: "ac_calls a0 = ac_calls a"
    and e: "peer_rec a0 = peer_rec a" and a': "a' = put_peer peer p' a1"
  from assms(2) [OF f] obtain extra where ex: "frame a0 a1 extra"
    "ap_reserved p' = ap_reserved (peer_rec a peer) + dr"
    "pays_of extra = [] \<and> ap_paymentOngoing p' = ap_paymentOngoing (peer_rec a peer) \<and>
       ap_shadow p' = ap_shadow (peer_rec a peer) + ds \<or>
     (\<exists>amount. pays_of extra = [(peer, amount)] \<and> \<not> ap_paymentOngoing (peer_rec a peer) \<and>
       ap_paymentOngoing p' \<and> ap_shadow p' = ap_shadow (peer_rec a peer) + ds + amount)"
    by (auto simp: reserves_def)
  have "new_pays a a' = pays_of extra" using ex(1) c by (simp add: new_pays_def a' frame_def)
  with ex frame_peer_rec [OF ex(1)] e show ?thesis
    by (simp add: op_reserves_def a' peer_rec_put Let_def)
qed

lemma op_reserves_all:
  "PrepareCredit clock got peer price own a = (rc, a') \<Longrightarrow>
     op_reserves peer (case rc of Inl _ \<Rightarrow> 0 | Inr c \<Rightarrow> ca_price c) 0 a a'"
  "creditAction_Apply clock c a = ((r, c'), a') \<Longrightarrow> \<not> ca_applied c \<Longrightarrow>
     op_reserves (ca_peer c) (if ca_applied c' then - released c (peer_rec a (ca_peer c)) else 0) 0 a a'"
  "\<not> ca_applied c \<Longrightarrow>
     op_reserves (ca_peer c) (- released c (peer_rec a (ca_peer c))) 0 a (creditAction_Cleanup c a)"
  "PrepareDebit got peer price a = (rd, a') \<Longrightarrow>
     op_reserves peer 0 (case rd of Inl _ \<Rightarrow> 0 | Inr d \<Rightarrow> da_price d) a a'"
  "debitAction_Apply clock d a = ((r, d'), a') \<Longrightarrow> \<not> da_applied d \<Longrightarrow>
     op_reserves (da_peer d) 0 (if da_applied d' then - da_price d else 0) a a'"
  "\<not> da_applied d \<Longrightarrow> op_reserves (da_peer d) 0 (- da_price d) a (debitAction_Cleanup d a)"
  "op_reserves peer 0 0 a (NotifyPaymentThreshold peer th a)"
  "op_reserves peer 0 0 a (snd (NotifyPaymentReceived peer amount a))"
  "op_reserves peer 0 0 a (NotifyRefreshmentSent peer attempted amount ts interval err a)"
  "op_reserves peer 0 0 a (snd (NotifyRefreshmentReceived peer amount ts a))"
  "op_reserves peer 0 0 a (acc_Disconnect peer a)"
proof -
  show "op_reserves peer 0 0 a (NotifyPaymentThreshold peer th a)"
    unfolding NotifyPaymentThreshold_def
    by (rule locked_reserves [OF prod.collapse [symmetric]]) (rule idle_reserves(1))
  show "op_reserves peer 0 0 a (snd (NotifyPaymentReceived peer amount a))"
    unfolding NotifyPaymentReceived_def
    by (rule locked_reserves [OF prod.collapse [symmetric]]) (rule received_reserves(1))
  show "op_reserves peer 0 0 a (NotifyRefreshmentSent peer attempted amount ts interval err a)"
    unfolding NotifyRefreshmentSent_def
    by (rule locked_reserves [OF prod.collapse [symmetric]]) (rule refreshment_sent_reserves)
  show "op_reserves peer 0 0 a (snd (NotifyRefreshmentReceived peer amount ts a))"
    unfolding NotifyRefreshmentReceived_def
    by (rule locked_reserves [OF prod.collapse [symmetric]]) (rule received_reserves(2))
  show "op_reserves peer 0 0 a (acc_Disconnect peer a)"
    unfolding acc_Disconnect_def
    by (rule locked_reserves [OF prod.collapse [symmetric]]) (rule idle_reserves(2))
  show "op_reserves (ca_peer c) (- released c (peer_rec a (ca_peer c))) 0 a (creditAction_Cleanup c a)"
    if "\<not> ca_applied c"
    unfolding creditAction_Cleanup_def using that
    by (simp add: locked_reserves [OF prod.collapse [symmetric]] cleanup_credit_reserves)
  show "op_reserves (da_peer d) 0 (- da_price d) a (debitAction_Cleanup d a)" if "\<not> da_applied d"
    unfolding debitAction_Cleanup_def using that
    by (simp add: locked_reserves [OF prod.collapse [symmetric]] cleanup_debit_reserves)
  show "op_reserves peer (case rc of Inl _ \<Rightarrow> 0 | Inr c \<Rightarrow> ca_price c) 0 a a'"
    if "PrepareCredit clock got peer price own a = (rc, a')"
    by (rule locked_reserves [OF that [unfolded PrepareCredit_def]]) (rule prepare_credit_reserves(1))
  show "op_reserves (ca_peer c) (if ca_applied c' then - released c (peer_rec a (ca_peer c)) else 0) 0 a a'"
    if "creditAction_Apply clock c a = ((r, c'), a')" "\<not> ca_applied c"
    by (rule locked_reserves [OF that(1) [unfolded creditAction_Apply_def]])
      (rule apply_credit_reserves [OF _ that(2)])
  show "op_reserves peer 0 (case rd of Inl _ \<Rightarrow> 0 | Inr d \<Rightarrow> da_price d) a a'"
    if "PrepareDebit got peer price a = (rd, a')"
    by (rule locked_reserves [OF that [unfolded PrepareDebit_def]]) (rule prepare_debit_reserves(1))
  show "op_reserves (da_peer d) 0 (if da_applied d' then - da_price d else 0) a a'"
    if "debitAction_Apply clock d a = ((r, d'), a')" "\<not> da_applied d"
    by (rule locked_reserves [OF that(1) [unfolded debitAction_Apply_def]])
      (rule apply_debit_reserves [OF _ that(2)])
qed

section \<open>Outstanding actions and payments\<close>

text \<open>
  \<open>Connect\<close> clears the reserves of a peer whatever is outstanding: \<open>sy_lostCredit\<close> and
  \<open>sy_lostDebit\<close> are what was outstanding when the peer last connected.
\<close>

record acc_sys =
  sy_acc :: accounting
  sy_credits :: "credit_action list"
  sy_debits :: "debit_action list"
  sy_pays :: "(address \<times> int) list"
  sy_lostCredit :: "address \<Rightarrow> int"
  sy_lostDebit :: "address \<Rightarrow> int"

definition advance :: "accounting \<Rightarrow> acc_sys \<Rightarrow> acc_sys" where
  "advance a s = s\<lparr>sy_acc := a, sy_pays := sy_pays s @ new_pays (sy_acc s) a\<rparr>"

definition credits_for :: "address \<Rightarrow> credit_action list \<Rightarrow> int" where
  "credits_for peer cs = sum_list (map ca_price (filter (\<lambda>c. ca_peer c = peer) cs))"

definition debits_for :: "address \<Rightarrow> debit_action list \<Rightarrow> int" where
  "debits_for peer ds = sum_list (map da_price (filter (\<lambda>d. da_peer d = peer) ds))"

definition pays_for :: "address \<Rightarrow> (address \<times> int) list \<Rightarrow> (address \<times> int) list" where
  "pays_for peer ps = filter (\<lambda>x. fst x = peer) ps"

definition owed_for :: "address \<Rightarrow> acc_sys \<Rightarrow> int" where
  "owed_for peer s = debits_for peer (sy_debits s) + sum_list (map snd (pays_for peer (sy_pays s)))"

text \<open>
  One step: any operation on any peer at any time. A payment is reported once, by the payment
  function that was started for it.
\<close>

inductive acc_step :: "acc_sys \<Rightarrow> acc_sys \<Rightarrow> bool" where
  prepare_credit: "PrepareCredit clock got peer price own (sy_acc s) = (Inr c, a) \<Longrightarrow>
    acc_step s ((advance a s)\<lparr>sy_credits := c # sy_credits s\<rparr>)"
| refuse_credit: "PrepareCredit clock got peer price own (sy_acc s) = (Inl e, a) \<Longrightarrow>
    acc_step s (advance a s)"
| apply_credit: "c \<in> set (sy_credits s) \<Longrightarrow>
    creditAction_Apply clock c (sy_acc s) = ((r, c'), a) \<Longrightarrow>
    acc_step s ((advance a s)\<lparr>sy_credits :=
      (if ca_applied c' then remove1 c (sy_credits s) else sy_credits s)\<rparr>)"
| cleanup_credit: "c \<in> set (sy_credits s) \<Longrightarrow>
    acc_step s ((advance (creditAction_Cleanup c (sy_acc s)) s)\<lparr>sy_credits := remove1 c (sy_credits s)\<rparr>)"
| prepare_debit: "PrepareDebit got peer price (sy_acc s) = (Inr d, a) \<Longrightarrow>
    acc_step s ((advance a s)\<lparr>sy_debits := d # sy_debits s\<rparr>)"
| refuse_debit: "PrepareDebit got peer price (sy_acc s) = (Inl e, a) \<Longrightarrow>
    acc_step s (advance a s)"
| apply_debit: "d \<in> set (sy_debits s) \<Longrightarrow>
    debitAction_Apply clock d (sy_acc s) = ((r, d'), a) \<Longrightarrow>
    acc_step s ((advance a s)\<lparr>sy_debits :=
      (if da_applied d' then remove1 d (sy_debits s) else sy_debits s)\<rparr>)"
| cleanup_debit: "d \<in> set (sy_debits s) \<Longrightarrow>
    acc_step s ((advance (debitAction_Cleanup d (sy_acc s)) s)\<lparr>sy_debits := remove1 d (sy_debits s)\<rparr>)"
| payment_sent: "(peer, amount) \<in> set (sy_pays s) \<Longrightarrow>
    acc_step s (s\<lparr>sy_acc := NotifyPaymentSent clock peer amount failed (sy_acc s),
                  sy_pays := remove1 (peer, amount) (sy_pays s)\<rparr>)"
| payment_threshold: "acc_step s (advance (NotifyPaymentThreshold peer th (sy_acc s)) s)"
| payment_received: "acc_step s (advance (snd (NotifyPaymentReceived peer amount (sy_acc s))) s)"
| refreshment_sent: "acc_step s
    (advance (NotifyRefreshmentSent peer attempted amount ts interval err (sy_acc s)) s)"
| refreshment_received: "acc_step s
    (advance (snd (NotifyRefreshmentReceived peer amount ts (sy_acc s))) s)"
| connect: "acc_step s ((advance (acc_Connect peer full (sy_acc s)) s)
    \<lparr>sy_lostCredit := (sy_lostCredit s) (peer := credits_for peer (sy_credits s)),
     sy_lostDebit := (sy_lostDebit s) (peer := owed_for peer s)\<rparr>)"
| disconnect: "acc_step s (advance (acc_Disconnect peer (sy_acc s)) s)"

inductive_cases acc_stepE: "acc_step s s'"

section \<open>The invariant\<close>

definition sys_ok :: "acc_sys \<Rightarrow> bool" where
  "sys_ok s \<longleftrightarrow>
     (\<forall>c \<in> set (sy_credits s). 0 \<le> ca_price c \<and> \<not> ca_applied c) \<and>
     (\<forall>d \<in> set (sy_debits s). \<not> da_applied d) \<and>
     (\<forall>peer. let p = peer_rec (sy_acc s) peer in
        0 \<le> ap_reserved p \<and> ap_reserved p \<le> credits_for peer (sy_credits s) \<and>
        credits_for peer (sy_credits s) - sy_lostCredit s peer \<le> ap_reserved p \<and>
        ap_shadow p = owed_for peer s - sy_lostDebit s peer \<and>
        length (pays_for peer (sy_pays s)) = (if ap_paymentOngoing p then 1 else 0))"

lemma sum_remove1:
  fixes f :: "'a \<Rightarrow> int"
  shows "x \<in> set xs \<Longrightarrow> sum_list (map f (remove1 x xs)) = sum_list (map f xs) - f x"
  by (induction xs) auto

lemma for_remove1:
  "c \<in> set cs \<Longrightarrow>
     credits_for peer (remove1 c cs) = credits_for peer cs - (if ca_peer c = peer then ca_price c else 0)"
  "d \<in> set ds \<Longrightarrow>
     debits_for peer (remove1 d ds) = debits_for peer ds - (if da_peer d = peer then da_price d else 0)"
  by (auto simp: credits_for_def debits_for_def filter_remove1 sum_remove1)

lemma for_Cons [simp]:
  "credits_for peer (c # cs) = credits_for peer cs + (if ca_peer c = peer then ca_price c else 0)"
  "debits_for peer (d # ds) = debits_for peer ds + (if da_peer d = peer then da_price d else 0)"
  by (auto simp: credits_for_def debits_for_def)

lemma price_le_credits:
  assumes "\<forall>c \<in> set cs. 0 \<le> ca_price c" "c \<in> set cs"
  shows "ca_price c \<le> credits_for (ca_peer c) cs"
  using assms(2,1)
proof (induction cs)
  case (Cons b cs)
  have "0 \<le> credits_for (ca_peer c) cs"
    unfolding credits_for_def using Cons.prems(2) by (intro sum_list_nonneg) auto
  with Cons show ?case by auto
qed simp

text \<open>
  A step whose operation has reservation effects, with the lists adjusted to match: the reserve
  may lose less than the credits, down to zero.
\<close>

lemma sys_ok_advance:
  assumes ok: "sys_ok s" and op: "op_reserves peer dr ds (sy_acc s) a"
    and cs: "\<And>q. credits_for q cs = credits_for q (sy_credits s) + (if q = peer then dc else 0)"
    and dd: "\<And>q. debits_for q dl = debits_for q (sy_debits s) + (if q = peer then ds else 0)"
    and ca: "\<forall>c \<in> set cs. 0 \<le> ca_price c \<and> \<not> ca_applied c"
    and da: "\<forall>d \<in> set dl. \<not> da_applied d"
    and dr: "dc \<le> dr" "0 \<le> ap_reserved (peer_rec (sy_acc s) peer) + dr"
      "ap_reserved (peer_rec (sy_acc s) peer) + dr \<le> credits_for peer cs"
  shows "sys_ok ((advance a s)\<lparr>sy_credits := cs, sy_debits := dl\<rparr>)"
  unfolding sys_ok_def
proof (intro conjI allI, goal_cases)
  case (3 q)
  let ?p = "peer_rec (sy_acc s) q" and ?p' = "peer_rec a q"
  have old: "0 \<le> ap_reserved ?p" "ap_reserved ?p \<le> credits_for q (sy_credits s)"
    "credits_for q (sy_credits s) - sy_lostCredit s q \<le> ap_reserved ?p"
    "ap_shadow ?p = debits_for q (sy_debits s) + sum_list (map snd (pays_for q (sy_pays s))) - sy_lostDebit s q"
    "length (pays_for q (sy_pays s)) = (if ap_paymentOngoing ?p then 1 else 0)"
    using ok by (auto simp: sys_ok_def owed_for_def Let_def)
  show ?case
  proof (cases "q = peer")
    case False
    then have "?p' = ?p" "pays_for q (new_pays (sy_acc s) a) = []"
      using op by (auto simp: op_reserves_def Let_def pays_for_def)
    with False old cs [of q] dd [of q] show ?thesis
      by (simp add: Let_def advance_def pays_for_def owed_for_def)
  next
    case True
    from op have r: "ap_reserved ?p' = ap_reserved ?p + dr"
      and p: "new_pays (sy_acc s) a = [] \<and> ap_paymentOngoing ?p' = ap_paymentOngoing ?p \<and>
         ap_shadow ?p' = ap_shadow ?p + ds \<or>
       (\<exists>amount. new_pays (sy_acc s) a = [(q, amount)] \<and> \<not> ap_paymentOngoing ?p \<and>
         ap_paymentOngoing ?p' \<and> ap_shadow ?p' = ap_shadow ?p + ds + amount)"
      by (simp_all add: op_reserves_def Let_def True)
    from p show ?thesis
    proof
      assume "new_pays (sy_acc s) a = [] \<and> ap_paymentOngoing ?p' = ap_paymentOngoing ?p \<and>
         ap_shadow ?p' = ap_shadow ?p + ds"
      with True old r cs [of q] dd [of q] dr show ?thesis by (simp add: Let_def advance_def owed_for_def)
    next
      assume "\<exists>amount. new_pays (sy_acc s) a = [(q, amount)] \<and> \<not> ap_paymentOngoing ?p \<and>
         ap_paymentOngoing ?p' \<and> ap_shadow ?p' = ap_shadow ?p + ds + amount"
      then obtain amount where "new_pays (sy_acc s) a = [(q, amount)]" "\<not> ap_paymentOngoing ?p"
        "ap_paymentOngoing ?p'" "ap_shadow ?p' = ap_shadow ?p + ds + amount" by blast
      with True old r cs [of q] dd [of q] dr show ?thesis
        by (simp add: Let_def advance_def pays_for_def owed_for_def)
    qed
  qed
qed (use ca da in \<open>simp_all add: advance_def\<close>)

section \<open>Preservation\<close>

lemma sys_okD:
  assumes "sys_ok s"
  shows "c \<in> set (sy_credits s) \<Longrightarrow> 0 \<le> ca_price c \<and> \<not> ca_applied c \<and>
      ca_price c \<le> credits_for (ca_peer c) (sy_credits s)"
    and "d \<in> set (sy_debits s) \<Longrightarrow> \<not> da_applied d"
    and "0 \<le> ap_reserved (peer_rec (sy_acc s) peer) \<and>
      ap_reserved (peer_rec (sy_acc s) peer) \<le> credits_for peer (sy_credits s) \<and>
      credits_for peer (sy_credits s) - sy_lostCredit s peer \<le> ap_reserved (peer_rec (sy_acc s) peer)"
    and "ap_shadow (peer_rec (sy_acc s) peer) = owed_for peer s - sy_lostDebit s peer"
    and "length (pays_for peer (sy_pays s)) =
      (if ap_paymentOngoing (peer_rec (sy_acc s) peer) then 1 else 0)"
  using assms price_le_credits [of "sy_credits s" c] by (auto simp: sys_ok_def Let_def)

lemma sys_ok_idle:
  assumes "sys_ok s" "op_reserves peer 0 0 (sy_acc s) a"
  shows "sys_ok (advance a s)"
  using sys_ok_advance [OF assms, of "sy_credits s" 0 "sy_debits s"] assms(1) sys_okD(3) [OF assms(1), of peer]
  by (simp add: sys_ok_def advance_def)

lemma sys_ok_credits:
  assumes "sys_ok s" "op_reserves peer dr 0 (sy_acc s) a"
    and "\<And>q. credits_for q cs = credits_for q (sy_credits s) + (if q = peer then dc else 0)"
    and "\<forall>c \<in> set cs. 0 \<le> ca_price c \<and> \<not> ca_applied c"
    and "dc \<le> dr" "0 \<le> ap_reserved (peer_rec (sy_acc s) peer) + dr"
      "ap_reserved (peer_rec (sy_acc s) peer) + dr \<le> credits_for peer cs"
  shows "sys_ok ((advance a s)\<lparr>sy_credits := cs\<rparr>)"
  using sys_ok_advance [OF assms(1,2,3) _ assms(4) _ assms(5-7), of "sy_debits s"] assms(1)
  by (simp add: sys_ok_def advance_def)

lemma sys_ok_debits:
  assumes "sys_ok s" "op_reserves peer 0 ds (sy_acc s) a"
    and "\<And>q. debits_for q dl = debits_for q (sy_debits s) + (if q = peer then ds else 0)"
    and "\<forall>d \<in> set dl. \<not> da_applied d"
  shows "sys_ok ((advance a s)\<lparr>sy_debits := dl\<rparr>)"
  using sys_ok_advance [OF assms(1,2) _ assms(3) _ assms(4), of "sy_credits s" 0] assms(1)
    sys_okD(3) [OF assms(1), of peer]
  by (simp add: sys_ok_def advance_def)

text \<open>A credit that is applied or given up leaves the list, and its price the reserve.\<close>

lemma sys_ok_release:
  assumes "sys_ok s" "c \<in> set (sy_credits s)"
    and "op_reserves (ca_peer c) (- released c (peer_rec (sy_acc s) (ca_peer c))) 0 (sy_acc s) a"
  shows "sys_ok ((advance a s)\<lparr>sy_credits := remove1 c (sy_credits s)\<rparr>)"
proof (rule sys_ok_credits [OF assms(1,3)])
  let ?p = "peer_rec (sy_acc s) (ca_peer c)"
  note c = sys_okD(1) [OF assms(1,2)] and r = sys_okD(3) [OF assms(1), of "ca_peer c"]
  show "credits_for q (remove1 c (sy_credits s)) =
      credits_for q (sy_credits s) + (if q = ca_peer c then - ca_price c else 0)" for q
    using assms(2) by (simp add: for_remove1)
  show "\<forall>c' \<in> set (remove1 c (sy_credits s)). 0 \<le> ca_price c' \<and> \<not> ca_applied c'"
    using sys_okD(1) [OF assms(1)] by (auto dest: set_remove1_subset [THEN subsetD])
  show "- ca_price c \<le> - released c ?p" "0 \<le> ap_reserved ?p + - released c ?p"
    "ap_reserved ?p + - released c ?p \<le> credits_for (ca_peer c) (remove1 c (sy_credits s))"
    using c r assms(2) by (auto simp: released_def for_remove1)
qed

lemma prepared_credit:
  assumes "PrepareCredit clock got peer price own a = (Inr c, a')"
  shows "ca_price c = int (unat price) \<and> ca_peer c = peer \<and> \<not> ca_applied c"
  using assms unfolding PrepareCredit_def
  by (elim locked_effect) (rule prepare_credit_reserves(2), auto)

lemma prepared_debit:
  assumes "PrepareDebit got peer price a = (Inr d, a')"
  shows "da_price d = int (unat price) \<and> da_peer d = peer \<and> \<not> da_applied d"
  using assms unfolding PrepareDebit_def
  by (elim locked_effect) (rule prepare_debit_reserves(2), auto)

lemma NotifyPaymentSent_rec:
  "peer_rec (NotifyPaymentSent clock peer amount failed a) q =
     peer_rec (snd (locked peer (payment_sent clock peer amount failed) a)) q"
  "ac_calls (NotifyPaymentSent clock peer amount failed a) = ac_calls a"
proof -
  obtain r a' where l: "locked peer (payment_sent clock peer amount failed) a = (r, a')"
    by (metis prod.exhaust)
  have "new_peer (x\<lparr>ac_wg := n\<rparr>) = new_peer x" for x n by (simp add: new_peer_def)
  then show "peer_rec (NotifyPaymentSent clock peer amount failed a) q =
      peer_rec (snd (locked peer (payment_sent clock peer amount failed) a)) q"
    by (simp add: NotifyPaymentSent_def Let_def peer_rec_def split: option.split)
  show "ac_calls (NotifyPaymentSent clock peer amount failed a) = ac_calls a"
    by (rule locked_effect [OF l]) (use l in \<open>auto simp: NotifyPaymentSent_def Let_def frame_def
        dest!: payment_sent_effect\<close>)
qed

lemma payment_sent_rec:
  "let p = peer_rec a peer; p' = peer_rec (NotifyPaymentSent clock peer amount failed a) peer in
   ap_reserved p' = ap_reserved p \<and> \<not> ap_paymentOngoing p' \<and> ap_shadow p' = ap_shadow p - amount \<and>
   (\<forall>q. q \<noteq> peer \<longrightarrow> peer_rec (NotifyPaymentSent clock peer amount failed a) q = peer_rec a q)"
proof -
  obtain r a' where l: "locked peer (payment_sent clock peer amount failed) a = (r, a')"
    by (metis prod.exhaust)
  show ?thesis
    by (rule locked_effect [OF l])
      (use l in \<open>auto simp: NotifyPaymentSent_rec(1) Let_def peer_rec_put
        dest!: payment_sent_effect dest: frame_peer_rec\<close>)
qed

lemma connect_rec:
  "let p = peer_rec a peer; p' = peer_rec (acc_Connect peer full a) peer in
   ap_reserved p' = 0 \<and> ap_shadow p' = 0 \<and> ap_paymentOngoing p' = ap_paymentOngoing p \<and>
   new_pays a (acc_Connect peer full a) = [] \<and>
   (\<forall>q. q \<noteq> peer \<longrightarrow> peer_rec (acc_Connect peer full a) q = peer_rec a q)"
proof -
  obtain r a' where l: "locked peer (connect_peer peer full) a = (r, a')"
    by (metis prod.exhaust)
  show ?thesis
    by (rule locked_effect [OF l])
      (use l in \<open>auto simp: acc_Connect_def Let_def peer_rec_put new_pays_def frame_def
        dest!: connect_peer_effect dest: frame_peer_rec\<close>)
qed

lemma pays_for_remove1:
  assumes "(peer, amount) \<in> set ps" "length (pays_for peer ps) \<le> 1"
  shows "pays_for q (remove1 (peer, amount) ps) = (if q = peer then [] else pays_for q ps)"
    "pays_for peer ps = [(peer, amount)]"
proof -
  from assms(1) have "(peer, amount) \<in> set (pays_for peer ps)" by (simp add: pays_for_def)
  with assms(2) show p: "pays_for peer ps = [(peer, amount)]"
    by (cases "pays_for peer ps") auto
  then show "pays_for q (remove1 (peer, amount) ps) = (if q = peer then [] else pays_for q ps)"
    by (auto simp: pays_for_def filter_remove1 remove1_idem)
qed

lemma sys_ok_payment_sent:
  assumes "sys_ok s" "(peer, amount) \<in> set (sy_pays s)"
  shows "sys_ok (s\<lparr>sy_acc := NotifyPaymentSent clock peer amount failed (sy_acc s),
    sy_pays := remove1 (peer, amount) (sy_pays s)\<rparr>)"
proof -
  have "length (pays_for peer (sy_pays s)) \<le> 1" using sys_okD(5) [OF assms(1), of peer] by simp
  note rem = pays_for_remove1 [OF assms(2) this]
  show ?thesis
    using assms(1) payment_sent_rec [of "sy_acc s" peer clock amount failed]
    unfolding sys_ok_def Let_def by (auto simp: rem owed_for_def split: if_splits)
qed

lemma sys_ok_connect:
  assumes "sys_ok s"
  shows "sys_ok ((advance (acc_Connect peer full (sy_acc s)) s)
    \<lparr>sy_lostCredit := (sy_lostCredit s) (peer := credits_for peer (sy_credits s)),
     sy_lostDebit := (sy_lostDebit s) (peer := owed_for peer s)\<rparr>)"
proof -
  have "0 \<le> credits_for peer (sy_credits s)" using sys_okD(3) [OF assms, of peer] by linarith
  then show ?thesis
    using assms connect_rec [of "sy_acc s" peer full]
    unfolding sys_ok_def Let_def by (auto simp: advance_def owed_for_def)
qed

lemma acc_step_ok [inv_intro]:
  assumes "acc_step s s'" "sys_ok s"
  shows "sys_ok s'"
  using assms
proof (induction rule: acc_step.induct)
  case (prepare_credit clock got peer price own s c a)
  note c = prepared_credit [OF prepare_credit(1)] and r = sys_okD(3) [OF prepare_credit(2), of peer]
  show ?case
    by (rule sys_ok_credits [OF prepare_credit(2) op_reserves_all(1) [OF prepare_credit(1)], of _ "ca_price c"])
      (use c r sys_okD(1) [OF prepare_credit(2)] in auto)
next
  case (refuse_credit clock got peer price own s e a)
  from op_reserves_all(1) [OF refuse_credit(1)] show ?case
    by (intro sys_ok_idle [OF refuse_credit(2)]) simp
next
  case (apply_credit c s clock r c' a)
  note c = sys_okD(1) [OF apply_credit(3,1)]
  show ?case
  proof (cases "ca_applied c'")
    case True
    with op_reserves_all(2) [OF apply_credit(2)] c sys_ok_release [OF apply_credit(3,1)] show ?thesis by simp
  next
    case False
    with op_reserves_all(2) [OF apply_credit(2)] c have "op_reserves (ca_peer c) 0 0 (sy_acc s) a" by simp
    from sys_ok_idle [OF apply_credit(3) this] False show ?thesis by (simp add: advance_def)
  qed
next
  case (cleanup_credit c s)
  from op_reserves_all(3) [of c "sy_acc s"] sys_okD(1) [OF cleanup_credit(2,1)]
  show ?case by (intro sys_ok_release [OF cleanup_credit(2,1)]) simp
next
  case (prepare_debit got peer price s d a)
  from op_reserves_all(4) [OF prepare_debit(1)] prepared_debit [OF prepare_debit(1)]
    sys_okD(2) [OF prepare_debit(2)]
  show ?case by (intro sys_ok_debits [OF prepare_debit(2)]) auto
next
  case (refuse_debit got peer price s e a)
  from op_reserves_all(4) [OF refuse_debit(1)] show ?case
    by (intro sys_ok_idle [OF refuse_debit(2)]) simp
next
  case (apply_debit d s clock r d' a)
  from op_reserves_all(5) [OF apply_debit(2)] sys_okD(2) [OF apply_debit(3)] apply_debit(1)
  show ?case
    by (intro sys_ok_debits [OF apply_debit(3)])
      (auto simp: for_remove1 dest: set_remove1_subset [THEN subsetD])
next
  case (cleanup_debit d s)
  from op_reserves_all(6) [of d "sy_acc s"] sys_okD(2) [OF cleanup_debit(2)] cleanup_debit(1)
  show ?case
    by (intro sys_ok_debits [OF cleanup_debit(2)])
      (auto simp: for_remove1 dest: set_remove1_subset [THEN subsetD])
qed (auto intro: sys_ok_payment_sent sys_ok_connect sys_ok_idle op_reserves_all)

lemma acc_steps_ok: "acc_step\<^sup>*\<^sup>* s s' \<Longrightarrow> sys_ok s \<Longrightarrow> sys_ok s'"
  by (induction rule: rtranclp_induct) (auto intro: acc_step_ok)

definition acc_start :: "accounting \<Rightarrow> acc_sys" where
  "acc_start a = \<lparr>sy_acc = a, sy_credits = [], sy_debits = [], sy_pays = [],
     sy_lostCredit = (\<lambda>_. 0), sy_lostDebit = (\<lambda>_. 0)\<rparr>"

lemma acc_start_ok: "ac_peers a = [] \<Longrightarrow> sys_ok (acc_start a)"
  by (simp add: sys_ok_def acc_start_def peer_rec_def new_peer_def credits_for_def debits_for_def
      pays_for_def owed_for_def Let_def)

text \<open>
  C17: in every state reachable from a fresh node by any interleaving of operations on any
  peers, connects and disconnects included: the reserved balance of a peer is at most the sum of
  the prices of its outstanding credit actions and not negative, and short of that sum by at most
  what was outstanding when the peer last connected; its shadow reserve is the sum of its
  outstanding debit actions and of the payment under way, less what was outstanding when the
  peer last connected; and at most one payment is under way. So both are the sums for a peer
  that had nothing outstanding when it connected; \<open>Connect\<close> does not check this, and after it
  the shadow reserve may be negative.
\<close>

theorem accounting_reservations:
  assumes "acc_step\<^sup>*\<^sup>* (acc_start (NewAccounting th tol early st rate light)) s"
  shows "let p = peer_rec (sy_acc s) peer in
    0 \<le> ap_reserved p \<and> ap_reserved p \<le> credits_for peer (sy_credits s) \<and>
    credits_for peer (sy_credits s) - sy_lostCredit s peer \<le> ap_reserved p \<and>
    ap_shadow p = debits_for peer (sy_debits s) + sum_list (map snd (pays_for peer (sy_pays s))) - sy_lostDebit s peer \<and>
    length (pays_for peer (sy_pays s)) = (if ap_paymentOngoing p then 1 else 0)"
proof -
  have "sys_ok s"
    by (rule acc_steps_ok [OF assms]) (simp add: acc_start_ok NewAccounting_def Let_def)
  then show ?thesis
    using sys_okD(3-5) [of s peer] by (simp add: owed_for_def Let_def)
qed

end
