(* ===== verification/Accounting_Limits.thy ===== *)
theory Accounting_Limits
  imports Accounting_Reserve
begin

text \<open>
  The limits the accounting package enforces: credit within the payment threshold, payments
  within the debt, disconnection above the limit, and the bounds between the originated and
  the total balance; and what a reconnection does to them.
\<close>

section \<open>A concrete node\<close>

definition empty_kv :: "'v kv" where
  "empty_kv = \<lparr>kv_data = [], kv_fail = \<lambda>_ _. False\<rparr>"

definition node0 :: accounting where
  "node0 = SetPayFunc (NewAccounting 10000 25 50 empty_kv 450 10)"

definition peer1 :: address where "peer1 = Address [1, 2, 3, 4]"

definition clock0 :: "nat \<Rightarrow> int" where "clock0 i = 1000000"

lemma empty_kv_ok: "store_ok empty_kv"
  by (simp add: store_ok_def empty_kv_def kv_ok_def kv_reliable_def surp_def value_of_def kv_map_def)

lemma node0_store [simp]: "ac_store node0 = empty_kv"
  by (simp add: node0_def SetPayFunc_def NewAccounting_def Let_def)

theorem accounting_refines_ledger_witness:
  "fold ledger_apply (events_of [OpConnect peer1 True, OpPaymentReceived peer1 70] node0)
     (ledger (ac_store node0)) peer1 = -70"
proof -
  let ?ops = "[OpConnect peer1 True, OpPaymentReceived peer1 70]"
  have "CompensatedBalance (acc_run ?ops node0) peer1 = Inr (-70)" by code_simp
  from accounting_refines_ledger [OF _ _ this] show ?thesis by (simp add: empty_kv_ok)
qed

theorem accounting_reservations_witness:
  "ap_reserved (peer_rec (snd (PrepareCredit clock0 True peer1 100 True
      (acc_Connect peer1 True (NewAccounting 10000 25 50 empty_kv 450 10)))) peer1) = 100"
proof -
  let ?a = "NewAccounting 10000 25 50 empty_kv 450 10"
  let ?s0 = "acc_start ?a"
  let ?s1 = "(advance (acc_Connect peer1 True (sy_acc ?s0)) ?s0)
    \<lparr>sy_lostCredit := (sy_lostCredit ?s0) (peer1 := credits_for peer1 (sy_credits ?s0)),
     sy_lostDebit := (sy_lostDebit ?s0) (peer1 := owed_for peer1 ?s0)\<rparr>"
  have s1: "sy_acc ?s1 = acc_Connect peer1 True ?a" "sy_credits ?s1 = []" "sy_lostCredit ?s1 peer1 = 0"
    by (simp_all add: advance_def acc_start_def credits_for_def)
  have "acc_step ?s0 ?s1" by (rule acc_step.connect)
  moreover obtain a2 where p: "PrepareCredit clock0 True peer1 100 True (sy_acc ?s1) =
      (Inr \<lparr>ca_price = 100, ca_peer = peer1, ca_originated = True, ca_applied = False\<rparr>, a2)"
  proof -
    have "fst (PrepareCredit clock0 True peer1 100 True (acc_Connect peer1 True ?a)) =
        Inr \<lparr>ca_price = 100, ca_peer = peer1, ca_originated = True, ca_applied = False\<rparr>"
      by code_simp
    then show ?thesis using that s1(1) by (metis prod.collapse)
  qed
  ultimately have "acc_step\<^sup>*\<^sup>* (acc_start ?a) ((advance a2 ?s1)\<lparr>sy_credits :=
      [\<lparr>ca_price = 100, ca_peer = peer1, ca_originated = True, ca_applied = False\<rparr>]\<rparr>)"
    using acc_step.prepare_credit [OF p] s1(2) by (auto intro: rtranclp.intros)
  from accounting_reservations [OF this, of peer1] p s1 show ?thesis
    by (simp add: Let_def advance_def credits_for_def)
qed

section \<open>Credit stays within the payment threshold\<close>

lemma settle_payment_keeps:
  "settle_payment clock peer p a = (r, p', a') \<Longrightarrow>
     ap_paymentThreshold p' = ap_paymentThreshold p \<and> ac_refreshRate a' = ac_refreshRate a \<and>
     ap_reserved p' = ap_reserved p \<and> ap_refreshTimestamp p' = ap_refreshTimestamp p"
  by (auto simp: settle_payment_def Let_def add_call_def split: sum.splits if_splits)

lemma settle_keeps:
  "settle clock peer p a = (r, p', a') \<Longrightarrow>
     ap_paymentThreshold p' = ap_paymentThreshold p \<and> ac_refreshRate a' = ac_refreshRate a \<and>
     ap_reserved p' = ap_reserved p \<and> ap_refreshTimestamp p' = ap_refreshTimestamp p"
  by (auto simp: settle_def Let_def add_call_def split: sum.splits if_splits
      dest!: settle_payment_keeps)

definition expected_debt :: "accounting \<Rightarrow> address \<Rightarrow> acc_peer \<Rightarrow> int" where
  "expected_debt a peer p =
     max 0 (- bal (ac_store a) peer) + ap_reserved p + surp (ac_store a) peer"

lemma prepare_credit_limit:
  assumes "store_ok (ac_store a)" "0 \<le> ac_refreshRate a"
    and "prepare_credit clock got peer price own p a = (Inr c, p', a')"
  shows "expected_debt a' peer p' \<le> ap_paymentThreshold p + ac_refreshRate a"
proof -
  have due: "(if 1 < x then 1 else x) * ac_refreshRate a \<le> ac_refreshRate a" for x
    using assms(2) mult_right_mono [of x 1 "ac_refreshRate a"] by auto
  show ?thesis
  proof (cases "ap_earlyPayment p \<le> max 0 (- bal (ac_store a) peer) + (ap_reserved p + int (unat price)) +
      surp (ac_store a) peer - ap_shadow p \<and> bal (ac_store a) peer < 0")
    case False
    with assms due [of "go_div (clock 2 - ap_refreshTimestamp p) 1000"] show ?thesis
      by (auto simp: prepare_credit_def Let_def getIncreasedExpectedDebt_ok expected_debt_def
          split: if_splits)
  next
    case True
    obtain e q b where s: "settle clock peer p a = (e, q, b)" by (metis prod.exhaust)
    note k = settle_keeps [OF s] and st = settle_cases [OF s]
    have "store_ok (ac_store b)" using assms(1) st by simp
    note g = getIncreasedExpectedDebt_ok [OF this]
    from True assms(3) s k st due [of "go_div (clock 2 - ap_refreshTimestamp p) 1000"]
    show ?thesis
      by (auto simp: prepare_credit_def Let_def getIncreasedExpectedDebt_ok [OF assms(1)] g
          expected_debt_def split: if_splits option.splits)
  qed
qed

text \<open>
  whenever a credit is prepared, the debt towards the peer with everything reserved, and
  with the surplus counted as debt, is within the peer's payment threshold plus one second of
  refreshment: no interleaving of prepared credits can exceed it.
\<close>

theorem PrepareCredit_within_threshold:
  assumes "store_ok (ac_store a)" "0 \<le> ac_refreshRate a"
    and "PrepareCredit clock got peer price own a = (Inr c, a')"
  shows "expected_debt a' peer (peer_rec a' peer) \<le>
    ap_paymentThreshold (peer_rec a peer) + ac_refreshRate a"
proof -
  obtain p a0 where g: "getAccountingPeer peer a = (p, a0)" by (metis prod.exhaust)
  note r = peer_rec_get [OF g] and s = getAccountingPeer_store [OF g]
  have rate: "ac_refreshRate a0 = ac_refreshRate a"
    using g by (auto simp: getAccountingPeer_def put_peer_def split: option.splits)
  from assms(3) g obtain p' a1 where b: "prepare_credit clock got peer price own p a0 = (Inr c, p', a1)"
    "a' = put_peer peer p' a1"
    by (auto simp: PrepareCredit_def locked_def split: prod.splits)
  have "store_ok (ac_store a0)" "0 \<le> ac_refreshRate a0" using assms(1,2) s rate by simp_all
  from prepare_credit_limit [OF this b(1)] r rate show ?thesis
    by (simp add: b(2) peer_rec_put expected_debt_def)
qed

theorem PrepareCredit_within_threshold_witness:
  "let a = acc_Connect peer1 True node0 in
   expected_debt (snd (PrepareCredit clock0 True peer1 9000 True a)) peer1
     (peer_rec (snd (PrepareCredit clock0 True peer1 9000 True a)) peer1) \<le>
   ap_paymentThreshold (peer_rec a peer1) + ac_refreshRate a"
proof -
  let ?a = "acc_Connect peer1 True node0"
  have "fst (PrepareCredit clock0 True peer1 9000 True ?a) =
      Inr \<lparr>ca_price = 9000, ca_peer = peer1, ca_originated = True, ca_applied = False\<rparr>"
    by code_simp
  then obtain a' where p: "PrepareCredit clock0 True peer1 9000 True ?a =
      (Inr \<lparr>ca_price = 9000, ca_peer = peer1, ca_originated = True, ca_applied = False\<rparr>, a')"
    by (metis prod.collapse)
  have "store_ok (ac_store ?a)"
    using acc_exec_step [of node0 "OpConnect peer1 True"] by (simp add: empty_kv_ok)
  moreover have "0 \<le> ac_refreshRate ?a" by code_simp
  ultimately show ?thesis using PrepareCredit_within_threshold [OF _ _ p] p by (simp add: Let_def)
qed

section \<open>Payments\<close>

text \<open>
  \<open>settle\<close> starts a payment only when none is under way, for at least the minimum and at
  most what the originated requests cost; with the time-based allowance and the shadow reserve
  taken off, the debt covers it; and it is added to the shadow reserve before it is sent.
\<close>

theorem settle_payment_bounds:
  assumes "store_ok (ac_store a)" "settle clock peer p a = (r, p', a')"
    and "(payee, amount) \<in> set (new_pays a a')"
  shows "payee = peer \<and> \<not> ap_paymentOngoing p \<and> ap_paymentOngoing p' \<and>
    ac_minimumPayment a \<le> amount \<and> amount \<le> - orig (ac_store a) peer \<and>
    amount \<le> - bal (ac_store a) peer - ap_shadow p -
      go_div (clock 1 - ap_refreshTimestamp p) 1000 * ac_refreshRate a \<and>
    ap_shadow p' = ap_shadow p + amount \<and>
    unix (clock 0) - ap_lastFailure p > failedSettlementInterval"
proof -
  have pay: "payee = peer \<and> ap_paymentOngoing p' \<and> ac_minimumPayment b \<le> amount \<and>
      amount \<le> - orig (ac_store b) peer \<and>
      amount \<le> - bal (ac_store b) peer - ap_shadow q -
        go_div (clock 1 - ap_refreshTimestamp q) 1000 * ac_refreshRate b \<and>
      ap_shadow p' = ap_shadow q + amount"
    if s: "settle_payment clock peer q b = (r, p', a')" and b: "store_ok (ac_store b)"
      and x: "(payee, amount) \<in> set (new_pays b a')" for q b
  proof -
    have "new_pays b (add_call c (b\<lparr>ac_wg := n\<rparr>)) = pays_of [c]" for c n
      by (simp add: new_pays_def add_call_def)
    moreover have "new_pays b b = []" by (simp add: new_pays_def)
    ultimately show ?thesis
      using s b x by (auto simp: settle_payment_def Let_def split: if_splits)
  qed
  have refresh: "new_pays (add_call (CallRefresh peer amt) a) a' = new_pays a a'"
    if "frame (add_call (CallRefresh peer amt) a) a' extra" for amt extra
    using that by (simp add: new_pays_def frame_def add_call_def)
  have none: "new_pays a a = []" "new_pays a (add_call (CallRefresh peer amt) a) = []" for amt
    by (simp_all add: new_pays_def add_call_def)
  have keep: "ac_refreshRate (add_call c a) = ac_refreshRate a"
    "ac_minimumPayment (add_call c a) = ac_minimumPayment a" for c
    by (simp_all add: add_call_def)
  obtain amt where am: "shadowBalance a peer p = Inr amt" using shadowBalance_ok [OF assms(1)] by auto
  let ?fresh = "clock 0 - ap_refreshTimestamp p > 999 \<and> \<not> ap_refreshOngoing p"
  let ?q = "if ?fresh then p\<lparr>ap_refreshOngoing := True\<rparr> else p"
  let ?b = "if ?fresh then add_call (CallRefresh peer amt) a else a"
  from assms(2,3) am none have g: "ac_hasPay a" "\<not> ap_paymentOngoing p"
    "unix (clock 0) - ap_lastFailure p > failedSettlementInterval"
    "settle_payment clock peer ?q ?b = (r, p', a')"
    by (auto simp: settle_def Let_def add_call_def split: if_splits)
  have "\<exists>extra. frame ?b a' extra"
    using settle_payment_reserves [OF g(4)] g(2) by (auto simp: reserves_def)
  then have x: "(payee, amount) \<in> set (new_pays ?b a')"
    using assms(3) refresh by auto
  have "store_ok (ac_store ?b)" using assms(1) by simp
  from pay [OF g(4) this x] g show ?thesis by (auto simp: keep split: if_splits)
qed

text \<open>The node after it has consumed for 9,000 at one peer: a payment is under way.\<close>

definition credit1 :: credit_action where
  "credit1 = \<lparr>ca_price = 9000, ca_peer = peer1, ca_originated = True, ca_applied = False\<rparr>"

definition node_paying :: accounting where
  "node_paying = snd (creditAction_Apply clock0 credit1
     (snd (PrepareCredit clock0 True peer1 9000 True
       (NotifyRefreshmentSent peer1 0 0 999000 0 None (acc_Connect peer1 True node0)))))"

theorem settle_payment_bounds_witness:
  "ap_paymentOngoing (fst (snd (settle clock0 peer1 (peer_rec node0 peer1)
     (node0\<lparr>ac_store := \<lparr>kv_data = [(peerBalanceKey peer1, -460000),
        (originatedBalanceKey peer1, -9000)], kv_fail = \<lambda>_ _. False\<rparr>\<rparr>))))"
proof -
  let ?s = "\<lparr>kv_data = [(peerBalanceKey peer1, -460000), (originatedBalanceKey peer1, -9000)],
      kv_fail = \<lambda>_ _. False\<rparr> :: int kv"
  let ?a = "node0\<lparr>ac_store := ?s\<rparr>"
  have keys: "peerBalanceKey peer1 < originatedBalanceKey peer1" by code_simp
  have "store_ok ?s"
    using keys by (simp add: store_ok_def kv_ok_def kv_reliable_def surp_def value_of_def kv_map_def)
  moreover obtain r p' a' where s: "settle clock0 peer1 (peer_rec node0 peer1) ?a = (r, p', a')"
    by (metis prod.exhaust)
  moreover have "new_pays ?a (snd (snd (settle clock0 peer1 (peer_rec node0 peer1) ?a))) =
      [(peer1, 9000)]"
    by code_simp
  ultimately show ?thesis
    using settle_payment_bounds [of ?a clock0 peer1 "peer_rec node0 peer1" r p' a' peer1 9000]
    by simp
qed

text \<open>
  a received payment takes exactly its amount off the compensated balance and cannot put
  us into debt: a balance that is not positive stays, a positive one never falls below zero.
\<close>

theorem NotifyPaymentReceived_no_debt:
  assumes "store_ok (ac_store a)" "0 \<le> amount"
  shows "fst (NotifyPaymentReceived peer amount a) = None \<and>
    (let s = ac_store a; s' = ac_store (snd (NotifyPaymentReceived peer amount a)) in
     ledger s' peer = ledger s peer - amount \<and>
     bal s' peer = (if bal s peer \<le> 0 then bal s peer else max 0 (bal s peer - amount)) \<and>
     surp s peer \<le> surp s' peer)"
proof (rule locked_res [where peer = peer and f = "payment_received peer amount" and a = a])
  fix p a0 p' a1
  assume s: "ac_store a0 = ac_store a"
    and f: "payment_received peer amount p a0 =
      (fst (locked peer (payment_received peer amount) a), p', a1)"
    and r: "snd (locked peer (payment_received peer amount) a) = put_peer peer p' a1"
  have "store_ok (ac_store a0)" using assms(1) s by simp
  note eff = payment_received_store [OF this assms(2) f]
  have "ledger (ac_store a1) peer = ledger (ac_store a) peer - amount"
    using eff s by (auto simp: adds_def)
  then show ?thesis
    using eff [unfolded s] r assms(2)
    by (auto simp: NotifyPaymentReceived_def Let_def ledger_def max_def split: if_splits)
qed

theorem NotifyPaymentReceived_no_debt_witness:
  "fst (NotifyPaymentReceived peer1 500 node0) = None"
  using NotifyPaymentReceived_no_debt [of node0 500 peer1] by (simp add: empty_kv_ok)

section \<open>Disconnection above the limit\<close>

lemma increaseBalance_rates:
  "increaseBalance peer price a = (r, a') \<Longrightarrow>
     ac_refreshRate a' = ac_refreshRate a \<and> ac_lightRefreshRate a' = ac_lightRefreshRate a"
  by (auto simp: increaseBalance_def debit_balance_def decreaseOriginatedBalanceTo_def store_put_def
      Let_def split: sum.splits if_splits)

text \<open>
  applying a debit asks to block the peer exactly when its new balance reaches the
  disconnect limit plus at most one second of the refreshment rate of its kind of node.
\<close>

theorem debitAction_Apply_disconnects:
  assumes "store_ok (ac_store a)" "\<not> da_applied d"
    and "debitAction_Apply clock d a = ((r, d'), a')" "da_applied d'"
  shows "(\<exists>t. r = Some (ErrBlockPeer t)) \<longleftrightarrow>
    (let p = peer_rec a (da_peer d) in
     bal (ac_store a') (da_peer d) \<ge> ap_disconnectLimit p +
       min (unix (clock 0) - ap_refreshReceived p) 1 *
         (if ap_fullNode p then ac_refreshRate a else ac_lightRefreshRate a))"
proof -
  obtain p a0 where g: "getAccountingPeer (da_peer d) a = (p, a0)" by (metis prod.exhaust)
  note rec = peer_rec_get [OF g] and s = getAccountingPeer_store [OF g]
  have rate: "ac_refreshRate a0 = ac_refreshRate a" "ac_lightRefreshRate a0 = ac_lightRefreshRate a"
    using g by (auto simp: getAccountingPeer_def put_peer_def split: option.splits)
  from assms(3) g obtain p' a1 where b: "apply_debit clock d p a0 = ((r, d'), p', a1)"
    "a' = put_peer (da_peer d) p' a1"
    by (auto simp: debitAction_Apply_def locked_def split: prod.splits)
  obtain r1 a2 where i: "increaseBalance (da_peer d) (da_price d) a0 = (r1, a2)"
    by (metis prod.exhaust)
  have "store_ok (ac_store a0)" using assms(1) s by simp
  note inc = increaseBalance_adds [OF this i]
  obtain n where n: "r1 = Inr n"
    using b(1) i assms(2,4) by (cases r1) (auto simp: apply_debit_def Let_def)
  have rate2: "ac_refreshRate a2 = ac_refreshRate a0" "ac_lightRefreshRate a2 = ac_lightRefreshRate a0"
    using increaseBalance_rates [OF i] by auto
  show ?thesis
    using b i n inc rec rate rate2
    by (auto simp: apply_debit_def Let_def min_def split: if_splits)
qed

text \<open>A debit of 13,000 against a limit of 12,500 and one second of refreshment at 450.\<close>

definition debit1 :: debit_action where
  "debit1 = \<lparr>da_price = 13000, da_peer = peer1, da_applied = False\<rparr>"

theorem debitAction_Apply_disconnects_witness:
  "\<exists>t. fst (fst (debitAction_Apply clock0 debit1 (acc_Connect peer1 True node0))) =
     Some (ErrBlockPeer t)"
proof -
  let ?a = "acc_Connect peer1 True node0"
  obtain r d' a' where e: "debitAction_Apply clock0 debit1 ?a = ((r, d'), a')" by (metis prod.exhaust)
  have "da_applied (snd (fst (debitAction_Apply clock0 debit1 ?a)))" by code_simp
  moreover have "\<not> da_applied debit1" by (simp add: debit1_def)
  moreover have "store_ok (ac_store ?a)"
    using acc_exec_step [of node0 "OpConnect peer1 True"] by (simp add: empty_kv_ok)
  moreover have "let p = peer_rec ?a peer1 in
     bal (ac_store (snd (debitAction_Apply clock0 debit1 ?a))) peer1 \<ge> ap_disconnectLimit p +
       min (unix (clock0 0) - ap_refreshReceived p) 1 *
         (if ap_fullNode p then ac_refreshRate ?a else ac_lightRefreshRate ?a)"
    by code_simp
  moreover have "da_peer debit1 = peer1" by (simp add: debit1_def)
  ultimately show ?thesis using debitAction_Apply_disconnects [of ?a debit1 clock0 r d' a'] e by simp
qed

text \<open>
  a peer that is block-listed stays so for at least the time in which refreshments pay
  off what it owes or may come to owe, when the payment threshold is not below the rate.
\<close>

theorem blocklistUntil_covers_debt:
  assumes "0 < ac_refreshRate a" "ac_refreshRate a \<le> ac_paymentThreshold a"
    and "peerLatentDebt a peer p = Inr debt"
    and "max debt (ac_refreshRate a) + ac_paymentThreshold a < 2 ^ 63"
  shows "\<exists>k. blocklistUntil a peer p 1 = Inr k \<and> 1 \<le> k \<and> debt \<le> k * ac_refreshRate a"
proof -
  let ?r = "ac_refreshRate a" and ?d = "max debt (ac_refreshRate a) + ac_paymentThreshold a"
  let ?k = "?d div ?r"
  have r: "0 < ?r" by fact
  have m: "(if debt < ?r then ?r else debt) = max debt ?r" by auto
  have k: "?k * ?r > ?d - ?r" using r by (smt (verit) minus_mod_eq_div_mult pos_mod_bound)
  have "1 * ?r \<le> ?d" using assms(1,2) by (simp add: max_def)
  then have "1 \<le> ?k" using r by (metis zdiv_mono1 nonzero_mult_div_cancel_right order_less_irrefl)
  moreover have "?k \<le> ?d" using r \<open>1 * ?r \<le> ?d\<close> zdiv_mono2 [of ?d 1 ?r] by simp
  ultimately have "to_int64 ?k = ?k" using assms(4) by (simp add: to_int64_def)
  then have "blocklistUntil a peer p 1 = Inr ?k"
    using assms(3) unfolding blocklistUntil_def by (simp add: Let_def m)
  moreover have "debt \<le> ?k * ?r" using k assms(2) by linarith
  ultimately show ?thesis using \<open>1 \<le> ?k\<close> by auto
qed

theorem blocklistUntil_covers_debt_witness:
  "\<exists>k. blocklistUntil node0 peer1 (peer_rec node0 peer1) 1 = Inr k \<and> 1 \<le> k"
proof -
  have "peerLatentDebt node0 peer1 (peer_rec node0 peer1) = Inr 0" by code_simp
  from blocklistUntil_covers_debt [OF _ _ this] show ?thesis
    by (auto simp: node0_def SetPayFunc_def NewAccounting_def Let_def)
qed

section \<open>The originated balance\<close>

text \<open>The originated balance is never deeper in debt than the balance.\<close>

definition orig_bounded :: "int kv \<Rightarrow> bool" where
  "orig_bounded s \<longleftrightarrow> (\<forall>peer. min (bal s peer) 0 \<le> orig s peer)"

text \<open>Operations on amounts as the settlements produce them, without a reconnection.\<close>

fun op_regular :: "acc_op \<Rightarrow> bool" where
  "op_regular (OpApplyCredit clock c) \<longleftrightarrow> 0 \<le> ca_price c"
| "op_regular (OpApplyDebit clock d) \<longleftrightarrow> 0 \<le> da_price d"
| "op_regular (OpPaymentSent clock peer amount failed) \<longleftrightarrow> 0 \<le> amount"
| "op_regular (OpPaymentReceived peer amount) \<longleftrightarrow> 0 \<le> amount"
| "op_regular (OpRefreshmentReceived peer amount ts) \<longleftrightarrow> 0 \<le> amount"
| "op_regular (OpConnect peer full) \<longleftrightarrow> False"
| "op_regular _ \<longleftrightarrow> True"

lemma orig_bounded_at:
  assumes "orig_bounded s" "\<And>q. q \<noteq> peer \<Longrightarrow> bal s' q = bal s q \<and> orig s' q = orig s q"
    and "min (bal s' peer) 0 \<le> orig s' peer"
  shows "orig_bounded s'"
  unfolding orig_bounded_def
proof
  fix q
  show "min (bal s' q) 0 \<le> orig s' q"
    using assms by (cases "q = peer") (auto simp: orig_bounded_def)
qed

lemma orig_bounded_surplus:
  "store_ok s \<Longrightarrow> orig_bounded (kv_write (peerSurplusBalanceKey peer) v s) = orig_bounded s"
  by (simp add: orig_bounded_def)

lemma apply_credit_bounded:
  assumes "store_ok (ac_store a)" "apply_credit clock c p a = ((r, c'), p', a')"
    and "orig_bounded (ac_store a)" "0 \<le> ca_price c"
  shows "orig_bounded (ac_store a')"
proof -
  have "min (bal (ac_store a) (ca_peer c)) 0 \<le> orig (ac_store a) (ca_peer c)"
    using assms(3) by (simp add: orig_bounded_def)
  with apply_credit_store [OF assms(1,2)] assms show ?thesis
    by (intro orig_bounded_at [OF assms(3), of "ca_peer c"])
      (auto simp: Let_def store_reads split: if_splits)
qed

lemma decreaseTo_bounded:
  assumes "store_ok s" "orig_bounded s" "ac_store b = kv_write (peerBalanceKey peer) v s"
  shows "orig_bounded (ac_store (snd (decreaseOriginatedBalanceTo peer v b)))"
proof -
  have "store_ok (ac_store b)" using assms(1,3) by (simp add: store_reads)
  from decreaseTo_store [OF this, of peer v] assms show ?thesis
    by (intro orig_bounded_at [OF assms(2), of peer]) (auto simp: store_reads)
qed

lemma debit_balance_bounded:
  assumes "store_ok (ac_store a)" "orig_bounded (ac_store a)" "debit_balance peer cost a = (r, a')"
  shows "orig_bounded (ac_store a')"
  using assms decreaseTo_bounded [OF assms(1,2)]
  by (auto simp: debit_balance_def Let_def store_reads)

lemma increaseBalance_bounded:
  assumes "store_ok (ac_store a)" "orig_bounded (ac_store a)" "increaseBalance peer price a = (r, a')"
  shows "orig_bounded (ac_store a')"
proof (cases "surp (ac_store a) peer > 0")
  case False
  with assms debit_balance_bounded [OF assms(1,2)] show ?thesis
    by (auto simp: increaseBalance_def Let_def)
next
  case True
  let ?a = "a\<lparr>ac_store := kv_write (peerSurplusBalanceKey peer) 0 (ac_store a)\<rparr>"
  have "store_ok (ac_store ?a)" "orig_bounded (ac_store ?a)"
    using assms(1,2) by (simp_all add: store_reads orig_bounded_surplus)
  from debit_balance_bounded [OF this] True assms show ?thesis
    by (auto simp: increaseBalance_def Let_def store_reads orig_bounded_surplus split: if_splits)
qed

lemma apply_debit_bounded:
  assumes "store_ok (ac_store a)" "orig_bounded (ac_store a)" "apply_debit clock d p a = ((r, d'), p', a')"
  shows "orig_bounded (ac_store a')"
proof -
  obtain r1 a1 where i: "increaseBalance (da_peer d) (da_price d) a = (r1, a1)"
    by (metis prod.exhaust)
  with assms(3) have "a' = a1" by (auto simp: apply_debit_def Let_def split: sum.splits if_splits)
  with increaseBalance_bounded [OF assms(1,2) i] show ?thesis by simp
qed

lemma payment_sent_bounded:
  assumes "store_ok (ac_store a)" "orig_bounded (ac_store a)" "0 \<le> amount"
    and "payment_sent clock peer amount failed p a = (r, p', a')"
  shows "orig_bounded (ac_store a')"
proof (cases failed)
  case True
  with assms show ?thesis by (auto simp: payment_sent_def Let_def)
next
  case False
  let ?b = "a\<lparr>ac_store := kv_write (peerBalanceKey peer) (bal (ac_store a) peer + amount) (ac_store a)\<rparr>"
  have "store_ok (ac_store ?b)" using assms(1) by (simp add: store_reads)
  note by_amount = decreaseBy_store [OF this, of peer amount]
  have "min (bal (ac_store a) peer) 0 \<le> orig (ac_store a) peer"
    using assms(2) by (simp add: orig_bounded_def)
  with by_amount False assms show ?thesis
    by (intro orig_bounded_at [OF assms(2), of peer])
      (auto simp: payment_sent_def Let_def store_reads)
qed

lemma received_bounded:
  assumes "store_ok (ac_store a)" "orig_bounded (ac_store a)" "0 \<le> amount"
  shows "payment_received peer amount p a = (r, p', a') \<Longrightarrow> orig_bounded (ac_store a')"
    and "refreshment_received peer amount ts p a = (r', p', a') \<Longrightarrow> orig_bounded (ac_store a')"
proof -
  obtain p1 a1 where c: "count_repay peer amount p a = (p1, a1)" by (metis prod.exhaust)
  from count_repay_cases [OF c] have s: "ac_store a1 = ac_store a" .
  have o: "min (bal (ac_store a) peer) 0 \<le> orig (ac_store a) peer"
    using assms(2) by (simp add: orig_bounded_def)
  show "payment_received peer amount p a = (r, p', a') \<Longrightarrow> orig_bounded (ac_store a')"
    using c assms s o
    by (intro orig_bounded_at [OF assms(2), of peer])
      (auto simp: payment_received_def Let_def store_reads add_surplus_store split: if_splits)
  show "refreshment_received peer amount ts p a = (r', p', a') \<Longrightarrow> orig_bounded (ac_store a')"
    using c assms s o
    by (intro orig_bounded_at [OF assms(2), of peer])
      (auto simp: refreshment_received_def Let_def store_reads)
qed

lemma refreshment_sent_bounded:
  assumes "store_ok (ac_store a)" "orig_bounded (ac_store a)"
    and "refreshment_sent peer attempted amount ts interval err p a = (r, p', a')"
  shows "orig_bounded (ac_store a')"
  using assms decreaseTo_bounded [OF assms(1,2)]
  by (auto simp: refreshment_sent_def Let_def store_reads split: option.splits if_splits)

lemma locked_bounded:
  assumes "orig_bounded (ac_store a)" "store_ok (ac_store a)"
    and "\<And>p a0 r p' a1. store_ok (ac_store a0) \<Longrightarrow> orig_bounded (ac_store a0) \<Longrightarrow>
      f p a0 = (r, p', a1) \<Longrightarrow> orig_bounded (ac_store a1)"
  shows "orig_bounded (ac_store (snd (locked peer f a)))"
proof (rule locked_res [where peer = peer and f = f and a = a])
  fix p a0 p' a1
  assume "ac_store a0 = ac_store a"
    "f p a0 = (fst (locked peer f a), p', a1)" "snd (locked peer f a) = put_peer peer p' a1"
  with assms(1,2) assms(3) [of a0 p _ p' a1] show ?thesis by simp
qed

lemma acc_exec_bounded:
  assumes "store_ok (ac_store a)" "orig_bounded (ac_store a)" "op_regular op"
  shows "orig_bounded (ac_store (acc_exec op a))"
proof (cases op)
  case (OpApplyCredit clock c)
  have "orig_bounded (ac_store (snd (creditAction_Apply clock c a)))"
    unfolding creditAction_Apply_def using assms(3) OpApplyCredit
    by (intro locked_bounded [OF assms(2,1)]) (metis apply_credit_bounded op_regular.simps(1) prod.exhaust)
  with OpApplyCredit show ?thesis by simp
next
  case (OpApplyDebit clock d)
  have "orig_bounded (ac_store (snd (debitAction_Apply clock d a)))"
    unfolding debitAction_Apply_def
    by (intro locked_bounded [OF assms(2,1)]) (metis apply_debit_bounded prod.exhaust)
  with OpApplyDebit show ?thesis by simp
next
  case (OpPaymentSent clock peer amount failed)
  have "orig_bounded (ac_store (snd (locked peer (payment_sent clock peer amount failed) a)))"
    using assms(3) OpPaymentSent
    by (intro locked_bounded [OF assms(2,1)]) (metis payment_sent_bounded op_regular.simps(3))
  with OpPaymentSent show ?thesis by (simp add: NotifyPaymentSent_def Let_def)
next
  case (OpPaymentReceived peer amount)
  have "orig_bounded (ac_store (snd (NotifyPaymentReceived peer amount a)))"
    unfolding NotifyPaymentReceived_def using assms(3) OpPaymentReceived
    by (intro locked_bounded [OF assms(2,1)]) (metis received_bounded(1) op_regular.simps(4))
  with OpPaymentReceived show ?thesis by simp
next
  case (OpRefreshmentSent peer attempted amount ts interval err)
  have "orig_bounded (ac_store (NotifyRefreshmentSent peer attempted amount ts interval err a))"
    unfolding NotifyRefreshmentSent_def
    by (intro locked_bounded [OF assms(2,1)]) (metis refreshment_sent_bounded)
  with OpRefreshmentSent show ?thesis by simp
next
  case (OpRefreshmentReceived peer amount ts)
  have "orig_bounded (ac_store (snd (NotifyRefreshmentReceived peer amount ts a)))"
    unfolding NotifyRefreshmentReceived_def using assms(3) OpRefreshmentReceived
    by (intro locked_bounded [OF assms(2,1)]) (metis received_bounded(2) op_regular.simps(5))
  with OpRefreshmentReceived show ?thesis by simp
qed (use assms in \<open>simp_all add: idle_stores\<close>)

lemma op_regular_ok: "op_regular op \<Longrightarrow> op_ok op"
  by (cases op) simp_all

text \<open>
  through any sequence of operations without a reconnection, the part of the debt that
  comes from the node's own requests never exceeds the debt: the originated balance stays at
  or above the balance, cut at zero.
\<close>

theorem originated_within_balance:
  assumes "store_ok (ac_store a)" "orig_bounded (ac_store a)" "list_all op_regular ops"
  shows "orig_bounded (ac_store (acc_run ops a))"
  using assms
proof (induction ops arbitrary: a)
  case (Cons op ops)
  from Cons.prems have "store_ok (ac_store (acc_exec op a))" "orig_bounded (ac_store (acc_exec op a))"
    using acc_exec_step [of a op] acc_exec_bounded [of a op] op_regular_ok by auto
  with Cons show ?case by simp
qed simp

theorem originated_within_balance_witness:
  "orig_bounded (ac_store (acc_run [OpApplyCredit clock0 credit1, OpPaymentReceived peer1 70] node0))"
  by (rule originated_within_balance)
    (simp_all add: empty_kv_ok credit1_def, simp add: orig_bounded_def empty_kv_def bal_def orig_def
      value_of_def kv_map_def)

section \<open>Reconnection\<close>

lemma node_paying_run:
  "node_paying = acc_run [OpConnect peer1 True, OpRefreshmentSent peer1 0 0 999000 0 None,
     OpPrepareCredit clock0 True peer1 9000 True, OpApplyCredit clock0 credit1] node0"
  by (simp add: node_paying_def)

lemma node_paying_ok: "store_ok (ac_store node_paying)"
  unfolding node_paying_run
  by (rule acc_run_ledger [THEN conjunct1]) (simp_all add: empty_kv_ok)

lemma Connect_balances:
  assumes "store_ok (ac_store a)"
  shows "bal (ac_store (acc_Connect peer full a)) peer = 0"
    "orig (ac_store (acc_Connect peer full a)) q = orig (ac_store a) q"
    "store_ok (ac_store (acc_Connect peer full a))"
proof -
  obtain p' a0 a1 where f: "ac_store a0 = ac_store a"
    "acc_Connect peer full a = put_peer peer p' a1"
    "a1 = put_logged (peerSurplusBalanceKey peer) 0 (put_logged (peerBalanceKey peer) 0 a0)"
    by (rule locked_res [where peer = peer and f = "connect_peer peer full" and a = a])
      (auto simp: acc_Connect_def connect_peer_def Let_def)
  then show "bal (ac_store (acc_Connect peer full a)) peer = 0"
    "orig (ac_store (acc_Connect peer full a)) q = orig (ac_store a) q"
    "store_ok (ac_store (acc_Connect peer full a))"
    using assms by (simp_all add: store_reads)
qed

lemma failed_payment_store:
  "ac_store (NotifyPaymentSent clock peer amount True a) = ac_store a"
  using locked_store_eq [of "payment_sent clock peer amount True" peer a]
  by (simp add: NotifyPaymentSent_def Let_def payment_sent_def)

text \<open>
  \<open>Connect\<close> clears the shadow reserve although a payment of the earlier connection may
  still be under way; when that payment is reported, its amount is taken off again and the
  shadow reserve is negative. The originated balance is not cleared, and is then deeper in
  debt than the balance.
\<close>

theorem reconnect_breaks_reserves:
  "pays_of (ac_calls node_paying) = [(peer1, 8550)] \<and>
   ap_shadow (peer_rec node_paying peer1) = 8550 \<and>
   (let a = acc_Connect peer1 True (acc_Disconnect peer1 node_paying);
        a' = NotifyPaymentSent clock0 peer1 8550 True a
    in ap_shadow (peer_rec a' peer1) = -8550 \<and> ap_reserved (peer_rec a' peer1) = 0 \<and>
       bal (ac_store a') peer1 = 0 \<and> orig (ac_store a') peer1 = -9000)"
proof -
  let ?a = "acc_Connect peer1 True (acc_Disconnect peer1 node_paying)"
  have calls: "pays_of (ac_calls node_paying) = [(peer1, 8550)]"
    and shadow: "ap_shadow (peer_rec node_paying peer1) = 8550"
    and orig: "orig (ac_store node_paying) peer1 = -9000" by code_simp+
  have ok: "store_ok (ac_store (acc_Disconnect peer1 node_paying))"
    by (simp add: idle_stores node_paying_ok)
  show ?thesis
    using calls shadow orig connect_rec [of "acc_Disconnect peer1 node_paying" peer1 True]
      payment_sent_rec [of ?a peer1 clock0 8550 True] Connect_balances [OF ok, of peer1 True]
    by (simp add: Let_def failed_payment_store idle_stores)
qed

end
