(* ===== verification/Codecs.thy ===== *)
theory Codecs
  imports Prelude
begin

text \<open>
  The contract of the hand-written binary encodings of the repository (stamps, batches, chunk
  locations): a fixed length, and decoding inverts encoding on well-formed values. The client
  lemmas follow from it alone: encoding is injective, and a stream of encoded values splits
  back into them.
\<close>

locale byte_codec =
  fixes ok :: "'a \<Rightarrow> bool" and enc :: "'a \<Rightarrow> bytes" and dec :: "bytes \<Rightarrow> 'e + 'a"
  assumes dec_enc: "ok x \<Longrightarrow> dec (enc x) = Inr x"
begin

lemma enc_inj: "ok x \<Longrightarrow> ok y \<Longrightarrow> enc x = enc y \<longleftrightarrow> x = y"
  by (metis dec_enc sum.inject(2))

end

locale fixed_codec = byte_codec +
  fixes size :: nat
  assumes enc_size: "ok x \<Longrightarrow> length (enc x) = size" and size_pos: "0 < size"
begin

fun dec_stream :: "nat \<Rightarrow> bytes \<Rightarrow> 'b + 'a list" where
  "dec_stream 0 bs = Inr []"
| "dec_stream (Suc n) bs =
     (case dec (take size bs) of
        Inl e \<Rightarrow> Inl e
      | Inr x \<Rightarrow> map_sum id (Cons x) (dec_stream n (drop size bs)))"

lemma dec_stream_enc:
  "list_all ok xs \<Longrightarrow> dec_stream (length xs) (concat (map enc xs)) = Inr xs"
  by (induction xs) (simp_all add: dec_enc enc_size)

lemma enc_prefix: "ok x \<Longrightarrow> ok y \<Longrightarrow> enc x @ r = enc y @ s \<Longrightarrow> x = y \<and> r = s"
  by (metis append_eq_append_conv enc_inj enc_size)

end

end
