(* ===== verification/Postage.thy ===== *)
theory Postage
  imports Swarm State_Store Codecs
begin

text \<open>
  \<open>pkg/postage\<close>: batches and stamps with their encodings and the validity of a stamp, the
  issuer that counts stamps per collision bucket, the stamper that signs them, and the service
  that keeps the issuers. From \<open>pkg/crypto\<close> the derivation of addresses from public keys.

  Signatures, public key encoding and the hash functions are third-party code: they are the
  fields of a record, a parameter of the definitions that use them. The encoding of issuers
  in the state store (msgpack) is third-party code too; the store holds them decoded.
\<close>

section \<open>Cryptography (crypto.go)\<close>

datatype crypto_error = ErrBadHashLength | ErrInvalidPublicKey | ErrRecover | ErrSign

record 'k crypto =
  cr_keccak :: "bytes \<Rightarrow> bytes"
  cr_hasher :: "bytes \<Rightarrow> bytes"
  cr_marshal :: "'k \<Rightarrow> bytes option"
  cr_recover :: "bytes \<Rightarrow> bytes \<Rightarrow> 'k option"

definition LegacyKeccak256 :: "'k crypto \<Rightarrow> bytes \<Rightarrow> bytes" where
  "LegacyKeccak256 cr data = cr_keccak cr data"

text \<open>\<open>cr_marshal\<close> is undefined for a key whose coordinates are nil.\<close>

definition NewEthereumAddress :: "'k crypto \<Rightarrow> 'k \<Rightarrow> crypto_error + bytes" where
  "NewEthereumAddress cr p =
     (case cr_marshal cr p of
        None \<Rightarrow> Inl ErrInvalidPublicKey
      | Some pubBytes \<Rightarrow> Inr (drop 12 (LegacyKeccak256 cr (drop 1 pubBytes))))"

definition NewOverlayFromEthereumAddress ::
  "'k crypto \<Rightarrow> bytes \<Rightarrow> u64 \<Rightarrow> bytes \<Rightarrow> crypto_error + address" where
  "NewOverlayFromEthereumAddress cr ethAddr networkID nonce =
     (let netIDBytes = le_of_nat 8 (unat networkID);
          data = ethAddr @ netIDBytes;
          data = data @ nonce;
          h = LegacyKeccak256 cr data
      in Inr (NewAddress h))"

definition NewOverlayAddress ::
  "'k crypto \<Rightarrow> 'k \<Rightarrow> u64 \<Rightarrow> bytes \<Rightarrow> crypto_error + address" where
  "NewOverlayAddress cr p networkID nonce =
     (case NewEthereumAddress cr p of
        Inl err \<Rightarrow> Inl err
      | Inr ethAddr \<Rightarrow>
          if length nonce \<noteq> 32 then Inl ErrBadHashLength
          else NewOverlayFromEthereumAddress cr ethAddr networkID nonce)"

section \<open>Batches (batch.go)\<close>

record batch =
  b_ID :: bytes
  b_Value :: nat
  b_Start :: u64
  b_Owner :: bytes
  b_Depth :: u8
  b_BucketDepth :: u8
  b_Immutable :: bool
  b_StorageRadius :: u8

datatype postage_error =
    ErrPanic
  | ErrStampInvalid
  | ErrOwnerMismatch
  | ErrInvalidIndex
  | ErrBucketMismatch
  | ErrCrypto crypto_error
  | ErrBatchNotFound
  | ErrBatchStore
  | ErrBucketFull
  | ErrNotFoundIssuer
  | ErrNotUsable

text \<open>
  A value of more than 64 bytes slices at a negative index, which panics; one of 33 to 64
  bytes runs over the ID.
\<close>

definition batch_MarshalBinary :: "batch \<Rightarrow> postage_error + bytes" where
  "batch_MarshalBinary b =
     (let out = replicate 96 0;
          out = copy_at out 0 (b_ID b);
          val = nat_bytes (b_Value b)
      in if length val > 64 then Inl ErrPanic
         else
           let out = copy_at out (64 - length val) val;
               out = copy_at out 64 (be_of_nat 8 (unat (b_Start b)));
               out = copy_at out 72 (b_Owner b);
               out = out [92 := b_BucketDepth b];
               out = out [93 := b_Depth b];
               out = (if b_Immutable b then out [94 := 1] else out);
               out = out [95 := b_StorageRadius b]
           in Inr out)"

definition batch_UnmarshalBinary :: "bytes \<Rightarrow> postage_error + batch" where
  "batch_UnmarshalBinary buf =
     (if length buf < 96 then Inl ErrPanic
      else Inr \<lparr>b_ID = slice 0 32 buf,
                b_Value = be_to_nat (slice 32 64 buf),
                b_Start = of_nat (be_to_nat (slice 64 72 buf)),
                b_Owner = slice 72 92 buf,
                b_Depth = buf ! 93,
                b_BucketDepth = buf ! 92,
                b_Immutable = (buf ! 94 > 0),
                b_StorageRadius = buf ! 95\<rparr>)"

section \<open>Stamps (stamp.go)\<close>

definition StampSize :: nat where "StampSize = 113"
definition IndexSize :: nat where "IndexSize = 8"

record stamp =
  s_batchID :: bytes
  s_index :: bytes
  s_timestamp :: bytes
  s_sig :: bytes

definition NewStamp :: "bytes \<Rightarrow> bytes \<Rightarrow> bytes \<Rightarrow> bytes \<Rightarrow> stamp" where
  "NewStamp batchID index timestamp sig =
     \<lparr>s_batchID = batchID, s_index = index, s_timestamp = timestamp, s_sig = sig\<rparr>"

text \<open>\<open>copy(buf[32:40], index)\<close> is cut at the end of the slice.\<close>

definition stamp_MarshalBinary :: "stamp \<Rightarrow> bytes" where
  "stamp_MarshalBinary s =
     (let buf = replicate StampSize 0;
          buf = copy_at buf 0 (s_batchID s);
          buf = copy_at buf 32 (take 8 (s_index s));
          buf = copy_at buf 40 (take 8 (s_timestamp s));
          buf = copy_at buf 48 (s_sig s)
      in buf)"

definition stamp_UnmarshalBinary :: "bytes \<Rightarrow> postage_error + stamp" where
  "stamp_UnmarshalBinary buf =
     (if length buf \<noteq> StampSize then Inl ErrStampInvalid
      else Inr \<lparr>s_batchID = slice 0 32 buf, s_index = slice 32 40 buf,
                s_timestamp = slice 40 48 buf, s_sig = drop 48 buf\<rparr>)"

definition toSignDigest :: "'k crypto \<Rightarrow> bytes \<Rightarrow> bytes \<Rightarrow> bytes \<Rightarrow> bytes \<Rightarrow> bytes" where
  "toSignDigest cr addr batchId index timestamp =
     cr_hasher cr (addr @ batchId @ index @ timestamp)"

text \<open>\<open>toBucket\<close> panics on an address of fewer than four bytes; shifts by 32 or more give 0.\<close>

definition toBucket :: "u8 \<Rightarrow> address \<Rightarrow> u32" where
  "toBucket depth addr =
     (let i = of_nat (be_to_nat (take 4 (addr_bytes addr))) :: u32
      in drop_bit (unat (32 - depth)) i)"

definition indexToBytes :: "u32 \<Rightarrow> u32 \<Rightarrow> bytes" where
  "indexToBytes bucket index =
     (let buf = replicate IndexSize 0;
          buf = copy_at buf 0 (be_of_nat 4 (unat bucket));
          buf = copy_at buf 4 (be_of_nat 4 (unat index))
      in buf)"

definition bytesToIndex :: "bytes \<Rightarrow> u32 \<times> u32" where
  "bytesToIndex buf =
     (let index64 = of_nat (be_to_nat (take 8 buf)) :: u64;
          bucket = ucast (drop_bit 32 index64);
          index = ucast index64
      in (bucket, index))"

text \<open>\<open>1<<int(depth-bucketDepth)\<close> as a \<open>uint32\<close>: the difference is a \<open>uint8\<close>.\<close>

definition bucket_size :: "u8 \<Rightarrow> u8 \<Rightarrow> u32" where
  "bucket_size depth bucketDepth = push_bit (unat (depth - bucketDepth)) 1"

definition stamp_Valid ::
  "'k crypto \<Rightarrow> stamp \<Rightarrow> address \<Rightarrow> bytes \<Rightarrow> u8 \<Rightarrow> u8 \<Rightarrow> bool \<Rightarrow> postage_error option" where
  "stamp_Valid cr s chunkAddr ownerAddr depth bucketDepth immutable =
     (let toSign = toSignDigest cr (addr_bytes chunkAddr) (s_batchID s) (s_index s) (s_timestamp s)
      in case cr_recover cr (s_sig s) toSign of
           None \<Rightarrow> Some (ErrCrypto ErrRecover)
         | Some signerPubkey \<Rightarrow>
             (case NewEthereumAddress cr signerPubkey of
                Inl err \<Rightarrow> Some (ErrCrypto err)
              | Inr signerAddr \<Rightarrow>
                  let (bucket, index) = bytesToIndex (s_index s) in
                  if toBucket bucketDepth chunkAddr \<noteq> bucket then Some ErrBucketMismatch
                  else if index \<ge> bucket_size depth bucketDepth then Some ErrInvalidIndex
                  else if signerAddr \<noteq> ownerAddr then Some ErrOwnerMismatch
                  else None))"

definition ValidStamp ::
  "'k crypto \<Rightarrow> (bytes \<Rightarrow> store_error + batch) \<Rightarrow> stamp chunk \<Rightarrow> bytes \<Rightarrow> postage_error + stamp chunk" where
  "ValidStamp cr batchStoreGet chunk stampBytes =
     (case stamp_UnmarshalBinary stampBytes of
        Inl err \<Rightarrow> Inl err
      | Inr stamp \<Rightarrow>
          (case batchStoreGet (s_batchID stamp) of
             Inl ErrNotFound \<Rightarrow> Inl ErrBatchNotFound
           | Inl ErrIO \<Rightarrow> Inl ErrBatchStore
           | Inr b \<Rightarrow>
               (case stamp_Valid cr stamp (ch_addr chunk) (b_Owner b) (b_Depth b) (b_BucketDepth b)
                       (b_Immutable b) of
                  Some err \<Rightarrow> Inl err
                | None \<Rightarrow> Inr (WithBatch (b_StorageRadius b) (b_Depth b) (b_BucketDepth b)
                             (b_Immutable b) (WithStamp stamp chunk)))))"

section \<open>Issuers (stampissuer.go)\<close>

record issuer =
  si_Label :: bytes
  si_KeyID :: bytes
  si_BatchID :: bytes
  si_BatchAmount :: int
  si_BatchDepth :: u8
  si_BucketDepth :: u8
  si_Buckets :: "u32 list"
  si_MaxBucketCount :: u32
  si_BlockNumber :: u64
  si_ImmutableFlag :: bool
  si_Expired :: bool

definition NewStampIssuer ::
  "bytes \<Rightarrow> bytes \<Rightarrow> bytes \<Rightarrow> int \<Rightarrow> u8 \<Rightarrow> u8 \<Rightarrow> u64 \<Rightarrow> bool \<Rightarrow> issuer" where
  "NewStampIssuer label keyID batchID batchAmount batchDepth bucketDepth blockNumber immutableFlag =
     \<lparr>si_Label = label, si_KeyID = keyID, si_BatchID = batchID, si_BatchAmount = batchAmount,
      si_BatchDepth = batchDepth, si_BucketDepth = bucketDepth,
      si_Buckets = replicate (2 ^ unat bucketDepth) 0, si_MaxBucketCount = 0,
      si_BlockNumber = blockNumber, si_ImmutableFlag = immutableFlag, si_Expired = False\<rparr>"

definition BucketUpperBound :: "issuer \<Rightarrow> u32" where
  "BucketUpperBound si = bucket_size (si_BatchDepth si) (si_BucketDepth si)"

definition Utilization :: "issuer \<Rightarrow> u32" where
  "Utilization si = si_MaxBucketCount si"

definition issuer_ID :: "issuer \<Rightarrow> bytes" where
  "issuer_ID si = copy_at (replicate (length (si_BatchID si)) 0) 0 (si_BatchID si)"

definition issuer_SetExpired :: "bool \<Rightarrow> issuer \<Rightarrow> issuer" where
  "issuer_SetExpired e si = si\<lparr>si_Expired := e\<rparr>"

definition issuer_inc :: "address \<Rightarrow> issuer \<Rightarrow> (postage_error + bytes) \<times> issuer" where
  "issuer_inc addr si =
     (let b = toBucket (si_BucketDepth si) addr;
          bucketCount = si_Buckets si ! unat b
      in if bucketCount = bucket_size (si_BatchDepth si) (si_BucketDepth si)
         then (Inl ErrBucketFull, si)
         else
           let si = si\<lparr>si_Buckets := (si_Buckets si) [unat b := bucketCount + 1]\<rparr>;
               si = (if si_Buckets si ! unat b > si_MaxBucketCount si
                     then si\<lparr>si_MaxBucketCount := si_Buckets si ! unat b\<rparr> else si)
           in (Inr (indexToBytes b bucketCount), si))"

section \<open>Stamping (stamper.go)\<close>

text \<open>\<open>sign\<close> is the signer and \<open>now\<close> the clock, in nanoseconds.\<close>

definition stamper_Stamp ::
  "'k crypto \<Rightarrow> (bytes \<Rightarrow> bytes option) \<Rightarrow> u64 \<Rightarrow> address \<Rightarrow> issuer \<Rightarrow>
   (postage_error + stamp) \<times> issuer" where
  "stamper_Stamp cr sign now addr si =
     (case issuer_inc addr si of
        (Inl err, si) \<Rightarrow> (Inl err, si)
      | (Inr index, si) \<Rightarrow>
          let ts = be_of_nat 8 (unat now);
              toSign = toSignDigest cr (addr_bytes addr) (si_BatchID si) index ts
          in case sign toSign of
               None \<Rightarrow> (Inl (ErrCrypto ErrSign), si)
             | Some sig \<Rightarrow> (Inr (NewStamp (si_BatchID si) index ts sig), si))"

section \<open>The service (service.go)\<close>

record service =
  ps_store :: "issuer kv"
  ps_chainID :: nat
  ps_issuers :: "issuer list"

definition postagePrefix :: bytes where "postagePrefix = str_bytes ''postage''"
definition blockThreshold :: u64 where "blockThreshold = 10"

definition service_key :: "nat \<Rightarrow> bytes" where
  "service_key chainID = postagePrefix @ decimal chainID"

definition keyForIndex :: "nat \<Rightarrow> nat \<Rightarrow> bytes" where
  "keyForIndex chainID i = service_key chainID @ decimal i"

fun same_batch :: "bytes \<Rightarrow> issuer list \<Rightarrow> bool" where
  "same_batch bid [] = False"
| "same_batch bid (v # vs) = (if bid = si_BatchID v then True else same_batch bid vs)"

definition service_add :: "issuer \<Rightarrow> service \<Rightarrow> bool \<times> service" where
  "service_add st ps =
     (if same_batch (si_BatchID st) (ps_issuers ps) then (False, ps)
      else (True, ps\<lparr>ps_issuers := ps_issuers ps @ [st]\<rparr>))"

definition NewService :: "issuer kv \<Rightarrow> nat \<Rightarrow> store_error + service" where
  "NewService store chainID =
     (case kv_Iterate store (service_key chainID)
             (\<lambda>_ st ps. (Inr False, snd (service_add st ps)))
             \<lparr>ps_store = store, ps_chainID = chainID, ps_issuers = []\<rparr> of
        (Some (Inl err), _) \<Rightarrow> Inl err
      | (Some (Inr err), _) \<Rightarrow> Inl err
      | (None, ps) \<Rightarrow> Inr ps)"

text \<open>The key is computed after \<open>add\<close> has appended the issuer.\<close>

definition service_Add :: "issuer \<Rightarrow> service \<Rightarrow> store_error option \<times> service" where
  "service_Add st ps =
     (let (added, ps) = service_add st ps in
      if added then
        case kv_Put (keyForIndex (ps_chainID ps) (length (ps_issuers ps))) st (ps_store ps) of
          Inl err \<Rightarrow> (Some err, ps)
        | Inr s \<Rightarrow> (None, ps\<lparr>ps_store := s\<rparr>)
      else (None, ps))"

definition HandleCreate :: "batch \<Rightarrow> int \<Rightarrow> service \<Rightarrow> store_error option \<times> service" where
  "HandleCreate b amount ps =
     service_Add (NewStampIssuer (str_bytes ''recovered'') (b_Owner b) (b_ID b) amount (b_Depth b)
       (b_BucketDepth b) (b_Start b) (b_Immutable b)) ps"

definition HandleTopUp :: "bytes \<Rightarrow> int \<Rightarrow> service \<Rightarrow> service" where
  "HandleTopUp batchID amount ps =
     ps\<lparr>ps_issuers := map (\<lambda>v. if batchID = si_BatchID v
        then v\<lparr>si_BatchAmount := si_BatchAmount v + amount\<rparr> else v) (ps_issuers ps)\<rparr>"

text \<open>The loop returns at the first issuer of the batch.\<close>

fun depth_increase :: "bytes \<Rightarrow> u8 \<Rightarrow> issuer list \<Rightarrow> issuer list" where
  "depth_increase batchID newDepth [] = []"
| "depth_increase batchID newDepth (v # vs) =
     (if batchID = si_BatchID v
      then (if newDepth > si_BatchDepth v then v\<lparr>si_BatchDepth := newDepth\<rparr> else v) # vs
      else v # depth_increase batchID newDepth vs)"

definition HandleDepthIncrease :: "bytes \<Rightarrow> u8 \<Rightarrow> service \<Rightarrow> service" where
  "HandleDepthIncrease batchID newDepth ps =
     ps\<lparr>ps_issuers := depth_increase batchID newDepth (ps_issuers ps)\<rparr>"

text \<open>\<open>block\<close> is the block of the chain state of the batch store.\<close>

definition IssuerUsable :: "u64 \<Rightarrow> issuer \<Rightarrow> bool" where
  "IssuerUsable block st =
     (if block < si_BlockNumber st \<or> block - si_BlockNumber st < blockThreshold then False
      else True)"

fun find_issuer :: "u64 \<Rightarrow> bytes \<Rightarrow> issuer list \<Rightarrow> postage_error + issuer" where
  "find_issuer block batchID [] = Inl ErrNotFoundIssuer"
| "find_issuer block batchID (st # sts) =
     (if batchID = si_BatchID st
      then if \<not> IssuerUsable block st then Inl ErrNotUsable else Inr st
      else find_issuer block batchID sts)"

definition GetStampIssuer :: "u64 \<Rightarrow> bytes \<Rightarrow> service \<Rightarrow> postage_error + issuer" where
  "GetStampIssuer block batchID ps = find_issuer block batchID (ps_issuers ps)"

fun close_loop :: "nat \<Rightarrow> nat \<Rightarrow> issuer list \<Rightarrow> issuer kv \<Rightarrow> store_error option \<times> issuer kv" where
  "close_loop chainID i [] s = (None, s)"
| "close_loop chainID i (st # sts) s =
     (case kv_Put (keyForIndex chainID i) st s of
        Inl err \<Rightarrow> (Some err, s)
      | Inr s \<Rightarrow> close_loop chainID (Suc i) sts s)"

definition service_Close :: "service \<Rightarrow> store_error option \<times> service" where
  "service_Close ps =
     (let (r, s) = close_loop (ps_chainID ps) 0 (ps_issuers ps) (ps_store ps)
      in (r, ps\<lparr>ps_store := s\<rparr>))"

definition HandleStampExpiry :: "bytes \<Rightarrow> service \<Rightarrow> service" where
  "HandleStampExpiry bid ps =
     ps\<lparr>ps_issuers := map (\<lambda>v. if bid = issuer_ID v then issuer_SetExpired True v else v)
        (ps_issuers ps)\<rparr>"

text \<open>\<open>SetExpired\<close> stops at the first error of the batch store; the earlier issuers are set.\<close>

fun set_expired_loop :: "(bytes \<Rightarrow> store_error + bool) \<Rightarrow> issuer list \<Rightarrow> store_error option \<times> issuer list" where
  "set_expired_loop batchExists [] = (None, [])"
| "set_expired_loop batchExists (v # vs) =
     (case batchExists (issuer_ID v) of
        Inl err \<Rightarrow> (Some err, v # vs)
      | Inr ex \<Rightarrow>
          (let (r, vs') = set_expired_loop batchExists vs
           in (r, issuer_SetExpired (\<not> ex) v # vs')))"

definition service_SetExpired ::
  "(bytes \<Rightarrow> store_error + bool) \<Rightarrow> service \<Rightarrow> store_error option \<times> service" where
  "service_SetExpired batchExists ps =
     (let (r, vs) = set_expired_loop batchExists (ps_issuers ps) in (r, ps\<lparr>ps_issuers := vs\<rparr>))"

end
