(* ===== verification/Postage_Props.thy ===== *)
theory Postage_Props
  imports Postage
begin

text \<open>
  The encodings of \<open>pkg/postage\<close> as codecs, the collision buckets as neighbourhoods, the
  counters of an issuer, and the validity of the stamps it gives out.
\<close>

section \<open>Round trips\<close>

definition stamp_ok :: "stamp \<Rightarrow> bool" where
  "stamp_ok s \<longleftrightarrow> length (s_batchID s) = 32 \<and> length (s_index s) = 8 \<and>
     length (s_timestamp s) = 8 \<and> length (s_sig s) = 65"

lemma stamp_Marshal_append [codec]:
  assumes "stamp_ok s"
  shows "stamp_MarshalBinary s = s_batchID s @ s_index s @ s_timestamp s @ s_sig s"
proof -
  have l: "length (s_batchID s) = 32" "length (s_index s) = 8" "length (s_timestamp s) = 8"
    "length (s_sig s) = 65" using assms by (auto simp: stamp_ok_def)
  have "copy_at (replicate 113 0) 0 (s_batchID s) = s_batchID s @ replicate 81 0"
    using copy_at_into_zeros [of "[]" 0 "s_batchID s" 113 0] l by simp
  moreover have "copy_at (s_batchID s @ replicate 81 0) 32 (s_index s) =
      (s_batchID s @ s_index s) @ replicate 73 0"
    using copy_at_into_zeros [of "s_batchID s" 32 "s_index s" 81 0] l by simp
  moreover have "copy_at ((s_batchID s @ s_index s) @ replicate 73 0) 40 (s_timestamp s) =
      ((s_batchID s @ s_index s) @ s_timestamp s) @ replicate 65 0"
    using copy_at_into_zeros [of "s_batchID s @ s_index s" 40 "s_timestamp s" 73 0] l by simp
  moreover have "copy_at (((s_batchID s @ s_index s) @ s_timestamp s) @ replicate 65 0) 48 (s_sig s) =
      (((s_batchID s @ s_index s) @ s_timestamp s) @ s_sig s)"
    using copy_at_into_zeros [of "(s_batchID s @ s_index s) @ s_timestamp s" 48 "s_sig s" 65 0] l
    by simp
  ultimately show ?thesis using l by (simp add: stamp_MarshalBinary_def StampSize_def Let_def)
qed

lemma stamp_roundtrip: "stamp_ok s \<Longrightarrow> stamp_UnmarshalBinary (stamp_MarshalBinary s) = Inr s"
  by (simp add: stamp_Marshal_append stamp_UnmarshalBinary_def StampSize_def slice_def stamp_ok_def)

lemma stamp_Marshal_size: "stamp_ok s \<Longrightarrow> length (stamp_MarshalBinary s) = StampSize"
  by (simp add: stamp_Marshal_append) (simp add: stamp_ok_def StampSize_def)

interpretation stamp_codec: fixed_codec stamp_ok stamp_MarshalBinary stamp_UnmarshalBinary StampSize
proof unfold_locales
  show "stamp_ok x \<Longrightarrow> stamp_UnmarshalBinary (stamp_MarshalBinary x) = Inr x" for x
    by (rule stamp_roundtrip)
  show "stamp_ok x \<Longrightarrow> length (stamp_MarshalBinary x) = StampSize" for x
    by (rule stamp_Marshal_size)
  show "0 < StampSize" by (simp add: StampSize_def)
qed

lemma slice_append_drop: "a \<le> b \<Longrightarrow> slice a b xs @ drop b xs = drop a xs"
  unfolding slice_def using append_take_drop_id [of "b - a" "drop a xs"] by simp

lemma stamp_unmarshal_marshal:
  assumes l: "length buf = StampSize"
  shows "\<exists>t. stamp_UnmarshalBinary buf = Inr t \<and> stamp_ok t \<and> stamp_MarshalBinary t = buf"
proof -
  let ?t = "\<lparr>s_batchID = slice 0 32 buf, s_index = slice 32 40 buf,
      s_timestamp = slice 40 48 buf, s_sig = drop 48 buf\<rparr>"
  have ok: "stamp_ok ?t" using l by (simp add: stamp_ok_def StampSize_def)
  have "slice 0 32 buf @ slice 32 40 buf @ slice 40 48 buf @ drop 48 buf = buf"
    by (simp add: slice_append_drop)
  then have "stamp_MarshalBinary ?t = buf" using stamp_Marshal_append [OF ok] by simp
  with l ok show ?thesis by (intro exI [of _ ?t]) (simp add: stamp_UnmarshalBinary_def)
qed

definition batch_ok :: "batch \<Rightarrow> bool" where
  "batch_ok b \<longleftrightarrow> length (b_ID b) = 32 \<and> length (b_Owner b) = 20 \<and> b_Value b < 256 ^ 32"

definition batch_bytes :: "batch \<Rightarrow> bytes" where
  "batch_bytes b = b_ID b @ be_of_nat 32 (b_Value b) @ be_of_nat 8 (unat (b_Start b)) @ b_Owner b @
     [b_BucketDepth b, b_Depth b, if b_Immutable b then 1 else 0, b_StorageRadius b]"

lemma set_four:
  fixes y :: byte
  assumes "length P = 92"
  shows "(let out = P @ replicate 4 0; out = out [92 := y]; out = out [93 := z];
      out = (if c then out [94 := 1] else out) in out [95 := w]) =
    P @ [y, z, if c then 1 else 0, w]"
  using assms by (simp add: list_update_append numeral_eq_Suc)

lemma batch_Marshal_append [codec]:
  assumes "batch_ok b"
  shows "batch_MarshalBinary b = Inr (batch_bytes b)"
proof -
  let ?v = "nat_bytes (b_Value b)"
  have l: "length (b_ID b) = 32" "length (b_Owner b) = 20" and v: "b_Value b < 256 ^ 32"
    using assms by (auto simp: batch_ok_def)
  have lv: "length ?v \<le> 32" using length_nat_bytes [OF v] .
  let ?V = "replicate (32 - length ?v) 0 @ ?v"
  have V: "be_of_nat 32 (b_Value b) = ?V" using be_of_nat_pad [OF v] .
  have lV: "length ?V = 32" using lv by simp
  have "copy_at (replicate 96 0) 0 (b_ID b) = b_ID b @ replicate 64 0"
    using copy_at_into_zeros [of "[]" 0 "b_ID b" 96 0] l by simp
  also have "\<dots> = (b_ID b @ replicate (32 - length ?v) 0) @ replicate (32 + length ?v) 0"
    using lv by (simp flip: replicate_add)
  finally have 1: "copy_at (replicate 96 0) 0 (b_ID b) =
      (b_ID b @ replicate (32 - length ?v) 0) @ replicate (32 + length ?v) 0" .
  have 2: "copy_at ((b_ID b @ replicate (32 - length ?v) 0) @ replicate (32 + length ?v) 0)
      (64 - length ?v) ?v = (b_ID b @ ?V) @ replicate 32 0"
    using copy_at_into_zeros [of "b_ID b @ replicate (32 - length ?v) 0" "64 - length ?v" ?v
        "32 + length ?v" 0] l lv by simp
  have 3: "copy_at ((b_ID b @ ?V) @ replicate 32 0) 64 (be_of_nat 8 (unat (b_Start b))) =
      (b_ID b @ ?V @ be_of_nat 8 (unat (b_Start b))) @ replicate 24 0"
    using copy_at_into_zeros [of "b_ID b @ ?V" 64 "be_of_nat 8 (unat (b_Start b))" 32 0] l lv by simp
  have 4: "copy_at ((b_ID b @ ?V @ be_of_nat 8 (unat (b_Start b))) @ replicate 24 0) 72 (b_Owner b) =
      (b_ID b @ ?V @ be_of_nat 8 (unat (b_Start b)) @ b_Owner b) @ replicate 4 0"
    using copy_at_into_zeros [of "b_ID b @ ?V @ be_of_nat 8 (unat (b_Start b))" 72 "b_Owner b" 24 0]
      l lv by simp
  let ?P = "b_ID b @ ?V @ be_of_nat 8 (unat (b_Start b)) @ b_Owner b"
  have P: "length ?P = 92" using l lv by simp
  have "\<not> length ?v > 64" using lv by simp
  then have "batch_MarshalBinary b = Inr (let out = ?P @ replicate 4 0;
      out = out [92 := b_BucketDepth b]; out = out [93 := b_Depth b];
      out = (if b_Immutable b then out [94 := 1] else out) in out [95 := b_StorageRadius b])"
    unfolding batch_MarshalBinary_def Let_def 1 2 3 4 by (simp only: if_False)
  also have "\<dots> = Inr (?P @ [b_BucketDepth b, b_Depth b, if b_Immutable b then 1 else 0,
      b_StorageRadius b])"
    using set_four [OF P, of "b_BucketDepth b" "b_Depth b" "b_Immutable b" "b_StorageRadius b"]
    by (simp only: Let_def)
  finally show ?thesis by (simp add: batch_bytes_def V)
qed

lemma batch_roundtrip:
  assumes "batch_ok b"
  shows "batch_UnmarshalBinary (batch_bytes b @ r) = Inr b"
proof -
  have l: "length (b_ID b) = 32" "length (b_Owner b) = 20" and v: "b_Value b < 256 ^ 32"
    using assms by (auto simp: batch_ok_def)
  let ?V = "be_of_nat 32 (b_Value b)" and ?S = "be_of_nat 8 (unat (b_Start b))"
  let ?F = "[b_BucketDepth b, b_Depth b, if b_Immutable b then 1 else 0, b_StorageRadius b]"
  let ?buf = "b_ID b @ ?V @ ?S @ b_Owner b @ ?F @ r"
  have s: "slice 0 32 ?buf = b_ID b" "slice 32 64 ?buf = ?V" "slice 64 72 ?buf = ?S"
    "slice 72 92 ?buf = b_Owner b" using l by (simp_all add: slice_def)
  have n: "?buf ! 92 = b_BucketDepth b" "?buf ! 93 = b_Depth b"
    "?buf ! 94 = (if b_Immutable b then 1 else 0)" "?buf ! 95 = b_StorageRadius b"
    using l by (simp_all add: nth_append)
  have S: "be_to_nat ?S = unat (b_Start b)"
    using unsigned_less [of "b_Start b"] by (intro be_to_of_nat_id) simp
  have V: "be_to_nat ?V = b_Value b" using v by (rule be_to_of_nat_id)
  have len: "\<not> length ?buf < 96" using l by simp
  have eq: "batch_bytes b @ r = ?buf" by (simp add: batch_bytes_def)
  show ?thesis unfolding eq batch_UnmarshalBinary_def s n S V using len by simp
qed

interpretation batch_codec: fixed_codec batch_ok batch_bytes batch_UnmarshalBinary 96
proof unfold_locales
  show "batch_ok x \<Longrightarrow> batch_UnmarshalBinary (batch_bytes x) = Inr x" for x
    using batch_roundtrip [of x "[]"] by simp
  show "batch_ok x \<Longrightarrow> length (batch_bytes x) = 96" for x
    by (simp add: batch_bytes_def batch_ok_def)
qed simp

text \<open>
  a batch whose fields have their lengths and whose value fits in 32 bytes encodes to 96
  bytes, two different batches differ there, and the bytes decode to the batch; fewer than 96
  bytes panic.
\<close>

theorem batch_codec_roundtrip:
  assumes "batch_ok b" "batch_ok c"
  shows "\<exists>buf. batch_MarshalBinary b = Inr buf \<and> length buf = 96 \<and>
    batch_UnmarshalBinary buf = Inr b \<and> (\<forall>n < 96. batch_UnmarshalBinary (take n buf) = Inl ErrPanic) \<and>
    (batch_MarshalBinary c = Inr buf) = (c = b)"
  using assms batch_codec.dec_enc [of b] batch_codec.enc_size [of b] batch_codec.enc_inj [of c b]
  by (simp add: batch_Marshal_append) (simp add: batch_UnmarshalBinary_def)

theorem batch_codec_roundtrip_witness:
  "batch_UnmarshalBinary (batch_bytes \<lparr>b_ID = replicate 32 7, b_Value = 1000, b_Start = 5,
     b_Owner = replicate 20 9, b_Depth = 20, b_BucketDepth = 16, b_Immutable = True,
     b_StorageRadius = 3\<rparr>) =
   Inr \<lparr>b_ID = replicate 32 7, b_Value = 1000, b_Start = 5,
     b_Owner = replicate 20 9, b_Depth = 20, b_BucketDepth = 16, b_Immutable = True,
     b_StorageRadius = 3\<rparr>" (is "batch_UnmarshalBinary (batch_bytes ?b) = Inr ?b")
proof -
  have ok: "batch_ok ?b" by (simp add: batch_ok_def)
  from batch_codec_roundtrip [OF ok ok] batch_Marshal_append [OF ok] show ?thesis by auto
qed

section \<open>Collision buckets\<close>

definition bits_val :: "bool list \<Rightarrow> nat" where
  "bits_val bs = horner_sum of_bool 2 (rev bs)"

lemma bits_val_append: "bits_val (xs @ ys) = bits_val xs * 2 ^ length ys + bits_val ys"
  by (simp add: bits_val_def horner_sum_append)

lemma bits_val_less: "bits_val xs < 2 ^ length xs"
proof (induction xs rule: rev_induct)
  case Nil
  then show ?case by (simp add: bits_val_def)
next
  case (snoc x xs)
  then show ?case by (simp add: bits_val_def)
qed

lemma bits_val_inj: "length xs = length ys \<Longrightarrow> bits_val xs = bits_val ys \<longleftrightarrow> xs = ys"
proof (induction xs ys rule: list_induct2)
  case (Cons x xs y ys)
  have "bits_val xs < 2 ^ length ys" "bits_val ys < 2 ^ length ys"
    using bits_val_less [of xs] bits_val_less [of ys] Cons.hyps by simp_all
  with Cons show ?case
    using bits_val_append [of "[x]" xs] bits_val_append [of "[y]" ys]
    by (auto simp: bits_val_def [of "[_]"] of_bool_def)
qed simp

lemma bits_val_byte: "bits_val (byte_bits b) = unat b"
proof -
  have "rev (byte_bits b) = map (bit (unat b)) [0..<8]"
  proof (rule nth_equalityI)
    fix i assume "i < length (rev (byte_bits b))"
    then have i: "i < 8" "7 - i < 8" "7 - (7 - i) = i" by simp_all
    have "[0..<8] ! (7 - i) = 7 - i" using nth_upt [of 0 "7 - i" 8] i by simp
    with i show "rev (byte_bits b) ! i = map (bit (unat b)) [0..<8] ! i"
      by (simp add: byte_bits_def rev_nth bit_unsigned_iff)
  qed simp
  moreover have "unat b < 2 ^ 8" using unsigned_less [of b] by simp
  ultimately show ?thesis
    by (simp add: bits_val_def horner_sum_bit_eq_take_bit take_bit_nat_eq_self)
qed

lemma bits_val_bytes: "bits_val (bits_of bs) = be_to_nat bs"
proof (induction bs)
  case Nil
  then show ?case by (simp add: bits_val_def)
next
  case (Cons b bs)
  then show ?case
    by (simp add: bits_val_append bits_val_byte be_to_nat_Cons power_mult)
qed

lemma toBucket_bits:
  assumes "4 \<le> length (addr_bytes a)" "d \<le> 32"
  shows "unat (toBucket d a) = bits_val (take (unat d) (bits_of (addr_bytes a)))"
proof -
  let ?bs = "take 4 (addr_bytes a)" and ?d = "unat d"
  have d: "?d \<le> 32" using assms(2) by (simp add: word_le_nat_alt)
  have e: "unat (32 - d) = 32 - ?d" using assms(2) by (simp add: unat_sub)
  have lt: "be_to_nat ?bs < 2 ^ 32" using be_to_nat_bound [of ?bs] assms(1) by simp
  let ?L = "bits_of ?bs"
  have l: "length ?L = 32" using assms(1) by simp
  have "be_to_nat ?bs = bits_val (take ?d ?L @ drop ?d ?L)" by (simp add: bits_val_bytes)
  also have "\<dots> = bits_val (take ?d ?L) * 2 ^ (32 - ?d) + bits_val (drop ?d ?L)"
    using l by (simp only: bits_val_append length_drop)
  finally have "be_to_nat ?bs div 2 ^ (32 - ?d) = bits_val (take ?d ?L)"
    using bits_val_less [of "drop ?d ?L"] l by simp
  moreover have "take ?d ?L = take ?d (bits_of (addr_bytes a))"
    using take_bits_of [of 4 "addr_bytes a"] d by (metis min.absorb1 mult.commute numeral_times_numeral
        take_take semiring_norm(11-18))
  moreover have "unat (of_nat (be_to_nat ?bs) :: u32) = be_to_nat ?bs"
    using lt by (simp add: unat_of_nat)
  ultimately show ?thesis by (simp add: toBucket_def e unat_drop_bit_eq flip: drop_bit_eq_div)
qed

lemma take_eq_cpl: "d \<le> length xs \<Longrightarrow> d \<le> length ys \<Longrightarrow> take d xs = take d ys \<longleftrightarrow> d \<le> cpl xs ys"
proof (induction xs ys arbitrary: d rule: cpl.induct)
  case (1 x xs y ys)
  then show ?case by (cases d) auto
qed auto

lemma toBucket_cpl:
  assumes "4 \<le> length (addr_bytes a)" "4 \<le> length (addr_bytes b)" "d \<le> 32"
  shows "toBucket d a = toBucket d b \<longleftrightarrow>
    unat d \<le> cpl (bits_of (addr_bytes a)) (bits_of (addr_bytes b))"
proof -
  let ?a = "bits_of (addr_bytes a)" and ?b = "bits_of (addr_bytes b)"
  have d: "unat d \<le> 32" using assms(3) by (simp add: word_le_nat_alt)
  then have l: "unat d \<le> length ?a" "unat d \<le> length ?b" using assms by simp_all
  have "toBucket d a = toBucket d b \<longleftrightarrow> bits_val (take (unat d) ?a) = bits_val (take (unat d) ?b)"
    using assms by (simp add: word_unat_eq_iff toBucket_bits)
  also have "\<dots> \<longleftrightarrow> take (unat d) ?a = take (unat d) ?b" using l by (intro bits_val_inj) simp
  also have "\<dots> \<longleftrightarrow> unat d \<le> cpl ?a ?b" using l by (rule take_eq_cpl)
  finally show ?thesis .
qed

lemma toBucket_less:
  assumes "4 \<le> length (addr_bytes a)" "d \<le> 32"
  shows "unat (toBucket d a) < 2 ^ unat d"
proof -
  have "length (take (unat d) (bits_of (addr_bytes a))) = unat d"
    using assms by (simp add: word_le_nat_alt)
  with bits_val_less [of "take (unat d) (bits_of (addr_bytes a))"] toBucket_bits [OF assms]
  show ?thesis by simp
qed

text \<open>
  the collision bucket of a chunk is its neighbourhood: below \<open>MaxPO\<close> two addresses fall in
  the same bucket of a batch exactly if their proximity order reaches the bucket depth.
\<close>

theorem toBucket_is_neighbourhood:
  assumes "4 \<le> length (addr_bytes a)" "length (addr_bytes a) < 256"
    and "4 \<le> length (addr_bytes b)" "length (addr_bytes b) < 256" and "d \<le> MaxPO"
  shows "toBucket d a = toBucket d b \<longleftrightarrow> d \<le> Proximity (addr_bytes a) (addr_bytes b)"
proof -
  have d: "d \<le> 32" "unat d \<le> 31" using assms(5) by (simp_all add: MaxPO_def word_le_nat_alt)
  have "toBucket d a = toBucket d b \<longleftrightarrow>
      unat d \<le> cpl (bits_of (addr_bytes a)) (bits_of (addr_bytes b))"
    using assms d by (intro toBucket_cpl) simp_all
  then show ?thesis using d by (simp add: word_le_nat_alt Proximity_cpl [OF assms(1-4)])
qed

theorem toBucket_is_neighbourhood_witness:
  "toBucket 16 (NewAddress [0x12, 0x34, 0x56, 0x78]) = toBucket 16 (NewAddress [0x12, 0x34, 0x99, 0])"
proof -
  have "(16 :: u8) \<le> Proximity [0x12, 0x34, 0x56, 0x78] [0x12, 0x34, 0x99, 0]" by code_simp
  then show ?thesis
    using toBucket_is_neighbourhood [of "NewAddress [0x12, 0x34, 0x56, 0x78]"
        "NewAddress [0x12, 0x34, 0x99, 0]" 16] by (simp add: NewAddress_def MaxPO_def)
qed

end
