(* ===== verification/Postage_Issuer.thy ===== *)
theory Postage_Issuer
  imports Postage_Props
begin

text \<open>
  The counters of a stamp issuer, the stamps it hands out, their acceptance by
  \<open>ValidStamp\<close>, and the issuers over a restart of the postage service.
\<close>

section \<open>Stamp indexes\<close>

lemma bytesToIndex_indexToBytes [codec]: "bytesToIndex (indexToBytes b i) = (b, i)"
proof -
  let ?n = "unat b * 2 ^ 32 + unat i"
  have b: "unat b < 2 ^ 32" and i: "unat i < 2 ^ 32"
    using unsigned_less [of b] unsigned_less [of i] by simp_all
  then have n: "?n < 2 ^ 64" by simp
  have d: "?n div 2 ^ 32 = unat b" "?n mod 2 ^ 32 = unat i" using i by simp_all
  have e: "indexToBytes b i = be_of_nat 4 (unat b) @ be_of_nat 4 (unat i)"
    by (simp add: indexToBytes_def IndexSize_def copy_at_def)
  have "be_to_nat (take 8 (indexToBytes b i)) = ?n"
    using b i by (simp add: e be_to_nat_append)
  moreover have "unat (of_nat ?n :: u64) = ?n" unfolding unat_of_nat using n by simp
  ultimately have "unat (of_nat (be_to_nat (take 8 (indexToBytes b i))) :: u64) = ?n" by simp
  moreover from this have
    "unat (drop_bit 32 (of_nat (be_to_nat (take 8 (indexToBytes b i))) :: u64)) = unat b"
    using d(1) by (simp add: unat_drop_bit_eq) (simp add: drop_bit_eq_div)
  ultimately show ?thesis
    using d b i by (simp add: bytesToIndex_def Let_def word_unat_eq_iff unsigned_ucast_eq
        take_bit_eq_mod del: of_nat_add)
qed

lemma length_indexToBytes [simp]: "length (indexToBytes b i) = 8"
  by (simp add: indexToBytes_def IndexSize_def Let_def)

interpretation index_codec: fixed_codec "\<lambda>_. True" "\<lambda>(b, i). indexToBytes b i"
  "\<lambda>bs. Inr (bytesToIndex bs) :: unit + _" IndexSize
  by unfold_locales (auto simp: bytesToIndex_indexToBytes IndexSize_def)

lemma indexToBytes_inj: "indexToBytes b i = indexToBytes c j \<longleftrightarrow> b = c \<and> i = j"
  using index_codec.enc_inj [of "(b, i)" "(c, j)"] by simp

section \<open>The counters of an issuer\<close>

definition issuer_ok :: "issuer \<Rightarrow> bool" where
  "issuer_ok si \<longleftrightarrow>
     si_BucketDepth si \<le> 32 \<and> si_BucketDepth si \<le> si_BatchDepth si \<and>
     si_BatchDepth si - si_BucketDepth si < 32 \<and>
     length (si_Buckets si) = 2 ^ unat (si_BucketDepth si) \<and>
     (\<forall>c \<in> set (si_Buckets si). c \<le> BucketUpperBound si) \<and>
     si_MaxBucketCount si = Max (set (si_Buckets si))"

lemma issuer_okD:
  assumes "issuer_ok si"
  shows "si_BucketDepth si \<le> 32" "length (si_Buckets si) = 2 ^ unat (si_BucketDepth si)"
    "j < length (si_Buckets si) \<Longrightarrow> si_Buckets si ! j \<le> BucketUpperBound si"
    "si_MaxBucketCount si = Max (set (si_Buckets si))" "si_Buckets si \<noteq> []"
  using assms by (auto simp: issuer_ok_def)

lemma NewStampIssuer_ok [inv_intro]:
  "bd \<le> 32 \<Longrightarrow> bd \<le> d \<Longrightarrow> d - bd < 32 \<Longrightarrow> issuer_ok (NewStampIssuer l k bid a d bd bn im)"
  by (simp add: issuer_ok_def NewStampIssuer_def)

lemma bucket_in_range:
  "issuer_ok si \<Longrightarrow> 4 \<le> length (addr_bytes a) \<Longrightarrow>
   unat (toBucket (si_BucketDepth si) a) < length (si_Buckets si)"
  using toBucket_less [of a "si_BucketDepth si"] by (simp add: issuer_ok_def)

text \<open>What \<open>inc\<close> does when the bucket has room, and when it has not.\<close>

definition bucket_of :: "address \<Rightarrow> issuer \<Rightarrow> nat" where
  "bucket_of a si = unat (toBucket (si_BucketDepth si) a)"

lemma issuer_inc_full:
  "si_Buckets si ! bucket_of a si = BucketUpperBound si \<Longrightarrow> issuer_inc a si = (Inl ErrBucketFull, si)"
  by (simp add: issuer_inc_def bucket_of_def BucketUpperBound_def Let_def)

lemma Max_update:
  fixes xs :: "u32 list"
  assumes "i < length xs" "xs ! i \<le> v"
  shows "Max (set (xs [i := v])) = max v (Max (set xs))"
proof (rule Max_eqI)
  show "finite (set (xs [i := v]))" by simp
  show "y \<le> max v (Max (set xs))" if "y \<in> set (xs [i := v])" for y
    using that set_update_subset_insert [of xs i v] by (auto simp: le_max_iff_disj)
  show "max v (Max (set xs)) \<in> set (xs [i := v])"
  proof (cases "Max (set xs) \<le> v")
    case True
    then show ?thesis using assms(1) by (simp add: max_absorb1 set_update_memI)
  next
    case False
    have "Max (set xs) \<in> set xs" using assms(1) by (intro Max_in) auto
    then obtain j where j: "j < length xs" "xs ! j = Max (set xs)" by (auto simp: in_set_conv_nth)
    then have "j \<noteq> i" using False assms(2) by auto
    then have "xs [i := v] ! j = Max (set xs)" using j by simp
    then have "Max (set xs) \<in> set (xs [i := v])" using j by (metis length_list_update nth_mem)
    then show ?thesis using False by (simp add: max_absorb2)
  qed
qed

lemma issuer_inc_room:
  assumes ok: "issuer_ok si" and a: "4 \<le> length (addr_bytes a)"
    and room: "si_Buckets si ! bucket_of a si \<noteq> BucketUpperBound si"
  defines "c \<equiv> si_Buckets si ! bucket_of a si"
  shows "issuer_inc a si = (Inr (indexToBytes (toBucket (si_BucketDepth si) a) c),
      si\<lparr>si_Buckets := (si_Buckets si) [bucket_of a si := c + 1],
         si_MaxBucketCount := max (c + 1) (si_MaxBucketCount si)\<rparr>)"
    and "c < BucketUpperBound si" and "unat (c + 1) = Suc (unat c)"
proof -
  have i: "bucket_of a si < length (si_Buckets si)"
    using bucket_in_range [OF ok a] by (simp add: bucket_of_def)
  show c: "c < BucketUpperBound si" using issuer_okD(3) [OF ok i] room by (simp add: c_def)
  then have "unat c < unat (BucketUpperBound si)" by (simp add: word_less_nat_alt)
  moreover have "unat (BucketUpperBound si) < 2 ^ 32" 
    using unsigned_less [of "BucketUpperBound si", where 'a = nat] by simp
  ultimately have "Suc (unat c) < 2 ^ 32" by simp
  then show "unat (c + 1) = Suc (unat c)" by (simp add: unat_word_ariths)
  show "issuer_inc a si = (Inr (indexToBytes (toBucket (si_BucketDepth si) a) c),
      si\<lparr>si_Buckets := (si_Buckets si) [bucket_of a si := c + 1],
         si_MaxBucketCount := max (c + 1) (si_MaxBucketCount si)\<rparr>)"
    using i room
    by (auto simp: issuer_inc_def bucket_of_def BucketUpperBound_def Let_def c_def max_def)
qed

lemma issuer_inc_ok [inv_intro]:
  assumes ok: "issuer_ok si" and a: "4 \<le> length (addr_bytes a)"
  shows "issuer_ok (snd (issuer_inc a si))"
proof (cases "si_Buckets si ! bucket_of a si = BucketUpperBound si")
  case True
  then show ?thesis using ok by (simp add: issuer_inc_full)
next
  case False
  let ?c = "si_Buckets si ! bucket_of a si"
  have i: "bucket_of a si < length (si_Buckets si)"
    using bucket_in_range [OF ok a] by (simp add: bucket_of_def)
  note r = issuer_inc_room [OF ok a False]
  have le: "?c + 1 \<le> BucketUpperBound si" using r(2) by (rule inc_le)
  have "?c \<le> ?c + 1" using r(3) by (simp add: word_le_nat_alt)
  then have m: "Max (set ((si_Buckets si) [bucket_of a si := ?c + 1])) =
      max (?c + 1) (Max (set (si_Buckets si)))" by (rule Max_update [OF i])
  have all: "\<forall>c \<in> set ((si_Buckets si) [bucket_of a si := ?c + 1]). c \<le> BucketUpperBound si"
    using ok le set_update_subset_insert [of "si_Buckets si" "bucket_of a si" "?c + 1"]
    by (auto simp: issuer_ok_def)
  show ?thesis
    using ok m all by (simp add: r(1) issuer_ok_def BucketUpperBound_def)
qed

text \<open>
  the counters of an issuer: \<open>inc\<close> refuses a stamp exactly when the chunk's bucket holds
  \<open>BucketUpperBound\<close> stamps, changes nothing then, and otherwise hands out the bucket's count as
  the index and counts that one bucket up; \<open>Utilization\<close> stays the fullest bucket's count.
\<close>

theorem issuer_inc_counts:
  assumes "issuer_ok si" "4 \<le> length (addr_bytes a)" "issuer_inc a si = (r, si')"
  shows "issuer_ok si' \<and> Utilization si' = Max (set (si_Buckets si')) \<and>
    (if si_Buckets si ! bucket_of a si = BucketUpperBound si then r = Inl ErrBucketFull \<and> si' = si
     else \<exists>idx. r = Inr idx \<and> bytesToIndex idx =
            (toBucket (si_BucketDepth si) a, si_Buckets si ! bucket_of a si) \<and>
          snd (bytesToIndex idx) < BucketUpperBound si \<and>
          (\<forall>j < length (si_Buckets si). unat (si_Buckets si' ! j) =
             unat (si_Buckets si ! j) + (if j = bucket_of a si then 1 else 0)))"
proof (cases "si_Buckets si ! bucket_of a si = BucketUpperBound si")
  case True
  then show ?thesis using assms issuer_okD(4) by (simp add: issuer_inc_full Utilization_def)
next
  case False
  note r = issuer_inc_room [OF assms(1,2) False]
  have ok: "issuer_ok si'" using issuer_inc_ok [OF assms(1,2)] assms(3) by simp
  show ?thesis
    using False r ok issuer_okD(4) [OF ok] assms(3)
    by (auto simp: Utilization_def bytesToIndex_indexToBytes nth_list_update)
qed

theorem issuer_inc_counts_witness:
  "Utilization (snd (issuer_inc (NewAddress [0x80, 0, 0, 0]) (NewStampIssuer [] [] [] 1 4 2 0 False))) =
   Max (set (si_Buckets (snd (issuer_inc (NewAddress [0x80, 0, 0, 0])
     (NewStampIssuer [] [] [] 1 4 2 0 False)))))"
proof -
  have ok: "issuer_ok (NewStampIssuer [] [] [] 1 4 2 0 False)"
    by (rule NewStampIssuer_ok) simp_all
  have "4 \<le> length (addr_bytes (NewAddress [0x80, 0, 0, 0]))" by simp
  from issuer_inc_counts [OF ok this prod.collapse [symmetric]] show ?thesis by blast
qed

section \<open>A run of an issuer\<close>

fun inc_all :: "address list \<Rightarrow> issuer \<Rightarrow> (postage_error + bytes) list \<times> issuer" where
  "inc_all [] si = ([], si)"
| "inc_all (a # as) si =
     (let (r, si) = issuer_inc a si; (rs, si) = inc_all as si in (r # rs, si))"

lemma issuer_inc_depth: "issuer_inc a si = (r, si') \<Longrightarrow> si_BucketDepth si' = si_BucketDepth si"
  by (auto simp: issuer_inc_def Let_def split: if_splits)

lemma issuer_inc_mono:
  assumes "issuer_ok si" "4 \<le> length (addr_bytes a)" "issuer_inc a si = (r, si')"
    "j < length (si_Buckets si)"
  shows "si_Buckets si ! j \<le> si_Buckets si' ! j"
proof (cases "si_Buckets si ! bucket_of a si = BucketUpperBound si")
  case True
  with assms show ?thesis by (simp add: issuer_inc_full)
next
  case False
  with issuer_inc_room [OF assms(1,2) False] assms(3,4) show ?thesis
    by (cases "j = bucket_of a si") (auto simp: word_le_nat_alt)
qed

lemma issuer_inc_length:
  "issuer_inc a si = (r, si') \<Longrightarrow> length (si_Buckets si') = length (si_Buckets si)"
  by (auto simp: issuer_inc_def Let_def split: if_splits)

text \<open>Every index a run hands out counts at least as high as its bucket stood at the start.\<close>

lemma inc_all_above:
  assumes "issuer_ok si" "\<forall>a \<in> set as. 4 \<le> length (addr_bytes a)"
    "Inr idx \<in> set (fst (inc_all as si))"
  shows "\<exists>b c. idx = indexToBytes b c \<and> unat b < length (si_Buckets si) \<and> si_Buckets si ! unat b \<le> c"
  using assms
proof (induction as arbitrary: si)
  case (Cons a as)
  obtain r si' where s: "issuer_inc a si = (r, si')" by fastforce
  have ok: "issuer_ok si'" using issuer_inc_ok [of si a] Cons.prems s by simp
  have "Inr idx = r \<or> Inr idx \<in> set (fst (inc_all as si'))"
    using Cons.prems(3) s by (simp add: Let_def split: prod.splits)
  then show ?case
  proof
    assume idx: "Inr idx = r"
    then have "si_Buckets si ! bucket_of a si \<noteq> BucketUpperBound si"
      using s issuer_inc_full [of si a] by auto
    with issuer_inc_room [of si a] Cons.prems s idx bucket_in_range [of si a] show ?thesis
      by (intro exI [of _ "toBucket (si_BucketDepth si) a"]
          exI [of _ "si_Buckets si ! bucket_of a si"]) (simp add: bucket_of_def)
  next
    assume "Inr idx \<in> set (fst (inc_all as si'))"
    with Cons.IH [OF ok] Cons.prems obtain b c where bc: "idx = indexToBytes b c"
      "unat b < length (si_Buckets si')" "si_Buckets si' ! unat b \<le> c" by auto
    moreover have "unat b < length (si_Buckets si)" using bc(2) issuer_inc_length [OF s] by simp
    moreover have "si_Buckets si ! unat b \<le> c"
      using bc issuer_inc_mono [OF _ _ s, of "unat b"] Cons.prems issuer_inc_length [OF s] by force
    ultimately show ?thesis by blast
  qed
qed simp

text \<open>
  C18: no index twice: however many stamps an issuer is asked for, in whatever order of
  addresses, the indexes it hands out are all different.
\<close>

theorem issuer_indexes_distinct:
  assumes "issuer_ok si" "\<forall>a \<in> set as. 4 \<le> length (addr_bytes a)"
  shows "distinct (filter (\<lambda>r. \<not> isl r) (fst (inc_all as si)))"
  using assms
proof (induction as arbitrary: si)
  case (Cons a as)
  obtain r si' where s: "issuer_inc a si = (r, si')" by fastforce
  have ok: "issuer_ok si'" using issuer_inc_ok [of si a] Cons.prems s by simp
  have "r \<notin> set (fst (inc_all as si'))" if "\<not> isl r"
  proof
    assume mem: "r \<in> set (fst (inc_all as si'))"
    from that obtain idx where r: "r = Inr idx" by (cases r) auto
    let ?c = "si_Buckets si ! bucket_of a si"
    have room: "?c \<noteq> BucketUpperBound si" using s r issuer_inc_full [of si a] by auto
    note R = issuer_inc_room [OF Cons.prems(1) _ room]
    have idx: "idx = indexToBytes (toBucket (si_BucketDepth si) a) ?c" using R(1) Cons.prems s r by simp
    have i: "bucket_of a si < length (si_Buckets si)"
      using bucket_in_range [of si a] Cons.prems by (simp add: bucket_of_def)
    from inc_all_above [OF ok _ mem [unfolded r]] Cons.prems obtain b c where
      bc: "idx = indexToBytes b c" "si_Buckets si' ! unat b \<le> c" by auto
    then have "si_Buckets si' ! bucket_of a si \<le> ?c"
      using idx by (auto simp: indexToBytes_inj bucket_of_def)
    moreover have "si_Buckets si' ! bucket_of a si = ?c + 1"
      using R(1) s i Cons.prems by auto
    ultimately show False using R(3) Cons.prems by (simp add: word_le_nat_alt)
  qed
  with Cons.IH [OF ok] Cons.prems s show ?case by (auto simp: Let_def split: prod.splits)
qed simp

theorem issuer_indexes_distinct_witness:
  "distinct (filter (\<lambda>r. \<not> isl r) (fst (inc_all [NewAddress [0x80, 0, 0, 0], NewAddress [0x80, 0, 0, 1]]
     (NewStampIssuer [] [] [] 1 4 2 0 False))))"
  by (rule issuer_indexes_distinct [OF NewStampIssuer_ok]) simp_all

section \<open>The stamps are valid\<close>

text \<open>A signer whose signatures have their length and are recovered to the owner's key.\<close>

definition signs_for :: "'k crypto \<Rightarrow> (bytes \<Rightarrow> bytes option) \<Rightarrow> bytes \<Rightarrow> bool" where
  "signs_for cr sign owner \<longleftrightarrow> (\<forall>d sig. sign d = Some sig \<longrightarrow> length sig = 65 \<and>
     (\<exists>pk. cr_recover cr sig d = Some pk \<and> NewEthereumAddress cr pk = Inr owner))"

lemma stamper_StampE:
  assumes "stamper_Stamp cr sign now addr si = (Inr s, si')"
  obtains index sig where "issuer_inc addr si = (Inr index, si')"
    "sign (toSignDigest cr (addr_bytes addr) (si_BatchID si) index (be_of_nat 8 (unat now))) = Some sig"
    "s = NewStamp (si_BatchID si) index (be_of_nat 8 (unat now)) sig"
proof -
  obtain r si1 where i: "issuer_inc addr si = (r, si1)" by fastforce
  have b: "si_BatchID si1 = si_BatchID si"
    using i by (auto simp: issuer_inc_def Let_def split: if_splits)
  show thesis
    using assms i b that by (auto simp: stamper_Stamp_def Let_def split: sum.splits option.splits)
qed

lemma stamp_Valid_issued:
  assumes si: "issuer_ok si" and a: "4 \<le> length (addr_bytes addr)" and law: "signs_for cr sign owner"
    and s: "stamper_Stamp cr sign now addr si = (Inr s, si')"
  shows "stamp_Valid cr s addr owner (si_BatchDepth si) (si_BucketDepth si) imm = None"
    and "length (si_BatchID si) = 32 \<Longrightarrow> stamp_ok s" and "s_batchID s = si_BatchID si"
proof -
  obtain index sig where i: "issuer_inc addr si = (Inr index, si')"
    and g: "sign (toSignDigest cr (addr_bytes addr) (si_BatchID si) index (be_of_nat 8 (unat now))) = Some sig"
    and st: "s = NewStamp (si_BatchID si) index (be_of_nat 8 (unat now)) sig"
    using s by (rule stamper_StampE)
  have room: "si_Buckets si ! bucket_of addr si \<noteq> BucketUpperBound si"
    using i issuer_inc_full [of si addr] by auto
  note r = issuer_inc_room [OF si a room]
  have idx: "index = indexToBytes (toBucket (si_BucketDepth si) addr) (si_Buckets si ! bucket_of addr si)"
    using r(1) i by simp
  from law g obtain pk where pk: "length sig = 65"
    "cr_recover cr sig (toSignDigest cr (addr_bytes addr) (si_BatchID si) index (be_of_nat 8 (unat now))) = Some pk"
    "NewEthereumAddress cr pk = Inr owner" unfolding signs_for_def by blast
  show "stamp_Valid cr s addr owner (si_BatchDepth si) (si_BucketDepth si) imm = None"
    using pk(2,3) r(2) unfolding st
    by (simp add: stamp_Valid_def NewStamp_def Let_def)
       (simp add: idx bytesToIndex_indexToBytes BucketUpperBound_def)
  show "s_batchID s = si_BatchID si" by (simp add: st NewStamp_def)
  show "stamp_ok s" if "length (si_BatchID si) = 32"
    using that pk(1) by (simp add: st stamp_ok_def NewStamp_def idx)
qed

text \<open>
  C19: what the stamper issues, the network accepts: the bytes of a stamp pass \<open>ValidStamp\<close> for
  the chunk it was issued for, which then carries the stamp and the batch's parameters, when
  the batch store has the batch with the issuer's depths and the signer's address as owner.
\<close>

theorem ValidStamp_accepts_issued:
  assumes "issuer_ok si" "4 \<le> length (addr_bytes (ch_addr c))" "length (si_BatchID si) = 32"
    and "signs_for cr sign (b_Owner b)"
    and "stamper_Stamp cr sign now (ch_addr c) si = (Inr s, si')"
    and "get (si_BatchID si) = Inr b" "b_Depth b = si_BatchDepth si" "b_BucketDepth b = si_BucketDepth si"
  shows "ValidStamp cr get c (stamp_MarshalBinary s) =
    Inr (WithBatch (b_StorageRadius b) (b_Depth b) (b_BucketDepth b) (b_Immutable b) (WithStamp s c))"
  using stamp_Valid_issued [OF assms(1,2,4,5)] assms(3,6-8)
  by (simp add: ValidStamp_def stamp_codec.dec_enc)

definition toy_crypto :: "bytes crypto" where
  "toy_crypto = \<lparr>cr_keccak = (\<lambda>d. d), cr_hasher = (\<lambda>d. d),
     cr_marshal = (\<lambda>k. Some k), cr_recover = (\<lambda>sig d. Some (take 4 sig))\<rparr>"

lemma toy_bucket: "toBucket 2 (NewAddress [0x80, 0, 0, 0]) = 2"
  by (simp add: toBucket_def be_to_nat_def)

lemma toy_recover:
  "cr_recover toy_crypto (replicate 65 7) d = Some (replicate 4 7)"
  "NewEthereumAddress toy_crypto (replicate 4 7) = Inr []"
  by (simp_all add: toy_crypto_def NewEthereumAddress_def LegacyKeccak256_def)

lemma toy_signs_for: "signs_for toy_crypto (\<lambda>d. Some (replicate 65 7)) []"
  by (simp add: signs_for_def toy_recover)

theorem ValidStamp_accepts_issued_witness:
  "\<exists>s c. ValidStamp toy_crypto (\<lambda>_. Inr \<lparr>b_ID = replicate 32 7, b_Value = 1000, b_Start = 5,
      b_Owner = [], b_Depth = 4, b_BucketDepth = 2, b_Immutable = True, b_StorageRadius = 3\<rparr>)
     (NewChunk (NewAddress [0x80, 0, 0, 0]) [1]) (stamp_MarshalBinary s) = Inr c \<and>
     ch_depth c = 4 \<and> ch_stamp c = Some s"
proof -
  let ?si = "NewStampIssuer [] [] (replicate 32 7) 1 4 2 0 False"
  let ?c = "NewChunk (NewAddress [0x80, 0, 0, 0]) [1] :: stamp chunk"
  let ?b = "\<lparr>b_ID = replicate 32 7, b_Value = 1000, b_Start = 5,
      b_Owner = [], b_Depth = 4, b_BucketDepth = 2, b_Immutable = True, b_StorageRadius = 3\<rparr>"
  let ?sign = "\<lambda>d :: bytes. Some (replicate 65 7 :: bytes)"
  have ok: "issuer_ok ?si" by (rule NewStampIssuer_ok) simp_all
  have a: "4 \<le> length (addr_bytes (ch_addr ?c))" by (simp add: NewChunk_def)
  have "si_Buckets ?si ! bucket_of (ch_addr ?c) ?si \<noteq> BucketUpperBound ?si"
    by (simp add: NewStampIssuer_def bucket_of_def BucketUpperBound_def bucket_size_def NewChunk_def
        toy_bucket)
  from issuer_inc_room(1) [OF ok a this] obtain s si' where
    s: "stamper_Stamp toy_crypto ?sign 9 (ch_addr ?c) ?si = (Inr s, si')"
    by (simp add: stamper_Stamp_def Let_def)
  have "ValidStamp toy_crypto (\<lambda>_. Inr ?b) ?c (stamp_MarshalBinary s) =
    Inr (WithBatch 3 4 2 True (WithStamp s ?c))"
    using ValidStamp_accepts_issued [OF ok a _ _ s, of ?b "\<lambda>_. Inr ?b"] toy_signs_for
    by (simp add: NewStampIssuer_def)
  then show ?thesis
    by (intro exI [of _ s] exI [of _ "WithBatch 3 4 2 True (WithStamp s ?c)"])
       (simp add: WithBatch_def WithStamp_def)
qed

text \<open>
  C20: what \<open>ValidStamp\<close> accepts is paid for: the stamp decodes, its batch exists, the signature
  over the chunk's address, batch, index and time is recovered to a key whose address owns the
  batch, and the index lies in the chunk's bucket below the bucket's size.
\<close>

theorem ValidStamp_sound:
  assumes "ValidStamp cr get c buf = Inr c'"
  shows "\<exists>s b pk i. stamp_UnmarshalBinary buf = Inr s \<and> get (s_batchID s) = Inr b \<and>
    cr_recover cr (s_sig s) (toSignDigest cr (addr_bytes (ch_addr c)) (s_batchID s) (s_index s)
      (s_timestamp s)) = Some pk \<and> NewEthereumAddress cr pk = Inr (b_Owner b) \<and>
    bytesToIndex (s_index s) = (toBucket (b_BucketDepth b) (ch_addr c), i) \<and>
    i < bucket_size (b_Depth b) (b_BucketDepth b) \<and>
    ch_stamp c' = Some s \<and> ch_addr c' = ch_addr c \<and> ch_data c' = ch_data c"
  using assms
  by (auto simp: ValidStamp_def stamp_Valid_def Let_def WithBatch_def WithStamp_def not_le
      split: sum.splits store_error.splits option.splits prod.splits if_splits)

theorem ValidStamp_sound_witness:
  "\<exists>pk i. NewEthereumAddress toy_crypto pk = Inr [] \<and>
    bytesToIndex (indexToBytes 2 0) = (toBucket 2 (NewAddress [0x80, 0, 0, 0]), i) \<and>
    i < bucket_size 4 2"
proof -
  let ?b = "\<lparr>b_ID = replicate 32 7, b_Value = 1000, b_Start = 5,
      b_Owner = [], b_Depth = 4, b_BucketDepth = 2, b_Immutable = True, b_StorageRadius = 3\<rparr>"
  let ?s = "NewStamp (replicate 32 7) (indexToBytes 2 0) (replicate 8 0) (replicate 65 7)"
  let ?c = "NewChunk (NewAddress [0x80, 0, 0, 0]) [1] :: stamp chunk"
  have ok: "stamp_ok ?s" by (simp add: stamp_ok_def NewStamp_def)
  have "stamp_Valid toy_crypto ?s (ch_addr ?c) [] 4 2 True = None"
    by (simp add: stamp_Valid_def NewStamp_def NewChunk_def bytesToIndex_indexToBytes toy_bucket
        bucket_size_def toy_recover)
  then have "ValidStamp toy_crypto (\<lambda>_. Inr ?b) ?c (stamp_MarshalBinary ?s) =
      Inr (WithBatch 3 4 2 True (WithStamp ?s ?c))"
    by (simp add: ValidStamp_def stamp_codec.dec_enc [OF ok])
  from ValidStamp_sound [OF this] stamp_codec.dec_enc [OF ok] show ?thesis
    by (auto simp: NewStamp_def NewChunk_def)
qed

end
