(* ===== verification/Postage_Service.thy ===== *)
theory Postage_Service
  imports Postage_Issuer
begin

text \<open>
  The issuers over a restart of the postage service: \<open>Close\<close> writes them under keys counted from
  0 while \<open>Add\<close> counted from 1, and \<open>NewService\<close> reads all of them back in the order of the keys.
\<close>

section \<open>Services over a store that does not fail\<close>

definition store_of :: "nat \<Rightarrow> (bytes \<times> 'v) list \<Rightarrow> 'v kv" where
  "store_of ch L = \<lparr>kv_data = map (\<lambda>(d, v). (service_key ch @ d, v)) L, kv_fail = (\<lambda>_ _. False)\<rparr>"

definition service_of :: "nat \<Rightarrow> (bytes \<times> issuer) list \<Rightarrow> issuer list \<Rightarrow> service" where
  "service_of ch L vs = \<lparr>ps_store = store_of ch L, ps_chainID = ch, ps_issuers = vs\<rparr>"

lemma assoc_put_prefix:
  "assoc_put (p @ k) v (map (\<lambda>(d, v). (p @ d, v)) L) = map (\<lambda>(d, v). (p @ d, v)) (assoc_put k v L)"
proof (induction L)
  case (Cons x L)
  have "p @ k < p @ k' \<longleftrightarrow> k < k'" for k' by (induction p) auto
  with Cons show ?case by (cases x) auto
qed simp

lemma service_Add_of:
  "\<not> same_batch (si_BatchID st) vs \<Longrightarrow> service_Add st (service_of ch L vs) =
   (None, service_of ch (assoc_put (decimal (Suc (length vs))) st L) (vs @ [st]))"
  by (simp add: service_Add_def service_add_def service_of_def store_of_def kv_Put_def keyForIndex_def
      assoc_put_prefix)

lemma service_Add_again: "same_batch (si_BatchID st) vs \<Longrightarrow>
   service_Add st (service_of ch L vs) = (None, service_of ch L vs)"
  by (simp add: service_Add_def service_add_def service_of_def)

fun puts :: "nat \<Rightarrow> issuer list \<Rightarrow> (bytes \<times> issuer) list \<Rightarrow> (bytes \<times> issuer) list" where
  "puts i [] L = L"
| "puts i (v # vs) L = puts (Suc i) vs (assoc_put (decimal i) v L)"

lemma close_loop_of: "close_loop ch i vs (store_of ch L) = (None, store_of ch (puts i vs L))"
  by (induction i vs L rule: puts.induct)
     (simp_all add: kv_Put_def store_of_def keyForIndex_def assoc_put_prefix)

lemma service_Close_of: "service_Close (service_of ch L vs) = (None, service_of ch (puts 0 vs L) vs)"
  by (simp add: service_Close_def service_of_def close_loop_of)

fun readd :: "(bytes \<times> issuer) list \<Rightarrow> issuer list \<Rightarrow> issuer list" where
  "readd [] vs = vs"
| "readd ((d, v) # L) vs = readd L (if same_batch (si_BatchID v) vs then vs else vs @ [v])"

lemma same_batch_iff: "same_batch b vs \<longleftrightarrow> b \<in> si_BatchID ` set vs"
  by (induction vs) auto

lemma readd_distinct:
  "distinct (map si_BatchID (vs @ map snd L)) \<Longrightarrow> readd (L @ M) vs = readd M (vs @ map snd L)"
  by (induction L vs rule: readd.induct) (auto simp: same_batch_iff)

lemma NewService_of: "NewService (store_of ch L) ch = Inr (service_of ch L (readd L []))"
proof -
  have "iterate_loop (\<lambda>_ st ps. (Inr False, snd (service_add st ps)))
      (map (\<lambda>(d, v). (service_key ch @ d, v)) M) (service_of ch L vs) =
    (None :: store_error option, service_of ch L (readd M vs))" for M vs
    by (induction M vs rule: readd.induct) (auto simp: service_add_def service_of_def split: if_splits)
  moreover have "kv_entries (service_key ch) (store_of ch L) =
      map (\<lambda>(d, v). (service_key ch @ d, v)) L"
    by (induction L) (auto simp: kv_entries_def store_of_def)
  ultimately show ?thesis
    by (simp add: NewService_def kv_Iterate_def service_of_def [of ch L "[]", symmetric])
       (simp add: store_of_def)
qed

definition restart :: "service \<Rightarrow> store_error + service" where
  "restart ps = NewService (ps_store (snd (service_Close ps))) (ps_chainID ps)"

lemma restart_of:
  "restart (service_of ch L vs) = Inr (service_of ch (puts 0 vs L) (readd (puts 0 vs L) []))"
  by (simp add: restart_def service_Close_of) (simp add: service_of_def NewService_of)

section \<open>A restart with ten issuers\<close>

text \<open>\<open>stamp_with\<close>: one stamp of the issuer at a position, through the pointer the service holds.\<close>

definition stamp_with :: "nat \<Rightarrow> address \<Rightarrow> service \<Rightarrow> (postage_error + bytes) \<times> service" where
  "stamp_with i a ps =
     (let (r, si) = issuer_inc a (ps_issuers ps ! i)
      in (r, ps\<lparr>ps_issuers := (ps_issuers ps) [i := si]\<rparr>))"

definition add_all :: "issuer list \<Rightarrow> service \<Rightarrow> service" where
  "add_all vs ps = fold (\<lambda>v ps. snd (service_Add v ps)) vs ps"

lemma decimal_digit: "n < 10 \<Longrightarrow> decimal n = [of_nat (48 + n)]"
  by (simp add: decimal.simps)

lemma decimal_10: "decimal 10 = [49, 48]"
  by (subst decimal.simps) (simp add: decimal_digit)

lemma decimals:
  "decimal 0 = [48]" "decimal 1 = [49]" "decimal 2 = [50]" "decimal 3 = [51]" "decimal 4 = [52]"
  "decimal 5 = [53]" "decimal 6 = [54]" "decimal 7 = [55]" "decimal 8 = [56]" "decimal 9 = [57]"
  by (simp_all add: decimal_digit)

lemma puts_Cons:
  "puts 0 (v # vs) L = puts 1 vs (assoc_put (decimal 0) v L)"
  "puts 1 (v # vs) L = puts 2 vs (assoc_put (decimal 1) v L)"
  "puts (numeral k) (v # vs) L = puts (numeral (k + Num.One)) vs (assoc_put (decimal (numeral k)) v L)"
  by (simp_all flip: numeral_2_eq_2)

lemma assoc_put_byte:
  "assoc_put (a # as) v ((b # bs, w) # kvs) =
     (if a < b then (a # as, v) # (b # bs, w) # kvs
      else if b < a then (b # bs, w) # assoc_put (a # as) v kvs
      else if as < bs then (a # as, v) # (b # bs, w) # kvs
      else if as = bs then (a # as, v) # kvs
      else (b # bs, w) # assoc_put (a # as) v kvs)"
  by auto

lemmas puts_eval = puts_Cons decimals decimal_10 assoc_put_byte

lemma add_all_of:
  "distinct (map si_BatchID (us @ vs)) \<Longrightarrow> add_all vs (service_of ch L us) =
   service_of ch (puts (Suc (length us)) vs L) (us @ vs)"
proof (induction vs arbitrary: us L)
  case (Cons v vs)
  have "\<not> same_batch (si_BatchID v) us" using Cons.prems by (auto simp: same_batch_iff)
  with Cons.IH [of "us @ [v]"] Cons.prems show ?case by (simp add: add_all_def service_Add_of)
qed (simp add: add_all_def)

lemma add_all_ten:
  assumes "distinct (map si_BatchID [v0, v1, v2, v3, v4, v5, v6, v7, v8, v9])"
  shows "add_all [v0, v1, v2, v3, v4, v5, v6, v7, v8, v9] (service_of ch [] []) =
    service_of ch [([49], v0), ([49, 48], v9), ([50], v1), ([51], v2), ([52], v3), ([53], v4),
        ([54], v5), ([55], v6), ([56], v7), ([57], v8)] [v0, v1, v2, v3, v4, v5, v6, v7, v8, v9]"
proof -
  have "add_all [v0, v1, v2, v3, v4, v5, v6, v7, v8, v9] (service_of ch [] []) =
      service_of ch (puts 1 [v0, v1, v2, v3, v4, v5, v6, v7, v8, v9] [])
        [v0, v1, v2, v3, v4, v5, v6, v7, v8, v9]"
    using add_all_of [of "[]" "[v0, v1, v2, v3, v4, v5, v6, v7, v8, v9]" ch "[]"] assms
    by (simp only: append.simps list.size One_nat_def)
  moreover have "puts 1 [v0, v1, v2, v3, v4, v5, v6, v7, v8, v9] [] =
      [([49], v0), ([49, 48], v9), ([50], v1), ([51], v2), ([52], v3), ([53], v4),
        ([54], v5), ([55], v6), ([56], v7), ([57], v8)]"
    by (simp add: puts_eval del: puts.simps(2) assoc_put.simps(2) One_nat_def)
  ultimately show ?thesis by (simp only:)
qed

lemma distinct_rotate: "distinct (xs @ ys @ [z]) \<Longrightarrow> distinct (xs @ z # ys)"
  by auto

lemma restart_ten:
  assumes "distinct (map si_BatchID [v0, v1, v2, v3, v4, v5, v6, v7, v8, v9])"
    and "si_BatchID w = si_BatchID v9"
  shows "\<exists>L. restart (service_of ch [([49], v0), ([49, 48], v9), ([50], v1), ([51], v2), ([52], v3),
        ([53], v4), ([54], v5), ([55], v6), ([56], v7), ([57], v8)]
        [v0, v1, v2, v3, v4, v5, v6, v7, v8, w]) =
      Inr (service_of ch L [v0, v1, v9, v2, v3, v4, v5, v6, v7, v8])"
proof -
  let ?L = "[([49], v0), ([49, 48], v9), ([50], v1), ([51], v2), ([52], v3), ([53], v4),
      ([54], v5), ([55], v6), ([56], v7), ([57], v8)]"
  have p: "puts 0 [v0, v1, v2, v3, v4, v5, v6, v7, v8, w] ?L =
    [([48], v0), ([49], v1), ([49, 48], v9), ([50], v2), ([51], v3), ([52], v4), ([53], v5),
     ([54], v6), ([55], v7), ([56], v8), ([57], w)]"
    by (simp add: puts_eval del: puts.simps(2) assoc_put.simps(2) One_nat_def)
  have d: "distinct (map si_BatchID [v0, v1, v9, v2, v3, v4, v5, v6, v7, v8])"
    using distinct_rotate [of "map si_BatchID [v0, v1]"
        "map si_BatchID [v2, v3, v4, v5, v6, v7, v8]" "si_BatchID v9"] assms(1)
    by (simp only: list.map append.simps)
  have "readd (puts 0 [v0, v1, v2, v3, v4, v5, v6, v7, v8, w] ?L) [] =
      readd [([57], w)] [v0, v1, v9, v2, v3, v4, v5, v6, v7, v8]"
    unfolding p using readd_distinct [of "[]" "[([48], v0), ([49], v1), ([49, 48], v9), ([50], v2),
        ([51], v3), ([52], v4), ([53], v5), ([54], v6), ([55], v7), ([56], v8)]" "[([57], w)]"] d
    by (simp only: append.simps list.map snd_conv)
  also have "\<dots> = [v0, v1, v9, v2, v3, v4, v5, v6, v7, v8]"
    using assms(2) by (simp add: same_batch_iff)
  finally show ?thesis by (simp only: restart_of) (rule exI, rule refl)
qed

text \<open>
  a restart can hand out an index twice. With ten issuers the last one was added under the
  key of 10 and is closed under the key of 9; at the next start the stale entry comes first in
  the order of the keys, so the issuer is back at its counters of the day it was added: the
  first stamp it gives for a chunk after the restart has the index it gave before.
\<close>

theorem service_restart_reuses_index:
  assumes "distinct (map si_BatchID vs)" "length vs = 10"
    and "ps = add_all vs (service_of ch [] [])" and "stamp_with 9 a ps = (r, ps')"
  shows "\<exists>ps'' i. restart ps' = Inr ps'' \<and> fst (stamp_with i a ps'') = r \<and>
    si_BatchID (ps_issuers ps'' ! i) = si_BatchID (vs ! 9)"
proof -
  obtain v0 v1 v2 v3 v4 v5 v6 v7 v8 v9 where vs: "vs = [v0, v1, v2, v3, v4, v5, v6, v7, v8, v9]"
    using assms(2) by (auto simp: length_Suc_conv numeral_eq_Suc)
  let ?L = "[([49], v0), ([49, 48], v9), ([50], v1), ([51], v2), ([52], v3),
        ([53], v4), ([54], v5), ([55], v6), ([56], v7), ([57], v8)]"
  obtain si where si: "issuer_inc a v9 = (r, si)" and
    ps': "ps' = service_of ch ?L [v0, v1, v2, v3, v4, v5, v6, v7, v8, si]"
    using assms(4) add_all_ten [of v0 v1 v2 v3 v4 v5 v6 v7 v8 v9 ch] assms(1,3)
    by (auto simp: vs stamp_with_def service_of_def split: prod.splits)
  have "si_BatchID si = si_BatchID v9"
    using si by (auto simp: issuer_inc_def Let_def split: if_splits)
  from restart_ten [OF assms(1) [unfolded vs] this] obtain L where
    "restart ps' = Inr (service_of ch L [v0, v1, v9, v2, v3, v4, v5, v6, v7, v8])"
    unfolding ps' by blast
  then show ?thesis
    using si vs by (intro exI [of _ "service_of ch L [v0, v1, v9, v2, v3, v4, v5, v6, v7, v8]"]
        exI [of _ 2]) (simp add: stamp_with_def service_of_def)
qed

theorem service_restart_reuses_index_witness:
  "\<exists>vs a idx ps' ps'' i. stamp_with 9 a (add_all vs (service_of 1 [] [])) = (Inr idx, ps') \<and>
    restart ps' = Inr ps'' \<and> fst (stamp_with i a ps'') = Inr idx \<and>
    si_BatchID (ps_issuers ps'' ! i) = si_BatchID (vs ! 9)"
proof -
  let ?v = "\<lambda>n. NewStampIssuer [] [] [of_nat n] 1 1 0 0 False"
  let ?a = "NewAddress [0x80, 0, 0, 0]"
  let ?vs = "map ?v [0..<10]"
  have vs: "?vs = [?v 0, ?v 1, ?v 2, ?v 3, ?v 4, ?v 5, ?v 6, ?v 7, ?v 8, ?v 9]"
    by (simp add: upt_rec)
  have d: "distinct (map si_BatchID ?vs)" by (simp add: upt_rec NewStampIssuer_def)
  obtain idx where "fst (stamp_with 9 ?a (add_all ?vs (service_of 1 [] []))) = Inr idx"
    using d unfolding vs
    by (simp add: add_all_ten)
       (simp add: stamp_with_def service_of_def issuer_inc_def NewStampIssuer_def bucket_size_def
        toBucket_def be_to_nat_def Let_def)
  then obtain ps' where s: "stamp_with 9 ?a (add_all ?vs (service_of 1 [] [])) = (Inr idx, ps')"
    by (metis prod.collapse)
  have l: "length ?vs = 10" by simp
  from service_restart_reuses_index [OF d l refl s] s show ?thesis by blast
qed

end
