(* ===== verification/Batch_Store.thy ===== *)
theory Batch_Store
  imports Postage
begin

text \<open>
  \<open>pkg/postage/batchstore\<close>: the batches a node knows, indexed by ID and by value in the state
  store, the chain state, and the reserve state with its two radii. Every operation runs under
  the store's lock and is one step here.

  The callbacks are outside this package: \<open>bs_evict\<close> says whether evicting a batch fails, given
  the calls made before; the calls to the eviction function, the expiry handler and the radius
  setter are recorded in \<open>bs_calls\<close>. Stored values are kept decoded.
\<close>

section \<open>State (store.go, reserve.go)\<close>

record chain_state =
  cs_Block :: u64
  cs_TotalAmount :: int
  cs_CurrentPrice :: int

record reserve_state =
  rs_Radius :: u8
  rs_StorageRadius :: u8

datatype bs_value = BvBatch batch | BvNil | BvChain chain_state | BvReserve reserve_state

datatype bs_call = CallEvict bytes | CallExpiry bytes | CallSetRadius u8

datatype bs_error =
    BsStore store_error
  | BsNotFound
  | BsRadiusExceeds
  | BsExists
  | BsEvict bytes
  | BsCallback nat
  | BsPanic

record batchstore =
  bs_store :: "bs_value kv"
  bs_cs :: chain_state
  bs_rs :: reserve_state
  bs_evict :: "bs_call list \<Rightarrow> bytes \<Rightarrow> bool"
  bs_hasExpiry :: bool
  bs_hasSetter :: bool
  bs_calls :: "bs_call list"

section \<open>Keys and values\<close>

definition batchKeyPrefix :: bytes where "batchKeyPrefix = str_bytes ''batchstore_batch_''"
definition valueKeyPrefix :: bytes where "valueKeyPrefix = str_bytes ''batchstore_value_''"
definition chainStateKey :: bytes where "chainStateKey = str_bytes ''batchstore_chainstate''"
definition reserveStateKey :: bytes where "reserveStateKey = str_bytes ''batchstore_reservestate''"

definition batchKey :: "bytes \<Rightarrow> bytes" where
  "batchKey batchID = batchKeyPrefix @ batchID"

text \<open>\<open>FillBytes\<close> panics on a value of more than 32 bytes.\<close>

definition valueKey :: "nat \<Rightarrow> bytes \<Rightarrow> bs_error + bytes" where
  "valueKey val batchID =
     (if val < 256 ^ 32 then Inr (valueKeyPrefix @ be_of_nat 32 val @ batchID) else Inl BsPanic)"

definition valueKeyToID :: "bytes \<Rightarrow> bytes" where
  "valueKeyToID key = (let l = length key in slice (l - 32) l key)"

text \<open>\<open>UnmarshalBinary\<close> of anything shorter than a batch, as the other values are, panics.\<close>

fun as_batch :: "bs_value \<Rightarrow> bs_error + batch" where
  "as_batch (BvBatch b) = Inr b"
| "as_batch _ = Inl BsPanic"

text \<open>\<open>1 << e\<close> in \<open>int64\<close>: 0 from 64 on.\<close>

definition exp2 :: "nat \<Rightarrow> 64 word" where
  "exp2 e = push_bit e 1"

definition Capacity :: "64 word" where "Capacity = exp2 22"

section \<open>Store access\<close>

definition bs_put :: "bytes \<Rightarrow> bs_value \<Rightarrow> batchstore \<Rightarrow> bs_error option \<times> batchstore" where
  "bs_put key v s =
     (case kv_Put key v (bs_store s) of
        Inl err \<Rightarrow> (Some (BsStore err), s)
      | Inr st \<Rightarrow> (None, s\<lparr>bs_store := st\<rparr>))"

definition bs_delete :: "bytes \<Rightarrow> batchstore \<Rightarrow> bs_error option \<times> batchstore" where
  "bs_delete key s =
     (case kv_Delete key (bs_store s) of
        Inl err \<Rightarrow> (Some (BsStore err), s)
      | Inr st \<Rightarrow> (None, s\<lparr>bs_store := st\<rparr>))"

fun iter_err :: "(store_error + bs_error) option \<Rightarrow> bs_error option" where
  "iter_err None = None"
| "iter_err (Some (Inl err)) = Some (BsStore err)"
| "iter_err (Some (Inr err)) = Some err"

definition bs_get :: "batchstore \<Rightarrow> bytes \<Rightarrow> bs_error + batch" where
  "bs_get s bid =
     (case kv_Get (bs_store s) (batchKey bid) of
        Inl err \<Rightarrow> Inl (BsStore err)
      | Inr v \<Rightarrow> as_batch v)"

definition bs_Get :: "batchstore \<Rightarrow> bytes \<Rightarrow> bs_error + batch" where
  "bs_Get s bid = bs_get s bid"

definition bs_Exists :: "batchstore \<Rightarrow> bytes \<Rightarrow> bs_error + bool" where
  "bs_Exists s bid =
     (case bs_get s bid of
        Inr b \<Rightarrow> Inr True
      | Inl (BsStore ErrNotFound) \<Rightarrow> Inr False
      | Inl err \<Rightarrow> Inl err)"

definition bs_Iterate ::
  "batchstore \<Rightarrow> (batch \<Rightarrow> 's \<Rightarrow> (bs_error + bool) \<times> 's) \<Rightarrow> 's \<Rightarrow> bs_error option \<times> 's" where
  "bs_Iterate s cb st =
     apfst iter_err (kv_Iterate (bs_store s) batchKeyPrefix
       (\<lambda>key value st. case as_batch value of
          Inl err \<Rightarrow> (Inl err, st)
        | Inr b \<Rightarrow> cb b st) st)"

definition bs_New :: "bs_value kv \<Rightarrow> (bs_call list \<Rightarrow> bytes \<Rightarrow> bool) \<Rightarrow> store_error + batchstore" where
  "bs_New st ev =
     (case (case kv_Get st chainStateKey of
              Inr (BvChain cs) \<Rightarrow> Inr cs
            | Inr _ \<Rightarrow> Inl ErrIO
            | Inl ErrNotFound \<Rightarrow> Inr \<lparr>cs_Block = 0, cs_TotalAmount = 0, cs_CurrentPrice = 0\<rparr>
            | Inl err \<Rightarrow> Inl err) of
        Inl err \<Rightarrow> Inl err
      | Inr cs \<Rightarrow>
          (case (case kv_Get st reserveStateKey of
                   Inr (BvReserve rs) \<Rightarrow> Inr rs
                 | Inr _ \<Rightarrow> Inl ErrIO
                 | Inl ErrNotFound \<Rightarrow> Inr \<lparr>rs_Radius = 0, rs_StorageRadius = 0\<rparr>
                 | Inl err \<Rightarrow> Inl err) of
             Inl err \<Rightarrow> Inl err
           | Inr rs \<Rightarrow> Inr \<lparr>bs_store = st, bs_cs = cs, bs_rs = rs, bs_evict = ev,
                          bs_hasExpiry = False, bs_hasSetter = False, bs_calls = []\<rparr>))"

definition GetReserveState :: "batchstore \<Rightarrow> reserve_state" where
  "GetReserveState s =
     \<lparr>rs_Radius = rs_Radius (bs_rs s), rs_StorageRadius = rs_StorageRadius (bs_rs s)\<rparr>"

definition GetChainState :: "batchstore \<Rightarrow> chain_state" where
  "GetChainState s = bs_cs s"

definition SetStorageRadiusSetter :: "batchstore \<Rightarrow> batchstore" where
  "SetStorageRadiusSetter s = s\<lparr>bs_hasSetter := True\<rparr>"

definition SetBatchExpiryHandler :: "batchstore \<Rightarrow> batchstore" where
  "SetBatchExpiryHandler s = s\<lparr>bs_hasExpiry := True\<rparr>"

definition notify_radius :: "batchstore \<Rightarrow> batchstore" where
  "notify_radius s =
     (if bs_hasSetter s
      then s\<lparr>bs_calls := bs_calls s @ [CallSetRadius (rs_StorageRadius (bs_rs s))]\<rparr> else s)"

section \<open>Expired batches\<close>

definition collect_expired :: "batchstore \<Rightarrow> bs_error option \<times> batch list" where
  "collect_expired s =
     apfst iter_err (kv_Iterate (bs_store s) valueKeyPrefix
       (\<lambda>key value evictions.
          case bs_get s (valueKeyToID key) of
            Inl err \<Rightarrow> (Inl err, evictions)
          | Inr b \<Rightarrow>
              if int (b_Value b) \<le> cs_TotalAmount (bs_cs s)
              then (Inr False, evictions @ [b])
              else (Inr True, evictions)) [])"

definition evict_batch :: "batch \<Rightarrow> batchstore \<Rightarrow> bs_error option \<times> batchstore" where
  "evict_batch b s =
     (let fails = bs_evict s (bs_calls s) (b_ID b);
          s = s\<lparr>bs_calls := bs_calls s @ [CallEvict (b_ID b)]\<rparr>
      in if fails then (Some (BsEvict (b_ID b)), s)
         else
           case valueKey (b_Value b) (b_ID b) of
             Inl err \<Rightarrow> (Some err, s)
           | Inr vk \<Rightarrow>
               (case bs_delete vk s of
                  (Some err, s) \<Rightarrow> (Some err, s)
                | (None, s) \<Rightarrow>
                    (case bs_delete (batchKey (b_ID b)) s of
                       (Some err, s) \<Rightarrow> (Some err, s)
                     | (None, s) \<Rightarrow>
                         (None, if bs_hasExpiry s
                                then s\<lparr>bs_calls := bs_calls s @ [CallExpiry (b_ID b)]\<rparr> else s))))"

fun evict_loop :: "batch list \<Rightarrow> batchstore \<Rightarrow> bs_error option \<times> batchstore" where
  "evict_loop [] s = (None, s)"
| "evict_loop (b # bs) s =
     (case evict_batch b s of
        (Some err, s) \<Rightarrow> (Some err, s)
      | (None, s) \<Rightarrow> evict_loop bs s)"

definition bs_cleanup :: "batchstore \<Rightarrow> bs_error option \<times> batchstore" where
  "bs_cleanup s =
     (case collect_expired s of
        (Some err, _) \<Rightarrow> (Some err, s)
      | (None, evictions) \<Rightarrow> evict_loop evictions s)"

section \<open>The radii\<close>

text \<open>\<open>lowerBatchStorageRadius\<close> writes until the first error.\<close>

fun put_batches :: "batch list \<Rightarrow> batchstore \<Rightarrow> bs_error option \<times> batchstore" where
  "put_batches [] s = (None, s)"
| "put_batches (u # us) s =
     (case bs_put (batchKey (b_ID u)) (BvBatch u) s of
        (Some err, s) \<Rightarrow> (Some err, s)
      | (None, s) \<Rightarrow> put_batches us s)"

definition lowerBatchStorageRadius :: "batchstore \<Rightarrow> bs_error option \<times> batchstore" where
  "lowerBatchStorageRadius s =
     (case kv_Iterate (bs_store s) batchKeyPrefix
             (\<lambda>key value updates. case as_batch value of
                Inl err \<Rightarrow> (Inl err, updates)
              | Inr b \<Rightarrow>
                  if b_StorageRadius b > rs_StorageRadius (bs_rs s)
                  then (Inr False, updates @ [b\<lparr>b_StorageRadius := rs_StorageRadius (bs_rs s)\<rparr>])
                  else (Inr False, updates)) [] of
        (Some err, _) \<Rightarrow> (iter_err (Some err), s)
      | (None, updates) \<Rightarrow> put_batches updates s)"

definition SetStorageRadius :: "(u8 \<Rightarrow> u8) \<Rightarrow> batchstore \<Rightarrow> bs_error option \<times> batchstore" where
  "SetStorageRadius f s =
     (let oldRadius = rs_StorageRadius (bs_rs s);
          newRadius = f oldRadius
      in if newRadius > rs_Radius (bs_rs s) then (Some BsRadiusExceeds, s)
         else
           let s = s\<lparr>bs_rs := (bs_rs s)\<lparr>rs_StorageRadius := newRadius\<rparr>\<rparr>;
               s = notify_radius s;
               s = (if newRadius < oldRadius then snd (lowerBatchStorageRadius s) else s)
           in bs_put reserveStateKey (BvReserve (bs_rs s)) s)"

text \<open>
  \<open>uint8(ceil(log2(total / Capacity)))\<close>, the least exponent that covers the commitment. The code
  computes it in \<open>float64\<close>, which agrees below \<open>2^46\<close> chunks.
\<close>

definition ceil_log2_ratio :: "64 word \<Rightarrow> u8" where
  "ceil_log2_ratio tot =
     of_nat (length (takeWhile (\<lambda>R. unat Capacity * 2 ^ R < unat tot) [0..<42]))"

definition sum_commitment :: "batchstore \<Rightarrow> bs_error option \<times> 64 word" where
  "sum_commitment s =
     apfst iter_err (kv_Iterate (bs_store s) batchKeyPrefix
       (\<lambda>key value totalCommitment. case as_batch value of
          Inl err \<Rightarrow> (Inl err, totalCommitment)
        | Inr b \<Rightarrow> (Inr False, totalCommitment + exp2 (unat (b_Depth b)))) 0)"

definition computeRadius :: "batchstore \<Rightarrow> bs_error option \<times> batchstore" where
  "computeRadius s =
     (case sum_commitment s of
        (Some err, _) \<Rightarrow> (Some err, s)
      | (None, totalCommitment) \<Rightarrow>
          let r = (if sint totalCommitment \<le> sint Capacity then 0
                   else ceil_log2_ratio totalCommitment);
              s = s\<lparr>bs_rs := (bs_rs s)\<lparr>rs_Radius := r\<rparr>\<rparr>;
              s = (if rs_Radius (bs_rs s) < rs_StorageRadius (bs_rs s)
                   then snd (lowerBatchStorageRadius
                          (s\<lparr>bs_rs := (bs_rs s)\<lparr>rs_StorageRadius := rs_Radius (bs_rs s)\<rparr>\<rparr>))
                   else s)
          in bs_put reserveStateKey (BvReserve (bs_rs s)) s)"

text \<open>The iteration of \<open>Unreserve\<close>: the batches to write, the two counts, the callback's state.\<close>

definition unreserve_step ::
  "(bytes \<Rightarrow> u8 \<Rightarrow> 's \<Rightarrow> (bs_error + bool) \<times> 's) \<Rightarrow> batchstore \<Rightarrow> bytes \<Rightarrow>
   batch list \<times> nat \<times> nat \<times> 's \<Rightarrow> (bs_error + bool) \<times> batch list \<times> nat \<times> nat \<times> 's" where
  "unreserve_step cb s key = (\<lambda>(updates, batchesCount, skippedBatches, st).
     let bid = valueKeyToID key; batchesCount = batchesCount + 1 in
     case bs_get s bid of
       Inl err \<Rightarrow> (Inl err, updates, batchesCount, skippedBatches, st)
     | Inr b \<Rightarrow>
         if b_StorageRadius b > rs_StorageRadius (bs_rs s)
         then (Inr False, updates, batchesCount, skippedBatches + 1, st)
         else
           (case cb bid (b_StorageRadius b) st of
              (Inl err, st) \<Rightarrow> (Inl err, updates, batchesCount, skippedBatches, st)
            | (Inr stopped, st) \<Rightarrow>
                (Inr stopped, updates @ [b\<lparr>b_StorageRadius := b_StorageRadius b + 1\<rparr>],
                 batchesCount, skippedBatches, st)))"

text \<open>Errors of these writes are logged.\<close>

fun put_updates :: "batch list \<Rightarrow> batchstore \<Rightarrow> batchstore" where
  "put_updates [] s = s"
| "put_updates (u # us) s = put_updates us (snd (bs_put (batchKey (b_ID u)) (BvBatch u) s))"

definition Unreserve ::
  "(bytes \<Rightarrow> u8 \<Rightarrow> 's \<Rightarrow> (bs_error + bool) \<times> 's) \<Rightarrow> 's \<Rightarrow> batchstore \<Rightarrow>
   bs_error option \<times> 's \<times> batchstore" where
  "Unreserve cb st s =
     (case kv_Iterate (bs_store s) valueKeyPrefix (\<lambda>key value. unreserve_step cb s key)
             ([], 0, 0, st) of
        (Some err, _, _, _, st) \<Rightarrow> (iter_err (Some err), st, s)
      | (None, updates, batchesCount, skippedBatches, st) \<Rightarrow>
          let s = put_updates updates s in
          if batchesCount > 0 \<and> batchesCount = skippedBatches \<and>
             rs_StorageRadius (bs_rs s) < rs_Radius (bs_rs s)
          then
            let s = s\<lparr>bs_rs := (bs_rs s)\<lparr>rs_StorageRadius := rs_StorageRadius (bs_rs s) + 1\<rparr>\<rparr>;
                (r, s) = bs_put reserveStateKey (BvReserve (bs_rs s)) s
            in (r, st, s)
          else (None, st, s))"

section \<open>Saving and updating\<close>

definition saveBatch :: "batch \<Rightarrow> batchstore \<Rightarrow> bs_error option \<times> batchstore" where
  "saveBatch b s =
     (case valueKey (b_Value b) (b_ID b) of
        Inl err \<Rightarrow> (Some err, s)
      | Inr vk \<Rightarrow>
          (case bs_put vk BvNil s of
             (Some err, s) \<Rightarrow> (Some err, s)
           | (None, s) \<Rightarrow>
               (case bs_cleanup s of
                  (Some err, s) \<Rightarrow> (Some err, s)
                | (None, s) \<Rightarrow> computeRadius s)))"

text \<open>\<open>Save\<close> and \<open>Update\<close> change the batch of the caller, which is the second result.\<close>

definition Save :: "batch \<Rightarrow> batchstore \<Rightarrow> bs_error option \<times> batch \<times> batchstore" where
  "Save b s =
     (case bs_get s (b_ID b) of
        Inl (BsStore ErrNotFound) \<Rightarrow>
          (let b = b\<lparr>b_StorageRadius := rs_StorageRadius (bs_rs s)\<rparr> in
           case bs_put (batchKey (b_ID b)) (BvBatch b) s of
             (Some err, s) \<Rightarrow> (Some err, b, s)
           | (None, s) \<Rightarrow>
               (case saveBatch b s of
                  (Some err, s) \<Rightarrow> (Some err, b, s)
                | (None, s) \<Rightarrow> (None, b, notify_radius s)))
      | Inl err \<Rightarrow> (Some err, b, s)
      | Inr _ \<Rightarrow> (Some BsExists, b, s))"

definition Update :: "batch \<Rightarrow> nat \<Rightarrow> u8 \<Rightarrow> batchstore \<Rightarrow> bs_error option \<times> batch \<times> batchstore" where
  "Update b val depth s =
     (case bs_get s (b_ID b) of
        Inl (BsStore ErrNotFound) \<Rightarrow> (Some BsNotFound, b, s)
      | Inl err \<Rightarrow> (Some err, b, s)
      | Inr oldBatch \<Rightarrow>
          (case valueKey (b_Value b) (b_ID b) of
             Inl err \<Rightarrow> (Some err, b, s)
           | Inr vk \<Rightarrow>
               (case bs_delete vk s of
                  (Some err, s) \<Rightarrow> (Some err, b, s)
                | (None, s) \<Rightarrow>
                    (let b = b\<lparr>b_Value := val, b_Depth := depth,
                               b_StorageRadius := b_StorageRadius oldBatch\<rparr> in
                     case bs_put (batchKey (b_ID b)) (BvBatch b) s of
                       (Some err, s) \<Rightarrow> (Some err, b, s)
                     | (None, s) \<Rightarrow>
                         (case saveBatch b s of
                            (Some err, s) \<Rightarrow> (Some err, b, s)
                          | (None, s) \<Rightarrow> (None, b, notify_radius s))))))"

definition PutChainState :: "chain_state \<Rightarrow> batchstore \<Rightarrow> bs_error option \<times> batchstore" where
  "PutChainState cs s =
     (let s = s\<lparr>bs_cs := cs\<rparr> in
      case bs_cleanup s of
        (Some err, s) \<Rightarrow> (Some err, s)
      | (None, s) \<Rightarrow>
          (case computeRadius s of
             (Some err, s) \<Rightarrow> (Some err, s)
           | (None, s) \<Rightarrow> bs_put chainStateKey (BvChain cs) (notify_radius s)))"

text \<open>The callback of \<open>Reset\<close> deletes from the store whose snapshot is iterated.\<close>

definition bs_Reset :: "batchstore \<Rightarrow> bs_error option \<times> batchstore" where
  "bs_Reset s =
     (case kv_Iterate (bs_store s) (str_bytes ''batchstore_'')
             (\<lambda>key value s. case bs_delete key s of
                (Some err, s) \<Rightarrow> (Inl err, s)
              | (None, s) \<Rightarrow> (Inr False, s)) s of
        (Some err, s) \<Rightarrow> (iter_err (Some err), s)
      | (None, s) \<Rightarrow>
          (None, s\<lparr>bs_cs := \<lparr>cs_Block = 0, cs_TotalAmount = 0, cs_CurrentPrice = 0\<rparr>,
                   bs_rs := \<lparr>rs_Radius = 0, rs_StorageRadius = 0\<rparr>\<rparr>))"

end
