(* ===== verification/Batch_Store_Props.thy ===== *)
theory Batch_Store_Props
  imports Batch_Store
begin

text \<open>
  What the batch store promises: the two indexes of the batches agree, expired batches are
  gone after every successful change, and the radius is the least one that covers the
  commitment of the batches. The abstract state is the map from batch IDs to batches; the
  storage radii of the batches are left out of it by \<open>strip\<close>.
\<close>

section \<open>Keys\<close>

definition vkey :: "batch \<Rightarrow> bytes" where
  "vkey b = valueKeyPrefix @ be_of_nat 32 (b_Value b) @ b_ID b"

text \<open>The byte at position 11 tells the four kinds of keys apart.\<close>

lemma key_kinds:
  "batchKey i ! 11 = 98" "vkey b ! 11 = 118" "chainStateKey ! 11 = 99" "reserveStateKey ! 11 = 114"
  by (simp_all add: batchKey_def batchKeyPrefix_def vkey_def valueKeyPrefix_def chainStateKey_def
      reserveStateKey_def nth_append)

lemma has_prefix_nth: "has_prefix p k \<Longrightarrow> i < length p \<Longrightarrow> k ! i = p ! i"
  unfolding has_prefix_def by (metis nth_take)

lemma prefix_kinds:
  "has_prefix valueKeyPrefix k \<Longrightarrow> k ! 11 = 118" "has_prefix batchKeyPrefix k \<Longrightarrow> k ! 11 = 98"
  using has_prefix_nth [of valueKeyPrefix k 11] has_prefix_nth [of batchKeyPrefix k 11]
  by (simp_all add: valueKeyPrefix_def batchKeyPrefix_def)

lemma keys_differ [simp]:
  "batchKey i \<noteq> vkey b" "vkey b \<noteq> batchKey i" "batchKey i \<noteq> chainStateKey"
  "batchKey i \<noteq> reserveStateKey" "vkey b \<noteq> chainStateKey" "vkey b \<noteq> reserveStateKey"
  "chainStateKey \<noteq> batchKey i" "reserveStateKey \<noteq> batchKey i" "chainStateKey \<noteq> vkey b"
  "reserveStateKey \<noteq> vkey b"
  using key_kinds(1) [of i] key_kinds(2) [of b] key_kinds(3,4) by auto

lemma prefix_differ [simp]:
  "\<not> has_prefix valueKeyPrefix (batchKey i)" "\<not> has_prefix valueKeyPrefix chainStateKey"
  "\<not> has_prefix valueKeyPrefix reserveStateKey" "has_prefix valueKeyPrefix (vkey b)"
  "has_prefix batchKeyPrefix (batchKey i)"
  using prefix_kinds(1) [of "batchKey i"] prefix_kinds(1) [of chainStateKey]
    prefix_kinds(1) [of reserveStateKey] key_kinds(1) [of i] key_kinds(3,4)
  by (auto simp: vkey_def batchKey_def)

lemma batchKey_inj [simp]: "batchKey i = batchKey j \<longleftrightarrow> i = j"
  by (simp add: batchKey_def)

lemma has_prefix_batchKey: "has_prefix batchKeyPrefix k \<Longrightarrow> \<exists>i. k = batchKey i"
  unfolding has_prefix_def batchKey_def by (metis append_take_drop_id)


lemma valueKeyToID_vkey [simp]: "length (b_ID b) = 32 \<Longrightarrow> valueKeyToID (vkey b) = b_ID b"
  by (simp add: valueKeyToID_def vkey_def slice_def Let_def)

lemma vkey_less:
  assumes "b_Value b < 256 ^ 32" "b_Value c < 256 ^ 32" "vkey b < vkey c"
  shows "b_Value b \<le> b_Value c"
proof -
  let ?b = "be_of_nat 32 (b_Value b)" and ?c = "be_of_nat 32 (b_Value c)"
  have p: "p @ x < p @ y \<longleftrightarrow> x < y" for p x y :: bytes by (induction p) auto
  have q: "x @ u < y @ v \<Longrightarrow> length x = length y \<Longrightarrow> x \<le> y" for x u y v :: bytes
    by (induction x y rule: list_induct2') auto
  from assms(3) have "?b @ b_ID b < ?c @ b_ID c" by (simp only: vkey_def p)
  then have "?b \<le> ?c" by (rule q) simp
  then have "\<not> ?c < ?b" by simp
  then have "\<not> be_to_nat ?c < be_to_nat ?b" using be_less_iff [of ?c ?b] by simp
  then show ?thesis using assms(1,2) by simp
qed

lemma vkey_eq:
  assumes "length (b_ID b) = 32" "length (b_ID c) = 32" "vkey b = vkey c"
  shows "b_ID b = b_ID c"
  using assms by (metis valueKeyToID_vkey)

section \<open>The invariant of the indexes\<close>

definition bs_map :: "batchstore \<Rightarrow> bytes \<Rightarrow> bs_value option" where
  "bs_map s = kv_map (bs_store s)"

definition bs_batches :: "batchstore \<Rightarrow> bytes \<Rightarrow> batch option" where
  "bs_batches s i = (case bs_map s (batchKey i) of Some (BvBatch b) \<Rightarrow> Some b | _ \<Rightarrow> None)"

definition fits :: "nat \<Rightarrow> bool" where "fits v \<longleftrightarrow> v < 256 ^ 32"

definition index_ok :: "batchstore \<Rightarrow> bool" where
  "index_ok s \<longleftrightarrow> kv_ok (bs_store s) \<and>
     (\<forall>i v. bs_map s (batchKey i) = Some v \<longrightarrow>
        (\<exists>b. v = BvBatch b \<and> b_ID b = i \<and> length i = 32 \<and> fits (b_Value b))) \<and>
     (\<forall>k. has_prefix valueKeyPrefix k \<longrightarrow>
        (bs_map s k \<noteq> None \<longleftrightarrow> (\<exists>i b. bs_batches s i = Some b \<and> k = vkey b)))"

lemma valueKey_vkey:
  "valueKey (b_Value b) (b_ID b) = Inr k \<longleftrightarrow> fits (b_Value b) \<and> k = vkey b"
  by (auto simp: valueKey_def vkey_def fits_def)

lemma bs_batches_Some: "bs_batches s i = Some b \<longleftrightarrow> bs_map s (batchKey i) = Some (BvBatch b)"
  by (simp add: bs_batches_def split: option.split bs_value.split)

lemma index_okD:
  assumes "index_ok s"
  shows "kv_ok (bs_store s)"
    and "bs_batches s i = Some b \<Longrightarrow> b_ID b = i \<and> length i = 32 \<and> fits (b_Value b)"
    and "bs_map s (batchKey i) = Some v \<Longrightarrow> \<exists>b. v = BvBatch b \<and> bs_batches s i = Some b"
    and "has_prefix valueKeyPrefix k \<Longrightarrow>
      bs_map s k \<noteq> None \<longleftrightarrow> (\<exists>i b. bs_batches s i = Some b \<and> k = vkey b)"
proof -
  show "kv_ok (bs_store s)" using assms by (simp add: index_ok_def)
  show "b_ID b = i \<and> length i = 32 \<and> fits (b_Value b)" if "bs_batches s i = Some b"
    using assms that unfolding index_ok_def bs_batches_Some by blast
  show "\<exists>b. v = BvBatch b \<and> bs_batches s i = Some b" if "bs_map s (batchKey i) = Some v"
    using assms that unfolding index_ok_def bs_batches_Some by blast
  show "bs_map s k \<noteq> None \<longleftrightarrow> (\<exists>i b. bs_batches s i = Some b \<and> k = vkey b)"
    if "has_prefix valueKeyPrefix k" using assms that unfolding index_ok_def by blast
qed

lemma bs_get_batches:
  assumes "index_ok s" "bs_get s i = Inr b"
  shows "bs_batches s i = Some b"
proof -
  from assms(2) obtain v where v: "kv_Get (bs_store s) (batchKey i) = Inr v" "as_batch v = Inr b"
    by (auto simp: bs_get_def split: sum.splits)
  have "bs_map s (batchKey i) = Some v"
    using kvs.get_abs [OF index_okD(1) [OF assms(1)] v(1)] by (simp add: bs_map_def)
  with index_okD(3) [OF assms(1) this] v(2) show ?thesis by auto
qed

lemma bs_get_none:
  assumes "bs_get s i = Inl (BsStore ErrNotFound)"
  shows "bs_map s (batchKey i) = None"
proof -
  have "kv_Get (bs_store s) (batchKey i) = Inl ErrNotFound"
    using assms by (auto simp: bs_get_def split: sum.splits elim!: as_batch.elims)
  then show ?thesis by (auto simp: kv_Get_def bs_map_def kv_map_def split: if_splits option.splits)
qed

definition strip :: "batch \<Rightarrow> batch" where "strip b = b\<lparr>b_StorageRadius := 0\<rparr>"

definition bs_abs :: "batchstore \<Rightarrow> bytes \<Rightarrow> batch option" where
  "bs_abs s i = map_option strip (bs_batches s i)"

lemma strip_sel [simp]:
  "b_ID (strip b) = b_ID b" "b_Value (strip b) = b_Value b" "b_Depth (strip b) = b_Depth b"
  "vkey (strip b) = vkey b" "strip (b\<lparr>b_StorageRadius := r\<rparr>) = strip b"
  "strip (strip b) = strip b"
  by (simp_all add: strip_def vkey_def)

lemma strip_eqD: "strip b = strip c \<Longrightarrow> b_ID b = b_ID c \<and> b_Value b = b_Value c \<and> vkey b = vkey c \<and> b_Depth b = b_Depth c"
  by (metis strip_sel)

text \<open>How the writes of the operations change the map.\<close>

lemma bs_put_map:
  assumes "kv_ok (bs_store s)" "bs_put k v s = (None, s')"
  shows "bs_map s' = (bs_map s)(k \<mapsto> v)" "kv_ok (bs_store s')" "bs_cs s' = bs_cs s" "bs_rs s' = bs_rs s"
    "kv_fail (bs_store s') = kv_fail (bs_store s)"
  using assms kvs.put_abs [of "bs_store s" k v] kvs.put_inv [of "bs_store s" k v]
    kv_fail_simps(1) [of k v "bs_store s"]
  by (auto simp: bs_put_def bs_map_def split: sum.splits)

lemma bs_put_err: "bs_put k v s = (Some e, s') \<Longrightarrow> s' = s"
  by (auto simp: bs_put_def split: sum.splits)

lemma bs_delete_map:
  assumes "kv_ok (bs_store s)" "bs_delete k s = (None, s')"
  shows "bs_map s' = (bs_map s)(k := None)" "kv_ok (bs_store s')" "bs_cs s' = bs_cs s" "bs_rs s' = bs_rs s"
    "kv_fail (bs_store s') = kv_fail (bs_store s)"
  using assms kvs.del_abs [of "bs_store s" k] kvs.del_inv [of "bs_store s" k]
    kv_fail_simps(2) [of k "bs_store s"]
  by (auto simp: bs_delete_def bs_map_def split: sum.splits)

text \<open>A write outside the indexes, and one that changes a batch's storage radius only.\<close>

lemma index_ok_cong:
  assumes "index_ok s" "kv_ok (bs_store s')" "\<And>i. bs_map s' (batchKey i) = bs_map s (batchKey i)"
    "\<And>k. has_prefix valueKeyPrefix k \<Longrightarrow> bs_map s' k = bs_map s k"
  shows "index_ok s' \<and> bs_batches s' = bs_batches s"
proof -
  have b: "bs_batches s' = bs_batches s" using assms(3) by (simp add: bs_batches_def fun_eq_iff)
  show ?thesis using assms unfolding index_ok_def b by simp
qed

lemma put_state_key:
  assumes "index_ok s" "bs_put k v s = (r, s')" "k = chainStateKey \<or> k = reserveStateKey"
  shows "index_ok s' \<and> bs_batches s' = bs_batches s \<and> bs_cs s' = bs_cs s \<and> bs_rs s' = bs_rs s"
proof (cases r)
  case None
  with assms have p: "bs_put k v s = (None, s')" by simp
  note m = bs_put_map [OF index_okD(1) [OF assms(1)] p]
  have "index_ok s' \<and> bs_batches s' = bs_batches s"
  proof (rule index_ok_cong [OF assms(1) m(2)])
    show "bs_map s' (batchKey i) = bs_map s (batchKey i)" for i
      using m(1) assms(3) by auto
    show "bs_map s' k' = bs_map s k'" if "has_prefix valueKeyPrefix k'" for k'
    proof -
      have "k' \<noteq> k" using that assms(3) by auto
      then show ?thesis using m(1) by simp
    qed
  qed
  with m(3,4) show ?thesis by simp
next
  case (Some e)
  with assms bs_put_err [of k v s e s'] show ?thesis by simp
qed

lemma put_same_batch:
  assumes ok: "index_ok s" and b: "bs_batches s (b_ID u) = Some b" "strip u = strip b"
    and p: "bs_put (batchKey (b_ID u)) (BvBatch u) s = (r, s')"
  shows "index_ok s' \<and> bs_abs s' = bs_abs s \<and> bs_cs s' = bs_cs s \<and> bs_rs s' = bs_rs s"
proof (cases r)
  case None
  note m = bs_put_map [OF index_okD(1) [OF ok] p [unfolded None]]
  have B: "bs_batches s' = (bs_batches s)(b_ID u \<mapsto> u)"
    using m(1) by (auto simp: bs_batches_def fun_eq_iff)
  have u: "length (b_ID u) = 32" "fits (b_Value u)" "vkey u = vkey b"
    using index_okD(2) [OF ok b(1)] strip_eqD [OF b(2)] by auto
  have k: "(\<exists>i c. bs_batches s' i = Some c \<and> k = vkey c) \<longleftrightarrow> (\<exists>i c. bs_batches s i = Some c \<and> k = vkey c)"
    for k unfolding B using b(1) u(3) by (metis fun_upd_apply option.inject)
  have "index_ok s'"
    unfolding index_ok_def k
  proof (intro conjI allI impI)
    show "\<exists>b. v = BvBatch b \<and> b_ID b = i \<and> length i = 32 \<and> fits (b_Value b)"
      if "bs_map s' (batchKey i) = Some v" for i v
    proof (cases "i = b_ID u")
      case False
      then have "bs_map s (batchKey i) = Some v" using that m(1) by simp
      with ok show ?thesis unfolding index_ok_def by blast
    qed (use that u m(1) in auto)
    show "(bs_map s' k \<noteq> None) = (\<exists>i c. bs_batches s i = Some c \<and> k = vkey c)"
      if "has_prefix valueKeyPrefix k" for k
    proof -
      have "k \<noteq> batchKey (b_ID u)" using that by auto
      then show ?thesis using m(1) index_okD(4) [OF ok that] by simp
    qed
  qed (rule m(2))
  moreover have "bs_abs s' = bs_abs s" using B b by (auto simp: bs_abs_def fun_eq_iff)
  ultimately show ?thesis using m by simp
next
  case (Some e)
  with ok p bs_put_err show ?thesis by blast
qed

section \<open>Expired batches\<close>

lemma kv_entries_batches:
  assumes "index_ok s"
  obtains Bs where "map fst (kv_entries valueKeyPrefix (bs_store s)) = map vkey Bs"
    "sorted (map b_Value Bs)" "\<And>b. b \<in> set Bs \<longleftrightarrow> bs_batches s (b_ID b) = Some b"
    "distinct (map b_ID Bs)"
proof -
  let ?E = "kv_entries valueKeyPrefix (bs_store s)"
  let ?B = "\<lambda>k. the (bs_batches s (valueKeyToID k))"
  let ?Bs = "map ?B (map fst ?E)"
  note ok = index_okD(1) [OF assms]
  have batch: "bs_batches s (b_ID (?B k)) = Some (?B k) \<and> vkey (?B k) = k" if "k \<in> set (map fst ?E)" for k
  proof -
    from that obtain v where "(k, v) \<in> set ?E" by auto
    then have "has_prefix valueKeyPrefix k" "bs_map s k \<noteq> None"
      by (simp_all add: kv_entries_map [OF ok] bs_map_def)
    then obtain i b where b: "bs_batches s i = Some b" "k = vkey b" using index_okD(4) [OF assms] by blast
    then show ?thesis using index_okD(2) [OF assms b(1)] by simp
  qed
  have keys: "map vkey ?Bs = map fst ?E" using batch by (auto intro!: map_idI)
  have member: "b \<in> set ?Bs \<longleftrightarrow> bs_batches s (b_ID b) = Some b" for b
  proof
    assume "b \<in> set ?Bs"
    then obtain k where "k \<in> set (map fst ?E)" "b = ?B k" by auto
    with batch show "bs_batches s (b_ID b) = Some b" by blast
  next
    assume b: "bs_batches s (b_ID b) = Some b"
    have "has_prefix valueKeyPrefix (vkey b)" by simp
    from index_okD(4) [OF assms this] b obtain v where "bs_map s (vkey b) = Some v" by blast
    then have "(vkey b, v) \<in> set ?E" by (simp add: kv_entries_map [OF ok] bs_map_def)
    then have "vkey b \<in> set (map fst ?E)" by force
    moreover have "b = ?B (vkey b)" using index_okD(2) [OF assms b] b by simp
    ultimately show "b \<in> set ?Bs" unfolding set_map [of ?B] by (rule rev_image_eqI)
  qed
  have srt: "sorted_wrt (<) (map vkey ?Bs)" unfolding keys by (rule kv_entries_sorted [OF ok])
  have "sorted (map b_Value ?Bs)"
    unfolding sorted_map
  proof (rule sorted_wrt_mono_rel [OF _ iffD1 [OF sorted_wrt_map [of "(<)" vkey ?Bs] srt]])
    fix b c assume "b \<in> set ?Bs" "c \<in> set ?Bs" "vkey b < vkey c"
    then show "b_Value b \<le> b_Value c"
      using member index_okD(2) [OF assms] vkey_less [of b c] by (auto simp: fits_def)
  qed
  moreover have "distinct (map b_ID ?Bs)"
  proof -
    have "distinct (map vkey ?Bs)" using srt strict_sorted_iff by blast
    then have d: "distinct ?Bs" unfolding distinct_map [of vkey ?Bs] by (rule conjunct1)
    have "inj_on b_ID (set ?Bs)"
    proof (rule inj_onI)
      fix b c assume "b \<in> set ?Bs" "c \<in> set ?Bs" "b_ID b = b_ID c"
      then show "b = c" using member [of b] member [of c] by simp
    qed
    with d show ?thesis by (simp only: distinct_map)
  qed
  ultimately show thesis using that keys [symmetric] member by blast
qed

lemma collect_loop:
  assumes "index_ok s" "\<forall>b \<in> set Bs. bs_batches s (b_ID b) = Some b" "map fst E = map vkey Bs"
    and "iterate_loop (\<lambda>key value evictions.
          case bs_get s (valueKeyToID key) of
            Inl err \<Rightarrow> (Inl err, evictions)
          | Inr b \<Rightarrow> if P b then (Inr False, evictions @ [b]) else (Inr True, evictions)) E acc = (None, evs)"
  shows "evs = acc @ takeWhile P Bs"
  using assms(2-4)
proof (induction Bs arbitrary: E acc)
  case (Cons b Bs)
  then obtain k v E' where E: "E = (k, v) # E'" "k = vkey b" "map fst E' = map vkey Bs" by fastforce
  have b: "bs_batches s (b_ID b) = Some b" using Cons.prems by simp
  then have id: "valueKeyToID (vkey b) = b_ID b" using index_okD(2) [OF assms(1) b] by simp
  from Cons.prems(3) obtain c where c: "bs_get s (b_ID b) = Inr c"
    using E(2) by (auto simp: E(1) id split: sum.splits)
  then have "c = b" using bs_get_batches [OF assms(1) c] b by simp
  with Cons.prems(1,3) Cons.IH [OF _ E(3), of "acc @ [b]"] c show ?case using E(2) by (auto simp: E(1) id split: if_splits)
qed simp

lemma takeWhile_sorted:
  "sorted (map f xs) \<Longrightarrow> takeWhile (\<lambda>x. int (f x) \<le> t) xs = filter (\<lambda>x. int (f x) \<le> t) xs"
proof (induction xs)
  case (Cons x xs)
  have "filter (\<lambda>y. int (f y) \<le> t) xs = []" if "\<not> int (f x) \<le> t"
    using Cons.prems that by (fastforce simp: filter_empty_conv)
  with Cons show ?case by auto
qed simp

definition expired :: "batchstore \<Rightarrow> batch \<Rightarrow> bool" where
  "expired s b \<longleftrightarrow> int (b_Value b) \<le> cs_TotalAmount (bs_cs s)"

lemma iter_err_None [simp]: "iter_err x = None \<longleftrightarrow> x = None"
  by (cases x rule: iter_err.cases) auto

lemma kv_Iterate_None:
  "apfst iter_err (kv_Iterate s pre f st) = (None, r) \<Longrightarrow> iterate_loop f (kv_entries pre s) st = (None, r)"
  by (cases "iterate_loop f (kv_entries pre s) st") (auto simp: kv_Iterate_def split: if_splits)

lemma collect_expired_all:
  assumes "index_ok s" "collect_expired s = (None, evs)"
  shows "b \<in> set evs \<longleftrightarrow> bs_batches s (b_ID b) = Some b \<and> expired s b" "distinct (map b_ID evs)"
proof -
  obtain Bs where Bs: "map fst (kv_entries valueKeyPrefix (bs_store s)) = map vkey Bs"
    "sorted (map b_Value Bs)" "\<And>b. b \<in> set Bs \<longleftrightarrow> bs_batches s (b_ID b) = Some b"
    "distinct (map b_ID Bs)" using kv_entries_batches [OF assms(1)] by blast
  from assms(2) have "iterate_loop (\<lambda>key value evictions.
          case bs_get s (valueKeyToID key) of
            Inl err \<Rightarrow> (Inl err, evictions)
          | Inr b \<Rightarrow> if expired s b then (Inr False, evictions @ [b]) else (Inr True, evictions))
        (kv_entries valueKeyPrefix (bs_store s)) [] = (None, evs)"
    unfolding collect_expired_def expired_def by (rule kv_Iterate_None)
  from collect_loop [OF assms(1) _ Bs(1) this] Bs(3) have "evs = takeWhile (expired s) Bs" by auto
  also have "\<dots> = filter (expired s) Bs" unfolding expired_def using Bs(2) by (rule takeWhile_sorted)
  finally have evs: "evs = filter (expired s) Bs" .
  show "b \<in> set evs \<longleftrightarrow> bs_batches s (b_ID b) = Some b \<and> expired s b" using evs Bs(3) by auto
  show "distinct (map b_ID evs)" unfolding evs using Bs(4) by (rule distinct_map_filter)
qed

lemma evict_batch_map:
  assumes "kv_ok (bs_store s)" "evict_batch b s = (None, s')"
  shows "bs_map s' = (bs_map s)(vkey b := None, batchKey (b_ID b) := None) \<and> kv_ok (bs_store s') \<and>
    bs_cs s' = bs_cs s \<and> bs_rs s' = bs_rs s"
proof -
  let ?s = "s\<lparr>bs_calls := bs_calls s @ [CallEvict (b_ID b)]\<rparr>"
  have s: "kv_ok (bs_store ?s)" "bs_map ?s = bs_map s" using assms(1) by (simp_all add: bs_map_def)
  from assms(2) obtain s1 s2 where d: "bs_delete (vkey b) ?s = (None, s1)"
    "bs_delete (batchKey (b_ID b)) s1 = (None, s2)"
    "s' = (if bs_hasExpiry s2 then s2\<lparr>bs_calls := bs_calls s2 @ [CallExpiry (b_ID b)]\<rparr> else s2)"
    by (auto simp: evict_batch_def Let_def valueKey_vkey split: if_splits sum.splits prod.splits option.splits)
  note m1 = bs_delete_map [OF s(1) d(1)]
  note m2 = bs_delete_map [OF m1(2) d(2)]
  have "bs_map s' = bs_map s2" "bs_store s' = bs_store s2" "bs_cs s' = bs_cs s2" "bs_rs s' = bs_rs s2"
    using d(3) by (auto simp: bs_map_def)
  then show ?thesis using m1 m2 s by simp
qed

lemma evict_loop_map:
  "kv_ok (bs_store s) \<Longrightarrow> evict_loop bs s = (None, s') \<Longrightarrow>
   bs_map s' = (\<lambda>k. if \<exists>b \<in> set bs. k = vkey b \<or> k = batchKey (b_ID b) then None else bs_map s k) \<and>
   kv_ok (bs_store s') \<and> bs_cs s' = bs_cs s \<and> bs_rs s' = bs_rs s"
proof (induction bs s rule: evict_loop.induct)
  case (2 b bs s)
  then obtain s1 where s1: "evict_batch b s = (None, s1)" "evict_loop bs s1 = (None, s')"
    by (auto split: prod.splits option.splits)
  note m = evict_batch_map [OF 2(2) s1(1)]
  from 2(1) [OF s1(1) [symmetric] refl] m s1(2) show ?case by (auto simp: fun_eq_iff)
qed simp

lemma cleanup_spec:
  assumes ok: "index_ok s" and c: "bs_cleanup s = (None, s')"
  shows "index_ok s' \<and> bs_cs s' = bs_cs s \<and> bs_rs s' = bs_rs s \<and>
    bs_batches s' = (\<lambda>i. case bs_batches s i of None \<Rightarrow> None
      | Some b \<Rightarrow> if expired s b then None else Some b)"
proof -
  from c obtain evs where e: "collect_expired s = (None, evs)" "evict_loop evs s = (None, s')"
    by (auto simp: bs_cleanup_def split: prod.splits option.splits)
  note evs = collect_expired_all [OF ok e(1)]
  note m = evict_loop_map [OF index_okD(1) [OF ok] e(2)]
  have gone: "(\<exists>b \<in> set evs. batchKey i = vkey b \<or> batchKey i = batchKey (b_ID b)) \<longleftrightarrow>
      (\<exists>b. bs_batches s i = Some b \<and> expired s b)" for i
    using evs(1) index_okD(2) [OF ok] by auto
  have B: "bs_batches s' = (\<lambda>i. case bs_batches s i of None \<Rightarrow> None
      | Some b \<Rightarrow> if expired s b then None else Some b)"
    using m gone by (auto simp: bs_batches_def fun_eq_iff split: option.splits bs_value.splits)
  have "index_ok s'"
    unfolding index_ok_def
  proof (intro conjI allI impI)
    show "kv_ok (bs_store s')" using m by simp
    show "\<exists>b. v = BvBatch b \<and> b_ID b = i \<and> length i = 32 \<and> fits (b_Value b)"
      if "bs_map s' (batchKey i) = Some v" for i v
    proof -
      have "bs_map s (batchKey i) = Some v" using that m by (auto split: if_splits)
      with ok show ?thesis unfolding index_ok_def by blast
    qed
    fix k assume k: "has_prefix valueKeyPrefix k"
    then have nb: "k \<noteq> batchKey i" for i by auto
    have "bs_map s' k \<noteq> None \<longleftrightarrow> bs_map s k \<noteq> None \<and> (\<forall>b \<in> set evs. k \<noteq> vkey b)"
      using m nb by auto
    also have "\<dots> \<longleftrightarrow> (\<exists>i b. bs_batches s i = Some b \<and> k = vkey b) \<and> (\<forall>b \<in> set evs. k \<noteq> vkey b)"
      using index_okD(4) [OF ok k] by simp
    also have "\<dots> \<longleftrightarrow> (\<exists>i b. bs_batches s' i = Some b \<and> k = vkey b)"
    proof (intro iffI; elim conjE exE)
      fix i b assume b: "bs_batches s i = Some b" "k = vkey b" and n: "\<forall>b \<in> set evs. k \<noteq> vkey b"
      then have "b \<notin> set evs" by auto
      then have "\<not> expired s b" using evs(1) b index_okD(2) [OF ok b(1)] by simp
      with b show "\<exists>i b. bs_batches s' i = Some b \<and> k = vkey b" unfolding B
        by (intro exI [of _ i] exI [of _ b]) simp
    next
      fix i b assume b: "bs_batches s' i = Some b" "k = vkey b"
      then have s: "bs_batches s i = Some b" "\<not> expired s b" unfolding B by (auto split: option.splits if_splits)
      have "\<forall>c \<in> set evs. k \<noteq> vkey c"
      proof (intro ballI notI)
        fix c assume that: "c \<in> set evs" and "k = vkey c"
        then have v: "vkey c = vkey b" using b(2) by simp
        have c: "bs_batches s (b_ID c) = Some c" "expired s c" using that evs(1) by auto
        then have "b_ID c = b_ID b"
          using vkey_eq [OF _ _ v] index_okD(2) [OF ok] s(1) by (metis)
        then show False using c s index_okD(2) [OF ok s(1)] by simp
      qed
      with b(2) s(1) show "(\<exists>i b. bs_batches s i = Some b \<and> k = vkey b) \<and> (\<forall>b \<in> set evs. k \<noteq> vkey b)"
        by blast
    qed
    finally show "bs_map s' k \<noteq> None \<longleftrightarrow> (\<exists>i b. bs_batches s' i = Some b \<and> k = vkey b)" .
  qed
  with B m show ?thesis by simp
qed

section \<open>Storage radii and the radius\<close>

lemma kv_entries_batchKey:
  assumes "index_ok s" "(k, v) \<in> set (kv_entries batchKeyPrefix (bs_store s))"
  shows "\<exists>b. v = BvBatch b \<and> bs_batches s (b_ID b) = Some b \<and> k = batchKey (b_ID b)"
proof -
  from assms(2) have "has_prefix batchKeyPrefix k" "bs_map s k = Some v"
    by (simp_all add: kv_entries_map [OF index_okD(1) [OF assms(1)]] bs_map_def)
  then obtain i where "k = batchKey i" "bs_map s (batchKey i) = Some v"
    using has_prefix_batchKey by blast
  with index_okD(2,3) [OF assms(1)] show ?thesis by metis
qed

definition radius_only :: "batchstore \<Rightarrow> batchstore \<Rightarrow> bool" where
  "radius_only s s' \<longleftrightarrow> index_ok s' \<and> bs_abs s' = bs_abs s \<and> bs_cs s' = bs_cs s \<and> bs_rs s' = bs_rs s"

lemma bs_absD: "bs_abs s' = bs_abs s \<Longrightarrow> bs_batches s i = Some b \<Longrightarrow>
    \<exists>c. bs_batches s' i = Some c \<and> strip c = strip b"
  unfolding bs_abs_def fun_eq_iff by (metis (mono_tags) map_option_eq_Some option.simps(9))

lemma put_batches_radius:
  "index_ok s \<Longrightarrow> \<forall>u \<in> set us. \<exists>b. bs_batches s (b_ID u) = Some b \<and> strip u = strip b \<Longrightarrow>
   put_batches us s = (r, s') \<Longrightarrow> radius_only s s'"
proof (induction us s rule: put_batches.induct)
  case (2 u us s)
  obtain r1 s1 where p: "bs_put (batchKey (b_ID u)) (BvBatch u) s = (r1, s1)" by fastforce
  from 2(3) obtain b where "bs_batches s (b_ID u) = Some b" "strip u = strip b" by auto
  note m = put_same_batch [OF 2(2) this p]
  show ?case
  proof (cases r1)
    case None
    have "\<forall>u \<in> set us. \<exists>b. bs_batches s1 (b_ID u) = Some b \<and> strip u = strip b"
      using 2(3) bs_absD [of s1 s] m by (metis list.set_intros(2))
    with 2(1) [OF p [unfolded None, symmetric] refl] m 2(4) p None show ?thesis
      by (simp add: radius_only_def)
  next
    case (Some e)
    with 2(4) p m show ?thesis by (simp add: radius_only_def)
  qed
qed (simp add: radius_only_def)

lemma lower_updates:
  assumes "\<forall>(k, v) \<in> set E. \<exists>b. v = BvBatch b \<and> Q b"
    and "\<forall>u \<in> set acc. \<exists>b. Q b \<and> b_ID u = b_ID b \<and> strip u = strip b"
    and "iterate_loop (\<lambda>key value updates. case as_batch value of
                Inl err \<Rightarrow> (Inl err, updates)
              | Inr b \<Rightarrow>
                  if b_StorageRadius b > r then (Inr False, updates @ [b\<lparr>b_StorageRadius := r\<rparr>])
                  else (Inr False, updates)) E acc = (x, us)"
  shows "\<forall>u \<in> set us. \<exists>b. Q b \<and> b_ID u = b_ID b \<and> strip u = strip b"
  using assms
proof (induction E arbitrary: acc)
  case (Cons kv E)
  then obtain k b where kv: "kv = (k, BvBatch b)" "Q b" by (cases kv) auto
  let ?acc = "if b_StorageRadius b > r then acc @ [b\<lparr>b_StorageRadius := r\<rparr>] else acc"
  have "\<forall>u \<in> set ?acc. \<exists>b. Q b \<and> b_ID u = b_ID b \<and> strip u = strip b"
    using Cons.prems(2) kv(2) by auto
  moreover have "iterate_loop (\<lambda>key value updates. case as_batch value of
                Inl err \<Rightarrow> (Inl err, updates)
              | Inr b \<Rightarrow>
                  if b_StorageRadius b > r then (Inr False, updates @ [b\<lparr>b_StorageRadius := r\<rparr>])
                  else (Inr False, updates)) E ?acc = (x, us)"
    using Cons.prems(3) by (simp add: kv split: if_splits)
  moreover have "\<forall>(k, v) \<in> set E. \<exists>b. v = BvBatch b \<and> Q b" using Cons.prems(1) by auto
  ultimately show ?case by (intro Cons.IH [of ?acc])
qed simp

lemma lower_radius_only:
  assumes ok: "index_ok s" and l: "lowerBatchStorageRadius s = (r, s')"
  shows "radius_only s s'"
proof -
  let ?f = "\<lambda>key value updates. case as_batch value of
                Inl err \<Rightarrow> (Inl err, updates)
              | Inr b \<Rightarrow>
                  if b_StorageRadius b > rs_StorageRadius (bs_rs s)
                  then (Inr False, updates @ [b\<lparr>b_StorageRadius := rs_StorageRadius (bs_rs s)\<rparr>])
                  else (Inr False, updates)"
  obtain x us where i: "iterate_loop ?f (kv_entries batchKeyPrefix (bs_store s)) [] = (x, us)" by fastforce
  have E: "\<forall>(k, v) \<in> set (kv_entries batchKeyPrefix (bs_store s)).
      \<exists>b. v = BvBatch b \<and> bs_batches s (b_ID b) = Some b"
    using kv_entries_batchKey [OF ok] by fast
  have us: "\<forall>u \<in> set us. \<exists>b. bs_batches s (b_ID u) = Some b \<and> strip u = strip b"
  proof
    fix u assume "u \<in> set us"
    with lower_updates [OF E _ i] obtain b where
      "bs_batches s (b_ID b) = Some b" "b_ID u = b_ID b" "strip u = strip b" by auto
    then show "\<exists>b. bs_batches s (b_ID u) = Some b \<and> strip u = strip b" by (intro exI [of _ b]) simp
  qed
  have refl: "radius_only s s" using ok by (simp add: radius_only_def)
  show ?thesis
    using l i put_batches_radius [OF ok us] refl
    by (auto simp: lowerBatchStorageRadius_def kv_Iterate_def split: if_splits option.splits)
qed

text \<open>The commitment: the number of chunks all batches together can stamp.\<close>

definition commitment :: "batchstore \<Rightarrow> nat" where
  "commitment s = (\<Sum>i \<in> dom (bs_abs s). 2 ^ unat (b_Depth (the (bs_abs s i))))"

lemma radius_only_commitment: "radius_only s s' \<Longrightarrow> commitment s' = commitment s"
  by (simp add: radius_only_def commitment_def)

lemma exp2_nat: "exp2 n = of_nat (2 ^ n)"
  by (simp add: exp2_def push_bit_eq_mult)

fun weight :: "bs_value \<Rightarrow> nat" where
  "weight (BvBatch b) = 2 ^ unat (b_Depth b)"
| "weight _ = 0"

lemma sum_loop:
  assumes "iterate_loop (\<lambda>key value totalCommitment. case as_batch value of
          Inl err \<Rightarrow> (Inl err, totalCommitment)
        | Inr b \<Rightarrow> (Inr False, totalCommitment + exp2 (unat (b_Depth b)))) E acc = (None, w)"
  shows "w = acc + of_nat (\<Sum>kv \<leftarrow> E. weight (snd kv))"
  using assms
proof (induction E arbitrary: acc)
  case (Cons kv E)
  obtain k v where kv: "kv = (k, v)" by fastforce
  from Cons.prems obtain b where "v = BvBatch b" by (cases v) (auto simp: kv)
  with Cons.prems Cons.IH [of "acc + exp2 (unat (b_Depth b))"] kv show ?case by (simp add: exp2_nat)
qed simp

lemma sum_commitment_nat:
  assumes ok: "index_ok s" and c: "sum_commitment s = (None, w)"
  shows "w = of_nat (commitment s)"
proof -
  let ?E = "kv_entries batchKeyPrefix (bs_store s)"
  let ?w = "\<lambda>kv :: bytes \<times> bs_value. weight (snd kv)"
  have w: "w = of_nat (\<Sum>kv \<leftarrow> ?E. ?w kv)"
    using sum_loop [of ?E 0 w] kv_Iterate_None [OF c [unfolded sum_commitment_def]] by simp
  have "distinct (map fst ?E)"
    using kv_entries_sorted [OF index_okD(1) [OF ok]] by (simp add: strict_sorted_iff)
  then have d: "distinct ?E" "inj_on fst (set ?E)" by (simp_all add: distinct_map)
  let ?g = "\<lambda>i. (batchKey i, the (bs_map s (batchKey i)))"
  have img: "set ?E = ?g ` dom (bs_abs s)"
  proof (rule set_eqI)
    fix kv
    have "kv \<in> set ?E \<longleftrightarrow> (\<exists>b. kv = (batchKey (b_ID b), BvBatch b) \<and> bs_batches s (b_ID b) = Some b)"
      using kv_entries_batchKey [OF ok] kv_entries_map [OF index_okD(1) [OF ok]]
      by (cases kv) (auto simp: bs_batches_Some bs_map_def)
    also have "\<dots> \<longleftrightarrow> (\<exists>i. bs_batches s i \<noteq> None \<and> kv = ?g i)"
    proof (intro iffI; elim exE conjE)
      fix b assume b: "kv = (batchKey (b_ID b), BvBatch b)" "bs_batches s (b_ID b) = Some b"
      then show "\<exists>i. bs_batches s i \<noteq> None \<and> kv = ?g i"
        by (intro exI [of _ "b_ID b"]) (simp add: bs_batches_Some)
    next
      fix i assume i: "bs_batches s i \<noteq> None" "kv = ?g i"
      then obtain b where b: "bs_batches s i = Some b" by auto
      then have "b_ID b = i" "bs_map s (batchKey i) = Some (BvBatch b)"
        using index_okD(2) [OF ok b] by (simp_all add: bs_batches_Some)
      with i b show "\<exists>b. kv = (batchKey (b_ID b), BvBatch b) \<and> bs_batches s (b_ID b) = Some b"
        by (intro exI [of _ b]) simp
    qed
    also have "\<dots> \<longleftrightarrow> kv \<in> ?g ` dom (bs_abs s)"
      by (auto simp: bs_abs_def image_iff dom_def)
    finally show "kv \<in> set ?E \<longleftrightarrow> kv \<in> ?g ` dom (bs_abs s)" .
  qed
  have "(\<Sum>kv \<leftarrow> ?E. ?w kv) = (\<Sum>kv \<in> set ?E. ?w kv)" using d(1) by (rule sum_list_distinct_conv_sum_set)
  also have "\<dots> = (\<Sum>i \<in> dom (bs_abs s). ?w (?g i))"
    unfolding img by (subst sum.reindex) (auto simp: inj_on_def)
  also have "\<dots> = commitment s"
    unfolding commitment_def
  proof (rule sum.cong)
    fix i assume "i \<in> dom (bs_abs s)"
    then obtain b where b: "bs_batches s i = Some b" by (auto simp: bs_abs_def)
    then have "bs_map s (batchKey i) = Some (BvBatch b)" by (simp add: bs_batches_Some)
    with b show "?w (?g i) = 2 ^ unat (b_Depth (the (bs_abs s i)))" by (simp add: bs_abs_def)
  qed simp
  finally show ?thesis using w by simp
qed

end
