(* ===== verification/Batch_Store_Ops.thy ===== *)
theory Batch_Store_Ops
  imports Batch_Store_Props
begin

text \<open>
  The operations of the batch store against the map of batches, and the invariant of every
  state the store reaches.
\<close>

section \<open>computeRadius\<close>

definition covers :: "batchstore \<Rightarrow> bool" where
  "covers s \<longleftrightarrow> commitment s \<le> 2 ^ 22 * 2 ^ unat (rs_Radius (bs_rs s)) \<and>
     (0 < rs_Radius (bs_rs s) \<longrightarrow>
        2 ^ 22 * 2 ^ (unat (rs_Radius (bs_rs s)) - 1) < commitment s)"

lemma Capacity_nat: "unat Capacity = 2 ^ 22" "sint Capacity = 2 ^ 22"
  by (simp_all add: Capacity_def exp2_def)

lemma ceil_log2_least:
  assumes "unat w < 2 ^ 63" "2 ^ 22 < unat w"
  shows "unat w \<le> 2 ^ 22 * 2 ^ unat (ceil_log2_ratio w)" "0 < unat (ceil_log2_ratio w)"
    "2 ^ 22 * 2 ^ (unat (ceil_log2_ratio w) - 1) < unat w"
proof -
  let ?P = "\<lambda>R. 2 ^ 22 * 2 ^ R < unat w"
  let ?n = "length (takeWhile ?P [0..<42])"
  have le: "?n \<le> 42" using length_takeWhile_le [of ?P "[0..<42]"] by simp
  then have n: "unat (ceil_log2_ratio w) = ?n" by (simp add: ceil_log2_ratio_def Capacity_nat unat_of_nat)
  have below: "?P R" if "R < ?n" for R
  proof -
    have "takeWhile ?P [0..<42] ! R = R" using that le by (simp add: takeWhile_nth)
    then have "R \<in> set (takeWhile ?P [0..<42])" using that by (metis nth_mem)
    then show ?thesis by (rule set_takeWhileD [THEN conjunct2])
  qed
  have "\<not> ?P 41" using assms(1) by simp
  then have lt: "?n < 42" using below [of 41] le by (cases "?n = 42") auto
  then have "\<not> ?P ([0..<42] ! ?n)" using nth_length_takeWhile [of ?P "[0..<42]"] by simp
  then show "unat w \<le> 2 ^ 22 * 2 ^ unat (ceil_log2_ratio w)" using lt n by simp
  have "?n \<noteq> 0"
  proof
    assume z: "?n = 0"
    then have "\<not> ?P ([0..<42] ! 0)" using nth_length_takeWhile [of ?P "[0..<42]"] by simp
    then show False using assms(2) by simp
  qed
  then show "0 < unat (ceil_log2_ratio w)" "2 ^ 22 * 2 ^ (unat (ceil_log2_ratio w) - 1) < unat w"
    using n below [of "?n - 1"] by simp_all
qed

lemma radius_covers:
  assumes "w = of_nat n" "n < 2 ^ 63"
  defines "r \<equiv> if sint w \<le> sint Capacity then 0 else ceil_log2_ratio w"
  shows "n \<le> 2 ^ 22 * 2 ^ unat r \<and> (0 < r \<longrightarrow> 2 ^ 22 * 2 ^ (unat r - 1) < n)"
proof -
  have u: "unat w = n" using assms(1,2) by (simp add: unat_of_nat)
  then have "uint w = int n" by (simp only: uint_nat)
  then have s: "sint w = int n"
    unfolding sint_uint using assms(2) by (simp add: signed_take_bit_int_eq_self)
  show ?thesis
  proof (cases "n \<le> 2 ^ 22")
    case True
    then show ?thesis by (simp add: r_def s Capacity_nat)
  next
    case False
    then have "r = ceil_log2_ratio w" by (simp add: r_def s Capacity_nat)
    with ceil_log2_least [of w] False assms(2) u show ?thesis by simp
  qed
qed

lemma computeRadius_spec:
  assumes ok: "index_ok s" and c: "computeRadius s = (None, s')"
  shows "index_ok s' \<and> bs_abs s' = bs_abs s \<and> bs_cs s' = bs_cs s \<and>
    rs_StorageRadius (bs_rs s') = min (rs_StorageRadius (bs_rs s)) (rs_Radius (bs_rs s')) \<and>
    (commitment s < 2 ^ 63 \<longrightarrow> covers s')"
proof -
  from c obtain w where w: "sum_commitment s = (None, w)"
    by (auto simp: computeRadius_def split: prod.splits option.splits)
  define r where "r = (if sint w \<le> sint Capacity then 0 else ceil_log2_ratio w)"
  define s1 where "s1 = s\<lparr>bs_rs := (bs_rs s)\<lparr>rs_Radius := r\<rparr>\<rparr>"
  define s2 where "s2 = (if r < rs_StorageRadius (bs_rs s)
    then snd (lowerBatchStorageRadius (s1\<lparr>bs_rs := (bs_rs s1)\<lparr>rs_StorageRadius := r\<rparr>\<rparr>)) else s1)"
  have p: "bs_put reserveStateKey (BvReserve (bs_rs s2)) s2 = (None, s')"
    using c by (simp add: computeRadius_def w Let_def r_def [symmetric] s1_def s2_def cong: if_cong)
  have i1: "index_ok (s\<lparr>bs_rs := q\<rparr>)" "bs_abs (s\<lparr>bs_rs := q\<rparr>) = bs_abs s" for q
    using ok by (simp_all add: index_ok_def bs_abs_def bs_batches_def bs_map_def fun_eq_iff)
  have i2: "index_ok s2 \<and> bs_abs s2 = bs_abs s \<and> bs_cs s2 = bs_cs s \<and> rs_Radius (bs_rs s2) = r \<and>
      rs_StorageRadius (bs_rs s2) = min (rs_StorageRadius (bs_rs s)) r"
  proof (cases "r < rs_StorageRadius (bs_rs s)")
    case True
    let ?t = "s1\<lparr>bs_rs := (bs_rs s1)\<lparr>rs_StorageRadius := r\<rparr>\<rparr>"
    have "index_ok ?t" "bs_abs ?t = bs_abs s" using i1 by (simp_all add: s1_def)
    moreover obtain x t where l: "lowerBatchStorageRadius ?t = (x, t)" by fastforce
    ultimately have "radius_only ?t t" by (intro lower_radius_only)
    with l True \<open>bs_abs ?t = bs_abs s\<close> show ?thesis
      by (simp add: radius_only_def s2_def s1_def min_absorb2)
  next
    case False
    then show ?thesis using i1 by (simp add: s2_def s1_def min_absorb1)
  qed
  have k: "index_ok s' \<and> bs_batches s' = bs_batches s2 \<and> bs_cs s' = bs_cs s2 \<and> bs_rs s' = bs_rs s2"
    using put_state_key [OF _ p] i2 by simp
  then have a: "bs_abs s' = bs_abs s" using i2 by (simp add: bs_abs_def fun_eq_iff)
  have "covers s'" if "commitment s < 2 ^ 63"
    using radius_covers [OF sum_commitment_nat [OF ok w] that] a k i2
    by (simp add: covers_def commitment_def r_def)
  with k i2 a show ?thesis by simp
qed

section \<open>The operations on the map of batches\<close>

definition after_expiry :: "int \<Rightarrow> (bytes \<Rightarrow> batch option) \<Rightarrow> bytes \<Rightarrow> batch option" where
  "after_expiry t m i = (case m i of None \<Rightarrow> None
     | Some b \<Rightarrow> if int (b_Value b) \<le> t then None else Some b)"

lemma cleanup_abs:
  assumes "index_ok s" "bs_cleanup s = (None, s')"
  shows "index_ok s'" "bs_abs s' = after_expiry (cs_TotalAmount (bs_cs s)) (bs_abs s)"
    "bs_cs s' = bs_cs s" "bs_rs s' = bs_rs s"
  using cleanup_spec [OF assms]
  by (auto simp: bs_abs_def after_expiry_def expired_def fun_eq_iff split: option.split)

lemma notify_radius_same:
  "bs_store (notify_radius s) = bs_store s" "bs_cs (notify_radius s) = bs_cs s" "bs_rs (notify_radius s) = bs_rs s"
  by (simp_all add: notify_radius_def)

lemma same_store:
  assumes "bs_store s' = bs_store s"
  shows "index_ok s' = index_ok s" "bs_abs s' = bs_abs s" "bs_batches s' = bs_batches s"
    "bs_map s' = bs_map s"
  using assms by (simp_all add: index_ok_def bs_abs_def bs_batches_def bs_map_def fun_eq_iff)

definition bs_post :: "batchstore \<Rightarrow> (bytes \<Rightarrow> batch option) \<Rightarrow> batchstore \<Rightarrow> bool" where
  "bs_post s m s' \<longleftrightarrow> index_ok s' \<and> bs_abs s' = m \<and>
     rs_StorageRadius (bs_rs s') = min (rs_StorageRadius (bs_rs s)) (rs_Radius (bs_rs s')) \<and>
     (commitment s' < 2 ^ 63 \<longrightarrow> covers s')"

lemma commitment_cong: "bs_abs s' = bs_abs s \<Longrightarrow> commitment s' = commitment s"
  by (simp add: commitment_def)

lemma covers_cong: "bs_abs s' = bs_abs s \<Longrightarrow> bs_rs s' = bs_rs s \<Longrightarrow> covers s' = covers s"
  by (simp add: covers_def commitment_def)

lemma cleanup_radius_spec:
  assumes "index_ok s" "bs_cleanup s = (None, s1)" "computeRadius s1 = (None, s2)"
  shows "bs_post s (after_expiry (cs_TotalAmount (bs_cs s)) (bs_abs s)) s2 \<and> bs_cs s2 = bs_cs s"
  using cleanup_abs [OF assms(1,2)] computeRadius_spec [OF _ assms(3)] commitment_cong [of s2 s1]
  by (simp add: bs_post_def)

lemma bs_post_same:
  assumes "bs_post s m s1" "bs_abs s2 = bs_abs s1" "index_ok s2" "bs_rs s2 = bs_rs s1"
  shows "bs_post s m s2"
  using assms covers_cong [of s2 s1] commitment_cong [of s2 s1] by (simp add: bs_post_def)

lemma PutChainState_post:
  assumes ok: "index_ok s" and p: "PutChainState cs s = (None, s')"
  shows "bs_post s (after_expiry (cs_TotalAmount cs) (bs_abs s)) s' \<and> bs_cs s' = cs"
proof -
  let ?s = "s\<lparr>bs_cs := cs\<rparr>"
  have s: "index_ok ?s" "bs_abs ?s = bs_abs s" using ok same_store [of ?s s] by simp_all
  from p obtain s1 s2 where c: "bs_cleanup ?s = (None, s1)" "computeRadius s1 = (None, s2)"
    "bs_put chainStateKey (BvChain cs) (notify_radius s2) = (None, s')"
    by (auto simp: PutChainState_def Let_def split: prod.splits option.splits)
  have post: "bs_post s (after_expiry (cs_TotalAmount cs) (bs_abs s)) s2" "bs_cs s2 = cs"
    using cleanup_radius_spec [OF s(1) c(1,2)] s(2) by (simp_all add: bs_post_def)
  have n: "index_ok (notify_radius s2)" "bs_abs (notify_radius s2) = bs_abs s2"
    using same_store [of "notify_radius s2" s2] post(1) by (simp_all add: notify_radius_same bs_post_def)
  from put_state_key [OF n(1) c(3)] n(2) notify_radius_same [of s2]
  have "index_ok s'" "bs_abs s' = bs_abs s2" "bs_rs s' = bs_rs s2" "bs_cs s' = bs_cs s2"
    by (auto simp: bs_abs_def fun_eq_iff)
  with post bs_post_same show ?thesis by metis
qed

text \<open>A batch and its value key written together, the key of the old value removed.\<close>

lemma add_batch:
  assumes ok: "index_ok s" and kv: "kv_ok (bs_store s2)"
    and m: "bs_map s2 = ((bs_map s)(k := None))(batchKey (b_ID b) \<mapsto> BvBatch b, vkey b \<mapsto> BvNil)"
    and k: "k = (case bs_batches s (b_ID b) of None \<Rightarrow> vkey b | Some old \<Rightarrow> vkey old)"
    and b: "length (b_ID b) = 32" "fits (b_Value b)"
  shows "index_ok s2 \<and> bs_batches s2 = (bs_batches s)(b_ID b \<mapsto> b)"
proof -
  have kk: "k \<noteq> batchKey i" for i unfolding k by (auto split: option.split)
  have B: "bs_batches s2 = (bs_batches s)(b_ID b \<mapsto> b)"
    using kk unfolding m bs_batches_def by (auto simp: m bs_batches_def fun_eq_iff kk [symmetric])
  have old: "vkey c \<noteq> k" if c: "bs_batches s i = Some c" "i \<noteq> b_ID b" for i c
  proof (cases "bs_batches s (b_ID b)")
    case None
    then have "k = vkey b" using k by simp
    then show ?thesis using vkey_eq [of c b] index_okD(2) [OF ok c(1)] b(1) c(2) by auto
  next
    case (Some o')
    then show ?thesis
      using vkey_eq [of c o'] index_okD(2) [OF ok c(1)] index_okD(2) [OF ok Some] c(2) k by auto
  qed
  have "index_ok s2"
    unfolding index_ok_def
  proof (intro conjI allI impI)
    show "kv_ok (bs_store s2)" by (rule kv)
    show "\<exists>c. v = BvBatch c \<and> b_ID c = i \<and> length i = 32 \<and> fits (b_Value c)"
      if "bs_map s2 (batchKey i) = Some v" for i v
    proof (cases "i = b_ID b")
      case False
      then have "bs_map s (batchKey i) = Some v" using that by (simp add: m kk [symmetric])
      with ok show ?thesis unfolding index_ok_def by blast
    qed (use that b in \<open>auto simp: m\<close>)
    fix k' assume pre: "has_prefix valueKeyPrefix k'"
    then have nb: "k' \<noteq> batchKey i" for i by auto
    have "bs_map s2 k' \<noteq> None \<longleftrightarrow> k' = vkey b \<or> k' \<noteq> k \<and> bs_map s k' \<noteq> None"
      using nb by (simp add: m)
    also have "\<dots> \<longleftrightarrow> k' = vkey b \<or> k' \<noteq> k \<and> (\<exists>i c. bs_batches s i = Some c \<and> k' = vkey c)"
      using index_okD(4) [OF ok pre] by simp
    also have "\<dots> \<longleftrightarrow> k' = vkey b \<or> (\<exists>i c. i \<noteq> b_ID b \<and> bs_batches s i = Some c \<and> k' = vkey c)"
      using old k by (metis option.simps(5))
    also have "\<dots> \<longleftrightarrow> (\<exists>i c. bs_batches s2 i = Some c \<and> k' = vkey c)"
      unfolding B by (metis fun_upd_apply option.inject)
    finally show "bs_map s2 k' \<noteq> None \<longleftrightarrow> (\<exists>i c. bs_batches s2 i = Some c \<and> k' = vkey c)" .
  qed
  with B show ?thesis by simp
qed

lemma saveBatch_post:
  assumes ok: "index_ok s" and kv: "kv_ok (bs_store s1)"
    and m: "bs_map s1 = ((bs_map s)(k := None))(batchKey (b_ID b) \<mapsto> BvBatch b)"
    and k: "k = (case bs_batches s (b_ID b) of None \<Rightarrow> vkey b | Some old \<Rightarrow> vkey old)"
    and b: "length (b_ID b) = 32" and rs: "bs_rs s1 = bs_rs s" "bs_cs s1 = bs_cs s"
    and sv: "saveBatch b s1 = (None, s')"
  shows "bs_post s (after_expiry (cs_TotalAmount (bs_cs s)) ((bs_abs s)(b_ID b \<mapsto> strip b))) s' \<and>
    bs_cs s' = bs_cs s"
proof -
  from sv obtain vk s2 s3 where v: "valueKey (b_Value b) (b_ID b) = Inr vk"
    "bs_put vk BvNil s1 = (None, s2)" "bs_cleanup s2 = (None, s3)" "computeRadius s3 = (None, s')"
    by (auto simp: saveBatch_def split: prod.splits option.splits sum.splits)
  then have f: "fits (b_Value b)" and vk: "vk = vkey b" by (simp_all add: valueKey_vkey)
  note p = bs_put_map [OF kv v(2)]
  have m2: "bs_map s2 = ((bs_map s)(k := None))(batchKey (b_ID b) \<mapsto> BvBatch b, vkey b \<mapsto> BvNil)"
    using p(1) m vk by simp
  have s2: "index_ok s2 \<and> bs_batches s2 = (bs_batches s)(b_ID b \<mapsto> b)"
    by (rule add_batch [OF ok p(2) m2 k b f])
  then have "bs_abs s2 = (bs_abs s)(b_ID b \<mapsto> strip b)" by (auto simp: bs_abs_def fun_eq_iff)
  with cleanup_radius_spec [OF _ v(3,4)] s2 p rs show ?thesis by (simp add: bs_post_def)
qed

lemma Save_post:
  assumes ok: "index_ok s" and b: "length (b_ID b) = 32" and sv: "Save b s = (None, b', s')"
  shows "bs_abs s (b_ID b) = None \<and> b' = b\<lparr>b_StorageRadius := rs_StorageRadius (bs_rs s)\<rparr> \<and>
    bs_post s (after_expiry (cs_TotalAmount (bs_cs s)) ((bs_abs s)(b_ID b \<mapsto> strip b))) s' \<and>
    bs_cs s' = bs_cs s"
proof -
  let ?b = "b\<lparr>b_StorageRadius := rs_StorageRadius (bs_rs s)\<rparr>"
  from sv have g: "bs_get s (b_ID b) = Inl (BsStore ErrNotFound)"
    by (auto simp: Save_def split: sum.splits bs_error.splits store_error.splits)
  with sv obtain s1 s2 where p: "bs_put (batchKey (b_ID b)) (BvBatch ?b) s = (None, s1)"
    "saveBatch ?b s1 = (None, s2)" "b' = ?b" "s' = notify_radius s2"
    by (auto simp: Save_def Let_def split: prod.splits option.splits)
  have none: "bs_map s (batchKey (b_ID b)) = None" using g by (rule bs_get_none)
  then have nb: "bs_batches s (b_ID b) = None" by (simp add: bs_batches_def)
  note m = bs_put_map [OF index_okD(1) [OF ok] p(1)]
  have vn: "bs_map s (vkey ?b) = None"
  proof (rule ccontr)
    assume "bs_map s (vkey ?b) \<noteq> None"
    moreover have "has_prefix valueKeyPrefix (vkey ?b)" by simp
    ultimately obtain i c where c: "bs_batches s i = Some c" "vkey ?b = vkey c"
      using index_okD(4) [OF ok] by blast
    then have "i = b_ID b" using vkey_eq [of ?b c] index_okD(2) [OF ok c(1)] b by simp
    with c nb show False by simp
  qed
  have "bs_map s1 = ((bs_map s)(vkey ?b := None))(batchKey (b_ID ?b) \<mapsto> BvBatch ?b)"
    using m(1) vn by (auto simp: fun_eq_iff)
  from saveBatch_post [OF ok m(2) this _ _ m(4) m(3) p(2)] nb b
  have post: "bs_post s (after_expiry (cs_TotalAmount (bs_cs s)) ((bs_abs s)(b_ID b \<mapsto> strip b))) s2"
    "bs_cs s2 = bs_cs s" by simp_all
  have "bs_post s (after_expiry (cs_TotalAmount (bs_cs s)) ((bs_abs s)(b_ID b \<mapsto> strip b))) s'"
    using bs_post_same [OF post(1)] same_store [of s' s2] post(1) p(4)
    by (simp add: notify_radius_same bs_post_def)
  with nb p post(2) show ?thesis by (simp add: bs_abs_def notify_radius_same)
qed

lemma Update_post:
  assumes ok: "index_ok s" and old: "bs_batches s (b_ID b) = Some old" "b_Value b = b_Value old"
    and up: "Update b val depth s = (None, b', s')"
  shows "bs_post s (after_expiry (cs_TotalAmount (bs_cs s))
      ((bs_abs s)(b_ID b \<mapsto> strip (b\<lparr>b_Value := val, b_Depth := depth\<rparr>)))) s' \<and> bs_cs s' = bs_cs s"
proof -
  from up obtain c where "bs_get s (b_ID b) = Inr c"
    by (auto simp: Update_def split: sum.splits bs_error.splits store_error.splits)
  moreover from this have "c = old" using bs_get_batches [OF ok] old(1) by fastforce
  ultimately have g: "bs_get s (b_ID b) = Inr old" by simp
  let ?b = "b\<lparr>b_Value := val, b_Depth := depth, b_StorageRadius := b_StorageRadius old\<rparr>"
  from up g obtain vk s1 s2 s3 where p: "valueKey (b_Value b) (b_ID b) = Inr vk"
    "bs_delete vk s = (None, s1)" "bs_put (batchKey (b_ID b)) (BvBatch ?b) s1 = (None, s2)"
    "saveBatch ?b s2 = (None, s3)" "s' = notify_radius s3"
    by (auto simp: Update_def Let_def split: prod.splits option.splits sum.splits)
  have id: "b_ID old = b_ID b" "length (b_ID b) = 32" using index_okD(2) [OF ok old(1)] by simp_all
  have "valueKey (b_Value old) (b_ID old) = Inr vk" using p(1) old(2) id(1) by simp
  then have vk: "vk = vkey old" by (simp add: valueKey_vkey)
  note d = bs_delete_map [OF index_okD(1) [OF ok] p(2)]
  note m = bs_put_map [OF d(2) p(3)]
  have "bs_map s2 = ((bs_map s)(vkey old := None))(batchKey (b_ID ?b) \<mapsto> BvBatch ?b)"
    using m(1) d(1) vk by simp
  from saveBatch_post [OF ok m(2) this _ _ _ _ p(4)] old(1) id m d
  have post: "bs_post s (after_expiry (cs_TotalAmount (bs_cs s))
      ((bs_abs s)(b_ID b \<mapsto> strip (b\<lparr>b_Value := val, b_Depth := depth\<rparr>)))) s3" "bs_cs s3 = bs_cs s"
    by (simp_all add: strip_def)
  have "bs_post s (after_expiry (cs_TotalAmount (bs_cs s))
      ((bs_abs s)(b_ID b \<mapsto> strip (b\<lparr>b_Value := val, b_Depth := depth\<rparr>)))) s'"
    using bs_post_same [OF post(1)] same_store [of s' s3] post(1) p(5)
    by (simp add: notify_radius_same bs_post_def)
  with p post(2) show ?thesis by (simp add: notify_radius_same)
qed

section \<open>Unreserve and SetStorageRadius\<close>

lemma iterate_invariant:
  assumes step: "\<And>k v st. I st \<Longrightarrow> I (snd (f k v st))"
  shows "I st \<Longrightarrow> iterate_loop f E st = (r, st') \<Longrightarrow> I st'"
proof (induction E arbitrary: st)
  case (Cons kv E)
  obtain k v where kv: "kv = (k, v)" by fastforce
  obtain x st1 where f: "f k v st = (x, st1)" by fastforce
  have "I st1" using step [OF Cons.prems(1), of k v] f by simp
  with Cons.IH [of st1] Cons.prems(2) f kv show ?case by (cases x) (auto split: if_splits)
qed simp

lemma put_updates_radius:
  "index_ok s \<Longrightarrow> \<forall>u \<in> set us. \<exists>b. bs_batches s (b_ID u) = Some b \<and> strip u = strip b \<Longrightarrow>
   radius_only s (put_updates us s)"
proof (induction us s rule: put_updates.induct)
  case (2 u us s)
  obtain r1 s1 where p: "bs_put (batchKey (b_ID u)) (BvBatch u) s = (r1, s1)" by fastforce
  from 2(3) obtain b where "bs_batches s (b_ID u) = Some b" "strip u = strip b" by auto
  note m = put_same_batch [OF 2(2) this p]
  have "\<forall>u \<in> set us. \<exists>b. bs_batches s1 (b_ID u) = Some b \<and> strip u = strip b"
    using 2(3) bs_absD [of s1 s] m by (metis list.set_intros(2))
  with 2(1) m p show ?case by (simp add: radius_only_def)
qed (simp add: radius_only_def)

text \<open>
  \<open>Unreserve\<close> leaves the map of batches and the radius alone, and the storage radius rises by
  at most one, never above the radius.
\<close>

lemma Unreserve_post:
  assumes ok: "index_ok s" and u: "Unreserve cb st s = (r, st', s')"
  shows "index_ok s' \<and> bs_abs s' = bs_abs s \<and> bs_cs s' = bs_cs s \<and>
    rs_Radius (bs_rs s') = rs_Radius (bs_rs s) \<and>
    (rs_StorageRadius (bs_rs s') = rs_StorageRadius (bs_rs s) \<or>
     rs_StorageRadius (bs_rs s) < rs_Radius (bs_rs s) \<and>
     rs_StorageRadius (bs_rs s') = rs_StorageRadius (bs_rs s) + 1)"
proof -
  let ?f = "\<lambda>key value. unreserve_step cb s key"
  let ?E = "kv_entries valueKeyPrefix (bs_store s)"
  let ?I = "\<lambda>(us, n, m, st :: 'a). \<forall>u \<in> set us. \<exists>b. bs_batches s (b_ID u) = Some b \<and> strip u = strip b"
  obtain x us n m st1 where i: "iterate_loop ?f ?E ([], 0, 0, st) = (x, us, n, m, st1)"
    by (metis prod_cases5)
  have step: "?I (snd (unreserve_step cb s k q))" if "?I q" for k q
  proof -
    obtain us n m st2 where q: "q = (us, n, m, st2)" by (metis prod_cases4)
    show ?thesis
    proof (cases "bs_get s (valueKeyToID k)")
      case (Inr b)
      then have "bs_batches s (b_ID b) = Some b"
        using bs_get_batches [OF ok Inr] index_okD(2) [OF ok] by metis
      then have "\<exists>c. bs_batches s (b_ID b) = Some c \<and> strip b = strip c" by simp
      with Inr that q show ?thesis
        by (auto simp: unreserve_step_def Let_def split: prod.split sum.split)
    qed (use that q in \<open>simp add: unreserve_step_def Let_def\<close>)
  qed
  have us: "\<forall>u \<in> set us. \<exists>b. bs_batches s (b_ID u) = Some b \<and> strip u = strip b"
    using iterate_invariant [of ?I ?f "([], 0, 0, st)" ?E x, OF step _ i] by simp
  define s1 where "s1 = put_updates us s"
  have s1: "radius_only s s1" unfolding s1_def by (rule put_updates_radius [OF ok us])
  let ?c = "n > 0 \<and> n = m \<and> rs_StorageRadius (bs_rs s1) < rs_Radius (bs_rs s1)"
  let ?t = "s1\<lparr>bs_rs := (bs_rs s1)\<lparr>rs_StorageRadius := rs_StorageRadius (bs_rs s1) + 1\<rparr>\<rparr>"
  have "s' = s \<or> s' = s1 \<or> ?c \<and> s' = snd (bs_put reserveStateKey (BvReserve (bs_rs ?t)) ?t)"
    using u i by (auto simp: Unreserve_def kv_Iterate_def s1_def Let_def split: if_splits option.splits prod.splits)
  then consider "s' = s" | "s' = s1" | "?c" "s' = snd (bs_put reserveStateKey (BvReserve (bs_rs ?t)) ?t)"
    by blast
  then show ?thesis
  proof cases
    case 3
    have t: "index_ok ?t" "bs_abs ?t = bs_abs s" "bs_cs ?t = bs_cs s"
      using s1 same_store [of ?t s1] by (simp_all add: radius_only_def)
    obtain y where "bs_put reserveStateKey (BvReserve (bs_rs ?t)) ?t = (y, s')"
      using 3 by (metis prod.collapse)
    from put_state_key [OF t(1) this] t 3 s1 show ?thesis
      by (simp add: radius_only_def bs_abs_def fun_eq_iff)
  qed (use ok s1 in \<open>simp_all add: radius_only_def\<close>)
qed

lemma SetStorageRadius_post:
  assumes ok: "index_ok s" and u: "SetStorageRadius f s = (r, s')"
    and sr: "rs_StorageRadius (bs_rs s) \<le> rs_Radius (bs_rs s)"
  shows "index_ok s' \<and> bs_abs s' = bs_abs s \<and> bs_cs s' = bs_cs s \<and>
    rs_Radius (bs_rs s') = rs_Radius (bs_rs s) \<and>
    (if f (rs_StorageRadius (bs_rs s)) \<le> rs_Radius (bs_rs s)
     then rs_StorageRadius (bs_rs s') = f (rs_StorageRadius (bs_rs s))
     else r = Some BsRadiusExceeds \<and> s' = s)"
proof (cases "f (rs_StorageRadius (bs_rs s)) \<le> rs_Radius (bs_rs s)")
  case True
  let ?n = "f (rs_StorageRadius (bs_rs s))"
  define s1 where "s1 = notify_radius (s\<lparr>bs_rs := (bs_rs s)\<lparr>rs_StorageRadius := ?n\<rparr>\<rparr>)"
  define s2 where "s2 = (if ?n < rs_StorageRadius (bs_rs s) then snd (lowerBatchStorageRadius s1) else s1)"
  have p: "bs_put reserveStateKey (BvReserve (bs_rs s2)) s2 = (r, s')"
  proof -
    have "\<not> rs_Radius (bs_rs s) < ?n" using True by simp
    with u show ?thesis unfolding SetStorageRadius_def Let_def s1_def s2_def by (simp only: if_False)
  qed
  have s1: "index_ok s1" "bs_abs s1 = bs_abs s" "bs_cs s1 = bs_cs s"
    "bs_rs s1 = (bs_rs s)\<lparr>rs_StorageRadius := ?n\<rparr>"
    using ok same_store [of s1 s] by (simp_all add: s1_def notify_radius_same)
  obtain x t where l: "lowerBatchStorageRadius s1 = (x, t)" by fastforce
  have "radius_only s1 s2"
    using lower_radius_only [OF s1(1) l] l s1 by (simp add: s2_def radius_only_def)
  with put_state_key [OF _ p] s1 True show ?thesis
    by (simp add: radius_only_def bs_abs_def fun_eq_iff)
next
  case False
  then have "rs_Radius (bs_rs s) < f (rs_StorageRadius (bs_rs s))" by simp
  with u ok False show ?thesis by (simp add: SetStorageRadius_def Let_def)
qed

section \<open>Reset\<close>

lemma reset_loop:
  assumes "kv_ok (bs_store s)" "iterate_loop (\<lambda>key value s. case bs_delete key s of
                (Some err, s) \<Rightarrow> (Inl err, s)
              | (None, s) \<Rightarrow> (Inr False, s)) E s = (None, s')"
  shows "kv_ok (bs_store s') \<and> bs_map s' = (\<lambda>k. if k \<in> fst ` set E then None else bs_map s k)"
  using assms
proof (induction E arbitrary: s)
  case (Cons kv E)
  obtain k v where kv: "kv = (k, v)" by fastforce
  from Cons.prems(2) obtain s1 where d: "bs_delete k s = (None, s1)"
    by (auto simp: kv split: prod.splits option.splits)
  note m = bs_delete_map [OF Cons.prems(1) d]
  from Cons.IH [OF m(2)] Cons.prems(2) d m(1) show ?case by (auto simp: kv fun_eq_iff)
qed simp

lemma batchstore_prefix:
  "has_prefix (str_bytes ''batchstore_'') (batchKey i)"
  "has_prefix valueKeyPrefix k \<Longrightarrow> has_prefix (str_bytes ''batchstore_'') k"
proof -
  show "has_prefix (str_bytes ''batchstore_'') (batchKey i)"
    by (simp add: has_prefix_def batchKey_def batchKeyPrefix_def)
  have p: "take 11 valueKeyPrefix = str_bytes ''batchstore_''" by (simp add: valueKeyPrefix_def)
  assume "has_prefix valueKeyPrefix k"
  then have "take 11 (take (length valueKeyPrefix) k) = take 11 valueKeyPrefix"
    by (simp add: has_prefix_def)
  then have "take 11 k = take 11 valueKeyPrefix" by (simp add: valueKeyPrefix_def min_def)
  then show "has_prefix (str_bytes ''batchstore_'') k"
    unfolding p by (simp add: has_prefix_def numeral_eq_Suc)
qed

lemma empty_index:
  assumes "kv_ok (bs_store s)" "\<And>k. has_prefix (str_bytes ''batchstore_'') k \<Longrightarrow> bs_map s k = None"
  shows "index_ok s \<and> bs_abs s = (\<lambda>i. None)"
proof -
  have b: "bs_batches s = (\<lambda>i. None)"
    using assms(2) batchstore_prefix(1) by (simp add: bs_batches_def fun_eq_iff)
  then show ?thesis
    unfolding index_ok_def using assms batchstore_prefix by (simp add: bs_abs_def fun_eq_iff)
qed

lemma Reset_post:
  assumes ok: "index_ok s" and r: "bs_Reset s = (None, s')"
  shows "index_ok s' \<and> bs_abs s' = (\<lambda>i. None) \<and> bs_rs s' = \<lparr>rs_Radius = 0, rs_StorageRadius = 0\<rparr>"
proof -
  let ?f = "\<lambda>key (value :: bs_value) s. case bs_delete key s of
                (Some err, s) \<Rightarrow> (Inl err, s)
              | (None, s) \<Rightarrow> (Inr False, s)"
  let ?E = "kv_entries (str_bytes ''batchstore_'') (bs_store s)"
  obtain x t where i: "iterate_loop ?f ?E s = (x, t)" by fastforce
  from r i have x: "x = None" and s': "bs_store s' = bs_store t"
      "bs_rs s' = \<lparr>rs_Radius = 0, rs_StorageRadius = 0\<rparr>"
    by (auto simp: bs_Reset_def kv_Iterate_def split: if_splits option.splits)
  note m = reset_loop [OF index_okD(1) [OF ok] i [unfolded x]]
  have "bs_map s' k = None" if k: "has_prefix (str_bytes ''batchstore_'') k" for k
  proof (cases "bs_map s k")
    case (Some v)
    then have "(k, v) \<in> set ?E"
      using k kv_entries_map [OF index_okD(1) [OF ok]] by (simp add: bs_map_def)
    then have "k \<in> fst ` set ?E" by force
    then show ?thesis using m s'(1) same_store(4) [OF s'(1)] by simp
  next
    case None
    then show ?thesis using m same_store(4) [OF s'(1)] by simp
  qed
  with empty_index [of s'] m s' show ?thesis by simp
qed

end
