(* ===== verification/Batch_Store_Spec.thy ===== *)
theory Batch_Store_Spec
  imports Batch_Store_Ops
begin

text \<open>
  The promises of the batch store: what each operation does to the map of batches, that the
  operations succeed on a store that does not fail, and the invariant of every reached state.
\<close>

section \<open>Success on a reliable store\<close>

definition bs_ready :: "batchstore \<Rightarrow> bool" where
  "bs_ready s \<longleftrightarrow> kv_reliable (bs_store s) \<and> (\<forall>h i. \<not> bs_evict s h i)"

lemma ready_put: "bs_ready s \<Longrightarrow> \<exists>s'. bs_put k v s = (None, s') \<and> bs_ready s'"
  using kv_Put_reliable [of "bs_store s" k v] by (auto simp: bs_ready_def bs_put_def)

lemma ready_delete: "bs_ready s \<Longrightarrow> \<exists>s'. bs_delete k s = (None, s') \<and> bs_ready s'"
  using kv_Delete_reliable [of "bs_store s" k] by (auto simp: bs_ready_def bs_delete_def)

lemma ready_get: "bs_ready s \<Longrightarrow> bs_batches s i = Some b \<Longrightarrow> bs_get s i = Inr b"
  by (simp add: bs_ready_def bs_get_def kv_Get_reliable bs_batches_Some bs_map_def)

lemma ready_get_none:
  "index_ok s \<Longrightarrow> bs_ready s \<Longrightarrow> bs_batches s i = None \<Longrightarrow> bs_get s i = Inl (BsStore ErrNotFound)"
  using index_okD(3) [of s i]
  by (cases "bs_map s (batchKey i)")
     (auto simp: bs_ready_def bs_get_def kv_Get_reliable bs_map_def)

lemma iterate_succeeds:
  "(\<And>k v st. (k, v) \<in> set E \<Longrightarrow> \<exists>x st'. f k v st = (Inr x, st')) \<Longrightarrow> fst (iterate_loop f E st) = None"
proof (induction E arbitrary: st)
  case (Cons kv E)
  obtain k v where kv: "kv = (k, v)" by fastforce
  have "\<exists>x st'. f k v st = (Inr x, st')" by (rule Cons.prems) (simp add: kv)
  then obtain x st' where "f k v st = (Inr x, st')" by blast
  moreover have "fst (iterate_loop f E st') = None" by (rule Cons.IH) (rule Cons.prems, simp)
  ultimately show ?case by (simp add: kv)
qed simp

lemma kv_Iterate_reliable:
  "kv_reliable st \<Longrightarrow> fst (iterate_loop f (kv_entries pre st) q) = None \<Longrightarrow>
   \<exists>r. apfst iter_err (kv_Iterate st pre f q) = (None, r)"
  by (cases "iterate_loop f (kv_entries pre st) q") (simp add: kv_Iterate_def kv_reliable_def)

lemma ready_collect:
  assumes "index_ok s" "bs_ready s"
  shows "\<exists>evs. collect_expired s = (None, evs)"
  unfolding collect_expired_def
proof (rule kv_Iterate_reliable)
  show "kv_reliable (bs_store s)" using assms(2) by (simp add: bs_ready_def)
  show "fst (iterate_loop (\<lambda>key value evictions.
          case bs_get s (valueKeyToID key) of
            Inl err \<Rightarrow> (Inl err, evictions)
          | Inr b \<Rightarrow>
              if int (b_Value b) \<le> cs_TotalAmount (bs_cs s)
              then (Inr False, evictions @ [b])
              else (Inr True, evictions)) (kv_entries valueKeyPrefix (bs_store s)) []) = None"
  proof (rule iterate_succeeds, goal_cases)
    case (1 k v st)
    obtain Bs where
      Bs: "map fst (kv_entries valueKeyPrefix (bs_store s)) = map vkey Bs"
        "\<And>b. b \<in> set Bs \<longleftrightarrow> bs_batches s (b_ID b) = Some b"
      using kv_entries_batches [OF assms(1)] by metis
    have "fst (k, v) \<in> fst ` set (kv_entries valueKeyPrefix (bs_store s))" using 1 by (rule imageI)
    then have "k \<in> set (map fst (kv_entries valueKeyPrefix (bs_store s)))"
      by (simp only: fst_conv set_map)
    then have "k \<in> set (map vkey Bs)" by (simp only: Bs(1))
    then obtain b where b: "k = vkey b" "bs_batches s (b_ID b) = Some b" using Bs(2) by auto
    then have "valueKeyToID k = b_ID b" using index_okD(2) [OF assms(1) b(2)] by simp
    with ready_get [OF assms(2) b(2)] show ?case by (simp add: ex_bool_eq)
  qed
qed

lemma ready_evict_loop:
  "bs_ready s \<Longrightarrow> \<forall>b \<in> set bs. fits (b_Value b) \<Longrightarrow> \<exists>s'. evict_loop bs s = (None, s') \<and> bs_ready s'"
proof (induction bs arbitrary: s)
  case (Cons b bs)
  let ?s = "s\<lparr>bs_calls := bs_calls s @ [CallEvict (b_ID b)]\<rparr>"
  have r: "bs_ready ?s" "\<not> bs_evict s (bs_calls s) (b_ID b)" using Cons.prems(1) by (simp_all add: bs_ready_def)
  have v: "valueKey (b_Value b) (b_ID b) = Inr (vkey b)" using Cons.prems(2) by (simp add: valueKey_vkey)
  obtain s1 where s1: "bs_delete (vkey b) ?s = (None, s1)" "bs_ready s1" using ready_delete [OF r(1)] by blast
  obtain s2 where s2: "bs_delete (batchKey (b_ID b)) s1 = (None, s2)" "bs_ready s2"
    using ready_delete [OF s1(2)] by blast
  let ?t = "if bs_hasExpiry s2 then s2\<lparr>bs_calls := bs_calls s2 @ [CallExpiry (b_ID b)]\<rparr> else s2"
  have "evict_batch b s = (None, ?t)" using r v s1 s2 by (simp add: evict_batch_def Let_def)
  moreover have "bs_ready ?t" using s2(2) by (simp add: bs_ready_def)
  ultimately show ?case using Cons.IH [of ?t] Cons.prems(2) by simp
qed simp

lemma ready_cleanup:
  assumes "index_ok s" "bs_ready s"
  shows "\<exists>s'. bs_cleanup s = (None, s') \<and> bs_ready s'"
proof -
  obtain evs where e: "collect_expired s = (None, evs)" using ready_collect [OF assms] by blast
  have "\<forall>b \<in> set evs. fits (b_Value b)"
    using collect_expired_all(1) [OF assms(1) e] index_okD(2) [OF assms(1)] by blast
  from ready_evict_loop [OF assms(2) this] e show ?thesis by (simp add: bs_cleanup_def)
qed

lemma ready_put_batches: "bs_ready s \<Longrightarrow> bs_ready (snd (put_batches us s))"
proof (induction us arbitrary: s)
  case (Cons u us)
  obtain s' where "bs_put (batchKey (b_ID u)) (BvBatch u) s = (None, s')" "bs_ready s'"
    using ready_put [OF Cons.prems] by blast
  with Cons.IH show ?case by simp
qed simp

lemma ready_lower: "bs_ready s \<Longrightarrow> bs_ready (snd (lowerBatchStorageRadius s))"
  by (auto simp: lowerBatchStorageRadius_def ready_put_batches split: option.split prod.split)

lemma ready_computeRadius:
  assumes "index_ok s" "bs_ready s"
  shows "\<exists>s'. computeRadius s = (None, s') \<and> bs_ready s'"
proof -
  have "\<exists>w. sum_commitment s = (None, w)"
    unfolding sum_commitment_def
  proof (rule kv_Iterate_reliable)
    show "kv_reliable (bs_store s)" using assms(2) by (simp add: bs_ready_def)
    show "fst (iterate_loop (\<lambda>key value totalCommitment. case as_batch value of
          Inl err \<Rightarrow> (Inl err, totalCommitment)
        | Inr b \<Rightarrow> (Inr False, totalCommitment + exp2 (unat (b_Depth b))))
        (kv_entries batchKeyPrefix (bs_store s)) 0) = None"
    proof (rule iterate_succeeds, goal_cases)
      case (1 k v st)
      from kv_entries_batchKey [OF assms(1) 1] obtain b where "v = BvBatch b" by blast
      then show ?case by (simp add: ex_bool_eq)
    qed
  qed
  then obtain w where w: "sum_commitment s = (None, w)" by blast
  have r: "bs_ready (s\<lparr>bs_rs := q\<rparr>)" for q using assms(2) by (simp add: bs_ready_def)
  show ?thesis
    unfolding computeRadius_def w by (simp add: Let_def) (intro conjI impI ready_put ready_lower r)
qed

lemma ready_notify [simp]: "bs_ready (notify_radius s) = bs_ready s"
  by (simp add: bs_ready_def notify_radius_def)

lemma ready_PutChainState:
  assumes "index_ok s" "bs_ready s"
  shows "\<exists>s'. PutChainState cs s = (None, s') \<and> bs_ready s'"
proof -
  let ?s = "s\<lparr>bs_cs := cs\<rparr>"
  have s: "index_ok ?s" "bs_ready ?s"
    using assms same_store [of ?s s] by (simp_all add: bs_ready_def)
  obtain s1 where s1: "bs_cleanup ?s = (None, s1)" "bs_ready s1" using ready_cleanup [OF s] by blast
  have "index_ok s1" using cleanup_abs(1) [OF s(1) s1(1)] .
  then obtain s2 where s2: "computeRadius s1 = (None, s2)" "bs_ready s2"
    using ready_computeRadius s1(2) by blast
  obtain s3 where "bs_put chainStateKey (BvChain cs) (notify_radius s2) = (None, s3)" "bs_ready s3"
    using ready_put [of "notify_radius s2"] s2(2) by auto
  with s1 s2 show ?thesis by (simp add: PutChainState_def Let_def)
qed

lemma ready_saveBatch:
  assumes "bs_ready s" "fits (b_Value b)"
    and idx: "\<And>s1. bs_put (vkey b) BvNil s = (None, s1) \<Longrightarrow> index_ok s1"
  shows "\<exists>s'. saveBatch b s = (None, s') \<and> bs_ready s'"
proof -
  have v: "valueKey (b_Value b) (b_ID b) = Inr (vkey b)" using assms(2) by (simp add: valueKey_vkey)
  obtain s1 where s1: "bs_put (vkey b) BvNil s = (None, s1)" "bs_ready s1" using ready_put [OF assms(1)] by blast
  have i1: "index_ok s1" using s1(1) by (rule idx)
  obtain s2 where s2: "bs_cleanup s1 = (None, s2)" "bs_ready s2" using ready_cleanup [OF i1 s1(2)] by blast
  have "index_ok s2" using cleanup_abs(1) [OF i1 s2(1)] .
  with ready_computeRadius s2(2) v s1(1) s2(1) show ?thesis by (simp add: saveBatch_def)
qed

lemma ready_Save:
  assumes ok: "index_ok s" and rd: "bs_ready s" and b: "length (b_ID b) = 32" "fits (b_Value b)"
    and new: "bs_batches s (b_ID b) = None"
  shows "\<exists>b' s'. Save b s = (None, b', s') \<and> bs_ready s'"
proof -
  let ?b = "b\<lparr>b_StorageRadius := rs_StorageRadius (bs_rs s)\<rparr>"
  have g: "bs_get s (b_ID b) = Inl (BsStore ErrNotFound)" using ready_get_none [OF ok rd new] .
  obtain s1 where s1: "bs_put (batchKey (b_ID b)) (BvBatch ?b) s = (None, s1)" "bs_ready s1"
    using ready_put [OF rd] by blast
  note m = bs_put_map [OF index_okD(1) [OF ok] s1(1)]
  have "\<exists>s'. saveBatch ?b s1 = (None, s') \<and> bs_ready s'"
  proof (rule ready_saveBatch [OF s1(2)])
    fix s2 assume p: "bs_put (vkey ?b) BvNil s1 = (None, s2)"
    note p2 = bs_put_map [OF m(2) p]
    have m2: "bs_map s2 = ((bs_map s)(vkey ?b := None))(batchKey (b_ID ?b) \<mapsto> BvBatch ?b, vkey ?b \<mapsto> BvNil)"
      using p2(1) m(1) by (auto simp: fun_eq_iff)
    have k: "vkey ?b = (case bs_batches s (b_ID ?b) of None \<Rightarrow> vkey ?b | Some old \<Rightarrow> vkey old)"
      using new by simp
    from add_batch [OF ok p2(2) m2 k] b show "index_ok s2" by simp
  qed (use b in simp)
  with g s1 show ?thesis by (auto simp: Save_def Let_def)
qed

lemma ready_Update:
  assumes ok: "index_ok s" and rd: "bs_ready s" and val: "fits val"
    and old: "bs_batches s (b_ID b) = Some old" "b_Value b = b_Value old"
  shows "\<exists>b' s'. Update b val depth s = (None, b', s') \<and> bs_ready s'"
proof -
  let ?b = "b\<lparr>b_Value := val, b_Depth := depth, b_StorageRadius := b_StorageRadius old\<rparr>"
  have g: "bs_get s (b_ID b) = Inr old" using ready_get [OF rd old(1)] .
  have id: "b_ID old = b_ID b" "length (b_ID b) = 32" "fits (b_Value b)"
    using index_okD(2) [OF ok old(1)] old(2) by simp_all
  have v: "valueKey (b_Value b) (b_ID b) = Inr (vkey old)"
    using id old(2) valueKey_vkey [of old "vkey old"] by simp
  obtain s1 where s1: "bs_delete (vkey old) s = (None, s1)" "bs_ready s1" using ready_delete [OF rd] by blast
  obtain s2 where s2: "bs_put (batchKey (b_ID b)) (BvBatch ?b) s1 = (None, s2)" "bs_ready s2"
    using ready_put [OF s1(2)] by blast
  note d = bs_delete_map [OF index_okD(1) [OF ok] s1(1)]
  note m = bs_put_map [OF d(2) s2(1)]
  have "\<exists>s'. saveBatch ?b s2 = (None, s') \<and> bs_ready s'"
  proof (rule ready_saveBatch [OF s2(2)])
    fix s3 assume p: "bs_put (vkey ?b) BvNil s2 = (None, s3)"
    note p2 = bs_put_map [OF m(2) p]
    have m3: "bs_map s3 = ((bs_map s)(vkey old := None))(batchKey (b_ID ?b) \<mapsto> BvBatch ?b, vkey ?b \<mapsto> BvNil)"
      using p2(1) m(1) d(1) by simp
    have k: "vkey old = (case bs_batches s (b_ID ?b) of None \<Rightarrow> vkey ?b | Some old \<Rightarrow> vkey old)"
      using old(1) by simp
    from add_batch [OF ok p2(2) m3 k] id val show "index_ok s3" by simp
  qed (use val in simp)
  with g v s1 s2 show ?thesis by (auto simp: Update_def Let_def)
qed

section \<open>Properties of the operations\<close>

text \<open>
  C21: a new chain state expires batches: after a successful \<open>PutChainState\<close> the store holds
  exactly the batches worth more than the new total amount, the two indexes agree, the storage
  radius does not exceed the radius, and the radius is the least one whose capacity covers
  the commitment of the remaining batches.
\<close>

theorem PutChainState_expires:
  assumes "index_ok s" "PutChainState cs s = (None, s')" "commitment s' < 2 ^ 63"
  shows "index_ok s' \<and> bs_abs s' = after_expiry (cs_TotalAmount cs) (bs_abs s) \<and>
    rs_StorageRadius (bs_rs s') = min (rs_StorageRadius (bs_rs s)) (rs_Radius (bs_rs s')) \<and>
    covers s'"
  using PutChainState_post [OF assms(1,2)] assms(3) by (simp add: bs_post_def)

definition new_store :: batchstore where
  "new_store = \<lparr>bs_store = \<lparr>kv_data = [], kv_fail = (\<lambda>_ _. False)\<rparr>,
     bs_cs = \<lparr>cs_Block = 0, cs_TotalAmount = 0, cs_CurrentPrice = 0\<rparr>,
     bs_rs = \<lparr>rs_Radius = 0, rs_StorageRadius = 0\<rparr>, bs_evict = (\<lambda>_ _. False),
     bs_hasExpiry = False, bs_hasSetter = False, bs_calls = []\<rparr>"

lemma new_store_ok: "index_ok new_store" "bs_ready new_store" "bs_abs new_store = (\<lambda>i. None)"
proof -
  have "kv_ok (bs_store new_store)" "bs_map new_store k = None" for k
    by (simp_all add: new_store_def kv_ok_def bs_map_def kv_map_def)
  with empty_index [of new_store] show "index_ok new_store" "bs_abs new_store = (\<lambda>i. None)" by auto
  show "bs_ready new_store" by (simp add: bs_ready_def new_store_def kv_reliable_def)
qed

definition example_batch :: batch where
  "example_batch = \<lparr>b_ID = replicate 32 7, b_Value = 100, b_Start = 5, b_Owner = replicate 20 9,
     b_Depth = 24, b_BucketDepth = 16, b_Immutable = False, b_StorageRadius = 0\<rparr>"

lemma example_Save:
  "\<exists>b' s'. Save example_batch new_store = (None, b', s') \<and> bs_ready s'"
  by (rule ready_Save [OF new_store_ok(1,2)])
     (use new_store_ok(3) in \<open>auto simp: example_batch_def fits_def bs_abs_def fun_eq_iff\<close>)

lemma commitment_empty: "bs_abs s = (\<lambda>i. None) \<Longrightarrow> commitment s = 0"
  by (simp add: commitment_def)

theorem PutChainState_expires_witness:
  "\<exists>b' s1 s2. Save example_batch new_store = (None, b', s1) \<and>
     PutChainState \<lparr>cs_Block = 9, cs_TotalAmount = 100, cs_CurrentPrice = 1\<rparr> s1 = (None, s2) \<and>
     bs_abs s1 (replicate 32 7) = Some example_batch \<and> bs_abs s2 (replicate 32 7) = None \<and> covers s2"
proof -
  obtain b' s1 where s1: "Save example_batch new_store = (None, b', s1)" "bs_ready s1"
    using example_Save by blast
  note p1 = Save_post [OF new_store_ok(1) _ s1(1)]
  have a1: "index_ok s1" "bs_abs s1 = [replicate 32 7 \<mapsto> example_batch]"
    using p1 new_store_ok(3)
    by (auto simp: bs_post_def after_expiry_def fun_eq_iff example_batch_def strip_def new_store_def)
  let ?cs = "\<lparr>cs_Block = 9, cs_TotalAmount = 100, cs_CurrentPrice = 1\<rparr>"
  obtain s2 where s2: "PutChainState ?cs s1 = (None, s2)"
    using ready_PutChainState [OF a1(1) s1(2)] by blast
  have "bs_abs s2 = (\<lambda>i. None)"
    using PutChainState_post [OF a1(1) s2] a1(2)
    by (auto simp: bs_post_def after_expiry_def fun_eq_iff example_batch_def)
  moreover from this have "commitment s2 < 2 ^ 63" by (simp add: commitment_empty)
  ultimately show ?thesis using PutChainState_expires [OF a1(1) s2] s1(1) s2 a1(2) by auto
qed

text \<open>
  \<open>Save\<close> on a store that does not fail: a batch with a new ID is saved with the storage radius
  of the node, unless the chain has already used up its value, every other batch stays as it
  was unless it has expired, and the radius is the least one that covers the commitment.
\<close>

theorem Save_adds_batch:
  assumes "index_ok s" "bs_ready s" "length (b_ID b) = 32" "b_Value b < 256 ^ 32"
    and "bs_batches s (b_ID b) = None"
  shows "\<exists>b' s'. Save b s = (None, b', s') \<and> index_ok s' \<and> bs_ready s' \<and>
    b_StorageRadius b' = rs_StorageRadius (bs_rs s) \<and>
    bs_abs s' = after_expiry (cs_TotalAmount (bs_cs s)) ((bs_abs s)(b_ID b \<mapsto> strip b)) \<and>
    (commitment s' < 2 ^ 63 \<longrightarrow> covers s')"
proof -
  obtain b' s' where s: "Save b s = (None, b', s')" "bs_ready s'"
    using ready_Save [OF assms(1-3) _ assms(5)] assms(4) by (auto simp: fits_def)
  from Save_post [OF assms(1,3) s(1)] s show ?thesis by (auto simp: bs_post_def)
qed

theorem Save_adds_batch_witness:
  "\<exists>b' s'. Save example_batch new_store = (None, b', s') \<and>
     bs_abs s' = after_expiry 0 [replicate 32 7 \<mapsto> strip example_batch]"
proof -
  have "length (b_ID example_batch) = 32" "b_Value example_batch < 256 ^ 32"
    "bs_batches new_store (b_ID example_batch) = None"
    using new_store_ok(3) by (auto simp: example_batch_def bs_abs_def fun_eq_iff)
  from Save_adds_batch [OF new_store_ok(1,2) this] new_store_ok(3) show ?thesis
    by (auto simp: example_batch_def new_store_def)
qed

text \<open>
  \<open>Update\<close> (a top-up or a dilution) replaces value and depth of the one batch, moves its
  entry in the value index, and expires batches as \<open>Save\<close> does, when the caller's batch has the
  stored value.
\<close>

theorem Update_replaces_batch:
  assumes "index_ok s" "bs_batches s (b_ID b) = Some old" "b_Value b = b_Value old"
    and "Update b val depth s = (None, b', s')"
  shows "index_ok s' \<and> bs_abs s' = after_expiry (cs_TotalAmount (bs_cs s))
      ((bs_abs s)(b_ID b \<mapsto> strip (b\<lparr>b_Value := val, b_Depth := depth\<rparr>))) \<and>
    (commitment s' < 2 ^ 63 \<longrightarrow> covers s')"
  using Update_post [OF assms] by (simp add: bs_post_def)

theorem Update_replaces_batch_witness:
  "\<exists>b' s1 b'' s2. Save example_batch new_store = (None, b', s1) \<and>
     Update example_batch 500 25 s1 = (None, b'', s2) \<and>
     bs_abs s2 (replicate 32 7) = Some (example_batch\<lparr>b_Value := 500, b_Depth := 25\<rparr>)"
proof -
  obtain b' s1 where s1: "Save example_batch new_store = (None, b', s1)" "bs_ready s1"
    using example_Save by blast
  note p1 = Save_post [OF new_store_ok(1) _ s1(1)]
  have a1: "index_ok s1" "bs_abs s1 = [replicate 32 7 \<mapsto> example_batch]"
    "cs_TotalAmount (bs_cs s1) = 0"
    using p1 new_store_ok(3)
    by (auto simp: bs_post_def after_expiry_def fun_eq_iff example_batch_def strip_def new_store_def)
  then have "bs_abs s1 (b_ID example_batch) = Some example_batch" by (simp add: example_batch_def)
  then obtain old where old: "bs_batches s1 (b_ID example_batch) = Some old" "strip old = example_batch"
    by (auto simp: bs_abs_def)
  then have v: "b_Value example_batch = b_Value old" by (metis strip_sel(2))
  obtain b'' s2 where s2: "Update example_batch 500 25 s1 = (None, b'', s2)"
    using ready_Update [OF a1(1) s1(2) _ old(1) v, of 500 25] by (auto simp: fits_def)
  from Update_replaces_batch [OF a1(1) old(1) v s2] s1(1) s2 a1(2,3) show ?thesis
    by (auto simp: after_expiry_def example_batch_def strip_def)
qed

section \<open>Reached states\<close>

inductive bs_step :: "batchstore \<Rightarrow> batchstore \<Rightarrow> bool" where
  step_put: "PutChainState cs s = (None, s') \<Longrightarrow> bs_step s s'"
| step_save: "length (b_ID b) = 32 \<Longrightarrow> Save b s = (None, b', s') \<Longrightarrow> bs_step s s'"
| step_update: "bs_batches s (b_ID b) = Some old \<Longrightarrow> b_Value b = b_Value old \<Longrightarrow>
    Update b val depth s = (None, b', s') \<Longrightarrow> bs_step s s'"
| step_unreserve: "Unreserve cb (st :: nat) s = (r, st', s') \<Longrightarrow> bs_step s s'"
| step_set: "SetStorageRadius f s = (r, s') \<Longrightarrow> bs_step s s'"
| step_reset: "bs_Reset s = (None, s') \<Longrightarrow> bs_step s s'"
| step_setter: "bs_step s (SetStorageRadiusSetter s)"
| step_expiry: "bs_step s (SetBatchExpiryHandler s)"

definition bs_inv :: "batchstore \<Rightarrow> bool" where
  "bs_inv s \<longleftrightarrow> index_ok s \<and> rs_StorageRadius (bs_rs s) \<le> rs_Radius (bs_rs s) \<and>
     (commitment s < 2 ^ 63 \<longrightarrow> covers s)"

lemma bs_post_inv: "bs_post s m s' \<Longrightarrow> bs_inv s'"
  by (simp add: bs_post_def bs_inv_def)

lemma bs_inv_cong:
  assumes "bs_inv s" "index_ok s'" "bs_abs s' = bs_abs s" "rs_Radius (bs_rs s') = rs_Radius (bs_rs s)"
    "rs_StorageRadius (bs_rs s') \<le> rs_Radius (bs_rs s')"
  shows "bs_inv s'"
  using assms by (simp add: bs_inv_def covers_def commitment_def)

lemma bs_step_inv: "bs_step s s' \<Longrightarrow> bs_inv s \<Longrightarrow> bs_inv s'"
proof (induction rule: bs_step.induct)
  case (step_put cs s s')
  then show ?case using PutChainState_post bs_post_inv by (metis bs_inv_def)
next
  case (step_save b s b' s')
  then show ?case using Save_post bs_post_inv by (metis bs_inv_def)
next
  case (step_update s b old val depth b' s')
  then show ?case using Update_post bs_post_inv by (metis bs_inv_def)
next
  case (step_unreserve cb st s r st' s')
  note u = Unreserve_post [OF _ step_unreserve(1)]
  have "rs_StorageRadius (bs_rs s') \<le> rs_Radius (bs_rs s')"
    using u step_unreserve(2) inc_le [of "rs_StorageRadius (bs_rs s)"] by (auto simp: bs_inv_def)
  then show ?case using u step_unreserve(2) by (intro bs_inv_cong [OF step_unreserve(2)]) (auto simp: bs_inv_def)
next
  case (step_set f s r s')
  note u = SetStorageRadius_post [OF _ step_set(1)]
  show ?case
    using u step_set(2) by (intro bs_inv_cong [OF step_set(2)]) (auto simp: bs_inv_def split: if_splits)
next
  case (step_reset s s')
  then have "index_ok s' \<and> bs_abs s' = (\<lambda>i. None) \<and> bs_rs s' = \<lparr>rs_Radius = 0, rs_StorageRadius = 0\<rparr>"
    using Reset_post by (auto simp: bs_inv_def)
  then show ?case by (simp add: bs_inv_def covers_def commitment_empty)
next
  case (step_setter s)
  then show ?case using same_store [of "SetStorageRadiusSetter s" s]
    by (intro bs_inv_cong [OF step_setter]) (simp_all add: SetStorageRadiusSetter_def bs_inv_def)
next
  case (step_expiry s)
  then show ?case using same_store [of "SetBatchExpiryHandler s" s]
    by (intro bs_inv_cong [OF step_expiry]) (simp_all add: SetBatchExpiryHandler_def bs_inv_def)
qed

lemma bs_New_empty:
  assumes "bs_New st ev = Inr s" "kv_data st = []"
  shows "bs_inv s"
proof -
  have g: "kv_Get st k = Inl ErrNotFound \<or> kv_Get st k = Inl ErrIO" for k
    using assms(2) by (simp add: kv_Get_def)
  have s: "bs_store s = st" "bs_rs s = \<lparr>rs_Radius = 0, rs_StorageRadius = 0\<rparr>"
    using assms(1) g [of chainStateKey] g [of reserveStateKey]
    by (auto simp: bs_New_def)
  have "index_ok s \<and> bs_abs s = (\<lambda>i. None)"
    by (rule empty_index) (simp_all add: s kv_ok_def assms(2) bs_map_def kv_map_def)
  with s show ?thesis by (simp add: bs_inv_def covers_def commitment_empty)
qed

text \<open>
  C22: in every state a batch store reaches from an empty one by successful operations, with any
  unreserve callback and any change of the storage radius in between, the value index has
  exactly one key per batch, the storage radius is at most the radius, and the radius is the
  least one whose capacity covers all batches.
\<close>

theorem batchstore_invariant:
  assumes "bs_New st ev = Inr s0" "kv_data st = []" "bs_step\<^sup>*\<^sup>* s0 s"
  shows "(\<forall>k. has_prefix valueKeyPrefix k \<longrightarrow>
      (kv_map (bs_store s) k \<noteq> None) = (\<exists>i b. bs_batches s i = Some b \<and> b_ID b = i \<and> k = vkey b)) \<and>
    rs_StorageRadius (GetReserveState s) \<le> rs_Radius (GetReserveState s) \<and>
    (commitment s < 2 ^ 63 \<longrightarrow>
      commitment s \<le> 2 ^ 22 * 2 ^ unat (rs_Radius (GetReserveState s)) \<and>
      (0 < rs_Radius (GetReserveState s) \<longrightarrow>
        2 ^ 22 * 2 ^ (unat (rs_Radius (GetReserveState s)) - 1) < commitment s))"
proof -
  from assms(3) have i: "bs_inv s"
    by (induction rule: rtranclp_induct) (use bs_New_empty [OF assms(1,2)] bs_step_inv in auto)
  then have ok: "index_ok s" by (simp add: bs_inv_def)
  have "(kv_map (bs_store s) k \<noteq> None) = (\<exists>i b. bs_batches s i = Some b \<and> b_ID b = i \<and> k = vkey b)"
    if "has_prefix valueKeyPrefix k" for k
    using index_okD(4) [OF ok that] index_okD(2) [OF ok] unfolding bs_map_def by blast
  with i show ?thesis by (simp add: bs_inv_def covers_def GetReserveState_def)
qed

theorem batchstore_invariant_witness:
  "\<exists>b' s. Save example_batch new_store = (None, b', s) \<and>
    rs_StorageRadius (GetReserveState s) \<le> rs_Radius (GetReserveState s)"
proof -
  obtain b' s where s: "Save example_batch new_store = (None, b', s)" using example_Save by blast
  have "bs_step new_store s" by (rule step_save [OF _ s]) (simp add: example_batch_def)
  then have r: "bs_step\<^sup>*\<^sup>* new_store s" by blast
  have n: "bs_New (bs_store new_store) (\<lambda>_ _. False) = Inr new_store"
    by (simp add: bs_New_def new_store_def kv_Get_def)
  have d: "kv_data (bs_store new_store) = []" by (simp add: new_store_def)
  from batchstore_invariant [OF n d r] s show ?thesis by blast
qed

end
