(* ===== verification/Sharky.thy ===== *)
theory Sharky
  imports Prelude Codecs
begin

text \<open>
  \<open>pkg/sharky\<close>: the blob store of the local store. Each shard is a file cut into slots of
  \<open>maxDataSize\<close> bytes; a bit vector says which slots are free. Two goroutines work on a shard:
  \<open>slots.process\<close> pops free slots and takes released ones back, \<open>shard.process\<close> takes one slot
  at a time, waits for a blob to write to it, and serves reads. They and the clients meet at
  unbuffered channels, so every communication is one atomic step of the model.
\<close>

section \<open>Free slots (slots.go)\<close>

record slots =
  sl_data :: bytes
  sl_size :: u32
  sl_head :: u32

function next_loop :: "bytes \<Rightarrow> u32 \<Rightarrow> u32 \<Rightarrow> u32" where
  "next_loop data sz i =
     (if i < sz
      then if (data ! unat (i div 8)) AND push_bit (unat (i mod 8)) 1 > 0 then i
           else next_loop data sz (i + 1)
      else sz)"
  by pat_completeness auto
termination
proof (relation "measure (\<lambda>(data, sz, i). unat sz - unat i)")
  fix data :: bytes and sz i :: u32
  assume i: "i < sz"
  then have "unat (i + 1) = Suc (unat i)" by (rule unat_inc_less)
  with i show "((data, sz, i + 1), data, sz, i) \<in> measure (\<lambda>(data, sz, i). unat sz - unat i)"
    by (simp add: word_less_nat_alt)
qed simp

declare next_loop.simps [simp del]

definition slots_next :: "slots \<Rightarrow> u32 \<Rightarrow> u32" where
  "slots_next sl start = next_loop (sl_data sl) (sl_size sl) start"

definition slots_load :: "bytes \<Rightarrow> slots" where
  "slots_load file =
     (let sl = \<lparr>sl_data = file, sl_size = of_nat (length file * 8), sl_head = 0\<rparr>
      in sl\<lparr>sl_head := slots_next sl 0\<rparr>)"

definition slots_save :: "slots \<Rightarrow> bytes" where
  "slots_save sl = sl_data sl"

definition slots_extend :: "nat \<Rightarrow> slots \<Rightarrow> slots" where
  "slots_extend n sl =
     sl\<lparr>sl_size := sl_size sl + of_nat n * 8, sl_data := sl_data sl @ replicate n 0xff\<rparr>"

definition slots_push :: "u32 \<Rightarrow> slots \<Rightarrow> slots" where
  "slots_push i sl =
     (let sl = (if sl_head sl > i then sl\<lparr>sl_head := i\<rparr> else sl);
          j = unat (i div 8)
      in sl\<lparr>sl_data := (sl_data sl) [j := (sl_data sl ! j) OR push_bit (unat (i mod 8)) 1]\<rparr>)"

definition slots_pop :: "slots \<Rightarrow> u32 \<times> slots" where
  "slots_pop sl =
     (let head = sl_head sl;
          sl = (if head = sl_size sl then slots_extend 1 sl else sl);
          j = unat (head div 8);
          sl = sl\<lparr>sl_data := (sl_data sl) [j := (sl_data sl ! j) AND NOT (push_bit (unat (head mod 8)) 1)]\<rparr>;
          sl = sl\<lparr>sl_head := slots_next sl (head + 1)\<rparr>
      in (head, sl))"

section \<open>Locations (shard.go)\<close>

definition LocationSize :: nat where "LocationSize = 7"

record location =
  loc_Shard :: u8
  loc_Slot :: u32
  loc_Length :: u16

definition location_MarshalBinary :: "location \<Rightarrow> bytes" where
  "location_MarshalBinary l =
     (let b = replicate LocationSize 0;
          b = b [0 := loc_Shard l];
          b = copy_at b 1 (le_of_nat 4 (unat (loc_Slot l)));
          b = copy_at b 5 (le_of_nat 2 (unat (loc_Length l)))
      in b)"

text \<open>A buffer of fewer than seven bytes panics.\<close>

definition LocationFromBinary :: "bytes \<Rightarrow> unit + location" where
  "LocationFromBinary buf =
     (if length buf < 7 then Inl ()
      else Inr \<lparr>loc_Shard = buf ! 0,
                loc_Slot = of_nat (le_to_nat (slice 1 5 buf)),
                loc_Length = of_nat (le_to_nat (slice 5 7 buf))\<rparr>)"

section \<open>Files\<close>

text \<open>\<open>WriteAt\<close> fills a gap with zeros; \<open>ReadAt\<close> past the end of the file is an error.\<close>

definition file_WriteAt :: "bytes \<Rightarrow> nat \<Rightarrow> bytes \<Rightarrow> bytes" where
  "file_WriteAt buf off f =
     (let f = f @ replicate (off - length f) 0
      in take off f @ buf @ drop (off + length buf) f)"

definition file_ReadAt :: "nat \<Rightarrow> nat \<Rightarrow> bytes \<Rightarrow> bytes option" where
  "file_ReadAt n off f = (if off + n \<le> length f then Some (slice off (off + n) f) else None)"

section \<open>A shard (shard.go)\<close>

text \<open>
  \<open>sh_out\<close> is the popped slot \<open>slots.process\<close> offers (\<open>out\<close> and \<open>head\<close>), \<open>sh_slot\<close> the one
  \<open>shard.process\<close> holds for the next write (\<open>writes\<close> and \<open>slot\<close>), \<open>sh_limbo\<close> one on its way
  back after \<open>quit\<close>; \<open>sh_free\<close> is the content of the file of free slots.
\<close>

record shard =
  sh_index :: u8
  sh_maxDataSize :: nat
  sh_file :: bytes
  sh_free :: bytes
  sh_slots :: slots
  sh_out :: "u32 option"
  sh_slot :: "u32 option"
  sh_limbo :: "u32 option"
  sh_quit :: bool
  sh_slotsQuit :: bool

definition shard_offset :: "shard \<Rightarrow> u32 \<Rightarrow> nat" where
  "shard_offset sh slot = unat slot * sh_maxDataSize sh"

definition shard_read :: "nat \<Rightarrow> u32 \<Rightarrow> shard \<Rightarrow> bytes option" where
  "shard_read len slot sh = file_ReadAt len (shard_offset sh slot) (sh_file sh)"

text \<open>\<open>n\<close> is the number of bytes the file system has written; fewer than asked for is an error.\<close>

record entry =
  en_loc :: location
  en_err :: bool

definition shard_write :: "nat \<Rightarrow> bytes \<Rightarrow> u32 \<Rightarrow> shard \<Rightarrow> entry \<times> shard" where
  "shard_write n buf slot sh =
     (\<lparr>en_loc = \<lparr>loc_Shard = sh_index sh, loc_Slot = slot, loc_Length = of_nat n\<rparr>,
       en_err = (n < length buf)\<rparr>,
      sh\<lparr>sh_file := file_WriteAt (take n buf) (shard_offset sh slot) (sh_file sh)\<rparr>)"

text \<open>\<open>create\<close> opens the two files and starts the goroutines.\<close>

definition shard_create :: "u8 \<Rightarrow> nat \<Rightarrow> bytes \<Rightarrow> bytes \<Rightarrow> shard" where
  "shard_create index maxDataSize file free =
     \<lparr>sh_index = index, sh_maxDataSize = maxDataSize, sh_file = file, sh_free = free,
      sh_slots = slots_load free, sh_out = None, sh_slot = None, sh_limbo = None,
      sh_quit = False, sh_slotsQuit = False\<rparr>"

text \<open>The steps of \<open>slots.process\<close>: pop a slot to offer, take a released one, quit.\<close>

definition process_pop :: "shard \<Rightarrow> shard option" where
  "process_pop sh =
     (if sh_out sh = None \<and> \<not> sh_slotsQuit sh
      then let (head, sl) = slots_pop (sh_slots sh) in Some (sh\<lparr>sh_slots := sl, sh_out := Some head\<rparr>)
      else None)"

definition process_in :: "u32 \<Rightarrow> shard \<Rightarrow> shard" where
  "process_in slot sh = sh\<lparr>sh_slots := slots_push slot (sh_slots sh)\<rparr>"

definition process_slots_quit :: "shard \<Rightarrow> shard option" where
  "process_slots_quit sh =
     (if sh_quit sh \<and> \<not> sh_slotsQuit sh
      then let sh = (case sh_out sh of
                       Some head \<Rightarrow> (process_in head sh)\<lparr>sh_out := None\<rparr>
                     | None \<Rightarrow> sh)
           in Some (sh\<lparr>sh_slotsQuit := True\<rparr>)
      else None)"

text \<open>
  The steps of \<open>shard.process\<close>: take the offered slot, write a blob to it, quit with the slot
  in limbo, and the limbo goroutine giving it back.
\<close>

definition process_take :: "shard \<Rightarrow> shard option" where
  "process_take sh =
     (case sh_out sh of
        Some head \<Rightarrow>
          if sh_slot sh = None \<and> \<not> sh_quit sh
          then Some (sh\<lparr>sh_slot := Some head, sh_out := None\<rparr>) else None
      | None \<Rightarrow> None)"

definition process_write :: "nat \<Rightarrow> bytes \<Rightarrow> shard \<Rightarrow> (entry \<times> shard) option" where
  "process_write n buf sh =
     (case sh_slot sh of
        Some slot \<Rightarrow>
          if \<not> sh_quit sh
          then let (e, sh) = shard_write n buf slot sh in Some (e, sh\<lparr>sh_slot := None\<rparr>)
          else None
      | None \<Rightarrow> None)"

definition process_quit :: "shard \<Rightarrow> shard option" where
  "process_quit sh =
     (if \<not> sh_quit sh then Some (sh\<lparr>sh_quit := True, sh_limbo := sh_slot sh, sh_slot := None\<rparr>)
      else None)"

definition process_limbo :: "shard \<Rightarrow> shard option" where
  "process_limbo sh =
     (case sh_limbo sh of
        Some slot \<Rightarrow> Some ((process_in slot sh)\<lparr>sh_limbo := None\<rparr>)
      | None \<Rightarrow> None)"

text \<open>\<open>close\<close> waits for both goroutines and the limbo write, then saves the free slots.\<close>

definition shard_close :: "shard \<Rightarrow> shard option" where
  "shard_close sh =
     (if sh_quit sh \<and> sh_slotsQuit sh \<and> sh_limbo sh = None
      then Some (sh\<lparr>sh_free := slots_save (sh_slots sh)\<rparr>) else None)"

section \<open>The store (store.go)\<close>

datatype sharky_error = ErrTooLong | ErrQuitting | ErrContext | ErrFile

definition sharky_New :: "(bytes \<times> bytes) list \<Rightarrow> nat \<Rightarrow> shard list" where
  "sharky_New basedir maxDataSize =
     map (\<lambda>(i, file, free). shard_create (of_nat i) maxDataSize file free) (enumerate 0 basedir)"

text \<open>
  \<open>Write\<close> handed to shard \<open>i\<close>, which must hold a slot. \<open>lost\<close>: the context of the caller ends
  after the shard has taken the blob, so that the caller never sees the location.
\<close>

definition sharky_Write ::
  "nat \<Rightarrow> nat \<Rightarrow> bool \<Rightarrow> bytes \<Rightarrow> shard list \<Rightarrow> ((sharky_error + location) \<times> shard list) option" where
  "sharky_Write i n lost buf shs =
     (let sh = shs ! i in
      if length buf > sh_maxDataSize sh then Some (Inl ErrTooLong, shs)
      else
        case process_write n buf sh of
          None \<Rightarrow> None
        | Some (e, sh) \<Rightarrow>
            Some (if lost then Inl ErrContext else if en_err e then Inl ErrFile else Inr (en_loc e),
                  shs [i := sh]))"

definition sharky_Read :: "location \<Rightarrow> shard list \<Rightarrow> sharky_error + bytes" where
  "sharky_Read loc shs =
     (let sh = shs ! unat (loc_Shard loc) in
      if sh_quit sh then Inl ErrQuitting
      else case shard_read (unat (loc_Length loc)) (loc_Slot loc) sh of
             None \<Rightarrow> Inl ErrFile
           | Some buf \<Rightarrow> Inr buf)"

definition sharky_Release :: "location \<Rightarrow> shard list \<Rightarrow> shard list" where
  "sharky_Release loc shs =
     (let i = unat (loc_Shard loc) in shs [i := process_in (loc_Slot loc) (shs ! i)])"

end
