(* ===== verification/Sharky_Slots.thy ===== *)
theory Sharky_Slots
  imports Sharky
begin

text \<open>
  The slots of a shard as an allocator, the encoding of locations, and what reading a file
  returns after a write.
\<close>

section \<open>Locations\<close>

lemma location_Marshal_append:
  "location_MarshalBinary l =
     loc_Shard l # le_of_nat 4 (unat (loc_Slot l)) @ le_of_nat 2 (unat (loc_Length l))"
proof -
  let ?s = "le_of_nat 4 (unat (loc_Slot l))" and ?n = "le_of_nat 2 (unat (loc_Length l))"
  have "(replicate LocationSize 0) [0 := loc_Shard l] = [loc_Shard l] @ replicate 6 0"
    by (simp add: LocationSize_def numeral_eq_Suc)
  moreover have "copy_at ([loc_Shard l] @ replicate 6 0) 1 ?s = ([loc_Shard l] @ ?s) @ replicate 2 0"
    using copy_at_into_zeros [of "[loc_Shard l]" 1 ?s 6 0] by simp
  moreover have "copy_at (([loc_Shard l] @ ?s) @ replicate 2 0) 5 ?n = ([loc_Shard l] @ ?s) @ ?n"
    using copy_at_into_zeros [of "[loc_Shard l] @ ?s" 5 ?n 2 0] by simp
  ultimately show ?thesis unfolding location_MarshalBinary_def Let_def by simp
qed

lemma location_roundtrip: "LocationFromBinary (location_MarshalBinary l @ r) = Inr l"
proof -
  let ?s = "le_of_nat 4 (unat (loc_Slot l))" and ?n = "le_of_nat 2 (unat (loc_Length l))"
  let ?b = "loc_Shard l # ?s @ ?n @ r"
  have s: "slice 1 5 ?b = ?s" "slice 5 7 ?b = ?n"
    by (simp_all add: slice_def drop_Cons' numeral_eq_Suc)
  have v: "le_to_nat ?s = unat (loc_Slot l)" "le_to_nat ?n = unat (loc_Length l)"
    using unsigned_less [of "loc_Slot l", where 'a = nat] unsigned_less [of "loc_Length l", where 'a = nat]
    by (simp_all add: le_to_of_nat)
  have "LocationFromBinary ?b = Inr l" unfolding LocationFromBinary_def s v by simp
  then show ?thesis by (simp add: location_Marshal_append)
qed

interpretation location_codec: fixed_codec "\<lambda>_. True" location_MarshalBinary LocationFromBinary LocationSize
proof unfold_locales
  show "LocationFromBinary (location_MarshalBinary x) = Inr x" for x
    using location_roundtrip [of x "[]"] by simp
qed (simp_all add: location_Marshal_append LocationSize_def)

section \<open>The bit vector of free slots\<close>

definition busy_in :: "bytes \<Rightarrow> nat \<Rightarrow> bool" where
  "busy_in data n \<longleftrightarrow> n < 8 * length data \<and> \<not> bit (data ! (n div 8)) (n mod 8)"

definition busy :: "slots \<Rightarrow> nat set" where
  "busy sl = {n. busy_in (sl_data sl) n}"

definition slots_ok :: "slots \<Rightarrow> bool" where
  "slots_ok sl \<longleftrightarrow> unat (sl_size sl) = 8 * length (sl_data sl) \<and>
     unat (sl_head sl) \<notin> busy sl \<and> (\<forall>j < unat (sl_head sl). j \<in> busy sl)"

definition slots_room :: "slots \<Rightarrow> bool" where
  "slots_room sl \<longleftrightarrow> 8 * length (sl_data sl) + 8 < 2 ^ 32"

lemma test_bit: "(0 < w AND 2 ^ k) = bit (w :: byte) k"
  by (simp add: word_greater_zero_iff and_exp_eq_0_iff_not_bit)

lemma next_loop_spec:
  assumes "unat sz = 8 * length data" "i \<le> sz"
  shows "unat i \<le> unat (next_loop data sz i) \<and> unat (next_loop data sz i) \<le> unat sz \<and>
    \<not> busy_in data (unat (next_loop data sz i)) \<and>
    (\<forall>j. unat i \<le> j \<and> j < unat (next_loop data sz i) \<longrightarrow> busy_in data j)"
  using assms
proof (induction data sz i rule: next_loop.induct)
  case (1 data sz i)
  have dm: "unat (i div 8) = unat i div 8" "unat (i mod 8) = unat i mod 8"
    by (simp_all add: unat_div unat_mod)
  show ?case
  proof (cases "i < sz")
    case False
    then show ?thesis using 1 by (subst (1 2 3 4) next_loop.simps) (auto simp: busy_in_def)
  next
    case True
    then have in_range: "unat i < 8 * length data" using 1 by (simp add: word_less_nat_alt)
    let ?b = "bit (data ! (unat i div 8)) (unat i mod 8)"
    have eq: "next_loop data sz i = (if ?b then i else next_loop data sz (i + 1))"
      using True by (subst next_loop.simps) (simp add: test_bit dm)
    show ?thesis
    proof (cases ?b)
      case True
      then show ?thesis unfolding eq using 1 in_range by (auto simp: busy_in_def)
    next
      case False
      have suc: "unat (i + 1) = Suc (unat i)" using True by (rule unat_inc_less)
      then have le: "i + 1 \<le> sz" using True by (simp add: word_le_nat_alt word_less_nat_alt)
      have "\<not> (data ! unat (i div 8) AND push_bit (unat (i mod 8)) 1 > 0)"
        using False by (simp add: test_bit dm)
      note ih = 1(1) [OF True this 1(2) le]
      have "busy_in data j" if "unat i \<le> j" "j < unat (next_loop data sz (i + 1))" for j
        using ih that suc False in_range by (cases "j = unat i") (auto simp: busy_in_def)
      then show ?thesis unfolding eq using False ih suc by auto
    qed
  qed
qed

lemma slots_load_ok:
  assumes "8 * length file < 2 ^ 32"
  shows "slots_ok (slots_load file)" "busy (slots_load file) = {n. busy_in file n}"
proof -
  have sz: "unat (of_nat (length file * 8) :: u32) = 8 * length file"
    unfolding unat_of_nat using assms by simp
  show "slots_ok (slots_load file)"
    using next_loop_spec [OF sz, of 0] sz
    by (simp add: slots_load_def slots_ok_def slots_next_def busy_def Let_def del: of_nat_mult)
  show "busy (slots_load file) = {n. busy_in file n}"
    by (simp add: slots_load_def busy_def Let_def)
qed

lemma bit_AND_NOT: "k < 8 \<Longrightarrow> bit (w AND NOT (2 ^ k)) m \<longleftrightarrow> bit (w :: byte) m \<and> m \<noteq> k"
  by (auto simp: bit_simps dest: bit_imp_le_length)

lemma bit_OR_push: "k < 8 \<Longrightarrow> bit (w OR 2 ^ k) m \<longleftrightarrow> bit (w :: byte) m \<or> m = k"
  by (auto simp: bit_simps)

lemma div_mod_8: "(a :: nat) = b \<longleftrightarrow> a div 8 = b div 8 \<and> a mod 8 = b mod 8"
  by (metis div_mult_mod_eq)

lemma busy_clear:
  assumes "m < 8 * length data"
  shows "busy_in (data [m div 8 := data ! (m div 8) AND NOT (2 ^ (m mod 8))]) n \<longleftrightarrow>
    n = m \<or> busy_in data n"
proof -
  have m: "m div 8 < length data" "m mod 8 < 8" using assms by auto
  show ?thesis
  proof (cases "n < 8 * length data")
    case True
    then have "n div 8 < length data" by auto
    with m True show ?thesis
      by (cases "n div 8 = m div 8") (auto simp: busy_in_def bit_AND_NOT div_mod_8 [of n m])
  qed (use assms in \<open>auto simp: busy_in_def\<close>)
qed

lemma busy_set:
  assumes "m < 8 * length data"
  shows "busy_in (data [m div 8 := data ! (m div 8) OR 2 ^ (m mod 8)]) n \<longleftrightarrow>
    n \<noteq> m \<and> busy_in data n"
proof -
  have m: "m div 8 < length data" "m mod 8 < 8" using assms by auto
  show ?thesis
  proof (cases "n < 8 * length data")
    case True
    then have "n div 8 < length data" by auto
    with m True show ?thesis
      by (cases "n div 8 = m div 8") (auto simp: busy_in_def bit_OR_push div_mod_8 [of n m])
  qed (auto simp: busy_in_def)
qed

lemma busy_extend: "busy_in (data @ [0xff]) n = busy_in data n"
proof (cases "n < 8 * length data")
  case True
  then have "n div 8 < length data" by auto
  with True show ?thesis by (simp add: busy_in_def nth_append)
next
  case False
  have "bit (255 :: byte) k" if "k < 8" for k
  proof -
    have "(255 :: byte) = mask 8" by (simp add: mask_eq_exp_minus_1)
    moreover have "bit (mask 8 :: byte) k" unfolding bit_mask_iff using that by simp
    ultimately show ?thesis by (simp only:)
  qed
  moreover have "n div 8 = length data" if "n < 8 + 8 * length data" using False that by auto
  ultimately show ?thesis using False by (auto simp: busy_in_def nth_append)
qed

lemma head_least: "slots_ok sl \<Longrightarrow> unat (sl_head sl) \<le> 8 * length (sl_data sl)"
proof (rule ccontr)
  assume "slots_ok sl" "\<not> unat (sl_head sl) \<le> 8 * length (sl_data sl)"
  then have "8 * length (sl_data sl) \<in> busy sl" by (simp add: slots_ok_def)
  then show False by (simp add: busy_def busy_in_def)
qed

lemma pop_spec:
  assumes ok: "slots_ok sl" and room: "slots_room sl" and p: "slots_pop sl = (h, sl')"
  shows "slots_ok sl' \<and> h = sl_head sl \<and> busy sl' = insert (unat h) (busy sl) \<and>
    length (sl_data sl) \<le> length (sl_data sl')"
proof -
  let ?h = "sl_head sl"
  define s1 where "s1 = (if ?h = sl_size sl then slots_extend 1 sl else sl)"
  have sz: "unat (sl_size sl) = 8 * length (sl_data sl)" using ok by (simp add: slots_ok_def)
  have s1: "unat (sl_size s1) = 8 * length (sl_data s1)" "busy s1 = busy sl"
      "unat ?h < 8 * length (sl_data s1)" "length (sl_data sl) \<le> length (sl_data s1)"
  proof -
    have e: "slots_extend 1 sl = sl\<lparr>sl_size := sl_size sl + 8, sl_data := sl_data sl @ [0xff]\<rparr>"
      by (simp add: slots_extend_def)
    note One_nat_def [simp del]
    have u: "unat (sl_size sl + 8) = 8 * length (sl_data sl) + 8"
      using sz room by (simp add: unat_word_ariths slots_room_def)
    show "unat (sl_size s1) = 8 * length (sl_data s1)" "busy s1 = busy sl"
      "length (sl_data sl) \<le> length (sl_data s1)"
      using sz u by (simp_all add: s1_def e busy_def busy_extend)
    show "unat ?h < 8 * length (sl_data s1)"
    proof (cases "?h = sl_size sl")
      case False
      then have "unat ?h \<noteq> unat (sl_size sl)" by (simp add: word_unat_eq_iff)
      then show ?thesis using head_least [OF ok] sz False by (simp add: s1_def)
    qed (simp add: s1_def e sz)
  qed
  let ?m = "unat ?h"
  have dm: "unat (?h div 8) = ?m div 8" "unat (?h mod 8) = ?m mod 8"
    by (simp_all add: unat_div unat_mod)
  define s2 where "s2 = s1\<lparr>sl_data := (sl_data s1) [?m div 8 := sl_data s1 ! (?m div 8) AND NOT (2 ^ (?m mod 8))]\<rparr>"
  have s2: "busy s2 = insert ?m (busy sl)" "unat (sl_size s2) = 8 * length (sl_data s2)"
    "length (sl_data s2) = length (sl_data s1)"
    using s1 busy_clear [OF s1(3)] by (auto simp: s2_def busy_def)
  have hs: "?h < sl_size s2" using s1(3) s2(2,3) by (simp add: word_less_nat_alt)
  have suc: "unat (?h + 1) = Suc ?m" using hs by (rule unat_inc_less)
  then have le: "?h + 1 \<le> sl_size s2" using hs by (simp add: word_le_nat_alt word_less_nat_alt)
  have sl': "h = ?h" "sl' = s2\<lparr>sl_head := slots_next s2 (?h + 1)\<rparr>"
    using p by (auto simp: slots_pop_def Let_def s1_def [symmetric] s2_def dm simp del: One_nat_def)
  note n = next_loop_spec [OF s2(2) le]
  have b: "busy sl' = busy s2" "sl_data sl' = sl_data s2" "sl_size sl' = sl_size s2"
    by (simp_all add: sl'(2) busy_def)
  have "j \<in> busy s2" if "j < unat (sl_head sl')" for j
  proof (cases "j \<le> ?m")
    case True
    then show ?thesis using s2(1) ok by (cases "j = ?m") (auto simp: slots_ok_def)
  next
    case False
    then show ?thesis using n that suc by (simp add: sl'(2) slots_next_def busy_def)
  qed
  moreover have "unat (sl_head sl') \<notin> busy s2" using n by (simp add: sl'(2) slots_next_def busy_def)
  ultimately show ?thesis using s2 b s1(4) sl'(1) by (simp add: slots_ok_def)
qed

lemma push_spec:
  assumes ok: "slots_ok sl" and i: "unat i \<in> busy sl"
  shows "slots_ok (slots_push i sl) \<and> busy (slots_push i sl) = busy sl - {unat i} \<and>
    length (sl_data (slots_push i sl)) = length (sl_data sl)"
proof -
  have m: "unat i < 8 * length (sl_data sl)" using i by (simp add: busy_def busy_in_def)
  have dm: "unat (i div 8) = unat i div 8" "unat (i mod 8) = unat i mod 8"
    by (simp_all add: unat_div unat_mod)
  let ?d = "(sl_data sl) [unat i div 8 := sl_data sl ! (unat i div 8) OR 2 ^ (unat i mod 8)]"
  have p: "slots_push i sl = sl\<lparr>sl_head := min (sl_head sl) i, sl_data := ?d\<rparr>"
    by (simp add: slots_push_def Let_def dm min_def not_le)
  have b: "busy (slots_push i sl) = busy sl - {unat i}"
    using busy_set [OF m] by (auto simp: p busy_def)
  have "unat (min (sl_head sl) i) = min (unat (sl_head sl)) (unat i)"
    by (simp add: min_def word_le_nat_alt)
  then have "slots_ok (slots_push i sl)"
    using ok b unfolding slots_ok_def by (auto simp: p min_def busy_def split: if_splits)
  with b show ?thesis by (simp add: p)
qed

section \<open>The contract of a slot allocator\<close>

text \<open>
  What a shard relies on: a popped slot was not in use and is the lowest such, and a released
  one is free again. The client lemmas: a slot in use is never popped, and a released slot
  bounds the next one popped, which keeps the files compact.
\<close>

locale slot_allocator =
  fixes inv :: "'s \<Rightarrow> bool" and room :: "'s \<Rightarrow> bool" and used :: "'s \<Rightarrow> nat set"
    and alloc :: "'s \<Rightarrow> 'i \<times> 's" and release :: "'i \<Rightarrow> 's \<Rightarrow> 's" and num :: "'i \<Rightarrow> nat"
  assumes alloc_inv: "inv s \<Longrightarrow> room s \<Longrightarrow> alloc s = (i, s') \<Longrightarrow> inv s'"
    and alloc_fresh: "inv s \<Longrightarrow> room s \<Longrightarrow> alloc s = (i, s') \<Longrightarrow> num i \<notin> used s"
    and alloc_used: "inv s \<Longrightarrow> room s \<Longrightarrow> alloc s = (i, s') \<Longrightarrow> used s' = insert (num i) (used s)"
    and alloc_least: "inv s \<Longrightarrow> room s \<Longrightarrow> alloc s = (i, s') \<Longrightarrow> j < num i \<Longrightarrow> j \<in> used s"
    and release_inv: "inv s \<Longrightarrow> num i \<in> used s \<Longrightarrow> inv (release i s)"
    and release_used: "inv s \<Longrightarrow> num i \<in> used s \<Longrightarrow> used (release i s) = used s - {num i}"
begin

lemma alloc_disjoint:
  "inv s \<Longrightarrow> room s \<Longrightarrow> alloc s = (i, s') \<Longrightarrow> H \<subseteq> used s \<Longrightarrow> num i \<notin> H \<and> insert (num i) H \<subseteq> used s'"
  using alloc_fresh [of s i s'] alloc_used [of s i s'] by auto

lemma reuse_bound:
  assumes "inv s" "num i \<in> used s" "room (release i s)" "alloc (release i s) = (j, s')"
  shows "num j \<le> num i"
proof (rule ccontr)
  assume "\<not> num j \<le> num i"
  then have "num i \<in> used (release i s)"
    using alloc_least [OF release_inv [OF assms(1,2)] assms(3,4)] by simp
  then show False using release_used [OF assms(1,2)] by simp
qed

end

interpretation slots: slot_allocator slots_ok slots_room busy slots_pop slots_push unat
proof
  show "slots_ok s'" "unat i \<notin> busy s" "busy s' = insert (unat i) (busy s)" "j < unat i \<Longrightarrow> j \<in> busy s"
    if "slots_ok s" "slots_room s" "slots_pop s = (i, s')" for s i s' j
    using pop_spec [OF that] that(1) by (auto simp: slots_ok_def)
qed (auto dest: push_spec)

section \<open>Reading what was written\<close>

lemma slice_map: "b \<le> length xs \<Longrightarrow> slice a b xs = map (\<lambda>k. xs ! (a + k)) [0..<b - a]"
  by (rule nth_equalityI) (auto simp: slice_def)

lemma ReadAt_iff:
  "file_ReadAt n off f = Some d \<longleftrightarrow> off + n \<le> length f \<and> length d = n \<and> (\<forall>k < n. d ! k = f ! (off + k))"
  by (auto simp: file_ReadAt_def slice_map list_eq_iff_nth_eq)

lemma WriteAt_length: "length (file_WriteAt buf off f) = max (length f) (off + length buf)"
  by (auto simp: file_WriteAt_def Let_def max_def)

lemma WriteAt_nth:
  "file_WriteAt buf off f ! k =
    (if k < off then (f @ replicate (off - length f) 0) ! k
     else if k < off + length buf then buf ! (k - off) else (f @ replicate (off - length f) 0) ! k)"
  if "k < max (length f) (off + length buf)"
  using that by (auto simp: file_WriteAt_def Let_def nth_append max_def min_def split: if_splits)

lemma read_written: "file_ReadAt (length buf) off (file_WriteAt buf off f) = Some buf"
  by (auto simp: ReadAt_iff WriteAt_length WriteAt_nth)

lemma read_elsewhere:
  assumes "file_ReadAt n off' f = Some d" "off' + n \<le> off \<or> off + length buf \<le> off'"
  shows "file_ReadAt n off' (file_WriteAt buf off f) = Some d"
  using assms by (auto simp: ReadAt_iff WriteAt_length WriteAt_nth nth_append)

end
