(* ===== verification/Sharky_Recovery.thy ===== *)
theory Sharky_Recovery
  imports Sharky_Slots
begin

text \<open>
  \<open>pkg/sharky/recovery.go\<close>: after a crash the files of free slots are built again from the
  locations found in the index. While they are collected the bit of a \<^emph>\<open>used\<close> slot is set, so
  that \<open>push\<close> serves to mark it; \<open>Save\<close> turns the vector around.
\<close>

section \<open>Definitions\<close>

datatype recovery_error = ErrShardNotFound nat

text \<open>The argument of a shard is the size of its data file, \<open>None\<close> when there is no such file.\<close>

definition recovery_shard :: "nat \<Rightarrow> nat \<Rightarrow> slots" where
  "recovery_shard datasize fileSize =
     (let sz = (of_nat (fileSize div datasize) :: u32)
      in \<lparr>sl_data = replicate (unat (sz div 8)) 0, sl_size = 0, sl_head = 0\<rparr>)"

fun recovery_shards :: "nat \<Rightarrow> nat \<Rightarrow> nat option list \<Rightarrow> recovery_error + slots list" where
  "recovery_shards i datasize [] = Inr []"
| "recovery_shards i datasize (None # files) = Inl (ErrShardNotFound i)"
| "recovery_shards i datasize (Some fileSize # files) =
     (case recovery_shards (Suc i) datasize files of
        Inl e \<Rightarrow> Inl e
      | Inr shs \<Rightarrow> Inr (recovery_shard datasize fileSize # shs))"

definition NewRecovery :: "nat option list \<Rightarrow> nat \<Rightarrow> recovery_error + slots list" where
  "NewRecovery files datasize = recovery_shards 0 datasize files"

definition recovery_grow :: "u32 \<Rightarrow> slots \<Rightarrow> slots" where
  "recovery_grow slot sh =
     (let l = length (sl_data sh);
          diff = int (unat (slot div 8)) - int l
      in if diff \<ge> 0
         then let sh = slots_extend (nat (diff + 1)) sh
              in sh\<lparr>sl_data := foldl (\<lambda>data i. data [l + i := 0]) (sl_data sh) [0..<nat (diff + 1)]\<rparr>
         else sh)"

text \<open>A location of a shard that does not exist panics.\<close>

definition recovery_Add :: "location \<Rightarrow> slots list \<Rightarrow> slots list option" where
  "recovery_Add loc shs =
     (let i = unat (loc_Shard loc)
      in if i < length shs
         then Some (shs [i := slots_push (loc_Slot loc) (recovery_grow (loc_Slot loc) (shs ! i))])
         else None)"

fun recovery_AddAll :: "location list \<Rightarrow> slots list \<Rightarrow> slots list option" where
  "recovery_AddAll [] shs = Some shs"
| "recovery_AddAll (loc # locs) shs =
     (case recovery_Add loc shs of None \<Rightarrow> None | Some shs \<Rightarrow> recovery_AddAll locs shs)"

definition recovery_Save :: "slots list \<Rightarrow> bytes list" where
  "recovery_Save shs =
     map (\<lambda>sh. slots_save (sh\<lparr>sl_data := map (\<lambda>b. b XOR 0xff) (sl_data sh)\<rparr>)) shs"

section \<open>The vector of used slots\<close>

definition marked :: "bytes \<Rightarrow> nat set" where
  "marked data = {n. n < 8 * length data \<and> bit (data ! (n div 8)) (n mod 8)}"

lemma marked_zeros [simp]: "marked (replicate n 0) = {}"
  by (auto simp: marked_def)

lemma marked_append_zeros: "marked (data @ replicate n 0) = marked data"
proof (rule set_eqI)
  fix m
  show "m \<in> marked (data @ replicate n 0) \<longleftrightarrow> m \<in> marked data"
  proof (cases "m < 8 * length data")
    case True
    then have "m div 8 < length data" by auto
    with True show ?thesis by (simp add: marked_def nth_append)
  next
    case False
    then have "\<not> m div 8 < length data" by auto
    with False show ?thesis by (auto simp: marked_def nth_append)
  qed
qed

lemma marked_set:
  assumes "m < 8 * length data"
  shows "marked (data [m div 8 := data ! (m div 8) OR 2 ^ (m mod 8)]) = insert m (marked data)"
proof (rule set_eqI)
  fix n
  have m: "m div 8 < length data" "m mod 8 < 8" using assms by auto
  show "n \<in> marked (data [m div 8 := data ! (m div 8) OR 2 ^ (m mod 8)]) \<longleftrightarrow> n \<in> insert m (marked data)"
  proof (cases "n < 8 * length data")
    case True
    with m show ?thesis
      by (cases "n div 8 = m div 8") (auto simp: marked_def bit_OR_push div_mod_8 [of n m])
  qed (use assms in \<open>auto simp: marked_def\<close>)
qed

lemma bit_255: "k < 8 \<Longrightarrow> bit (255 :: byte) k"
proof -
  assume "k < 8"
  moreover have "(255 :: byte) = mask 8" by (simp add: mask_eq_exp_minus_1)
  moreover have "bit (mask 8 :: byte) k" if "k < 8" unfolding bit_mask_iff using that by simp
  ultimately show ?thesis by (simp only:)
qed

lemma inverted_busy: "busy_in (map (\<lambda>b. b XOR 0xff) data) n \<longleftrightarrow> n \<in> marked data"
proof (cases "n < 8 * length data")
  case True
  then have "n div 8 < length data" by auto
  moreover have "bit (255 :: byte) (n mod 8)" by (rule bit_255) simp
  ultimately show ?thesis using True by (simp add: busy_in_def marked_def bit_simps del: bit_numeral_simps)
qed (auto simp: busy_in_def marked_def)

lemma zero_tail:
  "n \<le> m \<Longrightarrow> foldl (\<lambda>data i. data [length d + i := 0]) (d @ replicate m x) [0..<n] =
     d @ replicate n 0 @ replicate (m - n) x"
proof (induction n)
  case (Suc n)
  then obtain k where k: "m - n = Suc k" "m - Suc n = k" by (metis Suc_diff_Suc Suc_le_lessD)
  with Suc show ?case by (simp add: list_update_append replicate_append_same)
qed simp

lemma recovery_grow_data:
  "sl_data (recovery_grow slot sh) =
     sl_data sh @ replicate (Suc (unat (slot div 8)) - length (sl_data sh)) 0"
proof (cases "unat (slot div 8) < length (sl_data sh)")
  case False
  then have "nat (int (unat (slot div 8)) - int (length (sl_data sh)) + 1) =
      Suc (unat (slot div 8)) - length (sl_data sh)" by linarith
  with False show ?thesis
    by (simp add: recovery_grow_def slots_extend_def Let_def zero_tail [of _ _ "sl_data sh"])
next
  case True
  then have "\<not> 0 \<le> int (unat (slot div 8)) - int (length (sl_data sh))" by linarith
  then have "recovery_grow slot sh = sh" unfolding recovery_grow_def Let_def by (simp only: if_False)
  with True show ?thesis by simp
qed

lemma recovery_mark:
  fixes slot :: u32 and sh :: slots
  defines "sh' \<equiv> slots_push slot (recovery_grow slot sh)"
  shows "marked (sl_data sh') = insert (unat slot) (marked (sl_data sh))"
    "length (sl_data sh') = max (length (sl_data sh)) (Suc (unat slot div 8))"
proof -
  let ?d = "sl_data sh @ replicate (Suc (unat slot div 8) - length (sl_data sh)) 0"
  have dm: "unat (slot div 8) = unat slot div 8" "unat (slot mod 8) = unat slot mod 8"
    by (simp_all add: unat_div unat_mod)
  have d: "sl_data (recovery_grow slot sh) = ?d" by (simp add: recovery_grow_data dm)
  have sh': "sl_data sh' = ?d [unat slot div 8 := ?d ! (unat slot div 8) OR 2 ^ (unat slot mod 8)]"
    by (simp add: sh'_def slots_push_def Let_def d dm)
  have l: "length ?d = max (length (sl_data sh)) (Suc (unat slot div 8))" by simp
  then have "unat slot div 8 < length ?d" by linarith
  then have "unat slot < 8 * length ?d" by linarith
  then show "marked (sl_data sh') = insert (unat slot) (marked (sl_data sh))"
    unfolding sh' by (subst marked_set) (simp_all only: marked_append_zeros)
  show "length (sl_data sh') = max (length (sl_data sh)) (Suc (unat slot div 8))"
    unfolding sh' length_list_update by (rule l)
qed

definition slots_in :: "nat \<Rightarrow> location list \<Rightarrow> nat set" where
  "slots_in i locs = {unat (loc_Slot loc) | loc. loc \<in> set locs \<and> unat (loc_Shard loc) = i}"

lemma recovery_AddAll_marked:
  assumes "\<forall>loc \<in> set locs. unat (loc_Shard loc) < length shs"
  shows "\<exists>shs'. recovery_AddAll locs shs = Some shs' \<and> length shs' = length shs \<and>
    (\<forall>i < length shs. marked (sl_data (shs' ! i)) = marked (sl_data (shs ! i)) \<union> slots_in i locs \<and>
      (\<forall>n. length (sl_data (shs ! i)) \<le> n \<and> (\<forall>s \<in> slots_in i locs. s < 8 * n) \<longrightarrow>
        length (sl_data (shs' ! i)) \<le> n))"
  using assms
proof (induction locs arbitrary: shs)
  case Nil
  then show ?case by (simp add: slots_in_def)
next
  case (Cons loc locs)
  let ?j = "unat (loc_Shard loc)"
  let ?shs = "shs [?j := slots_push (loc_Slot loc) (recovery_grow (loc_Slot loc) (shs ! ?j))]"
  have j: "?j < length shs" using Cons.prems by simp
  have "\<forall>loc \<in> set locs. unat (loc_Shard loc) < length ?shs" using Cons.prems by simp
  from Cons.IH [OF this] obtain shs' where s: "recovery_AddAll locs ?shs = Some shs'"
    "length shs' = length shs"
    "\<And>i. i < length shs \<Longrightarrow> marked (sl_data (shs' ! i)) = marked (sl_data (?shs ! i)) \<union> slots_in i locs"
    "\<And>i n. i < length shs \<Longrightarrow> length (sl_data (?shs ! i)) \<le> n \<Longrightarrow> \<forall>s \<in> slots_in i locs. s < 8 * n \<Longrightarrow>
       length (sl_data (shs' ! i)) \<le> n" by auto
  have r: "recovery_AddAll (loc # locs) shs = Some shs'" using s(1) j by (simp add: recovery_Add_def Let_def)
  have C: "slots_in i (loc # locs) =
      (if ?j = i then insert (unat (loc_Slot loc)) (slots_in i locs) else slots_in i locs)" for i
    by (auto simp: slots_in_def)
  have "marked (sl_data (shs' ! i)) = marked (sl_data (shs ! i)) \<union> slots_in i (loc # locs)"
    if "i < length shs" for i
    using s(3) [OF that] recovery_mark(1) [of "loc_Slot loc" "shs ! ?j"] that unfolding C by auto
  moreover have "length (sl_data (shs' ! i)) \<le> n"
    if i: "i < length shs" and n: "length (sl_data (shs ! i)) \<le> n" "\<forall>s \<in> slots_in i (loc # locs). s < 8 * n" for i n
  proof (rule s(4) [OF i])
    show "length (sl_data (?shs ! i)) \<le> n"
      using n i recovery_mark(2) [of "loc_Slot loc" "shs ! ?j"] unfolding C
      by (cases "?j = i") (auto simp: less_mult_imp_div_less Suc_leI mult.commute)
    show "\<forall>s \<in> slots_in i locs. s < 8 * n" using n(2) unfolding C by (auto split: if_splits)
  qed
  ultimately show ?case using r s(2) by auto
qed

lemma NewRecovery_shards:
  assumes "NewRecovery (map Some fileSizes) datasize = Inr shs"
  shows "length shs = length fileSizes \<and> (\<forall>i < length shs. marked (sl_data (shs ! i)) = {} \<and>
    8 * length (sl_data (shs ! i)) < 2 ^ 32)"
proof -
  have small: "8 * unat ((w :: u32) div 8) < 2 ^ 32" for w
  proof -
    have "8 * unat (w div 8) \<le> unat w" by (simp add: unat_div)
    also have "unat w < 2 ^ 32" using unsigned_less [of w, where 'a = nat] by simp
    finally show ?thesis .
  qed
  have "recovery_shards k datasize (map Some fileSizes) = Inr shs \<Longrightarrow> shs = map (recovery_shard datasize) fileSizes" for k
    by (induction fileSizes arbitrary: k shs) (auto split: sum.splits)
  from this [OF assms [unfolded NewRecovery_def]] show ?thesis
    using small by (auto simp: recovery_shard_def Let_def)
qed

section \<open>Property\<close>

text \<open>
  recovery: after every location of the index has been added and the result saved, the
  files of free slots, when the store opens them, have exactly the slots of these locations
  taken, whatever the order and however often a location is added; all other slots are free.
\<close>

theorem recovery_restores_slots:
  assumes "NewRecovery (map Some fileSizes) datasize = Inr shs"
    and "\<forall>loc \<in> set locs. unat (loc_Shard loc) < length fileSizes \<and> unat (loc_Slot loc) < 2 ^ 32 - 8"
  shows "\<exists>shs'. recovery_AddAll locs shs = Some shs' \<and>
    (\<forall>i < length fileSizes. slots_ok (slots_load (recovery_Save shs' ! i)) \<and>
       busy (slots_load (recovery_Save shs' ! i)) = slots_in i locs)"
proof -
  note new = NewRecovery_shards [OF assms(1)]
  then have "\<forall>loc \<in> set locs. unat (loc_Shard loc) < length shs" using assms(2) by simp
  from recovery_AddAll_marked [OF this] obtain shs' where s: "recovery_AddAll locs shs = Some shs'"
    "length shs' = length shs"
    "\<And>i. i < length shs \<Longrightarrow> marked (sl_data (shs' ! i)) = marked (sl_data (shs ! i)) \<union> slots_in i locs"
    "\<And>i n. i < length shs \<Longrightarrow> length (sl_data (shs ! i)) \<le> n \<Longrightarrow> \<forall>s \<in> slots_in i locs. s < 8 * n \<Longrightarrow>
       length (sl_data (shs' ! i)) \<le> n" by auto
  have "slots_ok (slots_load (recovery_Save shs' ! i)) \<and>
      busy (slots_load (recovery_Save shs' ! i)) = slots_in i locs" if i: "i < length fileSizes" for i
  proof -
    have il: "i < length shs" using i new by simp
    have "length (sl_data (shs' ! i)) \<le> 2 ^ 29 - 1"
    proof (rule s(4) [OF il])
      show "length (sl_data (shs ! i)) \<le> 2 ^ 29 - 1" using new il by fastforce
      show "\<forall>s \<in> slots_in i locs. s < 8 * (2 ^ 29 - 1)" using assms(2) by (auto simp: slots_in_def)
    qed
    then have l: "8 * length (recovery_Save shs' ! i) < 2 ^ 32"
      using il s(2) by (simp add: recovery_Save_def slots_save_def)
    show ?thesis
      using slots_load_ok [OF l] il s(2,3) new
      by (simp add: inverted_busy recovery_Save_def slots_save_def)
  qed
  with s(1) show ?thesis by blast
qed

lemma recovery_restores_slots_witness:
  "\<exists>shs'. recovery_AddAll [\<lparr>loc_Shard = 0, loc_Slot = 9, loc_Length = 4\<rparr>]
      [recovery_shard 4 32] = Some shs' \<and>
    (\<forall>i < length [32 :: nat]. slots_ok (slots_load (recovery_Save shs' ! i)) \<and>
       busy (slots_load (recovery_Save shs' ! i)) =
         slots_in i [\<lparr>loc_Shard = 0, loc_Slot = 9, loc_Length = 4\<rparr>])"
  by (rule recovery_restores_slots [of "[32]" 4]) (simp_all add: NewRecovery_def)

end
