(* ===== verification/Shed.thy ===== *)
theory Shed
  imports Postage State_Store
begin

text \<open>
  \<open>pkg/shed\<close> and the index layout of \<open>pkg/localstore/localstore.go\<close>: an index is a part of
  the LevelDB key space, with functions that encode the key and the value of an item. An index
  is kept as an association list in the order of its keys; a value is kept decoded, as the
  item that \<open>DecodeValue\<close> makes of \<open>EncodeValue\<close>. Slices that are nil and empty slices are
  not told apart. Reads of the database do not fail; writing a batch may.
\<close>

section \<open>Items (index.go)\<close>

record item =
  it_Address :: bytes
  it_Data :: bytes
  it_Location :: bytes
  it_AccessTimestamp :: u64
  it_StoreTimestamp :: u64
  it_BinID :: u64
  it_PinCounter :: u64
  it_Tag :: u32
  it_BatchID :: bytes
  it_Index :: bytes
  it_Timestamp :: bytes
  it_Sig :: bytes
  it_BucketDepth :: u8
  it_Depth :: u8
  it_Radius :: u8
  it_Immutable :: bool

definition zero_item :: item where
  "zero_item = \<lparr>it_Address = [], it_Data = [], it_Location = [], it_AccessTimestamp = 0,
     it_StoreTimestamp = 0, it_BinID = 0, it_PinCounter = 0, it_Tag = 0, it_BatchID = [],
     it_Index = [], it_Timestamp = [], it_Sig = [], it_BucketDepth = 0, it_Depth = 0,
     it_Radius = 0, it_Immutable = False\<rparr>"

definition item_Merge :: "item \<Rightarrow> item \<Rightarrow> item" where
  "item_Merge i i2 =
     \<lparr>it_Address = (if it_Address i = [] then it_Address i2 else it_Address i),
      it_Data = (if it_Data i = [] then it_Data i2 else it_Data i),
      it_Location = (if it_Location i = [] then it_Location i2 else it_Location i),
      it_AccessTimestamp = (if it_AccessTimestamp i = 0 then it_AccessTimestamp i2 else it_AccessTimestamp i),
      it_StoreTimestamp = (if it_StoreTimestamp i = 0 then it_StoreTimestamp i2 else it_StoreTimestamp i),
      it_BinID = (if it_BinID i = 0 then it_BinID i2 else it_BinID i),
      it_PinCounter = (if it_PinCounter i = 0 then it_PinCounter i2 else it_PinCounter i),
      it_Tag = (if it_Tag i = 0 then it_Tag i2 else it_Tag i),
      it_BatchID = (if it_BatchID i = [] then it_BatchID i2 else it_BatchID i),
      it_Index = (if it_Index i = [] then it_Index i2 else it_Index i),
      it_Timestamp = (if it_Timestamp i = [] then it_Timestamp i2 else it_Timestamp i),
      it_Sig = (if it_Sig i = [] then it_Sig i2 else it_Sig i),
      it_BucketDepth = (if it_BucketDepth i = 0 then it_BucketDepth i2 else it_BucketDepth i),
      it_Depth = (if it_Depth i = 0 then it_Depth i2 else it_Depth i),
      it_Radius = (if it_Radius i = 0 then it_Radius i2 else it_Radius i),
      it_Immutable = (if \<not> it_Immutable i then it_Immutable i2 else it_Immutable i)\<rparr>"

section \<open>The layout of the indexes (localstore.go, New)\<close>

datatype index_name =
  RetrievalData | RetrievalAccess | PullIx | PushIx | GcIx | PinIx |
  PostageChunks | PostageRadius | PostageIndex

text \<open>\<open>copy\<close> into a fresh slice of \<open>n\<close> bytes.\<close>

definition fit :: "nat \<Rightarrow> bytes \<Rightarrow> bytes" where
  "fit n bs = take n bs @ replicate (n - length bs) 0"

text \<open>The proximity order to the base key, the overlay address of the node.\<close>

definition db_po :: "bytes \<Rightarrow> bytes \<Rightarrow> u8" where
  "db_po baseKey addr = Proximity baseKey addr"

fun EncodeKey :: "bytes \<Rightarrow> index_name \<Rightarrow> item \<Rightarrow> bytes" where
  "EncodeKey base RetrievalData f = it_Address f"
| "EncodeKey base RetrievalAccess f = it_Address f"
| "EncodeKey base PullIx f = db_po base (it_Address f) # be_of_nat 8 (unat (it_BinID f))"
| "EncodeKey base PushIx f = be_of_nat 8 (unat (it_StoreTimestamp f)) @ fit 32 (it_Address f)"
| "EncodeKey base GcIx f =
     be_of_nat 8 (unat (it_AccessTimestamp f)) @ be_of_nat 8 (unat (it_BinID f)) @ it_Address f"
| "EncodeKey base PinIx f = it_Address f"
| "EncodeKey base PostageChunks f =
     fit 32 (it_BatchID f) @ [db_po base (it_Address f)] @ fit 32 (it_Address f)"
| "EncodeKey base PostageRadius f = fit 32 (it_BatchID f)"
| "EncodeKey base PostageIndex f = fit 32 (it_BatchID f) @ fit 8 (it_Index f)"

fun DecodeKey :: "index_name \<Rightarrow> bytes \<Rightarrow> item" where
  "DecodeKey RetrievalData key = zero_item\<lparr>it_Address := key\<rparr>"
| "DecodeKey RetrievalAccess key = zero_item\<lparr>it_Address := key\<rparr>"
| "DecodeKey PullIx key = zero_item\<lparr>it_BinID := of_nat (be_to_nat (slice 1 9 key))\<rparr>"
| "DecodeKey PushIx key =
     zero_item\<lparr>it_Address := drop 8 key, it_StoreTimestamp := of_nat (be_to_nat (take 8 key))\<rparr>"
| "DecodeKey GcIx key =
     zero_item\<lparr>it_AccessTimestamp := of_nat (be_to_nat (take 8 key)),
               it_BinID := of_nat (be_to_nat (slice 8 16 key)), it_Address := drop 16 key\<rparr>"
| "DecodeKey PinIx key = zero_item\<lparr>it_Address := key\<rparr>"
| "DecodeKey PostageChunks key = zero_item\<lparr>it_BatchID := take 32 key, it_Address := slice 33 65 key\<rparr>"
| "DecodeKey PostageRadius key = zero_item\<lparr>it_BatchID := take 32 key\<rparr>"
| "DecodeKey PostageIndex key = zero_item\<lparr>it_BatchID := take 32 key, it_Index := slice 32 40 key\<rparr>"

text \<open>The item that is decoded from the encoded value of an item.\<close>

fun index_value :: "index_name \<Rightarrow> item \<Rightarrow> item" where
  "index_value RetrievalData f =
     (case stamp_UnmarshalBinary
             (stamp_MarshalBinary (NewStamp (it_BatchID f) (it_Index f) (it_Timestamp f) (it_Sig f))) of
        Inl _ \<Rightarrow> zero_item
      | Inr s \<Rightarrow> zero_item\<lparr>it_StoreTimestamp := it_StoreTimestamp f, it_BinID := it_BinID f,
                   it_BatchID := s_batchID s, it_Index := s_index s, it_Timestamp := s_timestamp s,
                   it_Sig := s_sig s, it_Location := it_Location f\<rparr>)"
| "index_value RetrievalAccess f = zero_item\<lparr>it_AccessTimestamp := it_AccessTimestamp f\<rparr>"
| "index_value PullIx f =
     zero_item\<lparr>it_Address := fit 32 (it_Address f), it_BatchID := fit 32 (it_BatchID f)\<rparr>"
| "index_value PushIx f = zero_item\<lparr>it_Tag := it_Tag f\<rparr>"
| "index_value GcIx f = zero_item\<lparr>it_BatchID := fit 32 (it_BatchID f), it_Index := fit 8 (it_Index f)\<rparr>"
| "index_value PinIx f = zero_item\<lparr>it_PinCounter := it_PinCounter f\<rparr>"
| "index_value PostageChunks f = zero_item"
| "index_value PostageRadius f = zero_item\<lparr>it_Radius := it_Radius f\<rparr>"
| "index_value PostageIndex f =
     zero_item\<lparr>it_Address := fit 32 (it_Address f), it_Timestamp := fit 8 (it_Timestamp f)\<rparr>"

section \<open>Operations on an index\<close>

type_synonym indexes = "index_name \<Rightarrow> (bytes \<times> item) list"

text \<open>\<open>None\<close> is \<open>leveldb.ErrNotFound\<close>.\<close>

definition index_Get :: "bytes \<Rightarrow> indexes \<Rightarrow> index_name \<Rightarrow> item \<Rightarrow> item option" where
  "index_Get base ix n keyFields =
     (case map_of (ix n) (EncodeKey base n keyFields) of
        None \<Rightarrow> None
      | Some out \<Rightarrow> Some (item_Merge out keyFields))"

definition index_Has :: "bytes \<Rightarrow> indexes \<Rightarrow> index_name \<Rightarrow> item \<Rightarrow> bool" where
  "index_Has base ix n keyFields \<longleftrightarrow> map_of (ix n) (EncodeKey base n keyFields) \<noteq> None"

text \<open>A batch collects writes that take effect together.\<close>

datatype batch_op =
  BPut index_name bytes item | BDelete index_name bytes |
  BGcSize u64 | BReserveSize u64 | BBinID u8 u64

definition PutInBatch :: "bytes \<Rightarrow> index_name \<Rightarrow> item \<Rightarrow> batch_op list \<Rightarrow> batch_op list" where
  "PutInBatch base n i batch = batch @ [BPut n (EncodeKey base n i) (index_value n i)]"

definition DeleteInBatch :: "bytes \<Rightarrow> index_name \<Rightarrow> item \<Rightarrow> batch_op list \<Rightarrow> batch_op list" where
  "DeleteInBatch base n i batch = batch @ [BDelete n (EncodeKey base n i)]"

text \<open>The items of an iteration, from the key \<open>start\<close> on and with the prefix \<open>pre\<close>.\<close>

definition index_item :: "index_name \<Rightarrow> bytes \<times> item \<Rightarrow> item" where
  "index_item n kv = item_Merge (DecodeKey n (fst kv)) (snd kv)"

definition index_items :: "indexes \<Rightarrow> index_name \<Rightarrow> bytes \<Rightarrow> bytes \<Rightarrow> item list" where
  "index_items ix n start pre =
     map (index_item n)
       (takeWhile (\<lambda>(k, v). has_prefix pre k) (dropWhile (\<lambda>(k, v). k < start) (ix n)))"

section \<open>Laws\<close>

lemma has_prefix_Nil [simp]: "has_prefix [] k"
  by (simp add: has_prefix_def)

lemma length_fit [simp]: "length (fit n bs) = n"
  by (simp add: fit_def)

lemma fit_id [simp]: "length bs = n \<Longrightarrow> fit n bs = bs"
  by (simp add: fit_def)

lemma be8_inj [simp]: "be_of_nat 8 (unat a) = be_of_nat 8 (unat b) \<longleftrightarrow> a = (b :: u64)"
proof
  assume "be_of_nat 8 (unat a) = be_of_nat 8 (unat b)"
  moreover have "unat x < 256 ^ 8" for x :: u64 using unsigned_less [of x, where 'a = nat] by simp
  ultimately have "unat a = unat b" by (metis be_to_of_nat_id)
  then show "a = b" by (simp add: word_unat_eq_iff)
qed simp

definition indexes_ok :: "indexes \<Rightarrow> bool" where
  "indexes_ok ix \<longleftrightarrow> (\<forall>n. sorted_wrt (<) (map fst (ix n)))"

lemma item_Merge_zero [simp]: "item_Merge zero_item i = i"
  by (simp add: item_Merge_def zero_item_def)

end
