(* ===== verification/Localstore.thy ===== *)
theory Localstore
  imports Shed Sharky
begin

text \<open>
  \<open>pkg/localstore\<close>: the chunk store of a node. A chunk is a blob in sharky and an entry of the
  retrieval index; the other indexes say what may be pulled, pushed, pinned and collected.
  \<open>batchMu\<close> makes every operation that writes one atomic step. The operations take the time
  \<open>now\<close>, the outcome \<open>sw\<close> of \<open>sharky.Write\<close> (which shard takes a blob is up to the scheduler),
  and whether the write of the batch succeeds. Tags are left out (\<open>db.tags\<close> is nil).
\<close>

section \<open>The database (localstore.go)\<close>

record localdb =
  ld_ix :: indexes
  ld_binIDs :: "u8 \<Rightarrow> u64"
  ld_gcSize :: u64
  ld_reserveSize :: u64
  ld_cacheCapacity :: u64
  ld_reserveCapacity :: u64
  ld_baseKey :: bytes
  ld_sharky :: "shard list"
  ld_gcRunning :: bool
  ld_dirtyAddresses :: "address list"
  ld_gcTrigger :: bool
  ld_reserveTrigger :: bool

datatype ls_error =
  LsNotFound | LsOverwrite | LsInvalidMode | LsLocation | LsSharky sharky_error | LsBatch | LsPanic

definition ls_New :: "bytes \<Rightarrow> u64 \<Rightarrow> u64 \<Rightarrow> shard list \<Rightarrow> localdb" where
  "ls_New baseKey capacity reserveCapacity shards =
     \<lparr>ld_ix = (\<lambda>_. []), ld_binIDs = (\<lambda>_. 0), ld_gcSize = 0, ld_reserveSize = 0,
      ld_cacheCapacity = (if capacity = 0 then 1000000 else capacity),
      ld_reserveCapacity = reserveCapacity, ld_baseKey = baseKey, ld_sharky = shards,
      ld_gcRunning = False, ld_dirtyAddresses = [], ld_gcTrigger = False, ld_reserveTrigger = False\<rparr>"

definition ls_po :: "localdb \<Rightarrow> address \<Rightarrow> u8" where
  "ls_po db addr = db_po (ld_baseKey db) (addr_bytes addr)"

text \<open>\<open>ch.Stamp()\<close> of a chunk without a stamp is nil, and its methods panic.\<close>

definition chunkToItem :: "stamp chunk \<Rightarrow> item option" where
  "chunkToItem ch =
     (case ch_stamp ch of
        None \<Rightarrow> None
      | Some s \<Rightarrow>
          Some (zero_item\<lparr>it_Address := addr_bytes (ch_addr ch), it_Data := ch_data ch,
            it_Tag := ch_tagID ch, it_BatchID := s_batchID s, it_Index := s_index s,
            it_Timestamp := s_timestamp s, it_Sig := s_sig s, it_Depth := ch_depth ch,
            it_Radius := ch_radius ch, it_BucketDepth := ch_bucketDepth ch,
            it_Immutable := ch_immutable ch\<rparr>))"

definition addressToItem :: "address \<Rightarrow> item" where
  "addressToItem addr = zero_item\<lparr>it_Address := addr_bytes addr\<rparr>"

abbreviation ix_Get :: "localdb \<Rightarrow> index_name \<Rightarrow> item \<Rightarrow> item option" where
  "ix_Get db \<equiv> index_Get (ld_baseKey db) (ld_ix db)"

abbreviation ix_Has :: "localdb \<Rightarrow> index_name \<Rightarrow> item \<Rightarrow> bool" where
  "ix_Has db \<equiv> index_Has (ld_baseKey db) (ld_ix db)"

abbreviation ix_put :: "localdb \<Rightarrow> index_name \<Rightarrow> item \<Rightarrow> batch_op list \<Rightarrow> batch_op list" where
  "ix_put db \<equiv> PutInBatch (ld_baseKey db)"

abbreviation ix_del :: "localdb \<Rightarrow> index_name \<Rightarrow> item \<Rightarrow> batch_op list \<Rightarrow> batch_op list" where
  "ix_del db \<equiv> DeleteInBatch (ld_baseKey db)"

text \<open>\<open>WriteBatch\<close>: the writes of a batch, in their order.\<close>

fun batch_op_apply :: "batch_op \<Rightarrow> localdb \<Rightarrow> localdb" where
  "batch_op_apply (BPut n k v) db = db\<lparr>ld_ix := (ld_ix db) (n := assoc_put k v (ld_ix db n))\<rparr>"
| "batch_op_apply (BDelete n k) db =
     db\<lparr>ld_ix := (ld_ix db) (n := filter (\<lambda>(k', v). k' \<noteq> k) (ld_ix db n))\<rparr>"
| "batch_op_apply (BGcSize s) db = db\<lparr>ld_gcSize := s\<rparr>"
| "batch_op_apply (BReserveSize s) db = db\<lparr>ld_reserveSize := s\<rparr>"
| "batch_op_apply (BBinID po s) db = db\<lparr>ld_binIDs := (ld_binIDs db) (po := s)\<rparr>"

definition WriteBatch :: "batch_op list \<Rightarrow> localdb \<Rightarrow> localdb" where
  "WriteBatch batch db = fold batch_op_apply batch db"

section \<open>Reading (mode\_get.go, mode\_has.go, listchunks.go)\<close>

datatype mode_get = ModeGetRequest | ModeGetSync | ModeGetLookup | ModeGetRequestPin

definition ls_read :: "bytes \<Rightarrow> localdb \<Rightarrow> ls_error + bytes" where
  "ls_read location db =
     (case LocationFromBinary location of
        Inl _ \<Rightarrow> Inl LsLocation
      | Inr l \<Rightarrow> (case sharky_Read l (ld_sharky db) of Inl e \<Rightarrow> Inl (LsSharky e) | Inr d \<Rightarrow> Inr d))"

text \<open>
  \<open>get\<close> starts \<open>updateGC\<close> for a requested chunk, a step of its own: the second component is
  the item it is started with.
\<close>

definition ls_get :: "mode_get \<Rightarrow> address \<Rightarrow> localdb \<Rightarrow> (ls_error + item) \<times> item option" where
  "ls_get mode addr db =
     (case ix_Get db RetrievalData (addressToItem addr) of
        None \<Rightarrow> (Inl LsNotFound, None)
      | Some out \<Rightarrow>
          (case ls_read (it_Location out) db of
             Inl e \<Rightarrow> (Inl e, None)
           | Inr d \<Rightarrow>
               let out = out\<lparr>it_Data := d\<rparr>
               in case mode of
                    ModeGetRequest \<Rightarrow> (Inr out, Some out)
                  | ModeGetSync \<Rightarrow> (Inr out, None)
                  | ModeGetLookup \<Rightarrow> (Inr out, None)
                  | ModeGetRequestPin \<Rightarrow> (Inl LsInvalidMode, None)))"

definition ls_Get :: "mode_get \<Rightarrow> address \<Rightarrow> localdb \<Rightarrow> ls_error + stamp chunk" where
  "ls_Get mode addr db =
     (case fst (ls_get mode addr db) of
        Inl e \<Rightarrow> Inl e
      | Inr out \<Rightarrow>
          Inr (WithStamp (NewStamp (it_BatchID out) (it_Index out) (it_Timestamp out) (it_Sig out))
                (NewChunk (NewAddress (it_Address out)) (it_Data out))))"

definition ls_Has :: "address \<Rightarrow> localdb \<Rightarrow> bool" where
  "ls_Has addr db = ix_Has db RetrievalData (addressToItem addr)"

text \<open>
  \<open>IterStoredChunks\<close>: every item of the retrieval index, with its data, until the callback
  fails or a blob cannot be read.
\<close>

fun iter_chunks ::
  "bool \<Rightarrow> (item \<Rightarrow> 's \<Rightarrow> 'e option \<times> 's) \<Rightarrow> localdb \<Rightarrow> item list \<Rightarrow> 's \<Rightarrow> (ls_error + 'e) option \<times> 's" where
  "iter_chunks withdata f db [] st = (None, st)"
| "iter_chunks withdata f db (item # items) st =
     (case (if withdata then ls_read (it_Location item) db else Inr (it_Data item)) of
        Inl e \<Rightarrow> (Some (Inl e), st)
      | Inr d \<Rightarrow>
          (case f (item\<lparr>it_Data := d\<rparr>) st of
             (Some e, st) \<Rightarrow> (Some (Inr e), st)
           | (None, st) \<Rightarrow> iter_chunks withdata f db items st))"

definition IterStoredChunks ::
  "bool \<Rightarrow> (item \<Rightarrow> 's \<Rightarrow> 'e option \<times> 's) \<Rightarrow> localdb \<Rightarrow> 's \<Rightarrow> (ls_error + 'e) option \<times> 's" where
  "IterStoredChunks withdata f db st =
     iter_chunks withdata f db (index_items (ld_ix db) RetrievalData [] []) st"

end
