(* ===== verification/Snips.thy ===== *)
theory Snips
  imports Complex_Main Localstore
begin

text \<open>
  \<open>pkg/snips/proof.go\<close> and \<open>expectedvals.go\<close>: a SNIPS proof is a minimal perfect hash function
  (MPHF) over the chunk proofs of the chunks in the neighbourhood of the prover. A peer queries
  it with its own chunks; the values nobody hits are chunks it is missing, and the prover maps
  them back to chunks. The MPHF (\<open>go-bbhash\<close>), the 64-bit hash (\<open>go-fasthash\<close>) and the bitmap
  (\<open>roaring64\<close>) are libraries, hence parameters.
\<close>

record 'f snips_lib =
  lib_fasthash :: "u64 \<Rightarrow> bytes \<Rightarrow> u64"
  bb_NewSerial :: "rat \<Rightarrow> u64 list \<Rightarrow> 'f option"
  bb_Find :: "'f \<Rightarrow> u64 \<Rightarrow> u64"
  bb_Marshal :: "'f \<Rightarrow> bytes option"
  bb_Unmarshal :: "bytes \<Rightarrow> 'f option"
  rb_ToBytes :: "u64 list \<Rightarrow> bytes option"
  rb_ToArray :: "bytes \<Rightarrow> u64 list option"

section \<open>Expected values (expectedvals.go)\<close>

type_synonym expectedVals = "32 word list"

definition NewExpectedVals :: "nat \<Rightarrow> expectedVals" where
  "NewExpectedVals n = replicate n 1"

definition MissingFromBytes :: "'f snips_lib \<Rightarrow> bytes \<Rightarrow> u64 list option" where
  "MissingFromBytes lib buf = rb_ToArray lib buf"

text \<open>\<open>Hit\<close> panics, here \<open>None\<close>, when the value is beyond the length.\<close>

definition ev_Hit :: "u64 \<Rightarrow> expectedVals \<Rightarrow> expectedVals option" where
  "ev_Hit hashVal e =
     (let i = unat (hashVal - 1) in if i < length e then Some (e [i := e ! i - 1]) else None)"

definition ev_select :: "(32 word \<Rightarrow> bool) \<Rightarrow> expectedVals \<Rightarrow> nat list" where
  "ev_select p e = map Suc (filter (\<lambda>i. p (e ! i)) [0..<length e])"

definition ev_GetMissingOrDuplicate :: "expectedVals \<Rightarrow> u64 list" where
  "ev_GetMissingOrDuplicate e = map of_nat (ev_select (\<lambda>v. v \<noteq> 0) e)"

definition ev_GetMissingChunks :: "expectedVals \<Rightarrow> u64 list" where
  "ev_GetMissingChunks e = map of_nat (ev_select (\<lambda>v. v = 1) e)"

fun missing_and_duplicate :: "bool \<Rightarrow> bool \<Rightarrow> expectedVals \<Rightarrow> bool" where
  "missing_and_duplicate missing duplicate [] = (missing \<and> duplicate)"
| "missing_and_duplicate missing duplicate (val # e) =
     (if missing \<and> duplicate then True
      else if val = 1 then missing_and_duplicate True duplicate e
      else if val = -1 then missing_and_duplicate missing True e
      else missing_and_duplicate missing duplicate e)"

definition ev_GotMissingAndDuplicate :: "expectedVals \<Rightarrow> bool" where
  "ev_GotMissingAndDuplicate e = missing_and_duplicate False False e"

definition ev_DuplicateProof :: "expectedVals \<Rightarrow> u32 list" where
  "ev_DuplicateProof e = map of_nat (ev_select (\<lambda>v. sint v < 0) e)"

section \<open>The service (snips.go)\<close>

record snips =
  sn_address :: address
  sn_blockHash :: bytes
  sn_networkID :: u64
  sn_Enabled :: bool
  sn_MinGamma :: rat
  sn_MaxGamma :: rat
  sn_mapChunkIdToProof :: "u64 \<Rightarrow> (bytes \<Rightarrow> u64 option) option"
  sn_mapValToChunkId :: "u64 \<Rightarrow> (u64 \<Rightarrow> address option) option"

definition snips_New :: "address \<Rightarrow> bytes \<Rightarrow> u64 \<Rightarrow> bool \<Rightarrow> rat \<Rightarrow> rat \<Rightarrow> snips" where
  "snips_New address blockHash networkID enabled minGamma maxGamma =
     \<lparr>sn_address = address, sn_blockHash = blockHash, sn_networkID = networkID,
      sn_Enabled = enabled, sn_MinGamma = minGamma, sn_MaxGamma = maxGamma,
      sn_mapChunkIdToProof = Map.empty, sn_mapValToChunkId = Map.empty\<rparr>"

datatype snips_error =
  SnPanic | SnDisabled | SnRead | SnMarshal | SnSignature | SnAddress | SnShallow | SnSender |
  SnMPHF | SnNoNonce | SnNoChunk | SnStore ls_error | SnBitVector | SnStream | SnWrite | SnSign

section \<open>Chunk proofs (proof.go)\<close>

definition snips_seed :: u64 where "snips_seed = 1149799105110"

definition HashByteToUint64 :: "'f snips_lib \<Rightarrow> bytes \<Rightarrow> u64" where
  "HashByteToUint64 lib cp = lib_fasthash lib snips_seed cp"

definition genChunkProof :: "'k crypto \<Rightarrow> bytes \<Rightarrow> bytes \<Rightarrow> bytes" where
  "genChunkProof cr chunkdata nonce = cr_hasher cr (nonce @ chunkdata)"

definition GetChunkProof ::
  "'k crypto \<Rightarrow> 'f snips_lib \<Rightarrow> u64 \<Rightarrow> 's chunk \<Rightarrow> snips \<Rightarrow> u64 \<times> snips" where
  "GetChunkProof cr lib nonce chunk s =
     (let cache = sn_mapChunkIdToProof s;
          cache = (if cache nonce = None then cache (nonce \<mapsto> Map.empty) else cache);
          s = s\<lparr>sn_mapChunkIdToProof := cache\<rparr>
      in case the (cache nonce) (addr_bytes (ch_addr chunk)) of
           Some cpuint64 \<Rightarrow> (cpuint64, s)
         | None \<Rightarrow>
             let nonceByte = le_of_nat 8 (unat nonce);
                 chunkproof = genChunkProof cr (ch_data chunk) nonceByte;
                 cpuint64 = HashByteToUint64 lib chunkproof;
                 cache = cache (nonce \<mapsto> (the (cache nonce)) (addr_bytes (ch_addr chunk) \<mapsto> cpuint64))
             in (cpuint64, s\<lparr>sn_mapChunkIdToProof := cache\<rparr>))"

text \<open>The channel hands over the chunks one by one until the producer says it is done.\<close>

fun base_proof_loop ::
  "'k crypto \<Rightarrow> 'f snips_lib \<Rightarrow> u64 \<Rightarrow> 's chunk list \<Rightarrow> u64 list \<Rightarrow> (u64 \<Rightarrow> address option) \<Rightarrow> snips \<Rightarrow>
   u64 list \<times> (u64 \<Rightarrow> address option) \<times> snips" where
  "base_proof_loop cr lib nonce [] baseProof toId s = (baseProof, toId, s)"
| "base_proof_loop cr lib nonce (chunk # chunks) baseProof toId s =
     (let (cp, s) = GetChunkProof cr lib nonce chunk s
      in base_proof_loop cr lib nonce chunks (baseProof @ [cp]) (toId (cp \<mapsto> ch_addr chunk)) s)"

definition BuildBaseProof ::
  "'k crypto \<Rightarrow> 'f snips_lib \<Rightarrow> u64 \<Rightarrow> 's chunk list \<Rightarrow> snips \<Rightarrow>
   u64 list \<times> (u64 \<Rightarrow> address option) \<times> snips" where
  "BuildBaseProof cr lib nonce chunks s = base_proof_loop cr lib nonce chunks [] Map.empty s"

text \<open>
  Assign the values of an MPHF to chunk ids; the flag says whether it went through without two
  chunk proofs that share a value.
\<close>

fun assign_vals ::
  "'f snips_lib \<Rightarrow> 'f \<Rightarrow> (u64 \<Rightarrow> address option) \<Rightarrow> u64 list \<Rightarrow> (u64 \<Rightarrow> address option) \<Rightarrow>
   bool \<times> (u64 \<Rightarrow> address option)" where
  "assign_vals lib bb toId [] vals = (True, vals)"
| "assign_vals lib bb toId (cp # cps) vals =
     (let val = bb_Find lib bb cp
      in if vals val \<noteq> None then (False, vals)
         else assign_vals lib bb toId cps
                (vals (val \<mapsto> (case toId cp of None \<Rightarrow> ZeroAddress | Some a \<Rightarrow> a))))"

text \<open>
  The body of the loop over gamma. An MPHF that cannot be built goes on with the next round of
  the loop; one with a collision goes back to \<open>CONSTRUCTPROOF\<close> with gamma a half higher, which
  skips the test of the loop. \<open>None\<close> is a call that does not return.
\<close>

partial_function (option) create_mphf_loop ::
  "'f snips_lib \<Rightarrow> u64 list \<Rightarrow> (u64 \<Rightarrow> address option) \<Rightarrow> u64 \<Rightarrow> rat \<Rightarrow> snips \<Rightarrow>
   ((snips_error + 'f option) \<times> snips) option" where
  "create_mphf_loop lib baseProof toId nonce i s =
     (case bb_NewSerial lib i baseProof of
        None \<Rightarrow>
          if i + 1 \<le> sn_MaxGamma s then create_mphf_loop lib baseProof toId nonce (i + 1) s
          else Some (Inl SnMPHF, s)
      | Some bb \<Rightarrow>
          (case assign_vals lib bb toId baseProof Map.empty of
             (ok, vals) \<Rightarrow>
               if ok
               then Some (Inr (Some bb),
                          s\<lparr>sn_mapValToChunkId := (sn_mapValToChunkId s) (nonce \<mapsto> vals)\<rparr>)
               else create_mphf_loop lib baseProof toId nonce (i + 1 / 2)
                      (s\<lparr>sn_mapValToChunkId := (sn_mapValToChunkId s) (nonce \<mapsto> vals)\<rparr>)))"

text \<open>When the loop is not entered, both the MPHF and the error are nil.\<close>

definition CreateMPHF ::
  "'f snips_lib \<Rightarrow> u64 list \<Rightarrow> (u64 \<Rightarrow> address option) \<Rightarrow> u64 \<Rightarrow> snips \<Rightarrow>
   ((snips_error + 'f option) \<times> snips) option" where
  "CreateMPHF lib baseProof toId nonce s =
     (if sn_MinGamma s \<le> sn_MaxGamma s
      then create_mphf_loop lib baseProof toId nonce (sn_MinGamma s) s
      else Some (Inr None, s))"

section \<open>Proofs\<close>

record snips_proof =
  pr_Begin :: bytes
  pr_End :: bytes
  pr_Nonce :: u64
  pr_MPHF :: bytes
  pr_Length :: u32

text \<open>\<open>GetChunksInMyRadius\<close>: the error of the iteration is dropped.\<close>

definition radius_chunk ::
  "address \<Rightarrow> u8 \<Rightarrow> item \<Rightarrow> bytes \<times> bytes \<times> stamp chunk list \<Rightarrow>
   unit option \<times> (bytes \<times> bytes \<times> stamp chunk list)" where
  "radius_chunk own depth item = (\<lambda>(minRange, maxRange, chunks).
     let chunk = NewChunk (NewAddress (it_Address item)) (it_Data item);
         chunkAddr = addr_bytes (ch_addr chunk)
     in if Proximity (addr_bytes own) chunkAddr < depth then (None, (minRange, maxRange, chunks))
        else (None,
              (if minRange = [] \<or> bytes_compare chunkAddr minRange = -1 then chunkAddr else minRange,
               if maxRange = [] \<or> bytes_compare maxRange chunkAddr = -1 then chunkAddr else maxRange,
               chunks @ [chunk])))"

definition GetChunksInMyRadius ::
  "u8 \<Rightarrow> localdb \<Rightarrow> snips \<Rightarrow> bytes \<times> bytes \<times> stamp chunk list" where
  "GetChunksInMyRadius depth db s =
     snd (IterStoredChunks True (radius_chunk (sn_address s) depth) db ([], [], []))"

definition CreateProofForMyChunks ::
  "'k crypto \<Rightarrow> 'f snips_lib \<Rightarrow> u8 \<Rightarrow> localdb \<Rightarrow> u64 \<Rightarrow> snips \<Rightarrow> ((snips_error + snips_proof) \<times> snips) option" where
  "CreateProofForMyChunks cr lib depth db nonce s =
     (let (minRange, maxRange, chunks) = GetChunksInMyRadius depth db s;
          (baseproof, toId, s) = BuildBaseProof cr lib nonce chunks s
      in case CreateMPHF lib baseproof toId nonce s of
           None \<Rightarrow> None
         | Some (Inl err, s) \<Rightarrow> Some (Inl err, s)
         | Some (Inr None, s) \<Rightarrow> Some (Inl SnPanic, s)
         | Some (Inr (Some mphf), s) \<Rightarrow>
             (case bb_Marshal lib mphf of
                None \<Rightarrow> Some (Inl SnMarshal, s)
              | Some buf \<Rightarrow>
                  Some (Inr \<lparr>pr_Begin = minRange, pr_End = maxRange, pr_Nonce = nonce,
                             pr_MPHF = buf, pr_Length = of_nat (length baseproof)\<rparr>, s)))"

definition find_missing_chunk ::
  "'k crypto \<Rightarrow> 'f snips_lib \<Rightarrow> 'f \<Rightarrow> u64 \<Rightarrow> bytes \<Rightarrow> bytes \<Rightarrow> item \<Rightarrow> expectedVals \<times> snips \<Rightarrow>
   snips_error option \<times> (expectedVals \<times> snips)" where
  "find_missing_chunk cr lib mphf nonce begin end item = (\<lambda>(e, s).
     let chunk = (NewChunk (NewAddress (it_Address item)) (it_Data item) :: stamp chunk);
         distBegin = bytes_compare begin (addr_bytes (ch_addr chunk));
         distEnd = bytes_compare (addr_bytes (ch_addr chunk)) end
     in if distBegin = 1 \<or> distEnd = 1 then (None, (e, s))
        else
          let (chunkproof, s) = GetChunkProof cr lib nonce chunk s;
              hashVal = bb_Find lib mphf chunkproof
          in if hashVal \<noteq> 0
             then (case ev_Hit hashVal e of None \<Rightarrow> (Some SnPanic, (e, s)) | Some e \<Rightarrow> (None, (e, s)))
             else (None, (e, s)))"

definition FindMissingChunks ::
  "'k crypto \<Rightarrow> 'f snips_lib \<Rightarrow> localdb \<Rightarrow> 'f \<Rightarrow> u64 \<Rightarrow> u32 \<Rightarrow> bytes \<Rightarrow> bytes \<Rightarrow> snips \<Rightarrow>
   (ls_error + snips_error) option \<times> expectedVals \<times> snips" where
  "FindMissingChunks cr lib db mphf nonce len begin end s =
     IterStoredChunks True (find_missing_chunk cr lib mphf nonce begin end) db
       (NewExpectedVals (unat len), s)"

fun missing_chunks_loop ::
  "localdb \<Rightarrow> (u64 \<Rightarrow> address option) \<Rightarrow> u64 list \<Rightarrow> snips_error + stamp chunk list" where
  "missing_chunks_loop db vals [] = Inr []"
| "missing_chunks_loop db vals (val # missingVals) =
     (case vals val of
        None \<Rightarrow> Inl SnNoChunk
      | Some chunkid \<Rightarrow>
          (case ls_Get ModeGetRequest chunkid db of
             Inl err \<Rightarrow> Inl (SnStore err)
           | Inr chunk \<Rightarrow>
               (case missing_chunks_loop db vals missingVals of
                  Inl err \<Rightarrow> Inl err
                | Inr chunks \<Rightarrow> Inr (chunk # chunks))))"

definition GetMissingChunks :: "localdb \<Rightarrow> u64 list \<Rightarrow> u64 \<Rightarrow> snips \<Rightarrow> snips_error + stamp chunk list" where
  "GetMissingChunks db missingVals nonce s =
     (case sn_mapValToChunkId s nonce of
        None \<Rightarrow> Inl SnNoNonce
      | Some vals \<Rightarrow> missing_chunks_loop db vals missingVals)"

end
