(* ===== verification/Snips_Service.thy ===== *)
theory Snips_Service
  imports Snips
begin

text \<open>
  \<open>pkg/snips/snips.go\<close>: the handlers of the SNIPS protocol and the worker that makes a proof for
  new blocks. A handler returns its result with the messages it sent. What the network does, whether
  a stream opens and a message is written or read, is a parameter of each exchange. Metrics
  and logs are left out. A stream that fails to open is nil, and its methods panic.
\<close>

section \<open>Messages\<close>

record signed_proof =
  sp_Proof :: "snips_proof option"
  sp_Signature :: bytes
  sp_BlockHash :: bytes

datatype snips_msg =
  MsgProof address signed_proof | MsgMaintain address u64 bytes | MsgRequest address u64 |
  MsgUploadDone address | MsgDelivery address bytes bytes bytes

record exchange =
  ex_stream :: bool
  ex_write :: bool
  ex_read :: bool

text \<open>The signer and the protobuf encoding of a proof, which is generated code.\<close>

record snips_keys =
  sk_sign :: "bytes \<Rightarrow> bytes option"
  sk_marshal :: "snips_proof \<Rightarrow> bytes option"

section \<open>Sending proofs\<close>

definition snips_createResponse :: "snips_keys \<Rightarrow> snips_proof \<Rightarrow> snips \<Rightarrow> snips_error + signed_proof" where
  "snips_createResponse keys pf s =
     (case sk_marshal keys pf of
        None \<Rightarrow> Inl SnMarshal
      | Some b \<Rightarrow>
          (case sk_sign keys b of
             None \<Rightarrow> Inl SnSign
           | Some sig \<Rightarrow>
               Inr \<lparr>sp_Proof = Some pf, sp_Signature = sig, sp_BlockHash = sn_blockHash s\<rparr>))"

text \<open>A failed write is only logged.\<close>

definition SendProof :: "exchange \<Rightarrow> address \<Rightarrow> signed_proof \<Rightarrow> snips_error option \<times> snips_msg list" where
  "SendProof ex addr sp =
     (case sp_Proof sp of
        None \<Rightarrow> (Some SnPanic, [])
      | Some pf \<Rightarrow>
          if pr_Length pf = 0 then (None, [])
          else if \<not> ex_stream ex then (Some SnStream, [])
          else if ex_write ex then (None, [MsgProof addr sp]) else (None, []))"

text \<open>\<open>PeerFunc\<close> never stops the iteration over the neighbours.\<close>

fun send_to_neighbors ::
  "(address \<Rightarrow> exchange) \<Rightarrow> signed_proof \<Rightarrow> address list \<Rightarrow> snips_msg list" where
  "send_to_neighbors net sp [] = []"
| "send_to_neighbors net sp (addr # addrs) =
     snd (SendProof (net addr) addr sp) @ send_to_neighbors net sp addrs"

definition CreateAndSendProofForMyChunks ::
  "'k crypto \<Rightarrow> 'f snips_lib \<Rightarrow> snips_keys \<Rightarrow> u8 \<Rightarrow> (address \<Rightarrow> exchange) \<Rightarrow> address list \<Rightarrow> localdb \<Rightarrow> u64 \<Rightarrow> snips \<Rightarrow>
   ((snips_error option \<times> snips_msg list) \<times> snips) option" where
  "CreateAndSendProofForMyChunks cr lib keys depth net neighbors db nonce s =
     (case CreateProofForMyChunks cr lib depth db nonce s of
        None \<Rightarrow> None
      | Some (Inl err, s) \<Rightarrow> Some ((Some err, []), s)
      | Some (Inr pf, s) \<Rightarrow>
          (case snips_createResponse keys pf s of
             Inl err \<Rightarrow> Some ((Some err, []), s)
           | Inr sp \<Rightarrow> Some ((None, send_to_neighbors net sp neighbors), s)))"

section \<open>Incoming proofs\<close>

definition snips_verifySignature ::
  "'k crypto \<Rightarrow> snips_keys \<Rightarrow> u8 \<Rightarrow> signed_proof \<Rightarrow> snips \<Rightarrow> snips_error + address" where
  "snips_verifySignature cr keys depth sp s =
     (case sp_Proof sp of
        None \<Rightarrow> Inl SnPanic
      | Some pf \<Rightarrow>
          (case sk_marshal keys pf of
             None \<Rightarrow> Inl SnMarshal
           | Some data \<Rightarrow>
               (case cr_recover cr (sp_Signature sp) data of
                  None \<Rightarrow> Inl SnSignature
                | Some pk \<Rightarrow>
                    (case NewOverlayAddress cr pk (sn_networkID s) (sp_BlockHash sp) of
                       Inl _ \<Rightarrow> Inl SnAddress
                     | Inr src \<Rightarrow>
                         let po = Proximity (addr_bytes src) (addr_bytes (sn_address s))
                         in if po < depth then Inl SnShallow else Inr src))))"

definition RetrieveMissingChunks ::
  "'k crypto \<Rightarrow> 'f snips_lib \<Rightarrow> exchange \<Rightarrow> localdb \<Rightarrow> address \<Rightarrow> 'f \<Rightarrow> snips_proof \<Rightarrow> snips \<Rightarrow>
   ((snips_error + bool) \<times> snips_msg list) \<times> snips" where
  "RetrieveMissingChunks cr lib ex db peer mphf pf s =
     (case FindMissingChunks cr lib db mphf (pr_Nonce pf) (pr_Length pf) (pr_Begin pf) (pr_End pf) s of
        (Some (Inl e), _, s) \<Rightarrow> ((Inl (SnStore e), []), s)
      | (Some (Inr e), _, s) \<Rightarrow> ((Inl e, []), s)
      | (None, expected, s) \<Rightarrow>
          let missing = ev_GetMissingChunks expected
          in if missing = [] then ((Inr False, []), s)
             else
               (case rb_ToBytes lib missing of
                  None \<Rightarrow> ((Inl SnBitVector, []), s)
                | Some mbvbytes \<Rightarrow>
                    if \<not> ex_stream ex then ((Inl SnPanic, []), s)
                    else if \<not> ex_write ex then ((Inl SnWrite, []), s)
                    else ((Inr (ev_GotMissingAndDuplicate expected),
                           [MsgMaintain peer (pr_Nonce pf) mbvbytes]), s)))"

text \<open>
  \<open>msg\<close> is the message read from the stream, \<open>exm\<close> the exchange for the missing chunks, \<open>exr\<close>
  the one for a new proof. The error of \<open>RetrieveMissingChunks\<close> is also the result.
\<close>

definition handlerIncomingProof ::
  "'k crypto \<Rightarrow> 'f snips_lib \<Rightarrow> snips_keys \<Rightarrow> u8 \<Rightarrow> exchange \<Rightarrow> exchange \<Rightarrow> localdb \<Rightarrow> address \<Rightarrow>
   signed_proof option \<Rightarrow> snips \<Rightarrow> (snips_error option \<times> snips_msg list) \<times> snips" where
  "handlerIncomingProof cr lib keys depth exm exr db peer msg s =
     (if \<not> sn_Enabled s then ((Some SnDisabled, []), s)
      else
        case msg of
          None \<Rightarrow> ((Some SnRead, []), s)
        | Some sp \<Rightarrow>
            (case snips_verifySignature cr keys depth sp s of
               Inl err \<Rightarrow> ((Some err, []), s)
             | Inr creator \<Rightarrow>
                 if addr_bytes creator \<noteq> addr_bytes peer then ((Some SnSender, []), s)
                 else
                   (case sp_Proof sp of
                      None \<Rightarrow> ((Some SnPanic, []), s)
                    | Some pf \<Rightarrow>
                        (case bb_Unmarshal lib (pr_MPHF pf) of
                           None \<Rightarrow> ((Some SnMPHF, []), s)
                         | Some mphf \<Rightarrow>
                             (case RetrieveMissingChunks cr lib exm db peer mphf pf s of
                                ((Inl err, msgs), s) \<Rightarrow> ((Some err, msgs), s)
                              | ((Inr newproof, msgs), s) \<Rightarrow>
                                  if \<not> newproof then ((None, msgs), s)
                                  else if \<not> ex_stream exr then ((Some SnStream, msgs), s)
                                  else if \<not> ex_write exr then ((Some SnWrite, msgs), s)
                                  else ((None, msgs @ [MsgRequest peer (pr_Nonce pf)]), s))))))"

section \<open>Handing over chunks\<close>

text \<open>
  One chunk after the other, each over a stream of its own. Errors of the exchange are collected,
  but \<open>NewWriterAndReader\<close> uses the stream also after it has failed to open.
\<close>

fun upload_loop ::
  "(stamp chunk \<Rightarrow> exchange) \<Rightarrow> address \<Rightarrow> stamp chunk list \<Rightarrow> snips_error list \<Rightarrow>
   (snips_error + snips_error list) \<times> snips_msg list" where
  "upload_loop net addr [] errs = (Inr errs, [])"
| "upload_loop net addr (chunk # chunks) errs =
     (case ch_stamp chunk of
        None \<Rightarrow> (Inl SnPanic, [])
      | Some st \<Rightarrow>
          let ex = net chunk;
              msg = MsgDelivery addr (addr_bytes (ch_addr chunk)) (ch_data chunk) (stamp_MarshalBinary st)
          in if \<not> ex_stream ex then (Inl SnPanic, [])
             else
               let errs = (if ex_write ex then errs else errs @ [SnWrite]);
                   errs = (if ex_read ex then errs else errs @ [SnRead]);
                   (r, msgs) = upload_loop net addr chunks errs
               in (r, (if ex_write ex then [msg] else []) @ msgs))"

definition uploadMissingChunks ::
  "'f snips_lib \<Rightarrow> (stamp chunk \<Rightarrow> exchange) \<Rightarrow> localdb \<Rightarrow> address \<Rightarrow> u64 \<Rightarrow> bytes \<Rightarrow> snips \<Rightarrow>
   (snips_error + snips_error list) \<times> snips_msg list" where
  "uploadMissingChunks lib net db addr nonce bitVector s =
     (case MissingFromBytes lib bitVector of
        None \<Rightarrow> (Inr [SnBitVector], [])
      | Some bv \<Rightarrow>
          (case GetMissingChunks db bv nonce s of
             Inl err \<Rightarrow> (Inr [err], [])
           | Inr chunks \<Rightarrow> upload_loop net addr chunks []))"

text \<open>\<open>Inl\<close> is a panic; errors of the upload are logged and the peer is told that it is done.\<close>

definition handlerIncomingMaintain ::
  "'f snips_lib \<Rightarrow> (stamp chunk \<Rightarrow> exchange) \<Rightarrow> exchange \<Rightarrow> localdb \<Rightarrow> address \<Rightarrow> (u64 \<times> bytes) option \<Rightarrow> snips \<Rightarrow>
   snips_error option \<times> snips_msg list" where
  "handlerIncomingMaintain lib net ex db peer msg s =
     (if \<not> sn_Enabled s then (Some SnDisabled, [])
      else
        case msg of
          None \<Rightarrow> (Some SnRead, [])
        | Some (nonce, bitVector) \<Rightarrow>
            (case uploadMissingChunks lib net db peer nonce bitVector s of
               (Inl err, msgs) \<Rightarrow> (Some err, msgs)
             | (Inr errs, msgs) \<Rightarrow> (None, msgs @ (if ex_write ex then [MsgUploadDone peer] else []))))"

section \<open>Requests and blocks\<close>

definition handlerIncomingRequest ::
  "'k crypto \<Rightarrow> 'f snips_lib \<Rightarrow> snips_keys \<Rightarrow> u8 \<Rightarrow> exchange \<Rightarrow> localdb \<Rightarrow> address \<Rightarrow> u64 option \<Rightarrow> snips \<Rightarrow>
   ((snips_error option \<times> snips_msg list) \<times> snips) option" where
  "handlerIncomingRequest cr lib keys depth ex db peer msg s =
     (if \<not> sn_Enabled s then Some ((Some SnDisabled, []), s)
      else
        case msg of
          None \<Rightarrow> Some ((Some SnRead, []), s)
        | Some nonce \<Rightarrow>
            (case CreateProofForMyChunks cr lib depth db nonce s of
               None \<Rightarrow> None
             | Some (Inl err, s) \<Rightarrow> Some ((Some err, []), s)
             | Some (Inr pf, s) \<Rightarrow>
                 (case snips_createResponse keys pf s of
                    Inl err \<Rightarrow> Some ((Some err, []), s)
                  | Inr sp \<Rightarrow> Some (SendProof ex peer sp, s))))"

text \<open>
  One round of \<open>WatchForNewBlock\<close>: \<open>headerRoot\<close> gives the root of the header of a block. The result is
  the hash handed to the worker, if any, and the new last block. A header that cannot be read
  is nil and using it panics, as does an interval of 0.
\<close>

definition watch_block ::
  "u64 \<Rightarrow> (u64 \<Rightarrow> bytes option) \<Rightarrow> u64 option \<Rightarrow> u64 \<Rightarrow> snips_error + (bytes option \<times> u64)" where
  "watch_block interval headerRoot curBlock lastBlock =
     (case curBlock of
        None \<Rightarrow> Inr (None, lastBlock)
      | Some curBlock \<Rightarrow>
          if curBlock \<ge> lastBlock + interval
          then if interval = 0 then Inl SnPanic
               else
                 let provingBlockNr = curBlock - curBlock mod interval
                 in case headerRoot provingBlockNr of
                      None \<Rightarrow> Inl SnPanic
                    | Some h \<Rightarrow> Inr (Some h, curBlock)
          else Inr (None, lastBlock))"

fun watch_blocks ::
  "u64 \<Rightarrow> (u64 \<Rightarrow> bytes option) \<Rightarrow> u64 option list \<Rightarrow> u64 \<Rightarrow> snips_error + bytes list" where
  "watch_blocks interval headerRoot [] lastBlock = Inr []"
| "watch_blocks interval headerRoot (b # bs) lastBlock =
     (case watch_block interval headerRoot b lastBlock of
        Inl e \<Rightarrow> Inl e
      | Inr (h, lastBlock) \<Rightarrow>
          (case watch_blocks interval headerRoot bs lastBlock of
             Inl e \<Rightarrow> Inl e
           | Inr hs \<Rightarrow> Inr (case h of None \<Rightarrow> hs | Some h \<Rightarrow> h # hs)))"

text \<open>The nonce of the proofs made for a block.\<close>

definition worker_nonce :: "'f snips_lib \<Rightarrow> bytes \<Rightarrow> u64" where
  "worker_nonce lib blockNum = HashByteToUint64 lib blockNum"

end
