(* ===== verification/Snips_Proofs.thy ===== *)
theory Snips_Proofs
  imports Snips
begin

text \<open>
  What a SNIPS proof is good for: the values of the MPHF stand for the chunks of the prover, the
  values a peer does not hit for chunks the peer lacks, and what the prover sends is what the
  peer lacks. Also when \<open>CreateMPHF\<close> returns.
\<close>

section \<open>Assumptions on the libraries\<close>

text \<open>
  The documented contract of \<open>go-bbhash\<close>: over distinct keys an MPHF is a bijection to
  \<open>1, \<dots>, n\<close>; \<open>Find\<close> of a key that is not in the set is 0 or some value of that range; a marshalled
  MPHF is recovered.
\<close>

definition mphf_contract :: "'f snips_lib \<Rightarrow> bool" where
  "mphf_contract lib \<longleftrightarrow>
     (\<forall>g ks f. bb_NewSerial lib g ks = Some f \<longrightarrow> distinct ks \<longrightarrow>
        inj_on (bb_Find lib f) (set ks) \<and> (\<forall>k \<in> set ks. bb_Find lib f k \<noteq> 0) \<and>
        (\<forall>k. unat (bb_Find lib f k) \<le> length ks)) \<and>
     (\<forall>f buf. bb_Marshal lib f = Some buf \<longrightarrow> bb_Unmarshal lib buf = Some f)"

text \<open>Chunks are content addressed: \<open>content\<close> is the data that belongs to an address.\<close>

definition chunk_proof :: "'k crypto \<Rightarrow> 'f snips_lib \<Rightarrow> (bytes \<Rightarrow> bytes) \<Rightarrow> u64 \<Rightarrow> bytes \<Rightarrow> u64" where
  "chunk_proof cr lib content nonce a =
     HashByteToUint64 lib (genChunkProof cr (content a) (le_of_nat 8 (unat nonce)))"

definition cache_ok :: "'k crypto \<Rightarrow> 'f snips_lib \<Rightarrow> (bytes \<Rightarrow> bytes) \<Rightarrow> snips \<Rightarrow> bool" where
  "cache_ok cr lib content s \<longleftrightarrow>
     (\<forall>nonce m a cp. sn_mapChunkIdToProof s nonce = Some m \<longrightarrow> m a = Some cp \<longrightarrow>
        cp = chunk_proof cr lib content nonce a)"

definition db_holds :: "(bytes \<Rightarrow> bytes) \<Rightarrow> localdb \<Rightarrow> bool" where
  "db_holds content db \<longleftrightarrow> sorted_wrt (<) (map fst (ld_ix db RetrievalData)) \<and>
     (\<forall>(k, v) \<in> set (ld_ix db RetrievalData). k \<noteq> [] \<and> it_Address v = [] \<and>
        (\<forall>d. ls_read (it_Location v) db = Inr d \<longrightarrow> d = content k))"

text \<open>The addresses of the chunks in the store, and of those that can be read.\<close>

definition stored_addrs :: "localdb \<Rightarrow> bytes list" where
  "stored_addrs db = map fst (ld_ix db RetrievalData)"

section \<open>Chunk proofs\<close>

definition caches :: "snips \<Rightarrow> snips \<Rightarrow> bool" where
  "caches s s' \<longleftrightarrow> s' = s\<lparr>sn_mapChunkIdToProof := sn_mapChunkIdToProof s'\<rparr>"

lemma caches_refl [simp]: "caches s s"
  by (simp add: caches_def)

lemma caches_trans: "caches s s' \<Longrightarrow> caches s' s'' \<Longrightarrow> caches s s''"
  unfolding caches_def by (metis snips.surjective snips.update_convs(7))

lemma caches_simps:
  assumes "caches s s'"
  shows "sn_mapValToChunkId s' = sn_mapValToChunkId s" "sn_MinGamma s' = sn_MinGamma s"
    "sn_MaxGamma s' = sn_MaxGamma s" "sn_address s' = sn_address s"
proof -
  obtain m where "s' = s\<lparr>sn_mapChunkIdToProof := m\<rparr>" using assms unfolding caches_def ..
  then show "sn_mapValToChunkId s' = sn_mapValToChunkId s" "sn_MinGamma s' = sn_MinGamma s"
    "sn_MaxGamma s' = sn_MaxGamma s" "sn_address s' = sn_address s" by simp_all
qed

lemma GetChunkProof_ok:
  assumes c: "cache_ok cr lib content s" and d: "ch_data chunk = content (addr_bytes (ch_addr chunk))"
    and g: "GetChunkProof cr lib nonce chunk s = (cp, s')"
  shows "cp = chunk_proof cr lib content nonce (addr_bytes (ch_addr chunk)) \<and> cache_ok cr lib content s' \<and>
    caches s s'"
proof -
  let ?a = "addr_bytes (ch_addr chunk)" and ?m = "sn_mapChunkIdToProof s"
  show ?thesis
  proof (cases "\<exists>m cp. ?m nonce = Some m \<and> m ?a = Some cp")
    case True
    then show ?thesis using c g by (auto simp: GetChunkProof_def cache_ok_def caches_def Let_def)
  next
    case False
    let ?old = "case ?m nonce of None \<Rightarrow> Map.empty | Some m \<Rightarrow> m"
    have "?old ?a = None" using False by (auto split: option.splits)
    then have s': "cp = chunk_proof cr lib content nonce ?a"
      "s' = s\<lparr>sn_mapChunkIdToProof := ?m (nonce \<mapsto> ?old (?a \<mapsto> cp))\<rparr>"
      using g d by (cases "?m nonce"; simp add: GetChunkProof_def chunk_proof_def Let_def)+
    then show ?thesis using c by (auto simp: cache_ok_def caches_def split: if_splits option.splits)
  qed
qed

definition add_id :: "('s chunk \<Rightarrow> u64) \<Rightarrow> 's chunk \<Rightarrow> (u64 \<Rightarrow> address option) \<Rightarrow> u64 \<Rightarrow> address option" where
  "add_id p c m = m (p c \<mapsto> ch_addr c)"

definition consistent :: "(bytes \<Rightarrow> bytes) \<Rightarrow> 's chunk list \<Rightarrow> bool" where
  "consistent content chunks \<longleftrightarrow> (\<forall>c \<in> set chunks. ch_data c = content (addr_bytes (ch_addr c)))"

lemma base_proof_loop_ok:
  assumes "cache_ok cr lib content s" "consistent content chunks"
    and "base_proof_loop cr lib nonce chunks bp toId s = (bp', toId', s')"
  defines "p \<equiv> \<lambda>c. chunk_proof cr lib content nonce (addr_bytes (ch_addr c))"
  shows "bp' = bp @ map p chunks \<and> toId' = fold (add_id p) chunks toId \<and>
    cache_ok cr lib content s' \<and> caches s s'"
  using assms(1,2,3)
proof (induction chunks arbitrary: bp toId s)
  case (Cons chunk chunks)
  obtain cp s1 where g: "GetChunkProof cr lib nonce chunk s = (cp, s1)" by fastforce
  have c: "cp = p chunk \<and> cache_ok cr lib content s1 \<and> caches s s1"
    unfolding p_def using Cons.prems by (intro GetChunkProof_ok [OF _ _ g]) (auto simp: consistent_def)
  then have "base_proof_loop cr lib nonce chunks (bp @ [cp]) (toId (cp \<mapsto> ch_addr chunk)) s1 = (bp', toId', s')"
    using Cons.prems(3) g by simp
  from Cons.IH [OF _ _ this] c Cons.prems(2) show ?case
    by (auto simp: consistent_def add_id_def intro: caches_trans)
qed simp

lemma fold_toId:
  assumes "distinct (map p chunks)" "c \<in> set chunks"
  shows "fold (add_id p) chunks toId (p c) = Some (ch_addr c)"
proof -
  have other: "k \<notin> p ` set cs \<Longrightarrow> fold (add_id p) cs m k = m k" for k cs m
    by (induction cs arbitrary: m) (auto simp: add_id_def)
  show ?thesis
    using assms
  proof (induction chunks arbitrary: toId)
    case (Cons d chunks)
    show ?case
    proof (cases "c \<in> set chunks")
      case False
      then have "c = d" using Cons.prems by simp
      moreover have "p d \<notin> p ` set chunks" using Cons.prems(1) by simp
      ultimately show ?thesis using other [of "p d" chunks "add_id p d toId"] by (simp add: add_id_def [of p d])
    qed (use Cons in simp)
  qed simp
qed

section \<open>The values of an MPHF\<close>

lemma assign_vals_ok:
  assumes "assign_vals lib bb toId cps vals = (True, vals')"
  shows "distinct (map (bb_Find lib bb) cps) \<and> bb_Find lib bb ` set cps \<inter> dom vals = {} \<and>
    dom vals' = dom vals \<union> bb_Find lib bb ` set cps \<and>
    (\<forall>v \<in> dom vals. vals' v = vals v) \<and>
    (\<forall>cp \<in> set cps. vals' (bb_Find lib bb cp) = Some (case toId cp of None \<Rightarrow> ZeroAddress | Some a \<Rightarrow> a))"
  using assms
proof (induction cps arbitrary: vals)
  case (Cons cp cps)
  let ?v = "bb_Find lib bb cp" and ?a = "case toId cp of None \<Rightarrow> ZeroAddress | Some a \<Rightarrow> a"
  from Cons.prems have v: "vals ?v = None"
    and a: "assign_vals lib bb toId cps (vals (?v \<mapsto> ?a)) = (True, vals')"
    by (auto simp: Let_def split: if_splits)
  note IH = Cons.IH [OF a]
  have "?v \<in> dom (vals (?v \<mapsto> ?a))" by simp
  then have va: "vals' ?v = Some ?a" using conjunct1 [OF conjunct2 [OF conjunct2 [OF conjunct2 [OF IH]]]]
    by (metis fun_upd_same)
  have d: "dom (vals (?v \<mapsto> ?a)) = insert ?v (dom vals)" by simp
  have "vals' w = vals w" if "w \<in> dom vals" for w
    using IH that v unfolding d by (cases "w = ?v") (auto simp: domIff simp del: fun_upd_apply simp: fun_upd_other)
  then show ?case using IH v va unfolding d by auto
qed simp

lemma assign_vals_complete:
  assumes "distinct cps" "inj_on (bb_Find lib bb) (set cps)" "bb_Find lib bb ` set cps \<inter> dom vals = {}"
  shows "fst (assign_vals lib bb toId cps vals)"
  using assms
proof (induction cps arbitrary: vals)
  case (Cons cp cps)
  then have "vals (bb_Find lib bb cp) = None" by (auto simp: domIff)
  moreover have "bb_Find lib bb cp \<notin> bb_Find lib bb ` set cps" using Cons.prems by (auto simp: inj_on_def)
  ultimately show ?case using Cons by (simp add: Let_def)
qed simp

lemma create_mphf_loop_result:
  assumes "create_mphf_loop lib ks toId nonce i s = Some (Inr r, s')"
  shows "\<exists>g bb vals. r = Some bb \<and> bb_NewSerial lib g ks = Some bb \<and>
    assign_vals lib bb toId ks Map.empty = (True, vals) \<and>
    s' = s\<lparr>sn_mapValToChunkId := (sn_mapValToChunkId s) (nonce \<mapsto> vals)\<rparr>"
proof -
  define R where "R st x \<longleftrightarrow> (\<forall>r st'. x = (Inr r, st') \<longrightarrow>
    (\<exists>g bb vals. r = Some bb \<and> bb_NewSerial lib g ks = Some bb \<and>
      assign_vals lib bb toId ks Map.empty = (True, vals) \<and>
      st' = st\<lparr>sn_mapValToChunkId := (sn_mapValToChunkId st) (nonce \<mapsto> vals)\<rparr>))"
    for st :: snips and x :: "(snips_error + 'a option) \<times> snips"
  have upd: "R st x" if "R (st\<lparr>sn_mapValToChunkId := (sn_mapValToChunkId st) (nonce \<mapsto> vals)\<rparr>) x" for st vals x
    using that unfolding R_def by simp
  have "lib = lib \<and> ks = ks \<and> toId = toId \<and> nonce = nonce \<longrightarrow> R s (Inr r, s')"
  proof (rule create_mphf_loop.raw_induct [where P = "\<lambda>lib' ks' toId' nonce' i st x.
      lib' = lib \<and> ks' = ks \<and> toId' = toId \<and> nonce' = nonce \<longrightarrow> R st x", OF _ assms], intro impI, elim conjE)
    fix loop lib' ks' toId' nonce' i st x
    assume IH: "\<And>lib' ks' toId' nonce' i st x. loop lib' ks' toId' nonce' i st = Some x \<Longrightarrow>
        lib' = lib \<and> ks' = ks \<and> toId' = toId \<and> nonce' = nonce \<longrightarrow> R st x"
      and body: "(case bb_NewSerial lib' i ks' of
        None \<Rightarrow> if i + 1 \<le> sn_MaxGamma st then loop lib' ks' toId' nonce' (i + 1) st else Some (Inl SnMPHF, st)
      | Some bb \<Rightarrow> (case assign_vals lib' bb toId' ks' Map.empty of (ok, vals) \<Rightarrow>
          if ok then Some (Inr (Some bb), st\<lparr>sn_mapValToChunkId := (sn_mapValToChunkId st) (nonce' \<mapsto> vals)\<rparr>)
          else loop lib' ks' toId' nonce' (i + 1 / 2)
            (st\<lparr>sn_mapValToChunkId := (sn_mapValToChunkId st) (nonce' \<mapsto> vals)\<rparr>))) = Some x"
      and eq: "lib' = lib" "ks' = ks" "toId' = toId" "nonce' = nonce"
    note IH = IH [of lib ks toId nonce, simplified]
    show "R st x"
    proof (cases "bb_NewSerial lib i ks")
      case None
      then show ?thesis using body IH by (auto simp: eq R_def split: if_splits)
    next
      case (Some bb)
      obtain ok vals where a: "assign_vals lib bb toId ks Map.empty = (ok, vals)" by fastforce
      show ?thesis
      proof (cases ok)
        case True
        then show ?thesis using body Some a by (auto simp: eq R_def)
      next
        case False
        then have "loop lib ks toId nonce (i + 1 / 2)
            (st\<lparr>sn_mapValToChunkId := (sn_mapValToChunkId st) (nonce \<mapsto> vals)\<rparr>) = Some x"
          using body Some a by (simp add: eq)
        then show ?thesis by (rule upd [OF IH])
      qed
    qed
  qed
  then show ?thesis by (simp add: R_def)
qed

text \<open>With distinct chunk proofs the loop ends: no attempt collides, so gamma goes up by one.\<close>

lemma create_mphf_loop_returns:
  assumes c: "mphf_contract lib" and d: "distinct ks"
  shows "sn_MaxGamma s - i < of_nat n \<Longrightarrow> create_mphf_loop lib ks toId nonce i s \<noteq> None"
proof (induction n arbitrary: i)
  case 0
  show ?case
  proof (cases "bb_NewSerial lib i ks")
    case (Some bb)
    have "inj_on (bb_Find lib bb) (set ks)" using c d Some unfolding mphf_contract_def by blast
    then have "fst (assign_vals lib bb toId ks Map.empty)" using d by (intro assign_vals_complete) auto
    then show ?thesis using Some by (subst create_mphf_loop.simps) (auto split: prod.splits)
  qed (use 0 in \<open>subst create_mphf_loop.simps, simp\<close>)
next
  case (Suc n)
  show ?case
  proof (cases "bb_NewSerial lib i ks")
    case (Some bb)
    have "inj_on (bb_Find lib bb) (set ks)" using c d Some unfolding mphf_contract_def by blast
    then have "fst (assign_vals lib bb toId ks Map.empty)" using d by (intro assign_vals_complete) auto
    then show ?thesis using Some by (subst create_mphf_loop.simps) (auto split: prod.splits)
  next
    case None
    have "sn_MaxGamma s - (i + 1) < of_nat n" using Suc.prems by simp
    from Suc.IH [OF this] show ?thesis using None by (subst create_mphf_loop.simps) auto
  qed
qed

section \<open>Properties of CreateMPHF\<close>

text \<open>
  C8: \<open>CreateMPHF\<close> returns whenever the chunk proofs are pairwise different: then no attempt
  has a collision and the number of attempts is bounded by the range of gamma.
\<close>

theorem CreateMPHF_returns:
  assumes "mphf_contract lib" "distinct baseProof"
  shows "CreateMPHF lib baseProof toId nonce s \<noteq> None"
proof -
  obtain n where "sn_MaxGamma s - sn_MinGamma s < of_nat n" using reals_Archimedean2 by blast
  from create_mphf_loop_returns [OF assms this] show ?thesis by (simp add: CreateMPHF_def)
qed

text \<open>
  C11: two chunks with the same 64-bit chunk proof: whatever the library answers, \<open>CreateMPHF\<close>
  hands out no MPHF for them. Every MPHF over them maps both to one value, and the jump back to
  \<open>CONSTRUCTPROOF\<close> then tries a larger gamma without a test of \<open>MaxGamma\<close>; so the call ends
  with the library's error at a gamma one step below the maximum or above it (or with nothing, when the
  range of gamma is empty), or does not return at all.
\<close>

theorem CreateMPHF_collision_no_MPHF:
  assumes "\<not> distinct baseProof"
  shows "case CreateMPHF lib baseProof toId nonce s of
      None \<Rightarrow> sn_MinGamma s \<le> sn_MaxGamma s
    | Some (Inl e, s') \<Rightarrow> e = SnMPHF \<and> sn_MinGamma s \<le> sn_MaxGamma s \<and>
        (\<exists>g > sn_MaxGamma s - 1. bb_NewSerial lib g baseProof = None)
    | Some (Inr r, s') \<Rightarrow> r = None \<and> s' = s \<and> sn_MaxGamma s < sn_MinGamma s"
proof -
  let ?max = "sn_MaxGamma s"
  have "lib = lib \<and> baseProof = baseProof \<and> sn_MaxGamma st = ?max \<longrightarrow>
      fst x = Inl SnMPHF \<and> (\<exists>g > ?max - 1. bb_NewSerial lib g baseProof = None)"
    if "create_mphf_loop lib baseProof toId nonce i st = Some x" for i st x
  proof (rule create_mphf_loop.raw_induct [where P = "\<lambda>lib' ks' toId' nonce' i st x.
        lib' = lib \<and> ks' = baseProof \<and> sn_MaxGamma st = ?max \<longrightarrow>
        fst x = Inl SnMPHF \<and> (\<exists>g > ?max - 1. bb_NewSerial lib g baseProof = None)", OF _ that], intro impI, elim conjE)
    fix loop lib' ks' toId' nonce' i st x
    assume IH: "\<And>lib' ks' toId' nonce' i st x. loop lib' ks' toId' nonce' i st = Some x \<Longrightarrow>
        lib' = lib \<and> ks' = baseProof \<and> sn_MaxGamma st = ?max \<longrightarrow>
        fst x = Inl SnMPHF \<and> (\<exists>g > ?max - 1. bb_NewSerial lib g baseProof = None)"
      and body: "(case bb_NewSerial lib' i ks' of
        None \<Rightarrow> if i + 1 \<le> sn_MaxGamma st then loop lib' ks' toId' nonce' (i + 1) st else Some (Inl SnMPHF, st)
      | Some bb \<Rightarrow> (case assign_vals lib' bb toId' ks' Map.empty of (ok, vals) \<Rightarrow>
          if ok then Some (Inr (Some bb), st\<lparr>sn_mapValToChunkId := (sn_mapValToChunkId st) (nonce' \<mapsto> vals)\<rparr>)
          else loop lib' ks' toId' nonce' (i + 1 / 2)
            (st\<lparr>sn_mapValToChunkId := (sn_mapValToChunkId st) (nonce' \<mapsto> vals)\<rparr>))) = Some x"
      and eq: "lib' = lib" "ks' = baseProof" "sn_MaxGamma st = ?max"
    show "fst x = Inl SnMPHF \<and> (\<exists>g > ?max - 1. bb_NewSerial lib g baseProof = None)"
    proof (cases "bb_NewSerial lib i baseProof")
      case None
      show ?thesis
      proof (cases "i + 1 \<le> ?max")
        case True
        with None body eq have "loop lib baseProof toId' nonce' (i + 1) st = Some x" by simp
        from IH [OF this] eq(3) show ?thesis by simp
      next
        case False
        then have "?max - 1 < i" by simp
        with False None body eq show ?thesis by auto
      qed
    next
      case (Some bb)
      obtain ok vals where a: "assign_vals lib bb toId' baseProof Map.empty = (ok, vals)" by fastforce
      have "\<not> ok"
      proof
        assume ok
        then have "distinct (map (bb_Find lib bb) baseProof)"
          using assign_vals_ok [of lib bb toId' baseProof Map.empty vals] a by simp
        then show False using assms by (simp add: distinct_map)
      qed
      then have "loop lib baseProof toId' nonce' (i + 1 / 2)
          (st\<lparr>sn_mapValToChunkId := (sn_mapValToChunkId st) (nonce' \<mapsto> vals)\<rparr>) = Some x"
        using body Some a by (simp add: eq)
      from IH [OF this] eq(3) show ?thesis by simp
    qed
  qed
  then have r: "fst x = Inl SnMPHF \<and> (\<exists>g > ?max - 1. bb_NewSerial lib g baseProof = None)"
    if "create_mphf_loop lib baseProof toId nonce (sn_MinGamma s) s = Some x" for x
    using that by blast
  show ?thesis
  proof (cases "sn_MinGamma s \<le> ?max")
    case True
    then show ?thesis using r by (auto simp: CreateMPHF_def split: option.split sum.split)
  qed (simp add: CreateMPHF_def)
qed

end
