(* ===== verification/Snips_Reconcile.thy ===== *)
theory Snips_Reconcile
  imports Snips_Proofs
begin

text \<open>
  The exchange between a prover and a peer, from the chunks in their stores to the chunks the
  prover hands over.
\<close>

section \<open>Hits\<close>

definition expected :: "nat \<Rightarrow> u64 list \<Rightarrow> expectedVals" where
  "expected n hs = map (\<lambda>i. 1 - of_nat (count_list hs (of_nat (Suc i)))) [0..<n]"

lemma length_expected [simp]: "length (expected n hs) = n"
  by (simp add: expected_def)

lemma NewExpectedVals_expected: "NewExpectedVals n = expected n []"
  by (simp add: NewExpectedVals_def expected_def map_replicate_const)

lemma ev_Hit_expected:
  assumes "ev_Hit h (expected n hs) = Some e" "h \<noteq> 0" "n < 2 ^ 64"
  shows "e = expected n (hs @ [h])"
proof -
  have h: "unat (h - 1) = unat h - 1" "unat h \<noteq> 0" using assms(2) by (simp_all add: unat_minus_one unat_eq_0)
  have i: "unat h - 1 < n" and e: "e = (expected n hs) [unat h - 1 := expected n hs ! (unat h - 1) - 1]"
    using assms(1) by (auto simp: ev_Hit_def Let_def h(1) split: if_splits)
  show ?thesis
  proof (rule nth_equalityI)
    fix j assume "j < length e"
    then have j: "j < n" using e by simp
    then have "unat (of_nat (Suc j) :: u64) = Suc j" using assms(3) by (simp add: unat_of_nat del: of_nat_Suc)
    then have "h = of_nat (Suc j) \<longleftrightarrow> j = unat h - 1" using h(2) by (auto simp: word_unat_eq_iff simp del: of_nat_Suc)
    then show "e ! j = expected n (hs @ [h]) ! j"
      using j i of_nat_1 [where 'a = u32]
      by (cases "h = of_nat (Suc j)") (simp_all add: e expected_def nth_list_update count_list_append del: of_nat_Suc of_nat_1)
  qed (simp add: e)
qed

lemma missing_expected:
  assumes "length hs < 2 ^ 32"
  shows "ev_GetMissingChunks (expected n hs) =
    map (\<lambda>i. of_nat (Suc i)) (filter (\<lambda>i. of_nat (Suc i) \<notin> set hs) [0..<n])"
proof -
  have "(1 - of_nat (count_list hs v) = (1 :: u32)) \<longleftrightarrow> v \<notin> set hs" for v
  proof -
    have "count_list hs v < 2 ^ 32" using assms count_le_length [of hs v] by linarith
    then have "(of_nat (count_list hs v) = (0 :: u32)) \<longleftrightarrow> count_list hs v = 0"
      by (simp add: word_unat_eq_iff unat_of_nat)
    then show ?thesis by (simp add: count_list_0_iff)
  qed
  then show ?thesis
    unfolding ev_GetMissingChunks_def ev_select_def map_map
    by (intro map_cong filter_cong) (simp_all add: expected_def o_def del: of_nat_Suc)
qed

section \<open>The prover\<close>

definition readable :: "localdb \<Rightarrow> bytes \<Rightarrow> bool" where
  "readable db a \<longleftrightarrow> (\<exists>v d. map_of (ld_ix db RetrievalData) a = Some v \<and> ls_read (it_Location v) db = Inr d)"

definition radius_addrs :: "u8 \<Rightarrow> localdb \<Rightarrow> snips \<Rightarrow> bytes set" where
  "radius_addrs depth db s =
     (\<lambda>c. addr_bytes (ch_addr c)) ` set (snd (snd (GetChunksInMyRadius depth db s)))"

abbreviation chunk_addr :: "'s chunk \<Rightarrow> bytes" where
  "chunk_addr c \<equiv> addr_bytes (ch_addr c)"

lemma index_item_retrieval [simp]:
  "it_Address v = [] \<Longrightarrow> k \<noteq> [] \<Longrightarrow> it_Address (index_item RetrievalData (k, v)) = k"
  "it_Location (index_item RetrievalData (k, v)) = it_Location v"
  by (simp_all add: index_item_def item_Merge_def zero_item_def)

lemma iter_retrieval: "index_items ix RetrievalData [] [] = map (index_item RetrievalData) (ix RetrievalData)"
proof -
  have A: "takeWhile (\<lambda>(k, v). has_prefix [] k) xs = xs" for xs :: "(bytes \<times> item) list"
    by (simp add: takeWhile_eq_all_conv split_beta)
  have B: "dropWhile (\<lambda>(k, v). k < []) xs = xs" for xs :: "(bytes \<times> item) list"
    by (cases xs) auto
  show ?thesis by (simp only: index_items_def A B)
qed

definition entries_ok :: "(bytes \<Rightarrow> bytes) \<Rightarrow> localdb \<Rightarrow> (bytes \<times> item) list \<Rightarrow> bool" where
  "entries_ok content db kvs \<longleftrightarrow> (\<forall>(k, v) \<in> set kvs. k \<noteq> [] \<and> it_Address v = [] \<and>
     map_of (ld_ix db RetrievalData) k = Some v \<and>
     (\<forall>d. ls_read (it_Location v) db = Inr d \<longrightarrow> d = content k))"

lemma db_holds_entries:
  assumes "db_holds content db"
  shows "entries_ok content db (ld_ix db RetrievalData)" "distinct (stored_addrs db)"
proof -
  show d: "distinct (stored_addrs db)"
    using assms by (simp add: db_holds_def stored_addrs_def strict_sorted_iff)
  then show "entries_ok content db (ld_ix db RetrievalData)"
    using assms by (auto simp: db_holds_def entries_ok_def stored_addrs_def)
qed

definition radius_inv ::
  "(bytes \<Rightarrow> bytes) \<Rightarrow> localdb \<Rightarrow> bytes \<times> bytes \<times> stamp chunk list \<Rightarrow> bool" where
  "radius_inv content db = (\<lambda>(mn, mx, chs).
     consistent content chs \<and> distinct (map chunk_addr chs) \<and>
     (\<forall>c \<in> set chs. readable db (chunk_addr c) \<and> mn \<le> chunk_addr c \<and> chunk_addr c \<le> mx) \<and>
     (chs = [] \<longrightarrow> mn = [] \<and> mx = []) \<and> (chs \<noteq> [] \<longrightarrow> mn \<noteq> [] \<and> mx \<noteq> []))"

lemma radius_chunk_inv:
  assumes "radius_inv content db st" "k \<noteq> []" "it_Address v = []" "d = content k" "readable db k"
    and "k \<notin> chunk_addr ` set (snd (snd st))"
    and "radius_chunk own depth ((index_item RetrievalData (k, v))\<lparr>it_Data := d\<rparr>) st = (r, st')"
  shows "r = None \<and> radius_inv content db st' \<and> chunk_addr ` set (snd (snd st')) \<subseteq>
    insert k (chunk_addr ` set (snd (snd st)))"
proof -
  obtain mn mx chs where st: "st = (mn, mx, chs)" by (cases st)
  have c: "addr_bytes (ch_addr (NewChunk (NewAddress (it_Address
      ((index_item RetrievalData (k, v))\<lparr>it_Data := d\<rparr>))) d :: stamp chunk)) = k"
    using assms(2,3) by (simp add: NewChunk_def)
  show ?thesis
  proof (cases "Proximity (addr_bytes own) k < depth")
    case True
    then show ?thesis using assms c by (auto simp: radius_chunk_def st Let_def)
  next
    case False
    let ?c = "NewChunk (NewAddress (it_Address ((index_item RetrievalData (k, v))\<lparr>it_Data := d\<rparr>))) d :: stamp chunk"
    let ?mn = "if mn = [] \<or> k < mn then k else mn" and ?mx = "if mx = [] \<or> mx < k then k else mx"
    have r: "r = None" "st' = (?mn, ?mx, chs @ [?c])"
      using False assms(7) c by (auto simp: radius_chunk_def st Let_def)
    have "ch_data ?c = content (chunk_addr ?c)" using c assms(4) by (simp add: NewChunk_def)
    moreover have "?mn \<le> k" "k \<le> ?mx" by auto
    moreover have "?mn \<le> a" "a \<le> ?mx" if "mn \<le> a" "a \<le> mx" "mn \<noteq> []" "mx \<noteq> []" for a using that by auto
    ultimately show ?thesis
      using assms(1,2,5,6) c unfolding r radius_inv_def st
      by (cases "chs = []") (auto simp: consistent_def)
  qed
qed

lemma radius_loop_inv:
  assumes "radius_inv content db st" "entries_ok content db kvs"
    and "distinct (map fst kvs)" "chunk_addr ` set (snd (snd st)) \<inter> fst ` set kvs = {}"
    and "iter_chunks True (radius_chunk own depth) db (map (index_item RetrievalData) kvs) st = (r, st')"
  shows "radius_inv content db st' \<and>
    chunk_addr ` set (snd (snd st')) \<subseteq> chunk_addr ` set (snd (snd st)) \<union> fst ` set kvs"
  using assms
proof (induction kvs arbitrary: st)
  case (Cons kv kvs)
  obtain k v where kv: "kv = (k, v)" by fastforce
  show ?case
  proof (cases "ls_read (it_Location v) db")
    case (Inl e)
    then show ?thesis using Cons.prems by (auto simp: kv)
  next
    case (Inr d)
    obtain r1 st1 where r: "radius_chunk own depth ((index_item RetrievalData (k, v))\<lparr>it_Data := d\<rparr>) st = (r1, st1)"
      by (metis prod.exhaust)
    have "k \<noteq> []" "it_Address v = []" "d = content k" "readable db k" "k \<notin> chunk_addr ` set (snd (snd st))"
      using Cons.prems(2,4) Inr by (auto simp: entries_ok_def readable_def kv)
    note s = radius_chunk_inv [OF Cons.prems(1) this r]
    have "iter_chunks True (radius_chunk own depth) db (map (index_item RetrievalData) kvs) st1 = (r, st')"
      using Cons.prems(5) Inr r s by (simp add: kv)
    note IH = Cons.IH [OF _ _ _ _ this]
    have "entries_ok content db kvs" "distinct (map fst kvs)" using Cons.prems(2,3) by (simp_all add: entries_ok_def)
    moreover have "chunk_addr ` set (snd (snd st1)) \<inter> fst ` set kvs = {}"
    proof -
      have "insert k (chunk_addr ` set (snd (snd st))) \<inter> fst ` set kvs = {}"
        using Cons.prems(3,4) by (auto simp: kv)
      then show ?thesis using s by blast
    qed
    ultimately have "radius_inv content db st' \<and>
        chunk_addr ` set (snd (snd st')) \<subseteq> chunk_addr ` set (snd (snd st1)) \<union> fst ` set kvs"
      using IH s by blast
    then show ?thesis using s by (simp add: kv) blast
  qed
qed simp

lemma radius_chunks:
  assumes "db_holds content db" "GetChunksInMyRadius depth db s = (mn, mx, chs)"
  shows "radius_inv content db (mn, mx, chs)" "chunk_addr ` set chs \<subseteq> set (stored_addrs db)"
proof -
  obtain r where it: "iter_chunks True (radius_chunk (sn_address s) depth) db
      (map (index_item RetrievalData) (ld_ix db RetrievalData)) ([], [], []) = (r, mn, mx, chs)"
    using assms(2) unfolding GetChunksInMyRadius_def IterStoredChunks_def iter_retrieval
    by (metis prod.collapse)
  have "radius_inv content db ([], [], [])" by (simp add: radius_inv_def consistent_def)
  from radius_loop_inv [OF this db_holds_entries(1) [OF assms(1)] _ _ it]
    db_holds_entries(2) [OF assms(1)]
  show "radius_inv content db (mn, mx, chs)" "chunk_addr ` set chs \<subseteq> set (stored_addrs db)"
    by (auto simp: stored_addrs_def)
qed

text \<open>A proof that was made: its MPHF numbers the chunks, and the prover can map the numbers back.\<close>

lemma CreateProof_ok:
  assumes lib: "mphf_contract lib" and ca: "cache_ok cr lib content s" and db: "db_holds content db"
    and small: "length (stored_addrs db) < 2 ^ 32"
    and mk: "CreateProofForMyChunks cr lib depth db nonce s = Some (Inr pf, s')"
    and un: "bb_Unmarshal lib (pr_MPHF pf) = Some f"
  defines "F \<equiv> \<lambda>a. bb_Find lib f (chunk_proof cr lib content nonce a)"
    and "C \<equiv> radius_addrs depth db s"
  shows "\<exists>vals. sn_mapValToChunkId s' nonce = Some vals \<and> inj_on F C \<and>
    (\<forall>a \<in> C. vals (F a) = Some (NewAddress a) \<and> readable db a \<and> pr_Begin pf \<le> a \<and> a \<le> pr_End pf) \<and>
    unat ` F ` C = {1..unat (pr_Length pf)}"
proof -
  obtain mn mx chs where g: "GetChunksInMyRadius depth db s = (mn, mx, chs)" by (metis prod_cases3)
  note rc = radius_chunks [OF db g]
  have C: "C = chunk_addr ` set chs" by (simp add: C_def radius_addrs_def g)
  obtain bp toId s1 where b: "BuildBaseProof cr lib nonce chs s = (bp, toId, s1)" by (metis prod_cases3)
  let ?p = "\<lambda>c. chunk_proof cr lib content nonce (chunk_addr c)"
  have "consistent content chs" using rc(1) by (simp add: radius_inv_def)
  from base_proof_loop_ok [OF ca this b [unfolded BuildBaseProof_def]]
  have bp: "bp = map ?p chs" "toId = fold (add_id ?p) chs Map.empty" by simp_all
  from mk obtain bb where m: "CreateMPHF lib bp toId nonce s1 = Some (Inr (Some bb), s')"
    and pf: "bb_Marshal lib bb = Some (pr_MPHF pf)" "pr_Begin pf = mn" "pr_End pf = mx"
      "pr_Length pf = of_nat (length bp)"
    by (auto simp: CreateProofForMyChunks_def g b Let_def split: option.splits sum.splits)
  have f: "f = bb" using lib pf(1) un by (simp add: mphf_contract_def)
  from m have "create_mphf_loop lib bp toId nonce (sn_MinGamma s1) s1 = Some (Inr (Some bb), s')"
    by (simp add: CreateMPHF_def split: if_splits)
  from create_mphf_loop_result [OF this] obtain gm bb' vals where v0: "Some bb = Some bb'"
    "bb_NewSerial lib gm bp = Some bb'" "assign_vals lib bb' toId bp Map.empty = (True, vals)"
    "s' = s1\<lparr>sn_mapValToChunkId := (sn_mapValToChunkId s1) (nonce \<mapsto> vals)\<rparr>" by blast
  then have v: "bb_NewSerial lib gm bp = Some f"
    "assign_vals lib f toId bp Map.empty = (True, vals)" "sn_mapValToChunkId s' nonce = Some vals"
    by (simp_all add: f)
  note av = assign_vals_ok [OF v(2)]
  have d: "distinct bp" using conjunct1 [OF av] by (simp add: distinct_map)
  note co = lib [unfolded mphf_contract_def, THEN conjunct1, rule_format, OF v(1) d]
  have len: "length bp = length chs" by (simp add: bp)
  have card: "length chs = card C" "length chs < 2 ^ 32"
  proof -
    have dc: "distinct (map chunk_addr chs)" using rc(1) by (simp add: radius_inv_def)
    show "length chs = card C" unfolding C using distinct_card [OF dc] by simp
    also have "\<dots> \<le> card (set (stored_addrs db))" using rc(2) by (simp add: C card_mono)
    also have "\<dots> \<le> length (stored_addrs db)" by (rule card_length)
    finally show "length chs < 2 ^ 32" using small by simp
  qed
  have Fp: "F ` C = bb_Find lib f ` set bp" by (auto simp: F_def C bp)
  have injF: "inj_on F C"
  proof (rule eq_card_imp_inj_on)
    show "finite C" by (simp add: C)
    have "card (bb_Find lib f ` set bp) = length bp"
      using av distinct_card [of "map (bb_Find lib f) bp"] by simp
    then show "card (F ` C) = card C" by (simp add: Fp len card(1))
  qed
  have vals: "vals (F a) = Some (NewAddress a)" if "a \<in> C" for a
  proof -
    obtain c where c: "c \<in> set chs" "a = chunk_addr c" using \<open>a \<in> C\<close> by (auto simp: C)
    have "toId (?p c) = Some (ch_addr c)" using d c(1) unfolding bp by (intro fold_toId) auto
    moreover have "?p c \<in> set bp" using c(1) by (simp add: bp)
    ultimately show ?thesis using av by (auto simp: F_def c(2))
  qed
  have "unat ` F ` C \<subseteq> {1..length bp}"
    using co by (auto simp: Fp Suc_le_eq unat_gt_0)
  moreover have "card (unat ` F ` C) = length bp"
    using injF by (simp add: card_image inj_on_def word_unat_eq_iff len card(1))
  ultimately have "unat ` F ` C = {1..length bp}" by (intro card_subset_eq) auto
  moreover have "unat (pr_Length pf) = length bp" using card(2) by (simp add: pf(4) len unat_of_nat)
  ultimately show ?thesis
    using v(3) injF vals rc(1) by (auto simp: C radius_inv_def pf(2,3))
qed

section \<open>The peer\<close>

lemma find_step:
  fixes v :: item
  assumes c: "cache_ok cr lib content s" and k: "k \<noteq> []" "it_Address v = []" "d = content k"
  shows "\<exists>s1. cache_ok cr lib content s1 \<and>
    find_missing_chunk cr lib f nonce mn mx ((index_item RetrievalData (k, v))\<lparr>it_Data := d\<rparr>) (e, s) =
      (if mn \<le> k \<and> k \<le> mx
       then if bb_Find lib f (chunk_proof cr lib content nonce k) = 0 then (None, (e, s1))
            else case ev_Hit (bb_Find lib f (chunk_proof cr lib content nonce k)) e of
                   None \<Rightarrow> (Some SnPanic, (e, s1)) | Some e \<Rightarrow> (None, (e, s1))
       else (None, (e, s)))"
proof -
  let ?c = "NewChunk (NewAddress k) d :: stamp chunk"
  obtain cp s1 where g: "GetChunkProof cr lib nonce ?c s = (cp, s1)" by fastforce
  have "cp = chunk_proof cr lib content nonce k" "cache_ok cr lib content s1"
    using GetChunkProof_ok [OF c _ g] k(3) by (simp_all add: NewChunk_def)
  moreover have "find_missing_chunk cr lib f nonce mn mx ((index_item RetrievalData (k, v))\<lparr>it_Data := d\<rparr>) (e, s) =
      (if mn \<le> k \<and> k \<le> mx
       then if bb_Find lib f cp = 0 then (None, (e, s1))
            else case ev_Hit (bb_Find lib f cp) e of
                   None \<Rightarrow> (Some SnPanic, (e, s1)) | Some e \<Rightarrow> (None, (e, s1))
       else (None, (e, s)))"
    unfolding find_missing_chunk_def using k(1,2) g
    by (auto simp: Let_def NewChunk_def not_le split: option.splits)
  ultimately show ?thesis by blast
qed

lemma find_loop:
  assumes "cache_ok cr lib content s" "entries_ok content db kvs" "n < 2 ^ 64"
    and "iter_chunks True (find_missing_chunk cr lib f nonce mn mx) db
      (map (index_item RetrievalData) kvs) (expected n hs, s) = (None, e, s')"
  defines "F \<equiv> \<lambda>a. bb_Find lib f (chunk_proof cr lib content nonce a)"
  shows "e = expected n (hs @ map F (filter (\<lambda>a. mn \<le> a \<and> a \<le> mx \<and> F a \<noteq> 0) (map fst kvs)))"
  using assms(1,2,4)
proof (induction kvs arbitrary: s hs)
  case (Cons kv kvs)
  obtain k v where kv: "kv = (k, v)" by fastforce
  obtain d where d: "ls_read (it_Location v) db = Inr d"
    using Cons.prems(3) by (auto simp: kv split: sum.splits)
  have k: "k \<noteq> []" "it_Address v = []" "d = content k" and rest: "entries_ok content db kvs"
    using Cons.prems(2) d by (auto simp: entries_ok_def kv)
  obtain s1 where s1: "cache_ok cr lib content s1" and step:
    "find_missing_chunk cr lib f nonce mn mx ((index_item RetrievalData (k, v))\<lparr>it_Data := d\<rparr>) (expected n hs, s) =
      (if mn \<le> k \<and> k \<le> mx
       then if F k = 0 then (None, (expected n hs, s1))
            else case ev_Hit (F k) (expected n hs) of
                   None \<Rightarrow> (Some SnPanic, (expected n hs, s1)) | Some e \<Rightarrow> (None, (e, s1))
       else (None, (expected n hs, s)))"
    using find_step [OF Cons.prems(1) k] unfolding F_def by blast
  let ?rest = "iter_chunks True (find_missing_chunk cr lib f nonce mn mx) db (map (index_item RetrievalData) kvs)"
  consider (out) "\<not> (mn \<le> k \<and> k \<le> mx)" | (zero) "mn \<le> k" "k \<le> mx" "F k = 0" | (hit) "mn \<le> k" "k \<le> mx" "F k \<noteq> 0"
    by blast
  then show ?case
  proof cases
    case out
    then have "?rest (expected n hs, s) = (None, e, s')"
      using Cons.prems(3) d step [unfolded if_not_P [OF out]] by (simp add: kv)
    from Cons.IH [OF Cons.prems(1) rest this] out show ?thesis by (auto simp: kv)
  next
    case zero
    then have "?rest (expected n hs, s1) = (None, e, s')" using Cons.prems(3) d step by (simp add: kv)
    from Cons.IH [OF s1 rest this] zero show ?thesis by (simp add: kv)
  next
    case hit
    obtain e1 where h: "ev_Hit (F k) (expected n hs) = Some e1"
      using Cons.prems(3) d step hit by (cases "ev_Hit (F k) (expected n hs)") (simp_all add: kv)
    then have r: "?rest (e1, s1) = (None, e, s')" using Cons.prems(3) d step hit by (simp add: kv)
    note e1 = ev_Hit_expected [OF h hit(3) assms(3)]
    from Cons.IH [OF s1 rest r [unfolded e1]] hit show ?thesis by (simp add: kv)
  qed
qed simp

lemma ls_Get_stored:
  assumes "map_of (ld_ix db RetrievalData) a = Some v" "it_Address v = []" "ls_read (it_Location v) db = Inr d"
    "mode \<noteq> ModeGetRequestPin"
  shows "\<exists>c. ls_Get mode (NewAddress a) db = Inr c \<and> ch_addr c = NewAddress a \<and> ch_data c = d"
proof -
  let ?out = "item_Merge v (addressToItem (NewAddress a))"
  have out: "it_Address ?out = a" "it_Location ?out = it_Location v"
    using assms(2) by (simp_all add: item_Merge_def addressToItem_def zero_item_def)
  have "ix_Get db RetrievalData (addressToItem (NewAddress a)) = Some ?out"
    using assms(1) by (simp add: index_Get_def addressToItem_def)
  then show ?thesis
    using assms(3,4) out
    by (cases mode) (simp_all add: ls_Get_def ls_get_def WithStamp_def NewChunk_def Let_def)
qed

lemma image_addr:
  assumes "(\<lambda>c. Some (ch_addr c)) ` X = (\<lambda>a. Some (NewAddress a)) ` A"
  shows "(\<lambda>c. addr_bytes (ch_addr c)) ` X = A"
proof -
  have "(\<lambda>x. addr_bytes (the x)) ` (\<lambda>c. Some (ch_addr c)) ` X = (\<lambda>x. addr_bytes (the x)) ` (\<lambda>a. Some (NewAddress a)) ` A"
    by (simp only: assms)
  then show ?thesis by (simp add: image_image)
qed

lemma missing_chunks_all:
  assumes "\<forall>v \<in> set ms. \<exists>a. vals v = Some (NewAddress a) \<and> readable db a" "db_holds content db"
  shows "\<exists>chunks. missing_chunks_loop db vals ms = Inr chunks \<and> map (\<lambda>c. Some (ch_addr c)) chunks = map vals ms"
  using assms(1)
proof (induction ms)
  case (Cons m ms)
  then obtain a where a: "vals m = Some (NewAddress a)" "readable db a" by auto
  from a(2) obtain v d where v: "map_of (ld_ix db RetrievalData) a = Some v" "ls_read (it_Location v) db = Inr d"
    by (auto simp: readable_def)
  then have "it_Address v = []" using assms(2) by (auto simp: db_holds_def dest: map_of_SomeD)
  from ls_Get_stored [OF v(1) this v(2), of ModeGetRequest] obtain c where
    c: "ls_Get ModeGetRequest (NewAddress a) db = Inr c" "ch_addr c = NewAddress a" by blast
  from Cons obtain chunks where "missing_chunks_loop db vals ms = Inr chunks"
    "map (\<lambda>c. Some (ch_addr c)) chunks = map vals ms" by auto
  with a(1) c have "missing_chunks_loop db vals (m # ms) = Inr (c # chunks)"
    "map (\<lambda>c. Some (ch_addr c)) (c # chunks) = map vals (m # ms)" by simp_all
  then show ?case by blast
qed simp

lemma image_unhit:
  assumes "\<And>w. w \<in> M \<longleftrightarrow> w \<in> F ` C \<and> w \<notin> F ` {b \<in> V. ok b}"
  shows "M = F ` {a \<in> C. \<forall>b \<in> V. ok b \<longrightarrow> F b \<noteq> F a}"
  by (intro set_eqI) (auto simp: assms image_iff, metis)

section \<open>Properties\<close>

text \<open>
  C6: what the prover hands over: the chunks it returns for the values the peer reports missing
  are exactly those chunks of its neighbourhood that the peer does not store, less those
  whose value the peer hits with another chunk of the range. In particular every chunk it sends
  is one the peer lacks.
\<close>

theorem snips_reconciles:
  assumes "mphf_contract lib" "db_holds content db_p" "db_holds content db_v"
    and "cache_ok cr lib content s_p" "cache_ok cr lib content s_v"
    and "length (stored_addrs db_p) < 2 ^ 32" "length (stored_addrs db_v) < 2 ^ 32"
    and "CreateProofForMyChunks cr lib depth db_p nonce s_p = Some (Inr pf, s_p')"
    and "bb_Unmarshal lib (pr_MPHF pf) = Some f"
    and "FindMissingChunks cr lib db_v f nonce (pr_Length pf) (pr_Begin pf) (pr_End pf) s_v = (None, e, s_v')"
  shows "\<exists>chunks. GetMissingChunks db_p (ev_GetMissingChunks e) nonce s_p' = Inr chunks \<and>
    (\<lambda>c. addr_bytes (ch_addr c)) ` set chunks =
      {a \<in> radius_addrs depth db_p s_p - set (stored_addrs db_v).
         \<forall>b \<in> set (stored_addrs db_v) - radius_addrs depth db_p s_p. pr_Begin pf \<le> b \<and> b \<le> pr_End pf \<longrightarrow>
           bb_Find lib f (chunk_proof cr lib content nonce b) \<noteq>
           bb_Find lib f (chunk_proof cr lib content nonce a)}"
proof -
  let ?F = "\<lambda>a. bb_Find lib f (chunk_proof cr lib content nonce a)"
  let ?C = "radius_addrs depth db_p s_p" and ?V = "set (stored_addrs db_v)"
  let ?ok = "\<lambda>a. pr_Begin pf \<le> a \<and> a \<le> pr_End pf \<and> ?F a \<noteq> 0"
  from CreateProof_ok [OF assms(1,4,2,6,8,9)] obtain vals where P: "sn_mapValToChunkId s_p' nonce = Some vals"
    "inj_on ?F ?C" "\<And>a. a \<in> ?C \<Longrightarrow> vals (?F a) = Some (NewAddress a)" "\<And>a. a \<in> ?C \<Longrightarrow> readable db_p a"
    "\<And>a. a \<in> ?C \<Longrightarrow> pr_Begin pf \<le> a \<and> a \<le> pr_End pf" "unat ` ?F ` ?C = {1..unat (pr_Length pf)}" by blast
  have n: "unat (pr_Length pf) < 2 ^ 64"
    using unsigned_less [of "pr_Length pf", where 'a = nat] by simp
  let ?hs = "map ?F (filter ?ok (stored_addrs db_v))"
  have e: "e = expected (unat (pr_Length pf)) ?hs"
    using find_loop [OF assms(5) db_holds_entries(1) [OF assms(3)] n, of f nonce "pr_Begin pf" "pr_End pf" "[]" e s_v']
      assms(10) by (simp add: FindMissingChunks_def IterStoredChunks_def iter_retrieval NewExpectedVals_expected stored_addrs_def)
  have "length ?hs < 2 ^ 32" unfolding length_map by (rule le_less_trans [OF length_filter_le assms(7)])
  note ms = missing_expected [OF this, of "unat (pr_Length pf)", folded e]
  have set_ms: "set (ev_GetMissingChunks e) = ?F ` {a \<in> ?C. \<forall>b \<in> ?V. ?ok b \<longrightarrow> ?F b \<noteq> ?F a}"
    (is "?M = ?F ` ?A")
  proof -
    have "w \<in> ?M \<longleftrightarrow> w \<in> ?F ` ?C \<and> w \<notin> set ?hs" for w
    proof -
      have u: "unat (of_nat (Suc i) :: u64) = Suc i" if "i < unat (pr_Length pf)" for i
        using that n by (simp add: unat_of_nat del: of_nat_Suc)
      have "w \<in> ?M \<longleftrightarrow> (\<exists>i < unat (pr_Length pf). w = of_nat (Suc i)) \<and> w \<notin> set ?hs"
        unfolding ms by auto
      also have "(\<exists>i < unat (pr_Length pf). w = of_nat (Suc i)) \<longleftrightarrow> unat w \<in> {1..unat (pr_Length pf)}"
      proof
        assume "unat w \<in> {1..unat (pr_Length pf)}"
        then have "w = of_nat (Suc (unat w - 1))" "unat w - 1 < unat (pr_Length pf)" by (simp, force)
        then show "\<exists>i < unat (pr_Length pf). w = of_nat (Suc i)" by blast
      qed (use u in auto)
      also have "\<dots> \<longleftrightarrow> w \<in> ?F ` ?C" unfolding P(6) [symmetric] by (auto simp flip: word_unat_eq_iff)
      finally show ?thesis .
    qed
    then show ?thesis unfolding set_map set_filter by (rule image_unhit)
  qed
  have "\<forall>v \<in> ?M. \<exists>a. vals v = Some (NewAddress a) \<and> readable db_p a" unfolding set_ms using P(3,4) by blast
  from missing_chunks_all [OF this assms(2)] obtain chunks where
    c: "missing_chunks_loop db_p vals (ev_GetMissingChunks e) = Inr chunks"
      "map (\<lambda>c. Some (ch_addr c)) chunks = map vals (ev_GetMissingChunks e)" by blast
  have "(\<lambda>c. Some (ch_addr c)) ` set chunks = vals ` ?M" using arg_cong [OF c(2), of set] by simp
  also have "\<dots> = (\<lambda>a. Some (NewAddress a)) ` ?A" unfolding set_ms image_image using P(3) by (intro image_cong) auto
  finally have "(\<lambda>c. addr_bytes (ch_addr c)) ` set chunks = ?A"
    by (rule image_addr)
  also have "?A = {a \<in> ?C - ?V. \<forall>b \<in> ?V - ?C. pr_Begin pf \<le> b \<and> b \<le> pr_End pf \<longrightarrow> ?F b \<noteq> ?F a}" (is "_ = ?B")
  proof -
    have nz: "?F a \<noteq> 0" if "a \<in> ?C" for a
    proof -
      have "unat (?F a) \<in> {1..unat (pr_Length pf)}" using that P(6) by blast
      then show ?thesis by auto
    qed
    show ?thesis
    proof (intro set_eqI iffI)
      fix a assume a: "a \<in> ?A"
      then have "a \<notin> ?V" using nz P(5) by blast
      with a nz show "a \<in> ?B" by auto
    next
      fix a assume a: "a \<in> ?B"
      have "?F b \<noteq> ?F a" if b: "b \<in> ?V" "?ok b" for b
        using a b inj_onD [OF P(2), of b a] by (cases "b \<in> ?C") auto
      with a show "a \<in> ?A" by auto
    qed
  qed
  finally show ?thesis using c(1) P(1) by (auto simp: GetMissingChunks_def)
qed

end
