(* ===== verification/Snips_Faults.thy ===== *)
theory Snips_Faults
  imports Snips_Reconcile
begin

text \<open>
  Which collisions a peer notices, what a proof with a wrong length does to it, and a concrete
  exchange on which the assumptions of the theorems on SNIPS hold.
\<close>

section \<open>Collisions\<close>

lemma missing_and_duplicate_iff:
  "missing_and_duplicate m d e \<longleftrightarrow> (m \<or> 1 \<in> set e) \<and> (d \<or> - 1 \<in> set e)"
  by (induction m d e rule: missing_and_duplicate.induct) auto

text \<open>
  a new proof is asked for only when some value is missing and some value was hit exactly
  twice: a value that three or more chunks share goes unnoticed, although \<open>DuplicateProof\<close>
  reports it.
\<close>

theorem GotMissingAndDuplicate_exactly_twice:
  assumes "length hs < 2 ^ 31" "n < 2 ^ 32"
  shows "(ev_GotMissingAndDuplicate (expected n hs) \<longleftrightarrow>
      (\<exists>v \<in> {1..n}. count_list hs (of_nat v) = 0) \<and> (\<exists>v \<in> {1..n}. count_list hs (of_nat v) = 2)) \<and>
    set (ev_DuplicateProof (expected n hs)) = of_nat ` {v \<in> {1..n}. count_list hs (of_nat v) \<ge> 2}"
proof -
  have c: "count_list hs v < 2 ^ 31" for v using assms(1) count_le_length [of hs v] by linarith
  have one: "1 = 1 - (of_nat (count_list hs v) :: u32) \<longleftrightarrow> count_list hs v = 0" for v
  proof -
    have "(of_nat (count_list hs v) = (0 :: u32)) \<longleftrightarrow> count_list hs v = 0"
      using c [of v] by (simp add: word_unat_eq_iff unat_of_nat)
    then show ?thesis by (simp add: eq_diff_eq)
  qed
  have two: "- 1 = 1 - (of_nat (count_list hs v) :: u32) \<longleftrightarrow> count_list hs v = 2" for v
  proof -
    have "(of_nat (count_list hs v) = (2 :: u32)) \<longleftrightarrow> count_list hs v = 2"
      using c [of v] by (simp add: word_unat_eq_iff unat_of_nat)
    then show ?thesis by (auto simp: algebra_simps)
  qed
  have S: "x \<in> set (expected n hs) \<longleftrightarrow> (\<exists>v \<in> {1..n}. x = 1 - of_nat (count_list hs (of_nat v)))" for x
  proof -
    have "x \<in> set (expected n hs) \<longleftrightarrow> (\<exists>i < n. x = 1 - of_nat (count_list hs (of_nat (Suc i))))"
      by (auto simp: expected_def simp del: of_nat_Suc)
    also have "\<dots> \<longleftrightarrow> (\<exists>v \<in> {1..n}. x = 1 - of_nat (count_list hs (of_nat v)))"
      by (metis Suc_le_eq atLeastAtMost_iff le_add1 plus_1_eq_Suc not0_implies_Suc not_one_le_zero)
    finally show ?thesis .
  qed
  have "ev_GotMissingAndDuplicate (expected n hs) \<longleftrightarrow>
      (\<exists>v \<in> {1..n}. count_list hs (of_nat v) = 0) \<and> (\<exists>v \<in> {1..n}. count_list hs (of_nat v) = 2)"
    unfolding ev_GotMissingAndDuplicate_def missing_and_duplicate_iff S one two by simp
  have neg: "sint (1 - (of_nat (count_list hs v) :: u32)) < 0 \<longleftrightarrow> count_list hs v \<ge> 2" for v
  proof -
    have "sint (1 - (of_nat (count_list hs v) :: u32)) = 1 - int (count_list hs v)"
    proof -
      have "signed_take_bit 31 (1 - int (count_list hs v)) = 1 - int (count_list hs v)"
        using c [of v] by (intro signed_take_bit_int_eq_self) simp_all
      moreover have "1 - (of_nat (count_list hs v) :: u32) = word_of_int (1 - int (count_list hs v))" by simp
      ultimately show ?thesis by (simp add: sint_sbintrunc' del: of_int_diff)
    qed
    then show ?thesis by linarith
  qed
  have "set (ev_DuplicateProof (expected n hs)) =
      of_nat ` Suc ` {i. i < n \<and> count_list hs (of_nat (Suc i)) \<ge> 2}"
    by (auto simp: ev_DuplicateProof_def ev_select_def expected_def neg simp del: of_nat_Suc)
  also have "Suc ` {i. i < n \<and> count_list hs (of_nat (Suc i)) \<ge> 2} = {v \<in> {1..n}. count_list hs (of_nat v) \<ge> 2}"
  proof (intro set_eqI iffI)
    fix v assume "v \<in> {v \<in> {1..n}. count_list hs (of_nat v) \<ge> 2}"
    then show "v \<in> Suc ` {i. i < n \<and> count_list hs (of_nat (Suc i)) \<ge> 2}" by (cases v) auto
  qed auto
  finally show ?thesis
    using \<open>ev_GotMissingAndDuplicate (expected n hs) \<longleftrightarrow> _\<close> by blast
qed

lemma GotMissingAndDuplicate_exactly_twice_witness:
  "\<not> ev_GotMissingAndDuplicate (expected 2 [2, 2, 2]) \<and> 2 \<in> set (ev_DuplicateProof (expected 2 [2, 2, 2]))"
proof -
  have c: "count_list [2, 2, 2] (of_nat 2 :: u64) = 3" by simp
  have "count_list [2, 2, 2] (w :: u64) \<noteq> 2" for w by simp
  moreover have "(2 :: u32) \<in> of_nat ` {v \<in> {1..2}. count_list [2, 2, 2] (of_nat v :: u64) \<ge> 2}"
    using c by (intro image_eqI [of _ _ 2]) (simp_all del: count_list.simps)
  ultimately show ?thesis using GotMissingAndDuplicate_exactly_twice [of "[2, 2, 2]" 2]
    by (simp del: count_list.simps)
qed

section \<open>Proofs with a wrong length\<close>

lemma find_loop_result:
  assumes "cache_ok cr lib content s" "entries_ok content db kvs" "\<forall>(k, v) \<in> set kvs. \<exists>d. ls_read (it_Location v) db = Inr d"
    and "iter_chunks True (find_missing_chunk cr lib f nonce mn mx) db
      (map (index_item RetrievalData) kvs) (e, s) = (r, e', s')"
  defines "F \<equiv> \<lambda>a. bb_Find lib f (chunk_proof cr lib content nonce a)"
  shows "length e' = length e \<and> (r = None \<or> r = Some (Inr SnPanic)) \<and>
    (r = None \<longrightarrow> (\<forall>k \<in> fst ` set kvs. mn \<le> k \<and> k \<le> mx \<and> F k \<noteq> 0 \<longrightarrow> unat (F k) \<le> length e))"
  using assms(1-4)
proof (induction kvs arbitrary: s e)
  case (Cons kv kvs)
  obtain k v where kv: "kv = (k, v)" by fastforce
  obtain d where d: "ls_read (it_Location v) db = Inr d" using Cons.prems(3) by (auto simp: kv)
  have k: "k \<noteq> []" "it_Address v = []" "d = content k" and rest: "entries_ok content db kvs"
    "\<forall>(k, v) \<in> set kvs. \<exists>d. ls_read (it_Location v) db = Inr d"
    using Cons.prems(2,3) d by (auto simp: entries_ok_def kv)
  obtain s1 where s1: "cache_ok cr lib content s1" and step:
    "find_missing_chunk cr lib f nonce mn mx ((index_item RetrievalData (k, v))\<lparr>it_Data := d\<rparr>) (e, s) =
      (if mn \<le> k \<and> k \<le> mx
       then if F k = 0 then (None, (e, s1))
            else case ev_Hit (F k) e of
                   None \<Rightarrow> (Some SnPanic, (e, s1)) | Some e \<Rightarrow> (None, (e, s1))
       else (None, (e, s)))"
    using find_step [OF Cons.prems(1) k] unfolding F_def by blast
  let ?rest = "iter_chunks True (find_missing_chunk cr lib f nonce mn mx) db (map (index_item RetrievalData) kvs)"
  consider (out) "\<not> (mn \<le> k \<and> k \<le> mx)" | (zero) "mn \<le> k" "k \<le> mx" "F k = 0" | (hit) "mn \<le> k" "k \<le> mx" "F k \<noteq> 0"
    by blast
  then show ?case
  proof cases
    case out
    then have "?rest (e, s) = (r, e', s')"
      using Cons.prems(4) d step [unfolded if_not_P [OF out]] by (simp add: kv)
    from Cons.IH [OF Cons.prems(1) rest this] out show ?thesis by (auto simp: kv)
  next
    case zero
    then have "?rest (e, s1) = (r, e', s')" using Cons.prems(4) d step by (simp add: kv)
    from Cons.IH [OF s1 rest this] zero show ?thesis by (auto simp: kv)
  next
    case hit
    have u: "unat (F k - 1) = unat (F k) - 1" "unat (F k) \<noteq> 0" using hit(3) by (simp_all add: unat_minus_one unat_eq_0)
    show ?thesis
    proof (cases "ev_Hit (F k) e")
      case None
      then show ?thesis using Cons.prems(4) d step hit by (auto simp: kv)
    next
      case (Some e1)
      then have l: "length e1 = length e" "unat (F k) \<le> length e"
        using u by (auto simp: ev_Hit_def Let_def split: if_splits)
      have "?rest (e1, s1) = (r, e', s')" using Cons.prems(4) d step hit Some by (simp add: kv)
      from Cons.IH [OF s1 rest this] l show ?thesis by (auto simp: kv)
    qed
  qed
qed simp

text \<open>
  the length of a proof is trusted: when the MPHF of a signed proof gives a chunk in the
  store of a peer a value above the length the proof claims, \<open>Hit\<close> writes past the slice and
  the peer panics.
\<close>

theorem short_proof_panics:
  assumes "db_holds content db" "cache_ok cr lib content s"
    and "\<forall>a \<in> set (stored_addrs db). readable db a"
    and "b \<in> set (stored_addrs db)" "begin \<le> b" "b \<le> end"
    and "unat len < unat (bb_Find lib f (chunk_proof cr lib content nonce b))"
  shows "fst (FindMissingChunks cr lib db f nonce len begin end s) = Some (Inr SnPanic)"
proof -
  obtain r e' s' where it: "iter_chunks True (find_missing_chunk cr lib f nonce begin end) db
      (map (index_item RetrievalData) (ld_ix db RetrievalData)) (NewExpectedVals (unat len), s) = (r, e', s')"
    by (metis prod_cases3)
  have "\<forall>(k, v) \<in> set (ld_ix db RetrievalData). \<exists>d. ls_read (it_Location v) db = Inr d"
  proof safe
    fix k v assume kv: "(k, v) \<in> set (ld_ix db RetrievalData)"
    then have "map_of (ld_ix db RetrievalData) k = Some v"
      using db_holds_entries(1) [OF assms(1)] by (auto simp: entries_ok_def)
    moreover have "readable db k" using assms(3) kv by (force simp: stored_addrs_def)
    ultimately show "\<exists>d. ls_read (it_Location v) db = Inr d" by (simp add: readable_def)
  qed
  from find_loop_result [OF assms(2) db_holds_entries(1) [OF assms(1)] this it] assms(4-7)
  have "r = Some (Inr SnPanic)" by (force simp: stored_addrs_def NewExpectedVals_def)
  then show ?thesis by (simp add: FindMissingChunks_def IterStoredChunks_def iter_retrieval it)
qed

section \<open>A concrete exchange\<close>

text \<open>A library with the keys themselves as the MPHF, over the data of a chunk as its hash.\<close>

definition toy_lib :: "u64 list snips_lib" where
  "toy_lib =
     \<lparr>lib_fasthash = (\<lambda>seed b. of_nat (be_to_nat (drop 8 b))),
      bb_NewSerial = (\<lambda>g ks. if length ks < 2 ^ 32 then Some ks else None),
      bb_Find = (\<lambda>f k. case find_index (\<lambda>x. x = k) f of None \<Rightarrow> 0 | Some i \<Rightarrow> if i < 2 ^ 32 then of_nat (Suc i) else 0),
      bb_Marshal = (\<lambda>f. case f of [k] \<Rightarrow> Some (be_of_nat 8 (unat k)) | _ \<Rightarrow> None),
      bb_Unmarshal = (\<lambda>b. Some [of_nat (be_to_nat b)]),
      rb_ToBytes = (\<lambda>xs. case xs of [v] \<Rightarrow> Some (be_of_nat 8 (unat v)) | _ \<Rightarrow> None),
      rb_ToArray = (\<lambda>b. Some [of_nat (be_to_nat b)])\<rparr>"

definition toy_cr :: "unit crypto" where
  "toy_cr = \<lparr>cr_keccak = (\<lambda>b. [9]), cr_hasher = (\<lambda>b. b), cr_marshal = (\<lambda>_. Some []),
     cr_recover = (\<lambda>_ _. Some ())\<rparr>"

lemma toy_contract: "mphf_contract toy_lib"
proof -
  have find: "find_index (\<lambda>x. x = k) ks = Some i \<Longrightarrow> i < length ks \<and> ks ! i = k" for k :: u64 and ks i
    by (drule find_index_SomeD) auto
  have some: "k \<in> set ks \<Longrightarrow> \<exists>i. find_index (\<lambda>x. x = k) ks = Some i" for k :: u64 and ks
    using find_index_None [of "\<lambda>x. x = k" ks] by (cases "find_index (\<lambda>x. x = k) ks") auto
  have val: "\<exists>i < length ks. ks ! i = k \<and> bb_Find toy_lib ks k = of_nat (Suc i)"
    if k: "k \<in> set ks" and l: "length ks < 2 ^ 32" for k ks
  proof -
    obtain i where i: "find_index (\<lambda>x. x = k) ks = Some i" using some [OF k] by blast
    moreover have "i < length ks" "ks ! i = k" using find [OF i] by simp_all
    ultimately show ?thesis using l by (intro exI [of _ i]) (simp add: toy_lib_def del: of_nat_Suc)
  qed
  have u: "unat (of_nat (Suc i) :: u64) = Suc i" if "i < 2 ^ 32" for i
    using that by (simp add: unat_of_nat del: of_nat_Suc)
  have "inj_on (bb_Find toy_lib ks) (set ks) \<and> (\<forall>k \<in> set ks. bb_Find toy_lib ks k \<noteq> 0) \<and>
      (\<forall>k. unat (bb_Find toy_lib ks k) \<le> length ks)" if l: "length ks < 2 ^ 32" for ks
  proof (intro conjI allI ballI inj_onI)
    fix x y assume "x \<in> set ks" "y \<in> set ks" and eq: "bb_Find toy_lib ks x = bb_Find toy_lib ks y"
    then obtain i j where i: "i < length ks" "ks ! i = x" "bb_Find toy_lib ks x = of_nat (Suc i)"
      and j: "j < length ks" "ks ! j = y" "bb_Find toy_lib ks y = of_nat (Suc j)" using val l by meson
    then have "Suc i = Suc j" using u [of i] u [of j] eq l by (metis order.strict_trans)
    then show "x = y" using i j by simp
  next
    fix k assume "k \<in> set ks"
    then obtain i where "i < length ks" "bb_Find toy_lib ks k = of_nat (Suc i)" using val l by meson
    then show "bb_Find toy_lib ks k \<noteq> 0" using u [of i] l by (metis Zero_not_Suc order.strict_trans unat_0)
  next
    fix k
    show "unat (bb_Find toy_lib ks k) \<le> length ks"
    proof (cases "k \<in> set ks")
      case True
      then obtain i where "i < length ks" "bb_Find toy_lib ks k = of_nat (Suc i)" using val l by meson
      then show ?thesis using u [of i] l by (metis Suc_leI order.strict_trans)
    next
      case False
      then have "find_index (\<lambda>x. x = k) ks = None" unfolding find_index_None by blast
      then show ?thesis by (simp add: toy_lib_def)
    qed
  qed
  moreover have "bb_Unmarshal toy_lib b = Some f" if "bb_Marshal toy_lib f = Some b" for f b
  proof -
    have "unat k < 256 ^ 8" for k :: u64 using unsigned_less [of k, where 'a = nat] by simp
    then show ?thesis using that by (auto simp: toy_lib_def split: list.splits)
  qed
  ultimately show ?thesis by (simp add: mphf_contract_def toy_lib_def split: if_splits)
qed

text \<open>A store with one chunk, in the first slot of its only shard.\<close>

definition toy_db :: "byte \<Rightarrow> localdb" where
  "toy_db a = (ls_New [1] 10 10 [\<lparr>sh_index = 0, sh_maxDataSize = 8, sh_file = [a + 6], sh_free = [],
       sh_slots = \<lparr>sl_data = [254], sl_size = 8, sl_head = 1\<rparr>, sh_out = None, sh_slot = None,
       sh_limbo = None, sh_quit = False, sh_slotsQuit = False\<rparr>])
     \<lparr>ld_ix := (\<lambda>_. []) (RetrievalData := [([a], zero_item\<lparr>it_Location := [0, 0, 0, 0, 0, 1, 0]\<rparr>)])\<rparr>"

definition toy_content :: "bytes \<Rightarrow> bytes" where
  "toy_content a = map (\<lambda>b. b + 6) a"

definition toy_node :: snips where
  "toy_node = snips_New (NewAddress [1]) [] 1 True 2 3"

lemma toy_holds: "a \<noteq> 0 \<Longrightarrow> db_holds toy_content (toy_db a)"
  by (simp add: db_holds_def toy_db_def ls_New_def ls_read_def LocationFromBinary_def slice_def sharky_Read_def
      shard_read_def file_ReadAt_def shard_offset_def toy_content_def le_to_nat_def be_to_nat_def Let_def zero_item_def)

lemma toy_cache: "cache_ok toy_cr toy_lib toy_content toy_node"
  by (simp add: cache_ok_def toy_node_def snips_New_def)

lemma toy_stored: "stored_addrs (toy_db a) = [[a]]"
  by (simp add: stored_addrs_def toy_db_def ls_New_def)

lemma toy_radius:
  "GetChunksInMyRadius 0 (toy_db 1) toy_node = ([1], [1], [NewChunk (NewAddress [1]) [7]])"
  by code_simp

lemma toy_base: "BuildBaseProof toy_cr toy_lib 5 [NewChunk (NewAddress [1]) [7] :: stamp chunk] toy_node =
    ([7], [7 \<mapsto> NewAddress [1]], toy_node\<lparr>sn_mapChunkIdToProof := [5 \<mapsto> [[1] \<mapsto> 7]]\<rparr>)"
  by (simp add: BuildBaseProof_def GetChunkProof_def toy_node_def snips_New_def NewChunk_def genChunkProof_def
      HashByteToUint64_def toy_cr_def toy_lib_def be_to_nat_def Let_def)

definition toy_proof :: snips_proof where
  "toy_proof = \<lparr>pr_Begin = [1], pr_End = [1], pr_Nonce = 5, pr_MPHF = [0, 0, 0, 0, 0, 0, 0, 7], pr_Length = 1\<rparr>"

definition toy_proved :: snips where
  "toy_proved = toy_node\<lparr>sn_mapChunkIdToProof := [5 \<mapsto> [[1] \<mapsto> 7]],
     sn_mapValToChunkId := [5 \<mapsto> [1 \<mapsto> NewAddress [1]]]\<rparr>"

lemma toy_create:
  "CreateProofForMyChunks toy_cr toy_lib 0 (toy_db 1) 5 toy_node = Some (Inr toy_proof, toy_proved)"
proof -
  let ?s = "toy_node\<lparr>sn_mapChunkIdToProof := [5 \<mapsto> [[1] \<mapsto> 7]]\<rparr>"
  have "create_mphf_loop toy_lib [7] [7 \<mapsto> NewAddress [1]] 5 2 ?s = Some (Inr (Some [7]), toy_proved)"
    by (subst create_mphf_loop.simps) (simp add: toy_lib_def toy_proved_def toy_node_def snips_New_def Let_def)
  moreover have "sn_MinGamma ?s = 2" "sn_MaxGamma ?s = 3" by (simp_all add: toy_node_def snips_New_def)
  ultimately have "CreateMPHF toy_lib [7] [7 \<mapsto> NewAddress [1]] 5 ?s = Some (Inr (Some [7]), toy_proved)"
    unfolding CreateMPHF_def by (simp only: if_True) simp
  moreover have "bb_Marshal toy_lib [7] = Some [0, 0, 0, 0, 0, 0, 0, 7]"
  proof -
    have "be_of_nat 8 7 = [0, 0, 0, 0, 0, 0, 0, 7]" by code_simp
    then show ?thesis by (simp add: toy_lib_def)
  qed
  ultimately show ?thesis
    by (simp add: CreateProofForMyChunks_def toy_radius toy_base toy_proof_def)
qed

lemma toy_unmarshal: "bb_Unmarshal toy_lib (pr_MPHF toy_proof) = Some [7]"
  by (simp add: toy_lib_def toy_proof_def be_to_nat_def)

lemma toy_find:
  "FindMissingChunks toy_cr toy_lib (toy_db 2) [7] 5 (pr_Length toy_proof) (pr_Begin toy_proof) (pr_End toy_proof)
     toy_node = (None, [1], toy_node)"
proof -
  let ?v = "zero_item\<lparr>it_Location := [0, 0, 0, 0, 0, 1, 0]\<rparr>"
  have out: "\<not> ([1] \<le> [2 :: byte] \<and> [2] \<le> [1 :: byte])" by simp
  have v: "it_Address ?v = []" "[8] = toy_content [2]" by (simp_all add: zero_item_def toy_content_def)
  have "find_missing_chunk toy_cr toy_lib [7] 5 [1] [1] ((index_item RetrievalData ([2], ?v))\<lparr>it_Data := [8]\<rparr>)
      ([1], toy_node) = (None, [1], toy_node)"
    using find_step [OF toy_cache _ v, of "[7]" 5 "[1]" "[1]" "[1]"] unfolding if_not_P [OF out] by simp
  moreover have "ls_read [0, 0, 0, 0, 0, 1, 0] (toy_db 2) = Inr [8]" by code_simp
  moreover have "ld_ix (toy_db 2) RetrievalData = [([2], ?v)]" by (simp add: toy_db_def ls_New_def)
  ultimately show ?thesis
    by (simp add: FindMissingChunks_def IterStoredChunks_def iter_retrieval toy_proof_def NewExpectedVals_def
        zero_item_def)
qed

section \<open>Witnesses\<close>

lemma CreateMPHF_returns_witness: "CreateMPHF toy_lib [7] [7 \<mapsto> NewAddress [1]] 5 toy_node \<noteq> None"
  by (rule CreateMPHF_returns [OF toy_contract]) simp

lemma CreateMPHF_collision_no_MPHF_witness:
  "case CreateMPHF toy_lib [7, 7] [7 \<mapsto> NewAddress [1]] 5 toy_node of
      None \<Rightarrow> sn_MinGamma toy_node \<le> sn_MaxGamma toy_node
    | Some (Inl e, s') \<Rightarrow> e = SnMPHF \<and> sn_MinGamma toy_node \<le> sn_MaxGamma toy_node \<and>
        (\<exists>g > sn_MaxGamma toy_node - 1. bb_NewSerial toy_lib g [7, 7] = None)
    | Some (Inr r, s') \<Rightarrow> r = None \<and> s' = toy_node \<and> sn_MaxGamma toy_node < sn_MinGamma toy_node"
  by (rule CreateMPHF_collision_no_MPHF) simp

lemma snips_reconciles_witness:
  "\<exists>chunks. GetMissingChunks (toy_db 1) [1] 5 toy_proved = Inr chunks \<and>
    (\<lambda>c. addr_bytes (ch_addr c)) ` set chunks = {[1]}"
proof -
  have "radius_addrs 0 (toy_db 1) toy_node = {[1]}" by (simp add: radius_addrs_def toy_radius NewChunk_def)
  moreover have "ev_GetMissingChunks [1] = [1]" by (simp add: ev_GetMissingChunks_def ev_select_def)
  ultimately show ?thesis
    using snips_reconciles [OF toy_contract toy_holds [of 1] toy_holds [of 2] toy_cache toy_cache _ _
        toy_create toy_unmarshal toy_find]
    by (simp add: toy_stored toy_proof_def)
qed

lemma short_proof_panics_witness:
  "fst (FindMissingChunks toy_cr toy_lib (toy_db 1) [7] 5 0 [1] [1] toy_node) = Some (Inr SnPanic)"
proof (rule short_proof_panics [OF toy_holds toy_cache])
  show "\<forall>a \<in> set (stored_addrs (toy_db 1)). readable (toy_db 1) a"
    by (simp add: stored_addrs_def readable_def toy_db_def ls_New_def ls_read_def LocationFromBinary_def slice_def
        sharky_Read_def shard_read_def file_ReadAt_def shard_offset_def le_to_nat_def be_to_nat_def Let_def zero_item_def)
  show "unat (0 :: u32) < unat (bb_Find toy_lib [7] (chunk_proof toy_cr toy_lib toy_content 5 [1]))"
    by (simp add: chunk_proof_def toy_content_def toy_cr_def toy_lib_def HashByteToUint64_def genChunkProof_def be_to_nat_def)
qed (simp_all add: toy_stored)

end
