(* ===== verification/Snips_Service_Props.thy ===== *)
theory Snips_Service_Props
  imports Snips_Service Snips_Faults
begin

text \<open>
  The protocol: who a node answers to, what one round between two nodes delivers, which blocks a
  proof is made for, and where an error of the network brings a node down.
\<close>

section \<open>Incoming proofs\<close>

lemma verifySignature_cases:
  assumes "snips_verifySignature cr keys depth sp s = Inr src"
  obtains pf data pk where "sp_Proof sp = Some pf" "sk_marshal keys pf = Some data"
    "cr_recover cr (sp_Signature sp) data = Some pk"
    "NewOverlayAddress cr pk (sn_networkID s) (sp_BlockHash sp) = Inr src"
    "depth \<le> Proximity (addr_bytes src) (addr_bytes (sn_address s))"
  using assms by (auto simp: snips_verifySignature_def Let_def not_less split: option.splits sum.splits if_splits)

lemma RetrieveMissingChunks_result:
  assumes "RetrieveMissingChunks cr lib ex db peer mphf pf s = ((r, msgs), s')"
  shows "msgs = [] \<and> r \<noteq> Inr True \<or>
    (\<exists>e b. FindMissingChunks cr lib db mphf (pr_Nonce pf) (pr_Length pf) (pr_Begin pf) (pr_End pf) s = (None, e, s') \<and>
       ev_GetMissingChunks e \<noteq> [] \<and> rb_ToBytes lib (ev_GetMissingChunks e) = Some b \<and>
       r = Inr (ev_GotMissingAndDuplicate e) \<and> msgs = [MsgMaintain peer (pr_Nonce pf) b])"
proof -
  obtain x e s1 where F: "FindMissingChunks cr lib db mphf (pr_Nonce pf) (pr_Length pf) (pr_Begin pf) (pr_End pf) s = (x, e, s1)"
    by (metis prod_cases3)
  show ?thesis
  proof (cases x)
    case None
    then show ?thesis using assms F
      by (cases "rb_ToBytes lib (ev_GetMissingChunks e)") (auto simp: RetrieveMissingChunks_def Let_def split: if_splits)
  next
    case (Some y)
    then show ?thesis using assms F by (cases y) (auto simp: RetrieveMissingChunks_def)
  qed
qed

lemma handlerIncomingProof_cases:
  assumes h: "handlerIncomingProof cr lib keys depth exm exr db peer msg s = ((r, msgs), s')" and ne: "msgs \<noteq> []"
  obtains sp pf mphf b e where "sn_Enabled s" "msg = Some sp" "sp_Proof sp = Some pf"
    "snips_verifySignature cr keys depth sp s = Inr peer" "bb_Unmarshal lib (pr_MPHF pf) = Some mphf"
    "FindMissingChunks cr lib db mphf (pr_Nonce pf) (pr_Length pf) (pr_Begin pf) (pr_End pf) s = (None, e, s')"
    "rb_ToBytes lib (ev_GetMissingChunks e) = Some b"
    "msgs = [MsgMaintain peer (pr_Nonce pf) b] \<or> msgs = [MsgMaintain peer (pr_Nonce pf) b, MsgRequest peer (pr_Nonce pf)]"
proof -
  have en: "sn_Enabled s" using h ne by (auto simp: handlerIncomingProof_def split: if_splits)
  obtain sp where sp: "msg = Some sp"
    using h ne en by (cases msg) (auto simp: handlerIncomingProof_def)
  obtain creator where c: "snips_verifySignature cr keys depth sp s = Inr creator"
    using h ne en sp by (cases "snips_verifySignature cr keys depth sp s") (auto simp: handlerIncomingProof_def)
  have peer: "creator = peer"
    using h ne en sp c by (auto simp: handlerIncomingProof_def split: if_splits intro: address.expand)
  obtain pf where pf: "sp_Proof sp = Some pf"
    using h ne en sp c peer by (cases "sp_Proof sp") (auto simp: handlerIncomingProof_def)
  obtain f where f: "bb_Unmarshal lib (pr_MPHF pf) = Some f"
    using h ne en sp c peer pf by (cases "bb_Unmarshal lib (pr_MPHF pf)") (auto simp: handlerIncomingProof_def)
  obtain x ms s1 where R: "RetrieveMissingChunks cr lib exm db peer f pf s = ((x, ms), s1)" by (metis prod.exhaust)
  have H: "(case x of Inl err \<Rightarrow> ((Some err, ms), s1)
     | Inr newproof \<Rightarrow> if \<not> newproof then ((None, ms), s1)
         else if \<not> ex_stream exr then ((Some SnStream, ms), s1)
         else if \<not> ex_write exr then ((Some SnWrite, ms), s1)
         else ((None, ms @ [MsgRequest peer (pr_Nonce pf)]), s1)) = ((r, msgs), s')"
    using h en sp c peer pf f R by (simp add: handlerIncomingProof_def)
  have ms: "ms \<noteq> []" "s1 = s'" "msgs = ms \<or> msgs = ms @ [MsgRequest peer (pr_Nonce pf)]"
    using H ne RetrieveMissingChunks_result [OF R] by (auto split: sum.splits if_splits)
  with RetrieveMissingChunks_result [OF R] obtain e b where
    "FindMissingChunks cr lib db f (pr_Nonce pf) (pr_Length pf) (pr_Begin pf) (pr_End pf) s = (None, e, s')"
    "rb_ToBytes lib (ev_GetMissingChunks e) = Some b" "ms = [MsgMaintain peer (pr_Nonce pf) b]" by blast
  with that [OF en sp pf c [unfolded peer] f] ms(3) show ?thesis by simp
qed

text \<open>
  C7: a node sends something in answer to a SNIPS proof only if SNIPS is enabled, the proof is
  signed, and the key that signed it belongs to the overlay address of the very peer that sent
  it, which lies in the neighbourhood of the node; and all it sends goes to this peer.
\<close>

theorem handlerIncomingProof_sound:
  assumes "handlerIncomingProof cr lib keys depth exm exr db peer msg s = ((r, msgs), s')" "m \<in> set msgs"
  shows "sn_Enabled s \<and> (\<exists>sp pf data pk. msg = Some sp \<and> sp_Proof sp = Some pf \<and> sk_marshal keys pf = Some data \<and>
      cr_recover cr (sp_Signature sp) data = Some pk \<and>
      NewOverlayAddress cr pk (sn_networkID s) (sp_BlockHash sp) = Inr peer \<and>
      depth \<le> Proximity (addr_bytes peer) (addr_bytes (sn_address s)) \<and>
      (m = MsgRequest peer (pr_Nonce pf) \<or> (\<exists>b. m = MsgMaintain peer (pr_Nonce pf) b)))"
proof -
  have "msgs \<noteq> []" using assms(2) by auto
  from handlerIncomingProof_cases [OF assms(1) this] obtain sp pf mphf b e where h: "sn_Enabled s"
    "msg = Some sp" "sp_Proof sp = Some pf" "snips_verifySignature cr keys depth sp s = Inr peer"
    "msgs = [MsgMaintain peer (pr_Nonce pf) b] \<or>
     msgs = [MsgMaintain peer (pr_Nonce pf) b, MsgRequest peer (pr_Nonce pf)]"
    by blast
  from verifySignature_cases [OF h(4)] h(3) obtain data pk where "sk_marshal keys pf = Some data"
    "cr_recover cr (sp_Signature sp) data = Some pk"
    "NewOverlayAddress cr pk (sn_networkID s) (sp_BlockHash sp) = Inr peer"
    "depth \<le> Proximity (addr_bytes peer) (addr_bytes (sn_address s))" by (metis option.inject)
  moreover have "m = MsgRequest peer (pr_Nonce pf) \<or> (\<exists>b. m = MsgMaintain peer (pr_Nonce pf) b)"
    using h(5) assms(2) by auto
  ultimately show ?thesis using h(1-3) by blast
qed

text \<open>
  a peer that lacks chunks and cannot open the stream to ask for them does not report the
  error: closing the nil stream, deferred before the error is looked at, panics. The same
  holds for a prover that cannot open the stream to hand over a chunk.
\<close>

theorem snips_stream_error_panics:
  assumes "FindMissingChunks cr lib db mphf (pr_Nonce pf) (pr_Length pf) (pr_Begin pf) (pr_End pf) s = (None, e, s')"
    and "1 \<in> set e" "rb_ToBytes lib (ev_GetMissingChunks e) \<noteq> None" "\<not> ex_stream ex"
    and "ch_stamp chunk \<noteq> None"
  shows "RetrieveMissingChunks cr lib ex db peer mphf pf s = ((Inl SnPanic, []), s') \<and>
    upload_loop (\<lambda>_. ex) peer (chunk # chunks) errs = (Inl SnPanic, [])"
proof -
  have "ev_GetMissingChunks e \<noteq> []"
    using assms(2) by (auto simp: ev_GetMissingChunks_def ev_select_def filter_empty_conv in_set_conv_nth)
  then show ?thesis using assms by (auto simp: RetrieveMissingChunks_def Let_def)
qed

section \<open>A round between two nodes\<close>

text \<open>The contract of the bitmap: a set of values is recovered in ascending order.\<close>

definition bitmap_contract :: "'f snips_lib \<Rightarrow> bool" where
  "bitmap_contract lib \<longleftrightarrow>
     (\<forall>xs b. sorted xs \<longrightarrow> distinct xs \<longrightarrow> rb_ToBytes lib xs = Some b \<longrightarrow> rb_ToArray lib b = Some xs)"

lemma missing_sorted:
  assumes "length e < 2 ^ 63"
  shows "sorted_wrt (<) (ev_GetMissingChunks e)"
proof -
  let ?xs = "filter (\<lambda>i. e ! i = 1) [0..<length e]"
  have u: "unat (of_nat (Suc i) :: u64) = Suc i" if "i < length e" for i
    using that assms by (simp add: unat_of_nat del: of_nat_Suc)
  have "sorted_wrt (\<lambda>i j. (of_nat (Suc i) :: u64) < of_nat (Suc j)) ?xs"
  proof (rule sorted_wrt_mono_rel [of _ "(<)"])
    fix i j assume "i \<in> set ?xs" "j \<in> set ?xs" "i < j"
    then show "(of_nat (Suc i) :: u64) < of_nat (Suc j)"
      unfolding word_less_nat_alt by (subst (1 2) u) simp_all
  qed (rule sorted_wrt_filter, simp)
  then show ?thesis by (simp add: ev_GetMissingChunks_def ev_select_def sorted_wrt_map)
qed

lemma ls_Get_stamp: "ls_Get mode a db = Inr c \<Longrightarrow> ch_stamp c \<noteq> None"
  by (auto simp: ls_Get_def WithStamp_def split: sum.splits)

lemma missing_chunks_stamps:
  "missing_chunks_loop db vals ms = Inr chunks \<Longrightarrow> c \<in> set chunks \<Longrightarrow> ch_stamp c \<noteq> None"
proof (induction ms arbitrary: chunks)
  case (Cons m ms)
  then show ?case using ls_Get_stamp
    by (fastforce split: option.splits sum.splits)
qed simp

definition delivery :: "address \<Rightarrow> stamp chunk \<Rightarrow> snips_msg" where
  "delivery addr c = MsgDelivery addr (addr_bytes (ch_addr c)) (ch_data c) (stamp_MarshalBinary (the (ch_stamp c)))"

lemma upload_loop_reliable:
  assumes "\<And>c. ex_stream (net c) \<and> ex_write (net c) \<and> ex_read (net c)" "\<forall>c \<in> set chunks. ch_stamp c \<noteq> None"
  shows "upload_loop net addr chunks errs = (Inr errs, map (delivery addr) chunks)"
  using assms(2) by (induction chunks arbitrary: errs) (auto simp: assms(1) delivery_def Let_def)

lemma FindMissing_length:
  assumes "FindMissingChunks cr lib db f nonce len mn mx s = (r, e, s')"
  shows "length e = unat len"
proof -
  have "length e' = length e" if "iter_chunks True (find_missing_chunk cr lib f nonce mn mx) db items (e, s) = (r, e', s')"
    for items e s e'
    using that
  proof (induction items arbitrary: e s)
    case (Cons item items)
    then show ?case
      by (auto simp: find_missing_chunk_def ev_Hit_def Let_def split: sum.splits if_splits prod.splits option.splits)
  qed simp
  from this show ?thesis
    using assms by (simp add: FindMissingChunks_def IterStoredChunks_def NewExpectedVals_def)
qed


section \<open>Blocks\<close>

lemma watch_block_emits:
  assumes "watch_block interval hdr (Some b) lastBlock = Inr (Some h, l)" "unat lastBlock + unat interval < 2 ^ 64"
  shows "l = b \<and> lastBlock < b - b mod interval \<and> b - b mod interval \<le> b \<and> b mod interval < interval \<and>
    hdr (b - b mod interval) = Some h \<and> (b - b mod interval) mod interval = 0"
proof -
  have i: "interval \<noteq> 0" and le: "lastBlock + interval \<le> b" and h: "hdr (b - b mod interval) = Some h" "l = b"
    using assms(1) by (auto simp: watch_block_def Let_def split: if_splits option.splits)
  have u: "unat (b - b mod interval) = unat b - unat b mod unat interval"
    by (simp add: unat_sub word_mod_less_divisor unat_mod word_le_nat_alt)
  have m: "unat b mod unat interval < unat interval" using i by (simp add: unat_gt_0)
  have l: "unat lastBlock + unat interval \<le> unat b"
    using le assms(2) by (simp add: word_le_nat_alt unat_plus_if')
  have "(unat b - unat b mod unat interval) mod unat interval = 0" by (simp add: minus_mod_eq_mult_div)
  then have "(b - b mod interval) mod interval = 0" by (simp add: word_unat_eq_iff unat_mod u)
  moreover have "lastBlock < b - b mod interval" "b - b mod interval \<le> b" "b mod interval < interval"
    using m l by (simp_all add: word_less_nat_alt word_le_nat_alt u unat_mod)
  ultimately show ?thesis using h by blast
qed

text \<open>
  the blocks a node makes proofs for, from the block numbers it polls: each is a multiple of
  the interval less than one interval behind the block that was polled, and they strictly
  increase, so that no block is proved twice. A multiple can be left out, however often the
  node polls: the next proof waits for a whole interval after the block of the last poll.
\<close>

theorem watch_blocks_increase:
  assumes "watch_blocks interval hdr bs lastBlock = Inr hs"
    and "unat interval < 2 ^ 63" "unat lastBlock < 2 ^ 63" "\<forall>b. Some b \<in> set bs \<longrightarrow> unat b < 2 ^ 63"
  shows "\<exists>ps. map Some hs = map hdr ps \<and> sorted_wrt (<) (lastBlock # ps) \<and>
    (\<forall>p \<in> set ps. p mod interval = 0 \<and> (\<exists>b. Some b \<in> set bs \<and> p \<le> b \<and> b - p < interval))"
  using assms
proof (induction bs arbitrary: lastBlock hs)
  case (Cons ob bs)
  obtain h l where w: "watch_block interval hdr ob lastBlock = Inr (h, l)"
    using Cons.prems(1) by (auto split: sum.splits)
  obtain hs1 where hs1: "watch_blocks interval hdr bs l = Inr hs1" "hs = (case h of None \<Rightarrow> hs1 | Some h \<Rightarrow> h # hs1)"
    using Cons.prems(1) w by (auto split: sum.splits)
  show ?case
  proof (cases h)
    case None
    then have "l = lastBlock" using w by (auto simp: watch_block_def Let_def split: option.splits if_splits)
    with Cons.IH [of lastBlock hs1] Cons.prems(2-4) hs1 None show ?thesis by fastforce
  next
    case (Some h')
    then obtain b where b: "ob = Some b" using w by (cases ob) (auto simp: watch_block_def)
    have e: "l = b \<and> lastBlock < b - b mod interval \<and> b - b mod interval \<le> b \<and> b mod interval < interval \<and>
        hdr (b - b mod interval) = Some h' \<and> (b - b mod interval) mod interval = 0"
      using Cons.prems(2,3) by (intro watch_block_emits w [unfolded b Some]) simp
    have "unat l < 2 ^ 63" using e Cons.prems(4) b by simp
    from Cons.IH [OF hs1(1) Cons.prems(2) this] Cons.prems(4) obtain ps where ps:
      "map Some hs1 = map hdr ps" "sorted_wrt (<) (l # ps)"
      "\<forall>p \<in> set ps. p mod interval = 0 \<and> (\<exists>b. Some b \<in> set bs \<and> p \<le> b \<and> b - p < interval)" by auto
    have "sorted_wrt (<) (lastBlock # (b - b mod interval) # ps)" using e ps(2) by fastforce
    moreover have "map Some hs = map hdr ((b - b mod interval) # ps)" using hs1(2) Some e ps(1) by simp
    moreover have "b - (b - b mod interval) < interval" using e by simp
    ultimately show ?thesis using e ps(3) b by (intro exI [of _ "(b - b mod interval) # ps"]) auto
  qed
qed simp

section \<open>Witnesses\<close>

text \<open>The exchange of \<open>Snips_Faults\<close>, with a prover whose overlay address is 9.\<close>

definition toy_keys :: snips_keys where
  "toy_keys = \<lparr>sk_sign = (\<lambda>_. Some []), sk_marshal = (\<lambda>_. Some [])\<rparr>"

definition toy_signed :: signed_proof where
  "toy_signed = \<lparr>sp_Proof = Some toy_proof, sp_Signature = [], sp_BlockHash = replicate 32 0\<rparr>"

definition good :: exchange where
  "good = \<lparr>ex_stream = True, ex_write = True, ex_read = True\<rparr>"

lemma toy_bitmap: "bitmap_contract toy_lib"
proof -
  have "unat v < 256 ^ 8" for v :: u64 using unsigned_less [of v, where 'a = nat] by simp
  then show ?thesis by (auto simp: bitmap_contract_def toy_lib_def split: list.splits)
qed

lemma toy_verify: "snips_verifySignature toy_cr toy_keys 0 toy_signed toy_node = Inr (NewAddress [9])"
  by (simp add: snips_verifySignature_def toy_signed_def toy_keys_def toy_cr_def NewOverlayAddress_def
      NewEthereumAddress_def NewOverlayFromEthereumAddress_def LegacyKeccak256_def)

lemma toy_missing: "ev_GetMissingChunks [1] = [1]" "\<not> ev_GotMissingAndDuplicate [1]"
  by (simp_all add: ev_GetMissingChunks_def ev_select_def ev_GotMissingAndDuplicate_def)

definition toy_reply :: "snips_msg list" where
  "toy_reply = [MsgMaintain (NewAddress [9]) 5 (be_of_nat 8 1)]"

lemma toy_handler:
  "handlerIncomingProof toy_cr toy_lib toy_keys 0 good good (toy_db 2) (NewAddress [9]) (Some toy_signed) toy_node =
     ((None, toy_reply), toy_node)"
proof -
  have "pr_Nonce toy_proof = 5" "sp_Proof toy_signed = Some toy_proof" "sn_Enabled toy_node"
    "rb_ToBytes toy_lib [1] = Some (be_of_nat 8 1)"
    by (simp_all add: toy_proof_def toy_signed_def toy_node_def snips_New_def toy_lib_def)
  then show ?thesis
    by (simp add: handlerIncomingProof_def toy_verify toy_unmarshal RetrieveMissingChunks_def toy_find toy_missing
        good_def toy_reply_def del: be_of_nat.simps)
qed

lemma handlerIncomingProof_sound_witness:
  "sn_Enabled toy_node \<and> NewOverlayAddress toy_cr () (sn_networkID toy_node) (replicate 32 0) = Inr (NewAddress [9])"
  using handlerIncomingProof_sound [OF toy_handler, of "MsgMaintain (NewAddress [9]) 5 (be_of_nat 8 1)"]
  by (auto simp: toy_reply_def toy_signed_def)

lemma snips_stream_error_panics_witness:
  "RetrieveMissingChunks toy_cr toy_lib (good\<lparr>ex_stream := False\<rparr>) (toy_db 2) (NewAddress [9]) [7] toy_proof toy_node =
     ((Inl SnPanic, []), toy_node)"
proof -
  let ?c = "(NewChunk (NewAddress [1]) [7])\<lparr>ch_stamp := Some \<lparr>s_batchID = [], s_index = [], s_timestamp = [], s_sig = []\<rparr>\<rparr>"
  have n: "pr_Nonce toy_proof = 5" by (simp add: toy_proof_def)
  have b: "rb_ToBytes toy_lib (ev_GetMissingChunks [1]) \<noteq> None" by (simp add: toy_missing toy_lib_def)
  have "1 \<in> set [1 :: 32 word]" "\<not> ex_stream (good\<lparr>ex_stream := False\<rparr>)" "ch_stamp ?c \<noteq> None" by simp_all
  from snips_stream_error_panics [OF toy_find [folded n] this(1) b this(2,3)] show ?thesis by blast
qed


lemma watch_blocks_increase_witness:
  "\<exists>ps. map Some [[10 :: byte], [30]] = map (\<lambda>n :: u64. Some [of_nat (unat n)]) ps \<and> sorted_wrt (<) (0 # ps) \<and>
     (\<forall>p \<in> set ps. p mod 10 = 0 \<and> (\<exists>b. Some b \<in> set [Some 19, None, Some 28, Some 30] \<and> p \<le> b \<and> b - p < 10))"
proof (rule watch_blocks_increase)
  show "watch_blocks 10 (\<lambda>n. Some [of_nat (unat n)]) [Some 19, None, Some 28, Some 30] 0 = Inr [[10], [30]]"
    by (simp add: watch_block_def)
qed auto

end
