(* ===== verification/Kademlia.thy ===== *)
theory Kademlia
  imports PSlice
begin

text \<open>
  \<open>pkg/topology/kademlia\<close>: the peers a node is connected to, its neighbourhood depth, and the
  choice of the peer closest to an address. Dialing peers, gossip and the metrics of the
  peers are left out; whether a peer is filtered out as unreachable is the parameter \<open>flt\<close>, the
  pluggable \<open>peerFilter\<close>. Each operation is one step.
\<close>

section \<open>Waiting times of peers (internal/waitnext)\<close>

record next_try =
  nt_tryAfter :: int
  nt_failedAttempts :: int

type_synonym waitnext = "bytes \<Rightarrow> next_try option"

definition wn_Set :: "address \<Rightarrow> int \<Rightarrow> int \<Rightarrow> waitnext \<Rightarrow> waitnext" where
  "wn_Set addr tryAfter attempts r =
     r (addr_bytes addr \<mapsto> \<lparr>nt_tryAfter = tryAfter, nt_failedAttempts = attempts\<rparr>)"

definition wn_SetTryAfter :: "address \<Rightarrow> int \<Rightarrow> waitnext \<Rightarrow> waitnext" where
  "wn_SetTryAfter addr tryAfter r =
     (case r (addr_bytes addr) of
        Some info \<Rightarrow> r (addr_bytes addr \<mapsto> info\<lparr>nt_tryAfter := tryAfter\<rparr>)
      | None \<Rightarrow> r (addr_bytes addr \<mapsto> \<lparr>nt_tryAfter = tryAfter, nt_failedAttempts = 0\<rparr>))"

definition wn_Waiting :: "int \<Rightarrow> address \<Rightarrow> waitnext \<Rightarrow> bool" where
  "wn_Waiting now addr r =
     (case r (addr_bytes addr) of None \<Rightarrow> False | Some info \<Rightarrow> now < nt_tryAfter info)"

definition wn_Attempts :: "address \<Rightarrow> waitnext \<Rightarrow> int" where
  "wn_Attempts addr r = (case r (addr_bytes addr) of None \<Rightarrow> 0 | Some info \<Rightarrow> nt_failedAttempts info)"

definition wn_Remove :: "address \<Rightarrow> waitnext \<Rightarrow> waitnext" where
  "wn_Remove addr r = r (addr_bytes addr := None)"

section \<open>State (kademlia.go)\<close>

datatype reachability = ReachUnknown | ReachPublic | ReachPrivate

datatype topology_error = ErrNotFound | ErrWantSelf | ErrOversaturated | ErrEmptyBin | ErrAnnounce

definition nnLowWatermark :: nat where "nnLowWatermark = 3"
definition saturationPeers :: int where "saturationPeers = 8"
definition timeToRetry :: int where "timeToRetry = 60000000000"

record kad =
  kad_base :: address
  kad_bitSuffixLength :: int
  kad_commonBinPrefixes :: "address list list"
  kad_connectedPeers :: pslice
  kad_knownPeers :: pslice
  kad_depth :: u8
  kad_storageRadius :: u8
  kad_bootnode :: bool
  kad_waitNext :: waitnext
  kad_reachability :: reachability
  kad_ignoreStorageDepth :: bool
  kad_staticNodes :: "address list"

definition kad_New :: "address \<Rightarrow> int \<Rightarrow> address list list \<Rightarrow> bool \<Rightarrow> address list \<Rightarrow> bool \<Rightarrow> kad" where
  "kad_New base suffix prefixes bootnode static ignoreRadius =
     \<lparr>kad_base = base, kad_bitSuffixLength = suffix, kad_commonBinPrefixes = prefixes,
      kad_connectedPeers = ps_New (unat MaxBins) base, kad_knownPeers = ps_New (unat MaxBins) base,
      kad_depth = 0, kad_storageRadius = MaxPO, kad_bootnode = bootnode, kad_waitNext = Map.empty,
      kad_reachability = ReachUnknown, kad_ignoreStorageDepth = ignoreRadius, kad_staticNodes = static\<rparr>"

type_synonym ('e, 's) each_fn = "address \<Rightarrow> u8 \<Rightarrow> 's \<Rightarrow> ('e + bool \<times> bool) \<times> 's"

section \<open>Iteration over the peers\<close>

definition NeighborhoodDepth :: "kad \<Rightarrow> u8" where
  "NeighborhoodDepth k = kad_depth k"

definition IsWithinDepth :: "kad \<Rightarrow> address \<Rightarrow> bool" where
  "IsWithinDepth k addr \<longleftrightarrow> Proximity (addr_bytes (kad_base k)) (addr_bytes addr) \<ge> NeighborhoodDepth k"

definition skip_unreachable :: "(address \<Rightarrow> bool) \<Rightarrow> bool \<Rightarrow> ('e, 's) each_fn \<Rightarrow> ('e, 's) each_fn" where
  "skip_unreachable flt reachable f =
     (\<lambda>addr po st. if reachable \<and> flt addr then (Inr (False, False), st) else f addr po st)"

definition EachPeer ::
  "(address \<Rightarrow> bool) \<Rightarrow> bool \<Rightarrow> ('s \<Rightarrow> kad) \<Rightarrow> ('e, 's) each_fn \<Rightarrow> 's \<Rightarrow> 'e option \<times> 's" where
  "EachPeer flt reachable get f st =
     ps_EachBin (kad_connectedPeers \<circ> get) (skip_unreachable flt reachable f) st"

definition EachPeerRev ::
  "(address \<Rightarrow> bool) \<Rightarrow> bool \<Rightarrow> ('s \<Rightarrow> kad) \<Rightarrow> ('e, 's) each_fn \<Rightarrow> 's \<Rightarrow> 'e option \<times> 's" where
  "EachPeerRev flt reachable get f st =
     ps_EachBinRev (kad_connectedPeers \<circ> get) (skip_unreachable flt reachable f) st"

definition EachNeighbor :: "('s \<Rightarrow> kad) \<Rightarrow> ('e, 's) each_fn \<Rightarrow> 's \<Rightarrow> 'e option \<times> 's" where
  "EachNeighbor get f st =
     (let depth = NeighborhoodDepth (get st) in
      ps_EachBin (kad_connectedPeers \<circ> get)
        (\<lambda>a po st. if po < depth then (Inr (True, False), st) else f a po st) st)"

definition EachNeighborRev :: "('s \<Rightarrow> kad) \<Rightarrow> ('e, 's) each_fn \<Rightarrow> 's \<Rightarrow> 'e option \<times> 's" where
  "EachNeighborRev get f st =
     (let depth = NeighborhoodDepth (get st) in
      ps_EachBinRev (kad_connectedPeers \<circ> get)
        (\<lambda>a po st. if po < depth then (Inr (False, True), st) else f a po st) st)"

definition PeersCount :: "kad \<Rightarrow> nat" where
  "PeersCount k = ps_Length (kad_connectedPeers k)"

definition binReachablePeers :: "(address \<Rightarrow> bool) \<Rightarrow> u8 \<Rightarrow> kad \<Rightarrow> address list" where
  "binReachablePeers flt bin k =
     snd (EachPeerRev flt True (\<lambda>_. k)
       (\<lambda>p po peers. if po = bin then (Inr (False, False), peers @ [p])
          else if po > bin then (Inr (True, False), peers)
          else (Inr (False, True), peers) :: (unit + bool \<times> bool) \<times> address list) [])"

section \<open>Depth\<close>

definition unsaturated_step :: "(address \<Rightarrow> bool) \<Rightarrow> (unit, u8 \<times> int) each_fn" where
  "unsaturated_step flt addr bin = (\<lambda>(shallowestUnsaturated, binCount).
     if flt addr then (Inr (False, False), (shallowestUnsaturated, binCount))
     else if bin = shallowestUnsaturated then (Inr (False, False), (shallowestUnsaturated, binCount + 1))
     else if bin > shallowestUnsaturated \<and> binCount < saturationPeers
     then (Inr (True, False), (shallowestUnsaturated, binCount))
     else (Inr (False, False), (bin, 1)))"

definition candidate_step :: "(address \<Rightarrow> bool) \<Rightarrow> (unit, nat \<times> u8) each_fn" where
  "candidate_step flt addr po = (\<lambda>(peersCtr, candidate).
     if flt addr then (Inr (False, False), (peersCtr, candidate))
     else if peersCtr + 1 \<ge> nnLowWatermark then (Inr (True, False), (peersCtr + 1, po))
     else (Inr (False, False), (peersCtr + 1, candidate)))"

definition recalcDepth :: "(address \<Rightarrow> bool) \<Rightarrow> kad \<Rightarrow> kad" where
  "recalcDepth flt k =
     (let peers = kad_connectedPeers k in
      if ps_Length peers \<le> nnLowWatermark then k\<lparr>kad_depth := 0\<rparr>
      else
        let depth = fst (snd (ps_EachBinRev (\<lambda>_. peers) (unsaturated_step flt) (0, 0)));
            (shallowestEmpty, noEmptyBins) = ps_ShallowestEmpty peers;
            depth = (if \<not> noEmptyBins \<and> shallowestEmpty < depth then shallowestEmpty else depth);
            candidate = snd (snd (ps_EachBin (\<lambda>_. peers) (candidate_step flt) (0, 0)));
            depth = (if kad_storageRadius k < depth \<and> \<not> kad_ignoreStorageDepth k
                     then kad_storageRadius k else depth);
            depth = (if depth > candidate then candidate else depth)
        in k\<lparr>kad_depth := depth\<rparr>)"

section \<open>Changes of the topology\<close>

definition AddPeers :: "address list \<Rightarrow> kad \<Rightarrow> kad" where
  "AddPeers addrs k = k\<lparr>kad_knownPeers := ps_Add addrs (kad_knownPeers k)\<rparr>"

text \<open>\<open>announced\<close> is whether \<open>Announce\<close> succeeded.\<close>

definition onConnected ::
  "(address \<Rightarrow> bool) \<Rightarrow> bool \<Rightarrow> address \<Rightarrow> kad \<Rightarrow> topology_error option \<times> kad" where
  "onConnected flt announced addr k =
     (if \<not> announced then (Some ErrAnnounce, k)
      else
        let k = k\<lparr>kad_knownPeers := ps_Add [addr] (kad_knownPeers k)\<rparr>;
            k = k\<lparr>kad_connectedPeers := ps_Add [addr] (kad_connectedPeers k)\<rparr>;
            k = k\<lparr>kad_waitNext := wn_Remove addr (kad_waitNext k)\<rparr>
        in (None, recalcDepth flt k))"

definition kad_Disconnected :: "(address \<Rightarrow> bool) \<Rightarrow> int \<Rightarrow> address \<Rightarrow> kad \<Rightarrow> kad" where
  "kad_Disconnected flt now addr k =
     (let k = k\<lparr>kad_connectedPeers := ps_Remove addr (kad_connectedPeers k)\<rparr>;
          k = k\<lparr>kad_waitNext := wn_SetTryAfter addr (now + timeToRetry) (kad_waitNext k)\<rparr>
      in recalcDepth flt k)"

definition isStaticPeer :: "address list \<Rightarrow> address \<Rightarrow> bool" where
  "isStaticPeer staticNodes peer \<longleftrightarrow> (\<exists>addr \<in> set staticNodes. addr_Equal addr peer)"

definition binSaturated :: "int \<Rightarrow> (address \<Rightarrow> bool) \<Rightarrow> u8 \<Rightarrow> pslice \<Rightarrow> (address \<Rightarrow> bool) \<Rightarrow> bool" where
  "binSaturated oversaturationAmount staticNode bin connected flt =
     (snd (ps_EachBin (\<lambda>_. connected)
        (\<lambda>addr po size. (Inr (False, False),
           if po = bin \<and> \<not> flt addr \<and> \<not> staticNode addr then size + 1 else size)
           :: (unit + bool \<times> bool) \<times> int) 0) \<ge> oversaturationAmount)"

text \<open>\<open>rnd\<close> is the random index, below the number of candidates.\<close>

definition randomPeer :: "nat \<Rightarrow> u8 \<Rightarrow> kad \<Rightarrow> topology_error + address" where
  "randomPeer rnd bin k =
     (let peers = filter (\<lambda>p. \<not> isStaticPeer (kad_staticNodes k) p) (ps_BinPeers (kad_connectedPeers k) bin)
      in if length peers = 0 then Inl ErrEmptyBin else Inr (peers ! rnd))"

text \<open>
  \<open>late\<close> is whether the time to accept every connection is over, \<open>saturated\<close> the pluggable
  saturation function. The peer a bootnode kicks out is the second result; its disconnection
  comes back as a \<open>Disconnected\<close> of its own.
\<close>

definition kad_Connected ::
  "(address \<Rightarrow> bool) \<Rightarrow> bool \<Rightarrow> (u8 \<Rightarrow> bool) \<Rightarrow> nat \<Rightarrow> bool \<Rightarrow> bool \<Rightarrow> address \<Rightarrow> kad \<Rightarrow>
   topology_error option \<times> address option \<times> kad" where
  "kad_Connected flt late saturated rnd announced forceConnection address k =
     (if late \<and> saturated (Proximity (addr_bytes (kad_base k)) (addr_bytes address))
      then
        let po = Proximity (addr_bytes (kad_base k)) (addr_bytes address) in
        if kad_bootnode k then
          (case randomPeer rnd po k of
             Inl err \<Rightarrow> (Some err, None, k)
           | Inr randPeer \<Rightarrow> (let (r, k) = onConnected flt announced address k in (r, Some randPeer, k)))
        else if \<not> forceConnection then (Some ErrOversaturated, None, k)
        else (let (r, k) = onConnected flt announced address k in (r, None, k))
      else (let (r, k) = onConnected flt announced address k in (r, None, k)))"

text \<open>\<open>flt\<close> is the filter after the status has been recorded.\<close>

definition kad_Reachable :: "(address \<Rightarrow> bool) \<Rightarrow> reachability \<Rightarrow> kad \<Rightarrow> kad" where
  "kad_Reachable flt status k = (if status = ReachPublic then recalcDepth flt k else k)"

definition UpdateReachability :: "reachability \<Rightarrow> kad \<Rightarrow> kad" where
  "UpdateReachability status k = (if status = ReachUnknown then k else k\<lparr>kad_reachability := status\<rparr>)"

definition kad_SetStorageRadius :: "(address \<Rightarrow> bool) \<Rightarrow> u8 \<Rightarrow> kad \<Rightarrow> kad" where
  "kad_SetStorageRadius flt d k =
     (if kad_storageRadius k = d then k else recalcDepth flt (k\<lparr>kad_storageRadius := d\<rparr>))"

section \<open>The closest peer\<close>

definition closest_step :: "address \<Rightarrow> address list \<Rightarrow> (topology_error, address) each_fn" where
  "closest_step addr skipPeers peer po closest =
     (Inr (False, False),
      if MemberOf peer skipPeers then closest
      else if IsZero closest then peer
      else if Closer peer addr closest = Inr True then peer else closest)"

definition ClosestPeer ::
  "(address \<Rightarrow> bool) \<Rightarrow> address \<Rightarrow> bool \<Rightarrow> bool \<Rightarrow> address list \<Rightarrow> kad \<Rightarrow> topology_error + address" where
  "ClosestPeer flt addr includeSelf reachable skipPeers k =
     (if ps_Length (kad_connectedPeers k) = 0 then Inl ErrNotFound
      else
        let closest = (if includeSelf \<and> kad_reachability k = ReachPublic then kad_base k else ZeroAddress)
        in case EachPeerRev flt reachable (\<lambda>_. k) (closest_step addr skipPeers) closest of
             (Some err, _) \<Rightarrow> Inl err
           | (None, closest) \<Rightarrow>
               if IsZero closest then Inl ErrNotFound
               else if addr_Equal closest (kad_base k) then Inl ErrWantSelf
               else Inr closest)"

text \<open>\<open>closestPeer\<close> over any container of peers; an error of \<open>Closer\<close> ends it.\<close>

definition closestPeerFunc :: "address \<Rightarrow> (address \<Rightarrow> bool) \<Rightarrow> (swarm_error, address) each_fn" where
  "closestPeerFunc addr spf peer po closest =
     (if spf peer then (Inr (False, False), closest)
      else if IsZero closest then (Inr (False, False), peer)
      else
        case Closer peer addr closest of
          Inl err \<Rightarrow> (Inl err, closest)
        | Inr closer \<Rightarrow> (Inr (False, False), if closer then peer else closest))"

definition closestPeer :: "pslice \<Rightarrow> address \<Rightarrow> (address \<Rightarrow> bool) \<Rightarrow> address option" where
  "closestPeer peers addr spf =
     (case ps_EachBinRev (\<lambda>_. peers) (closestPeerFunc addr spf) ZeroAddress of
        (Some _, _) \<Rightarrow> None
      | (None, closest) \<Rightarrow> if IsZero closest then None else Some closest)"

fun nClosePeerInSlice :: "address list \<Rightarrow> address \<Rightarrow> (address \<Rightarrow> bool) \<Rightarrow> u8 \<Rightarrow> address \<times> bool" where
  "nClosePeerInSlice [] addr spf minPO = (ZeroAddress, False)"
| "nClosePeerInSlice (peer # peers) addr spf minPO =
     (if spf peer then nClosePeerInSlice peers addr spf minPO
      else if ExtendedProximity (addr_bytes peer) (addr_bytes addr) \<ge> minPO then (peer, True)
      else nClosePeerInSlice peers addr spf minPO)"

definition balancedSlotPeers :: "address \<Rightarrow> address list \<Rightarrow> int \<Rightarrow> kad \<Rightarrow> address list" where
  "balancedSlotPeers pseudoAddr peers po k =
     filter (\<lambda>peer. uint (ExtendedProximity (addr_bytes peer) (addr_bytes pseudoAddr)) \<ge>
               po + kad_bitSuffixLength k + 1) peers"

text \<open>\<open>None\<close> is the panic for a bin one past the last.\<close>

definition IsBalanced :: "u8 \<Rightarrow> kad \<Rightarrow> bool option" where
  "IsBalanced bin k =
     (if unat bin > length (kad_commonBinPrefixes k) then Some False
      else if unat bin = length (kad_commonBinPrefixes k) then None
      else Some (list_all (\<lambda>pseudoAddr.
             case closestPeer (kad_connectedPeers k) pseudoAddr (\<lambda>_. False) of
               None \<Rightarrow> False
             | Some peer \<Rightarrow>
                 \<not> uint (ExtendedProximity (addr_bytes peer) (addr_bytes pseudoAddr)) <
                   uint bin + kad_bitSuffixLength k + 1)
             (kad_commonBinPrefixes k ! unat bin)))"

end
