(* ===== verification/Kademlia_Props.thy ===== *)
theory Kademlia_Props
  imports Kademlia
begin

text \<open>
  The neighbourhood depth is what its definition asks for, and \<open>ClosestPeer\<close> answers the
  connected peer nearest to an address.
\<close>

section \<open>Iteration as a loop over the peers\<close>

text \<open>A callback that neither fails nor skips a bin sees the peers one after the other.\<close>

fun visits :: "('a \<Rightarrow> u8 \<Rightarrow> 's \<Rightarrow> bool \<times> 's) \<Rightarrow> ('a \<times> u8) list \<Rightarrow> 's \<Rightarrow> bool \<times> 's" where
  "visits g [] st = (False, st)"
| "visits g (v # vs) st =
     (case g (fst v) (snd v) st of (stop, st') \<Rightarrow> if stop then (True, st') else visits g vs st')"

lemma visits_append:
  "visits g (vs @ ws) st = (case visits g vs st of (stop, st') \<Rightarrow> if stop then (True, st') else visits g ws st')"
  by (induction vs arbitrary: st) (auto split: prod.splits)

definition bin_peers :: "pslice \<Rightarrow> nat \<Rightarrow> (address \<times> u8) list" where
  "bin_peers s i = map (\<lambda>p. (p, of_nat i)) (ps_peers s ! i)"

lemma each_peers_visits:
  assumes "\<And>p st. pf p i st = (Inr (fst (g p i st), False), snd (g p i st))"
  shows "each_peers pf i ps st =
    (case visits g (map (\<lambda>p. (p, i)) ps) st of (stop, st') \<Rightarrow> (if stop then FlowStop else FlowNext, st'))"
  by (induction ps arbitrary: st) (auto simp: assms split: prod.splits)

lemma each_bins_visits:
  assumes "\<And>p i st. pf p i st = (Inr (fst (g p i st), False), snd (g p i st))"
  shows "each_bins (\<lambda>_. s) pf is st = (None, snd (visits g (concat (map (bin_peers s) is)) st))"
  by (induction "is" arbitrary: st)
    (auto simp: each_peers_visits [where g = g] assms bin_peers_def visits_append split: prod.splits)

lemma visits_fold: "(\<And>p i st. g p i st = (False, h p st)) \<Longrightarrow> visits g vs st = (False, fold h (map fst vs) st)"
  by (induction vs arbitrary: st) auto

lemma bins_up:
  assumes "ps_ok s" and vs: "vs = concat (map (bin_peers s) [0..<ps_maxBins s])"
  shows "map fst vs = concat (ps_peers s)" "\<And>p i. (p, i) \<in> set vs \<longleftrightarrow> p \<in> ps_set s \<and> i = ps_po s (addr_bytes p)"
    "sorted_wrt (\<le>) (map snd vs)"
proof -
  have n: "length (ps_peers s) = ps_maxBins s" "ps_maxBins s \<le> 256" using assms(1) by (auto simp: ps_ok_def)
  show "map fst vs = concat (ps_peers s)"
    using ps_concat_bins [OF n(1)] by (simp add: vs map_concat bin_peers_def comp_def)
  show "(p, i) \<in> set vs \<longleftrightarrow> p \<in> ps_set s \<and> i = ps_po s (addr_bytes p)" for p i
  proof
    assume "(p, i) \<in> set vs"
    then obtain j where j: "j < ps_maxBins s" "p \<in> set (ps_peers s ! j)" "i = of_nat j"
      by (auto simp: vs bin_peers_def)
    then have "unat (ps_po s (addr_bytes p)) = j" using assms(1) by (auto simp: ps_ok_def)
    then show "p \<in> ps_set s \<and> i = ps_po s (addr_bytes p)" using j n by (auto simp: ps_set_nth)
  next
    assume p: "p \<in> ps_set s \<and> i = ps_po s (addr_bytes p)"
    then obtain j where j: "j < ps_maxBins s" "p \<in> set (ps_peers s ! j)" using n by (auto simp: ps_set_nth)
    then have "unat (ps_po s (addr_bytes p)) = j" using assms(1) by (auto simp: ps_ok_def)
    then have "i = of_nat j" using p by auto
    with j show "(p, i) \<in> set vs" by (auto simp: vs bin_peers_def)
  qed
  have "sorted_wrt (\<lambda>i j. (of_nat i :: u8) \<le> of_nat j) [0..<ps_maxBins s]"
    using n(2) by (intro sorted_wrt_mono_rel [OF _ sorted_wrt_upt]) (auto simp: word_le_nat_alt unat_of_nat)
  moreover have "sorted_wrt (\<lambda>i j. (of_nat i :: u8) \<le> of_nat j) is \<Longrightarrow>
      sorted (map snd (concat (map (bin_peers s) is)))" for "is"
  proof (induction "is")
    case (Cons i "is")
    have "sorted (map snd (bin_peers s i))" by (simp add: bin_peers_def comp_def sorted_replicate map_replicate_const)
    with Cons show ?case by (auto simp: sorted_append bin_peers_def)
  qed simp
  ultimately show "sorted (map snd vs)" unfolding vs by blast
qed


lemma bins_down:
  assumes "ps_ok s" and vs: "vs = concat (map (bin_peers s) (rev [0..<ps_maxBins s]))"
  shows "mset vs = mset (concat (map (bin_peers s) [0..<ps_maxBins s]))" "sorted_wrt (\<ge>) (map snd vs)"
proof -
  have "mset vs = mset (concat (rev (map (bin_peers s) [0..<ps_maxBins s])))" by (simp only: vs rev_map)
  then show "mset vs = mset (concat (map (bin_peers s) [0..<ps_maxBins s]))" by (simp only: mset_concat_rev)
  have n: "ps_maxBins s \<le> 256" using assms(1) by (auto simp: ps_ok_def)
  show "sorted_wrt (\<ge>) (map snd vs)" unfolding vs bin_peers_def
  proof (rule sorted_bins)
    have "sorted_wrt (\<lambda>i j. (of_nat j :: u8) \<ge> of_nat i) [0..<ps_maxBins s]"
      using n by (intro sorted_wrt_mono_rel [OF _ sorted_wrt_upt]) (auto simp: word_le_nat_alt unat_of_nat)
    then show "sorted_wrt (\<lambda>i j. (of_nat i :: u8) \<ge> of_nat j) (rev [0..<ps_maxBins s])" by (simp add: sorted_wrt_rev)
  qed
qed

section \<open>Depth\<close>

definition live :: "(address \<Rightarrow> bool) \<Rightarrow> u8 \<Rightarrow> (address \<times> u8) list \<Rightarrow> nat" where
  "live flt i vs = length (filter (\<lambda>(p, j). \<not> flt p \<and> j = i) vs)"

lemma live_simps [simp]:
  "live flt i [] = 0"
  "live flt i ((p, j) # vs) = (if \<not> flt p \<and> j = i then 1 else 0) + live flt i vs"
  by (simp_all add: live_def)

definition unsat_visit :: "(address \<Rightarrow> bool) \<Rightarrow> address \<Rightarrow> u8 \<Rightarrow> u8 \<times> int \<Rightarrow> bool \<times> (u8 \<times> int)" where
  "unsat_visit flt p i st = (case unsaturated_step flt p i st of
     (Inl _, st) \<Rightarrow> (False, st) | (Inr (stop, _), st) \<Rightarrow> (stop, st))"

lemma unsaturated_step_visit:
  "unsaturated_step flt p i st = (Inr (fst (unsat_visit flt p i st), False), snd (unsat_visit flt p i st))"
  by (auto simp: unsat_visit_def unsaturated_step_def split: prod.splits)

lemma unsat_visit_pair:
  "unsat_visit flt p i (sh, cnt) = (if flt p then (False, (sh, cnt)) else if i = sh then (False, (sh, cnt + 1))
     else if i > sh \<and> cnt < 8 then (True, (sh, cnt)) else (False, (i, 1)))"
  by (simp add: unsat_visit_def unsaturated_step_def saturationPeers_def)

lemma live_below: "\<forall>v \<in> set vs. i < snd v \<Longrightarrow> live flt i vs = 0"
  by (auto simp: live_def filter_empty_conv)

lemma unsat_visits:
  assumes "sorted (map snd vs)" "\<forall>v \<in> set vs. sh \<le> snd v"
    and "visits (unsat_visit flt) vs (sh, cnt) = (stop, (sh', cnt'))"
  shows "sh \<le> sh' \<and> (sh < sh' \<longrightarrow> 8 \<le> cnt + int (live flt sh vs)) \<and>
    (\<forall>i. sh < i \<and> i < sh' \<longrightarrow> live flt i vs = 0 \<or> 8 \<le> live flt i vs)"
  using assms
proof (induction vs arbitrary: sh cnt)
  case (Cons v vs)
  obtain p b where v: "v = (p, b)" by fastforce
  have srt: "sorted (map snd vs)" "\<forall>w \<in> set vs. b \<le> snd w" and b: "sh \<le> b" using Cons.prems by (auto simp: v)
  consider "flt p" | (same) "\<not> flt p" "b = sh" | (stop) "\<not> flt p" "b > sh" "cnt < 8"
    | (go) "\<not> flt p" "b > sh" "8 \<le> cnt" using b by fastforce
  then show ?case
  proof cases
    case 1
    then have "visits (unsat_visit flt) vs (sh, cnt) = (stop, (sh', cnt'))"
      using Cons.prems(3) by (simp add: v unsat_visit_pair)
    from Cons.IH [OF srt(1) _ this] Cons.prems(2) 1 show ?thesis by (simp add: v)
  next
    case same
    then have "visits (unsat_visit flt) vs (sh, cnt + 1) = (stop, (sh', cnt'))"
      using Cons.prems(3) by (simp add: v unsat_visit_pair)
    from Cons.IH [OF srt(1) _ this] Cons.prems(2) same show ?thesis by (auto simp: v)
  next
    case stop
    then show ?thesis using Cons.prems(3)
      by (auto simp: v unsat_visit_pair)
  next
    case go
    then have "unsat_visit flt p b (sh, cnt) = (False, (b, 1))" by (auto simp: unsat_visit_pair)
    then have "visits (unsat_visit flt) vs (b, 1) = (stop, (sh', cnt'))" using Cons.prems(3) by (simp add: v)
    note IH = Cons.IH [OF srt this]
    have "live flt i (v # vs) = 0 \<or> 8 \<le> live flt i (v # vs)" if "sh < i" "i < sh'" for i
    proof -
      consider "i < b" | "i = b" | "b < i" by fastforce
      then show ?thesis
      proof cases
        case 1
        then have "live flt i (v # vs) = 0" using srt(2) by (intro live_below) (auto simp: v)
        then show ?thesis ..
      next
        case 2
        then show ?thesis using IH that(2) go by (auto simp: v)
      next
        case 3
        then show ?thesis using IH that(2) by (auto simp: v)
      qed
    qed
    then show ?thesis using IH go by auto
  qed
qed simp

definition candidate_visit :: "(address \<Rightarrow> bool) \<Rightarrow> address \<Rightarrow> u8 \<Rightarrow> nat \<times> u8 \<Rightarrow> bool \<times> (nat \<times> u8)" where
  "candidate_visit flt p i st = (case candidate_step flt p i st of
     (Inl _, st) \<Rightarrow> (False, st) | (Inr (stop, _), st) \<Rightarrow> (stop, st))"

lemma candidate_step_visit:
  "candidate_step flt p i st = (Inr (fst (candidate_visit flt p i st), False), snd (candidate_visit flt p i st))"
  by (auto simp: candidate_visit_def candidate_step_def split: prod.splits)

lemma candidate_visit_pair:
  "candidate_visit flt p i (n, c) = (if flt p then (False, (n, c)) else if 3 \<le> n + 1 then (True, (n + 1, i))
     else (False, (n + 1, c)))"
  by (simp add: candidate_visit_def candidate_step_def nnLowWatermark_def)

lemma candidate_visits:
  assumes "sorted_wrt (\<ge>) (map snd vs)" "visits (candidate_visit flt) vs (n, 0) = (stop, (n', c))"
  shows "c = 0 \<or> c \<in> snd ` set vs \<and> 3 \<le> n + length (filter (\<lambda>(p, j). \<not> flt p \<and> c \<le> j) vs)"
  using assms
proof (induction vs arbitrary: n)
  case (Cons v vs)
  obtain p b where v: "v = (p, b)" by fastforce
  have srt: "sorted_wrt (\<ge>) (map snd vs)" "\<forall>w \<in> set vs. snd w \<le> b" using Cons.prems by (auto simp: v)
  consider "flt p" | "\<not> flt p" "3 \<le> n + 1" | "\<not> flt p" "n + 1 < 3" by linarith
  then show ?case
  proof cases
    case 1
    then have "visits (candidate_visit flt) vs (n, 0) = (stop, (n', c))"
      using Cons.prems(2) by (simp add: v candidate_visit_pair)
    from Cons.IH [OF srt(1) this] 1 show ?thesis by (auto simp: v)
  next
    case 2
    then show ?thesis using Cons.prems(2)
      by (auto simp: v candidate_visit_pair)
  next
    case 3
    then have "visits (candidate_visit flt) vs (n + 1, 0) = (stop, (n', c))"
      using Cons.prems(2) by (simp add: v candidate_visit_pair)
    from Cons.IH [OF srt(1) this] srt(2) 3 show ?thesis by (fastforce simp: v)
  qed
qed simp

text \<open>The reachable peers of a container with the orders that satisfy \<open>P\<close>.\<close>

definition alive :: "(address \<Rightarrow> bool) \<Rightarrow> pslice \<Rightarrow> (u8 \<Rightarrow> bool) \<Rightarrow> address set" where
  "alive flt s P = {p \<in> ps_set s. \<not> flt p \<and> P (ps_po s (addr_bytes p))}"

lemma alive_card:
  assumes "ps_ok s" "mset vs = mset (concat (map (bin_peers s) [0..<ps_maxBins s]))"
  shows "length (filter (\<lambda>(p, j). \<not> flt p \<and> P j) vs) = card (alive flt s P)"
proof -
  let ?ws = "concat (map (bin_peers s) [0..<ps_maxBins s])"
  note up = bins_up [OF assms(1) refl]
  have d: "distinct (map fst ?ws)" using ps_distinct_concat [OF assms(1)] by (simp only: up(1))
  let ?Q = "\<lambda>(p, j). \<not> flt p \<and> P j"
  have "length (filter ?Q vs) = length (filter ?Q ?ws)" using assms(2) by (metis mset_filter size_mset)
  also have "\<dots> = length (map fst (filter ?Q ?ws))" by (simp only: length_map)
  also have "\<dots> = card (set (map fst (filter ?Q ?ws)))"
    using distinct_card [OF distinct_map_filter [OF d]] by (rule sym)
  also have "set (map fst (filter ?Q ?ws)) = fst ` {v \<in> set ?ws. ?Q v}"
    unfolding list.set_map set_filter by (rule refl)
  also have "\<dots> = alive flt s P"
  proof (intro set_eqI iffI)
    fix p assume "p \<in> alive flt s P"
    then have p: "p \<in> ps_set s" "\<not> flt p" "P (ps_po s (addr_bytes p))" by (simp_all add: alive_def)
    show "p \<in> fst ` {v \<in> set ?ws. ?Q v}"
    proof (rule image_eqI)
      show "p = fst (p, ps_po s (addr_bytes p))" by simp
      show "(p, ps_po s (addr_bytes p)) \<in> {v \<in> set ?ws. ?Q v}"
        using p iffD2 [OF up(2), of p "ps_po s (addr_bytes p)"] by (intro CollectI conjI) simp_all
    qed
  next
    fix p assume "p \<in> fst ` {v \<in> set ?ws. ?Q v}"
    then obtain v where v: "v \<in> set ?ws" "?Q v" "p = fst v" by blast
    obtain q i where qi: "v = (q, i)" by (rule prod.exhaust)
    then have "q \<in> ps_set s \<and> i = ps_po s (addr_bytes q)" using v(1) by (intro iffD1 [OF up(2)]) simp
    then show "p \<in> alive flt s P" using v(2,3) qi by (simp add: alive_def)
  qed
  finally show ?thesis .
qed

text \<open>
  C12: the depth that \<open>recalcDepth\<close> sets: a depth above 0 has at least three reachable peers
  within it; every bin above the neighbourhood has a peer, and either it has at least eight
  reachable ones or all of its peers are unreachable (unreachable peers are left out when
  saturation is counted, but still make a bin non-empty, so such a bin bounds nothing); and the
  depth stays within the storage radius unless the radius is ignored. The package's documentation
  has a watermark of two, asks of the bins above the neighbourhood only that they are not empty,
  and does not mention reachability or the radius.
\<close>

theorem recalcDepth_sound:
  assumes "ps_ok (kad_connectedPeers k)" "recalcDepth flt k = k'" "s = kad_connectedPeers k"
  shows "(kad_depth k' \<noteq> 0 \<longrightarrow> 3 \<le> card (alive flt s (\<lambda>j. kad_depth k' \<le> j))) \<and>
    (\<forall>i < kad_depth k'. (\<exists>p \<in> ps_set s. ps_po s (addr_bytes p) = i) \<and>
       (8 \<le> card (alive flt s (\<lambda>j. j = i)) \<or> alive flt s (\<lambda>j. j = i) = {})) \<and>
    (\<not> kad_ignoreStorageDepth k \<longrightarrow> kad_depth k' \<le> kad_storageRadius k)"
proof (cases "ps_Length s \<le> nnLowWatermark")
  case True
  then show ?thesis using assms(2,3) by (auto simp: recalcDepth_def)
next
  case False
  let ?up = "concat (map (bin_peers s) [0..<ps_maxBins s])" and ?down = "concat (map (bin_peers s) (rev [0..<ps_maxBins s]))"
  have ok: "ps_ok s" using assms(1,3) by simp
  have n: "length (ps_peers s) = ps_maxBins s" "ps_maxBins s \<le> 256" using ok by (auto simp: ps_ok_def)
  have fin: "finite (alive flt s P)" for P by (simp add: alive_def ps_set_def)
  obtain stop sh cnt where vu: "visits (unsat_visit flt) ?up (0, 0) = (stop, (sh, cnt))" by (metis prod.exhaust)
  obtain stop' m c where vc: "visits (candidate_visit flt) ?down (0, 0) = (stop', (m, c))" by (metis prod.exhaust)
  obtain e none where se: "ps_ShallowestEmpty s = (e, none)" by fastforce
  let ?d1 = "if \<not> none \<and> e < sh then e else sh"
  let ?d2 = "if kad_storageRadius k < ?d1 \<and> \<not> kad_ignoreStorageDepth k then kad_storageRadius k else ?d1"
  have rev: "ps_EachBinRev (\<lambda>_. s) (unsaturated_step flt) (0, 0) = (None, (sh, cnt))"
    unfolding ps_EachBinRev_def each_bins_visits [where g = "unsat_visit flt", OF unsaturated_step_visit] vu by simp
  have dwn: "ps_EachBin (\<lambda>_. s) (candidate_step flt) (0, 0) = (None, (m, c))"
    unfolding ps_EachBin_def each_bins_visits [where g = "candidate_visit flt", OF candidate_step_visit] vc by simp
  have "k' = k\<lparr>kad_depth := if ?d2 > c then c else ?d2\<rparr>"
    using assms(2) unfolding recalcDepth_def Let_def assms(3) [symmetric] rev dwn se if_not_P [OF False]
      fst_conv snd_conv prod.case by (rule sym)
  then have d: "kad_depth k' = (if ?d2 > c then c else ?d2)" by simp
  have le: "kad_depth k' \<le> c" "kad_depth k' \<le> sh" "\<not> none \<Longrightarrow> kad_depth k' \<le> e"
    "\<not> kad_ignoreStorageDepth k \<Longrightarrow> kad_depth k' \<le> kad_storageRadius k"
    unfolding d by auto
  have A: "live flt i ?up = card (alive flt s (\<lambda>j. j = i))" for i
    unfolding live_def by (rule alive_card [OF ok refl])
  have "3 \<le> card (alive flt s (\<lambda>j. kad_depth k' \<le> j))" if "kad_depth k' \<noteq> 0"
  proof -
    have "c \<noteq> 0" using that le(1) by auto
    with candidate_visits [OF bins_down(2) [OF ok refl] vc]
    have "3 \<le> length (filter (\<lambda>(p, j). \<not> flt p \<and> c \<le> j) ?down)" by simp
    also have "\<dots> = card (alive flt s (\<lambda>j. c \<le> j))" by (rule alive_card [OF ok bins_down(1) [OF ok refl]])
    also have "\<dots> \<le> card (alive flt s (\<lambda>j. kad_depth k' \<le> j))"
      using le(1) by (intro card_mono fin) (auto simp: alive_def)
    finally show ?thesis .
  qed
  moreover have "(\<exists>p \<in> ps_set s. ps_po s (addr_bytes p) = i) \<and>
      (8 \<le> card (alive flt s (\<lambda>j. j = i)) \<or> alive flt s (\<lambda>j. j = i) = {})" if i: "i < kad_depth k'" for i
  proof
    have "i < sh" using i le(2) by (rule less_le_trans)
    moreover have "sorted (map snd ?up)" by (rule bins_up(3) [OF ok refl])
    ultimately have "live flt i ?up = 0 \<or> 8 \<le> live flt i ?up"
      using unsat_visits [OF _ _ vu] by (cases "i = 0") (auto simp: word_gt_0)
    then show "8 \<le> card (alive flt s (\<lambda>j. j = i)) \<or> alive flt s (\<lambda>j. j = i) = {}"
      unfolding A using fin by auto
    have "unat i < ps_maxBins s \<and> ps_peers s ! unat i \<noteq> []"
    proof (cases "find_index (\<lambda>p. p = []) (ps_peers s)")
      case None
      have "i < c" using i le(1) by (rule less_le_trans)
      then have "c \<noteq> 0" by auto
      then have "c \<in> snd ` set ?down" using candidate_visits [OF bins_down(2) [OF ok refl] vc] by blast
      then have "c \<in> snd ` set ?up" using mset_eq_setD [OF bins_down(1) [OF ok refl]] by simp
      then obtain q where "c = ps_po s (addr_bytes q)" using bins_up(2) [OF ok refl] by force
      then have "unat i < ps_maxBins s"
        using ps_po_less [OF ok] n(1) \<open>i < c\<close> by (metis less_trans word_less_nat_alt)
      then show ?thesis using None n(1) by (simp add: find_index_None)
    next
      case (Some l)
      from find_index_SomeD [OF this] have l: "l < length (ps_peers s)" "\<forall>j < l. ps_peers s ! j \<noteq> []" by auto
      from Some se have "e = of_nat l" "\<not> none" by (simp_all add: ps_ShallowestEmpty_def shallowest_loop_find)
      moreover have "unat (of_nat l :: u8) = l" using l n by (simp add: unat_of_nat)
      ultimately have "unat i < l" using i le(3) by (metis less_le_trans word_less_nat_alt)
      then show ?thesis using l n by simp
    qed
    then obtain p where p: "p \<in> set (ps_peers s ! unat i)" "unat i < ps_maxBins s"
      by (metis ex_in_conv set_empty)
    then have "unat (ps_po s (addr_bytes p)) = unat i" using ok by (auto simp: ps_ok_def)
    then show "\<exists>p \<in> ps_set s. ps_po s (addr_bytes p) = i" using p n(1)
      by (intro bexI [of _ p]) (auto simp: ps_set_nth word_unat_eq_iff)
  qed
  ultimately show ?thesis using le(4) by blast
qed

section \<open>The closest peer\<close>

text \<open>The distance of an address to the target, for addresses of the same length.\<close>

definition dist_to :: "address \<Rightarrow> address \<Rightarrow> nat" where
  "dist_to a p = be_to_nat (map2 (XOR) (addr_bytes p) (addr_bytes a))"

lemma Closer_dist:
  assumes "length (addr_bytes p) = length (addr_bytes a)" "length (addr_bytes q) = length (addr_bytes a)"
  shows "Closer p a q = Inr True \<longleftrightarrow> dist_to a p < dist_to a q"
proof -
  have "Distance (addr_bytes p) (addr_bytes a) = Inr (dist_to a p)" "Distance (addr_bytes q) (addr_bytes a) = Inr (dist_to a q)"
    using assms by (simp_all add: Distance_def DistanceRaw_def dist_to_def)
  from DistanceCmp_sgn [OF this] show ?thesis by (auto simp: Closer_def sgn_if)
qed

lemma dist_to_inj:
  assumes "length (addr_bytes p) = length (addr_bytes a)" "length (addr_bytes q) = length (addr_bytes a)"
    and "dist_to a p = dist_to a q"
  shows "p = q"
  using Distance_eq_iff [of "addr_bytes p" "addr_bytes a" "dist_to a p" "addr_bytes q"] assms
  by (intro address.expand) (simp add: Distance_def DistanceRaw_def dist_to_def)

lemma IsZero_iff: "IsZero p \<longleftrightarrow> addr_bytes p = []"
  by (cases p) (simp add: IsZero_def addr_Equal_def ZeroAddress_def)

definition closest_fold :: "address \<Rightarrow> (address \<Rightarrow> bool) \<Rightarrow> address \<Rightarrow> address \<Rightarrow> address" where
  "closest_fold a ign p c =
     (if ign p then c else if IsZero c then p else if Closer p a c = Inr True then p else c)"

lemma ClosestPeer_fold:
  "ClosestPeer flt a self reachable skip k =
     (if ps_Length (kad_connectedPeers k) = 0 then Inl ErrNotFound
      else let c = fold (closest_fold a (\<lambda>p. reachable \<and> flt p \<or> p \<in> set skip))
                 (map fst (concat (map (bin_peers (kad_connectedPeers k)) [0..<ps_maxBins (kad_connectedPeers k)])))
                 (if self \<and> kad_reachability k = ReachPublic then kad_base k else ZeroAddress)
           in if IsZero c then Inl ErrNotFound else if c = kad_base k then Inl ErrWantSelf else Inr c)"
proof -
  let ?g = "\<lambda>p i st. (False, closest_fold a (\<lambda>p. reachable \<and> flt p \<or> p \<in> set skip) p st)"
  have "skip_unreachable flt reachable (closest_step a skip) p i st =
      (Inr (fst (?g p i st), False), snd (?g p i st))" for p i st
    by (simp add: skip_unreachable_def closest_step_def closest_fold_def)
  note v = each_bins_visits [where g = ?g, OF this]
  have "visits ?g vs st = (False, fold (closest_fold a (\<lambda>p. reachable \<and> flt p \<or> p \<in> set skip)) (map fst vs) st)"
    for vs and st
    by (rule visits_fold) (rule refl)
  then show ?thesis
    by (simp add: ClosestPeer_def EachPeerRev_def ps_EachBinRev_def comp_def v Let_def)
qed

definition cands :: "(address \<Rightarrow> bool) \<Rightarrow> address list \<Rightarrow> address \<Rightarrow> address set" where
  "cands ign ps c = {p \<in> set ps. \<not> ign p} \<union> (if IsZero c then {} else {c})"

lemma closest_fold_result:
  assumes "\<forall>p \<in> set ps. length (addr_bytes p) = length (addr_bytes a)" "addr_bytes a \<noteq> []"
    and "IsZero c \<or> length (addr_bytes c) = length (addr_bytes a)"
  shows "if cands ign ps c = {} then IsZero (fold (closest_fold a ign) ps c)
    else fold (closest_fold a ign) ps c \<in> cands ign ps c \<and>
      (\<forall>q \<in> cands ign ps c. dist_to a (fold (closest_fold a ign) ps c) \<le> dist_to a q)"
  using assms(1,3)
proof (induction ps arbitrary: c)
  case (Cons p ps)
  have p: "length (addr_bytes p) = length (addr_bytes a)" "\<not> IsZero p" using Cons.prems assms(2)
    by (auto simp: IsZero_def ZeroAddress_def addr_Equal_def)
  let ?c = "closest_fold a ign p c"
  have c': "IsZero ?c \<or> length (addr_bytes ?c) = length (addr_bytes a)"
    using Cons.prems p by (auto simp: closest_fold_def)
  have IH: "if cands ign ps ?c = {} then IsZero (fold (closest_fold a ign) ps ?c)
    else fold (closest_fold a ign) ps ?c \<in> cands ign ps ?c \<and>
      (\<forall>q \<in> cands ign ps ?c. dist_to a (fold (closest_fold a ign) ps ?c) \<le> dist_to a q)"
    using Cons.prems by (intro Cons.IH c') simp
  let ?r = "fold (closest_fold a ign) ps ?c"
  have r: "fold (closest_fold a ign) (p # ps) c = ?r" by simp
  consider "ign p" | "\<not> ign p" "IsZero c" | (nearer) "\<not> ign p" "\<not> IsZero c" "dist_to a p < dist_to a c"
    | (keep) "\<not> ign p" "\<not> IsZero c" "dist_to a c \<le> dist_to a p" by linarith
  then show ?case
  proof cases
    case 1
    then have eq: "?c = c" "cands ign (p # ps) c = cands ign ps c" by (auto simp: closest_fold_def cands_def)
    show ?thesis using IH unfolding r unfolding eq .
  next
    case 2
    then have eq: "?c = p" "cands ign (p # ps) c = cands ign ps p" using p by (auto simp: closest_fold_def cands_def)
    show ?thesis using IH unfolding r unfolding eq .
  next
    case nearer
    then have "?c = p" using Closer_dist [OF p(1), of c] Cons.prems(2) by (simp add: closest_fold_def)
    moreover have "cands ign (p # ps) c = insert c (cands ign ps p)" "p \<in> cands ign ps p"
      using nearer p by (auto simp: cands_def)
    ultimately have eq: "?c = p" "cands ign (p # ps) c = insert c (cands ign ps p)" and ne: "cands ign ps p \<noteq> {}"
      and mem: "p \<in> cands ign ps p" by auto
    have "?r \<in> cands ign ps p" "\<forall>q \<in> cands ign ps p. dist_to a ?r \<le> dist_to a q"
      using IH unfolding eq if_not_P [OF ne] by (rule conjunct1, rule conjunct2)
    moreover from this(2) mem have "dist_to a ?r \<le> dist_to a p" by (rule bspec)
    then have "dist_to a ?r \<le> dist_to a c" using nearer(3) by linarith
    ultimately show ?thesis unfolding r eq by simp
  next
    case keep
    then have "?c = c" using Closer_dist [OF p(1), of c] Cons.prems(2) by (simp add: closest_fold_def)
    moreover have "cands ign (p # ps) c = insert p (cands ign ps c)" "c \<in> cands ign ps c"
      using keep by (auto simp: cands_def)
    ultimately have eq: "?c = c" "cands ign (p # ps) c = insert p (cands ign ps c)" and ne: "cands ign ps c \<noteq> {}"
      and mem: "c \<in> cands ign ps c" by auto
    have "?r \<in> cands ign ps c" "\<forall>q \<in> cands ign ps c. dist_to a ?r \<le> dist_to a q"
      using IH unfolding eq if_not_P [OF ne] by (rule conjunct1, rule conjunct2)
    moreover from this(2) mem have "dist_to a ?r \<le> dist_to a c" by (rule bspec)
    then have "dist_to a ?r \<le> dist_to a p" using keep(3) by linarith
    ultimately show ?thesis unfolding r eq by simp
  qed
qed (simp add: cands_def)

text \<open>
  C13: \<open>ClosestPeer\<close> answers the one peer, among the connected peers that are not skipped and,
  when asked for, reachable, that is nearest to the address, and a node that counts itself only
  when this peer is nearer than the node; it wants the chunk itself when no such peer is
  nearer; and without any candidate, or any connected peer at all, it answers that there is no
  peer.
\<close>

theorem ClosestPeer_nearest:
  assumes "ps_ok (kad_connectedPeers k)" "addr_bytes a \<noteq> []" "kad_base k \<notin> ps_set (kad_connectedPeers k)"
    and "\<forall>p \<in> insert (kad_base k) (ps_set (kad_connectedPeers k)). length (addr_bytes p) = length (addr_bytes a)"
    and "C = {p \<in> ps_set (kad_connectedPeers k). p \<notin> set skip \<and> \<not> (reachable \<and> flt p)}"
    and "own \<longleftrightarrow> self \<and> kad_reachability k = ReachPublic"
  shows "(case ClosestPeer flt a self reachable skip k of
      Inr p \<Rightarrow> p \<in> C \<and> (\<forall>q \<in> C - {p}. dist_to a p < dist_to a q) \<and> (own \<longrightarrow> dist_to a p < dist_to a (kad_base k))
    | Inl e \<Rightarrow> if e = ErrWantSelf then own \<and> (\<forall>q \<in> C. dist_to a (kad_base k) < dist_to a q)
        else e = ErrNotFound \<and> C = {} \<and> (own \<longrightarrow> ps_set (kad_connectedPeers k) = {}))"
proof -
  let ?s = "kad_connectedPeers k" and ?b = "kad_base k"
  let ?ps = "map fst (concat (map (bin_peers ?s) [0..<ps_maxBins ?s]))"
  let ?ign = "\<lambda>p. reachable \<and> flt p \<or> p \<in> set skip" and ?c0 = "if own then ?b else ZeroAddress"
  have ps: "set ?ps = ps_set ?s" unfolding bins_up(1) [OF assms(1) refl] by (simp add: ps_set_def)
  have zero: "IsZero ZeroAddress" "\<not> IsZero ?b"
    using assms(2,4) by (auto simp: IsZero_iff ZeroAddress_def)
  have len: "ps_Length ?s = 0 \<longleftrightarrow> ps_set ?s = {}"
    using ps_Length_card [OF assms(1)] by (simp add: ps_set_def)
  define c where "c = fold (closest_fold a ?ign) ?ps ?c0"
  have eq: "ClosestPeer flt a self reachable skip k = (if ps_set ?s = {} then Inl ErrNotFound
      else if IsZero c then Inl ErrNotFound else if c = ?b then Inl ErrWantSelf else Inr c)"
    unfolding ClosestPeer_fold len c_def assms(6) Let_def by (rule refl)
  have "\<forall>p \<in> set ?ps. length (addr_bytes p) = length (addr_bytes a)" unfolding ps using assms(4) by blast
  moreover have "IsZero ?c0 \<or> length (addr_bytes ?c0) = length (addr_bytes a)" using zero assms(4) by simp
  ultimately have "if cands ?ign ?ps ?c0 = {} then IsZero c
    else c \<in> cands ?ign ?ps ?c0 \<and> (\<forall>q \<in> cands ?ign ?ps ?c0. dist_to a c \<le> dist_to a q)"
    unfolding c_def by (intro closest_fold_result assms(2))
  moreover have "cands ?ign ?ps ?c0 = C \<union> (if own then {?b} else {})"
    unfolding cands_def ps assms(5) using zero by auto
  ultimately have R: "if C \<union> (if own then {?b} else {}) = {} then IsZero c
    else c \<in> C \<union> (if own then {?b} else {}) \<and> (\<forall>q \<in> C \<union> (if own then {?b} else {}). dist_to a c \<le> dist_to a q)"
    by (simp only:)
  have strict: "dist_to a p < dist_to a q" if "dist_to a p \<le> dist_to a q" "p \<noteq> q"
    "p \<in> insert ?b (ps_set ?s)" "q \<in> insert ?b (ps_set ?s)" for p q
    using dist_to_inj [of p a q] that assms(4) by (metis le_neq_implies_less)
  have C: "C \<subseteq> ps_set ?s" "?b \<notin> C" using assms(3,5) by auto
  have nz: "\<not> IsZero p" if "p \<in> insert ?b (ps_set ?s)" for p
    using that assms(2,4) by (auto simp: IsZero_iff)
  show ?thesis
  proof (cases "ps_set ?s = {}")
    case True
    then show ?thesis using C by (simp add: eq)
  next
    case ne: False
    show ?thesis
    proof (cases "C \<union> (if own then {?b} else {}) = {}")
      case True
      then show ?thesis using R ne by (auto simp: eq split: if_splits)
    next
      case False
      have c: "c \<in> C \<union> (if own then {?b} else {})" "\<forall>q \<in> C \<union> (if own then {?b} else {}). dist_to a c \<le> dist_to a q"
        using R unfolding if_not_P [OF False] by (rule conjunct1, rule conjunct2)
      then have m: "c \<in> insert ?b (ps_set ?s)" using C by (auto split: if_splits)
      have lt: "dist_to a c < dist_to a q" if "q \<in> C \<union> (if own then {?b} else {})" "q \<noteq> c" for q
        using that c(2) C by (intro strict m) (auto split: if_splits)
      show ?thesis
      proof (cases "c = ?b")
        case True
        then show ?thesis using ne nz [OF m] lt c C by (auto simp: eq split: if_splits)
      next
        case False
        then show ?thesis using ne nz [OF m] lt c C by (auto simp: eq split: if_splits)
      qed
    qed
  qed
qed

lemma ClosestPeer_not_skipped:
  assumes "ClosestPeer flt a self reachable skip k = Inr p"
  shows "p \<notin> set skip"
proof -
  have "fold (closest_fold a ign) ps c = c \<or> \<not> ign (fold (closest_fold a ign) ps c)" for ign ps c
  proof (induction ps arbitrary: c)
    case (Cons q ps)
    have "closest_fold a ign q c = c \<or> closest_fold a ign q c = q \<and> \<not> ign q" by (simp add: closest_fold_def)
    with Cons.IH [of "closest_fold a ign q c"] show ?case by (metis fold_simps(2))
  qed simp
  note F = this
  let ?ign = "\<lambda>p. reachable \<and> flt p \<or> p \<in> set skip"
    and ?c = "if self \<and> kad_reachability k = ReachPublic then kad_base k else ZeroAddress"
  have "p \<noteq> kad_base k" "\<not> IsZero p" and ex: "\<exists>ps. fold (closest_fold a ?ign) ps ?c = p"
    using assms by (auto simp: ClosestPeer_fold Let_def split: if_splits)
  then have "p \<noteq> ?c" by (auto simp: IsZero_iff ZeroAddress_def)
  obtain ps where ps: "fold (closest_fold a ?ign) ps ?c = p" using ex by blast
  with F [where ign = ?ign and ps = ps and c = ?c] \<open>p \<noteq> ?c\<close> have "\<not> ?ign p" by simp
  then show ?thesis by blast
qed

section \<open>Witnesses\<close>

text \<open>
  A node with eight reachable peers in bin 0, one unreachable peer in bin 1 and four peers
  in bin 2: its depth is 2, although it reaches nobody in bin 1.
\<close>

definition toy_peers :: "address list" where
  "toy_peers = map (\<lambda>b. Address [b, 0, 0, 0]) [128, 129, 130, 131, 132, 133, 134, 135, 64, 32, 33, 34, 35]"

definition toy_kad :: kad where
  "toy_kad = (kad_New (Address [0, 0, 0, 0]) 4 [] False [] False)
     \<lparr>kad_connectedPeers := ps_Add toy_peers (ps_New 32 (Address [0, 0, 0, 0]))\<rparr>"

definition toy_flt :: "address \<Rightarrow> bool" where
  "toy_flt p \<longleftrightarrow> p = Address [64, 0, 0, 0]"

lemma toy_kad_ok: "ps_ok (kad_connectedPeers toy_kad)" "ps_set (kad_connectedPeers toy_kad) = set toy_peers"
  using ps_Add_spec [of "ps_New 32 (Address [0, 0, 0, 0])" toy_peers]
  by (simp_all add: toy_kad_def ps_New_ok toy_peers_def)

lemma toy_depth: "kad_depth (recalcDepth toy_flt toy_kad) = 2"
  by code_simp

lemma recalcDepth_sound_witness:
  "kad_depth (recalcDepth toy_flt toy_kad) = 2 \<and>
   3 \<le> card (alive toy_flt (kad_connectedPeers toy_kad) (\<lambda>j. 2 \<le> j)) \<and>
   (8 \<le> card (alive toy_flt (kad_connectedPeers toy_kad) (\<lambda>j. j = 1)) \<or>
    alive toy_flt (kad_connectedPeers toy_kad) (\<lambda>j. j = 1) = {})"
proof -
  have "(1 :: u8) < 2" by simp
  with recalcDepth_sound [OF toy_kad_ok(1) refl refl, of toy_flt] show ?thesis unfolding toy_depth by simp
qed

definition toy_two :: kad where
  "toy_two = (kad_New (Address [0, 0, 0, 0]) 4 [] False [] False)
     \<lparr>kad_connectedPeers := ps_Add [Address [1, 0, 0, 0], Address [128, 0, 0, 0]] (ps_New 32 (Address [0, 0, 0, 0]))\<rparr>"

lemma toy_two:
  "ps_ok (kad_connectedPeers toy_two)"
  "ps_set (kad_connectedPeers toy_two) = {Address [1, 0, 0, 0], Address [128, 0, 0, 0]}"
  "kad_base toy_two = Address [0, 0, 0, 0]" "kad_reachability toy_two = ReachUnknown"
  using ps_Add_spec [of "ps_New 32 (Address [0, 0, 0, 0])" "[Address [1, 0, 0, 0], Address [128, 0, 0, 0]]"]
  by (simp_all add: toy_two_def kad_New_def ps_New_ok)

lemma ClosestPeer_nearest_witness:
  "dist_to (Address [3, 0, 0, 0]) (Address [1, 0, 0, 0]) < dist_to (Address [3, 0, 0, 0]) (Address [128, 0, 0, 0])"
proof -
  let ?a = "Address [3, 0, 0, 0]" and ?C = "{Address [1, 0, 0, 0], Address [128, 0, 0, 0]}"
  have c: "ClosestPeer toy_flt ?a True True [] toy_two = Inr (Address [1, 0, 0, 0])" by code_simp
  have C: "?C = {p \<in> ps_set (kad_connectedPeers toy_two). p \<notin> set [] \<and> \<not> (True \<and> toy_flt p)}"
    by (auto simp: toy_two toy_flt_def)
  have "False \<longleftrightarrow> True \<and> kad_reachability toy_two = ReachPublic" by (simp add: toy_two)
  from ClosestPeer_nearest [OF toy_two(1) _ _ _ C this, of ?a, unfolded c]
  show ?thesis by (simp add: toy_two)
qed

end
