(* ===== verification/Pos.thy ===== *)
theory Pos
  imports Localstore Kademlia_Props
begin

text \<open>
  \<open>pkg/pos\<close>: proofs of storage for single chunks. A node that wants to know whether a chunk
  is still stored sends a challenge towards the chunk; the closest node answers with a signed
  hash of the chunk; a chunk nobody proves is uploaded again. The network is a parameter of the
  sender; the encoding of a proof is generated code, the encoding of keys a library.
\<close>

section \<open>The sender (sender/sender.go)\<close>

text \<open>What becomes of a request to one peer: not sent, sent without an answer, or answered.\<close>

datatype ('e, 'r) outcome = SendErr 'e | ReadErr 'e | Received 'r

datatype 'e send_error = SeTopology topology_error | SePeer address 'e | SeNotSent

type_synonym closest_peerer = "address \<Rightarrow> bool \<Rightarrow> address list \<Rightarrow> topology_error + address"
type_synonym ('e, 'r) peers_net = "address list \<Rightarrow> address \<Rightarrow> ('e, 'r) outcome"

record 'e sender =
  se_retries :: int
  se_lastErrors :: "(address \<times> 'e) list"

text \<open>\<open>net\<close> gives the outcome of the attempt that comes after the given skipped peers.\<close>

function send_loop ::
  "closest_peerer \<Rightarrow> ('e, 'r) peers_net \<Rightarrow> address \<Rightarrow> bool \<Rightarrow> int \<Rightarrow> address list \<Rightarrow> (address \<times> 'e) list \<Rightarrow>
   ('e send_error + 'r) \<times> (address \<times> 'e) list" where
  "send_loop closestPeerer net addr includeSelf retries skipPeers errs =
     (case closestPeerer addr includeSelf skipPeers of
        Inl err \<Rightarrow> (Inl (SeTopology err), errs)
      | Inr closest \<Rightarrow>
          (case net skipPeers closest of
             Received resp \<Rightarrow> (Inr resp, errs)
           | ReadErr err \<Rightarrow> (Inl (SePeer closest err), errs)
           | SendErr err \<Rightarrow>
               if retries - 1 < 0 then (Inl SeNotSent, errs @ [(closest, err)])
               else send_loop closestPeerer net addr includeSelf (retries - 1) (skipPeers @ [closest])
                      (errs @ [(closest, err)])))"
  by pat_completeness auto
termination by (relation "measure (\<lambda>(_, _, _, _, retries, _, _). nat retries)") auto

declare send_loop.simps [simp del]

definition SendClosest ::
  "closest_peerer \<Rightarrow> ('e, 'r) peers_net \<Rightarrow> address \<Rightarrow> bool \<Rightarrow> address list \<Rightarrow> 'e sender \<Rightarrow>
   ('e send_error + 'r) \<times> 'e sender" where
  "SendClosest closestPeerer net addr includeSelf skipPeers s =
     (let (r, errs) = send_loop closestPeerer net addr includeSelf (se_retries s) skipPeers []
      in (r, s\<lparr>se_lastErrors := errs\<rparr>))"

definition GetLastErrors :: "'e sender \<Rightarrow> (address \<times> 'e) list" where
  "GetLastErrors s = se_lastErrors s"

section \<open>Messages and keys\<close>

record challenge =
  chal_Nonce :: bytes
  chal_Address :: bytes

record pos_proof =
  pp_Challenge :: "challenge option"
  pp_Hash :: bytes

record response =
  rs_Proof :: "pos_proof option"
  rs_Signature :: bytes
  rs_BlockHash :: bytes

record 'k pos_keys =
  pk_public :: "'k option"
  pk_sign :: "bytes \<Rightarrow> bytes option"
  pk_encode :: "'k \<Rightarrow> bytes"
  pk_marshal :: "pos_proof \<Rightarrow> bytes option"

record pos =
  po_address :: address
  po_blockHash :: bytes
  po_networkID :: u64
  po_Enabled :: bool

datatype pos_error =
  PosPanic | PosStore ls_error | PosKey | PosMarshal | PosSign | PosAddress | PosSignature |
  PosOverlay | ErrInvalidProof | ErrMissingChunk | ErrShallowResponse | PosRead | PosDisabled |
  PosNotSent | PosWrite | PosTraverse

text \<open>The getters of the generated code, for a message field that may be nil.\<close>

definition GetChallenge :: "pos_proof option \<Rightarrow> challenge option" where
  "GetChallenge pf = (case pf of None \<Rightarrow> None | Some pf \<Rightarrow> pp_Challenge pf)"

definition chal_nonce :: "challenge option \<Rightarrow> bytes" where
  "chal_nonce c = (case c of None \<Rightarrow> [] | Some c \<Rightarrow> chal_Nonce c)"

definition chal_address :: "challenge option \<Rightarrow> bytes" where
  "chal_address c = (case c of None \<Rightarrow> [] | Some c \<Rightarrow> chal_Address c)"

section \<open>Making proofs (pos.go)\<close>

definition pos_genChunkProof :: "'k crypto \<Rightarrow> localdb \<Rightarrow> address \<Rightarrow> bytes \<Rightarrow> pos_error + bytes" where
  "pos_genChunkProof cr db addr nonce =
     (case ls_Get ModeGetRequest addr db of
        Inl err \<Rightarrow> Inl (PosStore err)
      | Inr c \<Rightarrow> Inr (cr_hasher cr (nonce @ ch_data c)))"

definition pos_createResponse :: "'k pos_keys \<Rightarrow> pos_proof \<Rightarrow> pos \<Rightarrow> pos_error + response" where
  "pos_createResponse keys pf s =
     (case pk_marshal keys pf of
        None \<Rightarrow> Inl PosMarshal
      | Some b \<Rightarrow>
          (case pk_sign keys b of
             None \<Rightarrow> Inl PosSign
           | Some sig \<Rightarrow> Inr \<lparr>rs_Proof = Some pf, rs_Signature = sig, rs_BlockHash = po_blockHash s\<rparr>))"

definition processChallenge ::
  "'k crypto \<Rightarrow> 'k pos_keys \<Rightarrow> localdb \<Rightarrow> challenge \<Rightarrow> pos \<Rightarrow> pos_error + response" where
  "processChallenge cr keys db chall s =
     (case pos_genChunkProof cr db (NewAddress (chal_Address chall)) (chal_Nonce chall) of
        Inl err \<Rightarrow> Inl err
      | Inr hash \<Rightarrow>
          (case pk_public keys of
             None \<Rightarrow> Inl PosKey
           | Some pubKey \<Rightarrow>
               let proofHash = cr_hasher cr (pk_encode keys pubKey @ hash)
               in pos_createResponse keys \<lparr>pp_Challenge = Some chall, pp_Hash = proofHash\<rparr> s))"

section \<open>Checking proofs\<close>

definition verifyProof ::
  "'k crypto \<Rightarrow> 'k pos_keys \<Rightarrow> localdb \<Rightarrow> address \<Rightarrow> 'k \<Rightarrow> pos_proof option \<Rightarrow> pos_error option" where
  "verifyProof cr keys db addr pk pf =
     (case pos_genChunkProof cr db addr (chal_nonce (GetChallenge pf)) of
        Inl err \<Rightarrow> Some err
      | Inr cp \<Rightarrow>
          let myProof = cr_hasher cr (pk_encode keys pk @ cp)
          in if myProof \<noteq> (case pf of None \<Rightarrow> [] | Some pf \<Rightarrow> pp_Hash pf) then Some ErrInvalidProof else None)"

text \<open>Marshalling a nil proof panics.\<close>

definition handleResponse ::
  "'k crypto \<Rightarrow> 'k pos_keys \<Rightarrow> u8 \<Rightarrow> localdb \<Rightarrow> address \<Rightarrow> response \<Rightarrow> pos \<Rightarrow> pos_error + address" where
  "handleResponse cr keys depth db chunkAddr resp s =
     (if \<not> addr_Equal chunkAddr (NewAddress (chal_address (GetChallenge (rs_Proof resp)))) then Inl PosAddress
      else
        case rs_Proof resp of
          None \<Rightarrow> Inl PosPanic
        | Some pf \<Rightarrow>
            (case pk_marshal keys pf of
               None \<Rightarrow> Inl PosMarshal
             | Some data \<Rightarrow>
                 (case cr_recover cr (rs_Signature resp) data of
                    None \<Rightarrow> Inl PosSignature
                  | Some pk \<Rightarrow>
                      (case NewOverlayAddress cr pk (po_networkID s) (rs_BlockHash resp) of
                         Inl _ \<Rightarrow> Inl PosOverlay
                       | Inr src \<Rightarrow>
                           (case verifyProof cr keys db chunkAddr pk (rs_Proof resp) of
                              Some err \<Rightarrow> Inl err
                            | None \<Rightarrow>
                                if Proximity (addr_bytes src) (addr_bytes chunkAddr) < depth
                                then Inl ErrShallowResponse else Inr src)))))"

section \<open>Answering challenges\<close>

text \<open>
  \<open>send\<close> is \<open>SendClosest\<close> for the challenge, including the node itself and skipping the peer
  it came from. The result is the error and the response written to the stream, if any.
\<close>

definition pos_handler ::
  "'k crypto \<Rightarrow> 'k pos_keys \<Rightarrow> localdb \<Rightarrow> (challenge \<Rightarrow> 'e send_error + response) \<Rightarrow> bool \<Rightarrow>
   challenge option \<Rightarrow> pos \<Rightarrow> pos_error option \<times> response option" where
  "pos_handler cr keys db send written msg s =
     (let reply = (\<lambda>resp. if written then (None, Some resp) else (Some PosWrite, None)) in
      case msg of
        None \<Rightarrow> (Some PosRead, None)
      | Some chall \<Rightarrow>
          (case send chall of
             Inr resp \<Rightarrow> reply resp
           | Inl (SeTopology err) \<Rightarrow>
               if err = ErrWantSelf then
                 if \<not> po_Enabled s then (Some PosDisabled, None)
                 else (case processChallenge cr keys db chall s of
                         Inl err \<Rightarrow> (Some err, None)
                       | Inr resp \<Rightarrow> reply resp)
               else (None, None)
           | Inl SeNotSent \<Rightarrow> (Some PosNotSent, None)
           | Inl (SePeer _ _) \<Rightarrow> (None, None)))"

section \<open>Uploading again\<close>

datatype status = statusErrored | statusProved | statusReuploaded

record chunk_status =
  cs_prover :: address
  cs_addr :: address
  cs_status :: status

text \<open>\<open>push\<close> is \<open>PushChunkToClosest\<close>: an error of the topology, another error, or success.\<close>

definition pushChunk ::
  "(stamp chunk \<Rightarrow> (topology_error + unit) option) \<Rightarrow> localdb \<Rightarrow> address \<Rightarrow> pos_error option" where
  "pushChunk push db chunkAddr =
     (case ls_Get ModeGetSync chunkAddr db of
        Inl err \<Rightarrow> Some (PosStore err)
      | Inr c \<Rightarrow>
          (case push c of
             None \<Rightarrow> None
           | Some (Inl err) \<Rightarrow> if err \<noteq> ErrWantSelf then Some PosNotSent else None
           | Some (Inr _) \<Rightarrow> Some PosNotSent))"

text \<open>\<open>key\<close> are the random bytes the nonce is made of; \<open>None\<close> when there are none.\<close>

definition generateNonce :: "'k crypto \<Rightarrow> bytes option \<Rightarrow> bytes option" where
  "generateNonce cr key = map_option (LegacyKeccak256 cr) key"

definition reuploadChunk ::
  "'k crypto \<Rightarrow> 'k pos_keys \<Rightarrow> u8 \<Rightarrow> localdb \<Rightarrow> (challenge \<Rightarrow> 'e send_error + response) \<Rightarrow>
   (stamp chunk \<Rightarrow> (topology_error + unit) option) \<Rightarrow> bytes option \<Rightarrow> pos \<Rightarrow> address \<Rightarrow> chunk_status" where
  "reuploadChunk cr keys depth db send push key s chunkAddr =
     (case generateNonce cr key of
        None \<Rightarrow> \<lparr>cs_prover = ZeroAddress, cs_addr = chunkAddr, cs_status = statusErrored\<rparr>
      | Some nonce \<Rightarrow>
          let req = \<lparr>chal_Nonce = nonce, chal_Address = addr_bytes chunkAddr\<rparr>;
              prover = (case send req of
                  Inr resp \<Rightarrow> (case handleResponse cr keys depth db chunkAddr resp s of
                                 Inl _ \<Rightarrow> None | Inr prover \<Rightarrow> Some prover)
                | Inl err \<Rightarrow>
                    if err = SeTopology ErrWantSelf \<and> ls_Has chunkAddr db then Some (po_address s) else None)
          in case prover of
               Some prover \<Rightarrow> \<lparr>cs_prover = prover, cs_addr = chunkAddr, cs_status = statusProved\<rparr>
             | None \<Rightarrow>
                 (case pushChunk push db chunkAddr of
                    Some _ \<Rightarrow> \<lparr>cs_prover = ZeroAddress, cs_addr = chunkAddr, cs_status = statusErrored\<rparr>
                  | None \<Rightarrow> \<lparr>cs_prover = ZeroAddress, cs_addr = chunkAddr, cs_status = statusReuploaded\<rparr>))"

record reupload_result =
  rr_Proved :: "bytes \<Rightarrow> address list"
  rr_Reuploaded :: "address list"
  rr_Errored :: "address list"

fun reupload_collect :: "chunk_status list \<Rightarrow> reupload_result \<Rightarrow> reupload_result" where
  "reupload_collect [] result = result"
| "reupload_collect (cs # css) result =
     reupload_collect css
       (case cs_status cs of
          statusErrored \<Rightarrow> result\<lparr>rr_Errored := rr_Errored result @ [cs_addr cs]\<rparr>
        | statusProved \<Rightarrow>
            let proverStr = addr_String (cs_prover cs)
            in result\<lparr>rr_Proved := (rr_Proved result) (proverStr := rr_Proved result proverStr @ [cs_addr cs])\<rparr>
        | statusReuploaded \<Rightarrow> result\<lparr>rr_Reuploaded := rr_Reuploaded result @ [cs_addr cs]\<rparr>)"

text \<open>
  The addresses the traversal of a file visits are \<open>visited\<close>, with \<open>False\<close> when it fails on the
  way; the chunks must all be in the store.
\<close>

fun addrs_loop :: "localdb \<Rightarrow> address list \<Rightarrow> address list \<Rightarrow> pos_error + address list" where
  "addrs_loop db [] addrs = Inr addrs"
| "addrs_loop db (addr # visited) addrs =
     (if \<not> ls_Has addr db then Inl ErrMissingChunk else addrs_loop db visited (addrs @ [addr]))"

definition getChunkAddrs :: "localdb \<Rightarrow> address list \<times> bool \<Rightarrow> pos_error + address list" where
  "getChunkAddrs db traversal =
     (case addrs_loop db (fst traversal) [] of
        Inl err \<Rightarrow> Inl err
      | Inr addrs \<Rightarrow> if snd traversal then Inr addrs else Inl PosTraverse)"

text \<open>
  \<open>Reupload\<close>: the chunks are handled in parallel, and \<open>order\<close> is the order in which their
  results arrive. \<open>send\<close>, \<open>push\<close> and \<open>key\<close> may differ from chunk to chunk.
\<close>

definition Reupload ::
  "(address \<Rightarrow> chunk_status) \<Rightarrow> localdb \<Rightarrow> address list \<times> bool \<Rightarrow> (chunk_status list \<Rightarrow> chunk_status list) \<Rightarrow>
   pos_error + reupload_result" where
  "Reupload handle db traversal order =
     (case getChunkAddrs db traversal of
        Inl err \<Rightarrow> Inl err
      | Inr addrs \<Rightarrow>
          Inr (reupload_collect (order (map handle addrs))
                 \<lparr>rr_Proved = (\<lambda>_. []), rr_Reuploaded = [], rr_Errored = []\<rparr>))"

end
