(* ===== verification/Pos_Props.thy ===== *)
theory Pos_Props
  imports Pos Snips_Faults
begin

text \<open>
  What an accepted proof of storage means, that an honest proof is accepted, that an old one is
  too, and that a request tries each peer at most once.
\<close>

section \<open>Trying peers\<close>

text \<open>All the sender needs of the topology: a peer to skip is not answered.\<close>

locale closest_peers =
  fixes closest :: closest_peerer
  assumes closest_new: "closest a own skip = Inr p \<Longrightarrow> p \<notin> set skip"
begin

lemma send_loop_tries:
  assumes "send_loop closest net a own n skip errs = (r, errs')"
  shows "\<exists>tried. errs' = errs @ tried \<and> distinct (map fst tried) \<and> set (map fst tried) \<inter> set skip = {} \<and>
    int (length tried) \<le> max 0 n + 1 \<and>
    (case r of
       Inr resp \<Rightarrow> \<exists>p. p \<notin> set skip \<union> set (map fst tried) \<and> net (skip @ map fst tried) p = Received resp
     | Inl (SePeer p e) \<Rightarrow> net (skip @ map fst tried) p = ReadErr e
     | Inl SeNotSent \<Rightarrow> int (length tried) = max 0 n + 1
     | Inl (SeTopology e) \<Rightarrow> closest a own (skip @ map fst tried) = Inl e)"
  using assms
proof (induction "nat n" arbitrary: n skip errs rule: less_induct)
  case less
  note step = less.prems [unfolded send_loop.simps [of closest net a own n skip errs]]
  show ?case
  proof (cases "closest a own skip")
    case (Inl e)
    then show ?thesis using step by (intro exI [of _ "[]"]) auto
  next
    case (Inr p)
    have p: "p \<notin> set skip" by (rule closest_new [OF Inr])
    show ?thesis
    proof (cases "net skip p")
      case (Received resp)
      then show ?thesis using step Inr p by (intro exI [of _ "[]"]) auto
    next
      case (ReadErr e)
      then show ?thesis using step Inr by (intro exI [of _ "[]"]) auto
    next
      case (SendErr e)
      show ?thesis
      proof (cases "n - 1 < 0")
        case True
        then show ?thesis using step Inr SendErr p by (intro exI [of _ "[(p, e)]"]) auto
      next
        case False
        then have "nat (n - 1) < nat n"
          and "send_loop closest net a own (n - 1) (skip @ [p]) (errs @ [(p, e)]) = (r, errs')"
          using step Inr SendErr by auto
        from less.hyps [OF this] obtain tried where t: "errs' = (errs @ [(p, e)]) @ tried"
          "distinct (map fst tried)" "set (map fst tried) \<inter> set (skip @ [p]) = {}"
          "int (length tried) \<le> max 0 (n - 1) + 1"
          "case r of
             Inr resp \<Rightarrow> \<exists>q. q \<notin> set (skip @ [p]) \<union> set (map fst tried) \<and> net ((skip @ [p]) @ map fst tried) q = Received resp
           | Inl (SePeer q e) \<Rightarrow> net ((skip @ [p]) @ map fst tried) q = ReadErr e
           | Inl SeNotSent \<Rightarrow> int (length tried) = max 0 (n - 1) + 1
           | Inl (SeTopology e) \<Rightarrow> closest a own ((skip @ [p]) @ map fst tried) = Inl e" by blast
        show ?thesis
        proof (intro exI [of _ "(p, e) # tried"] conjI)
          show "errs' = errs @ (p, e) # tried" using t(1) by simp
          show "distinct (map fst ((p, e) # tried))" using t(2,3) by auto
          show "set (map fst ((p, e) # tried)) \<inter> set skip = {}" using t(3) p by auto
          show "int (length ((p, e) # tried)) \<le> max 0 n + 1" using t(4) False by simp
        qed (use t(5) False in \<open>auto split: sum.splits send_error.splits\<close>)
      qed
    qed
  qed
qed

end

interpretation kad_closest: closest_peers "\<lambda>a own skip. ClosestPeer flt a own reachable skip k" for flt reachable k
  by unfold_locales (rule ClosestPeer_not_skipped)

text \<open>
  a request goes to the closest peers one after the other, to no peer twice and to none of
  the peers to skip, and to at most one more than \<open>retries\<close> peers; an answer is that of the
  first peer the request could be sent to, and it counts as not sent only when all of these
  peers could not be reached.
\<close>

theorem SendClosest_tries:
  assumes "SendClosest (\<lambda>a own skip. ClosestPeer flt a own reachable skip k) net a own skip s = (r, s')"
    and "tried = map fst (GetLastErrors s')"
  shows "distinct tried \<and> set tried \<inter> set skip = {} \<and> int (length tried) \<le> max 0 (se_retries s) + 1 \<and>
    (case r of
       Inr resp \<Rightarrow> \<exists>p. p \<notin> set skip \<union> set tried \<and> net (skip @ tried) p = Received resp
     | Inl (SePeer p e) \<Rightarrow> net (skip @ tried) p = ReadErr e
     | Inl SeNotSent \<Rightarrow> int (length tried) = max 0 (se_retries s) + 1
     | Inl (SeTopology e) \<Rightarrow> ClosestPeer flt a own reachable (skip @ tried) k = Inl e)"
proof -
  obtain errs where l: "send_loop (\<lambda>a own skip. ClosestPeer flt a own reachable skip k) net a own (se_retries s) skip [] =
      (r, errs)" "s' = s\<lparr>se_lastErrors := errs\<rparr>"
    using assms(1) by (auto simp: SendClosest_def split: prod.splits)
  have t: "tried = map fst errs" using assms(2) l(2) by (simp add: GetLastErrors_def)
  from kad_closest.send_loop_tries [OF l(1)] show ?thesis unfolding t length_map by simp
qed

section \<open>Proofs\<close>

text \<open>The hash a proof for a nonce and data has to carry when the key is \<open>pk\<close>.\<close>

definition proof_hash :: "'k crypto \<Rightarrow> 'k pos_keys \<Rightarrow> 'k \<Rightarrow> bytes \<Rightarrow> bytes \<Rightarrow> bytes" where
  "proof_hash cr keys pk nonce data = cr_hasher cr (pk_encode keys pk @ cr_hasher cr (nonce @ data))"

lemma handleResponse_cases:
  assumes "handleResponse cr keys depth db a resp s = Inr src"
  obtains pf ch pk data c where "rs_Proof resp = Some pf"
    "pk_marshal keys pf = Some data" "cr_recover cr (rs_Signature resp) data = Some pk"
    "NewOverlayAddress cr pk (po_networkID s) (rs_BlockHash resp) = Inr src"
    "ls_Get ModeGetRequest a db = Inr c" "addr_bytes a = chal_address (pp_Challenge pf)"
    "pp_Hash pf = proof_hash cr keys pk (chal_nonce (pp_Challenge pf)) (ch_data c)"
    "depth \<le> Proximity (addr_bytes src) (addr_bytes a)"
  using assms
  by (auto simp: handleResponse_def verifyProof_def pos_genChunkProof_def proof_hash_def GetChallenge_def NewAddress_def
      addr_Equal_def Let_def not_less split: if_splits option.splits sum.splits)

text \<open>
  C10: a response is accepted as a proof exactly when it is about the challenged chunk, the prover
  it is credited to signed it (its key, with the network and the block hash in the response, gives
  the overlay), it carries the hash of the challenger's own copy of the chunk under the nonce in
  the response, bound to the key of the prover, and the prover lies in the neighbourhood of the
  chunk.
\<close>

theorem handleResponse_sound:
  "handleResponse cr keys depth db a resp s = Inr src \<longleftrightarrow>
    (\<exists>pf data pk c. rs_Proof resp = Some pf \<and> pk_marshal keys pf = Some data \<and>
      cr_recover cr (rs_Signature resp) data = Some pk \<and>
      NewOverlayAddress cr pk (po_networkID s) (rs_BlockHash resp) = Inr src \<and>
      addr_bytes a = chal_address (pp_Challenge pf) \<and> ls_Get ModeGetRequest a db = Inr c \<and>
      pp_Hash pf = proof_hash cr keys pk (chal_nonce (pp_Challenge pf)) (ch_data c) \<and>
      depth \<le> Proximity (addr_bytes src) (addr_bytes a))" (is "?accepted \<longleftrightarrow> ?proof")
proof
  assume ?accepted
  then show ?proof using handleResponse_cases by metis
next
  assume ?proof
  moreover have a: "a = NewAddress x" if "addr_bytes a = x" for x
    using that by (cases a) (simp add: NewAddress_def)
  ultimately show ?accepted
    by (auto simp: handleResponse_def verifyProof_def pos_genChunkProof_def proof_hash_def GetChallenge_def
        addr_Equal_def Let_def not_less intro: a)
qed

text \<open>
  what \<open>processChallenge\<close> makes at a node that stores the chunk passes the check of the
  challenger, provided the node lies in the neighbourhood of the chunk.
\<close>

theorem processChallenge_accepted:
  assumes "processChallenge cr keys_p db_p \<lparr>chal_Nonce = nonce, chal_Address = addr_bytes a\<rparr> s_p = Inr resp"
    and "ls_Get ModeGetRequest a db_p = Inr c_p" "ls_Get ModeGetRequest a db = Inr c" "ch_data c_p = ch_data c"
    and "pk_public keys_p = Some pk" "\<And>d sig. pk_sign keys_p d = Some sig \<Longrightarrow> cr_recover cr sig d = Some pk"
    and "pk_encode keys_p = pk_encode keys" "pk_marshal keys_p = pk_marshal keys"
    and "NewOverlayAddress cr pk (po_networkID s) (po_blockHash s_p) = Inr src"
    and "depth \<le> Proximity (addr_bytes src) (addr_bytes a)"
  shows "handleResponse cr keys depth db a resp s = Inr src"
proof -
  let ?ch = "\<lparr>chal_Nonce = nonce, chal_Address = addr_bytes a\<rparr>"
  let ?pf = "\<lparr>pp_Challenge = Some ?ch, pp_Hash = proof_hash cr keys pk nonce (ch_data c)\<rparr>"
  have a: "NewAddress (addr_bytes a) = a" by (cases a) (simp add: NewAddress_def)
  have "pos_createResponse keys_p ?pf s_p = Inr resp"
    using assms(1,2,4,5,7) by (simp add: processChallenge_def pos_genChunkProof_def a proof_hash_def Let_def)
  then obtain data sig where r: "pk_marshal keys ?pf = Some data" "pk_sign keys_p data = Some sig"
    "resp = \<lparr>rs_Proof = Some ?pf, rs_Signature = sig, rs_BlockHash = po_blockHash s_p\<rparr>"
    using assms(8) by (auto simp: pos_createResponse_def split: option.splits)
  have "cr_recover cr sig data = Some pk" using r(2) assms(6) by blast
  then show ?thesis
    using r assms(3,9,10)
    by (simp add: handleResponse_def verifyProof_def pos_genChunkProof_def proof_hash_def GetChallenge_def a
        chal_address_def chal_nonce_def addr_Equal_def not_less)
qed

text \<open>
  C9: proofs can be replayed: the check reads the nonce from the response and never compares
  it with the nonce of the challenge. A response that was once accepted for a chunk is therefore
  taken as the proof for any later challenge of this chunk, whatever the nonce, whoever sends it
  and whether or not the prover still has the chunk, as long as the challenger still reads the
  same data for the chunk, is in the same network, and its neighbourhood depth is at most the
  proximity of the prover to the chunk.
\<close>

theorem pos_proof_replays:
  assumes "handleResponse cr keys depth db a resp s = Inr src"
    and "ls_Get ModeGetRequest a db = Inr c" "ls_Get ModeGetRequest a db' = Inr c'" "ch_data c' = ch_data c"
    and "po_networkID s' = po_networkID s" "depth' \<le> Proximity (addr_bytes src) (addr_bytes a)"
    and "key \<noteq> None" "\<And>nonce. send \<lparr>chal_Nonce = nonce, chal_Address = addr_bytes a\<rparr> = Inr resp"
  shows "reuploadChunk cr keys depth' db' send push key s' a =
    \<lparr>cs_prover = src, cs_addr = a, cs_status = statusProved\<rparr>"
proof -
  have v: "verifyProof cr keys db' a pk pf = verifyProof cr keys db a pk pf" for pk pf
    using assms(2-4) by (simp add: verifyProof_def pos_genChunkProof_def)
  have "handleResponse cr keys depth' db' a resp s' = Inr src"
    using assms(1) unfolding handleResponse_def v assms(5)
    using assms(6) by (auto split: if_splits option.splits sum.splits)
  with assms(7,8) show ?thesis by (auto simp: reuploadChunk_def generateNonce_def)
qed

section \<open>Uploading again\<close>

lemma addrs_loop_result:
  "addrs_loop db visited addrs = (if \<forall>a \<in> set visited. ls_Has a db then Inr (addrs @ visited) else Inl ErrMissingChunk)"
  by (induction visited arbitrary: addrs) auto

lemma reuploadChunk_addr [simp]: "cs_addr (reuploadChunk cr keys depth db send push key s a) = a"
  by (simp add: reuploadChunk_def Let_def split: option.splits)

lemma reupload_collect_result:
  "mset (rr_Errored (reupload_collect css r)) =
     mset (rr_Errored r) + image_mset cs_addr (filter_mset (\<lambda>cs. cs_status cs = statusErrored) (mset css)) \<and>
   mset (rr_Reuploaded (reupload_collect css r)) =
     mset (rr_Reuploaded r) + image_mset cs_addr (filter_mset (\<lambda>cs. cs_status cs = statusReuploaded) (mset css)) \<and>
   mset (rr_Proved (reupload_collect css r) p) =
     mset (rr_Proved r p) +
     image_mset cs_addr (filter_mset (\<lambda>cs. cs_status cs = statusProved \<and> addr_String (cs_prover cs) = p) (mset css))"
proof (induction css arbitrary: r)
  case (Cons cs css)
  show ?case by (cases "cs_status cs") (simp_all add: Cons.IH Let_def)
qed simp

text \<open>
  \<open>Reupload\<close> gives every chunk of the file to exactly one of its lists, the one of the result
  of its own challenge, in whatever order the results come in.
\<close>

theorem Reupload_partitions:
  assumes "Reupload (\<lambda>a. reuploadChunk cr keys depth db (send a) (push a) (key a) s a) db (addrs, True) order = Inr res"
    and "\<And>css. mset (order css) = mset css"
    and "status = (\<lambda>a. reuploadChunk cr keys depth db (send a) (push a) (key a) s a)"
  shows "mset (rr_Errored res) = filter_mset (\<lambda>a. cs_status (status a) = statusErrored) (mset addrs) \<and>
    mset (rr_Reuploaded res) = filter_mset (\<lambda>a. cs_status (status a) = statusReuploaded) (mset addrs) \<and>
    (\<forall>p. mset (rr_Proved res p) =
       filter_mset (\<lambda>a. cs_status (status a) = statusProved \<and> addr_String (cs_prover (status a)) = p) (mset addrs))"
proof -
  have "res = reupload_collect (order (map status addrs)) \<lparr>rr_Proved = (\<lambda>_. []), rr_Reuploaded = [], rr_Errored = []\<rparr>"
    using assms(1,3) by (auto simp: Reupload_def getChunkAddrs_def addrs_loop_result split: if_splits)
  moreover have "image_mset cs_addr (filter_mset P (mset (map status addrs))) = filter_mset (\<lambda>a. P (status a)) (mset addrs)"
    for P
    by (simp add: filter_mset_image_mset image_mset.compositionality comp_def assms(3))
  ultimately show ?thesis using reupload_collect_result [of "order (map status addrs)"]
    by (simp only: assms(2)) simp
qed

section \<open>Witnesses\<close>

text \<open>The store of \<open>Snips_Faults\<close> with the chunk 1, and a prover that holds it.\<close>

definition toy_pk :: "unit pos_keys" where
  "toy_pk = \<lparr>pk_public = Some (), pk_sign = (\<lambda>_. Some [3]), pk_encode = (\<lambda>_. [2]), pk_marshal = (\<lambda>pf. Some (pp_Hash pf))\<rparr>"

definition toy_pos :: pos where
  "toy_pos = \<lparr>po_address = NewAddress [5], po_blockHash = replicate 32 0, po_networkID = 1, po_Enabled = True\<rparr>"

definition toy_response :: response where
  "toy_response = \<lparr>rs_Proof = Some \<lparr>pp_Challenge = Some \<lparr>chal_Nonce = [4], chal_Address = [1]\<rparr>, pp_Hash = [2, 4, 7]\<rparr>,
     rs_Signature = [3], rs_BlockHash = replicate 32 0\<rparr>"

lemma toy_get: "\<exists>c. ls_Get ModeGetRequest (NewAddress [1]) (toy_db 1) = Inr c \<and> ch_data c = [7]"
proof -
  have "ls_read [0, 0, 0, 0, 0, 1, 0] (toy_db 1) = Inr [7]" by code_simp
  moreover have "ld_ix (toy_db 1) RetrievalData = [([1], zero_item\<lparr>it_Location := [0, 0, 0, 0, 0, 1, 0]\<rparr>)]"
    by (simp add: toy_db_def ls_New_def)
  ultimately show ?thesis
    by (simp add: ls_Get_def ls_get_def index_Get_def addressToItem_def zero_item_def item_Merge_def NewChunk_def
        WithStamp_def Let_def NewAddress_def)
qed

lemma toy_process:
  "processChallenge toy_cr toy_pk (toy_db 1) \<lparr>chal_Nonce = [4], chal_Address = addr_bytes (NewAddress [1])\<rparr> toy_pos =
     Inr toy_response"
  using toy_get
  by (auto simp: processChallenge_def pos_genChunkProof_def toy_pk_def toy_pos_def toy_response_def toy_cr_def
      pos_createResponse_def NewAddress_def)

lemma toy_overlay: "NewOverlayAddress toy_cr () 1 (replicate 32 0) = Inr (NewAddress [9])"
  by (simp add: toy_cr_def NewOverlayAddress_def NewEthereumAddress_def NewOverlayFromEthereumAddress_def
      LegacyKeccak256_def)

lemma processChallenge_accepted_witness:
  "handleResponse toy_cr toy_pk 0 (toy_db 1) (NewAddress [1]) toy_response toy_pos = Inr (NewAddress [9])"
proof -
  obtain c where c: "ls_Get ModeGetRequest (NewAddress [1]) (toy_db 1) = Inr c" using toy_get by blast
  show ?thesis
    by (rule processChallenge_accepted [OF toy_process c c refl])
      (simp_all add: toy_pk_def toy_pos_def toy_overlay, simp add: toy_cr_def)
qed

lemma toy_verifies: "verifyProof toy_cr toy_pk (toy_db 1) (NewAddress [1]) () (rs_Proof toy_response) = None"
  using toy_get
  by (auto simp: verifyProof_def pos_genChunkProof_def GetChallenge_def chal_nonce_def toy_response_def toy_pk_def toy_cr_def)

lemma toy_accepted: "handleResponse toy_cr toy_pk 0 (toy_db 1) (NewAddress [1]) toy_response toy_pos = Inr (NewAddress [9])"
proof -
  have "cr_recover toy_cr x y = Some ()" for x y by (simp add: toy_cr_def)
  moreover have "po_networkID toy_pos = 1" "rs_BlockHash toy_response = replicate 32 0"
    "\<exists>pf. rs_Proof toy_response = Some pf" "pk_marshal toy_pk pf = Some (pp_Hash pf)" for pf
    by (simp_all add: toy_pos_def toy_response_def toy_pk_def)
  moreover have "addr_Equal (NewAddress [1]) (NewAddress (chal_address (GetChallenge (rs_Proof toy_response))))"
    by (simp add: GetChallenge_def chal_address_def toy_response_def)
  ultimately show ?thesis using toy_verifies toy_overlay
    by (auto simp: handleResponse_def split: option.splits)
qed

lemma handleResponse_sound_witness: "ls_Has (NewAddress [1]) (toy_db 1) \<and> (\<exists>c. ls_Get ModeGetRequest (NewAddress [1]) (toy_db 1) = Inr c)"
  using toy_accepted [unfolded handleResponse_sound] by (auto simp: ls_Has_def index_Has_def ls_Get_def ls_get_def index_Get_def
      split: option.splits sum.splits)

text \<open>The challenger has put other chunks since, and its neighbourhood is deeper.\<close>

lemma pos_proof_replays_witness:
  "reuploadChunk toy_cr toy_pk 2 ((toy_db 1)\<lparr>ld_gcSize := 5\<rparr>) (\<lambda>_. Inr toy_response :: nat send_error + response) (\<lambda>_. None)
     (Some [8, 8]) (toy_pos\<lparr>po_Enabled := False\<rparr>) (NewAddress [1]) =
   \<lparr>cs_prover = NewAddress [9], cs_addr = NewAddress [1], cs_status = statusProved\<rparr>"
proof -
  obtain c where c: "ls_Get ModeGetRequest (NewAddress [1]) (toy_db 1) = Inr c" using toy_get by blast
  have "ls_read l ((toy_db 1)\<lparr>ld_gcSize := 5\<rparr>) = ls_read l (toy_db 1)" for l
    by (simp add: ls_read_def cong: sum.case_cong)
  then have "ls_get m a ((toy_db 1)\<lparr>ld_gcSize := 5\<rparr>) = ls_get m a (toy_db 1)" for m a
    by (simp add: ls_get_def cong: option.case_cong)
  then have c': "ls_Get ModeGetRequest (NewAddress [1]) ((toy_db 1)\<lparr>ld_gcSize := 5\<rparr>) = Inr c"
    using c by (simp add: ls_Get_def)
  have "2 \<le> Proximity (addr_bytes (NewAddress [9])) (addr_bytes (NewAddress [1]))" by code_simp
  then show ?thesis by (intro pos_proof_replays [OF toy_accepted c c']) simp_all
qed

lemma Reupload_partitions_witness:
  "\<exists>res. Reupload (\<lambda>a. reuploadChunk toy_cr toy_pk 0 (toy_db 1) (\<lambda>_. Inr toy_response :: nat send_error + response) (\<lambda>_. None)
       (Some [8, 8]) toy_pos a) (toy_db 1) ([NewAddress [1]], True) rev = Inr res \<and>
     mset (rr_Errored res) = {#}"
proof -
  have h: "ls_Has (NewAddress [1]) (toy_db 1)" by code_simp
  let ?st = "\<lambda>a. reuploadChunk toy_cr toy_pk 0 (toy_db 1) (\<lambda>_. Inr toy_response :: nat send_error + response) (\<lambda>_. None)
       (Some [8, 8]) toy_pos a"
  obtain res where r: "Reupload ?st (toy_db 1) ([NewAddress [1]], True) rev = Inr res"
    using h by (auto simp: Reupload_def getChunkAddrs_def)
  have "cs_status (?st (NewAddress [1])) = statusProved"
    by (simp add: reuploadChunk_def generateNonce_def toy_accepted)
  with r Reupload_partitions [OF r _ refl] show ?thesis by auto
qed

lemma SendClosest_tries_witness:
  "\<exists>r s'. SendClosest (\<lambda>a own skip. ClosestPeer toy_flt a own True skip toy_two) (\<lambda>_ _. SendErr () :: (unit, nat) outcome)
      (Address [3, 0, 0, 0]) False [] \<lparr>se_retries = 16, se_lastErrors = []\<rparr> = (r, s') \<and>
    distinct (map fst (GetLastErrors s')) \<and> length (GetLastErrors s') \<le> 17"
proof -
  obtain r s' where e: "SendClosest (\<lambda>a own skip. ClosestPeer toy_flt a own True skip toy_two)
      (\<lambda>_ _. SendErr () :: (unit, nat) outcome) (Address [3, 0, 0, 0]) False [] \<lparr>se_retries = 16, se_lastErrors = []\<rparr> = (r, s')"
    by (metis prod.exhaust)
  from SendClosest_tries [OF e refl] e show ?thesis by auto
qed

end
