(* ===== verification/Localstore_Ops.thy ===== *)
theory Localstore_Ops
  imports Localstore
begin

text \<open>
  The writes of \<open>pkg/localstore\<close>: \<open>put\<close> and \<open>set\<close>. They read the database as it was before,
  collect the changes in a batch, and write the batch. What the environment decides is in a
  record: the two readings of the clock, the shard that takes the blob, how many bytes the file
  system writes, and whether the caller gives up after the shard has taken it. Feeds of
  subscribers and metrics are left out.
\<close>

type_synonym batch = "batch_op list"

record put_env =
  pe_now :: u64
  pe_now2 :: u64
  pe_shard :: nat
  pe_written :: nat
  pe_lost :: bool

section \<open>Pinning and caching\<close>

definition setPin :: "localdb \<Rightarrow> item \<Rightarrow> batch \<Rightarrow> ls_error + batch \<times> int" where
  "setPin db item batch =
     (case ix_Get db PinIx item of
        Some i \<Rightarrow> Inr (ix_put db PinIx (item\<lparr>it_PinCounter := it_PinCounter i + 1\<rparr>) batch, 0)
      | None \<Rightarrow>
          let item = item\<lparr>it_PinCounter := 0\<rparr>
          in case ix_Get db RetrievalAccess item of
               None \<Rightarrow> Inr (ix_put db PinIx (item\<lparr>it_PinCounter := it_PinCounter item + 1\<rparr>) batch, 0)
             | Some i \<Rightarrow>
                 let item = item\<lparr>it_AccessTimestamp := it_AccessTimestamp i\<rparr>
                 in case ix_Get db RetrievalData item of
                      None \<Rightarrow> Inl LsNotFound
                    | Some i \<Rightarrow>
                        let item = item\<lparr>it_StoreTimestamp := it_StoreTimestamp i, it_BinID := it_BinID i\<rparr>;
                            batch = ix_del db GcIx item batch
                        in Inr (ix_put db PinIx (item\<lparr>it_PinCounter := it_PinCounter item + 1\<rparr>) batch, -1))"

definition withinRadius :: "localdb \<Rightarrow> item \<Rightarrow> bool" where
  "withinRadius db item \<longleftrightarrow> it_Radius item \<le> ls_po db (NewAddress (it_Address item))"

text \<open>The results are the batch and the changes of the two sizes.\<close>

definition preserveOrCache ::
  "localdb \<Rightarrow> item \<Rightarrow> bool \<Rightarrow> bool \<Rightarrow> batch \<Rightarrow> ls_error + batch \<times> int \<times> int" where
  "preserveOrCache db item forcePin forceCache batch =
     (if \<not> forceCache \<and> (withinRadius db item \<or> forcePin) then
        case setPin db item batch of
          Inl e \<Rightarrow> Inl e
        | Inr (batch, c) \<Rightarrow> Inr (batch, c, if \<not> forcePin then 1 else 0)
      else if ix_Has db PinIx item then Inr (batch, 0, 0)
      else if ix_Has db GcIx item then Inr (batch, 0, 0)
      else Inr (ix_put db GcIx item batch, 1, 0))"

section \<open>Removing\<close>

definition setRemove :: "localdb \<Rightarrow> item \<Rightarrow> bool \<Rightarrow> batch \<Rightarrow> ls_error + batch \<times> int" where
  "setRemove db item check batch =
     (let item = (if it_AccessTimestamp item = 0
                  then case ix_Get db RetrievalAccess item of
                         Some i \<Rightarrow> item\<lparr>it_AccessTimestamp := it_AccessTimestamp i\<rparr>
                       | None \<Rightarrow> item
                  else item)
      in case (if it_StoreTimestamp item = 0 \<or> it_Location item = []
               then ix_Get db RetrievalData item else Some item) of
           None \<Rightarrow> Inl LsNotFound
         | Some item \<Rightarrow>
             let batch = ix_del db RetrievalData item batch;
                 batch = ix_del db RetrievalAccess item batch;
                 batch = ix_del db PushIx item batch;
                 batch = ix_del db PullIx item batch;
                 batch = ix_del db PostageChunks item batch;
                 batch = ix_del db PostageIndex item batch
             in if check \<and> ix_Get db GcIx item = None then Inr (ix_del db PinIx item batch, 0)
                else Inr (ix_del db GcIx item batch, -1))"

section \<open>The parts of put (mode\_put.go)\<close>

text \<open>The batch, the map of bin ids, and the locations to release once the batch is written.\<close>

record put_batch =
  pb_batch :: batch
  pb_binIDs :: "(u8 \<times> u64) list"
  pb_release :: "location list"

definition incBinID :: "localdb \<Rightarrow> u8 \<Rightarrow> put_batch \<Rightarrow> u64 \<times> put_batch" where
  "incBinID db po pb =
     (let old = (case map_of (pb_binIDs pb) po of None \<Rightarrow> ld_binIDs db po | Some i \<Rightarrow> i)
      in (old + 1, pb\<lparr>pb_binIDs := (po, old + 1) # filter (\<lambda>(po', _). po' \<noteq> po) (pb_binIDs pb)\<rparr>))"

text \<open>\<open>Uint64\<close> panics on fewer than eight bytes.\<close>

definition later :: "item \<Rightarrow> item \<Rightarrow> ls_error + bool" where
  "later previous current =
     (if length (it_Timestamp previous) < 8 \<or> length (it_Timestamp current) < 8 then Inl LsPanic
      else Inr (be_to_nat (take 8 (it_Timestamp current)) > be_to_nat (take 8 (it_Timestamp previous))))"

text \<open>
  The chunk that has the stamp index of \<open>item\<close> is replaced if its timestamp is earlier;
  \<^theory_text>\<open>Inr None\<close> is the early return when it is not. The same lines stand in the three put
  operations; \<open>putUpload\<close> has no use for the change of the reserve.
\<close>

definition replacePrevious ::
  "localdb \<Rightarrow> item \<Rightarrow> put_batch \<Rightarrow> ls_error + (int \<times> int \<times> put_batch) option" where
  "replacePrevious db item pb =
     (case ix_Get db PostageIndex item of
        None \<Rightarrow> Inr (Some (0, 0, pb))
      | Some previous \<Rightarrow>
          if it_Immutable item then Inl LsOverwrite
          else case later previous item of
            Inl e \<Rightarrow> Inl e
          | Inr False \<Rightarrow> Inr None
          | Inr True \<Rightarrow>
              (case setRemove db previous True (pb_batch pb) of
                 Inl e \<Rightarrow> Inl e
               | Inr (batch, c) \<Rightarrow>
                   (case ix_Get db RetrievalData previous of
                      None \<Rightarrow> Inl LsNotFound
                    | Some previousIdx \<Rightarrow>
                        (case LocationFromBinary (it_Location previousIdx) of
                           Inl _ \<Rightarrow> Inl LsLocation
                         | Inr l \<Rightarrow>
                             let r = (case ix_Get db PostageRadius item of
                                        None \<Rightarrow> 0
                                      | Some radius \<Rightarrow>
                                          if ls_po db (NewAddress (it_Address item)) \<ge> it_Radius radius
                                          then -1 else 0)
                             in Inr (Some (c, r, pb\<lparr>pb_batch := batch,
                                                    pb_release := pb_release pb @ [l]\<rparr>))))))"

definition putRequest ::
  "localdb \<Rightarrow> put_env \<Rightarrow> item \<Rightarrow> bool \<Rightarrow> bool \<Rightarrow> put_batch \<Rightarrow> ls_error + bool \<times> int \<times> int \<times> put_batch" where
  "putRequest db env item forcePin forceCache pb =
     (case replacePrevious db item pb of
        Inl e \<Rightarrow> Inl e
      | Inr None \<Rightarrow> Inr (False, 0, 0, pb)
      | Inr (Some (c, r, pb)) \<Rightarrow>
          let item = item\<lparr>it_StoreTimestamp := pe_now env\<rparr>;
              (bin, pb) = incBinID db (ls_po db (NewAddress (it_Address item))) pb;
              item = item\<lparr>it_BinID := bin\<rparr>;
              batch = ix_put db RetrievalData item (pb_batch pb);
              batch = ix_put db PostageChunks item batch;
              batch = ix_put db PostageIndex item batch;
              item = item\<lparr>it_AccessTimestamp := pe_now2 env\<rparr>;
              batch = ix_put db RetrievalAccess item batch
          in case preserveOrCache db item forcePin forceCache batch of
               Inl e \<Rightarrow> Inl e
             | Inr (batch, c', r') \<Rightarrow>
                 let batch = (if \<not> forceCache then ix_put db PullIx item batch else batch)
                 in Inr (False, c + c', r + r', pb\<lparr>pb_batch := batch\<rparr>))"

definition putUpload ::
  "localdb \<Rightarrow> put_env \<Rightarrow> item \<Rightarrow> put_batch \<Rightarrow> ls_error + bool \<times> int \<times> put_batch" where
  "putUpload db env item pb =
     (case replacePrevious db item pb of
        Inl e \<Rightarrow> Inl e
      | Inr None \<Rightarrow> Inr (False, 0, pb)
      | Inr (Some (_, _, pb)) \<Rightarrow>
          let item = item\<lparr>it_StoreTimestamp := pe_now env\<rparr>;
              (bin, pb) = incBinID db (ls_po db (NewAddress (it_Address item))) pb;
              item = item\<lparr>it_BinID := bin\<rparr>;
              batch = ix_put db RetrievalData item (pb_batch pb);
              batch = ix_put db PullIx item batch;
              batch = ix_put db PushIx item batch;
              batch = ix_put db PostageIndex item batch;
              batch = ix_put db PostageChunks item batch
          in Inr (False, 0, pb\<lparr>pb_batch := batch\<rparr>))"

definition putSync ::
  "localdb \<Rightarrow> put_env \<Rightarrow> item \<Rightarrow> put_batch \<Rightarrow> ls_error + bool \<times> int \<times> int \<times> put_batch" where
  "putSync db env item pb =
     (case replacePrevious db item pb of
        Inl e \<Rightarrow> Inl e
      | Inr None \<Rightarrow> Inr (False, 0, 0, pb)
      | Inr (Some (_, r, pb)) \<Rightarrow>
          let item = item\<lparr>it_StoreTimestamp := pe_now env\<rparr>;
              (bin, pb) = incBinID db (ls_po db (NewAddress (it_Address item))) pb;
              item = item\<lparr>it_BinID := bin\<rparr>;
              batch = ix_put db RetrievalData item (pb_batch pb);
              batch = ix_put db PullIx item batch;
              batch = ix_put db PostageChunks item batch;
              batch = ix_put db PostageIndex item batch;
              item = item\<lparr>it_AccessTimestamp := pe_now2 env\<rparr>;
              batch = ix_put db RetrievalAccess item batch
          in case preserveOrCache db item False False batch of
               Inl e \<Rightarrow> Inl e
             | Inr (batch, c', r') \<Rightarrow> Inr (False, c', r + r', pb\<lparr>pb_batch := batch\<rparr>))"

datatype mode_put =
  ModePutRequest | ModePutSync | ModePutUpload | ModePutUploadPin | ModePutRequestPin | ModePutRequestCache

text \<open>\<open>put\<close> drops the error of \<open>setPin\<close> for an uploaded chunk.\<close>

definition put_op ::
  "mode_put \<Rightarrow> localdb \<Rightarrow> put_env \<Rightarrow> item \<Rightarrow> put_batch \<Rightarrow> ls_error + bool \<times> int \<times> int \<times> put_batch" where
  "put_op mode db env item pb =
     (let upload = (\<lambda>pin. case putUpload db env item pb of
            Inl e \<Rightarrow> Inl e
          | Inr (chExists, gcChange, pb) \<Rightarrow>
              (case (if pin then setPin db item (pb_batch pb) else Inr (pb_batch pb, 0)) of
                 Inl _ \<Rightarrow> Inr (chExists, gcChange, 0, pb)
               | Inr (batch, c2) \<Rightarrow> Inr (chExists, gcChange + c2, 0, pb\<lparr>pb_batch := batch\<rparr>)))
      in case mode of
           ModePutRequest \<Rightarrow> putRequest db env item False False pb
         | ModePutRequestPin \<Rightarrow> putRequest db env item True False pb
         | ModePutRequestCache \<Rightarrow> putRequest db env item False True pb
         | ModePutUpload \<Rightarrow> upload False
         | ModePutUploadPin \<Rightarrow> upload True
         | ModePutSync \<Rightarrow> putSync db env item pb)"

section \<open>put\<close>

text \<open>
  The goroutines of shard \<open>i\<close> get ready for a write. A shard that has quit takes none, and the
  caller waits until its context ends.
\<close>

definition shard_ready :: "shard \<Rightarrow> shard" where
  "shard_ready sh =
     (let sh = (case process_pop sh of None \<Rightarrow> sh | Some sh' \<Rightarrow> sh')
      in case process_take sh of None \<Rightarrow> sh | Some sh' \<Rightarrow> sh')"

definition db_Write :: "put_env \<Rightarrow> bytes \<Rightarrow> shard list \<Rightarrow> (sharky_error + location) \<times> shard list" where
  "db_Write env data shs =
     (let i = pe_shard env;
          shs = shs [i := shard_ready (shs ! i)]
      in case sharky_Write i (pe_written env) (pe_lost env) data shs of
           None \<Rightarrow> (Inl ErrContext, shs)
         | Some r \<Rightarrow> r)"

text \<open>\<^theory_text>\<open>Inr None\<close>: the chunk exists.\<close>

definition putSharky ::
  "localdb \<Rightarrow> put_env \<Rightarrow> item \<Rightarrow> shard list \<Rightarrow> (ls_error + location option) \<times> shard list" where
  "putSharky db env item shs =
     (if ix_Has db RetrievalData item then (Inr None, shs)
      else case db_Write env (it_Data item) shs of
             (Inl e, shs) \<Rightarrow> (Inl (LsSharky e), shs)
           | (Inr l, shs) \<Rightarrow> (Inr (Some l), shs))"

fun containsChunk :: "address \<Rightarrow> stamp chunk list \<Rightarrow> bool" where
  "containsChunk addr [] = False"
| "containsChunk addr (c # chs) = (if addr_Equal addr (ch_addr c) then True else containsChunk addr chs)"

record put_acc =
  pa_batch :: put_batch
  pa_committed :: "location list"
  pa_sharky :: "shard list"
  pa_exist :: "bool list"
  pa_gcSize :: int
  pa_reserveSize :: int

definition putChunk ::
  "mode_put \<Rightarrow> localdb \<Rightarrow> stamp chunk list \<Rightarrow> stamp chunk \<Rightarrow> put_env \<Rightarrow> put_acc \<Rightarrow>
   (ls_error + bool \<times> int \<times> int) \<times> put_acc" where
  "putChunk mode db before ch env acc =
     (if containsChunk (ch_addr ch) before then (Inr (True, 0, 0), acc)
      else case chunkToItem ch of
        None \<Rightarrow> (Inl LsPanic, acc)
      | Some item \<Rightarrow>
          (case putSharky db env item (pa_sharky acc) of
             (Inl e, shs) \<Rightarrow> (Inl e, acc\<lparr>pa_sharky := shs\<rparr>)
           | (Inr None, shs) \<Rightarrow> (Inr (True, 0, 0), acc\<lparr>pa_sharky := shs\<rparr>)
           | (Inr (Some loc), shs) \<Rightarrow>
               let acc = acc\<lparr>pa_sharky := shs, pa_committed := pa_committed acc @ [loc]\<rparr>;
                   item = item\<lparr>it_Location := location_MarshalBinary loc\<rparr>
               in case put_op mode db env item (pa_batch acc) of
                    Inl e \<Rightarrow> (Inl e, acc)
                  | Inr (exists, c, r, pb) \<Rightarrow> (Inr (exists, c, r), acc\<lparr>pa_batch := pb\<rparr>)))"

fun put_loop ::
  "mode_put \<Rightarrow> localdb \<Rightarrow> stamp chunk list \<Rightarrow> (stamp chunk \<times> put_env) list \<Rightarrow> put_acc \<Rightarrow>
   ls_error option \<times> put_acc" where
  "put_loop mode db before [] acc = (None, acc)"
| "put_loop mode db before ((ch, env) # rest) acc =
     (case putChunk mode db before ch env acc of
        (Inl e, acc) \<Rightarrow> (Some e, acc)
      | (Inr (exists, c, r), acc) \<Rightarrow>
          put_loop mode db (before @ [ch]) rest
            (acc\<lparr>pa_exist := pa_exist acc @ [exists], pa_gcSize := pa_gcSize acc + c,
                 pa_reserveSize := pa_reserveSize acc + r\<rparr>))"

text \<open>A change that would make the size negative is dropped.\<close>

definition incGCSizeInBatch :: "int \<Rightarrow> batch \<Rightarrow> localdb \<Rightarrow> batch \<times> localdb" where
  "incGCSizeInBatch change batch db =
     (if change = 0 then (batch, db)
      else if change < 0 \<and> nat (- change) > unat (ld_gcSize db) then (batch, db)
      else let newSize = ld_gcSize db + of_int change
           in (batch @ [BGcSize newSize],
               if newSize \<ge> ld_cacheCapacity db then db\<lparr>ld_gcTrigger := True\<rparr> else db))"

definition incReserveSizeInBatch :: "int \<Rightarrow> batch \<Rightarrow> localdb \<Rightarrow> batch \<times> localdb" where
  "incReserveSizeInBatch change batch db =
     (if change = 0 then (batch, db)
      else if change < 0 \<and> nat (- change) > unat (ld_reserveSize db) then (batch, db)
      else let newSize = ld_reserveSize db + of_int change
           in (batch @ [BReserveSize newSize],
               if newSize \<ge> ld_reserveCapacity db then db\<lparr>ld_reserveTrigger := True\<rparr> else db))"

text \<open>The check for one existing chunk, before \<open>batchMu\<close> is taken.\<close>

definition put_fast :: "mode_put \<Rightarrow> stamp chunk list \<Rightarrow> localdb \<Rightarrow> ls_error + bool" where
  "put_fast mode chs db =
     (if length chs = 1 \<and> mode \<noteq> ModePutRequestPin \<and> mode \<noteq> ModePutUploadPin then
        case chunkToItem (chs ! 0) of
          None \<Rightarrow> Inl LsPanic
        | Some item \<Rightarrow> Inr (ix_Has db RetrievalData item)
      else Inr False)"

definition sharky_Releases :: "location list \<Rightarrow> localdb \<Rightarrow> localdb" where
  "sharky_Releases ls db = db\<lparr>ld_sharky := fold sharky_Release ls (ld_sharky db)\<rparr>"

definition mark_dirty :: "address list \<Rightarrow> localdb \<Rightarrow> localdb" where
  "mark_dirty addrs db =
     (if ld_gcRunning db then db\<lparr>ld_dirtyAddresses := ld_dirtyAddresses db @ addrs\<rparr> else db)"

definition ls_put ::
  "mode_put \<Rightarrow> (stamp chunk \<times> put_env) list \<Rightarrow> bool \<Rightarrow> localdb \<Rightarrow> (ls_error + bool list) \<times> localdb" where
  "ls_put mode chs written db =
     (case put_fast mode (map fst chs) db of
        Inl e \<Rightarrow> (Inl e, db)
      | Inr True \<Rightarrow> (Inr [True], db)
      | Inr False \<Rightarrow>
          let db = mark_dirty (map (ch_addr \<circ> fst) chs) db
          in case put_loop mode db [] chs
                    \<lparr>pa_batch = \<lparr>pb_batch = [], pb_binIDs = [], pb_release = []\<rparr>, pa_committed = [],
                     pa_sharky = ld_sharky db, pa_exist = [], pa_gcSize = 0, pa_reserveSize = 0\<rparr> of
               (Some e, acc) \<Rightarrow>
                 (Inl e, sharky_Releases (if e = LsPanic then [] else pa_committed acc)
                           (db\<lparr>ld_sharky := pa_sharky acc\<rparr>))
             | (None, acc) \<Rightarrow>
                 let db = db\<lparr>ld_sharky := pa_sharky acc\<rparr>;
                     pb = pa_batch acc;
                     batch = pb_batch pb @ map (\<lambda>(po, i). BBinID po i) (pb_binIDs pb);
                     (batch, db) = incGCSizeInBatch (pa_gcSize acc) batch db;
                     (batch, db) = incReserveSizeInBatch (pa_reserveSize acc) batch db
                 in if \<not> written then (Inl LsBatch, sharky_Releases (pa_committed acc) db)
                    else (Inr (pa_exist acc), sharky_Releases (pb_release pb) (WriteBatch batch db)))"

section \<open>set (mode\_set.go)\<close>

definition setSync :: "localdb \<Rightarrow> u64 \<Rightarrow> address \<Rightarrow> batch \<Rightarrow> ls_error + batch \<times> int \<times> int" where
  "setSync db now addr batch =
     (let item = addressToItem addr
      in case ix_Get db RetrievalData item of
           None \<Rightarrow> Inr (ix_del db PushIx item batch, 0, 0)
         | Some i \<Rightarrow>
             let item = item\<lparr>it_StoreTimestamp := it_StoreTimestamp i, it_BinID := it_BinID i,
                             it_BatchID := it_BatchID i, it_Index := it_Index i,
                             it_Timestamp := it_Timestamp i\<rparr>;
                 batch = ix_del db PushIx item batch;
                 (item, batch) =
                   (case ix_Get db RetrievalAccess item of
                      None \<Rightarrow>
                        let item = item\<lparr>it_AccessTimestamp := now\<rparr>
                        in (item, ix_put db RetrievalAccess item batch)
                    | Some i1 \<Rightarrow> (item\<lparr>it_AccessTimestamp := it_AccessTimestamp i1\<rparr>, batch))
             in preserveOrCache db item False False batch)"

text \<open>The batch keeps what \<open>setUnpin\<close> put there before an error.\<close>

definition setUnpin :: "localdb \<Rightarrow> u64 \<Rightarrow> address \<Rightarrow> batch \<Rightarrow> ls_error option \<times> batch \<times> int" where
  "setUnpin db now addr batch =
     (let item = addressToItem addr
      in case ix_Get db PinIx item of
           None \<Rightarrow> (Some LsNotFound, batch, 0)
         | Some i \<Rightarrow>
             let item = item\<lparr>it_PinCounter := it_PinCounter i\<rparr>
             in if it_PinCounter item > 1
                then (None, ix_put db PinIx (item\<lparr>it_PinCounter := it_PinCounter item - 1\<rparr>) batch, 0)
                else
                  let batch = ix_del db PinIx item batch
                  in case ix_Get db RetrievalData item of
                       None \<Rightarrow> (Some LsNotFound, batch, 0)
                     | Some i \<Rightarrow>
                         let item = item\<lparr>it_StoreTimestamp := it_StoreTimestamp i,
                                         it_BinID := it_BinID i, it_BatchID := it_BatchID i\<rparr>
                         in if ix_Get db PushIx item \<noteq> None then (None, batch, 0)
                            else
                              let (item, batch) =
                                (case ix_Get db RetrievalAccess item of
                                   None \<Rightarrow>
                                     let item = item\<lparr>it_AccessTimestamp := now\<rparr>
                                     in (item, ix_put db RetrievalAccess item batch)
                                 | Some i \<Rightarrow> (item\<lparr>it_AccessTimestamp := it_AccessTimestamp i\<rparr>, batch))
                              in (None, ix_put db GcIx item batch, 1))"

datatype mode_set = ModeSetSync | ModeSetRemove | ModeSetPin | ModeSetUnpin

text \<open>One address: the batch, the locations to release and the changes of the sizes.\<close>

definition set_one ::
  "mode_set \<Rightarrow> localdb \<Rightarrow> u64 \<Rightarrow> address \<Rightarrow> batch \<Rightarrow> ls_error + batch \<times> location list \<times> int \<times> int" where
  "set_one mode db now addr batch =
     (case mode of
        ModeSetSync \<Rightarrow>
          (case setSync db now addr batch of
             Inl e \<Rightarrow> Inl e
           | Inr (batch, c, r) \<Rightarrow> Inr (batch, [], c, r))
      | ModeSetRemove \<Rightarrow>
          (case ix_Get db RetrievalData (addressToItem addr) of
             None \<Rightarrow> Inl LsNotFound
           | Some item \<Rightarrow>
               (case setRemove db item True batch of
                  Inl e \<Rightarrow> Inl e
                | Inr (batch, c) \<Rightarrow>
                    (case LocationFromBinary (it_Location item) of
                       Inl _ \<Rightarrow> Inl LsLocation
                     | Inr l \<Rightarrow> Inr (batch, [l], c, 0))))
      | ModeSetPin \<Rightarrow>
          (case setPin db (addressToItem addr) batch of
             Inl e \<Rightarrow> Inl e
           | Inr (batch, c) \<Rightarrow> Inr (batch, [], c, 0))
      | ModeSetUnpin \<Rightarrow>
          (case setUnpin db now addr batch of
             (Some e, _) \<Rightarrow> Inl e
           | (None, batch, c) \<Rightarrow> Inr (batch, [], c, 0)))"

text \<open>\<open>setSync\<close> and \<open>setUnpin\<close> read the clock for each address: the reading stands beside it.\<close>

fun set_loop ::
  "mode_set \<Rightarrow> localdb \<Rightarrow> (address \<times> u64) list \<Rightarrow> batch \<times> location list \<times> int \<times> int \<Rightarrow>
   ls_error + batch \<times> location list \<times> int \<times> int" where
  "set_loop mode db [] acc = Inr acc"
| "set_loop mode db ((addr, now) # addrs) (batch, ls, gc, res) =
     (case set_one mode db now addr batch of
        Inl e \<Rightarrow> Inl e
      | Inr (batch, l, c, r) \<Rightarrow> set_loop mode db addrs (batch, ls @ l, gc + c, res + r))"

definition ls_set ::
  "mode_set \<Rightarrow> (address \<times> u64) list \<Rightarrow> bool \<Rightarrow> localdb \<Rightarrow> ls_error option \<times> localdb" where
  "ls_set mode addrs written db =
     (let db = mark_dirty (map fst addrs) db
      in case set_loop mode db addrs ([], [], 0, 0) of
           Inl e \<Rightarrow> (Some e, db)
         | Inr (batch, ls, c, r) \<Rightarrow>
             let (batch, db) = incGCSizeInBatch c batch db;
                 (batch, db) = incReserveSizeInBatch r batch db
             in if \<not> written then (Some LsBatch, db)
                else (None, sharky_Releases ls (WriteBatch batch db)))"

end
