(* ===== verification/Localstore_GC.thy ===== *)
theory Localstore_GC
  imports Localstore_Ops Batch_Store
begin

text \<open>
  Access times, garbage collection of the cache and eviction from the reserve (mode\_get.go,
  gc.go, reserve.go). \<open>updateGC\<close> runs some time after the \<open>Get\<close> that starts it, and
  \<open>collectGarbage\<close> gives \<open>batchMu\<close> up between collecting candidates and removing them, so each
  is made of the steps between which other operations run. The products with 0.9, 0.5 and 0.1
  are floating point in the code; the integer quotients here agree with them below \<open>2 ^ 49\<close>.
\<close>

section \<open>updateGC (mode\_get.go)\<close>

definition updateGC :: "u64 \<Rightarrow> item \<Rightarrow> bool \<Rightarrow> localdb \<Rightarrow> ls_error option \<times> localdb" where
  "updateGC now item written db =
     (let db = mark_dirty [NewAddress (it_Address item)] db;
          item = (case ix_Get db RetrievalAccess item of
                    Some i \<Rightarrow> item\<lparr>it_AccessTimestamp := it_AccessTimestamp i\<rparr>
                  | None \<Rightarrow> item)
      in if it_AccessTimestamp item = 0 then (None, db)
         else
           let batch = ix_del db GcIx item [];
               g = ix_Get db GcIx item;
               item = item\<lparr>it_AccessTimestamp := now\<rparr>;
               batch = (case g of Some _ \<Rightarrow> ix_put db GcIx item batch | None \<Rightarrow> batch);
               batch = ix_put db RetrievalAccess item batch
           in if \<not> written then (Some LsBatch, db) else (None, WriteBatch batch db))"

section \<open>Garbage collection (gc.go)\<close>

definition gcTarget :: "localdb \<Rightarrow> u64" where
  "gcTarget db = of_nat (unat (ld_cacheCapacity db) * 9 div 10)"

definition gcBatchSize :: nat where "gcBatchSize = 10000"

text \<open>The worker takes a trigger, and \<open>collectGarbage\<close> starts the log of dirty addresses.\<close>

definition gc_start :: "localdb \<Rightarrow> localdb" where
  "gc_start db = db\<lparr>ld_gcTrigger := False, ld_gcRunning := True\<rparr>"

definition gc_stop :: "localdb \<Rightarrow> localdb" where
  "gc_stop db = db\<lparr>ld_gcRunning := False, ld_dirtyAddresses := []\<rparr>"

text \<open>\<^theory_text>\<open>None\<close>: the size is the target and the run is done.\<close>

definition gc_collect :: "localdb \<Rightarrow> item list option" where
  "gc_collect db =
     (if ld_gcSize db = gcTarget db then None
      else Some (take gcBatchSize (index_items (ld_ix db) GcIx [] [])))"

text \<open>The loop over the candidates, under \<open>batchMu\<close>; the first result is \<open>done\<close>.\<close>

fun gc_loop ::
  "localdb \<Rightarrow> item list \<Rightarrow> u64 \<Rightarrow> batch \<Rightarrow> location list \<Rightarrow>
   ls_error + bool \<times> u64 \<times> batch \<times> location list" where
  "gc_loop db [] evicted batch ls = Inr (False, evicted, batch, ls)"
| "gc_loop db (item # items) evicted batch ls =
     (if MemberOf (NewAddress (it_Address item)) (ld_dirtyAddresses db)
      then gc_loop db items evicted batch ls
      else if ld_gcSize db - evicted \<le> gcTarget db then Inr (True, evicted, batch, ls)
      else
        case ix_Get db RetrievalData item of
          None \<Rightarrow> Inl LsNotFound
        | Some i \<Rightarrow>
            let item = item\<lparr>it_Location := it_Location i\<rparr>;
                batch = ix_del db RetrievalData item batch;
                batch = ix_del db RetrievalAccess item batch;
                batch = ix_del db PushIx item batch;
                batch = ix_del db PullIx item batch;
                batch = ix_del db GcIx item batch;
                batch = ix_del db PostageChunks item batch;
                batch = ix_del db PostageIndex item batch
            in case LocationFromBinary (it_Location item) of
                 Inl _ \<Rightarrow> Inl LsLocation
               | Inr loc \<Rightarrow> gc_loop db items (evicted + 1) batch (ls @ [loc]))"

definition gc_finish :: "item list \<Rightarrow> bool \<Rightarrow> localdb \<Rightarrow> (ls_error + u64 \<times> bool) \<times> localdb" where
  "gc_finish candidates written db =
     (case gc_loop db candidates 0 [] [] of
        Inl e \<Rightarrow> (Inl e, gc_stop db)
      | Inr (dn, evicted, batch, ls) \<Rightarrow>
          let batch = batch @ [BGcSize (ld_gcSize db - evicted)]
          in if \<not> written then (Inl LsBatch, gc_stop db)
             else (Inr (evicted, dn), gc_stop (sharky_Releases ls (WriteBatch batch db))))"

text \<open>A run that is not done, or failed, triggers another one.\<close>

definition gc_retrigger :: "ls_error + u64 \<times> bool \<Rightarrow> localdb \<Rightarrow> localdb" where
  "gc_retrigger r db =
     (if (case r of Inl _ \<Rightarrow> True | Inr (_, dn) \<Rightarrow> \<not> dn) then db\<lparr>ld_gcTrigger := True\<rparr> else db)"

text \<open>A run of the worker that no other operation interrupts.\<close>

definition collectGarbageWorker :: "bool \<Rightarrow> localdb \<Rightarrow> (ls_error + u64 \<times> bool) \<times> localdb" where
  "collectGarbageWorker written db =
     (let db = gc_start db
      in case gc_collect db of
           None \<Rightarrow> (Inr (0, True), gc_stop db)
         | Some candidates \<Rightarrow>
             let (r, db) = gc_finish candidates written db in (r, gc_retrigger r db))"

section \<open>Eviction from the reserve (reserve.go, gc.go)\<close>

text \<open>
  The state is the database and what becomes of the next writes of batches: \<open>False\<close> fails,
  and all succeed once the list is used up. The clock is read once for each chunk.
\<close>

type_synonym evict_state = "localdb \<times> bool list"

definition try_write :: "batch \<Rightarrow> evict_state \<Rightarrow> bool \<times> evict_state" where
  "try_write batch st =
     (case snd st of
        [] \<Rightarrow> (True, WriteBatch batch (fst st), [])
      | w # ws \<Rightarrow> (w, if w then WriteBatch batch (fst st) else fst st, ws))"

definition unpinBatchSize :: nat where "unpinBatchSize = 10000"

text \<open>A chunk without a pin or without data is left; the deletion of its pin stays in the batch.\<close>

fun unpin_items ::
  "localdb \<Rightarrow> (address \<Rightarrow> u64) \<Rightarrow> item list \<Rightarrow> batch \<times> int \<times> u64 \<Rightarrow> ls_error + batch \<times> int \<times> u64" where
  "unpin_items db clk [] acc = Inr acc"
| "unpin_items db clk (item # items) (batch, gc, res) =
     (let addr = NewAddress (it_Address item)
      in case setUnpin db (clk addr) addr batch of
           (Some e, batch, c) \<Rightarrow>
             if e \<noteq> LsNotFound then Inl e else unpin_items db clk items (batch, gc + c, res)
         | (None, batch, c) \<Rightarrow> unpin_items db clk items (batch, gc + c, res + 1))"

text \<open>
  The chunks of a batch are unpinned in rounds. No round writes the index that is iterated, so
  a round that starts from \<open>startItem\<close> goes on in the same list.
\<close>

function unpin_rounds ::
  "(address \<Rightarrow> u64) \<Rightarrow> item list \<Rightarrow> u64 \<Rightarrow> evict_state \<Rightarrow> (ls_error + u64) \<times> evict_state" where
  "unpin_rounds clk items evicted st =
     (let db = fst st;
          rest = drop (unpinBatchSize + 1) items
      in case unpin_items db clk (take (unpinBatchSize + 1) items) ([], 0, 0) of
           Inl e \<Rightarrow> (Inl e, st)
         | Inr (batch, gc, res) \<Rightarrow>
             let (batch, db) = (if gc > 0 then incGCSizeInBatch gc batch db else (batch, db));
                 (batch, db) = (if res > 0 then incReserveSizeInBatch (- uint res) batch db else (batch, db));
                 (ok, st) = try_write batch (db, snd st)
             in if \<not> ok then (Inl LsBatch, st)
                else if rest = [] then (Inr (evicted + res), st)
                else unpin_rounds clk rest (evicted + res) st)"
  by pat_completeness auto
termination
  by (relation "measure (\<lambda>(clk, items, evicted, st). length items)") auto

declare unpin_rounds.simps [simp del]

definition unpinBatchChunks ::
  "(address \<Rightarrow> u64) \<Rightarrow> bytes \<Rightarrow> u8 \<Rightarrow> evict_state \<Rightarrow> (ls_error + u64) \<times> evict_state" where
  "unpinBatchChunks clk bid bin st =
     unpin_rounds clk (index_items (ld_ix (fst st)) PostageChunks (bid @ [bin]) (bid @ [bin])) 0 st"

text \<open>The loop over the bins from the old radius of the batch to below the new one.\<close>

fun unreserve_bins ::
  "(address \<Rightarrow> u64) \<Rightarrow> bytes \<Rightarrow> u8 list \<Rightarrow> u64 \<Rightarrow> evict_state \<Rightarrow> (ls_error + u64) \<times> evict_state" where
  "unreserve_bins clk bid [] change st = (Inr change, st)"
| "unreserve_bins clk bid (bin # bins) change st =
     (case unpinBatchChunks clk bid bin st of
        (Inl e, st) \<Rightarrow> (Inl e, st)
      | (Inr r, st) \<Rightarrow>
          let item = zero_item\<lparr>it_BatchID := bid, it_Radius := bin\<rparr>;
              batch = ix_put (fst st) PostageRadius item [];
              batch = (if bin = MaxPO then ix_del (fst st) PostageRadius item batch else batch);
              (ok, st) = try_write batch st
          in if \<not> ok then (Inl LsBatch, st) else unreserve_bins clk bid bins (change + r) st)"

definition UnreserveBatch ::
  "(address \<Rightarrow> u64) \<Rightarrow> bytes \<Rightarrow> u8 \<Rightarrow> evict_state \<Rightarrow> (ls_error + u64) \<times> evict_state" where
  "UnreserveBatch clk bid radius st =
     (let item = zero_item\<lparr>it_BatchID := bid\<rparr>;
          oldRadius = (case ix_Get (fst st) PostageRadius item of None \<Rightarrow> 0 | Some i \<Rightarrow> it_Radius i)
      in case unreserve_bins clk bid (map of_nat [unat oldRadius ..< unat radius]) 0 st of
           (Inl e, st) \<Rightarrow> (Inl e, st)
         | (Inr change, st) \<Rightarrow>
             let (ok, st) =
                   (if radius \<noteq> MaxPO + 1
                    then try_write (ix_put (fst st) PostageRadius (item\<lparr>it_Radius := radius\<rparr>) []) st
                    else (True, st))
             in if \<not> ok then (Inl LsBatch, st)
                else (Inr change,
                      if ld_gcSize (fst st) \<ge> ld_cacheCapacity (fst st)
                      then (fst st\<lparr>ld_gcTrigger := True\<rparr>, snd st) else st))"

definition reserveEvictionBatch :: u64 where "reserveEvictionBatch = 200"

definition reserveEvictionTarget :: "localdb \<Rightarrow> u64" where
  "reserveEvictionTarget db =
     (let targetCache = ld_reserveCapacity db - of_nat (unat (ld_cacheCapacity db) div 2);
          targetCeiling = ld_reserveCapacity db - of_nat (unat (ld_reserveCapacity db) div 10)
      in if targetCeiling > targetCache then targetCeiling else targetCache)"

text \<open>The callback of \<open>evictReserve\<close>; its state is \<open>totalEvicted\<close>, \<open>totalCallbacks\<close>, \<open>done\<close>.\<close>

definition evict_callback ::
  "(address \<Rightarrow> u64) \<Rightarrow> (ls_error \<Rightarrow> 'e) \<Rightarrow> u64 \<Rightarrow> u64 \<Rightarrow> bytes \<Rightarrow> u8 \<Rightarrow>
   evict_state \<times> u64 \<times> nat \<times> bool \<Rightarrow> ('e + bool) \<times> evict_state \<times> u64 \<times> nat \<times> bool" where
  "evict_callback clk wrap target reserveSizeStart batchID radius = (\<lambda>(st, totalEvicted, n, dn).
     case UnreserveBatch clk batchID radius st of
       (Inl e, st) \<Rightarrow> (Inl (wrap e), st, totalEvicted, n + 1, dn)
     | (Inr e, st) \<Rightarrow>
         let totalEvicted = totalEvicted + e
         in if reserveSizeStart - totalEvicted \<le> target then (Inr True, st, totalEvicted, n + 1, True)
            else if totalEvicted \<ge> reserveEvictionBatch then (Inr True, st, totalEvicted, n + 1, dn)
            else (Inr False, st, totalEvicted, n + 1, dn))"

text \<open>\<open>unreserve\<close> is the function \<open>unreserveFunc\<close>, which the node sets to that of the batch store.\<close>

definition evictReserve ::
  "(address \<Rightarrow> u64) \<Rightarrow> (ls_error \<Rightarrow> 'e) \<Rightarrow>
   ((bytes \<Rightarrow> u8 \<Rightarrow> evict_state \<times> u64 \<times> nat \<times> bool \<Rightarrow> ('e + bool) \<times> evict_state \<times> u64 \<times> nat \<times> bool) \<Rightarrow>
    evict_state \<times> u64 \<times> nat \<times> bool \<Rightarrow> 'e option \<times> (evict_state \<times> u64 \<times> nat \<times> bool) \<times> 'b) \<Rightarrow>
   'b \<Rightarrow> evict_state \<Rightarrow> ('e + u64 \<times> bool) \<times> evict_state \<times> 'b" where
  "evictReserve clk wrap unreserve bs st =
     (let target = reserveEvictionTarget (fst st);
          reserveSizeStart = ld_reserveSize (fst st)
      in if reserveSizeStart \<le> target then (Inr (0, True), st, bs)
         else
           case unreserve (evict_callback clk wrap target reserveSizeStart) (st, 0, 0, False) of
             (Some e, (st, _), bs) \<Rightarrow> (Inl e, st, bs)
           | (None, (st, totalEvicted, n, dn), bs) \<Rightarrow>
               (Inr (totalEvicted, if n = 0 then True else dn), st, bs))"

definition reserveEvictionWorker ::
  "(address \<Rightarrow> u64) \<Rightarrow> (ls_error \<Rightarrow> bs_error) \<Rightarrow> evict_state \<Rightarrow> batchstore \<Rightarrow>
   (bs_error + u64 \<times> bool) \<times> evict_state \<times> batchstore" where
  "reserveEvictionWorker clk wrap st s =
     (case evictReserve clk wrap (\<lambda>cb st. Unreserve cb st s) s
             ((fst st)\<lparr>ld_reserveTrigger := False\<rparr>, snd st) of
        (r, st, s) \<Rightarrow>
          (r, if (case r of Inl _ \<Rightarrow> True | Inr (_, dn) \<Rightarrow> \<not> dn)
              then ((fst st)\<lparr>ld_reserveTrigger := True\<rparr>, snd st) else st, s))"

section \<open>Counting the reserve\<close>

definition address_bit :: "bytes \<Rightarrow> nat \<Rightarrow> bool" where
  "address_bit bs i \<longleftrightarrow> bs ! (i div 8) AND push_bit (7 - i mod 8) 1 > 0"

definition set_address_bit :: "nat \<Rightarrow> bytes \<Rightarrow> bytes" where
  "set_address_bit i bs = bs [i div 8 := bs ! (i div 8) OR push_bit (7 - i mod 8) 1]"

text \<open>It panics when \<open>prox\<close> is past the bits of the base.\<close>

definition generateAddressAt :: "bytes \<Rightarrow> nat \<Rightarrow> bytes" where
  "generateAddressAt baseBytes prox =
     (let addr = fold (\<lambda>po addr. if address_bit baseBytes po then set_address_bit po addr else addr)
                   [0..<prox] (replicate 32 0)
      in if \<not> address_bit baseBytes prox then set_address_bit prox addr else addr)"

definition ComputeReserveSize :: "u8 \<Rightarrow> localdb \<Rightarrow> u64" where
  "ComputeReserveSize startPO db =
     of_nat (List.length (index_items (ld_ix db) PullIx
       (EncodeKey (ld_baseKey db) PullIx
          (zero_item\<lparr>it_Address := generateAddressAt (ld_baseKey db) (unat startPO)\<rparr>)) []))"

end
