(* ===== verification/Localstore_View.thy ===== *)
theory Localstore_View
  imports Localstore_GC State_Store
begin

text \<open>
  The indexes as maps, and what one address is in them. An operation on an address collects
  writes that touch the entries of that address only, so its correctness is a statement on the
  maps at this address, and a batch of operations on different addresses is handled address
  by address.
\<close>

section \<open>Keys\<close>

definition gckey :: "u64 \<Rightarrow> u64 \<Rightarrow> bytes \<Rightarrow> bytes" where
  "gckey ts bin a = be_of_nat 8 (unat ts) @ be_of_nat 8 (unat bin) @ a"

definition pushkey :: "u64 \<Rightarrow> bytes \<Rightarrow> bytes" where
  "pushkey ts a = be_of_nat 8 (unat ts) @ a"

lemma gckey_inj [simp]: "gckey ts bin a = gckey ts' bin' a' \<longleftrightarrow> ts = ts' \<and> bin = bin' \<and> a = a'"
  by (auto simp: gckey_def)

lemma pushkey_inj [simp]: "pushkey ts a = pushkey ts' a' \<longleftrightarrow> ts = ts' \<and> a = a'"
  by (auto simp: pushkey_def)

lemma keys_fields:
  "EncodeKey base GcIx f = gckey (it_AccessTimestamp f) (it_BinID f) (it_Address f)"
  "length (it_Address f) = 32 \<Longrightarrow> EncodeKey base PushIx f = pushkey (it_StoreTimestamp f) (it_Address f)"
  by (simp_all add: gckey_def pushkey_def)

text \<open>The fields an index does not keep are zero in its values.\<close>

lemma stamp_reads: "\<exists>s. stamp_UnmarshalBinary (stamp_MarshalBinary s') = Inr s"
  by (simp add: stamp_UnmarshalBinary_def stamp_MarshalBinary_def Let_def StampSize_def)

lemma value_fields [simp]:
  "it_Address (index_value RetrievalData f) = []" "it_AccessTimestamp (index_value RetrievalData f) = 0"
  "it_StoreTimestamp (index_value RetrievalData f) = it_StoreTimestamp f"
  "it_BinID (index_value RetrievalData f) = it_BinID f"
  "it_Location (index_value RetrievalData f) = it_Location f"
  "it_PinCounter (index_value RetrievalData f) = 0"
  "it_AccessTimestamp (index_value RetrievalAccess f) = it_AccessTimestamp f"
  using stamp_reads [of "NewStamp (it_BatchID f) (it_Index f) (it_Timestamp f) (it_Sig f)"]
  by (auto simp: zero_item_def)

lemma value_fields_other [simp]:
  "it_Address (index_value RetrievalAccess f) = []" "it_BinID (index_value RetrievalAccess f) = 0"
  "it_StoreTimestamp (index_value RetrievalAccess f) = 0" "it_Location (index_value RetrievalAccess f) = []"
  "it_PinCounter (index_value PinIx f) = it_PinCounter f"
  "it_Address (index_value PinIx f) = []"
  "it_Address (index_value PostageIndex f) = fit 32 (it_Address f)"
  "it_StoreTimestamp (index_value PostageIndex f) = 0" "it_AccessTimestamp (index_value PostageIndex f) = 0"
  "it_BinID (index_value PostageIndex f) = 0" "it_Location (index_value PostageIndex f) = []"
  by (simp_all add: zero_item_def)

declare index_value.simps [simp del] EncodeKey.simps(3,4,5,7,8,9) [simp del]

section \<open>Views\<close>

type_synonym view = "index_name \<Rightarrow> bytes \<Rightarrow> item option"

definition view_of :: "localdb \<Rightarrow> view" where
  "view_of db n = map_of (ld_ix db n)"

fun view_op :: "batch_op \<Rightarrow> view \<Rightarrow> view" where
  "view_op (BPut n k v) m = m (n := (m n) (k \<mapsto> v))"
| "view_op (BDelete n k) m = m (n := (m n) (k := None))"
| "view_op _ m = m"

definition view_batch :: "batch \<Rightarrow> view \<Rightarrow> view" where
  "view_batch batch m = fold view_op batch m"

lemma view_batch_simps [simp]:
  "view_batch [] m = m" "view_batch (batch @ batch') m = view_batch batch' (view_batch batch m)"
  "view_batch (op # batch) m = view_batch batch (view_op op m)"
  by (simp_all add: view_batch_def)

lemma view_put [simp]:
  "view_batch (PutInBatch base n i batch) m =
     (view_batch batch m) (n := (view_batch batch m n) (EncodeKey base n i \<mapsto> index_value n i))"
  by (simp add: PutInBatch_def)

lemma view_delete [simp]:
  "view_batch (DeleteInBatch base n i batch) m =
     (view_batch batch m) (n := (view_batch batch m n) (EncodeKey base n i := None))"
  by (simp add: DeleteInBatch_def)

text \<open>The keys of an index are sorted, as those of LevelDB are.\<close>

definition db_sorted :: "localdb \<Rightarrow> bool" where
  "db_sorted db \<longleftrightarrow> (\<forall>n. sorted_wrt (<) (map fst (ld_ix db n)))"

lemma map_of_filter_key: "map_of (filter (\<lambda>(k', v). k' \<noteq> k) kvs) = (map_of kvs) (k := None)"
  by (induction kvs) auto

lemma batch_op_view:
  assumes "db_sorted db"
  shows "db_sorted (batch_op_apply op db) \<and> view_of (batch_op_apply op db) = view_op op (view_of db)"
proof (cases op)
  case (BPut n k v)
  then show ?thesis using assms
    by (auto simp: db_sorted_def view_of_def sorted_assoc_put fun_eq_iff)
next
  case (BDelete n k)
  have "sorted_wrt (<) (map fst (filter (\<lambda>(k', v). k' \<noteq> k) kvs))"
    if "sorted_wrt (<) (map fst kvs)" for kvs :: "(bytes \<times> item) list"
    using that by (induction kvs) auto
  with BDelete show ?thesis using assms
    by (auto simp: db_sorted_def view_of_def map_of_filter_key fun_eq_iff)
qed (use assms in \<open>auto simp: db_sorted_def view_of_def\<close>)

lemma view_WriteBatch:
  assumes "db_sorted db"
  shows "db_sorted (WriteBatch batch db) \<and> view_of (WriteBatch batch db) = view_batch batch (view_of db)"
  unfolding WriteBatch_def
  using assms by (induction batch arbitrary: db) (simp_all add: batch_op_view)

lemma batch_op_same [simp]:
  "ld_baseKey (batch_op_apply op db) = ld_baseKey db" "ld_sharky (batch_op_apply op db) = ld_sharky db"
  "ld_gcRunning (batch_op_apply op db) = ld_gcRunning db"
  "ld_dirtyAddresses (batch_op_apply op db) = ld_dirtyAddresses db"
  "ld_cacheCapacity (batch_op_apply op db) = ld_cacheCapacity db"
  "ld_gcTrigger (batch_op_apply op db) = ld_gcTrigger db"
  by (cases op; simp)+

lemma WriteBatch_same [simp]:
  "ld_baseKey (WriteBatch batch db) = ld_baseKey db" "ld_sharky (WriteBatch batch db) = ld_sharky db"
  "ld_gcRunning (WriteBatch batch db) = ld_gcRunning db"
  "ld_dirtyAddresses (WriteBatch batch db) = ld_dirtyAddresses db"
  "ld_cacheCapacity (WriteBatch batch db) = ld_cacheCapacity db"
  "ld_gcTrigger (WriteBatch batch db) = ld_gcTrigger db"
  unfolding WriteBatch_def by (induction batch arbitrary: db) simp_all

text \<open>What the other fields of a database are does not matter to its view.\<close>

definition same_ix :: "localdb \<Rightarrow> localdb \<Rightarrow> bool" where
  "same_ix db db' \<longleftrightarrow> ld_ix db' = ld_ix db \<and> ld_baseKey db' = ld_baseKey db"

lemma mark_dirty_same [simp]:
  "ld_ix (mark_dirty as db) = ld_ix db" "ld_baseKey (mark_dirty as db) = ld_baseKey db"
  "ld_sharky (mark_dirty as db) = ld_sharky db" "ld_gcSize (mark_dirty as db) = ld_gcSize db"
  "ld_gcRunning (mark_dirty as db) = ld_gcRunning db" "ld_binIDs (mark_dirty as db) = ld_binIDs db"
  "ld_reserveSize (mark_dirty as db) = ld_reserveSize db"
  by (simp_all add: mark_dirty_def)

lemma Releases_same [simp]:
  "ld_ix (sharky_Releases ls db) = ld_ix db" "ld_baseKey (sharky_Releases ls db) = ld_baseKey db"
  "ld_gcRunning (sharky_Releases ls db) = ld_gcRunning db"
  "ld_dirtyAddresses (sharky_Releases ls db) = ld_dirtyAddresses db"
  "ld_sharky (sharky_Releases ls db) = fold sharky_Release ls (ld_sharky db)"
  by (simp_all add: sharky_Releases_def)

text \<open>The two counters add writes that no index sees.\<close>

lemma incGC_view:
  assumes "incGCSizeInBatch c batch db = (batch', db')"
  shows "view_batch batch' m = view_batch batch m" "same_ix db db'" "ld_sharky db' = ld_sharky db"
    "ld_gcRunning db' = ld_gcRunning db" "ld_dirtyAddresses db' = ld_dirtyAddresses db"
  using assms by (auto simp: incGCSizeInBatch_def Let_def same_ix_def split: if_splits)

lemma incReserve_view:
  assumes "incReserveSizeInBatch c batch db = (batch', db')"
  shows "view_batch batch' m = view_batch batch m" "same_ix db db'" "ld_sharky db' = ld_sharky db"
    "ld_gcRunning db' = ld_gcRunning db" "ld_dirtyAddresses db' = ld_dirtyAddresses db"
  using assms by (auto simp: incReserveSizeInBatch_def Let_def same_ix_def split: if_splits)

text \<open>\<open>Get\<close> on a view.\<close>

lemma ix_Get_view:
  "ix_Get db n f =
     (case view_of db n (EncodeKey (ld_baseKey db) n f) of
        None \<Rightarrow> None
      | Some v \<Rightarrow> Some (item_Merge v f))"
  by (simp add: index_Get_def view_of_def)

lemma ix_Has_view: "ix_Has db n f \<longleftrightarrow> view_of db n (EncodeKey (ld_baseKey db) n f) \<noteq> None"
  by (simp add: index_Has_def view_of_def)

lemma Merge_fields [simp]:
  "it_Address (item_Merge i i2) = (if it_Address i = [] then it_Address i2 else it_Address i)"
  "it_Location (item_Merge i i2) = (if it_Location i = [] then it_Location i2 else it_Location i)"
  "it_AccessTimestamp (item_Merge i i2) = (if it_AccessTimestamp i = 0 then it_AccessTimestamp i2 else it_AccessTimestamp i)"
  "it_StoreTimestamp (item_Merge i i2) = (if it_StoreTimestamp i = 0 then it_StoreTimestamp i2 else it_StoreTimestamp i)"
  "it_BinID (item_Merge i i2) = (if it_BinID i = 0 then it_BinID i2 else it_BinID i)"
  "it_PinCounter (item_Merge i i2) = (if it_PinCounter i = 0 then it_PinCounter i2 else it_PinCounter i)"
  by (simp_all add: item_Merge_def)

section \<open>One address\<close>

definition same_at :: "bytes \<Rightarrow> view \<Rightarrow> view \<Rightarrow> bool" where
  "same_at a m m' \<longleftrightarrow> m' RetrievalData a = m RetrievalData a \<and> m' RetrievalAccess a = m RetrievalAccess a \<and>
     m' PinIx a = m PinIx a \<and> (\<forall>ts bin. m' GcIx (gckey ts bin a) = m GcIx (gckey ts bin a)) \<and>
     (\<forall>ts. m' PushIx (pushkey ts a) = m PushIx (pushkey ts a))"

text \<open>
  A chunk is in the index of the garbage collector exactly if it is stored, was accessed and is
  not pinned, and then under its access time and bin id; a chunk waits to be pushed only if it
  is stored and was not accessed.
\<close>

definition addr_ok :: "view \<Rightarrow> bytes \<Rightarrow> bool" where
  "addr_ok m a \<longleftrightarrow>
     (\<forall>ts bin. m GcIx (gckey ts bin a) = None \<longleftrightarrow>
        \<not> (\<exists>v c. m RetrievalData a = Some v \<and> m RetrievalAccess a = Some c \<and> m PinIx a = None \<and>
           ts = it_AccessTimestamp c \<and> bin = it_BinID v)) \<and>
     (m RetrievalAccess a \<noteq> None \<longrightarrow> m RetrievalData a \<noteq> None) \<and>
     (\<forall>ts. m PushIx (pushkey ts a) \<noteq> None \<longrightarrow>
        (\<exists>v. m RetrievalData a = Some v \<and> m RetrievalAccess a = None \<and> ts = it_StoreTimestamp v))"

lemma addr_ok_gcD:
  assumes "addr_ok m a" "m GcIx (gckey ts bin a) \<noteq> None"
  obtains v c where "m RetrievalData a = Some v" "m RetrievalAccess a = Some c" "m PinIx a = None"
    "ts = it_AccessTimestamp c" "bin = it_BinID v"
  using assms by (auto simp: addr_ok_def)

lemma addr_ok_gcI:
  assumes "addr_ok m a" "m RetrievalData a = Some v" "m RetrievalAccess a = Some c" "m PinIx a = None"
  shows "m GcIx (gckey (it_AccessTimestamp c) (it_BinID v) a) \<noteq> None"
  using assms unfolding addr_ok_def by blast

definition keys_ok :: "view \<Rightarrow> bool" where
  "keys_ok m \<longleftrightarrow>
     (\<forall>n k v. m n k = Some v \<longrightarrow> v \<in> range (index_value n)) \<and>
     (\<forall>a. m RetrievalData a \<noteq> None \<or> m RetrievalAccess a \<noteq> None \<longrightarrow> length a = 32) \<and>
     (\<forall>k. m GcIx k \<noteq> None \<longrightarrow> (\<exists>ts bin a. length a = 32 \<and> k = gckey ts bin a)) \<and>
     (\<forall>k. m PushIx k \<noteq> None \<longrightarrow> (\<exists>ts a. length a = 32 \<and> k = pushkey ts a)) \<and>
     (\<forall>k. m PostageChunks k \<noteq> None \<longrightarrow> length k = 65)"

definition view_ok :: "view \<Rightarrow> bool" where
  "view_ok m \<longleftrightarrow> keys_ok m \<and> (\<forall>a. length a = 32 \<longrightarrow> addr_ok m a)"

lemma same_at_addr_ok: "same_at a m m' \<Longrightarrow> addr_ok m' a = addr_ok m a"
  by (simp add: same_at_def addr_ok_def)

lemma same_at_trans: "same_at a m m' \<Longrightarrow> same_at a m' m'' \<Longrightarrow> same_at a m m''"
  by (simp add: same_at_def)

lemma same_at_refl [simp]: "same_at a m m"
  by (simp add: same_at_def)

text \<open>A list of writes that keeps to one address.\<close>

definition touches :: "bytes \<Rightarrow> view \<Rightarrow> view \<Rightarrow> bool" where
  "touches a m m' \<longleftrightarrow> (keys_ok m \<longrightarrow> keys_ok m') \<and> (addr_ok m a \<longrightarrow> addr_ok m' a) \<and>
     (\<forall>b. b \<noteq> a \<longrightarrow> length b = 32 \<longrightarrow> same_at b m m')"

lemma touches_view_ok:
  assumes "touches a m m'" "view_ok m"
  shows "view_ok m'"
  unfolding view_ok_def
proof (intro conjI allI impI)
  show "keys_ok m'" using assms by (simp add: touches_def view_ok_def)
  fix b :: bytes
  assume b: "length b = 32"
  then have "addr_ok m b" using assms(2) by (simp add: view_ok_def)
  then show "addr_ok m' b"
    using assms(1) b same_at_addr_ok [of b m m'] by (cases "b = a") (auto simp: touches_def)
qed

end
