(* ===== verification/Localstore_Inv.thy ===== *)
theory Localstore_Inv
  imports Localstore_View
begin

text \<open>
  The invariant of the indexes under every operation on one chunk. First the changes of a view
  that keep it, then for each operation which change it makes.
\<close>

section \<open>Changes that keep the invariant\<close>

lemma touchesI:
  assumes "keys_ok m \<Longrightarrow> keys_ok m'" "addr_ok m a \<Longrightarrow> addr_ok m' a"
    "\<And>b. b \<noteq> a \<Longrightarrow> length b = 32 \<Longrightarrow> same_at b m m'"
  shows "touches a m m'"
  using assms by (auto simp: touches_def)

lemma keys_ok_put:
  assumes "keys_ok m" "n = RetrievalData \<or> n = RetrievalAccess \<Longrightarrow> length k = 32"
    "n = GcIx \<Longrightarrow> \<exists>ts bin a. length a = 32 \<and> k = gckey ts bin a"
    "n = PushIx \<Longrightarrow> \<exists>ts a. length a = 32 \<and> k = pushkey ts a"
    "n = PostageChunks \<Longrightarrow> length k = 65"
  shows "keys_ok (m (n := (m n) (k \<mapsto> index_value n f)))"
  using assms unfolding keys_ok_def by (auto split: if_splits)

lemma keys_ok_delete:
  assumes "keys_ok m"
  shows "keys_ok (m (n := (m n) (k := None)))"
  using assms unfolding keys_ok_def by (auto split: if_splits)

lemma addr_ok_access:
  assumes "addr_ok m a" "m RetrievalAccess a = Some c"
  obtains v where "m RetrievalData a = Some v"
    "\<And>ts. m PushIx (pushkey ts a) = None"
  using assms by (auto simp: addr_ok_def)

text \<open>A write at an address of 32 bytes.\<close>

lemma keys_put_batch:
  assumes "keys_ok (view_batch batch M)" "length (it_Address i) = 32"
  shows "keys_ok (view_batch (PutInBatch base n i batch) M)"
  unfolding view_put using assms
  by (intro keys_ok_put; cases n) (auto simp: keys_fields EncodeKey.simps(7))

lemma keys_del_batch:
  assumes "keys_ok (view_batch batch M)"
  shows "keys_ok (view_batch (DeleteInBatch base n i batch) M)"
  unfolding view_delete by (rule keys_ok_delete [OF assms])

lemmas keys_batch = keys_put_batch keys_del_batch

section \<open>What an operation reads\<close>

text \<open>An item whose fields are unknown or those of the database.\<close>

definition item_at :: "view \<Rightarrow> bytes \<Rightarrow> item \<Rightarrow> bool" where
  "item_at m a item \<longleftrightarrow> it_Address item = a \<and>
     (\<forall>c. m RetrievalAccess a = Some c \<longrightarrow>
        it_AccessTimestamp item = 0 \<or> it_AccessTimestamp item = it_AccessTimestamp c) \<and>
     (\<forall>v. m RetrievalData a = Some v \<longrightarrow>
        (it_StoreTimestamp item = 0 \<or> it_StoreTimestamp item = it_StoreTimestamp v) \<and>
        (it_BinID item = 0 \<or> it_BinID item = it_BinID v))"

lemma item_at_address: "it_Address (addressToItem addr) = addr_bytes addr"
  "item_at m (addr_bytes addr) (addressToItem addr)"
  by (simp_all add: item_at_def addressToItem_def zero_item_def)

lemma typed:
  assumes "keys_ok m"
  shows "m RetrievalData a = Some v \<Longrightarrow> it_Address v = [] \<and> it_AccessTimestamp v = 0 \<and> it_PinCounter v = 0"
    and "m RetrievalAccess a = Some c \<Longrightarrow>
      it_Address c = [] \<and> it_Location c = [] \<and> it_BinID c = 0 \<and> it_StoreTimestamp c = 0"
    and "m PinIx a = Some p \<Longrightarrow> it_Address p = []"
    and "m PostageIndex k = Some p \<Longrightarrow>
      length (it_Address p) = 32 \<and> it_StoreTimestamp p = 0 \<and> it_AccessTimestamp p = 0 \<and>
      it_BinID p = 0 \<and> it_Location p = []"
  using assms unfolding keys_ok_def by fastforce+

lemma get_data:
  assumes "keys_ok (view_of db)" "item_at (view_of db) a item"
  shows "ix_Get db RetrievalData item = Some i \<Longrightarrow>
     \<exists>v. view_of db RetrievalData a = Some v \<and> it_StoreTimestamp i = it_StoreTimestamp v \<and>
       it_BinID i = it_BinID v \<and> it_Address i = a \<and> it_AccessTimestamp i = it_AccessTimestamp item \<and>
       it_Location i = (if it_Location v = [] then it_Location item else it_Location v)"
    and "ix_Get db RetrievalData item = None \<longleftrightarrow> view_of db RetrievalData a = None"
  using assms typed(1) [OF assms(1)]
  by (auto simp: ix_Get_view item_at_def split: option.splits)

lemma get_access:
  assumes "keys_ok (view_of db)" "item_at (view_of db) a item"
  shows "ix_Get db RetrievalAccess item = Some i \<Longrightarrow>
     \<exists>c. view_of db RetrievalAccess a = Some c \<and> it_AccessTimestamp i = it_AccessTimestamp c"
    and "ix_Get db RetrievalAccess item = None \<longleftrightarrow> view_of db RetrievalAccess a = None"
  using assms by (auto simp: ix_Get_view item_at_def split: option.splits)

lemma get_other:
  "ix_Get db PinIx item = None \<longleftrightarrow> view_of db PinIx (it_Address item) = None"
  "ix_Get db GcIx item = None \<longleftrightarrow>
     view_of db GcIx (gckey (it_AccessTimestamp item) (it_BinID item) (it_Address item)) = None"
  "length (it_Address item) = 32 \<Longrightarrow>
   ix_Get db PushIx item = None \<longleftrightarrow> view_of db PushIx (pushkey (it_StoreTimestamp item) (it_Address item)) = None"
  by (simp_all add: ix_Get_view keys_fields split: option.splits)

section \<open>The operations\<close>

text \<open>
  An operation on \<open>a\<close> has read \<open>db\<close> and turns \<open>batch\<close> into \<open>batch'\<close>: wherever \<open>a\<close> is as it was
  read, the added writes keep the invariant and to \<open>a\<close>.
\<close>

definition op_ok :: "localdb \<Rightarrow> bytes \<Rightarrow> batch \<Rightarrow> batch \<Rightarrow> bool" where
  "op_ok db a batch batch' \<longleftrightarrow>
     (\<forall>M. same_at a (view_of db) (view_batch batch M) \<longrightarrow> addr_ok (view_batch batch M) a \<longrightarrow>
        touches a (view_batch batch M) (view_batch batch' M))"

lemma op_okI:
  assumes "\<And>M. keys_ok (view_batch batch M) \<Longrightarrow> keys_ok (view_batch batch' M)"
    "\<And>M. same_at a (view_of db) (view_batch batch M) \<Longrightarrow> addr_ok (view_batch batch M) a \<Longrightarrow>
       addr_ok (view_batch batch' M) a"
    "\<And>M b. b \<noteq> a \<Longrightarrow> length b = 32 \<Longrightarrow> same_at b (view_batch batch M) (view_batch batch' M)"
  shows "op_ok db a batch batch'"
  unfolding op_ok_def using assms by (auto intro: touchesI)

lemma op_ok_refl [simp]: "op_ok db a batch batch"
  by (auto simp: op_ok_def touches_def)

lemma setPin_ok:
  assumes k: "keys_ok (view_of db)" and i: "item_at (view_of db) a item" and a: "length a = 32"
    and s: "setPin db item batch = Inr (batch', c)"
  shows "op_ok db a batch batch'"
proof -
  have ia: "it_Address item = a" using i by (simp add: item_at_def)
  have i': "item_at (view_of db) a (item\<lparr>it_PinCounter := 0\<rparr>)" using i by (simp add: item_at_def)
  show ?thesis
  proof (cases "ix_Get db PinIx item")
    case (Some p)
    with s have b: "batch' = ix_put db PinIx (item\<lparr>it_PinCounter := it_PinCounter p + 1\<rparr>) batch"
      by (simp add: setPin_def)
    have "view_of db PinIx a \<noteq> None" using get_other(1) [of db item] Some ia by auto
    then show ?thesis
      unfolding b by (intro op_okI keys_batch) (auto simp: ia a addr_ok_def same_at_def)
  next
    case None
    have p: "view_of db PinIx a = None" using get_other(1) [of db item] None ia by auto
    show ?thesis
    proof (cases "ix_Get db RetrievalAccess (item\<lparr>it_PinCounter := 0\<rparr>)")
      case None': None
      with s None have b: "batch' = ix_put db PinIx (item\<lparr>it_PinCounter := 1\<rparr>) batch"
        by (simp add: setPin_def Let_def)
      have "view_of db RetrievalAccess a = None" using get_access(2) [OF k i'] None' by blast
      then show ?thesis
        unfolding b by (intro op_okI keys_batch) (auto simp: ia a addr_ok_def same_at_def)
    next
      case (Some ac)
      then obtain c where c: "view_of db RetrievalAccess a = Some c" "it_AccessTimestamp ac = it_AccessTimestamp c"
        using get_access(1) [OF k i'] by blast
      let ?item = "item\<lparr>it_PinCounter := 0, it_AccessTimestamp := it_AccessTimestamp ac\<rparr>"
      have i'': "item_at (view_of db) a ?item" using i c by (simp add: item_at_def)
      from s None Some obtain d where d: "ix_Get db RetrievalData ?item = Some d"
        and b: "batch' = ix_put db PinIx (?item\<lparr>it_StoreTimestamp := it_StoreTimestamp d, it_BinID := it_BinID d,
           it_PinCounter := 1\<rparr>) (ix_del db GcIx (?item\<lparr>it_StoreTimestamp := it_StoreTimestamp d,
           it_BinID := it_BinID d\<rparr>) batch)"
        by (auto simp: setPin_def Let_def split: option.splits)
      then obtain v where v: "view_of db RetrievalData a = Some v" "it_BinID d = it_BinID v"
        using get_data(1) [OF k i''] by blast
      show ?thesis using c v p
        unfolding b by (intro op_okI keys_batch) (auto simp: ia a addr_ok_def same_at_def keys_fields)
    qed
  qed
qed

text \<open>\<open>setRemove\<close> leaves nothing of the chunk in these indexes.\<close>

definition known :: "view \<Rightarrow> bytes \<Rightarrow> item \<Rightarrow> bool" where
  "known m a item \<longleftrightarrow> it_StoreTimestamp item = 0 \<or> it_Location item = [] \<or>
     (\<exists>v. m RetrievalData a = Some v \<and> it_StoreTimestamp item = it_StoreTimestamp v \<and>
       it_BinID item = it_BinID v)"

definition accessed_item :: "localdb \<Rightarrow> item \<Rightarrow> item" where
  "accessed_item db item =
     (if it_AccessTimestamp item = 0
      then case ix_Get db RetrievalAccess item of
             Some i \<Rightarrow> item\<lparr>it_AccessTimestamp := it_AccessTimestamp i\<rparr>
           | None \<Rightarrow> item
      else item)"

definition chunk_deletes :: "localdb \<Rightarrow> item \<Rightarrow> batch \<Rightarrow> batch" where
  "chunk_deletes db d batch =
     ix_del db PostageIndex d (ix_del db PostageChunks d (ix_del db PullIx d
       (ix_del db PushIx d (ix_del db RetrievalAccess d (ix_del db RetrievalData d batch)))))"

lemma setRemove_cases:
  assumes "setRemove db item True batch = Inr (batch', c)"
  obtains d where
    "(if it_StoreTimestamp (accessed_item db item) = 0 \<or> it_Location (accessed_item db item) = []
      then ix_Get db RetrievalData (accessed_item db item) else Some (accessed_item db item)) = Some d"
    "ix_Get db GcIx d = None \<Longrightarrow> batch' = ix_del db PinIx d (chunk_deletes db d batch) \<and> c = 0"
    "ix_Get db GcIx d \<noteq> None \<Longrightarrow> batch' = ix_del db GcIx d (chunk_deletes db d batch) \<and> c = -1"
proof -
  let ?o = "if it_StoreTimestamp (accessed_item db item) = 0 \<or> it_Location (accessed_item db item) = []
    then ix_Get db RetrievalData (accessed_item db item) else Some (accessed_item db item)"
  have "setRemove db item True batch =
    (case ?o of None \<Rightarrow> Inl LsNotFound
     | Some d \<Rightarrow> if ix_Get db GcIx d = None then Inr (ix_del db PinIx d (chunk_deletes db d batch), 0)
         else Inr (ix_del db GcIx d (chunk_deletes db d batch), -1))"
    by (simp only: setRemove_def accessed_item_def chunk_deletes_def Let_def simp_thms)
  with assms that show thesis by (cases ?o) (auto split: if_splits)
qed

lemma keys_chunk_deletes: "keys_ok (view_batch batch M) \<Longrightarrow> keys_ok (view_batch (chunk_deletes db d batch) M)"
  unfolding chunk_deletes_def by (intro keys_batch)

lemma setRemove_ok:
  assumes k: "keys_ok (view_of db)" and i: "item_at (view_of db) a item" and a: "length a = 32"
    and n: "known (view_of db) a item" and s: "setRemove db item True batch = Inr (batch', c)"
  shows "op_ok db a batch batch'" "view_of db RetrievalData a \<noteq> None"
    "view_batch batch' M RetrievalData = (view_batch batch M RetrievalData) (a := None)"
proof -
  let ?it = "accessed_item db item"
  have i1: "item_at (view_of db) a ?it"
    "\<forall>c. view_of db RetrievalAccess a = Some c \<longrightarrow> it_AccessTimestamp ?it = it_AccessTimestamp c"
    "it_StoreTimestamp ?it = it_StoreTimestamp item" "it_Location ?it = it_Location item" "it_BinID ?it = it_BinID item"
    using i get_access [OF k i] by (auto simp: accessed_item_def item_at_def split: option.splits)
  from setRemove_cases [OF s] obtain d where
    d: "(if it_StoreTimestamp ?it = 0 \<or> it_Location ?it = [] then ix_Get db RetrievalData ?it else Some ?it) = Some d"
    and b: "ix_Get db GcIx d = None \<Longrightarrow> batch' = ix_del db PinIx d (chunk_deletes db d batch)"
      "ix_Get db GcIx d \<noteq> None \<Longrightarrow> batch' = ix_del db GcIx d (chunk_deletes db d batch)" by metis
  obtain v where v: "view_of db RetrievalData a = Some v" "it_StoreTimestamp d = it_StoreTimestamp v"
    "it_BinID d = it_BinID v" "it_Address d = a" "it_AccessTimestamp d = it_AccessTimestamp ?it"
    using d get_data(1) [OF k i1(1)] n i1 by (auto simp: known_def item_at_def split: if_splits)
  have ts: "\<forall>c. view_of db RetrievalAccess a = Some c \<longrightarrow> it_AccessTimestamp d = it_AccessTimestamp c"
    using i1(2) v(5) by simp
  have g: "ix_Get db GcIx d = None \<longleftrightarrow> view_of db GcIx (gckey (it_AccessTimestamp d) (it_BinID v) a) = None"
    using get_other(2) [of db d] v by simp
  have keys: "keys_ok (view_batch batch' M)" if "keys_ok (view_batch batch M)" for M
  proof (cases "ix_Get db GcIx d = None")
    case True
    show ?thesis unfolding b(1) [OF True] by (intro keys_del_batch keys_chunk_deletes that)
  next
    case False
    show ?thesis unfolding b(2) [OF False] by (intro keys_del_batch keys_chunk_deletes that)
  qed
  show "op_ok db a batch batch'"
  proof (cases "ix_Get db GcIx d = None")
    case True
    show ?thesis
    proof (rule op_okI [OF keys])
      fix M
      assume sm: "same_at a (view_of db) (view_batch batch M)" and ok: "addr_ok (view_batch batch M) a"
      have "view_of db GcIx (gckey ts bin a) = None" for ts bin
        using True ok sm ts v g same_at_addr_ok [OF sm] unfolding addr_ok_def by auto
      then show "addr_ok (view_batch batch' M) a"
        using ok sm b(1) [OF True] v a by (auto simp: chunk_deletes_def addr_ok_def same_at_def keys_fields)
    qed (use b(1) [OF True] v a in \<open>auto simp: chunk_deletes_def same_at_def keys_fields\<close>)
  next
    case False
    show ?thesis
    proof (rule op_okI [OF keys])
      fix M
      assume sm: "same_at a (view_of db) (view_batch batch M)" and ok: "addr_ok (view_batch batch M) a"
      have "view_of db GcIx (gckey ts bin a) = None" if "ts \<noteq> it_AccessTimestamp d \<or> bin \<noteq> it_BinID v" for ts bin
        using that ok sm ts v g same_at_addr_ok [OF sm] unfolding addr_ok_def by auto
      then show "addr_ok (view_batch batch' M) a"
        using ok sm b(2) [OF False] v a by (auto simp: chunk_deletes_def addr_ok_def same_at_def keys_fields)
    qed (use b(2) [OF False] v a in \<open>auto simp: chunk_deletes_def same_at_def keys_fields\<close>)
  qed
  show "view_of db RetrievalData a \<noteq> None" using v by simp
  show "view_batch batch' M RetrievalData = (view_batch batch M RetrievalData) (a := None)"
    using v b by (cases "ix_Get db GcIx d = None") (simp_all add: chunk_deletes_def)
qed

lemma op_ok_trans:
  assumes "op_ok db a b b1" "op_ok db a b1 b2"
    "\<And>M. same_at a (view_of db) (view_batch b M) \<Longrightarrow> addr_ok (view_batch b M) a \<Longrightarrow>
       same_at a (view_of db) (view_batch b1 M)"
  shows "op_ok db a b b2"
  unfolding op_ok_def
proof (intro allI impI)
  fix M
  assume s: "same_at a (view_of db) (view_batch b M)" "addr_ok (view_batch b M) a"
  then have t: "touches a (view_batch b M) (view_batch b1 M)" using assms(1) by (simp add: op_ok_def)
  then have "addr_ok (view_batch b1 M) a" using s(2) by (simp add: touches_def)
  then have "touches a (view_batch b1 M) (view_batch b2 M)"
    using assms(2) assms(3) [OF s] by (simp add: op_ok_def)
  with t show "touches a (view_batch b M) (view_batch b2 M)"
    by (auto simp: touches_def intro: same_at_trans)
qed

text \<open>A chunk that was not accessed is pinned by one write.\<close>

lemma setPin_unaccessed:
  assumes k: "keys_ok (view_of db)" and i: "item_at (view_of db) a item" and n: "view_of db RetrievalAccess a = None"
  shows "\<exists>f. it_Address f = a \<and> setPin db item batch = Inr (ix_put db PinIx f batch, 0)"
proof -
  have i': "item_at (view_of db) a (item\<lparr>it_PinCounter := 0\<rparr>)" using i by (simp add: item_at_def)
  have ia: "it_Address item = a" using i by (simp add: item_at_def)
  have "ix_Get db RetrievalAccess (item\<lparr>it_PinCounter := 0\<rparr>) = None" using get_access(2) [OF k i'] n by simp
  with ia show ?thesis
    by (cases "ix_Get db PinIx item")
      (auto simp: setPin_def Let_def intro: exI [of _ "item\<lparr>it_PinCounter := 1\<rparr>"]
        exI [of _ "item\<lparr>it_PinCounter := it_PinCounter p + 1\<rparr>" for p])
qed

text \<open>What becomes of a chunk that was not accessed before.\<close>

lemma preserveOrCache_new:
  assumes k: "keys_ok (view_of db)" and i: "item_at (view_of db) a item" and n: "view_of db RetrievalAccess a = None"
    and g: "addr_ok (view_of db) a"
  obtains (pin) f r where "it_Address f = a" "preserveOrCache db item fp fc batch = Inr (ix_put db PinIx f batch, 0, r)"
  | (pinned) "view_of db PinIx a \<noteq> None" "preserveOrCache db item fp fc batch = Inr (batch, 0, 0)"
  | (cache) "view_of db PinIx a = None" "preserveOrCache db item fp fc batch = Inr (ix_put db GcIx item batch, 1, 0)"
proof (cases "\<not> fc \<and> (withinRadius db item \<or> fp)")
  case True
  obtain f where "it_Address f = a" "setPin db item batch = Inr (ix_put db PinIx f batch, 0)"
    using setPin_unaccessed [OF k i n] by blast
  with True pin show thesis by (simp add: preserveOrCache_def)
next
  case False
  have ia: "it_Address item = a" using i by (simp add: item_at_def)
  have "\<not> ix_Has db GcIx item" using g n ia by (auto simp: ix_Has_view keys_fields addr_ok_def)
  with False pinned cache ia show thesis
    by (cases "view_of db PinIx a = None") (auto simp: preserveOrCache_def ix_Has_view)
qed

lemma setSync_ok:
  assumes k: "keys_ok (view_of db)" and a: "length (addr_bytes addr) = 32"
    and s: "setSync db now addr batch = Inr (batch', c, r)"
  shows "op_ok db (addr_bytes addr) batch batch'"
proof -
  let ?a = "addr_bytes addr" and ?item = "addressToItem addr"
  have ia: "it_Address ?item = ?a" by (rule item_at_address)
  have i: "item_at (view_of db) ?a ?item" by (rule item_at_address)
  show ?thesis
  proof (cases "ix_Get db RetrievalData ?item")
    case None
    with s have b: "batch' = ix_del db PushIx ?item batch" by (simp add: setSync_def Let_def)
    show ?thesis unfolding b
      by (intro op_okI keys_batch) (auto simp: ia a addr_ok_def same_at_def keys_fields)
  next
    case (Some d)
    obtain v where v: "view_of db RetrievalData ?a = Some v" "it_StoreTimestamp d = it_StoreTimestamp v"
      "it_BinID d = it_BinID v" using get_data(1) [OF k i Some] by blast
    let ?it = "?item\<lparr>it_StoreTimestamp := it_StoreTimestamp d, it_BinID := it_BinID d,
      it_BatchID := it_BatchID d, it_Index := it_Index d, it_Timestamp := it_Timestamp d\<rparr>"
    have i2: "item_at (view_of db) ?a ?it" using i v by (simp add: item_at_def)
    have r0: "it_Radius ?it = 0" by (simp add: addressToItem_def zero_item_def)
    let ?b = "ix_del db PushIx ?it batch"
    show ?thesis
    proof (cases "ix_Get db RetrievalAccess ?it")
      case None
      let ?it2 = "?it\<lparr>it_AccessTimestamp := now\<rparr>" and ?b2 = "ix_put db RetrievalAccess (?it\<lparr>it_AccessTimestamp := now\<rparr>) ?b"
      have n: "view_of db RetrievalAccess ?a = None" using get_access(2) [OF k i2] None by simp
      then have i3: "item_at (view_of db) ?a ?it2" using i2 by (simp add: item_at_def)
      obtain f where f: "it_Address f = ?a" "setPin db ?it2 ?b2 = Inr (ix_put db PinIx f ?b2, 0)"
        using setPin_unaccessed [OF k i3 n] by blast
      have b: "batch' = ix_put db PinIx f ?b2"
        using s Some None f(2) r0 by (simp add: setSync_def preserveOrCache_def withinRadius_def Let_def)
      show ?thesis unfolding b using v n f(1)
        by (intro op_okI keys_batch) (auto simp: ia a addr_ok_def same_at_def keys_fields)
    next
      case (Some e)
      obtain c0 where c0: "view_of db RetrievalAccess ?a = Some c0" "it_AccessTimestamp e = it_AccessTimestamp c0"
        using get_access(1) [OF k i2 Some] by blast
      let ?it2 = "?it\<lparr>it_AccessTimestamp := it_AccessTimestamp e\<rparr>"
      have i3: "item_at (view_of db) ?a ?it2" using i2 c0 by (simp add: item_at_def)
      obtain b3 c3 where p: "setPin db ?it2 ?b = Inr (b3, c3)" "batch' = b3"
        using s \<open>ix_Get db RetrievalData ?item = Some d\<close> Some r0
        by (auto simp: setSync_def preserveOrCache_def withinRadius_def Let_def split: sum.splits)
      have 1: "op_ok db ?a batch ?b"
        by (intro op_okI keys_batch) (auto simp: ia a addr_ok_def same_at_def keys_fields)
      show ?thesis unfolding p(2)
        by (rule op_ok_trans [OF 1 setPin_ok [OF k i3 a p(1)]])
          (use c0 in \<open>auto simp: ia a addr_ok_def same_at_def keys_fields\<close>)
    qed
  qed
qed

lemma setUnpin_ok:
  assumes k: "keys_ok (view_of db)" and a: "length (addr_bytes addr) = 32"
    and s: "setUnpin db now addr batch = (e, batch', c)"
  shows "op_ok db (addr_bytes addr) batch batch'"
proof (cases "ix_Get db PinIx (addressToItem addr)")
  case None
  with s show ?thesis by (simp add: setUnpin_def Let_def)
next
  case (Some p)
  let ?a = "addr_bytes addr" and ?item = "(addressToItem addr)\<lparr>it_PinCounter := it_PinCounter p\<rparr>"
  let ?b = "ix_del db PinIx ?item batch"
  have ia: "it_Address (addressToItem addr) = ?a" by (rule item_at_address)
  have i: "item_at (view_of db) ?a ?item" using item_at_address(2) [of "view_of db" addr] by (simp add: item_at_def)
  have P: "view_of db PinIx ?a \<noteq> None" using get_other(1) [of db "addressToItem addr"] Some ia by auto
  show ?thesis
  proof (cases "it_PinCounter p > 1")
    case True
    then have b: "batch' = ix_put db PinIx (?item\<lparr>it_PinCounter := it_PinCounter p - 1\<rparr>) batch"
      using s Some by (simp add: setUnpin_def Let_def)
    show ?thesis unfolding b using P
      by (intro op_okI keys_batch) (auto simp: ia a addr_ok_def same_at_def)
  next
    case False
    show ?thesis
    proof (cases "ix_Get db RetrievalData ?item")
      case None
      then have b: "batch' = ?b" using s Some False by (simp add: setUnpin_def Let_def)
      have "view_of db RetrievalData ?a = None" using get_data(2) [OF k i] None by blast
      then show ?thesis unfolding b
        by (intro op_okI keys_batch) (auto simp: ia a addr_ok_def same_at_def)
    next
      case (Some d)
      obtain v where v: "view_of db RetrievalData ?a = Some v" "it_StoreTimestamp d = it_StoreTimestamp v"
        "it_BinID d = it_BinID v" using get_data(1) [OF k i Some] by blast
      let ?it = "?item\<lparr>it_StoreTimestamp := it_StoreTimestamp d, it_BinID := it_BinID d, it_BatchID := it_BatchID d\<rparr>"
      have i2: "item_at (view_of db) ?a ?it" using i v by (simp add: item_at_def)
      note un = \<open>ix_Get db PinIx (addressToItem addr) = Some p\<close> False Some
      have push: "ix_Get db PushIx ?it = None \<longleftrightarrow> view_of db PushIx (pushkey (it_StoreTimestamp v) ?a) = None"
        using get_other(3) [of ?it db] a ia v by simp
      show ?thesis
      proof (cases "ix_Get db PushIx ?it")
        case (Some q)
        then have b: "batch' = ?b" using s un by (simp add: setUnpin_def Let_def)
        show ?thesis unfolding b
        proof (intro op_okI keys_batch)
          fix M
          assume sm: "same_at ?a (view_of db) (view_batch batch M)" and ok: "addr_ok (view_batch batch M) ?a"
          have "view_batch batch M PushIx (pushkey (it_StoreTimestamp v) ?a) \<noteq> None"
            using sm Some push by (simp add: same_at_def)
          then have "view_batch batch M RetrievalAccess ?a = None" using ok unfolding addr_ok_def by blast
          then show "addr_ok (view_batch ?b M) ?a" using ok by (simp add: ia addr_ok_def)
        qed (simp_all add: ia same_at_def)
      next
        case None
        show ?thesis
        proof (cases "ix_Get db RetrievalAccess ?it")
          case None': None
          let ?it2 = "?it\<lparr>it_AccessTimestamp := now\<rparr>"
          have b: "batch' = ix_put db GcIx ?it2 (ix_put db RetrievalAccess ?it2 ?b)"
            using s un None None' by (simp add: setUnpin_def Let_def)
          have "view_of db RetrievalAccess ?a = None" using get_access(2) [OF k i2] None' by blast
          then show ?thesis unfolding b using None push v
            by (intro op_okI keys_batch) (auto simp: ia a addr_ok_def same_at_def keys_fields)
        next
          case (Some e)
          let ?it2 = "?it\<lparr>it_AccessTimestamp := it_AccessTimestamp e\<rparr>"
          have b: "batch' = ix_put db GcIx ?it2 ?b"
            using s un None Some by (simp add: setUnpin_def Let_def)
          obtain c0 where c0: "view_of db RetrievalAccess ?a = Some c0" "it_AccessTimestamp e = it_AccessTimestamp c0"
            using get_access(1) [OF k i2 Some] by blast
          show ?thesis unfolding b
          proof (intro op_okI keys_batch)
            fix M
            assume "same_at ?a (view_of db) (view_batch batch M)" "addr_ok (view_batch batch M) ?a"
            then show "addr_ok (view_batch (ix_put db GcIx ?it2 ?b) M) ?a"
              using P v c0 by (simp add: ia a addr_ok_def same_at_def keys_fields)
          qed (simp_all add: ia a same_at_def keys_fields)
        qed
      qed
    qed
  qed
qed

section \<open>Putting\<close>

text \<open>An item made from a chunk: it has no times and no bin id yet.\<close>

definition new_item :: "bytes \<Rightarrow> item \<Rightarrow> bool" where
  "new_item a item \<longleftrightarrow> it_Address item = a \<and> it_AccessTimestamp item = 0 \<and> it_StoreTimestamp item = 0 \<and>
     it_BinID item = 0"

lemma chunkToItem_new: "chunkToItem ch = Some item \<Longrightarrow> new_item (addr_bytes (ch_addr ch)) item"
  by (auto simp: chunkToItem_def new_item_def zero_item_def split: option.splits)

text \<open>The chunk with the same stamp index, if any, goes first.\<close>

lemma replacePrevious_ok:
  assumes k: "keys_ok (view_of db)" and i: "new_item a item" and a: "view_of db RetrievalData a = None"
    and s: "replacePrevious db item pb = Inr (Some (c, r, pb'))"
  obtains (no) "pb' = pb"
  | (yes) p l v prev where "ix_Get db PostageIndex item = Some prev" "later prev item = Inr True"
      "it_Address prev = p" "p \<noteq> a" "length p = 32" "op_ok db p (pb_batch pb) (pb_batch pb')"
      "view_of db RetrievalData p = Some v" "LocationFromBinary (it_Location v) = Inr l \<or> it_Location v = []"
      "pb_release pb' = pb_release pb @ [l]"
      "\<And>M. view_batch (pb_batch pb') M RetrievalData = (view_batch (pb_batch pb) M RetrievalData) (p := None)"
proof (cases "ix_Get db PostageIndex item")
  case None
  with s no show thesis by (simp add: replacePrevious_def)
next
  case (Some prev)
  let ?p = "it_Address prev"
  from Some obtain q key where q: "view_of db PostageIndex key = Some q" "prev = item_Merge q item"
    by (auto simp: ix_Get_view split: option.splits)
  with typed(4) [OF k q(1)] i have prev: "length ?p = 32" "it_StoreTimestamp prev = 0"
    "it_AccessTimestamp prev = 0" "it_BinID prev = 0"
    by (auto simp: new_item_def)
  then have ip: "item_at (view_of db) ?p prev" "known (view_of db) ?p prev"
    by (simp_all add: item_at_def known_def)
  from s Some have late: "later prev item = Inr True"
    by (auto simp: replacePrevious_def split: if_splits sum.splits bool.splits)
  from s Some obtain b idx l where b: "setRemove db prev True (pb_batch pb) = Inr (b, c)"
    "ix_Get db RetrievalData prev = Some idx" "LocationFromBinary (it_Location idx) = Inr l"
    "pb' = pb\<lparr>pb_batch := b, pb_release := pb_release pb @ [l]\<rparr>"
    by (auto simp: replacePrevious_def Let_def split: if_splits option.splits sum.splits bool.splits)
  note rm = setRemove_ok [OF k ip(1) prev(1) ip(2) b(1)]
  from get_data(1) [OF k ip(1) b(2)] obtain v where v: "view_of db RetrievalData ?p = Some v"
    "it_Location idx = (if it_Location v = [] then it_Location prev else it_Location v)" by blast
  show thesis
    by (rule yes [of prev ?p v l]) (use a v b(3,4) rm prev(1) Some late in \<open>auto split: if_splits\<close>)
qed

text \<open>The writes for a new chunk.\<close>

definition ready :: "localdb \<Rightarrow> bytes \<Rightarrow> bool" where
  "ready db a \<longleftrightarrow> keys_ok (view_of db) \<and> addr_ok (view_of db) a \<and> length a = 32 \<and>
     view_of db RetrievalData a = None"

lemma ready_access: "ready db a \<Longrightarrow> view_of db RetrievalAccess a = None"
  by (auto simp: ready_def addr_ok_def)

lemma incBinID_same:
  "incBinID db po pb = (bin, pb') \<Longrightarrow> pb_batch pb' = pb_batch pb \<and> pb_release pb' = pb_release pb"
  by (auto simp: incBinID_def Let_def)

definition puts_data :: "bytes \<Rightarrow> bytes \<Rightarrow> batch \<Rightarrow> batch \<Rightarrow> bool" where
  "puts_data a loc b b' \<longleftrightarrow>
     (\<forall>M. \<exists>v. it_Location v = loc \<and>
        view_batch b' M RetrievalData = (view_batch b M RetrievalData) (a \<mapsto> v))"

lemma puts_dataI:
  assumes "\<And>M. view_batch b' M RetrievalData = (view_batch b M RetrievalData) (a \<mapsto> index_value RetrievalData f)"
  shows "puts_data a (it_Location f) b b'"
  unfolding puts_data_def using assms by (intro allI exI [of _ "index_value RetrievalData f"]) simp

text \<open>
  \<open>b'\<close> has the writes of \<open>putRequest\<close> and \<open>putSync\<close> up to the choice between pin and cache.
\<close>

definition chunk_puts :: "bytes \<Rightarrow> item \<Rightarrow> u64 \<Rightarrow> batch \<Rightarrow> batch \<Rightarrow> bool" where
  "chunk_puts a f ts b b' \<longleftrightarrow>
     (\<forall>M. (keys_ok (view_batch b M) \<longrightarrow> keys_ok (view_batch b' M)) \<and>
       view_batch b' M RetrievalData = (view_batch b M RetrievalData) (a \<mapsto> index_value RetrievalData f) \<and>
       view_batch b' M RetrievalAccess = (view_batch b M RetrievalAccess)
         (a \<mapsto> index_value RetrievalAccess (f\<lparr>it_AccessTimestamp := ts\<rparr>)) \<and>
       (\<forall>n \<in> {PinIx, GcIx, PushIx}. view_batch b' M n = view_batch b M n))"

lemma chunk_putsD:
  assumes "chunk_puts a f ts b b'"
  shows "keys_ok (view_batch b M) \<Longrightarrow> keys_ok (view_batch b' M)"
    "view_batch b' M RetrievalData = (view_batch b M RetrievalData) (a \<mapsto> index_value RetrievalData f)"
    "view_batch b' M RetrievalAccess = (view_batch b M RetrievalAccess)
       (a \<mapsto> index_value RetrievalAccess (f\<lparr>it_AccessTimestamp := ts\<rparr>))"
    "view_batch b' M PinIx = view_batch b M PinIx" "view_batch b' M GcIx = view_batch b M GcIx"
    "view_batch b' M PushIx = view_batch b M PushIx"
  using assms by (simp_all add: chunk_puts_def)

lemma accessed_chunk_ok:
  assumes rd: "ready db a" and f: "it_Address f = a" "it_AccessTimestamp f = 0"
    and cp: "chunk_puts a f ts b b1"
    and p: "preserveOrCache db (f\<lparr>it_AccessTimestamp := ts\<rparr>) fp fc b1 = Inr (b', c, r)"
  shows "op_ok db a b b'" "puts_data a (it_Location f) b b'"
proof -
  let ?g = "f\<lparr>it_AccessTimestamp := ts\<rparr>"
  note nA = ready_access [OF rd]
  have k: "keys_ok (view_of db)" and ok: "addr_ok (view_of db) a" and a: "length a = 32"
    and nR: "view_of db RetrievalData a = None" using rd by (simp_all add: ready_def)
  have i: "item_at (view_of db) a ?g" using f nA nR by (simp add: item_at_def)
  note view = chunk_putsD(2-) [OF cp]
  consider (pin) h where "it_Address h = a" "b' = ix_put db PinIx h b1"
    | (pinned) "view_of db PinIx a \<noteq> None" "b' = b1"
    | (cache) "view_of db PinIx a = None" "b' = ix_put db GcIx ?g b1"
    using p by (cases rule: preserveOrCache_new [OF k i nA ok, of fp fc b1]) auto
  then have "op_ok db a b b' \<and> puts_data a (it_Location f) b b'"
  proof cases
    case pin
    show ?thesis unfolding pin(2)
    proof (intro conjI op_okI puts_dataI keys_batch chunk_putsD(1) [OF cp])
      fix M
      assume "same_at a (view_of db) (view_batch b M)" "addr_ok (view_batch b M) a"
      then show "addr_ok (view_batch (ix_put db PinIx h b1) M) a"
        using nA nR pin(1) f by (simp add: addr_ok_def same_at_def view)
    qed (use f a pin(1) in \<open>auto simp: same_at_def view\<close>)
  next
    case pinned
    show ?thesis unfolding pinned(2)
    proof (intro conjI op_okI puts_dataI keys_batch chunk_putsD(1) [OF cp])
      fix M
      assume "same_at a (view_of db) (view_batch b M)" "addr_ok (view_batch b M) a"
      then show "addr_ok (view_batch b1 M) a"
        using nA nR pinned(1) f by (simp add: addr_ok_def same_at_def view)
    qed (use f a in \<open>auto simp: same_at_def view\<close>)
  next
    case cache
    show ?thesis unfolding cache(2)
    proof (intro conjI op_okI puts_dataI keys_batch chunk_putsD(1) [OF cp])
      fix M
      assume "same_at a (view_of db) (view_batch b M)" "addr_ok (view_batch b M) a"
      then show "addr_ok (view_batch (ix_put db GcIx ?g b1) M) a"
        using nA nR cache(1) f by (simp add: addr_ok_def same_at_def view keys_fields)
    qed (use f a in \<open>auto simp: same_at_def view keys_fields\<close>)
  qed
  then show "op_ok db a b b'" "puts_data a (it_Location f) b b'" by blast+
qed

text \<open>The indexes of stamps and of syncing are not part of the invariant.\<close>

lemma op_ok_other:
  assumes "op_ok db a b b1" "length (it_Address f) = 32" "n \<in> {PullIx, PostageIndex, PostageChunks}"
  shows "op_ok db a b (ix_put db n f b1)"
  unfolding op_ok_def
proof (intro allI impI)
  fix M
  assume "same_at a (view_of db) (view_batch b M)" "addr_ok (view_batch b M) a"
  then have "touches a (view_batch b M) (view_batch b1 M)" using assms(1) by (simp add: op_ok_def)
  then show "touches a (view_batch b M) (view_batch (ix_put db n f b1) M)"
    unfolding touches_def using keys_put_batch [of b1 M f "ld_baseKey db" n] assms(2,3)
    by (elim insertE) (simp_all add: addr_ok_def same_at_def)
qed

lemma puts_data_other:
  "puts_data a l b b1 \<Longrightarrow> n \<noteq> RetrievalData \<Longrightarrow> puts_data a l b (ix_put db n f b1)"
  by (simp add: puts_data_def)

text \<open>What a put makes of the batch: the old chunk of the stamp index goes, the new one comes.\<close>

definition put_result :: "localdb \<Rightarrow> bytes \<Rightarrow> item \<Rightarrow> put_batch \<Rightarrow> put_batch \<Rightarrow> bool" where
  "put_result db a item pb pb' \<longleftrightarrow>
     (\<exists>c r pb1. replacePrevious db item pb = Inr (Some (c, r, pb1)) \<and> pb_release pb' = pb_release pb1 \<and>
        op_ok db a (pb_batch pb1) (pb_batch pb') \<and> puts_data a (it_Location item) (pb_batch pb1) (pb_batch pb'))"

lemma putRequest_ok:
  assumes rd: "ready db a" and i: "new_item a item" and p: "putRequest db env item fp fc pb = Inr (ex, c, r, pb')"
  shows "(replacePrevious db item pb = Inr None \<and> pb' = pb) \<or> put_result db a item pb pb'"
proof (cases "replacePrevious db item pb")
  case (Inl e)
  with p show ?thesis by (simp add: putRequest_def)
next
  case (Inr res)
  show ?thesis
  proof (cases res)
    case None
    with Inr p show ?thesis by (simp add: putRequest_def)
  next
    case (Some x)
    then obtain c1 r1 pb1 where x: "res = Some (c1, r1, pb1)" by (cases x) auto
    obtain bin pb2 where bin: "incBinID db (ls_po db (NewAddress (it_Address item))) pb1 = (bin, pb2)"
      by (rule prod.exhaust)
    let ?f = "item\<lparr>it_StoreTimestamp := pe_now env, it_BinID := bin\<rparr>"
    let ?g = "?f\<lparr>it_AccessTimestamp := pe_now2 env\<rparr>"
    let ?b1 = "ix_put db RetrievalAccess ?g (ix_put db PostageIndex ?f (ix_put db PostageChunks ?f
      (ix_put db RetrievalData ?f (pb_batch pb2))))"
    note b2 = incBinID_same [OF bin]
    have f: "it_Address ?f = a" "it_AccessTimestamp ?f = 0" "it_Location ?f = it_Location item"
      "length (it_Address item) = 32"
      using i rd by (simp_all add: new_item_def ready_def)
    have cp: "chunk_puts a ?f (pe_now2 env) (pb_batch pb1) ?b1"
      unfolding chunk_puts_def using b2 f by (intro allI conjI impI keys_batch) simp_all
    from p Inr x bin obtain b' c' r' where pc: "preserveOrCache db ?g fp fc ?b1 = Inr (b', c', r')"
      and pb': "pb' = pb2\<lparr>pb_batch := if \<not> fc then ix_put db PullIx ?g b' else b'\<rparr>"
      by (auto simp: putRequest_def Let_def split: sum.splits prod.splits)
    note ac = accessed_chunk_ok [OF rd f(1,2) cp pc]
    have "op_ok db a (pb_batch pb1) (pb_batch pb')"
      using ac(1) op_ok_other [OF ac(1), of ?g PullIx] f(4) by (auto simp: pb')
    moreover have "puts_data a (it_Location item) (pb_batch pb1) (pb_batch pb')"
      using ac(2) puts_data_other [OF ac(2), of PullIx] by (auto simp: pb')
    ultimately show ?thesis
      using Inr x b2 unfolding put_result_def pb' by auto
  qed
qed

lemma putSync_ok:
  assumes rd: "ready db a" and i: "new_item a item" and p: "putSync db env item pb = Inr (ex, c, r, pb')"
  shows "(replacePrevious db item pb = Inr None \<and> pb' = pb) \<or> put_result db a item pb pb'"
proof (cases "replacePrevious db item pb")
  case (Inl e)
  with p show ?thesis by (simp add: putSync_def)
next
  case (Inr res)
  show ?thesis
  proof (cases res)
    case None
    with Inr p show ?thesis by (simp add: putSync_def)
  next
    case (Some x)
    then obtain c1 r1 pb1 where x: "res = Some (c1, r1, pb1)" by (cases x) auto
    obtain bin pb2 where bin: "incBinID db (ls_po db (NewAddress (it_Address item))) pb1 = (bin, pb2)"
      by (rule prod.exhaust)
    let ?f = "item\<lparr>it_StoreTimestamp := pe_now env, it_BinID := bin\<rparr>"
    let ?g = "?f\<lparr>it_AccessTimestamp := pe_now2 env\<rparr>"
    let ?b0 = "ix_put db PullIx ?f (ix_put db RetrievalData ?f (pb_batch pb2))"
    let ?b1 = "ix_put db RetrievalAccess ?g (ix_put db PostageIndex ?f (ix_put db PostageChunks ?f ?b0))"
    note b2 = incBinID_same [OF bin]
    have f: "it_Address ?f = a" "it_AccessTimestamp ?f = 0" "it_Location ?f = it_Location item"
      "length (it_Address item) = 32"
      using i rd by (simp_all add: new_item_def ready_def)
    have cp: "chunk_puts a ?f (pe_now2 env) (pb_batch pb1) ?b1"
      unfolding chunk_puts_def using b2 f by (intro allI conjI impI keys_batch) simp_all
    from p Inr x bin obtain b' c' r' where pc: "preserveOrCache db ?g False False ?b1 = Inr (b', c', r')"
      and pb': "pb' = pb2\<lparr>pb_batch := b'\<rparr>"
      by (auto simp: putSync_def Let_def split: sum.splits prod.splits)
    show ?thesis
      using accessed_chunk_ok [OF rd f(1,2) cp pc] Inr x b2 unfolding put_result_def pb' by auto
  qed
qed

lemma putUpload_ok:
  assumes rd: "ready db a" and i: "new_item a item" and p: "putUpload db env item pb = Inr (ex, c, pb')"
  shows "(replacePrevious db item pb = Inr None \<and> pb' = pb) \<or>
    put_result db a item pb pb' \<and>
    (\<exists>st. \<forall>M. view_batch (pb_batch pb') M PushIx (pushkey st a) \<noteq> None)"
proof (cases "replacePrevious db item pb")
  case (Inl e)
  with p show ?thesis by (simp add: putUpload_def)
next
  case (Inr res)
  show ?thesis
  proof (cases res)
    case None
    with Inr p show ?thesis by (simp add: putUpload_def)
  next
    case (Some x)
    then obtain c1 r1 pb1 where x: "res = Some (c1, r1, pb1)" by (cases x) auto
    obtain bin pb2 where bin: "incBinID db (ls_po db (NewAddress (it_Address item))) pb1 = (bin, pb2)"
      by (rule prod.exhaust)
    let ?f = "item\<lparr>it_StoreTimestamp := pe_now env, it_BinID := bin\<rparr>"
    let ?b = "ix_put db PostageChunks ?f (ix_put db PostageIndex ?f (ix_put db PushIx ?f
      (ix_put db PullIx ?f (ix_put db RetrievalData ?f (pb_batch pb2)))))"
    note b2 = incBinID_same [OF bin]
    have f: "it_Address item = a" "length (it_Address item) = 32"
      using i rd by (simp_all add: new_item_def ready_def)
    from p Inr x bin have pb': "pb' = pb2\<lparr>pb_batch := ?b\<rparr>"
      by (auto simp: putUpload_def Let_def split: sum.splits prod.splits)
    have "op_ok db a (pb_batch pb1) ?b"
      using ready_access [OF rd] rd b2 f
      by (intro op_okI keys_batch) (auto simp: ready_def addr_ok_def same_at_def keys_fields)
    moreover have "puts_data a (it_Location ?f) (pb_batch pb1) ?b"
      using b2 f by (intro puts_dataI) simp
    ultimately have "put_result db a item pb pb'"
      using Inr x b2 unfolding put_result_def pb' by auto
    moreover have "\<forall>M. view_batch (pb_batch pb') M PushIx (pushkey (pe_now env) a) \<noteq> None"
      using f by (simp add: keys_fields pb')
    ultimately show ?thesis by blast
  qed
qed

text \<open>An uploaded chunk is pinned by one more write.\<close>

lemma op_ok_pin:
  assumes o: "op_ok db a b b1" and f: "it_Address f = a" "length a = 32"
    and q: "\<And>M. view_batch b1 M PushIx (pushkey st a) \<noteq> None"
  shows "op_ok db a b (ix_put db PinIx f b1)"
  unfolding op_ok_def
proof (intro allI impI)
  fix M
  assume sm: "same_at a (view_of db) (view_batch b M)" "addr_ok (view_batch b M) a"
  then have t: "touches a (view_batch b M) (view_batch b1 M)" using o by (simp add: op_ok_def)
  then have ok: "addr_ok (view_batch b1 M) a" using sm(2) by (simp add: touches_def)
  with q [of M] have "view_batch b1 M RetrievalAccess a = None" unfolding addr_ok_def by blast
  with ok have "addr_ok (view_batch (ix_put db PinIx f b1) M) a" using f by (simp add: addr_ok_def)
  moreover have "keys_ok (view_batch b1 M) \<Longrightarrow> keys_ok (view_batch (ix_put db PinIx f b1) M)"
    using f by (intro keys_batch) simp_all
  ultimately show "touches a (view_batch b M) (view_batch (ix_put db PinIx f b1) M)"
    using t f unfolding touches_def by (simp add: same_at_def)
qed

lemma op_ok_pin_new:
  assumes rd: "ready db a" and f: "it_Address f = a"
  shows "op_ok db a b (ix_put db PinIx f b)"
proof -
  have a: "length a = 32" "view_of db RetrievalAccess a = None" using rd ready_access by (auto simp: ready_def)
  then show ?thesis using f
    by (intro op_okI keys_batch) (simp_all add: addr_ok_def same_at_def)
qed

lemma put_op_ok:
  assumes rd: "ready db a" and i: "new_item a item" and p: "put_op mode db env item pb = Inr (ex, c, r, pb')"
  shows "(replacePrevious db item pb = Inr None \<and> op_ok db a (pb_batch pb) (pb_batch pb') \<and>
      pb_release pb' = pb_release pb \<and>
      (\<forall>M. view_batch (pb_batch pb') M RetrievalData = view_batch (pb_batch pb) M RetrievalData)) \<or>
    put_result db a item pb pb'"
proof -
  have upload: ?thesis
    if u: "putUpload db env item pb = Inr (ex, c0, pb0)"
      and pin: "pb' = pb0 \<or> (\<exists>f. it_Address f = a \<and> pb' = pb0\<lparr>pb_batch := ix_put db PinIx f (pb_batch pb0)\<rparr>)" for c0 pb0
  proof -
    from putUpload_ok [OF rd i u] show ?thesis
    proof
      assume "replacePrevious db item pb = Inr None \<and> pb0 = pb"
      with pin op_ok_pin_new [OF rd] show ?thesis by auto
    next
      assume w: "put_result db a item pb pb0 \<and>
        (\<exists>st. \<forall>M. view_batch (pb_batch pb0) M PushIx (pushkey st a) \<noteq> None)"
      then obtain st where st: "\<And>M. view_batch (pb_batch pb0) M PushIx (pushkey st a) \<noteq> None" by blast
      from w obtain c r pb1 where q: "replacePrevious db item pb = Inr (Some (c, r, pb1))"
        "pb_release pb0 = pb_release pb1" "op_ok db a (pb_batch pb1) (pb_batch pb0)"
        "puts_data a (it_Location item) (pb_batch pb1) (pb_batch pb0)"
        unfolding put_result_def by blast
      have a: "length a = 32" using rd by (simp add: ready_def)
      from pin show ?thesis
      proof (elim disjE exE)
        fix f
        assume f: "it_Address f = a \<and> pb' = pb0\<lparr>pb_batch := ix_put db PinIx f (pb_batch pb0)\<rparr>"
        then have "op_ok db a (pb_batch pb1) (pb_batch pb')"
          using op_ok_pin [OF q(3) _ a st] by simp
        with q f puts_data_other [OF q(4), of PinIx] show ?thesis unfolding put_result_def by auto
      qed (use w in simp)
    qed
  qed
  have ia: "item_at (view_of db) a item" using i by (simp add: new_item_def item_at_def)
  have k: "keys_ok (view_of db)" using rd by (simp add: ready_def)
  have up: "\<exists>c0 pb0. putUpload db env item pb = Inr (ex, c0, pb0) \<and>
      (pb' = pb0 \<or> (\<exists>f. it_Address f = a \<and> pb' = pb0\<lparr>pb_batch := ix_put db PinIx f (pb_batch pb0)\<rparr>))"
    if m: "mode = ModePutUpload \<or> mode = ModePutUploadPin"
  proof -
    from p m obtain c0 pb0 where u: "putUpload db env item pb = Inr (ex, c0, pb0)"
      by (auto simp: put_op_def Let_def split: sum.splits)
    obtain f where "it_Address f = a" "setPin db item (pb_batch pb0) = Inr (ix_put db PinIx f (pb_batch pb0), 0)"
      using setPin_unaccessed [OF k ia ready_access [OF rd]] by blast
    with p m u show ?thesis by (auto simp: put_op_def Let_def split: sum.splits)
  qed
  show ?thesis
  proof (cases "mode = ModePutUpload \<or> mode = ModePutUploadPin")
    case True
    from up [OF this] upload show ?thesis by blast
  next
    case False
    then consider "mode = ModePutSync" | "\<exists>fp fc. putRequest db env item fp fc pb = Inr (ex, c, r, pb')"
      using p by (cases mode) (auto simp: put_op_def)
    then show ?thesis
    proof cases
      case 1
      with p have "putSync db env item pb = Inr (ex, c, r, pb')" by (simp add: put_op_def)
      from putSync_ok [OF rd i this] show ?thesis by auto
    next
      case 2
      then obtain fp fc where "putRequest db env item fp fc pb = Inr (ex, c, r, pb')" by blast
      from putRequest_ok [OF rd i this] show ?thesis by auto
    qed
  qed
qed

end
