(* ===== verification/Sharky_Props.thy ===== *)
theory Sharky_Props
  imports Sharky_Slots
begin

text \<open>
  The shards of a store and their clients as a step relation. A state is the list of shards
  with the locations the clients hold and the blobs they wrote there. The invariant says that
  a slot has one holder: the bit vector, the goroutines or one client.
\<close>

section \<open>The invariant of a shard\<close>

definition opt_list :: "'a option \<Rightarrow> 'a list" where
  "opt_list x = (case x of None \<Rightarrow> [] | Some y \<Rightarrow> [y])"

lemma opt_list_simps [simp]: "opt_list None = []" "opt_list (Some y) = [y]"
  by (simp_all add: opt_list_def)

definition in_flight :: "shard \<Rightarrow> u32 list" where
  "in_flight sh = opt_list (sh_out sh) @ opt_list (sh_slot sh) @ opt_list (sh_limbo sh)"

definition shard_ok :: "shard \<Rightarrow> u32 set \<Rightarrow> bool" where
  "shard_ok sh U \<longleftrightarrow> slots_ok (sh_slots sh) \<and> distinct (in_flight sh) \<and>
     set (in_flight sh) \<inter> U = {} \<and> (\<forall>s \<in> set (in_flight sh) \<union> U. unat s \<in> busy (sh_slots sh)) \<and>
     (sh_slotsQuit sh \<longrightarrow> sh_out sh = None \<and> sh_quit sh) \<and> (sh_quit sh \<longrightarrow> sh_slot sh = None) \<and>
     (\<not> sh_quit sh \<longrightarrow> sh_limbo sh = None)"

lemma unat_mem_image: "unat i \<in> unat ` X \<longleftrightarrow> (i :: u32) \<in> X"
  by (auto simp flip: word_unat_eq_iff)

lemma process_in_ok:
  assumes "slots_ok (sh_slots sh)" "unat i \<in> busy (sh_slots sh)"
  shows "slots_ok (sh_slots (process_in i sh))"
    "busy (sh_slots (process_in i sh)) = busy (sh_slots sh) - {unat i}"
  using slots.release_inv [OF assms] slots.release_used [OF assms] by (simp_all add: process_in_def)

lemma process_in_same [simp]:
  "sh_file (process_in i sh) = sh_file sh" "sh_index (process_in i sh) = sh_index sh"
  "sh_maxDataSize (process_in i sh) = sh_maxDataSize sh" "sh_out (process_in i sh) = sh_out sh"
  "sh_slot (process_in i sh) = sh_slot sh" "sh_limbo (process_in i sh) = sh_limbo sh"
  "sh_quit (process_in i sh) = sh_quit sh" "sh_slotsQuit (process_in i sh) = sh_slotsQuit sh"
  by (simp_all add: process_in_def)

definition same_file :: "shard \<Rightarrow> shard \<Rightarrow> bool" where
  "same_file sh sh' \<longleftrightarrow> sh_file sh' = sh_file sh \<and> sh_index sh' = sh_index sh \<and>
     sh_maxDataSize sh' = sh_maxDataSize sh"

lemma pop_ok [inv_intro]:
  assumes ok: "shard_ok sh U" and room: "slots_room (sh_slots sh)" and p: "process_pop sh = Some sh'"
  shows "shard_ok sh' U \<and> same_file sh sh'"
proof -
  obtain h sl where s: "slots_pop (sh_slots sh) = (h, sl)" by fastforce
  have so: "slots_ok (sh_slots sh)" using ok by (simp add: shard_ok_def)
  from p s have sh': "sh' = sh\<lparr>sh_slots := sl, sh_out := Some h\<rparr>" "sh_out sh = None" "\<not> sh_slotsQuit sh"
    by (auto simp: process_pop_def split: if_splits)
  have H: "unat ` (set (in_flight sh) \<union> U) \<subseteq> busy (sh_slots sh)" using ok by (auto simp: shard_ok_def)
  note a = slots.alloc_disjoint [OF so room s H] slots.alloc_inv [OF so room s]
  have fresh: "h \<notin> set (in_flight sh) \<union> U" using a(1) unat_mem_image by blast
  have fl: "in_flight sh' = h # in_flight sh" by (simp add: in_flight_def sh')
  show ?thesis
    using ok a fresh unfolding shard_ok_def fl by (auto simp: sh' same_file_def)
qed

lemma take_ok [inv_intro]:
  assumes "shard_ok sh U" "process_take sh = Some sh'"
  shows "shard_ok sh' U \<and> same_file sh sh'"
  using assms by (auto simp: process_take_def shard_ok_def in_flight_def same_file_def
      split: option.splits if_splits)

lemma quit_ok [inv_intro]:
  assumes "shard_ok sh U" "process_quit sh = Some sh'"
  shows "shard_ok sh' U \<and> same_file sh sh'"
  using assms by (auto simp: process_quit_def shard_ok_def in_flight_def same_file_def split: if_splits)

lemma give_back:
  assumes ok: "slots_ok (sh_slots sh)" and d: "distinct (i # fl)" "set (i # fl) \<inter> U = {}"
    and b: "\<forall>s \<in> set (i # fl) \<union> U. unat s \<in> busy (sh_slots sh)"
  shows "slots_ok (sh_slots (process_in i sh))" "\<forall>s \<in> set fl \<union> U. unat s \<in> busy (sh_slots (process_in i sh))"
proof -
  have i: "unat i \<in> busy (sh_slots sh)" using b by simp
  note p = process_in_ok [OF ok i]
  show "slots_ok (sh_slots (process_in i sh))" by (rule p(1))
  show "\<forall>s \<in> set fl \<union> U. unat s \<in> busy (sh_slots (process_in i sh))"
  proof
    fix s assume s: "s \<in> set fl \<union> U"
    then have "s \<noteq> i" using d by auto
    then have "unat s \<noteq> unat i" by (simp add: word_unat_eq_iff)
    moreover have "unat s \<in> busy (sh_slots sh)" using b s by auto
    ultimately show "unat s \<in> busy (sh_slots (process_in i sh))" unfolding p(2) by simp
  qed
qed

lemma limbo_ok [inv_intro]:
  assumes ok: "shard_ok sh U" and p: "process_limbo sh = Some sh'"
  shows "shard_ok sh' U \<and> same_file sh sh'"
proof -
  from p obtain i where i: "sh_limbo sh = Some i" "sh' = (process_in i sh)\<lparr>sh_limbo := None\<rparr>"
    by (auto simp: process_limbo_def split: option.splits)
  let ?fl = "opt_list (sh_out sh) @ opt_list (sh_slot sh)"
  have fl: "in_flight sh = ?fl @ [i]" "in_flight sh' = ?fl" by (simp_all add: in_flight_def i)
  have "slots_ok (sh_slots sh)" "distinct (i # ?fl)" "set (i # ?fl) \<inter> U = {}"
    "\<forall>s \<in> set (i # ?fl) \<union> U. unat s \<in> busy (sh_slots sh)"
    using ok unfolding shard_ok_def fl by auto
  note g = give_back [OF this]
  show ?thesis using ok g unfolding shard_ok_def fl by (auto simp: i same_file_def)
qed

lemma slots_quit_ok [inv_intro]:
  assumes ok: "shard_ok sh U" and p: "process_slots_quit sh = Some sh'"
  shows "shard_ok sh' U \<and> same_file sh sh'"
proof (cases "sh_out sh")
  case None
  then show ?thesis
    using assms by (auto simp: process_slots_quit_def shard_ok_def in_flight_def same_file_def Let_def split: if_splits)
next
  case (Some i)
  then have sh': "sh' = (process_in i sh)\<lparr>sh_out := None, sh_slotsQuit := True\<rparr>" "sh_quit sh"
    using p by (auto simp: process_slots_quit_def Let_def split: if_splits)
  let ?fl = "opt_list (sh_slot sh) @ opt_list (sh_limbo sh)"
  have fl: "in_flight sh = i # ?fl" "in_flight sh' = ?fl" by (simp_all add: in_flight_def sh' Some)
  have "slots_ok (sh_slots sh)" "distinct (i # ?fl)" "set (i # ?fl) \<inter> U = {}"
    "\<forall>s \<in> set (i # ?fl) \<union> U. unat s \<in> busy (sh_slots sh)"
    using ok unfolding shard_ok_def fl by auto
  note g = give_back [OF this]
  show ?thesis using ok g sh'(2) unfolding shard_ok_def fl by (auto simp: sh'(1) same_file_def)
qed

lemma release_ok [inv_intro]:
  assumes ok: "shard_ok sh (insert i U)" and i: "i \<notin> U"
  shows "shard_ok (process_in i sh) U \<and> same_file sh (process_in i sh)"
proof -
  have fl: "in_flight (process_in i sh) = in_flight sh" by (simp add: in_flight_def)
  have "slots_ok (sh_slots sh)" "distinct (i # in_flight sh)" "set (i # in_flight sh) \<inter> U = {}"
    "\<forall>s \<in> set (i # in_flight sh) \<union> U. unat s \<in> busy (sh_slots sh)"
    using ok i unfolding shard_ok_def by auto
  note g = give_back [OF this]
  show ?thesis using ok g unfolding shard_ok_def fl by (auto simp: same_file_def)
qed

lemma entry_ok [inv_intro]:
  assumes ok: "shard_ok sh U" and w: "process_write n buf sh = Some (e, sh')"
  obtains s where "sh_slot sh = Some s" "s \<notin> U" "shard_ok sh' (insert s U)" "shard_ok sh' U"
    "sh_file sh' = file_WriteAt (take n buf) (shard_offset sh s) (sh_file sh)"
    "sh_index sh' = sh_index sh" "sh_maxDataSize sh' = sh_maxDataSize sh" "\<not> sh_quit sh"
    "en_loc e = \<lparr>loc_Shard = sh_index sh, loc_Slot = s, loc_Length = of_nat n\<rparr>"
    "en_err e = (n < length buf)"
proof -
  from w obtain s where s: "sh_slot sh = Some s" "\<not> sh_quit sh"
    "sh' = (snd (shard_write n buf s sh))\<lparr>sh_slot := None\<rparr>" "e = fst (shard_write n buf s sh)"
    by (auto simp: process_write_def split: option.splits if_splits prod.splits)
  have fl: "set (in_flight sh) = insert s (set (in_flight sh'))" "s \<notin> set (in_flight sh')"
    "distinct (in_flight sh')"
    using ok s by (auto simp: shard_ok_def in_flight_def shard_write_def)
  have "shard_ok sh' (insert s U)" "shard_ok sh' U" "s \<notin> U"
    using ok fl s by (auto simp: shard_ok_def shard_write_def)
  with s that show thesis by (simp add: shard_write_def)
qed

text \<open>\<open>close\<close> saves the bit vector; opening the files again gives the same busy slots.\<close>

lemma reopen_ok:
  assumes ok: "shard_ok sh U" and c: "shard_close sh = Some sh'"
  shows "shard_ok (shard_create (sh_index sh') (sh_maxDataSize sh') (sh_file sh') (sh_free sh')) U \<and>
    sh_file sh' = sh_file sh \<and> sh_index sh' = sh_index sh \<and> sh_maxDataSize sh' = sh_maxDataSize sh"
proof -
  have so: "slots_ok (sh_slots sh)" using ok by (simp add: shard_ok_def)
  have sh': "sh' = sh\<lparr>sh_free := sl_data (sh_slots sh)\<rparr>"
    using c by (auto simp: shard_close_def slots_save_def split: if_splits)
  have "unat (sl_size (sh_slots sh)) = 8 * length (sl_data (sh_slots sh))" using so by (simp add: slots_ok_def)
  moreover have "unat (sl_size (sh_slots sh)) < 2 ^ 32"
    using unsigned_less [of "sl_size (sh_slots sh)", where 'a = nat] by simp
  ultimately have l: "8 * length (sl_data (sh_slots sh)) < 2 ^ 32" by simp
  have b: "busy (slots_load (sl_data (sh_slots sh))) = busy (sh_slots sh)"
    using slots_load_ok(2) [OF l] by (simp add: busy_def)
  have "\<forall>s \<in> U. unat s \<in> busy (sh_slots sh)" using ok by (auto simp: shard_ok_def)
  then show ?thesis
    using slots_load_ok(1) [OF l] b
    by (simp add: sh' shard_create_def shard_ok_def in_flight_def)
qed

section \<open>The store and its clients\<close>

type_synonym sharky = "shard list \<times> (location \<times> bytes) list"

definition slots_of :: "nat \<Rightarrow> (location \<times> bytes) list \<Rightarrow> u32 set" where
  "slots_of i held = {loc_Slot loc | loc buf. (loc, buf) \<in> set held \<and> unat (loc_Shard loc) = i}"

definition stored :: "shard list \<Rightarrow> location \<times> bytes \<Rightarrow> bool" where
  "stored shs = (\<lambda>(loc, buf).
     unat (loc_Shard loc) < length shs \<and> length buf = unat (loc_Length loc) \<and>
     length buf \<le> sh_maxDataSize (shs ! unat (loc_Shard loc)) \<and>
     shard_read (length buf) (loc_Slot loc) (shs ! unat (loc_Shard loc)) = Some buf)"

definition place :: "location \<times> bytes \<Rightarrow> u8 \<times> u32" where
  "place x = (loc_Shard (fst x), loc_Slot (fst x))"

text \<open>\<open>L i\<close> is a set of slots of shard \<open>i\<close> that nobody holds any more, though they are not free.\<close>

definition sharky_ok :: "(nat \<Rightarrow> u32 set) \<Rightarrow> sharky \<Rightarrow> bool" where
  "sharky_ok L = (\<lambda>(shs, held).
     length shs \<le> 256 \<and>
     (\<forall>i < length shs. unat (sh_index (shs ! i)) = i \<and> sh_maxDataSize (shs ! i) < 2 ^ 16 \<and>
        shard_ok (shs ! i) (slots_of i held \<union> L i) \<and> slots_of i held \<inter> L i = {}) \<and>
     distinct (map place held) \<and> (\<forall>x \<in> set held. stored shs x))"

definition shard_steps :: "(shard \<Rightarrow> shard option) list" where
  "shard_steps = [process_take, process_quit, process_limbo, process_slots_quit]"

inductive sharky_step :: "sharky \<Rightarrow> sharky \<Rightarrow> bool" where
  sk_pop: "i < length shs \<Longrightarrow> slots_room (sh_slots (shs ! i)) \<Longrightarrow> process_pop (shs ! i) = Some sh \<Longrightarrow>
    sharky_step (shs, held) (shs [i := sh], held)"
| sk_goroutine: "i < length shs \<Longrightarrow> f \<in> set shard_steps \<Longrightarrow> f (shs ! i) = Some sh \<Longrightarrow>
    sharky_step (shs, held) (shs [i := sh], held)"
| sk_write: "i < length shs \<Longrightarrow> n \<le> length buf \<Longrightarrow> sharky_Write i n lost buf shs = Some (r, shs') \<Longrightarrow>
    sharky_step (shs, held) (shs', (case r of Inl _ \<Rightarrow> held | Inr loc \<Rightarrow> (loc, buf) # held))"
| sk_release: "(loc, buf) \<in> set held \<Longrightarrow>
    sharky_step (shs, held) (sharky_Release loc shs, remove1 (loc, buf) held)"
| sk_reopen: "map shard_close shs = map Some shs' \<Longrightarrow>
    sharky_step (shs, held)
      (map (\<lambda>sh. shard_create (sh_index sh) (sh_maxDataSize sh) (sh_file sh) (sh_free sh)) shs', held)"

lemma stored_same_file:
  assumes "i < length shs" "same_file (shs ! i) sh"
  shows "stored (shs [i := sh]) x = stored shs x"
  using assms by (cases x) (auto simp: stored_def nth_list_update same_file_def shard_read_def shard_offset_def)

lemma shard_step_ok:
  assumes ok: "sharky_ok L (shs, held)" and i: "i < length shs"
    and sh: "shard_ok sh (slots_of i held \<union> L i) \<and> same_file (shs ! i) sh"
  shows "sharky_ok L (shs [i := sh], held)"
  using ok i sh stored_same_file [OF i]
  by (auto simp: sharky_ok_def nth_list_update same_file_def)

lemma goroutine_ok:
  assumes "shard_ok sh U" "f \<in> set shard_steps" "f sh = Some sh'"
  shows "shard_ok sh' U \<and> same_file sh sh'"
proof -
  consider "f = process_take" | "f = process_quit" | "f = process_limbo" | "f = process_slots_quit"
    using assms(2) by (auto simp: shard_steps_def)
  then show ?thesis
    using assms(1,3) by cases (auto intro: take_ok quit_ok limbo_ok slots_quit_ok del: conjI)
qed

lemma slots_of_Cons:
  "slots_of i ((loc, buf) # held) =
     (if unat (loc_Shard loc) = i then insert (loc_Slot loc) (slots_of i held) else slots_of i held)"
  by (auto simp: slots_of_def)

lemma place_inj:
  "distinct (map place held) \<Longrightarrow> x \<in> set held \<Longrightarrow> y \<in> set held \<Longrightarrow> place x = place y \<Longrightarrow> x = y"
  by (auto simp: distinct_map inj_on_def)

lemma place_slots_of:
  assumes "(of_nat i, s) \<in> place ` set held" "i < 256"
  shows "s \<in> slots_of i held"
proof -
  obtain loc buf where "(loc, buf) \<in> set held" "loc_Shard loc = of_nat i" "loc_Slot loc = s"
    using assms(1) by (auto simp: place_def)
  moreover have "unat (of_nat i :: u8) = i" using assms(2) by (simp add: unat_of_nat)
  ultimately show ?thesis unfolding slots_of_def by (metis (mono_tags, lifting) mem_Collect_eq)
qed

lemma slots_of_remove1:
  assumes "distinct (map place held)" "(loc, buf) \<in> set held"
  shows "slots_of i (remove1 (loc, buf) held) =
    (if unat (loc_Shard loc) = i then slots_of i held - {loc_Slot loc} else slots_of i held)"
proof -
  have d: "distinct held" using assms(1) by (simp add: distinct_map)
  have key: "x = (loc, buf)"
    if "x \<in> set held" "unat (loc_Shard (fst x)) = unat (loc_Shard loc)" "loc_Slot (fst x) = loc_Slot loc" for x
    using place_inj [OF assms(1) that(1) assms(2)] that by (simp add: place_def word_unat_eq_iff)
  have R: "set (remove1 (loc, buf) held) = set held - {(loc, buf)}" using d by (rule set_remove1_eq)
  have M: "s \<in> slots_of i xs \<longleftrightarrow> (\<exists>x \<in> set xs. unat (loc_Shard (fst x)) = i \<and> loc_Slot (fst x) = s)" for s xs
    by (auto simp: slots_of_def Bex_def)
  have "s \<in> slots_of i (remove1 (loc, buf) held) \<longleftrightarrow>
      s \<in> slots_of i held \<and> \<not> (unat (loc_Shard loc) = i \<and> s = loc_Slot loc)" for s
    unfolding M R using key assms(2) by (metis Diff_iff fst_conv singleton_iff)
  then show ?thesis by (cases "unat (loc_Shard loc) = i") (simp_all add: set_eq_iff)
qed

lemma release_step_ok:
  assumes ok: "sharky_ok L (shs, held)" and m: "(loc, buf) \<in> set held"
  shows "sharky_ok L (sharky_Release loc shs, remove1 (loc, buf) held)"
proof -
  let ?i = "unat (loc_Shard loc)" and ?h = "remove1 (loc, buf) held"
  have d: "distinct (map place held)" and i: "?i < length shs"
    using ok m by (auto simp: sharky_ok_def stored_def)
  have "loc_Slot loc \<in> slots_of ?i held" using m by (auto simp: slots_of_def)
  then have U: "slots_of ?i held \<union> L ?i = insert (loc_Slot loc) (slots_of ?i ?h \<union> L ?i)"
      "loc_Slot loc \<notin> slots_of ?i ?h \<union> L ?i"
    using slots_of_remove1 [OF d m, of ?i] ok i by (auto simp: sharky_ok_def)
  have "shard_ok (shs ! ?i) (insert (loc_Slot loc) (slots_of ?i ?h \<union> L ?i))"
    using ok i unfolding U(1) [symmetric] by (simp add: sharky_ok_def)
  from release_ok [OF this U(2)] have r: "shard_ok (process_in (loc_Slot loc) (shs ! ?i)) (slots_of ?i ?h \<union> L ?i)"
    "same_file (shs ! ?i) (process_in (loc_Slot loc) (shs ! ?i))" by simp_all
  have "distinct (map place ?h)" using d by (simp add: distinct_map inj_on_def set_remove1_eq)
  moreover have "slots_of j ?h = slots_of j held" if "j \<noteq> ?i" for j
    using slots_of_remove1 [OF d m, of j] that by simp
  moreover have "set ?h \<subseteq> set held" by (rule set_remove1_subset)
  moreover have "slots_of ?i ?h \<inter> L ?i = {}" using U(1) ok i slots_of_remove1 [OF d m, of ?i]
    by (auto simp: sharky_ok_def)
  ultimately show ?thesis
    using ok r i stored_same_file [OF i r(2)]
    by (auto simp: sharky_ok_def sharky_Release_def Let_def nth_list_update same_file_def)
qed

lemma offset_apart:
  assumes "s \<noteq> t" "m \<le> M" "n \<le> M"
  shows "s * M + m \<le> t * M \<or> t * M + n \<le> s * (M :: nat)"
proof (cases "s < t")
  case True
  then have "Suc s * M \<le> t * M" by (intro mult_right_mono) auto
  then show ?thesis using assms by simp
next
  case False
  then have "Suc t * M \<le> s * M" using assms(1) by (intro mult_right_mono) auto
  then show ?thesis using assms by simp
qed

lemma write_step_ok:
  assumes ok: "sharky_ok L (shs, held)" and i: "i < length shs" and n: "n \<le> length buf"
    and w: "sharky_Write i n lost buf shs = Some (r, shs')"
  shows "sharky_ok L (shs', (case r of Inl _ \<Rightarrow> held | Inr loc \<Rightarrow> (loc, buf) # held))"
proof (cases "length buf > sh_maxDataSize (shs ! i)")
  case True
  then have "r = Inl ErrTooLong" "shs' = shs" using w by (simp_all add: sharky_Write_def)
  with ok show ?thesis by simp
next
  case False
  let ?sh = "shs ! i"
  have so: "shard_ok ?sh (slots_of i held \<union> L i)" and idx: "unat (sh_index ?sh) = i"
    and M: "sh_maxDataSize ?sh < 2 ^ 16" using ok i by (simp_all add: sharky_ok_def)
  from w False obtain e sh where e: "process_write n buf ?sh = Some (e, sh)" "shs' = shs [i := sh]"
    "r = (if lost then Inl ErrContext else if en_err e then Inl ErrFile else Inr (en_loc e))"
    by (auto simp: sharky_Write_def Let_def split: option.splits)
  from entry_ok [OF so e(1)] obtain s where s: "s \<notin> slots_of i held \<union> L i"
    "shard_ok sh (insert s (slots_of i held \<union> L i))" "shard_ok sh (slots_of i held \<union> L i)"
    "sh_file sh = file_WriteAt (take n buf) (shard_offset ?sh s) (sh_file ?sh)"
    "sh_index sh = sh_index ?sh" "sh_maxDataSize sh = sh_maxDataSize ?sh"
    "en_loc e = \<lparr>loc_Shard = sh_index ?sh, loc_Slot = s, loc_Length = of_nat n\<rparr>"
    "en_err e = (n < length buf)" by blast
  have old: "stored shs' x" if x: "x \<in> set held" for x
  proof -
    obtain loc b where xb: "x = (loc, b)" by fastforce
    have st: "stored shs (loc, b)" using ok x xb by (auto simp: sharky_ok_def)
    show ?thesis
    proof (cases "unat (loc_Shard loc) = i")
      case True
      then have "loc_Slot loc \<in> slots_of i held" using x xb by (auto simp: slots_of_def)
      then have "loc_Slot loc \<noteq> s" using s(1) by auto
      then have ne: "unat (loc_Slot loc) \<noteq> unat s" by (simp add: word_unat_eq_iff)
      have "unat (loc_Slot loc) * sh_maxDataSize ?sh + length b \<le> unat s * sh_maxDataSize ?sh \<or>
          unat s * sh_maxDataSize ?sh + length (take n buf) \<le> unat (loc_Slot loc) * sh_maxDataSize ?sh"
        using ne st True False n by (intro offset_apart) (auto simp: stored_def)
      then have "shard_read (length b) (loc_Slot loc) sh = Some b"
        using st True read_elsewhere [of "length b" "shard_offset ?sh (loc_Slot loc)" "sh_file ?sh" b
            "shard_offset ?sh s" "take n buf"]
        by (auto simp: stored_def shard_read_def shard_offset_def s(4,6))
      then show ?thesis using st True i s(6) by (auto simp: stored_def xb e(2))
    next
      case False
      then show ?thesis using st by (auto simp: stored_def xb e(2) nth_list_update)
    qed
  qed
  have others: "unat (sh_index (shs' ! j)) = j \<and> sh_maxDataSize (shs' ! j) < 2 ^ 16"
    if "j < length shs" for j
    using ok that i s(5,6) by (auto simp: sharky_ok_def e(2) nth_list_update)
  show ?thesis
  proof (cases r)
    case (Inl x)
    then show ?thesis
      using ok old others s(3) i by (auto simp: sharky_ok_def e(2) nth_list_update)
  next
    case (Inr loc)
    then have loc: "loc = \<lparr>loc_Shard = sh_index ?sh, loc_Slot = s, loc_Length = of_nat n\<rparr>" "n = length buf"
      using e(3) s(7,8) n by (auto split: if_splits)
    have len: "unat (of_nat n :: u16) = n" using loc(2) False M by (simp add: unat_of_nat)
    have "shard_read (length buf) s sh = Some buf"
      using read_written [of buf "shard_offset ?sh s" "sh_file ?sh"] loc(2)
      by (simp add: shard_read_def s(4,6) shard_offset_def)
    then have new: "stored shs' (loc, buf)"
      using i idx False len s(6) by (simp add: stored_def e(2) loc(1)) (simp add: loc(2))
    have "place (loc, buf) \<notin> place ` set held"
      using s(1) idx by (force simp: place_def slots_of_def loc(1) word_unat_eq_iff)
    moreover have "s \<notin> L i" using s(1) by simp
    ultimately show ?thesis
      using ok old new others s(2) i idx Inr
      by (auto simp: sharky_ok_def e(2) nth_list_update slots_of_Cons loc(1))
  qed
qed

lemma reopen_step_ok:
  assumes ok: "sharky_ok L (shs, held)" and c: "map shard_close shs = map Some shs'"
  shows "sharky_ok L (map (\<lambda>sh. shard_create (sh_index sh) (sh_maxDataSize sh) (sh_file sh) (sh_free sh)) shs', held)"
proof -
  have l: "length shs' = length shs" using c by (metis length_map)
  have cl: "shard_close (shs ! i) = Some (shs' ! i)" if "i < length shs" for i
    using c that l by (metis nth_map)
  have r: "shard_ok (shard_create (sh_index (shs' ! i)) (sh_maxDataSize (shs' ! i)) (sh_file (shs' ! i)) (sh_free (shs' ! i))) (slots_of i held \<union> L i) \<and>
    sh_file (shs' ! i) = sh_file (shs ! i) \<and> sh_index (shs' ! i) = sh_index (shs ! i) \<and>
    sh_maxDataSize (shs' ! i) = sh_maxDataSize (shs ! i)" if "i < length shs" for i
  proof (rule reopen_ok [OF _ cl [OF that]])
    show "shard_ok (shs ! i) (slots_of i held \<union> L i)" using ok that by (simp add: sharky_ok_def)
  qed
  have "stored (map (\<lambda>sh. shard_create (sh_index sh) (sh_maxDataSize sh) (sh_file sh) (sh_free sh)) shs') x"
    if x: "x \<in> set held" for x
  proof -
    have "stored shs x" using ok x by (auto simp: sharky_ok_def)
    then show ?thesis using r l
      by (cases x) (auto simp: stored_def shard_read_def shard_offset_def shard_create_def)
  qed
  moreover have "unat (sh_index (shard_create (sh_index (shs' ! i)) (sh_maxDataSize (shs' ! i))
        (sh_file (shs' ! i)) (sh_free (shs' ! i)))) = i \<and>
      sh_maxDataSize (shard_create (sh_index (shs' ! i)) (sh_maxDataSize (shs' ! i))
        (sh_file (shs' ! i)) (sh_free (shs' ! i))) < 2 ^ 16" if "i < length shs" for i
    using r [OF that] ok that by (simp add: sharky_ok_def shard_create_def)
  moreover have "shard_ok (shard_create (sh_index (shs' ! i)) (sh_maxDataSize (shs' ! i))
        (sh_file (shs' ! i)) (sh_free (shs' ! i))) (slots_of i held \<union> L i)" if "i < length shs" for i
    using r [OF that] by blast
  ultimately show ?thesis using ok l unfolding sharky_ok_def by simp
qed

lemma sharky_step_ok: "sharky_step x y \<Longrightarrow> sharky_ok L x \<Longrightarrow> sharky_ok L y"
proof (induction rule: sharky_step.induct)
  case (sk_pop i shs sh held)
  then have "shard_ok (shs ! i) (slots_of i held \<union> L i)" by (simp add: sharky_ok_def)
  with sk_pop pop_ok show ?case by (intro shard_step_ok)
next
  case (sk_goroutine i shs f sh held)
  then have "shard_ok (shs ! i) (slots_of i held \<union> L i)" by (simp add: sharky_ok_def)
  with sk_goroutine goroutine_ok show ?case by (intro shard_step_ok)
qed (auto intro: write_step_ok release_step_ok reopen_step_ok)

lemma sharky_reach_ok: "sharky_step\<^sup>*\<^sup>* x y \<Longrightarrow> sharky_ok L x \<Longrightarrow> sharky_ok L y"
  by (induction rule: rtranclp_induct) (auto intro: sharky_step_ok)

lemma sharky_step_length: "sharky_step\<^sup>*\<^sup>* x y \<Longrightarrow> length (fst y) = length (fst x)"
proof (induction rule: rtranclp_induct)
  case (step y z)
  from step(2) have "length (fst z) = length (fst y)"
  proof (induction rule: sharky_step.induct)
    case (sk_write i shs n buf lost r shs' held)
    then show ?case by (auto simp: sharky_Write_def Let_def split: if_splits option.splits)
  next
    case (sk_reopen shs shs' held)
    then show ?case by (metis fst_conv length_map)
  qed (simp_all add: sharky_Release_def Let_def)
  with step show ?case by simp
qed simp

text \<open>A write whose location does not reach the caller leaves its slot with nobody.\<close>

lemma lost_write_ok:
  assumes ok: "sharky_ok L (shs, held)" and i: "i < length shs" and n: "n \<le> length buf"
    and s: "sh_slot (shs ! i) = Some s"
    and w: "sharky_Write i n lost buf shs = Some (Inl e, shs')" "e \<noteq> ErrTooLong"
  shows "sharky_ok (L (i := insert s (L i))) (shs', held)"
proof -
  have ok': "sharky_ok L (shs', held)" using write_step_ok [OF ok i n w(1)] by simp
  from w obtain en sh where e: "process_write n buf (shs ! i) = Some (en, sh)" "shs' = shs [i := sh]"
    by (auto simp: sharky_Write_def Let_def split: option.splits if_splits)
  have "shard_ok (shs ! i) (slots_of i held \<union> L i)" using ok i by (simp add: sharky_ok_def)
  from entry_ok [OF this e(1)] s have "s \<notin> slots_of i held \<union> L i"
    "shard_ok sh (insert s (slots_of i held \<union> L i))" by (metis option.inject)+
  then show ?thesis using ok' i by (auto simp: sharky_ok_def e(2) nth_list_update)
qed

definition sharky_init :: "nat \<Rightarrow> nat \<Rightarrow> sharky" where
  "sharky_init shardCnt maxDataSize = (sharky_New (replicate shardCnt ([], [])) maxDataSize, [])"

lemma sharky_init_ok:
  assumes "shardCnt \<le> 256" "maxDataSize < 2 ^ 16"
  shows "sharky_ok (\<lambda>_. {}) (sharky_init shardCnt maxDataSize)"
proof -
  have "slots_ok (slots_load [])" using slots_load_ok(1) [of "[]"] by simp
  then show ?thesis
    using assms by (auto simp: sharky_ok_def sharky_init_def sharky_New_def shard_create_def shard_ok_def
        in_flight_def slots_of_def nth_enumerate_eq unat_of_nat)
qed

section \<open>A run\<close>

text \<open>A store of one shard with slots of eight bytes pops its first slot and waits for a blob.\<close>

definition run_waiting :: shard where
  "run_waiting = \<lparr>sh_index = 0, sh_maxDataSize = 8, sh_file = [], sh_free = [],
     sh_slots = \<lparr>sl_data = [254], sl_size = 8, sl_head = 1\<rparr>, sh_out = None, sh_slot = Some 0,
     sh_limbo = None, sh_quit = False, sh_slotsQuit = False\<rparr>"

definition run_loc :: location where
  "run_loc = \<lparr>loc_Shard = 0, loc_Slot = 0, loc_Length = 3\<rparr>"

lemma run_shard:
  "map_option process_take (process_pop (shard_create 0 8 [] [])) = Some (Some run_waiting)"
proof -
  have a: "slots_next \<lparr>sl_data = [], sl_size = 0, sl_head = 0\<rparr> 0 = 0"
    by (subst slots_next_def, subst next_loop.simps) simp
  have b: "slots_next \<lparr>sl_data = [254], sl_size = 8, sl_head = 0\<rparr> 1 = 1"
    by (subst slots_next_def, subst next_loop.simps) simp
  show ?thesis using a b
    by (simp add: shard_create_def slots_load_def process_pop_def slots_pop_def slots_extend_def
        process_take_def run_waiting_def Let_def)
qed

lemma run_waits: "sharky_step\<^sup>*\<^sup>* (sharky_init 1 8) ([run_waiting], [])"
proof -
  from run_shard obtain sh where sh: "process_pop (shard_create 0 8 [] []) = Some sh"
    "process_take sh = Some run_waiting" by auto
  have init: "sharky_init 1 8 = ([shard_create 0 8 [] []], [])"
    by (simp add: sharky_init_def sharky_New_def enumerate_eq_zip)
  have room: "slots_room (sh_slots (shard_create 0 8 [] []))"
    by (simp add: slots_room_def shard_create_def slots_load_def Let_def)
  have "sharky_step ([shard_create 0 8 [] []], []) ([sh], [])"
    using sk_pop [of 0 "[shard_create 0 8 [] []]" sh "[]"] room sh(1) by simp
  moreover have "sharky_step ([sh], []) ([run_waiting], [])"
    using sk_goroutine [of 0 "[sh]" process_take run_waiting "[]"] sh(2) by (simp add: shard_steps_def)
  ultimately show ?thesis unfolding init by (meson converse_rtranclp_into_rtranclp rtranclp.rtrancl_refl)
qed

lemma run_write:
  "sharky_Write 0 3 False [1, 2, 3] [run_waiting] =
     Some (Inr run_loc, [run_waiting\<lparr>sh_file := [1, 2, 3], sh_slot := None\<rparr>])"
  "sharky_Write 0 2 False [1, 2, 3] [run_waiting] =
     Some (Inl ErrFile, [run_waiting\<lparr>sh_file := [1, 2], sh_slot := None\<rparr>])"
  by code_simp+

lemma run_writes:
  "sharky_step\<^sup>*\<^sup>* (sharky_init 1 8)
     ([run_waiting\<lparr>sh_file := [1, 2, 3], sh_slot := None\<rparr>], [(run_loc, [1, 2, 3])])"
  using run_waits sk_write [OF _ _ run_write(1), of "[]"] by (simp add: rtranclp.rtrancl_into_rtrancl)

section \<open>Properties\<close>

text \<open>
  C24: what was written is read back: in every state a store reaches, through any interleaving
  of the goroutines, of writes (failed and abandoned ones too), releases, and closing and
  opening the store again, reading a location a client was given and has not released returns
  the blob it wrote.
\<close>

theorem sharky_reads_back:
  assumes "shardCnt \<le> 256" "maxDataSize < 2 ^ 16"
    and "sharky_step\<^sup>*\<^sup>* (sharky_init shardCnt maxDataSize) (shs, held)"
    and "(loc, buf) \<in> set held" "\<not> sh_quit (shs ! unat (loc_Shard loc))"
  shows "sharky_Read loc shs = Inr buf"
proof -
  have "sharky_ok (\<lambda>_. {}) (shs, held)" using sharky_reach_ok [OF assms(3) sharky_init_ok [OF assms(1,2)]] .
  then have "stored shs (loc, buf)" using assms(4) by (auto simp: sharky_ok_def)
  with assms(5) show ?thesis by (auto simp: sharky_Read_def stored_def Let_def)
qed

lemma sharky_reads_back_witness:
  "sharky_Read run_loc [run_waiting\<lparr>sh_file := [1, 2, 3], sh_slot := None\<rparr>] = Inr [1, 2, 3]"
  by (rule sharky_reads_back [OF _ _ run_writes]) (simp_all add: run_loc_def run_waiting_def)

text \<open>
  C23: no slot is given out twice: in every reached state the locations held by clients are
  pairwise different slots, and a slot that is free, offered, waiting for a write or in limbo
  is held by no client.
\<close>

theorem sharky_slots_exclusive:
  assumes "shardCnt \<le> 256" "maxDataSize < 2 ^ 16"
    and "sharky_step\<^sup>*\<^sup>* (sharky_init shardCnt maxDataSize) (shs, held)"
    and "i < length shs" "unat s \<notin> busy (sh_slots (shs ! i)) \<or> sh_out (shs ! i) = Some s \<or>
      sh_slot (shs ! i) = Some s \<or> sh_limbo (shs ! i) = Some s"
  shows "distinct (map place held) \<and> (of_nat i, s) \<notin> place ` set held"
proof -
  have ok: "sharky_ok (\<lambda>_. {}) (shs, held)" using sharky_reach_ok [OF assms(3) sharky_init_ok [OF assms(1,2)]] .
  then have "shard_ok (shs ! i) (slots_of i held)" "i < 256" using assms(4) by (auto simp: sharky_ok_def)
  then have "s \<notin> slots_of i held" using assms(5) by (auto simp: shard_ok_def in_flight_def)
  with \<open>i < 256\<close> have "(of_nat i, s) \<notin> place ` set held" using place_slots_of by blast
  with ok show ?thesis by (simp add: sharky_ok_def)
qed

lemma sharky_slots_exclusive_witness:
  "distinct (map place [(run_loc, [1, 2, 3])]) \<and> (0, 1) \<notin> place ` set [(run_loc, [1, 2, 3 :: byte])]"
proof -
  have "unat (1 :: u32) \<notin> busy (sh_slots ([run_waiting\<lparr>sh_file := [1, 2, 3], sh_slot := None\<rparr>] ! 0))"
    by (simp add: busy_def busy_in_def run_waiting_def)
  then show ?thesis using sharky_slots_exclusive [OF _ _ run_writes, of 0 1] by simp
qed

text \<open>
  a write that the caller abandons after the shard took the blob, or that the file system
  fails, loses its slot: however the store goes on, closing and opening it included, the slot
  is never free, offered or handed to a client again.
\<close>

theorem sharky_lost_write_leaks:
  assumes "shardCnt \<le> 256" "maxDataSize < 2 ^ 16"
    and "sharky_step\<^sup>*\<^sup>* (sharky_init shardCnt maxDataSize) (shs, held)"
    and "i < length shs" "n \<le> length buf" "sh_slot (shs ! i) = Some s"
    and "sharky_Write i n lost buf shs = Some (Inl e, shs')" "e \<noteq> ErrTooLong"
    and "sharky_step\<^sup>*\<^sup>* (shs', held) (shs'', held')"
  shows "unat s \<in> busy (sh_slots (shs'' ! i)) \<and> s \<notin> set (in_flight (shs'' ! i)) \<and>
    (of_nat i, s) \<notin> place ` set held'"
proof -
  let ?L = "(\<lambda>_. {}) (i := {s}) :: nat \<Rightarrow> u32 set"
  have "sharky_ok (\<lambda>_. {}) (shs, held)" using sharky_reach_ok [OF assms(3) sharky_init_ok [OF assms(1,2)]] .
  from lost_write_ok [OF this assms(4,5,6,7,8)] have "sharky_ok ?L (shs', held)" by simp
  then have ok: "sharky_ok ?L (shs'', held')" using sharky_reach_ok [OF assms(9)] by blast
  have "length shs'' = length shs"
    using sharky_step_length [OF assms(9)] assms(7)
    by (auto simp: sharky_Write_def Let_def split: if_splits option.splits)
  then have "shard_ok (shs'' ! i) (slots_of i held' \<union> {s})" "s \<notin> slots_of i held'" "i < 256"
    using ok assms(4) by (auto simp: sharky_ok_def)
  then show ?thesis using place_slots_of by (auto simp: shard_ok_def)
qed

lemma sharky_lost_write_leaks_witness:
  "unat (0 :: u32) \<in> busy (sh_slots (run_waiting\<lparr>sh_file := [1, 2], sh_slot := None\<rparr>)) \<and>
    0 \<notin> set (in_flight (run_waiting\<lparr>sh_file := [1, 2], sh_slot := None\<rparr>)) \<and>
    (of_nat 0, 0) \<notin> place ` set []"
  using sharky_lost_write_leaks [OF _ _ run_waits _ _ _ run_write(2) _ rtranclp.rtrancl_refl, of 0]
  by (simp add: run_waiting_def)

end
