(* ===== verification/Localstore_Data.thy ===== *)
theory Localstore_Data
  imports Localstore_Inv Sharky_Props
begin

text \<open>
  Operations on several addresses, and the blobs the retrieval index points to: each stored
  chunk has a location of its own that sharky has given out and not taken back, with the data
  that was put.
\<close>

section \<open>Several addresses in one batch\<close>

definition ops_ok :: "localdb \<Rightarrow> bytes set \<Rightarrow> batch \<Rightarrow> batch \<Rightarrow> bool" where
  "ops_ok db S b b' \<longleftrightarrow>
     (\<forall>M. (\<forall>a \<in> S. same_at a (view_of db) (view_batch b M) \<and> addr_ok (view_batch b M) a) \<longrightarrow>
        (keys_ok (view_batch b M) \<longrightarrow> keys_ok (view_batch b' M)) \<and>
        (\<forall>a \<in> S. addr_ok (view_batch b' M) a) \<and>
        (\<forall>x. x \<notin> S \<longrightarrow> length x = 32 \<longrightarrow> same_at x (view_batch b M) (view_batch b' M)))"

lemma ops_ok_refl [simp]: "ops_ok db S b b"
  by (simp add: ops_ok_def)

lemma ops_ok_one: "op_ok db a b b' \<Longrightarrow> ops_ok db {a} b b'"
  by (auto simp: ops_ok_def op_ok_def touches_def)

lemma ops_ok_trans:
  assumes "ops_ok db S b b1" "ops_ok db T b1 b2" "S \<inter> T = {}" "\<forall>a \<in> S \<union> T. length a = 32"
  shows "ops_ok db (S \<union> T) b b2"
  unfolding ops_ok_def
proof (intro allI impI)
  fix M
  assume s: "\<forall>a \<in> S \<union> T. same_at a (view_of db) (view_batch b M) \<and> addr_ok (view_batch b M) a"
  then have 1: "(keys_ok (view_batch b M) \<longrightarrow> keys_ok (view_batch b1 M)) \<and> (\<forall>a \<in> S. addr_ok (view_batch b1 M) a) \<and>
    (\<forall>x. x \<notin> S \<longrightarrow> length x = 32 \<longrightarrow> same_at x (view_batch b M) (view_batch b1 M))"
    using assms(1) by (auto simp: ops_ok_def)
  have "same_at a (view_of db) (view_batch b1 M) \<and> addr_ok (view_batch b1 M) a" if "a \<in> T" for a
  proof -
    have "same_at a (view_batch b M) (view_batch b1 M)" using 1 that assms(3,4) by blast
    with s that same_at_trans same_at_addr_ok show ?thesis by blast
  qed
  then have 2: "(keys_ok (view_batch b1 M) \<longrightarrow> keys_ok (view_batch b2 M)) \<and> (\<forall>a \<in> T. addr_ok (view_batch b2 M) a) \<and>
    (\<forall>x. x \<notin> T \<longrightarrow> length x = 32 \<longrightarrow> same_at x (view_batch b1 M) (view_batch b2 M))"
    using assms(2) by (auto simp: ops_ok_def)
  have "addr_ok (view_batch b2 M) a" if "a \<in> S" for a
  proof -
    have "same_at a (view_batch b1 M) (view_batch b2 M)" using 2 that assms(3,4) by blast
    with 1 that same_at_addr_ok show ?thesis by blast
  qed
  with 1 2 show "(keys_ok (view_batch b M) \<longrightarrow> keys_ok (view_batch b2 M)) \<and> (\<forall>a \<in> S \<union> T. addr_ok (view_batch b2 M) a) \<and>
      (\<forall>x. x \<notin> S \<union> T \<longrightarrow> length x = 32 \<longrightarrow> same_at x (view_batch b M) (view_batch b2 M))"
    by (auto intro: same_at_trans)
qed

lemma ops_ok_view:
  assumes "ops_ok db S [] b" "view_ok (view_of db)" "\<forall>a \<in> S. length a = 32"
  shows "view_ok (view_batch b (view_of db))"
    "\<And>x. x \<notin> S \<Longrightarrow> length x = 32 \<Longrightarrow> same_at x (view_of db) (view_batch b (view_of db))"
proof -
  have r: "keys_ok (view_batch b (view_of db)) \<and> (\<forall>a \<in> S. addr_ok (view_batch b (view_of db)) a) \<and>
    (\<forall>x. x \<notin> S \<longrightarrow> length x = 32 \<longrightarrow> same_at x (view_of db) (view_batch b (view_of db)))"
    using assms by (auto simp: ops_ok_def view_ok_def dest!: spec [of _ "view_of db"])
  then show "view_ok (view_batch b (view_of db))"
    using assms(2) same_at_addr_ok unfolding view_ok_def by blast
  show "\<And>x. x \<notin> S \<Longrightarrow> length x = 32 \<Longrightarrow> same_at x (view_of db) (view_batch b (view_of db))"
    using r by blast
qed

section \<open>Blobs\<close>

type_synonym chunk_log = "(bytes \<times> bytes) list"

text \<open>
  \<open>log\<close> has the chunks that were ever put. \<open>R\<close> is the retrieval index, \<open>held\<close> what the local
  store owns in sharky: there may be more of it than the index points to.
\<close>

definition data_ok :: "chunk_log \<Rightarrow> shard list \<Rightarrow> (location \<times> bytes) list \<Rightarrow> (bytes \<Rightarrow> item option) \<Rightarrow> bool" where
  "data_ok log shs held R \<longleftrightarrow>
     (\<exists>L. sharky_ok L (shs, held)) \<and>
     (\<forall>a v. R a = Some v \<longrightarrow>
        (\<exists>l b. it_Location v = location_MarshalBinary l \<and> (l, b) \<in> set held \<and> (a, b) \<in> set log)) \<and>
     (\<forall>a a' v v'. R a = Some v \<longrightarrow> R a' = Some v' \<longrightarrow> it_Location v = it_Location v' \<longrightarrow> a = a')"

lemma Marshal_inj [simp]: "location_MarshalBinary l = location_MarshalBinary l' \<longleftrightarrow> l = l'"
proof
  assume "location_MarshalBinary l = location_MarshalBinary l'"
  then have "LocationFromBinary (location_MarshalBinary l @ []) = LocationFromBinary (location_MarshalBinary l' @ [])"
    by simp
  then show "l = l'" unfolding location_roundtrip by simp
qed simp

lemma location_read [simp]: "LocationFromBinary (location_MarshalBinary l) = Inr l"
  using location_roundtrip [of l "[]"] by simp

lemma Marshal_nonempty [simp]: "location_MarshalBinary l \<noteq> []"
proof -
  have "length (location_MarshalBinary l) = 7"
    by (simp add: location_MarshalBinary_def LocationSize_def Let_def)
  then show ?thesis by auto
qed

lemma data_ok_location:
  assumes "data_ok log shs held R" "R a = Some v"
  obtains l b where "it_Location v = location_MarshalBinary l" "(l, b) \<in> set held" "(a, b) \<in> set log"
  using assms unfolding data_ok_def by blast

lemma data_ok_log: "data_ok log shs held R \<Longrightarrow> set log \<subseteq> set log' \<Longrightarrow> data_ok log' shs held R"
  unfolding data_ok_def by blast

lemma data_ok_step:
  assumes "data_ok log shs held R" "sharky_step\<^sup>*\<^sup>* (shs, held) (shs', held')" "set held \<subseteq> set held'"
  shows "data_ok log shs' held' R"
  using assms sharky_reach_ok [OF assms(2)] unfolding data_ok_def by blast

text \<open>Reading a stored chunk gives the data that was put.\<close>

lemma data_ok_read:
  assumes "data_ok log (ld_sharky db) held R" "R a = Some v"
    "\<forall>sh \<in> set (ld_sharky db). \<not> sh_quit sh"
  shows "\<exists>d. ls_read (it_Location v) db = Inr d \<and> (a, d) \<in> set log"
proof -
  from assms(1,2) obtain L l b where l: "sharky_ok L (ld_sharky db, held)"
    "it_Location v = location_MarshalBinary l" "(l, b) \<in> set held" "(a, b) \<in> set log"
    unfolding data_ok_def by blast
  then have st: "stored (ld_sharky db) (l, b)" by (auto simp: sharky_ok_def)
  then have "\<not> sh_quit (ld_sharky db ! unat (loc_Shard l))" using assms(3) by (simp add: stored_def)
  moreover have "unat (loc_Length l) = length b" using st by (simp add: stored_def)
  ultimately have "ls_read (it_Location v) db = Inr b"
    using st l(2) by (simp add: ls_read_def sharky_Read_def stored_def Let_def)
  with l(4) show ?thesis by blast
qed

text \<open>Giving up a chunk and its location.\<close>

lemma data_ok_release:
  assumes d: "data_ok log shs held R" and v: "R a = Some v" "it_Location v = location_MarshalBinary l"
  shows "\<exists>held'. data_ok log (sharky_Release l shs) held' (R (a := None))"
proof -
  from d v obtain L b where L: "sharky_ok L (shs, held)" and b: "(l, b) \<in> set held"
    unfolding data_ok_def by fastforce
  have "sharky_step (shs, held) (sharky_Release l shs, remove1 (l, b) held)" by (rule sk_release [OF b])
  then have L': "sharky_ok L (sharky_Release l shs, remove1 (l, b) held)" using L by (rule sharky_step_ok)
  have "\<exists>l' b'. it_Location v' = location_MarshalBinary l' \<and> (l', b') \<in> set (remove1 (l, b) held) \<and> (a', b') \<in> set log"
    if r: "R a' = Some v'" "a' \<noteq> a" for a' v'
  proof -
    from d r(1) obtain l' b' where l': "it_Location v' = location_MarshalBinary l'" "(l', b') \<in> set held" "(a', b') \<in> set log"
      unfolding data_ok_def by blast
    have "l' \<noteq> l" using d r v l'(1) unfolding data_ok_def by metis
    then have "(l', b') \<in> set (remove1 (l, b) held)" using l'(2) by simp
    with l' show ?thesis by blast
  qed
  then have "data_ok log (sharky_Release l shs) (remove1 (l, b) held) (R (a := None))"
    using d L' unfolding data_ok_def by (auto split: if_splits)
  then show ?thesis by blast
qed

text \<open>Storing a chunk at a location that sharky has just given out.\<close>

lemma data_ok_new:
  assumes d: "data_ok log shs held R" and s: "sharky_ok L (shs, (l, b) # held)"
    and v: "it_Location v = location_MarshalBinary l" and a: "(a, b) \<in> set log"
  shows "data_ok log shs ((l, b) # held) (R (a \<mapsto> v))"
proof -
  have "it_Location v' \<noteq> it_Location v" if r: "R a' = Some v'" for a' v'
  proof -
    from d r obtain l' b' where l': "it_Location v' = location_MarshalBinary l'" "(l', b') \<in> set held"
      unfolding data_ok_def by blast
    have "(l, b) \<notin> set held \<and> place (l, b) \<notin> place ` set held" using s by (auto simp: sharky_ok_def)
    then have "l' \<noteq> l" using l'(2) by (force simp: place_def)
    with l' v show ?thesis by simp
  qed
  with d s v a show ?thesis unfolding data_ok_def by (auto 0 4 split: if_splits)
qed

text \<open>The same for a location that was given out before, and for the new chunks of one put.\<close>

lemma data_ok_add:
  assumes d: "data_ok log shs held R" and l: "(l, b) \<in> set held" "(a, b) \<in> set log"
    and v: "it_Location v = location_MarshalBinary l"
    and n: "\<forall>a v. R a = Some v \<longrightarrow> it_Location v \<noteq> location_MarshalBinary l"
  shows "data_ok log shs held (R (a \<mapsto> v))"
  using d l v n unfolding data_ok_def by (auto 0 4 split: if_splits)

lemma data_ok_sub:
  assumes d: "data_ok log shs held R0" and s: "\<And>a v. R a = Some v \<Longrightarrow> R0 a = Some v"
  shows "data_ok log shs held R"
  unfolding data_ok_def
proof (intro conjI allI impI)
  show "\<exists>L. sharky_ok L (shs, held)" using d by (simp add: data_ok_def)
  show "\<exists>l b. it_Location v = location_MarshalBinary l \<and> (l, b) \<in> set held \<and> (a, b) \<in> set log"
    if "R a = Some v" for a v
    using data_ok_location [OF d s [OF that]] by metis
  show "a = a'" if "R a = Some v" "R a' = Some v'" "it_Location v = it_Location v'" for a a' v v'
    using d s [OF that(1)] s [OF that(2)] that(3) unfolding data_ok_def by blast
qed

text \<open>Locations that no index points to are given back.\<close>

definition unused :: "(location \<times> bytes) list \<Rightarrow> (bytes \<Rightarrow> item option) \<Rightarrow> location list \<Rightarrow> bool" where
  "unused held R ls \<longleftrightarrow> distinct ls \<and>
     (\<forall>l \<in> set ls. l \<in> fst ` set held \<and> (\<forall>a v. R a = Some v \<longrightarrow> it_Location v \<noteq> location_MarshalBinary l))"

lemma data_ok_frees:
  assumes "data_ok log shs held R" "unused held R ls"
  shows "\<exists>held'. data_ok log (fold sharky_Release ls shs) held' R"
  using assms
proof (induction ls arbitrary: shs held)
  case (Cons l ls)
  from Cons.prems(2) obtain b where b: "(l, b) \<in> set held" by (auto simp: unused_def)
  have n: "\<forall>a v. R a = Some v \<longrightarrow> it_Location v \<noteq> location_MarshalBinary l"
    using Cons.prems(2) by (simp add: unused_def)
  from Cons.prems(1) obtain L where "sharky_ok L (shs, held)" by (auto simp: data_ok_def)
  with sk_release [OF b] have L: "sharky_ok L (sharky_Release l shs, remove1 (l, b) held)"
    by (rule sharky_step_ok)
  have keep: "(l', b') \<in> set (remove1 (l, b) held)" if "(l', b') \<in> set held" "l' \<noteq> l" for l' b'
    using that by simp
  have "\<exists>l' b'. it_Location v = location_MarshalBinary l' \<and> (l', b') \<in> set (remove1 (l, b) held) \<and> (a, b') \<in> set log"
    if r: "R a = Some v" for a v
  proof -
    obtain l' b' where l': "it_Location v = location_MarshalBinary l'" "(l', b') \<in> set held" "(a, b') \<in> set log"
      using data_ok_location [OF Cons.prems(1) r] .
    then have "l' \<noteq> l" using n r by auto
    with l' keep show ?thesis by blast
  qed
  then have "data_ok log (sharky_Release l shs) (remove1 (l, b) held) R"
    using Cons.prems(1) L unfolding data_ok_def by blast
  moreover have "l' \<in> fst ` set (remove1 (l, b) held)" if "l' \<in> set ls" for l'
  proof -
    have "l' \<in> fst ` set held" "l' \<noteq> l" using Cons.prems(2) that by (auto simp: unused_def)
    then obtain b' where "(l', b') \<in> set held" by auto
    from keep [OF this \<open>l' \<noteq> l\<close>] show ?thesis by force
  qed
  then have "unused (remove1 (l, b) held) R ls" using Cons.prems(2) by (simp add: unused_def)
  ultimately have "\<exists>held'. data_ok log (fold sharky_Release ls (sharky_Release l shs)) held' R"
    by (rule Cons.IH)
  then show ?case by simp
qed auto

lemma data_ok_releases:
  assumes "data_ok log shs held R" "distinct ds" "list_all2 (\<lambda>a l. \<exists>v. R a = Some v \<and> it_Location v = location_MarshalBinary l) ds ls"
  shows "\<exists>held'. data_ok log (fold sharky_Release ls shs) held' (\<lambda>a. if a \<in> set ds then None else R a)"
  using assms
proof (induction ds arbitrary: shs held R ls)
  case (Cons a ds)
  from Cons.prems(3) obtain l ls' v where l: "ls = l # ls'" "R a = Some v" "it_Location v = location_MarshalBinary l"
    "list_all2 (\<lambda>a l. \<exists>v. R a = Some v \<and> it_Location v = location_MarshalBinary l) ds ls'"
    by (auto simp: list_all2_Cons1)
  from data_ok_release [OF Cons.prems(1) l(2,3)] obtain held' where
    h: "data_ok log (sharky_Release l shs) held' (R (a := None))" by blast
  have "list_all2 (\<lambda>b l. \<exists>v. (R (a := None)) b = Some v \<and> it_Location v = location_MarshalBinary l) ds ls'"
    using l(4) Cons.prems(2) by (auto simp: list_all2_conv_all_nth)
  from Cons.IH [OF h _ this] Cons.prems(2) obtain held'' where
    "data_ok log (fold sharky_Release ls' (sharky_Release l shs)) held'' (\<lambda>b. if b \<in> set ds then None else (R (a := None)) b)"
    by auto
  moreover have "(\<lambda>b. if b \<in> set ds then None else (R (a := None)) b) = (\<lambda>b. if b \<in> set (a # ds) then None else R b)"
    by auto
  ultimately show ?case using l(1) by auto
qed auto

text \<open>The location that the retrieval index has for an address.\<close>

definition placed :: "(bytes \<Rightarrow> item option) \<Rightarrow> bytes \<Rightarrow> location \<Rightarrow> bool" where
  "placed R a l \<longleftrightarrow> (\<exists>v. R a = Some v \<and> (LocationFromBinary (it_Location v) = Inr l \<or> it_Location v = []))"

lemma data_ok_placed:
  assumes d: "data_ok log shs held R" and s: "\<And>a v. a \<in> set ds \<Longrightarrow> R1 a = Some v \<Longrightarrow> R a = Some v"
    and ds: "distinct ds" "list_all2 (placed R1) ds ls"
  shows "\<exists>held'. data_ok log (fold sharky_Release ls shs) held' (\<lambda>a. if a \<in> set ds then None else R a)"
proof (rule data_ok_releases [OF d ds(1)])
  have "\<exists>v. R a = Some v \<and> it_Location v = location_MarshalBinary l" if p: "placed R1 a l" "a \<in> set ds" for a l
  proof -
    from p(1) obtain v where v: "R1 a = Some v" "LocationFromBinary (it_Location v) = Inr l \<or> it_Location v = []"
      by (auto simp: placed_def)
    have Ra: "R a = Some v" by (rule s [OF p(2) v(1)])
    obtain l' b where "it_Location v = location_MarshalBinary l'" using data_ok_location [OF d Ra] .
    with v Ra show ?thesis by auto
  qed
  then show "list_all2 (\<lambda>a l. \<exists>v. R a = Some v \<and> it_Location v = location_MarshalBinary l) ds ls"
    using ds(2) by (simp add: list_all2_conv_all_nth)
qed

section \<open>The write of a blob\<close>

lemma shard_ready_step:
  assumes "i < length shs" "slots_room (sh_slots (shs ! i))"
  shows "sharky_step\<^sup>*\<^sup>* (shs, held) (shs [i := shard_ready (shs ! i)], held)"
proof -
  let ?sh = "case process_pop (shs ! i) of None \<Rightarrow> shs ! i | Some sh' \<Rightarrow> sh'"
  have 1: "sharky_step\<^sup>*\<^sup>* (shs, held) (shs [i := ?sh], held)"
  proof (cases "process_pop (shs ! i)")
    case (Some sh)
    from sk_pop [OF assms Some, of held] Some show ?thesis by auto
  qed simp
  have 2: "sharky_step\<^sup>*\<^sup>* (shs [i := ?sh], held) (shs [i := shard_ready (shs ! i)], held)"
  proof (cases "process_take ?sh")
    case None
    then show ?thesis by (simp add: shard_ready_def Let_def)
  next
    case (Some sh)
    have "sharky_step (shs [i := ?sh], held) ((shs [i := ?sh]) [i := sh], held)"
      using assms(1) Some by (intro sk_goroutine [of _ _ process_take]) (simp_all add: shard_steps_def)
    with Some show ?thesis by (auto simp: shard_ready_def Let_def)
  qed
  from 1 2 show ?thesis by (rule rtranclp_trans)
qed

lemma db_Write_step:
  assumes i: "pe_shard env < length shs" and room: "slots_room (sh_slots (shs ! pe_shard env))"
    and n: "pe_written env \<le> length data" and w: "db_Write env data shs = (r, shs')"
  shows "sharky_step\<^sup>*\<^sup>* (shs, held) (shs', case r of Inl _ \<Rightarrow> held | Inr loc \<Rightarrow> (loc, data) # held)"
proof -
  let ?i = "pe_shard env"
  let ?shs = "shs [?i := shard_ready (shs ! ?i)]"
  note ready = shard_ready_step [OF i room, of held]
  show ?thesis
  proof (cases "sharky_Write ?i (pe_written env) (pe_lost env) data ?shs")
    case None
    with w ready show ?thesis by (auto simp: db_Write_def Let_def)
  next
    case (Some x)
    with w have "x = (r, shs')" by (simp add: db_Write_def Let_def)
    with Some have "sharky_step (?shs, held) (shs', case r of Inl _ \<Rightarrow> held | Inr loc \<Rightarrow> (loc, data) # held)"
      using i n by (intro sk_write) auto
    with ready show ?thesis by (rule rtranclp.rtrancl_into_rtrancl)
  qed
qed

end
