(* ===== verification/Localstore_Hist.thy ===== *)
theory Localstore_Hist
  imports Localstore_Data
begin

text \<open>
  The calls of a local store that work on chunks: \<open>put\<close> of any chunks, \<open>set\<close> of any addresses.
  Each keeps the invariant of the indexes and of the blobs, as long as one call to \<open>put\<close> does not
  replace a stored chunk twice and one call to \<open>set\<close> does not name an address twice.
\<close>

section \<open>put of one chunk of several\<close>

lemma view_of_mark_dirty [simp]: "view_of (mark_dirty as db) = view_of db"
  by (simp add: view_of_def fun_eq_iff)

lemma db_sorted_mark_dirty [simp]: "db_sorted (mark_dirty as db) = db_sorted db"
  by (simp add: db_sorted_def)

lemma same_ix_view: "same_ix db db' \<Longrightarrow> view_of db' = view_of db \<and> db_sorted db' = db_sorted db"
  by (simp add: same_ix_def view_of_def db_sorted_def fun_eq_iff)

lemma dirty_mark:
  "set (ld_dirtyAddresses db) \<subseteq> set (ld_dirtyAddresses (mark_dirty as db))"
  "ld_gcRunning db \<Longrightarrow> set as \<subseteq> set (ld_dirtyAddresses (mark_dirty as db))"
  by (auto simp: mark_dirty_def)

definition put_acc0 :: "localdb \<Rightarrow> put_acc" where
  "put_acc0 db = \<lparr>pa_batch = \<lparr>pb_batch = [], pb_binIDs = [], pb_release = []\<rparr>, pa_committed = [],
     pa_sharky = ld_sharky db, pa_exist = [], pa_gcSize = 0, pa_reserveSize = 0\<rparr>"

text \<open>A chunk that came before in the same call, or that is stored, is left out.\<close>

definition put_skips :: "localdb \<Rightarrow> stamp chunk list \<Rightarrow> stamp chunk \<Rightarrow> bool" where
  "put_skips db before ch \<longleftrightarrow> containsChunk (ch_addr ch) before \<or> ls_Has (ch_addr ch) db"

lemma containsChunk_in: "containsChunk addr chs \<longleftrightarrow> addr \<in> ch_addr ` set chs"
  by (induction chs) (auto simp: addr_Equal_def)

lemma Has_view: "ls_Has addr db \<longleftrightarrow> view_of db RetrievalData (addr_bytes addr) \<noteq> None"
  by (simp add: ls_Has_def ix_Has_view item_at_address)

lemma addr_bytes_inj: "addr_bytes a = addr_bytes b \<longleftrightarrow> a = b"
  using addr_Equal_eq [of a b] by (simp add: addr_Equal_def del: addr_Equal_eq)

lemma putChunk_cases:
  assumes "putChunk mode db before ch env acc0 = (res, acc)"
  obtains (panic) "res = Inl LsPanic" "acc = acc0"
  | (exist) "put_skips db before ch" "res = Inr (True, 0, 0)" "acc = acc0"
  | (blob) e shs where "\<not> put_skips db before ch" "db_Write env (ch_data ch) (pa_sharky acc0) = (Inl e, shs)"
      "res = Inl (LsSharky e)" "acc = acc0\<lparr>pa_sharky := shs\<rparr>"
  | (fails) e loc shs where "\<not> put_skips db before ch"
      "db_Write env (ch_data ch) (pa_sharky acc0) = (Inr loc, shs)" "res = Inl e"
      "acc = acc0\<lparr>pa_sharky := shs, pa_committed := pa_committed acc0 @ [loc]\<rparr>"
  | (ok) item loc shs x c r pb where "\<not> put_skips db before ch" "chunkToItem ch = Some item"
      "db_Write env (ch_data ch) (pa_sharky acc0) = (Inr loc, shs)"
      "put_op mode db env (item\<lparr>it_Location := location_MarshalBinary loc\<rparr>) (pa_batch acc0) = Inr (x, c, r, pb)"
      "res = Inr (x, c, r)"
      "acc = acc0\<lparr>pa_sharky := shs, pa_committed := pa_committed acc0 @ [loc], pa_batch := pb\<rparr>"
proof (cases "containsChunk (ch_addr ch) before \<or> chunkToItem ch = None")
  case True
  with assms panic exist show thesis by (auto simp: putChunk_def put_skips_def split: if_splits)
next
  case False
  then obtain item where item: "chunkToItem ch = Some item" by blast
  have d: "it_Data item = ch_data ch" using item by (auto simp: chunkToItem_def split: option.splits)
  have has: "ix_Has db RetrievalData item \<longleftrightarrow> ls_Has (ch_addr ch) db"
    using chunkToItem_new [OF item] by (simp add: Has_view ix_Has_view new_item_def)
  show thesis
  proof (cases "ix_Has db RetrievalData item")
    case True
    with assms False item exist has show thesis by (auto simp: putChunk_def putSharky_def put_skips_def)
  next
    case nh: False
    then have ns: "\<not> put_skips db before ch" using False has by (simp add: put_skips_def)
    obtain w shs where w: "db_Write env (ch_data ch) (pa_sharky acc0) = (w, shs)" by (rule prod.exhaust)
    show thesis
    proof (cases w)
      case (Inl e)
      with assms item False nh w blob [OF ns] d show thesis by (auto simp: putChunk_def putSharky_def)
    next
      case (Inr loc)
      let ?op = "put_op mode db env (item\<lparr>it_Location := location_MarshalBinary loc\<rparr>) (pa_batch acc0)"
      show thesis
      proof (cases ?op)
        case (Inl e)
        with assms item False nh w Inr fails [OF ns] d show thesis by (auto simp: putChunk_def putSharky_def Let_def)
      next
        case (Inr y)
        obtain x c r pb where y: "y = (x, c, r, pb)" by (metis prod.exhaust)
        with assms item False nh w \<open>w = Inr loc\<close> Inr d have
          "res = Inr (x, c, r)" "acc = acc0\<lparr>pa_sharky := shs, pa_committed := pa_committed acc0 @ [loc], pa_batch := pb\<rparr>"
          by (auto simp: putChunk_def putSharky_def Let_def)
        with ok [OF ns] item w \<open>w = Inr loc\<close> Inr y show thesis by blast
      qed
    qed
  qed
qed

text \<open>The shard that takes a blob exists and has room.\<close>

definition env_ok :: "put_env \<Rightarrow> bytes \<Rightarrow> shard list \<Rightarrow> bool" where
  "env_ok env data shs \<longleftrightarrow> pe_shard env < length shs \<and> pe_written env \<le> length data \<and>
     slots_room (sh_slots (shs ! pe_shard env))"

fun envs_ok :: "localdb \<Rightarrow> stamp chunk list \<Rightarrow> (stamp chunk \<times> put_env) list \<Rightarrow> shard list \<Rightarrow> bool" where
  "envs_ok db before [] shs = True"
| "envs_ok db before ((ch, env) # chs) shs =
     (if put_skips db before ch then envs_ok db (before @ [ch]) chs shs
      else env_ok env (ch_data ch) shs \<and> envs_ok db (before @ [ch]) chs (snd (db_Write env (ch_data ch) shs)))"

text \<open>The stored chunk that a chunk replaces: the one with its stamp index, if its timestamp is earlier.\<close>

definition replaces :: "localdb \<Rightarrow> stamp chunk \<Rightarrow> bytes list" where
  "replaces db ch =
     (case chunkToItem ch of
        None \<Rightarrow> []
      | Some item \<Rightarrow>
          (case ix_Get db PostageIndex item of
             None \<Rightarrow> []
           | Some previous \<Rightarrow> if later previous item = Inr True then [it_Address previous] else []))"

fun replaced :: "localdb \<Rightarrow> stamp chunk list \<Rightarrow> stamp chunk list \<Rightarrow> bytes list" where
  "replaced db before [] = []"
| "replaced db before (ch # chs) =
     (if put_skips db before ch then [] else replaces db ch) @ replaced db (before @ [ch]) chs"

lemma data_ok_write:
  assumes d: "data_ok log shs held R" and e: "env_ok env data shs" and w: "db_Write env data shs = (r, shs')"
  shows "data_ok log shs' (case r of Inl _ \<Rightarrow> held | Inr loc \<Rightarrow> (loc, data) # held) R"
  by (rule data_ok_step [OF d db_Write_step]) (use e w in \<open>auto simp: env_ok_def split: sum.splits\<close>)

lemma data_ok_fresh:
  assumes d: "data_ok log shs held R" and s: "sharky_ok L (shs', (loc, b) # held)"
  shows "loc \<notin> fst ` set held" "\<forall>a v. R a = Some v \<longrightarrow> it_Location v \<noteq> location_MarshalBinary loc"
proof -
  have "place (loc, b) \<notin> place ` set held" using s by (simp add: sharky_ok_def)
  then show 1: "loc \<notin> fst ` set held" by (force simp: place_def)
  show "\<forall>a v. R a = Some v \<longrightarrow> it_Location v \<noteq> location_MarshalBinary loc"
  proof (intro allI impI)
    fix a v
    assume "R a = Some v"
    then obtain l b' where "it_Location v = location_MarshalBinary l" "(l, b') \<in> set held"
      using data_ok_location [OF d] by metis
    with 1 show "it_Location v \<noteq> location_MarshalBinary loc" by force
  qed
qed

lemma Merge_Timestamp: "it_Timestamp (item_Merge i i2) = (if it_Timestamp i = [] then it_Timestamp i2 else it_Timestamp i)"
  by (simp add: item_Merge_def)

text \<open>The location of an item is not part of its stamp index.\<close>

lemma stamp_index_location:
  assumes "ix_Get db PostageIndex (item\<lparr>it_Location := l\<rparr>) = Some p"
  obtains p' where "ix_Get db PostageIndex item = Some p'" "it_Address p' = it_Address p"
    "later p' item = later p (item\<lparr>it_Location := l\<rparr>)"
proof -
  from assms obtain v where v: "view_of db PostageIndex (EncodeKey (ld_baseKey db) PostageIndex item) = Some v"
    "p = item_Merge v (item\<lparr>it_Location := l\<rparr>)"
    by (auto simp: ix_Get_view EncodeKey.simps(9) split: option.splits)
  have "later (item_Merge v item) item = later p (item\<lparr>it_Location := l\<rparr>)"
    by (simp add: later_def v(2) Merge_Timestamp cong: if_cong)
  then show thesis using v by (intro that [of "item_Merge v item"]) (simp_all add: ix_Get_view)
qed

lemma new_item_location: "new_item a item \<Longrightarrow> new_item a (item\<lparr>it_Location := l\<rparr>)"
  by (simp add: new_item_def)

section \<open>The loop of put\<close>

text \<open>
  What the loop has done after the chunks with the addresses \<open>as\<close>: it has put new chunks, given
  blobs to sharky for them, and the chunks \<open>ps\<close> are to go. \<open>R0\<close> is the retrieval index with the
  new chunks and still with the old ones.
\<close>

definition put_inv :: "chunk_log \<Rightarrow> localdb \<Rightarrow> address set \<Rightarrow> bytes list \<Rightarrow> put_acc \<Rightarrow> bool" where
  "put_inv log db as ps acc \<longleftrightarrow>
     (\<exists>N held R0. N \<subseteq> addr_bytes ` as \<and> (\<forall>a \<in> N. length a = 32 \<and> view_of db RetrievalData a = None) \<and>
        distinct ps \<and> list_all2 (placed (view_of db RetrievalData)) ps (pb_release (pa_batch acc)) \<and>
        ops_ok db (N \<union> set ps) [] (pb_batch (pa_batch acc)) \<and>
        (\<forall>x. x \<notin> N \<longrightarrow> R0 x = view_of db RetrievalData x) \<and>
        view_batch (pb_batch (pa_batch acc)) (view_of db) RetrievalData = (\<lambda>x. if x \<in> set ps then None else R0 x) \<and>
        data_ok log (pa_sharky acc) held R0 \<and>
        unused held (view_of db RetrievalData) (pa_committed acc))"

lemma put_inv_counts [simp]:
  "put_inv log db as ps (acc\<lparr>pa_exist := x, pa_gcSize := c, pa_reserveSize := r\<rparr>) = put_inv log db as ps acc"
  by (simp add: put_inv_def)

lemma put_inv_mono: "put_inv log db as ps acc \<Longrightarrow> as \<subseteq> as' \<Longrightarrow> put_inv log db as' ps acc"
  unfolding put_inv_def
  by (elim exE conjE, intro exI conjI, erule subset_trans, erule image_mono, assumption+)

lemma list_all2_placed: "list_all2 (placed R) ps ls \<Longrightarrow> p \<in> set ps \<Longrightarrow> R p \<noteq> None"
  by (auto simp: list_all2_conv_all_nth in_set_conv_nth placed_def)

lemma placed_32: "keys_ok (view_of db) \<Longrightarrow> view_of db RetrievalData p \<noteq> None \<Longrightarrow> length p = 32"
  unfolding keys_ok_def by blast

text \<open>A chunk that is put, in a batch that puts it and removes at most one more chunk.\<close>

lemma put_inv_add:
  assumes k: "keys_ok (view_of db)" and i: "put_inv log db as ps acc"
    and a: "a \<notin> addr_bytes ` as" "length a = 32" "view_of db RetrievalData a = None"
    and d: "(a, data) \<in> set log" "env_ok env data (pa_sharky acc)"
      "db_Write env data (pa_sharky acc) = (Inr loc, shs)"
    and acc': "pa_sharky acc' = shs" "pa_committed acc' = pa_committed acc @ [loc]"
    and qs: "distinct (ps @ qs)" "list_all2 (placed (view_of db RetrievalData)) qs ls"
      "pb_release (pa_batch acc') = pb_release (pa_batch acc) @ ls"
    and o: "ops_ok db (insert a (set qs)) (pb_batch (pa_batch acc)) (pb_batch (pa_batch acc'))"
    and R: "\<And>R1. R1 = view_batch (pb_batch (pa_batch acc)) (view_of db) RetrievalData \<Longrightarrow>
      view_batch (pb_batch (pa_batch acc')) (view_of db) RetrievalData = (\<lambda>x. if x \<in> set qs then None else R1 x) \<or>
      (\<exists>v. it_Location v = location_MarshalBinary loc \<and>
        view_batch (pb_batch (pa_batch acc')) (view_of db) RetrievalData = (\<lambda>x. if x \<in> set qs then None else R1 x) (a \<mapsto> v))"
  shows "put_inv log db (insert (NewAddress a) as) (ps @ qs) acc'"
proof -
  let ?R = "view_of db RetrievalData"
  from i obtain N held R0 where I: "N \<subseteq> addr_bytes ` as" "\<forall>a \<in> N. length a = 32 \<and> ?R a = None"
    "list_all2 (placed ?R) ps (pb_release (pa_batch acc))"
    "ops_ok db (N \<union> set ps) [] (pb_batch (pa_batch acc))" "\<forall>x. x \<notin> N \<longrightarrow> R0 x = ?R x"
    "view_batch (pb_batch (pa_batch acc)) (view_of db) RetrievalData = (\<lambda>x. if x \<in> set ps then None else R0 x)"
    "data_ok log (pa_sharky acc) held R0" "unused held ?R (pa_committed acc)"
    unfolding put_inv_def by blast
  have stored: "?R p \<noteq> None" if "p \<in> set ps \<union> set qs" for p
    using that list_all2_placed [OF I(3)] list_all2_placed [OF qs(2)] by blast
  have aN: "a \<notin> N" "a \<notin> set ps" "a \<notin> set qs" using a I(1) stored [of a] by auto
  let ?held = "(loc, data) # held"
  have w: "data_ok log shs ?held R0" using data_ok_write [OF I(7) d(2,3)] by simp
  then obtain L where "sharky_ok L (shs, ?held)" by (auto simp: data_ok_def)
  note fresh = data_ok_fresh [OF I(7) this]
  have disj: "(N \<union> set ps) \<inter> insert a (set qs) = {}" using aN qs(1) I(2) stored by fastforce
  have len: "\<forall>x \<in> N \<union> set ps \<union> insert a (set qs). length x = 32"
    using I(2) a(2) stored placed_32 [OF k] by blast
  have O: "ops_ok db (insert a N \<union> set (ps @ qs)) [] (pb_batch (pa_batch acc'))"
    using ops_ok_trans [OF I(4) o disj len] by (simp add: Un_assoc Un_left_commute)
  have U: "unused ?held ?R (pa_committed acc')"
  proof -
    have "loc \<notin> set (pa_committed acc)" using I(8) fresh(1) by (auto simp: unused_def)
    moreover have "\<forall>b v. ?R b = Some v \<longrightarrow> it_Location v \<noteq> location_MarshalBinary loc"
      using fresh(2) I(2,5) by (metis option.distinct(1))
    ultimately show ?thesis using I(8) acc'(2) by (auto simp: unused_def)
  qed
  have P: "list_all2 (placed ?R) (ps @ qs) (pb_release (pa_batch acc'))"
    using I(3) qs(2,3) by (simp add: list_all2_appendI)
  have done1: ?thesis
    if "data_ok log shs ?held R0'" "\<forall>x. x \<noteq> a \<longrightarrow> R0' x = R0 x"
      "view_batch (pb_batch (pa_batch acc')) (view_of db) RetrievalData = (\<lambda>x. if x \<in> set (ps @ qs) then None else R0' x)"
    for R0'
    unfolding put_inv_def
    by (intro exI [of _ "insert a N"] exI [of _ ?held] exI [of _ R0'] conjI)
      (use I(1,2,5) a O U P qs(1) that acc'(1) in auto)
  from R [OF refl] show ?thesis
  proof (elim disjE exE conjE)
    assume "view_batch (pb_batch (pa_batch acc')) (view_of db) RetrievalData =
      (\<lambda>x. if x \<in> set qs then None else view_batch (pb_batch (pa_batch acc)) (view_of db) RetrievalData x)"
    with w I(6) show ?thesis by (intro done1 [of R0]) auto
  next
    fix v
    assume v: "it_Location v = location_MarshalBinary loc" "view_batch (pb_batch (pa_batch acc')) (view_of db) RetrievalData =
      (\<lambda>x. if x \<in> set qs then None else view_batch (pb_batch (pa_batch acc)) (view_of db) RetrievalData x) (a \<mapsto> v)"
    have "data_ok log shs ?held (R0 (a \<mapsto> v))"
      by (rule data_ok_add [OF w _ d(1) v(1) fresh(2)]) simp
    with v(2) I(6) aN show ?thesis by (intro done1 [of "R0 (a \<mapsto> v)"]) auto
  qed
qed

lemma put_inv_blob:
  assumes i: "put_inv log db as ps acc" and e: "env_ok env data (pa_sharky acc)"
    and w: "db_Write env data (pa_sharky acc) = (r, shs)"
    and acc': "pa_sharky acc' = shs" "pa_batch acc' = pa_batch acc"
      "pa_committed acc' = pa_committed acc @ (case r of Inl _ \<Rightarrow> [] | Inr loc \<Rightarrow> [loc])"
  shows "put_inv log db as ps acc'"
proof -
  let ?R = "view_of db RetrievalData"
  from i obtain N held R0 where I: "N \<subseteq> addr_bytes ` as" "\<forall>a \<in> N. length a = 32 \<and> ?R a = None" "distinct ps"
    "list_all2 (placed ?R) ps (pb_release (pa_batch acc))"
    "ops_ok db (N \<union> set ps) [] (pb_batch (pa_batch acc))" "\<forall>x. x \<notin> N \<longrightarrow> R0 x = ?R x"
    "view_batch (pb_batch (pa_batch acc)) (view_of db) RetrievalData = (\<lambda>x. if x \<in> set ps then None else R0 x)"
    "data_ok log (pa_sharky acc) held R0" "unused held ?R (pa_committed acc)"
    unfolding put_inv_def by blast
  let ?held = "case r of Inl _ \<Rightarrow> held | Inr loc \<Rightarrow> (loc, data) # held"
  have d: "data_ok log shs ?held R0" by (rule data_ok_write [OF I(8) e w])
  have "unused ?held ?R (pa_committed acc')"
  proof (cases r)
    case (Inl x)
    then show ?thesis using I(9) acc'(3) by simp
  next
    case (Inr loc)
    from d Inr obtain L where "sharky_ok L (shs, (loc, data) # held)" by (auto simp: data_ok_def)
    note fresh = data_ok_fresh [OF I(8) this]
    have "loc \<notin> set (pa_committed acc)" using I(9) fresh(1) by (auto simp: unused_def)
    moreover have "\<forall>b v. ?R b = Some v \<longrightarrow> it_Location v \<noteq> location_MarshalBinary loc"
      using fresh(2) I(2,6) by (metis option.distinct(1))
    ultimately show ?thesis using I(9) acc'(3) Inr by (auto simp: unused_def)
  qed
  then show ?thesis using I(1-7) d acc'(1,2) unfolding put_inv_def by auto
qed

text \<open>The chunk that is replaced.\<close>

lemma replacePrevious_none:
  "replacePrevious db item pb = Inr None \<Longrightarrow>
    \<exists>previous. ix_Get db PostageIndex item = Some previous \<and> later previous item = Inr False"
  by (auto simp: replacePrevious_def Let_def split: option.splits if_splits sum.splits bool.splits)

lemma putChunk_ok:
  assumes so: "view_ok (view_of db)" and i: "put_inv log db (ch_addr ` set before) ps acc"
    and e: "\<not> put_skips db before ch \<Longrightarrow> env_ok env (ch_data ch) (pa_sharky acc)"
    and a: "length (addr_bytes (ch_addr ch)) = 32" "(addr_bytes (ch_addr ch), ch_data ch) \<in> set log"
    and qs: "distinct (ps @ (if put_skips db before ch then [] else replaces db ch))"
    and p: "putChunk mode db before ch env acc = (res, acc')"
  shows "\<exists>ps'. put_inv log db (ch_addr ` set (before @ [ch])) ps' acc' \<and>
    (ps' = ps \<or> ps' = ps @ (if put_skips db before ch then [] else replaces db ch))"
proof -
  let ?a = "addr_bytes (ch_addr ch)" and ?as = "ch_addr ` set before"
  have k: "keys_ok (view_of db)" using so by (simp add: view_ok_def)
  have more: "put_inv log db (insert (ch_addr ch) ?as) ps acc'" if "put_inv log db ?as ps acc'" for acc'
    using put_inv_mono [OF that] by blast
  show ?thesis
    using p
  proof (cases rule: putChunk_cases)
    case panic
    with more i show ?thesis by auto
  next
    case exist
    with more i show ?thesis by auto
  next
    case (blob w shs)
    have "put_inv log db ?as ps acc'"
      by (rule put_inv_blob [OF i e [OF blob(1)] blob(2)]) (simp_all add: blob(4))
    with more show ?thesis by auto
  next
    case (fails w loc shs)
    have "put_inv log db ?as ps acc'"
      by (rule put_inv_blob [OF i e [OF fails(1)] fails(2)]) (simp_all add: fails(4))
    with more show ?thesis by auto
  next
    case (ok item loc shs x c r pb)
    let ?item = "item\<lparr>it_Location := location_MarshalBinary loc\<rparr>"
    have n: "?a \<notin> addr_bytes ` ?as" "view_of db RetrievalData ?a = None"
      using ok(1) by (auto simp: put_skips_def containsChunk_in Has_view addr_bytes_inj)
    have ni: "new_item ?a ?item" by (rule new_item_location [OF chunkToItem_new [OF ok(2)]])
    have rd: "ready db ?a" using so a n(2) by (simp add: ready_def view_ok_def)
    have acc: "pa_sharky acc' = shs" "pa_committed acc' = pa_committed acc @ [loc]" "pa_batch acc' = pb"
      using ok(6) by simp_all
    note add = put_inv_add [OF k i n(1) a(1) n(2) a(2) e [OF ok(1)] ok(3) acc(1,2)]
    from put_op_ok [OF rd ni ok(4)] show ?thesis
    proof (elim disjE conjE)
      assume b: "op_ok db ?a (pb_batch (pa_batch acc)) (pb_batch pb)" "pb_release pb = pb_release (pa_batch acc)"
        "\<forall>M. view_batch (pb_batch pb) M RetrievalData = view_batch (pb_batch (pa_batch acc)) M RetrievalData"
      have "put_inv log db (insert (NewAddress ?a) ?as) (ps @ []) acc'"
        by (rule add [of "[]" "[]"]) (use qs b acc ops_ok_one [OF b(1)] in auto)
      then show ?thesis by auto
    next
      assume "put_result db ?a ?item (pa_batch acc) pb"
      then obtain c r pb1 where q: "replacePrevious db ?item (pa_batch acc) = Inr (Some (c, r, pb1))"
        "pb_release pb = pb_release pb1" "op_ok db ?a (pb_batch pb1) (pb_batch pb)"
        "puts_data ?a (location_MarshalBinary loc) (pb_batch pb1) (pb_batch pb)"
        by (auto simp: put_result_def)
      from q(4) obtain v where v: "it_Location v = location_MarshalBinary loc"
        "view_batch (pb_batch pb) (view_of db) RetrievalData = (view_batch (pb_batch pb1) (view_of db) RetrievalData) (?a \<mapsto> v)"
        unfolding puts_data_def by blast
      show ?thesis
      proof (cases rule: replacePrevious_ok [OF k ni n(2) q(1)])
        case 1
        have "put_inv log db (insert (NewAddress ?a) ?as) (ps @ []) acc'"
          by (rule add [of "[]" "[]"]) (use 1 qs q v acc ops_ok_one [OF q(3)] in auto)
        then show ?thesis by auto
      next
        case (2 p l w prev)
        obtain p' where "ix_Get db PostageIndex item = Some p'" "it_Address p' = p" "later p' item = Inr True"
          using stamp_index_location [OF 2(1)] 2(2,3) by metis
        then have r: "replaces db ch = [p]" using ok(2) by (simp add: replaces_def)
        have "ops_ok db ({p} \<union> {?a}) (pb_batch (pa_batch acc)) (pb_batch pb)"
          using ops_ok_trans [OF ops_ok_one [OF 2(6)] ops_ok_one [OF q(3)]] 2(4,5) a(1) by simp
        then have o: "ops_ok db (insert ?a (set [p])) (pb_batch (pa_batch acc)) (pb_batch (pa_batch acc'))"
          by (simp add: acc insert_commute)
        have "put_inv log db (insert (NewAddress ?a) ?as) (ps @ [p]) acc'"
        proof (rule add [of "[p]" "[l]", OF _ _ _ o])
          show "distinct (ps @ [p])" using qs ok(1) r by simp
          show "list_all2 (placed (view_of db RetrievalData)) [p] [l]" using 2(7,8) by (simp add: placed_def)
          show "pb_release (pa_batch acc') = pb_release (pa_batch acc) @ [l]" using 2(9) q(2) acc by simp
          fix R1
          assume "R1 = view_batch (pb_batch (pa_batch acc)) (view_of db) RetrievalData"
          then have "view_batch (pb_batch pb1) (view_of db) RetrievalData = (\<lambda>x. if x \<in> set [p] then None else R1 x)"
            using 2(10) [of "view_of db"] by auto
          with v acc(3) show "view_batch (pb_batch (pa_batch acc')) (view_of db) RetrievalData =
              (\<lambda>x. if x \<in> set [p] then None else R1 x) \<or>
            (\<exists>v. it_Location v = location_MarshalBinary loc \<and> view_batch (pb_batch (pa_batch acc')) (view_of db) RetrievalData =
              (\<lambda>x. if x \<in> set [p] then None else R1 x) (?a \<mapsto> v))" by auto
        qed
        with r ok(1) show ?thesis by auto
      qed
    qed
  qed
qed

lemma putChunk_shards:
  "putChunk mode db before ch env acc = (Inr y, acc') \<Longrightarrow>
    pa_sharky acc' = (if put_skips db before ch then pa_sharky acc else snd (db_Write env (ch_data ch) (pa_sharky acc)))"
  by (erule putChunk_cases) auto

text \<open>The whole loop.\<close>

lemma put_loop_ok:
  assumes so: "view_ok (view_of db)"
  shows "put_loop mode db before chs acc = (err, acc') \<Longrightarrow> put_inv log db (ch_addr ` set before) ps acc \<Longrightarrow>
    envs_ok db before chs (pa_sharky acc) \<Longrightarrow>
    \<forall>ch \<in> fst ` set chs. length (addr_bytes (ch_addr ch)) = 32 \<and> (addr_bytes (ch_addr ch), ch_data ch) \<in> set log \<Longrightarrow>
    distinct (ps @ replaced db before (map fst chs)) \<Longrightarrow>
    \<exists>ps'. put_inv log db (ch_addr ` set (before @ map fst chs)) ps' acc'"
proof (induction chs arbitrary: before acc ps)
  case Nil
  then show ?case by auto
next
  case (Cons chenv chs)
  obtain ch env where ce: "chenv = (ch, env)" by (rule prod.exhaust)
  obtain res acc1 where pc: "putChunk mode db before ch env acc = (res, acc1)" by (rule prod.exhaust)
  let ?qs = "if put_skips db before ch then [] else replaces db ch"
  have e: "\<not> put_skips db before ch \<Longrightarrow> env_ok env (ch_data ch) (pa_sharky acc)"
    using Cons.prems(3) ce by simp
  have a: "length (addr_bytes (ch_addr ch)) = 32" "(addr_bytes (ch_addr ch), ch_data ch) \<in> set log"
    using Cons.prems(4) ce by auto
  have dist: "distinct (ps @ ?qs)" "distinct ((ps @ ?qs) @ replaced db (before @ [ch]) (map fst chs))"
    using Cons.prems(5) ce by (auto simp: Int_Un_distrib)
  obtain ps' where ps': "put_inv log db (ch_addr ` set (before @ [ch])) ps' acc1" "ps' = ps \<or> ps' = ps @ ?qs"
    using putChunk_ok [OF so Cons.prems(2) e a dist(1) pc] by blast
  have d': "distinct (ps' @ replaced db (before @ [ch]) (map fst chs))" using ps'(2) dist(2) by (auto simp: Int_Un_distrib)
  show ?case
  proof (cases res)
    case (Inl x)
    then have "acc' = acc1" using Cons.prems(1) ce pc by simp
    with put_inv_mono [OF ps'(1), of "ch_addr ` set (before @ map fst (chenv # chs))"] ce show ?thesis by auto
  next
    case (Inr y)
    obtain x c r where y: "y = (x, c, r)" by (metis prod.exhaust)
    let ?acc = "acc1\<lparr>pa_exist := pa_exist acc1 @ [x], pa_gcSize := pa_gcSize acc1 + c, pa_reserveSize := pa_reserveSize acc1 + r\<rparr>"
    have loop: "put_loop mode db (before @ [ch]) chs ?acc = (err, acc')" using Cons.prems(1) ce pc Inr y by simp
    have sh: "envs_ok db (before @ [ch]) chs (pa_sharky ?acc)"
      using Cons.prems(3) putChunk_shards [OF pc [unfolded Inr]] ce by (auto split: if_splits)
    have "put_inv log db (ch_addr ` set (before @ [ch])) ps' ?acc" using ps'(1) by simp
    from Cons.IH [OF loop this sh _ d'] Cons.prems(4) show ?thesis by (simp add: ce)
  qed
qed

text \<open>What the whole operation makes of the indexes and of sharky.\<close>

lemma ls_put_cases:
  assumes "ls_put mode chs written db = (r, db')"
  obtains (same) "db' = db" "r = Inr [True] \<or> r = Inl LsPanic"
  | (result) err acc where
      "put_loop mode (mark_dirty (map (ch_addr \<circ> fst) chs) db) [] chs (put_acc0 (mark_dirty (map (ch_addr \<circ> fst) chs) db)) = (err, acc)"
      "ld_gcRunning db' = ld_gcRunning db" "ld_dirtyAddresses db' = ld_dirtyAddresses (mark_dirty (map (ch_addr \<circ> fst) chs) db)"
      "case err of
         Some e \<Rightarrow> view_of db' = view_of db \<and> db_sorted db' = db_sorted db \<and> r = Inl e \<and>
           ld_sharky db' = fold sharky_Release (if e = LsPanic then [] else pa_committed acc) (pa_sharky acc)
       | None \<Rightarrow>
           if written then
             (db_sorted db \<longrightarrow> db_sorted db' \<and> view_of db' = view_batch (pb_batch (pa_batch acc)) (view_of db)) \<and>
             ld_sharky db' = fold sharky_Release (pb_release (pa_batch acc)) (pa_sharky acc) \<and> r = Inr (pa_exist acc)
           else view_of db' = view_of db \<and> db_sorted db' = db_sorted db \<and>
             ld_sharky db' = fold sharky_Release (pa_committed acc) (pa_sharky acc) \<and> r = Inl LsBatch"
proof -
  let ?db = "mark_dirty (map (ch_addr \<circ> fst) chs) db"
  obtain err acc where pl: "put_loop mode ?db [] chs (put_acc0 ?db) = (err, acc)" by (rule prod.exhaust)
  show thesis
  proof (cases "put_fast mode (map fst chs) db = Inr False")
    case False
    with assms same show thesis
      by (auto simp: ls_put_def put_fast_def split: sum.splits bool.splits option.splits if_splits)
  next
    case True
    show thesis
    proof (cases err)
      case (Some e)
      then have "r = Inl e" "db' = sharky_Releases (if e = LsPanic then [] else pa_committed acc) (?db\<lparr>ld_sharky := pa_sharky acc\<rparr>)"
        using assms True pl by (auto simp: ls_put_def put_acc0_def)
      with Some pl show thesis
        by (intro result) (auto simp: view_of_def fun_eq_iff db_sorted_def)
    next
      case None
      let ?db1 = "?db\<lparr>ld_sharky := pa_sharky acc\<rparr>" and ?pb = "pa_batch acc"
      let ?b = "pb_batch ?pb @ map (\<lambda>(po, i). BBinID po i) (pb_binIDs ?pb)"
      obtain b1 db2 where g: "incGCSizeInBatch (pa_gcSize acc) ?b ?db1 = (b1, db2)" by (rule prod.exhaust)
      obtain b2 db3 where v: "incReserveSizeInBatch (pa_reserveSize acc) b1 db2 = (b2, db3)" by (rule prod.exhaust)
      have res: "(r, db') = (if \<not> written then (Inl LsBatch, sharky_Releases (pa_committed acc) db3)
          else (Inr (pa_exist acc), sharky_Releases (pb_release ?pb) (WriteBatch b2 db3)))"
        using assms True pl None g v by (auto simp: ls_put_def simp flip: put_acc0_def)
      have "same_ix ?db db3" "ld_sharky db3 = pa_sharky acc" "ld_gcRunning db3 = ld_gcRunning ?db"
        "ld_dirtyAddresses db3 = ld_dirtyAddresses ?db"
        using incGC_view [OF g] incReserve_view [OF v] by (simp_all add: same_ix_def)
      note db3 = this(2-) same_ix_view [OF this(1)]
      have bin: "view_batch (map (\<lambda>(po, i). BBinID po i) xs) m = m" for xs m
        by (induction xs) auto
      have b2: "view_batch b2 m = view_batch (pb_batch ?pb) m" for m
        using incGC_view(1) [OF g] incReserve_view(1) [OF v] by (simp add: bin)
      have W: "db_sorted db \<longrightarrow> db_sorted (WriteBatch b2 db3) \<and> view_of (WriteBatch b2 db3) = view_batch (pb_batch ?pb) (view_of db)"
        using view_WriteBatch [of db3 b2] db3 b2 by simp
      have R: "view_of (sharky_Releases ls d) = view_of d" "db_sorted (sharky_Releases ls d) = db_sorted d" for ls d
        by (simp_all add: view_of_def fun_eq_iff db_sorted_def)
      show thesis
        using res None pl W db3 R by (intro result) (auto split: if_splits)
    qed
  qed
qed

definition ls_ok :: "chunk_log \<Rightarrow> localdb \<Rightarrow> bool" where
  "ls_ok log db \<longleftrightarrow> db_sorted db \<and> view_ok (view_of db) \<and>
     (\<exists>held. data_ok log (ld_sharky db) held (view_of db RetrievalData))"

text \<open>A step keeps every other chunk as it is or removes it; the chunks it works on are marked.\<close>

definition step_ok :: "address set \<Rightarrow> localdb \<Rightarrow> localdb \<Rightarrow> bool" where
  "step_ok as db db' \<longleftrightarrow> ld_gcRunning db' = ld_gcRunning db \<and>
     set (ld_dirtyAddresses db) \<subseteq> set (ld_dirtyAddresses db') \<and>
     (ld_gcRunning db \<longrightarrow> as \<subseteq> set (ld_dirtyAddresses db') \<or> view_of db' = view_of db) \<and>
     (\<forall>x. x \<notin> addr_bytes ` as \<longrightarrow> length x = 32 \<longrightarrow>
        same_at x (view_of db) (view_of db') \<or> view_of db' RetrievalData x = None)"

lemma step_ok_same: "view_of db' = view_of db \<Longrightarrow> ld_gcRunning db' = ld_gcRunning db \<Longrightarrow>
    set (ld_dirtyAddresses db) \<subseteq> set (ld_dirtyAddresses db') \<Longrightarrow> step_ok as db db'"
  by (simp add: step_ok_def)

lemma step_okI:
  assumes "ld_gcRunning db' = ld_gcRunning db" "ld_dirtyAddresses db' = ld_dirtyAddresses (mark_dirty addrs db)"
    "\<And>x. x \<notin> addr_bytes ` set addrs \<Longrightarrow> length x = 32 \<Longrightarrow>
       same_at x (view_of db) (view_of db') \<or> view_of db' RetrievalData x = None"
  shows "step_ok (set addrs) db db'"
  using assms dirty_mark [of db addrs] by (auto simp: step_ok_def)

lemma ls_ok_log: "ls_ok log db \<Longrightarrow> set log \<subseteq> set log' \<Longrightarrow> ls_ok log' db"
  by (auto simp: ls_ok_def intro: data_ok_log)

text \<open>What the call has for the log of the chunks that were put.\<close>

definition put_log :: "(stamp chunk \<times> put_env) list \<Rightarrow> chunk_log" where
  "put_log chs = map (\<lambda>(ch, env). (addr_bytes (ch_addr ch), ch_data ch)) chs"

lemma put_skips_dirty [simp]: "put_skips (mark_dirty as db) before ch = put_skips db before ch"
  by (simp add: put_skips_def Has_view)

lemma replaced_dirty [simp]: "replaced (mark_dirty as db) before chs = replaced db before chs"
proof (induction chs arbitrary: before)
  case (Cons ch chs)
  have "replaces (mark_dirty as db) ch = replaces db ch" by (cases "chunkToItem ch") (simp_all add: replaces_def)
  with Cons show ?case by simp
qed simp

lemma envs_ok_dirty [simp]: "envs_ok (mark_dirty as db) before chs shs = envs_ok db before chs shs"
  by (induction chs arbitrary: before shs) auto

lemma put_step:
  assumes ok: "ls_ok log db" and a: "\<forall>ch \<in> fst ` set chs. length (addr_bytes (ch_addr ch)) = 32"
    and e: "envs_ok db [] chs (ld_sharky db)" and r: "distinct (replaced db [] (map fst chs))"
    and p: "ls_put mode chs written db = (res, db')"
  shows "ls_ok (put_log chs @ log) db' \<and> step_ok (ch_addr ` fst ` set chs) db db'"
  using p
proof (cases rule: ls_put_cases)
  case same
  have "ls_ok (put_log chs @ log) db" by (rule ls_ok_log [OF ok]) auto
  with same show ?thesis by (simp add: step_ok_def)
next
  case (result err acc)
  let ?log = "put_log chs @ log" and ?as = "map (ch_addr \<circ> fst) chs" and ?R = "view_of db RetrievalData"
  let ?db = "mark_dirty ?as db"
  from ok obtain held where so: "db_sorted db" "view_ok (view_of db)" and d: "data_ok ?log (ld_sharky db) held ?R"
    using data_ok_log [of log _ _ _ ?log] by (auto simp: ls_ok_def)
  have as: "set ?as = ch_addr ` fst ` set chs" by (simp add: image_image comp_def)
  have init: "put_inv ?log ?db (ch_addr ` set []) [] (put_acc0 ?db)"
    using d unfolding put_inv_def by (intro exI [of _ "{}"] exI [of _ held] exI [of _ ?R]) (auto simp: put_acc0_def unused_def)
  have lg: "\<forall>ch \<in> fst ` set chs. length (addr_bytes (ch_addr ch)) = 32 \<and> (addr_bytes (ch_addr ch), ch_data ch) \<in> set ?log"
    using a by (force simp: put_log_def)
  have so': "view_ok (view_of ?db)" using so by simp
  have "\<exists>ps. put_inv ?log ?db (ch_addr ` set ([] @ map fst chs)) ps acc"
    by (rule put_loop_ok [OF so' result(1) init _ lg]) (use e r in \<open>simp_all add: put_acc0_def\<close>)
  then obtain ps N held R0 where I: "N \<subseteq> addr_bytes ` ch_addr ` fst ` set chs" "\<forall>a \<in> N. length a = 32 \<and> ?R a = None"
    "distinct ps" "list_all2 (placed ?R) ps (pb_release (pa_batch acc))"
    "ops_ok ?db (N \<union> set ps) [] (pb_batch (pa_batch acc))" "\<forall>x. x \<notin> N \<longrightarrow> R0 x = ?R x"
    "view_batch (pb_batch (pa_batch acc)) (view_of db) RetrievalData = (\<lambda>x. if x \<in> set ps then None else R0 x)"
    "data_ok ?log (pa_sharky acc) held R0" "unused held ?R (pa_committed acc)"
    unfolding put_inv_def by auto
  have sub: "R0 b = Some v" if "?R b = Some v" for b v using I(2,6) that by (metis option.distinct(1))
  have dR: "data_ok ?log (pa_sharky acc) held ?R" by (rule data_ok_sub [OF I(8) sub])
  have step: "step_ok (ch_addr ` fst ` set chs) db db'"
    if "\<And>x. x \<notin> addr_bytes ` set ?as \<Longrightarrow> length x = 32 \<Longrightarrow> same_at x (view_of db) (view_of db') \<or> view_of db' RetrievalData x = None"
    using step_okI [OF result(2,3) that] as by simp
  have unchanged: ?thesis
    if "view_of db' = view_of db" "db_sorted db' = db_sorted db" "ld_sharky db' = fold sharky_Release ls (pa_sharky acc)"
      "ls = [] \<or> ls = pa_committed acc" for ls
  proof -
    have "\<exists>held'. data_ok ?log (ld_sharky db') held' ?R"
      using that(3,4) dR data_ok_frees [OF dR I(9)] by auto
    with that(1,2) so step show ?thesis by (simp add: ls_ok_def)
  qed
  show ?thesis
  proof (cases "err = None \<and> written")
    case False
    with result(4) unchanged show ?thesis by (auto split: option.splits if_splits)
  next
    case True
    with result(4) so have w: "db_sorted db'" "view_of db' = view_batch (pb_batch (pa_batch acc)) (view_of db)"
      "ld_sharky db' = fold sharky_Release (pb_release (pa_batch acc)) (pa_sharky acc)" by simp_all
    have k: "keys_ok (view_of db)" using so by (simp add: view_ok_def)
    have len: "\<forall>a \<in> N \<union> set ps. length a = 32"
      using I(2) list_all2_placed [OF I(4)] placed_32 [OF k] by blast
    note v = ops_ok_view [OF I(5) so' len, unfolded view_of_mark_dirty]
    have "\<exists>held'. data_ok ?log (ld_sharky db') held' (view_of db' RetrievalData)"
      unfolding w(2,3) I(7) by (rule data_ok_placed [OF I(8) sub I(3,4)])
    then have ls: "ls_ok ?log db'" using v(1) w(1,2) by (simp add: ls_ok_def)
    have "same_at x (view_of db) (view_of db') \<or> view_of db' RetrievalData x = None"
      if x: "x \<notin> addr_bytes ` set ?as" "length x = 32" for x
    proof (cases "x \<in> set ps")
      case True
      then show ?thesis using w(2) I(7) by simp
    next
      case False
      then have "x \<notin> N \<union> set ps" using x(1) I(1) as by auto
      from v(2) [OF this x(2)] show ?thesis using w(2) by simp
    qed
    from ls step [OF this] show ?thesis ..
  qed
qed

section \<open>set\<close>

lemma setPin_data: "setPin db item batch = Inr (batch', c) \<Longrightarrow>
    view_batch batch' M RetrievalData = view_batch batch M RetrievalData"
  by (auto simp: setPin_def Let_def split: option.splits)

lemma setSync_data: "setSync db now addr batch = Inr (batch', c, r) \<Longrightarrow>
    view_batch batch' M RetrievalData = view_batch batch M RetrievalData"
  by (auto simp: setSync_def preserveOrCache_def Let_def setPin_data split: option.splits if_splits sum.splits)

lemma setUnpin_data: "setUnpin db now addr batch = (e, batch', c) \<Longrightarrow>
    view_batch batch' M RetrievalData = view_batch batch M RetrievalData"
  by (auto simp: setUnpin_def Let_def split: option.splits if_splits)

lemma set_one_ok:
  assumes k: "keys_ok (view_of db)" and a: "length (addr_bytes addr) = 32"
    and s: "set_one mode db now addr batch = Inr (batch', ls, c, r)"
  shows "op_ok db (addr_bytes addr) batch batch'"
    "(ls = [] \<and> (\<forall>M. view_batch batch' M RetrievalData = view_batch batch M RetrievalData)) \<or>
     (\<exists>l v. ls = [l] \<and> view_of db RetrievalData (addr_bytes addr) = Some v \<and>
        LocationFromBinary (it_Location v) = Inr l \<and>
        (\<forall>M. view_batch batch' M RetrievalData = (view_batch batch M RetrievalData) (addr_bytes addr := None)))"
proof -
  let ?a = "addr_bytes addr"
  note i = item_at_address(2) [of "view_of db" addr]
  have "op_ok db ?a batch batch' \<and>
    ((ls = [] \<and> (\<forall>M. view_batch batch' M RetrievalData = view_batch batch M RetrievalData)) \<or>
     (\<exists>l v. ls = [l] \<and> view_of db RetrievalData ?a = Some v \<and> LocationFromBinary (it_Location v) = Inr l \<and>
        (\<forall>M. view_batch batch' M RetrievalData = (view_batch batch M RetrievalData) (?a := None))))"
  proof (cases mode)
    case ModeSetSync
    with s have "setSync db now addr batch = Inr (batch', c, r)" "ls = []"
      by (auto simp: set_one_def split: sum.splits)
    with setSync_ok [OF k a] setSync_data show ?thesis by blast
  next
    case ModeSetRemove
    with s obtain item where it: "ix_Get db RetrievalData (addressToItem addr) = Some item"
      by (auto simp: set_one_def split: option.splits)
    from s it ModeSetRemove obtain l where l: "setRemove db item True batch = Inr (batch', c)"
      "LocationFromBinary (it_Location item) = Inr l" "ls = [l]"
      by (auto simp: set_one_def split: option.splits sum.splits)
    from get_data(1) [OF k i it] obtain v where v: "view_of db RetrievalData ?a = Some v"
      "it_StoreTimestamp item = it_StoreTimestamp v" "it_BinID item = it_BinID v" "it_Address item = ?a"
      "it_AccessTimestamp item = 0" "it_Location item = it_Location v"
      by (auto simp: addressToItem_def zero_item_def split: if_splits)
    then have "item_at (view_of db) ?a item" "known (view_of db) ?a item"
      by (auto simp: item_at_def known_def)
    note rm = setRemove_ok [OF k this(1) a this(2) l(1)]
    with v l show ?thesis by auto
  next
    case ModeSetPin
    with s have "setPin db (addressToItem addr) batch = Inr (batch', c)" "ls = []"
      by (auto simp: set_one_def split: sum.splits)
    with setPin_ok [OF k i a] setPin_data show ?thesis by blast
  next
    case ModeSetUnpin
    with s have "setUnpin db now addr batch = (None, batch', c)" "ls = []"
      by (auto simp: set_one_def split: option.splits prod.splits)
    with setUnpin_ok [OF k a] setUnpin_data show ?thesis by blast
  qed
  note all = this
  show "op_ok db ?a batch batch'" by (rule conjunct1 [OF all])
  show "(ls = [] \<and> (\<forall>M. view_batch batch' M RetrievalData = view_batch batch M RetrievalData)) \<or>
     (\<exists>l v. ls = [l] \<and> view_of db RetrievalData ?a = Some v \<and> LocationFromBinary (it_Location v) = Inr l \<and>
        (\<forall>M. view_batch batch' M RetrievalData = (view_batch batch M RetrievalData) (?a := None)))"
    by (rule conjunct2 [OF all])
qed

text \<open>Different addresses: each is worked on once, and what is removed is released once.\<close>

lemma set_loop_ok:
  assumes k: "keys_ok (view_of db)"
  shows "set_loop mode db addrs (batch, ls, gc, res) = Inr (batch', ls', gc', res') \<Longrightarrow>
    distinct (map fst addrs) \<Longrightarrow> \<forall>a \<in> fst ` set addrs. length (addr_bytes a) = 32 \<Longrightarrow>
    \<exists>ds new. distinct ds \<and> ls' = ls @ new \<and> list_all2 (placed (view_of db RetrievalData)) ds new \<and>
      set ds \<subseteq> addr_bytes ` fst ` set addrs \<and> ops_ok db (addr_bytes ` fst ` set addrs) batch batch' \<and>
      (\<forall>M. view_batch batch' M RetrievalData =
         (\<lambda>a. if a \<in> set ds then None else view_batch batch M RetrievalData a))"
proof (induction addrs arbitrary: batch ls gc res)
  case Nil
  then show ?case by (auto intro: exI [of _ "[]"])
next
  case (Cons an addrs)
  obtain addr now where an: "an = (addr, now)" by (rule prod.exhaust)
  let ?a = "addr_bytes addr"
  have a: "length ?a = 32" using Cons.prems(3) an by simp
  from Cons.prems(1) an obtain b l c r where s: "set_one mode db now addr batch = Inr (b, l, c, r)"
    and rest: "set_loop mode db addrs (b, ls @ l, gc + c, res + r) = Inr (batch', ls', gc', res')"
    by (auto split: sum.splits)
  note one = set_one_ok [OF k a s]
  from Cons.IH [OF rest] Cons.prems(2,3) obtain ds new where ds: "distinct ds" "ls' = (ls @ l) @ new"
    "list_all2 (placed (view_of db RetrievalData)) ds new" "set ds \<subseteq> addr_bytes ` fst ` set addrs"
    "ops_ok db (addr_bytes ` fst ` set addrs) b batch'"
    "\<forall>M. view_batch batch' M RetrievalData = (\<lambda>a. if a \<in> set ds then None else view_batch b M RetrievalData a)"
    by auto
  have n: "?a \<notin> addr_bytes ` fst ` set addrs" using Cons.prems(2) an by (force simp: addr_bytes_inj)
  have "ops_ok db ({?a} \<union> addr_bytes ` fst ` set addrs) batch batch'"
    using n Cons.prems(3) an by (intro ops_ok_trans [OF ops_ok_one [OF one(1)] ds(5)]) auto
  then have O: "ops_ok db (addr_bytes ` fst ` set (an # addrs)) batch batch'" by (simp add: an)
  from one(2) show ?case
  proof (elim disjE exE conjE)
    assume "l = []" "\<forall>M. view_batch b M RetrievalData = view_batch batch M RetrievalData"
    with O ds show ?thesis by (intro exI [of _ ds] exI [of _ new]) auto
  next
    fix l0 v
    assume v: "l = [l0]" "view_of db RetrievalData ?a = Some v" "LocationFromBinary (it_Location v) = Inr l0"
      "\<forall>M. view_batch b M RetrievalData = (view_batch batch M RetrievalData) (?a := None)"
    have "?a \<notin> set ds" using n ds(4) by blast
    moreover have "placed (view_of db RetrievalData) ?a l0" using v by (simp add: placed_def)
    ultimately show ?thesis using O ds v an
      by (intro exI [of _ "?a # ds"] exI [of _ "l0 # new"]) auto
  qed
qed

lemma view_Releases [simp]: "view_of (sharky_Releases ls db) = view_of db"
  "db_sorted (sharky_Releases ls db) = db_sorted db"
  by (simp_all add: view_of_def fun_eq_iff db_sorted_def)

lemma ls_set_cases:
  assumes "ls_set mode addrs written db = (e, db')"
  obtains (same) "view_of db' = view_of db" "db_sorted db' = db_sorted db" "ld_sharky db' = ld_sharky db"
      "ld_gcRunning db' = ld_gcRunning db" "ld_dirtyAddresses db' = ld_dirtyAddresses (mark_dirty (map fst addrs) db)"
  | (written) batch ls c r where "set_loop mode (mark_dirty (map fst addrs) db) addrs ([], [], 0, 0) = Inr (batch, ls, c, r)"
      "db_sorted db \<Longrightarrow> db_sorted db' \<and> view_of db' = view_batch batch (view_of db)"
      "ld_sharky db' = fold sharky_Release ls (ld_sharky db)"
      "ld_gcRunning db' = ld_gcRunning db" "ld_dirtyAddresses db' = ld_dirtyAddresses (mark_dirty (map fst addrs) db)"
proof -
  let ?db = "mark_dirty (map fst addrs) db"
  show thesis
  proof (cases "set_loop mode ?db addrs ([], [], 0, 0)")
    case (Inl x)
    with assms have "db' = ?db" by (simp add: ls_set_def Let_def)
    then show thesis by (intro same) auto
  next
    case (Inr y)
    obtain batch ls c r where y: "y = (batch, ls, c, r)" by (metis prod.exhaust)
    obtain b1 db2 where g: "incGCSizeInBatch c batch ?db = (b1, db2)" by (rule prod.exhaust)
    obtain b2 db3 where v: "incReserveSizeInBatch r b1 db2 = (b2, db3)" by (rule prod.exhaust)
    have db': "(e, db') = (if \<not> written then (Some LsBatch, db3) else (None, sharky_Releases ls (WriteBatch b2 db3)))"
      using assms Inr y g v by (auto simp: ls_set_def Let_def)
    have "same_ix ?db db3" "ld_sharky db3 = ld_sharky db" "ld_gcRunning db3 = ld_gcRunning db"
      "ld_dirtyAddresses db3 = ld_dirtyAddresses ?db"
      using incGC_view [OF g] incReserve_view [OF v] by (simp_all add: same_ix_def)
    note db3 = this(2-) same_ix_view [OF this(1)]
    have b2: "view_batch b2 m = view_batch batch m" for m
      using incGC_view(1) [OF g] incReserve_view(1) [OF v] by simp
    have W: "db_sorted db \<Longrightarrow> db_sorted (WriteBatch b2 db3) \<and> view_of (WriteBatch b2 db3) = view_batch batch (view_of db)"
      using view_WriteBatch [of db3 b2] db3 b2 by simp
    show thesis
    proof (cases written)
      case True
      show thesis by (rule that(2) [of batch ls c r]) (use True Inr y db' db3 W in auto)
    next
      case False
      with db' db3 show thesis by (intro same) auto
    qed
  qed
qed

lemma set_step:
  assumes ok: "ls_ok log db" and a: "\<forall>a \<in> fst ` set addrs. length (addr_bytes a) = 32"
    and n: "distinct (map fst addrs)" and p: "ls_set mode addrs written db = (e, db')"
  shows "ls_ok log db' \<and> step_ok (fst ` set addrs) db db'"
  using p
proof (cases rule: ls_set_cases)
  case same
  with ok have "ls_ok log db'" by (simp add: ls_ok_def)
  moreover have "step_ok (set (map fst addrs)) db db'" using same by (intro step_okI) auto
  ultimately show ?thesis by simp
next
  case (written batch ls c r)
  let ?db = "mark_dirty (map fst addrs) db"
  from ok obtain held where so: "db_sorted db" "view_ok (view_of db)"
    and d: "data_ok log (ld_sharky db) held (view_of db RetrievalData)"
    by (auto simp: ls_ok_def)
  have k: "keys_ok (view_of ?db)" and so': "view_ok (view_of ?db)" using so by (simp_all add: view_ok_def)
  from set_loop_ok [OF k written(1) n a] obtain ds where ds: "distinct ds"
    "list_all2 (placed (view_of db RetrievalData)) ds ls" "ops_ok ?db (addr_bytes ` fst ` set addrs) [] batch"
    "\<forall>M. view_batch batch M RetrievalData = (\<lambda>a. if a \<in> set ds then None else view_batch [] M RetrievalData a)"
    unfolding append_Nil by auto
  have len: "\<forall>a \<in> addr_bytes ` fst ` set addrs. length a = 32" using a by auto
  note v = ops_ok_view [OF ds(3) so' len, unfolded view_of_mark_dirty]
  have w: "db_sorted db'" "view_of db' = view_batch batch (view_of db)" using written(2) so by simp_all
  have "view_of db' RetrievalData = (\<lambda>a. if a \<in> set ds then None else view_of db RetrievalData a)"
    unfolding w(2) using ds(4) [rule_format, of "view_of db", unfolded view_batch_simps(1)] .
  then have "\<exists>held. data_ok log (ld_sharky db') held (view_of db' RetrievalData)"
    using data_ok_placed [OF d _ ds(1,2)] written(3) by simp
  then have "ls_ok log db'" using v(1) w by (simp add: ls_ok_def)
  moreover have "step_ok (set (map fst addrs)) db db'"
    using written(4,5) w(2) v(2) by (intro step_okI) auto
  ultimately show ?thesis by simp
qed

end
