(* ===== verification/Localstore_Reach.thy ===== *)
theory Localstore_Reach
  imports Localstore_Hist
begin

text \<open>
  The steps of the garbage collector and of the eviction from the reserve, and the states a
  local store reaches by all of its operations.
\<close>

section \<open>updateGC\<close>

lemma updateGC_step:
  assumes ok: "ls_ok log db" and a: "length (it_Address item) = 32" and ts: "it_AccessTimestamp item = 0"
    and fresh: "\<forall>v. view_of db RetrievalData (it_Address item) = Some v \<longrightarrow> it_BinID item = it_BinID v"
    and u: "updateGC now item written db = (e, db')"
  shows "ls_ok log db' \<and> step_ok {NewAddress (it_Address item)} db db'"
proof -
  let ?a = "it_Address item" and ?db = "mark_dirty [NewAddress (it_Address item)] db"
  have k: "keys_ok (view_of ?db)" and vo: "view_ok (view_of ?db)" using ok by (simp_all add: ls_ok_def view_ok_def)
  have same: "ls_ok log db' \<and> step_ok {NewAddress ?a} db db'" if "db' = ?db"
    using that ok step_okI [of ?db db "[NewAddress ?a]"] by (simp add: ls_ok_def)
  show ?thesis
  proof (cases "ix_Get ?db RetrievalAccess item")
    case None
    with u ts have "db' = ?db" by (simp add: updateGC_def Let_def)
    then show ?thesis by (rule same)
  next
    case (Some i)
    let ?it = "item\<lparr>it_AccessTimestamp := it_AccessTimestamp i\<rparr>"
    let ?it2 = "item\<lparr>it_AccessTimestamp := now\<rparr>"
    obtain c where c: "view_of db RetrievalAccess ?a = Some c" "it_AccessTimestamp i = it_AccessTimestamp c"
      using Some ts by (auto simp: ix_Get_view split: option.splits if_splits)
    obtain v where v: "view_of db RetrievalData ?a = Some v"
      using vo a c by (auto simp: view_ok_def addr_ok_def)
    have bin: "it_BinID item = it_BinID v" using fresh v by simp
    let ?b1 = "ix_del ?db GcIx ?it []"
    let ?b = "ix_put ?db RetrievalAccess ?it2 (if ix_Get ?db GcIx ?it = None then ?b1 else ix_put ?db GcIx ?it2 ?b1)"
    show ?thesis
    proof (cases "it_AccessTimestamp i = 0 \<or> \<not> written")
      case True
      with u Some have "db' = ?db" by (auto simp: updateGC_def Let_def split: if_splits)
      then show ?thesis by (rule same)
    next
      case False
      with u Some have db': "db' = WriteBatch ?b ?db"
        by (cases "ix_Get ?db GcIx ?it") (auto simp: updateGC_def Let_def)
      have g: "ix_Get ?db GcIx ?it = None \<longleftrightarrow> view_of db PinIx ?a \<noteq> None"
        using get_other(2) [of ?db ?it] vo a c v bin by (simp add: view_ok_def addr_ok_def)
      have "op_ok ?db ?a [] ?b"
      proof (cases "ix_Get ?db GcIx ?it = None")
        case True
        show ?thesis unfolding if_P [OF True]
          using True g c v bin a by (intro op_okI keys_batch) (auto simp: addr_ok_def same_at_def keys_fields)
      next
        case False
        show ?thesis unfolding if_not_P [OF False]
          using False g c v bin a by (intro op_okI keys_batch) (auto simp: addr_ok_def same_at_def keys_fields)
      qed
      note S = ops_ok_one [OF this]
      note w = ops_ok_view [OF S vo, simplified, OF a]
      have W: "db_sorted db' \<and> view_of db' = view_batch ?b (view_of db)"
        using view_WriteBatch [of ?db ?b] ok unfolding db' ls_ok_def by simp
      have R: "view_of db' RetrievalData = view_of db RetrievalData" using W by simp
      have "ls_ok log db'" using ok W w(1) R unfolding ls_ok_def by (simp add: db')
      moreover have "step_ok {NewAddress ?a} db db'"
        using W w(2) step_okI [of db' db "[NewAddress ?a]"] by (auto simp: db')
      ultimately show ?thesis ..
    qed
  qed
qed

section \<open>UnreserveBatch\<close>

text \<open>Eviction stores and removes nothing, and keeps what is in the collector's index there.\<close>

definition evict_ok :: "chunk_log \<Rightarrow> localdb \<Rightarrow> localdb \<Rightarrow> bool" where
  "evict_ok log db db' \<longleftrightarrow> (ls_ok log db \<longrightarrow> ls_ok log db' \<and> ld_gcRunning db' = ld_gcRunning db \<and>
     ld_dirtyAddresses db' = ld_dirtyAddresses db \<and>
     view_of db' RetrievalData = view_of db RetrievalData \<and> ld_baseKey db' = ld_baseKey db \<and>
     (\<forall>k. view_of db GcIx k \<noteq> None \<longrightarrow> view_of db' GcIx k \<noteq> None))"

lemma evict_ok_refl [simp]: "evict_ok log db db"
  by (simp add: evict_ok_def)

lemma evict_ok_trans: "evict_ok log db db1 \<Longrightarrow> evict_ok log db1 db2 \<Longrightarrow> evict_ok log db db2"
  by (simp add: evict_ok_def)

lemma setUnpin_gc: "setUnpin db now addr batch = (e, batch', c) \<Longrightarrow> view_batch batch M GcIx k \<noteq> None \<Longrightarrow>
    view_batch batch' M GcIx k \<noteq> None"
  by (auto simp: setUnpin_def Let_def split: option.splits if_splits)

lemma unpin_items_ok:
  assumes "keys_ok (view_of db)" "\<forall>i \<in> set items. length (it_Address i) = 32" "distinct (map it_Address items)"
    "unpin_items db clk items (batch, gc, res) = Inr (batch', gc', res')"
  shows "ops_ok db (it_Address ` set items) batch batch' \<and>
    (\<forall>M. view_batch batch' M RetrievalData = view_batch batch M RetrievalData) \<and>
    (\<forall>M k. view_batch batch M GcIx k \<noteq> None \<longrightarrow> view_batch batch' M GcIx k \<noteq> None)"
  using assms(2-)
proof (induction items arbitrary: batch gc res)
  case (Cons i items)
  let ?addr = "NewAddress (it_Address i)"
  obtain e b c where u: "setUnpin db (clk ?addr) ?addr batch = (e, b, c)" by (metis prod.exhaust)
  from Cons.prems(3) u obtain res1 where rest: "unpin_items db clk items (b, gc + c, res1) = Inr (batch', gc', res')"
    by (auto split: option.splits if_splits)
  have 1: "ops_ok db {it_Address i} batch b"
    using ops_ok_one [OF setUnpin_ok [OF assms(1) _ u]] Cons.prems(1) by simp
  note IH = Cons.IH [OF _ _ rest]
  have "ops_ok db ({it_Address i} \<union> it_Address ` set items) batch batch'"
    using IH Cons.prems(1,2) by (intro ops_ok_trans [OF 1]) auto
  moreover have "\<forall>M. view_batch batch' M RetrievalData = view_batch batch M RetrievalData"
    using IH Cons.prems(1,2) setUnpin_data [OF u] by simp
  moreover have "\<forall>M k. view_batch batch M GcIx k \<noteq> None \<longrightarrow> view_batch batch' M GcIx k \<noteq> None"
    using IH Cons.prems(1,2) setUnpin_gc [OF u] by simp
  ultimately show ?case by simp
qed simp

text \<open>Writing a batch in an eviction.\<close>

lemma try_write_ok:
  assumes w: "try_write batch (db1, ws) = (ok, st)" and s: "same_ix db db1" "ld_sharky db1 = ld_sharky db"
    "ld_gcRunning db1 = ld_gcRunning db" "ld_dirtyAddresses db1 = ld_dirtyAddresses db"
    and o: "view_ok (view_of db) \<Longrightarrow> view_ok (view_batch batch (view_of db))"
    "view_batch batch (view_of db) RetrievalData = view_of db RetrievalData"
    "\<forall>k. view_of db GcIx k \<noteq> None \<longrightarrow> view_batch batch (view_of db) GcIx k \<noteq> None"
  shows "evict_ok log db (fst st)"
proof -
  have c: "fst st = db1 \<or> fst st = WriteBatch batch db1"
    using w by (auto simp: try_write_def split: list.splits if_splits)
  note v = same_ix_view [OF s(1)]
  have b: "ld_baseKey db1 = ld_baseKey db" using s(1) by (simp add: same_ix_def)
  from c show ?thesis
  proof
    assume "fst st = db1"
    with v s b show ?thesis by (simp add: evict_ok_def ls_ok_def)
  next
    assume st: "fst st = WriteBatch batch db1"
    have "db_sorted db \<longrightarrow> db_sorted (fst st) \<and> view_of (fst st) = view_batch batch (view_of db)"
      using view_WriteBatch [of db1 batch] v st by simp
    with o v s b show ?thesis unfolding st evict_ok_def ls_ok_def by auto
  qed
qed

lemma unpin_rounds_ok:
  "unpin_rounds clk items evicted st = (r, st') \<Longrightarrow> \<forall>i \<in> set items. length (it_Address i) = 32 \<Longrightarrow>
   distinct (map it_Address items) \<Longrightarrow> evict_ok log (fst st) (fst st')"
proof (induction clk items evicted st arbitrary: r st' rule: unpin_rounds.induct)
  case (1 clk items evicted st)
  let ?db = "fst st" and ?now = "take (unpinBatchSize + 1) items" and ?rest = "drop (unpinBatchSize + 1) items"
  have now: "\<forall>i \<in> set ?now. length (it_Address i) = 32" "distinct (map it_Address ?now)"
    "\<forall>i \<in> set ?rest. length (it_Address i) = 32" "distinct (map it_Address ?rest)"
    using "1.prems"(2,3) by (auto simp flip: take_map drop_map dest: in_set_takeD in_set_dropD)
  show ?case
  proof (cases "unpin_items ?db clk ?now ([], 0, 0)")
    case (Inl e)
    with "1.prems"(1) show ?thesis by (subst (asm) unpin_rounds.simps) (simp add: Let_def)
  next
    case (Inr y)
    obtain batch gc res where y: "y = (batch, gc, res)" by (metis prod.exhaust)
    obtain b1 db1 where g: "(if gc > 0 then incGCSizeInBatch gc batch ?db else (batch, ?db)) = (b1, db1)"
      by (rule prod.exhaust)
    obtain b2 db2 where v: "(if res > 0 then incReserveSizeInBatch (- uint res) b1 db1 else (b1, db1)) = (b2, db2)"
      by (rule prod.exhaust)
    obtain ok st1 where w: "try_write b2 (db2, snd st) = (ok, st1)" by (rule prod.exhaust)
    have 1: "same_ix ?db db1 \<and> (\<forall>m. view_batch b1 m = view_batch batch m) \<and> ld_sharky db1 = ld_sharky ?db \<and>
      ld_gcRunning db1 = ld_gcRunning ?db \<and> ld_dirtyAddresses db1 = ld_dirtyAddresses ?db"
      using g incGC_view [of gc batch ?db b1 db1] by (auto simp: same_ix_def split: if_splits)
    have 2: "same_ix ?db db2 \<and> (\<forall>m. view_batch b2 m = view_batch batch m) \<and> ld_sharky db2 = ld_sharky ?db \<and>
      ld_gcRunning db2 = ld_gcRunning ?db \<and> ld_dirtyAddresses db2 = ld_dirtyAddresses ?db"
      using v 1 incReserve_view [of "- uint res" b1 db1 b2 db2] by (auto simp: same_ix_def split: if_splits)
    have step: "evict_ok log ?db (fst st1)"
    proof (cases "view_ok (view_of ?db)")
      case True
      then have k: "keys_ok (view_of ?db)" by (simp add: view_ok_def)
      note un = unpin_items_ok [OF k now(1,2) Inr [unfolded y]]
      show ?thesis
        by (rule try_write_ok [OF w]) (use 2 un ops_ok_view(1) [of ?db _ batch] now(1) in \<open>auto simp del: not_None_eq\<close>)
    next
      case False
      then show ?thesis by (simp add: evict_ok_def ls_ok_def)
    qed
    have eq: "unpin_rounds clk items evicted st =
      (if \<not> ok then (Inl LsBatch, st1) else if ?rest = [] then (Inr (evicted + res), st1)
       else unpin_rounds clk ?rest (evicted + res) st1)"
      by (subst unpin_rounds.simps) (use Inr y g v w in \<open>simp add: Let_def\<close>)
    show ?thesis
    proof (cases "ok \<and> ?rest \<noteq> []")
      case True
      with eq "1.prems"(1) have r: "unpin_rounds clk ?rest (evicted + res) st1 = (r, st')" by simp
      have "evict_ok log (fst st1) (fst st')"
        by (rule "1.IH" [OF refl refl Inr y [symmetric] refl refl g [symmetric] refl v [symmetric] refl w [symmetric] _ _ r now(3,4)])
          (use True in simp_all)
      with step show ?thesis by (rule evict_ok_trans)
    next
      case False
      with eq "1.prems"(1) step show ?thesis by (auto split: if_splits)
    qed
  qed
qed

text \<open>The chunks of a batch that the iteration finds have different addresses of 32 bytes.\<close>

lemma index_items_all: "index_items ix n [] [] = map (index_item n) (ix n)"
proof -
  have "takeWhile (\<lambda>(k, v). has_prefix [] k) (dropWhile (\<lambda>(k, v). k < []) xs) = xs"
    for xs :: "(bytes \<times> item) list" by (induction xs) auto
  then show ?thesis by (simp only: index_items_def)
qed

lemma chunk_items:
  assumes ok: "db_sorted db" "keys_ok (view_of db)" and b: "length pre = 33"
  shows "\<forall>i \<in> set (index_items (ld_ix db) PostageChunks pre pre). length (it_Address i) = 32"
    "distinct (map it_Address (index_items (ld_ix db) PostageChunks pre pre))"
proof -
  let ?kvs = "takeWhile (\<lambda>(k, v). has_prefix pre k) (dropWhile (\<lambda>(k, v). k < pre) (ld_ix db PostageChunks))"
  have sub: "set ?kvs \<subseteq> set (ld_ix db PostageChunks)"
    using set_takeWhileD set_dropWhileD by fastforce
  have len: "length k = 65 \<and> k = pre @ drop 33 k" if "(k, v) \<in> set ?kvs" for k v
  proof -
    have "view_of db PostageChunks k \<noteq> None"
      using sub that by (auto simp: view_of_def map_of_eq_None_iff rev_image_eqI)
    then have "length k = 65" using ok(2) unfolding keys_ok_def by blast
    moreover have "has_prefix pre k" using set_takeWhileD [OF that] by simp
    ultimately show ?thesis using b by (metis append_take_drop_id has_prefix_def)
  qed
  have addr: "it_Address (index_item PostageChunks kv) = drop 33 (fst kv)" if "kv \<in> set ?kvs" for kv
  proof -
    have l: "length (fst kv) = 65" using len [of "fst kv" "snd kv"] that by simp
    then have "slice 33 65 (fst kv) = drop 33 (fst kv)" "drop 33 (fst kv) \<noteq> []" by (simp_all add: slice_def)
    then show ?thesis by (simp add: index_item_def zero_item_def)
  qed
  show "\<forall>i \<in> set (index_items (ld_ix db) PostageChunks pre pre). length (it_Address i) = 32"
    unfolding index_items_def using addr len by fastforce
  have "distinct (map fst (ld_ix db PostageChunks))"
    using ok(1) by (simp add: db_sorted_def strict_sorted_iff)
  then have "distinct (map fst ?kvs)"
    by (simp add: distinct_map inj_on_subset [OF _ sub])
  moreover have "map it_Address (map (index_item PostageChunks) ?kvs) = map (drop 33) (map fst ?kvs)"
    using addr by simp
  moreover have "inj_on (drop 33) (set (map fst ?kvs))"
  proof (rule inj_onI)
    fix x y
    assume "x \<in> set (map fst ?kvs)" "y \<in> set (map fst ?kvs)" and d: "drop 33 x = drop 33 y"
    then obtain v w where "(x, v) \<in> set ?kvs" "(y, w) \<in> set ?kvs" unfolding set_map by (elim imageE) (metis prod.collapse)
    then have "x = pre @ drop 33 x" "y = pre @ drop 33 y" using len by blast+
    with d show "x = y" by metis
  qed
  ultimately show "distinct (map it_Address (index_items (ld_ix db) PostageChunks pre pre))"
    unfolding index_items_def by (metis distinct_map)
qed

lemma unpinBatchChunks_ok:
  assumes "unpinBatchChunks clk bid bin st = (r, st')" "length bid = 32"
  shows "evict_ok log (fst st) (fst st')"
proof (cases "ls_ok log (fst st)")
  case True
  then have "db_sorted (fst st)" "keys_ok (view_of (fst st))" by (simp_all add: ls_ok_def view_ok_def)
  from chunk_items [OF this, of "bid @ [bin]"] assms show ?thesis
    by (intro unpin_rounds_ok [OF assms(1) [unfolded unpinBatchChunks_def]]) simp_all
qed (simp add: evict_ok_def)

text \<open>The radius of a batch is in an index of its own.\<close>

lemma radius_write_ok:
  assumes w: "try_write batch st = (ok, st')"
    and b: "\<And>m. keys_ok m \<Longrightarrow> keys_ok (view_batch batch m)" "\<And>m n. n \<noteq> PostageRadius \<Longrightarrow> view_batch batch m n = m n"
  shows "evict_ok log (fst st) (fst st')"
proof -
  have w': "try_write batch (fst st, snd st) = (ok, st')" using w by simp
  show ?thesis
    by (rule try_write_ok [OF w']) (use b in \<open>auto simp: same_ix_def view_ok_def addr_ok_def\<close>)
qed

lemma keys_radius: "keys_ok (view_batch batch m) \<Longrightarrow> keys_ok (view_batch (PutInBatch base PostageRadius i batch) m)"
  unfolding view_put by (rule keys_ok_put) simp_all

lemma unreserve_bins_ok:
  "unreserve_bins clk bid bins change st = (r, st') \<Longrightarrow> length bid = 32 \<Longrightarrow> evict_ok log (fst st) (fst st')"
proof (induction bins arbitrary: change st)
  case (Cons bin bins)
  obtain r1 st1 where u: "unpinBatchChunks clk bid bin st = (r1, st1)" by (rule prod.exhaust)
  note 1 = unpinBatchChunks_ok [OF u Cons.prems(2), of log]
  show ?case
  proof (cases r1)
    case (Inl e)
    with Cons.prems(1) u 1 show ?thesis by simp
  next
    case (Inr c)
    let ?item = "zero_item\<lparr>it_BatchID := bid, it_Radius := bin\<rparr>"
    let ?b = "if bin = MaxPO then ix_del (fst st1) PostageRadius ?item (ix_put (fst st1) PostageRadius ?item [])
      else ix_put (fst st1) PostageRadius ?item []"
    obtain ok st2 where w: "try_write ?b st1 = (ok, st2)" by (rule prod.exhaust)
    have "evict_ok log (fst st1) (fst st2)"
      by (rule radius_write_ok [OF w]) (auto split: if_splits intro!: keys_del_batch keys_radius simp del: view_put view_delete, simp_all)
    note 2 = evict_ok_trans [OF 1 this]
    have eq: "unreserve_bins clk bid (bin # bins) change st =
      (if \<not> ok then (Inl LsBatch, st2) else unreserve_bins clk bid bins (change + c) st2)"
      using u Inr w by (simp add: Let_def)
    show ?thesis
    proof (cases ok)
      case True
      with eq Cons.prems(1) have "unreserve_bins clk bid bins (change + c) st2 = (r, st')" by simp
      from Cons.IH [OF this Cons.prems(2)] 2 show ?thesis by (blast intro: evict_ok_trans)
    next
      case False
      with eq Cons.prems(1) 2 show ?thesis by simp
    qed
  qed
qed simp

lemma UnreserveBatch_ok:
  assumes u: "UnreserveBatch clk bid radius st = (r, st')" and b: "length bid = 32"
  shows "evict_ok log (fst st) (fst st')"
proof -
  let ?item = "zero_item\<lparr>it_BatchID := bid\<rparr>"
  let ?old = "case ix_Get (fst st) PostageRadius ?item of None \<Rightarrow> 0 | Some i \<Rightarrow> it_Radius i"
  obtain r1 st1 where u1: "unreserve_bins clk bid (map of_nat [unat ?old ..< unat radius]) 0 st = (r1, st1)"
    by (rule prod.exhaust)
  note 1 = unreserve_bins_ok [OF u1 b, of log]
  show ?thesis
  proof (cases r1)
    case (Inl e)
    with u u1 1 show ?thesis by (simp add: UnreserveBatch_def Let_def)
  next
    case (Inr c)
    obtain ok st2 where w: "(if radius \<noteq> MaxPO + 1
        then try_write (ix_put (fst st1) PostageRadius (?item\<lparr>it_Radius := radius\<rparr>) []) st1 else (True, st1)) = (ok, st2)"
      by (rule prod.exhaust)
    have "evict_ok log (fst st1) (fst st2)"
    proof (cases "radius \<noteq> MaxPO + 1")
      case True
      with w have "try_write (ix_put (fst st1) PostageRadius (?item\<lparr>it_Radius := radius\<rparr>) []) st1 = (ok, st2)" by simp
      then show ?thesis
        by (rule radius_write_ok) (auto intro!: keys_radius simp del: view_put, simp_all)
    qed (use w in simp)
    with 1 have 2: "evict_ok log (fst st) (fst st2)" by (rule evict_ok_trans)
    have "fst st' = fst st2 \<or> fst st' = (fst st2)\<lparr>ld_gcTrigger := True\<rparr>"
      using u u1 Inr w by (auto simp: UnreserveBatch_def Let_def split: if_splits)
    moreover have "view_of (db\<lparr>ld_gcTrigger := True\<rparr>) = view_of db" for db
      by (simp add: view_of_def fun_eq_iff)
    ultimately show ?thesis using 2 by (auto simp: evict_ok_def ls_ok_def db_sorted_def)
  qed
qed

section \<open>Garbage collection\<close>

text \<open>
  A candidate that was not marked since is as it was, or is gone: only a put with the same
  stamp index removes a chunk without marking it.
\<close>

definition cands_ok :: "localdb \<Rightarrow> item list \<Rightarrow> bool" where
  "cands_ok db cs \<longleftrightarrow> distinct (map it_Address cs) \<and>
     (\<forall>i \<in> set cs. length (it_Address i) = 32 \<and>
        (NewAddress (it_Address i) \<in> set (ld_dirtyAddresses db) \<or>
         view_of db RetrievalData (it_Address i) = None \<or>
         view_of db GcIx (gckey (it_AccessTimestamp i) (it_BinID i) (it_Address i)) \<noteq> None))"

lemma cands_step:
  assumes c: "cands_ok db cs" and s: "step_ok as db db'" and r: "ld_gcRunning db"
  shows "cands_ok db' cs"
  unfolding cands_ok_def
proof (intro conjI ballI)
  show "distinct (map it_Address cs)" using c by (simp add: cands_ok_def)
  fix i
  assume i: "i \<in> set cs"
  let ?a = "it_Address i"
  from c i show l: "length ?a = 32" by (simp add: cands_ok_def)
  from c i have old: "NewAddress ?a \<in> set (ld_dirtyAddresses db) \<or> view_of db RetrievalData ?a = None \<or>
      view_of db GcIx (gckey (it_AccessTimestamp i) (it_BinID i) ?a) \<noteq> None" by (simp add: cands_ok_def)
  have d: "set (ld_dirtyAddresses db) \<subseteq> set (ld_dirtyAddresses db')" using s by (simp add: step_ok_def)
  show "NewAddress ?a \<in> set (ld_dirtyAddresses db') \<or> view_of db' RetrievalData ?a = None \<or>
      view_of db' GcIx (gckey (it_AccessTimestamp i) (it_BinID i) ?a) \<noteq> None"
  proof (cases "?a \<in> addr_bytes ` as")
    case True
    then have "NewAddress ?a \<in> as" by auto
    with s r old d show ?thesis unfolding step_ok_def by auto
  next
    case False
    with s l have "same_at ?a (view_of db) (view_of db') \<or> view_of db' RetrievalData ?a = None"
      by (simp add: step_ok_def)
    with old d show ?thesis unfolding same_at_def by auto
  qed
qed

text \<open>The candidates are the first entries of the collector's index.\<close>

lemma gc_items:
  assumes ok: "db_sorted db" "keys_ok (view_of db)"
  shows "(k, v) \<in> set (ld_ix db GcIx) \<Longrightarrow>
      length (it_Address (index_item GcIx (k, v))) = 32 \<and>
      k = gckey (it_AccessTimestamp (index_item GcIx (k, v))) (it_BinID (index_item GcIx (k, v)))
            (it_Address (index_item GcIx (k, v))) \<and>
      it_StoreTimestamp (index_item GcIx (k, v)) = 0"
proof -
  assume kv: "(k, v) \<in> set (ld_ix db GcIx)"
  have "distinct (map fst (ld_ix db GcIx))" using ok(1) by (simp add: db_sorted_def strict_sorted_iff)
  with kv have kv': "view_of db GcIx k = Some v" by (simp add: view_of_def)
  then obtain ts bin a f where k: "length a = 32" "k = gckey ts bin a" "v = index_value GcIx f"
    using ok(2) unfolding keys_ok_def by (metis option.distinct(1) image_iff)
  then have "drop 16 k = a" "take 8 k = be_of_nat 8 (unat ts)" "slice 8 16 k = be_of_nat 8 (unat bin)" "a \<noteq> []"
    by (auto simp: gckey_def slice_def)
  moreover have "of_nat (be_to_nat (be_of_nat 8 (unat (w :: u64)))) = w" for w
    using unsigned_less [of w, where 'a = nat] by simp
  ultimately show ?thesis using k
    by (simp add: index_item_def index_value.simps zero_item_def)
qed

lemma gc_items_distinct:
  assumes ok: "ls_ok log db"
  shows "distinct (map it_Address (map (index_item GcIx) (ld_ix db GcIx)))"
proof -
  from ok have s: "db_sorted db" "keys_ok (view_of db)" "view_ok (view_of db)" by (simp_all add: ls_ok_def view_ok_def)
  have dk: "distinct (map fst (ld_ix db GcIx))" using s(1) by (simp add: db_sorted_def strict_sorted_iff)
  have kv: "view_of db GcIx k \<noteq> None" if "(k, v) \<in> set (ld_ix db GcIx)" for k v
    using that dk by (simp add: view_of_def)
  note it = gc_items [OF s(1,2)]
  have inj: "k = k'" if "(k, v) \<in> set (ld_ix db GcIx)" "(k', v') \<in> set (ld_ix db GcIx)"
    "it_Address (index_item GcIx (k, v)) = it_Address (index_item GcIx (k', v'))" for k v k' v'
  proof -
    let ?i = "index_item GcIx (k, v)" and ?j = "index_item GcIx (k', v')"
    have "addr_ok (view_of db) (it_Address ?i)" using s(3) it [OF that(1)] by (simp add: view_ok_def)
    moreover have "view_of db GcIx (gckey (it_AccessTimestamp ?i) (it_BinID ?i) (it_Address ?i)) \<noteq> None"
      using kv [OF that(1)] it [OF that(1)] by simp
    moreover have "view_of db GcIx (gckey (it_AccessTimestamp ?j) (it_BinID ?j) (it_Address ?i)) \<noteq> None"
      using kv [OF that(2)] it [OF that(2)] that(3) by simp
    ultimately have "it_AccessTimestamp ?i = it_AccessTimestamp ?j \<and> it_BinID ?i = it_BinID ?j"
      unfolding addr_ok_def by auto
    with it [OF that(1)] it [OF that(2)] that(3) show ?thesis by metis
  qed
  show ?thesis
    unfolding map_map distinct_map
  proof (intro conjI inj_onI)
    show "distinct (ld_ix db GcIx)" using dk by (simp add: distinct_map)
    fix x y
    assume x: "x \<in> set (ld_ix db GcIx)" and y: "y \<in> set (ld_ix db GcIx)"
      and a: "(it_Address \<circ> index_item GcIx) x = (it_Address \<circ> index_item GcIx) y"
    then have "fst x = fst y" using inj [of "fst x" "snd x" "fst y" "snd y"] by simp
    with x y dk show "x = y" by (metis eq_key_imp_eq_value prod.collapse)
  qed
qed

lemma gc_collect_ok:
  assumes ok: "ls_ok log db" and c: "gc_collect db = Some cs"
  shows "cands_ok db cs"
proof -
  from ok have s: "db_sorted db" "keys_ok (view_of db)" by (simp_all add: ls_ok_def view_ok_def)
  have dk: "distinct (map fst (ld_ix db GcIx))" using s(1) by (simp add: db_sorted_def strict_sorted_iff)
  have cs: "cs = take gcBatchSize (map (index_item GcIx) (ld_ix db GcIx))"
    using c by (auto simp: gc_collect_def index_items_all split: if_splits)
  have "distinct (map it_Address cs)"
    unfolding cs take_map [symmetric] using gc_items_distinct [OF ok] by (rule distinct_take)
  moreover have "length (it_Address i) = 32 \<and> view_of db GcIx (gckey (it_AccessTimestamp i) (it_BinID i) (it_Address i)) \<noteq> None"
    if "i \<in> set cs" for i
  proof -
    from that obtain k v where kv: "(k, v) \<in> set (ld_ix db GcIx)" "i = index_item GcIx (k, v)"
      unfolding cs by (auto dest!: in_set_takeD)
    then have "view_of db GcIx k \<noteq> None" using dk by (simp add: view_of_def)
    with gc_items [OF s kv(1)] kv(2) show ?thesis by metis
  qed
  ultimately show ?thesis unfolding cands_ok_def by blast
qed

text \<open>Removing one candidate.\<close>

definition gc_deletes :: "localdb \<Rightarrow> item \<Rightarrow> batch \<Rightarrow> batch" where
  "gc_deletes db item batch =
     ix_del db PostageIndex item (ix_del db PostageChunks item (ix_del db GcIx item (ix_del db PullIx item
      (ix_del db PushIx item (ix_del db RetrievalAccess item (ix_del db RetrievalData item batch))))))"

lemma gc_delete_ok:
  assumes a: "length (it_Address item) = 32"
    and v: "view_of db RetrievalData (it_Address item) = Some v"
    and g: "view_of db GcIx (gckey (it_AccessTimestamp item) (it_BinID item) (it_Address item)) \<noteq> None"
  shows "op_ok db (it_Address item) batch (gc_deletes db item batch)"
    "view_batch (gc_deletes db item batch) M RetrievalData = (view_batch batch M RetrievalData) (it_Address item := None)"
proof -
  let ?a = "it_Address item"
  show "op_ok db ?a batch (gc_deletes db item batch)"
    unfolding gc_deletes_def
  proof (intro op_okI keys_batch)
    fix M
    assume sm: "same_at ?a (view_of db) (view_batch batch M)" and ok: "addr_ok (view_batch batch M) ?a"
    have G: "view_batch batch M GcIx (gckey (it_AccessTimestamp item) (it_BinID item) ?a) \<noteq> None"
      using g sm by (simp add: same_at_def)
    then obtain v' c where c: "view_batch batch M RetrievalData ?a = Some v'"
      "view_batch batch M RetrievalAccess ?a = Some c" "view_batch batch M PinIx ?a = None"
      "it_AccessTimestamp item = it_AccessTimestamp c" "it_BinID item = it_BinID v'"
      using addr_ok_gcD [OF ok] by blast
    have "view_batch batch M GcIx (gckey ts bin ?a) = None"
      if "ts \<noteq> it_AccessTimestamp item \<or> bin \<noteq> it_BinID item" for ts bin
      using ok that c unfolding addr_ok_def by auto
    moreover have "view_batch batch M PushIx (pushkey ts ?a) = None" for ts
      using ok c unfolding addr_ok_def by auto
    ultimately show "addr_ok (view_batch (ix_del db PostageIndex item (ix_del db PostageChunks item (ix_del db GcIx item
        (ix_del db PullIx item (ix_del db PushIx item (ix_del db RetrievalAccess item
          (ix_del db RetrievalData item batch))))))) M) ?a"
      using a by (simp add: addr_ok_def keys_fields)
  qed (use a in \<open>auto simp: same_at_def keys_fields\<close>)
qed (simp add: gc_deletes_def)

text \<open>What a run removes: chunks that were not marked, each with its location.\<close>

lemma gc_loop_ok:
  assumes k: "keys_ok (view_of db)"
  shows "gc_loop db items evicted batch ls = Inr (dn, evicted', batch', ls') \<Longrightarrow> cands_ok db items \<Longrightarrow>
    \<exists>ds new. distinct ds \<and> ls' = ls @ new \<and> list_all2 (placed (view_of db RetrievalData)) ds new \<and>
      set ds \<subseteq> it_Address ` {i \<in> set items. NewAddress (it_Address i) \<notin> set (ld_dirtyAddresses db)} \<and>
      (\<forall>a \<in> set ds. \<exists>ts bin. view_of db GcIx (gckey ts bin a) \<noteq> None) \<and>
      ops_ok db (set ds) batch batch' \<and>
      (\<forall>M. view_batch batch' M RetrievalData =
         (\<lambda>a. if a \<in> set ds then None else view_batch batch M RetrievalData a))"
proof (induction items arbitrary: evicted batch ls)
  case Nil
  then show ?case by (auto intro: exI [of _ "[]"])
next
  case (Cons item items)
  let ?a = "it_Address item"
  have c: "cands_ok db items" "?a \<notin> it_Address ` set items" "length ?a = 32"
    "NewAddress ?a \<in> set (ld_dirtyAddresses db) \<or> view_of db RetrievalData ?a = None \<or>
     view_of db GcIx (gckey (it_AccessTimestamp item) (it_BinID item) ?a) \<noteq> None"
    "\<forall>i \<in> set items. length (it_Address i) = 32"
    using Cons.prems(2) by (auto simp: cands_ok_def)
  consider (dirty) "NewAddress ?a \<in> set (ld_dirtyAddresses db)"
    | (stop) "NewAddress ?a \<notin> set (ld_dirtyAddresses db)" "ld_gcSize db - evicted \<le> gcTarget db"
    | (del) "NewAddress ?a \<notin> set (ld_dirtyAddresses db)" "\<not> ld_gcSize db - evicted \<le> gcTarget db"
    by blast
  then show ?case
  proof cases
    case dirty
    with Cons.prems(1) have "gc_loop db items evicted batch ls = Inr (dn, evicted', batch', ls')" by simp
    from Cons.IH [OF this c(1)] show ?thesis by (elim exE conjE) (intro exI conjI, assumption+, auto)
  next
    case stop
    with Cons.prems(1) show ?thesis by (auto intro: exI [of _ "[]"])
  next
    case del
    with Cons.prems(1) obtain i where i: "ix_Get db RetrievalData item = Some i" by (auto split: option.splits)
    let ?it = "item\<lparr>it_Location := it_Location i\<rparr>"
    let ?b = "gc_deletes db ?it batch"
    from Cons.prems(1) del i obtain l where l: "LocationFromBinary (it_Location i) = Inr l"
      "gc_loop db items (evicted + 1) ?b (ls @ [l]) = Inr (dn, evicted', batch', ls')"
      by (auto simp: Let_def gc_deletes_def split: sum.splits)
    obtain v where v: "view_of db RetrievalData ?a = Some v" "i = item_Merge v item"
      using i by (auto simp: ix_Get_view split: option.splits)
    then have loc: "placed (view_of db RetrievalData) ?a l" using l(1) by (auto simp: placed_def split: if_splits)
    have g: "view_of db GcIx (gckey (it_AccessTimestamp item) (it_BinID item) ?a) \<noteq> None" using c(4) del v by simp
    note D = gc_delete_ok [of ?it db v batch, simplified, OF c(3) v(1)]
    from Cons.IH [OF l(2) c(1)] obtain ds new where ds: "distinct ds" "ls' = (ls @ [l]) @ new"
      "list_all2 (placed (view_of db RetrievalData)) ds new"
      "set ds \<subseteq> it_Address ` {i \<in> set items. NewAddress (it_Address i) \<notin> set (ld_dirtyAddresses db)}"
      "\<forall>a \<in> set ds. \<exists>ts bin. view_of db GcIx (gckey ts bin a) \<noteq> None"
      "ops_ok db (set ds) ?b batch'"
      "\<forall>M. view_batch batch' M RetrievalData = (\<lambda>a. if a \<in> set ds then None else view_batch ?b M RetrievalData a)"
      by blast
    have nd: "?a \<notin> set ds" using ds(4) c(2) by blast
    have 1: "op_ok db ?a batch ?b" using D(1) g by blast
    have R1: "view_batch ?b M RetrievalData = (view_batch batch M RetrievalData) (?a := None)" for M
      using D(2) g by simp
    have "ops_ok db ({?a} \<union> set ds) batch batch'"
      using nd c(3,5) ds(4) by (intro ops_ok_trans [OF ops_ok_one [OF 1] ds(6)]) auto
    moreover have "view_batch batch' M RetrievalData =
        (\<lambda>a. if a \<in> set (?a # ds) then None else view_batch batch M RetrievalData a)" for M
      using ds(7) by (auto simp: fun_eq_iff R1)
    ultimately show ?thesis
      using ds(1-5) nd loc g del(1)
      by (intro exI [of _ "?a # ds"] exI [of _ "l # new"] conjI) (simp_all, blast+)
  qed
qed

text \<open>A run keeps the invariant, and what is pinned, marked or not in the collector's index.\<close>

lemma gc_stop_same [simp]: "view_of (gc_stop db) = view_of db" "db_sorted (gc_stop db) = db_sorted db"
  "ld_sharky (gc_stop db) = ld_sharky db" "ld_gcRunning (gc_stop db) = False"
  by (simp_all add: gc_stop_def view_of_def fun_eq_iff db_sorted_def)

lemma gc_finish_ok:
  assumes ok: "ls_ok log db" and c: "cands_ok db cs" and f: "gc_finish cs written db = (r, db')"
  shows "ls_ok log db' \<and> \<not> ld_gcRunning db' \<and>
    (\<forall>a v. view_of db RetrievalData a = Some v \<longrightarrow>
       view_of db PinIx a \<noteq> None \<or> NewAddress a \<in> set (ld_dirtyAddresses db) \<longrightarrow>
       view_of db' RetrievalData a = Some v)"
proof (cases "gc_loop db cs 0 [] []")
  case (Inl e)
  with f have "db' = gc_stop db" by (simp add: gc_finish_def)
  with ok show ?thesis by (simp add: ls_ok_def)
next
  case (Inr y)
  obtain dn evicted batch ls where y: "y = (dn, evicted, batch, ls)" by (metis prod.exhaust)
  show ?thesis
  proof (cases written)
    case False
    with f Inr y have "db' = gc_stop db" by (simp add: gc_finish_def Let_def)
    with ok show ?thesis by (simp add: ls_ok_def)
  next
    case True
    from ok obtain held where s: "db_sorted db" "view_ok (view_of db)" and
      d: "data_ok log (ld_sharky db) held (view_of db RetrievalData)" by (auto simp: ls_ok_def)
    then have k: "keys_ok (view_of db)" by (simp add: view_ok_def)
    from gc_loop_ok [OF k Inr [unfolded y] c] obtain ds where ds: "distinct ds" "list_all2 (placed (view_of db RetrievalData)) ds ls"
      "set ds \<subseteq> it_Address ` {i \<in> set cs. NewAddress (it_Address i) \<notin> set (ld_dirtyAddresses db)}"
      "\<forall>a \<in> set ds. \<exists>ts bin. view_of db GcIx (gckey ts bin a) \<noteq> None" "ops_ok db (set ds) [] batch"
      "\<forall>M. view_batch batch M RetrievalData = (\<lambda>a. if a \<in> set ds then None else view_batch [] M RetrievalData a)"
      unfolding append_Nil by blast
    have len: "\<forall>a \<in> set ds. length a = 32" using ds(3) c by (auto simp: cands_ok_def)
    let ?b = "batch @ [BGcSize (ld_gcSize db - evicted)]"
    have db': "db' = gc_stop (sharky_Releases ls (WriteBatch ?b db))"
      using f Inr y True by (simp add: gc_finish_def Let_def)
    have W: "db_sorted (WriteBatch ?b db)" "view_of (WriteBatch ?b db) = view_batch batch (view_of db)"
      using view_WriteBatch [OF s(1), of ?b] by simp_all
    have R: "view_of db' RetrievalData = (\<lambda>a. if a \<in> set ds then None else view_of db RetrievalData a)"
      using ds(6) [rule_format, of "view_of db", unfolded view_batch_simps(1)] by (simp add: db' W)
    from data_ok_placed [OF d _ ds(1,2)] have "\<exists>held. data_ok log (ld_sharky db') held (view_of db' RetrievalData)"
      unfolding R by (simp add: db')
    moreover have "view_ok (view_of db')" using ops_ok_view(1) [OF ds(5) s(2) len] by (simp add: db' W)
    ultimately have "ls_ok log db'" using W by (simp add: ls_ok_def db')
    moreover have "a \<notin> set ds" if "view_of db PinIx a \<noteq> None \<or> NewAddress a \<in> set (ld_dirtyAddresses db)" for a
    proof
      assume a: "a \<in> set ds"
      then have "NewAddress a \<notin> set (ld_dirtyAddresses db)" using ds(3) by auto
      moreover from a ds(4) obtain ts bin where "view_of db GcIx (gckey ts bin a) \<noteq> None" by blast
      then have "view_of db PinIx a = None" using s(2) len a by (auto simp: view_ok_def elim!: addr_ok_gcD)
      ultimately show False using that by blast
    qed
    ultimately show ?thesis using R by (auto simp: db')
  qed
qed

section \<open>Histories\<close>

text \<open>
  A state of a run: the database, what the collector does at the moment, all chunks that were
  ever put, and the items that calls to \<open>Get\<close> have read and given to a goroutine of
  \<open>updateGCItems\<close> that has not run yet: it may run at any later time, in any order.
\<close>

datatype gc_phase = GcIdle | GcStarted | GcCandidates "item list"

type_synonym ls_state = "localdb \<times> gc_phase \<times> chunk_log \<times> item list"

text \<open>What a step works on.\<close>

datatype ls_call =
  CallPut "stamp chunk list" | CallSet "address list" | CallAccess item | CallOther

text \<open>
  The steps, as \<open>batchMu\<close> orders them. A chunk has an address of 32 bytes; the shard that takes
  a blob exists and has room. Whether a batch is written is up to the environment.
\<close>

inductive ls_step :: "ls_call \<Rightarrow> ls_state \<Rightarrow> ls_state \<Rightarrow> bool" where
  st_put: "\<forall>ch \<in> fst ` set chs. length (addr_bytes (ch_addr ch)) = 32 \<Longrightarrow> envs_ok db [] chs (ld_sharky db) \<Longrightarrow>
    ls_put mode chs written db = (r, db') \<Longrightarrow>
    ls_step (CallPut (map fst chs)) (db, ph, log, rs) (db', ph, put_log chs @ log, rs)"
| st_set: "\<forall>a \<in> fst ` set addrs. length (addr_bytes a) = 32 \<Longrightarrow> ls_set mode addrs written db = (e, db') \<Longrightarrow>
    ls_step (CallSet (map fst addrs)) (db, ph, log, rs) (db', ph, log, rs)"
| st_get: "ls_get mode addr db = (out, Some item) \<Longrightarrow>
    ls_step CallOther (db, ph, log, rs) (db, ph, log, item # rs)"
| st_access: "item \<in> set rs \<Longrightarrow> updateGC now item written db = (e, db') \<Longrightarrow>
    ls_step (CallAccess item) (db, ph, log, rs) (db', ph, log, remove1 item rs)"
| st_unreserve: "length bid = 32 \<Longrightarrow> UnreserveBatch clk bid radius (db, ws) = (ur, db', ws') \<Longrightarrow>
    ls_step CallOther (db, ph, log, rs) (db', ph, log, rs)"
| st_gc_start: "ls_step CallOther (db, GcIdle, log, rs) (gc_start db, GcStarted, log, rs)"
| st_gc_done: "gc_collect db = None \<Longrightarrow>
    ls_step CallOther (db, GcStarted, log, rs) (gc_stop db, GcIdle, log, rs)"
| st_gc_collect: "gc_collect db = Some cs \<Longrightarrow>
    ls_step CallOther (db, GcStarted, log, rs) (db, GcCandidates cs, log, rs)"
| st_gc_finish: "gc_finish cs written db = (gr, db') \<Longrightarrow>
    ls_step CallOther (db, GcCandidates cs, log, rs) (gc_retrigger gr db', GcIdle, log, rs)"

text \<open>
  The code keeps its indexes and blobs in order under three conditions it does not check:
  no two chunks of one \<open>Put\<close> replace the same stored chunk (the code then releases its location
  twice); no \<open>Set\<close> names an address twice (likewise, when it removes); and when \<open>updateGC\<close>
  runs, the chunk it was started for was not removed and put again since it was read, which gives
  it another bin id (the code then changes the access time without moving the entry of the
  collector's index). It may have been pinned, set, removed, or collected in between.
\<close>

fun orderly :: "localdb \<Rightarrow> ls_call \<Rightarrow> bool" where
  "orderly db (CallPut chs) = distinct (replaced db [] chs)"
| "orderly db (CallSet addrs) = distinct addrs"
| "orderly db (CallAccess item) =
     (case ix_Get db RetrievalData (addressToItem (NewAddress (it_Address item))) of
        None \<Rightarrow> True
      | Some out \<Rightarrow> it_BinID item = it_BinID out)"
| "orderly db CallOther = True"

definition orderly_step :: "ls_state \<Rightarrow> ls_state \<Rightarrow> bool" where
  "orderly_step s t \<longleftrightarrow> (\<exists>c. ls_step c s t \<and> orderly (fst s) c)"

definition ls_inv :: "ls_state \<Rightarrow> bool" where
  "ls_inv = (\<lambda>(db, ph, log, rs). ls_ok log db \<and> (ph = GcIdle \<longleftrightarrow> \<not> ld_gcRunning db) \<and>
     (\<forall>cs. ph = GcCandidates cs \<longrightarrow> cands_ok db cs) \<and>
     (\<forall>item \<in> set rs. length (it_Address item) = 32 \<and> it_AccessTimestamp item = 0))"

lemma ls_inv_step:
  assumes "ls_inv (db, ph, log, rs)" "ls_ok log' db' \<and> step_ok as db db'" "set rs' \<subseteq> set rs"
  shows "ls_inv (db', ph, log', rs')"
proof -
  have "cands_ok db cs \<Longrightarrow> ld_gcRunning db \<Longrightarrow> cands_ok db' cs" for cs using cands_step assms(2) by blast
  moreover have "ld_gcRunning db' = ld_gcRunning db" using assms(2) by (simp add: step_ok_def)
  ultimately show ?thesis using assms by (auto simp: ls_inv_def)
qed

lemma retrigger_same [simp]: "view_of (gc_retrigger r db) = view_of db" "db_sorted (gc_retrigger r db) = db_sorted db"
  "ld_sharky (gc_retrigger r db) = ld_sharky db" "ld_gcRunning (gc_retrigger r db) = ld_gcRunning db"
  by (simp_all add: gc_retrigger_def view_of_def fun_eq_iff db_sorted_def)

lemma gc_start_same [simp]: "view_of (gc_start db) = view_of db" "db_sorted (gc_start db) = db_sorted db"
  "ld_sharky (gc_start db) = ld_sharky db" "ld_gcRunning (gc_start db)"
  by (simp_all add: gc_start_def view_of_def fun_eq_iff db_sorted_def)

text \<open>The item that \<open>Get\<close> reads.\<close>

lemma ls_get_item:
  assumes k: "keys_ok (view_of db)" and g: "ls_get mode addr db = (out, Some item)"
  shows "length (it_Address item) = 32 \<and> it_AccessTimestamp item = 0"
proof -
  from g obtain i d where i: "ix_Get db RetrievalData (addressToItem addr) = Some i" "item = i\<lparr>it_Data := d\<rparr>"
    by (auto simp: ls_get_def Let_def split: option.splits sum.splits mode_get.splits)
  from get_data(1) [OF k item_at_address(2) i(1)] obtain v where
    "view_of db RetrievalData (addr_bytes addr) = Some v" "it_Address i = addr_bytes addr" "it_AccessTimestamp i = 0"
    by (auto simp: addressToItem_def zero_item_def)
  with k i(2) show ?thesis unfolding keys_ok_def by auto
qed

lemma ls_step_inv: "ls_step c s t \<Longrightarrow> orderly (fst s) c \<Longrightarrow> ls_inv s \<Longrightarrow> ls_inv t"
proof (induction rule: ls_step.induct)
  case (st_put chs db mode written r db' ph log rs)
  from st_put.prems have ok: "ls_ok log db" and n: "distinct (replaced db [] (map fst chs))"
    by (simp_all add: ls_inv_def)
  show ?case by (rule ls_inv_step [OF st_put.prems(2) put_step [OF ok st_put.hyps(1,2) n st_put.hyps(3)] order_refl])
next
  case (st_set addrs mode written db e db' ph log rs)
  from st_set.prems have ok: "ls_ok log db" and n: "distinct (map fst addrs)" by (simp_all add: ls_inv_def)
  show ?case by (rule ls_inv_step [OF st_set.prems(2) set_step [OF ok st_set.hyps(1) n st_set.hyps(2)] order_refl])
next
  case (st_get mode addr db out item ph log rs)
  then have "keys_ok (view_of db)" by (simp add: ls_inv_def ls_ok_def view_ok_def)
  with ls_get_item st_get show ?case by (auto simp: ls_inv_def)
next
  case (st_access item rs now written db e db' ph log)
  let ?a = "NewAddress (it_Address item)"
  from st_access.prems(2) have k: "keys_ok (view_of db)" by (simp add: ls_inv_def ls_ok_def view_ok_def)
  from st_access.prems(2) st_access.hyps(1) have i: "length (it_Address item) = 32" "it_AccessTimestamp item = 0"
    by (auto simp: ls_inv_def)
  have fresh: "it_BinID item = it_BinID v" if v: "view_of db RetrievalData (it_Address item) = Some v" for v
  proof -
    obtain out where out: "ix_Get db RetrievalData (addressToItem ?a) = Some out"
      using v by (simp add: ix_Get_view item_at_address)
    from get_data(1) [OF k item_at_address(2) out] v have "it_BinID out = it_BinID v" by simp
    with out st_access.prems(1) show ?thesis by simp
  qed
  from st_access.prems(2) have "ls_ok log db" by (simp add: ls_inv_def)
  from updateGC_step [OF this i _ st_access.hyps(2)] fresh
  have u: "ls_ok log db' \<and> step_ok {?a} db db'" by blast
  show ?case by (rule ls_inv_step [OF st_access.prems(2) u set_remove1_subset])
next
  case (st_unreserve bid clk radius db ws ur db' ws' ph log rs)
  from UnreserveBatch_ok [OF st_unreserve.hyps(2,1), of log] st_unreserve.prems(2)
  have e: "ls_ok log db'" "ld_gcRunning db' = ld_gcRunning db" "ld_dirtyAddresses db' = ld_dirtyAddresses db"
    "view_of db' RetrievalData = view_of db RetrievalData"
    "\<forall>k. view_of db GcIx k \<noteq> None \<longrightarrow> view_of db' GcIx k \<noteq> None"
    by (simp_all add: evict_ok_def ls_inv_def)
  then have "cands_ok db cs \<Longrightarrow> cands_ok db' cs" for cs unfolding cands_ok_def by metis
  with e st_unreserve.prems(2) show ?case by (simp add: ls_inv_def)
next
  case (st_gc_start db log rs)
  then show ?case by (simp add: ls_inv_def ls_ok_def)
next
  case (st_gc_done db log rs)
  then show ?case by (simp add: ls_inv_def ls_ok_def)
next
  case (st_gc_collect db cs log rs)
  then show ?case using gc_collect_ok by (auto simp: ls_inv_def)
next
  case (st_gc_finish cs written db gr db' log rs)
  from gc_finish_ok [OF _ _ st_gc_finish.hyps, of log] st_gc_finish.prems(2)
  have "ls_ok log db'" "\<not> ld_gcRunning db'" by (simp_all add: ls_inv_def)
  with st_gc_finish.prems(2) show ?case by (simp add: ls_inv_def ls_ok_def)
qed

definition ls_init :: "bytes \<Rightarrow> u64 \<Rightarrow> u64 \<Rightarrow> nat \<Rightarrow> nat \<Rightarrow> ls_state" where
  "ls_init baseKey capacity reserveCapacity shardCnt maxDataSize =
     (ls_New baseKey capacity reserveCapacity (sharky_New (replicate shardCnt ([], [])) maxDataSize), GcIdle, [], [])"

lemma ls_reach_inv:
  assumes "orderly_step\<^sup>*\<^sup>* (ls_init baseKey capacity reserveCapacity shardCnt maxDataSize) s"
    "shardCnt \<le> 256" "maxDataSize < 2 ^ 16"
  shows "ls_inv s"
  using assms(1)
proof (induction rule: rtranclp_induct)
  case base
  have "data_ok [] (sharky_New (replicate shardCnt ([], [])) maxDataSize) [] (\<lambda>_. None)"
    using sharky_init_ok [OF assms(2,3)] by (auto simp: data_ok_def sharky_init_def)
  then show ?case
    by (auto simp: ls_inv_def ls_init_def ls_New_def ls_ok_def db_sorted_def view_ok_def keys_ok_def addr_ok_def
        view_of_def)
next
  case (step y z)
  then show ?case using ls_step_inv unfolding orderly_step_def by blast
qed

end
