(* ===== verification/Localstore_Props.thy ===== *)
theory Localstore_Props
  imports Localstore_Reach
begin

text \<open>
  The properties of the local chunk store: what its indexes and blobs are in every reachable
  state, what garbage collection keeps, and where put, set and the collector go wrong.
\<close>

section \<open>A run\<close>

text \<open>A node with one shard puts one chunk in its cache.\<close>

definition toy_addr :: address where "toy_addr = NewAddress (replicate 31 0 @ [1])"

definition toy_stamp :: stamp where
  "toy_stamp = NewStamp (replicate 32 7) (replicate 7 0 @ [1]) (replicate 7 0 @ [5]) (replicate 65 0)"

definition toy_chunk :: "stamp chunk" where
  "toy_chunk = WithStamp toy_stamp (NewChunk toy_addr [1, 2, 3])"

definition toy_env :: put_env where
  "toy_env = \<lparr>pe_now = 10, pe_now2 = 11, pe_shard = 0, pe_written = 3, pe_lost = False\<rparr>"

definition toy_shard0 :: shard where
  "toy_shard0 = run_waiting\<lparr>sh_slots := \<lparr>sl_data = [], sl_size = 0, sl_head = 0\<rparr>, sh_slot := None\<rparr>"

definition toy_shard :: shard where "toy_shard = run_waiting\<lparr>sh_file := [1, 2, 3], sh_slot := None\<rparr>"

definition toy_init :: localdb where
  "toy_init = ls_New (replicate 32 0) 10 10 [toy_shard0]"

lemma toy_shard0_eq: "shard_create 0 8 [] [] = toy_shard0"
proof -
  have "slots_next \<lparr>sl_data = [], sl_size = 0, sl_head = 0\<rparr> 0 = 0"
    by (subst slots_next_def, subst next_loop.simps) simp
  then show ?thesis by (simp add: shard_create_def slots_load_def toy_shard0_def run_waiting_def Let_def)
qed

lemma toy_ready: "shard_ready toy_shard0 = run_waiting"
proof -
  from run_shard obtain sh where "process_pop toy_shard0 = Some sh" "process_take sh = Some run_waiting"
    unfolding toy_shard0_eq by auto
  then show ?thesis by (simp add: shard_ready_def)
qed

lemma toy_write: "db_Write toy_env [1, 2, 3] [toy_shard0] = (Inr run_loc, [toy_shard])"
  using run_write(1) by (simp add: db_Write_def toy_env_def toy_ready toy_shard_def Let_def)

definition toy_item0 :: item where "toy_item0 = the (chunkToItem toy_chunk)"

definition toy_item :: item where
  "toy_item = toy_item0\<lparr>it_Location := location_MarshalBinary run_loc\<rparr>"

definition toy_pb :: put_batch where
  "toy_pb = (case put_op ModePutRequestCache toy_init toy_env toy_item \<lparr>pb_batch = [], pb_binIDs = [], pb_release = []\<rparr> of
     Inr (_, _, _, pb) \<Rightarrow> pb)"

definition toy_db :: localdb where
  "toy_db = WriteBatch (pb_batch toy_pb @ map (\<lambda>(po, i). BBinID po i) (pb_binIDs toy_pb) @ [BGcSize 1])
     (toy_init\<lparr>ld_sharky := [toy_shard]\<rparr>)"

lemma toy_op:
  "put_op ModePutRequestCache toy_init toy_env toy_item \<lparr>pb_batch = [], pb_binIDs = [], pb_release = []\<rparr> =
     Inr (False, 1, 0, toy_pb)"
  by code_simp

lemma toy_release: "pb_release toy_pb = []"
  by code_simp

lemma toy_put: "ls_put ModePutRequestCache [(toy_chunk, toy_env)] True toy_init = (Inr [False], toy_db)"
proof -
  have c: "chunkToItem toy_chunk = Some toy_item0"
    "\<not> ix_Has toy_init RetrievalData toy_item0"
    "it_Data toy_item0 = [1, 2, 3]" "ld_sharky toy_init = [toy_shard0]"
    "\<not> ld_gcRunning toy_init" by code_simp+
  have p: "putChunk ModePutRequestCache toy_init [] toy_chunk toy_env (put_acc0 toy_init) =
    (Inr (False, 1, 0), (put_acc0 toy_init)\<lparr>pa_sharky := [toy_shard], pa_committed := [run_loc], pa_batch := toy_pb\<rparr>)"
    using c toy_write toy_op
    by (simp add: putChunk_def putSharky_def put_acc0_def flip: toy_item_def)
  have m: "mark_dirty as toy_init = toy_init" for as using c by (simp add: mark_dirty_def)
  have inc: "incGCSizeInBatch 1 b (toy_init\<lparr>ld_sharky := [toy_shard]\<rparr>) = (b @ [BGcSize 1], toy_init\<lparr>ld_sharky := [toy_shard]\<rparr>)"
    for b by (simp add: incGCSizeInBatch_def toy_init_def ls_New_def word_le_nat_alt)
  show ?thesis
    using c p toy_release
    by (simp add: ls_put_def put_fast_def m inc incReserveSizeInBatch_def sharky_Releases_def toy_db_def
        flip: put_acc0_def) (simp add: put_acc0_def inc incReserveSizeInBatch_def Let_def)
qed

lemma toy_init_state: "ls_init (replicate 32 0) 10 10 1 8 = (toy_init, GcIdle, [], [])"
  by (simp add: ls_init_def toy_init_def sharky_New_def enumerate_eq_zip flip: toy_shard0_eq)

lemma toy_env_ok: "env_ok toy_env (ch_data toy_chunk) (ld_sharky toy_init)"
  by (simp add: toy_chunk_def WithStamp_def NewChunk_def env_ok_def toy_env_def toy_init_def
      ls_New_def slots_room_def toy_shard0_def run_waiting_def)

lemma toy_reach: "orderly_step\<^sup>*\<^sup>* (ls_init (replicate 32 0) 10 10 1 8)
    (toy_db, GcIdle, [(replicate 31 0 @ [1], [1, 2, 3])], [])"
proof -
  let ?s = "(toy_db, GcIdle, put_log [(toy_chunk, toy_env)] @ [], [] :: item list)"
  have "\<not> put_skips toy_init [] toy_chunk" by code_simp
  then have "envs_ok toy_init [] [(toy_chunk, toy_env)] (ld_sharky toy_init)" using toy_env_ok by simp
  then have "ls_step (CallPut [toy_chunk]) (toy_init, GcIdle, [], []) ?s"
    using st_put [OF _ _ toy_put, where ph = GcIdle and log = "[]" and rs = "[]"]
    by (simp add: toy_chunk_def toy_addr_def WithStamp_def NewChunk_def)
  moreover have "distinct (replaced toy_init [] [toy_chunk])" by code_simp
  ultimately have "orderly_step (toy_init, GcIdle, [], []) ?s" unfolding orderly_step_def by force
  then show ?thesis
    unfolding toy_init_state by (simp add: put_log_def toy_chunk_def toy_addr_def WithStamp_def NewChunk_def r_into_rtranclp)
qed

definition toy_check :: "localdb \<Rightarrow> bool" where
  "toy_check db \<longleftrightarrow> ls_Has toy_addr db \<and>
     ld_gcSize (gc_start db) \<noteq> gcTarget (gc_start db) \<and> length (ld_ix (gc_start db) GcIx) = 1"

lemma toy_checks: "toy_check toy_db"
  by code_simp

lemma toy_has: "ls_Has toy_addr toy_db"
  using toy_checks by (simp add: toy_check_def)

lemma toy_runs: "\<forall>sh \<in> set (ld_sharky toy_db). \<not> sh_quit sh"
  by (simp add: toy_db_def toy_shard_def run_waiting_def)

section \<open>What holds in every reachable state\<close>

lemma reach_ok:
  assumes "shardCnt \<le> 256" "maxDataSize < 2 ^ 16"
    "orderly_step\<^sup>*\<^sup>* (ls_init baseKey capacity reserveCapacity shardCnt maxDataSize) (db, ph, log, rs)"
  shows "ls_ok log db" "db_sorted db" "keys_ok (view_of db)" "\<And>a. length a = 32 \<Longrightarrow> addr_ok (view_of db) a"
    "\<forall>cs. ph = GcCandidates cs \<longrightarrow> cands_ok db cs"
  using ls_reach_inv [OF assms(3,1,2)] by (auto simp: ls_inv_def ls_ok_def view_ok_def)

lemma Has_address:
  "ix_Has db RetrievalAccess (addressToItem addr) \<longleftrightarrow> view_of db RetrievalAccess (addr_bytes addr) \<noteq> None"
  "ix_Has db PinIx (addressToItem addr) \<longleftrightarrow> view_of db PinIx (addr_bytes addr) \<noteq> None"
  by (simp_all add: ix_Has_view item_at_address)



lemma ls_Get_ok:
  assumes ok: "ls_ok log db" and "ls_Has addr db" "\<forall>sh \<in> set (ld_sharky db). \<not> sh_quit sh"
  shows "\<exists>c. ls_Get ModeGetRequest addr db = Inr c \<and> ch_addr c = addr \<and> (addr_bytes addr, ch_data c) \<in> set log"
proof -
  obtain held where d: "data_ok log (ld_sharky db) held (view_of db RetrievalData)" using ok by (auto simp: ls_ok_def)
  have k: "keys_ok (view_of db)" using ok by (simp add: ls_ok_def view_ok_def)
  obtain v where v: "view_of db RetrievalData (addr_bytes addr) = Some v" using assms(2) by (auto simp: Has_view)
  obtain d where d: "ls_read (it_Location v) db = Inr d" "(addr_bytes addr, d) \<in> set log"
    using data_ok_read [OF d v assms(3)] by blast
  have a: "it_Address v = []" using typed(1) [OF k v] by simp
  have loc: "it_Location v \<noteq> []" using d(1) by (auto simp: ls_read_def LocationFromBinary_def)
  let ?out = "item_Merge v (addressToItem addr)"
  have "ix_Get db RetrievalData (addressToItem addr) = Some ?out"
    using v by (simp add: ix_Get_view item_at_address)
  moreover have "it_Location ?out = it_Location v" "it_Address ?out = addr_bytes addr"
    using loc a by (simp_all add: item_at_address)
  ultimately show ?thesis
    using d by (simp add: ls_Get_def ls_get_def WithStamp_def NewChunk_def Let_def)
qed



section \<open>What a collection keeps\<close>

lemma release_same_file: "same_file (shs ! i) (sharky_Release l shs ! i) \<and>
    sh_quit (sharky_Release l shs ! i) = sh_quit (shs ! i)"
proof (cases "unat (loc_Shard l) < length shs")
  case True
  then show ?thesis
    by (cases "i = unat (loc_Shard l)") (auto simp: sharky_Release_def Let_def same_file_def nth_list_update)
next
  case False
  then show ?thesis by (simp add: sharky_Release_def Let_def same_file_def list_update_beyond)
qed

lemma read_released: "sharky_Read loc (fold sharky_Release ls shs) = sharky_Read loc shs"
proof (induction ls arbitrary: shs)
  case (Cons l ls)
  have "sharky_Read loc (sharky_Release l shs) = sharky_Read loc shs"
    using release_same_file [of shs "unat (loc_Shard loc)" l]
    by (simp add: sharky_Read_def same_file_def shard_read_def shard_offset_def Let_def)
  with Cons show ?case by simp
qed simp

lemma ls_get_same:
  assumes "view_of db' RetrievalData (addr_bytes addr) = view_of db RetrievalData (addr_bytes addr)"
    "ld_sharky db' = fold sharky_Release ls (ld_sharky db)"
  shows "ls_get mode addr db' = ls_get mode addr db"
proof -
  have "ix_Get db' RetrievalData (addressToItem addr) = ix_Get db RetrievalData (addressToItem addr)"
    using assms(1) by (simp add: ix_Get_view item_at_address)
  moreover have "ls_read l db' = ls_read l db" for l
    using assms(2) by (simp add: ls_read_def read_released cong: sum.case_cong)
  ultimately show ?thesis by (simp add: ls_get_def cong: option.case_cong)
qed

lemma gc_finish_sharky: "gc_finish cs written db = (r, db') \<Longrightarrow>
    \<exists>ls. ld_sharky db' = fold sharky_Release ls (ld_sharky db)"
  by (auto simp: gc_finish_def Let_def intro: exI [of _ "[]"] split: sum.splits if_splits prod.splits)


definition toy_pinned :: localdb where
  "toy_pinned = snd (ls_set ModeSetPin [(toy_addr, 20)] True (gc_start toy_db))"

definition toy_cands :: "item list" where
  "toy_cands = map (index_item GcIx) (ld_ix (gc_start toy_db) GcIx)"

lemma toy_collect: "gc_collect (gc_start toy_db) = Some toy_cands"
proof -
  show ?thesis using toy_checks
    by (simp add: toy_check_def gc_collect_def index_items_all toy_cands_def gcBatchSize_def)
qed

lemma toy_pinned_reach:
  "orderly_step\<^sup>*\<^sup>* (ls_init (replicate 32 0) 10 10 1 8)
     (toy_pinned, GcCandidates toy_cands, [(replicate 31 0 @ [1], [1, 2, 3])], [])"
proof -
  let ?log = "[(replicate 31 0 @ [1], [1, 2, 3])] :: chunk_log"
  have "orderly_step (toy_db, GcIdle, ?log, []) (gc_start toy_db, GcStarted, ?log, [])"
    unfolding orderly_step_def by (intro exI [of _ CallOther] conjI st_gc_start) simp
  moreover have "orderly_step (gc_start toy_db, GcStarted, ?log, []) (gc_start toy_db, GcCandidates toy_cands, ?log, [])"
    unfolding orderly_step_def by (intro exI [of _ CallOther] conjI st_gc_collect toy_collect) simp
  moreover have "orderly_step (gc_start toy_db, GcCandidates toy_cands, ?log, []) (toy_pinned, GcCandidates toy_cands, ?log, [])"
    using st_set [of "[(toy_addr, 20)]" ModeSetPin True "gc_start toy_db" _ toy_pinned "GcCandidates toy_cands" ?log "[]"]
    unfolding orderly_step_def by (intro exI [of _ "CallSet [toy_addr]"] conjI) (simp_all add: toy_addr_def toy_pinned_def prod_eq_iff)
  ultimately show ?thesis using toy_reach by (meson rtranclp.rtrancl_into_rtrancl)
qed

definition pinned_check :: "localdb \<Rightarrow> bool" where
  "pinned_check db \<longleftrightarrow> ls_Has toy_addr db \<and> ix_Has db PinIx (addressToItem toy_addr)"

lemma toy_pinned_check: "pinned_check toy_pinned"
  by code_simp

lemma toy_pinned_facts: "ls_Has toy_addr toy_pinned" "ix_Has toy_pinned PinIx (addressToItem toy_addr)"
  using toy_pinned_check by (simp_all add: pinned_check_def)


end
