(* ===== verification/Localstore_Faults.thy ===== *)
theory Localstore_Faults
  imports Localstore_Props
begin

text \<open>
  What a put does when it stores a chunk and when it does not, and the states the local store
  does not get out of.
\<close>

section \<open>A put that stores its chunk\<close>

text \<open>The chunk that has the stamp index, if any, has an earlier timestamp.\<close>

definition newer_stamp :: "localdb \<Rightarrow> stamp chunk \<Rightarrow> bool" where
  "newer_stamp db ch \<longleftrightarrow>
     (\<forall>item previous. chunkToItem ch = Some item \<longrightarrow> ix_Get db PostageIndex item = Some previous \<longrightarrow>
        later previous item \<noteq> Inr False)"

lemma replace_early:
  assumes "replacePrevious db (item\<lparr>it_Location := l\<rparr>) pb = Inr None"
  shows "\<exists>previous. ix_Get db PostageIndex item = Some previous \<and> later previous item = Inr False"
proof -
  from assms obtain p where p: "ix_Get db PostageIndex (item\<lparr>it_Location := l\<rparr>) = Some p"
    "later p (item\<lparr>it_Location := l\<rparr>) = Inr False"
    by (auto simp: replacePrevious_def Let_def split: option.splits if_splits sum.splits bool.splits)
  from p(1) obtain v where v: "view_of db PostageIndex (EncodeKey (ld_baseKey db) PostageIndex item) = Some v"
    "p = item_Merge v (item\<lparr>it_Location := l\<rparr>)"
    by (auto simp: ix_Get_view EncodeKey.simps(9) split: option.splits)
  have "later (item_Merge v item) item = Inr False"
    using p(2) by (simp add: later_def v(2) Merge_Timestamp cong: if_cong)
  with v(1) show ?thesis by (simp add: ix_Get_view)
qed

lemma ls_put_stored:
  assumes ok: "ls_ok log db" and a: "length (addr_bytes (ch_addr ch)) = 32"
    and n: "newer_stamp db ch" and p: "ls_put mode [(ch, env)] True db = (Inr [False], db')"
  shows "view_of db RetrievalData (addr_bytes (ch_addr ch)) = None"
    "\<exists>v. view_of db' RetrievalData (addr_bytes (ch_addr ch)) = Some v"
proof -
  let ?a = "addr_bytes (ch_addr ch)" and ?db = "mark_dirty [ch_addr ch] db"
  have "view_of db RetrievalData ?a = None \<and> (\<exists>v. view_of db' RetrievalData ?a = Some v)"
    using p
  proof (cases rule: ls_put_cases)
    case (result err acc)
    obtain res acc1 where pc: "putChunk mode ?db [] ch env (put_acc0 ?db) = (res, acc1)" by (rule prod.exhaust)
    with result(1,4) obtain y where res: "res = Inr y" by (cases res) auto
    obtain x0 c0 r0 where y: "y = (x0, c0, r0)" by (metis prod.exhaust)
    have acc: "pa_batch acc = pa_batch acc1" "pa_exist acc = [x0]" "err = None"
    proof -
      have "pa_exist acc1 = []" using pc by (cases rule: putChunk_cases) (simp_all add: put_acc0_def)
      then show "pa_batch acc = pa_batch acc1" "pa_exist acc = [x0]" "err = None" using result(1) pc res y by auto
    qed
    have x0: "\<not> x0" using result(4) acc(2,3) by simp
    show ?thesis
      using pc
    proof (cases rule: putChunk_cases)
      case (ok item loc shs x c r' pb)
      from ok(2) have ni: "new_item ?a item" by (rule chunkToItem_new)
      have R: "view_of db RetrievalData ?a = None" using ok(1) by (simp add: put_skips_def Has_view)
      have so: "db_sorted db" "view_ok (view_of db)" using assms(1) by (simp_all add: ls_ok_def)
      then have rd: "ready ?db ?a" using a R by (simp add: ready_def view_ok_def)
      have "replacePrevious ?db (item\<lparr>it_Location := location_MarshalBinary loc\<rparr>) q \<noteq> Inr None" for q
        using n ok(2) replace_early [of ?db "location_MarshalBinary loc" item q]
        by (auto simp: newer_stamp_def)
      with put_op_ok [OF rd new_item_location [OF ni] ok(4)] have
        "put_result ?db ?a (item\<lparr>it_Location := location_MarshalBinary loc\<rparr>) (pa_batch (put_acc0 ?db)) pb" by blast
      then have "\<exists>v. view_batch (pb_batch pb) (view_of db) RetrievalData ?a = Some v"
        unfolding put_result_def puts_data_def by (metis fun_upd_same)
      with R result(4) ok(6) so acc show ?thesis by simp
    qed (use res y x0 in auto)
  qed simp
  then show "view_of db RetrievalData ?a = None" "\<exists>v. view_of db' RetrievalData ?a = Some v" by blast+
qed

lemma data_ok_forget:
  assumes "data_ok log shs held R" "R a = None"
  shows "data_ok (filter (\<lambda>x. fst x \<noteq> a) log) shs held R"
  using assms unfolding data_ok_def by fastforce

text \<open>
  C4: put then get: a put of a new chunk that succeeds, with a stamp index that is free or has
  an earlier timestamp, stores the chunk, and reading it gives the data that was put.
\<close>

theorem put_then_get:
  assumes "shardCnt \<le> 256" "maxDataSize < 2 ^ 16"
    "orderly_step\<^sup>*\<^sup>* (ls_init baseKey capacity reserveCapacity shardCnt maxDataSize) (db, ph, log, rs)"
    and "length (addr_bytes (ch_addr ch)) = 32" "env_ok env (ch_data ch) (ld_sharky db)" "newer_stamp db ch"
    and "ls_put mode [(ch, env)] True db = (Inr [False], db')" "\<forall>sh \<in> set (ld_sharky db'). \<not> sh_quit sh"
  shows "\<exists>c. ls_Get ModeGetRequest (ch_addr ch) db' = Inr c \<and> ch_addr c = ch_addr ch \<and> ch_data c = ch_data ch"
proof -
  let ?a = "addr_bytes (ch_addr ch)"
  note ok = reach_ok(1) [OF assms(1-3)]
  note stored = ls_put_stored [OF ok assms(4,6,7)]
  let ?log = "filter (\<lambda>x. fst x \<noteq> ?a) log"
  have "ls_ok ?log db" using ok stored(1) data_ok_forget unfolding ls_ok_def by blast
  then have ok': "ls_ok ((?a, ch_data ch) # ?log) db'"
    using put_step [of ?log db "[(ch, env)]" mode True _ db'] assms(4,5,7)
    by (auto simp: put_log_def replaces_def split: option.splits)
  from ls_Get_ok [OF ok' _ assms(8), of "ch_addr ch"] stored(2) obtain c where
    "ls_Get ModeGetRequest (ch_addr ch) db' = Inr c" "ch_addr c = ch_addr ch"
    "(?a, ch_data c) \<in> set ((?a, ch_data ch) # ?log)" by (auto simp: Has_view)
  then show ?thesis by auto
qed

lemma put_then_get_witness:
  "\<exists>c. ls_Get ModeGetRequest (ch_addr toy_chunk) toy_db = Inr c \<and> ch_addr c = ch_addr toy_chunk \<and>
    ch_data c = ch_data toy_chunk"
proof -
  have r: "orderly_step\<^sup>*\<^sup>* (ls_init (replicate 32 0) 10 10 1 8) (toy_init, GcIdle, [], [])"
    unfolding toy_init_state by simp
  have n: "newer_stamp toy_init toy_chunk"
    by (auto simp: newer_stamp_def index_Get_def toy_init_def ls_New_def)
  show ?thesis
    by (rule put_then_get [OF _ _ r _ toy_env_ok n toy_put toy_runs])
      (simp_all add: toy_chunk_def toy_addr_def WithStamp_def NewChunk_def)
qed

section \<open>Puts that succeed without effect\<close>

lemma mark_dirty_Get [simp]: "ix_Get (mark_dirty as db) n item = ix_Get db n item"
  "ix_Has (mark_dirty as db) n item = ix_Has db n item"
  by simp_all

text \<open>
  a put with an older stamp: when the stamp index is taken by a chunk whose timestamp is
  not earlier, \<open>put\<close> reports success and a chunk that is new, though it stores nothing; the
  blob stays in sharky, where no index points to it, since its location is not released.
\<close>

theorem put_older_stamp:
  assumes "chunkToItem ch = Some item" "\<not> it_Immutable item" "\<not> ls_Has (ch_addr ch) db"
    and "ix_Get db PostageIndex item = Some previous" "later previous item = Inr False"
    and "db_Write env (ch_data ch) (ld_sharky db) = (Inr loc, shs)" "mode \<noteq> ModePutUploadPin"
  shows "\<exists>db'. ls_put mode [(ch, env)] True db = (Inr [False], db') \<and> ld_ix db' = ld_ix db \<and>
    \<not> ls_Has (ch_addr ch) db' \<and> ld_sharky db' = shs"
proof -
  let ?db = "mark_dirty [ch_addr ch] db"
  let ?item = "item\<lparr>it_Location := location_MarshalBinary loc\<rparr>"
  let ?pb = "\<lparr>pb_batch = [], pb_binIDs = [], pb_release = []\<rparr> :: put_batch"
  have item: "it_Address item = addr_bytes (ch_addr ch)" "it_Data item = ch_data ch"
    using assms(1) by (auto simp: chunkToItem_def split: option.splits)
  have nh: "\<not> ix_Has db RetrievalData item" using assms(3) item by (simp add: Has_view ix_Has_view)
  obtain v where v: "view_of db PostageIndex (EncodeKey (ld_baseKey db) PostageIndex item) = Some v"
    "previous = item_Merge v item" using assms(4) by (auto simp: ix_Get_view split: option.splits)
  have "ix_Get db PostageIndex ?item = Some (item_Merge v ?item)"
    using v(1) by (simp add: ix_Get_view EncodeKey.simps(9))
  moreover have "later (item_Merge v ?item) ?item = Inr False"
    using assms(5) by (simp add: later_def v(2) Merge_Timestamp cong: if_cong)
  ultimately have early: "replacePrevious ?db ?item ?pb = Inr None"
    using assms(2) by (simp add: replacePrevious_def)
  have op: "put_op mode ?db env ?item ?pb = Inr (False, 0, 0, ?pb)"
    using early assms(7) by (cases mode) (simp_all add: put_op_def putRequest_def putUpload_def putSync_def Let_def)
  have pc: "putChunk mode ?db [] ch env (put_acc0 ?db) =
    (Inr (False, 0, 0), (put_acc0 ?db)\<lparr>pa_sharky := shs, pa_committed := [loc]\<rparr>)"
    using assms(1,6) nh op item by (simp add: putChunk_def putSharky_def put_acc0_def)
  have fast: "put_fast mode [ch] db = Inr False" using assms(1) nh by (simp add: put_fast_def)
  have "ls_put mode [(ch, env)] True db = (Inr [False], ?db\<lparr>ld_sharky := shs\<rparr>)"
    using pc fast by (simp add: ls_put_def flip: put_acc0_def)
      (simp add: put_acc0_def incGCSizeInBatch_def incReserveSizeInBatch_def sharky_Releases_def WriteBatch_def Let_def)
  with assms(3) show ?thesis by (simp add: ls_Has_def)
qed

definition toy_chunk2 :: "stamp chunk" where
  "toy_chunk2 = WithStamp toy_stamp (NewChunk (NewAddress (replicate 31 0 @ [2])) [1, 2, 3])"

definition toy_old :: localdb where "toy_old = toy_db\<lparr>ld_sharky := [toy_shard0]\<rparr>"

lemma toy_old_stamp:
  "\<exists>item previous. chunkToItem toy_chunk2 = Some item \<and> \<not> it_Immutable item \<and>
     ix_Get toy_old PostageIndex item = Some previous \<and> later previous item = Inr False"
proof -
  have "(case chunkToItem toy_chunk2 of None \<Rightarrow> False | Some item \<Rightarrow> \<not> it_Immutable item \<and>
     (case ix_Get toy_old PostageIndex item of None \<Rightarrow> False | Some previous \<Rightarrow> later previous item = Inr False))"
    by code_simp
  then show ?thesis by (auto split: option.splits)
qed

lemma put_older_stamp_witness:
  "\<exists>db'. ls_put ModePutRequest [(toy_chunk2, toy_env)] True toy_old = (Inr [False], db') \<and> ld_ix db' = ld_ix toy_old \<and>
    \<not> ls_Has (ch_addr toy_chunk2) db' \<and> ld_sharky db' = [toy_shard]"
proof -
  from toy_old_stamp obtain item previous where i: "chunkToItem toy_chunk2 = Some item" "\<not> it_Immutable item"
    "ix_Get toy_old PostageIndex item = Some previous" "later previous item = Inr False" by blast
  have "\<not> ls_Has (ch_addr toy_chunk2) toy_old" by code_simp
  moreover have "db_Write toy_env (ch_data toy_chunk2) (ld_sharky toy_old) = (Inr run_loc, [toy_shard])"
    using toy_write by (simp add: toy_chunk2_def WithStamp_def NewChunk_def toy_old_def)
  ultimately show ?thesis by (intro put_older_stamp [OF i(1,2) _ i(3,4)]) simp_all
qed

text \<open>
  pinning a chunk that is there: a put that is to pin its chunk, of a chunk that is stored
  already, reports success and changes no index, so a chunk that was not pinned is not pinned.
\<close>

theorem put_pin_existing:
  assumes "ls_Has (ch_addr ch) db" "ch_stamp ch \<noteq> None" "mode = ModePutRequestPin \<or> mode = ModePutUploadPin"
  shows "\<exists>db'. ls_put mode [(ch, env)] True db = (Inr [True], db') \<and> ld_ix db' = ld_ix db"
proof -
  let ?db = "mark_dirty [ch_addr ch] db"
  from assms(2) obtain item where it: "chunkToItem ch = Some item" by (auto simp: chunkToItem_def)
  then have "it_Address item = addr_bytes (ch_addr ch)" by (auto simp: chunkToItem_def split: option.splits)
  then have "ix_Has db RetrievalData item" using assms(1) by (simp add: Has_view ix_Has_view)
  then have pc: "putChunk mode ?db [] ch env (put_acc0 ?db) = (Inr (True, 0, 0), put_acc0 ?db)"
    using it by (simp add: putChunk_def putSharky_def put_acc0_def)
  have fast: "put_fast mode [ch] db = Inr False" using assms(3) by (auto simp: put_fast_def)
  have "ls_put mode [(ch, env)] True db = (Inr [True], ?db\<lparr>ld_sharky := ld_sharky ?db\<rparr>)"
    using pc fast by (simp add: ls_put_def flip: put_acc0_def)
      (simp add: put_acc0_def incGCSizeInBatch_def incReserveSizeInBatch_def sharky_Releases_def WriteBatch_def Let_def)
  then show ?thesis by simp
qed

lemma put_pin_existing_witness:
  "\<exists>db'. ls_put ModePutRequestPin [(toy_chunk, toy_env)] True toy_db = (Inr [True], db') \<and> ld_ix db' = ld_ix toy_db"
proof (rule put_pin_existing)
  show "ls_Has (ch_addr toy_chunk) toy_db"
    using toy_has by (simp add: toy_chunk_def WithStamp_def NewChunk_def)
qed (simp_all add: toy_chunk_def WithStamp_def)

section \<open>A collection that is never done\<close>

text \<open>
  a collection with nothing to collect: when the gc index is empty and \<open>gcSize\<close> is not
  exactly the target, below it included, a run evicts nothing, reports that it is not done and
  triggers the next run; so it goes on for as long as no other operation comes.
\<close>

theorem collectGarbage_spins:
  assumes "ld_ix db GcIx = []" "ld_gcSize db \<noteq> gcTarget db"
  shows "fst (collectGarbageWorker True (((snd \<circ> collectGarbageWorker True) ^^ n) db)) = Inr (0, False) \<and>
    ld_gcTrigger (((snd \<circ> collectGarbageWorker True) ^^ Suc n) db)"
proof -
  have run: "collectGarbageWorker True d =
      (Inr (0, False), gc_retrigger (Inr (0, False)) (gc_stop (sharky_Releases [] (WriteBatch [BGcSize (ld_gcSize d)] (gc_start d)))))"
    if "ld_ix d GcIx = []" "ld_gcSize d \<noteq> gcTarget d" for d
    using that by (simp add: collectGarbageWorker_def gc_collect_def gc_finish_def index_items_all gc_start_def
        gcTarget_def Let_def)
  have keep: "ld_ix (snd (collectGarbageWorker True d)) GcIx = [] \<and>
      ld_gcSize (snd (collectGarbageWorker True d)) \<noteq> gcTarget (snd (collectGarbageWorker True d)) \<and>
      ld_gcTrigger (snd (collectGarbageWorker True d)) \<and> fst (collectGarbageWorker True d) = Inr (0, False)"
    if d: "ld_ix d GcIx = []" "ld_gcSize d \<noteq> gcTarget d" for d
    using d by (simp add: run [OF d] gc_retrigger_def gc_stop_def gc_start_def sharky_Releases_def WriteBatch_def gcTarget_def)
  have all: "ld_ix (((snd \<circ> collectGarbageWorker True) ^^ n) db) GcIx = [] \<and>
      ld_gcSize (((snd \<circ> collectGarbageWorker True) ^^ n) db) \<noteq> gcTarget (((snd \<circ> collectGarbageWorker True) ^^ n) db)"
    using assms keep by (induction n) simp_all
  with keep show ?thesis by simp
qed

lemma collectGarbage_spins_witness:
  "fst (collectGarbageWorker True (((snd \<circ> collectGarbageWorker True) ^^ 0) toy_init)) = Inr (0, False) \<and>
    ld_gcTrigger (((snd \<circ> collectGarbageWorker True) ^^ Suc 0) toy_init)"
  by (rule collectGarbage_spins) (simp_all add: toy_init_def ls_New_def gcTarget_def)

section \<open>A stamp index that is lost\<close>

lemma accessed_item_same: "it_Address (accessed_item db item) = it_Address item"
  "it_StoreTimestamp (accessed_item db item) = it_StoreTimestamp item"
  by (simp_all add: accessed_item_def split: option.splits)

text \<open>
  a stamp index whose chunk is gone: when the index of stamps has an entry for a chunk that
  is not stored, every put of a chunk with this stamp index and a later timestamp fails with
  "not found" and leaves the entry as it is, so the stamp index can never be used again.
\<close>

theorem stamp_without_chunk_blocks:
  assumes "keys_ok (view_of db)" "chunkToItem ch = Some item" "\<not> it_Immutable item" "\<not> ls_Has (ch_addr ch) db"
    and "ix_Get db PostageIndex item = Some previous" "later previous item = Inr True"
    and "\<not> ls_Has (NewAddress (it_Address previous)) db"
    and "db_Write env (ch_data ch) (ld_sharky db) = (Inr loc, shs)"
  shows "\<exists>db'. ls_put mode [(ch, env)] written db = (Inl LsNotFound, db') \<and> ld_ix db' = ld_ix db"
proof -
  let ?db = "mark_dirty [ch_addr ch] db"
  let ?item = "item\<lparr>it_Location := location_MarshalBinary loc\<rparr>"
  let ?pb = "\<lparr>pb_batch = [], pb_binIDs = [], pb_release = []\<rparr> :: put_batch"
  have item: "it_Address item = addr_bytes (ch_addr ch)" "it_Data item = ch_data ch"
    using assms(2) by (auto simp: chunkToItem_def split: option.splits)
  have ni: "new_item (addr_bytes (ch_addr ch)) item" by (rule chunkToItem_new [OF assms(2)])
  have nh: "\<not> ix_Has db RetrievalData item" using assms(4) item by (simp add: Has_view ix_Has_view)
  obtain v where v: "view_of db PostageIndex (EncodeKey (ld_baseKey db) PostageIndex item) = Some v"
    "previous = item_Merge v item" using assms(5) by (auto simp: ix_Get_view split: option.splits)
  let ?p = "item_Merge v ?item"
  note t = typed(4) [OF assms(1) v(1)]
  have get: "ix_Get db PostageIndex ?item = Some ?p"
    using v(1) by (simp add: ix_Get_view EncodeKey.simps(9))
  have late: "later ?p ?item = Inr True"
    using assms(6) by (simp add: later_def v(2) Merge_Timestamp cong: if_cong)
  have "view_of db RetrievalData (it_Address ?p) = None"
    using assms(7) t by (auto simp: Has_view v(2))
  moreover have "it_StoreTimestamp ?p = 0" using t ni by (simp add: new_item_def)
  ultimately have none: "ix_Get db RetrievalData (accessed_item db ?p) = None" "it_StoreTimestamp (accessed_item db ?p) = 0"
    by (simp_all add: ix_Get_view accessed_item_same)
  have same: "accessed_item ?db ?p = accessed_item db ?p" by (simp add: accessed_item_def)
  have "setRemove ?db ?p True [] = Inl LsNotFound"
  proof (rule ccontr)
    assume "setRemove ?db ?p True [] \<noteq> Inl LsNotFound"
    then obtain b c where "setRemove ?db ?p True [] = Inr (b, c)"
      by (auto simp: setRemove_def Let_def split: option.splits if_splits)
    then show False
      by (rule setRemove_cases) (use none same in simp)
  qed
  then have early: "replacePrevious ?db ?item ?pb = Inl LsNotFound"
    using assms(3) get late by (simp add: replacePrevious_def)
  have op: "put_op mode ?db env ?item ?pb = Inl LsNotFound"
    using early by (cases mode) (simp_all add: put_op_def putRequest_def putUpload_def putSync_def Let_def)
  have pc: "putChunk mode ?db [] ch env (put_acc0 ?db) =
    (Inl LsNotFound, (put_acc0 ?db)\<lparr>pa_sharky := shs, pa_committed := [loc]\<rparr>)"
    using assms(2,8) nh op item by (simp add: putChunk_def putSharky_def put_acc0_def)
  have fast: "put_fast mode [ch] db = Inr False" using assms(2) nh by (simp add: put_fast_def)
  show ?thesis
    using pc fast by (simp add: ls_put_def flip: put_acc0_def)
qed

definition toy_chunk3 :: "stamp chunk" where
  "toy_chunk3 = WithStamp (NewStamp (replicate 32 7) (replicate 7 0 @ [1]) (replicate 7 0 @ [6]) (replicate 65 0))
     (NewChunk (NewAddress (replicate 31 0 @ [2])) [1, 2, 3])"

definition toy_lost :: localdb where
  "toy_lost = toy_db\<lparr>ld_sharky := [toy_shard0], ld_ix := (ld_ix toy_db)(RetrievalData := [])\<rparr>"

definition lost_check :: "localdb \<Rightarrow> bool" where
  "lost_check db \<longleftrightarrow> \<not> ls_Has (ch_addr toy_chunk3) db \<and>
     (case chunkToItem toy_chunk3 of None \<Rightarrow> False | Some item \<Rightarrow> \<not> it_Immutable item \<and>
        (case ix_Get db PostageIndex item of None \<Rightarrow> False | Some previous \<Rightarrow> later previous item = Inr True \<and>
           \<not> ls_Has (NewAddress (it_Address previous)) db))"

lemma toy_lost_check: "lost_check toy_lost"
  by code_simp

lemma toy_lost_stamp:
  "\<exists>item previous. chunkToItem toy_chunk3 = Some item \<and> \<not> it_Immutable item \<and>
     ix_Get toy_lost PostageIndex item = Some previous \<and> later previous item = Inr True \<and>
     \<not> ls_Has (NewAddress (it_Address previous)) toy_lost"
  using toy_lost_check by (auto simp: lost_check_def split: option.splits)

lemma stamp_without_chunk_blocks_witness:
  "\<exists>db'. ls_put ModePutUpload [(toy_chunk3, toy_env)] True toy_lost = (Inl LsNotFound, db') \<and> ld_ix db' = ld_ix toy_lost"
proof -
  from toy_lost_stamp obtain item previous where i: "chunkToItem toy_chunk3 = Some item" "\<not> it_Immutable item"
    "ix_Get toy_lost PostageIndex item = Some previous" "later previous item = Inr True"
    "\<not> ls_Has (NewAddress (it_Address previous)) toy_lost" by blast
  have k: "keys_ok (view_of toy_db)" by (rule reach_ok(3) [OF _ _ toy_reach]) simp_all
  have "view_of toy_lost = (view_of toy_db)(RetrievalData := Map.empty)"
    by (simp add: toy_lost_def view_of_def fun_eq_iff)
  then have "keys_ok (view_of toy_lost)" using k unfolding keys_ok_def by auto
  moreover have "\<not> ls_Has (ch_addr toy_chunk3) toy_lost" using toy_lost_check by (simp add: lost_check_def)
  moreover have "db_Write toy_env (ch_data toy_chunk3) (ld_sharky toy_lost) = (Inr run_loc, [toy_shard])"
    using toy_write by (simp add: toy_chunk3_def WithStamp_def NewChunk_def toy_lost_def)
  ultimately show ?thesis using i by (intro stamp_without_chunk_blocks)
qed

text \<open>How a chunk that is unpinned gets into the collector's index: with no stamp index.\<close>

lemma singleton_map:
  assumes "distinct (map fst xs)" "map_of xs = [k \<mapsto> v]"
  shows "xs = [(k, v)]"
proof -
  have "(a, b) \<in> set xs \<longleftrightarrow> a = k \<and> b = v" for a b
    using assms by (metis fun_upd_apply map_of_eq_Some_iff option.distinct(1) option.inject)
  then have s: "set xs = {(k, v)}" by auto
  have "distinct xs" using assms(1) by (simp add: distinct_map)
  then have "length xs = 1" using s by (metis distinct_card card.empty card_insert_disjoint empty_iff finite.emptyI One_nat_def)
  with s show ?thesis by (cases xs) auto
qed

lemma setUnpin_cached:
  assumes k: "keys_ok (view_of db)" and a: "length (addr_bytes addr) = 32"
    and d: "ix_Get db RetrievalData (addressToItem addr) = Some d"
    and p: "ix_Get db PinIx (addressToItem addr) = Some p" "it_PinCounter p \<le> 1"
    and q: "ix_Get db PushIx d = None"
  shows "\<exists>batch f. setUnpin db now addr [] = (None, batch, 1) \<and> it_Address f = addr_bytes addr \<and>
    it_BatchID f = it_BatchID d \<and> it_Index f = [] \<and>
    view_batch batch m GcIx = (m GcIx) (EncodeKey (ld_baseKey db) GcIx f \<mapsto> index_value GcIx f) \<and>
    view_batch batch m RetrievalData = m RetrievalData \<and> view_batch batch m PostageIndex = m PostageIndex"
proof -
  let ?a = "addr_bytes addr" and ?item = "(addressToItem addr)\<lparr>it_PinCounter := it_PinCounter p\<rparr>"
  have ia: "it_Address (addressToItem addr) = ?a" by (rule item_at_address)
  have i: "item_at (view_of db) ?a (addressToItem addr)" by (rule item_at_address)
  from get_data(1) [OF k i d] have ad: "it_Address d = ?a" by blast
  obtain v where v: "view_of db RetrievalData ?a = Some v" "d = item_Merge v (addressToItem addr)"
    using d by (auto simp: ix_Get_view ia split: option.splits)
  obtain d' where d': "ix_Get db RetrievalData ?item = Some d'" "it_StoreTimestamp d' = it_StoreTimestamp d"
    "it_BinID d' = it_BinID d" "it_BatchID d' = it_BatchID d"
    using v by (simp add: ix_Get_view ia item_Merge_def)
  let ?it = "?item\<lparr>it_StoreTimestamp := it_StoreTimestamp d', it_BinID := it_BinID d', it_BatchID := it_BatchID d'\<rparr>"
  have push: "ix_Get db PushIx ?it = None"
    using q get_other(3) [of d db] get_other(3) [of ?it db] a ad ia d'(2) by simp
  let ?it2 = "?it\<lparr>it_AccessTimestamp := (case ix_Get db RetrievalAccess ?it of None \<Rightarrow> now | Some e \<Rightarrow> it_AccessTimestamp e)\<rparr>"
  let ?b = "ix_del db PinIx ?item []"
  let ?b2 = "if ix_Get db RetrievalAccess ?it = None then ix_put db RetrievalAccess ?it2 ?b else ?b"
  have "setUnpin db now addr [] = (None, ix_put db GcIx ?it2 ?b2, 1)"
    using p d' push by (cases "ix_Get db RetrievalAccess ?it") (simp_all add: setUnpin_def Let_def not_less)
  moreover have "it_Address ?it2 = ?a" "it_BatchID ?it2 = it_BatchID d" "it_Index ?it2 = []"
    using ia d'(4) by (simp_all add: addressToItem_def zero_item_def)
  ultimately show ?thesis
    by (intro exI [of _ "ix_put db GcIx ?it2 ?b2"] exI [of _ ?it2]) simp
qed

text \<open>
  unpinning loses stamp indexes: \<open>setUnpin\<close>, which eviction from the reserve is made of,
  puts the chunk in the gc index without its stamp index; the collection that removes the chunk
  then deletes the entry of stamp index zero, whosever that is, and leaves the entry of the
  chunk: a stamp index without a chunk.
\<close>

theorem unpinned_gc_leaves_stamp:
  assumes "shardCnt \<le> 256" "maxDataSize < 2 ^ 16"
    "orderly_step\<^sup>*\<^sup>* (ls_init baseKey capacity reserveCapacity shardCnt maxDataSize) (db, GcIdle, log, rs)"
    and d: "ix_Get db RetrievalData (addressToItem addr) = Some d" "fit 8 (it_Index d) \<noteq> replicate 8 0"
    and p: "ix_Get db PinIx (addressToItem addr) = Some p" "it_PinCounter p \<le> 1"
    and q: "ix_Get db PushIx d = None"
    and g: "ld_ix db GcIx = []" "ld_dirtyAddresses db = []" "gcTarget db < ld_gcSize db + 1"
    and s: "map_of (ld_ix db PostageIndex) (EncodeKey (ld_baseKey db) PostageIndex d) = Some stamp"
    and u: "ls_set ModeSetUnpin [(addr, now)] True db = (e, db1)"
    and c: "collectGarbageWorker True db1 = (r, db2)"
  shows "e = None \<and> r = Inr (1, False) \<and> \<not> ls_Has addr db2 \<and>
    map_of (ld_ix db2 PostageIndex) (EncodeKey (ld_baseKey db) PostageIndex d) = Some stamp"
proof -
  let ?a = "addr_bytes addr" and ?key = "EncodeKey (ld_baseKey db) PostageIndex d"
  note ok = reach_ok [OF assms(1-3)]
  have nr: "\<not> ld_gcRunning db" using ls_reach_inv [OF assms(3,1,2)] by (simp add: ls_inv_def)
  have md: "mark_dirty as db = db" for as using nr by (simp add: mark_dirty_def)
  have ia: "it_Address (addressToItem addr) = ?a" by (rule item_at_address)
  obtain v where v: "view_of db RetrievalData ?a = Some v" using d(1) by (auto simp: ix_Get_view ia split: option.splits)
  have a: "length ?a = 32" using ok(3) v unfolding keys_ok_def by blast
  obtain batch f where f: "setUnpin db now addr [] = (None, batch, 1)" "it_Address f = ?a"
    "it_BatchID f = it_BatchID d" "it_Index f = []"
    "view_batch batch (view_of db) GcIx = (view_of db GcIx) (EncodeKey (ld_baseKey db) GcIx f \<mapsto> index_value GcIx f)"
    "view_batch batch (view_of db) RetrievalData = view_of db RetrievalData"
    "view_batch batch (view_of db) PostageIndex = view_of db PostageIndex"
    using setUnpin_cached [OF ok(3) a d(1) p q] by blast
  let ?db = "if ld_gcSize db + 1 \<ge> ld_cacheCapacity db then db\<lparr>ld_gcTrigger := True\<rparr> else db"
  let ?b = "batch @ [BGcSize (ld_gcSize db + 1)]"
  have "(e, db1) = (None, sharky_Releases [] (WriteBatch ?b ?db))"
    using u f(1) by (simp add: ls_set_def md set_one_def incGCSizeInBatch_def incReserveSizeInBatch_def Let_def
        split: if_splits)
  then have db1: "e = None" "db1 = sharky_Releases [] (WriteBatch ?b ?db)" by simp_all
  have vdb: "view_of ?db = view_of db" "db_sorted ?db" using ok(2) by (simp_all add: view_of_def fun_eq_iff db_sorted_def)
  have v1: "view_of db1 = view_batch batch (view_of db)" "db_sorted db1"
    using view_WriteBatch [OF vdb(2), of ?b] vdb(1) by (simp_all add: db1(2))
  have f1: "ld_gcSize db1 = ld_gcSize db + 1" "ld_cacheCapacity db1 = ld_cacheCapacity db"
    "ld_dirtyAddresses db1 = []" "ld_baseKey db1 = ld_baseKey db"
    using g(2) by (simp_all add: db1(2) sharky_Releases_def) (simp_all add: WriteBatch_def)
  have ok1: "ls_ok log db1" using set_step [OF ok(1) _ _ u] a by simp
  have "map_of (ld_ix db1 GcIx) = [EncodeKey (ld_baseKey db) GcIx f \<mapsto> index_value GcIx f]"
    using v1(1) f(5) g(1) by (simp add: view_of_def fun_eq_iff)
  then have gc: "ld_ix db1 GcIx = [(EncodeKey (ld_baseKey db) GcIx f, index_value GcIx f)]"
    using v1(2) by (intro singleton_map) (simp_all add: db_sorted_def strict_sorted_iff)
  let ?c = "index_item GcIx (EncodeKey (ld_baseKey db) GcIx f, index_value GcIx f)"
  have k1: "keys_ok (view_of db1)" using ok1 by (simp add: ls_ok_def view_ok_def)
  have cc: "it_Address ?c = ?a" "it_BatchID ?c = fit 32 (it_BatchID d)" "it_Index ?c = replicate 8 0"
  proof -
    have "(EncodeKey (ld_baseKey db) GcIx f, index_value GcIx f) \<in> set (ld_ix db1 GcIx)" by (simp add: gc)
    from gc_items [OF v1(2) k1 this] show "it_Address ?c = ?a"
      using f(2) by (simp add: keys_fields)
    show "it_BatchID ?c = fit 32 (it_BatchID d)" "it_Index ?c = replicate 8 0"
      using f(3,4) by (simp_all add: index_item_def item_Merge_def index_value.simps zero_item_def fit_def)
  qed
  let ?s = "gc_start db1"
  have s1: "ld_gcSize ?s = ld_gcSize db + 1" "gcTarget ?s = gcTarget db" "ld_dirtyAddresses ?s = []"
    "ld_ix ?s = ld_ix db1" "ld_baseKey ?s = ld_baseKey db" "ld_sharky ?s = ld_sharky db1"
    using f1 by (simp_all add: gc_start_def gcTarget_def)
  have col: "gc_collect ?s = Some [?c]"
    using g(3) by (simp add: gc_collect_def s1 index_items_all gc gcBatchSize_def)
  have "view_of ?s RetrievalData ?a = Some v" using v f(6) v1(1) by simp
  then obtain i where i: "ix_Get ?s RetrievalData ?c = Some i" "i = item_Merge v ?c"
    using cc(1) by (simp add: ix_Get_view)
  have va: "view_of db1 RetrievalData ?a = Some v" using v f(6) v1(1) by simp
  obtain held where "data_ok log (ld_sharky db1) held (view_of db1 RetrievalData)"
    using ok1 by (auto simp: ls_ok_def)
  from data_ok_location [OF this va] obtain l
    where l: "LocationFromBinary (it_Location v) = Inr l" "it_Location v \<noteq> []"
    by (metis location_read Marshal_nonempty)
  let ?d = "?c\<lparr>it_Location := it_Location i\<rparr>"
  let ?gb = "gc_deletes ?s ?d []"
  have loop: "gc_loop ?s [?c] 0 [] [] = Inr (False, 1, ?gb, [l])"
    using g(3) i l by (simp add: s1 gc_deletes_def Let_def not_le)
  have r: "r = Inr (1, False)"
    "db2 = gc_retrigger r (gc_stop (sharky_Releases [l] (WriteBatch (?gb @ [BGcSize (ld_gcSize ?s - 1)]) ?s)))"
    using c col loop by (auto simp: collectGarbageWorker_def gc_finish_def Let_def)
  have v2: "view_of db2 = view_batch ?gb (view_of db1)"
    using view_WriteBatch [of ?s] v1(2) by (simp add: r(2))
  have "view_of db2 RetrievalData ?a = None" using cc(1) by (simp add: v2 gc_deletes_def)
  moreover have "view_of db2 PostageIndex ?key = view_of db1 PostageIndex ?key"
  proof -
    have "EncodeKey (ld_baseKey ?s) PostageIndex ?d = fit 32 (it_BatchID d) @ replicate 8 0"
      using cc by (simp add: EncodeKey.simps(9))
    moreover have "?key = fit 32 (it_BatchID d) @ fit 8 (it_Index d)" by (simp add: EncodeKey.simps(9))
    ultimately show ?thesis using d(2) by (simp add: v2 gc_deletes_def)
  qed
  ultimately show ?thesis
    using db1(1) r(1) s f(7) v1(1) by (simp add: Has_view view_of_def)
qed

text \<open>A node with a cache of one chunk puts one chunk that it pins.\<close>

definition tiny_init :: localdb where
  "tiny_init = ls_New (replicate 32 0) 1 10 [toy_shard0]"

definition tiny_pb :: put_batch where
  "tiny_pb = (case put_op ModePutRequestPin tiny_init toy_env toy_item \<lparr>pb_batch = [], pb_binIDs = [], pb_release = []\<rparr> of
     Inr (_, _, _, pb) \<Rightarrow> pb)"

definition tiny_db :: localdb where
  "tiny_db = WriteBatch (pb_batch tiny_pb @ map (\<lambda>(po, i). BBinID po i) (pb_binIDs tiny_pb))
     (tiny_init\<lparr>ld_sharky := [toy_shard]\<rparr>)"

lemma tiny_op:
  "put_op ModePutRequestPin tiny_init toy_env toy_item \<lparr>pb_batch = [], pb_binIDs = [], pb_release = []\<rparr> =
     Inr (False, 0, 0, tiny_pb)" "pb_release tiny_pb = []"
  by code_simp+

lemma tiny_put: "ls_put ModePutRequestPin [(toy_chunk, toy_env)] True tiny_init = (Inr [False], tiny_db)"
proof -
  have c: "chunkToItem toy_chunk = Some toy_item0" "\<not> ix_Has tiny_init RetrievalData toy_item0"
    "it_Data toy_item0 = [1, 2, 3]" "ld_sharky tiny_init = [toy_shard0]" "\<not> ld_gcRunning tiny_init" by code_simp+
  have p: "putChunk ModePutRequestPin tiny_init [] toy_chunk toy_env (put_acc0 tiny_init) =
    (Inr (False, 0, 0), (put_acc0 tiny_init)\<lparr>pa_sharky := [toy_shard], pa_committed := [run_loc], pa_batch := tiny_pb\<rparr>)"
    using c toy_write tiny_op(1)
    by (simp add: putChunk_def putSharky_def put_acc0_def flip: toy_item_def)
  have m: "mark_dirty as tiny_init = tiny_init" for as using c by (simp add: mark_dirty_def)
  show ?thesis
    using c p tiny_op(2)
    by (simp add: ls_put_def put_fast_def m incReserveSizeInBatch_def sharky_Releases_def tiny_db_def
        flip: put_acc0_def) (simp add: put_acc0_def incGCSizeInBatch_def incReserveSizeInBatch_def Let_def)
qed

lemma tiny_reach: "orderly_step\<^sup>*\<^sup>* (ls_init (replicate 32 0) 1 10 1 8)
    (tiny_db, GcIdle, [(replicate 31 0 @ [1], [1, 2, 3])], [])"
proof -
  let ?s = "(tiny_db, GcIdle, put_log [(toy_chunk, toy_env)] @ [], [] :: item list)"
  have i: "ls_init (replicate 32 0) 1 10 1 8 = (tiny_init, GcIdle, [], [])"
    by (simp add: ls_init_def tiny_init_def sharky_New_def enumerate_eq_zip flip: toy_shard0_eq)
  have "envs_ok tiny_init [] [(toy_chunk, toy_env)] (ld_sharky tiny_init)"
    using toy_env_ok by (simp add: tiny_init_def toy_init_def ls_New_def)
  then have "ls_step (CallPut [toy_chunk]) (tiny_init, GcIdle, [], []) ?s"
    using st_put [OF _ _ tiny_put, where ph = GcIdle and log = "[]" and rs = "[]"]
    by (simp add: toy_chunk_def toy_addr_def WithStamp_def NewChunk_def)
  moreover have "distinct (replaced tiny_init [] [toy_chunk])" by code_simp
  ultimately have "orderly_step (tiny_init, GcIdle, [], []) ?s" unfolding orderly_step_def by force
  then show ?thesis
    unfolding i by (simp add: put_log_def toy_chunk_def toy_addr_def WithStamp_def NewChunk_def r_into_rtranclp)
qed

definition tiny_item :: item where "tiny_item = the (ix_Get tiny_db RetrievalData (addressToItem toy_addr))"

definition tiny_pin :: item where "tiny_pin = the (ix_Get tiny_db PinIx (addressToItem toy_addr))"

definition tiny_check :: "localdb \<Rightarrow> bool" where
  "tiny_check db \<longleftrightarrow>
     (case ix_Get db RetrievalData (addressToItem toy_addr) of None \<Rightarrow> False
      | Some d \<Rightarrow> fit 8 (it_Index d) \<noteq> replicate 8 0 \<and> ix_Get db PushIx d = None \<and>
          map_of (ld_ix db PostageIndex) (EncodeKey (ld_baseKey db) PostageIndex d) \<noteq> None) \<and>
     (case ix_Get db PinIx (addressToItem toy_addr) of None \<Rightarrow> False | Some p \<Rightarrow> it_PinCounter p \<le> 1) \<and>
     ld_ix db GcIx = [] \<and> ld_dirtyAddresses db = [] \<and> gcTarget db < ld_gcSize db + 1"

lemma tiny_checks: "tiny_check tiny_db"
  by code_simp

lemma tiny_items:
  "ix_Get tiny_db RetrievalData (addressToItem toy_addr) = Some tiny_item"
  "fit 8 (it_Index tiny_item) \<noteq> replicate 8 0"
  "ix_Get tiny_db PinIx (addressToItem toy_addr) = Some tiny_pin" "it_PinCounter tiny_pin \<le> 1"
  "ix_Get tiny_db PushIx tiny_item = None" "ld_ix tiny_db GcIx = []" "ld_dirtyAddresses tiny_db = []"
  "gcTarget tiny_db < ld_gcSize tiny_db + 1"
  using tiny_checks by (auto simp: tiny_check_def tiny_item_def tiny_pin_def split: option.splits)

lemma tiny_stamp: "map_of (ld_ix tiny_db PostageIndex) (EncodeKey (ld_baseKey tiny_db) PostageIndex tiny_item) =
    Some (the (map_of (ld_ix tiny_db PostageIndex) (EncodeKey (ld_baseKey tiny_db) PostageIndex tiny_item)))"
  using tiny_checks tiny_items(1) by (auto simp: tiny_check_def split: option.splits)

lemma unpinned_gc_leaves_stamp_witness:
  "fst (ls_set ModeSetUnpin [(toy_addr, 20)] True tiny_db) = None \<and>
    fst (collectGarbageWorker True (snd (ls_set ModeSetUnpin [(toy_addr, 20)] True tiny_db))) = Inr (1, False) \<and>
    \<not> ls_Has toy_addr (snd (collectGarbageWorker True (snd (ls_set ModeSetUnpin [(toy_addr, 20)] True tiny_db)))) \<and>
    map_of (ld_ix (snd (collectGarbageWorker True (snd (ls_set ModeSetUnpin [(toy_addr, 20)] True tiny_db)))) PostageIndex)
      (EncodeKey (ld_baseKey tiny_db) PostageIndex tiny_item) =
      Some (the (map_of (ld_ix tiny_db PostageIndex) (EncodeKey (ld_baseKey tiny_db) PostageIndex tiny_item)))"
  by (rule unpinned_gc_leaves_stamp [OF _ _ tiny_reach tiny_items tiny_stamp prod.collapse [symmetric] prod.collapse [symmetric]])
    simp_all

end
