(* ===== verification/Pseudosettle.thy ===== *)
theory Pseudosettle
  imports Accounting_Ledger
begin

text \<open>
  \<open>pkg/settlement/pseudosettle\<close>: refreshments, payments in time instead of money. A peer may ask
  a node to forgive as much of its debt as the refresh rate gives for the seconds since its
  last refreshment. The service is a client of the accounting package and keeps one record per
  peer and direction in the state store. The handler of a request and the sender of one are each
  split where the code calls into accounting: between reading the debt and reporting the
  refreshment other accounting operations may run, which is the argument \<open>between\<close>.
  Streams and the clock are arguments; metrics are left out.
\<close>

section \<open>State (pseudosettle.go)\<close>

record last_payment =
  lp_Timestamp :: int
  lp_CheckTimestamp :: int
  lp_Total :: int

record pseudosettle =
  pse_store :: "last_payment kv"
  pse_refreshRate :: int
  pse_lightRefreshRate :: int
  pse_peers :: "address \<Rightarrow> bool option"

datatype pse_error =
    ErrSettlementTooSoon
  | ErrNoPseudoSettlePeer
  | ErrPeerNoSettlements
  | PseStore
  | PseAccounting acc_error
  | PseRead
  | PseWrite
  | PseNoPeerInKey
  | PseHexAddress

definition pse_New :: "last_payment kv \<Rightarrow> int \<Rightarrow> int \<Rightarrow> pseudosettle" where
  "pse_New store refreshRate lightRefreshRate =
     \<lparr>pse_store = store, pse_refreshRate = refreshRate, pse_lightRefreshRate = lightRefreshRate,
      pse_peers = Map.empty\<rparr>"

text \<open>Connecting and disconnecting start a goroutine, here the operation that it runs.\<close>

definition pse_init :: "address \<Rightarrow> bool \<Rightarrow> pseudosettle \<Rightarrow> pseudosettle \<times> acc_op" where
  "pse_init peer fullNode s =
     ((case pse_peers s peer of
         None \<Rightarrow> s\<lparr>pse_peers := (pse_peers s)(peer \<mapsto> fullNode)\<rparr>
       | Some _ \<Rightarrow> s),
      OpConnect peer fullNode)"

definition pse_terminate :: "address \<Rightarrow> pseudosettle \<Rightarrow> pseudosettle \<times> acc_op" where
  "pse_terminate peer s = (s\<lparr>pse_peers := (pse_peers s)(peer := None)\<rparr>, OpDisconnect peer)"

section \<open>Keys\<close>

definition SettlementReceivedPrefix :: bytes where
  "SettlementReceivedPrefix = str_bytes ''pseudosettle_total_received_''"

definition SettlementSentPrefix :: bytes where
  "SettlementSentPrefix = str_bytes ''pseudosettle_total_sent_''"

definition totalKey :: "address \<Rightarrow> bytes \<Rightarrow> bytes" where
  "totalKey peer prefix = prefix @ addr_String peer"

definition totalKeyPeer :: "bytes \<Rightarrow> bytes \<Rightarrow> pse_error + address" where
  "totalKeyPeer key prefix =
     (let split = split_after prefix key in
      if length split \<noteq> 2 then Inl PseNoPeerInKey
      else case ParseHexAddress (split ! 1) of
             None \<Rightarrow> Inl PseHexAddress
           | Some addr \<Rightarrow> Inr addr)"

text \<open>The idiom that reads a record and starts from zero when there is none.\<close>

definition last_of :: "pseudosettle \<Rightarrow> bytes \<Rightarrow> pse_error + last_payment" where
  "last_of s key =
     (case kv_Get (pse_store s) key of
        Inl ErrNotFound \<Rightarrow> Inr \<lparr>lp_Timestamp = 0, lp_CheckTimestamp = 0, lp_Total = 0\<rparr>
      | Inl ErrIO \<Rightarrow> Inl PseStore
      | Inr lastTime \<Rightarrow> Inr lastTime)"

section \<open>Receiving\<close>

definition peerAllowance ::
  "address \<Rightarrow> bool \<Rightarrow> int \<Rightarrow> pseudosettle \<Rightarrow> accounting \<Rightarrow> (pse_error + int \<times> int) \<times> accounting" where
  "peerAllowance peer fullNode now s a =
     (case last_of s (totalKey peer SettlementReceivedPrefix) of
        Inl err \<Rightarrow> (Inl err, a)
      | Inr lastTime \<Rightarrow>
          let currentTime = unix now in
          if currentTime = lp_Timestamp lastTime then (Inl ErrSettlementTooSoon, a)
          else
            let refreshRateUsed = (if fullNode then pse_refreshRate s else pse_lightRefreshRate s);
                maxAllowance = to_int64 (currentTime - lp_Timestamp lastTime) * refreshRateUsed;
                (r, a) = PeerDebt peer a
            in case r of
                 Inl err \<Rightarrow> (Inl (PseAccounting err), a)
               | Inr peerDebt \<Rightarrow>
                   (Inr (if peerDebt \<ge> maxAllowance then maxAllowance else peerDebt, currentTime), a))"

text \<open>The answer to a request: the amount and the time stamp of the acknowledgement.\<close>

definition pse_answer ::
  "address \<Rightarrow> int \<Rightarrow> bytes \<Rightarrow> pseudosettle \<Rightarrow> accounting \<Rightarrow> (pse_error + int \<times> int) \<times> accounting" where
  "pse_answer peer now amount s a =
     (let attemptedAmount = int (be_to_nat amount)
      in case pse_peers s peer of
           None \<Rightarrow> (Inl ErrNoPseudoSettlePeer, a)
         | Some fullNode \<Rightarrow>
             (case peerAllowance peer fullNode now s a of
                (Inl err, a) \<Rightarrow> (Inl err, a)
              | (Inr (allowance, timestamp), a) \<Rightarrow>
                  let paymentAmount = (if allowance < attemptedAmount then allowance else attemptedAmount);
                      paymentAmount = (if paymentAmount < 0 then 0 else paymentAmount)
                  in (Inr (paymentAmount, timestamp), a)))"

text \<open>What follows once the acknowledgement is written.\<close>

definition pse_commit ::
  "address \<Rightarrow> int \<Rightarrow> int \<Rightarrow> pseudosettle \<Rightarrow> accounting \<Rightarrow> pse_error option \<times> pseudosettle \<times> accounting" where
  "pse_commit peer paymentAmount timestamp s a =
     (let key = totalKey peer SettlementReceivedPrefix
      in case last_of s key of
           Inl err \<Rightarrow> (Some err, s, a)
         | Inr lastTime \<Rightarrow>
             let lastTime = lastTime\<lparr>lp_Total := lp_Total lastTime + paymentAmount, lp_Timestamp := timestamp\<rparr>
             in case kv_Put key lastTime (pse_store s) of
                  Inl _ \<Rightarrow> (Some PseStore, s, a)
                | Inr store \<Rightarrow>
                    let (r, a) = NotifyRefreshmentReceived peer paymentAmount timestamp a
                    in (map_option PseAccounting r, s\<lparr>pse_store := store\<rparr>, a))"

text \<open>
  The handler. \<open>ack_ok\<close> is whether the acknowledgement is written to the stream; the second
  result is the acknowledgement.
\<close>

definition pse_handler ::
  "address \<Rightarrow> int \<Rightarrow> bytes \<Rightarrow> bool \<Rightarrow> (accounting \<Rightarrow> accounting) \<Rightarrow> pseudosettle \<Rightarrow> accounting \<Rightarrow>
   pse_error option \<times> (bytes \<times> int) option \<times> pseudosettle \<times> accounting" where
  "pse_handler peer now amount ack_ok between s a =
     (case pse_answer peer now amount s a of
        (Inl err, a) \<Rightarrow> (Some err, None, s, a)
      | (Inr (paymentAmount, timestamp), a) \<Rightarrow>
          if \<not> ack_ok then (Some PseWrite, None, s, a)
          else
            let (r, s, a) = pse_commit peer paymentAmount timestamp s (between a)
            in (r, Some (nat_bytes (nat paymentAmount), timestamp), s, a))"

section \<open>Sending\<close>

datatype pay_error =
    PayStream bool
  | PayStore
  | ErrRefreshmentAboveExpected
  | ErrTimeOutOfSyncAlleged
  | ErrTimeOutOfSyncRecent
  | ErrTimeOutOfSyncInterval

text \<open>
  The checks of an acknowledgement against what the sender has recorded, in the code's order.
  The subtractions are of \<open>int64\<close> and the time stamp is the peer's, so they are kept at their width.
\<close>

definition check_ack ::
  "int \<Rightarrow> int \<Rightarrow> last_payment \<Rightarrow> bytes \<times> int \<Rightarrow> pay_error + int \<times> int" where
  "check_ack amount checkTime lastTime ack =
     (let acceptedAmount = int (be_to_nat (fst ack)) in
      if acceptedAmount > amount then Inl ErrRefreshmentAboveExpected
      else
        let experiencedInterval = to_int64 (go_div checkTime 1000 - lp_CheckTimestamp lastTime);
            allegedInterval = to_int64 (snd ack - lp_Timestamp lastTime)
        in if allegedInterval < 0 then Inl ErrTimeOutOfSyncAlleged
           else
             let experienceDifferenceRecent = to_int64 (snd ack - go_div checkTime 1000)
             in if experienceDifferenceRecent < -2 \<or> experienceDifferenceRecent > 2
                then Inl ErrTimeOutOfSyncRecent
                else
                  let experienceDifferenceInterval = to_int64 (experiencedInterval - allegedInterval)
                  in if experienceDifferenceInterval < -3 \<or> experienceDifferenceInterval > 3
                     then Inl ErrTimeOutOfSyncInterval
                     else Inr (acceptedAmount, allegedInterval))"

text \<open>
  \<open>Pay\<close> sends the request of an amount and goes on with the acknowledgement, or with the error
  of the stream, of which only whether it is \<open>p2p.ErrPeerNotFound\<close> matters. \<^theory_text>\<open>Inl\<close> is the
  report of an error to accounting. First what is there before the stream is opened:
\<close>

definition pse_request :: "address \<Rightarrow> pseudosettle \<Rightarrow> pay_error + last_payment" where
  "pse_request peer s =
     (case last_of s (totalKey peer SettlementSentPrefix) of
        Inl _ \<Rightarrow> Inl PayStore
      | Inr lastTime \<Rightarrow> Inr lastTime)"

definition pse_accept ::
  "address \<Rightarrow> int \<Rightarrow> int \<Rightarrow> last_payment \<Rightarrow> bool + bytes \<times> int \<Rightarrow> pseudosettle \<Rightarrow>
   (pay_error + int \<times> int) \<times> pseudosettle" where
  "pse_accept peer amount checkTime lastTime reply s =
     (case reply of
        Inl notFound \<Rightarrow> (Inl (PayStream notFound), s)
      | Inr ack \<Rightarrow>
          (case check_ack amount checkTime lastTime ack of
             Inl err \<Rightarrow> (Inl err, s)
           | Inr (acceptedAmount, allegedInterval) \<Rightarrow>
               let lastTime = \<lparr>lp_Timestamp = snd ack, lp_CheckTimestamp = go_div checkTime 1000,
                               lp_Total = lp_Total lastTime + acceptedAmount\<rparr>
               in case kv_Put (totalKey peer SettlementSentPrefix) lastTime (pse_store s) of
                    Inl _ \<Rightarrow> (Inl PayStore, s)
                  | Inr store \<Rightarrow> (Inr (acceptedAmount, allegedInterval), s\<lparr>pse_store := store\<rparr>)))"

definition pse_notify ::
  "address \<Rightarrow> int \<Rightarrow> int \<Rightarrow> pay_error + int \<times> int \<Rightarrow> accounting \<Rightarrow> accounting" where
  "pse_notify peer amount checkTime r a =
     (case r of
        Inl err \<Rightarrow> NotifyRefreshmentSent peer 0 0 0 0 (Some (err = PayStream True)) a
      | Inr (acceptedAmount, allegedInterval) \<Rightarrow>
          NotifyRefreshmentSent peer amount acceptedAmount checkTime allegedInterval None a)"

definition pse_Pay ::
  "address \<Rightarrow> int \<Rightarrow> int \<Rightarrow> bool + bytes \<times> int \<Rightarrow> pseudosettle \<Rightarrow> accounting \<Rightarrow> pseudosettle \<times> accounting" where
  "pse_Pay peer amount checkTime reply s a =
     (case pse_request peer s of
        Inl err \<Rightarrow> (s, pse_notify peer amount checkTime (Inl err) a)
      | Inr lastTime \<Rightarrow>
          let (r, s) = pse_accept peer amount checkTime lastTime reply s
          in (s, pse_notify peer amount checkTime r a))"

section \<open>Totals\<close>

text \<open>A peer without a record has settled nothing; the error that says so is the one for a failing store.\<close>

definition total_of :: "pseudosettle \<Rightarrow> bytes \<Rightarrow> pse_error + int" where
  "total_of s key =
     (case last_of s key of
        Inl _ \<Rightarrow> Inl ErrPeerNoSettlements
      | Inr lastTime \<Rightarrow> Inr (lp_Total lastTime))"

definition TotalSent :: "pseudosettle \<Rightarrow> address \<Rightarrow> pse_error + int" where
  "TotalSent s peer = total_of s (totalKey peer SettlementSentPrefix)"

definition TotalReceived :: "pseudosettle \<Rightarrow> address \<Rightarrow> pse_error + int" where
  "TotalReceived s peer = total_of s (totalKey peer SettlementReceivedPrefix)"

definition collect_total ::
  "pseudosettle \<Rightarrow> bytes \<Rightarrow> bytes \<Rightarrow> last_payment \<Rightarrow> (address \<times> int) list \<Rightarrow>
   (pse_error + bool) \<times> (address \<times> int) list" where
  "collect_total s prefix key val m =
     (case totalKeyPeer key prefix of
        Inl err \<Rightarrow> (Inl err, m)
      | Inr addr \<Rightarrow>
          if map_of m addr = None then
            case kv_Get (pse_store s) (totalKey addr prefix) of
              Inl _ \<Rightarrow> (Inl PseStore, m)
            | Inr storevalue \<Rightarrow> (Inr False, AList.update addr (lp_Total storevalue) m)
          else (Inr False, m))"

definition settlements :: "pseudosettle \<Rightarrow> bytes \<Rightarrow> pse_error + (address \<times> int) list" where
  "settlements s prefix =
     (case kv_Iterate (pse_store s) prefix (collect_total s prefix) [] of
        (Some (Inl _), _) \<Rightarrow> Inl PseStore
      | (Some (Inr err), _) \<Rightarrow> Inl err
      | (None, m) \<Rightarrow> Inr m)"

definition SettlementsSent :: "pseudosettle \<Rightarrow> pse_error + (address \<times> int) list" where
  "SettlementsSent s = settlements s SettlementSentPrefix"

definition SettlementsReceived :: "pseudosettle \<Rightarrow> pse_error + (address \<times> int) list" where
  "SettlementsReceived s = settlements s SettlementReceivedPrefix"

end
