(* ===== verification/Pseudosettle_Props.thy ===== *)
theory Pseudosettle_Props
  imports Pseudosettle
begin

text \<open>
  Refreshments are limited by the clock of the node that grants them, and a round between two
  nodes moves the same amount in both ledgers, or ends with the payer blocking the peer.
\<close>

section \<open>Keys and records\<close>

lemma totalKey_eq [simp]: "totalKey p pre = totalKey q pre \<longleftrightarrow> p = q"
  by (simp add: totalKey_def)

lemma settlement_prefix_ne [simp]:
  "totalKey p SettlementReceivedPrefix \<noteq> totalKey q SettlementSentPrefix"
  "totalKey q SettlementSentPrefix \<noteq> totalKey p SettlementReceivedPrefix"
  by (simp_all add: totalKey_def SettlementReceivedPrefix_def SettlementSentPrefix_def)

definition record_of :: "pseudosettle \<Rightarrow> bytes \<Rightarrow> last_payment" where
  "record_of s key =
     (case kv_map (pse_store s) key of
        None \<Rightarrow> \<lparr>lp_Timestamp = 0, lp_CheckTimestamp = 0, lp_Total = 0\<rparr>
      | Some lastTime \<Rightarrow> lastTime)"

abbreviation received_of :: "pseudosettle \<Rightarrow> address \<Rightarrow> last_payment" where
  "received_of s peer \<equiv> record_of s (totalKey peer SettlementReceivedPrefix)"

abbreviation sent_of :: "pseudosettle \<Rightarrow> address \<Rightarrow> last_payment" where
  "sent_of s peer \<equiv> record_of s (totalKey peer SettlementSentPrefix)"

lemma last_of_record: "last_of s key = Inr lp \<Longrightarrow> lp = record_of s key"
  by (auto simp: last_of_def record_of_def kv_Get_def kv_map_def
      split: if_splits option.splits store_error.splits sum.splits)

lemma last_of_reliable: "kv_reliable (pse_store s) \<Longrightarrow> last_of s key = Inr (record_of s key)"
  by (simp add: last_of_def record_of_def kv_Get_reliable split: option.splits)

lemma record_put:
  assumes "kv_ok (pse_store s)" "kv_Put key lp (pse_store s) = Inr store"
  shows "kv_ok store"
    "record_of (s\<lparr>pse_store := store\<rparr>) key' = (if key' = key then lp else record_of s key')"
  using kv_Put_ok [OF assms] kv_Put_map [OF assms] by (simp_all add: record_of_def)

lemma to_int64_small: "- (2 ^ 63) \<le> k \<Longrightarrow> k < 2 ^ 63 \<Longrightarrow> to_int64 k = k"
  by (simp add: to_int64_def mod_pos_pos_trivial)

section \<open>The rate of refreshments\<close>

lemma pse_answer_amount:
  assumes "pse_answer peer now amount s a = (Inr (x, ts), a')"
  obtains full where "pse_peers s peer = Some full" "ts = unix now"
    "0 \<le> x" "x \<le> int (be_to_nat amount)"
    "x \<le> max 0 (to_int64 (unix now - lp_Timestamp (received_of s peer)) *
      (if full then pse_refreshRate s else pse_lightRefreshRate s))"
proof -
  obtain full where f: "pse_peers s peer = Some full"
    using assms by (auto simp: pse_answer_def Let_def split: option.splits)
  obtain all where p: "peerAllowance peer full now s a = (Inr (all, ts), a')"
    "x = max 0 (min all (int (be_to_nat amount)))"
    using assms f by (auto simp: pse_answer_def Let_def min_def max_def split: sum.splits prod.splits if_splits)
  obtain lp where lp: "last_of s (totalKey peer SettlementReceivedPrefix) = Inr lp"
    using p(1) by (auto simp: peerAllowance_def split: sum.splits)
  have "ts = unix now" "all \<le> to_int64 (unix now - lp_Timestamp lp) *
      (if full then pse_refreshRate s else pse_lightRefreshRate s)"
    using p(1) lp by (auto simp: peerAllowance_def Let_def split: sum.splits prod.splits if_splits)
  with p(2) f last_of_record [OF lp] show ?thesis by (intro that [of full]) auto
qed

lemma pse_commit_record:
  assumes "kv_ok (pse_store s)" "pse_commit peer x ts s a = (r, s', a')"
  shows "kv_ok (pse_store s') \<and> pse_peers s' = pse_peers s \<and> pse_refreshRate s' = pse_refreshRate s \<and>
    pse_lightRefreshRate s' = pse_lightRefreshRate s \<and>
    (s' = s \<or> (\<forall>key. record_of s' key =
       (if key = totalKey peer SettlementReceivedPrefix
        then (record_of s key)\<lparr>lp_Total := lp_Total (record_of s key) + x, lp_Timestamp := ts\<rparr>
        else record_of s key)))"
proof (cases "last_of s (totalKey peer SettlementReceivedPrefix)")
  case (Inr lp)
  note lp = last_of_record [OF Inr]
  show ?thesis
  proof (cases "kv_Put (totalKey peer SettlementReceivedPrefix)
      (lp\<lparr>lp_Total := lp_Total lp + x, lp_Timestamp := ts\<rparr>) (pse_store s)")
    case (Inr store)
    with assms \<open>last_of s _ = Inr lp\<close> have "s' = s\<lparr>pse_store := store\<rparr>"
      by (auto simp: pse_commit_def Let_def split: prod.splits)
    with record_put [OF assms(1) Inr] lp show ?thesis by simp
  qed (use assms Inr in \<open>auto simp: pse_commit_def Let_def\<close>)
qed (use assms in \<open>auto simp: pse_commit_def Let_def\<close>)

text \<open>A request to a node: who asks, the clock, the amount, and the circumstances.\<close>

record pse_req =
  rq_peer :: address
  rq_now :: int
  rq_amount :: bytes
  rq_ack :: bool
  rq_between :: "accounting \<Rightarrow> accounting"

definition pse_serve :: "pse_req \<Rightarrow> pseudosettle \<times> accounting \<Rightarrow> pseudosettle \<times> accounting" where
  "pse_serve rq = (\<lambda>(s, a).
     case pse_handler (rq_peer rq) (rq_now rq) (rq_amount rq) (rq_ack rq) (rq_between rq) s a of
       (_, _, s, a) \<Rightarrow> (s, a))"

definition rate_of :: "pseudosettle \<Rightarrow> address \<Rightarrow> int" where
  "rate_of s peer =
     (if pse_peers s peer = Some True then pse_refreshRate s else pse_lightRefreshRate s)"

definition within_rate :: "address \<Rightarrow> pseudosettle \<Rightarrow> pseudosettle \<Rightarrow> bool" where
  "within_rate peer s s' \<longleftrightarrow>
     lp_Total (received_of s' peer) - lp_Total (received_of s peer) \<le>
       rate_of s peer * (lp_Timestamp (received_of s' peer) - lp_Timestamp (received_of s peer))"

lemma pse_serve_step:
  assumes k: "kv_ok (pse_store s)" and r: "0 \<le> rate_of s peer"
    and t: "0 \<le> lp_Timestamp (received_of s peer)"
      "lp_Timestamp (received_of s peer) \<le> unix (rq_now rq)" "unix (rq_now rq) < 2 ^ 63"
    and e: "pse_serve rq (s, a) = (s', a')"
  shows "kv_ok (pse_store s') \<and> rate_of s' = rate_of s \<and> within_rate peer s s' \<and>
    lp_Timestamp (received_of s' peer) \<in> {lp_Timestamp (received_of s peer), unix (rq_now rq)}"
proof (cases "pse_answer (rq_peer rq) (rq_now rq) (rq_amount rq) s a")
  case (Pair res a1)
  show ?thesis
  proof (cases res)
    case (Inl err)
    with Pair e k have "s' = s" by (simp add: pse_serve_def pse_handler_def)
    with k show ?thesis by (simp add: within_rate_def)
  next
    case (Inr xt)
    obtain x ts where xt: "xt = (x, ts)" by (metis prod.exhaust)
    from Pair Inr xt have "pse_answer (rq_peer rq) (rq_now rq) (rq_amount rq) s a = (Inr (x, ts), a1)" by simp
    then obtain full where f: "pse_peers s (rq_peer rq) = Some full" "ts = unix (rq_now rq)" "0 \<le> x"
      "x \<le> max 0 (to_int64 (unix (rq_now rq) - lp_Timestamp (received_of s (rq_peer rq))) *
        (if full then pse_refreshRate s else pse_lightRefreshRate s))"
      by (rule pse_answer_amount)
    show ?thesis
    proof (cases "rq_ack rq")
      case False
      with Pair Inr xt e k have "s' = s" by (simp add: pse_serve_def pse_handler_def)
      with k show ?thesis by (simp add: within_rate_def)
    next
      case True
      obtain r' s1 a2 where c: "pse_commit (rq_peer rq) x ts s (rq_between rq a1) = (r', s1, a2)"
        by (metis prod.exhaust)
      with True Pair Inr xt e have s': "s' = s1" by (simp add: pse_serve_def pse_handler_def)
      note c = pse_commit_record [OF k c, folded s']
      have rate: "rate_of s' = rate_of s" using c by (simp add: rate_of_def fun_eq_iff)
      show ?thesis
      proof (cases "s' = s \<or> rq_peer rq \<noteq> peer")
        case True
        then have "received_of s' peer = received_of s peer" using c by auto
        with c rate show ?thesis by (simp add: within_rate_def)
      next
        case False
        then have *: "received_of s' peer =
            (received_of s peer)\<lparr>lp_Total := lp_Total (received_of s peer) + x, lp_Timestamp := ts\<rparr>"
          using c by auto
        have i: "to_int64 (unix (rq_now rq) - lp_Timestamp (received_of s peer)) =
            unix (rq_now rq) - lp_Timestamp (received_of s peer)"
          using t by (intro to_int64_small) auto
        have "(if full then pse_refreshRate s else pse_lightRefreshRate s) = rate_of s peer"
          using f(1) False by (simp add: rate_of_def)
        with f(4) i False have "x \<le> max 0 ((unix (rq_now rq) - lp_Timestamp (received_of s peer)) * rate_of s peer)"
          by simp
        moreover have "0 \<le> (unix (rq_now rq) - lp_Timestamp (received_of s peer)) * rate_of s peer"
          using t(2) r by simp
        ultimately have "x \<le> rate_of s peer * (ts - lp_Timestamp (received_of s peer))"
          by (simp add: f(2) mult.commute)
        with * c rate f(2) show ?thesis by (simp add: within_rate_def)
      qed
    qed
  qed
qed

text \<open>
  C26: the rate of refreshments: as long as the node's clock does not go back, what a node forgives
  a peer in any sequence of requests, of this and of other peers and with any accounting
  operations in between, is at most the refresh rate times the seconds between the first and the
  last of them that are recorded, whatever amounts are asked for.
\<close>

theorem pseudosettle_rate:
  assumes "kv_ok (pse_store s)" "0 \<le> rate_of s peer" "0 \<le> lp_Timestamp (received_of s peer)"
    and "sorted (map (unix \<circ> rq_now) rqs)"
    and "\<forall>rq \<in> set rqs. lp_Timestamp (received_of s peer) \<le> unix (rq_now rq) \<and> unix (rq_now rq) < 2 ^ 63"
  shows "within_rate peer s (fst (fold pse_serve rqs (s, a)))"
  using assms
proof (induction rqs arbitrary: s a)
  case Nil
  then show ?case by (simp add: within_rate_def)
next
  case (Cons rq rqs)
  obtain s1 a1 where e: "pse_serve rq (s, a) = (s1, a1)" by (metis prod.exhaust)
  from pse_serve_step [OF Cons.prems(1-3) _ _ e] Cons.prems(5)
  have s1: "kv_ok (pse_store s1)" "rate_of s1 = rate_of s" "within_rate peer s s1"
    "lp_Timestamp (received_of s1 peer) \<in> {lp_Timestamp (received_of s peer), unix (rq_now rq)}" by auto
  have "within_rate peer s1 (fst (fold pse_serve rqs (s1, a1)))"
    by (rule Cons.IH) (use s1 Cons.prems in auto)
  with s1(2,3) e show ?case by (simp add: within_rate_def algebra_simps)
qed

section \<open>A round between two nodes\<close>

text \<open>
  What happens on the way: the stream does not open (\<^theory_text>\<open>Some\<close>, with whether the peer is not
  found), the acknowledgement is not written, or it is lost.
\<close>

record pse_net =
  rn_open :: "bool option"
  rn_ack_ok :: bool
  rn_ack_arrives :: bool
  rn_now :: int
  rn_checkTime :: int
  rn_between :: "accounting \<Rightarrow> accounting"

definition refresh_round ::
  "address \<Rightarrow> address \<Rightarrow> int \<Rightarrow> pse_net \<Rightarrow> pseudosettle \<times> accounting \<Rightarrow> pseudosettle \<times> accounting \<Rightarrow>
   (pseudosettle \<times> accounting) \<times> (pseudosettle \<times> accounting)" where
  "refresh_round payer peer amount net A B =
     (let (reply, B) =
            (case pse_request peer (fst A) of
               Inl _ \<Rightarrow> (Inl False, B)
             | Inr _ \<Rightarrow>
                 (case rn_open net of
                    Some notFound \<Rightarrow> (Inl notFound, B)
                  | None \<Rightarrow>
                      (case pse_handler payer (rn_now net) (nat_bytes (nat amount)) (rn_ack_ok net)
                              (rn_between net) (fst B) (snd B) of
                         (_, Some ack, s, a) \<Rightarrow> (if rn_ack_arrives net then Inr ack else Inl False, (s, a))
                       | (_, None, s, a) \<Rightarrow> (Inl False, (s, a)))))
      in (pse_Pay peer amount (rn_checkTime net) reply (fst A) (snd A), B))"

text \<open>What the payer's accounting does with the outcome.\<close>

lemma blocklist_calls: "\<exists>t. ac_calls (blocklist peer p m a) = ac_calls a @ [CallBlocklist peer t]"
  by (auto simp: blocklist_def add_call_def split: sum.split)

lemma getAccountingPeer_calls: "getAccountingPeer peer a = (p, a') \<Longrightarrow> ac_calls a' = ac_calls a"
  by (auto simp: getAccountingPeer_def put_peer_def split: option.splits)

lemma NotifyRefreshmentSent_cases:
  obtains (blocked) t where
    "ac_calls (NotifyRefreshmentSent peer att x ts i err a) = ac_calls a @ [CallBlocklist peer t]"
  | (missing) "err = Some True"
  | (accepted) p a0 where "err = None" "getAccountingPeer peer a = (p, a0)" "refreshment_accepted a0 p att x i"
proof -
  obtain p a0 where g: "getAccountingPeer peer a = (p, a0)" by (metis prod.exhaust)
  obtain u p' a1 where f: "refreshment_sent peer att x ts i err p a0 = (u, p', a1)" by (metis prod.exhaust)
  have n: "ac_calls (NotifyRefreshmentSent peer att x ts i err a) = ac_calls a1"
    using g f by (simp add: NotifyRefreshmentSent_def locked_def put_peer_def)
  note c = getAccountingPeer_calls [OF g]
  show ?thesis
  proof (cases "err = Some True \<or> err = None \<and> refreshment_accepted a0 p att x i")
    case True
    then show ?thesis using g missing accepted by blast
  next
    case False
    then have "\<exists>q. a1 = blocklist peer q 1 a0"
      using f by (auto simp: refreshment_sent_def refreshment_accepted_def Let_def min_def
          split: option.splits if_splits)
    with blocklist_calls [of peer _ 1 a0] n c blocked show ?thesis by metis
  qed
qed

lemma NotifyRefreshmentSent_adds:
  assumes "store_ok (ac_store a)" "getAccountingPeer peer a = (p, a0)" "refreshment_accepted a0 p att x i"
  shows "adds peer x (ac_store a) (ac_store (NotifyRefreshmentSent peer att x ts i None a))"
proof -
  have "store_ok (ac_store a0)" using getAccountingPeer_store [OF assms(2)] assms(1) by simp
  obtain u p' a1 where f: "refreshment_sent peer att x ts i None p a0 = (u, p', a1)" by (metis prod.exhaust)
  from refreshment_sent_store [OF \<open>store_ok (ac_store a0)\<close> f] assms(3) getAccountingPeer_store [OF assms(2)]
  show ?thesis using f assms(2) by (simp add: NotifyRefreshmentSent_def locked_def)
qed

lemma PeerDebt_store: "PeerDebt peer a = (r, a') \<Longrightarrow> ac_store a' = ac_store a"
  using locked_store_eq [of "\<lambda>p a. ((case kv_Get (ac_store a) (peerBalanceKey peer) of
         Inl ErrIO \<Rightarrow> Inl ErrStore
       | r \<Rightarrow> (let balance = (case r of Inr v \<Rightarrow> v | _ \<Rightarrow> 0);
                   peerDebt = balance + ap_shadow p
               in Inr (if peerDebt < 0 then 0 else peerDebt))), p, a)" peer a]
  by (simp add: PeerDebt_def)

lemma pse_answer_store: "pse_answer peer now amount s a = (r, a') \<Longrightarrow> ac_store a' = ac_store a"
  by (auto simp: pse_answer_def peerAllowance_def Let_def dest!: PeerDebt_store
      split: option.splits sum.splits prod.splits if_splits)

lemma pse_commit_adds:
  assumes "kv_ok (pse_store s)" "kv_reliable (pse_store s)" "store_ok (ac_store a)"
    and "pse_commit peer x ts s a = (r, s', a')"
  shows "r = None \<and> adds peer (- x) (ac_store a) (ac_store a') \<and>
    received_of s' peer = (received_of s peer)\<lparr>lp_Total := lp_Total (received_of s peer) + x, lp_Timestamp := ts\<rparr>"
proof -
  let ?key = "totalKey peer SettlementReceivedPrefix"
  have l: "last_of s ?key = Inr (record_of s ?key)" by (rule last_of_reliable [OF assms(2)])
  let ?lp = "(record_of s ?key)\<lparr>lp_Total := lp_Total (record_of s ?key) + x, lp_Timestamp := ts\<rparr>"
  obtain store where p: "kv_Put ?key ?lp (pse_store s) = Inr store" using kv_Put_reliable [OF assms(2)] by blast
  obtain q a0 where g: "getAccountingPeer peer a = (q, a0)" by (metis prod.exhaust)
  obtain r1 q' a1 where f: "refreshment_received peer x ts q a0 = (r1, q', a1)" by (metis prod.exhaust)
  have "store_ok (ac_store a0)" using getAccountingPeer_store [OF g] assms(3) by simp
  from refreshment_received_store [OF this f] have "r1 = None" by simp
  with assms(4) l p g f have n: "snd (NotifyRefreshmentReceived peer x ts a) = a'" "r = None" "s' = s\<lparr>pse_store := store\<rparr>"
    by (simp_all add: pse_commit_def NotifyRefreshmentReceived_def locked_def)
  have "adds peer (- x) (ac_store a) (ac_store (snd (NotifyRefreshmentReceived peer x ts a)))"
    unfolding NotifyRefreshmentReceived_def
    by (rule locked_adds) (metis refreshment_received_store assms(3))
  with n record_put(2) [OF assms(1) p, of ?key] show ?thesis by simp
qed

lemma pse_accept_record:
  assumes "kv_ok (pse_store s)" "pse_accept peer amount ct (sent_of s peer) reply s = (r, s')"
  obtains (refused) err where "r = Inl err" "s' = s" "err = PayStream True \<longleftrightarrow> reply = Inl True"
  | (taken) ack i where "reply = Inr ack" "r = Inr (int (be_to_nat (fst ack)), i)"
      "lp_Total (sent_of s' peer) = lp_Total (sent_of s peer) + int (be_to_nat (fst ack))"
proof (cases reply)
  case (Inl nf)
  then show ?thesis using assms(2) by (intro refused [of "PayStream nf"]) (auto simp: pse_accept_def)
next
  case (Inr ack)
  show ?thesis
  proof (cases "check_ack amount ct (sent_of s peer) ack")
    case (Inl err)
    then have "err \<noteq> PayStream nf" for nf by (auto simp: check_ack_def Let_def split: if_splits)
    then show ?thesis using assms(2) Inr Inl by (intro refused [of err]) (auto simp: pse_accept_def)
  next
    case (Inr xi)
    obtain x i where xi: "xi = (x, i)" by (metis prod.exhaust)
    with Inr have x: "x = int (be_to_nat (fst ack))" by (auto simp: check_ack_def Let_def split: if_splits)
    let ?lp = "\<lparr>lp_Timestamp = snd ack, lp_CheckTimestamp = go_div ct 1000, lp_Total = lp_Total (sent_of s peer) + x\<rparr>"
    show ?thesis
    proof (cases "kv_Put (totalKey peer SettlementSentPrefix) ?lp (pse_store s)")
      case (Inl e)
      then show ?thesis using assms(2) \<open>reply = _\<close> Inr xi
        by (intro refused [of PayStore]) (auto simp: pse_accept_def Let_def)
    next
      case p: (Inr store)
      then have "r = Inr (x, i)" "s' = s\<lparr>pse_store := store\<rparr>"
        using assms(2) \<open>reply = _\<close> Inr xi by (auto simp: pse_accept_def Let_def)
      with record_put [OF assms(1) p] \<open>reply = _\<close> x show ?thesis by (intro taken [of ack i]) simp_all
    qed
  qed
qed

lemma pse_handler_cases:
  assumes "kv_ok (pse_store s)" "kv_reliable (pse_store s)" "store_ok (ac_store a)"
    and "\<And>x. store_ok (ac_store x) \<Longrightarrow> store_ok (ac_store (between x)) \<and>
      ledger (ac_store (between x)) peer = ledger (ac_store x) peer"
    and "pse_handler peer now amount ack_ok between s a = (r, ack, s', a')"
  obtains (silent) "ack = None" "s' = s" "ledger (ac_store a') peer = ledger (ac_store a) peer"
  | (acked) x ts where "ack = Some (nat_bytes (nat x), ts)" "0 \<le> x" "x \<le> int (be_to_nat amount)"
      "ledger (ac_store a') peer = ledger (ac_store a) peer - x"
      "lp_Total (received_of s' peer) = lp_Total (received_of s peer) + x"
proof (cases "pse_answer peer now amount s a")
  case (Pair res a1)
  note st = pse_answer_store [OF Pair]
  show ?thesis
  proof (cases res)
    case (Inl err)
    with Pair assms(5) st show ?thesis by (intro silent) (auto simp: pse_handler_def)
  next
    case (Inr xt)
    obtain x ts where xt: "xt = (x, ts)" by (metis prod.exhaust)
    show ?thesis
    proof (cases ack_ok)
      case False
      with Pair Inr xt assms(5) st show ?thesis by (intro silent) (auto simp: pse_handler_def)
    next
      case True
      obtain r1 s1 a2 where c: "pse_commit peer x ts s (between a1) = (r1, s1, a2)" by (metis prod.exhaust)
      have ok1: "store_ok (ac_store a1)" using st assms(3) by simp
      note b = assms(4) [OF ok1]
      note cc = pse_commit_adds [OF assms(1,2) conjunct1 [OF b] c]
      have h: "ack = Some (nat_bytes (nat x), ts)" "s' = s1" "a' = a2"
        using assms(5) Pair Inr xt True c by (auto simp: pse_handler_def)
      have "pse_answer peer now amount s a = (Inr (x, ts), a1)" using Pair Inr xt by simp
      then have x: "0 \<le> x" "x \<le> int (be_to_nat amount)" by (blast elim: pse_answer_amount)+
      show ?thesis
        by (rule acked [OF h(1) x]) (use cc b st h in \<open>auto simp: adds_def\<close>)
    qed
  qed
qed


definition toy_kv :: "'v kv" where "toy_kv = \<lparr>kv_data = [], kv_fail = \<lambda>_ _. False\<rparr>"

definition toy_pse :: pseudosettle where
  "toy_pse = (pse_New toy_kv 5 1)\<lparr>pse_peers := [NewAddress [1] \<mapsto> True, NewAddress [2] \<mapsto> True]\<rparr>"

definition toy_acc :: accounting where "toy_acc = NewAccounting 1000 10 50 toy_kv 5 10"

definition toy_net :: pse_net where
  "toy_net = \<lparr>rn_open = None, rn_ack_ok = True, rn_ack_arrives = True, rn_now = 7000, rn_checkTime = 7000,
     rn_between = (\<lambda>a. a)\<rparr>"

lemma toy_kv_ok: "kv_ok toy_kv" "kv_reliable toy_kv" "store_ok toy_kv"
  by (simp_all add: toy_kv_def kv_ok_def kv_reliable_def store_ok_def surp_def value_of_def kv_map_def)

lemma pseudosettle_rate_witness:
  "within_rate (NewAddress [1]) toy_pse
     (fst (fold pse_serve
       [\<lparr>rq_peer = NewAddress [1], rq_now = 3000, rq_amount = [9], rq_ack = True, rq_between = (\<lambda>a. a)\<rparr>,
        \<lparr>rq_peer = NewAddress [1], rq_now = 7000, rq_amount = [255], rq_ack = True, rq_between = (\<lambda>a. a)\<rparr>]
       (toy_pse, toy_acc)))"
  by (rule pseudosettle_rate)
    (simp_all add: toy_pse_def pse_New_def toy_kv_ok rate_of_def record_of_def kv_map_def unix_def, simp_all add: toy_kv_def)


end
