(* ===== verification/Chequebook.thy ===== *)
theory Chequebook
  imports State_Store
begin

text \<open>
  \<open>pkg/settlement/swap/chequebook\<close>: the cheques a node issues and receives. The chequebook
  contract on the chain, the signer and the transport are parameters: a field of a
  \<^theory_text>\<open>contract_view\<close> is the answer to a call of its own, \<^theory_text>\<open>None\<close> when the call fails; the chain may
  move on between two calls, so the fields need not be of one moment. Ethereum
  addresses and hashes are byte strings. Each value type has a store of its own; their keys in
  the one state store of the node have different prefixes.
\<close>

section \<open>Cheques (cheque.go)\<close>

record cheque =
  cq_Chequebook :: bytes
  cq_Beneficiary :: bytes
  cq_CumulativePayout :: int

record signed_cheque =
  sc_Cheque :: cheque
  sc_Signature :: bytes

definition cheque_Equal :: "cheque \<Rightarrow> cheque \<Rightarrow> bool" where
  "cheque_Equal cheque other =
     (if cq_Beneficiary cheque \<noteq> cq_Beneficiary other then False
      else if cq_CumulativePayout cheque \<noteq> cq_CumulativePayout other then False
      else cq_Chequebook cheque = cq_Chequebook other)"

definition signed_cheque_Equal :: "signed_cheque \<Rightarrow> signed_cheque \<Rightarrow> bool" where
  "signed_cheque_Equal cheque other =
     (if sc_Signature cheque \<noteq> sc_Signature other then False
      else cheque_Equal (sc_Cheque cheque) (sc_Cheque other))"

text \<open>What the contract of a chequebook answers, and the factory about it (contract.go, factory.go).\<close>

record contract_view =
  cv_Balance :: "int option"
  cv_TotalPaidOut :: "int option"
  cv_PaidOut :: "bytes \<Rightarrow> int option"
  cv_Issuer :: "bytes option"
  cv_Verified :: bool

section \<open>Issuing (chequebook.go)\<close>

datatype cb_error =
    ErrOutOfFunds
  | ErrInsufficientFunds
  | ErrNoCheque
  | ErrChequeNotIncreasing
  | ErrChequeInvalid
  | ErrWrongBeneficiary
  | ErrBouncingCheque
  | ErrChequeValueTooLow
  | ErrNoCashout
  | ErrTransactionReverted
  | CbStore
  | CbChain
  | CbSign
  | CbSend
  | CbFactory
  | CbKey

record chequebook =
  cb_address :: bytes
  cb_cheques :: "signed_cheque kv"
  cb_total :: "int kv"
  cb_reserved :: int

definition lastIssuedChequeKeyPrefix :: bytes where
  "lastIssuedChequeKeyPrefix = str_bytes ''swap_chequebook_last_issued_cheque_''"

definition totalIssuedKey :: bytes where
  "totalIssuedKey = str_bytes ''swap_chequebook_total_issued_''"

definition lastIssuedChequeKey :: "bytes \<Rightarrow> bytes" where
  "lastIssuedChequeKey beneficiary = lastIssuedChequeKeyPrefix @ hex_encode beneficiary"

definition cb_New :: "bytes \<Rightarrow> signed_cheque kv \<Rightarrow> int kv \<Rightarrow> chequebook" where
  "cb_New address cheques totals =
     \<lparr>cb_address = address, cb_cheques = cheques, cb_total = totals, cb_reserved = 0\<rparr>"

text \<open>Depositing and withdrawing return the hash of the transaction that was sent.\<close>

definition cb_Deposit :: "int option \<Rightarrow> bytes option \<Rightarrow> int \<Rightarrow> cb_error + bytes" where
  "cb_Deposit balance transfer amount =
     (case balance of
        None \<Rightarrow> Inl CbChain
      | Some balance \<Rightarrow>
          if balance < amount then Inl ErrInsufficientFunds
          else case transfer of None \<Rightarrow> Inl CbChain | Some h \<Rightarrow> Inr h)"

definition WaitForDeposit :: "nat option \<Rightarrow> cb_error option" where
  "WaitForDeposit receipt =
     (case receipt of
        None \<Rightarrow> Some CbChain
      | Some status \<Rightarrow> if status \<noteq> 1 then Some ErrTransactionReverted else None)"

definition totalIssued :: "chequebook \<Rightarrow> cb_error + int" where
  "totalIssued s =
     (case kv_Get (cb_total s) totalIssuedKey of
        Inl ErrNotFound \<Rightarrow> Inr 0
      | Inl ErrIO \<Rightarrow> Inl CbStore
      | Inr t \<Rightarrow> Inr t)"

definition AvailableBalance :: "contract_view \<Rightarrow> chequebook \<Rightarrow> cb_error + int" where
  "AvailableBalance c s =
     (case totalIssued s of
        Inl err \<Rightarrow> Inl err
      | Inr issued \<Rightarrow>
          (case cv_Balance c of
             None \<Rightarrow> Inl CbChain
           | Some balance \<Rightarrow>
               (case cv_TotalPaidOut c of
                  None \<Rightarrow> Inl CbChain
                | Some totalPaidOut \<Rightarrow> Inr (balance + totalPaidOut - issued))))"

definition cb_Withdraw :: "contract_view \<Rightarrow> bytes option \<Rightarrow> int \<Rightarrow> chequebook \<Rightarrow> cb_error + bytes" where
  "cb_Withdraw c send amount s =
     (case AvailableBalance c s of
        Inl err \<Rightarrow> Inl err
      | Inr availableBalance \<Rightarrow>
          if availableBalance < amount then Inl ErrInsufficientFunds
          else case send of None \<Rightarrow> Inl CbChain | Some h \<Rightarrow> Inr h)"

definition cb_LastCheque :: "bytes \<Rightarrow> chequebook \<Rightarrow> cb_error + signed_cheque" where
  "cb_LastCheque beneficiary s =
     (case kv_Get (cb_cheques s) (lastIssuedChequeKey beneficiary) of
        Inl ErrNotFound \<Rightarrow> Inl ErrNoCheque
      | Inl ErrIO \<Rightarrow> Inl CbStore
      | Inr lastCheque \<Rightarrow> Inr lastCheque)"

text \<open>
  \<open>Issue\<close> holds its lock only while it reserves the amount, adds to the total, and gives the
  reservation back; it is made of these parts, between which other calls may run.
\<close>

definition reserveTotalIssued :: "contract_view \<Rightarrow> int \<Rightarrow> chequebook \<Rightarrow> (cb_error + int) \<times> chequebook" where
  "reserveTotalIssued c amount s =
     (case AvailableBalance c s of
        Inl err \<Rightarrow> (Inl err, s)
      | Inr availableBalance \<Rightarrow>
          if amount > availableBalance - cb_reserved s then (Inl ErrOutOfFunds, s)
          else (Inr (availableBalance - amount), s\<lparr>cb_reserved := cb_reserved s + amount\<rparr>))"

definition unreserveTotalIssued :: "int \<Rightarrow> chequebook \<Rightarrow> chequebook" where
  "unreserveTotalIssued amount s = s\<lparr>cb_reserved := cb_reserved s - amount\<rparr>"

definition issue_cheque :: "bytes \<Rightarrow> int \<Rightarrow> chequebook \<Rightarrow> cb_error + cheque" where
  "issue_cheque beneficiary amount s =
     (let new = (\<lambda>cumulativePayout. \<lparr>cq_Chequebook = cb_address s, cq_Beneficiary = beneficiary,
                                      cq_CumulativePayout = cumulativePayout + amount\<rparr>)
      in case cb_LastCheque beneficiary s of
           Inl err \<Rightarrow> if err \<noteq> ErrNoCheque then Inl err else Inr (new 0)
         | Inr lastCheque \<Rightarrow> Inr (new (cq_CumulativePayout (sc_Cheque lastCheque))))"

text \<open>The cheque is saved without its signature.\<close>

definition issue_save :: "cheque \<Rightarrow> chequebook \<Rightarrow> cb_error option \<times> chequebook" where
  "issue_save cheque s =
     (case kv_Put (lastIssuedChequeKey (cq_Beneficiary cheque)) \<lparr>sc_Cheque = cheque, sc_Signature = []\<rparr>
             (cb_cheques s) of
        Inl _ \<Rightarrow> (Some CbStore, s)
      | Inr store \<Rightarrow> (None, s\<lparr>cb_cheques := store\<rparr>))"

definition issue_count :: "int \<Rightarrow> chequebook \<Rightarrow> cb_error option \<times> chequebook" where
  "issue_count amount s =
     (case totalIssued s of
        Inl err \<Rightarrow> (Some err, s)
      | Inr t \<Rightarrow>
          (case kv_Put totalIssuedKey (t + amount) (cb_total s) of
             Inl _ \<Rightarrow> (Some CbStore, s)
           | Inr store \<Rightarrow> (None, s\<lparr>cb_total := store\<rparr>)))"

text \<open>The call as a whole; \<open>send\<close> is whether the transport accepts the signed cheque.\<close>

definition cb_Issue ::
  "(cheque \<Rightarrow> bytes option) \<Rightarrow> contract_view \<Rightarrow> bytes \<Rightarrow> int \<Rightarrow> (signed_cheque \<Rightarrow> bool) \<Rightarrow> chequebook \<Rightarrow>
   (cb_error + int) \<times> signed_cheque option \<times> chequebook" where
  "cb_Issue sign c beneficiary amount send s =
     (case reserveTotalIssued c amount s of
        (Inl err, s) \<Rightarrow> (Inl err, None, s)
      | (Inr availableBalance, s) \<Rightarrow>
          let fin = (\<lambda>r sent s. (r, sent, unreserveTotalIssued amount s))
          in case issue_cheque beneficiary amount s of
               Inl err \<Rightarrow> fin (Inl err) None s
             | Inr cheque \<Rightarrow>
                 (case sign cheque of
                    None \<Rightarrow> fin (Inl CbSign) None s
                  | Some sig \<Rightarrow>
                      let signed = \<lparr>sc_Cheque = cheque, sc_Signature = sig\<rparr>
                      in if \<not> send signed then fin (Inl CbSend) None s
                         else
                           (case issue_save cheque s of
                              (Some err, s) \<Rightarrow> fin (Inl err) (Some signed) s
                            | (None, s) \<Rightarrow>
                                (case issue_count amount s of
                                   (Some err, s) \<Rightarrow> fin (Inl err) (Some signed) s
                                 | (None, s) \<Rightarrow> fin (Inr availableBalance) (Some signed) s))))"

text \<open>
  Addresses in keys are parsed with \<open>common.HexToAddress\<close>, the parameter \<open>hexToAddress\<close>. The two
  services have the same callback up to the prefix and what a missing cheque means.
\<close>

definition keyBeneficiary :: "(bytes \<Rightarrow> bytes) \<Rightarrow> bytes \<Rightarrow> bytes \<Rightarrow> cb_error + bytes" where
  "keyBeneficiary hexToAddress key prefix =
     (let split = split_after prefix key in
      if length split \<noteq> 2 then Inl CbKey else Inr (hexToAddress (split ! 1)))"

definition collect_cheque ::
  "(bytes \<Rightarrow> bytes) \<Rightarrow> bytes \<Rightarrow> bool \<Rightarrow> (bytes \<Rightarrow> cb_error + signed_cheque) \<Rightarrow> bytes \<Rightarrow> signed_cheque \<Rightarrow>
   (bytes \<times> signed_cheque) list \<Rightarrow> (cb_error + bool) \<times> (bytes \<times> signed_cheque) list" where
  "collect_cheque hexToAddress prefix skip_missing lastCheque key val m =
     (case keyBeneficiary hexToAddress key prefix of
        Inl err \<Rightarrow> (Inl err, m)
      | Inr addr \<Rightarrow>
          if map_of m addr \<noteq> None then (Inr False, m)
          else case lastCheque addr of
                 Inl err \<Rightarrow> if skip_missing \<and> err = ErrNoCheque then (Inr False, m) else (Inl err, m)
               | Inr cheque \<Rightarrow> (Inr False, m @ [(addr, cheque)]))"

definition collect_result :: "(store_error + cb_error) option \<times> 'm \<Rightarrow> cb_error + 'm" where
  "collect_result r =
     (case r of
        (Some (Inl _), _) \<Rightarrow> Inl CbStore
      | (Some (Inr err), _) \<Rightarrow> Inl err
      | (None, m) \<Rightarrow> Inr m)"

definition cb_LastCheques :: "(bytes \<Rightarrow> bytes) \<Rightarrow> chequebook \<Rightarrow> cb_error + (bytes \<times> signed_cheque) list" where
  "cb_LastCheques hexToAddress s =
     collect_result (kv_Iterate (cb_cheques s) lastIssuedChequeKeyPrefix
       (collect_cheque hexToAddress lastIssuedChequeKeyPrefix False (\<lambda>addr. cb_LastCheque addr s)) [])"

section \<open>Receiving (chequestore.go)\<close>

record cheque_store =
  cs_store :: "signed_cheque kv"
  cs_beneficiary :: bytes

definition lastReceivedChequePrefix :: bytes where
  "lastReceivedChequePrefix = str_bytes ''swap_chequebook_last_received_cheque_''"

definition lastReceivedChequeKey :: "bytes \<Rightarrow> bytes" where
  "lastReceivedChequeKey chequebook = lastReceivedChequePrefix @ str_bytes ''_'' @ hex_encode chequebook"

definition cs_LastCheque :: "bytes \<Rightarrow> cheque_store \<Rightarrow> cb_error + signed_cheque" where
  "cs_LastCheque chequebook s =
     (case kv_Get (cs_store s) (lastReceivedChequeKey chequebook) of
        Inl ErrNotFound \<Rightarrow> Inl ErrNoCheque
      | Inl ErrIO \<Rightarrow> Inl CbStore
      | Inr cheque \<Rightarrow> Inr cheque)"

text \<open>The checks of a cheque, in the code's order; the result is the increase.\<close>

definition check_cheque ::
  "(signed_cheque \<Rightarrow> bytes option) \<Rightarrow> contract_view \<Rightarrow> signed_cheque \<Rightarrow> int \<Rightarrow> int \<Rightarrow> cheque_store \<Rightarrow> cb_error + int" where
  "check_cheque recover c cheque exchangeRate deduction s =
     (let payout = cq_CumulativePayout (sc_Cheque cheque) in
      if cq_Beneficiary (sc_Cheque cheque) \<noteq> cs_beneficiary s then Inl ErrWrongBeneficiary
      else
        let lastCumulativePayout =
              (case kv_Get (cs_store s) (lastReceivedChequeKey (cq_Chequebook (sc_Cheque cheque))) of
                 Inl ErrNotFound \<Rightarrow> if \<not> cv_Verified c then Inl CbFactory else Inr 0
               | Inl ErrIO \<Rightarrow> Inl CbStore
               | Inr lastReceivedCheque \<Rightarrow> Inr (cq_CumulativePayout (sc_Cheque lastReceivedCheque)))
        in case lastCumulativePayout of
             Inl err \<Rightarrow> Inl err
           | Inr lastCumulativePayout \<Rightarrow>
               let amount = payout - lastCumulativePayout in
               if amount \<le> 0 then Inl ErrChequeNotIncreasing
               else if amount - deduction < exchangeRate then Inl ErrChequeValueTooLow
               else
                 (case cv_Issuer c of
                    None \<Rightarrow> Inl CbChain
                  | Some expectedIssuer \<Rightarrow>
                      (case recover cheque of
                         None \<Rightarrow> Inl CbSign
                       | Some issuer \<Rightarrow>
                           if issuer \<noteq> expectedIssuer then Inl ErrChequeInvalid
                           else
                             (case (cv_Balance c, cv_PaidOut c (cs_beneficiary s)) of
                                (Some balance, Some alreadyPaidOut) \<Rightarrow>
                                  if balance < payout - alreadyPaidOut then Inl ErrBouncingCheque
                                  else Inr amount
                              | _ \<Rightarrow> Inl CbChain))))"

definition cs_ReceiveCheque ::
  "(signed_cheque \<Rightarrow> bytes option) \<Rightarrow> contract_view \<Rightarrow> signed_cheque \<Rightarrow> int \<Rightarrow> int \<Rightarrow> cheque_store \<Rightarrow>
   (cb_error + int) \<times> cheque_store" where
  "cs_ReceiveCheque recover c cheque exchangeRate deduction s =
     (case check_cheque recover c cheque exchangeRate deduction s of
        Inl err \<Rightarrow> (Inl err, s)
      | Inr amount \<Rightarrow>
          (case kv_Put (lastReceivedChequeKey (cq_Chequebook (sc_Cheque cheque))) cheque (cs_store s) of
             Inl _ \<Rightarrow> (Inl CbStore, s)
           | Inr store \<Rightarrow> (Inr amount, s\<lparr>cs_store := store\<rparr>)))"

definition cs_LastCheques :: "(bytes \<Rightarrow> bytes) \<Rightarrow> cheque_store \<Rightarrow> cb_error + (bytes \<times> signed_cheque) list" where
  "cs_LastCheques hexToAddress s =
     collect_result (kv_Iterate (cs_store s) lastReceivedChequePrefix
       (collect_cheque hexToAddress (lastReceivedChequePrefix @ str_bytes ''_'') True
          (\<lambda>addr. cs_LastCheque addr s)) [])"

section \<open>Cashing out (cashout.go)\<close>

record cash_result =
  cr_TotalPayout :: int
  cr_CumulativePayout :: int
  cr_Bounced :: bool

record cashout_action =
  co_TxHash :: bytes
  co_Cheque :: signed_cheque

record last_cashout =
  lc_TxHash :: bytes
  lc_Cheque :: signed_cheque
  lc_Result :: "cash_result option"
  lc_Reverted :: bool

record cashout_status =
  st_Last :: "last_cashout option"
  st_UncashedAmount :: int

definition cashoutActionKey :: "bytes \<Rightarrow> bytes" where
  "cashoutActionKey chequebook = str_bytes ''swap_cashout_'' @ hex_encode chequebook"

text \<open>\<open>send\<close> is the hash of the transaction, \<^theory_text>\<open>None\<close> when it is not accepted.\<close>

definition co_CashCheque ::
  "(signed_cheque \<Rightarrow> bytes option) \<Rightarrow> bytes \<Rightarrow> cheque_store \<Rightarrow> cashout_action kv \<Rightarrow>
   (cb_error + bytes) \<times> cashout_action kv" where
  "co_CashCheque send chequebook cs store =
     (case cs_LastCheque chequebook cs of
        Inl err \<Rightarrow> (Inl err, store)
      | Inr cheque \<Rightarrow>
          (case send cheque of
             None \<Rightarrow> (Inl CbChain, store)
           | Some txHash \<Rightarrow>
               (case kv_Put (cashoutActionKey chequebook) \<lparr>co_TxHash = txHash, co_Cheque = cheque\<rparr> store of
                  Inl _ \<Rightarrow> (Inl CbStore, store)
                | Inr store \<Rightarrow> (Inr txHash, store))))"

text \<open>What the chain knows of a transaction.\<close>

datatype tx_state =
    TxError
  | TxUnknown
  | TxPending
  | TxNoReceipt
  | TxFailed
  | TxMined "cash_result option"

definition co_CashoutStatus ::
  "(bytes \<Rightarrow> tx_state) \<Rightarrow> contract_view \<Rightarrow> bytes \<Rightarrow> cheque_store \<Rightarrow> cashout_action kv \<Rightarrow> cb_error + cashout_status" where
  "co_CashoutStatus tx c chequebook cs store =
     (case cs_LastCheque chequebook cs of
        Inl err \<Rightarrow> Inl err
      | Inr cheque \<Rightarrow>
          let payout = cq_CumulativePayout (sc_Cheque cheque) in
          (case kv_Get store (cashoutActionKey chequebook) of
             Inl ErrNotFound \<Rightarrow> Inr \<lparr>st_Last = None, st_UncashedAmount = payout\<rparr>
           | Inl ErrIO \<Rightarrow> Inl CbStore
           | Inr action \<Rightarrow>
               let status = (\<lambda>result reverted uncashed.
                     Inr \<lparr>st_Last = Some \<lparr>lc_TxHash = co_TxHash action, lc_Cheque = co_Cheque action,
                                          lc_Result = result, lc_Reverted = reverted\<rparr>,
                          st_UncashedAmount = uncashed\<rparr>);
                   pending = status None False (payout - cq_CumulativePayout (sc_Cheque (co_Cheque action)))
               in case tx (co_TxHash action) of
                    TxError \<Rightarrow> Inl CbChain
                  | TxUnknown \<Rightarrow> pending
                  | TxPending \<Rightarrow> pending
                  | TxNoReceipt \<Rightarrow> Inl CbChain
                  | TxFailed \<Rightarrow>
                      (case cv_PaidOut c (cq_Beneficiary (sc_Cheque cheque)) of
                         None \<Rightarrow> Inl CbChain
                       | Some paidOut \<Rightarrow> status None True (payout - paidOut))
                  | TxMined None \<Rightarrow> Inl CbChain
                  | TxMined (Some result) \<Rightarrow> status (Some result) False (payout - cr_CumulativePayout result)))"

end
