(* ===== verification/Swap.thy ===== *)
theory Swap
  imports Chequebook Accounting_Ledger
begin

text \<open>
  \<open>pkg/settlement/swap\<close>: paying debts with cheques. \<open>swap.go\<close> connects the chequebook and the
  cheques received with accounting, \<open>addressbook.go\<close> keeps which beneficiary and which chequebook
  belongs to a peer, and \<open>swapprotocol\<close> agrees on the exchange rate and carries the cheque. The
  exchange rate of the oracle, streams, the contract and signatures are parameters.
\<close>

section \<open>Address book (addressbook.go)\<close>

record addressbook =
  ab_eth :: "bytes kv"
  ab_peer :: "address kv"
  ab_flag :: "unit kv"

definition peerKey :: "address \<Rightarrow> bytes" where
  "peerKey peer = str_bytes ''swap_chequebook_peer_'' @ addr_String peer"
definition chequebookPeerKey :: "bytes \<Rightarrow> bytes" where
  "chequebookPeerKey chequebook = str_bytes ''swap_peer_chequebook_'' @ hex_encode chequebook"
definition peerBeneficiaryKey :: "address \<Rightarrow> bytes" where
  "peerBeneficiaryKey peer = str_bytes ''swap_peer_beneficiary_'' @ addr_String peer"
definition beneficiaryPeerKey :: "bytes \<Rightarrow> bytes" where
  "beneficiaryPeerKey beneficiary = str_bytes ''swap_beneficiary_peer_'' @ hex_encode beneficiary"
definition peerDeductedByKey :: "address \<Rightarrow> bytes" where
  "peerDeductedByKey peer = str_bytes ''swap_deducted_by_peer_'' @ addr_String peer"
definition peerDeductedForKey :: "address \<Rightarrow> bytes" where
  "peerDeductedForKey peer = str_bytes ''swap_deducted_for_peer_'' @ addr_String peer"

text \<open>\<^theory_text>\<open>None\<close> is a store that fails; what is not found is not an error.\<close>

definition ab_lookup :: "'v kv \<Rightarrow> bytes \<Rightarrow> 'v option option" where
  "ab_lookup s key =
     (case kv_Get s key of
        Inl ErrNotFound \<Rightarrow> Some None
      | Inl ErrIO \<Rightarrow> None
      | Inr v \<Rightarrow> Some (Some v))"

definition ab_Beneficiary :: "address \<Rightarrow> addressbook \<Rightarrow> bytes option option" where
  "ab_Beneficiary peer a = ab_lookup (ab_eth a) (peerBeneficiaryKey peer)"

definition ab_BeneficiaryPeer :: "bytes \<Rightarrow> addressbook \<Rightarrow> address option option" where
  "ab_BeneficiaryPeer beneficiary a = ab_lookup (ab_peer a) (beneficiaryPeerKey beneficiary)"

definition ab_Chequebook :: "address \<Rightarrow> addressbook \<Rightarrow> bytes option option" where
  "ab_Chequebook peer a = ab_lookup (ab_eth a) (peerKey peer)"

definition ab_ChequebookPeer :: "bytes \<Rightarrow> addressbook \<Rightarrow> address option option" where
  "ab_ChequebookPeer chequebook a = ab_lookup (ab_peer a) (chequebookPeerKey chequebook)"

text \<open>The writes return whether they succeed.\<close>

definition ab_put_eth :: "bytes \<Rightarrow> bytes \<Rightarrow> addressbook \<Rightarrow> bool \<times> addressbook" where
  "ab_put_eth key v a =
     (case kv_Put key v (ab_eth a) of Inl _ \<Rightarrow> (False, a) | Inr s \<Rightarrow> (True, a\<lparr>ab_eth := s\<rparr>))"

definition ab_put_peer :: "bytes \<Rightarrow> address \<Rightarrow> addressbook \<Rightarrow> bool \<times> addressbook" where
  "ab_put_peer key v a =
     (case kv_Put key v (ab_peer a) of Inl _ \<Rightarrow> (False, a) | Inr s \<Rightarrow> (True, a\<lparr>ab_peer := s\<rparr>))"

definition ab_put_flag :: "bytes \<Rightarrow> addressbook \<Rightarrow> bool \<times> addressbook" where
  "ab_put_flag key a =
     (case kv_Put key () (ab_flag a) of Inl _ \<Rightarrow> (False, a) | Inr s \<Rightarrow> (True, a\<lparr>ab_flag := s\<rparr>))"

definition ab_del_eth :: "bytes \<Rightarrow> addressbook \<Rightarrow> bool \<times> addressbook" where
  "ab_del_eth key a =
     (case kv_Delete key (ab_eth a) of Inl _ \<Rightarrow> (False, a) | Inr s \<Rightarrow> (True, a\<lparr>ab_eth := s\<rparr>))"

definition ab_PutBeneficiary :: "address \<Rightarrow> bytes \<Rightarrow> addressbook \<Rightarrow> bool \<times> addressbook" where
  "ab_PutBeneficiary peer beneficiary a =
     (let (ok, a) = ab_put_eth (peerBeneficiaryKey peer) beneficiary a
      in if \<not> ok then (False, a) else ab_put_peer (beneficiaryPeerKey beneficiary) peer a)"

definition ab_PutChequebook :: "address \<Rightarrow> bytes \<Rightarrow> addressbook \<Rightarrow> bool \<times> addressbook" where
  "ab_PutChequebook peer chequebook a =
     (let (ok, a) = ab_put_eth (peerKey peer) chequebook a
      in if \<not> ok then (False, a) else ab_put_peer (chequebookPeerKey chequebook) peer a)"

definition ab_AddDeductionFor :: "address \<Rightarrow> addressbook \<Rightarrow> bool \<times> addressbook" where
  "ab_AddDeductionFor peer = ab_put_flag (peerDeductedForKey peer)"

definition ab_AddDeductionBy :: "address \<Rightarrow> addressbook \<Rightarrow> bool \<times> addressbook" where
  "ab_AddDeductionBy peer = ab_put_flag (peerDeductedByKey peer)"

definition ab_GetDeductionFor :: "address \<Rightarrow> addressbook \<Rightarrow> bool option" where
  "ab_GetDeductionFor peer a =
     map_option (\<lambda>v. v \<noteq> None) (ab_lookup (ab_flag a) (peerDeductedForKey peer))"

definition ab_GetDeductionBy :: "address \<Rightarrow> addressbook \<Rightarrow> bool option" where
  "ab_GetDeductionBy peer a =
     map_option (\<lambda>v. v \<noteq> None) (ab_lookup (ab_flag a) (peerDeductedByKey peer))"

datatype swap_error =
    ErrWrongChequebook
  | ErrUnknownBeneficary
  | ErrNoChequebook
  | ErrOldBeneficiaryUnknown
  | ErrNegotiateRate
  | ErrNegotiateDeduction
  | ErrHaveDeduction
  | ErrNoExchangeHeader
  | ErrNoDeductionHeader
  | ErrSwapNoSettlements
  | SwRates
  | SwStream
  | SwMessage
  | SwStore
  | SwPanic
  | SwCheque cb_error
  | SwAccounting acc_error

definition ab_MigratePeer :: "address \<Rightarrow> address \<Rightarrow> addressbook \<Rightarrow> swap_error option \<times> addressbook" where
  "ab_MigratePeer oldPeer newPeer a =
     (case ab_Beneficiary oldPeer a of
        None \<Rightarrow> (Some SwStore, a)
      | Some None \<Rightarrow> (Some ErrOldBeneficiaryUnknown, a)
      | Some (Some ba) \<Rightarrow>
          (case ab_Chequebook oldPeer a of
             None \<Rightarrow> (Some SwStore, a)
           | Some cb \<Rightarrow>
               let (ok, a) = ab_PutBeneficiary newPeer ba a in
               if \<not> ok then (Some SwStore, a)
               else
                 let (ok, a) = ab_del_eth (peerBeneficiaryKey oldPeer) a in
                 if \<not> ok then (Some SwStore, a)
                 else
                   (case cb of
                      None \<Rightarrow> (None, a)
                    | Some cb \<Rightarrow>
                        let (ok, a) = ab_PutChequebook newPeer cb a in
                        if \<not> ok then (Some SwStore, a)
                        else
                          let (ok, a) = ab_del_eth (peerKey oldPeer) a
                          in (if \<not> ok then Some SwStore else None, a))))"

section \<open>The service (swap.go)\<close>

record swap =
  sw_book :: addressbook
  sw_chequebook :: "chequebook option"
  sw_cheques :: cheque_store
  sw_cashouts :: "cashout_action kv"

definition swap_AddDeductionFor :: "address \<Rightarrow> swap \<Rightarrow> bool \<times> swap" where
  "swap_AddDeductionFor peer s =
     (let (ok, b) = ab_AddDeductionFor peer (sw_book s) in (ok, s\<lparr>sw_book := b\<rparr>))"

definition swap_PutChequebook :: "address \<Rightarrow> bytes \<Rightarrow> swap \<Rightarrow> bool \<times> swap" where
  "swap_PutChequebook peer chequebook s =
     (let (ok, b) = ab_PutChequebook peer chequebook (sw_book s) in (ok, s\<lparr>sw_book := b\<rparr>))"

text \<open>Dividing by a rate of zero panics.\<close>

definition swap_ReceiveCheque ::
  "(signed_cheque \<Rightarrow> bytes option) \<Rightarrow> contract_view \<Rightarrow> address \<Rightarrow> signed_cheque \<Rightarrow> int \<Rightarrow> int \<Rightarrow>
   swap \<Rightarrow> accounting \<Rightarrow> swap_error option \<times> swap \<times> accounting" where
  "swap_ReceiveCheque recover c peer cheque exchangeRate deduction s a =
     (case ab_Chequebook peer (sw_book s) of
        None \<Rightarrow> (Some SwStore, s, a)
      | Some expected \<Rightarrow>
          let chequebook = cq_Chequebook (sc_Cheque cheque) in
          if expected \<noteq> None \<and> expected \<noteq> Some chequebook then (Some ErrWrongChequebook, s, a)
          else
            case cs_ReceiveCheque recover c cheque exchangeRate deduction (sw_cheques s) of
              (Inl err, cs) \<Rightarrow> (Some (SwCheque err), s\<lparr>sw_cheques := cs\<rparr>, a)
            | (Inr receivedAmount, cs) \<Rightarrow>
                let s = s\<lparr>sw_cheques := cs\<rparr>;
                    (ok, s) = (if deduction > 0 then swap_AddDeductionFor peer s else (True, s))
                in if \<not> ok then (Some SwStore, s, a)
                   else if exchangeRate = 0 then (Some SwPanic, s, a)
                   else
                     let amount = (receivedAmount - deduction) div exchangeRate;
                         (ok, s) = (if expected = None then swap_PutChequebook peer chequebook s else (True, s))
                     in if \<not> ok then (Some SwStore, s, a)
                        else
                          let (r, a) = NotifyPaymentReceived peer amount a
                          in (map_option SwAccounting r, s, a))"

definition swap_Handshake :: "address \<Rightarrow> bytes \<Rightarrow> swap \<Rightarrow> swap_error option \<times> swap" where
  "swap_Handshake peer beneficiary s =
     (let b = sw_book s in
      case ab_BeneficiaryPeer beneficiary b of
        None \<Rightarrow> (Some SwStore, s)
      | Some old \<Rightarrow>
          (case (if old \<noteq> None \<and> old \<noteq> Some peer then old else None) of
             Some oldPeer \<Rightarrow>
               let (r, b) = ab_MigratePeer oldPeer peer b in (r, s\<lparr>sw_book := b\<rparr>)
           | None \<Rightarrow>
               (case ab_Beneficiary peer b of
                  None \<Rightarrow> (Some SwStore, s)
                | Some (Some _) \<Rightarrow> (None, s)
                | Some None \<Rightarrow>
                    let (ok, b) = ab_PutBeneficiary peer beneficiary b
                    in (if ok then None else Some SwStore, s\<lparr>sw_book := b\<rparr>))))"

section \<open>The protocol (swapprotocol.go, headers, priceoracle)\<close>

type_synonym headers = "string \<Rightarrow> bytes option"

definition MakeSettlementHeaders :: "int \<Rightarrow> int \<Rightarrow> headers" where
  "MakeSettlementHeaders exchangeRate deduction =
     [''exchange'' \<mapsto> nat_bytes (nat \<bar>exchangeRate\<bar>), ''deduction'' \<mapsto> nat_bytes (nat \<bar>deduction\<bar>)]"

definition ParseExchangeHeader :: "headers \<Rightarrow> swap_error + int" where
  "ParseExchangeHeader h =
     (case h ''exchange'' of None \<Rightarrow> Inl ErrNoExchangeHeader | Some b \<Rightarrow> Inr (int (be_to_nat b)))"

definition ParseDeductionHeader :: "headers \<Rightarrow> swap_error + int" where
  "ParseDeductionHeader h =
     (case h ''deduction'' of None \<Rightarrow> Inl ErrNoDeductionHeader | Some b \<Rightarrow> Inr (int (be_to_nat b)))"

text \<open>As both sides use it: no deduction header means no deduction.\<close>

definition settlement_rates :: "headers \<Rightarrow> swap_error + int \<times> int" where
  "settlement_rates h =
     (case ParseExchangeHeader h of
        Inl err \<Rightarrow> Inl err
      | Inr exchangeRate \<Rightarrow>
          (case ParseDeductionHeader h of
             Inl err \<Rightarrow> if err \<noteq> ErrNoDeductionHeader then Inl err else Inr (exchangeRate, 0)
           | Inr deduction \<Rightarrow> Inr (exchangeRate, deduction)))"

text \<open>The oracle: the rate is zero and there is no deduction until the first poll.\<close>

definition CurrentRates :: "int \<times> int option \<Rightarrow> (int \<times> int) option" where
  "CurrentRates oracle =
     (if fst oracle = 0 then None
      else case snd oracle of None \<Rightarrow> None | Some deduction \<Rightarrow> Some (fst oracle, deduction))"

definition swap_headler :: "int \<times> int option \<Rightarrow> address \<Rightarrow> swap \<Rightarrow> headers" where
  "swap_headler oracle peer s =
     (case CurrentRates oracle of
        None \<Rightarrow> Map.empty
      | Some (exchangeRate, deduction) \<Rightarrow>
          (case ab_GetDeductionFor peer (sw_book s) of
             None \<Rightarrow> Map.empty
           | Some checkPeer \<Rightarrow> MakeSettlementHeaders exchangeRate (if checkPeer then 0 else deduction)))"

text \<open>A message: not decodable, the JSON value null, or a cheque.\<close>

datatype cheque_msg = BadMessage | NullCheque | ChequeMsg signed_cheque

definition swap_handler ::
  "(signed_cheque \<Rightarrow> bytes option) \<Rightarrow> contract_view \<Rightarrow> address \<Rightarrow> headers \<Rightarrow> cheque_msg \<Rightarrow>
   swap \<Rightarrow> accounting \<Rightarrow> swap_error option \<times> swap \<times> accounting" where
  "swap_handler recover c peer responseHeaders msg s a =
     (case settlement_rates responseHeaders of
        Inl err \<Rightarrow> (Some err, s, a)
      | Inr (exchangeRate, deduction) \<Rightarrow>
          (case msg of
             BadMessage \<Rightarrow> (Some SwMessage, s, a)
           | NullCheque \<Rightarrow> (Some (if ab_Chequebook peer (sw_book s) = None then SwStore else SwPanic), s, a)
           | ChequeMsg cheque \<Rightarrow> swap_ReceiveCheque recover c peer cheque exchangeRate deduction s a))"

definition emit_rates ::
  "int \<times> int option \<Rightarrow> address \<Rightarrow> headers \<Rightarrow> swap \<Rightarrow> swap_error + int \<times> int" where
  "emit_rates oracle peer returnedHeaders s =
     (case settlement_rates returnedHeaders of
        Inl err \<Rightarrow> Inl err
      | Inr (exchangeRate, deduction) \<Rightarrow>
          (case ab_GetDeductionBy peer (sw_book s) of
             None \<Rightarrow> Inl SwStore
           | Some checkPeer \<Rightarrow>
               if checkPeer \<and> deduction \<noteq> 0 then Inl ErrHaveDeduction
               else
                 (case CurrentRates oracle of
                    None \<Rightarrow> Inl SwRates
                  | Some (checkExchangeRate, checkDeduction) \<Rightarrow>
                      if exchangeRate \<noteq> checkExchangeRate then Inl ErrNegotiateRate
                      else if deduction \<noteq> checkDeduction \<and> deduction \<noteq> 0 then Inl ErrNegotiateDeduction
                      else Inr (exchangeRate, deduction))))"

text \<open>
  \<open>EmitCheque\<close>; no headers when the stream does not open. The second result is the cheque that
  was written to the stream.
\<close>

definition EmitCheque ::
  "(cheque \<Rightarrow> bytes option) \<Rightarrow> contract_view \<Rightarrow> int \<times> int option \<Rightarrow> address \<Rightarrow> bytes \<Rightarrow> int \<Rightarrow>
   headers option \<Rightarrow> bool \<Rightarrow> chequebook \<Rightarrow> swap \<Rightarrow> swap_error option \<times> signed_cheque option \<times> swap" where
  "EmitCheque sign c oracle peer beneficiary amount stream write_ok cb s =
     (case stream of
        None \<Rightarrow> (Some SwStream, None, s)
      | Some returnedHeaders \<Rightarrow>
          (case emit_rates oracle peer returnedHeaders s of
             Inl err \<Rightarrow> (Some err, None, s)
           | Inr (exchangeRate, deduction) \<Rightarrow>
               let sentAmount = amount * exchangeRate + deduction
               in case cb_Issue sign c beneficiary sentAmount (\<lambda>_. write_ok) cb of
                    (Inl err, sent, cb) \<Rightarrow> (Some (SwCheque err), sent, s\<lparr>sw_chequebook := Some cb\<rparr>)
                  | (Inr balance, sent, cb) \<Rightarrow>
                      let s = s\<lparr>sw_chequebook := Some cb\<rparr>;
                          (ok, b) = (if deduction \<noteq> 0 then ab_AddDeductionBy peer (sw_book s)
                                     else (True, sw_book s))
                      in (if ok then None else Some SwStore, sent, s\<lparr>sw_book := b\<rparr>)))"

definition swap_Pay ::
  "(cheque \<Rightarrow> bytes option) \<Rightarrow> contract_view \<Rightarrow> int \<times> int option \<Rightarrow> (nat \<Rightarrow> int) \<Rightarrow> address \<Rightarrow> int \<Rightarrow>
   headers option \<Rightarrow> bool \<Rightarrow> swap \<Rightarrow> accounting \<Rightarrow> signed_cheque option \<times> swap \<times> accounting" where
  "swap_Pay sign c oracle clock peer amount stream write_ok s a =
     (let failed = (\<lambda>sent s. (sent, s, NotifyPaymentSent clock peer amount True a))
      in case sw_chequebook s of
           None \<Rightarrow> failed None s
         | Some cb \<Rightarrow>
             (case ab_Beneficiary peer (sw_book s) of
                None \<Rightarrow> failed None s
              | Some None \<Rightarrow> failed None s
              | Some (Some beneficiary) \<Rightarrow>
                  (case EmitCheque sign c oracle peer beneficiary amount stream write_ok cb s of
                     (Some err, sent, s) \<Rightarrow> failed sent s
                   | (None, sent, s) \<Rightarrow> (sent, s, NotifyPaymentSent clock peer amount False a))))"

section \<open>Views\<close>

definition swap_TotalSent :: "address \<Rightarrow> swap \<Rightarrow> swap_error + int" where
  "swap_TotalSent peer s =
     (case ab_Beneficiary peer (sw_book s) of
        None \<Rightarrow> Inl SwStore
      | Some None \<Rightarrow> Inl ErrSwapNoSettlements
      | Some (Some beneficiary) \<Rightarrow>
          (case sw_chequebook s of
             None \<Rightarrow> Inr 0
           | Some cb \<Rightarrow>
               (case cb_LastCheque beneficiary cb of
                  Inl err \<Rightarrow> Inl (if err = ErrNoCheque then ErrSwapNoSettlements else SwCheque err)
                | Inr cheque \<Rightarrow> Inr (cq_CumulativePayout (sc_Cheque cheque)))))"

definition swap_TotalReceived :: "address \<Rightarrow> swap \<Rightarrow> swap_error + int" where
  "swap_TotalReceived peer s =
     (case ab_Chequebook peer (sw_book s) of
        None \<Rightarrow> Inl SwStore
      | Some None \<Rightarrow> Inl ErrSwapNoSettlements
      | Some (Some chequebook) \<Rightarrow>
          (case cs_LastCheque chequebook (sw_cheques s) of
             Inl err \<Rightarrow> Inl (if err = ErrNoCheque then ErrSwapNoSettlements else SwCheque err)
           | Inr cheque \<Rightarrow> Inr (cq_CumulativePayout (sc_Cheque cheque))))"

text \<open>Keyed by peer; an entry whose peer is not known is left out.\<close>

fun by_peer ::
  "(bytes \<Rightarrow> address option option) \<Rightarrow> (bytes \<times> signed_cheque) list \<Rightarrow> swap_error + (address \<times> int) list" where
  "by_peer peer_of [] = Inr []"
| "by_peer peer_of ((k, cheque) # cheques) =
     (case peer_of k of
        None \<Rightarrow> Inl SwStore
      | Some p \<Rightarrow>
          map_sum (\<lambda>e. e) (\<lambda>m. case p of None \<Rightarrow> m
            | Some peer \<Rightarrow> (peer, cq_CumulativePayout (sc_Cheque cheque)) # m) (by_peer peer_of cheques))"

definition swap_SettlementsSent :: "(bytes \<Rightarrow> bytes) \<Rightarrow> swap \<Rightarrow> swap_error + (address \<times> int) list" where
  "swap_SettlementsSent hexToAddress s =
     (case sw_chequebook s of
        None \<Rightarrow> Inr []
      | Some cb \<Rightarrow>
          (case cb_LastCheques hexToAddress cb of
             Inl err \<Rightarrow> Inl (SwCheque err)
           | Inr cheques \<Rightarrow> by_peer (\<lambda>b. ab_BeneficiaryPeer b (sw_book s)) cheques))"

definition swap_SettlementsReceived :: "(bytes \<Rightarrow> bytes) \<Rightarrow> swap \<Rightarrow> swap_error + (address \<times> int) list" where
  "swap_SettlementsReceived hexToAddress s =
     (case cs_LastCheques hexToAddress (sw_cheques s) of
        Inl err \<Rightarrow> Inl (SwCheque err)
      | Inr cheques \<Rightarrow> by_peer (\<lambda>b. ab_ChequebookPeer b (sw_book s)) cheques)"

definition swap_LastSentCheque :: "address \<Rightarrow> swap \<Rightarrow> swap_error + signed_cheque" where
  "swap_LastSentCheque peer s =
     (case ab_Beneficiary peer (sw_book s) of
        None \<Rightarrow> Inl SwStore
      | Some None \<Rightarrow> Inl (SwCheque ErrNoCheque)
      | Some (Some beneficiary) \<Rightarrow>
          (case sw_chequebook s of
             None \<Rightarrow> Inl ErrNoChequebook
           | Some cb \<Rightarrow> map_sum SwCheque (\<lambda>c. c) (cb_LastCheque beneficiary cb)))"

definition swap_LastReceivedCheque :: "address \<Rightarrow> swap \<Rightarrow> swap_error + signed_cheque" where
  "swap_LastReceivedCheque peer s =
     (case ab_Chequebook peer (sw_book s) of
        None \<Rightarrow> Inl SwStore
      | Some None \<Rightarrow> Inl (SwCheque ErrNoCheque)
      | Some (Some chequebook) \<Rightarrow> map_sum SwCheque (\<lambda>c. c) (cs_LastCheque chequebook (sw_cheques s)))"

definition cheques_by_peer ::
  "(bytes \<Rightarrow> address option option) \<Rightarrow> (bytes \<times> signed_cheque) list \<Rightarrow> (address \<times> signed_cheque) list" where
  "cheques_by_peer peer_of cheques =
     concat (map (\<lambda>(k, c). case peer_of k of Some (Some p) \<Rightarrow> [(p, c)] | _ \<Rightarrow> []) cheques)"

definition swap_LastSentCheques :: "(bytes \<Rightarrow> bytes) \<Rightarrow> swap \<Rightarrow> swap_error + (address \<times> signed_cheque) list" where
  "swap_LastSentCheques hexToAddress s =
     (case sw_chequebook s of
        None \<Rightarrow> Inl ErrNoChequebook
      | Some cb \<Rightarrow>
          map_sum SwCheque (cheques_by_peer (\<lambda>b. ab_BeneficiaryPeer b (sw_book s)))
            (cb_LastCheques hexToAddress cb))"

definition swap_LastReceivedCheques :: "(bytes \<Rightarrow> bytes) \<Rightarrow> swap \<Rightarrow> swap_error + (address \<times> signed_cheque) list" where
  "swap_LastReceivedCheques hexToAddress s =
     map_sum SwCheque (cheques_by_peer (\<lambda>b. ab_ChequebookPeer b (sw_book s)))
       (cs_LastCheques hexToAddress (sw_cheques s))"

definition swap_CashCheque :: "(signed_cheque \<Rightarrow> bytes option) \<Rightarrow> address \<Rightarrow> swap \<Rightarrow> (swap_error + bytes) \<times> swap" where
  "swap_CashCheque send peer s =
     (case ab_Chequebook peer (sw_book s) of
        None \<Rightarrow> (Inl SwStore, s)
      | Some None \<Rightarrow> (Inl (SwCheque ErrNoCheque), s)
      | Some (Some chequebook) \<Rightarrow>
          let (r, store) = co_CashCheque send chequebook (sw_cheques s) (sw_cashouts s)
          in (map_sum SwCheque (\<lambda>h. h) r, s\<lparr>sw_cashouts := store\<rparr>))"

definition swap_CashoutStatus ::
  "(bytes \<Rightarrow> tx_state) \<Rightarrow> contract_view \<Rightarrow> address \<Rightarrow> swap \<Rightarrow> swap_error + cashout_status" where
  "swap_CashoutStatus tx c peer s =
     (case ab_Chequebook peer (sw_book s) of
        None \<Rightarrow> Inl SwStore
      | Some None \<Rightarrow> Inl (SwCheque ErrNoCheque)
      | Some (Some chequebook) \<Rightarrow>
          map_sum SwCheque (\<lambda>h. h) (co_CashoutStatus tx c chequebook (sw_cheques s) (sw_cashouts s)))"

end
