(* ===== verification/Chequebook_Props.thy ===== *)
theory Chequebook_Props
  imports Chequebook
begin

text \<open>
  The cheques a node has sent are covered by its chequebook, however many calls of \<open>Issue\<close> run at
  the same time, up to the amounts of calls whose save fails after the cheque was sent, the
  movements of the chain between two readings, and withdrawals that race with a call.
\<close>

section \<open>Values in the stores\<close>

lemma hex_encode_eq [simp]: "hex_encode a = hex_encode b \<longleftrightarrow> a = b"
  by (metis hex_decode_encode option.inject)

lemma lastIssuedChequeKey_eq [simp]: "lastIssuedChequeKey a = lastIssuedChequeKey b \<longleftrightarrow> a = b"
  by (simp add: lastIssuedChequeKey_def)

lemma lastReceivedChequeKey_eq [simp]: "lastReceivedChequeKey a = lastReceivedChequeKey b \<longleftrightarrow> a = b"
  by (simp add: lastReceivedChequeKey_def)

definition payout_at :: "signed_cheque kv \<Rightarrow> bytes \<Rightarrow> int" where
  "payout_at s key = (case kv_map s key of None \<Rightarrow> 0 | Some c \<Rightarrow> cq_CumulativePayout (sc_Cheque c))"

definition total_at :: "int kv \<Rightarrow> int" where
  "total_at s = (case kv_map s totalIssuedKey of None \<Rightarrow> 0 | Some t \<Rightarrow> t)"

definition book_ok :: "chequebook \<Rightarrow> bool" where
  "book_ok s \<longleftrightarrow> kv_ok (cb_cheques s) \<and> kv_reliable (cb_cheques s) \<and>
     kv_ok (cb_total s) \<and> kv_reliable (cb_total s)"

lemma totalIssued_ok: "book_ok s \<Longrightarrow> totalIssued s = Inr (total_at (cb_total s))"
  by (simp add: totalIssued_def total_at_def kv_Get_reliable book_ok_def split: option.splits)

lemma issue_cheque_ok: "book_ok s \<Longrightarrow> issue_cheque beneficiary amount s =
    Inr \<lparr>cq_Chequebook = cb_address s, cq_Beneficiary = beneficiary,
         cq_CumulativePayout = payout_at (cb_cheques s) (lastIssuedChequeKey beneficiary) + amount\<rparr>"
  by (simp add: issue_cheque_def cb_LastCheque_def payout_at_def kv_Get_reliable book_ok_def split: option.splits)

lemma issue_save_ok:
  assumes "book_ok s"
  obtains store where "issue_save cheque s = (None, s\<lparr>cb_cheques := store\<rparr>)" "book_ok (s\<lparr>cb_cheques := store\<rparr>)"
    "\<forall>b. payout_at store (lastIssuedChequeKey b) =
      (if b = cq_Beneficiary cheque then cq_CumulativePayout cheque
       else payout_at (cb_cheques s) (lastIssuedChequeKey b))"
proof -
  let ?v = "\<lparr>sc_Cheque = cheque, sc_Signature = []\<rparr>"
  have k: "kv_ok (cb_cheques s)" "kv_reliable (cb_cheques s)" using assms by (simp_all add: book_ok_def)
  obtain store where p: "kv_Put (lastIssuedChequeKey (cq_Beneficiary cheque)) ?v (cb_cheques s) = Inr store"
    "kv_reliable store"
    using kv_Put_reliable [OF k(2)] by blast
  from kv_Put_map [OF k(1) p(1)] kv_Put_ok [OF k(1) p(1)] p assms show ?thesis
    by (intro that [of store]) (auto simp: issue_save_def book_ok_def payout_at_def)
qed

lemma issue_count_ok:
  assumes "book_ok s"
  obtains store where "issue_count amount s = (None, s\<lparr>cb_total := store\<rparr>)" "book_ok (s\<lparr>cb_total := store\<rparr>)"
    "total_at store = total_at (cb_total s) + amount"
proof -
  have k: "kv_ok (cb_total s)" "kv_reliable (cb_total s)" using assms by (simp_all add: book_ok_def)
  obtain store where p: "kv_Put totalIssuedKey (total_at (cb_total s) + amount) (cb_total s) = Inr store"
    "kv_reliable store"
    using kv_Put_reliable [OF k(2)] by blast
  from kv_Put_map [OF k(1) p(1)] kv_Put_ok [OF k(1) p(1)] p assms show ?thesis
    by (intro that [of store]) (auto simp: issue_count_def totalIssued_ok book_ok_def total_at_def)
qed

section \<open>Values in stores that may fail\<close>

lemma kv_Get_Inr: "kv_Get s k = Inr v \<Longrightarrow> kv_map s k = Some v"
  by (auto simp: kv_Get_def kv_map_def split: if_splits option.splits)

lemma kv_Get_NotFound: "kv_Get s k = Inl ErrNotFound \<Longrightarrow> kv_map s k = None"
  by (auto simp: kv_Get_def kv_map_def split: if_splits option.splits)

definition book_sorted :: "chequebook \<Rightarrow> bool" where
  "book_sorted s \<longleftrightarrow> kv_ok (cb_cheques s) \<and> kv_ok (cb_total s)"

lemma totalIssued_value: "totalIssued s = Inr t \<Longrightarrow> t = total_at (cb_total s)"
  by (auto simp: totalIssued_def total_at_def dest: kv_Get_Inr kv_Get_NotFound
      split: sum.splits store_error.splits)

lemma issue_cheque_value:
  assumes "issue_cheque beneficiary amount s = Inr cheque"
  shows "cq_Beneficiary cheque = beneficiary"
    "cq_CumulativePayout cheque = payout_at (cb_cheques s) (lastIssuedChequeKey beneficiary) + amount"
  using assms
  by (auto simp: issue_cheque_def cb_LastCheque_def payout_at_def Let_def dest: kv_Get_Inr kv_Get_NotFound
      split: sum.splits store_error.splits if_splits)

lemma issue_save_value:
  assumes "issue_save cheque s = (r, s')" "book_sorted s"
  shows "book_sorted s'" "cb_total s' = cb_total s" "cb_reserved s' = cb_reserved s"
    "r \<noteq> None \<Longrightarrow> s' = s"
    "r = None \<Longrightarrow> payout_at (cb_cheques s') (lastIssuedChequeKey b) =
      (if b = cq_Beneficiary cheque then cq_CumulativePayout cheque
       else payout_at (cb_cheques s) (lastIssuedChequeKey b))"
  using assms by (auto simp: issue_save_def book_sorted_def payout_at_def kv_Put_map intro: kv_Put_ok
      split: sum.splits)

lemma issue_count_value:
  assumes "issue_count amount s = (r, s')" "book_sorted s"
  shows "book_sorted s'" "cb_cheques s' = cb_cheques s" "cb_reserved s' = cb_reserved s"
    "r \<noteq> None \<Longrightarrow> s' = s"
    "r = None \<Longrightarrow> total_at (cb_total s') = total_at (cb_total s) + amount"
proof -
  show "book_sorted s'" "cb_cheques s' = cb_cheques s" "cb_reserved s' = cb_reserved s" "r \<noteq> None \<Longrightarrow> s' = s"
    using assms by (auto simp: issue_count_def book_sorted_def intro: kv_Put_ok split: sum.splits)
  assume "r = None"
  then obtain t store where t: "totalIssued s = Inr t" "kv_Put totalIssuedKey (t + amount) (cb_total s) = Inr store"
    "s' = s\<lparr>cb_total := store\<rparr>"
    using assms by (auto simp: issue_count_def split: sum.splits)
  then show "total_at (cb_total s') = total_at (cb_total s) + amount"
    using assms(2) kv_Put_map [OF _ t(2)]
    by (simp add: total_at_def [of store] book_sorted_def totalIssued_value [OF t(1)])
qed

lemma reserveTotalIssued_value:
  assumes "reserveTotalIssued c amount s = (r, s')"
  shows "r = Inl e \<Longrightarrow> s' = s"
    "r = Inr av \<Longrightarrow> s' = s\<lparr>cb_reserved := cb_reserved s + amount\<rparr> \<and>
      (\<exists>b p. cv_Balance c = Some b \<and> cv_TotalPaidOut c = Some p \<and>
         amount \<le> b + p - total_at (cb_total s) - cb_reserved s)"
  using assms by (auto simp: reserveTotalIssued_def AvailableBalance_def dest!: totalIssued_value
      split: sum.splits option.splits if_splits)

section \<open>Concurrent calls of Issue\<close>

text \<open>
  A call of \<open>Issue\<close> that has reserved its amount is in one of six phases; between any two of its
  steps other calls run and the chain moves on. \<open>Delivered\<close> is a cheque the send function has
  accepted and the store has not, \<open>Failed\<close> a call whose save or count failed after that.

  A state has the chequebook, the calls in flight, and who holds its lock: a call that reserves
  holds it from its reading of the balance to its reading of the total paid out, which are two
  calls of the contract, and \<open>is_lock\<close> is the answer of the first. Then the balance of the
  contract and all it has paid out, and the cheques sent, each with the amount it was issued for.

  Three quantities record what the code does not guard against: \<open>is_lost\<close> is the sum of the
  amounts of the calls that failed after their cheque was sent; \<open>is_torn\<close> is by how much the two
  answers of the contract together exceeded its funds when a reservation succeeded, at most, as
  happens when a cheque is cashed between them; and \<open>is_drawn\<close> the sum of the withdrawals that
  took more than was free of issued and reserved amounts when they were mined.
\<close>

datatype flight =
    Reserved (fl_beneficiary: bytes) (fl_amount: int)
  | Signed (fl_amount: int) (fl_cheque: cheque)
  | Delivered (fl_amount: int) (fl_cheque: cheque)
  | Saved (fl_amount: int)
  | Counted (fl_amount: int)
  | Failed (fl_amount: int)

record issue_sys =
  is_book :: chequebook
  is_calls :: "flight multiset"
  is_lock :: "int option option"
  is_balance :: int
  is_paid :: int
  is_sent :: "(cheque \<times> int) list"
  is_lost :: int
  is_torn :: int
  is_drawn :: int

definition funds_of :: "issue_sys \<Rightarrow> int" where
  "funds_of st = is_balance st + is_paid st"

text \<open>What a call that gets both answers reserves on.\<close>

definition torn_by :: "contract_view \<Rightarrow> issue_sys \<Rightarrow> int" where
  "torn_by c st = (case (cv_Balance c, cv_TotalPaidOut c) of
     (Some b, Some p) \<Rightarrow> max (is_torn st) (b + p - funds_of st) | _ \<Rightarrow> is_torn st)"

definition next_call :: "flight \<Rightarrow> flight multiset \<Rightarrow> chequebook \<Rightarrow> issue_sys \<Rightarrow> issue_sys" where
  "next_call fl F s st = st\<lparr>is_book := s, is_calls := add_mset fl F\<rparr>"

inductive issue_step :: "issue_sys \<Rightarrow> issue_sys \<Rightarrow> bool" where
  is_ask: "is_lock st = None \<Longrightarrow> b = Some (is_balance st) \<or> b = None \<Longrightarrow>
    issue_step st (st\<lparr>is_lock := Some b\<rparr>)"
| is_reserve: "is_lock st = Some b \<Longrightarrow> cv_Balance c = b \<Longrightarrow>
    cv_TotalPaidOut c = Some (is_paid st) \<or> cv_TotalPaidOut c = None \<Longrightarrow> 0 \<le> amount \<Longrightarrow>
    reserveTotalIssued c amount (is_book st) = (Inr av, s') \<Longrightarrow>
    issue_step st ((next_call (Reserved beneficiary amount) (is_calls st) s' st)
      \<lparr>is_lock := None, is_torn := torn_by c st\<rparr>)"
| is_refuse: "is_lock st = Some b \<Longrightarrow> cv_Balance c = b \<Longrightarrow>
    cv_TotalPaidOut c = Some (is_paid st) \<or> cv_TotalPaidOut c = None \<Longrightarrow>
    reserveTotalIssued c amount (is_book st) = (Inl err, s') \<Longrightarrow>
    issue_step st (st\<lparr>is_book := s', is_lock := None\<rparr>)"
| is_sign: "is_calls st = add_mset (Reserved beneficiary amount) F \<Longrightarrow>
    issue_cheque beneficiary amount (is_book st) = Inr cheque \<Longrightarrow>
    issue_step st (next_call (Signed amount cheque) F (is_book st) st)"
| is_send: "is_calls st = add_mset (Signed amount cheque) F \<Longrightarrow>
    issue_step st ((next_call (Delivered amount cheque) F (is_book st) st)
      \<lparr>is_sent := (cheque, amount) # is_sent st\<rparr>)"
| is_save: "is_calls st = add_mset (Delivered amount cheque) F \<Longrightarrow>
    issue_save cheque (is_book st) = (None, s') \<Longrightarrow>
    issue_step st (next_call (Saved amount) F s' st)"
| is_save_fails: "is_calls st = add_mset (Delivered amount cheque) F \<Longrightarrow>
    issue_save cheque (is_book st) = (Some err, s') \<Longrightarrow>
    issue_step st ((next_call (Failed amount) F s' st)\<lparr>is_lost := is_lost st + amount\<rparr>)"
| is_count: "is_lock st = None \<Longrightarrow> is_calls st = add_mset (Saved amount) F \<Longrightarrow>
    issue_count amount (is_book st) = (None, s') \<Longrightarrow>
    issue_step st (next_call (Counted amount) F s' st)"
| is_count_fails: "is_lock st = None \<Longrightarrow> is_calls st = add_mset (Saved amount) F \<Longrightarrow>
    issue_count amount (is_book st) = (Some err, s') \<Longrightarrow>
    issue_step st ((next_call (Failed amount) F s' st)\<lparr>is_lost := is_lost st + amount\<rparr>)"
| is_return: "is_lock st = None \<Longrightarrow> is_calls st = add_mset fl F \<Longrightarrow>
    fl = Counted amount \<or> fl = Failed amount \<or> fl = Reserved beneficiary amount \<or> fl = Signed amount cheque \<Longrightarrow>
    issue_step st (st\<lparr>is_book := unreserveTotalIssued amount (is_book st), is_calls := F\<rparr>)"
| is_deposit: "0 \<le> d \<Longrightarrow> issue_step st (st\<lparr>is_balance := is_balance st + d\<rparr>)"
| is_cash: "0 \<le> x \<Longrightarrow> issue_step st (st\<lparr>is_balance := is_balance st - x, is_paid := is_paid st + x\<rparr>)"
| is_withdraw: "0 \<le> w \<Longrightarrow> issue_step st (st\<lparr>is_balance := is_balance st - w,
    is_drawn := (if w \<le> funds_of st - total_at (cb_total (is_book st)) - cb_reserved (is_book st)
                 then is_drawn st else is_drawn st + w)\<rparr>)"

fun uncounted :: "flight \<Rightarrow> int" where
  "uncounted (Counted amount) = 0"
| "uncounted (Failed amount) = 0"
| "uncounted f = fl_amount f"

text \<open>The amount of a cheque that was sent and neither counted nor lost.\<close>

fun in_air :: "flight \<Rightarrow> int" where
  "in_air (Delivered amount _) = amount"
| "in_air (Saved amount) = amount"
| "in_air _ = 0"

definition sent_to :: "(cheque \<times> int) list \<Rightarrow> bytes \<Rightarrow> int" where
  "sent_to sent b = (\<Sum>(c, amount) \<leftarrow> sent. if cq_Beneficiary c = b then amount else 0)"

fun flight_ok :: "(cheque \<times> int) list \<Rightarrow> flight \<Rightarrow> bool" where
  "flight_ok sent (Signed amount cheque) \<longleftrightarrow> 0 \<le> amount \<and>
     cq_CumulativePayout cheque \<le> sent_to sent (cq_Beneficiary cheque) + amount"
| "flight_ok sent (Delivered amount cheque) \<longleftrightarrow> 0 \<le> amount \<and>
     cq_CumulativePayout cheque \<le> sent_to sent (cq_Beneficiary cheque)"
| "flight_ok sent f \<longleftrightarrow> 0 \<le> fl_amount f"

definition issue_inv :: "issue_sys \<Rightarrow> bool" where
  "issue_inv st \<longleftrightarrow> (let s = is_book st; F = is_calls st; sent = is_sent st in
     book_sorted s \<and> cb_reserved s = (\<Sum>f \<in># F. fl_amount f) \<and>
     0 \<le> is_lost st \<and> 0 \<le> is_torn st \<and> 0 \<le> is_drawn st \<and>
     total_at (cb_total s) + (\<Sum>f \<in># F. uncounted f) \<le> funds_of st + is_torn st + is_drawn st \<and>
     (\<Sum>(c, amount) \<leftarrow> sent. amount) = total_at (cb_total s) + (\<Sum>f \<in># F. in_air f) + is_lost st \<and>
     (\<forall>b. payout_at (cb_cheques s) (lastIssuedChequeKey b) \<le> sent_to sent b) \<and>
     (\<forall>f \<in># F. flight_ok sent f) \<and>
     (\<forall>(c, amount) \<in> set sent. 0 \<le> amount \<and> cq_CumulativePayout c \<le> sent_to sent (cq_Beneficiary c)))"

lemma sent_to_Cons: "sent_to ((c, amount) # sent) b = (if cq_Beneficiary c = b then amount else 0) + sent_to sent b"
  by (simp add: sent_to_def)

lemma flight_ok_mono: "flight_ok sent f \<Longrightarrow> 0 \<le> amount \<Longrightarrow> flight_ok ((c, amount) # sent) f"
  by (cases f) (auto simp: sent_to_Cons)

lemma flight_amounts: "flight_ok sent f \<Longrightarrow> uncounted f \<le> fl_amount f \<and> in_air f \<le> uncounted f"
  by (cases f) auto

lemma uncounted_sum: "(\<forall>f \<in># F. flight_ok sent f) \<Longrightarrow> (\<Sum>f \<in># F. uncounted f) \<le> (\<Sum>f \<in># F. fl_amount f)"
  by (induction F) (auto dest: flight_amounts)

lemma in_air_sum: "(\<forall>f \<in># F. flight_ok sent f) \<Longrightarrow> (\<Sum>f \<in># F. in_air f) \<le> (\<Sum>f \<in># F. uncounted f)"
  by (induction F) (auto dest: flight_amounts)

lemmas issue_simps = issue_inv_def next_call_def funds_of_def Let_def book_sorted_def

lemma issue_invD:
  assumes "issue_inv st"
  shows "book_sorted (is_book st)"
    "total_at (cb_total (is_book st)) + (\<Sum>f \<in># is_calls st. uncounted f) \<le> funds_of st + is_torn st + is_drawn st"
    "total_at (cb_total (is_book st)) + (\<Sum>f \<in># is_calls st. uncounted f) \<le>
       total_at (cb_total (is_book st)) + cb_reserved (is_book st)"
  using assms uncounted_sum [of "is_calls st" "is_sent st"] by (auto simp: issue_inv_def Let_def)

lemma reserve_covered:
  assumes "issue_inv st" "reserveTotalIssued c amount (is_book st) = (Inr av, s')" "0 \<le> amount"
  shows "issue_inv ((next_call (Reserved beneficiary amount) (is_calls st) s' st)
    \<lparr>is_lock := None, is_torn := torn_by c st\<rparr>)"
proof -
  obtain b p where bp: "s' = (is_book st)\<lparr>cb_reserved := cb_reserved (is_book st) + amount\<rparr>"
    "cv_Balance c = Some b" "cv_TotalPaidOut c = Some p"
    "amount \<le> b + p - total_at (cb_total (is_book st)) - cb_reserved (is_book st)"
    using reserveTotalIssued_value(2) [OF assms(2) refl] by blast
  then have "is_torn st \<le> torn_by c st" "b + p \<le> funds_of st + torn_by c st" by (auto simp: torn_by_def)
  with bp issue_invD(3) [OF assms(1)] assms(1,3) show ?thesis by (simp add: issue_simps)
qed

lemma send_covered:
  assumes "issue_inv st" "is_calls st = add_mset (Signed amount cheque) F"
  shows "issue_inv ((next_call (Delivered amount cheque) F (is_book st) st)
    \<lparr>is_sent := (cheque, amount) # is_sent st\<rparr>)"
proof -
  let ?sent = "(cheque, amount) # is_sent st"
  have am: "0 \<le> amount" using assms by (simp add: issue_inv_def Let_def)
  have mono: "sent_to (is_sent st) b \<le> sent_to ?sent b" for b using am by (simp add: sent_to_Cons)
  have pay: "payout_at (cb_cheques (is_book st)) (lastIssuedChequeKey b) \<le> sent_to ?sent b" for b
    using assms(1) mono [of b] order.trans by (fastforce simp: issue_inv_def Let_def)
  have se: "0 \<le> a \<and> cq_CumulativePayout c \<le> sent_to ?sent (cq_Beneficiary c)" if "(c, a) \<in> set ?sent" for c a
    using that assms mono [of "cq_Beneficiary c"] by (fastforce simp: issue_inv_def Let_def sent_to_Cons)
  have fl: "flight_ok ?sent f" if "f \<in># add_mset (Delivered amount cheque) F" for f
    using that assms am by (auto simp: issue_inv_def Let_def sent_to_Cons intro: flight_ok_mono)
  have "\<forall>f \<in># add_mset (Delivered amount cheque) F. flight_ok ?sent f"
    "\<forall>(c, a) \<in> set ?sent. 0 \<le> a \<and> cq_CumulativePayout c \<le> sent_to ?sent (cq_Beneficiary c)"
    using fl se by (blast, blast)
  with pay assms show ?thesis by (simp add: issue_simps)
qed

lemma save_covered:
  assumes "issue_inv st" "is_calls st = add_mset (Delivered amount cheque) F" "issue_save cheque (is_book st) = (r, s')"
  shows "r = None \<Longrightarrow> issue_inv (next_call (Saved amount) F s' st)"
    "r \<noteq> None \<Longrightarrow> issue_inv ((next_call (Failed amount) F s' st)\<lparr>is_lost := is_lost st + amount\<rparr>)"
proof -
  note v = issue_save_value [OF assms(3) issue_invD(1) [OF assms(1)]]
  show "issue_inv (next_call (Saved amount) F s' st)" if r: "r = None"
    using assms(1,2) v(1-3) v(5) [OF r] by (simp add: issue_simps)
  show "issue_inv ((next_call (Failed amount) F s' st)\<lparr>is_lost := is_lost st + amount\<rparr>)" if r: "r \<noteq> None"
    using assms(1,2) v(4) [OF r] by (simp add: issue_simps)
qed

lemma count_covered:
  assumes "issue_inv st" "is_calls st = add_mset (Saved amount) F" "issue_count amount (is_book st) = (r, s')"
  shows "r = None \<Longrightarrow> issue_inv (next_call (Counted amount) F s' st)"
    "r \<noteq> None \<Longrightarrow> issue_inv ((next_call (Failed amount) F s' st)\<lparr>is_lost := is_lost st + amount\<rparr>)"
proof -
  note v = issue_count_value [OF assms(3) issue_invD(1) [OF assms(1)]]
  show "issue_inv (next_call (Counted amount) F s' st)" if r: "r = None"
    using assms(1,2) v(1-3) v(5) [OF r] by (simp add: issue_simps)
  show "issue_inv ((next_call (Failed amount) F s' st)\<lparr>is_lost := is_lost st + amount\<rparr>)" if r: "r \<noteq> None"
    using assms(1,2) v(4) [OF r] by (simp add: issue_simps)
qed

lemma issue_inv_step:
  assumes "issue_step st st'" "issue_inv st"
  shows "issue_inv st'"
  using assms
proof (induction rule: issue_step.induct)
  case (is_reserve st b c amount av s' beneficiary)
  then show ?case by (intro reserve_covered)
next
  case (is_refuse st b c amount err s')
  from reserveTotalIssued_value(1) [OF is_refuse(4) refl] is_refuse(5) show ?case by (simp add: issue_simps)
next
  case (is_sign st beneficiary amount F cheque)
  note v = issue_cheque_value [OF is_sign(2)]
  have "payout_at (cb_cheques (is_book st)) (lastIssuedChequeKey beneficiary) \<le> sent_to (is_sent st) beneficiary"
    using is_sign(3) by (simp add: issue_inv_def Let_def)
  with is_sign v show ?case by (simp add: issue_simps)
next
  case (is_send st amount cheque F)
  then show ?case by (intro send_covered)
next
  case (is_return st fl F amount beneficiary cheque)
  then show ?case by (auto simp: issue_simps unreserveTotalIssued_def)
next
  case (is_withdraw w st)
  with issue_invD(3) [OF is_withdraw(2)] show ?case by (simp add: issue_simps)
qed (simp_all add: save_covered count_covered, auto simp: issue_simps)

lemma issue_inv_steps: "issue_step\<^sup>*\<^sup>* st st' \<Longrightarrow> issue_inv st \<Longrightarrow> issue_inv st'"
  by (induction rule: rtranclp_induct) (auto intro: issue_inv_step)

lemma sent_to_disjoint:
  assumes "\<forall>(c, amount) \<in> set sent. 0 \<le> amount" "distinct bs"
  shows "(\<Sum>b \<leftarrow> bs. sent_to sent b) \<le> (\<Sum>(c, amount) \<leftarrow> sent. amount)"
  using assms(1)
proof (induction sent)
  case Nil
  then show ?case by (simp add: sent_to_def)
next
  case (Cons ca sent)
  obtain c amount where ca: "ca = (c, amount)" by (metis prod.exhaust)
  have "(\<Sum>b \<leftarrow> bs. if cq_Beneficiary c = b then amount else 0) = (if cq_Beneficiary c \<in> set bs then amount else 0)"
    using assms(2) by (induction bs) auto
  then have "(\<Sum>b \<leftarrow> bs. if cq_Beneficiary c = b then amount else 0) \<le> amount"
    using Cons.prems ca by auto
  moreover have "(\<Sum>b \<leftarrow> bs. sent_to (ca # sent) b) =
      (\<Sum>b \<leftarrow> bs. if cq_Beneficiary c = b then amount else 0) + (\<Sum>b \<leftarrow> bs. sent_to sent b)"
    by (simp add: ca sent_to_Cons sum_list_addf)
  ultimately show ?case using Cons ca by auto
qed

text \<open>A fresh chequebook, with the failures of its two stores and the funds of the contract.\<close>

definition issue_init ::
  "bytes \<Rightarrow> (kv_op \<Rightarrow> bytes \<Rightarrow> bool) \<Rightarrow> (kv_op \<Rightarrow> bytes \<Rightarrow> bool) \<Rightarrow> int \<Rightarrow> int \<Rightarrow> issue_sys" where
  "issue_init address fails fails_total balance paid =
     \<lparr>is_book = cb_New address \<lparr>kv_data = [], kv_fail = fails\<rparr> \<lparr>kv_data = [], kv_fail = fails_total\<rparr>,
      is_calls = {#}, is_lock = None, is_balance = balance, is_paid = paid, is_sent = [],
      is_lost = 0, is_torn = 0, is_drawn = 0\<rparr>"

lemma issue_inv_init: "0 \<le> balance + paid \<Longrightarrow> issue_inv (issue_init address fails fails_total balance paid)"
  by (simp add: issue_simps issue_init_def cb_New_def kv_ok_def total_at_def payout_at_def kv_map_def sent_to_def)

text \<open>
  C27: cheques are covered: from an empty chequebook, whatever calls of \<open>Issue\<close> run at the same
  time, for whichever beneficiaries, with stores that may fail and a chain on which deposits,
  withdrawals and cash-outs are mined between any two steps: the cumulative payouts of any choice
  of one sent cheque per beneficiary sum to at most the funds of the contract (its balance and
  what it has paid out), plus what the code does not guard against: the amounts of the calls that
  failed after their cheque was sent (\<open>is_lost\<close>), the excess of the two answers of the contract a
  reservation was made on (\<open>is_torn\<close>), and the withdrawals that took more than was free
  (\<open>is_drawn\<close>). In a run without these three the cheques are covered in full.
\<close>

theorem cheques_covered:
  assumes "0 \<le> balance + paid"
    and "issue_step\<^sup>*\<^sup>* (issue_init address fails fails_total balance paid) st"
    and "set cheques \<subseteq> fst ` set (is_sent st)" "distinct (map cq_Beneficiary cheques)"
  shows "(\<Sum>c \<leftarrow> cheques. cq_CumulativePayout c) \<le>
    is_balance st + is_paid st + is_lost st + is_torn st + is_drawn st"
proof -
  note inv = issue_inv_steps [OF assms(2) issue_inv_init [OF assms(1)]]
  have "(\<Sum>c \<leftarrow> cheques. cq_CumulativePayout c) \<le> (\<Sum>c \<leftarrow> cheques. sent_to (is_sent st) (cq_Beneficiary c))"
    by (rule sum_list_mono) (use inv assms(3) in \<open>fastforce simp: issue_inv_def Let_def\<close>)
  also have "\<dots> = (\<Sum>b \<leftarrow> map cq_Beneficiary cheques. sent_to (is_sent st) b)" by (simp add: comp_def)
  also have "\<dots> \<le> (\<Sum>(c, amount) \<leftarrow> is_sent st. amount)"
    by (rule sent_to_disjoint [OF _ assms(4)]) (use inv in \<open>auto simp: issue_inv_def Let_def\<close>)
  also have "\<dots> \<le> total_at (cb_total (is_book st)) + (\<Sum>f \<in># is_calls st. uncounted f) + is_lost st"
    using inv in_air_sum [of "is_calls st" "is_sent st"] by (simp add: issue_inv_def Let_def)
  also have "\<dots> \<le> is_balance st + is_paid st + is_lost st + is_torn st + is_drawn st"
    using issue_invD(2) [OF inv] by (simp add: funds_of_def)
  finally show ?thesis .
qed

section \<open>A run in which the bound is attained\<close>

definition answers :: "issue_sys \<Rightarrow> contract_view" where
  "answers st = \<lparr>cv_Balance = Some (is_balance st), cv_TotalPaidOut = Some (is_paid st),
     cv_PaidOut = \<lambda>_. None, cv_Issuer = None, cv_Verified = False\<rparr>"

lemma torn_by_answers [simp]: "0 \<le> is_torn st \<Longrightarrow> torn_by (answers st) st = is_torn st"
  by (simp add: torn_by_def answers_def funds_of_def)

lemma issue_delivers:
  assumes "is_lock st = None" "0 \<le> amount" "0 \<le> is_torn st"
    and r: "reserveTotalIssued (answers st) amount (is_book st) = (Inr av, s)"
    and q: "issue_cheque beneficiary amount s = Inr cheque"
  shows "issue_step\<^sup>*\<^sup>* st (st\<lparr>is_book := s, is_calls := add_mset (Delivered amount cheque) (is_calls st),
    is_sent := (cheque, amount) # is_sent st\<rparr>)" (is "issue_step\<^sup>*\<^sup>* st ?st4")
proof -
  let ?st1 = "st\<lparr>is_lock := Some (Some (is_balance st))\<rparr>"
  let ?st2 = "(next_call (Reserved beneficiary amount) (is_calls st) s st)\<lparr>is_lock := None\<rparr>"
  let ?st3 = "next_call (Signed amount cheque) (is_calls st) s ?st2"
  have 1: "issue_step st ?st1" using assms(1) by (intro is_ask) auto
  have 2: "issue_step ?st1 ?st2"
    using is_reserve [of ?st1 "Some (is_balance st)" "answers st" amount av s beneficiary] r assms(2,3)
    by (simp add: answers_def next_call_def torn_by_def funds_of_def)
  have 3: "issue_step ?st2 ?st3"
    using is_sign [of ?st2 beneficiary amount "is_calls st" cheque] q by (simp add: next_call_def)
  have "?st4 = (next_call (Delivered amount cheque) (is_calls st) (is_book ?st3) ?st3)
      \<lparr>is_sent := (cheque, amount) # is_sent ?st3\<rparr>"
    using assms(1) by (simp add: next_call_def)
  with is_send [of ?st3 amount cheque "is_calls st"] have "issue_step ?st3 ?st4" by (simp add: next_call_def)
  with 1 2 3 show ?thesis by (meson converse_rtranclp_into_rtranclp r_into_rtranclp)
qed

definition lost_fails :: "kv_op \<Rightarrow> bytes \<Rightarrow> bool" where
  "lost_fails op key \<longleftrightarrow> op = OpPut \<and> key = lastIssuedChequeKey [1]"

definition lost_book :: "int \<Rightarrow> chequebook" where
  "lost_book r = \<lparr>cb_address = [9], cb_cheques = \<lparr>kv_data = [], kv_fail = lost_fails\<rparr>,
     cb_total = \<lparr>kv_data = [], kv_fail = \<lambda>_ _. False\<rparr>, cb_reserved = r\<rparr>"

definition lost_cheque :: "byte \<Rightarrow> int \<Rightarrow> cheque" where
  "lost_cheque b payout = \<lparr>cq_Chequebook = [9], cq_Beneficiary = [b], cq_CumulativePayout = payout\<rparr>"

lemma lost_book_calls:
  "issue_cheque [b] amount (lost_book r) = Inr (lost_cheque b amount)"
  "issue_save (lost_cheque 1 amount) (lost_book r) = (Some CbStore, lost_book r)"
  "unreserveTotalIssued amount (lost_book r) = lost_book (r - amount)"
  "is_balance st + is_paid st = 100 \<Longrightarrow> amount + r \<le> 100 \<Longrightarrow>
     reserveTotalIssued (answers st) amount (lost_book r) = (Inr (100 - amount), lost_book (r + amount))"
  by (simp_all add: lost_book_def lost_cheque_def lost_fails_def issue_cheque_def cb_LastCheque_def kv_Get_def
      issue_save_def kv_Put_def unreserveTotalIssued_def reserveTotalIssued_def AvailableBalance_def
      totalIssued_def answers_def)

text \<open>
  A cheque of 30 is sent and its save fails, so that the call gives its reservation back; then a
  cheque of 100 is sent to another beneficiary. Of the funds of 100 the two claim 130.
\<close>

lemma failed_save_uncovers:
  "\<exists>st. issue_step\<^sup>*\<^sup>* (issue_init [9] lost_fails (\<lambda>_ _. False) 100 0) st \<and>
     is_sent st = [(lost_cheque 2 100, 100), (lost_cheque 1 30, 30)] \<and>
     is_balance st = 100 \<and> is_paid st = 0 \<and> is_lost st = 30 \<and> is_torn st = 0 \<and> is_drawn st = 0"
proof -
  let ?st0 = "issue_init [9] lost_fails (\<lambda>_ _. False) 100 0"
  have st0: "is_book ?st0 = lost_book 0" "is_calls ?st0 = {#}" "is_lock ?st0 = None" "is_balance ?st0 = 100"
    "is_paid ?st0 = 0" "is_sent ?st0 = []" "is_lost ?st0 = 0" "is_torn ?st0 = 0" "is_drawn ?st0 = 0"
    by (simp_all add: issue_init_def lost_book_def cb_New_def)
  let ?st1 = "?st0\<lparr>is_book := lost_book 30, is_calls := {#Delivered 30 (lost_cheque 1 30)#},
    is_sent := [(lost_cheque 1 30, 30)]\<rparr>"
  let ?st2 = "(next_call (Failed 30) {#} (lost_book 30) ?st1)\<lparr>is_lost := 30\<rparr>"
  let ?st3 = "?st2\<lparr>is_book := lost_book 0, is_calls := {#}\<rparr>"
  let ?st4 = "?st3\<lparr>is_book := lost_book 100, is_calls := {#Delivered 100 (lost_cheque 2 100)#},
    is_sent := [(lost_cheque 2 100, 100), (lost_cheque 1 30, 30)]\<rparr>"
  have 1: "issue_step\<^sup>*\<^sup>* ?st0 ?st1"
    using issue_delivers [of ?st0 30 70 "lost_book 30" "[1]" "lost_cheque 1 30"] st0
    by (simp add: lost_book_calls)
  have 2: "issue_step ?st1 ?st2"
    using is_save_fails [of ?st1 30 "lost_cheque 1 30" "{#}" CbStore "lost_book 30"] st0
    by (simp add: lost_book_calls)
  have 3: "issue_step ?st2 ?st3"
    using is_return [of ?st2 "Failed 30" "{#}" 30] st0 by (simp add: lost_book_calls next_call_def)
  have "issue_step\<^sup>*\<^sup>* ?st3 ?st4"
    using issue_delivers [of ?st3 100 0 "lost_book 100" "[2]" "lost_cheque 2 100"] st0
    by (simp add: lost_book_calls next_call_def)
  with 1 2 3 have "issue_step\<^sup>*\<^sup>* ?st0 ?st4" by (meson rtranclp.rtrancl_into_rtrancl rtranclp_trans)
  then show ?thesis using st0 by (intro exI [of _ ?st4]) (simp add: next_call_def)
qed

lemma cheques_covered_witness:
  "\<exists>st. issue_step\<^sup>*\<^sup>* (issue_init [9] lost_fails (\<lambda>_ _. False) 100 0) st \<and> is_balance st + is_paid st = 100 \<and>
     cq_CumulativePayout (lost_cheque 2 100) + cq_CumulativePayout (lost_cheque 1 30) \<le> 100 + is_lost st"
proof -
  obtain st where st: "issue_step\<^sup>*\<^sup>* (issue_init [9] lost_fails (\<lambda>_ _. False) 100 0) st"
    "is_sent st = [(lost_cheque 2 100, 100), (lost_cheque 1 30, 30)]"
    "is_balance st = 100" "is_paid st = 0" "is_torn st = 0" "is_drawn st = 0"
    using failed_save_uncovers by blast
  have "(\<Sum>c \<leftarrow> [lost_cheque 2 100, lost_cheque 1 30]. cq_CumulativePayout c) \<le>
      is_balance st + is_paid st + is_lost st + is_torn st + is_drawn st"
    by (rule cheques_covered [OF _ st(1)]) (simp_all add: st(2), simp add: lost_cheque_def)
  with st show ?thesis by (intro exI [of _ st]) simp
qed

end
