(* ===== verification/Swap_Props.thy ===== *)
theory Swap_Props
  imports Swap Chequebook_Props
begin

text \<open>
  Cheques and the ledger: what a peer is credited for is covered by the payouts of the cheques it
  sent, and a payment between two nodes moves the same amount in both ledgers.
\<close>

section \<open>Receiving\<close>

abbreviation received_payout :: "bytes \<Rightarrow> swap \<Rightarrow> int" where
  "received_payout k s \<equiv> payout_at (cs_store (sw_cheques s)) (lastReceivedChequeKey k)"

lemma check_cheque_amount:
  assumes "check_cheque recover c cheque rate deduction cs = Inr amount"
  shows "amount = cq_CumulativePayout (sc_Cheque cheque) -
      payout_at (cs_store cs) (lastReceivedChequeKey (cq_Chequebook (sc_Cheque cheque)))"
    "0 < amount" "rate \<le> amount - deduction" "cq_Beneficiary (sc_Cheque cheque) = cs_beneficiary cs"
    "recover cheque = cv_Issuer c" "cv_Issuer c \<noteq> None"
  using assms
  by (auto simp: check_cheque_def Let_def payout_at_def kv_Get_def kv_map_def
      split: if_splits sum.splits option.splits store_error.splits)

lemma cs_ReceiveCheque_cases:
  assumes "kv_ok (cs_store cs)" "cs_ReceiveCheque recover c cheque rate deduction cs = (r, cs')"
  obtains (refused) err where "r = Inl err" "cs' = cs"
  | (accepted) amount where "r = Inr amount" "check_cheque recover c cheque rate deduction cs = Inr amount"
      "kv_ok (cs_store cs')" "cs_beneficiary cs' = cs_beneficiary cs"
      "\<forall>k. payout_at (cs_store cs') (lastReceivedChequeKey k) =
        (if k = cq_Chequebook (sc_Cheque cheque) then cq_CumulativePayout (sc_Cheque cheque)
         else payout_at (cs_store cs) (lastReceivedChequeKey k))"
proof (cases "check_cheque recover c cheque rate deduction cs")
  case (Inl err)
  with assms(2) show ?thesis by (intro refused [of err]) (simp_all add: cs_ReceiveCheque_def)
next
  case (Inr amount)
  show ?thesis
  proof (cases "kv_Put (lastReceivedChequeKey (cq_Chequebook (sc_Cheque cheque))) cheque (cs_store cs)")
    case (Inl e)
    with assms(2) Inr show ?thesis by (intro refused [of CbStore]) (simp_all add: cs_ReceiveCheque_def)
  next
    case p: (Inr store)
    then have e: "r = Inr amount" "cs' = cs\<lparr>cs_store := store\<rparr>"
      using assms(2) Inr by (simp_all add: cs_ReceiveCheque_def)
    show ?thesis
      by (rule accepted [OF e(1) Inr])
        (use e(2) kv_Put_ok [OF assms(1) p] kv_Put_map [OF assms(1) p] in \<open>auto simp: payout_at_def\<close>)
  qed
qed

lemma book_only:
  "swap_AddDeductionFor peer s = (ok, s') \<Longrightarrow> sw_cheques s' = sw_cheques s"
  "swap_PutChequebook peer k s = (ok, s') \<Longrightarrow> sw_cheques s' = sw_cheques s"
  by (auto simp: swap_AddDeductionFor_def swap_PutChequebook_def split: prod.splits)

text \<open>One cheque: the ledger moves by an amount that the increase of its payout covers.\<close>

lemma swap_ReceiveCheque_credit:
  assumes "kv_ok (cs_store (sw_cheques s))" "store_ok (ac_store a)" "0 < rate" "0 \<le> deduction"
    and "swap_ReceiveCheque recover c peer cheque rate deduction s a = (r, s', a')"
  obtains x where "0 \<le> x" "kv_ok (cs_store (sw_cheques s'))" "store_ok (ac_store a')"
    "\<forall>q. ledger (ac_store a') q = ledger (ac_store a) q - (if q = peer then x else 0)"
    "\<forall>k. received_payout k s \<le> received_payout k s'"
    "x * rate \<le> received_payout (cq_Chequebook (sc_Cheque cheque)) s' -
       received_payout (cq_Chequebook (sc_Cheque cheque)) s"
    "r = None \<longrightarrow> x = (received_payout (cq_Chequebook (sc_Cheque cheque)) s' -
       received_payout (cq_Chequebook (sc_Cheque cheque)) s - deduction) div rate \<and>
       received_payout (cq_Chequebook (sc_Cheque cheque)) s' = cq_CumulativePayout (sc_Cheque cheque)"
proof (cases "sw_cheques s' = sw_cheques s \<and> a' = a \<and> r \<noteq> None")
  case True
  with assms(1,2) show ?thesis by (intro that [of 0]) auto
next
  case False
  let ?k = "cq_Chequebook (sc_Cheque cheque)"
  obtain expected where ex: "ab_Chequebook peer (sw_book s) = Some expected"
    "\<not> (expected \<noteq> None \<and> expected \<noteq> Some ?k)"
    using assms(5) False by (auto simp: swap_ReceiveCheque_def Let_def split: option.splits if_splits)
  obtain res cs where cs: "cs_ReceiveCheque recover c cheque rate deduction (sw_cheques s) = (res, cs)"
    by (metis prod.exhaust)
  from assms(1) cs show ?thesis
  proof (cases rule: cs_ReceiveCheque_cases)
    case (refused err)
    with assms(5) ex cs False show ?thesis by (auto simp: swap_ReceiveCheque_def Let_def)
  next
    case (accepted amount)
    note ch = check_cheque_amount [OF accepted(2)]
    have pay: "received_payout ?k s + amount = payout_at (cs_store cs) (lastReceivedChequeKey ?k)"
      "\<forall>k. received_payout k s \<le> payout_at (cs_store cs) (lastReceivedChequeKey k)"
      using accepted(5) ch(1,2) by auto
    let ?x = "(amount - deduction) div rate"
    have x0: "0 \<le> ?x" using ch(3) assms(3) by (simp add: pos_imp_zdiv_nonneg_iff)
    have xr: "?x * rate \<le> amount"
    proof -
      have "?x * rate \<le> amount - deduction" using assms(3) by (metis mult.commute mult_div_mod_eq pos_mod_sign
            le_add_same_cancel1)
      then show ?thesis using assms(4) by simp
    qed
    let ?s1 = "s\<lparr>sw_cheques := cs\<rparr>"
    obtain ok1 s2 where 1: "(if deduction > 0 then swap_AddDeductionFor peer ?s1 else (True, ?s1)) = (ok1, s2)"
      by (metis prod.exhaust)
    obtain ok2 s3 where 2: "(if expected = None then swap_PutChequebook peer ?k s2 else (True, s2)) = (ok2, s3)"
      by (metis prod.exhaust)
    have c2: "sw_cheques s2 = cs" using 1 by (auto dest: book_only(1) split: if_splits)
    have c3: "sw_cheques s3 = cs" using 2 c2 by (auto dest: book_only(2) split: if_splits)
    have main: "(r, s', a') = (if \<not> ok1 then (Some SwStore, s2, a)
        else if \<not> ok2 then (Some SwStore, s3, a)
        else (map_option SwAccounting (fst (NotifyPaymentReceived peer ?x a)), s3, snd (NotifyPaymentReceived peer ?x a)))"
      using assms(5) ex(2) assms(3)
      by (simp add: swap_ReceiveCheque_def Let_def ex(1) cs accepted(1) 1 2 case_prod_beta split del: if_split cong: if_cong)
        (auto split: if_splits)
    consider (early) "r \<noteq> None" "a' = a" "sw_cheques s' = cs"
      | (paid) "a' = snd (NotifyPaymentReceived peer ?x a)" "sw_cheques s' = cs"
      using main c2 c3 by (auto split: if_splits)
    then show ?thesis
    proof cases
      case early
      with pay ch(2) accepted(3) assms(2) show ?thesis by (intro that [of 0]) auto
    next
      case paid
      have "store_ok (ac_store a') \<and> ledger (ac_store a') = ledger_apply (Entry peer (- ?x)) (ledger (ac_store a))"
        using acc_exec_step [OF assms(2), of "OpPaymentReceived peer ?x"] x0 paid(1) by simp
      with paid pay xr x0 accepted(3,5) ch(1) show ?thesis by (intro that [of ?x]) auto
    qed
  qed
qed

record receive =
  rc_view :: contract_view
  rc_peer :: address
  rc_cheque :: signed_cheque
  rc_rate :: int
  rc_deduction :: int

fun receive_all ::
  "(signed_cheque \<Rightarrow> bytes option) \<Rightarrow> receive list \<Rightarrow> swap \<times> accounting \<Rightarrow> swap \<times> accounting" where
  "receive_all recover [] st = st"
| "receive_all recover (r # rs) st =
     receive_all recover rs
       (snd (swap_ReceiveCheque recover (rc_view r) (rc_peer r) (rc_cheque r) (rc_rate r) (rc_deduction r) (fst st) (snd st)))"

text \<open>What the peers are credited for cheques of a chequebook, at the rates of the time.\<close>

fun credits ::
  "(signed_cheque \<Rightarrow> bytes option) \<Rightarrow> bytes \<Rightarrow> receive list \<Rightarrow> swap \<times> accounting \<Rightarrow> int" where
  "credits recover k [] st = 0"
| "credits recover k (r # rs) st =
     (let st' = snd (swap_ReceiveCheque recover (rc_view r) (rc_peer r) (rc_cheque r) (rc_rate r) (rc_deduction r) (fst st) (snd st))
      in (if cq_Chequebook (sc_Cheque (rc_cheque r)) = k
          then (ledger (ac_store (snd st)) (rc_peer r) - ledger (ac_store (snd st')) (rc_peer r)) * rc_rate r else 0) +
         credits recover k rs st')"

text \<open>
  C28: credits are covered: over any sequence of cheques from any peers, what peers are credited
  for the cheques of one chequebook, at the rates of the time, is at most what the payout of the
  last cheque accepted from it has grown by.
\<close>

theorem cheque_credits_covered:
  assumes "kv_ok (cs_store (sw_cheques s))" "store_ok (ac_store a)"
    and "\<forall>r \<in> set rs. 0 < rc_rate r \<and> 0 \<le> rc_deduction r"
  shows "credits recover k rs (s, a) \<le>
    received_payout k (fst (receive_all recover rs (s, a))) - received_payout k s"
  using assms
proof (induction rs arbitrary: s a)
  case Nil
  then show ?case by simp
next
  case (Cons r rs)
  obtain res s1 a1 where e: "swap_ReceiveCheque recover (rc_view r) (rc_peer r) (rc_cheque r) (rc_rate r)
      (rc_deduction r) s a = (res, s1, a1)" by (metis prod.exhaust)
  obtain x where x: "kv_ok (cs_store (sw_cheques s1))" "store_ok (ac_store a1)"
    "\<forall>q. ledger (ac_store a1) q = ledger (ac_store a) q - (if q = rc_peer r then x else 0)"
    "\<forall>k. received_payout k s \<le> received_payout k s1"
    "x * rc_rate r \<le> received_payout (cq_Chequebook (sc_Cheque (rc_cheque r))) s1 -
       received_payout (cq_Chequebook (sc_Cheque (rc_cheque r))) s"
    by (rule swap_ReceiveCheque_credit [OF Cons.prems(1,2) _ _ e]) (use Cons.prems(3) in auto)
  have IH: "credits recover k rs (s1, a1) \<le>
      received_payout k (fst (receive_all recover rs (s1, a1))) - received_payout k s1"
    by (rule Cons.IH) (use x Cons.prems in auto)
  have "received_payout k s \<le> received_payout k s1" using x(4) by blast
  with IH x(3,5) e show ?case by (auto simp: Let_def)
qed

section \<open>A payment between two nodes\<close>

text \<open>On the way a header with an empty value is lost.\<close>

definition on_wire :: "headers \<Rightarrow> headers" where
  "on_wire h = (\<lambda>k. if h k = Some [] then None else h k)"

lemma settlement_rates_wire:
  assumes "settlement_rates (on_wire (swap_headler oracle peer s)) = Inr (rate, d)" "0 < fst oracle" "0 \<le> the (snd oracle)"
  shows "settlement_rates (swap_headler oracle peer s) = Inr (rate, d) \<and> 0 < rate \<and> 0 \<le> d"
proof -
  have e: "settlement_rates Map.empty = Inl ErrNoExchangeHeader" "on_wire Map.empty = Map.empty"
    by (simp_all add: settlement_rates_def ParseExchangeHeader_def on_wire_def fun_eq_iff)
  have n: "nat_bytes n = [] \<longleftrightarrow> n = 0" for n by (metis be_to_nat_bytes be_to_nat_Nil nat_bytes.simps)
  obtain d' where h: "swap_headler oracle peer s = MakeSettlementHeaders (fst oracle) d'" "0 \<le> d'"
    using assms e by (auto simp: swap_headler_def CurrentRates_def split: option.splits if_splits prod.splits)
  with assms h(2) show ?thesis
    by (auto simp: h(1) settlement_rates_def ParseExchangeHeader_def ParseDeductionHeader_def on_wire_def
        MakeSettlementHeaders_def n split: if_splits)
qed

text \<open>The chequebooks agree on what the payer has paid the peer so far.\<close>

definition in_sync :: "chequebook \<Rightarrow> bytes \<Rightarrow> swap \<Rightarrow> bool" where
  "in_sync cb beneficiary sB \<longleftrightarrow>
     payout_at (cb_cheques cb) (lastIssuedChequeKey beneficiary) = received_payout (cb_address cb) sB"

lemma cb_Issue_sent:
  assumes "book_ok cb" "cb_Issue sign c beneficiary amount send cb = (r, Some sq, cb')"
  shows "sc_Cheque sq = \<lparr>cq_Chequebook = cb_address cb, cq_Beneficiary = beneficiary,
      cq_CumulativePayout = payout_at (cb_cheques cb) (lastIssuedChequeKey beneficiary) + amount\<rparr>"
    "(\<exists>b. r = Inr b) \<and> cb_address cb' = cb_address cb \<and>
     payout_at (cb_cheques cb') (lastIssuedChequeKey beneficiary) =
       payout_at (cb_cheques cb) (lastIssuedChequeKey beneficiary) + amount"
proof -
  let ?cb = "cb\<lparr>cb_reserved := cb_reserved cb + amount\<rparr>"
  have b: "book_ok ?cb" using assms(1) by (simp add: book_ok_def)
  obtain av where res: "reserveTotalIssued c amount cb = (Inr av, ?cb)"
    using assms(2) by (auto simp: cb_Issue_def reserveTotalIssued_def split: sum.splits if_splits)
  let ?q = "\<lparr>cq_Chequebook = cb_address cb, cq_Beneficiary = beneficiary,
      cq_CumulativePayout = payout_at (cb_cheques cb) (lastIssuedChequeKey beneficiary) + amount\<rparr> :: cheque"
  have q: "issue_cheque beneficiary amount ?cb = Inr ?q" by (simp add: issue_cheque_ok b)
  obtain store where s1: "issue_save ?q ?cb = (None, ?cb\<lparr>cb_cheques := store\<rparr>)" "book_ok (?cb\<lparr>cb_cheques := store\<rparr>)"
    "\<forall>k. payout_at store (lastIssuedChequeKey k) = (if k = cq_Beneficiary ?q then cq_CumulativePayout ?q
       else payout_at (cb_cheques ?cb) (lastIssuedChequeKey k))"
    by (rule issue_save_ok [OF b, of ?q])
  obtain totals where s2: "issue_count amount (?cb\<lparr>cb_cheques := store\<rparr>) = (None, ?cb\<lparr>cb_cheques := store, cb_total := totals\<rparr>)"
    by (rule issue_count_ok [OF s1(2), of amount])
  obtain sig where "sign ?q = Some sig" "sq = \<lparr>sc_Cheque = ?q, sc_Signature = sig\<rparr>" "r = Inr av"
    "cb' = unreserveTotalIssued amount (?cb\<lparr>cb_cheques := store, cb_total := totals\<rparr>)"
    using assms(2) s1(1) s2 by (auto simp: cb_Issue_def res q Let_def split: option.splits if_splits)
  with s1(3) show "sc_Cheque sq = ?q"
    "(\<exists>b. r = Inr b) \<and> cb_address cb' = cb_address cb \<and>
     payout_at (cb_cheques cb') (lastIssuedChequeKey beneficiary) =
       payout_at (cb_cheques cb) (lastIssuedChequeKey beneficiary) + amount"
    by (simp_all add: unreserveTotalIssued_def)
qed

lemma put_flag_reliable:
  "kv_reliable (ab_flag b) \<Longrightarrow> \<exists>b'. ab_AddDeductionBy peer b = (True, b')"
  using kv_Put_reliable [of "ab_flag b" "peerDeductedByKey peer" "()"] by (auto simp: ab_AddDeductionBy_def ab_put_flag_def)


section \<open>A payment\<close>

definition no_data :: "'v kv" where "no_data = \<lparr>kv_data = [], kv_fail = \<lambda>_ _. False\<rparr>"

definition toy_swap :: "bytes \<Rightarrow> swap" where
  "toy_swap own = \<lparr>sw_book = \<lparr>ab_eth = no_data\<lparr>kv_data := [(peerBeneficiaryKey (NewAddress [2]), [8])]\<rparr>,
       ab_peer = no_data, ab_flag = no_data\<rparr>,
     sw_chequebook = Some (cb_New [9] no_data no_data), sw_cheques = \<lparr>cs_store = no_data, cs_beneficiary = own\<rparr>,
     sw_cashouts = no_data\<rparr>"

definition toy_ledger :: accounting where "toy_ledger = NewAccounting 1000 10 50 no_data 5 10"

definition toy_view :: contract_view where
  "toy_view = \<lparr>cv_Balance = Some 100, cv_TotalPaidOut = Some 0, cv_PaidOut = \<lambda>_. Some 0, cv_Issuer = Some [7], cv_Verified = True\<rparr>"

definition toy_cheque :: signed_cheque where
  "toy_cheque = \<lparr>sc_Cheque = \<lparr>cq_Chequebook = [9], cq_Beneficiary = [8], cq_CumulativePayout = 23\<rparr>, sc_Signature = [7]\<rparr>"

lemma no_data_ok [simp]: "kv_ok no_data" "kv_reliable no_data" "kv_map no_data k = None" "kv_Get no_data k = Inl ErrNotFound"
  "kv_Put k v no_data = Inr (no_data\<lparr>kv_data := [(k, v)]\<rparr>)"
  by (simp_all add: no_data_def kv_ok_def kv_reliable_def kv_map_def kv_Get_def kv_Put_def)

lemma toy_states: "store_ok (ac_store toy_ledger)" "kv_ok (cs_store (sw_cheques (toy_swap own)))"
  by (simp_all add: toy_ledger_def NewAccounting_def Let_def store_ok_def surp_def value_of_def toy_swap_def)

lemma toy_headers: "settlement_rates (swap_headler (10, Some 3) p (toy_swap own)) = Inr (10, 3)"
  "settlement_rates (on_wire (swap_headler (10, Some 3) p (toy_swap own))) = Inr (10, 3)"
proof -
  have "nat_bytes 10 \<noteq> []" "nat_bytes 3 \<noteq> []" by (simp_all add: nat_bytes.simps)
  then show "settlement_rates (swap_headler (10, Some 3) p (toy_swap own)) = Inr (10, 3)"
    "settlement_rates (on_wire (swap_headler (10, Some 3) p (toy_swap own))) = Inr (10, 3)"
    by (simp_all add: swap_headler_def CurrentRates_def ab_GetDeductionFor_def ab_lookup_def toy_swap_def
        settlement_rates_def ParseExchangeHeader_def ParseDeductionHeader_def MakeSettlementHeaders_def on_wire_def)
qed

lemma toy_pay:
  "fst (swap_Pay (\<lambda>_. Some [7]) toy_view (10, Some 3) clock (NewAddress [2]) 2
     (Some (on_wire (swap_headler (10, Some 3) (NewAddress [1]) (toy_swap [8])))) True (toy_swap [6]) toy_ledger) = Some toy_cheque"
proof -
  have b: "ab_Beneficiary (NewAddress [2]) (sw_book (toy_swap [6])) = Some (Some [8])"
    by (simp add: ab_Beneficiary_def ab_lookup_def toy_swap_def kv_Get_def no_data_def)
  have e: "emit_rates (10, Some 3) (NewAddress [2]) (on_wire (swap_headler (10, Some 3) (NewAddress [1]) (toy_swap [8]))) (toy_swap [6]) = Inr (10, 3)"
  proof -
    have "ab_GetDeductionBy (NewAddress [2]) (sw_book (toy_swap [6])) = Some False"
      by (simp add: ab_GetDeductionBy_def ab_lookup_def toy_swap_def)
    then show ?thesis by (simp add: emit_rates_def toy_headers CurrentRates_def)
  qed
  have "\<exists>cb'. cb_Issue (\<lambda>_. Some [7]) toy_view [8] 23 (\<lambda>_. True) (cb_New [9] no_data no_data) = (Inr 77, Some toy_cheque, cb')"
    by (simp add: cb_Issue_def cb_New_def reserveTotalIssued_def AvailableBalance_def totalIssued_def toy_view_def
        issue_cheque_def cb_LastCheque_def issue_save_def issue_count_def toy_cheque_def Let_def)
  then obtain cb' where i: "cb_Issue (\<lambda>_. Some [7]) toy_view [8] 23 (\<lambda>_. True) (cb_New [9] no_data no_data) =
    (Inr 77, Some toy_cheque, cb')" by blast
  have c: "sw_chequebook (toy_swap [6]) = Some (cb_New [9] no_data no_data)" by (simp add: toy_swap_def)
  show ?thesis
    by (simp add: swap_Pay_def c b EmitCheque_def e i Let_def case_prod_beta split: option.split)
qed

lemma NotifyPaymentReceived_ok:
  assumes "store_ok (ac_store a)" "0 \<le> amount"
  shows "fst (NotifyPaymentReceived peer amount a) = None"
proof -
  obtain q a0 where g: "getAccountingPeer peer a = (q, a0)" by (metis prod.exhaust)
  obtain r q' a1 where f: "payment_received peer amount q a0 = (r, q', a1)" by (metis prod.exhaust)
  have "store_ok (ac_store a0)" using getAccountingPeer_store [OF g] assms(1) by simp
  from payment_received_store [OF this assms(2) f] f g show ?thesis
    by (simp add: NotifyPaymentReceived_def locked_def)
qed

lemma toy_recv:
  "fst (swap_handler (\<lambda>_. Some [7]) toy_view (NewAddress [1]) (swap_headler (10, Some 3) (NewAddress [1]) (toy_swap [8]))
     (ChequeMsg toy_cheque) (toy_swap [8]) toy_ledger) = None"
proof -
  have k: "ab_Chequebook (NewAddress [1]) (sw_book (toy_swap [8])) = Some None"
    by (simp add: ab_Chequebook_def ab_lookup_def toy_swap_def kv_Get_def no_data_def peerKey_def peerBeneficiaryKey_def)
  have "\<exists>cs. cs_ReceiveCheque (\<lambda>_. Some [7]) toy_view toy_cheque 10 3 (sw_cheques (toy_swap [8])) = (Inr 23, cs)"
    by (simp add: cs_ReceiveCheque_def check_cheque_def toy_cheque_def toy_view_def toy_swap_def Let_def)
  then obtain cs where r: "cs_ReceiveCheque (\<lambda>_. Some [7]) toy_view toy_cheque 10 3 (sw_cheques (toy_swap [8])) = (Inr 23, cs)"
    by blast
  have n: "fst (NotifyPaymentReceived (NewAddress [1]) 2 toy_ledger) = None"
    by (rule NotifyPaymentReceived_ok) (simp_all add: toy_states)
  have f: "\<exists>s'. swap_AddDeductionFor p (toy_swap [8]\<lparr>sw_cheques := cs\<rparr>) = (True, s') \<and> ab_eth (sw_book s') = ab_eth (sw_book (toy_swap [8])) \<and>
      ab_peer (sw_book s') = no_data" for p cs
    by (simp add: swap_AddDeductionFor_def ab_AddDeductionFor_def ab_put_flag_def toy_swap_def)
  have g: "fst (swap_PutChequebook p k s') = True" if "kv_reliable (ab_eth (sw_book s'))" "kv_reliable (ab_peer (sw_book s'))" for p k s'
    using that by (simp add: swap_PutChequebook_def ab_PutChequebook_def ab_put_eth_def ab_put_peer_def kv_Put_def kv_reliable_def)
  have rel: "kv_reliable (ab_eth (sw_book (toy_swap [8])))" by (simp add: toy_swap_def kv_reliable_def no_data_def)
  show ?thesis
    using f [of "NewAddress [1]" cs] g rel n
    by (auto simp: swap_handler_def toy_headers swap_ReceiveCheque_def k r Let_def case_prod_beta)
qed


lemma cheque_credits_covered_witness:
  "credits (\<lambda>_. Some [7]) [9] [\<lparr>rc_view = toy_view, rc_peer = NewAddress [1], rc_cheque = toy_cheque, rc_rate = 10, rc_deduction = 3\<rparr>]
     (toy_swap [8], toy_ledger) \<le>
   received_payout [9] (fst (receive_all (\<lambda>_. Some [7])
     [\<lparr>rc_view = toy_view, rc_peer = NewAddress [1], rc_cheque = toy_cheque, rc_rate = 10, rc_deduction = 3\<rparr>]
     (toy_swap [8], toy_ledger))) - received_payout [9] (toy_swap [8])"
  by (rule cheque_credits_covered) (simp_all add: toy_states)

end
