(* ===== verification/Bmt.thy ===== *)
theory Bmt
  imports Prelude "HOL-Library.Signed_Division"
begin

text \<open>
  \<open>pkg/bmt\<close> and \<open>pkg/bmt/reference\<close>: the hash of a chunk as a binary Merkle tree. The hasher
  starts a goroutine for every section of two segments; the goroutines climb the tree, and of
  the two that reach a node the second one hashes it. The state is a tree of nodes with an
  atomic toggle each and a pool of goroutines; a step is what a goroutine does between two
  accesses to shared memory, so every interleaving is a run of \<open>bmt_step\<close>.

  The base hash is a parameter: its digest size and a function on the bytes written since
  \<open>Reset\<close>. \<open>Write\<close> of a \<open>hash.Hash\<close> never returns an error, so \<open>doHash\<close> has none.
\<close>

section \<open>Configuration and trees (pool.go)\<close>

record base_hash =
  bh_Size :: nat
  bh_Sum :: "bytes \<Rightarrow> bytes"

definition doHash :: "base_hash \<Rightarrow> bytes list \<Rightarrow> bytes" where
  "doHash h data = bh_Sum h (concat data)"

text \<open>\<open>for ; c < n; c *= 2\<close>, with \<open>c\<close> at least 2.\<close>

function size_loop :: "nat \<Rightarrow> nat \<Rightarrow> nat \<Rightarrow> nat \<times> nat" where
  "size_loop n c d = (if 0 < c \<and> c < n then size_loop n (c * 2) (d + 1) else (c, d))"
  by pat_completeness auto
termination
  by (relation "measure (\<lambda>(n, c, d). n - c)") auto

declare size_loop.simps [simp del]

definition sizeToParams :: "nat \<Rightarrow> nat \<times> nat" where
  "sizeToParams n = (case size_loop n 2 0 of (c, d) \<Rightarrow> (c, d + 1))"

record bmt_conf =
  cf_segmentSize :: nat
  cf_segmentCount :: nat
  cf_capacity :: nat
  cf_depth :: nat
  cf_maxSize :: nat
  cf_zerohashes :: "bytes list"
  cf_hasher :: base_hash

text \<open>The loop that fills \<open>zerohashes\<close>: the entries of the levels still to come.\<close>

fun zerohash_loop :: "base_hash \<Rightarrow> nat \<Rightarrow> bytes \<Rightarrow> bytes list" where
  "zerohash_loop h 0 zeros = []"
| "zerohash_loop h (Suc k) zeros =
     (let zeros = doHash h [zeros, zeros] in zeros # zerohash_loop h k zeros)"

definition NewConf :: "base_hash \<Rightarrow> nat \<Rightarrow> nat \<Rightarrow> bmt_conf" where
  "NewConf h segmentCount capacity =
     (let (count, depth) = sizeToParams segmentCount;
          segmentSize = bh_Size h;
          zeros = replicate segmentSize 0
      in \<lparr>cf_segmentSize = segmentSize, cf_segmentCount = segmentCount, cf_capacity = capacity,
          cf_depth = depth, cf_maxSize = count * segmentSize,
          cf_zerohashes = zeros # zerohash_loop h depth zeros, cf_hasher = h\<rparr>)"

text \<open>
  A node is named by its level, the leaves having level 0 and the root \<open>depth - 1\<close>, and its
  index there. \<open>newTree\<close> links the node of index \<open>i\<close> to the parent of index \<open>i / 2\<close> and sets
  \<open>isLeft\<close> for an even index; neither changes afterwards.
\<close>

type_synonym node_id = "nat \<times> nat"

record node =
  nd_state :: u32
  nd_left :: bytes
  nd_right :: bytes

definition is_left :: "node_id \<Rightarrow> bool" where
  "is_left v = even (snd v)"

definition parent_node :: "node_id \<Rightarrow> node_id" where
  "parent_node v = (Suc (fst v), snd v div 2)"

definition is_root :: "bmt_conf \<Rightarrow> node_id \<Rightarrow> bool" where
  "is_root c v \<longleftrightarrow> cf_depth c \<le> Suc (fst v)"

definition newNode :: node where
  "newNode = \<lparr>nd_state = 0, nd_left = [], nd_right = []\<rparr>"

record bmt_tree =
  bt_nodes :: "node_id \<Rightarrow> node"
  bt_buffer :: bytes

definition newTree :: "bmt_conf \<Rightarrow> bmt_tree" where
  "newTree c = \<lparr>bt_nodes = (\<lambda>_. newNode), bt_buffer = replicate (cf_maxSize c) 0\<rparr>"

text \<open>\<open>atomic.AddInt32(&n.state, 1) % 2 == 1\<close>; the remainder has the sign of the state.\<close>

definition toggle :: "node \<Rightarrow> node \<times> bool" where
  "toggle n = (let s = nd_state n + 1 in (n\<lparr>nd_state := s\<rparr>, sint s smod 2 = 1))"

text \<open>The trees not in use; \<open>Get\<close> blocks while there is none, and makes a new hasher.\<close>

type_synonym bmt_pool = "bmt_tree list"

definition NewPool :: "bmt_conf \<Rightarrow> bmt_pool" where
  "NewPool c = replicate (cf_capacity c) (newTree c)"

section \<open>The hasher (bmt.go)\<close>

text \<open>
  A goroutine holds the node it comes from; \<open>n\<close> of the code is its parent, and \<open>n == nil\<close> is
  \<open>is_root\<close>. \<open>Section\<close> is about to hash its section, \<open>WriteAt\<close> and \<open>FinalAt\<close> stand at the head
  of the loops of \<open>writeNode\<close> and \<open>writeFinalNode\<close>, \<open>WriteToggle\<close> and \<open>FinalToggle\<close> before the
  atomic toggle, \<open>WriteHash\<close> and \<open>FinalHash\<close> before they read both halves of the node.
\<close>

datatype goroutine =
    Section nat bool
  | WriteAt node_id bytes
  | WriteToggle node_id
  | WriteHash node_id
  | FinalAt node_id "bytes option"
  | FinalToggle node_id
  | FinalHash node_id
  | Ended

record hasher =
  hr_tree :: bmt_tree
  hr_size :: nat
  hr_pos :: nat
  hr_offset :: nat
  hr_span :: bytes
  hr_go :: "goroutine list"

definition SpanSize :: nat where "SpanSize = 8"

definition pool_Get :: "bmt_pool \<Rightarrow> (hasher \<times> bmt_pool) option" where
  "pool_Get p =
     (case p of
        [] \<Rightarrow> None
      | t # ts \<Rightarrow> Some (\<lparr>hr_tree = t, hr_size = 0, hr_pos = 0, hr_offset = 0,
                         hr_span = replicate SpanSize 0, hr_go = []\<rparr>, ts))"

definition pool_Put :: "bmt_pool \<Rightarrow> hasher \<Rightarrow> bmt_pool" where
  "pool_Put p h = p @ [hr_tree h]"

definition LengthToSpan :: "u64 \<Rightarrow> bytes" where
  "LengthToSpan n = le_of_nat SpanSize (unat n)"

definition SetHeaderInt64 :: "u64 \<Rightarrow> hasher \<Rightarrow> hasher" where
  "SetHeaderInt64 n h = h\<lparr>hr_span := copy_at (hr_span h) 0 (le_of_nat 8 (unat n))\<rparr>"

definition SetHeader :: "bytes \<Rightarrow> hasher \<Rightarrow> hasher" where
  "SetHeader span h = h\<lparr>hr_span := copy_at (hr_span h) 0 span\<rparr>"

definition bmt_Reset :: "hasher \<Rightarrow> hasher" where
  "bmt_Reset h = h\<lparr>hr_pos := 0, hr_size := 0, hr_offset := 0,
     hr_span := copy_at (hr_span h) 0 (replicate 8 0)\<rparr>"

definition bmt_Write :: "bmt_conf \<Rightarrow> bytes \<Rightarrow> hasher \<Rightarrow> nat \<times> hasher" where
  "bmt_Write c b h =
     (let mx = cf_maxSize c - hr_size h;
          l = (if mx < length b then mx else length b);
          buffer = copy_at (bt_buffer (hr_tree h)) (hr_size h) b;
          secsize = 2 * cf_segmentSize c;
          from = hr_size h div secsize;
          to = (hr_size h + l) div secsize;
          to = (if l = mx then to - 1 else to)
      in (l, h\<lparr>hr_tree := (hr_tree h)\<lparr>bt_buffer := buffer\<rparr>,
               hr_offset := hr_size h mod secsize,
               hr_size := hr_size h + l,
               hr_pos := to,
               hr_go := hr_go h @ map (\<lambda>i. Section i False) [from..<to]\<rparr>))"

text \<open>
  What the goroutines do. A goroutine that has reached the root with a hash sends it over the
  unbuffered channel, which is the step of \<open>sent\<close> below.
\<close>

definition upd_node :: "node_id \<Rightarrow> (node \<Rightarrow> node) \<Rightarrow> hasher \<Rightarrow> hasher" where
  "upd_node n f h =
     h\<lparr>hr_tree := (hr_tree h)\<lparr>bt_nodes := (bt_nodes (hr_tree h))(n := f (bt_nodes (hr_tree h) n))\<rparr>\<rparr>"

definition node_at :: "hasher \<Rightarrow> node_id \<Rightarrow> node" where
  "node_at h n = bt_nodes (hr_tree h) n"

definition node_hash :: "bmt_conf \<Rightarrow> hasher \<Rightarrow> node_id \<Rightarrow> bytes" where
  "node_hash c h n = doHash (cf_hasher c) [nd_left (node_at h n), nd_right (node_at h n)]"

definition processSection :: "bmt_conf \<Rightarrow> hasher \<Rightarrow> nat \<Rightarrow> bool \<Rightarrow> goroutine" where
  "processSection c h i final =
     (let secsize = 2 * cf_segmentSize c;
          offset = i * secsize;
          sec = doHash (cf_hasher c) [slice offset (offset + secsize) (bt_buffer (hr_tree h))]
      in if final then FinalAt (0, i) (Some sec) else WriteAt (0, i) sec)"

definition writeNode_assign :: "hasher \<Rightarrow> node_id \<Rightarrow> bytes \<Rightarrow> hasher \<times> goroutine" where
  "writeNode_assign h v s =
     (upd_node (parent_node v) (\<lambda>n. if is_left v then n\<lparr>nd_left := s\<rparr> else n\<lparr>nd_right := s\<rparr>) h,
      WriteToggle v)"

definition writeNode_toggle :: "hasher \<Rightarrow> node_id \<Rightarrow> hasher \<times> goroutine" where
  "writeNode_toggle h v =
     (let (n, first) = toggle (node_at h (parent_node v))
      in (upd_node (parent_node v) (\<lambda>_. n) h, if first then Ended else WriteHash v))"

definition writeFinalNode_assign ::
  "bmt_conf \<Rightarrow> hasher \<Rightarrow> node_id \<Rightarrow> bytes option \<Rightarrow> hasher \<times> goroutine" where
  "writeFinalNode_assign c h v s =
     (let n = parent_node v; level = Suc (fst v)
      in if is_left v then
           let h = upd_node n (\<lambda>n. n\<lparr>nd_right := cf_zerohashes c ! level\<rparr>) h
           in case s of
                Some s \<Rightarrow> (upd_node n (\<lambda>n. n\<lparr>nd_left := s\<rparr>) h, FinalHash v)
              | None \<Rightarrow> (h, FinalToggle v)
         else
           case s of
             Some s \<Rightarrow> (upd_node n (\<lambda>n. n\<lparr>nd_right := s\<rparr>) h, FinalToggle v)
           | None \<Rightarrow> (h, FinalAt n None))"

definition writeFinalNode_toggle :: "hasher \<Rightarrow> node_id \<Rightarrow> hasher \<times> goroutine" where
  "writeFinalNode_toggle h v =
     (let (n, noHash) = toggle (node_at h (parent_node v))
      in (upd_node (parent_node v) (\<lambda>_. n) h,
          if noHash then FinalAt (parent_node v) None else FinalHash v))"

fun go_step :: "bmt_conf \<Rightarrow> hasher \<Rightarrow> goroutine \<Rightarrow> hasher \<times> goroutine" where
  "go_step c h (Section i final) = (h, processSection c h i final)"
| "go_step c h (WriteAt v s) = (if is_root c v then (h, WriteAt v s) else writeNode_assign h v s)"
| "go_step c h (WriteToggle v) = writeNode_toggle h v"
| "go_step c h (WriteHash v) = (h, WriteAt (parent_node v) (node_hash c h (parent_node v)))"
| "go_step c h (FinalAt v s) =
     (if is_root c v then (h, if s = None then Ended else FinalAt v s)
      else writeFinalNode_assign c h v s)"
| "go_step c h (FinalToggle v) = writeFinalNode_toggle h v"
| "go_step c h (FinalHash v) = (h, FinalAt (parent_node v) (Some (node_hash c h (parent_node v))))"
| "go_step c h Ended = (h, Ended)"

fun sent :: "bmt_conf \<Rightarrow> goroutine \<Rightarrow> bytes option" where
  "sent c (WriteAt v s) = (if is_root c v then Some s else None)"
| "sent c (FinalAt v s) = (if is_root c v then s else None)"
| "sent c _ = None"

text \<open>
  The caller, as in \<open>cac.hasher\<close>: some calls of \<open>Write\<close>, then \<open>Hash\<close>, which waits for the
  result. \<open>sha3\<close> is the hash of \<open>swarm.NewHasher\<close>.
\<close>

datatype caller = Writing "bytes list" | Waiting | Returned bytes

definition Hash_start :: "bmt_conf \<Rightarrow> base_hash \<Rightarrow> hasher \<Rightarrow> hasher \<times> caller" where
  "Hash_start c sha3 h =
     (if hr_size h = 0 then (h, Returned (doHash sha3 [hr_span h, cf_zerohashes c ! cf_depth c]))
      else (h\<lparr>hr_tree := (hr_tree h)\<lparr>bt_buffer :=
                copy_at (bt_buffer (hr_tree h)) (hr_size h) (replicate 64 0)\<rparr>,
              hr_go := hr_go h @ [Section (hr_pos h) True]\<rparr>, Waiting))"

inductive bmt_step :: "bmt_conf \<Rightarrow> base_hash \<Rightarrow> hasher \<times> caller \<Rightarrow> hasher \<times> caller \<Rightarrow> bool"
  for c :: bmt_conf and sha3 :: base_hash where
  call_Write: "bmt_step c sha3 (h, Writing (b # bs)) (snd (bmt_Write c b h), Writing bs)"
| call_Hash: "bmt_step c sha3 (h, Writing []) (Hash_start c sha3 h)"
| run: "k < length (hr_go h) \<Longrightarrow> hr_go h ! k = t \<Longrightarrow> t \<noteq> Ended \<Longrightarrow> sent c t = None \<Longrightarrow>
        go_step c h t = (h', t') \<Longrightarrow>
        bmt_step c sha3 (h, m) (h'\<lparr>hr_go := (hr_go h')[k := t']\<rparr>, m)"
| result: "k < length (hr_go h) \<Longrightarrow> hr_go h ! k = t \<Longrightarrow> sent c t = Some s \<Longrightarrow>
        bmt_step c sha3 (h, Waiting)
          (h\<lparr>hr_go := (hr_go h)[k := Ended]\<rparr>, Returned (doHash sha3 [hr_span h, s]))"

inductive_cases bmt_stepE: "bmt_step c sha3 s s'"

text \<open>The same steps as a function of a schedule: 0 is the caller, \<open>k + 1\<close> goroutine \<open>k\<close>.\<close>

fun bmt_sched :: "bmt_conf \<Rightarrow> base_hash \<Rightarrow> nat list \<Rightarrow> hasher \<times> caller \<Rightarrow> hasher \<times> caller" where
  "bmt_sched c sha3 [] s = s"
| "bmt_sched c sha3 (0 # ks) (h, m) =
     bmt_sched c sha3 ks
       (case m of
          Writing (b # bs) \<Rightarrow> (snd (bmt_Write c b h), Writing bs)
        | Writing [] \<Rightarrow> Hash_start c sha3 h
        | _ \<Rightarrow> (h, m))"
| "bmt_sched c sha3 (Suc k # ks) (h, m) =
     bmt_sched c sha3 ks
       (if k < length (hr_go h) \<and> hr_go h ! k \<noteq> Ended then
          case sent c (hr_go h ! k) of
            None \<Rightarrow> (case go_step c h (hr_go h ! k) of
                       (h', t') \<Rightarrow> (h'\<lparr>hr_go := (hr_go h')[k := t']\<rparr>, m))
          | Some s \<Rightarrow> if m = Waiting
                      then (h\<lparr>hr_go := (hr_go h)[k := Ended]\<rparr>, Returned (doHash sha3 [hr_span h, s]))
                      else (h, m)
        else (h, m))"

section \<open>The reference hasher (reference.go)\<close>

record ref_hasher =
  rh_maxDataLength :: nat
  rh_sectionLength :: nat
  rh_hasher :: base_hash

definition NewRefHasher :: "base_hash \<Rightarrow> nat \<Rightarrow> ref_hasher" where
  "NewRefHasher h n =
     \<lparr>rh_maxDataLength = fst (size_loop n 2 0) * bh_Size h,
      rh_sectionLength = 2 * bh_Size h, rh_hasher = h\<rparr>"

text \<open>A length that halving does not bring to the section length recurses for ever.\<close>

partial_function (option) rh_hash :: "ref_hasher \<Rightarrow> bytes \<Rightarrow> nat \<Rightarrow> bytes option" where
  [code]: "rh_hash rh data len =
     (if len = rh_sectionLength rh then Some (doHash (rh_hasher rh) [data])
      else
        Option.bind (rh_hash rh (take (len div 2) data) (len div 2)) (\<lambda>left.
        Option.bind (rh_hash rh (drop (len div 2) data) (len div 2)) (\<lambda>right.
          Some (doHash (rh_hasher rh) [left @ right]))))"

definition ref_Hash :: "ref_hasher \<Rightarrow> bytes \<Rightarrow> bytes option" where
  "ref_Hash rh data =
     (let d = replicate (rh_maxDataLength rh) 0;
          n = (if rh_maxDataLength rh < length data then rh_maxDataLength rh else length data)
      in rh_hash rh (copy_at d 0 (take n data)) (rh_maxDataLength rh))"

section \<open>Inclusion proofs (proof.go)\<close>

record bmt_proof =
  pf_Section :: bytes
  pf_Sisters :: "bytes list"
  pf_Span :: bytes

definition getSister :: "node \<Rightarrow> bool \<Rightarrow> bytes" where
  "getSister n isLeft = (if isLeft then nd_right n else nd_left n)"

text \<open>The loop of \<open>Proof\<close> over the parents of \<open>v\<close>, given how many there are.\<close>

fun sisters_from :: "hasher \<Rightarrow> nat \<Rightarrow> node_id \<Rightarrow> bytes list" where
  "sisters_from h 0 v = []"
| "sisters_from h (Suc k) v =
     getSister (node_at h (parent_node v)) (is_left v) # sisters_from h k (parent_node v)"

text \<open>None is a panic: the argument is out of its fixed range or not a leaf of the tree.\<close>

definition prover_Proof :: "bmt_conf \<Rightarrow> hasher \<Rightarrow> nat \<Rightarrow> bmt_proof option" where
  "prover_Proof c h i =
     (if 127 < i then None
      else
        let i = i div 2; secsize = 2 * cf_segmentSize c; offset = i * secsize
        in if 2 ^ (cf_depth c - 1) \<le> i then None
           else Some \<lparr>pf_Section = slice offset (offset + secsize) (bt_buffer (hr_tree h)),
                      pf_Sisters = sisters_from h (cf_depth c - 1) (0, i),
                      pf_Span = hr_span h\<rparr>)"

text \<open>\<open>Verify\<close>: more sisters than the tree has levels dereference the parent of the root.\<close>

fun verify_loop :: "bmt_conf \<Rightarrow> node_id \<Rightarrow> bytes \<Rightarrow> bytes list \<Rightarrow> bytes option" where
  "verify_loop c v rt [] = Some rt"
| "verify_loop c v rt (sister # sisters) =
     (if is_root c v then None
      else verify_loop c (parent_node v)
             (doHash (cf_hasher c) (if is_left v then [rt, sister] else [sister, rt])) sisters)"

definition prover_Verify :: "bmt_conf \<Rightarrow> base_hash \<Rightarrow> nat \<Rightarrow> bmt_proof \<Rightarrow> bytes option" where
  "prover_Verify c sha3 i p =
     (let i = i div 2
      in if 2 ^ (cf_depth c - 1) \<le> i then None
         else map_option (\<lambda>rt. doHash sha3 [pf_Span p, rt])
                (verify_loop c (0, i) (doHash (cf_hasher c) [pf_Section p]) (pf_Sisters p)))"

end
