(* ===== verification/Bmt_Inv.thy ===== *)
theory Bmt_Inv
  imports Bmt
begin

text \<open>
  The invariant of a hasher at work, for every interleaving of its goroutines. Each edge of the
  tree is crossed by one value, the hash of the subtree, and the edges on the path of the last
  section also by the final goroutine, which either carries that value or nothing. A \<open>tok\<close> says
  how far the crossings of an edge are: 0 not begun, 1 before the write, 2 before the toggle,
  3 before the hash, 4 over.
\<close>

section \<open>The toggle\<close>

definition clean :: "u32 \<Rightarrow> bool" where
  "clean s \<longleftrightarrow> 0 \<le> sint s \<and> even (sint s)"

lemma odd_sint: "odd (sint (w :: u32)) \<longleftrightarrow> odd w"
  using bit_sint_iff [of w 0] by (simp add: bit_0)

lemma sint_add1:
  assumes "clean s"
  shows "sint (s + 1) = sint s + 1"
proof -
  have "sint s < 2 ^ 31" using sint_lt [of s] by simp
  moreover have "sint s \<noteq> 2 ^ 31 - 1" using assms by (auto simp: clean_def)
  ultimately have lt: "sint s + 1 < 2 ^ 31" by simp
  have "sint (s + 1) = signed_take_bit 31 (sint s + 1)" by (simp add: sint_word_add)
  also have "\<dots> = sint s + 1" using assms lt by (simp add: clean_def signed_take_bit_int_eq_self)
  finally show ?thesis .
qed

lemma toggle_first: "clean s \<Longrightarrow> nd_state n = s \<Longrightarrow> toggle n = (n\<lparr>nd_state := s + 1\<rparr>, True)"
  using sint_add1 [of s] by (auto simp: toggle_def clean_def signed_modulo_int_def elim!: evenE)

lemma toggle_second: "clean s \<Longrightarrow> nd_state n = s + 1 \<Longrightarrow> toggle n = (n\<lparr>nd_state := s + 2\<rparr>, False)"
proof -
  assume a: "clean s" "nd_state n = s + 1"
  then have "even (sint (s + 2))" using odd_sint [of s] odd_sint [of "s + 2"] by (simp add: clean_def)
  then have "sint (s + 2) smod 2 \<noteq> 1" by (auto simp: signed_modulo_int_def elim!: evenE split: if_splits)
  with a show ?thesis by (simp add: toggle_def Let_def add.assoc)
qed

section \<open>The shape of the tree\<close>

text \<open>
  What is fixed in a run: the configuration, the number of the last section, the hashes of the
  subtrees and the states of the toggles at the start. The root has level \<open>rx_D\<close>.
\<close>

record run_ctx =
  rx_conf :: bmt_conf
  rx_D :: nat
  rx_P :: nat
  rx_V :: "node_id \<Rightarrow> bytes"
  rx_init :: "node_id \<Rightarrow> u32"

definition kid_l :: "node_id \<Rightarrow> node_id" where "kid_l n = (fst n - 1, 2 * snd n)"
definition kid_r :: "node_id \<Rightarrow> node_id" where "kid_r n = (fst n - 1, 2 * snd n + 1)"

text \<open>The nodes with a section, and those with the last one.\<close>

definition act :: "run_ctx \<Rightarrow> node_id \<Rightarrow> bool" where
  "act x v \<longleftrightarrow> fst v \<le> rx_D x \<and> snd v \<le> rx_P x div 2 ^ fst v"

definition onp :: "run_ctx \<Rightarrow> node_id \<Rightarrow> bool" where
  "onp x v \<longleftrightarrow> fst v \<le> rx_D x \<and> snd v = rx_P x div 2 ^ fst v"

lemma onp_act: "onp x v \<Longrightarrow> act x v"
  by (simp add: onp_def act_def)

lemma kid_parent: "kid_l (parent_node v) = v \<longleftrightarrow> is_left v" "kid_r (parent_node v) = v \<longleftrightarrow> \<not> is_left v"
proof -
  obtain l i where v: "v = (l, i)" by (cases v)
  show "kid_l (parent_node v) = v \<longleftrightarrow> is_left v"
    unfolding v kid_l_def parent_node_def is_left_def fst_conv snd_conv prod.inject by presburger
  show "kid_r (parent_node v) = v \<longleftrightarrow> \<not> is_left v"
    unfolding v kid_r_def parent_node_def is_left_def fst_conv snd_conv prod.inject by presburger
qed

lemma parent_kid: "0 < fst n \<Longrightarrow> parent_node (kid_l n) = n" "0 < fst n \<Longrightarrow> parent_node (kid_r n) = n"
  by (cases n; simp add: kid_l_def kid_r_def parent_node_def)+

lemma left_kid: "is_left (kid_l n)" "\<not> is_left (kid_r n)"
  by (simp_all add: kid_l_def kid_r_def is_left_def)

lemma div_pow_Suc: "(a :: nat) div 2 ^ Suc l = a div 2 ^ l div 2"
  by (simp only: power_Suc2 div_mult2_eq)

lemma act_parent: "act x v \<Longrightarrow> fst v < rx_D x \<Longrightarrow> act x (parent_node v)"
  unfolding act_def parent_node_def fst_conv snd_conv div_pow_Suc by (simp add: div_le_mono)

lemma onp_parent: "onp x v \<Longrightarrow> fst v < rx_D x \<Longrightarrow> onp x (parent_node v)"
  unfolding onp_def parent_node_def fst_conv snd_conv div_pow_Suc by simp

lemma kid_cases:
  assumes "0 < fst n"
  obtains l j q where "n = (Suc l, j)" "rx_P x div 2 ^ l = q" "rx_P x div 2 ^ Suc l = q div 2"
proof -
  obtain l j where "n = (Suc l, j)" using assms by (cases n; cases "fst n") auto
  then show ?thesis using that div_pow_Suc by blast
qed

lemma act_kid_l: "act x n \<Longrightarrow> 0 < fst n \<Longrightarrow> act x (kid_l n)"
  by (rule kid_cases [of n x], assumption) (auto simp: act_def kid_l_def simp del: power_Suc)

lemma onp_kid_l: "0 < fst n \<Longrightarrow> onp x (kid_l n) \<Longrightarrow> act x n \<Longrightarrow> onp x n \<and> \<not> act x (kid_r n)"
  by (rule kid_cases [of n x], assumption) (auto simp: onp_def act_def kid_l_def kid_r_def simp del: power_Suc)

lemma onp_kid_r: "0 < fst n \<Longrightarrow> onp x n \<Longrightarrow> act x (kid_r n) \<Longrightarrow> onp x (kid_r n)"
  by (rule kid_cases [of n x], assumption) (auto simp: onp_def act_def kid_r_def simp del: power_Suc)

lemma onp_no_kid_r: "0 < fst n \<Longrightarrow> act x n \<Longrightarrow> \<not> act x (kid_r n) \<Longrightarrow> onp x n \<and> onp x (kid_l n)"
  by (rule kid_cases [of n x], assumption) (auto simp: onp_def act_def kid_r_def kid_l_def simp del: power_Suc)

section \<open>What holds at a node\<close>

record tok =
  tk_ph :: nat
  tk_fin :: bool
  tk_zp :: nat

text \<open>Whether the final goroutine has arrived at an edge, and whether it has left it.\<close>

definition fhere :: "tok \<Rightarrow> bool" where
  "fhere t \<longleftrightarrow> tk_fin t \<and> 0 < tk_ph t \<or> 0 < tk_zp t"

definition fgone :: "tok \<Rightarrow> bool" where
  "fgone t \<longleftrightarrow> tk_fin t \<and> tk_ph t = 4 \<or> tk_zp t = 4"

text \<open>
  \<open>both_ok\<close> is about a node both of whose children have a section, with \<open>a\<close> and \<open>b\<close> the crossings
  of the edges to them and \<open>n\<close> that of the edge above; \<open>left_ok\<close> about one whose right child has
  none.
\<close>

definition both_ok :: "u32 \<Rightarrow> node \<Rightarrow> tok \<Rightarrow> tok \<Rightarrow> tok \<Rightarrow> bytes \<Rightarrow> bytes \<Rightarrow> bool" where
  "both_ok s nd a b n Va Vb \<longleftrightarrow>
     nd_state nd = s + of_bool (3 \<le> tk_ph a) + of_bool (3 \<le> tk_ph b) \<and>
     (tk_ph a = 3 \<longrightarrow> tk_ph b = 4) \<and> (tk_ph b = 3 \<longrightarrow> tk_ph a = 4) \<and>
     (0 < tk_ph n \<longleftrightarrow> tk_ph a = 4 \<and> tk_ph b = 4) \<and>
     (2 \<le> tk_ph a \<longrightarrow> nd_left nd = Va) \<and> (2 \<le> tk_ph b \<longrightarrow> nd_right nd = Vb) \<and>
     tk_zp b \<in> {0, 1, 4} \<and> \<not> tk_fin a \<and> tk_zp a = 0 \<and> (fgone b \<longleftrightarrow> fhere n)"

definition left_ok :: "u32 \<Rightarrow> node \<Rightarrow> tok \<Rightarrow> tok \<Rightarrow> bytes \<Rightarrow> bytes \<Rightarrow> bool" where
  "left_ok s nd a n Va Vb \<longleftrightarrow>
     nd_state nd = s + of_bool (\<not> tk_fin a \<and> 3 \<le> tk_ph a) + of_bool (3 \<le> tk_zp a) \<and>
     (\<not> tk_fin a \<and> tk_ph a = 3 \<longrightarrow> tk_zp a = 4) \<and> (tk_zp a = 3 \<longrightarrow> tk_ph a = 4) \<and>
     (0 < tk_ph n \<longleftrightarrow> tk_ph a = 4 \<and> (tk_fin a \<or> tk_zp a = 4)) \<and>
     (2 \<le> tk_ph a \<longrightarrow> nd_left nd = Va) \<and>
     (2 \<le> tk_zp a \<or> tk_fin a \<and> 2 \<le> tk_ph a \<longrightarrow> nd_right nd = Vb) \<and>
     (tk_fin a \<longrightarrow> tk_ph a \<noteq> 2) \<and> (fgone a \<longleftrightarrow> fhere n)"

lemmas tok_defs = both_ok_def left_ok_def fhere_def fgone_def

text \<open>A crossing that begins does not matter to the node above the edge.\<close>

definition begins :: "tok \<Rightarrow> tok \<Rightarrow> bool" where
  "begins t t' \<longleftrightarrow> t' = t \<or> tk_ph t = 0 \<and> tk_ph t' = 1 \<and> tk_zp t' = tk_zp t \<and> (tk_fin t' \<longrightarrow> tk_zp t = 0) \<and>
       (tk_fin t \<longrightarrow> tk_fin t') \<or>
     tk_zp t = 0 \<and> tk_zp t' = 1 \<and> tk_ph t' = tk_ph t \<and> \<not> tk_fin t \<and> \<not> tk_fin t'"

lemma both_begins_b:
  "both_ok s nd a b n Va Vb \<Longrightarrow> begins b b' \<Longrightarrow> both_ok s nd a b' n Va Vb"
  unfolding begins_def by (elim disjE conjE; simp add: tok_defs; (blast | auto)?)

lemma both_begins_a:
  "both_ok s nd a b n Va Vb \<Longrightarrow> begins a a' \<Longrightarrow> \<not> tk_fin a' \<Longrightarrow> tk_zp a' = 0 \<Longrightarrow> both_ok s nd a' b n Va Vb"
  unfolding begins_def by (elim disjE conjE; simp add: tok_defs; (blast | auto)?)

lemma left_begins:
  "left_ok s nd a n Va Vb \<Longrightarrow> begins a a' \<Longrightarrow> left_ok s nd a' n Va Vb"
  unfolding begins_def by (elim disjE conjE; simp add: tok_defs; (blast | auto)?)

text \<open>For the edge above, only what has begun matters.\<close>

definition begun_eq :: "tok \<Rightarrow> tok \<Rightarrow> bool" where
  "begun_eq t t' \<longleftrightarrow> (0 < tk_ph t \<longleftrightarrow> 0 < tk_ph t') \<and> (fhere t \<longleftrightarrow> fhere t')"

lemma both_begun: "both_ok s nd a b n Va Vb \<Longrightarrow> begun_eq n n' \<Longrightarrow> both_ok s nd a b n' Va Vb"
  by (simp add: both_ok_def begun_eq_def)

lemma left_begun: "left_ok s nd a n Va Vb \<Longrightarrow> begun_eq n n' \<Longrightarrow> left_ok s nd a n' Va Vb"
  by (simp add: left_ok_def begun_eq_def)

text \<open>The writes.\<close>

lemma both_write_a:
  "both_ok s nd a b n Va Vb \<Longrightarrow> tk_ph a = 1 \<Longrightarrow> both_ok s (nd\<lparr>nd_left := Va\<rparr>) (a\<lparr>tk_ph := 2\<rparr>) b n Va Vb"
  by (simp add: tok_defs; (blast | auto)?)

lemma both_write_b:
  "both_ok s nd a b n Va Vb \<Longrightarrow> tk_ph b = 1 \<Longrightarrow> both_ok s (nd\<lparr>nd_right := Vb\<rparr>) a (b\<lparr>tk_ph := 2\<rparr>) n Va Vb"
  by (simp add: tok_defs; (blast | auto)?)

lemma left_write:
  "left_ok s nd a n Va Vb \<Longrightarrow> tk_ph a = 1 \<Longrightarrow> \<not> tk_fin a \<Longrightarrow>
   left_ok s (nd\<lparr>nd_left := Va\<rparr>) (a\<lparr>tk_ph := 2\<rparr>) n Va Vb"
  by (simp add: tok_defs; (blast | auto)?)

lemma left_final_value:
  "left_ok s nd a n Va Vb \<Longrightarrow> tk_ph a = 1 \<Longrightarrow> tk_fin a \<Longrightarrow>
   left_ok s (nd\<lparr>nd_right := Vb, nd_left := Va\<rparr>) (a\<lparr>tk_ph := 3\<rparr>) n Va Vb"
  by (simp add: tok_defs; (blast | auto)?)

lemma left_final_nil:
  "left_ok s nd a n Va Vb \<Longrightarrow> tk_zp a = 1 \<Longrightarrow> left_ok s (nd\<lparr>nd_right := Vb\<rparr>) (a\<lparr>tk_zp := 2\<rparr>) n Va Vb"
  by (simp add: tok_defs; (blast | auto)?)

lemma both_final_nil:
  "both_ok s nd a b n Va Vb \<Longrightarrow> tk_zp b = 1 \<Longrightarrow> \<not> tk_fin b \<Longrightarrow>
   both_ok s nd a (b\<lparr>tk_zp := 4\<rparr>) (n\<lparr>tk_zp := 1\<rparr>) Va Vb"
  by (simp add: tok_defs; (blast | auto)?)

text \<open>The toggles.\<close>

lemma both_toggle_a:
  assumes "both_ok s nd a b n Va Vb" "clean s" "tk_ph a = 2" "tk_ph b \<le> 4"
  shows "toggle nd = (nd\<lparr>nd_state := s + 1\<rparr>, True) \<and>
           both_ok s (nd\<lparr>nd_state := s + 1\<rparr>) (a\<lparr>tk_ph := 4\<rparr>) b n Va Vb \<or>
         toggle nd = (nd\<lparr>nd_state := s + 2\<rparr>, False) \<and>
           both_ok s (nd\<lparr>nd_state := s + 2\<rparr>) (a\<lparr>tk_ph := 3\<rparr>) b n Va Vb"
proof (cases "3 \<le> tk_ph b")
  case True
  then have "toggle nd = (nd\<lparr>nd_state := s + 2\<rparr>, False)"
    using assms by (intro toggle_second) (simp_all add: both_ok_def)
  then show ?thesis using assms True by (simp add: tok_defs; auto)
next
  case False
  then have "toggle nd = (nd\<lparr>nd_state := s + 1\<rparr>, True)"
    using assms by (intro toggle_first) (simp_all add: both_ok_def)
  then show ?thesis using assms False by (simp add: tok_defs; auto)
qed

lemma both_toggle_b:
  assumes "both_ok s nd a b n Va Vb" "clean s" "tk_ph b = 2" "tk_ph a \<le> 4"
  shows "toggle nd = (nd\<lparr>nd_state := s + 1\<rparr>, True) \<and>
           both_ok s (nd\<lparr>nd_state := s + 1\<rparr>) a (b\<lparr>tk_ph := 4\<rparr>) (if tk_fin b then n\<lparr>tk_zp := 1\<rparr> else n) Va Vb \<or>
         toggle nd = (nd\<lparr>nd_state := s + 2\<rparr>, False) \<and>
           both_ok s (nd\<lparr>nd_state := s + 2\<rparr>) a (b\<lparr>tk_ph := 3\<rparr>) n Va Vb"
proof (cases "3 \<le> tk_ph a")
  case True
  then have "toggle nd = (nd\<lparr>nd_state := s + 2\<rparr>, False)"
    using assms by (intro toggle_second) (simp_all add: both_ok_def)
  then show ?thesis using assms True by (simp add: tok_defs; auto)
next
  case False
  then have "toggle nd = (nd\<lparr>nd_state := s + 1\<rparr>, True)"
    using assms by (intro toggle_first) (simp_all add: both_ok_def)
  then show ?thesis using assms False by (simp add: tok_defs; auto)
qed

lemma left_toggle_value:
  assumes "left_ok s nd a n Va Vb" "clean s" "tk_ph a = 2" "tk_zp a \<le> 4"
  shows "toggle nd = (nd\<lparr>nd_state := s + 1\<rparr>, True) \<and>
           left_ok s (nd\<lparr>nd_state := s + 1\<rparr>) (a\<lparr>tk_ph := 4\<rparr>) n Va Vb \<or>
         toggle nd = (nd\<lparr>nd_state := s + 2\<rparr>, False) \<and>
           left_ok s (nd\<lparr>nd_state := s + 2\<rparr>) (a\<lparr>tk_ph := 3\<rparr>) n Va Vb"
proof (cases "3 \<le> tk_zp a")
  case True
  then have "toggle nd = (nd\<lparr>nd_state := s + 2\<rparr>, False)"
    using assms by (intro toggle_second) (simp_all add: left_ok_def)
  then show ?thesis using assms True by (simp add: tok_defs; auto)
next
  case False
  then have "toggle nd = (nd\<lparr>nd_state := s + 1\<rparr>, True)"
    using assms by (intro toggle_first) (simp_all add: left_ok_def)
  then show ?thesis using assms False by (simp add: tok_defs; auto)
qed

lemma left_toggle_nil:
  assumes "left_ok s nd a n Va Vb" "clean s" "tk_zp a = 2" "\<not> tk_fin a" "tk_ph a \<le> 4"
  shows "toggle nd = (nd\<lparr>nd_state := s + 1\<rparr>, True) \<and>
           left_ok s (nd\<lparr>nd_state := s + 1\<rparr>) (a\<lparr>tk_zp := 4\<rparr>) (n\<lparr>tk_zp := 1\<rparr>) Va Vb \<or>
         toggle nd = (nd\<lparr>nd_state := s + 2\<rparr>, False) \<and>
           left_ok s (nd\<lparr>nd_state := s + 2\<rparr>) (a\<lparr>tk_zp := 3\<rparr>) n Va Vb"
proof (cases "3 \<le> tk_ph a")
  case True
  then have "toggle nd = (nd\<lparr>nd_state := s + 2\<rparr>, False)"
    using assms by (intro toggle_second) (simp_all add: left_ok_def)
  then show ?thesis using assms True by (simp add: tok_defs; auto)
next
  case False
  then have "toggle nd = (nd\<lparr>nd_state := s + 1\<rparr>, True)"
    using assms by (intro toggle_first) (simp_all add: left_ok_def)
  then show ?thesis using assms False by (simp add: tok_defs; auto)
qed

text \<open>The hashes.\<close>

lemma both_hash_a:
  "both_ok s nd a b n Va Vb \<Longrightarrow> tk_ph a = 3 \<Longrightarrow> \<not> tk_fin n \<Longrightarrow>
   nd_left nd = Va \<and> nd_right nd = Vb \<and> tk_ph n = 0 \<and>
   both_ok s nd (a\<lparr>tk_ph := 4\<rparr>) b (n\<lparr>tk_ph := 1\<rparr>) Va Vb"
  by (simp add: tok_defs; (blast | auto)?)

lemma both_hash_b:
  "both_ok s nd a b n Va Vb \<Longrightarrow> tk_ph b = 3 \<Longrightarrow> \<not> tk_fin n \<Longrightarrow> (tk_fin b \<longrightarrow> tk_zp b = 0) \<Longrightarrow>
   nd_left nd = Va \<and> nd_right nd = Vb \<and> tk_ph n = 0 \<and> (tk_fin b \<longrightarrow> tk_zp n = 0) \<and>
   both_ok s nd a (b\<lparr>tk_ph := 4\<rparr>) (n\<lparr>tk_ph := 1, tk_fin := tk_fin b\<rparr>) Va Vb"
  by (simp add: tok_defs; (blast | auto)?)

lemma left_hash:
  "left_ok s nd a n Va Vb \<Longrightarrow> tk_ph a = 3 \<Longrightarrow> \<not> tk_fin n \<Longrightarrow> (tk_fin a \<longrightarrow> tk_zp a = 0) \<Longrightarrow>
   nd_left nd = Va \<and> nd_right nd = Vb \<and> tk_ph n = 0 \<and> (tk_fin a \<longrightarrow> tk_zp n = 0) \<and>
   left_ok s nd (a\<lparr>tk_ph := 4\<rparr>) (n\<lparr>tk_ph := 1, tk_fin := tk_fin a\<rparr>) Va Vb"
  by (simp add: tok_defs; (blast | auto)?)

lemma left_hash_nil:
  "left_ok s nd a n Va Vb \<Longrightarrow> tk_zp a = 3 \<Longrightarrow> \<not> tk_fin a \<Longrightarrow> \<not> tk_fin n \<Longrightarrow>
   nd_left nd = Va \<and> nd_right nd = Vb \<and> tk_ph n = 0 \<and> tk_zp n = 0 \<and>
   left_ok s nd (a\<lparr>tk_zp := 4\<rparr>) (n\<lparr>tk_ph := 1, tk_fin := True\<rparr>) Va Vb"
  by (simp add: tok_defs; (blast | auto)?)

end
