(* ===== verification/Bmt_Tree.thy ===== *)
theory Bmt_Tree
  imports Bmt_Inv
begin

text \<open>
  The invariant over the whole tree and the pool of goroutines: every node with a section is as
  Bmt\_Inv says, and the goroutines that have not ended are exactly the crossings that are under
  way. Every step of a goroutine keeps it.
\<close>

definition tok_ok :: "run_ctx \<Rightarrow> node_id \<Rightarrow> tok \<Rightarrow> bool" where
  "tok_ok x v t \<longleftrightarrow>
     tk_ph t \<le> 4 \<and> tk_zp t \<le> 4 \<and> (tk_fin t \<longrightarrow> tk_zp t = 0) \<and> (tk_fin t \<or> 0 < tk_zp t \<longrightarrow> onp x v) \<and>
     (0 < tk_ph t \<longrightarrow> act x v) \<and> (0 < fst v \<and> tk_fin t \<longrightarrow> 0 < tk_ph t) \<and>
     (fst v = 0 \<longrightarrow> tk_zp t = 0 \<and> (tk_fin t \<longleftrightarrow> snd v = rx_P x)) \<and>
     (fst v = rx_D x \<longrightarrow> tk_ph t \<in> {0, 1, 4} \<and> tk_zp t \<in> {0, 1, 4})"

definition node_inv :: "run_ctx \<Rightarrow> (node_id \<Rightarrow> node) \<Rightarrow> (node_id \<Rightarrow> tok) \<Rightarrow> node_id \<Rightarrow> bool" where
  "node_inv x nodes tk n \<longleftrightarrow>
     (if act x (kid_r n)
      then both_ok (rx_init x n) (nodes n) (tk (kid_l n)) (tk (kid_r n)) (tk n) (rx_V x (kid_l n)) (rx_V x (kid_r n))
      else left_ok (rx_init x n) (nodes n) (tk (kid_l n)) (tk n) (rx_V x (kid_l n)) (rx_V x (kid_r n)))"

definition tree_inv :: "run_ctx \<Rightarrow> (node_id \<Rightarrow> node) \<Rightarrow> (node_id \<Rightarrow> tok) \<Rightarrow> bool" where
  "tree_inv x nodes tk \<longleftrightarrow>
     (\<forall>v. tok_ok x v (tk v)) \<and>
     (\<forall>n. 0 < fst n \<longrightarrow> act x n \<longrightarrow> node_inv x nodes tk n) \<and>
     (\<forall>n. \<not> (0 < fst n \<and> act x n) \<longrightarrow> nd_state (nodes n) = rx_init x n)"

lemma kid_facts [simp]:
  "0 < fst m \<Longrightarrow> fst (kid_l m) = fst m - 1" "0 < fst m \<Longrightarrow> fst (kid_r m) = fst m - 1"
  "fst (parent_node v) = Suc (fst v)"
  by (simp_all add: kid_l_def kid_r_def parent_node_def)

lemma tree_invD:
  assumes "tree_inv x nodes tk"
  shows "tok_ok x v (tk v)"
    and "0 < fst n \<Longrightarrow> act x n \<Longrightarrow> node_inv x nodes tk n"
    and "\<not> (0 < fst n \<and> act x n) \<Longrightarrow> nd_state (nodes n) = rx_init x n"
  using assms unfolding tree_inv_def by blast+

lemma tree_invI:
  assumes "\<And>v. tok_ok x v (tk v)" "\<And>n. 0 < fst n \<Longrightarrow> act x n \<Longrightarrow> node_inv x nodes tk n"
    "\<And>n. \<not> (0 < fst n \<and> act x n) \<Longrightarrow> nd_state (nodes n) = rx_init x n"
  shows "tree_inv x nodes tk"
  using assms unfolding tree_inv_def by blast

lemma tree_update:
  assumes T: "tree_inv x nodes tk" and v: "act x v" "fst v < rx_D x" and n: "n = parent_node v"
    and tv: "begun_eq (tk v) tv" "tok_ok x v tv" and tn: "begins (tk n) tn" "tok_ok x n tn"
    and N: "node_inv x (nodes(n := nd)) (tk(v := tv, n := tn)) n"
  shows "tree_inv x (nodes(n := nd)) (tk(v := tv, n := tn))"
proof -
  have lv: "fst n = Suc (fst v)" using n by simp
  have nv: "n \<noteq> v" using lv by auto
  have "node_inv x (nodes(n := nd)) (tk(v := tv, n := tn)) m" if m: "0 < fst m" "act x m" for m
  proof -
    have old: "node_inv x nodes tk m" using tree_invD(2) [OF T] m by blast
    consider "m = n" | "m = v" | "m = parent_node n" | "m \<noteq> n" "m \<noteq> v" "m \<noteq> parent_node n" by blast
    then show ?thesis
    proof cases
      case 2
      have f: "fst (kid_l v) < fst v" "fst (kid_r v) < fst v" using m 2 by simp_all
      have "kid_l v \<noteq> v" "kid_r v \<noteq> v" "kid_l v \<noteq> n" "kid_r v \<noteq> n"
        using f lv by (metis less_irrefl less_SucI)+
      then show ?thesis using old nv tv(1) unfolding 2 node_inv_def
        by (auto intro: both_begun left_begun split: if_splits)
    next
      case 3
      have f: "fst m = Suc (fst n)" "fst (kid_l m) = fst n" "fst (kid_r m) = fst n" using m 3 by simp_all
      have neq: "m \<noteq> n" "m \<noteq> v" "kid_l m \<noteq> v" "kid_r m \<noteq> v"
        using f lv by (metis n_not_Suc_n less_irrefl less_SucI lessI)+
      show ?thesis
      proof (cases "is_left n")
        case True
        then have k: "kid_l m = n" using kid_parent(1) [of n] 3 by simp
        have r: "kid_r m \<noteq> n" using True left_kid(2) by metis
        have "\<not> onp x n" if "act x (kid_r m)" using onp_kid_l [of m x] m k that by auto
        then have "\<not> tk_fin tn \<and> tk_zp tn = 0" if "act x (kid_r m)"
          using tn(2) that by (auto simp: tok_ok_def)
        then show ?thesis using old neq k r tn(1) unfolding node_inv_def
          by (auto intro: both_begins_a left_begins split: if_splits)
      next
        case False
        then have k: "kid_r m = n" using kid_parent(2) [of n] 3 by simp
        have r: "kid_l m \<noteq> n" using False left_kid(1) by metis
        show ?thesis using old neq k r tn(1) unfolding node_inv_def
          by (auto intro: both_begins_b split: if_splits)
      qed
    next
      case 4
      have "kid_l m \<noteq> v" "kid_r m \<noteq> v" "kid_l m \<noteq> n" "kid_r m \<noteq> n"
        using 4 n parent_kid m by metis+
      then show ?thesis using old 4 by (simp add: node_inv_def)
    qed (use N in simp)
  qed
  moreover have "act x n" "0 < fst n" using act_parent v n by auto
  ultimately show ?thesis using tree_invD(1,3) [OF T] tv(2) tn(2) nv
    by (intro tree_invI) (auto simp del: split_paired_All)
qed

text \<open>A section is hashed.\<close>

lemma tree_leaf:
  assumes T: "tree_inv x nodes tk" and v: "fst v = 0"
    and tv: "begins (tk v) tv" "tok_ok x v tv"
  shows "tree_inv x nodes (tk(v := tv))"
proof -
  have "node_inv x nodes (tk(v := tv)) m" if m: "0 < fst m" "act x m" for m
  proof -
    have old: "node_inv x nodes tk m" using tree_invD(2) [OF T] m by blast
    have mv: "m \<noteq> v" using m v by auto
    have lr: "kid_l m \<noteq> kid_r m" using left_kid by metis
    consider "kid_l m = v" | "kid_r m = v" | "kid_l m \<noteq> v" "kid_r m \<noteq> v" by blast
    then show ?thesis
    proof cases
      case 1
      have "\<not> onp x v" if "act x (kid_r m)" using onp_kid_l [of m x] m 1 that by auto
      then have "\<not> tk_fin tv \<and> tk_zp tv = 0" if "act x (kid_r m)"
        using tv(2) that by (auto simp: tok_ok_def)
      then show ?thesis using old 1 lr mv tv(1) unfolding node_inv_def
        by (auto intro: both_begins_a left_begins split: if_splits)
    next
      case 2
      then show ?thesis using old lr mv tv(1) unfolding node_inv_def
        by (auto intro: both_begins_b split: if_splits)
    next
      case 3
      then show ?thesis using old mv by (simp add: node_inv_def)
    qed
  qed
  then show ?thesis using tree_invD(1,3) [OF T] tv(2) by (intro tree_invI) auto
qed

text \<open>The crossing above the root, which is the result, ends.\<close>

lemma tree_root:
  assumes T: "tree_inv x nodes tk" and v: "fst v = rx_D x"
    and tv: "begun_eq (tk v) tv" "tok_ok x v tv"
  shows "tree_inv x nodes (tk(v := tv))"
proof -
  have "node_inv x nodes (tk(v := tv)) m" if m: "0 < fst m" "act x m" for m
  proof -
    have old: "node_inv x nodes tk m" using tree_invD(2) [OF T] m by blast
    have "fst m \<le> rx_D x" using m by (simp add: act_def)
    then have "fst (kid_l m) < fst v" "fst (kid_r m) < fst v" using m v by auto
    then have k: "kid_l m \<noteq> v" "kid_r m \<noteq> v" by (metis less_irrefl)+
    show ?thesis
    proof (cases "m = v")
      case True
      then show ?thesis using old k tv(1) unfolding node_inv_def
        by (auto intro: both_begun left_begun split: if_splits)
    next
      case False
      then show ?thesis using old k by (simp add: node_inv_def)
    qed
  qed
  then show ?thesis using tree_invD(1,3) [OF T] tv(2) by (intro tree_invI) auto
qed

end
