(* ===== verification/Bmt_Go.thy ===== *)
theory Bmt_Go
  imports Bmt_Tree
begin

text \<open>
  The goroutines that a state of the crossings asks for, and that every step of one of them
  keeps the pool and the tree in agreement.
\<close>

fun live :: "run_ctx \<Rightarrow> nat \<Rightarrow> (node_id \<Rightarrow> tok) \<Rightarrow> goroutine \<Rightarrow> bool" where
  "live x n tk (Section i final) \<longleftrightarrow> i < n \<and> tk_ph (tk (0, i)) = 0 \<and> final = (i = rx_P x)"
| "live x n tk (WriteAt v s) \<longleftrightarrow> tk_ph (tk v) = 1 \<and> \<not> tk_fin (tk v) \<and> s = rx_V x v"
| "live x n tk (WriteToggle v) \<longleftrightarrow> tk_ph (tk v) = 2 \<and> \<not> tk_fin (tk v)"
| "live x n tk (WriteHash v) \<longleftrightarrow> tk_ph (tk v) = 3 \<and> \<not> tk_fin (tk v)"
| "live x n tk (FinalAt v s) \<longleftrightarrow>
     (case s of None \<Rightarrow> tk_zp (tk v) = 1 | Some s \<Rightarrow> tk_ph (tk v) = 1 \<and> tk_fin (tk v) \<and> s = rx_V x v)"
| "live x n tk (FinalToggle v) \<longleftrightarrow> tk_ph (tk v) = 2 \<and> tk_fin (tk v) \<or> tk_zp (tk v) = 2"
| "live x n tk (FinalHash v) \<longleftrightarrow> tk_ph (tk v) = 3 \<and> tk_fin (tk v) \<or> tk_zp (tk v) = 3"
| "live x n tk Ended \<longleftrightarrow> False"

definition pool_ok :: "goroutine list \<Rightarrow> (goroutine \<Rightarrow> bool) \<Rightarrow> bool" where
  "pool_ok pool L \<longleftrightarrow> (\<forall>t. t \<noteq> Ended \<longrightarrow> count (mset pool) t = of_bool (L t))"

definition goes :: "(goroutine \<Rightarrow> bool) \<Rightarrow> (goroutine \<Rightarrow> bool) \<Rightarrow> goroutine \<Rightarrow> goroutine \<Rightarrow> bool" where
  "goes L L' t t' \<longleftrightarrow> (\<forall>u. u \<noteq> Ended \<longrightarrow> (L' u \<longleftrightarrow> L u \<and> u \<noteq> t \<or> u = t')) \<and> \<not> L t'"

lemma pool_live: "pool_ok pool L \<Longrightarrow> k < length pool \<Longrightarrow> pool ! k = t \<Longrightarrow> t \<noteq> Ended \<Longrightarrow> L t"
  unfolding pool_ok_def by (metis count_eq_zero_iff nth_mem_mset of_bool_eq(1))

lemma live_pool: "pool_ok pool L \<Longrightarrow> L t \<Longrightarrow> t \<noteq> Ended \<Longrightarrow> \<exists>k < length pool. pool ! k = t"
  unfolding pool_ok_def by (metis count_eq_zero_iff in_set_conv_nth of_bool_eq(2) set_mset_mset zero_neq_one)

lemma pool_goes:
  assumes P: "pool_ok pool L" "k < length pool" "pool ! k = t" "t \<noteq> Ended" and G: "goes L L' t t'"
  shows "pool_ok (pool[k := t']) L'"
  unfolding pool_ok_def
proof (intro allI impI)
  fix u :: goroutine assume u: "u \<noteq> Ended"
  have Lt: "L t" using pool_live P by blast
  have c: "count (mset pool) w = of_bool (L w)" if "w \<noteq> Ended" for w using P(1) that by (simp add: pool_ok_def)
  have "count (mset (pool[k := t'])) u = of_bool (u = t') + (of_bool (L u) - of_bool (u = t))"
    using P(2,3) c [OF u] by (simp add: mset_update)
  then show "count (mset (pool[k := t'])) u = of_bool (L' u)"
    using G u Lt unfolding goes_def by (cases "u = t'"; cases "u = t") auto
qed

text \<open>What the context must satisfy.\<close>

definition ctx_ok :: "run_ctx \<Rightarrow> bool" where
  "ctx_ok x \<longleftrightarrow>
     cf_depth (rx_conf x) = Suc (rx_D x) \<and> (\<forall>v. clean (rx_init x v)) \<and>
     (\<forall>n. 0 < fst n \<longrightarrow> act x n \<longrightarrow>
        rx_V x n = doHash (cf_hasher (rx_conf x)) [rx_V x (kid_l n), rx_V x (kid_r n)] \<and>
        (\<not> act x (kid_r n) \<longrightarrow> rx_V x (kid_r n) = cf_zerohashes (rx_conf x) ! fst n))"

text \<open>A step of a goroutine: what becomes of the crossings.\<close>

definition unspawned :: "nat \<Rightarrow> (node_id \<Rightarrow> tok) \<Rightarrow> bool" where
  "unspawned n tk \<longleftrightarrow> (\<forall>i. n \<le> i \<longrightarrow> tk_ph (tk (0, i)) = 0)"

definition go_ok :: "run_ctx \<Rightarrow> nat \<Rightarrow> hasher \<Rightarrow> (node_id \<Rightarrow> tok) \<Rightarrow> goroutine \<Rightarrow> hasher \<times> goroutine \<Rightarrow> bool" where
  "go_ok x n h tk t r \<longleftrightarrow>
     (\<exists>tk' nodes. fst r = h\<lparr>hr_tree := (hr_tree h)\<lparr>bt_nodes := nodes\<rparr>\<rparr> \<and> tree_inv x nodes tk' \<and>
        goes (live x n tk) (live x n tk') t (snd r) \<and> unspawned n tk' \<and>
        (\<forall>v. fst v = rx_D x \<longrightarrow> (tk_ph (tk' v) = 4 \<longleftrightarrow> tk_ph (tk v) = 4)))"

lemma not_parent [simp]: "parent_node v \<noteq> v" "v \<noteq> parent_node v"
  by (cases v; simp add: parent_node_def)+

text \<open>The invariant of the node above \<open>v\<close>, by the kind of \<open>v\<close>.\<close>

definition node_kind :: "run_ctx \<Rightarrow> node_id \<Rightarrow> node \<Rightarrow> tok \<Rightarrow> (node_id \<Rightarrow> tok) \<Rightarrow> tok \<Rightarrow> bool" where
  "node_kind x v nd tv tk tn \<longleftrightarrow>
     (let n = parent_node v
      in if \<not> is_left v then both_ok (rx_init x n) nd (tk (kid_l n)) tv tn (rx_V x (kid_l n)) (rx_V x v)
         else if act x (kid_r n) then both_ok (rx_init x n) nd tv (tk (kid_r n)) tn (rx_V x v) (rx_V x (kid_r n))
         else left_ok (rx_init x n) nd tv tn (rx_V x v) (rx_V x (kid_r n)))"

lemma node_upd:
  assumes "act x v"
  shows "node_inv x (nodes(parent_node v := nd)) (tk(v := tv, parent_node v := tn)) (parent_node v)
         \<longleftrightarrow> node_kind x v nd tv tk tn"
proof (cases "is_left v")
  case True
  then have "kid_l (parent_node v) = v" "kid_r (parent_node v) \<noteq> v" using kid_parent by auto
  moreover have "kid_r (parent_node v) \<noteq> parent_node v"
    using kid_facts(2,3) [of "parent_node v"] by (metis diff_Suc_1 n_not_Suc_n zero_less_Suc kid_facts(2,3))
  ultimately show ?thesis using True by (simp add: node_inv_def node_kind_def Let_def)
next
  case False
  then have "kid_r (parent_node v) = v" "kid_l (parent_node v) \<noteq> v" using kid_parent by auto
  moreover have "kid_l (parent_node v) \<noteq> parent_node v"
    by (metis diff_Suc_1 n_not_Suc_n zero_less_Suc kid_facts(1,3))
  ultimately show ?thesis using False assms by (simp add: node_inv_def node_kind_def Let_def)
qed

lemma node_same: "act x v \<Longrightarrow> node_inv x nodes tk (parent_node v) \<longleftrightarrow>
    node_kind x v (nodes (parent_node v)) (tk v) tk (tk (parent_node v))"
  using node_upd [of x v nodes "nodes (parent_node v)" tk "tk v" "tk (parent_node v)"] by simp

lemma go_update:
  assumes T: "tree_inv x (bt_nodes (hr_tree h)) tk" "unspawned n tk" "live x n tk t"
    and v: "act x v" "fst v < rx_D x"
    and tv: "begun_eq (tk v) tv" "tok_ok x v tv"
    and tn: "begins (tk (parent_node v)) tn" "tok_ok x (parent_node v) tn"
    and N: "node_kind x v nd tv tk tn"
    and G: "goes (live x n tk) (live x n (tk(v := tv, parent_node v := tn))) t t'"
  shows "go_ok x n h tk t (upd_node (parent_node v) (\<lambda>_. nd) h, t')"
proof -
  have "unspawned n (tk(v := tv, parent_node v := tn))"
    using T(2) tv(1) by (auto simp: unspawned_def begun_eq_def parent_node_def)
  moreover have "tk_ph ((tk(v := tv, parent_node v := tn)) w) = 4 \<longleftrightarrow> tk_ph (tk w) = 4" if "fst w = rx_D x" for w
    using that v(2) tn(1) by (auto simp: begins_def)
  ultimately show ?thesis
    using tree_update [OF T(1) v refl tv tn node_upd [OF v(1), THEN iffD2, OF N]] G
    unfolding go_ok_def upd_node_def
    by (intro exI [of _ "tk(v := tv, parent_node v := tn)"] exI [of _ "(bt_nodes (hr_tree h))(parent_node v := nd)"])
      (simp del: split_paired_All)
qed

lemma act_fst: "act x v \<Longrightarrow> fst v \<le> rx_D x" by (simp add: act_def)

lemma goesI:
  assumes "\<And>u. u \<noteq> Ended \<Longrightarrow> L' u \<longleftrightarrow> L u \<and> u \<noteq> t \<or> u = t'" "\<not> L t'"
  shows "goes L L' t t'"
  using assms by (simp add: goes_def)

text \<open>What Bmt\_Inv shows of the steps at a node, for every kind of edge.\<close>

lemma kind_toggle_value:
  assumes N: "node_kind x v nd tv tk tn" and c: "clean (rx_init x (parent_node v))"
    and tv: "tk_ph tv = 2" "tk_zp tv \<le> 4" and b: "\<And>w. tk_ph (tk w) \<le> 4"
  shows "\<exists>nd'. toggle nd = (nd', True) \<and>
             node_kind x v nd' (tv\<lparr>tk_ph := 4\<rparr>) tk (if tk_fin tv then tn\<lparr>tk_zp := 1\<rparr> else tn) \<or>
           toggle nd = (nd', False) \<and> node_kind x v nd' (tv\<lparr>tk_ph := 3\<rparr>) tk tn"
proof -
  let ?n = "parent_node v"
  consider "\<not> is_left v" | "is_left v" "act x (kid_r ?n)" | "is_left v" "\<not> act x (kid_r ?n)" by blast
  then show ?thesis
  proof cases
    case 1
    then have B: "both_ok (rx_init x ?n) nd (tk (kid_l ?n)) tv tn (rx_V x (kid_l ?n)) (rx_V x v)"
      using N by (simp add: node_kind_def Let_def)
    show ?thesis using both_toggle_b [OF B c tv(1) b] 1 by (auto simp: node_kind_def Let_def)
  next
    case 2
    then have B: "both_ok (rx_init x ?n) nd tv (tk (kid_r ?n)) tn (rx_V x v) (rx_V x (kid_r ?n))"
      using N by (simp add: node_kind_def Let_def)
    then have "\<not> tk_fin tv" by (simp add: both_ok_def)
    then show ?thesis using both_toggle_a [OF B c tv(1) b] 2 by (auto simp: node_kind_def Let_def)
  next
    case 3
    then have B: "left_ok (rx_init x ?n) nd tv tn (rx_V x v) (rx_V x (kid_r ?n))"
      using N by (simp add: node_kind_def Let_def)
    then have "\<not> tk_fin tv" using tv by (auto simp: left_ok_def)
    then show ?thesis using left_toggle_value [OF B c tv] 3 by (auto simp: node_kind_def Let_def)
  qed
qed

lemma kind_toggle_nil:
  assumes N: "node_kind x v nd tv tk tn" and c: "clean (rx_init x (parent_node v))"
    and tv: "tk_zp tv = 2" "\<not> tk_fin tv" "tk_ph tv \<le> 4"
  shows "\<exists>nd'. toggle nd = (nd', True) \<and> node_kind x v nd' (tv\<lparr>tk_zp := 4\<rparr>) tk (tn\<lparr>tk_zp := 1\<rparr>) \<or>
           toggle nd = (nd', False) \<and> node_kind x v nd' (tv\<lparr>tk_zp := 3\<rparr>) tk tn"
proof -
  have l: "is_left v" "\<not> act x (kid_r (parent_node v))"
    using N tv by (auto simp: node_kind_def Let_def both_ok_def split: if_splits)
  then have B: "left_ok (rx_init x (parent_node v)) nd tv tn (rx_V x v) (rx_V x (kid_r (parent_node v)))"
    using N by (simp add: node_kind_def Let_def)
  show ?thesis using left_toggle_nil [OF B c tv] l by (auto simp: node_kind_def Let_def)
qed

lemma kind_hash:
  assumes N: "node_kind x v nd tv tk tn" and tv: "tk_ph tv = 3" "tk_fin tv \<longrightarrow> tk_zp tv = 0" and tn: "\<not> tk_fin tn"
    and V: "rx_V x (parent_node v) = doHash h [rx_V x (kid_l (parent_node v)), rx_V x (kid_r (parent_node v))]"
  shows "doHash h [nd_left nd, nd_right nd] = rx_V x (parent_node v) \<and> tk_ph tn = 0 \<and>
    (tk_fin tv \<longrightarrow> tk_zp tn = 0) \<and>
    node_kind x v nd (tv\<lparr>tk_ph := 4\<rparr>) tk (tn\<lparr>tk_ph := 1, tk_fin := tk_fin tv\<rparr>)"
proof -
  let ?n = "parent_node v"
  have kl: "is_left v \<Longrightarrow> kid_l ?n = v" and kr: "\<not> is_left v \<Longrightarrow> kid_r ?n = v" using kid_parent by auto
  consider "\<not> is_left v" | "is_left v" "act x (kid_r ?n)" | "is_left v" "\<not> act x (kid_r ?n)" by blast
  then show ?thesis
  proof cases
    case 1
    then have B: "both_ok (rx_init x ?n) nd (tk (kid_l ?n)) tv tn (rx_V x (kid_l ?n)) (rx_V x v)"
      using N by (simp add: node_kind_def Let_def)
    show ?thesis using both_hash_b [OF B tv(1) tn tv(2)] V kr 1 by (auto simp: node_kind_def Let_def)
  next
    case 2
    then have B: "both_ok (rx_init x ?n) nd tv (tk (kid_r ?n)) tn (rx_V x v) (rx_V x (kid_r ?n))"
      using N by (simp add: node_kind_def Let_def)
    then have f: "tk_fin tv = False" by (simp add: both_ok_def)
    have "tn\<lparr>tk_ph := 1, tk_fin := False\<rparr> = tn\<lparr>tk_ph := 1\<rparr>" using tn by simp
    then show ?thesis using both_hash_a [OF B tv(1) tn] 2 f V kl by (auto simp: node_kind_def Let_def)
  next
    case 3
    then have B: "left_ok (rx_init x ?n) nd tv tn (rx_V x v) (rx_V x (kid_r ?n))"
      using N by (simp add: node_kind_def Let_def)
    then show ?thesis using left_hash [OF B tv(1) tn tv(2)] 3 V kl by (auto simp: node_kind_def Let_def)
  qed
qed

lemma kind_hash_nil:
  assumes N: "node_kind x v nd tv tk tn" and tv: "tk_zp tv = 3" "\<not> tk_fin tv" and tn: "\<not> tk_fin tn"
    and V: "rx_V x (parent_node v) = doHash h [rx_V x (kid_l (parent_node v)), rx_V x (kid_r (parent_node v))]"
  shows "doHash h [nd_left nd, nd_right nd] = rx_V x (parent_node v) \<and> tk_ph tn = 0 \<and> tk_zp tn = 0 \<and>
    node_kind x v nd (tv\<lparr>tk_zp := 4\<rparr>) tk (tn\<lparr>tk_ph := 1, tk_fin := True\<rparr>)"
proof -
  have "is_left v" "\<not> act x (kid_r (parent_node v))" using N tv by (auto simp: node_kind_def Let_def both_ok_def split: if_splits)
  moreover from this have "left_ok (rx_init x (parent_node v)) nd tv tn (rx_V x v) (rx_V x (kid_r (parent_node v)))"
    using N by (simp add: node_kind_def Let_def)
  ultimately show ?thesis using left_hash_nil [OF _ tv tn] V kid_parent(1) [of v] by (auto simp: node_kind_def Let_def)
qed

lemma kind_final_left:
  assumes N: "node_kind x v nd tv tk tn" and v: "onp x v" "is_left v" "act x (parent_node v)"
    and z: "\<not> act x (kid_r (parent_node v)) \<Longrightarrow> rx_V x (kid_r (parent_node v)) = zero"
  shows "tk_ph tv = 1 \<Longrightarrow> tk_fin tv \<Longrightarrow>
      node_kind x v (nd\<lparr>nd_right := zero, nd_left := rx_V x v\<rparr>) (tv\<lparr>tk_ph := 3\<rparr>) tk tn"
    and "tk_zp tv = 1 \<Longrightarrow> node_kind x v (nd\<lparr>nd_right := zero\<rparr>) (tv\<lparr>tk_zp := 2\<rparr>) tk tn"
proof -
  have l: "kid_l (parent_node v) = v" using kid_parent v by simp
  have na: "\<not> act x (kid_r (parent_node v))"
    using onp_kid_l [of "parent_node v" x] v l by simp
  have B: "left_ok (rx_init x (parent_node v)) nd tv tn (rx_V x v) (rx_V x (kid_r (parent_node v)))"
    using N na v by (simp add: node_kind_def Let_def)
  show "tk_ph tv = 1 \<Longrightarrow> tk_fin tv \<Longrightarrow>
      node_kind x v (nd\<lparr>nd_right := zero, nd_left := rx_V x v\<rparr>) (tv\<lparr>tk_ph := 3\<rparr>) tk tn"
    using left_final_value [OF B] na v z [OF na] by (simp add: node_kind_def Let_def)
  show "tk_zp tv = 1 \<Longrightarrow> node_kind x v (nd\<lparr>nd_right := zero\<rparr>) (tv\<lparr>tk_zp := 2\<rparr>) tk tn"
    using left_final_nil [OF B] na v z [OF na] by (simp add: node_kind_def Let_def)
qed

lemma kind_final_right:
  assumes N: "node_kind x v nd tv tk tn" and v: "\<not> is_left v"
  shows "tk_ph tv = 1 \<Longrightarrow> node_kind x v (nd\<lparr>nd_right := rx_V x v\<rparr>) (tv\<lparr>tk_ph := 2\<rparr>) tk tn"
    and "tk_zp tv = 1 \<Longrightarrow> \<not> tk_fin tv \<Longrightarrow> node_kind x v nd (tv\<lparr>tk_zp := 4\<rparr>) tk (tn\<lparr>tk_zp := 1\<rparr>)"
  using N v both_write_b both_final_nil by (simp_all add: node_kind_def Let_def)

lemma kind_not_here:
  assumes "node_kind x v nd tv tk tn" "tk_fin tv \<or> 0 < tk_zp tv" "\<not> fgone tv"
  shows "\<not> fhere tn"
  using assms by (auto simp: node_kind_def Let_def both_ok_def left_ok_def split: if_splits)

text \<open>What is known of the edge of a goroutine, and of the node above.\<close>

lemma edge_facts:
  assumes T: "tree_inv x (bt_nodes (hr_tree h)) tk" and x: "ctx_ok x"
    and v: "act x v" "fst v < rx_D x"
  shows "tok_ok x v (tk v)" "tok_ok x (parent_node v) (tk (parent_node v))" "act x (parent_node v)"
    "node_kind x v (node_at h (parent_node v)) (tk v) tk (tk (parent_node v))"
    "clean (rx_init x (parent_node v))" "\<And>w. tk_ph (tk w) \<le> 4"
    "rx_V x (parent_node v) = doHash (cf_hasher (rx_conf x))
       [rx_V x (kid_l (parent_node v)), rx_V x (kid_r (parent_node v))]"
    "\<not> act x (kid_r (parent_node v)) \<Longrightarrow>
       rx_V x (kid_r (parent_node v)) = cf_zerohashes (rx_conf x) ! Suc (fst v)"
proof -
  have ok: "tok_ok x w (tk w)" for w using tree_invD [OF T] by blast
  show "tok_ok x v (tk v)" "tok_ok x (parent_node v) (tk (parent_node v))" by (rule ok)+
  from ok show "tk_ph (tk w) \<le> 4" for w by (simp add: tok_ok_def)
  show an: "act x (parent_node v)" using act_parent v by blast
  show "node_kind x v (node_at h (parent_node v)) (tk v) tk (tk (parent_node v))"
    unfolding node_at_def by (intro node_same [OF v(1), THEN iffD1] tree_invD(2) [OF T] an) simp
  show "clean (rx_init x (parent_node v))" using x unfolding ctx_ok_def by blast
  have "0 < fst (parent_node v)" by simp
  with x an show "rx_V x (parent_node v) = doHash (cf_hasher (rx_conf x))
       [rx_V x (kid_l (parent_node v)), rx_V x (kid_r (parent_node v))]"
    "\<not> act x (kid_r (parent_node v)) \<Longrightarrow>
       rx_V x (kid_r (parent_node v)) = cf_zerohashes (rx_conf x) ! Suc (fst v)"
    unfolding ctx_ok_def by (metis kid_facts(3))+
qed

lemma tok_act: "tok_ok x v t \<Longrightarrow> 0 < tk_ph t \<or> 0 < tk_zp t \<Longrightarrow> act x v"
  by (elim disjE) (simp_all add: tok_ok_def onp_act)

lemma tok_below: "tok_ok x v t \<Longrightarrow> tk_ph t \<in> {2, 3} \<or> tk_zp t \<in> {2, 3} \<Longrightarrow> act x v \<and> fst v < rx_D x"
proof -
  assume t: "tok_ok x v t" "tk_ph t \<in> {2, 3} \<or> tk_zp t \<in> {2, 3}"
  then have v: "act x v" using tok_act [OF t(1)] by fastforce
  have "tk_ph t \<in> {0, 1, 4} \<and> tk_zp t \<in> {0, 1, 4}" if "fst v = rx_D x"
    using t(1) that by (simp add: tok_ok_def)
  then have "fst v \<noteq> rx_D x" using t(2) by auto
  with v act_fst [OF v] show ?thesis by simp
qed

lemma begins_refl [simp]: "begins t t"
  by (simp add: begins_def)

lemma go_WriteAt:
  assumes T: "tree_inv x (bt_nodes (hr_tree h)) tk" "unspawned n tk" "live x n tk (WriteAt v s)"
    and x: "ctx_ok x" and r: "\<not> is_root (rx_conf x) v"
  shows "go_ok x n h tk (WriteAt v s) (writeNode_assign h v s)"
proof -
  have tk: "tk_ph (tk v) = 1" "\<not> tk_fin (tk v)" "s = rx_V x v" using T by auto
  have av: "act x v" using tok_act [OF tree_invD(1) [OF T(1)]] tk by simp
  have D: "fst v < rx_D x" using r x act_fst [OF av] by (simp add: is_root_def ctx_ok_def)
  note E = edge_facts [OF T(1) x av D]
  let ?n = "parent_node v"
  let ?tv = "(tk v)\<lparr>tk_ph := 2\<rparr>"
  let ?nd = "if is_left v then (node_at h ?n)\<lparr>nd_left := s\<rparr> else (node_at h ?n)\<lparr>nd_right := s\<rparr>"
  have "go_ok x n h tk (WriteAt v s) (upd_node ?n (\<lambda>_. ?nd) h, WriteToggle v)"
  proof (rule go_update [where tv = ?tv and tn = "tk ?n", OF T av D])
    show "begun_eq (tk v) ?tv" using tk by (simp add: begun_eq_def fhere_def)
    show "tok_ok x v ?tv" using E(1) tk D by (auto simp: tok_ok_def)
    show "node_kind x v ?nd ?tv tk (tk ?n)"
      using E(4) tk both_write_a both_write_b left_write by (simp add: node_kind_def Let_def split: if_splits)
    show "goes (live x n tk) (live x n (tk(v := ?tv, ?n := tk ?n))) (WriteAt v s) (WriteToggle v)"
    proof (rule goesI)
      fix u :: goroutine assume "u \<noteq> Ended"
      then show "live x n (tk(v := ?tv, ?n := tk ?n)) u \<longleftrightarrow> live x n tk u \<and> u \<noteq> WriteAt v s \<or> u = WriteToggle v"
        using tk by (cases u) (auto split: option.splits)
    qed (use tk in simp)
  qed (use E in simp_all)
  then show ?thesis by (simp add: writeNode_assign_def upd_node_def node_at_def split: if_splits)
qed

lemma go_WriteToggle:
  assumes T: "tree_inv x (bt_nodes (hr_tree h)) tk" "unspawned n tk" "live x n tk (WriteToggle v)"
    and x: "ctx_ok x"
  shows "go_ok x n h tk (WriteToggle v) (writeNode_toggle h v)"
proof -
  have tk: "tk_ph (tk v) = 2" "\<not> tk_fin (tk v)" using T by auto
  have v: "act x v" "fst v < rx_D x" using tok_below [OF tree_invD(1) [OF T(1)]] tk by auto
  note E = edge_facts [OF T(1) x v]
  let ?n = "parent_node v" and ?tog = "toggle (node_at h (parent_node v))"
  have upd: "go_ok x n h tk (WriteToggle v) (upd_node ?n (\<lambda>_. nd) h, t')"
    if "node_kind x v nd ((tk v)\<lparr>tk_ph := p\<rparr>) tk (tk ?n)" "p = 4 \<and> t' = Ended \<or> p = 3 \<and> t' = WriteHash v" for nd p t'
  proof (rule go_update [where tv = "(tk v)\<lparr>tk_ph := p\<rparr>" and tn = "tk ?n", OF T v])
    show "begun_eq (tk v) ((tk v)\<lparr>tk_ph := p\<rparr>)" using tk that(2) by (auto simp: begun_eq_def fhere_def)
    show "tok_ok x v ((tk v)\<lparr>tk_ph := p\<rparr>)" using E(1) tk v that(2) by (auto simp: tok_ok_def)
    show "goes (live x n tk) (live x n (tk(v := (tk v)\<lparr>tk_ph := p\<rparr>, ?n := tk ?n))) (WriteToggle v) t'"
    proof (rule goesI)
      fix u :: goroutine assume "u \<noteq> Ended"
      then show "live x n (tk(v := (tk v)\<lparr>tk_ph := p\<rparr>, ?n := tk ?n)) u \<longleftrightarrow>
          live x n tk u \<and> u \<noteq> WriteToggle v \<or> u = t'"
        using tk that(2) by (cases u) (auto split: option.splits)
    qed (use tk that(2) in auto)
  qed (use E that in simp_all)
  have "tk_zp (tk v) \<le> 4" using E(1) by (simp add: tok_ok_def)
  then obtain nd where "?tog = (nd, True) \<and> node_kind x v nd ((tk v)\<lparr>tk_ph := 4\<rparr>) tk (tk ?n) \<or>
      ?tog = (nd, False) \<and> node_kind x v nd ((tk v)\<lparr>tk_ph := 3\<rparr>) tk (tk ?n)"
    using kind_toggle_value [OF E(4,5) tk(1) _ E(6)] tk(2) by auto
  then show ?thesis using upd by (auto simp: writeNode_toggle_def)
qed

lemma go_WriteHash:
  assumes T: "tree_inv x (bt_nodes (hr_tree h)) tk" "unspawned n tk" "live x n tk (WriteHash v)"
    and x: "ctx_ok x"
  shows "go_ok x n h tk (WriteHash v) (h, WriteAt (parent_node v) (node_hash (rx_conf x) h (parent_node v)))"
proof -
  let ?n = "parent_node v"
  have tk: "tk_ph (tk v) = 3" "\<not> tk_fin (tk v)" using T by auto
  have v: "act x v" "fst v < rx_D x" using tok_below [OF tree_invD(1) [OF T(1)]] tk by auto
  note E = edge_facts [OF T(1) x v]
  have "0 < tk_ph (tk ?n) \<Longrightarrow> tk_ph (tk v) = 4"
    using E(4) by (auto simp: node_kind_def Let_def both_ok_def left_ok_def split: if_splits)
  then have nf: "\<not> tk_fin (tk ?n)" using E(2) tk by (auto simp: tok_ok_def)
  note H = kind_hash [OF E(4) tk(1) _ nf E(7)]
  let ?tv = "(tk v)\<lparr>tk_ph := 4\<rparr>" and ?tn = "(tk ?n)\<lparr>tk_ph := 1, tk_fin := tk_fin (tk v)\<rparr>"
  have "go_ok x n h tk (WriteHash v) (upd_node ?n (\<lambda>_. node_at h ?n) h, WriteAt ?n (rx_V x ?n))"
  proof (rule go_update [where tv = ?tv and tn = ?tn, OF T v])
    show "begun_eq (tk v) ?tv" using tk by (simp add: begun_eq_def fhere_def)
    show "tok_ok x v ?tv" using E(1) tk v by (auto simp: tok_ok_def)
    show "begins (tk ?n) ?tn" using H tk nf by (simp add: begins_def)
    show "tok_ok x ?n ?tn" using E(2,3) tk by (auto simp: tok_ok_def)
    show "node_kind x v (node_at h ?n) ?tv tk ?tn" using H tk by simp
    show "goes (live x n tk) (live x n (tk(v := ?tv, ?n := ?tn))) (WriteHash v) (WriteAt ?n (rx_V x ?n))"
    proof (rule goesI)
      fix u :: goroutine assume "u \<noteq> Ended"
      then show "live x n (tk(v := ?tv, ?n := ?tn)) u \<longleftrightarrow> live x n tk u \<and> u \<noteq> WriteHash v \<or> u = WriteAt ?n (rx_V x ?n)"
        using tk H nf by (cases u) (auto split: option.splits simp: parent_node_def)
    qed (use tk H in simp)
  qed
  then show ?thesis using H tk by (simp add: node_hash_def upd_node_def node_at_def)
qed

lemma go_FinalAt:
  assumes T: "tree_inv x (bt_nodes (hr_tree h)) tk" "unspawned n tk" "live x n tk (FinalAt v s)"
    and x: "ctx_ok x" and r: "\<not> is_root (rx_conf x) v"
  shows "go_ok x n h tk (FinalAt v s) (writeFinalNode_assign (rx_conf x) h v s)"
proof -
  let ?n = "parent_node v"
  let ?nd = "node_at h ?n" and ?zero = "cf_zerohashes (rx_conf x) ! Suc (fst v)"
  have ok: "tok_ok x v (tk v)" using tree_invD [OF T(1)] by blast
  have tk: "s = None \<and> tk_zp (tk v) = 1 \<and> \<not> tk_fin (tk v) \<or>
      s = Some (rx_V x v) \<and> tk_ph (tk v) = 1 \<and> tk_fin (tk v) \<and> tk_zp (tk v) = 0"
    using T(3) ok by (cases s) (auto simp: tok_ok_def)
  have ov: "onp x v" using ok tk by (auto simp: tok_ok_def)
  have av: "act x v" using ov by (rule onp_act)
  have D: "fst v < rx_D x" using r x act_fst [OF av] by (simp add: is_root_def ctx_ok_def)
  note E = edge_facts [OF T(1) x av D]
  have upd: "go_ok x n h tk (FinalAt v s) (upd_node ?n (\<lambda>_. nd) h, t')"
    if N: "node_kind x v nd tv tk tn" and c:
      "s = None \<and> tv = (tk v)\<lparr>tk_zp := 2\<rparr> \<and> tn = tk ?n \<and> t' = FinalToggle v \<or>
       s = None \<and> \<not> fhere (tk ?n) \<and> tv = (tk v)\<lparr>tk_zp := 4\<rparr> \<and> tn = (tk ?n)\<lparr>tk_zp := 1\<rparr> \<and> t' = FinalAt ?n None \<or>
       s \<noteq> None \<and> tv = (tk v)\<lparr>tk_ph := 2\<rparr> \<and> tn = tk ?n \<and> t' = FinalToggle v \<or>
       s \<noteq> None \<and> tv = (tk v)\<lparr>tk_ph := 3\<rparr> \<and> tn = tk ?n \<and> t' = FinalHash v" for nd tv tn t'
  proof (rule go_update [where tv = tv and tn = tn, OF T av D])
    have here: "\<not> fhere (tk ?n) \<Longrightarrow> \<not> tk_fin (tk ?n) \<and> tk_zp (tk ?n) = 0"
      using E(2) by (auto simp: fhere_def tok_ok_def)
    show "begun_eq (tk v) tv" using tk c by (auto simp: begun_eq_def fhere_def)
    show "tok_ok x v tv" using E(1) tk D c by (elim disjE) (auto simp: tok_ok_def)
    show "begins (tk ?n) tn" using c here by (auto simp: begins_def)
    show "tok_ok x ?n tn" using c here E(2) onp_parent [OF ov D] by (elim disjE) (auto simp: tok_ok_def)
    show "goes (live x n tk) (live x n (tk(v := tv, ?n := tn))) (FinalAt v s) t'"
    proof (rule goesI)
      fix u :: goroutine assume "u \<noteq> Ended"
      then show "live x n (tk(v := tv, ?n := tn)) u \<longleftrightarrow> live x n tk u \<and> u \<noteq> FinalAt v s \<or> u = t'"
        using tk c here by (elim disjE; cases u) (auto split: option.splits simp: parent_node_def)
    next
      show "\<not> live x n tk t'" using tk c here by (auto split: option.splits)
    qed
  qed (use N in simp)
  show ?thesis
  proof (cases "is_left v")
    case True
    note L = kind_final_left [OF E(4) ov True E(3) E(8)]
    show ?thesis
    proof (cases s)
      case None
      then have "go_ok x n h tk (FinalAt v s) (upd_node ?n (\<lambda>_. ?nd\<lparr>nd_right := ?zero\<rparr>) h, FinalToggle v)"
        using upd [OF L(2)] tk by auto
      then show ?thesis using True None by (simp add: writeFinalNode_assign_def Let_def upd_node_def node_at_def)
    next
      case (Some r)
      then have "go_ok x n h tk (FinalAt v s)
          (upd_node ?n (\<lambda>_. ?nd\<lparr>nd_right := ?zero, nd_left := r\<rparr>) h, FinalHash v)"
        using upd [OF L(1)] tk by auto
      then show ?thesis using True Some by (simp add: writeFinalNode_assign_def Let_def upd_node_def node_at_def)
    qed
  next
    case False
    note R = kind_final_right [OF E(4) False]
    show ?thesis
    proof (cases s)
      case None
      have "\<not> fhere (tk ?n)" using kind_not_here [OF E(4)] tk None by (auto simp: fgone_def)
      then have "go_ok x n h tk (FinalAt v s) (upd_node ?n (\<lambda>_. ?nd) h, FinalAt ?n None)"
        using upd [OF R(2)] tk None by auto
      then show ?thesis using False None by (simp add: writeFinalNode_assign_def Let_def upd_node_def node_at_def)
    next
      case (Some r)
      then have "go_ok x n h tk (FinalAt v s) (upd_node ?n (\<lambda>_. ?nd\<lparr>nd_right := r\<rparr>) h, FinalToggle v)"
        using upd [OF R(1)] tk by auto
      then show ?thesis using False Some by (simp add: writeFinalNode_assign_def Let_def upd_node_def node_at_def)
    qed
  qed
qed

lemma go_FinalToggle:
  assumes T: "tree_inv x (bt_nodes (hr_tree h)) tk" "unspawned n tk" "live x n tk (FinalToggle v)"
    and x: "ctx_ok x"
  shows "go_ok x n h tk (FinalToggle v) (writeFinalNode_toggle h v)"
proof -
  let ?n = "parent_node v" and ?tog = "toggle (node_at h (parent_node v))"
  have v: "act x v" "fst v < rx_D x" using tok_below [OF tree_invD(1) [OF T(1)], of v] T(3) by auto
  note E = edge_facts [OF T(1) x v]
  have tk: "tk_ph (tk v) = 2 \<and> tk_fin (tk v) \<and> tk_zp (tk v) = 0 \<or> tk_zp (tk v) = 2 \<and> \<not> tk_fin (tk v)"
    using T(3) E(1) by (auto simp: tok_ok_def)
  have ov: "onp x v" using E(1) tk by (auto simp: tok_ok_def)
  have "\<not> fhere (tk ?n)" using kind_not_here [OF E(4)] tk by (auto simp: fgone_def)
  then have here: "\<not> tk_fin (tk ?n)" "tk_zp (tk ?n) = 0" using E(2) by (auto simp: fhere_def tok_ok_def)
  have upd: "go_ok x n h tk (FinalToggle v) (upd_node ?n (\<lambda>_. nd) h, t')"
    if N: "node_kind x v nd tv tk tn" and f: "f = tk_fin (tk v)" and c:
      "tv = (if f then (tk v)\<lparr>tk_ph := p\<rparr> else (tk v)\<lparr>tk_zp := p\<rparr>) \<and>
       (p = 4 \<and> tn = (tk ?n)\<lparr>tk_zp := 1\<rparr> \<and> t' = FinalAt ?n None \<or>
        p = 3 \<and> tn = tk ?n \<and> t' = FinalHash v)" for nd tv tn t' p f
  proof (rule go_update [where tv = tv and tn = tn, OF T v])
    show "begun_eq (tk v) tv" using tk c f by (auto simp: begun_eq_def fhere_def)
    show "tok_ok x v tv" using E(1) tk v c f by (elim conjE disjE) (auto simp: tok_ok_def)
    show "begins (tk ?n) tn" using c here by (auto simp: begins_def)
    show "tok_ok x ?n tn" using c here E(2) onp_parent [OF ov v(2)] by (elim conjE disjE) (auto simp: tok_ok_def)
    show "goes (live x n tk) (live x n (tk(v := tv, ?n := tn))) (FinalToggle v) t'"
    proof (rule goesI)
      fix u :: goroutine assume "u \<noteq> Ended"
      then show "live x n (tk(v := tv, ?n := tn)) u \<longleftrightarrow> live x n tk u \<and> u \<noteq> FinalToggle v \<or> u = t'"
        using tk c f here by (elim conjE disjE; cases u) (auto split: option.splits simp: parent_node_def)
    next
      show "\<not> live x n tk t'" using tk c here by (auto split: option.splits)
    qed
  qed (use N in simp)
  show ?thesis
  proof (cases "tk_fin (tk v)")
    case True
    then obtain nd where "?tog = (nd, True) \<and> node_kind x v nd ((tk v)\<lparr>tk_ph := 4\<rparr>) tk ((tk ?n)\<lparr>tk_zp := 1\<rparr>) \<or>
        ?tog = (nd, False) \<and> node_kind x v nd ((tk v)\<lparr>tk_ph := 3\<rparr>) tk (tk ?n)"
      using kind_toggle_value [OF E(4,5) _ _ E(6)] tk by auto
    then show ?thesis using upd [where f = True] True by (auto simp: writeFinalNode_toggle_def)
  next
    case False
    then obtain nd where "?tog = (nd, True) \<and> node_kind x v nd ((tk v)\<lparr>tk_zp := 4\<rparr>) tk ((tk ?n)\<lparr>tk_zp := 1\<rparr>) \<or>
        ?tog = (nd, False) \<and> node_kind x v nd ((tk v)\<lparr>tk_zp := 3\<rparr>) tk (tk ?n)"
      using kind_toggle_nil [OF E(4,5) _ _ E(6)] tk by auto
    then show ?thesis using upd [where f = False] False by (auto simp: writeFinalNode_toggle_def)
  qed
qed

lemma go_FinalHash:
  assumes T: "tree_inv x (bt_nodes (hr_tree h)) tk" "unspawned n tk" "live x n tk (FinalHash v)"
    and x: "ctx_ok x"
  shows "go_ok x n h tk (FinalHash v)
    (h, FinalAt (parent_node v) (Some (node_hash (rx_conf x) h (parent_node v))))"
proof -
  let ?n = "parent_node v"
  have v: "act x v" "fst v < rx_D x" using tok_below [OF tree_invD(1) [OF T(1)], of v] T(3) by auto
  note E = edge_facts [OF T(1) x v]
  have tk: "tk_ph (tk v) = 3 \<and> tk_fin (tk v) \<and> tk_zp (tk v) = 0 \<or> tk_zp (tk v) = 3 \<and> \<not> tk_fin (tk v)"
    using T(3) E(1) by (auto simp: tok_ok_def)
  have ov: "onp x v" using E(1) tk by (auto simp: tok_ok_def)
  have "\<not> fhere (tk ?n)" using kind_not_here [OF E(4)] tk by (auto simp: fgone_def)
  then have nf: "\<not> tk_fin (tk ?n)" "tk_zp (tk ?n) = 0" using E(2) by (auto simp: fhere_def tok_ok_def)
  let ?tv = "if tk_fin (tk v) then (tk v)\<lparr>tk_ph := 4\<rparr> else (tk v)\<lparr>tk_zp := 4\<rparr>"
  let ?tn = "(tk ?n)\<lparr>tk_ph := 1, tk_fin := True\<rparr>"
  have H: "node_hash (rx_conf x) h ?n = rx_V x ?n" "tk_ph (tk ?n) = 0" "node_kind x v (node_at h ?n) ?tv tk ?tn"
    using kind_hash [OF E(4) _ _ nf(1) E(7)] kind_hash_nil [OF E(4) _ _ nf(1) E(7)] tk
    by (auto simp: node_hash_def)
  have "go_ok x n h tk (FinalHash v) (upd_node ?n (\<lambda>_. node_at h ?n) h, FinalAt ?n (Some (rx_V x ?n)))"
  proof (rule go_update [where tv = ?tv and tn = ?tn, OF T v])
    show "begun_eq (tk v) ?tv" using tk by (auto simp: begun_eq_def fhere_def)
    show "tok_ok x v ?tv" using E(1) tk v by (elim disjE) (auto simp: tok_ok_def)
    show "begins (tk ?n) ?tn" using H(2) nf by (simp add: begins_def)
    show "tok_ok x ?n ?tn" using E(2,3) nf onp_parent [OF ov v(2)] by (auto simp: tok_ok_def)
    show "goes (live x n tk) (live x n (tk(v := ?tv, ?n := ?tn))) (FinalHash v) (FinalAt ?n (Some (rx_V x ?n)))"
    proof (rule goesI)
      fix u :: goroutine assume "u \<noteq> Ended"
      then show "live x n (tk(v := ?tv, ?n := ?tn)) u \<longleftrightarrow>
          live x n tk u \<and> u \<noteq> FinalHash v \<or> u = FinalAt ?n (Some (rx_V x ?n))"
        using tk H(2) nf by (elim disjE; cases u) (auto split: option.splits simp: parent_node_def)
    next
      show "\<not> live x n tk (FinalAt ?n (Some (rx_V x ?n)))" using nf by simp
    qed
  qed (use H(3) in simp)
  then show ?thesis using H(1) by (simp add: upd_node_def node_at_def)
qed

text \<open>All steps of goroutines that do not deliver the result.\<close>

lemma go_any:
  assumes T: "tree_inv x (bt_nodes (hr_tree h)) tk" "unspawned n tk" "live x n tk t"
    and x: "ctx_ok x" and s: "sent (rx_conf x) t = None" and P: "n \<le> Suc (rx_P x)"
    and buf: "\<And>i. i < n \<Longrightarrow> doHash (cf_hasher (rx_conf x))
        [slice (i * (2 * cf_segmentSize (rx_conf x))) (i * (2 * cf_segmentSize (rx_conf x)) + 2 * cf_segmentSize (rx_conf x))
          (bt_buffer (hr_tree h))] = rx_V x (0, i)"
  shows "go_ok x n h tk t (go_step (rx_conf x) h t)"
proof (cases t)
  case (Section i final)
  let ?v = "(0, i) :: node_id"
  have tk: "i < n" "tk_ph (tk ?v) = 0" "final = (i = rx_P x)" using T(3) Section by auto
  have ok: "tok_ok x ?v (tk ?v)" using tree_invD [OF T(1)] by blast
  have fin: "tk_fin (tk ?v) = final" "tk_zp (tk ?v) = 0" using ok tk by (auto simp: tok_ok_def)
  let ?tv = "(tk ?v)\<lparr>tk_ph := 1\<rparr>"
  let ?t' = "if final then FinalAt ?v (Some (rx_V x ?v)) else WriteAt ?v (rx_V x ?v)"
  have "tok_ok x ?v ?tv" using ok tk P by (auto simp: tok_ok_def act_def)
  then have "tree_inv x (bt_nodes (hr_tree h)) (tk(?v := ?tv))"
    using tk fin by (intro tree_leaf [OF T(1)]) (auto simp: begins_def)
  moreover have "goes (live x n tk) (live x n (tk(?v := ?tv))) t ?t'"
  proof (rule goesI)
    fix u :: goroutine assume "u \<noteq> Ended"
    then show "live x n (tk(?v := ?tv)) u \<longleftrightarrow> live x n tk u \<and> u \<noteq> t \<or> u = ?t'"
      using tk fin Section by (cases u) (auto split: option.splits)
  qed (use tk in auto)
  moreover have "unspawned n (tk(?v := ?tv))" using T(2) tk by (auto simp: unspawned_def)
  moreover have "go_step (rx_conf x) h t = (h, ?t')"
    using buf [OF tk(1)] Section by (simp add: processSection_def Let_def)
  ultimately show ?thesis unfolding go_ok_def by (intro exI [of _ "tk(?v := ?tv)"] exI [of _ "bt_nodes (hr_tree h)"])
      (simp del: split_paired_All add: tk)
next
  case (WriteAt v r)
  then show ?thesis using go_WriteAt [OF T(1,2) _ x] T(3) s by (auto split: if_splits)
next
  case (FinalAt v r)
  show ?thesis
  proof (cases "is_root (rx_conf x) v")
    case False
    then show ?thesis using go_FinalAt [OF T(1,2) _ x False] T(3) FinalAt by simp
  next
    case True
    then have r: "r = None" "tk_zp (tk v) = 1" using s T(3) FinalAt by (auto split: option.splits)
    have ok: "tok_ok x v (tk v)" using tree_invD [OF T(1)] by blast
    then have "act x v" using tok_act r by fastforce
    then have D: "fst v = rx_D x" using True x act_fst [of x v] by (simp add: is_root_def ctx_ok_def)
    let ?tv = "(tk v)\<lparr>tk_zp := 4\<rparr>"
    have nf: "\<not> tk_fin (tk v)" "tk_ph (tk v) \<in> {0, 1, 4}" using ok r D by (auto simp: tok_ok_def)
    have "tree_inv x (bt_nodes (hr_tree h)) (tk(v := ?tv))"
      using r ok nf D by (intro tree_root [OF T(1)]) (auto simp: begun_eq_def fhere_def tok_ok_def)
    moreover have "goes (live x n tk) (live x n (tk(v := ?tv))) t Ended"
    proof (rule goesI)
      fix u :: goroutine assume "u \<noteq> Ended"
      then show "live x n (tk(v := ?tv)) u \<longleftrightarrow> live x n tk u \<and> u \<noteq> t \<or> u = Ended"
        using r nf FinalAt by (cases u) (auto split: option.splits)
    qed simp
    moreover have "unspawned n (tk(v := ?tv))" using T(2) by (auto simp: unspawned_def)
    ultimately show ?thesis using FinalAt True r unfolding go_ok_def
      by (intro exI [of _ "tk(v := ?tv)"] exI [of _ "bt_nodes (hr_tree h)"]) simp
  qed
qed (use T x go_WriteToggle go_WriteHash go_FinalToggle go_FinalHash in auto)

end
