(* ===== verification/Bmt_Run.thy ===== *)
theory Bmt_Run
  imports Bmt_Go
begin

text \<open>
  The hash of a subtree as a function of the data, its agreement with the reference hasher, and
  the invariant of a whole run: the caller writes, starts the final section and waits.
\<close>

section \<open>The configuration\<close>

lemma size_loop_power: "\<exists>k. size_loop n (2 ^ Suc d) d = (2 ^ Suc k, k)"
proof (induction "n - 2 ^ Suc d" arbitrary: d rule: less_induct)
  case less
  show ?case
  proof (cases "2 ^ Suc d < n")
    case True
    have "(2 :: nat) ^ Suc d < 2 ^ Suc (Suc d)" by simp
    then have "n - 2 ^ Suc (Suc d) < n - 2 ^ Suc d" using True by linarith
    from less [OF this] True show ?thesis by (subst size_loop.simps) (simp add: mult.commute)
  next
    case False
    then show ?thesis by (subst size_loop.simps) auto
  qed
qed

definition bmt_levels :: "nat \<Rightarrow> nat" where
  "bmt_levels n = snd (size_loop n 2 0)"

lemma size_loop_eq: "size_loop n 2 0 = (2 ^ Suc (bmt_levels n), bmt_levels n)"
  using size_loop_power [of n 0] by (auto simp: bmt_levels_def)

primrec zero_hash :: "base_hash \<Rightarrow> nat \<Rightarrow> bytes" where
  "zero_hash b 0 = replicate (bh_Size b) 0"
| "zero_hash b (Suc k) = doHash b [zero_hash b k, zero_hash b k]"

lemma zerohash_loop_nth: "i < k \<Longrightarrow> zerohash_loop b k (zero_hash b j) ! i = zero_hash b (Suc (j + i))"
proof (induction k arbitrary: i j)
  case (Suc k)
  show ?case
  proof (cases i)
    case (Suc i')
    then show ?thesis using Suc.IH [of i' "Suc j"] Suc.prems by (simp add: Let_def)
  qed (simp add: Let_def)
qed simp

lemma NewConf_simps [simp]:
  "cf_segmentSize (NewConf b n cap) = bh_Size b" "cf_depth (NewConf b n cap) = Suc (bmt_levels n)"
  "cf_maxSize (NewConf b n cap) = 2 ^ bmt_levels n * (2 * bh_Size b)" "cf_hasher (NewConf b n cap) = b"
  by (simp_all add: NewConf_def sizeToParams_def size_loop_eq Let_def)

lemma NewConf_zerohashes:
  "k \<le> Suc (bmt_levels n) \<Longrightarrow> cf_zerohashes (NewConf b n cap) ! k = zero_hash b k"
  using zerohash_loop_nth [of "k - 1" "Suc (bmt_levels n)" b 0]
  by (cases k) (simp_all add: NewConf_def sizeToParams_def size_loop_eq Let_def)

section \<open>The hash of a subtree\<close>

primrec subtree :: "base_hash \<Rightarrow> bytes \<Rightarrow> nat \<Rightarrow> nat \<Rightarrow> bytes" where
  "subtree b d 0 i = doHash b [slice (i * (2 * bh_Size b)) (i * (2 * bh_Size b) + 2 * bh_Size b) d]"
| "subtree b d (Suc l) i = doHash b [subtree b d l (2 * i), subtree b d l (2 * i + 1)]"

lemma subtree_zero:
  assumes "(i + 1) * (2 ^ l * (2 * bh_Size b)) \<le> length d"
    "\<And>j. i * (2 ^ l * (2 * bh_Size b)) \<le> j \<Longrightarrow> j < length d \<Longrightarrow> d ! j = 0"
  shows "subtree b d l i = zero_hash b (Suc l)"
  using assms
proof (induction l arbitrary: i)
  case 0
  let ?s = "2 * bh_Size b"
  have "slice (i * ?s) (i * ?s + ?s) d = replicate ?s 0"
    using 0 by (intro nth_equalityI) (auto simp: slice_def)
  then show ?case by (simp add: doHash_def replicate_add [symmetric] mult_2)
next
  case (Suc l)
  let ?w = "2 ^ l * (2 * bh_Size b)"
  have e: "2 * i * ?w = i * (2 ^ Suc l * (2 * bh_Size b))" "(2 * i + 1 + 1) * ?w = (i + 1) * (2 ^ Suc l * (2 * bh_Size b))"
    by (simp_all add: algebra_simps)
  have "subtree b d l (2 * i) = zero_hash b (Suc l)"
    using Suc.prems e by (intro Suc.IH) (auto simp: algebra_simps)
  moreover have "subtree b d l (2 * i + 1) = zero_hash b (Suc l)"
    using Suc.prems e by (intro Suc.IH) (auto simp: algebra_simps)
  ultimately show ?case by simp
qed

lemma rh_hash_subtree:
  assumes "rh_hasher rh = b" "rh_sectionLength rh = 2 * bh_Size b" "0 < bh_Size b"
    "(i + 1) * (2 ^ l * (2 * bh_Size b)) \<le> length d"
  shows "rh_hash rh (slice (i * (2 ^ l * (2 * bh_Size b))) ((i + 1) * (2 ^ l * (2 * bh_Size b))) d) (2 ^ l * (2 * bh_Size b))
         = Some (subtree b d l i)"
  using assms(4)
proof (induction l arbitrary: i)
  case 0
  have "(i + 1) * (2 * bh_Size b) = i * (2 * bh_Size b) + 2 * bh_Size b" by simp
  then show ?case using assms(1,2) by (subst rh_hash.simps) (simp only: power_0 mult_1 refl if_True subtree.simps)
next
  case (Suc l)
  let ?w = "2 ^ l * (2 * bh_Size b)"
  have w: "2 ^ Suc l * (2 * bh_Size b) = ?w + ?w" by (simp add: algebra_simps)
  have neq: "?w + ?w \<noteq> 2 * bh_Size b" using assms(3) by (auto simp: algebra_simps)
  have half: "(?w + ?w) div 2 = ?w" by simp
  have t: "take ?w (slice (i * (?w + ?w)) ((i + 1) * (?w + ?w)) d) = slice (2 * i * ?w) ((2 * i + 1) * ?w) d"
    by (simp add: slice_def algebra_simps min_def)
  have dr: "drop ?w (slice (i * (?w + ?w)) ((i + 1) * (?w + ?w)) d) = slice ((2 * i + 1) * ?w) ((2 * i + 1 + 1) * ?w) d"
    by (simp add: slice_def algebra_simps drop_take)
  have "rh_hash rh (slice (2 * i * ?w) ((2 * i + 1) * ?w) d) ?w = Some (subtree b d l (2 * i))"
    using Suc.prems w by (intro Suc.IH) (simp add: algebra_simps)
  moreover have "rh_hash rh (slice ((2 * i + 1) * ?w) ((2 * i + 1 + 1) * ?w) d) ?w = Some (subtree b d l (2 * i + 1))"
    using Suc.prems w by (intro Suc.IH) (simp add: algebra_simps)
  ultimately show ?case
    unfolding w using neq assms(1,2) by (subst rh_hash.simps) (simp only: half t dr, simp add: doHash_def)
qed

text \<open>The data with zeros up to the capacity.\<close>

definition padded :: "nat \<Rightarrow> bytes \<Rightarrow> bytes" where
  "padded m d = take m d @ replicate (m - length d) 0"

lemma length_padded [simp]: "length (padded m d) = m"
  by (simp add: padded_def)

lemma ref_Hash_subtree:
  assumes "0 < bh_Size b"
  shows "ref_Hash (NewRefHasher b n) d =
         Some (subtree b (padded (2 ^ bmt_levels n * (2 * bh_Size b)) d) (bmt_levels n) 0)"
proof -
  let ?m = "2 ^ bmt_levels n * (2 * bh_Size b)" and ?rh = "NewRefHasher b n"
  have m: "rh_maxDataLength ?rh = ?m" by (simp add: NewRefHasher_def size_loop_eq)
  have "copy_at (replicate ?m 0) 0 (take (if ?m < length d then ?m else length d) d) = padded ?m d"
    by (simp add: copy_at_def padded_def)
  then have "ref_Hash ?rh d = rh_hash ?rh (padded ?m d) ?m"
    unfolding ref_Hash_def Let_def m by presburger
  also have "\<dots> = Some (subtree b (padded ?m d) (bmt_levels n) 0)"
    using rh_hash_subtree [of ?rh b 0 "bmt_levels n" "padded ?m d"] assms
    by (simp add: NewRefHasher_def slice_def)
  finally show ?thesis .
qed

end
