(* ===== verification/Bmt_Caller.thy ===== *)
theory Bmt_Caller
  imports Bmt_Run
begin

text \<open>The invariant of a run from the caller's side, and that every step keeps it.\<close>

definition bmt_max :: "base_hash \<Rightarrow> nat \<Rightarrow> nat" where
  "bmt_max b n = 2 ^ bmt_levels n * (2 * bh_Size b)"

text \<open>The section that is open once \<open>s\<close> bytes are written.\<close>

definition open_section :: "base_hash \<Rightarrow> nat \<Rightarrow> nat \<Rightarrow> nat" where
  "open_section b n s = (if s = bmt_max b n then 2 ^ bmt_levels n - 1 else s div (2 * bh_Size b))"

definition run_of :: "base_hash \<Rightarrow> nat \<Rightarrow> nat \<Rightarrow> bytes \<Rightarrow> (node_id \<Rightarrow> u32) \<Rightarrow> run_ctx" where
  "run_of b n cap data init =
     \<lparr>rx_conf = NewConf b n cap, rx_D = bmt_levels n,
      rx_P = open_section b n (min (length data) (bmt_max b n)),
      rx_V = (\<lambda>v. subtree b (padded (bmt_max b n) data) (fst v) (snd v)),
      rx_init = init\<rparr>"

lemma run_of_simps [simp]:
  "rx_conf (run_of b n cap data init) = NewConf b n cap" "rx_D (run_of b n cap data init) = bmt_levels n"
  "rx_P (run_of b n cap data init) = open_section b n (min (length data) (bmt_max b n))"
  "rx_V (run_of b n cap data init) = (\<lambda>v. subtree b (padded (bmt_max b n) data) (fst v) (snd v))"
  "rx_init (run_of b n cap data init) = init"
  by (simp_all add: run_of_def)

lemma max_div: "0 < bh_Size b \<Longrightarrow> bmt_max b n div (2 * bh_Size b) = 2 ^ bmt_levels n"
  by (simp add: bmt_max_def)

lemma open_section_less: "0 < bh_Size b \<Longrightarrow> s \<le> bmt_max b n \<Longrightarrow> open_section b n s < 2 ^ bmt_levels n"
  unfolding open_section_def bmt_max_def by (auto simp: less_mult_imp_div_less)

lemma open_section_mono:
  assumes "0 < bh_Size b" "s \<le> t" "t \<le> bmt_max b n"
  shows "open_section b n s \<le> open_section b n t"
proof -
  have "open_section b n s \<le> 2 ^ bmt_levels n - 1" using open_section_less [of b s n] assms by simp
  then show ?thesis using assms by (auto simp: open_section_def div_le_mono)
qed

lemma open_section_end:
  assumes "0 < bh_Size b" "s \<le> bmt_max b n"
  shows "i < open_section b n s \<Longrightarrow> i * (2 * bh_Size b) + 2 * bh_Size b \<le> s"
    and "s \<le> open_section b n s * (2 * bh_Size b) + 2 * bh_Size b"
    and "s < bmt_max b n \<Longrightarrow> s < open_section b n s * (2 * bh_Size b) + 2 * bh_Size b"
    and "open_section b n s * (2 * bh_Size b) + 2 * bh_Size b \<le> bmt_max b n"
proof -
  let ?z = "2 * bh_Size b" and ?k = "2 ^ bmt_levels n :: nat"
  have m: "bmt_max b n = (?k - 1) * ?z + ?z"
    unfolding bmt_max_def by (metis add.commute le_add_diff_inverse2 mult_Suc one_le_numeral one_le_power plus_1_eq_Suc)
  have e: "s div ?z * ?z \<le> s" "s < s div ?z * ?z + ?z"
    using assms(1) dividend_less_div_times [of ?z s] by (simp_all add: add.commute)
  have le: "Suc j * ?z \<le> s" if "j < s div ?z" for j
    using that e(1) by (meson Suc_leI le_trans mult_le_mono1)
  show "i * ?z + ?z \<le> s" if "i < open_section b n s"
  proof (cases "s = bmt_max b n")
    case True
    then have "i * ?z + ?z \<le> (?k - 1) * ?z" using that mult_le_mono1 [of "Suc i" "?k - 1" ?z] by (simp add: open_section_def)
    then show ?thesis unfolding True using m by linarith
  next
    case False
    then show ?thesis using le [of i] that by (simp add: open_section_def)
  qed
  show "s \<le> open_section b n s * ?z + ?z" "s < bmt_max b n \<Longrightarrow> s < open_section b n s * ?z + ?z"
    using e m by (auto simp: open_section_def)
  have "open_section b n s \<le> ?k - 1" using open_section_less [of b s n] assms by simp
  then show "open_section b n s * ?z + ?z \<le> bmt_max b n" using m mult_le_mono1 [of _ "?k - 1" ?z] by simp
qed

lemma ctx_run_of:
  assumes b: "0 < bh_Size b" and c: "\<forall>v. clean (init v)"
  shows "ctx_ok (run_of b n cap data init)"
proof -
  let ?x = "run_of b n cap data init" and ?D = "bmt_levels n" and ?d = "padded (bmt_max b n) data"
  let ?N = "min (length data) (bmt_max b n)"
  let ?P = "open_section b n ?N"
  have P: "?P < 2 ^ ?D" "bmt_max b n \<noteq> ?N \<Longrightarrow> ?N < ?P * (2 * bh_Size b) + 2 * bh_Size b"
    using open_section_less [OF b, of ?N n] open_section_end(3) [OF b, of ?N n] by auto
  have "subtree b ?d (fst m) (snd m) = doHash b [subtree b ?d (fst (kid_l m)) (snd (kid_l m)), subtree b ?d (fst (kid_r m)) (snd (kid_r m))]"
    if "0 < fst m" for m
    using that by (cases m; cases "fst m") (simp_all add: kid_l_def kid_r_def)
  moreover have "subtree b ?d (fst (kid_r m)) (snd (kid_r m)) = cf_zerohashes (NewConf b n cap) ! fst m"
    if m: "0 < fst m" "act ?x m" "\<not> act ?x (kid_r m)" for m
  proof -
    obtain l j where lj: "m = (Suc l, j)" using m(1) by (cases m; cases "fst m") auto
    let ?w = "2 ^ l * (2 * bh_Size b)"
    have l: "Suc l \<le> ?D" and j: "j \<le> ?P div 2 ^ Suc l" and nj: "?P div 2 ^ l < 2 * j + 1"
      using m lj by (auto simp: act_def kid_r_def)
    have "?P div 2 ^ Suc l < 2 ^ (?D - Suc l)"
      using P(1) l by (simp add: less_mult_imp_div_less power_add [symmetric] del: power_Suc)
    then have "Suc j * 2 ^ Suc l \<le> 2 ^ (?D - Suc l) * 2 ^ Suc l" using j by (intro mult_le_mono1) simp
    also have "\<dots> = 2 ^ ?D" using l by (simp add: power_add [symmetric] del: power_Suc)
    finally have len: "(2 * j + 1 + 1) * ?w \<le> length ?d"
      using mult_le_mono1 [of "Suc j * 2 ^ Suc l" "2 ^ ?D" "2 * bh_Size b"] by (simp add: bmt_max_def algebra_simps)
    have "Suc ?P \<le> (2 * j + 1) * 2 ^ l"
      using nj by (simp add: div_less_iff_less_mult Suc_le_eq)
    then have st: "?P * (2 * bh_Size b) + 2 * bh_Size b \<le> (2 * j + 1) * ?w"
      using mult_le_mono1 [of "Suc ?P" "(2 * j + 1) * 2 ^ l" "2 * bh_Size b"] by (simp add: algebra_simps)
    have "subtree b ?d l (2 * j + 1) = zero_hash b (Suc l)"
    proof (rule subtree_zero [OF len])
      fix k assume k: "(2 * j + 1) * ?w \<le> k" "k < length ?d"
      have "bmt_max b n \<noteq> ?N" using st k open_section_end(2) [OF b, of ?N n] by auto
      then have "?N < k" using P(2) st k(1) by linarith
      then have "length data \<le> k" using k(2) by simp
      then show "?d ! k = 0" using k by (simp add: padded_def nth_append)
    qed
    then show ?thesis using NewConf_zerohashes [of "Suc l" n b cap] l lj by (simp add: kid_r_def)
  qed
  ultimately show ?thesis using c unfolding ctx_ok_def run_of_simps NewConf_simps by (simp del: split_paired_All)
qed

section \<open>The invariant of a run\<close>

definition sys_ok :: "run_ctx \<Rightarrow> nat \<Rightarrow> hasher \<Rightarrow> (node_id \<Rightarrow> tok) \<Rightarrow> bool" where
  "sys_ok x n h tk \<longleftrightarrow>
     tree_inv x (bt_nodes (hr_tree h)) tk \<and> pool_ok (hr_go h) (live x n tk) \<and> unspawned n tk"

definition section_at :: "nat \<Rightarrow> nat \<Rightarrow> bytes \<Rightarrow> bytes" where
  "section_at z i d = slice (i * z) (i * z + z) d"

text \<open>The sections that have been started are in the buffer.\<close>

definition bufs_ok :: "nat \<Rightarrow> nat \<Rightarrow> bytes \<Rightarrow> hasher \<Rightarrow> bool" where
  "bufs_ok z n d h \<longleftrightarrow> (\<forall>i < n. section_at z i (bt_buffer (hr_tree h)) = section_at z i d)"

definition result_sent :: "run_ctx \<Rightarrow> (node_id \<Rightarrow> tok) \<Rightarrow> bool" where
  "result_sent x tk \<longleftrightarrow> tk_ph (tk (rx_D x, 0)) = 4"

definition running :: "run_ctx \<Rightarrow> bytes \<Rightarrow> nat \<Rightarrow> nat \<Rightarrow> hasher \<Rightarrow> bool \<Rightarrow> bool" where
  "running x d z n h r \<longleftrightarrow>
     bufs_ok z n d h \<and> (\<exists>tk. sys_ok x n h tk \<and> result_sent x tk = r) \<and> length (hr_go h) = n"

fun run_inv :: "base_hash \<Rightarrow> nat \<Rightarrow> nat \<Rightarrow> base_hash \<Rightarrow> bytes \<Rightarrow> (node_id \<Rightarrow> u32) \<Rightarrow> bytes \<Rightarrow> hasher \<times> caller \<Rightarrow> bool" where
  "run_inv b n cap sha3 data init span (h, Writing todo) \<longleftrightarrow>
     (\<exists>w. data = w @ concat todo \<and> hr_size h = min (length w) (bmt_max b n) \<and>
        length (bt_buffer (hr_tree h)) = bmt_max b n \<and>
        take (hr_size h) (bt_buffer (hr_tree h)) = take (hr_size h) w \<and>
        hr_pos h = open_section b n (hr_size h) \<and> hr_span h = span \<and>
        running (run_of b n cap data init) (padded (bmt_max b n) data) (2 * bh_Size b) (hr_pos h) h False)"
| "run_inv b n cap sha3 data init span (h, Waiting) \<longleftrightarrow>
     0 < min (length data) (bmt_max b n) \<and> hr_span h = span \<and>
     running (run_of b n cap data init) (padded (bmt_max b n) data) (2 * bh_Size b)
       (Suc (rx_P (run_of b n cap data init))) h False"
| "run_inv b n cap sha3 data init span (h, Returned r) \<longleftrightarrow>
     r = doHash sha3 [span, subtree b (padded (bmt_max b n) data) (bmt_levels n) 0] \<and>
     (min (length data) (bmt_max b n) = 0 \<and> hr_go h = [] \<and> (\<forall>v. nd_state (node_at h v) = init v) \<or>
      0 < min (length data) (bmt_max b n) \<and>
      running (run_of b n cap data init) (padded (bmt_max b n) data) (2 * bh_Size b)
        (Suc (rx_P (run_of b n cap data init))) h True)"

lemma go_step_frame:
  assumes "go_ok x n h tk t r"
  shows "hr_size (fst r) = hr_size h" "hr_pos (fst r) = hr_pos h" "hr_span (fst r) = hr_span h"
    "hr_go (fst r) = hr_go h" "bt_buffer (hr_tree (fst r)) = bt_buffer (hr_tree h)"
  using assms by (auto simp: go_ok_def)

text \<open>A step of a goroutine.\<close>

lemma running_go:
  assumes R: "running x d z n h r" and x: "ctx_ok x" and n: "n \<le> Suc (rx_P x)"
    and z: "z = 2 * cf_segmentSize (rx_conf x)"
    and V: "\<And>i. rx_V x (0, i) = doHash (cf_hasher (rx_conf x)) [section_at z i d]"
    and k: "k < length (hr_go h)" "hr_go h ! k = t" "t \<noteq> Ended" "sent (rx_conf x) t = None"
    and s: "go_step (rx_conf x) h t = (h', t')"
  shows "running x d z n (h'\<lparr>hr_go := (hr_go h')[k := t']\<rparr>) r"
    "hr_size h' = hr_size h" "hr_pos h' = hr_pos h" "hr_span h' = hr_span h"
    "bt_buffer (hr_tree h') = bt_buffer (hr_tree h)" "hr_go h' = hr_go h"
proof -
  obtain tk where S: "sys_ok x n h tk" "result_sent x tk = r" using R by (auto simp: running_def)
  have T: "tree_inv x (bt_nodes (hr_tree h)) tk" "unspawned n tk" "pool_ok (hr_go h) (live x n tk)"
    using S by (auto simp: sys_ok_def)
  have L: "live x n tk t" using pool_live [OF T(3) k(1,2,3)] .
  have B: "bufs_ok z n d h" using R by (simp add: running_def)
  have G: "go_ok x n h tk t (h', t')"
    using go_any [OF T(1,2) L x k(4) n] B V s unfolding z bufs_ok_def section_at_def by auto
  note F = go_step_frame [OF G, unfolded fst_conv]
  show "hr_size h' = hr_size h" "hr_pos h' = hr_pos h" "hr_span h' = hr_span h"
    "bt_buffer (hr_tree h') = bt_buffer (hr_tree h)" "hr_go h' = hr_go h" using F by simp_all
  obtain tk' where tk': "tree_inv x (bt_nodes (hr_tree h')) tk'" "goes (live x n tk) (live x n tk') t t'"
      "unspawned n tk'" "result_sent x tk' = result_sent x tk"
    using G unfolding go_ok_def result_sent_def by fastforce
  have "pool_ok ((hr_go h)[k := t']) (live x n tk')" using pool_goes [OF T(3) k(1,2,3) tk'(2)] .
  then show "running x d z n (h'\<lparr>hr_go := (hr_go h')[k := t']\<rparr>) r"
    using R B F tk' S(2) unfolding running_def sys_ok_def bufs_ok_def by auto
qed

text \<open>The step that delivers the result.\<close>

lemma running_result:
  assumes R: "running x d z n h False" and x: "ctx_ok x" and P: "rx_P x < 2 ^ rx_D x"
    and k: "k < length (hr_go h)" "hr_go h ! k = t" "sent (rx_conf x) t = Some s"
  shows "running x d z n (h\<lparr>hr_go := (hr_go h)[k := Ended]\<rparr>) True \<and> s = rx_V x (rx_D x, 0)"
proof -
  obtain tk where S: "sys_ok x n h tk" "\<not> result_sent x tk" using R by (auto simp: running_def)
  have T: "tree_inv x (bt_nodes (hr_tree h)) tk" "unspawned n tk" "pool_ok (hr_go h) (live x n tk)"
    using S by (auto simp: sys_ok_def)
  have ne: "t \<noteq> Ended" using k(3) by auto
  have L: "live x n tk t" using pool_live [OF T(3) k(1,2) ne] .
  obtain v where v: "is_root (rx_conf x) v" "tk_ph (tk v) = 1" "s = rx_V x v"
      "t = WriteAt v s \<and> \<not> tk_fin (tk v) \<or> t = FinalAt v (Some s) \<and> tk_fin (tk v)"
    using L k(3) by (cases t) (auto split: if_splits option.splits)
  have ok: "tok_ok x v (tk v)" using tree_invD [OF T(1)] by blast
  have av: "act x v" using tok_act [OF ok] v by simp
  then have D: "fst v = rx_D x" using v x act_fst [of x v] by (simp add: is_root_def ctx_ok_def)
  then have vD: "v = (rx_D x, 0)" using av P by (cases v) (simp add: act_def)
  let ?tk = "tk(v := (tk v)\<lparr>tk_ph := 4\<rparr>)"
  have "tree_inv x (bt_nodes (hr_tree h)) ?tk"
    using v ok D by (intro tree_root [OF T(1)]) (auto simp: begun_eq_def fhere_def tok_ok_def)
  moreover have "goes (live x n tk) (live x n ?tk) t Ended"
  proof (rule goesI)
    fix u :: goroutine assume "u \<noteq> Ended"
    then show "live x n ?tk u \<longleftrightarrow> live x n tk u \<and> u \<noteq> t \<or> u = Ended"
      using v ok by (elim disjE; cases u) (auto split: option.splits simp: tok_ok_def)
  qed simp
  moreover have "unspawned n ?tk" using T(2) v by (auto simp: unspawned_def)
  ultimately have "sys_ok x n (h\<lparr>hr_go := (hr_go h)[k := Ended]\<rparr>) ?tk"
    using pool_goes [OF T(3) k(1,2) ne] unfolding sys_ok_def by auto
  moreover have "result_sent x ?tk" unfolding result_sent_def vD by simp
  ultimately show ?thesis using R v vD unfolding running_def bufs_ok_def by auto
qed

text \<open>New sections.\<close>

lemma pool_spawn:
  assumes P: "pool_ok pool (live x n tk)" and u: "unspawned n tk" and m: "n \<le> m" "m \<le> rx_P x"
  shows "pool_ok (pool @ map (\<lambda>i. Section i False) [n..<m]) (live x m tk)"
  unfolding pool_ok_def
proof (intro allI impI)
  fix t :: goroutine assume t: "t \<noteq> Ended"
  have old: "count (mset pool) t = of_bool (live x n tk t)" using P t by (simp add: pool_ok_def)
  have inj: "distinct (map (\<lambda>i. Section i False) [n..<m])" by (simp add: distinct_map inj_on_def)
  have new: "count (mset (map (\<lambda>i. Section i False) [n..<m])) t = of_bool (\<exists>i. t = Section i False \<and> n \<le> i \<and> i < m)"
    using inj by (auto simp: distinct_count_atmost_1)
  have "live x m tk t \<longleftrightarrow> live x n tk t \<or> (\<exists>i. t = Section i False \<and> n \<le> i \<and> i < m)"
    using u m by (cases t) (auto simp: unspawned_def)
  moreover have "\<not> (live x n tk t \<and> (\<exists>i. t = Section i False \<and> n \<le> i \<and> i < m))" by auto
  ultimately show "count (mset (pool @ map (\<lambda>i. Section i False) [n..<m])) t = of_bool (live x m tk t)"
    using old new by auto
qed

lemma pool_spawn_final:
  assumes P: "pool_ok pool (live x (rx_P x) tk)" and u: "unspawned (rx_P x) tk"
  shows "pool_ok (pool @ [Section (rx_P x) True]) (live x (Suc (rx_P x)) tk)"
  unfolding pool_ok_def
proof (intro allI impI)
  fix t :: goroutine assume t: "t \<noteq> Ended"
  have old: "count (mset pool) t = of_bool (live x (rx_P x) tk t)" using P t by (simp add: pool_ok_def)
  have "live x (Suc (rx_P x)) tk t \<longleftrightarrow> live x (rx_P x) tk t \<or> t = Section (rx_P x) True"
    using u by (cases t) (auto simp: unspawned_def less_Suc_eq)
  then show "count (mset (pool @ [Section (rx_P x) True])) t = of_bool (live x (Suc (rx_P x)) tk t)"
    using old by auto
qed

lemma section_take: "i * z + z \<le> m \<Longrightarrow> section_at z i (take m d) = section_at z i d"
  by (simp add: section_at_def slice_def drop_take min_def)

lemma bufs_take:
  assumes "take m (bt_buffer (hr_tree h)) = take m d" "\<And>i. i < n \<Longrightarrow> i * z + z \<le> m"
  shows "bufs_ok z n d h"
  unfolding bufs_ok_def using assms section_take by metis

lemma Write_inv:
  assumes b: "0 < bh_Size b" and R: "run_inv b n cap sha3 data init span (h, Writing (bs # todo))"
  shows "run_inv b n cap sha3 data init span (snd (bmt_Write (NewConf b n cap) bs h), Writing todo)"
proof -
  let ?m = "bmt_max b n" and ?z = "2 * bh_Size b" and ?x = "run_of b n cap data init" and ?d = "padded (bmt_max b n) data"
  obtain w where w: "data = w @ bs @ concat todo" "hr_size h = min (length w) ?m"
      "length (bt_buffer (hr_tree h)) = ?m" "take (hr_size h) (bt_buffer (hr_tree h)) = take (hr_size h) w"
      "hr_pos h = open_section b n (hr_size h)" "hr_span h = span"
      "running ?x ?d ?z (hr_pos h) h False" using R by auto
  let ?s = "hr_size h"
  let ?l = "if ?m - ?s < length bs then ?m - ?s else length bs"
  let ?buf = "copy_at (bt_buffer (hr_tree h)) ?s bs"
  let ?s' = "?s + ?l" and ?to = "open_section b n (?s + ?l)"
  have s': "?s' = min (length (w @ bs)) ?m" using w(2) by auto
  have le: "?s' \<le> ?m" "?s \<le> ?s'" using s' by auto
  have to: "(if ?l = ?m - ?s then ?s' div ?z - 1 else ?s' div ?z) = ?to"
  proof -
    have "?l = ?m - ?s \<longleftrightarrow> ?s' = ?m" using w(2) by auto
    then show ?thesis using max_div [OF b, of n] by (auto simp: open_section_def)
  qed
  have new: "[?s div ?z..<?to] = [hr_pos h..<?to]"
  proof (cases "?s = ?m")
    case True
    then have "?s' = ?m" using le by simp
    then show ?thesis using True w(5) max_div [OF b, of n] by (simp add: open_section_def)
  qed (simp add: w(5) open_section_def)
  define h' where "h' = h\<lparr>hr_tree := (hr_tree h)\<lparr>bt_buffer := ?buf\<rparr>, hr_offset := ?s mod ?z, hr_size := ?s',
      hr_pos := ?to, hr_go := hr_go h @ map (\<lambda>i. Section i False) [hr_pos h..<?to]\<rparr>"
  have "bmt_Write (NewConf b n cap) bs h = (?l, h')"
    unfolding bmt_Write_def Let_def NewConf_simps bmt_max_def [symmetric] h'_def using to new by simp
  then have res: "snd (bmt_Write (NewConf b n cap) bs h) = h'" by simp
  have sl: "?s \<le> ?m" using w(2) by simp
  have buf: "take ?s' ?buf = take ?s' (w @ bs)"
  proof -
    have "take ?s' ?buf = take ?s w @ take ?l bs"
    proof -
      have T: "take (?m - ?s) bs = take ?l bs" "length (take ?l bs) = ?l" by auto
      have "length (take ?s (bt_buffer (hr_tree h))) = ?s" using w(3) sl by simp
      then have "take ?s' (take ?s (bt_buffer (hr_tree h)) @ take ?l bs @ r) = take ?s (bt_buffer (hr_tree h)) @ take ?l bs" for r
        using T(2) by simp
      then show ?thesis unfolding copy_at_def w(3) T(1) w(4) [symmetric] .
    qed
    also have "\<dots> = take ?s' (w @ bs)"
      using w(2) by (auto simp: min_def)
    finally show ?thesis .
  qed
  have pos: "hr_pos h \<le> ?to" "?to \<le> rx_P ?x"
    using open_section_mono [OF b le(2,1)] open_section_mono [OF b, of ?s' "min (length data) ?m" n] w(1,5) s' by auto
  have d: "take ?s' ?d = take ?s' (w @ bs)" using s' w(1) by (auto simp: padded_def min_def)
  have B: "bufs_ok ?z ?to ?d h'"
    using buf d open_section_end(1) [OF b le(1)] by (intro bufs_take [of ?s']) (simp_all add: h'_def)
  obtain tk where tk: "sys_ok ?x (hr_pos h) h tk" "\<not> result_sent ?x tk" and n: "length (hr_go h) = hr_pos h"
    using w(7) by (auto simp: running_def)
  have "sys_ok ?x ?to h' tk"
    using tk(1) pool_spawn [OF _ _ pos] pos(1) by (auto simp: sys_ok_def h'_def unspawned_def)
  then have "running ?x ?d ?z ?to h' False" using B tk(2) n pos(1) by (auto simp: running_def h'_def)
  moreover have "length ?buf = ?m" using w(3) sl by simp
  ultimately show ?thesis unfolding res using w(1,6) s' buf
    by (auto simp: h'_def intro!: exI [of _ "w @ bs"])
qed

lemma zero_data: "0 < bh_Size b \<Longrightarrow> min (length data) (bmt_max b n) = 0 \<Longrightarrow>
    subtree b (padded (bmt_max b n) data) (bmt_levels n) 0 = zero_hash b (Suc (bmt_levels n))"
  by (rule subtree_zero) (auto simp: bmt_max_def padded_def nth_append min_def split: if_splits)

lemma Hash_inv:
  assumes b: "0 < bh_Size b" "bh_Size b \<le> 32" and R: "run_inv b n cap sha3 data init span (h, Writing [])"
  shows "run_inv b n cap sha3 data init span (Hash_start (NewConf b n cap) sha3 h)"
proof -
  let ?m = "bmt_max b n" and ?z = "2 * bh_Size b" and ?x = "run_of b n cap data init" and ?d = "padded (bmt_max b n) data"
  have w: "hr_size h = min (length data) ?m" "length (bt_buffer (hr_tree h)) = ?m"
      "take (hr_size h) (bt_buffer (hr_tree h)) = take (hr_size h) data" "hr_pos h = rx_P ?x" "hr_span h = span"
      "running ?x ?d ?z (hr_pos h) h False" using R by auto
  let ?s = "hr_size h"
  obtain tk where tk: "sys_ok ?x (hr_pos h) h tk" "\<not> result_sent ?x tk" and n: "length (hr_go h) = hr_pos h"
    using w(6) by (auto simp: running_def)
  show ?thesis
  proof (cases "?s = 0")
    case True
    have "0 < ?m" using b by (simp add: bmt_max_def)
    then have "hr_pos h = 0" using True w(1,4) by (simp add: open_section_def)
    then have e: "hr_go h = []" "\<And>v. tk_ph (tk (0, v)) = 0" using n tk(1) by (auto simp: sys_ok_def unspawned_def)
    have T: "tree_inv ?x (bt_nodes (hr_tree h)) tk" and L: "pool_ok (hr_go h) (live ?x 0 tk)"
      using tk(1) \<open>hr_pos h = 0\<close> by (simp_all add: sys_ok_def)
    have none: "tk_ph (tk v) = 0" for v
    proof (induction "fst v" arbitrary: v)
      case 0
      then show ?case using e(2) by (cases v) simp
    next
      case (Suc l)
      have ok: "tok_ok ?x v (tk v)" using tree_invD [OF T] by blast
      show ?case
      proof (rule ccontr)
        assume a: "tk_ph (tk v) \<noteq> 0"
        then have "act ?x v" using ok by (simp add: tok_ok_def)
        then have "node_inv ?x (bt_nodes (hr_tree h)) tk v" using tree_invD(2) [OF T] Suc.hyps(2) by simp
        then have "tk_ph (tk (kid_l v)) = 4" using a by (auto simp: node_inv_def both_ok_def left_ok_def split: if_splits)
        moreover have "tk_ph (tk (kid_l v)) = 0"
          using Suc.hyps(1) [of "kid_l v"] Suc.hyps(2) kid_facts(1) [of v] by simp
        ultimately show False by simp
      qed
    qed
    have ok: "tok_ok ?x w (tk w)" for w using tree_invD [OF T] by blast
    have zp: "tk_zp (tk w) = 0" for w
    proof (induction "fst w" arbitrary: w)
      case 0
      then show ?case using ok [of w] by (simp add: tok_ok_def)
    next
      case (Suc l)
      show ?case
      proof (rule ccontr)
        assume a: "tk_zp (tk w) \<noteq> 0"
        then have "act ?x w" using tok_act [OF ok, of w] by simp
        then have N: "node_inv ?x (bt_nodes (hr_tree h)) tk w" using tree_invD(2) [OF T] Suc.hyps(2) by simp
        have "fst (kid_l w) = l" "fst (kid_r w) = l" using Suc.hyps(2) kid_facts(1,2) [of w] by simp_all
        then have "tk_zp (tk (kid_l w)) = 0" "tk_zp (tk (kid_r w)) = 0" using Suc.hyps(1) by simp_all
        then show False using N a none by (auto simp: node_inv_def tok_defs split: if_splits)
      qed
    qed
    have "nd_state (node_at h v) = init v" for v
    proof (cases "0 < fst v \<and> act ?x v")
      case True
      then have "node_inv ?x (bt_nodes (hr_tree h)) tk v" using tree_invD(2) [OF T] by simp
      then show ?thesis using none zp by (auto simp: node_at_def node_inv_def tok_defs split: if_splits)
    next
      case False
      then show ?thesis using tree_invD(3) [OF T False] by (simp add: node_at_def)
    qed
    then show ?thesis using True w e(1) zero_data [OF b(1), of data n] NewConf_zerohashes [of "Suc (bmt_levels n)" n b cap]
      by (simp add: Hash_start_def)
  next
    case False
    let ?buf = "copy_at (bt_buffer (hr_tree h)) ?s (replicate 64 0)"
    define h' where "h' = h\<lparr>hr_tree := (hr_tree h)\<lparr>bt_buffer := ?buf\<rparr>, hr_go := hr_go h @ [Section (rx_P ?x) True]\<rparr>"
    have res: "Hash_start (NewConf b n cap) sha3 h = (h', Waiting)"
      using False w(4) by (simp add: Hash_start_def h'_def)
    have sl: "?s \<le> ?m" using w(1) by simp
    let ?t = "min ?m (?s + 64)"
    have buf: "take ?t ?buf = take ?t ?d"
    proof -
      have "length (take ?s (bt_buffer (hr_tree h))) = ?s" using w(2) sl by simp
      then have "take ?t ?buf = take ?s data @ take (?t - ?s) (take (?m - ?s) (replicate 64 0))"
        unfolding copy_at_def w(2) using w(3) sl by (simp add: min_def)
      moreover have "take ?t ?d = take ?s data @ replicate (?t - ?s) 0"
      proof (cases "length data \<le> ?m")
        case True
        then have "?s = length data" using w(1) by simp
        moreover from this have "min (?t - ?s) (?m - ?s) = ?t - ?s" using sl by linarith
        ultimately show ?thesis using sl by (simp add: padded_def take_append)
      next
        case False
        then have "?s = ?m" using w(1) by simp
        then show ?thesis using False by (simp add: padded_def)
      qed
      moreover have "take (?t - ?s) (take (?m - ?s) (replicate 64 (0 :: byte))) = replicate (?t - ?s) 0"
      proof -
        have "min (?t - ?s) (min (?m - ?s) 64) = ?t - ?s" using sl by linarith
        then show ?thesis by (simp only: take_replicate)
      qed
      ultimately show ?thesis by metis
    qed
    have P: "open_section b n ?s = rx_P ?x" using w(1) by simp
    have last: "i * ?z + ?z \<le> ?t" if "i < Suc (rx_P ?x)" for i
    proof (cases "i = rx_P ?x")
      case True
      have "i * ?z + ?z \<le> ?m" using open_section_end(4) [OF b(1) sl] P True by simp
      moreover have "i * ?z + ?z \<le> ?s + 64"
      proof (cases "?s = ?m")
        case True
        then show ?thesis using \<open>i * ?z + ?z \<le> ?m\<close> by simp
      next
        case False
        then have "i = ?s div ?z" using P True by (simp add: open_section_def)
        then have "i * ?z \<le> ?s" by (simp add: div_times_less_eq_dividend)
        then show ?thesis using b(2) by simp
      qed
      ultimately show ?thesis by simp
    next
      case False
      then have "i * ?z + ?z \<le> ?s" using open_section_end(1) [OF b(1) sl, of i] P that by simp
      then show ?thesis using sl by simp
    qed
    have B: "bufs_ok ?z (Suc (rx_P ?x)) ?d h'"
      using buf last by (intro bufs_take [of ?t]) (simp_all add: h'_def)
    have "sys_ok ?x (Suc (rx_P ?x)) h' tk"
      using tk(1) pool_spawn_final [of "hr_go h" ?x tk] w(4) by (auto simp: sys_ok_def h'_def unspawned_def)
    then have "running ?x ?d ?z (Suc (rx_P ?x)) h' False" using B tk(2) n w(4) by (auto simp: running_def h'_def)
    then show ?thesis unfolding res using w(1,5) False by (auto simp: h'_def)
  qed
qed

end
