(* ===== verification/Bmt_Props.thy ===== *)
theory Bmt_Props
  imports Bmt_Caller
begin

text \<open>
  The hasher against the reference hasher: whatever way the goroutines are interleaved, the call
  returns, and returns the reference hash; the tree can be used again; the proofs it gives
  verify.
\<close>

section \<open>Every run keeps the invariant\<close>

text \<open>A hasher as \<open>Get\<close> makes it, with any header, on a tree whose toggles are at rest.\<close>

definition bmt_ready :: "bmt_conf \<Rightarrow> hasher \<Rightarrow> bool" where
  "bmt_ready c h \<longleftrightarrow>
     hr_size h = 0 \<and> hr_pos h = 0 \<and> hr_go h = [] \<and> length (bt_buffer (hr_tree h)) = cf_maxSize c \<and>
     (\<forall>v. clean (nd_state (node_at h v)))"

lemma ready_run:
  assumes b: "0 < bh_Size b" and h: "bmt_ready (NewConf b n cap) h"
  shows "run_inv b n cap sha3 (concat bs) (\<lambda>v. nd_state (node_at h v)) (hr_span h) (h, Writing bs)"
proof -
  let ?init = "\<lambda>v. nd_state (node_at h v)"
  let ?x = "run_of b n cap (concat bs) ?init"
  let ?P = "rx_P ?x"
  define tk where "tk = (\<lambda>v :: node_id. \<lparr>tk_ph = 0, tk_fin = (v = (0, ?P)), tk_zp = 0\<rparr>)"
  have P: "?P < 2 ^ rx_D ?x" using open_section_less [OF b] by simp
  have ok: "tok_ok ?x v (tk v)" for v
    by (cases v) (auto simp: tok_ok_def tk_def onp_def)
  have N: "node_inv ?x (bt_nodes (hr_tree h)) tk m" if m: "0 < fst m" "act ?x m" for m
  proof -
    have "kid_l m \<noteq> (0, ?P)" if "act ?x (kid_r m)"
    proof
      assume e: "kid_l m = (0, ?P)"
      have "onp ?x (kid_l m)" unfolding e by (simp add: onp_def)
      then show False using onp_kid_l [OF m(1) _ m(2)] that by blast
    qed
    then show ?thesis by (auto simp: node_inv_def tok_defs tk_def node_at_def)
  qed
  have "tree_inv ?x (bt_nodes (hr_tree h)) tk"
    using ok N by (intro tree_invI) (simp_all add: node_at_def)
  moreover have "pool_ok [] (live ?x 0 tk)"
    unfolding pool_ok_def
  proof (intro allI impI)
    fix t :: goroutine show "count (mset []) t = of_bool (live ?x 0 tk t)"
      by (cases t) (auto simp: tk_def split: option.splits)
  qed
  moreover have "unspawned 0 tk" by (simp add: unspawned_def tk_def)
  ultimately have "running ?x (padded (bmt_max b n) (concat bs)) (2 * bh_Size b) 0 h False"
    using h by (auto simp: running_def sys_ok_def bufs_ok_def bmt_ready_def result_sent_def tk_def intro!: exI [of _ tk])
  moreover have "0 < bmt_max b n" using b by (simp add: bmt_max_def)
  ultimately show ?thesis using h by (simp add: bmt_ready_def bmt_max_def [symmetric] open_section_def)
qed

lemma run_inv_step:
  assumes b: "0 < bh_Size b" "bh_Size b \<le> 32" and c: "\<forall>v. clean (init v)"
    and s: "bmt_step (NewConf b n cap) sha3 st st'" and R: "run_inv b n cap sha3 data init span st"
  shows "run_inv b n cap sha3 data init span st'"
  using s
proof cases
  case (call_Write h bs todo)
  then show ?thesis using Write_inv [OF b(1)] R by simp
next
  case (call_Hash h)
  show ?thesis unfolding call_Hash(2) by (rule Hash_inv [OF b R [unfolded call_Hash(1)]])
next
  case (run k h t h' t' m)
  let ?x = "run_of b n cap data init" and ?d = "padded (bmt_max b n) data" and ?z = "2 * bh_Size b"
  have P: "rx_P ?x < 2 ^ rx_D ?x" using open_section_less [OF b(1)] by simp
  have V: "rx_V ?x (0, i) = doHash (cf_hasher (rx_conf ?x)) [section_at ?z i ?d]" for i
    by (simp add: section_at_def)
  have s: "sent (rx_conf ?x) t = None" "go_step (rx_conf ?x) h t = (h', t')" using run(6,7) by simp_all
  have z: "?z = 2 * cf_segmentSize (rx_conf ?x)" by simp
  have G: "hr_go h' = hr_go h \<and> running ?x ?d ?z q (h'\<lparr>hr_go := (hr_go h)[k := t']\<rparr>) r \<and> hr_size h' = hr_size h \<and>
      hr_pos h' = hr_pos h \<and> hr_span h' = hr_span h \<and> bt_buffer (hr_tree h') = bt_buffer (hr_tree h)"
    if "running ?x ?d ?z q h r" "q \<le> Suc (rx_P ?x)" for q r
  proof -
    note F = running_go [OF that(1) ctx_run_of [OF b(1) c] that(2) z V run(3,4,5) s]
    show ?thesis using F(1) unfolding F(6) using F(2-5) by simp
  qed
  show ?thesis
  proof (cases m)
    case (Writing todo)
    obtain w where w: "data = w @ concat todo" "hr_size h = min (length w) (bmt_max b n)"
        "length (bt_buffer (hr_tree h)) = bmt_max b n"
        "take (hr_size h) (bt_buffer (hr_tree h)) = take (hr_size h) w"
        "hr_pos h = open_section b n (hr_size h)" "hr_span h = span"
        "running ?x ?d ?z (hr_pos h) h False" using R run(1) Writing by auto
    have "hr_size h \<le> min (length data) (bmt_max b n)" using w(1,2) by auto
    then have "hr_pos h \<le> Suc (rx_P ?x)"
      using open_section_mono [OF b(1), of "hr_size h" "min (length data) (bmt_max b n)" n] w(5) by simp
    note F = G [OF w(7) this]
    show ?thesis unfolding run(2) Writing run_inv.simps using F w by (intro exI [of _ w]) simp
  next
    case Waiting
    then show ?thesis using R run(1,2) G [of "Suc (rx_P ?x)" False] by simp
  next
    case (Returned r)
    show ?thesis
    proof (cases "hr_go h = []")
      case True
      then show ?thesis using run(3) by simp
    next
      case False
      then show ?thesis using R run(1,2) G [of "Suc (rx_P ?x)" True] Returned by auto
    qed
  qed
next
  case (result k h t s)
  let ?x = "run_of b n cap data init"
  have P: "rx_P ?x < 2 ^ rx_D ?x" using open_section_less [OF b(1)] by simp
  have R': "running ?x (padded (bmt_max b n) data) (2 * bh_Size b) (Suc (rx_P ?x)) h False"
    "0 < min (length data) (bmt_max b n)" "hr_span h = span" using R result(1) by auto
  note F = running_result [OF R'(1) ctx_run_of [OF b(1) c] P result(3,4)]
  show ?thesis unfolding result(2) run_inv.simps using F result(5) R'(2,3) by simp
qed

lemma run_inv_steps:
  assumes "0 < bh_Size b" "bh_Size b \<le> 32" "\<forall>v. clean (init v)"
    "(bmt_step (NewConf b n cap) sha3)\<^sup>*\<^sup>* st st'" "run_inv b n cap sha3 data init span st"
  shows "run_inv b n cap sha3 data init span st'"
  using assms(4,5) by (induction rule: rtranclp_induct) (auto intro: run_inv_step [OF assms(1,2,3)])

text \<open>The facts on a reached state that the properties below use.\<close>

lemma reached:
  assumes "0 < bh_Size b" "bh_Size b \<le> 32" "bmt_ready (NewConf b n cap) h"
    "(bmt_step (NewConf b n cap) sha3)\<^sup>*\<^sup>* (h, Writing bs) st"
  shows "run_inv b n cap sha3 (concat bs) (\<lambda>v. nd_state (node_at h v)) (hr_span h) st"
    and "ctx_ok (run_of b n cap (concat bs) (\<lambda>v. nd_state (node_at h v)))"
proof -
  have c: "\<forall>v. clean (nd_state (node_at h v))" using assms(3) by (simp add: bmt_ready_def)
  show "run_inv b n cap sha3 (concat bs) (\<lambda>v. nd_state (node_at h v)) (hr_span h) st"
    by (rule run_inv_steps [OF assms(1,2) c assms(4) ready_run [OF assms(1,3)]])
  show "ctx_ok (run_of b n cap (concat bs) (\<lambda>v. nd_state (node_at h v)))" by (rule ctx_run_of [OF assms(1) c])
qed

section \<open>The end of a run\<close>

text \<open>When the result has been sent, every value has crossed.\<close>

lemma sent_all_gone:
  assumes T: "tree_inv x nodes tk" and P: "rx_P x < 2 ^ rx_D x" and s: "result_sent x tk" and v: "act x v"
  shows "tk_ph (tk v) = 4"
  using v
proof (induction "rx_D x - fst v" arbitrary: v)
  case 0
  then have "fst v = rx_D x" by (simp add: act_def)
  then have "v = (rx_D x, 0)" using 0 P by (cases v) (simp add: act_def)
  then show ?case using s by (simp add: result_sent_def)
next
  case (Suc k)
  then have D: "fst v < rx_D x" by simp
  have a: "act x (parent_node v)" using act_parent [OF Suc.prems D] .
  have "tk_ph (tk (parent_node v)) = 4" using Suc.hyps(1) [OF _ a] Suc.hyps(2) by simp
  then show ?case using node_same [OF Suc.prems, of nodes tk] tree_invD(2) [OF T, of "parent_node v"] a
    by (auto simp: node_kind_def Let_def both_ok_def left_ok_def split: if_splits)
qed

text \<open>When no goroutine is left, the result has been sent.\<close>

lemma none_phase:
  assumes L: "\<And>t. \<not> live x n tk t" and ok: "tok_ok x v (tk v)"
  shows "tk_ph (tk v) = 0 \<or> tk_ph (tk v) = 4" "tk_zp (tk v) = 0 \<or> tk_zp (tk v) = 4"
proof -
  have "\<not> (tk_ph (tk v) = 1 \<and> \<not> tk_fin (tk v))" "\<not> (tk_ph (tk v) = 1 \<and> tk_fin (tk v))"
    using L [of "WriteAt v (rx_V x v)"] L [of "FinalAt v (Some (rx_V x v))"] by simp_all
  moreover have "\<not> (tk_ph (tk v) = 2 \<and> \<not> tk_fin (tk v))" "\<not> (tk_ph (tk v) = 2 \<and> tk_fin (tk v))" "tk_zp (tk v) \<noteq> 2"
    using L [of "WriteToggle v"] L [of "FinalToggle v"] by simp_all
  moreover have "\<not> (tk_ph (tk v) = 3 \<and> \<not> tk_fin (tk v))" "\<not> (tk_ph (tk v) = 3 \<and> tk_fin (tk v))" "tk_zp (tk v) \<noteq> 3"
    using L [of "WriteHash v"] L [of "FinalHash v"] by simp_all
  moreover have "tk_zp (tk v) \<noteq> 1" using L [of "FinalAt v None"] by simp
  moreover have "tk_ph (tk v) \<le> 4" "tk_zp (tk v) \<le> 4" using ok by (simp_all add: tok_ok_def)
  ultimately have p: "tk_ph (tk v) \<le> 4 \<and> tk_ph (tk v) \<noteq> 1 \<and> tk_ph (tk v) \<noteq> 2 \<and> tk_ph (tk v) \<noteq> 3"
    and z: "tk_zp (tk v) \<le> 4 \<and> tk_zp (tk v) \<noteq> 1 \<and> tk_zp (tk v) \<noteq> 2 \<and> tk_zp (tk v) \<noteq> 3" by blast+
  show "tk_ph (tk v) = 0 \<or> tk_ph (tk v) = 4" using p by linarith
  show "tk_zp (tk v) = 0 \<or> tk_zp (tk v) = 4" using z by linarith
qed

lemma none_left:
  assumes T: "tree_inv x nodes tk" and L: "\<And>t. \<not> live x (Suc (rx_P x)) tk t" and P: "rx_P x < 2 ^ rx_D x"
  shows "act x v \<Longrightarrow> tk_ph (tk v) = 4 \<and> (onp x v \<longrightarrow> fgone (tk v))"
proof (induction "fst v" arbitrary: v)
  case 0
  have ok: "tok_ok x v (tk v)" using tree_invD [OF T] by blast
  obtain i where v: "v = (0, i)" using 0(1) by (cases v) simp
  have "i \<le> rx_P x" using 0(2) unfolding v act_def by simp
  then have "tk_ph (tk v) \<noteq> 0" using L [of "Section i (i = rx_P x)"] v by simp
  then have "tk_ph (tk v) = 4" using none_phase(1) [OF L ok] by simp
  moreover have "tk_fin (tk v) \<longleftrightarrow> snd v = rx_P x" using ok 0(1) unfolding tok_ok_def by metis
  moreover have "onp x v \<Longrightarrow> snd v = rx_P x" by (simp add: onp_def v)
  ultimately show ?case by (simp add: fgone_def)
next
  case (Suc l)
  have ok: "tok_ok x v (tk v)" using tree_invD [OF T] by blast
  have N: "node_inv x nodes tk v" using tree_invD(2) [OF T _ Suc.prems] Suc.hyps(2) by simp
  have l: "0 < fst v" "l = fst (kid_l v)" "l = fst (kid_r v)" using Suc.hyps(2) kid_facts(1,2) [of v] by simp_all
  note IHl = Suc.hyps(1) [OF l(2) act_kid_l [OF Suc.prems l(1)]] and IHr = Suc.hyps(1) [OF l(3)]
  have both: "0 < tk_ph (tk v) \<and> (onp x v \<longrightarrow> fhere (tk v))"
  proof (cases "act x (kid_r v)")
    case True
    then have "both_ok (rx_init x v) (nodes v) (tk (kid_l v)) (tk (kid_r v)) (tk v) (rx_V x (kid_l v)) (rx_V x (kid_r v))"
      using N by (simp add: node_inv_def)
    then show ?thesis using IHl IHr [OF True] onp_kid_r [OF l(1) _ True] by (simp add: both_ok_def)
  next
    case False
    then have "left_ok (rx_init x v) (nodes v) (tk (kid_l v)) (tk v) (rx_V x (kid_l v)) (rx_V x (kid_r v))"
      using N by (simp add: node_inv_def)
    moreover have "fgone (tk (kid_l v))" using IHl onp_no_kid_r [OF l(1) Suc.prems False] by simp
    ultimately show ?thesis using IHl by (auto simp: left_ok_def fgone_def)
  qed
  then have ph: "0 < tk_ph (tk v)" and here: "onp x v \<Longrightarrow> fhere (tk v)" by simp_all
  have "tk_ph (tk v) = 4" using none_phase(1) [OF L ok] ph by simp
  moreover have "tk_zp (tk v) = 0 \<or> tk_zp (tk v) = 4" by (rule none_phase(2) [OF L ok])
  ultimately show ?case using here by (auto simp: fhere_def fgone_def)
qed

text \<open>What is left of the work: an upper bound on the steps to come.\<close>

fun go_work :: "nat \<Rightarrow> goroutine \<Rightarrow> nat" where
  "go_work D (Section i final) = 3 * D + 2"
| "go_work D (WriteAt v s) = 3 * (D - fst v) + 1"
| "go_work D (WriteToggle v) = 3 * (D - fst v)"
| "go_work D (WriteHash v) = 3 * (D - fst v) - 1"
| "go_work D (FinalAt v s) = 3 * (D - fst v) + 1"
| "go_work D (FinalToggle v) = 3 * (D - fst v)"
| "go_work D (FinalHash v) = 3 * (D - fst v) - 1"
| "go_work D Ended = 0"

fun bmt_work :: "bmt_conf \<Rightarrow> hasher \<times> caller \<Rightarrow> nat" where
  "bmt_work c (h, m) =
     (let D = cf_depth c - 1
      in sum_list (map (go_work D) (hr_go h)) +
         (case m of
            Writing todo \<Rightarrow> (2 ^ D - hr_pos h) * (3 * D + 3) + length todo + 1
          | Waiting \<Rightarrow> 1
          | Returned _ \<Rightarrow> 0))"

lemma go_work_less:
  assumes T: "tree_inv x nodes tk" and L: "live x n tk t" and x: "ctx_ok x" and s: "sent (rx_conf x) t = None"
  shows "go_work (rx_D x) (snd (go_step (rx_conf x) h t)) < go_work (rx_D x) t"
proof -
  have D: "cf_depth (rx_conf x) = Suc (rx_D x)" using x by (simp add: ctx_ok_def)
  have ok: "tok_ok x v (tk v)" for v using tree_invD [OF T] by blast
  have below: "fst v < rx_D x" if "tk_ph (tk v) \<in> {2, 3} \<or> tk_zp (tk v) \<in> {2, 3}" for v
    using tok_below [OF ok that] by simp
  have le: "\<not> is_root (rx_conf x) v \<Longrightarrow> fst v < rx_D x" for v by (simp add: is_root_def D)
  show ?thesis
  proof (cases t)
    case (FinalAt v r)
    show ?thesis
    proof (cases "is_root (rx_conf x) v")
      case True
      then show ?thesis using FinalAt s by simp
    next
      case False
      then show ?thesis using FinalAt le [OF False]
        by (cases r) (auto simp: writeFinalNode_assign_def Let_def)
    qed
  next
    case (WriteAt v r)
    then show ?thesis using s le [of v] by (auto simp: writeNode_assign_def split: if_splits)
  next
    case (Section i f)
    then show ?thesis by (simp add: processSection_def Let_def)
  next
    case (WriteToggle v)
    then show ?thesis using L below [of v] by (simp add: writeNode_toggle_def split: prod.splits)
  next
    case (WriteHash v)
    then show ?thesis using L below [of v] by simp
  next
    case (FinalToggle v)
    then show ?thesis using L below [of v] by (auto simp: writeFinalNode_toggle_def split: prod.splits)
  next
    case (FinalHash v)
    then show ?thesis using L below [of v] by auto
  qed (use L in simp)
qed

section \<open>The hash is the reference hash\<close>

text \<open>
  C30: The concurrent hasher computes the reference hash. For a caller that writes any list of
  byte strings to a hasher from the pool and then calls \<open>Hash\<close>, every interleaving of the
  goroutines that returns gives the hash of the header and of what \<open>RefHasher.Hash\<close> returns for
  the same bytes: whatever lengths the writes have, with the part beyond the capacity cut off,
  and for no bytes at all. The digest of the base hash has at most 32 bytes, since the padding
  of the last section is a fixed slice of 64 zeros.
\<close>
theorem bmt_hash_correct:
  assumes "0 < bh_Size b" "bh_Size b \<le> 32" "bmt_ready (NewConf b n cap) h"
    and "(bmt_step (NewConf b n cap) sha3)\<^sup>*\<^sup>* (h, Writing bs) (h', Returned r)"
  shows "\<exists>rt. ref_Hash (NewRefHasher b n) (concat bs) = Some rt \<and> r = doHash sha3 [hr_span h, rt]"
  using reached(1) [OF assms] ref_Hash_subtree [OF assms(1), of n "concat bs"]
  by (simp add: bmt_max_def [symmetric])

section \<open>The call returns\<close>

lemma work_run:
  assumes "k < length (hr_go h)" "hr_go h ! k = t" "go_work (cf_depth c - 1) t' < go_work (cf_depth c - 1) t"
    and h': "hr_go h' = hr_go h" "hr_pos h' = hr_pos h"
  shows "bmt_work c (h'\<lparr>hr_go := (hr_go h')[k := t']\<rparr>, m) < bmt_work c (h, m)"
proof -
  let ?f = "go_work (cf_depth c - 1)"
  have "sum_list (map ?f ((hr_go h)[k := t'])) < sum_list (map ?f (hr_go h))"
  proof -
    have "hr_go h = take k (hr_go h) @ t # drop (Suc k) (hr_go h)"
      using id_take_nth_drop [OF assms(1)] assms(2) by simp
    moreover have "(hr_go h)[k := t'] = take k (hr_go h) @ t' # drop (Suc k) (hr_go h)"
      using assms(1) by (simp add: upd_conv_take_nth_drop)
    moreover have "sum_list (map ?f (xs @ u # ys)) = sum_list (map ?f xs) + ?f u + sum_list (map ?f ys)" for xs u ys by simp
    ultimately show ?thesis using assms(3) by (metis add_less_cancel_left add_less_cancel_right)
  qed
  then show ?thesis using h' by (simp add: Let_def split: caller.split)
qed

lemma running_tree:
  assumes "running x d z n h r"
  obtains tk where "tree_inv x (bt_nodes (hr_tree h)) tk" "pool_ok (hr_go h) (live x n tk)" "unspawned n tk"
    "result_sent x tk = r" "length (hr_go h) = n"
  using assms that by (auto simp: running_def sys_ok_def)

lemma run_inv_running:
  assumes "run_inv b n cap sha3 data init span (h, m)" "0 < length (hr_go h)"
  shows "\<exists>q r. running (run_of b n cap data init) (padded (bmt_max b n) data) (2 * bh_Size b) q h r"
  using assms by (cases m) auto

lemma work_decreases:
  assumes b: "0 < bh_Size b" and x: "ctx_ok (run_of b n cap data init)"
    and R: "run_inv b n cap sha3 data init span st" and s: "bmt_step (NewConf b n cap) sha3 st st'"
  shows "bmt_work (NewConf b n cap) st' < bmt_work (NewConf b n cap) st"
  using s
proof cases
  case (call_Write h bs todo)
  let ?z = "2 * bh_Size b" and ?D = "bmt_levels n"
  obtain w where w: "data = w @ bs @ concat todo" "hr_size h = min (length w) (bmt_max b n)"
      "hr_pos h = open_section b n (hr_size h)" using R call_Write(1) by auto
  have "run_inv b n cap sha3 data init span (snd (bmt_Write (NewConf b n cap) bs h), Writing todo)"
    using Write_inv [OF b] R call_Write(1) by blast
  then obtain w' :: bytes where w': "hr_pos (snd (bmt_Write (NewConf b n cap) bs h)) =
        open_section b n (hr_size (snd (bmt_Write (NewConf b n cap) bs h)))"
      "hr_size (snd (bmt_Write (NewConf b n cap) bs h)) = min (length w') (bmt_max b n)"
      "running (run_of b n cap data init) (padded (bmt_max b n) data) ?z
         (hr_pos (snd (bmt_Write (NewConf b n cap) bs h))) (snd (bmt_Write (NewConf b n cap) bs h)) False"
    unfolding run_inv.simps by blast
  let ?h' = "snd (bmt_Write (NewConf b n cap) bs h)"
  have len: "length (hr_go ?h') = hr_pos ?h'" using w'(3) by (simp add: running_def)
  have len0: "length (hr_go h) = hr_pos h" using R call_Write(1) by (auto simp: running_def)
  have less: "hr_pos ?h' < 2 ^ ?D" using open_section_less [OF b, of "hr_size ?h'" n] w' by simp
  obtain from' to' where go: "hr_go ?h' = hr_go h @ map (\<lambda>i. Section i False) [from'..<to']"
    by (auto simp: bmt_Write_def Let_def)
  have k: "to' - from' = hr_pos ?h' - hr_pos h" "hr_pos h \<le> hr_pos ?h'" using go len len0 by auto
  let ?W = "3 * ?D + 3"
  have "sum_list (map (go_work ?D) (hr_go ?h')) = sum_list (map (go_work ?D) (hr_go h)) + (hr_pos ?h' - hr_pos h) * (3 * ?D + 2)"
    unfolding go using k(1) by (simp add: comp_def sum_list_triv)
  moreover have "(hr_pos ?h' - hr_pos h) * (3 * ?D + 2) + (2 ^ ?D - hr_pos ?h') * ?W \<le> (2 ^ ?D - hr_pos h) * ?W"
  proof -
    have "(hr_pos ?h' - hr_pos h) * (3 * ?D + 2) \<le> (hr_pos ?h' - hr_pos h) * ?W" by (intro mult_le_mono2) simp
    moreover have "(hr_pos ?h' - hr_pos h) * ?W + (2 ^ ?D - hr_pos ?h') * ?W = (2 ^ ?D - hr_pos h) * ?W"
      using k(2) less by (simp add: add_mult_distrib [symmetric])
    ultimately show ?thesis by linarith
  qed
  ultimately show ?thesis unfolding call_Write(1,2) by (simp add: Let_def)
next
  case (call_Hash h)
  let ?D = "bmt_levels n"
  have less: "hr_pos h < 2 ^ ?D" using R call_Hash(1) open_section_less [OF b] by auto
  define q where "q = (2 ^ ?D - hr_pos h) * (3 * ?D + 3)"
  have "1 * (3 * ?D + 3) \<le> q" unfolding q_def using less by (intro mult_le_mono1) simp
  moreover have "bmt_work (NewConf b n cap) (h, Writing []) = sum_list (map (go_work ?D) (hr_go h)) + q + 1"
    by (simp add: Let_def q_def)
  moreover have "bmt_work (NewConf b n cap) (Hash_start (NewConf b n cap) sha3 h) \<le> sum_list (map (go_work ?D) (hr_go h)) + 3 * ?D + 3"
    by (simp add: Hash_start_def Let_def)
  ultimately show ?thesis unfolding call_Hash(1,2) by simp
next
  case (run k h t h' t' m)
  let ?x = "run_of b n cap data init"
  obtain q r where "running ?x (padded (bmt_max b n) data) (2 * bh_Size b) q h r"
    using run_inv_running R run(1,3) by fastforce
  then obtain tk where tk: "tree_inv ?x (bt_nodes (hr_tree h)) tk" "pool_ok (hr_go h) (live ?x q tk)"
    by (rule running_tree)
  have L: "live ?x q tk t" using pool_live [OF tk(2) run(3,4,5)] .
  have s: "sent (rx_conf ?x) t = None" using run(6) by simp
  have "go_work (cf_depth (NewConf b n cap) - 1) t' < go_work (cf_depth (NewConf b n cap) - 1) t"
    using go_work_less [OF tk(1) L x s, of h] run(7) by simp
  moreover have "hr_go h' = hr_go h" "hr_pos h' = hr_pos h"
    using run(7) by (cases t; auto simp: writeNode_assign_def writeNode_toggle_def writeFinalNode_assign_def
        writeFinalNode_toggle_def upd_node_def Let_def split: if_splits option.splits prod.splits)+
  ultimately show ?thesis unfolding run(1,2) by (rule work_run [OF run(3,4)])
next
  case (result k h t s)
  have "go_work (cf_depth (NewConf b n cap) - 1) Ended < go_work (cf_depth (NewConf b n cap) - 1) t"
    using result(5) by (cases t) (auto split: if_splits)
  then have "bmt_work (NewConf b n cap) (h\<lparr>hr_go := (hr_go h)[k := Ended]\<rparr>, Waiting) < bmt_work (NewConf b n cap) (h, Waiting)"
    by (rule work_run [OF result(3,4)]) simp_all
  then show ?thesis unfolding result(1,2) by (simp add: Let_def)
qed

lemma bmt_progress:
  assumes "0 < bh_Size b" "bh_Size b \<le> 32" "bmt_ready (NewConf b n cap) h"
    and "(bmt_step (NewConf b n cap) sha3)\<^sup>*\<^sup>* (h, Writing bs) (h', m)"
  shows "(\<exists>r. m = Returned r) \<or> (\<exists>st. bmt_step (NewConf b n cap) sha3 (h', m) st)"
proof -
  note R = reached [OF assms]
  let ?x = "run_of b n cap (concat bs) (\<lambda>v. nd_state (node_at h v))"
  show ?thesis
  proof (cases m)
    case (Writing todo)
    then show ?thesis using call_Write [of "NewConf b n cap" sha3 h'] call_Hash [of "NewConf b n cap" sha3 h']
      by (cases todo) blast+
  next
    case Waiting
    have "running ?x (padded (bmt_max b n) (concat bs)) (2 * bh_Size b) (Suc (rx_P ?x)) h' False"
      using R(1) unfolding Waiting by simp
    then obtain tk where tk: "tree_inv ?x (bt_nodes (hr_tree h')) tk" "pool_ok (hr_go h') (live ?x (Suc (rx_P ?x)) tk)"
        "\<not> result_sent ?x tk"
      by (rule running_tree) simp
    have P: "rx_P ?x < 2 ^ rx_D ?x" using open_section_less [OF assms(1)] by simp
    have "\<exists>t. live ?x (Suc (rx_P ?x)) tk t"
    proof (rule ccontr)
      assume "\<nexists>t. live ?x (Suc (rx_P ?x)) tk t"
      then have "tk_ph (tk (rx_D ?x, 0)) = 4"
        using none_left [OF tk(1) _ P, of "(rx_D ?x, 0)"] by (simp add: act_def)
      then show False using tk(3) by (simp add: result_sent_def)
    qed
    then obtain t where t: "live ?x (Suc (rx_P ?x)) tk t" ..
    then have ne: "t \<noteq> Ended" by auto
    obtain k where k: "k < length (hr_go h')" "hr_go h' ! k = t" using live_pool [OF tk(2) t ne] by blast
    have "\<exists>st. bmt_step (NewConf b n cap) sha3 (h', Waiting) st"
    proof (cases "sent (NewConf b n cap) t")
      case None
      then show ?thesis using run [OF k ne None] by (metis surj_pair)
    next
      case (Some s)
      then show ?thesis using result [OF k Some] by blast
    qed
    then show ?thesis using Waiting by simp
  qed simp
qed

text \<open>
  C31: The call of \<open>Hash\<close> returns, with no deadlock and no lost result. In every state that a
  caller of a ready hasher reaches, either the call has returned or some step is possible, and
  every step, whichever goroutine takes it, lowers a measure: so no schedule runs for ever.
\<close>
theorem bmt_hash_returns:
  assumes "0 < bh_Size b" "bh_Size b \<le> 32" "bmt_ready (NewConf b n cap) h"
    and "(bmt_step (NewConf b n cap) sha3)\<^sup>*\<^sup>* (h, Writing bs) (h', m)"
  shows "((\<exists>r. m = Returned r) \<or> (\<exists>st. bmt_step (NewConf b n cap) sha3 (h', m) st)) \<and>
    (\<forall>st. bmt_step (NewConf b n cap) sha3 (h', m) st \<longrightarrow>
       bmt_work (NewConf b n cap) st < bmt_work (NewConf b n cap) (h', m))"
  using bmt_progress [OF assms] work_decreases [OF assms(1) reached(2,1) [OF assms]] by blast

section \<open>The tree afterwards\<close>

text \<open>A goroutine that is left when the result has been sent only walks to the root.\<close>

lemma left_over:
  assumes T: "tree_inv x (bt_nodes (hr_tree h)) tk" and P: "rx_P x < 2 ^ rx_D x" and s: "result_sent x tk"
    and x: "ctx_ok x" and L: "live x (Suc (rx_P x)) tk t"
  shows "fst (go_step (rx_conf x) h t) = h \<and> sent (rx_conf x) t = None"
proof -
  have ok: "tok_ok x v (tk v)" for v using tree_invD [OF T] by blast
  have g: "act x v \<Longrightarrow> tk_ph (tk v) = 4" for v using sent_all_gone [OF T P s] .
  have pos: "0 < tk_ph (tk v) \<Longrightarrow> tk_ph (tk v) = 4" for v using g ok [of v] by (simp add: tok_ok_def)
  have right: "\<not> is_left v" if v: "tk_zp (tk v) \<in> {1, 2, 3}" "fst v < rx_D x" for v
  proof
    assume l: "is_left v"
    have "0 < tk_zp (tk v) \<and> tk_zp (tk v) \<noteq> 4" using v(1) by auto
    moreover have "tk_fin (tk v) \<Longrightarrow> tk_zp (tk v) = 0" using ok [of v] by (simp add: tok_ok_def)
    ultimately have z: "0 < tk_zp (tk v)" "\<not> tk_fin (tk v)" "tk_zp (tk v) \<noteq> 4" by auto
    have av: "act x v" using tok_act [OF ok, of v] z by simp
    have an: "act x (parent_node v)" using act_parent [OF av v(2)] .
    have "node_kind x v (bt_nodes (hr_tree h) (parent_node v)) (tk v) tk (tk (parent_node v))"
      by (intro node_same [OF av, THEN iffD1] tree_invD(2) [OF T] an) simp
    then show False using l z g [OF an] by (auto simp: node_kind_def Let_def both_ok_def left_ok_def split: if_splits)
  qed
  have no23: "tk_zp (tk v) \<notin> {2, 3}" for v
  proof
    assume a: "tk_zp (tk v) \<in> {2, 3}"
    then have b: "act x v" "fst v < rx_D x" using tok_below [OF ok, of v] by auto
    have r: "\<not> is_left v" using right [of v] a b by auto
    have "node_kind x v (bt_nodes (hr_tree h) (parent_node v)) (tk v) tk (tk (parent_node v))"
      by (intro node_same [OF b(1), THEN iffD1] tree_invD(2) [OF T] act_parent [OF b]) simp
    then have "both_ok (rx_init x (parent_node v)) (bt_nodes (hr_tree h) (parent_node v)) (tk (kid_l (parent_node v))) (tk v)
        (tk (parent_node v)) (rx_V x (kid_l (parent_node v))) (rx_V x v)"
      using r by (simp add: node_kind_def Let_def)
    then have "tk_zp (tk v) \<in> {0, 1, 4}" unfolding both_ok_def by blast
    then show False using a by auto
  qed
  show ?thesis
  proof (cases t)
    case (Section i f)
    then have "act x (0, i)" using L by (simp add: act_def)
    then show ?thesis using L Section g by fastforce
  next
    case (FinalAt v r)
    have r: "r = None" "tk_zp (tk v) = 1" using L FinalAt pos [of v] by (auto split: option.splits)
    have "act x v" using tok_act [OF ok, of v] r by simp
    then have "is_root (rx_conf x) v \<or> fst v < rx_D x" using x act_fst [of x v] by (auto simp: is_root_def ctx_ok_def)
    then show ?thesis using FinalAt r right [of v] by (auto simp: writeFinalNode_assign_def Let_def)
  next
    case (FinalToggle v)
    then show ?thesis using L pos [of v] no23 [of v] by auto
  next
    case (FinalHash v)
    then show ?thesis using L pos [of v] no23 [of v] by auto
  next
    case (WriteAt v r)
    then show ?thesis using L pos [of v] by auto
  next
    case (WriteToggle v)
    then show ?thesis using L pos [of v] by auto
  next
    case (WriteHash v)
    then show ?thesis using L pos [of v] by auto
  qed (use L in simp)
qed

lemma returned_running:
  assumes b: "0 < bh_Size b" "bh_Size b \<le> 32" "bmt_ready (NewConf b n cap) h"
    and s: "(bmt_step (NewConf b n cap) sha3)\<^sup>*\<^sup>* (h, Writing bs) (h', Returned r)"
    and ne: "0 < length (concat bs)"
  obtains tk where
    "tree_inv (run_of b n cap (concat bs) (\<lambda>v. nd_state (node_at h v))) (bt_nodes (hr_tree h')) tk"
    "pool_ok (hr_go h') (live (run_of b n cap (concat bs) (\<lambda>v. nd_state (node_at h v)))
       (Suc (rx_P (run_of b n cap (concat bs) (\<lambda>v. nd_state (node_at h v))))) tk)"
    "result_sent (run_of b n cap (concat bs) (\<lambda>v. nd_state (node_at h v))) tk"
    "bufs_ok (2 * bh_Size b) (Suc (open_section b n (min (length (concat bs)) (bmt_max b n))))
       (padded (bmt_max b n) (concat bs)) h'"
proof -
  have "0 < bmt_max b n" using b by (simp add: bmt_max_def)
  then have R: "running (run_of b n cap (concat bs) (\<lambda>v. nd_state (node_at h v)))
      (padded (bmt_max b n) (concat bs)) (2 * bh_Size b)
      (Suc (rx_P (run_of b n cap (concat bs) (\<lambda>v. nd_state (node_at h v))))) h' True"
    using reached(1) [OF b s] ne unfolding run_inv.simps by (metis less_irrefl min_less_iff_conj)
  then have B: "bufs_ok (2 * bh_Size b) (Suc (open_section b n (min (length (concat bs)) (bmt_max b n))))
      (padded (bmt_max b n) (concat bs)) h'" by (simp add: running_def)
  show ?thesis using R by (rule running_tree) (rule that [OF _ _ _ B], simp_all)
qed

lemma node_twice:
  assumes T: "tree_inv x nodes tk" and P: "rx_P x < 2 ^ rx_D x" and s: "result_sent x tk"
  shows "nd_state (nodes v) \<in> {rx_init x v, rx_init x v + 2}"
proof (cases "0 < fst v \<and> act x v")
  case True
  have g: "act x w \<Longrightarrow> tk_ph (tk w) = 4" for w using sent_all_gone [OF T P s] .
  have N: "node_inv x nodes tk v" using tree_invD(2) [OF T] True by simp
  have l: "tk_ph (tk (kid_l v)) = 4" using g act_kid_l True by blast
  show ?thesis
  proof (cases "act x (kid_r v)")
    case R: True
    have "tk_ph (tk (kid_r v)) = 4" using g R by blast
    then show ?thesis using N R l by (simp add: node_inv_def both_ok_def add.assoc)
  next
    case False
    have "tk_ph (tk v) = 4" using g True by blast
    then have "tk_fin (tk (kid_l v)) \<or> tk_zp (tk (kid_l v)) = 4" using N False by (simp add: node_inv_def left_ok_def)
    moreover have "tk_fin (tk (kid_l v)) \<Longrightarrow> tk_zp (tk (kid_l v)) = 0"
      using tree_invD(1) [OF T, of "kid_l v"] by (simp add: tok_ok_def)
    ultimately show ?thesis using N False l by (auto simp: node_inv_def left_ok_def add.assoc)
  qed
next
  case False
  then show ?thesis using tree_invD(3) [OF T False] by simp
qed

text \<open>
  C32: Once \<open>Hash\<close> has returned the tree can go back to the pool. Every toggle is where it was or
  two steps on, so again at rest (until the \<open>int32\<close> is used up), and a goroutine that has not ended
  yet neither changes the state nor has a result to send: it only walks up to the root.
\<close>
theorem bmt_tree_reusable:
  assumes "0 < bh_Size b" "bh_Size b \<le> 32" "bmt_ready (NewConf b n cap) h"
    and "(bmt_step (NewConf b n cap) sha3)\<^sup>*\<^sup>* (h, Writing bs) (h', Returned r)"
  shows "nd_state (node_at h' v) \<in> {nd_state (node_at h v), nd_state (node_at h v) + 2} \<and>
    list_all (\<lambda>t. fst (go_step (NewConf b n cap) h' t) = h' \<and> sent (NewConf b n cap) t = None) (hr_go h')"
proof (cases "0 < length (concat bs)")
  case False
  then have e: "concat bs = []" by blast
  have "run_inv b n cap sha3 [] (\<lambda>v. nd_state (node_at h v)) (hr_span h) (h', Returned r)"
    using reached(1) [OF assms] unfolding e .
  then show ?thesis by (simp del: split_paired_All)
next
  case True
  let ?x = "run_of b n cap (concat bs) (\<lambda>v. nd_state (node_at h v))"
  obtain tk where tk: "tree_inv ?x (bt_nodes (hr_tree h')) tk" "pool_ok (hr_go h') (live ?x (Suc (rx_P ?x)) tk)"
      "result_sent ?x tk"
    using returned_running [OF assms True] by blast
  have P: "rx_P ?x < 2 ^ rx_D ?x" using open_section_less [OF assms(1)] by simp
  have "nd_state (node_at h' v) \<in> {nd_state (node_at h v), nd_state (node_at h v) + 2}"
    using node_twice [OF tk(1) P tk(3), of v] by (simp add: node_at_def)
  moreover have "fst (go_step (NewConf b n cap) h' t) = h' \<and> sent (NewConf b n cap) t = None" if mem: "t \<in> set (hr_go h')" for t
  proof (cases "t = Ended")
    case False
    obtain k where "k < length (hr_go h')" "hr_go h' ! k = t" using mem unfolding in_set_conv_nth by blast
    then have "live ?x (Suc (rx_P ?x)) tk t" using pool_live [OF tk(2) _ _ False] by blast
    then show ?thesis using left_over [OF tk(1) P tk(3) reached(2) [OF assms]] by simp
  qed simp
  ultimately show ?thesis by (simp add: list_all_iff)
qed

section \<open>Inclusion proofs\<close>

lemma sister_verifies:
  assumes T: "tree_inv x (bt_nodes (hr_tree h)) tk" and P: "rx_P x < 2 ^ rx_D x" and s: "result_sent x tk" and x: "ctx_ok x"
  shows "act x v \<Longrightarrow> k = rx_D x - fst v \<Longrightarrow>
    verify_loop (rx_conf x) v (rx_V x v) (sisters_from h k v) = Some (rx_V x (rx_D x, 0))"
proof (induction k arbitrary: v)
  case 0
  then have "fst v = rx_D x" by (simp add: act_def)
  then have "v = (rx_D x, 0)" using 0 P by (cases v) (simp add: act_def)
  then show ?case by simp
next
  case (Suc k)
  let ?n = "parent_node v"
  have D: "fst v < rx_D x" using Suc.prems by simp
  have an: "act x ?n" using act_parent [OF Suc.prems(1) D] .
  note E = edge_facts [OF T x Suc.prems(1) D]
  have g: "act x w \<Longrightarrow> tk_ph (tk w) = 4" for w using sent_all_gone [OF T P s] .
  have sis: "doHash (cf_hasher (rx_conf x))
      (if is_left v then [rx_V x v, getSister (node_at h ?n) (is_left v)]
       else [getSister (node_at h ?n) (is_left v), rx_V x v]) = rx_V x ?n"
  proof (cases "is_left v")
    case True
    then have l: "kid_l ?n = v" using kid_parent by simp
    have "nd_right (node_at h ?n) = rx_V x (kid_r ?n)"
    proof (cases "act x (kid_r ?n)")
      case R: True
      then show ?thesis using E(4) True g [OF R] by (simp add: node_kind_def Let_def both_ok_def)
    next
      case False
      then have B: "left_ok (rx_init x ?n) (node_at h ?n) (tk v) (tk ?n) (rx_V x v) (rx_V x (kid_r ?n))"
        using E(4) True by (simp add: node_kind_def Let_def)
      then have "tk_fin (tk v) \<or> tk_zp (tk v) = 4" using g [OF an] by (simp add: left_ok_def)
      then show ?thesis using B g [OF Suc.prems(1)] by (auto simp: left_ok_def)
    qed
    then show ?thesis using True l E(7) by (simp add: getSister_def)
  next
    case False
    then have r: "kid_r ?n = v" using kid_parent by simp
    have "act x (kid_l ?n)" using act_kid_l [OF an] by simp
    then have "nd_left (node_at h ?n) = rx_V x (kid_l ?n)"
      using E(4) False g by (simp add: node_kind_def Let_def both_ok_def)
    then show ?thesis using False r E(7) by (simp add: getSister_def)
  qed
  have "\<not> is_root (rx_conf x) v" using D x by (simp add: is_root_def ctx_ok_def)
  moreover have "k = rx_D x - fst ?n" using Suc.prems(2) by simp
  ultimately show ?case using Suc.IH [OF an] sis by simp
qed

text \<open>
  C33: The inclusion proofs are complete: for every segment below 128 that has data, the proof that
  \<open>Prover.Proof\<close> reads from the tree once \<open>Hash\<close> has returned verifies, on any tree of the same
  configuration, to the hash that was returned.
\<close>
theorem bmt_proof_verifies:
  assumes "0 < bh_Size b" "bh_Size b \<le> 32" "bmt_ready (NewConf b n cap) h"
    and "(bmt_step (NewConf b n cap) sha3)\<^sup>*\<^sup>* (h, Writing bs) (h', Returned r)"
    and i: "i \<le> 127" "i * bh_Size b < min (length (concat bs)) (cf_maxSize (NewConf b n cap))"
  shows "\<exists>p. prover_Proof (NewConf b n cap) h' i = Some p \<and> prover_Verify (NewConf b n cap) sha3 i p = Some r"
proof -
  let ?x = "run_of b n cap (concat bs) (\<lambda>v. nd_state (node_at h v))" and ?z = "2 * bh_Size b"
  let ?N = "min (length (concat bs)) (bmt_max b n)" and ?j = "i div 2"
  have i': "i * bh_Size b < ?N" using i(2) by (simp add: bmt_max_def)
  then have ne: "0 < length (concat bs)" by linarith
  obtain tk where tk: "tree_inv ?x (bt_nodes (hr_tree h')) tk" "result_sent ?x tk"
      "bufs_ok ?z (Suc (rx_P ?x)) (padded (bmt_max b n) (concat bs)) h'"
    using returned_running [OF assms(1-4) ne] by (metis run_of_simps(3))
  have P: "rx_P ?x < 2 ^ rx_D ?x" using open_section_less [OF assms(1)] by simp
  have j: "?j \<le> rx_P ?x"
  proof (rule ccontr)
    assume "\<not> ?j \<le> rx_P ?x"
    then have "Suc (rx_P ?x) * ?z \<le> ?j * ?z" by (intro mult_le_mono1) simp
    moreover have "?j * ?z \<le> i * bh_Size b" by (simp add: mult.assoc [symmetric])
    moreover have "?N \<le> Suc (rx_P ?x) * ?z" using open_section_end(2) [OF assms(1), of ?N n] by (simp add: add.commute)
    ultimately show False using i' by linarith
  qed
  have a: "act ?x (0, ?j)" using j by (simp add: act_def)
  have "doHash b [section_at ?z ?j (bt_buffer (hr_tree h'))] = rx_V ?x (0, ?j)"
    using tk(3) j by (simp add: bufs_ok_def section_at_def)
  moreover have "verify_loop (NewConf b n cap) (0, ?j) (rx_V ?x (0, ?j)) (sisters_from h' (bmt_levels n) (0, ?j))
      = Some (rx_V ?x (bmt_levels n, 0))"
    using sister_verifies [OF tk(1) P tk(2) reached(2) [OF assms(1-4)] a] by simp
  moreover have "r = doHash sha3 [hr_span h', rx_V ?x (bmt_levels n, 0)]"
  proof -
    have span: "hr_span (fst st') = hr_span (fst st)" if "bmt_step (NewConf b n cap) sha3 st st'" for st st'
      using that
    proof cases
      case (run k h t h' t' m)
      then show ?thesis
        by (cases t; auto simp: writeNode_assign_def writeNode_toggle_def writeFinalNode_assign_def
          writeFinalNode_toggle_def upd_node_def Let_def split: if_splits option.splits prod.splits)
    qed (auto simp: bmt_Write_def Hash_start_def Let_def)
    have "hr_span (fst (h', Returned r)) = hr_span (fst (h, Writing bs))"
      using assms(4) by (induction rule: rtranclp_induct) (simp_all add: span)
    then show ?thesis using reached(1) [OF assms(1-4)] by simp
  qed
  moreover have "?j < 2 ^ bmt_levels n" using j P by simp
  ultimately show ?thesis using i(1) unfolding prover_Proof_def prover_Verify_def
    by (simp add: Let_def section_at_def)
qed

text \<open>What \<open>Verify\<close> hashes, from the section up.\<close>

fun verify_inputs :: "base_hash \<Rightarrow> node_id \<Rightarrow> bytes \<Rightarrow> bytes list \<Rightarrow> bytes list" where
  "verify_inputs b v x [] = [x]"
| "verify_inputs b v x (s # ss) =
     x # verify_inputs b (parent_node v) (if is_left v then bh_Sum b x @ s else s @ bh_Sum b x) ss"

lemma verify_same:
  assumes "\<And>y. length (bh_Sum b y) = bh_Size b"
  shows "verify_loop (NewConf b n cap) v (bh_Sum b x) ss = Some r \<Longrightarrow>
    verify_loop (NewConf b n cap) v (bh_Sum b y) ss' = Some r \<Longrightarrow> length ss = length ss' \<Longrightarrow>
    x = y \<or> (\<exists>(p, q) \<in> set (zip (verify_inputs b v x ss) (verify_inputs b v y ss')). p \<noteq> q \<and> bh_Sum b p = bh_Sum b q)"
proof (induction ss arbitrary: ss' v x y)
  case Nil
  then show ?case by simp
next
  case (Cons s ss)
  obtain s' ss0 where ss': "ss' = s' # ss0" using Cons.prems(3) by (cases ss') auto
  let ?x = "if is_left v then bh_Sum b x @ s else s @ bh_Sum b x"
  let ?y = "if is_left v then bh_Sum b y @ s' else s' @ bh_Sum b y"
  have st: "verify_loop (NewConf b n cap) (parent_node v) (bh_Sum b ?x) ss = Some r"
    "verify_loop (NewConf b n cap) (parent_node v) (bh_Sum b ?y) ss0 = Some r"
    using Cons.prems(1,2) unfolding ss' by (auto simp: doHash_def split: if_splits)
  consider "?x = ?y" | "\<exists>(p, q) \<in> set (zip (verify_inputs b (parent_node v) ?x ss) (verify_inputs b (parent_node v) ?y ss0)).
      p \<noteq> q \<and> bh_Sum b p = bh_Sum b q"
    using Cons.IH [OF st] Cons.prems(3) unfolding ss' by fastforce
  then show ?case
  proof cases
    case 1
    then have "bh_Sum b x = bh_Sum b y"
      using assms append_eq_append_conv [of "bh_Sum b x" "bh_Sum b y" s s'] append_eq_append_conv [of s s' "bh_Sum b x" "bh_Sum b y"]
      by (auto split: if_splits)
    then show ?thesis unfolding ss' by auto
  next
    case 2
    then show ?thesis unfolding ss' by auto
  qed
qed

text \<open>
  C34: The inclusion proofs are sound: two proofs for the same segment with equally many sisters and
  spans of the same length that verify to the same hash have the same section, or one shows two
  different inputs among those hashed, at the same place, with the same digest.
\<close>
theorem bmt_proof_binding:
  assumes "\<forall>y. length (bh_Sum b y) = bh_Size b"
    and "prover_Verify (NewConf b n cap) b i p = Some r" "prover_Verify (NewConf b n cap) b i q = Some r"
    and "length (pf_Sisters p) = length (pf_Sisters q)" "length (pf_Span p) = length (pf_Span q)"
  shows "pf_Section p = pf_Section q \<or>
    (\<exists>rp rq. verify_loop (NewConf b n cap) (0, i div 2) (bh_Sum b (pf_Section p)) (pf_Sisters p) = Some rp \<and>
       verify_loop (NewConf b n cap) (0, i div 2) (bh_Sum b (pf_Section q)) (pf_Sisters q) = Some rq \<and>
       rp \<noteq> rq \<and> bh_Sum b (pf_Span p @ rp) = bh_Sum b (pf_Span q @ rq)) \<or>
    (\<exists>(x, y) \<in> set (zip (verify_inputs b (0, i div 2) (pf_Section p) (pf_Sisters p))
                        (verify_inputs b (0, i div 2) (pf_Section q) (pf_Sisters q))).
       x \<noteq> y \<and> bh_Sum b x = bh_Sum b y)"
proof -
  obtain rp rq where r: "verify_loop (NewConf b n cap) (0, i div 2) (bh_Sum b (pf_Section p)) (pf_Sisters p) = Some rp"
      "verify_loop (NewConf b n cap) (0, i div 2) (bh_Sum b (pf_Section q)) (pf_Sisters q) = Some rq"
      "bh_Sum b (pf_Span p @ rp) = bh_Sum b (pf_Span q @ rq)"
    using assms(2,3) by (auto simp: prover_Verify_def Let_def doHash_def split: if_splits)
  show ?thesis
  proof (cases "rp = rq")
    case True
    then show ?thesis using verify_same [OF assms(1) [rule_format] r(1) _ assms(4)] r(2) by blast
  qed (use r in blast)
qed

section \<open>Witnesses\<close>

text \<open>
  A hash of one byte and chunks of two sections: the final section arrives first, so its
  goroutine goes on with nothing and is still on its way when the other one delivers the hash.
\<close>

definition mini_hash :: base_hash where
  "mini_hash = \<lparr>bh_Size = 1, bh_Sum = (\<lambda>x. [foldr (\<lambda>a s. 3 * s + a) x 7])\<rparr>"

definition mini_conf :: bmt_conf where
  "mini_conf = \<lparr>cf_segmentSize = 1, cf_segmentCount = 4, cf_capacity = 1, cf_depth = 2, cf_maxSize = 4,
     cf_zerohashes = [[0], [63], [59]], cf_hasher = mini_hash\<rparr>"

definition mini_hasher :: hasher where
  "mini_hasher = \<lparr>hr_tree = newTree mini_conf, hr_size = 0, hr_pos = 0, hr_offset = 0,
     hr_span = replicate SpanSize 0, hr_go = []\<rparr>"

definition mini_st :: "hasher \<times> caller" where
  "mini_st = bmt_sched mini_conf mini_hash [0, 0, 2, 2, 2, 1, 1, 1, 1, 1] (mini_hasher, Writing [[1, 2, 3]])"

lemma bmt_sched_steps: "(bmt_step c sha3)\<^sup>*\<^sup>* s (bmt_sched c sha3 ks s)"
proof (induction c sha3 ks s rule: bmt_sched.induct)
  case (2 c sha3 ks h m)
  let ?s = "case m of Writing (b # bs) \<Rightarrow> (snd (bmt_Write c b h), Writing bs)
        | Writing [] \<Rightarrow> Hash_start c sha3 h | _ \<Rightarrow> (h, m)"
  have "?s = (h, m) \<or> bmt_step c sha3 (h, m) ?s"
    by (auto split: caller.splits list.splits intro: call_Write call_Hash)
  then show ?case using 2 by (auto intro: converse_rtranclp_into_rtranclp)
next
  case (3 c sha3 k ks h m)
  let ?s = "if k < length (hr_go h) \<and> hr_go h ! k \<noteq> Ended then
          case sent c (hr_go h ! k) of
            None \<Rightarrow> (case go_step c h (hr_go h ! k) of
                       (h', t') \<Rightarrow> (h'\<lparr>hr_go := (hr_go h')[k := t']\<rparr>, m))
          | Some s \<Rightarrow> if m = Waiting
                      then (h\<lparr>hr_go := (hr_go h)[k := Ended]\<rparr>, Returned (doHash sha3 [hr_span h, s]))
                      else (h, m)
        else (h, m)"
  have "?s = (h, m) \<or> bmt_step c sha3 (h, m) ?s"
    by (auto split: option.splits prod.splits intro: run result)
  then show ?case using 3 by (auto intro: converse_rtranclp_into_rtranclp)
qed simp

lemma zerohash_two: "zerohash_loop h 2 z = [doHash h [z, z], doHash h [doHash h [z, z], doHash h [z, z]]]"
  by (simp add: numeral_2_eq_2 Let_def)

lemma mini_conf_New: "mini_conf = NewConf mini_hash 4 1"
  by (simp add: mini_conf_def NewConf_def sizeToParams_def size_loop.simps mini_hash_def doHash_def Let_def zerohash_two)

lemma mini_run: "snd mini_st = Returned [96] \<and> hr_go (fst mini_st) = [Ended, FinalAt (1, 0) None]"
  by code_simp

lemma mini_reach: "(bmt_step (NewConf mini_hash 4 1) mini_hash)\<^sup>*\<^sup>* (mini_hasher, Writing [[1, 2, 3]]) (fst mini_st, Returned [96])"
  using bmt_sched_steps [of mini_conf mini_hash "(mini_hasher, Writing [[1, 2, 3]])" "[0, 0, 2, 2, 2, 1, 1, 1, 1, 1]"]
    mini_run unfolding mini_conf_New [symmetric] mini_st_def by (metis prod.collapse)

lemma mini_ready: "bmt_ready (NewConf mini_hash 4 1) mini_hasher"
  unfolding mini_conf_New [symmetric]
  by (simp add: bmt_ready_def mini_hasher_def newTree_def mini_conf_def node_at_def newNode_def clean_def)

lemma mini_size: "0 < bh_Size mini_hash" "bh_Size mini_hash \<le> 32"
  by (simp_all add: mini_hash_def)

theorem bmt_hash_correct_witness:
  "\<exists>h' r. (bmt_step (NewConf mini_hash 4 1) mini_hash)\<^sup>*\<^sup>* (mini_hasher, Writing [[1, 2, 3]]) (h', Returned r) \<and>
     (\<exists>rt. ref_Hash (NewRefHasher mini_hash 4) [1, 2, 3] = Some rt \<and> r = doHash mini_hash [hr_span mini_hasher, rt])"
  using bmt_hash_correct [OF mini_size mini_ready mini_reach] mini_reach by auto

theorem bmt_hash_returns_witness:
  "(\<exists>st. bmt_step (NewConf mini_hash 4 1) mini_hash (mini_hasher, Writing [[1, 2, 3]]) st) \<and>
   bmt_work (NewConf mini_hash 4 1) (snd (bmt_Write (NewConf mini_hash 4 1) [1, 2, 3] mini_hasher), Writing [])
     < bmt_work (NewConf mini_hash 4 1) (mini_hasher, Writing [[1, 2, 3]])"
  using bmt_hash_returns [OF mini_size mini_ready rtranclp.rtrancl_refl [of _ "(mini_hasher, Writing [[1, 2, 3]])"]]
    call_Write [of "NewConf mini_hash 4 1" mini_hash mini_hasher "[1, 2, 3]" "[]"] by blast

theorem bmt_tree_reusable_witness:
  "nd_state (node_at (fst mini_st) (1, 0)) \<in> {nd_state (node_at mini_hasher (1, 0)), nd_state (node_at mini_hasher (1, 0)) + 2} \<and>
    list_all (\<lambda>t. fst (go_step (NewConf mini_hash 4 1) (fst mini_st) t) = fst mini_st \<and> sent (NewConf mini_hash 4 1) t = None)
      (hr_go (fst mini_st)) \<and> hr_go (fst mini_st) = [Ended, FinalAt (1, 0) None]"
  using bmt_tree_reusable [OF mini_size mini_ready mini_reach, of "(1, 0)"] mini_run by blast

theorem bmt_proof_verifies_witness:
  "\<exists>p. prover_Proof (NewConf mini_hash 4 1) (fst mini_st) 2 = Some p \<and>
     prover_Verify (NewConf mini_hash 4 1) mini_hash 2 p = Some [96]"
  by (rule bmt_proof_verifies [OF mini_size mini_ready mini_reach])
    (simp_all add: bmt_levels_def size_loop.simps mini_hash_def)

theorem bmt_proof_binding_witness:
  "let p = \<lparr>pf_Section = [1, 2], pf_Sisters = [[5]], pf_Span = [0]\<rparr>;
       q = \<lparr>pf_Section = [4, 1], pf_Sisters = [[5]], pf_Span = [0]\<rparr>
   in prover_Verify (NewConf mini_hash 4 1) mini_hash 0 p = prover_Verify (NewConf mini_hash 4 1) mini_hash 0 q \<and>
      (\<exists>(x, y) \<in> set (zip (verify_inputs mini_hash (0, 0) (pf_Section p) (pf_Sisters p))
                           (verify_inputs mini_hash (0, 0) (pf_Section q) (pf_Sisters q))).
         x \<noteq> y \<and> bh_Sum mini_hash x = bh_Sum mini_hash y)"
proof -
  let ?p = "\<lparr>pf_Section = [1, 2], pf_Sisters = [[5]], pf_Span = [0]\<rparr> :: bmt_proof"
  let ?q = "\<lparr>pf_Section = [4, 1], pf_Sisters = [[5]], pf_Span = [0]\<rparr> :: bmt_proof"
  have V: "\<exists>r. prover_Verify mini_conf mini_hash 0 ?p = Some r \<and> prover_Verify mini_conf mini_hash 0 ?q = Some r"
    by (simp add: prover_Verify_def mini_conf_def mini_hash_def doHash_def is_root_def is_left_def)
  have E: "verify_loop mini_conf (0, 0) (bh_Sum mini_hash (pf_Section ?p)) (pf_Sisters ?p) =
      verify_loop mini_conf (0, 0) (bh_Sum mini_hash (pf_Section ?q)) (pf_Sisters ?q)"
    by (simp add: mini_hash_def)
  have h: "\<forall>y. length (bh_Sum mini_hash y) = bh_Size mini_hash" by (simp add: mini_hash_def)
  from V obtain r where r: "prover_Verify (NewConf mini_hash 4 1) mini_hash 0 ?p = Some r"
    "prover_Verify (NewConf mini_hash 4 1) mini_hash 0 ?q = Some r" unfolding mini_conf_New by blast
  show ?thesis using bmt_proof_binding [OF h r] E r unfolding mini_conf_New Let_def by auto
qed

end
