(* ===== verification/Cac.thy ===== *)
theory Cac
  imports Bmt_Props Swarm
begin

text \<open>
  \<open>pkg/cac\<close> and \<open>pkg/bmtpool\<close>: content addressed chunks. A chunk is its span of eight bytes and
  its data, and its address is the hash that a hasher of the pool computes of the two. The tree
  that \<open>bmtpool.Get\<close> delivers is an argument, since the pool is shared with everything else that
  hashes; the goroutines are run one after the other, which by Bmt\_Props makes no difference.
\<close>

section \<open>One schedule of the hasher\<close>

text \<open>The first goroutine that has not ended takes the next step; the caller goes first.\<close>

primrec bmt_exec :: "nat \<Rightarrow> bmt_conf \<Rightarrow> base_hash \<Rightarrow> hasher \<times> caller \<Rightarrow> hasher \<times> caller" where
  "bmt_exec 0 c sha3 st = st"
| "bmt_exec (Suc k) c sha3 st =
     bmt_exec k c sha3
       (case snd st of
          Writing _ \<Rightarrow> bmt_sched c sha3 [0] st
        | Waiting \<Rightarrow> (case find_index (\<lambda>t. t \<noteq> Ended) (hr_go (fst st)) of
                      None \<Rightarrow> st
                    | Some i \<Rightarrow> bmt_sched c sha3 [Suc i] st)
        | Returned _ \<Rightarrow> st)"

section \<open>The pool (bmtpool.go)\<close>

definition BmtBranches :: nat where "BmtBranches = 128"
definition bmtpool_Capacity :: nat where "bmtpool_Capacity = 32"

text \<open>\<open>swarm.NewHasher\<close>, with the Keccak function as a parameter.\<close>

definition NewHasher :: "(bytes \<Rightarrow> bytes) \<Rightarrow> base_hash" where
  "NewHasher keccak = \<lparr>bh_Size = 32, bh_Sum = keccak\<rparr>"

definition bmtpool_conf :: "(bytes \<Rightarrow> bytes) \<Rightarrow> bmt_conf" where
  "bmtpool_conf keccak = NewConf (NewHasher keccak) BmtBranches bmtpool_Capacity"

section \<open>Chunks (cac.go)\<close>

definition ChunkSize :: nat where "ChunkSize = 4096"

datatype cac_error = errTooShortChunkData | errTooLargeChunkData | errHash

definition cac_hasher :: "(bytes \<Rightarrow> bytes) \<Rightarrow> bmt_tree \<Rightarrow> bytes \<Rightarrow> bytes \<Rightarrow> bytes option \<times> bmt_tree" where
  "cac_hasher keccak t data span =
     (let c = bmtpool_conf keccak;
          h = \<lparr>hr_tree = t, hr_size = 0, hr_pos = 0, hr_offset = 0, hr_span = replicate SpanSize 0, hr_go = []\<rparr>;
          st = (SetHeader span h, Writing [data]);
          (h', m) = bmt_exec (bmt_work c st) c (NewHasher keccak) st
      in (case m of Returned r \<Rightarrow> Some r | _ \<Rightarrow> None, hr_tree h'))"

definition newWithSpan :: "(bytes \<Rightarrow> bytes) \<Rightarrow> bmt_tree \<Rightarrow> bytes \<Rightarrow> bytes \<Rightarrow> cac_error + 's chunk" where
  "newWithSpan keccak t data span =
     (case fst (cac_hasher keccak t data span) of
        None \<Rightarrow> Inl errHash
      | Some hash \<Rightarrow>
          let cdata = replicate (length data + length span) 0;
              cdata = copy_at cdata 0 (take SpanSize span);
              cdata = copy_at cdata SpanSize data
          in Inr (NewChunk (NewAddress hash) cdata))"

definition cac_New :: "(bytes \<Rightarrow> bytes) \<Rightarrow> bmt_tree \<Rightarrow> bytes \<Rightarrow> cac_error + 's chunk" where
  "cac_New keccak t data =
     (if ChunkSize < length data then Inl errTooLargeChunkData
      else if length data = 0 then Inl errTooShortChunkData
      else newWithSpan keccak t data (le_of_nat 8 (length data)))"

definition NewWithDataSpan :: "(bytes \<Rightarrow> bytes) \<Rightarrow> bmt_tree \<Rightarrow> bytes \<Rightarrow> cac_error + 's chunk" where
  "NewWithDataSpan keccak t data =
     (if ChunkSize + SpanSize < length data then Inl errTooLargeChunkData
      else if length data < SpanSize then Inl errTooShortChunkData
      else newWithSpan keccak t (drop SpanSize data) (take SpanSize data))"

text \<open>An error of the hasher leaves nil, which \<open>bytes.Equal\<close> takes for an empty slice.\<close>

definition cac_Valid :: "(bytes \<Rightarrow> bytes) \<Rightarrow> bmt_tree \<Rightarrow> 's chunk \<Rightarrow> bool" where
  "cac_Valid keccak t c =
     (let data = ch_data c
      in if length data < SpanSize then False
         else if ChunkSize + SpanSize < length data then False
         else
           let hash = (case fst (cac_hasher keccak t (drop SpanSize data) (take SpanSize data)) of
                         None \<Rightarrow> [] | Some hash \<Rightarrow> hash)
           in hash = addr_bytes (ch_addr c))"

section \<open>The hash is the reference hash\<close>

text \<open>A tree of the pool at rest.\<close>

definition tree_ready :: "(bytes \<Rightarrow> bytes) \<Rightarrow> bmt_tree \<Rightarrow> bool" where
  "tree_ready keccak t \<longleftrightarrow>
     length (bt_buffer t) = cf_maxSize (bmtpool_conf keccak) \<and> (\<forall>v. clean (nd_state (bt_nodes t v)))"

lemma bmt_exec_steps:
  assumes b: "0 < bh_Size b" "bh_Size b \<le> 32" "bmt_ready (NewConf b n cap) h"
    and s: "(bmt_step (NewConf b n cap) sha3)\<^sup>*\<^sup>* (h, Writing bs) st"
  shows "bmt_work (NewConf b n cap) st \<le> k \<Longrightarrow>
    \<exists>h' r. bmt_exec k (NewConf b n cap) sha3 st = (h', Returned r) \<and>
      (bmt_step (NewConf b n cap) sha3)\<^sup>*\<^sup>* (h, Writing bs) (h', Returned r)"
  using s
proof (induction k arbitrary: st)
  case 0
  obtain h' m where st: "st = (h', m)" by (cases st)
  then show ?case using 0 by (cases m) (auto simp: Let_def)
next
  case (Suc k)
  let ?c = "NewConf b n cap"
  obtain h' m where st: "st = (h', m)" by (cases st)
  show ?case
  proof (cases "\<exists>r. m = Returned r")
    case True
    then obtain r where r: "m = Returned r" ..
    have "bmt_exec j ?c sha3 (h', Returned r) = (h', Returned r)" for j by (induction j) simp_all
    then show ?thesis using Suc.prems(2) st r by blast
  next
    case False
    let ?next = "case m of
          Writing _ \<Rightarrow> bmt_sched ?c sha3 [0] st
        | Waiting \<Rightarrow> (case find_index (\<lambda>t. t \<noteq> Ended) (hr_go h') of
                      None \<Rightarrow> st
                    | Some i \<Rightarrow> bmt_sched ?c sha3 [Suc i] st)
        | Returned _ \<Rightarrow> st"
    have e: "bmt_exec (Suc k) ?c sha3 st = bmt_exec k ?c sha3 ?next" unfolding st bmt_exec.simps fst_conv snd_conv ..
    have step: "bmt_step ?c sha3 st ?next"
    proof (cases m)
      case (Writing todo)
      then show ?thesis using st by (cases todo) (auto intro: call_Write call_Hash)
    next
      case Waiting
      obtain st' where "bmt_step ?c sha3 (h', Waiting) st'"
        using bmt_progress [OF b(1,2,3), of sha3 bs h' m] Suc.prems(2) st Waiting False by auto
      then have "\<exists>t \<in> set (hr_go h'). t \<noteq> Ended"
      proof cases
        case (run k u h2 t2)
        then show ?thesis using nth_mem by blast
      next
        case (result k u s)
        then have "u \<noteq> Ended" by auto
        then show ?thesis using result nth_mem by blast
      qed
      then obtain i where i: "find_index (\<lambda>t. t \<noteq> Ended) (hr_go h') = Some i"
        using find_index_None [of "\<lambda>t. t \<noteq> Ended" "hr_go h'"] by fastforce
      then have t: "i < length (hr_go h')" "hr_go h' ! i \<noteq> Ended" using find_index_SomeD by blast+
      show ?thesis
      proof (cases "sent ?c (hr_go h' ! i)")
        case None
        obtain h2 t2 where g: "go_step ?c h' (hr_go h' ! i) = (h2, t2)" by (cases "go_step ?c h' (hr_go h' ! i)")
        show ?thesis using run [OF t(1) refl t(2) None g] i st Waiting t None g by simp
      next
        case (Some s)
        show ?thesis using result [OF t(1) refl Some] i st Waiting t Some by simp
      qed
    qed (use False in simp)
    have less: "bmt_work ?c ?next < bmt_work ?c st"
      by (rule work_decreases [OF b(1) reached(2,1) [OF b(1,2,3) Suc.prems(2)] step])
    have "(bmt_step ?c sha3)\<^sup>*\<^sup>* (h, Writing bs) ?next" using Suc.prems(2) step by (rule rtranclp.rtrancl_into_rtrancl)
    then show ?thesis using Suc.IH [of ?next] less Suc.prems(1) unfolding e by simp
  qed
qed

text \<open>The hash of \<open>cac.hasher\<close>, on every tree at rest.\<close>

lemma bmtpool_conf_eq: "bmtpool_conf keccak = NewConf (NewHasher keccak) 128 32"
  by (simp add: bmtpool_conf_def BmtBranches_def bmtpool_Capacity_def)

lemma cac_hasher_ref:
  assumes t: "tree_ready keccak t" and span: "length span = SpanSize"
  obtains rt where "ref_Hash (NewRefHasher (NewHasher keccak) 128) data = Some rt"
    "fst (cac_hasher keccak t data span) = Some (keccak (span @ rt))"
proof -
  let ?b = "NewHasher keccak" and ?c = "NewConf (NewHasher keccak) 128 32"
  let ?h = "\<lparr>hr_tree = t, hr_size = 0, hr_pos = 0, hr_offset = 0, hr_span = span, hr_go = []\<rparr>"
  have b: "0 < bh_Size ?b" "bh_Size ?b \<le> 32" by (simp_all add: NewHasher_def)
  have ready: "bmt_ready ?c ?h"
    using t by (simp add: bmt_ready_def tree_ready_def bmtpool_conf_eq node_at_def del: split_paired_All)
  obtain h' r where r: "bmt_exec (bmt_work ?c (?h, Writing [data])) ?c ?b (?h, Writing [data]) = (h', Returned r)"
      "(bmt_step ?c ?b)\<^sup>*\<^sup>* (?h, Writing [data]) (h', Returned r)"
    using bmt_exec_steps [OF b ready, of ?b "[data]" "(?h, Writing [data])"] by blast
  have "copy_at (replicate SpanSize 0) 0 span = span" using span by (simp add: copy_at_def)
  then have "fst (cac_hasher keccak t data span) = Some r"
    using r(1) by (simp add: cac_hasher_def bmtpool_conf_eq SetHeader_def Let_def del: bmt_work.simps)
  moreover have "r = keccak (span @ subtree ?b (padded (bmt_max ?b 128) data) (bmt_levels 128) 0)"
    using reached(1) [OF b ready r(2)] by (simp add: doHash_def NewHasher_def)
  ultimately show ?thesis using that ref_Hash_subtree [OF b(1), of 128 data] by (simp add: bmt_max_def)
qed

lemma newWithSpan_eq:
  assumes "tree_ready keccak t" "length span = SpanSize"
  obtains rt where "ref_Hash (NewRefHasher (NewHasher keccak) 128) data = Some rt"
    "newWithSpan keccak t data span = Inr (NewChunk (NewAddress (keccak (span @ rt))) (span @ data))"
proof -
  have d: "copy_at (copy_at (replicate (length data + length span) 0) 0 (take SpanSize span)) SpanSize data = span @ data"
    using assms(2) by (simp add: copy_at_def)
  obtain rt where "ref_Hash (NewRefHasher (NewHasher keccak) 128) data = Some rt"
      "fst (cac_hasher keccak t data span) = Some (keccak (span @ rt))"
    using cac_hasher_ref [OF assms] by blast
  then show ?thesis using that d by (simp add: newWithSpan_def Let_def)
qed

lemma cac_Valid_eq:
  assumes t: "tree_ready keccak t"
  shows "cac_Valid keccak t c \<longleftrightarrow>
    SpanSize \<le> length (ch_data c) \<and> length (ch_data c) \<le> ChunkSize + SpanSize \<and>
    (\<exists>rt. ref_Hash (NewRefHasher (NewHasher keccak) 128) (drop SpanSize (ch_data c)) = Some rt \<and>
       addr_bytes (ch_addr c) = keccak (take SpanSize (ch_data c) @ rt))"
proof (cases "SpanSize \<le> length (ch_data c)")
  case True
  then have "length (take SpanSize (ch_data c)) = SpanSize" by simp
  then obtain rt where "ref_Hash (NewRefHasher (NewHasher keccak) 128) (drop SpanSize (ch_data c)) = Some rt"
      "fst (cac_hasher keccak t (drop SpanSize (ch_data c)) (take SpanSize (ch_data c))) = Some (keccak (take SpanSize (ch_data c) @ rt))"
    using cac_hasher_ref [OF t] by blast
  then show ?thesis using True by (auto simp: cac_Valid_def Let_def)
qed (simp add: cac_Valid_def Let_def)

text \<open>
  C35: What \<open>cac.Valid\<close> accepts. On any tree of the pool that is at rest, a chunk is valid exactly if
  its data have between 8 and 4104 bytes and its address is the hash of the span and of the
  reference hash of the rest. So validity does not depend on the tree, nor on the schedule.
\<close>
theorem cac_Valid_reference:
  assumes "tree_ready keccak t"
  shows "cac_Valid keccak t c \<longleftrightarrow>
    8 \<le> length (ch_data c) \<and> length (ch_data c) \<le> 4104 \<and>
    Some (addr_bytes (ch_addr c)) =
      map_option (\<lambda>rt. keccak (take 8 (ch_data c) @ rt))
        (ref_Hash (NewRefHasher (NewHasher keccak) 128) (drop 8 (ch_data c)))"
  using cac_Valid_eq [OF assms, of c] by (auto simp: SpanSize_def ChunkSize_def map_option_case split: option.splits)

text \<open>
  What \<open>New\<close> makes is valid: for data of 1 to 4096 bytes \<open>New\<close> returns a chunk whose data are the
  length in eight little-endian bytes and the given ones, and \<open>Valid\<close> accepts it, whatever trees the
  pool hands out to the two; \<open>NewWithDataSpan\<close> rebuilds the same chunk from its data. Shorter and longer
  data are refused with their errors.
\<close>
theorem cac_New_valid:
  assumes "tree_ready keccak t" "tree_ready keccak t'" "tree_ready keccak t''"
  shows "case cac_New keccak t data of
      Inl e \<Rightarrow> (e = errTooShortChunkData \<and> data = []) \<or> (e = errTooLargeChunkData \<and> 4096 < length data)
    | Inr c \<Rightarrow> data \<noteq> [] \<and> length data \<le> 4096 \<and> ch_data c = le_of_nat 8 (length data) @ data \<and>
        cac_Valid keccak t' c \<and> NewWithDataSpan keccak t'' (ch_data c) = Inr c"
proof (cases "data = [] \<or> 4096 < length data")
  case True
  then show ?thesis by (auto simp: cac_New_def ChunkSize_def)
next
  case False
  let ?s = "le_of_nat 8 (length data)"
  have s: "length ?s = SpanSize" by (simp add: SpanSize_def)
  obtain rt where rt: "ref_Hash (NewRefHasher (NewHasher keccak) 128) data = Some rt"
      "newWithSpan keccak t data ?s = Inr (NewChunk (NewAddress (keccak (?s @ rt))) (?s @ data) :: 'a chunk)"
    using newWithSpan_eq [OF assms(1) s] by blast
  let ?c = "NewChunk (NewAddress (keccak (?s @ rt))) (?s @ data) :: 'a chunk"
  have n: "cac_New keccak t data = Inr ?c" using False rt(2) by (simp add: cac_New_def ChunkSize_def)
  have V: "cac_Valid keccak t' ?c"
    using cac_Valid_eq [OF assms(2), of ?c] False rt(1) s by (simp add: NewChunk_def ChunkSize_def SpanSize_def)
  obtain rt2 where "ref_Hash (NewRefHasher (NewHasher keccak) 128) data = Some rt2"
      "newWithSpan keccak t'' data ?s = Inr (NewChunk (NewAddress (keccak (?s @ rt2))) (?s @ data) :: 'a chunk)"
    using newWithSpan_eq [OF assms(3) s] by blast
  then have "NewWithDataSpan keccak t'' (ch_data ?c) = Inr ?c"
    using rt(1) False s by (simp add: NewWithDataSpan_def NewChunk_def ChunkSize_def SpanSize_def)
  with n V False show ?thesis by (simp add: NewChunk_def)
qed

text \<open>A new tree of the pool is at rest.\<close>

lemma newTree_ready: "tree_ready keccak (newTree (bmtpool_conf keccak))"
  by (simp add: tree_ready_def newTree_def newNode_def clean_def)

theorem cac_Valid_reference_witness:
  "\<exists>c :: unit chunk. ch_data c = replicate 8 0 @ [1] \<and> cac_Valid rev (newTree (bmtpool_conf rev)) c \<and>
     \<not> cac_Valid rev (newTree (bmtpool_conf rev)) (NewChunk (ch_addr c) [1] :: unit chunk)"
proof -
  let ?s = "replicate 8 0 :: bytes"
  obtain rt where rt: "ref_Hash (NewRefHasher (NewHasher rev) 128) [1] = Some rt"
    using newWithSpan_eq [OF newTree_ready, of ?s rev "[1]"] by (auto simp: SpanSize_def)
  let ?c = "NewChunk (NewAddress (rev (?s @ rt))) (?s @ [1]) :: unit chunk"
  have "cac_Valid rev (newTree (bmtpool_conf rev)) ?c"
    using cac_Valid_reference [OF newTree_ready, of rev ?c] rt by (simp add: NewChunk_def)
  moreover have "\<not> cac_Valid rev (newTree (bmtpool_conf rev)) (NewChunk (ch_addr ?c) [1] :: unit chunk)"
    by (simp add: cac_Valid_def NewChunk_def SpanSize_def)
  ultimately show ?thesis by (intro exI [of _ ?c]) (simp add: NewChunk_def)
qed

theorem cac_New_valid_witness:
  "\<exists>c :: unit chunk. cac_New (\<lambda>x. take 32 x) (newTree (bmtpool_conf (\<lambda>x. take 32 x))) [1, 2, 3] = Inr c \<and>
     ch_data c = [3, 0, 0, 0, 0, 0, 0, 0, 1, 2, 3] \<and>
     cac_Valid (\<lambda>x. take 32 x) (newTree (bmtpool_conf (\<lambda>x. take 32 x))) c"
proof -
  let ?k = "\<lambda>x. take 32 x :: bytes"
  have r: "tree_ready ?k (newTree (bmtpool_conf ?k))" by (rule newTree_ready)
  have l: "le_of_nat 8 (length [1, 2, 3 :: byte]) = [3, 0, 0, 0, 0, 0, 0, 0]" by code_simp
  show ?thesis
    using cac_New_valid [OF r r r, of "[1, 2, 3]", where 'a = unit] unfolding l by (auto split: sum.splits)
qed

end
