(* ===== verification/Soc.thy ===== *)
theory Soc
  imports Cac Postage
begin

text \<open>
  \<open>pkg/soc\<close>: single owner chunks. The data are an identifier, a signature and a content addressed
  chunk; the address is the hash of the identifier and of the owner, whom the signature gives.
  The hash, the encoding of keys and the recovery from signatures are the parameters \<open>cr\<close> of
  Postage; a signer is a public key and a signing function.
\<close>

section \<open>Single owner chunks (soc.go)\<close>

definition crypto_AddressSize :: nat where "crypto_AddressSize = 20"
definition swarm_HashSize :: nat where "swarm_HashSize = 32"
definition SocSignatureSize :: nat where "SocSignatureSize = 65"
definition SocMinChunkSize :: nat where "SocMinChunkSize = swarm_HashSize + SocSignatureSize + SpanSize"

datatype soc_error =
  soc_errInvalidAddress | soc_errWrongChunkSize | soc_errCac cac_error | soc_errCrypto crypto_error

record soc =
  so_id :: bytes
  so_owner :: bytes
  so_signature :: bytes
  so_chunk :: "unit chunk"

record 'k signer =
  sg_PublicKey :: "crypto_error + 'k"
  sg_Sign :: "bytes \<Rightarrow> crypto_error + bytes"

definition soc_New :: "bytes \<Rightarrow> unit chunk \<Rightarrow> soc" where
  "soc_New i ch = \<lparr>so_id = i, so_owner = [], so_signature = [], so_chunk = ch\<rparr>"

definition NewSigned :: "bytes \<Rightarrow> unit chunk \<Rightarrow> bytes \<Rightarrow> bytes \<Rightarrow> soc_error + soc" where
  "NewSigned i ch owner sig =
     (let s = soc_New i ch
      in if length owner \<noteq> crypto_AddressSize then Inl soc_errInvalidAddress
         else Inr (s\<lparr>so_owner := owner, so_signature := sig\<rparr>))"

definition soc_hash :: "'k crypto \<Rightarrow> bytes list \<Rightarrow> bytes" where
  "soc_hash cr values = cr_hasher cr (concat values)"

definition CreateAddress :: "'k crypto \<Rightarrow> bytes \<Rightarrow> bytes \<Rightarrow> address" where
  "CreateAddress cr i owner = NewAddress (soc_hash cr [i, owner])"

definition soc_address :: "'k crypto \<Rightarrow> soc \<Rightarrow> soc_error + address" where
  "soc_address cr s =
     (if length (so_owner s) \<noteq> crypto_AddressSize then Inl soc_errInvalidAddress
      else Inr (CreateAddress cr (so_id s) (so_owner s)))"

definition soc_toBytes :: "soc \<Rightarrow> bytes" where
  "soc_toBytes s = so_id s @ so_signature s @ ch_data (so_chunk s)"

definition soc_Chunk :: "'k crypto \<Rightarrow> soc \<Rightarrow> soc_error + unit chunk" where
  "soc_Chunk cr s =
     (case soc_address cr s of
        Inl err \<Rightarrow> Inl err
      | Inr socAddress \<Rightarrow> Inr (NewChunk socAddress (soc_toBytes s)))"

text \<open>\<open>Sign\<close> sets the owner and the signature of the receiver.\<close>

definition soc_Sign :: "'k crypto \<Rightarrow> 'k signer \<Rightarrow> soc \<Rightarrow> (soc_error + unit chunk) \<times> soc" where
  "soc_Sign cr signer s =
     (case sg_PublicKey signer of
        Inl err \<Rightarrow> (Inl (soc_errCrypto err), s)
      | Inr publicKey \<Rightarrow>
          (case NewEthereumAddress cr publicKey of
             Inl err \<Rightarrow> (Inl (soc_errCrypto err), s)
           | Inr ownerAddressBytes \<Rightarrow>
               if length ownerAddressBytes \<noteq> crypto_AddressSize then (Inl soc_errInvalidAddress, s)
               else
                 let s = s\<lparr>so_owner := ownerAddressBytes\<rparr>;
                     toSignBytes = soc_hash cr [so_id s, addr_bytes (ch_addr (so_chunk s))]
                 in case sg_Sign signer toSignBytes of
                      Inl err \<Rightarrow> (Inl (soc_errCrypto err), s)
                    | Inr signature \<Rightarrow>
                        let s = s\<lparr>so_signature := signature\<rparr> in (soc_Chunk cr s, s)))"

definition recoverAddress :: "'k crypto \<Rightarrow> bytes \<Rightarrow> bytes \<Rightarrow> crypto_error + bytes" where
  "recoverAddress cr signature digest =
     (case cr_recover cr signature digest of
        None \<Rightarrow> Inl ErrRecover
      | Some recoveredPublicKey \<Rightarrow> NewEthereumAddress cr recoveredPublicKey)"

definition soc_FromChunk :: "'k crypto \<Rightarrow> bmt_tree \<Rightarrow> 's chunk \<Rightarrow> soc_error + soc" where
  "soc_FromChunk cr t sch =
     (let chunkData = ch_data sch
      in if length chunkData < SocMinChunkSize then Inl soc_errWrongChunkSize
         else
           let cursor = 0;
               sid = slice cursor swarm_HashSize chunkData;
               cursor = cursor + swarm_HashSize;
               signature = slice cursor (cursor + SocSignatureSize) chunkData;
               cursor = cursor + SocSignatureSize
           in case NewWithDataSpan (cr_hasher cr) t (drop cursor chunkData) of
                Inl err \<Rightarrow> Inl (soc_errCac err)
              | Inr ch \<Rightarrow>
                  let toSignBytes = soc_hash cr [sid, addr_bytes (ch_addr ch)]
                  in case recoverAddress cr signature toSignBytes of
                       Inl err \<Rightarrow> Inl (soc_errCrypto err)
                     | Inr recoveredOwnerAddress \<Rightarrow>
                         if length recoveredOwnerAddress \<noteq> crypto_AddressSize then Inl soc_errInvalidAddress
                         else Inr \<lparr>so_id = sid, so_owner = recoveredOwnerAddress,
                                   so_signature = signature, so_chunk = ch\<rparr>)"

section \<open>Validation (validator.go)\<close>

definition soc_Valid :: "'k crypto \<Rightarrow> bmt_tree \<Rightarrow> 's chunk \<Rightarrow> bool" where
  "soc_Valid cr t ch =
     (case soc_FromChunk cr t ch of
        Inl _ \<Rightarrow> False
      | Inr s \<Rightarrow>
          (case soc_address cr s of
             Inl _ \<Rightarrow> False
           | Inr addr \<Rightarrow> addr_Equal (ch_addr ch) addr))"

section \<open>Properties\<close>

text \<open>
  What the code relies on of a signer: its signatures have 65 bytes, and recovery from one gives
  the public key, which has an address of 20 bytes.
\<close>

definition signer_ok :: "'k crypto \<Rightarrow> 'k signer \<Rightarrow> 'k \<Rightarrow> bytes \<Rightarrow> bool" where
  "signer_ok cr signer pk owner \<longleftrightarrow>
     sg_PublicKey signer = Inr pk \<and> NewEthereumAddress cr pk = Inr owner \<and> length owner = crypto_AddressSize \<and>
     (\<forall>d sig. sg_Sign signer d = Inr sig \<longrightarrow> length sig = SocSignatureSize \<and> cr_recover cr sig d = Some pk)"

lemma soc_split:
  assumes "length i = swarm_HashSize" "length sig = SocSignatureSize" "SpanSize \<le> length d"
  shows "slice 0 swarm_HashSize (i @ sig @ d) = i"
    "slice swarm_HashSize (swarm_HashSize + SocSignatureSize) (i @ sig @ d) = sig"
    "drop (swarm_HashSize + SocSignatureSize) (i @ sig @ d) = d"
    "\<not> length (i @ sig @ d) < SocMinChunkSize"
  using assms by (simp_all add: slice_def SocMinChunkSize_def)

text \<open>
  C36: Signing and reading back. A chunk that \<open>Sign\<close> makes of an identifier of 32 bytes and a content
  addressed chunk of \<open>cac.NewWithDataSpan\<close> is valid, and \<open>FromChunk\<close> recovers from it the identifier, the owner,
  the signature and the wrapped chunk: exactly the single owner chunk that was signed.
\<close>
theorem soc_roundtrip:
  assumes "signer_ok cr signer pk owner" "tree_ready (cr_hasher cr) t" "tree_ready (cr_hasher cr) t'"
    and i: "length i = 32" and ch: "NewWithDataSpan (cr_hasher cr) t d = Inr ch"
    and s: "soc_Sign cr signer (soc_New i ch) = (Inr sch, s)"
  shows "soc_FromChunk cr t' sch = Inr s \<and> so_id s = i \<and> so_owner s = owner \<and> so_chunk s = ch \<and> soc_Valid cr t' sch"
proof -
  have so: "sg_PublicKey signer = Inr pk" "NewEthereumAddress cr pk = Inr owner" "length owner = crypto_AddressSize"
    "\<And>d sig. sg_Sign signer d = Inr sig \<Longrightarrow> length sig = SocSignatureSize \<and> cr_recover cr sig d = Some pk"
    using assms(1) by (auto simp: signer_ok_def)
  let ?d = "soc_hash cr [i, addr_bytes (ch_addr ch)]"
  obtain sig where sig: "sg_Sign signer ?d = Inr sig" and s': "s = \<lparr>so_id = i, so_owner = owner, so_signature = sig, so_chunk = ch\<rparr>"
      and sch: "sch = NewChunk (CreateAddress cr i owner) (i @ sig @ ch_data ch)"
    using s so by (auto simp: soc_Sign_def soc_New_def soc_Chunk_def soc_address_def soc_toBytes_def Let_def split: sum.splits)
  have len: "SpanSize \<le> length d" "length d \<le> ChunkSize + SpanSize" using ch by (auto simp: NewWithDataSpan_def split: if_splits)
  have sp: "length (take SpanSize d) = SpanSize" using len by simp
  obtain rt where rt: "ref_Hash (NewRefHasher (NewHasher (cr_hasher cr)) 128) (drop SpanSize d) = Some rt"
      "newWithSpan (cr_hasher cr) t (drop SpanSize d) (take SpanSize d) =
        Inr (NewChunk (NewAddress (cr_hasher cr (take SpanSize d @ rt))) (take SpanSize d @ drop SpanSize d) :: unit chunk)"
    using newWithSpan_eq [OF assms(2) sp] by blast
  have chd: "ch = NewChunk (NewAddress (cr_hasher cr (take SpanSize d @ rt))) d" using ch rt(2) len by (simp add: NewWithDataSpan_def)
  then have dd: "ch_data ch = d" by (simp add: NewChunk_def)
  obtain rt2 where "ref_Hash (NewRefHasher (NewHasher (cr_hasher cr)) 128) (drop SpanSize d) = Some rt2"
      "newWithSpan (cr_hasher cr) t' (drop SpanSize d) (take SpanSize d) =
        Inr (NewChunk (NewAddress (cr_hasher cr (take SpanSize d @ rt2))) (take SpanSize d @ drop SpanSize d) :: unit chunk)"
    using newWithSpan_eq [OF assms(3) sp] by blast
  then have ch': "NewWithDataSpan (cr_hasher cr) t' d = Inr ch" using rt(1) chd len by (simp add: NewWithDataSpan_def)
  have split: "slice 0 swarm_HashSize (i @ sig @ d) = i"
    "slice swarm_HashSize (swarm_HashSize + SocSignatureSize) (i @ sig @ d) = sig"
    "drop (swarm_HashSize + SocSignatureSize) (i @ sig @ d) = d"
    "\<not> length (i @ sig @ d) < SocMinChunkSize"
    by (rule soc_split; use i so(4) [OF sig] len in \<open>simp add: swarm_HashSize_def\<close>)+
  have rec: "recoverAddress cr sig ?d = Inr owner" using so(2) so(4) [OF sig] by (simp add: recoverAddress_def)
  have sd: "ch_data sch = i @ sig @ d" unfolding sch dd by (simp add: NewChunk_def)
  have F: "soc_FromChunk cr t' sch = Inr s"
    unfolding soc_FromChunk_def Let_def sd add_0 split if_not_P [OF split(4)] ch' sum.case rec
    using so(3) by (simp add: s')
  then show ?thesis using so(3) unfolding soc_Valid_def
    by (simp add: s' sch soc_address_def NewChunk_def)
qed

text \<open>
  What \<open>soc.Valid\<close> accepts: exactly the chunks of 105 to 4201 bytes whose 65 bytes after the
  identifier recover, over the hash of the identifier and of the address of the wrapped chunk, a
  key with an address of 20 bytes, such that the chunk's address is the hash of identifier and
  owner. So whoever stores under such an address has a signature of that owner over this content.
\<close>
theorem soc_Valid_iff:
  assumes "tree_ready (cr_hasher cr) t"
  shows "soc_Valid cr t ch \<longleftrightarrow>
    105 \<le> length (ch_data ch) \<and> length (ch_data ch) \<le> 4201 \<and>
    (\<exists>rt pk owner.
       ref_Hash (NewRefHasher (NewHasher (cr_hasher cr)) 128) (drop 105 (ch_data ch)) = Some rt \<and>
       cr_recover cr (slice 32 97 (ch_data ch))
         (cr_hasher cr (take 32 (ch_data ch) @ cr_hasher cr (slice 97 105 (ch_data ch) @ rt))) = Some pk \<and>
       NewEthereumAddress cr pk = Inr owner \<and> length owner = 20 \<and>
       ch_addr ch = NewAddress (cr_hasher cr (take 32 (ch_data ch) @ owner)))"
proof (cases "105 \<le> length (ch_data ch) \<and> length (ch_data ch) \<le> 4201")
  case False
  then show ?thesis
    by (auto simp: soc_Valid_def soc_FromChunk_def Let_def NewWithDataSpan_def SocMinChunkSize_def swarm_HashSize_def
        SocSignatureSize_def SpanSize_def ChunkSize_def)
next
  case True
  let ?D = "ch_data ch"
  let ?d = "drop 97 ?D"
  have "8 \<le> length ?D - 97" using True by linarith
  then have sp: "length (take SpanSize ?d) = SpanSize" by (simp add: SpanSize_def)
  have e: "take SpanSize ?d = slice 97 105 ?D" "drop SpanSize ?d = drop 105 ?D"
    by (simp_all add: SpanSize_def slice_def)
  obtain rt where rt: "ref_Hash (NewRefHasher (NewHasher (cr_hasher cr)) 128) (drop 105 ?D) = Some rt"
      "newWithSpan (cr_hasher cr) t (drop 105 ?D) (slice 97 105 ?D) =
        Inr (NewChunk (NewAddress (cr_hasher cr (slice 97 105 ?D @ rt))) (slice 97 105 ?D @ drop 105 ?D) :: unit chunk)"
    using newWithSpan_eq [OF assms sp] unfolding e by blast
  let ?w = "NewChunk (NewAddress (cr_hasher cr (slice 97 105 ?D @ rt))) (slice 97 105 ?D @ drop 105 ?D) :: unit chunk"
  have N: "NewWithDataSpan (cr_hasher cr) t ?d = Inr ?w"
  proof -
    have "\<not> ChunkSize + SpanSize < length ?d" "\<not> length ?d < SpanSize"
      using True unfolding SpanSize_def ChunkSize_def length_drop by linarith+
    then show ?thesis unfolding NewWithDataSpan_def e rt(2) by simp
  qed
  have l: "\<not> length ?D < SocMinChunkSize" "0 + swarm_HashSize + SocSignatureSize = 97"
      "slice 0 swarm_HashSize ?D = take 32 ?D" "slice (0 + swarm_HashSize) (0 + swarm_HashSize + SocSignatureSize) ?D = slice 32 97 ?D"
    using True by (simp_all add: SocMinChunkSize_def swarm_HashSize_def SocSignatureSize_def SpanSize_def slice_def)
  have w: "addr_bytes (ch_addr ?w) = cr_hasher cr (slice 97 105 ?D @ rt)" by (simp add: NewChunk_def)
  show ?thesis
    unfolding soc_Valid_def soc_FromChunk_def Let_def l(3,4) if_not_P [OF l(1)] l(2) N sum.case w
    using True rt(1)
    by (auto simp: recoverAddress_def soc_hash_def soc_address_def CreateAddress_def crypto_AddressSize_def swarm_HashSize_def
        split: option.splits sum.splits)
qed

section \<open>Witnesses\<close>

definition soc_cr :: "unit crypto" where
  "soc_cr = \<lparr>cr_keccak = (\<lambda>_. replicate 32 7), cr_hasher = (\<lambda>x. take 32 (rev x @ replicate 32 1)),
     cr_marshal = (\<lambda>_. Some [4]), cr_recover = (\<lambda>sig _. if take 1 sig = [9] then Some () else None)\<rparr>"

definition soc_signer :: "unit signer" where
  "soc_signer = \<lparr>sg_PublicKey = Inr (), sg_Sign = (\<lambda>_. Inr (replicate 65 9))\<rparr>"

lemma soc_signer_ok: "signer_ok soc_cr soc_signer () (replicate 20 7)"
  by (simp add: signer_ok_def soc_signer_def soc_cr_def NewEthereumAddress_def LegacyKeccak256_def
      crypto_AddressSize_def SocSignatureSize_def)

lemma soc_signs:
  "\<exists>ch sch s. NewWithDataSpan (cr_hasher soc_cr) (newTree (bmtpool_conf (cr_hasher soc_cr))) (replicate 8 0 @ [5]) = Inr ch \<and>
     soc_Sign soc_cr soc_signer (soc_New (replicate 32 3) ch) = (Inr sch, s)"
proof -
  have "length (replicate 8 (0 :: byte)) = SpanSize" by (simp add: SpanSize_def)
  then obtain rt where "newWithSpan (cr_hasher soc_cr) (newTree (bmtpool_conf (cr_hasher soc_cr))) [5] (replicate 8 0) =
      Inr (NewChunk (NewAddress (cr_hasher soc_cr (replicate 8 0 @ rt))) (replicate 8 0 @ [5]) :: unit chunk)"
    using newWithSpan_eq [OF newTree_ready] by blast
  then show ?thesis
    using soc_signer_ok
    by (simp add: NewWithDataSpan_def SpanSize_def ChunkSize_def soc_Sign_def soc_signer_def signer_ok_def
        crypto_AddressSize_def soc_Chunk_def soc_address_def soc_New_def Let_def)
qed

theorem soc_roundtrip_witness:
  "\<exists>sch s. soc_FromChunk soc_cr (newTree (bmtpool_conf (cr_hasher soc_cr))) (sch :: unit chunk) = Inr s \<and>
     so_id s = replicate 32 3 \<and> so_owner s = replicate 20 7 \<and>
     soc_Valid soc_cr (newTree (bmtpool_conf (cr_hasher soc_cr))) sch"
proof -
  obtain ch sch s where c: "NewWithDataSpan (cr_hasher soc_cr) (newTree (bmtpool_conf (cr_hasher soc_cr))) (replicate 8 0 @ [5]) = Inr ch"
      "soc_Sign soc_cr soc_signer (soc_New (replicate 32 3) ch) = (Inr sch, s)" using soc_signs by blast
  show ?thesis using soc_roundtrip [OF soc_signer_ok newTree_ready newTree_ready _ c] by auto
qed

theorem soc_Valid_iff_witness:
  "\<exists>sch :: unit chunk. ch_data sch = replicate 32 3 @ replicate 65 9 @ replicate 8 0 @ [5] \<and>
     soc_Valid soc_cr (newTree (bmtpool_conf (cr_hasher soc_cr))) sch \<and>
     \<not> soc_Valid soc_cr (newTree (bmtpool_conf (cr_hasher soc_cr))) (NewChunk ZeroAddress (ch_data sch) :: unit chunk)"
proof -
  let ?t = "newTree (bmtpool_conf (cr_hasher soc_cr))"
  let ?D = "replicate 32 3 @ replicate 65 9 @ replicate 8 0 @ [5] :: bytes"
  let ?c = "NewChunk (NewAddress (cr_hasher soc_cr (replicate 32 3 @ replicate 20 7))) ?D :: unit chunk"
  let ?z = "NewChunk ZeroAddress ?D :: unit chunk"
  have "length (replicate 8 (0 :: byte)) = SpanSize" by (simp add: SpanSize_def)
  then obtain rt where rt: "ref_Hash (NewRefHasher (NewHasher (cr_hasher soc_cr)) 128) [5] = Some rt"
    using newWithSpan_eq [OF newTree_ready] by blast
  have owner: "NewEthereumAddress soc_cr () = Inr (replicate 20 7)" using soc_signer_ok by (simp add: signer_ok_def)
  have rec: "cr_recover soc_cr (replicate 65 9) d = Some ()" for d by (simp add: soc_cr_def)
  have "soc_Valid soc_cr ?t ?c"
    using soc_Valid_iff [OF newTree_ready, of soc_cr ?c] rt owner rec by (simp add: NewChunk_def slice_def)
  moreover have "\<not> soc_Valid soc_cr ?t ?z"
    using soc_Valid_iff [OF newTree_ready, of soc_cr ?z] rt owner rec
    by (simp add: NewChunk_def slice_def ZeroAddress_def) (simp add: NewAddress_def soc_cr_def)
  ultimately show ?thesis by (intro exI [of _ ?c]) (simp add: NewChunk_def)
qed

end
