(* ===== verification/Mantaray.thy ===== *)
theory Mantaray
  imports Prelude "HOL-Library.AList"
begin

text \<open>
  \<open>pkg/manifest/mantaray\<close>, the nodes of a manifest and their serialisation (\<open>node.go\<close>,
  \<open>marshal.go\<close>, \<open>load\<close> of \<open>persist.go\<close>). A node is its fields and its forks; \<^theory_text>\<open>None\<close> for the
  forks is the nil map of a node that is only known by its reference. A Go map is an association
  list without duplicate keys, its iteration order is the one of the list where the code
  iterates over the map, and a pointer to a child is the child, since the nodes of a manifest
  form a tree. \<open>encoding/json\<close> and the storage behind the interfaces \<open>Loader\<close> and \<open>Saver\<close> are
  parameters.
\<close>

section \<open>Nodes (node.go)\<close>

definition PathSeparator :: byte where "PathSeparator = 47"

datatype merror =
    ErrNotFound | ErrEmptyPath | ErrMetadataTooLarge
  | ErrTooShort | ErrInvalidInput | ErrInvalidVersionHash | ErrInvalidManifest
  | ErrNoSaver | ErrNoLoader
  | errEntryTooLarge nat | errEntrySize nat nat | errNotEnoughBytes | errRefTooLarge nat
  | errStorage bytes

text \<open>What a call ends with: a value, an error, or a panic of the runtime.\<close>

datatype 'a mres = MOk 'a | MErr merror | MPanic

text \<open>\<open>map[string]string\<close>: \<^theory_text>\<open>None\<close> is the nil map.\<close>

type_synonym metadata = "(bytes \<times> bytes) list option"

definition metadata_len :: "metadata \<Rightarrow> nat" where
  "metadata_len m = (case m of None \<Rightarrow> 0 | Some l \<Rightarrow> length l)"

record ndata =
  mn_type :: u8
  mn_refBytesSize :: nat
  mn_key :: bytes
  mn_ref :: "bytes option"
  mn_entry :: bytes
  mn_metadata :: metadata

datatype mnode = MNode (dat: ndata) (mn_forks: "(byte \<times> mfork) list option")
  and mfork = Fork (mf_prefix: bytes) (mf_node: mnode)

type_synonym mforks = "(byte \<times> mfork) list"

definition on_dat :: "(ndata \<Rightarrow> ndata) \<Rightarrow> mnode \<Rightarrow> mnode" where
  "on_dat g n = MNode (g (dat n)) (mn_forks n)"

definition set_forks :: "mforks option \<Rightarrow> mnode \<Rightarrow> mnode" where
  "set_forks fs n = MNode (dat n) fs"

text \<open>\<open>n.forks[b]\<close>; reading a nil map finds nothing.\<close>

definition fork_at :: "mnode \<Rightarrow> byte \<Rightarrow> mfork option" where
  "fork_at n b = (case mn_forks n of None \<Rightarrow> None | Some fs \<Rightarrow> map_of fs b)"

text \<open>\<open>n.forks[b] = f\<close>, on a map that is not nil.\<close>

definition put_fork :: "byte \<Rightarrow> mfork \<Rightarrow> mnode \<Rightarrow> mnode" where
  "put_fork b f n = set_forks (map_option (AList.update b f) (mn_forks n)) n"

definition zero_ndata :: ndata where
  "zero_ndata = \<lparr>mn_type = 0, mn_refBytesSize = 0, mn_key = [], mn_ref = None,
                mn_entry = [], mn_metadata = None\<rparr>"

definition NewNodeRef :: "bytes option \<Rightarrow> mnode" where
  "NewNodeRef ref = MNode (zero_ndata\<lparr>mn_ref := ref\<rparr>) None"

definition mn_New :: mnode where
  "mn_New = MNode zero_ndata (Some [])"

subsection \<open>The type byte\<close>

definition nodeTypeValue :: u8 where "nodeTypeValue = 2"
definition nodeTypeEdge :: u8 where "nodeTypeEdge = 4"
definition nodeTypeWithPathSeparator :: u8 where "nodeTypeWithPathSeparator = 8"
definition nodeTypeWithMetadata :: u8 where "nodeTypeWithMetadata = 16"
definition nodeTypeMask :: u8 where "nodeTypeMask = 255"

definition nodeTypeIsWithMetadataType :: "u8 \<Rightarrow> bool" where
  "nodeTypeIsWithMetadataType t \<longleftrightarrow> t AND nodeTypeWithMetadata = nodeTypeWithMetadata"

definition IsValueType :: "mnode \<Rightarrow> bool" where
  "IsValueType n \<longleftrightarrow> mn_type (dat n) AND nodeTypeValue = nodeTypeValue"

definition IsEdgeType :: "mnode \<Rightarrow> bool" where
  "IsEdgeType n \<longleftrightarrow> mn_type (dat n) AND nodeTypeEdge = nodeTypeEdge"

definition IsWithPathSeparatorType :: "mnode \<Rightarrow> bool" where
  "IsWithPathSeparatorType n \<longleftrightarrow>
     mn_type (dat n) AND nodeTypeWithPathSeparator = nodeTypeWithPathSeparator"

definition IsWithMetadataType :: "mnode \<Rightarrow> bool" where
  "IsWithMetadataType n \<longleftrightarrow> mn_type (dat n) AND nodeTypeWithMetadata = nodeTypeWithMetadata"

definition or_type :: "u8 \<Rightarrow> mnode \<Rightarrow> mnode" where
  "or_type t = on_dat (\<lambda>d. d\<lparr>mn_type := mn_type d OR t\<rparr>)"

definition makeValue :: "mnode \<Rightarrow> mnode" where "makeValue = or_type nodeTypeValue"
definition makeEdge :: "mnode \<Rightarrow> mnode" where "makeEdge = or_type nodeTypeEdge"
definition makeWithPathSeparator :: "mnode \<Rightarrow> mnode" where
  "makeWithPathSeparator = or_type nodeTypeWithPathSeparator"
definition makeWithMetadata :: "mnode \<Rightarrow> mnode" where
  "makeWithMetadata = or_type nodeTypeWithMetadata"

definition makeNotWithPathSeparator :: "mnode \<Rightarrow> mnode" where
  "makeNotWithPathSeparator =
     on_dat (\<lambda>d. d\<lparr>mn_type := (nodeTypeMask XOR nodeTypeWithPathSeparator) AND mn_type d\<rparr>)"

definition SetObfuscationKey :: "bytes \<Rightarrow> mnode \<Rightarrow> mnode" where
  "SetObfuscationKey key = on_dat (\<lambda>d. d\<lparr>mn_key := copy_at (replicate 32 0) 0 key\<rparr>)"

definition updateIsWithPathSeparator :: "bytes \<Rightarrow> mnode \<Rightarrow> mnode" where
  "updateIsWithPathSeparator path n =
     (case find_index (\<lambda>b. b = PathSeparator) path of
        Some i \<Rightarrow> if i > 0 then makeWithPathSeparator n else makeNotWithPathSeparator n
      | None \<Rightarrow> makeNotWithPathSeparator n)"

fun common :: "bytes \<Rightarrow> bytes \<Rightarrow> bytes" where
  "common (a # as) (b # bs) = (if a = b then a # common as bs else [])"
| "common _ _ = []"

section \<open>The environment of a manifest\<close>

text \<open>
  \<open>json.Marshal\<close> and \<open>json.Unmarshal\<close> on metadata, and the \<open>Loader\<close> and the \<open>Saver\<close>, either of
  which may be nil.
\<close>

record menv =
  json_Marshal :: "metadata \<Rightarrow> bytes"
  json_Unmarshal :: "bytes \<Rightarrow> metadata option"
  me_loader :: "(bytes \<Rightarrow> merror + bytes) option"
  me_saver :: "(bytes \<Rightarrow> merror + bytes) option"

section \<open>Serialisation (marshal.go)\<close>

definition versionHashSize :: nat where "versionHashSize = 31"
definition nodeObfuscationKeySize :: nat where "nodeObfuscationKeySize = 32"
definition nodeHeaderSize :: nat where
  "nodeHeaderSize = nodeObfuscationKeySize + versionHashSize + 1"
definition nodeForkHeaderSize :: nat where "nodeForkHeaderSize = 1 + 1"
definition nodeForkPreReferenceSize :: nat where "nodeForkPreReferenceSize = 32"
definition nodePrefixMaxSize :: nat where
  "nodePrefixMaxSize = nodeForkPreReferenceSize - nodeForkHeaderSize"
definition nodeForkMetadataBytesSize :: nat where "nodeForkMetadataBytesSize = 2"

text \<open>\<open>initVersion\<close> keeps the first 31 bytes of the two hash strings.\<close>

definition version01HashBytes :: bytes where
  "version01HashBytes = [0x02, 0x51, 0x84, 0x78, 0x9d, 0x63, 0x63, 0x57, 0x66, 0xd7, 0x8c, 0x41,
     0x90, 0x01, 0x96, 0xb5, 0x7d, 0x74, 0x00, 0x87, 0x5e, 0xbe, 0x4d, 0x9b, 0x5d, 0x1e, 0x76,
     0xbd, 0x96, 0x52, 0xa9]"

definition version02HashBytes :: bytes where
  "version02HashBytes = [0x57, 0x68, 0xb3, 0xb6, 0xa7, 0xdb, 0x56, 0xd2, 0x1d, 0x1a, 0xbf, 0xf4,
     0x0d, 0x41, 0xce, 0xbf, 0xc8, 0x34, 0x48, 0xfe, 0xd8, 0xd7, 0xe9, 0xb0, 0x6e, 0xc0, 0xd3,
     0xb0, 0x73, 0xf2, 0x8f]"

subsection \<open>The bit vector of fork bytes\<close>

definition bb_set :: "bytes \<Rightarrow> byte \<Rightarrow> bytes" where
  "bb_set bits b = bits[unat (b div 8) := bits ! unat (b div 8) OR push_bit (unat (b mod 8)) 1]"

definition bb_getUint8 :: "bytes \<Rightarrow> u8 \<Rightarrow> bool" where
  "bb_getUint8 bits i \<longleftrightarrow> drop_bit (unat (i mod 8)) (bits ! unat (i div 8)) AND 1 > 0"

definition bb_fromBytes :: "bytes \<Rightarrow> bytes" where
  "bb_fromBytes b = copy_at (replicate 32 0) 0 b"

text \<open>\<open>iter\<close>: the callback threads the variables it captures.\<close>

primrec iter_bytes :: "byte list \<Rightarrow> bytes \<Rightarrow> (byte \<Rightarrow> 's \<Rightarrow> unit mres \<times> 's) \<Rightarrow> 's \<Rightarrow> unit mres \<times> 's" where
  "iter_bytes [] bits f s = (MOk (), s)"
| "iter_bytes (i # rest) bits f s =
     (if bb_getUint8 bits i
      then (case f i s of
              (MOk _, s') \<Rightarrow> iter_bytes rest bits f s'
            | (r, s') \<Rightarrow> (r, s'))
      else iter_bytes rest bits f s)"

definition all_bytes :: "byte list" where
  "all_bytes = map of_nat [0..<256]"

definition bb_iter :: "bytes \<Rightarrow> (byte \<Rightarrow> 's \<Rightarrow> unit mres \<times> 's) \<Rightarrow> 's \<Rightarrow> unit mres \<times> 's" where
  "bb_iter bits f s = iter_bytes all_bytes bits f s"

subsection \<open>Obfuscation\<close>

definition encryptDecrypt :: "bytes \<Rightarrow> bytes \<Rightarrow> bytes" where
  "encryptDecrypt input key = map (\<lambda>i. input ! i XOR key ! (i mod length key)) [0..<length input]"

text \<open>The loop over the blocks after the key.\<close>

function crypt_blocks :: "bytes \<Rightarrow> bytes \<Rightarrow> bytes" where
  "crypt_blocks key data =
     (if data = [] then []
      else encryptDecrypt (take nodeObfuscationKeySize data) key
             @ crypt_blocks key (drop nodeObfuscationKeySize data))"
  by pat_completeness auto
termination
  by (relation "measure (\<lambda>(key, data). length data)") (auto simp: nodeObfuscationKeySize_def)

declare crypt_blocks.simps [simp del]

definition crypt_data :: "bytes \<Rightarrow> bytes \<Rightarrow> bytes" where
  "crypt_data key data =
     take nodeObfuscationKeySize data @ crypt_blocks key (drop nodeObfuscationKeySize data)"

subsection \<open>Writing a node\<close>

definition pad_json :: "bytes \<Rightarrow> bytes" where
  "pad_json js =
     (let withSize = length js + nodeForkMetadataBytesSize in
      if withSize < nodeObfuscationKeySize
      then js @ replicate (nodeObfuscationKeySize - withSize) 10
      else if nodeObfuscationKeySize < withSize
      then js @ replicate (nodeObfuscationKeySize - withSize mod nodeObfuscationKeySize) 10
      else js)"

definition fork_bytes :: "menv \<Rightarrow> mfork \<Rightarrow> merror + bytes" where
  "fork_bytes e f =
     (let n = mf_node f; r = (case mn_ref (dat n) of None \<Rightarrow> [] | Some r \<Rightarrow> r) in
      if 256 < length r then Inl (errRefTooLarge (length r))
      else
        let b = [mn_type (dat n), of_nat (length (mf_prefix f))]
                  @ copy_at (replicate nodePrefixMaxSize 0) 0 (mf_prefix f) @ r in
        if IsWithMetadataType n
        then let js = pad_json (json_Marshal e (mn_metadata (dat n))) in
             if 65535 < length js then Inl ErrMetadataTooLarge
             else Inr (b @ be_of_nat 2 (length js) @ js)
        else Inr b)"

definition index_bytes :: "mforks \<Rightarrow> bytes" where
  "index_bytes fs = foldl bb_set (replicate 32 0) (map fst fs)"

definition marshal_fork :: "menv \<Rightarrow> mforks \<Rightarrow> byte \<Rightarrow> bytes \<Rightarrow> unit mres \<times> bytes" where
  "marshal_fork e fs b acc =
     (case map_of fs b of
        None \<Rightarrow> (MPanic, acc)
      | Some f \<Rightarrow> (case fork_bytes e f of
                     Inl x \<Rightarrow> (MErr x, acc)
                   | Inr r \<Rightarrow> (MOk (), acc @ r)))"

text \<open>\<open>rnd\<close> are the bytes that \<open>rand.Read\<close> delivers if the node has no key yet.\<close>

definition MarshalBinary :: "menv \<Rightarrow> bytes \<Rightarrow> mnode \<Rightarrow> bytes mres \<times> mnode" where
  "MarshalBinary e rnd n =
     (case mn_forks n of
        None \<Rightarrow> (MErr ErrInvalidInput, n)
      | Some fs \<Rightarrow>
          let n = (if mn_key (dat n) = [] then on_dat (\<lambda>d. d\<lparr>mn_key := copy_at (replicate nodeObfuscationKeySize 0) 0 rnd\<rparr>) n else n);
              d = dat n;
              header = copy_at (replicate nodeObfuscationKeySize 0) 0 (mn_key d)
                         @ version02HashBytes @ [of_nat (mn_refBytesSize d)];
              entryBytes = copy_at (replicate (mn_refBytesSize d) 0) 0 (mn_entry d);
              index = index_bytes fs
          in case bb_iter index (marshal_fork e fs) (header @ entryBytes @ index) of
               (MOk _, bs) \<Rightarrow> (MOk (crypt_data (mn_key d) bs), n)
             | (MErr x, _) \<Rightarrow> (MErr x, n)
             | (MPanic, _) \<Rightarrow> (MPanic, n))"

subsection \<open>Reading a node\<close>

definition fork_fromBytes :: "bytes \<Rightarrow> mfork option" where
  "fork_fromBytes b =
     (let nodeType = b ! 0; prefixLen = unat (b ! 1) in
      if prefixLen = 0 \<or> nodePrefixMaxSize < prefixLen then None
      else Some (Fork (slice nodeForkHeaderSize (nodeForkHeaderSize + prefixLen) b)
                   (on_dat (\<lambda>d. d\<lparr>mn_type := nodeType\<rparr>)
                     (NewNodeRef (Some (drop nodeForkPreReferenceSize b))))))"

definition fork_fromBytes02 :: "menv \<Rightarrow> bytes \<Rightarrow> nat \<Rightarrow> nat \<Rightarrow> mfork option" where
  "fork_fromBytes02 e b refBytesSize metadataBytesSize =
     (let nodeType = b ! 0; prefixLen = unat (b ! 1) in
      if prefixLen = 0 \<or> nodePrefixMaxSize < prefixLen then None
      else
        let pre = slice nodeForkHeaderSize (nodeForkHeaderSize + prefixLen) b;
            n = on_dat (\<lambda>d. d\<lparr>mn_type := nodeType\<rparr>)
                  (NewNodeRef (Some (slice nodeForkPreReferenceSize (nodeForkPreReferenceSize + refBytesSize) b)))
        in if 0 < metadataBytesSize
           then (case json_Unmarshal e
                        (drop (nodeForkPreReferenceSize + refBytesSize + nodeForkMetadataBytesSize) b) of
                   None \<Rightarrow> None
                 | Some m \<Rightarrow> Some (Fork pre (on_dat (\<lambda>d. d\<lparr>mn_metadata := m\<rparr>) n)))
           else Some (Fork pre n))"

text \<open>The two callbacks of \<open>iter\<close>, on the offset and the forks read so far.\<close>

definition read_fork01 :: "bytes \<Rightarrow> nat \<Rightarrow> byte \<Rightarrow> nat \<times> mforks \<Rightarrow> unit mres \<times> (nat \<times> mforks)" where
  "read_fork01 data refBytesSize b s =
     (let (offset, fs) = s; sz = nodeForkPreReferenceSize + refBytesSize in
      if length data < offset + sz then (MErr ErrInvalidManifest, s)
      else case fork_fromBytes (slice offset (offset + sz) data) of
             None \<Rightarrow> (MErr ErrInvalidManifest, s)
           | Some f \<Rightarrow> (MOk (), (offset + sz, AList.update b f fs)))"

definition read_fork02 :: "menv \<Rightarrow> bytes \<Rightarrow> nat \<Rightarrow> byte \<Rightarrow> nat \<times> mforks \<Rightarrow> unit mres \<times> (nat \<times> mforks)" where
  "read_fork02 e data refBytesSize b s =
     (let (offset, fs) = s; sz = nodeForkPreReferenceSize + refBytesSize in
      if length data < offset + 1 then (MErr ErrInvalidManifest, s)
      else if nodeTypeIsWithMetadataType (data ! offset) then
        if length data < offset + sz + nodeForkMetadataBytesSize then (MErr ErrInvalidManifest, s)
        else
          let msz = be_to_nat (slice (offset + sz) (offset + sz + nodeForkMetadataBytesSize) data);
              sz' = sz + nodeForkMetadataBytesSize + msz in
          if length data < offset + sz' then (MErr ErrInvalidManifest, s)
          else (case fork_fromBytes02 e (slice offset (offset + sz') data) refBytesSize msz of
                  None \<Rightarrow> (MErr ErrInvalidManifest, s)
                | Some f \<Rightarrow> (MOk (), (offset + sz', AList.update b f fs)))
      else if length data < offset + sz then (MErr errNotEnoughBytes, s)
      else (case fork_fromBytes (slice offset (offset + sz) data) of
              None \<Rightarrow> (MErr ErrInvalidManifest, s)
            | Some f \<Rightarrow> (MOk (), (offset + sz, AList.update b f fs))))"

definition UnmarshalBinary :: "menv \<Rightarrow> bytes \<Rightarrow> mnode \<Rightarrow> unit mres \<times> mnode" where
  "UnmarshalBinary e raw n =
     (if length raw < nodeHeaderSize then (MErr ErrTooShort, n)
      else
        let n = on_dat (\<lambda>d. d\<lparr>mn_key := take nodeObfuscationKeySize raw\<rparr>) n;
            data = crypt_data (mn_key (dat n)) raw;
            versionHash = slice nodeObfuscationKeySize (nodeObfuscationKeySize + versionHashSize) data;
            refBytesSize = unat (data ! (nodeHeaderSize - 1));
            offset = nodeHeaderSize + refBytesSize;
            withEntry = on_dat (\<lambda>d. d\<lparr>mn_entry := slice nodeHeaderSize offset data\<rparr>) n in
        if versionHash = version01HashBytes then
          if length data < offset then (MPanic, n)
          else
            let (r, _, fs) = bb_iter (bb_fromBytes (drop offset data))
                               (read_fork01 data refBytesSize) (offset + 32, [])
            in (r, set_forks (Some fs) withEntry)
        else if versionHash = version02HashBytes then
          if length data < offset + 32 then (MPanic, n)
          else
            let n1 = (if slice offset (offset + 32) data \<noteq> replicate 32 0 \<and> \<not> IsEdgeType withEntry
                      then makeEdge withEntry else withEntry);
                (r, _, fs) = bb_iter (bb_fromBytes (drop offset data))
                               (read_fork02 e data refBytesSize) (offset + 32, [])
            in (r, set_forks (Some fs) n1)
        else (MErr ErrInvalidVersionHash, n))"

section \<open>Loading (persist.go)\<close>

definition mn_load :: "menv \<Rightarrow> mnode \<Rightarrow> unit mres \<times> mnode" where
  "mn_load e n =
     (case mn_ref (dat n) of
        None \<Rightarrow> (MOk (), n)
      | Some r \<Rightarrow>
          (case me_loader e of
             None \<Rightarrow> (MErr ErrNoLoader, n)
           | Some l \<Rightarrow> (case l r of Inl x \<Rightarrow> (MErr x, n) | Inr b \<Rightarrow> UnmarshalBinary e b n)))"

text \<open>The test every operation starts with.\<close>

definition load_forks :: "menv \<Rightarrow> mnode \<Rightarrow> unit mres \<times> mnode" where
  "load_forks e n = (if mn_forks n = None then mn_load e n else (MOk (), n))"

end
