(* ===== verification/Mantaray_Ops.thy ===== *)
theory Mantaray_Ops
  imports Mantaray
begin

text \<open>
  The operations of a manifest: \<open>LookupNode\<close>, \<open>Lookup\<close>, \<open>Add\<close>, \<open>Remove\<close> and \<open>HasPrefix\<close> of
  \<open>node.go\<close> and \<open>Save\<close> of \<open>persist.go\<close>, with the termination of their recursions. Every
  operation returns what the call ends with and the node it leaves behind, since reading loads
  nodes and an error does not undo what was done before it. Contexts are not cancelled.
\<close>

section \<open>Facts for termination\<close>

lemma dat_on_dat [simp]: "dat (on_dat g n) = g (dat n)"
  by (simp add: on_dat_def)

lemma forks_on_dat [simp]: "mn_forks (on_dat g n) = mn_forks n"
  by (simp add: on_dat_def)

lemma size_on_dat [simp]: "size (on_dat g n) = size n"
  by (cases n) (simp add: on_dat_def)

lemma dat_set_forks [simp]: "dat (set_forks fs n) = dat n"
  by (simp add: set_forks_def)

lemma forks_set_forks [simp]: "mn_forks (set_forks fs n) = fs"
  by (simp add: set_forks_def)

lemma fork_at_on_dat [simp]: "fork_at (on_dat g n) b = fork_at n b"
  by (simp add: fork_at_def)

lemma forks_updateIsWithPathSeparator [simp]: "mn_forks (updateIsWithPathSeparator p n) = mn_forks n"
  by (simp add: updateIsWithPathSeparator_def makeWithPathSeparator_def makeNotWithPathSeparator_def
      or_type_def split: option.split)

lemma size_updateIsWithPathSeparator [simp]: "size (updateIsWithPathSeparator p n) = size n"
  by (simp add: updateIsWithPathSeparator_def makeWithPathSeparator_def makeNotWithPathSeparator_def
      or_type_def split: option.split)

lemma fork_at_updateIsWithPathSeparator [simp]:
  "fork_at (updateIsWithPathSeparator p n) b = fork_at n b"
  by (simp add: fork_at_def)

lemma size_fork_less: "(k, f) \<in> set fs \<Longrightarrow> mn_forks n = Some fs \<Longrightarrow> size (mf_node f) < size n"
  by (cases n; cases f) (auto dest!: size_list_estimation' [where f = "size_prod (\<lambda>_. 0) size" and y = "size f"])

lemma size_fork_at_less: "fork_at n b = Some f \<Longrightarrow> size (mf_node f) < size n"
  by (auto simp: fork_at_def split: option.splits dest!: map_of_SomeD intro: size_fork_less)

lemma iter_bytes_inv:
  assumes "\<And>i s. P s \<Longrightarrow> P (snd (f i s))" "P s"
  shows "P (snd (iter_bytes is' bits f s))"
  using assms(2)
proof (induction is' arbitrary: s)
  case (Cons i is')
  show ?case
    using assms(1) [of s i] Cons.prems Cons.IH
    by (auto split: prod.split mres.split)
qed simp

text \<open>Forks that were read have prefixes that are not empty.\<close>

definition long_prefixes :: "mforks \<Rightarrow> bool" where
  "long_prefixes fs \<longleftrightarrow> (\<forall>f \<in> snd ` set fs. mf_prefix f \<noteq> [])"

lemma set_AList_update_subset: "set (AList.update k v xs) \<subseteq> insert (k, v) (set xs)"
  by (induction xs) auto

lemma long_prefixes_update:
  "long_prefixes fs \<Longrightarrow> mf_prefix f \<noteq> [] \<Longrightarrow> long_prefixes (AList.update b f fs)"
  unfolding long_prefixes_def using set_AList_update_subset [of b f fs] by auto

lemma fork_fromBytes_prefix:
  "fork_fromBytes b = Some f \<Longrightarrow> 32 \<le> length b \<Longrightarrow> mf_prefix f \<noteq> []"
  by (auto simp: fork_fromBytes_def Let_def slice_def nodeForkHeaderSize_def split: if_splits)

lemma fork_fromBytes02_prefix:
  "fork_fromBytes02 e b r m = Some f \<Longrightarrow> 32 \<le> length b \<Longrightarrow> mf_prefix f \<noteq> []"
  by (auto simp: fork_fromBytes02_def Let_def slice_def nodeForkHeaderSize_def
      split: if_splits option.splits)

lemma read_fork01_prefixes:
  "long_prefixes (snd s) \<Longrightarrow> long_prefixes (snd (snd (read_fork01 data r b s)))"
  by (auto simp: read_fork01_def Let_def nodeForkPreReferenceSize_def split: prod.split option.split
      intro!: long_prefixes_update dest!: fork_fromBytes_prefix)

lemma read_fork02_prefixes:
  "long_prefixes (snd s) \<Longrightarrow> long_prefixes (snd (snd (read_fork02 e data r b s)))"
  by (auto simp: read_fork02_def Let_def nodeForkPreReferenceSize_def split: prod.split option.split
      intro!: long_prefixes_update dest!: fork_fromBytes_prefix fork_fromBytes02_prefix)

lemma bb_iter_prefixes:
  assumes "\<And>i s. long_prefixes (snd s) \<Longrightarrow> long_prefixes (snd (snd (f i s)))"
    and "bb_iter bits f (off, []) = (r, off', fs)"
  shows "long_prefixes fs"
  using iter_bytes_inv [of "\<lambda>s. long_prefixes (snd s)" f "(off, [])" all_bytes bits] assms
  by (simp add: bb_iter_def long_prefixes_def)

lemma UnmarshalBinary_prefixes:
  assumes "UnmarshalBinary e raw n = (r, n')" "mn_forks n = None" "mn_forks n' = Some fs"
  shows "long_prefixes fs"
  using assms
  by (auto simp: UnmarshalBinary_def Let_def makeEdge_def or_type_def split: if_splits prod.splits
      elim!: bb_iter_prefixes [rotated] intro: read_fork01_prefixes read_fork02_prefixes)

lemma load_forks_prefix:
  assumes "load_forks e n = (r, n')" "fork_at n' b = Some f" "mf_prefix f = []"
  shows "n' = n"
proof (rule ccontr)
  assume "n' \<noteq> n"
  with assms(1) obtain raw where n: "mn_forks n = None" and u: "UnmarshalBinary e raw n = (r, n')"
    by (auto simp: load_forks_def mn_load_def split: if_splits option.splits sum.splits)
  from assms(2) obtain fs where fs: "mn_forks n' = Some fs" "(b, f) \<in> set fs"
    by (auto simp: fork_at_def split: option.splits dest: map_of_SomeD)
  with UnmarshalBinary_prefixes [OF u n fs(1)] assms(3) show False
    by (auto simp: long_prefixes_def)
qed

lemma common_prefix_l: "take (length (common a b)) a = common a b"
  by (induction a b rule: common.induct) auto

lemma common_prefix_r: "take (length (common a b)) b = common a b"
  by (induction a b rule: common.induct) auto

lemma length_common: "length (common a b) \<le> length a" "length (common a b) \<le> length b"
  by (induction a b rule: common.induct) auto

lemma common_Nil: "common a b = [] \<longleftrightarrow> a = [] \<or> b = [] \<or> hd a \<noteq> hd b"
  by (induction a b rule: common.induct) auto

lemma descend_measure:
  assumes "load_forks e n = (r, n1)" "fork_at n1 (hd path) = Some f" "path \<noteq> []"
    and "length k = length (mf_prefix f)"
  shows "length path - length k < length path \<or>
         length k = 0 \<and> size (mf_node f) < size n"
proof (cases "mf_prefix f = []")
  case True
  with load_forks_prefix [OF assms(1,2)] size_fork_at_less [OF assms(2)] assms(4) show ?thesis by simp
qed (use assms in auto)

section \<open>LookupNode and Lookup\<close>

function LookupNode :: "menv \<Rightarrow> mnode \<Rightarrow> bytes \<Rightarrow> mnode mres \<times> mnode" where
  "LookupNode e n path =
     (case load_forks e n of
        (MErr x, n1) \<Rightarrow> (MErr x, n1)
      | (MPanic, n1) \<Rightarrow> (MPanic, n1)
      | (MOk _, n1) \<Rightarrow>
          if path = [] then (MOk n1, n1)
          else (case fork_at n1 (hd path) of
                  None \<Rightarrow> (MErr ErrNotFound, n1)
                | Some f \<Rightarrow>
                    let c = common (mf_prefix f) path in
                    if length c = length (mf_prefix f)
                    then (case LookupNode e (mf_node f) (drop (length c) path) of
                            (r, m) \<Rightarrow> (r, put_fork (hd path) (Fork (mf_prefix f) m) n1))
                    else (MErr ErrNotFound, n1)))"
  by pat_completeness auto
termination
  apply (relation "measures [\<lambda>(e, n, path). length path, \<lambda>(e, n, path). size n]")
   apply simp
  apply (drule sym)
  apply (frule (3) descend_measure)
  apply auto
  done

declare LookupNode.simps [simp del]

definition mn_Lookup :: "menv \<Rightarrow> mnode \<Rightarrow> bytes \<Rightarrow> bytes mres \<times> mnode" where
  "mn_Lookup e n path =
     (case LookupNode e n path of
        (MErr x, n') \<Rightarrow> (MErr x, n')
      | (MPanic, n') \<Rightarrow> (MPanic, n')
      | (MOk node, n') \<Rightarrow>
          if \<not> IsValueType node \<and> 0 < length path then (MErr ErrNotFound, n')
          else (MOk (mn_entry (dat node)), n'))"

section \<open>Add\<close>

text \<open>The check of the size of the entry, which also fixes the size for the node.\<close>

definition add_size :: "bytes \<Rightarrow> mnode \<Rightarrow> merror option \<times> mnode" where
  "add_size entry n =
     (if mn_refBytesSize (dat n) = 0 then
        if 256 < length entry then (Some (errEntryTooLarge (length entry)), n)
        else if 0 < length entry then (None, on_dat (\<lambda>d. d\<lparr>mn_refBytesSize := length entry\<rparr>) n)
        else (None, n)
      else if 0 < length entry \<and> mn_refBytesSize (dat n) \<noteq> length entry
      then (Some (errEntrySize (length entry) (mn_refBytesSize (dat n))), n)
      else (None, n))"

text \<open>The value is the node's own: it gets the entry and forgets its reference.\<close>

definition put_value :: "bytes \<Rightarrow> metadata \<Rightarrow> mnode \<Rightarrow> mnode" where
  "put_value entry md n =
     (let n = makeValue (on_dat (\<lambda>d. d\<lparr>mn_entry := entry\<rparr>) n) in
      if 0 < metadata_len md
      then makeWithMetadata (on_dat (\<lambda>d. d\<lparr>mn_metadata := md\<rparr>) n) else n)"

definition add_here :: "bytes \<Rightarrow> metadata \<Rightarrow> mnode \<Rightarrow> mnode" where
  "add_here entry md n = on_dat (\<lambda>d. d\<lparr>mn_ref := None\<rparr>) (put_value entry md n)"

definition add_load :: "menv \<Rightarrow> mnode \<Rightarrow> unit mres \<times> mnode" where
  "add_load e n =
     (if mn_forks n = None
      then (case mn_load e n of
              (MOk _, n1) \<Rightarrow> (MOk (), on_dat (\<lambda>d. d\<lparr>mn_ref := None\<rparr>) n1)
            | (r, n1) \<Rightarrow> (r, n1))
      else (MOk (), n))"

text \<open>A new node below \<open>n\<close>.\<close>

definition new_child :: "mnode \<Rightarrow> mnode" where
  "new_child n =
     (let nn = (if mn_key (dat n) \<noteq> [] then SetObfuscationKey (mn_key (dat n)) mn_New else mn_New)
      in on_dat (\<lambda>d. d\<lparr>mn_refBytesSize := mn_refBytesSize (dat n)\<rparr>) nn)"

text \<open>\<open>n.forks[path[0]] = f; n.makeEdge()\<close>, which panics on a nil map.\<close>

definition assign_fork :: "byte \<Rightarrow> mfork \<Rightarrow> mnode \<Rightarrow> unit mres \<times> mnode" where
  "assign_fork b f n =
     (if mn_forks n = None then (MPanic, n) else (MOk (), makeEdge (put_fork b f n)))"

text \<open>The node that takes the place of a fork whose prefix is split: the old one is below it.\<close>

definition split_node :: "mnode \<Rightarrow> mfork \<Rightarrow> bytes \<Rightarrow> bool \<Rightarrow> mnode" where
  "split_node n f rest isValue =
     (let nn = makeEdge (put_fork (hd rest) (Fork rest (updateIsWithPathSeparator rest (mf_node f))) (new_child n))
      in if isValue then makeValue nn else nn)"

lemma forks_new_child [simp]: "mn_forks (new_child n) = Some []"
  by (simp add: new_child_def Let_def SetObfuscationKey_def mn_New_def)

lemma forks_split_node [simp]:
  "mn_forks (split_node n f rest v) = Some [(hd rest, Fork rest (updateIsWithPathSeparator rest (mf_node f)))]"
  by (simp add: split_node_def Let_def makeEdge_def makeValue_def or_type_def put_fork_def)

lemma forks_add_size [simp]: "mn_forks (snd (add_size entry n)) = mn_forks n"
  by (simp add: add_size_def)

lemma size_add_size [simp]: "size (snd (add_size entry n)) = size n"
  by (simp add: add_size_def)

function mn_Add :: "menv \<Rightarrow> mnode \<Rightarrow> bytes \<Rightarrow> bytes \<Rightarrow> metadata \<Rightarrow> unit mres \<times> mnode" where
  "mn_Add e n path entry md =
     (case add_size entry n of
        (Some x, n) \<Rightarrow> (MErr x, n)
      | (None, n0) \<Rightarrow>
     if path = [] then (MOk (), add_here entry md n0)
     else (case add_load e n0 of
        (MErr x, n1) \<Rightarrow> (MErr x, n1)
      | (MPanic, n1) \<Rightarrow> (MPanic, n1)
      | (MOk _, n1) \<Rightarrow>
     (case fork_at n1 (hd path) of
        None \<Rightarrow>
          if nodePrefixMaxSize < length path then
            let pre = take nodePrefixMaxSize path; rest = drop nodePrefixMaxSize path in
            (case mn_Add e (new_child n1) rest entry md of
               (MOk _, nn) \<Rightarrow> assign_fork (hd path) (Fork pre (updateIsWithPathSeparator pre nn)) n1
             | (r, _) \<Rightarrow> (r, n1))
          else assign_fork (hd path)
                 (Fork path (updateIsWithPathSeparator path (put_value entry md (new_child n1)))) n1
      | Some f \<Rightarrow>
          let c = common (mf_prefix f) path;
              rest = drop (length c) (mf_prefix f);
              nn = (if 0 < length rest then split_node n1 f rest (length path = length c) else mf_node f)
          in (case mn_Add e (updateIsWithPathSeparator path nn) (drop (length c) path) entry md of
                (MOk _, nn') \<Rightarrow> assign_fork (hd path) (Fork c nn') n1
              | (r, nn') \<Rightarrow>
                  (r, put_fork (hd path)
                        (Fork (mf_prefix f)
                          (if 0 < length rest
                           then (case fork_at nn' (hd rest) of None \<Rightarrow> mf_node f | Some g \<Rightarrow> mf_node g)
                           else nn')) n1)))))"
  by pat_completeness auto

definition add_measure :: "bytes \<Rightarrow> mnode \<Rightarrow> nat" where
  "add_measure path n =
     (case mn_forks n of
        None \<Rightarrow> 1
      | Some fs \<Rightarrow> (case map_of fs (hd path) of None \<Rightarrow> 0 | Some f \<Rightarrow> Suc (size n)))"

lemma add_load_prefix:
  assumes "add_load e n = (r, n')" "fork_at n' b = Some f" "mf_prefix f = []"
  shows "n' = n"
proof (rule ccontr)
  assume "n' \<noteq> n"
  then have n: "mn_forks n = None" using assms(1) by (auto simp: add_load_def split: if_splits)
  obtain n1 where l: "load_forks e n = (r, n1)" and f: "mn_forks n' = mn_forks n1"
    using assms(1) n by (auto simp: add_load_def load_forks_def split: if_splits prod.splits mres.splits)
  then have "fork_at n1 b = Some f" using assms(2) by (simp add: fork_at_def)
  from load_forks_prefix [OF l this assms(3)] n f assms(2) show False
    by (simp add: fork_at_def)
qed

lemma add_measure_usp [simp]: "add_measure p (updateIsWithPathSeparator q n) = add_measure p n"
  by (simp add: add_measure_def cong: option.case_cong)

lemma add_descend_measure:
  assumes 1: "(x, n0) = add_size entry n" and 2: "(r, n1) = add_load e n0"
    and 3: "fork_at n1 (hd path) = Some f" and 4: "path \<noteq> []"
    and c: "c = common (mf_prefix f) path" and rest: "rest = drop (length c) (mf_prefix f)"
    and nn: "nn = (if 0 < length rest then split_node n1 f rest v else mf_node f)"
  shows "length path - length c < length path \<or> length c = 0 \<and> add_measure path nn < add_measure path n"
proof (cases "c = []")
  case cN: True
  have n0: "mn_forks n0 = mn_forks n" "size n0 = size n"
    using forks_add_size [of entry n] size_add_size [of entry n] by (simp_all flip: 1)
  show ?thesis
  proof (cases "mf_prefix f = []")
    case True
    with add_load_prefix [OF 2 [symmetric] 3] have "n1 = n0" by simp
    with 3 have f: "fork_at n0 (hd path) = Some f" by simp
    then have "add_measure path n = Suc (size n)"
      by (auto simp: add_measure_def fork_at_def n0 split: option.splits)
    moreover have "add_measure path (mf_node f) \<le> Suc (size (mf_node f))"
      by (auto simp: add_measure_def split: option.splits)
    moreover have "nn = mf_node f" using nn rest cN True by simp
    ultimately show ?thesis using size_fork_at_less [OF f] n0 cN by simp
  next
    case False
    then have hd: "hd (mf_prefix f) \<noteq> hd path" using cN c 4 common_Nil [of "mf_prefix f" path] by simp
    have "add_measure path nn = 0" using nn rest cN False hd by (simp add: add_measure_def)
    moreover have "0 < add_measure path n"
    proof (cases "mn_forks n")
      case (Some fs)
      then have "n1 = n0" using 2 n0 by (simp add: add_load_def)
      with 3 Some n0 show ?thesis by (auto simp: add_measure_def fork_at_def)
    qed (simp add: add_measure_def)
    ultimately show ?thesis using cN by simp
  qed
qed (use 4 in simp)

termination mn_Add
  apply (relation "measures [\<lambda>(e, n, path, entry, md). length path,
                             \<lambda>(e, n, path, entry, md). add_measure path n]")
    apply simp
   apply (simp add: nodePrefixMaxSize_def nodeForkPreReferenceSize_def nodeForkHeaderSize_def)
  subgoal premises prems for e n path entry md x y xa ya x1 f c rest nn
    using add_descend_measure [OF prems(1,4,6,3,7-9)] by auto
  done

declare mn_Add.simps [simp del]

section \<open>Remove and HasPrefix\<close>

function mn_Remove :: "menv \<Rightarrow> mnode \<Rightarrow> bytes \<Rightarrow> unit mres \<times> mnode" where
  "mn_Remove e n path =
     (if path = [] then (MErr ErrEmptyPath, n)
      else (case load_forks e n of
        (MErr x, n1) \<Rightarrow> (MErr x, n1)
      | (MPanic, n1) \<Rightarrow> (MPanic, n1)
      | (MOk _, n1) \<Rightarrow>
          (case fork_at n1 (hd path) of
             None \<Rightarrow> (MErr ErrNotFound, n1)
           | Some f \<Rightarrow>
               if find_sub (mf_prefix f) path \<noteq> Some 0 then (MErr ErrNotFound, n1)
               else if drop (length (mf_prefix f)) path = []
               then (MOk (), set_forks (map_option (AList.delete (hd path)) (mn_forks n1)) n1)
               else (case mn_Remove e (mf_node f) (drop (length (mf_prefix f)) path) of
                       (r, m) \<Rightarrow> (r, put_fork (hd path) (Fork (mf_prefix f) m) n1)))))"
  by pat_completeness auto
termination
  apply (relation "measures [\<lambda>(e, n, path). length path, \<lambda>(e, n, path). size n]")
   apply simp
  apply (drule sym)
  apply (frule (2) descend_measure [OF _ _ _ refl])
  apply auto
  done

declare mn_Remove.simps [simp del]

function mn_HasPrefix :: "menv \<Rightarrow> mnode \<Rightarrow> bytes \<Rightarrow> bool mres \<times> mnode" where
  "mn_HasPrefix e n path =
     (case load_forks e n of
        (MErr x, n1) \<Rightarrow> (MErr x, n1)
      | (MPanic, n1) \<Rightarrow> (MPanic, n1)
      | (MOk _, n1) \<Rightarrow>
          if path = [] then (MOk True, n1)
          else (case fork_at n1 (hd path) of
                  None \<Rightarrow> (MOk False, n1)
                | Some f \<Rightarrow>
                    let c = common (mf_prefix f) path in
                    if length c = length (mf_prefix f)
                    then (case mn_HasPrefix e (mf_node f) (drop (length c) path) of
                            (r, m) \<Rightarrow> (r, put_fork (hd path) (Fork (mf_prefix f) m) n1))
                    else (MOk (has_prefix path (mf_prefix f)), n1)))"
  by pat_completeness auto
termination
  apply (relation "measures [\<lambda>(e, n, path). length path, \<lambda>(e, n, path). size n]")
   apply simp
  apply (drule sym)
  apply (frule (3) descend_measure)
  apply auto
  done

declare mn_HasPrefix.simps [simp del]

section \<open>Save (persist.go)\<close>

text \<open>
  The children are saved by goroutines of an \<open>errgroup\<close>, which share nothing; all of them run to
  their end here, and the error is the one of the first child in the order of the map. \<open>rnd\<close>
  gives the random bytes for the key of the node at a path of fork bytes.
\<close>

definition first_failure :: "unit mres list \<Rightarrow> unit mres option" where
  "first_failure rs = find (\<lambda>r. r \<noteq> MOk ()) rs"

function mn_save :: "menv \<Rightarrow> (bytes \<Rightarrow> merror + bytes) \<Rightarrow> (bytes \<Rightarrow> bytes) \<Rightarrow> bytes \<Rightarrow> mnode \<Rightarrow> unit mres \<times> mnode" where
  "mn_save e s rnd at n =
     (if mn_ref (dat n) \<noteq> None then (MOk (), n)
      else
        let fs = (case mn_forks n of None \<Rightarrow> [] | Some fs \<Rightarrow> fs);
            rs = map (\<lambda>(k, f). mn_save e s rnd (at @ [k]) (mf_node f)) fs;
            n1 = set_forks (map_option (\<lambda>_. map2 (\<lambda>(k, f) (r, m). (k, Fork (mf_prefix f) m)) fs rs) (mn_forks n)) n
        in case first_failure (map fst rs) of
             Some r \<Rightarrow> (r, n1)
           | None \<Rightarrow>
               (case MarshalBinary e (rnd at) n1 of
                  (MErr x, n2) \<Rightarrow> (MErr x, n2)
                | (MPanic, n2) \<Rightarrow> (MPanic, n2)
                | (MOk b, n2) \<Rightarrow>
                    (case s b of
                       Inl x \<Rightarrow> (MErr x, n2)
                     | Inr r \<Rightarrow> (MOk (), set_forks None (on_dat (\<lambda>d. d\<lparr>mn_ref := Some r\<rparr>) n2)))))"
  by pat_completeness auto
termination
  by (relation "measure (\<lambda>(e, s, rnd, at, n). size n)") (auto split: option.splits intro: size_fork_less)

declare mn_save.simps [simp del]

definition mn_Save :: "menv \<Rightarrow> (bytes \<Rightarrow> bytes) \<Rightarrow> mnode \<Rightarrow> unit mres \<times> mnode" where
  "mn_Save e rnd n =
     (case me_saver e of
        None \<Rightarrow> (MErr ErrNoSaver, n)
      | Some s \<Rightarrow> mn_save e s rnd [] n)"

end
