(* ===== verification/Mantaray_Trie.thy ===== *)
theory Mantaray_Trie
  imports Mantaray_Ops
begin

text \<open>
  What a manifest means: the map from paths to entries that its nodes stand for, loaded or not,
  and the proof that the operations of Mantaray\_Ops read and change that map. A manifest is
  loaded on the way down, so that it need not be finite: being well formed is coinductive.
\<close>

section \<open>Flags\<close>

lemma flag_push_bit: "u AND push_bit i 1 = push_bit i 1 \<longleftrightarrow> bit u i" if "i < 8" for u :: u8
proof
  assume *: "u AND push_bit i 1 = push_bit i 1"
  have "bit (push_bit i (1 :: u8)) i" using that by (simp add: bit_simps)
  then show "bit u i" by (metis * bit_and_iff)
next
  assume "bit u i"
  then show "u AND push_bit i 1 = push_bit i 1" by (intro bit_eqI) (auto simp: bit_simps)
qed

lemma flag_2: "u AND 2 = 2 \<longleftrightarrow> bit u 1" for u :: u8
  using flag_push_bit [of 1 u] by simp

lemma flag_16: "u AND 16 = 16 \<longleftrightarrow> bit u 4" for u :: u8
  using flag_push_bit [of 4 u] by (simp add: push_bit_eq_mult)

lemmas flag_defs = IsValueType_def makeEdge_def makeValue_def makeWithMetadata_def
  makeWithPathSeparator_def makeNotWithPathSeparator_def updateIsWithPathSeparator_def or_type_def
  nodeTypeValue_def nodeTypeEdge_def nodeTypeWithPathSeparator_def nodeTypeWithMetadata_def
  nodeTypeMask_def IsWithMetadataType_def

lemma IsValueType_flags [simp]:
  "IsValueType (makeEdge n) = IsValueType n"
  "IsValueType (makeValue n)"
  "IsValueType (makeWithMetadata n) = IsValueType n"
  "IsValueType (updateIsWithPathSeparator p n) = IsValueType n"
  by (simp_all add: flag_defs flag_2 bit_simps split: option.split)

lemma IsValueType_on_dat: "mn_type (g (dat n)) = mn_type (dat n) \<Longrightarrow> IsValueType (on_dat g n) = IsValueType n"
  by (simp add: IsValueType_def)

lemma flags_fields [simp]:
  "mn_forks (makeEdge n) = mn_forks n" "mn_forks (makeValue n) = mn_forks n"
  "mn_forks (makeWithMetadata n) = mn_forks n"
  "mn_ref (dat (makeEdge n)) = mn_ref (dat n)" "mn_entry (dat (makeEdge n)) = mn_entry (dat n)"
  "mn_metadata (dat (makeEdge n)) = mn_metadata (dat n)"
  "mn_refBytesSize (dat (makeEdge n)) = mn_refBytesSize (dat n)"
  "mn_key (dat (makeEdge n)) = mn_key (dat n)"
  "mn_ref (dat (makeValue n)) = mn_ref (dat n)" "mn_entry (dat (makeValue n)) = mn_entry (dat n)"
  "mn_metadata (dat (makeValue n)) = mn_metadata (dat n)"
  "mn_refBytesSize (dat (makeValue n)) = mn_refBytesSize (dat n)"
  "mn_key (dat (makeValue n)) = mn_key (dat n)"
  "mn_ref (dat (makeWithMetadata n)) = mn_ref (dat n)" "mn_entry (dat (makeWithMetadata n)) = mn_entry (dat n)"
  "mn_metadata (dat (makeWithMetadata n)) = mn_metadata (dat n)"
  "mn_refBytesSize (dat (makeWithMetadata n)) = mn_refBytesSize (dat n)"
  "mn_key (dat (makeWithMetadata n)) = mn_key (dat n)"
  by (simp_all add: makeEdge_def makeValue_def makeWithMetadata_def or_type_def)

lemma usp_fields [simp]:
  "mn_ref (dat (updateIsWithPathSeparator p n)) = mn_ref (dat n)"
  "mn_entry (dat (updateIsWithPathSeparator p n)) = mn_entry (dat n)"
  "mn_metadata (dat (updateIsWithPathSeparator p n)) = mn_metadata (dat n)"
  "mn_refBytesSize (dat (updateIsWithPathSeparator p n)) = mn_refBytesSize (dat n)"
  "mn_key (dat (updateIsWithPathSeparator p n)) = mn_key (dat n)"
  by (simp_all add: updateIsWithPathSeparator_def makeWithPathSeparator_def
      makeNotWithPathSeparator_def or_type_def split: option.split)

section \<open>Loading\<close>

text \<open>
  Two nodes that differ only in flags, sizes and keys load alike, and so do two nodes with the same
  reference that are not loaded, whatever their entries are.
\<close>

definition alike :: "mnode \<Rightarrow> mnode \<Rightarrow> bool" where
  "alike n m \<longleftrightarrow> mn_forks n = mn_forks m \<and> mn_ref (dat n) = mn_ref (dat m) \<and>
     (mn_entry (dat n) = mn_entry (dat m) \<or> mn_forks n = None \<and> mn_ref (dat n) \<noteq> None) \<and>
     mn_metadata (dat n) = mn_metadata (dat m) \<and> IsValueType n = IsValueType m"

lemma alike_usp [simp]: "alike (updateIsWithPathSeparator p n) n"
  by (simp add: alike_def)

lemma Unmarshal_frame:
  "UnmarshalBinary e raw n = (r, n') \<Longrightarrow> mn_ref (dat n') = mn_ref (dat n) \<and>
     mn_metadata (dat n') = mn_metadata (dat n) \<and> mn_refBytesSize (dat n') = mn_refBytesSize (dat n) \<and>
     IsValueType n' = IsValueType n"
  by (auto simp: UnmarshalBinary_def Let_def IsValueType_def makeEdge_def or_type_def
      nodeTypeValue_def nodeTypeEdge_def flag_2 bit_simps split: if_splits prod.splits)

lemma load_forks_frame:
  "load_forks e n = (r, n') \<Longrightarrow> mn_ref (dat n') = mn_ref (dat n) \<and>
     mn_metadata (dat n') = mn_metadata (dat n) \<and> mn_refBytesSize (dat n') = mn_refBytesSize (dat n) \<and>
     IsValueType n' = IsValueType n"
  by (auto simp: load_forks_def mn_load_def split: if_splits option.splits sum.splits
      dest!: Unmarshal_frame)

lemma Unmarshal_alike:
  assumes "UnmarshalBinary e raw n = (MOk (), n')" "alike n m"
  obtains m' where "UnmarshalBinary e raw m = (MOk (), m')" "alike n' m'"
proof -
  obtain r m' where m': "UnmarshalBinary e raw m = (r, m')" by force
  have "r = MOk () \<and> mn_forks n' = mn_forks m' \<and> mn_entry (dat n') = mn_entry (dat m')"
    using assms(1) m'
    by (auto simp: UnmarshalBinary_def Let_def makeEdge_def or_type_def split: if_splits prod.splits)
  with m' Unmarshal_frame [OF m'] Unmarshal_frame [OF assms(1)] assms(2) that show thesis
    by (auto simp: alike_def)
qed

lemma load_alike:
  assumes "load_forks e n = (MOk (), n')" "alike n m"
  obtains m' where "load_forks e m = (MOk (), m')" "alike n' m'"
proof (cases "mn_forks n = None \<and> mn_ref (dat n) \<noteq> None")
  case True
  with assms obtain l r raw where l: "mn_ref (dat n) = Some r" "me_loader e = Some l" "l r = Inr raw"
    and u: "UnmarshalBinary e raw n = (MOk (), n')"
    by (auto simp: load_forks_def mn_load_def split: option.splits sum.splits)
  from Unmarshal_alike [OF u assms(2)] obtain m'
    where m': "UnmarshalBinary e raw m = (MOk (), m')" "alike n' m'" .
  have "mn_forks m = None" "mn_ref (dat m) = Some r" using True assms(2) l by (simp_all add: alike_def)
  with l m'(1) have "load_forks e m = (MOk (), m')" by (simp add: load_forks_def mn_load_def)
  with m'(2) that show thesis by blast
next
  case False
  with assms that [of m] show thesis
    by (auto simp: load_forks_def mn_load_def alike_def split: if_splits option.splits)
qed

lemma load_forks_mem [simp]: "mn_forks n \<noteq> None \<Longrightarrow> load_forks e n = (MOk (), n)"
  by (auto simp: load_forks_def)

lemma Unmarshal_forks: "UnmarshalBinary e raw n = (MOk (), n') \<Longrightarrow> mn_forks n' \<noteq> None"
  by (auto simp: UnmarshalBinary_def Let_def split: if_splits prod.splits)

section \<open>Well-formed manifests\<close>

text \<open>
  Every node can be loaded, the forks lie at the first byte of their prefixes, and no node fixes
  another size of entries than \<open>k\<close>.
\<close>

coinductive manifest :: "menv \<Rightarrow> nat \<Rightarrow> mnode \<Rightarrow> bool" for e k where
  "load_forks e n = (MOk (), n1) \<Longrightarrow> mn_forks n1 \<noteq> None \<Longrightarrow>
   (\<And>b f. fork_at n1 b = Some f \<Longrightarrow> mf_prefix f \<noteq> [] \<and> hd (mf_prefix f) = b \<and>
      length (mf_prefix f) \<le> nodePrefixMaxSize \<and> manifest e k (mf_node f)) \<Longrightarrow>
   mn_refBytesSize (dat n) \<in> {0, k} \<Longrightarrow> manifest e k n"

lemma manifest_mem:
  assumes "mn_forks n \<noteq> None"
  shows "manifest e k n \<longleftrightarrow> mn_refBytesSize (dat n) \<in> {0, k} \<and>
     (\<forall>b f. fork_at n b = Some f \<longrightarrow> mf_prefix f \<noteq> [] \<and> hd (mf_prefix f) = b \<and>
        length (mf_prefix f) \<le> nodePrefixMaxSize \<and> manifest e k (mf_node f))"
    (is "?L \<longleftrightarrow> ?R")
proof
  assume ?L
  then show ?R by (cases rule: manifest.cases) (use assms in auto)
next
  assume ?R
  then show ?L by (intro manifest.intros [of e n n]) (use assms in auto)
qed

lemma manifest_load:
  assumes "manifest e k n"
  obtains n1 where "load_forks e n = (MOk (), n1)" "mn_forks n1 \<noteq> None" "manifest e k n1"
  using assms
proof (cases rule: manifest.cases)
  case (1 n1)
  then have "manifest e k n1" using load_forks_frame [OF 1(1)] by (simp add: manifest_mem)
  with 1 that show thesis by blast
qed

lemma manifest_alike:
  assumes "manifest e k n" "alike n m" "mn_refBytesSize (dat m) \<in> {0, k}"
  shows "manifest e k m"
proof -
  obtain n1 where n1: "load_forks e n = (MOk (), n1)" "mn_forks n1 \<noteq> None" "manifest e k n1"
    using assms(1) by (rule manifest_load)
  obtain m1 where m1: "load_forks e m = (MOk (), m1)" "alike n1 m1"
    using n1(1) assms(2) by (rule load_alike)
  have "mn_forks m1 \<noteq> None" "fork_at m1 = fork_at n1" using m1(2) n1(2)
    by (auto simp: alike_def fork_at_def fun_eq_iff)
  with n1 m1(1) assms(3) show ?thesis
    by (intro manifest.intros [of e m m1]) (auto simp: manifest_mem)
qed

lemma manifest_fork:
  assumes "manifest e k n" "fork_at n b = Some f"
  shows "mf_prefix f \<noteq> []" "hd (mf_prefix f) = b" "length (mf_prefix f) \<le> nodePrefixMaxSize"
    "manifest e k (mf_node f)"
proof -
  have "mn_forks n \<noteq> None" using assms(2) by (auto simp: fork_at_def split: option.splits)
  with assms manifest_mem show "mf_prefix f \<noteq> []" "hd (mf_prefix f) = b"
    "length (mf_prefix f) \<le> nodePrefixMaxSize" "manifest e k (mf_node f)" by blast+
qed

section \<open>The map of a manifest\<close>

text \<open>The node at a path, as it is stored.\<close>

function seek :: "menv \<Rightarrow> mnode \<Rightarrow> bytes \<Rightarrow> mnode option" where
  "seek e n path =
     (if path = [] then Some n
      else (case load_forks e n of
              (MOk _, n1) \<Rightarrow>
                (case fork_at n1 (hd path) of
                   None \<Rightarrow> None
                 | Some f \<Rightarrow>
                     if has_prefix (mf_prefix f) path
                     then seek e (mf_node f) (drop (length (mf_prefix f)) path) else None)
            | _ \<Rightarrow> None))"
  by pat_completeness auto
termination
  apply (relation "measures [\<lambda>(e, n, path). length path, \<lambda>(e, n, path). size n]")
   apply simp
  apply (drule sym)
  apply (frule (2) descend_measure [OF _ _ _ refl])
  apply auto
  done

declare seek.simps [simp del]

definition entry_at :: "menv \<Rightarrow> mnode \<Rightarrow> bytes \<Rightarrow> (bytes \<times> metadata) option" where
  "entry_at e n path =
     (case seek e n path of
        None \<Rightarrow> None
      | Some m \<Rightarrow>
          if IsValueType m
          then Some (mn_entry (dat (snd (load_forks e m))), mn_metadata (dat m)) else None)"

lemma seek_Nil [simp]: "seek e n [] = Some n"
  by (simp add: seek.simps)

lemma seek_mem:
  "mn_forks n \<noteq> None \<Longrightarrow> q \<noteq> [] \<Longrightarrow> seek e n q =
     (case fork_at n (hd q) of None \<Rightarrow> None
      | Some f \<Rightarrow> if has_prefix (mf_prefix f) q
                  then seek e (mf_node f) (drop (length (mf_prefix f)) q) else None)"
  by (subst seek.simps) simp

lemma seek_load:
  "load_forks e n = (MOk (), n1) \<Longrightarrow> mn_forks n1 \<noteq> None \<Longrightarrow> q \<noteq> [] \<Longrightarrow> seek e n q = seek e n1 q"
  by (subst seek.simps) (simp add: seek_mem)

lemma entry_at_mem:
  "mn_forks n \<noteq> None \<Longrightarrow> q \<noteq> [] \<Longrightarrow> entry_at e n q =
     (case fork_at n (hd q) of None \<Rightarrow> None
      | Some f \<Rightarrow> if has_prefix (mf_prefix f) q
                  then entry_at e (mf_node f) (drop (length (mf_prefix f)) q) else None)"
  by (simp add: entry_at_def seek_mem split: option.split)

lemma entry_at_Nil_mem:
  "mn_forks n \<noteq> None \<Longrightarrow> entry_at e n [] =
     (if IsValueType n then Some (mn_entry (dat n), mn_metadata (dat n)) else None)"
  by (simp add: entry_at_def)

lemma entry_at_load:
  assumes "load_forks e n = (MOk (), n1)" "mn_forks n1 \<noteq> None"
  shows "entry_at e n1 q = entry_at e n q"
proof (cases "q = []")
  case True
  with assms load_forks_frame [OF assms(1)] show ?thesis by (simp add: entry_at_def)
qed (simp add: entry_at_def seek_load [OF assms])

lemma entry_at_alike:
  assumes "manifest e k n" "alike n m"
  shows "entry_at e m q = entry_at e n q"
proof -
  obtain n1 where n1: "load_forks e n = (MOk (), n1)" "mn_forks n1 \<noteq> None"
    using assms(1) by (rule manifest_load)
  obtain m1 where m1: "load_forks e m = (MOk (), m1)" "alike n1 m1"
    using n1(1) assms(2) by (rule load_alike)
  then have mem: "mn_forks m1 \<noteq> None" using n1 by (simp add: alike_def)
  have "entry_at e m1 q = entry_at e n1 q"
  proof (cases "q = []")
    case True
    with m1(2) n1(2) mem show ?thesis by (simp add: entry_at_Nil_mem alike_def)
  next
    case False
    with m1(2) n1(2) mem show ?thesis by (simp add: entry_at_mem alike_def fork_at_def)
  qed
  then show ?thesis by (simp add: entry_at_load [OF n1] entry_at_load [OF m1(1) mem])
qed

end
