(* ===== verification/Mantaray_Map.thy ===== *)
theory Mantaray_Map
  imports Mantaray_Trie
begin

text \<open>
  The operations on the map of a manifest: \<open>LookupNode\<close> and \<open>Lookup\<close> read it and change nothing
  but what is loaded, \<open>Add\<close> updates it at one path, \<open>Remove\<close> restricts it to the paths that do
  not extend the removed one.
\<close>

section \<open>Prefixes\<close>

lemma common_full: "length (common a b) = length a \<longleftrightarrow> has_prefix a b"
  by (induction a b rule: common.induct) (auto simp: has_prefix_def)

lemma has_empty_prefix [simp]: "has_prefix [] q"
  by (simp add: has_prefix_def)

lemma has_prefix_of_Nil [simp]: "has_prefix p [] \<longleftrightarrow> p = []"
  by (auto simp: has_prefix_def)

lemma has_prefix_append_iff:
  "has_prefix (a @ b) q \<longleftrightarrow> has_prefix a q \<and> has_prefix b (drop (length a) q)"
proof (induction a arbitrary: q)
  case (Cons x a)
  then show ?case by (cases q) (auto simp: has_prefix_def)
qed simp

lemma has_prefix_hd: "has_prefix p q \<Longrightarrow> p \<noteq> [] \<Longrightarrow> hd q = hd p \<and> q \<noteq> []"
  by (cases p; cases q) (auto simp: has_prefix_def)

lemma has_prefix_split: "has_prefix p q \<Longrightarrow> p @ drop (length p) q = q"
  by (metis append_take_drop_id has_prefix_def)

lemma has_prefix_iff: "has_prefix p q \<longleftrightarrow> (\<exists>t. q = p @ t)"
  using has_prefix_split [of p q] by (metis has_prefix_append)

lemma has_prefix_comparable: "has_prefix a (p @ s) \<Longrightarrow> has_prefix a p \<or> has_prefix p a"
  by (auto simp: has_prefix_iff append_eq_append_conv2)

lemma has_prefix_common: "has_prefix (common a b) a" "has_prefix (common a b) b"
  by (simp_all add: has_prefix_def common_prefix_l common_prefix_r)

lemma common_maximal:
  "drop (length (common a b)) a \<noteq> [] \<Longrightarrow> drop (length (common a b)) b \<noteq> [] \<Longrightarrow>
   hd (drop (length (common a b)) a) \<noteq> hd (drop (length (common a b)) b)"
  by (induction a b rule: common.induct) auto

section \<open>Replacing a fork\<close>

lemma forks_put_fork [simp]: "mn_forks (put_fork b f n) = None \<longleftrightarrow> mn_forks n = None"
  by (simp add: put_fork_def)

lemma dat_put_fork [simp]: "dat (put_fork b f n) = dat n"
  by (simp add: put_fork_def)

lemma fork_at_put [simp]:
  "mn_forks n \<noteq> None \<Longrightarrow> fork_at (put_fork b f n) c = (if c = b then Some f else fork_at n c)"
  by (auto simp: fork_at_def put_fork_def update_conv')

lemma fork_at_flags [simp]: "fork_at (makeEdge n) b = fork_at n b" "fork_at (makeValue n) b = fork_at n b"
    "fork_at (makeWithMetadata n) b = fork_at n b"
  by (simp_all add: fork_at_def)

lemma IsValueType_put_fork [simp]: "IsValueType (put_fork b f n) = IsValueType n"
  by (simp add: IsValueType_def)

lemma entry_at_put:
  assumes "mn_forks n \<noteq> None"
  shows "entry_at e (put_fork b f n) q =
    (if q \<noteq> [] \<and> hd q = b
     then if has_prefix (mf_prefix f) q then entry_at e (mf_node f) (drop (length (mf_prefix f)) q) else None
     else entry_at e n q)"
  using assms by (cases "q = []") (auto simp: entry_at_mem entry_at_Nil_mem)

lemma manifest_put:
  assumes "manifest e k n" "mn_forks n \<noteq> None" "manifest e k (mf_node f)"
    "mf_prefix f \<noteq> []" "hd (mf_prefix f) = b" "length (mf_prefix f) \<le> nodePrefixMaxSize"
  shows "manifest e k (put_fork b f n)"
  using assms by (auto simp: manifest_mem)

lemma entry_at_edge [simp]: "mn_forks n \<noteq> None \<Longrightarrow> entry_at e (makeEdge n) q = entry_at e n q"
  by (cases "q = []") (simp_all add: entry_at_mem entry_at_Nil_mem)

lemma manifest_edge [simp]: "mn_forks n \<noteq> None \<Longrightarrow> manifest e k (makeEdge n) = manifest e k n"
  by (simp add: manifest_mem)

section \<open>Reading\<close>

text \<open>Reading keeps the map; it may load nodes on the way.\<close>

definition same_map :: "menv \<Rightarrow> nat \<Rightarrow> mnode \<Rightarrow> mnode \<Rightarrow> bool" where
  "same_map e k n n' \<longleftrightarrow> manifest e k n' \<and> entry_at e n' = entry_at e n"

lemma same_map_load:
  assumes "manifest e k n" "load_forks e n = (r, n1)"
  shows "same_map e k n n1" "mn_forks n1 \<noteq> None" "r = MOk ()" "manifest e k n1"
  using assms(2) manifest_load [OF assms(1)] entry_at_load [of e n n1]
  by (auto simp: same_map_def)

lemma same_map_put:
  assumes n: "manifest e k n" "mn_forks n \<noteq> None" "fork_at n b = Some f"
    and m: "same_map e k (mf_node f) m"
  shows "same_map e k n (put_fork b (Fork (mf_prefix f) m) n)"
proof -
  note f = manifest_fork [OF n(1,3)]
  have "entry_at e (put_fork b (Fork (mf_prefix f) m) n) q = entry_at e n q" for q
    using n f m by (simp add: entry_at_put same_map_def entry_at_mem)
  with n f m show ?thesis by (auto simp: same_map_def intro!: manifest_put)
qed

lemma same_map_trans: "same_map e k n m \<Longrightarrow> same_map e k m p \<Longrightarrow> same_map e k n p"
  by (simp add: same_map_def)

lemma LookupNode_seek:
  assumes "manifest e k n" "LookupNode e n path = (r, n')"
  shows "same_map e k n n' \<and>
    (case seek e n path of
       None \<Rightarrow> r = MErr ErrNotFound
     | Some m \<Rightarrow> \<exists>m1. load_forks e m = (MOk (), m1) \<and> r = MOk m1)"
  using assms
proof (induction e n path arbitrary: r n' rule: LookupNode.induct)
  case (1 e n path)
  obtain n1 where n1: "load_forks e n = (MOk (), n1)" "mn_forks n1 \<noteq> None" "manifest e k n1"
    using "1.prems"(1) by (rule manifest_load)
  note same = same_map_load(1) [OF "1.prems"(1) n1(1)]
  show ?case
  proof (cases "path = [] \<or> fork_at n1 (hd path) = None")
    case True
    with "1.prems"(2) n1 same show ?thesis
      by (auto simp: LookupNode.simps [of e n path] seek_load [OF n1(1)] seek_mem split: if_splits)
  next
    case False
    then obtain f where f: "path \<noteq> []" "fork_at n1 (hd path) = Some f" by auto
    show ?thesis
    proof (cases "has_prefix (mf_prefix f) path")
      case pre: True
      then have c: "length (common (mf_prefix f) path) = length (mf_prefix f)" by (simp add: common_full)
      obtain r' m where m: "LookupNode e (mf_node f) (drop (length (mf_prefix f)) path) = (r', m)" by force
      have eq: "r = r'" "n' = put_fork (hd path) (Fork (mf_prefix f) m) n1"
        using "1.prems"(2) n1 f c m by (simp_all add: LookupNode.simps [of e n path] Let_def)
      from 1(1) [OF n1(1) [symmetric] refl f refl c manifest_fork(4) [OF n1(3) f(2)]] m c
      have IH: "same_map e k (mf_node f) m"
        "case seek e (mf_node f) (drop (length (mf_prefix f)) path) of
           None \<Rightarrow> r' = MErr ErrNotFound
         | Some m \<Rightarrow> \<exists>m1. load_forks e m = (MOk (), m1) \<and> r' = MOk m1" by auto
      from same_map_trans [OF same same_map_put [OF n1(3,2) f(2) IH(1)]] IH(2) f pre n1 eq(2)
      show ?thesis unfolding eq(1) by (simp add: seek_load [OF n1(1)] seek_mem)
    next
      case False
      then have "length (common (mf_prefix f) path) \<noteq> length (mf_prefix f)" by (simp add: common_full)
      with "1.prems"(2) n1 f False same show ?thesis
        by (auto simp: LookupNode.simps [of e n path] Let_def seek_load [OF n1(1)] seek_mem)
    qed
  qed
qed

lemma mn_Lookup_map:
  assumes "manifest e k n" "path \<noteq> []"
  shows "fst (mn_Lookup e n path) =
           (case entry_at e n path of None \<Rightarrow> MErr ErrNotFound | Some (entry, _) \<Rightarrow> MOk entry)"
    and "same_map e k n (snd (mn_Lookup e n path))"
proof -
  obtain r n' where r: "LookupNode e n path = (r, n')" by force
  note L = LookupNode_seek [OF assms(1) r]
  show "same_map e k n (snd (mn_Lookup e n path))"
    using L by (auto simp: mn_Lookup_def r split: mres.split)
  show "fst (mn_Lookup e n path) =
          (case entry_at e n path of None \<Rightarrow> MErr ErrNotFound | Some (entry, _) \<Rightarrow> MOk entry)"
    using L assms(2) by (auto simp: mn_Lookup_def r entry_at_def split: option.splits dest: load_forks_frame)
qed

section \<open>Adding\<close>

text \<open>
  After a value with the metadata \<open>md\<close> was put at \<open>path\<close>. Metadata that the node has is kept if
  there is none in the call.
\<close>

definition old_metadata :: "menv \<Rightarrow> mnode \<Rightarrow> bytes \<Rightarrow> metadata" where
  "old_metadata e n path = (case seek e n path of None \<Rightarrow> None | Some m \<Rightarrow> mn_metadata (dat m))"

definition added :: "menv \<Rightarrow> nat \<Rightarrow> mnode \<Rightarrow> bytes \<Rightarrow> bytes \<Rightarrow> metadata \<Rightarrow> mnode \<Rightarrow> bool" where
  "added e k n path entry md n' \<longleftrightarrow>
     manifest e k n' \<and> mn_forks n' \<noteq> None \<and>
     entry_at e n' = (entry_at e n)(path \<mapsto> (entry, if 0 < metadata_len md then md else old_metadata e n path))"

lemma manifest_usp:
  assumes "manifest e k n"
  shows "manifest e k (updateIsWithPathSeparator p n)"
proof (rule manifest_alike [OF assms])
  show "alike n (updateIsWithPathSeparator p n)" by (simp add: alike_def)
  show "mn_refBytesSize (dat (updateIsWithPathSeparator p n)) \<in> {0, k}"
    using assms by (cases rule: manifest.cases) simp
qed

lemma entry_at_usp: "manifest e k n \<Longrightarrow> entry_at e (updateIsWithPathSeparator p n) = entry_at e n"
  by (rule ext, rule entry_at_alike) (auto simp: alike_def)

lemma added_usp: "added e k n path entry md n' \<Longrightarrow> added e k n path entry md (updateIsWithPathSeparator p n')"
  using entry_at_usp [of e k n' p] by (simp add: added_def manifest_usp)

lemma graft:
  assumes n: "manifest e k n" "mn_forks n \<noteq> None" and path: "path \<noteq> []" "has_prefix pre path"
    and pre: "pre \<noteq> []" "length pre \<le> nodePrefixMaxSize"
    and added: "added e k nn (drop (length pre) path) entry md nn'"
    and below: "\<And>q. q \<noteq> path \<Longrightarrow> q \<noteq> [] \<Longrightarrow> hd q = hd path \<Longrightarrow>
       entry_at e n q = (if has_prefix pre q then entry_at e nn (drop (length pre) q) else None)"
    and md: "old_metadata e nn (drop (length pre) path) = old_metadata e n path"
  shows "\<exists>n'. assign_fork (hd path) (Fork pre nn') n = (MOk (), n') \<and> added e k n path entry md n'"
proof -
  let ?n = "makeEdge (put_fork (hd path) (Fork pre nn') n)"
  have hd: "hd pre = hd path" using has_prefix_hd [OF path(2) pre(1)] by simp
  have "manifest e k ?n"
    using n pre hd added by (auto simp: added_def intro!: manifest_put)
  moreover have "entry_at e ?n q =
      ((entry_at e n)(path \<mapsto> (entry, if 0 < metadata_len md then md else old_metadata e n path))) q" for q
  proof (cases "q \<noteq> [] \<and> hd q = hd path")
    case True
    have "drop (length pre) q = drop (length pre) path \<longleftrightarrow> q = path" if "has_prefix pre q"
      by (metis has_prefix_split path(2) that)
    with True n added below [of q] path md show ?thesis
      by (auto simp: entry_at_put added_def)
  next
    case False
    with n path show ?thesis by (auto simp: entry_at_put)
  qed
  then have "entry_at e ?n =
      (entry_at e n)(path \<mapsto> (entry, if 0 < metadata_len md then md else old_metadata e n path))" by (rule ext)
  ultimately have "added e k n path entry md ?n" using n(2) unfolding added_def by simp
  then show ?thesis using n(2) by (simp add: assign_fork_def)
qed

text \<open>The parts of \<open>Add\<close>.\<close>

lemma add_size_ok:
  assumes "mn_refBytesSize (dat n) \<in> {0, k}" "length entry \<in> {0, k}" "k \<le> 256"
  obtains n0 where "add_size entry n = (None, n0)" "alike n n0" "mn_refBytesSize (dat n0) \<in> {0, k}"
proof (rule that [of "snd (add_size entry n)"])
  show "add_size entry n = (None, snd (add_size entry n))" using assms by (auto simp: add_size_def)
  show "alike n (snd (add_size entry n))" by (simp add: add_size_def alike_def IsValueType_on_dat)
  show "mn_refBytesSize (dat (snd (add_size entry n))) \<in> {0, k}"
    using assms(1,2) by (cases "entry = []"; cases "mn_refBytesSize (dat n) = 0") (simp_all add: add_size_def)
qed

lemma entry_at_cong_mem:
  assumes "mn_forks n = mn_forks m" "mn_forks m \<noteq> None" "mn_entry (dat n) = mn_entry (dat m)"
    "mn_metadata (dat n) = mn_metadata (dat m)" "IsValueType n = IsValueType m"
  shows "entry_at e n = entry_at e m"
proof
  fix q
  show "entry_at e n q = entry_at e m q"
    using assms by (cases "q = []") (simp_all add: entry_at_mem entry_at_Nil_mem fork_at_def)
qed

lemma add_load_ok:
  assumes "manifest e k n"
  obtains n1 where "add_load e n = (MOk (), n1)" "mn_forks n1 \<noteq> None" "manifest e k n1"
    "entry_at e n1 = entry_at e n" "\<And>q. q \<noteq> [] \<Longrightarrow> seek e n1 q = seek e n q"
proof (cases "mn_forks n = None")
  case True
  obtain m where m: "load_forks e n = (MOk (), m)" "mn_forks m \<noteq> None" "manifest e k m"
    using assms by (rule manifest_load)
  let ?n1 = "on_dat (\<lambda>d. d\<lparr>mn_ref := None\<rparr>) m"
  have f: "fork_at ?n1 = fork_at m" by (simp add: fun_eq_iff)
  show thesis
  proof (rule that [of ?n1])
    show "add_load e n = (MOk (), ?n1)" using m(1) True by (simp add: add_load_def load_forks_def)
    show "mn_forks ?n1 \<noteq> None" using m(2) by simp
    show "manifest e k ?n1" using m(2,3) f by (simp add: manifest_mem)
    have "entry_at e ?n1 = entry_at e m" using m(2) by (intro entry_at_cong_mem) (auto simp: IsValueType_def)
    then show "entry_at e ?n1 = entry_at e n" using entry_at_load [OF m(1,2)] by (simp add: fun_eq_iff)
    show "seek e ?n1 q = seek e n q" if "q \<noteq> []" for q
      using that m(2) f by (simp add: seek_load [OF m(1,2)] seek_mem)
  qed
next
  case False
  with assms that [of n] show thesis by (simp add: add_load_def)
qed

lemma new_child_fields [simp]:
  "mn_refBytesSize (dat (new_child n)) = mn_refBytesSize (dat n)" "\<not> IsValueType (new_child n)"
  "mn_metadata (dat (new_child n)) = None" "mn_ref (dat (new_child n)) = None"
  "fork_at (new_child n) b = None"
  by (simp_all add: new_child_def Let_def SetObfuscationKey_def mn_New_def zero_ndata_def
      IsValueType_def nodeTypeValue_def fork_at_def)

lemma entry_at_new_child [simp]: "entry_at e (new_child n) q = None"
  by (cases "q = []") (simp_all add: entry_at_mem entry_at_Nil_mem)

lemma seek_new_child [simp]: "q \<noteq> [] \<Longrightarrow> seek e (new_child n) q = None"
  by (simp add: seek_mem)

lemma manifest_new_child: "mn_refBytesSize (dat n) \<in> {0, k} \<Longrightarrow> manifest e k (new_child n)"
  by (simp add: manifest_mem)

lemma manifest_size: "manifest e k n \<Longrightarrow> mn_refBytesSize (dat n) \<in> {0, k}"
  by (auto elim: manifest.cases)

lemma put_value_fields [simp]:
  "mn_forks (put_value entry md n) = mn_forks n" "IsValueType (put_value entry md n)"
  "mn_entry (dat (put_value entry md n)) = entry"
  "mn_metadata (dat (put_value entry md n)) = (if 0 < metadata_len md then md else mn_metadata (dat n))"
  "mn_refBytesSize (dat (put_value entry md n)) = mn_refBytesSize (dat n)"
  by (simp_all add: put_value_def Let_def IsValueType_on_dat)

lemma added_value:
  assumes "manifest e k n" "mn_forks n \<noteq> None" "mn_forks n' = mn_forks n" "IsValueType n'"
    "mn_entry (dat n') = entry" "mn_refBytesSize (dat n') = mn_refBytesSize (dat n)"
    "mn_metadata (dat n') = (if 0 < metadata_len md then md else mn_metadata (dat n))"
  shows "added e k n [] entry md n'"
proof -
  have f: "fork_at n' = fork_at n" using assms(3) by (simp add: fork_at_def fun_eq_iff)
  have "manifest e k n'" using assms(1-3,6) f by (simp add: manifest_mem)
  moreover have "entry_at e n' q =
      ((entry_at e n)([] \<mapsto> (entry, if 0 < metadata_len md then md else old_metadata e n []))) q" for q
    using assms f by (cases "q = []") (simp_all add: entry_at_mem entry_at_Nil_mem old_metadata_def)
  then have "entry_at e n' =
      (entry_at e n)([] \<mapsto> (entry, if 0 < metadata_len md then md else old_metadata e n []))" by (rule ext)
  ultimately show ?thesis using assms(2,3) unfolding added_def by simp
qed

text \<open>The node that takes the place of a split fork.\<close>

lemma split_node_fields [simp]:
  "IsValueType (split_node n f rest v) = v" "mn_metadata (dat (split_node n f rest v)) = None"
  "mn_refBytesSize (dat (split_node n f rest v)) = mn_refBytesSize (dat n)"
  "fork_at (split_node n f rest v) b =
     (if b = hd rest then Some (Fork rest (updateIsWithPathSeparator rest (mf_node f))) else None)"
  by (auto simp: split_node_def Let_def)

lemma manifest_split_node:
  assumes "manifest e k n" "manifest e k (mf_node f)" "rest \<noteq> []" "length rest \<le> nodePrefixMaxSize"
  shows "manifest e k (split_node n f rest v)"
  using assms manifest_usp manifest_size [OF assms(1)] by (simp add: manifest_mem)

lemma split_below:
  assumes n: "manifest e k n" "mn_forks n \<noteq> None" "fork_at n (hd path) = Some f"
    and f: "mf_prefix f = c @ rest" "rest \<noteq> []" "c \<noteq> []" "has_prefix c path"
    and q: "q \<noteq> path" "q \<noteq> []" "hd q = hd path"
  shows "entry_at e n q =
    (if has_prefix c q then entry_at e (split_node n f rest (length path = length c)) (drop (length c) q) else None)"
proof (cases "has_prefix c q")
  case True
  note m = manifest_fork [OF n(1,3)]
  show ?thesis
  proof (cases "drop (length c) q = []")
    case r: True
    then have "q = c" using has_prefix_split [OF True] by simp
    with q f(4) have "length path \<noteq> length c" using has_prefix_split [OF f(4)] by auto
    with r True n q f show ?thesis by (simp add: entry_at_mem entry_at_Nil_mem has_prefix_append_iff)
  next
    case False
    with True n q f m show ?thesis
      by (auto simp: entry_at_mem has_prefix_append_iff entry_at_usp add.commute dest: has_prefix_hd)
  qed
next
  case False
  with n q f show ?thesis by (simp add: entry_at_mem has_prefix_append_iff)
qed

lemma seek_alike:
  assumes "manifest e k n" "alike n m" "q \<noteq> []"
  shows "seek e m q = seek e n q"
proof -
  obtain n1 where n1: "load_forks e n = (MOk (), n1)" "mn_forks n1 \<noteq> None"
    using assms(1) by (rule manifest_load)
  obtain m1 where m1: "load_forks e m = (MOk (), m1)" "alike n1 m1"
    using n1(1) assms(2) by (rule load_alike)
  then have mem: "mn_forks m1 \<noteq> None" using n1 by (simp add: alike_def)
  have "fork_at m1 = fork_at n1" using m1(2) by (simp add: alike_def fork_at_def fun_eq_iff)
  with assms(3) n1(2) mem show ?thesis
    by (simp add: seek_load [OF n1] seek_load [OF m1(1) mem] seek_mem)
qed

lemma add_none:
  assumes n: "manifest e k n" "mn_forks n \<noteq> None" "fork_at n (hd path) = None" and path: "path \<noteq> []"
    and pre: "pre \<noteq> []" "length pre \<le> nodePrefixMaxSize" "has_prefix pre path"
    and nn: "added e k (new_child n) (drop (length pre) path) entry md nn'"
  shows "\<exists>n'. assign_fork (hd path) (Fork pre (updateIsWithPathSeparator pre nn')) n = (MOk (), n') \<and>
           added e k n path entry md n'"
proof (rule graft [OF n(1,2) path pre(3,1,2) added_usp [OF nn]])
  fix q
  assume "q \<noteq> path" "q \<noteq> []" "hd q = hd path"
  then show "entry_at e n q =
      (if has_prefix pre q then entry_at e (new_child n) (drop (length pre) q) else None)"
    using n by (simp add: entry_at_mem)
next
  show "old_metadata e (new_child n) (drop (length pre) path) = old_metadata e n path"
    using n path by (cases "drop (length pre) path = []") (simp_all add: old_metadata_def seek_mem)
qed

text \<open>The node an existing fork hands the rest of the path to.\<close>

definition add_target :: "mnode \<Rightarrow> mfork \<Rightarrow> bytes \<Rightarrow> mnode" where
  "add_target n f path =
     (let c = common (mf_prefix f) path; rest = drop (length c) (mf_prefix f)
      in if 0 < length rest then split_node n f rest (length path = length c) else mf_node f)"

lemma add_target_cases:
  assumes n: "manifest e k n" "mn_forks n \<noteq> None" "fork_at n (hd path) = Some f" and path: "path \<noteq> []"
  obtains (whole) "common (mf_prefix f) path = mf_prefix f" "has_prefix (mf_prefix f) path"
      "add_target n f path = mf_node f"
    | (split) c rest where "common (mf_prefix f) path = c" "mf_prefix f = c @ rest" "rest \<noteq> []" "c \<noteq> []"
      "has_prefix c path" "\<not> has_prefix (mf_prefix f) path"
      "add_target n f path = split_node n f rest (length path = length c)"
      "drop (length c) path = [] \<or> hd (drop (length c) path) \<noteq> hd rest"
proof (cases "has_prefix (mf_prefix f) path")
  case True
  then have "length (common (mf_prefix f) path) = length (mf_prefix f)" by (simp add: common_full)
  with common_prefix_l [of "mf_prefix f" path] have "common (mf_prefix f) path = mf_prefix f" by simp
  with True whole show thesis by (simp add: add_target_def)
next
  case False
  let ?c = "common (mf_prefix f) path"
  let ?rest = "drop (length ?c) (mf_prefix f)"
  note m = manifest_fork [OF n(1,3)]
  have eq: "mf_prefix f = ?c @ ?rest" using has_prefix_split [OF has_prefix_common(1)] by simp
  have ne: "?rest \<noteq> []" using False common_full [of "mf_prefix f" path] length_common(1) [of "mf_prefix f" path] by simp
  show thesis
  proof (rule split [OF refl eq ne])
    show "?c \<noteq> []" using m(1,2) path by (simp add: common_Nil)
    show "has_prefix ?c path" by (rule has_prefix_common)
    show "\<not> has_prefix (mf_prefix f) path" by (rule False)
    show "add_target n f path = split_node n f ?rest (length path = length ?c)"
      using ne by (simp add: add_target_def Let_def)
    show "drop (length ?c) path = [] \<or> hd (drop (length ?c) path) \<noteq> hd ?rest"
      using common_maximal [OF ne] by fastforce
  qed
qed

lemma add_target_ok:
  assumes n: "manifest e k n" "mn_forks n \<noteq> None" "fork_at n (hd path) = Some f" and path: "path \<noteq> []"
    and mem: "\<And>m. seek e n path = Some m \<Longrightarrow> mn_forks m \<noteq> None"
  defines "l \<equiv> length (common (mf_prefix f) path)"
  shows "manifest e k (updateIsWithPathSeparator path (add_target n f path)) \<and>
    (\<forall>m. seek e (updateIsWithPathSeparator path (add_target n f path)) (drop l path) = Some m \<longrightarrow>
         mn_forks m \<noteq> None)"
  using n path
proof (cases rule: add_target_cases)
  case whole
  note m = manifest_fork [OF n(1,3)]
  have s: "seek e (mf_node f) (drop l path) = seek e n path"
    using whole n path by (simp add: seek_mem l_def)
  have a: "alike (mf_node f) (updateIsWithPathSeparator path (mf_node f))" by (simp add: alike_def)
  show ?thesis
    using s mem manifest_usp [OF m(4)] whole seek_alike [OF m(4) a, of "drop l path"]
    by (cases "drop l path = []") auto
next
  case (split c rest)
  note m = manifest_fork [OF n(1,3)]
  have "manifest e k (add_target n f path)"
    using split m n by (auto intro!: manifest_split_node)
  with split show ?thesis
    by (cases "drop l path = []") (auto simp: manifest_usp seek_mem l_def)
qed

lemma add_some:
  assumes n: "manifest e k n" "mn_forks n \<noteq> None" "fork_at n (hd path) = Some f" and path: "path \<noteq> []"
    and nn: "added e k (updateIsWithPathSeparator path (add_target n f path))
               (drop (length (common (mf_prefix f) path)) path) entry md nn'"
  shows "\<exists>n'. assign_fork (hd path) (Fork (common (mf_prefix f) path) nn') n = (MOk (), n') \<and>
           added e k n path entry md n'"
  using n path
proof (cases rule: add_target_cases)
  case whole
  note m = manifest_fork [OF n(1,3)]
  have a: "alike (mf_node f) (updateIsWithPathSeparator path (mf_node f))" by (simp add: alike_def)
  note nn' = nn [unfolded whole(1,3)]
  show ?thesis
    unfolding whole(1)
  proof (rule graft [OF n(1,2) path whole(2) m(1,3) nn'])
    show "entry_at e n q = (if has_prefix (mf_prefix f) q
        then entry_at e (updateIsWithPathSeparator path (mf_node f)) (drop (length (mf_prefix f)) q) else None)"
      if "q \<noteq> path" "q \<noteq> []" "hd q = hd path" for q
      using that n entry_at_usp [OF m(4)] by (simp add: entry_at_mem)
    show "old_metadata e (updateIsWithPathSeparator path (mf_node f)) (drop (length (mf_prefix f)) path) =
        old_metadata e n path"
      using whole n path seek_alike [OF m(4) a]
      by (cases "drop (length (mf_prefix f)) path = []") (simp_all add: old_metadata_def seek_mem)
  qed
next
  case (split c rest)
  note m = manifest_fork [OF n(1,3)]
  note nn' = nn [unfolded split(1,7)]
  have t: "manifest e k (split_node n f rest (length path = length c))"
    using split m n by (auto intro!: manifest_split_node)
  show ?thesis
    unfolding split(1)
  proof (rule graft [OF n(1,2) path split(5,4) _ nn'])
    show "length c \<le> nodePrefixMaxSize" using m(3) split(2) by simp
    show "entry_at e n q = (if has_prefix c q
        then entry_at e (updateIsWithPathSeparator path (split_node n f rest (length path = length c)))
               (drop (length c) q) else None)"
      if "q \<noteq> path" "q \<noteq> []" "hd q = hd path" for q
      using split_below [OF n split(2-5) that] entry_at_usp [OF t] by simp
    show "old_metadata e (updateIsWithPathSeparator path (split_node n f rest (length path = length c)))
        (drop (length c) path) = old_metadata e n path"
      using split n path
      by (cases "drop (length c) path = []") (auto simp: old_metadata_def seek_mem)
  qed
qed

text \<open>
  \<open>Add\<close> succeeds and updates the map, if the entry has the size of the manifest and the node at the
  path, if there is one, is in memory.
\<close>

lemma mn_Add_added:
  assumes "manifest e k n" "length entry \<in> {0, k}" "k \<le> 256"
    and "\<And>m. seek e n path = Some m \<Longrightarrow> mn_forks m \<noteq> None"
  shows "\<exists>n'. mn_Add e n path entry md = (MOk (), n') \<and> added e k n path entry md n'"
  using assms
proof (induction e n path entry md rule: mn_Add.induct)
  case (1 e n path entry md)
  obtain n0 where n0: "add_size entry n = (None, n0)" "alike n n0" "mn_refBytesSize (dat n0) \<in> {0, k}"
    using manifest_size [OF "1.prems"(1)] "1.prems"(2,3) by (rule add_size_ok)
  have m0: "manifest e k n0" by (rule manifest_alike [OF "1.prems"(1) n0(2,3)])
  have e0: "entry_at e n0 = entry_at e n" using entry_at_alike [OF "1.prems"(1) n0(2)] by (simp add: fun_eq_iff)
  show ?case
  proof (cases "path = []")
    case True
    have mem: "mn_forks n \<noteq> None" "mn_forks n0 = mn_forks n" "mn_metadata (dat n0) = mn_metadata (dat n)"
      using "1.prems"(4) [of n] True n0(2) by (auto simp: alike_def)
    have "added e k n0 [] entry md (add_here entry md n0)"
      using m0 mem by (intro added_value) (auto simp: add_here_def IsValueType_on_dat)
    then have "added e k n [] entry md (add_here entry md n0)"
      using mem(3) e0 by (simp add: added_def old_metadata_def)
    with True n0(1) show ?thesis by (simp add: mn_Add.simps)
  next
    case False
    obtain n1 where n1: "add_load e n0 = (MOk (), n1)" "mn_forks n1 \<noteq> None" "manifest e k n1"
      "entry_at e n1 = entry_at e n0" "\<And>q. q \<noteq> [] \<Longrightarrow> seek e n1 q = seek e n0 q"
      using m0 by (rule add_load_ok) blast
    have s0: "seek e n0 path = seek e n path" by (rule seek_alike [OF "1.prems"(1) n0(2) False])
    have lift: "added e k n1 path entry md n' \<Longrightarrow> added e k n path entry md n'" for n'
      using n1(4) n1(5) [of path] False s0 e0 by (simp add: added_def old_metadata_def)
    have mem: "seek e n1 path = Some m \<Longrightarrow> mn_forks m \<noteq> None" for m
      using "1.prems"(4) [of m] n1(5) [OF False] s0 by simp
    show ?thesis
    proof (cases "fork_at n1 (hd path)")
      case None
      have c: "manifest e k (new_child n1)" by (rule manifest_new_child [OF manifest_size [OF n1(3)]])
      show ?thesis
      proof (cases "nodePrefixMaxSize < length path")
        case long: True
        let ?rest = "drop nodePrefixMaxSize path"
        have "\<exists>nn. mn_Add e (new_child n1) ?rest entry md = (MOk (), nn) \<and> added e k (new_child n1) ?rest entry md nn"
          using "1.IH"(1) [OF n0(1) [symmetric] refl False n1(1) [symmetric] refl None long refl refl c "1.prems"(2,3)]
            long by simp
        then obtain nn where nn: "mn_Add e (new_child n1) ?rest entry md = (MOk (), nn)"
          "added e k (new_child n1) ?rest entry md nn" by blast
        have "has_prefix (take nodePrefixMaxSize path) path" using long by (simp add: has_prefix_def)
        with add_none [OF n1(3,2) None False, of "take nodePrefixMaxSize path" entry md nn] nn long False
        obtain n' where "assign_fork (hd path) (Fork (take nodePrefixMaxSize path)
            (updateIsWithPathSeparator (take nodePrefixMaxSize path) nn)) n1 = (MOk (), n')"
          "added e k n1 path entry md n'"
          by (auto simp: nodePrefixMaxSize_def nodeForkPreReferenceSize_def nodeForkHeaderSize_def)
        with n0(1) n1(1) False None long nn(1) lift show ?thesis
          by (simp add: mn_Add.simps [of e n] Let_def)
      next
        case short: False
        have "added e k (new_child n1) [] entry md (put_value entry md (new_child n1))"
          using c by (intro added_value) auto
        with add_none [OF n1(3,2) None False False, of entry md] short
        obtain n' where "assign_fork (hd path)
            (Fork path (updateIsWithPathSeparator path (put_value entry md (new_child n1)))) n1 = (MOk (), n')"
          "added e k n1 path entry md n'" by (auto simp: has_prefix_def)
        with n0(1) n1(1) False None short lift show ?thesis
          by (simp add: mn_Add.simps [of e n])
      qed
    next
      case (Some f)
      let ?c = "common (mf_prefix f) path"
      note t = add_target_ok [OF n1(3,2) Some False mem]
      have nn: "add_target n1 f path =
          (if 0 < length (drop (length ?c) (mf_prefix f))
           then split_node n1 f (drop (length ?c) (mf_prefix f)) (length path = length ?c) else mf_node f)"
        by (simp add: add_target_def Let_def)
      obtain nn' where nn': "mn_Add e (updateIsWithPathSeparator path (add_target n1 f path))
            (drop (length ?c) path) entry md = (MOk (), nn')"
          "added e k (updateIsWithPathSeparator path (add_target n1 f path)) (drop (length ?c) path) entry md nn'"
        using "1.IH"(2) [OF n0(1) [symmetric] refl False n1(1) [symmetric] refl Some refl refl nn _ "1.prems"(2,3)] t
        by blast
      obtain n' where "assign_fork (hd path) (Fork ?c nn') n1 = (MOk (), n')" "added e k n1 path entry md n'"
        using add_some [OF n1(3,2) Some False nn'(2)] by blast
      with n0(1) n1(1) False Some nn'(1) lift show ?thesis
        by (simp add: mn_Add.simps [of e n] Let_def add_target_def)
    qed
  qed
qed

section \<open>Removing\<close>

lemma find_sub_Some_0: "find_sub sep s = Some 0 \<longleftrightarrow> has_prefix sep s"
  by (cases s) auto

definition del_fork :: "byte \<Rightarrow> mnode \<Rightarrow> mnode" where
  "del_fork b n = set_forks (map_option (AList.delete b) (mn_forks n)) n"

lemma del_fork_fields [simp]:
  "mn_forks (del_fork b n) = None \<longleftrightarrow> mn_forks n = None" "dat (del_fork b n) = dat n"
  "IsValueType (del_fork b n) = IsValueType n"
  "fork_at (del_fork b n) c = (if c = b then None else fork_at n c)"
  by (auto simp: del_fork_def fork_at_def IsValueType_def delete_conv' split: option.split)

lemma manifest_del_fork:
  "manifest e k n \<Longrightarrow> mn_forks n \<noteq> None \<Longrightarrow> manifest e k (del_fork b n)"
  by (auto simp: manifest_mem)

lemma entry_at_del_fork:
  "mn_forks n \<noteq> None \<Longrightarrow> entry_at e (del_fork b n) q = (if q \<noteq> [] \<and> hd q = b then None else entry_at e n q)"
  by (cases "q = []") (auto simp: entry_at_mem entry_at_Nil_mem)

definition without :: "bytes \<Rightarrow> (bytes \<Rightarrow> 'v option) \<Rightarrow> bytes \<Rightarrow> 'v option" where
  "without path m q = (if has_prefix path q then None else m q)"

text \<open>The fork at the end of the path is dropped, with everything below it.\<close>

lemma remove_leaf:
  assumes n: "manifest e k n" "mn_forks n \<noteq> None" "fork_at n (hd path) = Some f" "mf_prefix f = path"
  shows "manifest e k (del_fork (hd path) n)" "entry_at e (del_fork (hd path) n) = without path (entry_at e n)"
proof -
  note m = manifest_fork [OF n(1,3)]
  show "manifest e k (del_fork (hd path) n)" using n(1,2) by (rule manifest_del_fork)
  show "entry_at e (del_fork (hd path) n) = without path (entry_at e n)"
  proof
    fix q
    show "entry_at e (del_fork (hd path) n) q = without path (entry_at e n) q"
      using n m has_prefix_hd [of path q]
      by (auto simp: entry_at_del_fork without_def entry_at_mem)
  qed
qed

lemma remove_below:
  assumes n: "manifest e k n" "mn_forks n \<noteq> None" "fork_at n (hd path) = Some f" "has_prefix (mf_prefix f) path"
    and m: "manifest e k m" "entry_at e m = without (drop (length (mf_prefix f)) path) (entry_at e (mf_node f))"
  shows "manifest e k (put_fork (hd path) (Fork (mf_prefix f) m) n)"
    "entry_at e (put_fork (hd path) (Fork (mf_prefix f) m) n) = without path (entry_at e n)"
proof -
  note f = manifest_fork [OF n(1,3)]
  show "manifest e k (put_fork (hd path) (Fork (mf_prefix f) m) n)"
    using n m(1) f by (auto intro!: manifest_put)
  show "entry_at e (put_fork (hd path) (Fork (mf_prefix f) m) n) = without path (entry_at e n)"
  proof
    fix q
    have split: "has_prefix path q \<longleftrightarrow>
        has_prefix (mf_prefix f) q \<and> has_prefix (drop (length (mf_prefix f)) path) (drop (length (mf_prefix f)) q)"
      using has_prefix_append_iff [of "mf_prefix f" "drop (length (mf_prefix f)) path" q] has_prefix_split [OF n(4)]
      by simp
    show "entry_at e (put_fork (hd path) (Fork (mf_prefix f) m) n) q = without path (entry_at e n) q"
      using n m(2) f has_prefix_hd [of "mf_prefix f" q]
      by (auto simp: entry_at_put without_def split entry_at_mem)
  qed
qed

lemma mn_Remove_without:
  assumes "manifest e k n" "path \<noteq> []" "mn_Remove e n path = (r, n')"
  shows "manifest e k n' \<and>
    (if seek e n path = None then r = MErr ErrNotFound \<and> entry_at e n' = entry_at e n
     else r = MOk () \<and> entry_at e n' = without path (entry_at e n))"
  using assms
proof (induction e n path arbitrary: r n' rule: mn_Remove.induct)
  case (1 e n path)
  obtain n1 where n1: "load_forks e n = (MOk (), n1)" "mn_forks n1 \<noteq> None" "manifest e k n1"
    using "1.prems"(1) by (rule manifest_load)
  have e1: "entry_at e n1 = entry_at e n" using entry_at_load [OF n1(1,2)] by (simp add: fun_eq_iff)
  note sk = seek_load [OF n1(1,2) "1.prems"(2)] seek_mem [OF n1(2) "1.prems"(2)]
  show ?case
  proof (cases "fork_at n1 (hd path)")
    case None
    with "1.prems" n1 e1 sk show ?thesis by (simp add: mn_Remove.simps [of e n])
  next
    case (Some f)
    let ?rest = "drop (length (mf_prefix f)) path"
    consider "\<not> has_prefix (mf_prefix f) path" | "has_prefix (mf_prefix f) path" "?rest = []"
      | "has_prefix (mf_prefix f) path" "?rest \<noteq> []" by blast
    then show ?thesis
    proof cases
      case 1
      with "1.prems" n1 e1 sk Some show ?thesis
        by (simp add: mn_Remove.simps [of e n] find_sub_Some_0)
    next
      case 2
      have p: "mf_prefix f = path" using has_prefix_split [OF 2(1)] 2(2) by simp
      from 2 "1.prems" n1 sk Some have "r = MOk ()" "n' = del_fork (hd path) n1" "seek e n path \<noteq> None"
        by (simp_all add: mn_Remove.simps [of e n] find_sub_Some_0 del_fork_def)
      with remove_leaf [OF n1(3,2) Some p] e1 show ?thesis by simp
    next
      case 3
      obtain r' m where m: "mn_Remove e (mf_node f) ?rest = (r', m)" by force
      have eq: "r = r'" "n' = put_fork (hd path) (Fork (mf_prefix f) m) n1" "seek e n path = seek e (mf_node f) ?rest"
        using 3 "1.prems" n1 sk Some m by (simp_all add: mn_Remove.simps [of e n] find_sub_Some_0)
      note IH = "1.IH" [OF "1.prems"(2) n1(1) [symmetric] refl Some _ 3(2) manifest_fork(4) [OF n1(3) Some] 3(2) m]
      show ?thesis
      proof (cases "seek e (mf_node f) ?rest = None")
        case True
        with IH 3 have "r' = MErr ErrNotFound" "same_map e k (mf_node f) m"
          by (simp_all add: find_sub_Some_0 same_map_def)
        with same_map_put [OF n1(3,2) Some] eq True e1 show ?thesis by (simp add: same_map_def)
      next
        case False
        with IH 3 have "r' = MOk ()" "manifest e k m" "entry_at e m = without ?rest (entry_at e (mf_node f))"
          by (simp_all add: find_sub_Some_0)
        with remove_below [OF n1(3,2) Some 3(1)] eq False e1 show ?thesis by simp
      qed
    qed
  qed
qed

section \<open>HasPrefix\<close>

lemma seek_extend_mem:
  assumes "manifest e k n" "mn_forks n \<noteq> None" "path \<noteq> []"
  shows "(\<exists>s m. seek e n (path @ s) = Some m) \<longleftrightarrow>
    (\<exists>f. fork_at n (hd path) = Some f \<and>
       (if has_prefix (mf_prefix f) path
        then \<exists>s m. seek e (mf_node f) (drop (length (mf_prefix f)) path @ s) = Some m
        else has_prefix path (mf_prefix f)))"
proof (cases "fork_at n (hd path)")
  case None
  with assms show ?thesis by (simp add: seek_mem)
next
  case (Some f)
  have s: "seek e n (path @ s) = (if has_prefix (mf_prefix f) (path @ s)
      then seek e (mf_node f) (drop (length (mf_prefix f)) (path @ s)) else None)" for s
    using assms Some by (simp add: seek_mem)
  show ?thesis
  proof (cases "has_prefix (mf_prefix f) path")
    case True
    then have "length (mf_prefix f) \<le> length path" by (auto simp: has_prefix_def dest: arg_cong [where f = length])
    with True have "seek e n (path @ s) = seek e (mf_node f) (drop (length (mf_prefix f)) path @ s)" for s
      using s [of s] by (simp add: has_prefix_def)
    with True Some show ?thesis by simp
  next
    case False
    have "has_prefix path (mf_prefix f)" if "seek e n (path @ s) = Some m" for s m
      using that False s [of s] has_prefix_comparable [of "mf_prefix f" path s] by (auto split: if_splits)
    moreover have "\<exists>s m. seek e n (path @ s) = Some m" if "has_prefix path (mf_prefix f)"
    proof -
      have "path @ drop (length path) (mf_prefix f) = mf_prefix f" using that by (rule has_prefix_split)
      with s [of "drop (length path) (mf_prefix f)"] show ?thesis
        by (intro exI [of _ "drop (length path) (mf_prefix f)"]) (simp add: has_prefix_def)
    qed
    ultimately have "(\<exists>s m. seek e n (path @ s) = Some m) \<longleftrightarrow> has_prefix path (mf_prefix f)" by blast
    with Some False show ?thesis by simp
  qed
qed

lemma mn_HasPrefix_seek:
  assumes "manifest e k n" "mn_HasPrefix e n path = (r, n')"
  shows "same_map e k n n' \<and> r = MOk (\<exists>s m. seek e n (path @ s) = Some m)"
  using assms
proof (induction e n path arbitrary: r n' rule: mn_HasPrefix.induct)
  case (1 e n path)
  obtain n1 where n1: "load_forks e n = (MOk (), n1)" "mn_forks n1 \<noteq> None" "manifest e k n1"
    using "1.prems"(1) by (rule manifest_load)
  note same = same_map_load(1) [OF "1.prems"(1) n1(1)]
  show ?case
  proof (cases "path = []")
    case True
    with "1.prems"(2) n1 same show ?thesis
      by (auto simp: mn_HasPrefix.simps [of e n] intro: exI [of _ "[]"])
  next
    case ne: False
    have ext: "(\<exists>s m. seek e n (path @ s) = Some m) \<longleftrightarrow> (\<exists>s m. seek e n1 (path @ s) = Some m)"
      using ne by (simp add: seek_load [OF n1(1,2)])
    note ext' = seek_extend_mem [OF n1(3,2) ne]
    show ?thesis
    proof (cases "fork_at n1 (hd path)")
      case None
      with "1.prems"(2) n1 same ne ext ext' show ?thesis by (simp add: mn_HasPrefix.simps [of e n])
    next
      case (Some f)
      show ?thesis
      proof (cases "has_prefix (mf_prefix f) path")
        case pre: True
        then have c: "length (common (mf_prefix f) path) = length (mf_prefix f)" by (simp add: common_full)
        obtain r' m where m: "mn_HasPrefix e (mf_node f) (drop (length (mf_prefix f)) path) = (r', m)" by force
        have eq: "r = r'" "n' = put_fork (hd path) (Fork (mf_prefix f) m) n1"
          using "1.prems"(2) n1 ne Some c m by (simp_all add: mn_HasPrefix.simps [of e n path] Let_def)
        from "1.IH" [OF n1(1) [symmetric] refl ne Some refl c manifest_fork(4) [OF n1(3) Some]] m c
        have IH: "same_map e k (mf_node f) m"
          "r' = MOk (\<exists>s m. seek e (mf_node f) (drop (length (mf_prefix f)) path @ s) = Some m)" by auto
        from same_map_trans [OF same same_map_put [OF n1(3,2) Some IH(1)]] IH(2) ext ext' pre eq Some
        show ?thesis by simp
      next
        case False
        then have "length (common (mf_prefix f) path) \<noteq> length (mf_prefix f)" by (simp add: common_full)
        with "1.prems"(2) n1 ne False same ext ext' Some show ?thesis
          by (simp add: mn_HasPrefix.simps [of e n path] Let_def)
      qed
    qed
  qed
qed

end
