(* ===== verification/Mantaray_Codec.thy ===== *)
theory Mantaray_Codec
  imports Mantaray_Map
begin

text \<open>
  The serialisation of a node (\<open>marshal.go\<close>) is read back: \<open>UnmarshalBinary\<close> of what
  \<open>MarshalBinary\<close> wrote gives the entry, padded to the size of references, and for every fork its
  prefix and a node that has the type, the reference and the metadata of the one that was written.
\<close>

section \<open>Obfuscation is an involution\<close>

lemma length_encryptDecrypt [simp]: "length (encryptDecrypt input key) = length input"
  by (simp add: encryptDecrypt_def)

lemma encryptDecrypt_twice [simp]: "encryptDecrypt (encryptDecrypt input key) key = input"
  by (rule nth_equalityI) (simp_all add: encryptDecrypt_def xor.assoc)

lemma crypt_blocks_Nil [simp]: "crypt_blocks key [] = []"
  by (simp add: crypt_blocks.simps)

lemma length_crypt_blocks [simp]: "length (crypt_blocks key data) = length data"
proof (induction key data rule: crypt_blocks.induct)
  case (1 key data)
  then show ?case by (cases "data = []") (simp_all add: crypt_blocks.simps [of key data])
qed

lemma crypt_blocks_twice [simp]: "crypt_blocks key (crypt_blocks key data) = data"
proof (induction key data rule: crypt_blocks.induct)
  case (1 key data)
  show ?case
  proof (cases "data = []")
    case False
    let ?a = "encryptDecrypt (take nodeObfuscationKeySize data) key"
    let ?b = "crypt_blocks key (drop nodeObfuscationKeySize data)"
    have ab: "crypt_blocks key data = ?a @ ?b" using False by (subst crypt_blocks.simps) simp
    have ne: "?a @ ?b \<noteq> []" using False ab length_crypt_blocks [of key data] by (metis length_0_conv)
    have split: "take nodeObfuscationKeySize (?a @ ?b) = ?a" "drop nodeObfuscationKeySize (?a @ ?b) = ?b"
      by (cases "nodeObfuscationKeySize \<le> length data"; simp)+
    have "crypt_blocks key (?a @ ?b) = encryptDecrypt ?a key @ crypt_blocks key ?b"
      by (subst crypt_blocks.simps) (simp only: ne split if_False)
    then show ?thesis using 1 False ab by simp
  qed simp
qed

lemma length_crypt_data [simp]: "length (crypt_data key data) = length data"
  by (simp add: crypt_data_def)

lemma crypt_data_twice [simp]: "crypt_data key (crypt_data key data) = data"
  by (cases "nodeObfuscationKeySize \<le> length data") (simp_all add: crypt_data_def)

lemma take_crypt_data: "take nodeObfuscationKeySize (crypt_data key data) = take nodeObfuscationKeySize data"
  by (cases "nodeObfuscationKeySize \<le> length data") (simp_all add: crypt_data_def)

section \<open>The bit vector\<close>

lemma bb_getUint8_bit: "bb_getUint8 bits i \<longleftrightarrow> bit (bits ! unat (i div 8)) (unat (i mod 8))"
proof -
  let ?w = "drop_bit (unat (i mod 8)) (bits ! unat (i div 8))"
  have "?w AND 1 = (if odd ?w then 1 else 0)" by (simp add: and_one_eq mod2_eq_if)
  then show ?thesis by (simp add: bb_getUint8_def bit_iff_odd_drop_bit)
qed

lemma unat_byte_less: "unat b < 256" for b :: u8
proof -
  have "unat b < 2 ^ LENGTH(8)" by (rule unsigned_less)
  then show ?thesis by simp
qed

lemma byte_div_8: "unat b div 8 < 32" for b :: u8
  using unat_byte_less [of b] by simp

lemma byte_div_mod: "unat (i div 8) = unat i div 8" "unat (i mod 8) = unat i mod 8" for i :: u8
  by (simp_all add: unat_div unat_mod)

lemma length_bb_set [simp]: "length (bb_set bits b) = length bits"
  by (simp add: bb_set_def)

lemma bb_getUint8_set:
  assumes "length bits = 32"
  shows "bb_getUint8 (bb_set bits b) i \<longleftrightarrow> i = b \<or> bb_getUint8 bits i"
proof -
  note lt = byte_div_8 [of i] byte_div_8 [of b]
  have eq: "i = b \<longleftrightarrow> unat i div 8 = unat b div 8 \<and> unat i mod 8 = unat b mod 8"
    by (metis div_mult_mod_eq word_unat_eq_iff)
  show ?thesis
    using lt assms
    by (auto simp: bb_getUint8_bit byte_div_mod bb_set_def nth_list_update bit_or_iff bit_exp_iff eq)
qed

lemma index_bytes_get: "bb_getUint8 (index_bytes fs) i \<longleftrightarrow> i \<in> fst ` set fs"
  and length_index_bytes [simp]: "length (index_bytes fs) = 32"
proof -
  have z: "\<not> bb_getUint8 (replicate 32 0) i"
    by (simp add: bb_getUint8_bit byte_div_mod byte_div_8)
  have "length (foldl bb_set bits ks) = 32 \<and>
      (bb_getUint8 (foldl bb_set bits ks) i \<longleftrightarrow> i \<in> set ks \<or> bb_getUint8 bits i)"
    if "length bits = 32" for bits ks
    using that by (induction ks arbitrary: bits) (auto simp: bb_getUint8_set)
  from this [of "replicate 32 0" "map fst fs"] z
  show "bb_getUint8 (index_bytes fs) i \<longleftrightarrow> i \<in> fst ` set fs" "length (index_bytes fs) = 32"
    by (simp_all add: index_bytes_def)
qed

lemma set_all_bytes: "b \<in> set all_bytes"
proof -
  have "(of_nat (unat b) :: byte) \<in> of_nat ` {0..<256}" using unat_byte_less [of b] by (intro imageI) simp
  then show ?thesis by (simp add: all_bytes_def)
qed

lemma distinct_all_bytes: "distinct all_bytes"
proof -
  have "inj_on (of_nat :: nat \<Rightarrow> byte) {0..<256}"
    by (rule inj_onI) (metis atLeastLessThan_iff mod_less unat_byte_of_nat)
  then show ?thesis by (simp add: all_bytes_def distinct_map)
qed

section \<open>One fork\<close>

definition mn_stored :: "mfork \<Rightarrow> mfork" where
  "mn_stored f = Fork (mf_prefix f)
     (MNode (zero_ndata\<lparr>mn_type := mn_type (dat (mf_node f)), mn_ref := mn_ref (dat (mf_node f)),
                       mn_metadata := mn_metadata (dat (mf_node f))\<rparr>) None)"

text \<open>Metadata that is written and read back: it fits into the 16 bits of its size.\<close>

definition json_ok :: "menv \<Rightarrow> metadata \<Rightarrow> bool" where
  "json_ok e md \<longleftrightarrow> length (pad_json (json_Marshal e md)) \<le> 65535 \<and>
     json_Unmarshal e (pad_json (json_Marshal e md)) = Some md"

definition metadata_ok :: "menv \<Rightarrow> mnode \<Rightarrow> bool" where
  "metadata_ok e n \<longleftrightarrow>
     (if IsWithMetadataType n then json_ok e (mn_metadata (dat n)) else mn_metadata (dat n) = None)"

definition writable :: "menv \<Rightarrow> nat \<Rightarrow> mfork \<Rightarrow> bool" where
  "writable e k f \<longleftrightarrow> mf_prefix f \<noteq> [] \<and> length (mf_prefix f) \<le> nodePrefixMaxSize \<and>
     metadata_ok e (mf_node f) \<and> (\<exists>r. mn_ref (dat (mf_node f)) = Some r \<and> length r = k)"

lemma length_pad_json: "0 < length (pad_json js)"
  by (auto simp: pad_json_def Let_def nodeObfuscationKeySize_def nodeForkMetadataBytesSize_def)

lemma metadata_type: "nodeTypeIsWithMetadataType (mn_type (dat n)) \<longleftrightarrow> IsWithMetadataType n"
  by (simp add: nodeTypeIsWithMetadataType_def IsWithMetadataType_def)

definition fork_head :: "mfork \<Rightarrow> bytes" where
  "fork_head f = [mn_type (dat (mf_node f)), of_nat (length (mf_prefix f))]
     @ mf_prefix f @ replicate (30 - length (mf_prefix f)) 0 @ the (mn_ref (dat (mf_node f)))"

definition fork_tail :: "menv \<Rightarrow> mfork \<Rightarrow> bytes" where
  "fork_tail e f =
     (if IsWithMetadataType (mf_node f)
      then (let js = pad_json (json_Marshal e (mn_metadata (dat (mf_node f)))) in be_of_nat 2 (length js) @ js)
      else [])"

lemma fork_bytes_ok:
  assumes "writable e k f" "k < 256"
  shows "fork_bytes e f = Inr (fork_head f @ fork_tail e f)" "length (fork_head f) = 32 + k"
  using assms
  by (auto simp: fork_bytes_def Let_def writable_def fork_head_def fork_tail_def metadata_ok_def json_ok_def
      nodePrefixMaxSize_def nodeForkPreReferenceSize_def nodeForkHeaderSize_def copy_at_def)

lemma fork_head_prefix:
  assumes "writable e k f" "k < 256"
  shows "fork_head f ! 0 = mn_type (dat (mf_node f))" "unat (fork_head f ! 1) = length (mf_prefix f)"
    "slice 2 (2 + length (mf_prefix f)) (fork_head f @ t) = mf_prefix f"
    "drop 32 (fork_head f) = the (mn_ref (dat (mf_node f)))"
  using assms
  by (auto simp: writable_def fork_head_def slice_def unat_byte_of_nat
      nodePrefixMaxSize_def nodeForkPreReferenceSize_def nodeForkHeaderSize_def)

lemma read_fork02_ok:
  assumes w: "writable e k f" "k < 256" and data: "drop off data = fork_head f @ fork_tail e f @ rest"
    and off: "off \<le> length data"
  shows "read_fork02 e data k b (off, gs) =
    (MOk (), (off + length (fork_head f @ fork_tail e f), AList.update b (mn_stored f) gs))"
proof -
  note h = fork_bytes_ok(2) [OF w] fork_head_prefix [OF w]
  have len: "length data = off + length (fork_head f) + length (fork_tail e f) + length rest"
    using arg_cong [OF data, of length] off by simp
  have d0: "data ! off = mn_type (dat (mf_node f))"
    using nth_drop [OF off, of 0] h(1,2) data by (simp add: nth_append)
  have head: "slice off (off + (32 + k)) data = fork_head f" using data h(1) by (simp add: slice_def)
  have sizes: "nodeForkPreReferenceSize = 32" "nodeForkMetadataBytesSize = 2" "nodeForkHeaderSize = 2"
    by (simp_all add: nodeForkPreReferenceSize_def nodeForkMetadataBytesSize_def nodeForkHeaderSize_def)
  have pre: "length (mf_prefix f) \<noteq> 0" "\<not> nodePrefixMaxSize < length (mf_prefix f)"
    and ref: "mn_ref (dat (mf_node f)) = Some (the (mn_ref (dat (mf_node f))))"
    and lref: "length (the (mn_ref (dat (mf_node f)))) = k"
    using w(1) by (auto simp: writable_def)
  have le: "length (mf_prefix f) \<le> 30" using pre(2) by (simp add: nodePrefixMaxSize_def sizes)
  show ?thesis
  proof (cases "IsWithMetadataType (mf_node f)")
    case False
    then have md: "mn_metadata (dat (mf_node f)) = None" and tl: "fork_tail e f = []"
      using w(1) by (simp_all add: writable_def metadata_ok_def fork_tail_def)
    have "fork_fromBytes (fork_head f) = Some (mn_stored f)"
      using h pre ref md h(4) [of "[]"]
      by (simp add: fork_fromBytes_def Let_def mn_stored_def sizes NewNodeRef_def on_dat_def zero_ndata_def)
    with False tl head h(1) len d0 show ?thesis
      by (simp add: read_fork02_def Let_def metadata_type sizes)
  next
    case True
    define js where "js = pad_json (json_Marshal e (mn_metadata (dat (mf_node f))))"
    have tl: "fork_tail e f = be_of_nat 2 (length js) @ js" using True by (simp add: fork_tail_def js_def Let_def)
    have ok: "length js \<le> 65535" "json_Unmarshal e js = Some (mn_metadata (dat (mf_node f)))" "0 < length js"
      using w(1) True length_pad_json by (auto simp: writable_def metadata_ok_def json_ok_def js_def)
    have "drop (off + (32 + k)) data = fork_tail e f @ rest"
      using arg_cong [OF data, of "drop (32 + k)"] h(1) by (simp add: add.commute add.left_commute)
    then have msz: "be_to_nat (slice (off + (32 + k)) (off + (32 + k) + 2) data) = length js"
      using ok(1) by (simp add: slice_def tl)
    have all: "slice off (off + (32 + k + 2 + length js)) data = fork_head f @ fork_tail e f"
      using data h(1) by (simp add: slice_def tl)
    have "fork_fromBytes02 e (fork_head f @ fork_tail e f) k (length js) = Some (mn_stored f)"
      using h pre ref lref ok tl le
      by (simp add: fork_fromBytes02_def Let_def mn_stored_def sizes NewNodeRef_def on_dat_def zero_ndata_def
          nth_append slice_def)
    with True tl h(1) len d0 msz all ok show ?thesis
      by (simp add: read_fork02_def Let_def metadata_type sizes add.assoc)
  qed
qed

section \<open>All forks\<close>

definition all_writable :: "menv \<Rightarrow> nat \<Rightarrow> mforks \<Rightarrow> bool" where
  "all_writable e k fs \<longleftrightarrow> (\<forall>b f. map_of fs b = Some f \<longrightarrow> writable e k f)"

definition present :: "mforks \<Rightarrow> byte list \<Rightarrow> byte list" where
  "present fs is' = filter (\<lambda>i. i \<in> fst ` set fs) is'"

definition written :: "menv \<Rightarrow> mforks \<Rightarrow> byte list \<Rightarrow> bytes" where
  "written e fs is' = concat (map (\<lambda>i. fork_head (the (map_of fs i)) @ fork_tail e (the (map_of fs i))) (present fs is'))"

definition readback :: "mforks \<Rightarrow> byte list \<Rightarrow> mforks \<Rightarrow> mforks" where
  "readback fs is' gs = foldl (\<lambda>gs i. AList.update i (mn_stored (the (map_of fs i))) gs) gs (present fs is')"

lemma iter_marshal:
  assumes "all_writable e k fs" "k < 256"
  shows "iter_bytes is' (index_bytes fs) (marshal_fork e fs) acc = (MOk (), acc @ written e fs is')"
proof (induction is' arbitrary: acc)
  case (Cons i is')
  show ?case
  proof (cases "i \<in> fst ` set fs")
    case True
    then obtain f where f: "map_of fs i = Some f" by (cases "map_of fs i") (auto simp: map_of_eq_None_iff)
    with assms fork_bytes_ok(1) [of e k f] have "fork_bytes e f = Inr (fork_head f @ fork_tail e f)"
      by (auto simp: all_writable_def)
    with True f Cons show ?thesis
      by (simp add: index_bytes_get marshal_fork_def written_def present_def)
  qed (use Cons in \<open>simp add: index_bytes_get written_def present_def\<close>)
qed (simp add: written_def present_def)

lemma iter_unmarshal:
  assumes "all_writable e k fs" "k < 256" "drop off data = written e fs is'" "off \<le> length data"
  shows "iter_bytes is' (index_bytes fs) (read_fork02 e data k) (off, gs) =
    (MOk (), (length data, readback fs is' gs))"
  using assms(3,4)
proof (induction is' arbitrary: off gs)
  case (Cons i is')
  show ?case
  proof (cases "i \<in> fst ` set fs")
    case True
    then obtain f where f: "map_of fs i = Some f" by (cases "map_of fs i") (auto simp: map_of_eq_None_iff)
    with assms(1) have w: "writable e k f" by (auto simp: all_writable_def)
    let ?fb = "fork_head f @ fork_tail e f"
    have d: "drop off data = fork_head f @ fork_tail e f @ written e fs is'"
      using Cons.prems(1) True f by (simp add: written_def present_def)
    have "drop (off + length ?fb) data = written e fs is'"
      using arg_cong [OF d, of "drop (length ?fb)"] by (simp add: add.commute)
    moreover have "off + length ?fb \<le> length data"
      using arg_cong [OF d, of length] Cons.prems(2) by simp
    ultimately have "iter_bytes is' (index_bytes fs) (read_fork02 e data k)
        (off + length ?fb, AList.update i (mn_stored f) gs) =
        (MOk (), (length data, readback fs is' (AList.update i (mn_stored f) gs)))" by (rule Cons.IH)
    with True f read_fork02_ok [OF w assms(2) d Cons.prems(2), of i gs] show ?thesis
      by (simp add: index_bytes_get readback_def present_def)
  qed (use Cons in \<open>simp add: index_bytes_get written_def present_def readback_def\<close>)
qed (simp add: written_def present_def readback_def)

lemma map_of_readback:
  "map_of (readback fs is' gs) b =
     (if b \<in> set (present fs is') then Some (mn_stored (the (map_of fs b))) else map_of gs b)"
proof -
  have "map_of (foldl (\<lambda>gs i. AList.update i (mn_stored (the (map_of fs i))) gs) gs ys) b =
      (if b \<in> set ys then Some (mn_stored (the (map_of fs b))) else map_of gs b)" for ys gs
    by (induction ys arbitrary: gs) (auto simp: update_conv')
  then show ?thesis by (simp add: readback_def)
qed

lemma fork_readback: "map_of (readback fs all_bytes []) b = map_option mn_stored (map_of fs b)"
  by (cases "map_of fs b")
    (auto simp: map_of_readback present_def set_all_bytes map_of_eq_None_iff dest: map_of_SomeD intro: rev_image_eqI)

lemma distinct_readback: "distinct (map fst (readback fs all_bytes []))"
proof -
  have "distinct (map fst gs) \<Longrightarrow>
      distinct (map fst (foldl (\<lambda>gs i. AList.update i (mn_stored (the (map_of fs i))) gs) gs ys))" for ys gs
    by (induction ys arbitrary: gs) (auto simp: distinct_update)
  then show ?thesis by (simp add: readback_def)
qed

section \<open>A node\<close>

definition pad_entry :: "nat \<Rightarrow> bytes \<Rightarrow> bytes" where
  "pad_entry k entry = copy_at (replicate k 0) 0 entry"

lemma pad_entry_id: "length entry = k \<Longrightarrow> pad_entry k entry = entry"
  by (simp add: pad_entry_def)

lemma length_pad_entry [simp]: "length (pad_entry k entry) = k"
  by (simp add: pad_entry_def)

definition with_key :: "bytes \<Rightarrow> mnode \<Rightarrow> mnode" where
  "with_key rnd n = (if mn_key (dat n) = [] then on_dat (\<lambda>d. d\<lparr>mn_key := rnd\<rparr>) n else n)"

text \<open>What \<open>MarshalBinary\<close> writes, before the obfuscation.\<close>

definition plain :: "menv \<Rightarrow> mnode \<Rightarrow> mforks \<Rightarrow> bytes" where
  "plain e n fs = mn_key (dat n) @ version02HashBytes @ [of_nat (mn_refBytesSize (dat n))]
     @ pad_entry (mn_refBytesSize (dat n)) (mn_entry (dat n)) @ index_bytes fs @ written e fs all_bytes"

lemma MarshalBinary_ok:
  assumes "mn_forks n = Some fs" "all_writable e (mn_refBytesSize (dat n)) fs" "mn_refBytesSize (dat n) < 256"
    and key: "length (mn_key (dat n)) \<in> {0, 32}" "length rnd = 32"
  shows "MarshalBinary e rnd n =
    (MOk (crypt_data (mn_key (dat (with_key rnd n))) (plain e (with_key rnd n) fs)), with_key rnd n)"
proof -
  let ?n = "with_key rnd n"
  have n: "mn_forks ?n = Some fs" "mn_refBytesSize (dat ?n) = mn_refBytesSize (dat n)"
    "length (mn_key (dat ?n)) = 32" "mn_key (dat ?n) \<noteq> []"
    using assms by (auto simp: with_key_def)
  have w: "(if mn_key (dat n) = [] then on_dat (\<lambda>d. d\<lparr>mn_key := copy_at (replicate nodeObfuscationKeySize 0) 0 rnd\<rparr>) n else n) = ?n"
    using key(2) by (simp add: with_key_def nodeObfuscationKeySize_def)
  note it = iter_marshal [OF assms(2,3), of all_bytes]
  show ?thesis
    using n assms(1) it
    by (simp add: MarshalBinary_def w Let_def bb_iter_def plain_def pad_entry_def nodeObfuscationKeySize_def)
qed

lemma UnmarshalBinary_ok:
  assumes fs: "all_writable e (mn_refBytesSize (dat n)) fs" "mn_refBytesSize (dat n) < 256"
    and key: "length (mn_key (dat n)) = 32"
  obtains m' where "UnmarshalBinary e (crypt_data (mn_key (dat n)) (plain e n fs)) m = (MOk (), m')"
    "mn_forks m' = Some (readback fs all_bytes [])"
    "mn_entry (dat m') = pad_entry (mn_refBytesSize (dat n)) (mn_entry (dat n))"
    "mn_key (dat m') = mn_key (dat n)"
proof -
  let ?k = "mn_refBytesSize (dat n)"
  let ?key = "mn_key (dat n)"
  let ?p = "plain e n fs"
  let ?e = "pad_entry ?k (mn_entry (dat n))"
  have v: "length version02HashBytes = 31" by (simp add: version02HashBytes_def)
  have p: "?p = ?key @ version02HashBytes @ [of_nat ?k] @ ?e @ index_bytes fs @ written e fs all_bytes"
    by (simp add: plain_def)
  have take_key: "take 32 (crypt_data ?key ?p) = ?key"
    using take_crypt_data [of ?key ?p] key by (simp add: nodeObfuscationKeySize_def p)
  have len: "length ?p = 96 + ?k + length (written e fs all_bytes)" using key v by (simp add: p)
  have sizes: "nodeObfuscationKeySize = 32" "versionHashSize = 31" "nodeHeaderSize = 64"
    by (simp_all add: nodeHeaderSize_def nodeObfuscationKeySize_def versionHashSize_def)
  have v2: "slice 32 63 ?p = version02HashBytes" "version02HashBytes \<noteq> version01HashBytes"
    using key v by (simp_all add: p slice_def) (simp add: version01HashBytes_def version02HashBytes_def)
  have sz: "unat (?p ! 63) = ?k" using key v fs(2) by (simp add: p nth_append unat_byte_of_nat)
  have en: "slice 64 (64 + ?k) ?p = ?e" using key v by (simp add: p slice_def)
  have bb: "bb_fromBytes (drop (64 + ?k) ?p) = index_bytes fs"
    using key v by (simp add: p bb_fromBytes_def copy_at_def)
  have "drop (96 + ?k) ?p = written e fs all_bytes" using key v by (simp add: p drop_Cons')
  from iter_unmarshal [OF fs this] len
  have it: "bb_iter (index_bytes fs) (read_fork02 e ?p ?k) (96 + ?k, []) =
      (MOk (), (length ?p, readback fs all_bytes []))" by (simp add: bb_iter_def)
  define w where "w = on_dat (\<lambda>d. d\<lparr>mn_entry := ?e\<rparr>) (on_dat (\<lambda>d. d\<lparr>mn_key := ?key\<rparr>) m)"
  define w' where "w' = (if slice (64 + ?k) (96 + ?k) ?p \<noteq> replicate 32 0 \<and> \<not> IsEdgeType w then makeEdge w else w)"
  have u: "UnmarshalBinary e (crypt_data ?key ?p) m = (MOk (), set_forks (Some (readback fs all_bytes [])) w')"
    using len take_key v2 sz en bb it
    by (simp add: UnmarshalBinary_def Let_def sizes w_def w'_def add.commute add.left_commute)
  have "mn_entry (dat w') = ?e" "mn_key (dat w') = ?key" by (simp_all add: w'_def w_def)
  with that [OF u] show thesis by simp
qed

text \<open>What a load reads does not depend on the node it is read into.\<close>

lemma Unmarshal_same:
  assumes "UnmarshalBinary e raw n = (MOk (), n')" "UnmarshalBinary e raw m = (MOk (), m')"
  shows "mn_forks n' = mn_forks m'" "mn_entry (dat n') = mn_entry (dat m')" "mn_key (dat n') = mn_key (dat m')"
  using assms
  by (auto simp: UnmarshalBinary_def Let_def makeEdge_def or_type_def split: if_splits prod.splits)

end
