(* ===== verification/Mantaray_Save.thy ===== *)
theory Mantaray_Save
  imports Mantaray_Codec
begin

text \<open>
  Saving a manifest (\<open>persist.go\<close>). A node is \<open>frozen\<close> if it is only known by a reference under
  which the storage has it, and everything below it, in a form that is read back; it is \<open>mn\_ready\<close> if
  it is in memory with no reference, and what is below it is ready or frozen. Adding keeps a
  manifest ready, and saving a ready manifest gives a frozen one with the same map.
\<close>

section \<open>Frozen and ready nodes\<close>

definition sound_fork :: "byte \<Rightarrow> mfork \<Rightarrow> bool" where
  "sound_fork b f \<longleftrightarrow> mf_prefix f \<noteq> [] \<and> hd (mf_prefix f) = b \<and> length (mf_prefix f) \<le> nodePrefixMaxSize"

coinductive frozen :: "menv \<Rightarrow> nat \<Rightarrow> mnode \<Rightarrow> bool" for e k where
  "mn_ref (dat n) = Some r \<Longrightarrow> length r = k \<Longrightarrow> mn_forks n = None \<Longrightarrow> metadata_ok e n \<Longrightarrow>
   mn_refBytesSize (dat n) \<in> {0, k} \<Longrightarrow>
   load_forks e n = (MOk (), n1) \<Longrightarrow> mn_forks n1 = Some fs \<Longrightarrow> distinct (map fst fs) \<Longrightarrow>
   length (mn_key (dat n1)) = 32 \<Longrightarrow> length (mn_entry (dat n1)) = k \<Longrightarrow>
   (\<And>b f. fork_at n1 b = Some f \<Longrightarrow> sound_fork b f \<and> frozen e k (mf_node f)) \<Longrightarrow> frozen e k n"

inductive mn_ready :: "menv \<Rightarrow> nat \<Rightarrow> (mnode \<Rightarrow> bool) \<Rightarrow> mnode \<Rightarrow> bool" for e k F where
  "mn_ref (dat n) = None \<Longrightarrow> mn_forks n = Some fs \<Longrightarrow> distinct (map fst fs) \<Longrightarrow>
   mn_refBytesSize (dat n) = k \<Longrightarrow> length (mn_key (dat n)) \<in> {0, 32} \<Longrightarrow> metadata_ok e n \<Longrightarrow>
   (IsValueType n \<Longrightarrow> length (mn_entry (dat n)) = k) \<Longrightarrow>
   (\<And>b f. fork_at n b = Some f \<Longrightarrow> sound_fork b f \<and> (mn_ready e k F (mf_node f) \<or> F (mf_node f))) \<Longrightarrow>
   mn_ready e k F n"

lemma frozen_manifest: "frozen e k n \<Longrightarrow> manifest e k n"
proof (coinduction arbitrary: n rule: manifest.coinduct)
  case manifest
  then show ?case by (cases rule: frozen.cases) (auto simp: sound_fork_def)
qed

lemma ready_manifest:
  assumes "\<And>n. F n \<Longrightarrow> manifest e k n"
  shows "mn_ready e k F n \<Longrightarrow> manifest e k n"
proof (induction rule: mn_ready.induct)
  case (1 n fs)
  then show ?case using assms by (auto simp: manifest_mem sound_fork_def)
qed

text \<open>A node that is read back from its fork is frozen like the node that was written.\<close>

lemma frozen_transfer:
  assumes "frozen e k n" "mn_ref (dat m) = mn_ref (dat n)" "mn_metadata (dat m) = mn_metadata (dat n)"
    "IsWithMetadataType m = IsWithMetadataType n" "mn_forks m = None" "mn_refBytesSize (dat m) \<in> {0, k}"
  shows "frozen e k m"
  using assms(1)
proof (cases rule: frozen.cases)
  case (1 r n1 fs)
  then obtain l raw where l: "me_loader e = Some l" "l r = Inr raw" and u: "UnmarshalBinary e raw n = (MOk (), n1)"
    by (auto simp: load_forks_def mn_load_def split: option.splits sum.splits)
  have "alike (on_dat (\<lambda>d. d\<lparr>mn_type := mn_type (dat m)\<rparr>) n) m"
    using assms 1 by (simp add: alike_def IsValueType_def)
  obtain c m1 where m1: "UnmarshalBinary e raw m = (c, m1)" by force
  have c: "c = MOk ()"
    using u m1 by (auto simp: UnmarshalBinary_def Let_def split: if_splits prod.splits)
  note same = Unmarshal_same [OF u m1 [unfolded c]]
  have load: "load_forks e m = (MOk (), m1)"
    using assms(2,5) 1(1) l m1 c by (simp add: load_forks_def mn_load_def)
  have forks: "fork_at m1 = fork_at n1" using same(1) by (simp add: fork_at_def fun_eq_iff)
  show ?thesis
    by (rule frozen.intros [OF _ 1(2) assms(5) _ assms(6) load, of fs])
      (use 1 assms same forks in \<open>auto simp: metadata_ok_def\<close>)
qed

section \<open>Steps that keep a node ready\<close>

lemma IsWithMetadataType_flags [simp]:
  "IsWithMetadataType (makeEdge n) = IsWithMetadataType n"
  "IsWithMetadataType (makeValue n) = IsWithMetadataType n"
  "IsWithMetadataType (makeWithMetadata n)"
  "IsWithMetadataType (updateIsWithPathSeparator p n) = IsWithMetadataType n"
  by (simp_all add: flag_defs flag_16 bit_simps split: option.split)

lemma IsWithMetadataType_on_dat:
  "mn_type (g (dat n)) = mn_type (dat n) \<Longrightarrow> IsWithMetadataType (on_dat g n) = IsWithMetadataType n"
  by (simp add: IsWithMetadataType_def)

lemma ready_cong:
  assumes "mn_ready e k F n" "mn_ref (dat m) = None" "mn_forks m = mn_forks n"
    "mn_refBytesSize (dat m) = mn_refBytesSize (dat n)" "mn_key (dat m) = mn_key (dat n)" "metadata_ok e m"
    "IsValueType m \<Longrightarrow> length (mn_entry (dat m)) = k"
  shows "mn_ready e k F m"
  using assms(1)
proof (cases rule: mn_ready.cases)
  case (1 fs)
  have "fork_at m = fork_at n" using assms(3) by (simp add: fork_at_def fun_eq_iff)
  with 1 assms show ?thesis by (intro mn_ready.intros [of m fs]) auto
qed

lemma ready_facts:
  assumes "mn_ready e k F n"
  shows "mn_ref (dat n) = None" "mn_forks n \<noteq> None" "mn_refBytesSize (dat n) = k"
    "length (mn_key (dat n)) \<in> {0, 32}" "metadata_ok e n" "IsValueType n \<Longrightarrow> length (mn_entry (dat n)) = k"
  using assms by (auto elim: mn_ready.cases)

lemma metadata_ok_flags [simp]:
  "metadata_ok e (makeEdge n) = metadata_ok e n" "metadata_ok e (makeValue n) = metadata_ok e n"
  "metadata_ok e (updateIsWithPathSeparator p n) = metadata_ok e n"
  "metadata_ok e (put_fork b f n) = metadata_ok e n"
  by (simp_all add: metadata_ok_def IsWithMetadataType_def [of "put_fork b f n"] IsWithMetadataType_def [of n])

lemma ready_usp: "mn_ready e k F n \<Longrightarrow> mn_ready e k F (updateIsWithPathSeparator p n)"
  by (rule ready_cong) (auto dest: ready_facts)

lemma frozen_usp:
  assumes "frozen e k n"
  shows "frozen e k (updateIsWithPathSeparator p n)"
proof (rule frozen_transfer [OF assms])
  show "mn_forks (updateIsWithPathSeparator p n) = None" "mn_refBytesSize (dat (updateIsWithPathSeparator p n)) \<in> {0, k}"
    using assms by (auto elim: frozen.cases)
qed simp_all

lemma distinct_put_fork:
  "mn_forks n = Some fs \<Longrightarrow> distinct (map fst fs) \<Longrightarrow>
   \<exists>gs. mn_forks (put_fork b f n) = Some gs \<and> distinct (map fst gs)"
  by (auto simp: put_fork_def distinct_update)

lemma mn_ready_put:
  assumes "mn_ready e k F n" "sound_fork b f" "mn_ready e k F (mf_node f) \<or> F (mf_node f)"
  shows "mn_ready e k F (makeEdge (put_fork b f n))"
  using assms(1)
proof (cases rule: mn_ready.cases)
  case (1 fs)
  obtain gs where gs: "mn_forks (put_fork b f n) = Some gs" "distinct (map fst gs)"
    using distinct_put_fork [OF 1(2,3)] by blast
  have "mn_forks n \<noteq> None" using 1(2) by simp
  with 1 assms(2,3) gs show ?thesis
    by (intro mn_ready.intros [of "makeEdge (put_fork b f n)" gs])
      (auto split: if_splits)
qed

lemma ready_new_child:
  assumes "mn_ready e k F n"
  shows "mn_ready e k F (new_child n)"
proof (rule mn_ready.intros)
  show "mn_refBytesSize (dat (new_child n)) = k" using ready_facts(3) [OF assms] by simp
  show "length (mn_key (dat (new_child n))) \<in> {0, 32}"
    by (simp add: new_child_def Let_def SetObfuscationKey_def mn_New_def zero_ndata_def)
  show "metadata_ok e (new_child n)"
    by (simp add: metadata_ok_def IsWithMetadataType_def nodeTypeWithMetadata_def new_child_def Let_def
        SetObfuscationKey_def mn_New_def zero_ndata_def)
qed auto

text \<open>A value with metadata that can be written.\<close>

definition value_ok :: "menv \<Rightarrow> nat \<Rightarrow> bytes \<Rightarrow> metadata \<Rightarrow> bool" where
  "value_ok e k entry md \<longleftrightarrow> length entry = k \<and> (metadata_len md = 0 \<or> json_ok e md)"

lemma put_value_more [simp]:
  "mn_ref (dat (put_value entry md n)) = mn_ref (dat n)" "mn_key (dat (put_value entry md n)) = mn_key (dat n)"
  "IsWithMetadataType (put_value entry md n) \<longleftrightarrow> 0 < metadata_len md \<or> IsWithMetadataType n"
  by (simp_all add: put_value_def Let_def IsWithMetadataType_on_dat)

lemma metadata_ok_put_value:
  "metadata_ok e n \<Longrightarrow> value_ok e k entry md \<Longrightarrow> metadata_ok e (put_value entry md n)"
  by (auto simp: metadata_ok_def value_ok_def)

lemma ready_put_value: "mn_ready e k F n \<Longrightarrow> value_ok e k entry md \<Longrightarrow> mn_ready e k F (put_value entry md n)"
  by (rule ready_cong) (auto dest: ready_facts intro: metadata_ok_put_value simp: value_ok_def)

text \<open>
  What \<open>Add\<close> is called on: the value of the node itself does not matter if it is about to be
  replaced, and the size of references may not be fixed yet.
\<close>

definition addable :: "menv \<Rightarrow> nat \<Rightarrow> (mnode \<Rightarrow> bool) \<Rightarrow> bytes \<Rightarrow> mnode \<Rightarrow> bool" where
  "addable e k F path n \<longleftrightarrow>
     mn_ref (dat n) = None \<and> (\<exists>fs. mn_forks n = Some fs \<and> distinct (map fst fs)) \<and>
     mn_refBytesSize (dat n) \<in> {0, k} \<and> length (mn_key (dat n)) \<in> {0, 32} \<and> metadata_ok e n \<and>
     (IsValueType n \<and> path \<noteq> [] \<longrightarrow> length (mn_entry (dat n)) = k) \<and>
     (\<forall>b f. fork_at n b = Some f \<longrightarrow> sound_fork b f \<and> (mn_ready e k F (mf_node f) \<or> F (mf_node f)))"

lemma ready_addable: "mn_ready e k F n \<Longrightarrow> addable e k F path n"
  by (erule mn_ready.cases) (auto simp: addable_def)

lemma addable_New: "addable e k F path mn_New"
  by (simp add: addable_def mn_New_def zero_ndata_def metadata_ok_def IsWithMetadataType_def
      nodeTypeWithMetadata_def IsValueType_def nodeTypeValue_def fork_at_def)

lemma addable_usp: "addable e k F path n \<Longrightarrow> addable e k F path (updateIsWithPathSeparator p n)"
  by (simp add: addable_def)

lemma addable_ready:
  assumes "addable e k F path n" "mn_ref (dat m) = None" "mn_forks m = mn_forks n"
    "mn_refBytesSize (dat m) = k" "mn_key (dat m) = mn_key (dat n)" "metadata_ok e m"
    "IsValueType m \<Longrightarrow> length (mn_entry (dat m)) = k"
  shows "mn_ready e k F m"
proof -
  have "fork_at m = fork_at n" using assms(3) by (simp add: fork_at_def fun_eq_iff)
  moreover obtain fs where "mn_forks n = Some fs" "distinct (map fst fs)"
    using assms(1) by (auto simp: addable_def)
  ultimately show ?thesis
    using assms by (intro mn_ready.intros [of m fs]) (auto simp: addable_def)
qed

lemma addable_makeValue: "addable e k F [] n \<Longrightarrow> addable e k F [] (makeValue n)"
  by (simp add: addable_def)

lemma addable_split_node:
  assumes n: "mn_ready e k F n" and rest: "sound_fork (hd rest) (Fork rest m)"
    and below: "mn_ready e k F (updateIsWithPathSeparator rest (mf_node f)) \<or> F (updateIsWithPathSeparator rest (mf_node f))"
    and v: "v \<Longrightarrow> path = []"
  shows "addable e k F path (split_node n f rest v)"
proof -
  let ?m = "makeEdge (put_fork (hd rest) (Fork rest (updateIsWithPathSeparator rest (mf_node f))) (new_child n))"
  have "mn_ready e k F ?m"
    by (rule mn_ready_put [OF ready_new_child [OF n]]) (use rest below in \<open>simp_all add: sound_fork_def\<close>)
  then have "addable e k F path ?m" by (rule ready_addable)
  with v show ?thesis
    by (cases v) (auto simp: split_node_def Let_def intro: addable_makeValue)
qed

text \<open>The size check.\<close>

lemma add_size_k:
  assumes "mn_refBytesSize (dat n) \<in> {0, k}" "length entry = k" "0 < k" "k \<le> 256"
  shows "add_size entry n = (None, on_dat (\<lambda>d. d\<lparr>mn_refBytesSize := k\<rparr>) n)"
  using assms by (cases n) (auto simp: add_size_def on_dat_def)

lemma on_dat_flags:
  "mn_type (g (dat n)) = mn_type (dat n) \<Longrightarrow> mn_metadata (g (dat n)) = mn_metadata (dat n) \<Longrightarrow>
   metadata_ok e (on_dat g n) = metadata_ok e n"
  by (simp add: metadata_ok_def IsWithMetadataType_on_dat)

lemma add_here_ready:
  assumes "addable e k F [] n" "value_ok e k entry md"
  shows "mn_ready e k F (add_here entry md (on_dat (\<lambda>d. d\<lparr>mn_refBytesSize := k\<rparr>) n))"
proof -
  have "metadata_ok e (put_value entry md (on_dat (\<lambda>d. d\<lparr>mn_refBytesSize := k\<rparr>) n))"
    using assms by (intro metadata_ok_put_value) (auto simp: addable_def on_dat_flags)
  with assms show ?thesis
    unfolding add_here_def
    by (intro addable_ready [OF assms(1)]) (simp_all add: on_dat_flags value_ok_def)
qed

lemma Unmarshal_metadata_type:
  "UnmarshalBinary e raw n = (r, n') \<Longrightarrow> IsWithMetadataType n' = IsWithMetadataType n"
  by (auto simp: UnmarshalBinary_def Let_def IsWithMetadataType_def makeEdge_def or_type_def
      nodeTypeWithMetadata_def nodeTypeEdge_def flag_16 bit_simps split: if_splits prod.splits)

text \<open>After the size check and the load, the node is ready.\<close>

lemma add_load_ready:
  assumes n: "addable e k F path n \<or> F n" and F: "F = frozen e k \<or> F = (\<lambda>_. False)" and path: "path \<noteq> []"
    and load: "add_load e (on_dat (\<lambda>d. d\<lparr>mn_refBytesSize := k\<rparr>) n) = (MOk (), n1)"
  shows "mn_ready e k F n1"
proof (cases "addable e k F path n")
  case True
  then have "n1 = on_dat (\<lambda>d. d\<lparr>mn_refBytesSize := k\<rparr>) n"
    using load by (auto simp: addable_def add_load_def split: if_splits)
  with True path show ?thesis
    by (intro addable_ready [OF True]) (auto simp: addable_def on_dat_flags IsValueType_on_dat)
next
  case False
  with n F have fz: "frozen e k n" and F': "F = frozen e k" by auto
  let ?n = "on_dat (\<lambda>d. d\<lparr>mn_refBytesSize := k\<rparr>) n"
  have "frozen e k ?n"
    by (rule frozen_transfer [OF fz]) (use fz in \<open>auto simp: IsWithMetadataType_on_dat elim: frozen.cases\<close>)
  then show ?thesis
  proof (cases rule: frozen.cases)
    case (1 r m fs)
    then have m: "mn_load e ?n = (MOk (), m)" by (simp add: load_forks_def)
    have n1: "n1 = on_dat (\<lambda>d. d\<lparr>mn_ref := None\<rparr>) m" using load m 1(3) by (simp add: add_load_def)
    have "IsWithMetadataType m = IsWithMetadataType ?n" "mn_metadata (dat m) = mn_metadata (dat ?n)"
        "mn_refBytesSize (dat m) = k"
      using m load_forks_frame [OF 1(6)]
      by (auto simp: mn_load_def split: option.splits sum.splits dest: Unmarshal_metadata_type)
    moreover from this 1(4) have "metadata_ok e m" by (simp add: metadata_ok_def split: if_splits)
    moreover have "fork_at n1 = fork_at m" unfolding n1 by (simp add: fun_eq_iff)
    ultimately show ?thesis
      using 1 F' by (intro mn_ready.intros [of n1 fs]) (simp_all add: n1 on_dat_flags)
  qed
qed

section \<open>Adding keeps a manifest ready\<close>

lemma ready_assign:
  assumes "mn_ready e k F n" "assign_fork b (Fork pre m) n = (r, n')" "mn_ready e k F m" "sound_fork b (Fork pre m)"
  shows "r = MOk () \<and> mn_ready e k F n'"
proof -
  have "r = MOk ()" "n' = makeEdge (put_fork b (Fork pre m) n)"
    using assms(2) ready_facts(2) [OF assms(1)] by (auto simp: assign_fork_def)
  then show ?thesis using mn_ready_put [OF assms(1,4)] assms(3) by simp
qed

text \<open>The forks that \<open>Add\<close> makes are sound.\<close>

lemma sound_fork_take:
  "path \<noteq> [] \<Longrightarrow> 0 < i \<Longrightarrow> i \<le> nodePrefixMaxSize \<Longrightarrow> sound_fork (hd path) (Fork (take i path) m)"
  by (cases path; cases i) (auto simp: sound_fork_def)

lemma addable_manifest:
  assumes "addable e k F path n" "F = frozen e k \<or> F = (\<lambda>_. False)"
  shows "manifest e k n"
proof -
  have "mn_ready e k F m \<or> F m \<Longrightarrow> manifest e k m" for m
    using assms(2) ready_manifest [of F e k m] by (auto intro: frozen_manifest)
  with assms(1) show ?thesis by (auto simp: addable_def manifest_mem sound_fork_def)
qed

lemma ready_target:
  assumes n: "mn_ready e k F n" and f: "fork_at n (hd path) = Some f" and path: "path \<noteq> []"
    and F: "F = frozen e k \<or> F = (\<lambda>_. False)"
  defines "c \<equiv> common (mf_prefix f) path"
  shows "sound_fork (hd path) (Fork c m)"
    and "addable e k F (drop (length c) path) (updateIsWithPathSeparator path (add_target n f path)) \<or>
         F (updateIsWithPathSeparator path (add_target n f path))"
proof -
  have kid: "sound_fork (hd path) f" "mn_ready e k F (mf_node f) \<or> F (mf_node f)"
    using n f by (auto elim: mn_ready.cases)
  have usp: "mn_ready e k F (updateIsWithPathSeparator p (mf_node f)) \<or> F (updateIsWithPathSeparator p (mf_node f))" for p
    using kid(2) F by (auto intro: ready_usp frozen_usp)
  have "manifest e k n" using ready_addable [OF n] F by (rule addable_manifest)
  then show "sound_fork (hd path) (Fork c m)"
    using ready_facts(2) [OF n] f path
  proof (cases rule: add_target_cases)
    case whole
    with kid show ?thesis by (simp add: sound_fork_def c_def)
  next
    case (split d rest)
    with kid show ?thesis by (simp add: sound_fork_def c_def)
  qed
  from \<open>manifest e k n\<close> show "addable e k F (drop (length c) path)
      (updateIsWithPathSeparator path (add_target n f path)) \<or> F (updateIsWithPathSeparator path (add_target n f path))"
    using ready_facts(2) [OF n] f path
  proof (cases rule: add_target_cases)
    case whole
    with usp [of path] show ?thesis by (auto intro: ready_addable)
  next
    case (split d rest)
    have "sound_fork (hd rest) (Fork rest (mf_node f))" using kid split by (simp add: sound_fork_def)
    moreover have "length path = length d \<Longrightarrow> drop (length d) path = []" by simp
    ultimately have "addable e k F (drop (length d) path) (split_node n f rest (length path = length d))"
      using usp [of rest] by (intro addable_split_node [OF n])
    with split show ?thesis by (auto simp: c_def intro: addable_usp)
  qed
qed

text \<open>The load on the way does not change what is at the path.\<close>

lemma seek_prepared:
  assumes "manifest e k n" "path \<noteq> []" "add_load e (on_dat (\<lambda>d. d\<lparr>mn_refBytesSize := k\<rparr>) n) = (r, n1)"
  shows "seek e n1 path = seek e n path"
proof -
  let ?n0 = "on_dat (\<lambda>d. d\<lparr>mn_refBytesSize := k\<rparr>) n"
  have a: "alike n ?n0" by (simp add: alike_def IsValueType_on_dat)
  have m: "manifest e k ?n0" by (rule manifest_alike [OF assms(1) a]) simp
  then obtain m1 where "add_load e ?n0 = (MOk (), m1)" "\<And>q. q \<noteq> [] \<Longrightarrow> seek e m1 q = seek e ?n0 q"
    by (rule add_load_ok) blast
  with assms seek_alike [OF assms(1) a] show ?thesis by simp
qed

lemma mn_Add_ready:
  assumes F: "F = frozen e k \<or> F = (\<lambda>_. False)" and k: "0 < k" "k \<le> 256"
    and "value_ok e k entry md" "addable e k F path n \<or> F n \<and> path \<noteq> []"
    and "\<And>m. seek e n path = Some m \<Longrightarrow> mn_forks m \<noteq> None"
    and "mn_Add e n path entry md = (MOk (), n')"
  shows "mn_ready e k F n'"
  using F assms(4-)
proof (induction e n path entry md arbitrary: n' rule: mn_Add.induct)
  case (1 e n path entry md)
  note F = "1.prems"(1)
  have size: "mn_refBytesSize (dat n) \<in> {0, k}" "length entry = k"
    using "1.prems" by (auto simp: addable_def value_ok_def elim: frozen.cases)
  let ?n0 = "on_dat (\<lambda>d. d\<lparr>mn_refBytesSize := k\<rparr>) n"
  note n0 = add_size_k [OF size k]
  show ?case
  proof (cases "path = []")
    case True
    with "1.prems" n0 have "n' = add_here entry md ?n0" by (simp add: mn_Add.simps)
    with add_here_ready [of e k F n entry md] "1.prems" True show ?thesis by auto
  next
    case False
    obtain r n1 where n1: "add_load e ?n0 = (r, n1)" by force
    have r: "r = MOk ()" using "1.prems"(5) n0 n1 False by (cases r) (simp_all add: mn_Add.simps [of e n])
    have ok: "mn_ready e k F n1"
      using "1.prems"(3) False F n1 by (intro add_load_ready [of e k F path n]) (auto simp: r)
    have m: "manifest e k n" using "1.prems"(3) F by (auto intro: addable_manifest frozen_manifest)
    note sk = seek_prepared [OF m False n1]
    have m1: "manifest e k n1" using ready_addable [OF ok] F by (rule addable_manifest)
    show ?thesis
    proof (cases "fork_at n1 (hd path)")
      case None
      note c = ready_new_child [OF ok]
      show ?thesis
      proof (cases "nodePrefixMaxSize < length path")
        case long: True
        let ?pre = "take nodePrefixMaxSize path"
        obtain s nn where nn: "mn_Add e (new_child n1) (drop nodePrefixMaxSize path) entry md = (s, nn)" by force
        have s: "s = MOk ()" and asg: "assign_fork (hd path) (Fork ?pre (updateIsWithPathSeparator ?pre nn)) n1 = (MOk (), n')"
          using "1.prems"(5) n0 n1 r False None long nn by (cases s; simp add: mn_Add.simps [of e n] Let_def)+
        have "mn_ready e k F nn"
          using "1.IH"(1) [OF n0 [symmetric] refl False _ refl None long refl refl F "1.prems"(2) _ _ nn [unfolded s]]
            n1 r ready_addable [OF c] long by simp
        then have "mn_ready e k F (updateIsWithPathSeparator ?pre nn)" by (rule ready_usp)
        from ready_assign [OF ok asg this] sound_fork_take [OF False, of nodePrefixMaxSize] show ?thesis
          by (simp add: nodePrefixMaxSize_def nodeForkPreReferenceSize_def nodeForkHeaderSize_def)
      next
        case short: False
        let ?m = "updateIsWithPathSeparator path (put_value entry md (new_child n1))"
        have asg: "assign_fork (hd path) (Fork path ?m) n1 = (MOk (), n')"
          using "1.prems"(5) n0 n1 r False None short by (simp add: mn_Add.simps [of e n])
        have "mn_ready e k F ?m" using ready_put_value [OF c "1.prems"(2)] by (rule ready_usp)
        from ready_assign [OF ok asg this] sound_fork_take [OF False, of "length path"] short False show ?thesis
          by simp
      qed
    next
      case (Some f)
      let ?c = "common (mf_prefix f) path"
      let ?t = "updateIsWithPathSeparator path (add_target n1 f path)"
      have t: "add_target n1 f path =
          (if 0 < length (drop (length ?c) (mf_prefix f))
           then split_node n1 f (drop (length ?c) (mf_prefix f)) (length path = length ?c) else mf_node f)"
        by (simp add: add_target_def Let_def)
      obtain s nn where nn: "mn_Add e ?t (drop (length ?c) path) entry md = (s, nn)" by force
      have s: "s = MOk ()" and asg: "assign_fork (hd path) (Fork ?c nn) n1 = (MOk (), n')"
        using "1.prems"(5) n0 n1 r False Some nn
        by (cases s; simp add: mn_Add.simps [of e n] Let_def add_target_def)+
      have t': "seek e ?t (drop (length ?c) path) = Some m \<Longrightarrow> mn_forks m \<noteq> None" for m
        using add_target_ok [OF m1 ready_facts(2) [OF ok] Some False] "1.prems"(4) sk by auto
      have pre: "addable e k F (drop (length ?c) path) ?t \<or> F ?t \<and> drop (length ?c) path \<noteq> []"
        using ready_target(2) [OF ok Some False F] t' F by (auto elim: frozen.cases)
      have "mn_ready e k F nn"
        using "1.IH"(2) [OF n0 [symmetric] refl False _ refl Some refl refl t F "1.prems"(2) pre t' nn [unfolded s]]
          n1 r by simp
      from ready_assign [OF ok asg this ready_target(1) [OF ok Some False F]] show ?thesis by simp
    qed
  qed
qed

section \<open>Saving\<close>

text \<open>What the save of a node promises.\<close>

definition mn_saved :: "menv \<Rightarrow> nat \<Rightarrow> mnode \<Rightarrow> mnode \<Rightarrow> bool" where
  "mn_saved e k n n' \<longleftrightarrow> frozen e k n' \<and> entry_at e n' = entry_at e n \<and>
     mn_type (dat n') = mn_type (dat n) \<and> mn_metadata (dat n') = mn_metadata (dat n)"

lemma saved_frozen: "frozen e k n \<Longrightarrow> mn_save e s rnd at n = (MOk (), n) \<and> mn_saved e k n n"
  by (auto simp: mn_saved_def mn_save.simps [of e s rnd at n] elim: frozen.cases)

definition save_fork :: "menv \<Rightarrow> (bytes \<Rightarrow> merror + bytes) \<Rightarrow> (bytes \<Rightarrow> bytes) \<Rightarrow> bytes \<Rightarrow> byte \<Rightarrow> mfork \<Rightarrow> mfork" where
  "save_fork e s rnd at b f = Fork (mf_prefix f) (snd (mn_save e s rnd (at @ [b]) (mf_node f)))"

text \<open>The data that a save hands to the storage.\<close>

function mn_writes :: "menv \<Rightarrow> (bytes \<Rightarrow> merror + bytes) \<Rightarrow> (bytes \<Rightarrow> bytes) \<Rightarrow> bytes \<Rightarrow> mnode \<Rightarrow> bytes list" where
  "mn_writes e s rnd at n =
     (if mn_ref (dat n) \<noteq> None then []
      else
        let fs = (case mn_forks n of None \<Rightarrow> [] | Some fs \<Rightarrow> fs);
            n1 = set_forks (Some (map (\<lambda>(b, f). (b, save_fork e s rnd at b f)) fs)) n
        in concat (map (\<lambda>(b, f). mn_writes e s rnd (at @ [b]) (mf_node f)) fs) @
           (case fst (MarshalBinary e (rnd at) n1) of MOk d \<Rightarrow> [d] | _ \<Rightarrow> []))"
  by pat_completeness auto
termination
  by (relation "measure (\<lambda>(e, s, rnd, at, n). size n)") (auto split: option.splits intro: size_fork_less)

declare mn_writes.simps [simp del]

text \<open>The storage gives back what is written, under a reference of \<open>k\<close> bytes.\<close>

definition store_has :: "menv \<Rightarrow> (bytes \<Rightarrow> merror + bytes) \<Rightarrow> nat \<Rightarrow> bytes \<Rightarrow> bool" where
  "store_has e s k d \<longleftrightarrow>
     (case me_loader e of
        None \<Rightarrow> False
      | Some l \<Rightarrow> (case s d of Inl _ \<Rightarrow> False | Inr r \<Rightarrow> length r = k \<and> l r = Inr d))"

lemma store_hasE:
  assumes "store_has e s k d"
  obtains l r where "me_loader e = Some l" "s d = Inr r" "length r = k" "l r = Inr d"
  using assms by (auto simp: store_has_def split: option.splits sum.splits)

lemma map_of_map_keys: "map_of (map (\<lambda>(k, f). (k, g k f)) fs) b = map_option (g b) (map_of fs b)"
  by (induction fs) auto

text \<open>If all children are saved, the node is written with the forks that are left.\<close>

lemma mn_save_children:
  assumes "mn_ref (dat n) = None" "mn_forks n = Some fs"
    and "\<And>b f. (b, f) \<in> set fs \<Longrightarrow> fst (mn_save e s rnd (at @ [b]) (mf_node f)) = MOk ()"
  shows "mn_save e s rnd at n =
    (case MarshalBinary e (rnd at) (set_forks (Some (map (\<lambda>(b, f). (b, save_fork e s rnd at b f)) fs)) n) of
       (MErr x, n2) \<Rightarrow> (MErr x, n2)
     | (MPanic, n2) \<Rightarrow> (MPanic, n2)
     | (MOk b, n2) \<Rightarrow>
         (case s b of
            Inl x \<Rightarrow> (MErr x, n2)
          | Inr r \<Rightarrow> (MOk (), set_forks None (on_dat (\<lambda>d. d\<lparr>mn_ref := Some r\<rparr>) n2))))"
proof -
  let ?g = "\<lambda>(b, f). mn_save e s rnd (at @ [b]) (mf_node f)"
  have "first_failure (map fst (map ?g fs)) = None"
    using assms(3) by (auto simp: first_failure_def find_None_iff)
  moreover have "map2 (\<lambda>(k, f) (r, m). (k, Fork (mf_prefix f) m)) fs (map ?g fs) =
      map (\<lambda>(b, f). (b, save_fork e s rnd at b f)) fs"
    by (induction fs) (auto simp: save_fork_def split: prod.splits)
  ultimately show ?thesis
    using assms(1,2) by (subst mn_save.simps) (simp add: Let_def)
qed

text \<open>Two nodes whose forks have the same prefixes and maps below them have the same map.\<close>

lemma entry_at_forks:
  assumes mem: "mn_forks n \<noteq> None" "mn_forks m \<noteq> None" and val: "IsValueType m = IsValueType n"
      "IsValueType n \<Longrightarrow> mn_entry (dat m) = mn_entry (dat n) \<and> mn_metadata (dat m) = mn_metadata (dat n)"
    and at: "\<And>b. fork_at m b = map_option (g b) (fork_at n b)"
    and kids: "\<And>b f. fork_at n b = Some f \<Longrightarrow>
      mf_prefix (g b f) = mf_prefix f \<and> entry_at e (mf_node (g b f)) = entry_at e (mf_node f)"
  shows "entry_at e m = entry_at e n"
proof
  fix q
  show "entry_at e m q = entry_at e n q"
  proof (cases "q = []")
    case True
    with mem val show ?thesis by (simp add: entry_at_Nil_mem)
  next
    case False
    with mem at kids show ?thesis by (cases "fork_at n (hd q)") (simp_all add: entry_at_mem)
  qed
qed

text \<open>The node that the reference of a saved node leads to has the map of the node.\<close>

lemma saved_node:
  assumes n: "mn_refBytesSize (dat n) = k" "k < 256" "length (mn_key (dat n)) = 32" "metadata_ok e n"
      "IsValueType n \<Longrightarrow> length (mn_entry (dat n)) = k" "mn_forks n = Some fs"
    and kids: "\<And>b f. map_of fs b = Some f \<Longrightarrow> sound_fork b f \<and> frozen e k (mf_node f)"
    and r: "me_loader e = Some l" "l r = Inr (crypt_data (mn_key (dat n)) (plain e n fs))" "length r = k"
  shows "mn_saved e k n (set_forks None (on_dat (\<lambda>d. d\<lparr>mn_ref := Some r\<rparr>) n))" (is "mn_saved e k n ?n")
proof -
  have w: "all_writable e (mn_refBytesSize (dat n)) fs"
    using kids n(1) by (fastforce simp: all_writable_def writable_def sound_fork_def elim: frozen.cases)
  obtain m where m: "UnmarshalBinary e (crypt_data (mn_key (dat n)) (plain e n fs)) ?n = (MOk (), m)"
    "mn_forks m = Some (readback fs all_bytes [])" "mn_entry (dat m) = pad_entry k (mn_entry (dat n))"
    "mn_key (dat m) = mn_key (dat n)"
    using UnmarshalBinary_ok [OF w _ n(3), of ?n] n(1,2) by auto
  have load: "load_forks e ?n = (MOk (), m)" using m(1) r by (simp add: load_forks_def mn_load_def)
  have mem: "mn_forks m \<noteq> None" using m(2) by simp
  have at: "fork_at m b = map_option mn_stored (map_of fs b)" for b by (simp add: fork_at_def m(2) fork_readback)
  have kid: "sound_fork b (mn_stored f) \<and> frozen e k (mf_node (mn_stored f))" if "map_of fs b = Some f" for b f
    using kids [OF that] frozen_transfer [of e k "mf_node f" "mf_node (mn_stored f)"]
    by (simp add: mn_stored_def sound_fork_def zero_ndata_def IsWithMetadataType_def)
  have fz: "frozen e k ?n"
  proof (rule frozen.intros [OF _ r(3) _ _ _ load m(2) distinct_readback])
    show "sound_fork b f \<and> frozen e k (mf_node f)" if "fork_at m b = Some f" for b f
      using that kid at by auto
  qed (use n m in \<open>auto simp: metadata_ok_def IsWithMetadataType_on_dat IsWithMetadataType_def\<close>)
  have "entry_at e m = entry_at e n"
  proof (rule entry_at_forks [where g = "\<lambda>_. mn_stored"])
    show "mf_prefix (mn_stored f) = mf_prefix f \<and> entry_at e (mf_node (mn_stored f)) = entry_at e (mf_node f)"
      if "fork_at n b = Some f" for b f
    proof -
      have f: "frozen e k (mf_node f)" using kids that n(6) by (simp add: fork_at_def)
      have "alike (mf_node f) (mf_node (mn_stored f))"
        using f by (auto simp: alike_def mn_stored_def IsValueType_def elim: frozen.cases)
      with entry_at_alike [OF frozen_manifest [OF f]] show ?thesis by (auto simp: mn_stored_def)
    qed
    show "mn_entry (dat m) = mn_entry (dat n) \<and> mn_metadata (dat m) = mn_metadata (dat n)" if "IsValueType n"
      using n(5) that m(3) load_forks_frame [OF load] by (simp add: pad_entry_id)
    show "IsValueType m = IsValueType n" using load_forks_frame [OF load] by (simp add: IsValueType_def)
  qed (use mem n(6) at in \<open>auto simp: fork_at_def [of n]\<close>)
  then have "entry_at e ?n = entry_at e n" using entry_at_load [OF load mem] by (simp add: fun_eq_iff)
  with fz show ?thesis by (simp add: mn_saved_def)
qed

lemma save_ready:
  assumes F: "\<And>m. F m \<Longrightarrow> frozen e k m" and k: "k < 256"
    and rnd: "\<And>p. length (rnd p) = 32"
  shows "mn_ready e k F n \<Longrightarrow> list_all (store_has e s k) (mn_writes e s rnd at n) \<Longrightarrow>
    \<exists>n'. mn_save e s rnd at n = (MOk (), n') \<and> mn_saved e k n n'"
proof (induction arbitrary: at rule: mn_ready.induct)
  case (1 n fs)
  have kid: "\<exists>c. mn_save e s rnd (at @ [b]) (mf_node f) = (MOk (), c) \<and> mn_saved e k (mf_node f) c"
    if "map_of fs b = Some f" for b f
  proof -
    have "fork_at n b = Some f" using that 1(2) by (simp add: fork_at_def)
    moreover have "list_all (store_has e s k) (mn_writes e s rnd (at @ [b]) (mf_node f))"
      using 1(9) map_of_SomeD [OF that] 1(1,2)
      by (auto simp: mn_writes.simps [of e s rnd at n] Let_def list_all_iff)
    ultimately show ?thesis using 1(8) F saved_frozen [of e k "mf_node f"] by blast
  qed
  have in_set: "map_of fs b = Some f" if "(b, f) \<in> set fs" for b f
    using that 1(3) by simp
  let ?fs = "map (\<lambda>(b, f). (b, save_fork e s rnd at b f)) fs"
  let ?n1 = "set_forks (Some ?fs) n"
  let ?n2 = "with_key (rnd at) ?n1"
  have fs: "map_of ?fs b = map_option (save_fork e s rnd at b) (map_of fs b)" for b
    by (rule map_of_map_keys)
  have kids: "sound_fork b g \<and> frozen e k (mf_node g)" if "map_of ?fs b = Some g" for b g
  proof -
    from that fs obtain f where f: "map_of fs b = Some f" "g = save_fork e s rnd at b f" by auto
    with kid [OF f(1)] 1(8) [of b f] 1(2) show ?thesis
      by (auto simp: save_fork_def sound_fork_def mn_saved_def fork_at_def)
  qed
  have w: "all_writable e (mn_refBytesSize (dat n)) ?fs"
    using kids 1(4) by (fastforce simp: all_writable_def writable_def sound_fork_def elim: frozen.cases)
  have n2: "mn_refBytesSize (dat ?n2) = k" "length (mn_key (dat ?n2)) = 32" "mn_forks ?n2 = Some ?fs"
    "mn_type (dat ?n2) = mn_type (dat n)" "mn_metadata (dat ?n2) = mn_metadata (dat n)"
    "mn_entry (dat ?n2) = mn_entry (dat n)"
    using 1(4,5) rnd [of at] by (auto simp: with_key_def)
  have marshal: "MarshalBinary e (rnd at) ?n1 = (MOk (crypt_data (mn_key (dat ?n2)) (plain e ?n2 ?fs)), ?n2)"
    using 1(4,5) k rnd w by (intro MarshalBinary_ok) auto
  then have "store_has e s k (crypt_data (mn_key (dat ?n2)) (plain e ?n2 ?fs))"
    using 1(9,1,2) by (simp add: mn_writes.simps [of e s rnd at n] Let_def)
  then obtain l r where l: "me_loader e = Some l"
    and r: "s (crypt_data (mn_key (dat ?n2)) (plain e ?n2 ?fs)) = Inr r" "length r = k"
      "l r = Inr (crypt_data (mn_key (dat ?n2)) (plain e ?n2 ?fs))" by (rule store_hasE)
  let ?n' = "set_forks None (on_dat (\<lambda>d. d\<lparr>mn_ref := Some r\<rparr>) ?n2)"
  from marshal have save: "mn_save e s rnd at n = (MOk (), ?n')"
    using mn_save_children [OF 1(1,2), of e s rnd at] kid in_set r(1) by fastforce
  have md: "metadata_ok e ?n2" "IsValueType ?n2 \<Longrightarrow> length (mn_entry (dat ?n2)) = k"
    using 1(6,7) n2 by (auto simp: metadata_ok_def IsWithMetadataType_def IsValueType_def)
  have "mn_saved e k ?n2 ?n'"
    by (rule saved_node [OF n2(1) k n2(2) md n2(3) kids l r(3,2)])
  moreover have "entry_at e ?n2 = entry_at e n"
  proof (rule entry_at_forks)
    show "fork_at ?n2 b = map_option (save_fork e s rnd at b) (fork_at n b)" for b
      using fs n2(3) 1(2) by (simp add: fork_at_def)
    show "mf_prefix (save_fork e s rnd at b f) = mf_prefix f \<and>
        entry_at e (mf_node (save_fork e s rnd at b f)) = entry_at e (mf_node f)"
      if "fork_at n b = Some f" for b f
      using that kid [of b f] 1(2) by (auto simp: save_fork_def mn_saved_def fork_at_def)
  qed (use 1(2) n2 in \<open>simp_all add: IsValueType_def\<close>)
  ultimately have "mn_saved e k n ?n'" using n2 by (simp add: mn_saved_def)
  with save show ?case by blast
qed

section \<open>Building and opening a manifest\<close>

lemma ready_in_memory: "mn_ready e k (\<lambda>_. False) n \<Longrightarrow> seek e n p = Some m \<Longrightarrow> mn_forks m \<noteq> None"
proof (induction arbitrary: p m rule: mn_ready.induct)
  case (1 n fs)
  then have mem: "mn_forks n \<noteq> None" by simp
  show ?case
  proof (cases "p = []")
    case True
    with 1(9) mem show ?thesis by simp
  next
    case False
    with 1(9) mem obtain f where "fork_at n (hd p) = Some f"
      "seek e (mf_node f) (drop (length (mf_prefix f)) p) = Some m"
      by (auto simp: seek_mem split: option.splits if_splits)
    with 1(8) show ?thesis by blast
  qed
qed

text \<open>Calls of \<open>Add\<close> in a row, up to the first that fails.\<close>

fun mn_adds :: "menv \<Rightarrow> mnode \<Rightarrow> (bytes \<times> bytes \<times> metadata) list \<Rightarrow> unit mres \<times> mnode" where
  "mn_adds e n [] = (MOk (), n)"
| "mn_adds e n ((path, entry, md) # adds) =
     (case mn_Add e n path entry md of
        (MOk _, n') \<Rightarrow> mn_adds e n' adds
      | (r, n') \<Rightarrow> (r, n'))"

definition adds_ok :: "menv \<Rightarrow> nat \<Rightarrow> (bytes \<times> bytes \<times> metadata) list \<Rightarrow> bool" where
  "adds_ok e k adds \<longleftrightarrow> list_all (\<lambda>(path, entry, md). path \<noteq> [] \<and> value_ok e k entry md) adds"

definition adds_map :: "(bytes \<times> bytes \<times> metadata) list \<Rightarrow> bytes \<rightharpoonup> bytes" where
  "adds_map adds = map_of (rev (map (\<lambda>(path, entry, md). (path, entry)) adds))"

text \<open>One call on a manifest in memory.\<close>

lemma mn_Add_step:
  assumes n: "addable e k (\<lambda>_. False) path n" "\<And>m. seek e n path = Some m \<Longrightarrow> mn_forks m \<noteq> None"
    and k: "0 < k" "k \<le> 256" and v: "value_ok e k entry md"
  obtains n' where "mn_Add e n path entry md = (MOk (), n')" "mn_ready e k (\<lambda>_. False) n'"
    "map_option fst \<circ> entry_at e n' = (map_option fst \<circ> entry_at e n)(path \<mapsto> entry)"
proof -
  have "manifest e k n" using addable_manifest [OF n(1)] by simp
  moreover have "length entry \<in> {0, k}" using v by (simp add: value_ok_def)
  ultimately obtain n' where n': "mn_Add e n path entry md = (MOk (), n')" "added e k n path entry md n'"
    using mn_Add_added [of e k n entry path md] n(2) k(2) by blast
  moreover have "mn_ready e k (\<lambda>_. False) n'"
    using mn_Add_ready [of "\<lambda>_. False" e k entry md path n n'] k v n n'(1) by simp
  moreover have "map_option fst \<circ> entry_at e n' = (map_option fst \<circ> entry_at e n)(path \<mapsto> entry)"
    using n'(2) by (auto simp: added_def fun_eq_iff)
  ultimately show thesis by (intro that) auto
qed

lemma mn_adds_ready:
  assumes k: "0 < k" "k \<le> 256"
  shows "mn_ready e k (\<lambda>_. False) n \<Longrightarrow> adds_ok e k adds \<Longrightarrow>
    \<exists>n'. mn_adds e n adds = (MOk (), n') \<and> mn_ready e k (\<lambda>_. False) n' \<and>
      map_option fst \<circ> entry_at e n' = (map_option fst \<circ> entry_at e n) ++ adds_map adds"
proof (induction adds arbitrary: n)
  case (Cons a adds)
  obtain path entry md where a: "a = (path, entry, md)" by (cases a)
  from Cons.prems(2) have v: "value_ok e k entry md" and ok: "adds_ok e k adds" by (simp_all add: adds_ok_def a)
  obtain n' where n': "mn_Add e n path entry md = (MOk (), n')" "mn_ready e k (\<lambda>_. False) n'"
    "map_option fst \<circ> entry_at e n' = (map_option fst \<circ> entry_at e n)(path \<mapsto> entry)"
    using ready_addable [OF Cons.prems(1)] ready_in_memory [OF Cons.prems(1)] k v by (rule mn_Add_step)
  obtain n2 where n2: "mn_adds e n' adds = (MOk (), n2)" "mn_ready e k (\<lambda>_. False) n2"
    "map_option fst \<circ> entry_at e n2 = (map_option fst \<circ> entry_at e n') ++ adds_map adds"
    using Cons.IH [OF n'(2) ok] by blast
  have "map_option fst \<circ> entry_at e n2 = (map_option fst \<circ> entry_at e n) ++ adds_map (a # adds)"
    unfolding n2(3) n'(3) by (simp add: adds_map_def a)
  moreover have "mn_adds e n (a # adds) = (MOk (), n2)" using n'(1) n2(1) by (simp add: a)
  ultimately show ?case using n2(2) by blast
qed (simp add: adds_map_def)

lemma mn_adds_New:
  assumes k: "0 < k" "k \<le> 256" and "adds_ok e k adds" "adds \<noteq> []"
  obtains n where "mn_adds e mn_New adds = (MOk (), n)" "mn_ready e k (\<lambda>_. False) n"
    "map_option fst \<circ> entry_at e n = adds_map adds"
proof -
  obtain path entry md rest where a: "adds = (path, entry, md) # rest" using assms(4) by (metis list.exhaust prod_cases3)
  with assms(3) have v: "value_ok e k entry md" "path \<noteq> []" and ok: "adds_ok e k rest" by (simp_all add: adds_ok_def)
  have empty: "seek e mn_New q = None \<and> entry_at e mn_New q = None" if "q \<noteq> []" for q
    using that by (simp add: seek_mem entry_at_mem mn_New_def fork_at_def)
  have "entry_at e mn_New [] = None"
    by (simp add: entry_at_Nil_mem mn_New_def IsValueType_def zero_ndata_def nodeTypeValue_def)
  with empty have none: "map_option fst \<circ> entry_at e mn_New = Map.empty" by (metis comp_apply option.map_disc_iff)
  have seek: "seek e mn_New path = Some m \<Longrightarrow> mn_forks m \<noteq> None" for m using empty [OF v(2)] by simp
  obtain n' where n': "mn_Add e mn_New path entry md = (MOk (), n')" "mn_ready e k (\<lambda>_. False) n'"
    "map_option fst \<circ> entry_at e n' = (map_option fst \<circ> entry_at e mn_New)(path \<mapsto> entry)"
    using addable_New seek k v(1) by (rule mn_Add_step)
  obtain n2 where n2: "mn_adds e n' rest = (MOk (), n2)" "mn_ready e k (\<lambda>_. False) n2"
    "map_option fst \<circ> entry_at e n2 = (map_option fst \<circ> entry_at e n') ++ adds_map rest"
    using mn_adds_ready [OF k n'(2) ok] by blast
  have "map_option fst \<circ> entry_at e n2 = adds_map adds"
    unfolding n2(3) n'(3) none by (simp add: adds_map_def a)
  with n'(1) n2(1,2) show thesis by (intro that) (simp_all add: a)
qed

text \<open>A node that is opened by the reference of a saved one.\<close>

lemma reopen:
  assumes "frozen e k n" "mn_ref (dat n) = Some r"
  shows "manifest e k (NewNodeRef (Some r)) \<and>
    (\<forall>q. q \<noteq> [] \<longrightarrow> entry_at e (NewNodeRef (Some r)) q = entry_at e n q)"
  using assms(1)
proof (cases rule: frozen.cases)
  case (1 r' n1 fs)
  let ?m = "NewNodeRef (Some r)"
  from 1 obtain l raw where l: "me_loader e = Some l" "l r = Inr raw" and u: "UnmarshalBinary e raw n = (MOk (), n1)"
    using assms(2) by (auto simp: load_forks_def mn_load_def split: option.splits sum.splits)
  obtain c m1 where m1: "UnmarshalBinary e raw ?m = (c, m1)" by force
  have c: "c = MOk ()"
    using u m1 by (auto simp: UnmarshalBinary_def Let_def split: if_splits prod.splits)
  note same = Unmarshal_same [OF u m1 [unfolded c]]
  have load: "load_forks e ?m = (MOk (), m1)"
    using l m1 c by (simp add: load_forks_def mn_load_def NewNodeRef_def)
  have mem: "mn_forks m1 \<noteq> None" "mn_forks n1 \<noteq> None" using same(1) 1(7) by (simp_all flip: same(1))
  have forks: "fork_at m1 = fork_at n1" using same(1) by (simp add: fork_at_def fun_eq_iff)
  have "manifest e k ?m"
    by (rule manifest.intros [OF load mem(1)])
      (use 1 forks in \<open>auto simp: sound_fork_def NewNodeRef_def zero_ndata_def dest: frozen_manifest\<close>)
  moreover have "entry_at e ?m q = entry_at e n q" if "q \<noteq> []" for q
    using that forks entry_at_load [OF load mem(1), of q] entry_at_load [OF 1(6) mem(2), of q] mem
    by (simp add: entry_at_mem)
  ultimately show ?thesis by blast
qed

end
