(* ===== verification/Mantaray_Props.thy ===== *)
theory Mantaray_Props
  imports Mantaray_Save
begin

text \<open>
  What \<open>pkg/manifest/mantaray\<close> promises: a manifest is a map from paths to entries, kept by every
  operation and by saving and opening it again; and two ways in which it loses changes.
\<close>

section \<open>A concrete manifest\<close>

text \<open>
  One path with an entry of one byte. Two nodes are saved, of 97 and 130 bytes, and the storage
  refers to data by the length.
\<close>

definition mt_rnd :: "bytes \<Rightarrow> bytes" where
  "mt_rnd _ = replicate 32 0"

definition mt_saver :: "bytes \<Rightarrow> merror + bytes" where
  "mt_saver d = Inr [of_nat (length d)]"

definition mt_data :: "u8 \<Rightarrow> bytes \<Rightarrow> bytes option \<Rightarrow> ndata" where
  "mt_data t entry ref = \<lparr>mn_type = t, mn_refBytesSize = 1, mn_key = replicate 32 0, mn_ref = ref,
                         mn_entry = entry, mn_metadata = None\<rparr>"

definition mt_unsaved :: "u8 \<Rightarrow> bytes \<Rightarrow> ndata" where
  "mt_unsaved t entry = (mt_data t entry None)\<lparr>mn_key := []\<rparr>"

definition mt_forks :: mforks where
  "mt_forks = [(1, Fork [1] (MNode (mt_data 2 [7] (Some [97])) None))]"

definition mt_leaf :: mnode where "mt_leaf = MNode (mt_unsaved 2 [7]) (Some [])"
definition mt_root :: mnode where "mt_root = MNode (mt_unsaved 4 []) (Some [(1, Fork [1] mt_leaf)])"

definition mt_json :: menv where
  "mt_json = \<lparr>json_Marshal = (\<lambda>_. []), json_Unmarshal = (\<lambda>_. Some None), me_loader = None, me_saver = None\<rparr>"

definition mt_written :: "u8 \<Rightarrow> bytes \<Rightarrow> mforks \<Rightarrow> bytes" where
  "mt_written t entry fs = crypt_data (replicate 32 0) (plain mt_json (MNode (mt_data t entry None) (Some fs)) fs)"

definition mt_env :: menv where
  "mt_env = mt_json\<lparr>me_loader := Some (\<lambda>r. Inr (if r = [97] then mt_written 2 [7] [] else mt_written 4 [] mt_forks)),
                    me_saver := Some mt_saver\<rparr>"

lemma mt_adds: "mn_adds mt_env mn_New [([1], [7], None)] = (MOk (), mt_root)"
  by (simp add: mn_Add.simps add_size_def mn_New_def zero_ndata_def add_load_def fork_at_def assign_fork_def
      new_child_def put_value_def metadata_len_def updateIsWithPathSeparator_def PathSeparator_def
      makeNotWithPathSeparator_def makeEdge_def makeValue_def or_type_def put_fork_def nodePrefixMaxSize_def
      nodeForkPreReferenceSize_def nodeForkHeaderSize_def mt_root_def mt_leaf_def mt_unsaved_def mt_data_def
      nodeTypeValue_def nodeTypeEdge_def nodeTypeMask_def nodeTypeWithPathSeparator_def on_dat_def set_forks_def)

lemma filter_single: "distinct xs \<Longrightarrow> x \<in> set xs \<Longrightarrow> filter (\<lambda>i. i = x) xs = [x]"
  by (induction xs) (auto simp: filter_empty_conv)

lemma mt_store: "list_all (store_has mt_env mt_saver 1) (mn_writes mt_env mt_saver mt_rnd [] mt_root)"
proof -
  have w0: "all_writable e 1 []" for e by (simp add: all_writable_def)
  have w1: "all_writable mt_env 1 mt_forks"
    by (auto simp: all_writable_def mt_forks_def writable_def metadata_ok_def IsWithMetadataType_def
        nodeTypeWithMetadata_def mt_data_def nodePrefixMaxSize_def nodeForkPreReferenceSize_def nodeForkHeaderSize_def
        split: if_splits)
  have json: "json_Marshal mt_env = json_Marshal mt_json" by (simp add: mt_env_def mt_json_def)
  have "fork_tail mt_env f = fork_tail mt_json f" for f by (simp only: fork_tail_def json)
  then have plain: "plain mt_env n fs = plain mt_json n fs" for n fs by (simp add: plain_def written_def)
  have leaf: "MarshalBinary mt_env (mt_rnd at) mt_leaf =
      (MOk (mt_written 2 [7] []), MNode (mt_data 2 [7] None) (Some []))" for at
    using MarshalBinary_ok [of mt_leaf "[]" mt_env "mt_rnd at"] w0 plain
    by (simp add: mt_leaf_def mt_unsaved_def mt_data_def mt_rnd_def with_key_def mt_written_def on_dat_def)
  have root: "MarshalBinary mt_env (mt_rnd at) (set_forks (Some mt_forks) mt_root) =
      (MOk (mt_written 4 [] mt_forks), MNode (mt_data 4 [] None) (Some mt_forks))" for at
    using MarshalBinary_ok [of "set_forks (Some mt_forks) mt_root" mt_forks mt_env "mt_rnd at"] w1 plain
    by (simp add: mt_root_def mt_unsaved_def mt_data_def mt_rnd_def with_key_def mt_written_def on_dat_def set_forks_def)
  have v: "length version02HashBytes = 31" by (simp add: version02HashBytes_def)
  have l1: "length (mt_written 2 [7] []) = 97"
    by (simp add: mt_written_def plain_def v mt_data_def written_def present_def)
  have "present mt_forks all_bytes = [1]"
    using filter_single [OF distinct_all_bytes set_all_bytes, of 1] by (simp add: present_def mt_forks_def)
  then have l2: "length (mt_written 4 [] mt_forks) = 130"
    by (simp add: mt_written_def plain_def v mt_data_def written_def mt_forks_def fork_head_def fork_tail_def
        IsWithMetadataType_def nodeTypeWithMetadata_def)
  have "mn_save mt_env mt_saver mt_rnd [1] mt_leaf = (MOk (), MNode (mt_data 2 [7] (Some [97])) None)"
    using leaf [of "[1]"] l1
    by (subst mn_save.simps) (simp add: first_failure_def mt_saver_def mt_leaf_def mt_unsaved_def mt_data_def
        set_forks_def on_dat_def)
  then have forks: "save_fork mt_env mt_saver mt_rnd [] 1 (Fork [1] mt_leaf) = snd (hd mt_forks)"
    by (simp add: save_fork_def mt_forks_def)
  have "mn_writes mt_env mt_saver mt_rnd [1] mt_leaf = [mt_written 2 [7] []]"
    using leaf [of "[1]"] by (subst mn_writes.simps) (simp add: mt_leaf_def mt_unsaved_def mt_data_def set_forks_def)
  moreover have "set_forks (Some [(1, snd (hd mt_forks))]) mt_root = set_forks (Some mt_forks) mt_root"
    by (simp add: mt_forks_def)
  ultimately have "mn_writes mt_env mt_saver mt_rnd [] mt_root = [mt_written 2 [7] [], mt_written 4 [] mt_forks]"
    using root [of "[]"] forks
    by (subst mn_writes.simps) (simp add: mt_root_def mt_unsaved_def mt_data_def)
  then show ?thesis using l1 l2 by (simp add: store_has_def mt_env_def mt_saver_def)
qed

section \<open>The map of a manifest\<close>

text \<open>
  \<open>Lookup\<close> on a well-formed manifest gives the entry the manifest has at the path, or
  \<open>ErrNotFound\<close>. The nodes it loads on the way change nothing that any lookup sees.
\<close>

theorem mantaray_Lookup:
  assumes "manifest e k n" "path \<noteq> []"
  shows "fst (mn_Lookup e n path) =
           (case entry_at e n path of None \<Rightarrow> MErr ErrNotFound | Some (entry, _) \<Rightarrow> MOk entry) \<and>
         manifest e k (snd (mn_Lookup e n path)) \<and> entry_at e (snd (mn_Lookup e n path)) = entry_at e n"
  using mn_Lookup_map [OF assms] by (simp add: same_map_def)

lemma manifest_New: "manifest e k mn_New"
  by (simp add: manifest_mem mn_New_def zero_ndata_def fork_at_def)

lemma mt_manifest: "manifest mt_env 1 mt_root"
  by (simp add: manifest_mem mt_root_def mt_leaf_def mt_unsaved_def mt_data_def fork_at_def nodePrefixMaxSize_def
      nodeForkPreReferenceSize_def nodeForkHeaderSize_def)

lemma mt_entry: "entry_at mt_env mt_root [1] = Some ([7], None)"
  by (simp add: entry_at_mem entry_at_Nil_mem mt_root_def mt_leaf_def mt_unsaved_def mt_data_def fork_at_def
      has_prefix_def IsValueType_def nodeTypeValue_def)

theorem mantaray_Lookup_witness: "fst (mn_Lookup mt_env mt_root [1]) = MOk [7]"
  using mantaray_Lookup [OF mt_manifest, of "[1]"] mt_entry by simp

text \<open>
  C37: \<open>Add\<close> of an entry of the manifest's size, at a path whose node, if there is one, is in memory,
  succeeds and changes the map of the manifest at that path and nowhere else, also where it splits
  a prefix, makes a chain of nodes for a long path or loads what is on the way.
\<close>

theorem mantaray_Add:
  assumes "manifest e k n" "length entry \<in> {0, k}" "k \<le> 256"
    and "\<And>m. seek e n path = Some m \<Longrightarrow> mn_forks m \<noteq> None"
  shows "\<exists>n'. mn_Add e n path entry md = (MOk (), n') \<and> manifest e k n' \<and>
    entry_at e n' =
      (entry_at e n)(path \<mapsto> (entry, if 0 < metadata_len md then md else old_metadata e n path))"
proof -
  obtain n' where "mn_Add e n path entry md = (MOk (), n')" "added e k n path entry md n'"
    using mn_Add_added [of e k n entry path md] assms by blast
  then show ?thesis by (auto simp: added_def)
qed

theorem mantaray_Add_witness:
  "\<exists>n'. mn_Add mt_env mt_root [1, 2] [5] None = (MOk (), n') \<and> entry_at mt_env n' [1] = Some ([7], None)"
proof -
  have "seek mt_env mt_root [1, 2] = None"
    by (simp add: seek_mem mt_root_def mt_leaf_def fork_at_def has_prefix_def)
  then show ?thesis
    using mantaray_Add [OF mt_manifest, of "[5]" "[1, 2]" None] mt_entry by auto
qed

text \<open>
  C38: \<open>Remove\<close> of a path at which a node ends takes that path and every path below it out of the map;
  any other path gives \<open>ErrNotFound\<close> and leaves the map as it is.
\<close>

theorem mantaray_Remove:
  assumes "manifest e k n" "path \<noteq> []" "mn_Remove e n path = (r, n')"
  shows "manifest e k n' \<and>
    (if seek e n path = None then r = MErr ErrNotFound \<and> entry_at e n' = entry_at e n
     else r = MOk () \<and> entry_at e n' = (\<lambda>q. if has_prefix path q then None else entry_at e n q))"
  using mn_Remove_without [OF assms] by (simp add: without_def fun_eq_iff)

theorem mantaray_Remove_witness: "fst (mn_Remove mt_env mt_root [1]) = MOk ()"
proof -
  obtain r n' where r: "mn_Remove mt_env mt_root [1] = (r, n')" by force
  have "seek mt_env mt_root [1] \<noteq> None"
    by (simp add: seek_mem mt_root_def mt_leaf_def fork_at_def has_prefix_def)
  with mantaray_Remove [OF mt_manifest _ r] r show ?thesis by simp
qed

text \<open>
  \<open>HasPrefix\<close> tells whether some path with a node extends the given one, and keeps the map.
\<close>

theorem mantaray_HasPrefix:
  assumes "manifest e k n"
  shows "fst (mn_HasPrefix e n path) = MOk (\<exists>s. seek e n (path @ s) \<noteq> None) \<and>
    entry_at e (snd (mn_HasPrefix e n path)) = entry_at e n"
proof -
  obtain r n' where "mn_HasPrefix e n path = (r, n')" by force
  with mn_HasPrefix_seek [OF assms this] show ?thesis by (simp add: same_map_def)
qed

theorem mantaray_HasPrefix_witness: "fst (mn_HasPrefix mt_env mt_root [2]) = MOk False"
proof -
  have "seek mt_env mt_root ([2] @ s) = None" for s
    by (simp add: seek_mem mt_root_def mt_leaf_def fork_at_def)
  then show ?thesis using mantaray_HasPrefix [OF mt_manifest, of "[2]"] by simp
qed

section \<open>Saving and opening\<close>

lemma saved_reads_back:
  assumes adds: "adds_ok e k adds" "adds \<noteq> []" and k: "0 < k" "k < 256"
    and rnd: "\<forall>p. length (rnd p) = 32" and s: "me_saver e = Some s"
    and store: "list_all (store_has e s k) (mn_writes e s rnd [] (snd (mn_adds e mn_New adds)))"
  shows "\<exists>n n' r. mn_adds e mn_New adds = (MOk (), n) \<and> mn_Save e rnd n = (MOk (), n') \<and>
    mn_ref (dat n') = Some r \<and>
    (\<forall>path. path \<noteq> [] \<longrightarrow> fst (mn_Lookup e (NewNodeRef (Some r)) path) =
       (case adds_map adds path of None \<Rightarrow> MErr ErrNotFound | Some entry \<Rightarrow> MOk entry))"
proof -
  have k': "k \<le> 256" using k(2) by simp
  obtain n where n: "mn_adds e mn_New adds = (MOk (), n)" "mn_ready e k (\<lambda>_. False) n"
    "map_option fst \<circ> entry_at e n = adds_map adds"
    using k(1) k' adds by (rule mn_adds_New)
  obtain n' where n': "mn_save e s rnd [] n = (MOk (), n')" "mn_saved e k n n'"
    using save_ready [of "\<lambda>_. False" e k rnd n s "[]"] k(2) rnd n store by auto
  then obtain r where r: "mn_ref (dat n') = Some r" "frozen e k n'" "entry_at e n' = entry_at e n"
    by (auto simp: mn_saved_def elim: frozen.cases)
  note open_r = reopen [OF r(2,1)]
  have "fst (mn_Lookup e (NewNodeRef (Some r)) path) =
      (case adds_map adds path of None \<Rightarrow> MErr ErrNotFound | Some entry \<Rightarrow> MOk entry)" if "path \<noteq> []" for path
  proof -
    have "adds_map adds path = map_option fst (entry_at e (NewNodeRef (Some r)) path)"
      using open_r that r(3) fun_cong [OF n(3), of path] by simp
    then show ?thesis
      using mn_Lookup_map(1) [of e k "NewNodeRef (Some r)" path] open_r that
      by (cases "entry_at e (NewNodeRef (Some r)) path") auto
  qed
  with n(1) n'(1) r(1) s show ?thesis by (auto simp: mn_Save_def)
qed

lemma mt_saved:
  "\<exists>n' r. mn_Save mt_env mt_rnd mt_root = (MOk (), n') \<and> mn_ref (dat n') = Some r \<and>
     fst (mn_Lookup mt_env (NewNodeRef (Some r)) [1]) = MOk [7] \<and>
     fst (mn_Lookup mt_env (NewNodeRef (Some r)) [2]) = MErr ErrNotFound"
proof -
  have "adds_ok mt_env 1 [([1], [7], None)]" by (simp add: adds_ok_def value_ok_def metadata_len_def)
  moreover have "me_saver mt_env = Some mt_saver" "\<forall>p. length (mt_rnd p) = 32"
    by (simp_all add: mt_env_def mt_rnd_def)
  moreover have "snd (mn_adds mt_env mn_New [([1], [7], None)]) = mt_root" by (simp only: mt_adds snd_conv)
  ultimately
  obtain n' r where "mn_Save mt_env mt_rnd mt_root = (MOk (), n')" "mn_ref (dat n') = Some r"
    "\<forall>path. path \<noteq> [] \<longrightarrow> fst (mn_Lookup mt_env (NewNodeRef (Some r)) path) =
       (case adds_map [([1], [7], None)] path of None \<Rightarrow> MErr ErrNotFound | Some entry \<Rightarrow> MOk entry)"
    using saved_reads_back [of mt_env 1 "[([1], [7], None)]" mt_rnd mt_saver] mt_store mt_adds by auto
  then show ?thesis by (auto simp: adds_map_def)
qed

text \<open>
  C39: A manifest is made by calls of \<open>Add\<close> with entries of one size, saved, and opened by the
  reference of its root. Every call succeeds, and \<open>Lookup\<close> on the opened manifest gives for every
  path the entry that was added last, or \<open>ErrNotFound\<close>. The storage has to give back what was written to
  it under references of the size of the entries, and metadata has to be encoded and decoded by
  \<open>encoding/json\<close> within 64 KiB.
\<close>

theorem mantaray_roundtrip:
  assumes adds: "adds_ok e k adds" "adds \<noteq> []" and k: "0 < k" "k < 256"
    and rnd: "\<forall>p. length (rnd p) = 32" and s: "me_saver e = Some s"
    and store: "list_all (store_has e s k) (mn_writes e s rnd [] (snd (mn_adds e mn_New adds)))"
  shows "\<exists>n n' r. mn_adds e mn_New adds = (MOk (), n) \<and> mn_Save e rnd n = (MOk (), n') \<and>
    mn_ref (dat n') = Some r \<and>
    (\<forall>path. path \<noteq> [] \<longrightarrow> fst (mn_Lookup e (NewNodeRef (Some r)) path) =
       (case adds_map adds path of None \<Rightarrow> MErr ErrNotFound | Some entry \<Rightarrow> MOk entry))"
  by (rule saved_reads_back [OF assms])

theorem mantaray_roundtrip_witness:
  "\<exists>n' r. mn_Save mt_env mt_rnd mt_root = (MOk (), n') \<and> mn_ref (dat n') = Some r \<and>
     fst (mn_Lookup mt_env (NewNodeRef (Some r)) [1]) = MOk [7] \<and>
     fst (mn_Lookup mt_env (NewNodeRef (Some r)) [2]) = MErr ErrNotFound"
proof -
  have "adds_ok mt_env 1 [([1], [7], None)]" by (simp add: adds_ok_def value_ok_def metadata_len_def)
  moreover have "me_saver mt_env = Some mt_saver" "\<forall>p. length (mt_rnd p) = 32"
    by (simp_all add: mt_env_def mt_rnd_def)
  moreover have "snd (mn_adds mt_env mn_New [([1], [7], None)]) = mt_root" by (simp only: mt_adds snd_conv)
  ultimately
  obtain n' r where "mn_Save mt_env mt_rnd mt_root = (MOk (), n')" "mn_ref (dat n') = Some r"
    "\<forall>path. path \<noteq> [] \<longrightarrow> fst (mn_Lookup mt_env (NewNodeRef (Some r)) path) =
       (case adds_map [([1], [7], None)] path of None \<Rightarrow> MErr ErrNotFound | Some entry \<Rightarrow> MOk entry)"
    using mantaray_roundtrip [of mt_env 1 "[([1], [7], None)]" mt_rnd mt_saver] mt_store mt_adds by auto
  then show ?thesis by (auto simp: adds_map_def)
qed

section \<open>Changes that are lost\<close>

text \<open>What lies below a fork is looked up in its node.\<close>

lemma mn_Lookup_below:
  assumes "fork_at n (hd p) = Some (Fork p c)" "p \<noteq> []" "q \<noteq> []"
  shows "fst (mn_Lookup e n (p @ q)) = fst (mn_Lookup e c q)"
proof -
  have "mn_forks n \<noteq> None" using assms(1) by (auto simp: fork_at_def split: option.splits)
  moreover have "common p (p @ q) = p" by (induction p) auto
  ultimately show ?thesis
    using assms
    by (auto simp: mn_Lookup_def LookupNode.simps [of e n "p @ q"] load_forks_def Let_def split: prod.splits mres.splits)
qed

lemma mn_Add_here: "add_size entry n = (None, n0) \<Longrightarrow> mn_Add e n [] entry md = (MOk (), add_here entry md n0)"
  by (simp add: mn_Add.simps [of e n])

lemma add_unloaded_node:
  assumes "mn_forks n = None" "mn_Add e n [] entry md = (MOk (), n')"
  shows "mn_forks n' = None" "mn_ref (dat n') = None"
proof -
  obtain n0 where "add_size entry n = (None, n0)" "n' = add_here entry md n0"
    using assms(2) by (auto simp: mn_Add.simps [of e n] split: prod.splits option.splits)
  then show "mn_forks n' = None" "mn_ref (dat n') = None"
    using assms(1) forks_add_size [of entry n] by (simp_all add: add_here_def)
qed

lemma unloaded_without_ref:
  assumes "mn_forks n = None" "mn_ref (dat n) = None"
  shows "q \<noteq> [] \<Longrightarrow> fst (mn_Lookup e n q) = MErr ErrNotFound" "fst (mn_save e s rnd at n) = MErr ErrInvalidInput"
  using assms
  by (simp_all add: mn_Lookup_def LookupNode.simps [of e n] load_forks_def mn_load_def fork_at_def
        mn_save.simps [of e s rnd at n] first_failure_def MarshalBinary_def set_forks_def)



text \<open>
  A node that was loaded by a lookup keeps its reference when a path below it is added or removed,
  so that saving it afterwards does nothing and the change is lost.
\<close>

theorem mantaray_stale_reference:
  assumes "mn_forks n \<noteq> None" "mn_ref (dat n) = Some r" "path \<noteq> []"
    and "mn_Add e n path entry md = (MOk (), n') \<or> mn_Remove e n path = (MOk (), n')"
  shows "mn_save e s rnd at n' = (MOk (), n') \<and> mn_ref (dat n') = Some r"
proof -
  have ref: "mn_ref (dat (snd (add_size entry n))) = mn_ref (dat n)" by (simp add: add_size_def)
  have asg: "assign_fork b f m = (MOk (), n') \<Longrightarrow> mn_ref (dat n') = mn_ref (dat m)" for b f m
    by (auto simp: assign_fork_def split: if_splits)
  have "mn_ref (dat n') = Some r"
    using assms(4)
  proof
    assume "mn_Add e n path entry md = (MOk (), n')"
    moreover obtain x n0 where n0: "add_size entry n = (x, n0)" by force
    moreover have load: "add_load e n0 = (MOk (), n0)"
      using forks_add_size [of entry n] n0 assms(1) by (auto simp: add_load_def)
    ultimately obtain b f where "assign_fork b f n0 = (MOk (), n')"
      using assms(3)
      by (auto simp: mn_Add.simps [of e n] Let_def split: prod.splits option.splits mres.splits if_splits)
    from asg [OF this] ref n0 assms(2) show ?thesis by simp
  next
    assume "mn_Remove e n path = (MOk (), n')"
    with assms(1-3) show ?thesis
      by (auto simp: mn_Remove.simps [of e n] split: option.splits if_splits prod.splits)
  qed
  then show ?thesis by (simp add: mn_save.simps [of e s rnd at n'])
qed

theorem mantaray_stale_reference_witness:
  "fst (mn_save mt_env mt_saver mt_rnd []
     (snd (mn_Remove mt_env (MNode (mt_data 4 [] (Some [130])) (Some mt_forks)) [1]))) = MOk ()"
proof -
  let ?n = "MNode (mt_data 4 [] (Some [130])) (Some mt_forks)"
  obtain r n' where r: "mn_Remove mt_env ?n [1] = (r, n')" by force
  moreover have "r = MOk ()"
    using r by (subst (asm) mn_Remove.simps) (simp add: fork_at_def mt_forks_def find_sub_Some_0 has_prefix_def)
  ultimately show ?thesis
    using mantaray_stale_reference [of ?n "[130]" "[1]" mt_env "[]" None n'] by (simp add: mt_data_def)
qed

end
