(* ===== verification/Spec2Isabelle.thy ===== *)
theory Spec2Isabelle
  imports Bit_Vector PSlice Skip_Peers Intervals Accounting_Limits Postage_Service Batch_Store_Spec
    Sharky_Recovery Snips_Service_Props Pos_Props Localstore_Faults Pseudosettle_Props Swap_Props
    Soc Mantaray_Props
begin

text \<open>
  A verification development for the storage node of the thesis repository: the Go module
  \<open>code/bee-snips-sup\<close>, the Bee node extended with the SNIPS protocol (finding out which chunks
  neighbours lack) and with proofs of storage and reupload. All paths below are under its \<open>pkg/\<close>.

  The parts and how they interact. A node has an overlay address; \<open>swarm\<close> defines addresses,
  chunks, the proximity order and the distance. \<open>topology\<close> keeps the connected and known peers in
  one slice per proximity order (\<open>topology/pslice\<close>) and computes the depth of the neighbourhood
  (\<open>topology/kademlia\<close>). Chunks are stored by \<open>localstore\<close>: a batch of writes to the indexes
  of \<open>shed\<close>, with the data as blobs in the slots of \<open>sharky\<close>. Each chunk carries a stamp of a postage
  batch (\<open>postage\<close>), issued by the owner's issuer and validated against the batches of
  \<open>postage/batchstore\<close>, which also computes the radius within which a node reserves chunks and tells
  \<open>localstore\<close> what to evict. \<open>accounting\<close> keeps a balance with every peer, in \<open>statestore\<close>.
  \<open>snips\<close> and \<open>pos\<close> run on top of all of these.

  Theories, in the order of the imports, with the code they model.

    \<^item> Prelude: bytes, Go's integers, maps as association lists; the collections of simp rules and
      the locales for a key-value store, a codec and a comparison. Codecs: the contract of the
      binary encodings, interpreted for stamps, batches and chunk locations.
    \<^item> Swarm: \<open>swarm/swarm.go\<close>, \<open>proximity.go\<close>, \<open>distance.go\<close>. Bit\_Vector: \<open>bitvector\<close>, with sets of
      numbers as its specification. PSlice: \<open>topology/pslice\<close>, refined to a set of peers.
      Each call of \<open>Add\<close> takes any list of addresses; the specification counts copies. Skip\_Peers: \<open>skippeers\<close>. Intervals: \<open>intervalstore\<close>, refined to a set of numbers.
      State\_Store: \<open>statestore\<close>, the interface with the in-memory store as its instance.
    \<^item> Kademlia: depth, iteration, closest peers and the changes of the peer sets of
      \<open>topology/kademlia\<close>; Kademlia\_Props says that the depth is what its definition asks for.
      The logarithms and random choices of that package are parameters.
    \<^item> Accounting: \<open>accounting/accounting.go\<close>, every operation on a record of the peers and the state
      store. Accounting\_Ledger refines it to one signed number per peer; Accounting\_Reserve is a
      step relation over prepared, applied and cleaned up actions of all peers, in which a peer
      connects and disconnects at any time, with the invariant that reserves are sums up to what a
      connect has cleared; Accounting\_Limits has the limits on credit and payment.
    \<^item> Postage, Postage\_Props, Postage\_Issuer, Postage\_Service: batches, stamps, encodings, the
      issuer's buckets and the service that saves them; an issuer never gives an index twice, and
      what \<open>Valid\<close> accepts.
    \<^item> Batch\_Store, Batch\_Store\_Ops, Batch\_Store\_Props, Batch\_Store\_Spec: \<open>postage/batchstore\<close>
      (store and reserve), against the map of batches, with the invariant of all reached states.
    \<^item> Sharky, Sharky\_Slots, Sharky\_Props, Sharky\_Recovery: \<open>sharky\<close>; a shard with its goroutines is a
      state, and its steps are interleaved over all shards; each slot has one holder. A shard has
      fewer than \<open>2 ^ 32\<close> slots: the wrap of the slot number is excluded.
    \<^item> Shed, Localstore, Localstore\_Ops, Localstore\_GC: the layout of the indexes, reading, \<open>Put\<close>,
      \<open>Set\<close>, access times, garbage collection and eviction from the reserve. Localstore\_View reads
      the indexes as maps and Localstore\_Inv, \_Data, \_Hist and \_Reach show that every operation, in
      any interleaving with the three phases of a collection, keeps the invariant of the indexes
      and of the blobs: \<open>ls_step\<close> has \<open>Put\<close> and \<open>Set\<close> of any number of chunks and access updates
      that run any time after their read, and \<open>orderly\<close> states the three conditions under which
      the invariant is kept and which the code does not check (no put replaces a stored chunk
      twice, no set names an address twice, no access update comes after its chunk was removed and put
      again). For each chunk that a put writes, \<open>envs_ok\<close> names a shard that exists and has room. Localstore\_Props and Localstore\_Faults hold the properties.
    \<^item> Snips, Snips\_Proofs, Snips\_Reconcile, Snips\_Service, Snips\_Service\_Props, Snips\_Faults:
      \<open>snips\<close>, from the construction of the perfect hash over collisions to what one round of the
      protocol delivers.
    \<^item> Pos, Pos\_Props: \<open>pos\<close> and \<open>pos/sender\<close>.
    \<^item> Pseudosettle, Pseudosettle\_Props: \<open>settlement/pseudosettle\<close>, the free allowance per second:
      what a round of a refreshment does to the ledgers of both peers, and the rate it keeps to.
    \<^item> Chequebook, Chequebook\_Props, Swap, Swap\_Props: \<open>settlement/swap\<close>. Issuing cheques is a step
      relation in which calls run concurrently, the stores may fail and the chain moves on between any
      two steps, with the invariant that the funds cover the sent cheques up to three quantities
      the code does not guard (a call that fails after its cheque was sent, two answers of the
      contract that do not fit together, a withdrawal of amounts in use); receiving them is related to the payout of the contract, and a payment by cheque
      to the ledgers of both peers.

    \<^item> Bmt: \<open>bmt\<close> and \<open>bmt/reference\<close>, the Merkle tree hash of chunks computed by one goroutine per
      section. Bmt\_Inv, Bmt\_Tree and Bmt\_Go show that every step of a goroutine keeps an invariant
      of the tree, Bmt\_Run and Bmt\_Caller extend it to the caller, and Bmt\_Props concludes that
      every interleaving returns the reference hash, that the tree can be used again and that
      inclusion proofs verify.

    \<^item> Cac, Soc: \<open>cac\<close>, \<open>bmtpool\<close> and \<open>soc\<close>, the two kinds of chunks on top of the hasher: which
      chunks are valid, and that what is made or signed is valid and reads back.

    \<^item> Mantaray, Mantaray\_Ops: \<open>manifest/mantaray\<close> (\<open>node.go\<close>, \<open>marshal.go\<close>, \<open>persist.go\<close>), tries with
      compressed prefixes that are loaded lazily. Mantaray\_Trie defines the map a well-formed manifest
      stands for, coinductively since loading need not end; Mantaray\_Map shows what every operation
      does to it, Mantaray\_Codec that nodes are read back, Mantaray\_Save that a manifest is kept by
      saving and opening it; Mantaray\_Props has the properties and two ways of losing a change.

  Conventions. Records have the fields of the structs, with a prefix; a method is a definition
  with the receiver as an argument that returns its new value. Errors are values of a
  datatype on the left of a sum; a panic is a value of its own where the code can reach one.
  Unsigned integers are words, \<open>int64\<close> sizes of changes and \<open>big.Int\<close> are \<open>int\<close>; where the code relies
  on the width, the type has it. A mutex is the atomicity of a step. What the environment
  decides (the clock, random numbers, whether a write or a stream succeeds, which shard is
  ready, hash functions and signatures) is an argument, and a theorem says what it assumes of it.
  Floating point factors (0.9, 0.5 and 0.1 of a capacity) are written as integer quotients,
  which agree below \<open>2 ^ 49\<close>; the fuzzy parameter gamma of the perfect hash is a rational.

  Bounds and fuel. The only loops that can run for ever are the construction of a perfect hash
  and the worker of the garbage collection; the first is a partial function, with a theorem on
  when it returns and one on when it does not, the second is one run with the trigger of the
  next in its result. All other functions are total.

  Not modelled. The transport (libp2p, streams, handshakes), the HTTP interface, the assembly of
  the node, logging and metrics are glue around third-party packages. What runs on the chain
  (contracts, transactions, events) is a parameter where a modelled part relies on it.
  Cryptography (hashes, signatures, encryption) is a parameter throughout. Push and pull
  synchronisation, retrieval, the upload and download of files and the redistribution game are
  not reached, nor are the walk over a manifest and the manifests in JSON; the manage loop of \<open>topology/kademlia\<close>, which dials peers on timers, is left out, and
  of \<open>statestore\<close> the migrations and the opening of files.
\<close>

end
